(* ===== verification/GshPrelude.thy ===== *)
theory GshPrelude
  imports Main "HOL-Library.Char_ord" "HOL-Library.Word"
begin

text \<open>
  Shared vocabulary of the gsh development: the C types the modelled components use, the
  error numbers they set, the sequencing of C's \<open>&&\<close> over a mutable state, the
  character classes that several components test, and the list facts their proofs share.

  A C buffer given as a pointer and a length is a list of bytes; a byte is a \<open>char\<close>
  (HOL's \<open>char\<close> has exactly 256 values). An array with a count of used cells is the list
  of its used cells, so the count is the length of the list. Sizes and indices
  (\<open>size_t\<close>) are naturals; every bound the code checks is written out.
\<close>

unbundle bit_operations_syntax

section \<open>C types and limits\<close>

type_synonym byte = char
type_synonym size_t = nat
type_synonym uint32 = "32 word"
type_synonym uint64 = "64 word"

abbreviation (input) UINT16_MAX :: nat where "UINT16_MAX \<equiv> 65535"
abbreviation (input) SIZE_MAX :: nat where "SIZE_MAX \<equiv> 18446744073709551615"

datatype errno =
    EINVAL | E2BIG | ENOSPC | ENOENT | EOVERFLOW | EPROTO | EAGAIN | EEXIST | ENAMETOOLONG
  | EROFS

section \<open>Collections\<close>

named_theorems frame_simps \<open>which fields an operation leaves alone\<close>
named_theorems gsh_eval \<open>definitions unfolded to evaluate the model on a concrete input\<close>

section \<open>Sequencing\<close>

text \<open>
  Most operations return \<open>bool\<close> and update a state through a pointer. \<open>and_then\<close> is
  C's \<open>a && b\<close> for such operations: the second runs on the state the first left, and only
  if the first succeeded; the updates made before a failure stay.
\<close>

definition and_then :: "bool \<times> 's \<Rightarrow> ('s \<Rightarrow> bool \<times> 's) \<Rightarrow> bool \<times> 's" where
  "and_then r f = (if fst r then f (snd r) else (False, snd r))"

lemma and_then_simps [simp, gsh_eval]:
  "and_then (True, s) f = f s"
  "and_then (False, s) f = (False, s)"
  by (simp_all add: and_then_def)

lemma and_then_return [simp]: "and_then r (\<lambda>s. (True, s)) = r"
  by (cases r) (simp add: and_then_def)

lemma and_thenE:
  assumes "and_then r f = (b, t)"
  obtains (stop) "r = (False, t)" "\<not> b" | (continue) s where "r = (True, s)" "f s = (b, t)"
  using assms by (cases r) (auto simp: and_then_def split: if_splits)

lemma and_then_True:
  "and_then r f = (True, t) \<longleftrightarrow> (\<exists>s. r = (True, s) \<and> f s = (True, t))"
  by (cases r) (auto simp: and_then_def)

section \<open>Character classes\<close>

abbreviation (input) NL :: byte where "NL \<equiv> CHR 0x0A"
abbreviation (input) TAB :: byte where "TAB \<equiv> CHR 0x09"
abbreviation (input) NUL :: byte where "NUL \<equiv> CHR 0x00"
abbreviation (input) BSLASH :: byte where "BSLASH \<equiv> CHR 0x5C"
abbreviation (input) QUOTE :: byte where "QUOTE \<equiv> CHR 0x27"
abbreviation (input) DQUOTE :: byte where "DQUOTE \<equiv> CHR 0x22"
abbreviation (input) BQUOTE :: byte where "BQUOTE \<equiv> CHR 0x60"

definition upper_byte :: "byte \<Rightarrow> bool" where
  "upper_byte b \<longleftrightarrow> CHR ''A'' \<le> b \<and> b \<le> CHR ''Z''"

definition lower_byte :: "byte \<Rightarrow> bool" where
  "lower_byte b \<longleftrightarrow> CHR ''a'' \<le> b \<and> b \<le> CHR ''z''"

definition digit_byte :: "byte \<Rightarrow> bool" where
  "digit_byte b \<longleftrightarrow> CHR ''0'' \<le> b \<and> b \<le> CHR ''9''"

definition name_start_byte :: "byte \<Rightarrow> bool" where
  "name_start_byte b \<longleftrightarrow> upper_byte b \<or> lower_byte b \<or> b = CHR ''_''"

definition name_byte :: "byte \<Rightarrow> bool" where
  "name_byte b \<longleftrightarrow> upper_byte b \<or> lower_byte b \<or> digit_byte b \<or> b = CHR ''_''"

lemmas byte_class_defs =
  upper_byte_def lower_byte_def digit_byte_def name_start_byte_def name_byte_def

text \<open>The value of a decimal digit, and of a run of them after the value \<open>acc\<close>.\<close>

definition digit_value :: "byte \<Rightarrow> nat" where
  "digit_value b = of_char b - 48"

fun decimal_value :: "nat \<Rightarrow> byte list \<Rightarrow> nat" where
  "decimal_value acc [] = acc"
| "decimal_value acc (b # bs) = decimal_value (acc * 10 + digit_value b) bs"

section \<open>Spans of a buffer\<close>

text \<open>\<open>slice xs b e\<close> is the text from offset \<open>b\<close> up to, not including, \<open>e\<close>.\<close>

definition slice :: "'a list \<Rightarrow> nat \<Rightarrow> nat \<Rightarrow> 'a list" where
  "slice xs b e = take (e - b) (drop b xs)"

lemma length_slice [simp]: "e \<le> length xs \<Longrightarrow> length (slice xs b e) = e - b"
  by (simp add: slice_def)

lemma slice_empty [simp]: "e \<le> b \<Longrightarrow> slice xs b e = []"
  by (simp add: slice_def)

lemma slice_append:
  assumes "a \<le> b" "b \<le> c"
  shows "slice xs a b @ slice xs b c = slice xs a c"
proof -
  have "take (c - a) (drop a xs) = take (b - a + (c - b)) (drop a xs)"
    using assms by simp
  also have "\<dots> = take (b - a) (drop a xs) @ take (c - b) (drop b xs)"
    using assms by (simp only: take_add drop_drop) simp
  finally show ?thesis by (simp add: slice_def)
qed

lemma slice_Suc:
  assumes "b < e" "e \<le> length xs"
  shows "slice xs b e = xs ! b # slice xs (Suc b) e"
proof -
  have "drop b xs = xs ! b # drop (Suc b) xs"
    using assms by (simp add: Cons_nth_drop_Suc)
  then show ?thesis using assms by (simp add: slice_def take_Cons' )
qed

lemma slice_snoc:
  assumes "b \<le> e" "e < length xs"
  shows "slice xs b (Suc e) = slice xs b e @ [xs ! e]"
  using slice_append[of b e "Suc e" xs] assms by (simp add: slice_Suc)

lemma slice_all [simp]: "slice xs 0 (length xs) = xs"
  by (simp add: slice_def)

lemma nth_slice: "b + i < e \<Longrightarrow> e \<le> length xs \<Longrightarrow> slice xs b e ! i = xs ! (b + i)"
  by (simp add: slice_def)

lemma set_slice_nth:
  "x \<in> set (slice xs b e) \<Longrightarrow> e \<le> length xs \<Longrightarrow> \<exists>i. b \<le> i \<and> i < e \<and> xs ! i = x"
proof -
  assume "x \<in> set (slice xs b e)" "e \<le> length xs"
  then obtain i where "i < e - b" "xs ! (b + i) = x"
    by (auto simp: in_set_conv_nth slice_def)
  then show ?thesis by (intro exI[of _ "b + i"]) simp
qed


text \<open>\<open>memcpy\<close> into a buffer: the bytes of \<open>src\<close> replace those from offset \<open>at\<close> on.\<close>

definition copy_bytes :: "byte list \<Rightarrow> nat \<Rightarrow> byte list \<Rightarrow> byte list" where
  "copy_bytes dest at src = take at dest @ src @ drop (at + length src) dest"

lemma length_copy_bytes [simp]:
  "at + length src \<le> length dest \<Longrightarrow> length (copy_bytes dest at src) = length dest"
  by (simp add: copy_bytes_def)

end
