(* ===== verification/Lexer.thy ===== *)
theory Lexer
  imports GshPrelude
begin

text \<open>
  The tokenizer of \<open>src/posix_lexer.c\<close>: the cursor \<open>gsh_lexer\<close>, the operator table, the
  quoting-context stack of a word and \<open>gsh_lexer_next\<close>. A \<open>gsh_lexer\<close> holds its input
  as a byte list, whose length is the C field \<open>length\<close>; the fixed array \<open>context_stack\<close>
  is the list of its used cells with the top first.
\<close>

section \<open>Tokens and the cursor\<close>

datatype gsh_token_kind =
    TOKEN_EOF | TOKEN_WORD | TOKEN_NEWLINE | TOKEN_AND_IF | TOKEN_OR_IF | TOKEN_DSEMI
  | TOKEN_SEMI_AND | TOKEN_DLESS | TOKEN_DGREAT | TOKEN_LESSAND | TOKEN_GREATAND
  | TOKEN_LESSGREAT | TOKEN_DLESSDASH | TOKEN_CLOBBER | TOKEN_AMPERSAND | TOKEN_SEMICOLON
  | TOKEN_PIPE | TOKEN_LPAREN | TOKEN_RPAREN | TOKEN_LESS | TOKEN_GREAT

datatype gsh_lex_status = LEX_OK | LEX_INCOMPLETE | LEX_INVALID | LEX_LIMIT

record gsh_token =
  tok_kind :: gsh_token_kind
  tok_begin :: nat
  tok_end :: nat
  tok_line :: nat
  tok_column :: nat

record gsh_lexer =
  lx_input :: "byte list"
  lx_offset :: nat
  lx_line :: nat
  lx_column :: nat
  lx_status :: gsh_lex_status
  lx_error_offset :: nat

abbreviation lx_length :: "gsh_lexer \<Rightarrow> nat" where
  "lx_length l \<equiv> length (lx_input l)"

abbreviation (input) CONTEXT_CAP :: nat where "CONTEXT_CAP \<equiv> 128"
abbreviation (input) LEXER_TRIVIA_STEP_CAP :: nat where
  "LEXER_TRIVIA_STEP_CAP \<equiv> 1048577"

datatype context_kind =
    CONTEXT_SINGLE | CONTEXT_DOUBLE | CONTEXT_DOLLAR_SINGLE | CONTEXT_BACKQUOTE
  | CONTEXT_PARAMETER | CONTEXT_COMMAND | CONTEXT_ARITHMETIC | CONTEXT_PARENTHESIS

type_synonym context_stack = "context_kind list"

definition OPERATORS :: "(byte list \<times> gsh_token_kind) list" where
  "OPERATORS =
    [(''<<-'', TOKEN_DLESSDASH),
     (''&&'', TOKEN_AND_IF),
     (''||'', TOKEN_OR_IF),
     ('';;'', TOKEN_DSEMI),
     ('';&'', TOKEN_SEMI_AND),
     (''<<'', TOKEN_DLESS),
     (''>>'', TOKEN_DGREAT),
     (''<&'', TOKEN_LESSAND),
     (''>&'', TOKEN_GREATAND),
     (''<>'', TOKEN_LESSGREAT),
     (''>|'', TOKEN_CLOBBER),
     (''&'', TOKEN_AMPERSAND),
     ('';'', TOKEN_SEMICOLON),
     (''|'', TOKEN_PIPE),
     (''('', TOKEN_LPAREN),
     ('')'', TOKEN_RPAREN),
     (''<'', TOKEN_LESS),
     (''>'', TOKEN_GREAT)]"

definition advance_one :: "gsh_lexer \<Rightarrow> gsh_lexer" where
  "advance_one l =
    (let l = (if lx_input l ! lx_offset l = NL
              then l\<lparr>lx_line := Suc (lx_line l), lx_column := 1\<rparr>
              else l\<lparr>lx_column := Suc (lx_column l)\<rparr>)
     in l\<lparr>lx_offset := Suc (lx_offset l)\<rparr>)"

fun advance_count :: "gsh_lexer \<Rightarrow> nat \<Rightarrow> gsh_lexer" where
  "advance_count l 0 = l"
| "advance_count l (Suc count) = advance_count (advance_one l) count"

definition push_context ::
  "gsh_lexer \<Rightarrow> context_stack \<Rightarrow> context_kind \<Rightarrow> bool \<times> gsh_lexer \<times> context_stack" where
  "push_context l stack c =
    (if length stack = CONTEXT_CAP
     then (False, l\<lparr>lx_status := LEX_LIMIT, lx_error_offset := lx_offset l\<rparr>, stack)
     else (True, l, c # stack))"

definition pop_context :: "context_stack \<Rightarrow> context_stack" where
  "pop_context stack = tl stack"

definition starts_with :: "gsh_lexer \<Rightarrow> byte list \<Rightarrow> bool" where
  "starts_with l text \<longleftrightarrow>
    length text \<le> lx_length l - lx_offset l \<and>
    take (length text) (drop (lx_offset l) (lx_input l)) = text"

definition operator_at :: "gsh_lexer \<Rightarrow> (byte list \<times> gsh_token_kind) option" where
  "operator_at l = find (\<lambda>(text, kind). starts_with l text) OPERATORS"

section \<open>Quoting and substitution contexts of a word\<close>

text \<open>
  The scanning functions return the C result with the lexer and the stack they leave. A
  caller that ignores the result (the \<open>$\<close> branches) still sees the lexer status they set.
\<close>

definition begin_substitution ::
  "gsh_lexer \<Rightarrow> context_stack \<Rightarrow> bool \<times> gsh_lexer \<times> context_stack" where
  "begin_substitution l stack =
    (if starts_with l ''$(('' then
       (case push_context l stack CONTEXT_ARITHMETIC of
          (False, l, stack) \<Rightarrow> (False, l, stack)
        | (True, l, stack) \<Rightarrow> (True, advance_count l 3, stack))
     else if starts_with l ''$('' then
       (case push_context l stack CONTEXT_COMMAND of
          (False, l, stack) \<Rightarrow> (False, l, stack)
        | (True, l, stack) \<Rightarrow> (True, advance_count l 2, stack))
     else if starts_with l ''${'' then
       (case push_context l stack CONTEXT_PARAMETER of
          (False, l, stack) \<Rightarrow> (False, l, stack)
        | (True, l, stack) \<Rightarrow> (True, advance_count l 2, stack))
     else if starts_with l [CHR ''$'', QUOTE] then
       (case push_context l stack CONTEXT_DOLLAR_SINGLE of
          (False, l, stack) \<Rightarrow> (False, l, stack)
        | (True, l, stack) \<Rightarrow> (True, advance_count l 2, stack))
     else (False, l, stack))"

definition consume_escape :: "gsh_lexer \<Rightarrow> gsh_lexer" where
  "consume_escape l =
    (let l = advance_one l
     in if lx_offset l < lx_length l then advance_one l else l)"

definition push_and_advance ::
  "gsh_lexer \<Rightarrow> context_stack \<Rightarrow> context_kind \<Rightarrow> bool \<times> gsh_lexer \<times> context_stack" where
  "push_and_advance l stack c =
    (case push_context l stack c of
       (False, l, stack) \<Rightarrow> (False, l, stack)
     | (True, l, stack) \<Rightarrow> (True, advance_one l, stack))"

definition dollar_or_advance ::
  "gsh_lexer \<Rightarrow> context_stack \<Rightarrow> byte \<Rightarrow> bool \<times> gsh_lexer \<times> context_stack" where
  "dollar_or_advance l stack b =
    (if b \<noteq> CHR ''$'' then (True, advance_one l, stack)
     else (case begin_substitution l stack of
             (True, l, stack) \<Rightarrow> (True, l, stack)
           | (False, l, stack) \<Rightarrow> (True, advance_one l, stack)))"

definition scan_plain_word_byte ::
  "gsh_lexer \<Rightarrow> context_stack \<Rightarrow> byte \<Rightarrow> bool \<times> gsh_lexer \<times> context_stack" where
  "scan_plain_word_byte l stack b =
    (if b = BSLASH then (True, consume_escape l, stack)
     else if b = QUOTE then push_and_advance l stack CONTEXT_SINGLE
     else if b = DQUOTE then push_and_advance l stack CONTEXT_DOUBLE
     else if b = BQUOTE then push_and_advance l stack CONTEXT_BACKQUOTE
     else dollar_or_advance l stack b)"

definition scan_quoted_word_byte ::
  "gsh_lexer \<Rightarrow> context_stack \<Rightarrow> context_kind \<Rightarrow> byte \<Rightarrow> bool \<times> gsh_lexer \<times> context_stack" where
  "scan_quoted_word_byte l stack c b =
    (if c = CONTEXT_SINGLE then
       (True, advance_one l, if b = QUOTE then pop_context stack else stack)
     else if c = CONTEXT_DOLLAR_SINGLE then
       (if b = BSLASH then (True, consume_escape l, stack)
        else (True, advance_one l, if b = QUOTE then pop_context stack else stack))
     else if c = CONTEXT_BACKQUOTE then
       (if b = BSLASH then (True, consume_escape l, stack)
        else (True, advance_one l, if b = BQUOTE then pop_context stack else stack))
     else if b = DQUOTE then (True, advance_one l, pop_context stack)
     else if b = BSLASH then (True, consume_escape l, stack)
     else if b = BQUOTE then push_and_advance l stack CONTEXT_BACKQUOTE
     else dollar_or_advance l stack b)"

definition scan_nested_tail ::
  "gsh_lexer \<Rightarrow> context_stack \<Rightarrow> context_kind \<Rightarrow> byte \<Rightarrow> bool \<times> gsh_lexer \<times> context_stack" where
  "scan_nested_tail l stack c b =
    (if c = CONTEXT_PARAMETER \<and> b = CHR ''}'' then (True, advance_one l, pop_context stack)
     else if (c = CONTEXT_COMMAND \<or> c = CONTEXT_PARENTHESIS) \<and> b = CHR ''('' then
       push_and_advance l stack CONTEXT_PARENTHESIS
     else if (c = CONTEXT_PARENTHESIS \<or> c = CONTEXT_COMMAND) \<and> b = CHR '')'' then
       (True, advance_one l, pop_context stack)
     else if c = CONTEXT_ARITHMETIC \<and> starts_with l ''))'' then
       (True, advance_count l 2, pop_context stack)
     else if c = CONTEXT_ARITHMETIC \<and> b = CHR ''('' then
       push_and_advance l stack CONTEXT_PARENTHESIS
     else (True, advance_one l, stack))"

definition scan_nested_word_byte ::
  "gsh_lexer \<Rightarrow> context_stack \<Rightarrow> context_kind \<Rightarrow> byte \<Rightarrow> bool \<times> gsh_lexer \<times> context_stack" where
  "scan_nested_word_byte l stack c b =
    (if b = BSLASH then (True, consume_escape l, stack)
     else if b = QUOTE then push_and_advance l stack CONTEXT_SINGLE
     else if b = DQUOTE then push_and_advance l stack CONTEXT_DOUBLE
     else if b = BQUOTE then push_and_advance l stack CONTEXT_BACKQUOTE
     else if b = CHR ''$'' then
       (case begin_substitution l stack of
          (True, l, stack) \<Rightarrow> (True, l, stack)
        | (False, l, stack) \<Rightarrow> scan_nested_tail l stack c b)
     else scan_nested_tail l stack c b)"

section \<open>Frames and progress of the scanning functions\<close>

lemma advance_one_fields [simp, frame_simps]:
  "lx_input (advance_one l) = lx_input l"
  "lx_offset (advance_one l) = Suc (lx_offset l)"
  "lx_status (advance_one l) = lx_status l"
  "lx_error_offset (advance_one l) = lx_error_offset l"
  by (simp_all add: advance_one_def Let_def)

lemma advance_count_fields [simp, frame_simps]:
  "lx_input (advance_count l n) = lx_input l"
  "lx_offset (advance_count l n) = lx_offset l + n"
  "lx_status (advance_count l n) = lx_status l"
  "lx_error_offset (advance_count l n) = lx_error_offset l"
  by (induction l n rule: advance_count.induct) simp_all

lemma consume_escape_fields [simp, frame_simps]:
  "lx_input (consume_escape l) = lx_input l"
  "lx_status (consume_escape l) = lx_status l"
  by (simp_all add: consume_escape_def Let_def)

lemma consume_escape_offset:
  "lx_offset (consume_escape l) =
    (if Suc (lx_offset l) < lx_length l then lx_offset l + 2 else Suc (lx_offset l))"
  by (simp add: consume_escape_def Let_def)

subsection \<open>Source positions\<close>

text \<open>
  The line and column of an offset, as an editor counts them: lines from 1, columns from 1,
  a newline ends its line. \<open>position_ok\<close> says that a cursor is inside its input and that
  its counters agree with its offset. A read past the end of the input would leave the
  counters unspecified, so keeping \<open>position_ok\<close> also means never reading there.
\<close>

definition line_of :: "byte list \<Rightarrow> nat \<Rightarrow> nat" where
  "line_of s n = Suc (count_list (take n s) NL)"

definition column_of :: "byte list \<Rightarrow> nat \<Rightarrow> nat" where
  "column_of s n = Suc (length (takeWhile (\<lambda>b. b \<noteq> NL) (rev (take n s))))"

definition position_ok :: "gsh_lexer \<Rightarrow> bool" where
  "position_ok l \<longleftrightarrow> lx_offset l \<le> lx_length l \<and>
    lx_line l = line_of (lx_input l) (lx_offset l) \<and>
    lx_column l = column_of (lx_input l) (lx_offset l)"

lemma position_ok_fields [simp]:
  "position_ok (l\<lparr>lx_status := st\<rparr>) = position_ok l"
  "position_ok (l\<lparr>lx_error_offset := eo\<rparr>) = position_ok l"
  by (simp_all add: position_ok_def)

lemma position_ok_offset: "position_ok l \<Longrightarrow> lx_offset l \<le> lx_length l"
  by (simp add: position_ok_def)

lemma position_ok_advance_one:
  "position_ok l \<Longrightarrow> lx_offset l < lx_length l \<Longrightarrow> position_ok (advance_one l)"
  by (simp add: position_ok_def advance_one_def Let_def line_of_def column_of_def
      take_Suc_conv_app_nth)

lemma position_ok_advance_count:
  "position_ok l \<Longrightarrow> lx_offset l + n \<le> lx_length l \<Longrightarrow> position_ok (advance_count l n)"
  by (induction l n rule: advance_count.induct) (simp_all add: position_ok_advance_one)

lemma position_ok_consume_escape:
  "position_ok l \<Longrightarrow> lx_offset l < lx_length l \<Longrightarrow> position_ok (consume_escape l)"
  by (simp add: consume_escape_def Let_def position_ok_advance_one)

lemma starts_with_bound: "starts_with l text \<Longrightarrow> lx_offset l \<le> lx_length l \<Longrightarrow>
    lx_offset l + length text \<le> lx_length l"
  unfolding starts_with_def by linarith

lemma starts_with_slice:
  "starts_with l text \<Longrightarrow> slice (lx_input l) (lx_offset l) (lx_offset l + length text) = text"
  by (simp add: starts_with_def slice_def)

subsection \<open>What one step of a word scan guarantees\<close>

text \<open>
  \<open>scan_keeps l st r\<close>: the step keeps the input, never moves back, keeps the position
  counters right, never fills the context array past its capacity and touches the status
  only to report \<open>LEX_LIMIT\<close>. \<open>scan_moves\<close> adds that a successful step moves forward
  (the scan loop's termination) and that a failing one has set the status.
\<close>

definition scan_keeps ::
  "gsh_lexer \<Rightarrow> context_stack \<Rightarrow> bool \<times> gsh_lexer \<times> context_stack \<Rightarrow> bool" where
  "scan_keeps l st r \<longleftrightarrow> (case r of (ok, l', st') \<Rightarrow>
    lx_input l' = lx_input l \<and> lx_offset l \<le> lx_offset l' \<and>
    (position_ok l \<and> lx_offset l < lx_length l \<longrightarrow> position_ok l') \<and>
    (length st \<le> CONTEXT_CAP \<longrightarrow> length st' \<le> CONTEXT_CAP) \<and>
    (lx_status l' = lx_status l \<or> lx_status l' = LEX_LIMIT))"

definition scan_moves ::
  "gsh_lexer \<Rightarrow> context_stack \<Rightarrow> bool \<times> gsh_lexer \<times> context_stack \<Rightarrow> bool" where
  "scan_moves l st r \<longleftrightarrow> scan_keeps l st r \<and>
    (case r of (ok, l', st') \<Rightarrow>
      (ok \<longrightarrow> lx_offset l < lx_offset l') \<and>
      (\<not> ok \<longrightarrow> lx_status l' = LEX_LIMIT \<and> lx_offset l' = lx_offset l))"

lemmas scan_defs = scan_keeps_def scan_moves_def

lemma push_context_keeps: "scan_keeps l st (push_context l st c)"
  by (simp add: scan_defs push_context_def)

lemma advance_moves:
  "length st' \<le> length st \<Longrightarrow> scan_moves l st (True, advance_one l, st')"
  by (simp add: scan_defs position_ok_advance_one)

lemma consume_escape_moves: "scan_moves l st (True, consume_escape l, st)"
  by (simp add: scan_defs consume_escape_offset position_ok_consume_escape)

lemma push_and_advance_moves: "scan_moves l st (push_and_advance l st c)"
  by (simp add: scan_defs push_and_advance_def push_context_def position_ok_advance_one)

lemma begin_substitution_keeps:
  "scan_keeps l st (begin_substitution l st) \<and>
    (case begin_substitution l st of (ok, l', st') \<Rightarrow>
      (ok \<longrightarrow> lx_offset l < lx_offset l') \<and>
      (\<not> ok \<longrightarrow> lx_offset l' = lx_offset l \<and> st' = st))"
proof -
  have pos: "position_ok l \<Longrightarrow> starts_with l s \<Longrightarrow> length s = n \<Longrightarrow>
      position_ok (advance_count l n)" for s n
    by (metis position_ok_advance_count position_ok_offset starts_with_bound)
  show ?thesis
    using pos[of "''$(''" 2] pos[of "''${''" 2] pos[of "[CHR ''$'', QUOTE]" 2] pos[of "''$((''" 3]
    by (simp add: scan_defs begin_substitution_def push_context_def)
qed

lemma pop_context_length: "length (pop_context st) \<le> length st"
  by (simp add: pop_context_def)

lemma dollar_or_advance_moves: "scan_moves l st (dollar_or_advance l st b)"
proof (cases "b = CHR ''$''")
  case True
  obtain ok l' st' where r: "begin_substitution l st = (ok, l', st')"
    by (metis prod_cases3)
  with begin_substitution_keeps[of l st] True show ?thesis
    by (cases ok) (auto simp: scan_defs dollar_or_advance_def position_ok_advance_one)
next
  case False
  then show ?thesis by (simp add: dollar_or_advance_def advance_moves)
qed

lemma scan_plain_moves: "scan_moves l st (scan_plain_word_byte l st b)"
  by (simp add: scan_plain_word_byte_def consume_escape_moves push_and_advance_moves
      dollar_or_advance_moves)

lemma scan_quoted_moves: "scan_moves l st (scan_quoted_word_byte l st c b)"
  by (simp add: scan_quoted_word_byte_def consume_escape_moves push_and_advance_moves
      dollar_or_advance_moves advance_moves pop_context_length)

lemma scan_nested_tail_moves: "scan_moves l st (scan_nested_tail l st c b)"
proof -
  have "scan_moves l st (True, advance_count l 2, pop_context st)" if "starts_with l ''))''"
    using that pop_context_length[of st]
    using starts_with_bound[OF that]
    by (simp add: scan_defs position_ok_advance_count position_ok_offset)
  then show ?thesis
    by (simp add: scan_nested_tail_def push_and_advance_moves advance_moves pop_context_length)
qed

lemma scan_nested_moves: "scan_moves l st (scan_nested_word_byte l st c b)"
proof (cases "b = CHR ''$''")
  case True
  obtain ok l' st' where r: "begin_substitution l st = (ok, l', st')"
    by (metis prod_cases3)
  note k = begin_substitution_keeps[of l st]
  show ?thesis
  proof (cases ok)
    case True
    with r k \<open>b = _\<close> show ?thesis by (simp add: scan_nested_word_byte_def scan_defs)
  next
    case False
    with r k \<open>b = _\<close> scan_nested_tail_moves[of l' st c b] show ?thesis
      by (auto simp: scan_nested_word_byte_def scan_defs split: prod.splits)
  qed
next
  case False
  then show ?thesis
    by (simp add: scan_nested_word_byte_def consume_escape_moves push_and_advance_moves
        scan_nested_tail_moves)
qed

section \<open>Scanning a word\<close>

text \<open>
  The loop of \<open>scan_word\<close>. With an empty stack the context variable is
  \<open>CONTEXT_PARENTHESIS\<close>, as in the C, but it is not used there. Each iteration moves the
  cursor forward, which is the termination measure.
\<close>

definition quoted_context :: "context_kind \<Rightarrow> bool" where
  "quoted_context c \<longleftrightarrow> c = CONTEXT_SINGLE \<or> c = CONTEXT_DOLLAR_SINGLE \<or>
     c = CONTEXT_BACKQUOTE \<or> c = CONTEXT_DOUBLE"

definition scan_word_byte ::
  "gsh_lexer \<Rightarrow> context_stack \<Rightarrow> byte \<Rightarrow> bool \<times> gsh_lexer \<times> context_stack" where
  "scan_word_byte l stack b =
    (case stack of
       [] \<Rightarrow> scan_plain_word_byte l stack b
     | c # _ \<Rightarrow> if quoted_context c then scan_quoted_word_byte l stack c b
                else scan_nested_word_byte l stack c b)"

definition word_ends :: "gsh_lexer \<Rightarrow> byte \<Rightarrow> bool" where
  "word_ends l b \<longleftrightarrow> b = CHR '' '' \<or> b = TAB \<or> b = NL \<or> operator_at l \<noteq> None"

lemma scan_word_byte_moves: "scan_moves l st (scan_word_byte l st b)"
  by (simp add: scan_word_byte_def scan_plain_moves scan_quoted_moves scan_nested_moves
      split: list.split)

function scan_word_loop :: "gsh_lexer \<Rightarrow> context_stack \<Rightarrow> bool \<times> gsh_lexer" where
  "scan_word_loop l stack =
    (if lx_offset l < lx_length l then
       (let b = lx_input l ! lx_offset l in
        if b = NUL then
          (False, l\<lparr>lx_status := LEX_INVALID, lx_error_offset := lx_offset l\<rparr>)
        else if stack = [] \<and> word_ends l b then (True, l)
        else (case scan_word_byte l stack b of
                (False, l, stack) \<Rightarrow> (False, l)
              | (True, l, stack) \<Rightarrow> scan_word_loop l stack))
     else if stack \<noteq> [] then
       (False, l\<lparr>lx_status := LEX_INCOMPLETE, lx_error_offset := lx_offset l\<rparr>)
     else (True, l))"
  by pat_completeness auto
termination
proof (relation "measure (\<lambda>(l, stack). lx_length l - lx_offset l)", simp, goal_cases)
  case (1 l stack b ok p l' stack')
  have "scan_moves l stack (True, l', stack')"
    using scan_word_byte_moves[of l stack b] 1 by auto
  with 1 show ?case by (auto simp: scan_defs)
qed

declare scan_word_loop.simps [simp del]

definition scan_word :: "gsh_lexer \<Rightarrow> bool \<times> gsh_lexer" where
  "scan_word l = scan_word_loop l []"

definition word_continues :: "gsh_lexer \<Rightarrow> context_stack \<Rightarrow> bool" where
  "word_continues l stack \<longleftrightarrow> lx_offset l < lx_length l \<and>
    lx_input l ! lx_offset l \<noteq> NUL \<and>
    (stack = [] \<longrightarrow> \<not> word_ends l (lx_input l ! lx_offset l))"

lemma scan_word_loop_step:
  "word_continues l st \<Longrightarrow> scan_word_loop l st =
    (case scan_word_byte l st (lx_input l ! lx_offset l) of
       (False, l, st) \<Rightarrow> (False, l) | (True, l, st) \<Rightarrow> scan_word_loop l st)"
  by (subst scan_word_loop.simps) (auto simp: word_continues_def Let_def)

lemma scan_word_loop_stop:
  "\<not> word_continues l st \<Longrightarrow> scan_word_loop l st =
    (if lx_offset l < lx_length l \<and> lx_input l ! lx_offset l = NUL
       then (False, l\<lparr>lx_status := LEX_INVALID, lx_error_offset := lx_offset l\<rparr>)
     else if lx_length l \<le> lx_offset l \<and> st \<noteq> []
       then (False, l\<lparr>lx_status := LEX_INCOMPLETE, lx_error_offset := lx_offset l\<rparr>)
     else (True, l))"
  by (subst scan_word_loop.simps) (auto simp: word_continues_def Let_def)

lemma scan_word_loop_induct [case_names stop fail step]:
  assumes "\<And>l st. \<not> word_continues l st \<Longrightarrow> P l st"
    and "\<And>l st m st2. word_continues l st \<Longrightarrow>
      scan_word_byte l st (lx_input l ! lx_offset l) = (False, m, st2) \<Longrightarrow> P l st"
    and "\<And>l st m st2. word_continues l st \<Longrightarrow>
      scan_word_byte l st (lx_input l ! lx_offset l) = (True, m, st2) \<Longrightarrow> P m st2 \<Longrightarrow> P l st"
  shows "P l st"
proof (induction "lx_length l - lx_offset l" arbitrary: l st rule: less_induct)
  case (less l st)
  let ?r = "scan_word_byte l st (lx_input l ! lx_offset l)"
  obtain k m st2 where r: "?r = (k, m, st2)" by (metis prod_cases3)
  have moves: "scan_moves l st (k, m, st2)"
    using scan_word_byte_moves[of l st] r by metis
  show ?case
  proof (cases "word_continues l st")
    case True
    show ?thesis
    proof (cases k)
      case True
      with moves \<open>word_continues l st\<close>
      have "lx_length m - lx_offset m < lx_length l - lx_offset l"
        by (auto simp: scan_defs word_continues_def)
      then have "P m st2" by (rule less)
      with assms(3)[of l st m st2] \<open>word_continues l st\<close> r True show ?thesis by simp
    next
      case False
      with assms(2)[of l st m st2] \<open>word_continues l st\<close> r show ?thesis by simp
    qed
  qed (rule assms(1))
qed

text \<open>The scan keeps the input and the position counters, and leaves a status only on failure
  or, for a nesting overflow behind a \<open>$\<close>, as \<open>LEX_LIMIT\<close>.\<close>

lemma scan_word_loop_keeps:
  assumes "scan_word_loop l st = (ok, l')"
  shows "lx_input l' = lx_input l \<and> lx_offset l \<le> lx_offset l' \<and>
    (position_ok l \<longrightarrow> position_ok l') \<and> (\<not> ok \<longrightarrow> lx_status l' \<noteq> LEX_OK)"
  using assms
proof (induction l st rule: scan_word_loop_induct)
  case (stop l st)
  then show ?case by (auto simp: scan_word_loop_stop split: if_splits)
next
  case (fail l st m st2)
  with scan_word_byte_moves[of l st "lx_input l ! lx_offset l"] show ?case
    by (auto simp: scan_word_loop_step scan_defs word_continues_def)
next
  case (step l st m st2)
  with scan_word_byte_moves[of l st "lx_input l ! lx_offset l"] show ?case
    by (auto simp: scan_word_loop_step scan_defs word_continues_def)
qed

section \<open>The next token\<close>

text \<open>
  The trivia loop of \<open>gsh_lexer_next\<close>: blanks, line continuations and comments, with the
  step counter of the C loop. It returns whether the counter reached its cap.
\<close>

function skip_while :: "(byte \<Rightarrow> bool) \<Rightarrow> gsh_lexer \<Rightarrow> gsh_lexer" where
  "skip_while p l =
    (if lx_offset l < lx_length l \<and> p (lx_input l ! lx_offset l)
     then skip_while p (advance_one l) else l)"
  by pat_completeness auto
termination by (relation "measure (\<lambda>(p, l). lx_length l - lx_offset l)") auto

declare skip_while.simps [simp del]

definition blank_byte :: "byte \<Rightarrow> bool" where
  "blank_byte b \<longleftrightarrow> b = CHR '' '' \<or> b = TAB"

function skip_trivia :: "nat \<Rightarrow> gsh_lexer \<Rightarrow> bool \<times> gsh_lexer" where
  "skip_trivia step l =
    (if step < LEXER_TRIVIA_STEP_CAP then
       (let l = skip_while blank_byte l in
        if Suc (lx_offset l) < lx_length l \<and> lx_input l ! lx_offset l = BSLASH \<and>
           lx_input l ! Suc (lx_offset l) = NL
        then skip_trivia (Suc step) (advance_count l 2)
        else if lx_offset l < lx_length l \<and> lx_input l ! lx_offset l = CHR ''#''
        then skip_trivia (Suc step) (skip_while (\<lambda>b. b \<noteq> NL) l)
        else (False, l))
     else (True, l))"
  by pat_completeness auto
termination by (relation "measure (\<lambda>(step, l). LEXER_TRIVIA_STEP_CAP - step)") auto

declare skip_trivia.simps [simp del]

definition gsh_lexer_init :: "byte list \<Rightarrow> gsh_lexer" where
  "gsh_lexer_init input =
    \<lparr>lx_input = input, lx_offset = 0, lx_line = 1, lx_column = 1,
     lx_status = LEX_OK, lx_error_offset = 0\<rparr>"

definition lexer_error :: "gsh_lex_status \<Rightarrow> gsh_lexer \<Rightarrow> gsh_lexer" where
  "lexer_error st l = l\<lparr>lx_status := st, lx_error_offset := lx_offset l\<rparr>"

definition gsh_lexer_next ::
  "gsh_lexer \<Rightarrow> gsh_token \<Rightarrow> gsh_lex_status \<times> gsh_lexer \<times> gsh_token" where
  "gsh_lexer_next l token =
    (if lx_status l \<noteq> LEX_OK then (lx_status l, l, token)
     else case skip_trivia 0 l of
       (True, l) \<Rightarrow> (LEX_LIMIT, lexer_error LEX_LIMIT l, token)
     | (False, l) \<Rightarrow>
        let token = token\<lparr>tok_begin := lx_offset l, tok_end := lx_offset l,
                          tok_line := lx_line l, tok_column := lx_column l\<rparr>
        in if lx_offset l = lx_length l then (LEX_OK, l, token\<lparr>tok_kind := TOKEN_EOF\<rparr>)
        else if lx_input l ! lx_offset l = NUL then
          (LEX_INVALID, lexer_error LEX_INVALID l, token)
        else if lx_input l ! lx_offset l = NL then
          (let l = advance_one l
           in (LEX_OK, l, token\<lparr>tok_kind := TOKEN_NEWLINE, tok_end := lx_offset l\<rparr>))
        else case operator_at l of
          Some (oper, kind) \<Rightarrow>
            (let l = advance_count l (length oper)
             in (LEX_OK, l, token\<lparr>tok_kind := kind, tok_end := lx_offset l\<rparr>))
        | None \<Rightarrow>
            (let token = token\<lparr>tok_kind := TOKEN_WORD\<rparr> in
             case scan_word l of
               (False, l) \<Rightarrow> (lx_status l, l, token)
             | (True, l) \<Rightarrow>
                 (let token = token\<lparr>tok_end := lx_offset l\<rparr>
                  in if tok_end token = tok_begin token
                     then (LEX_INVALID, lexer_error LEX_INVALID l, token)
                     else (LEX_OK, l, token))))"

definition gsh_token_kind_name :: "gsh_token_kind \<Rightarrow> byte list" where
  "gsh_token_kind_name kind = (case kind of
     TOKEN_EOF \<Rightarrow> ''EOF'' | TOKEN_WORD \<Rightarrow> ''WORD'' | TOKEN_NEWLINE \<Rightarrow> ''NEWLINE''
   | TOKEN_AND_IF \<Rightarrow> ''AND_IF'' | TOKEN_OR_IF \<Rightarrow> ''OR_IF'' | TOKEN_DSEMI \<Rightarrow> ''DSEMI''
   | TOKEN_SEMI_AND \<Rightarrow> ''SEMI_AND'' | TOKEN_DLESS \<Rightarrow> ''DLESS'' | TOKEN_DGREAT \<Rightarrow> ''DGREAT''
   | TOKEN_LESSAND \<Rightarrow> ''LESSAND'' | TOKEN_GREATAND \<Rightarrow> ''GREATAND''
   | TOKEN_LESSGREAT \<Rightarrow> ''LESSGREAT'' | TOKEN_DLESSDASH \<Rightarrow> ''DLESSDASH''
   | TOKEN_CLOBBER \<Rightarrow> ''CLOBBER'' | TOKEN_AMPERSAND \<Rightarrow> ''&'' | TOKEN_SEMICOLON \<Rightarrow> '';''
   | TOKEN_PIPE \<Rightarrow> ''|'' | TOKEN_LPAREN \<Rightarrow> ''('' | TOKEN_RPAREN \<Rightarrow> '')'' | TOKEN_LESS \<Rightarrow> ''<''
   | TOKEN_GREAT \<Rightarrow> ''>'')"

section \<open>What the next token is\<close>

subsection \<open>Trivia\<close>

text \<open>
  The reference for the trivia loop, on the text that is left: blanks and line continuations
  are dropped, a comment is dropped up to its newline, which is a token of its own.
\<close>

fun skip_trivia_text :: "byte list \<Rightarrow> byte list" where
  "skip_trivia_text [] = []"
| "skip_trivia_text (b # s) =
    (if blank_byte b then skip_trivia_text s
     else if b = BSLASH then
       (case s of [] \<Rightarrow> [b] | c # s' \<Rightarrow> if c = NL then skip_trivia_text s' else b # s)
     else if b = CHR ''#'' then dropWhile (\<lambda>b. b \<noteq> NL) s
     else b # s)"

definition lx_rest :: "gsh_lexer \<Rightarrow> byte list" where
  "lx_rest l = drop (lx_offset l) (lx_input l)"

lemma lx_rest_nil: "lx_rest l = [] \<longleftrightarrow> lx_length l \<le> lx_offset l"
  by (simp add: lx_rest_def)

lemma lx_rest_advance [simp]:
  "lx_rest (advance_count l n) = drop n (lx_rest l)"
  "lx_rest (advance_one l) = tl (lx_rest l)"
  by (simp_all add: lx_rest_def add.commute drop_Suc tl_drop)

lemma lx_rest_ext [simp]:
  "lx_rest (l\<lparr>lx_status := st\<rparr>) = lx_rest l"
  "lx_rest (l\<lparr>lx_error_offset := eo\<rparr>) = lx_rest l"
  by (simp_all add: lx_rest_def)

lemma lx_rest_ConsD:
  "lx_rest l = b # s \<Longrightarrow> lx_offset l < lx_length l \<and> lx_input l ! lx_offset l = b"
  by (metis drop_eq_Nil2 hd_drop_conv_nth leI list.sel(1) list.simps(3) lx_rest_def)

lemma lx_restE:
  obtains (nil) "lx_rest l = []" "lx_length l \<le> lx_offset l"
  | (cons) b s where "lx_rest l = b # s" "lx_offset l < lx_length l" "lx_input l ! lx_offset l = b"
  by (cases "lx_rest l") (auto simp: lx_rest_nil dest: lx_rest_ConsD)

lemma skip_while_keeps:
  "lx_input (skip_while p l) = lx_input l \<and> lx_offset l \<le> lx_offset (skip_while p l) \<and>
    lx_status (skip_while p l) = lx_status l \<and>
    (position_ok l \<longrightarrow> position_ok (skip_while p l)) \<and>
    lx_rest (skip_while p l) = dropWhile p (lx_rest l)"
proof (induction p l rule: skip_while.induct)
  case (1 p l)
  show ?case
  proof (cases l rule: lx_restE)
    case nil
    then show ?thesis by (simp add: skip_while.simps[of p l])
  next
    case (cons b s)
    with 1 show ?thesis
      by (cases "p b") (simp_all add: skip_while.simps[of p l] position_ok_advance_one)
  qed
qed

lemmas skip_while_fields [simp] =
  skip_while_keeps[THEN conjunct1] skip_while_keeps[THEN conjunct2, THEN conjunct2, THEN conjunct1]
lemmas skip_while_rest [simp] =
  skip_while_keeps[THEN conjunct2, THEN conjunct2, THEN conjunct2, THEN conjunct2]

lemma skip_trivia_text_blanks:
  "skip_trivia_text (dropWhile blank_byte s) = skip_trivia_text s"
  by (induction s) auto

lemma dropWhile_blank_cases:
  "dropWhile blank_byte s = b # s' \<Longrightarrow> \<not> blank_byte b"
  by (metis hd_dropWhile list.discI list.sel(1))

lemma skip_trivia_text_newline:
  "skip_trivia_text (dropWhile (\<lambda>b. b \<noteq> NL) s) = dropWhile (\<lambda>b. b \<noteq> NL) s"
proof (cases "dropWhile (\<lambda>b. b \<noteq> NL) s")
  case (Cons b s')
  then have "b = NL" by (simp add: dropWhile_eq_Cons_conv)
  with Cons show ?thesis by (simp add: blank_byte_def)
next
  case Nil
  then show ?thesis by (simp only: skip_trivia_text.simps)
qed

lemma skip_trivia_step:
  assumes "step < LEXER_TRIVIA_STEP_CAP" and "skip_while blank_byte l = m"
  shows "skip_trivia step l =
    (case lx_rest m of
       [] \<Rightarrow> (False, m)
     | b # s \<Rightarrow> if b = BSLASH \<and> s \<noteq> [] \<and> hd s = NL then skip_trivia (Suc step) (advance_count m 2)
               else if b = CHR ''#'' then skip_trivia (Suc step) (skip_while (\<lambda>b. b \<noteq> NL) m)
               else (False, m))"
proof (cases m rule: lx_restE)
  case nil
  with assms show ?thesis by (simp add: skip_trivia.simps[of step l] del: skip_while_fields)
next
  case (cons b s)
  have "lx_input m ! Suc (lx_offset m) = hd s" if "s \<noteq> []"
    using that cons lx_rest_ConsD[of "advance_one m" "hd s" "tl s"] by simp
  moreover have "Suc (lx_offset m) < lx_length m \<longleftrightarrow> s \<noteq> []"
    using cons lx_rest_nil[of "advance_one m"] by auto
  ultimately show ?thesis
    using assms cons
    by (auto simp: skip_trivia.simps[of step l] Let_def simp del: skip_while_fields)
qed

lemma skip_trivia_keeps:
  assumes "skip_trivia step l = (limit, l')"
  shows "lx_input l' = lx_input l \<and> lx_offset l \<le> lx_offset l' \<and>
    lx_status l' = lx_status l \<and> (position_ok l \<longrightarrow> position_ok l') \<and>
    (\<not> limit \<longrightarrow> lx_rest l' = skip_trivia_text (lx_rest l)) \<and>
    (lx_length l - lx_offset l < LEXER_TRIVIA_STEP_CAP - step \<longrightarrow> \<not> limit)"
  using assms
proof (induction step l rule: skip_trivia.induct)
  case (1 step l)
  obtain m where m: "skip_while blank_byte l = m" by simp
  have keep: "lx_input m = lx_input l" "lx_offset l \<le> lx_offset m" "lx_status m = lx_status l"
    "position_ok l \<longrightarrow> position_ok m" "lx_rest m = dropWhile blank_byte (lx_rest l)"
    using skip_while_keeps[of blank_byte l] by (simp_all add: m)
  have ref: "skip_trivia_text (lx_rest l) = skip_trivia_text (lx_rest m)"
    by (simp add: keep(5) skip_trivia_text_blanks)
  show ?case
  proof (cases "step < LEXER_TRIVIA_STEP_CAP")
    case False
    with "1.prems" show ?thesis by (simp add: skip_trivia.simps[of step l])
  next
    case True
    note unfold = skip_trivia_step[OF True m]
    show ?thesis
    proof (cases m rule: lx_restE)
      case nil
      with "1.prems" keep ref unfold show ?thesis by auto
    next
      case (cons b s)
      then have b: "\<not> blank_byte b" using keep(5) dropWhile_blank_cases by metis
      consider (continuation) s' where "b = BSLASH" "s = NL # s'"
        | (comment) "b = CHR ''#''" | (other) "skip_trivia step l = (False, m)"
          "skip_trivia_text (lx_rest m) = lx_rest m"
        using cons b unfold by (cases s) (auto split: if_splits)
      then show ?thesis
      proof cases
        case continuation
        have two: "Suc (lx_offset m) < lx_length m"
          using cons continuation lx_rest_nil[of "advance_one m"] by simp
        from continuation cons unfold "1.prems"
        have run: "skip_trivia (Suc step) (advance_count m 2) = (limit, l')" by simp
        have "lx_input m ! Suc (lx_offset m) = NL"
          using lx_rest_ConsD[of "advance_one m"] cons continuation by simp
        note IH = "1.IH"(1)[OF True m[symmetric] _ run]
        from IH[OF conjI] two cons continuation \<open>lx_input m ! _ = NL\<close> keep ref b
        show ?thesis by (auto simp: position_ok_advance_count)
      next
        case comment
        obtain n where n: "skip_while (\<lambda>b. b \<noteq> NL) m = n" by simp
        have kn: "lx_input n = lx_input m" "lx_offset m \<le> lx_offset n" "lx_status n = lx_status m"
          "position_ok m \<longrightarrow> position_ok n" "lx_rest n = dropWhile (\<lambda>b. b \<noteq> NL) (lx_rest m)"
          using skip_while_keeps[of "\<lambda>b. b \<noteq> NL" m] by (simp_all add: n)
        have adv: "lx_offset m < lx_offset n"
          using n comment cons skip_while_keeps[of "\<lambda>b. b \<noteq> NL" "advance_one m"]
          by (simp add: skip_while.simps[of _ m])
        from comment cons unfold "1.prems" n
        have run: "skip_trivia (Suc step) n = (limit, l')" by simp
        show ?thesis
          using "1.IH"(2)[OF True m[symmetric]] run comment cons n kn adv keep ref b
          by (auto simp: skip_trivia_text_newline)
      next
        case other
        with "1.prems" keep ref show ?thesis by auto
      qed
    qed
  qed
qed

subsection \<open>Operators\<close>

lemma starts_with_rest: "starts_with l s \<longleftrightarrow> take (length s) (lx_rest l) = s"
  by (auto simp: starts_with_def lx_rest_def) (metis length_drop length_take min.cobounded1)

definition operator_text :: "byte list \<Rightarrow> (byte list \<times> gsh_token_kind) option" where
  "operator_text s = find (\<lambda>(oper, kind). take (length oper) s = oper) OPERATORS"

lemma operator_at_rest: "operator_at l = operator_text (lx_rest l)"
  by (simp add: operator_at_def operator_text_def starts_with_rest case_prod_unfold)

lemma find_longest:
  assumes "sorted_wrt (\<lambda>x y. f y \<le> f x) xs" "find p xs = Some x" "y \<in> set xs" "p y"
  shows "f y \<le> (f x :: nat)"
  using assms by (induction xs) (auto split: if_splits)

lemma OPERATORS_longest_first: "sorted_wrt (\<lambda>x y. length (fst y) \<le> length (fst x)) OPERATORS"
  by (simp add: OPERATORS_def)

lemma operator_at_SomeD:
  assumes "operator_at l = Some (oper, kind)"
  shows "(oper, kind) \<in> set OPERATORS" "take (length oper) (lx_rest l) = oper"
    "starts_with l oper"
  using assms
  by (auto simp: operator_at_def starts_with_rest find_Some_iff in_set_conv_nth)

lemma OPERATORS_nonempty: "(oper, kind) \<in> set OPERATORS \<Longrightarrow> oper \<noteq> []"
  by (auto simp: OPERATORS_def)

lemma OPERATORS_kind:
  "(oper, kind) \<in> set OPERATORS \<Longrightarrow> kind \<noteq> TOKEN_EOF \<and> kind \<noteq> TOKEN_WORD \<and> kind \<noteq> TOKEN_NEWLINE"
  by (auto simp: OPERATORS_def)

text \<open>The seven bytes that start an operator; every one of them is an operator by itself.\<close>

definition operator_byte :: "byte \<Rightarrow> bool" where
  "operator_byte b \<longleftrightarrow> b \<in> {CHR ''&'', CHR ''|'', CHR '';'', CHR ''<'', CHR ''>'', CHR ''('', CHR '')''}"

lemma operator_text_None: "operator_text s = None \<longleftrightarrow> s = [] \<or> \<not> operator_byte (hd s)"
proof
  assume "operator_text s = None"
  then have none: "(oper, kind) \<in> set OPERATORS \<Longrightarrow> take (length oper) s \<noteq> oper" for oper kind
    by (auto simp: operator_text_def find_None_iff)
  have "\<exists>kind. ([b], kind) \<in> set OPERATORS" if "operator_byte b" for b
    using that by (auto simp: operator_byte_def OPERATORS_def)
  with none[of "[hd s]"] show "s = [] \<or> \<not> operator_byte (hd s)" by (cases s) auto
next
  assume "s = [] \<or> \<not> operator_byte (hd s)"
  then have "\<forall>(oper, kind) \<in> set OPERATORS. take (length oper) s \<noteq> oper"
    by (cases s) (auto simp: OPERATORS_def operator_byte_def)
  then show "operator_text s = None"
    by (auto simp: operator_text_def find_None_iff)
qed

subsection \<open>The shape of a token\<close>

lemma skip_trivia_text_start:
  "skip_trivia_text s = b # s' \<Longrightarrow>
    \<not> blank_byte b \<and> b \<noteq> CHR ''#'' \<and> \<not> (b = BSLASH \<and> s' \<noteq> [] \<and> hd s' = NL)"
proof (induction s arbitrary: s' rule: skip_trivia_text.induct)
  case (2 c s)
  consider "blank_byte c" | "\<not> blank_byte c" "c = BSLASH" | "\<not> blank_byte c" "c = CHR ''#''"
    | "\<not> blank_byte c" "c \<noteq> BSLASH" "c \<noteq> CHR ''#''" by blast
  then show ?case
  proof cases
    case 3
    with "2.prems" have "b = NL" by (simp add: dropWhile_eq_Cons_conv)
    then show ?thesis by (simp add: blank_byte_def)
  qed (use 2 in \<open>auto split: list.splits if_splits\<close>)
qed simp

text \<open>
  What a successful call returns: \<open>token_ok\<close> says where the token lies, that its kind agrees
  with the bytes it spans and that its recorded line and column are those of its first byte.
\<close>

definition token_ok :: "byte list \<Rightarrow> gsh_token \<Rightarrow> bool" where
  "token_ok input t \<longleftrightarrow>
    tok_begin t \<le> tok_end t \<and> tok_end t \<le> length input \<and>
    tok_line t = line_of input (tok_begin t) \<and> tok_column t = column_of input (tok_begin t) \<and>
    (case tok_kind t of
       TOKEN_EOF \<Rightarrow> tok_begin t = length input
     | TOKEN_NEWLINE \<Rightarrow> slice input (tok_begin t) (tok_end t) = [NL]
     | TOKEN_WORD \<Rightarrow> tok_begin t < tok_end t \<and>
         \<not> operator_byte (input ! tok_begin t) \<and> \<not> blank_byte (input ! tok_begin t) \<and>
         input ! tok_begin t \<notin> {NL, NUL, CHR ''#''}
     | kind \<Rightarrow> (slice input (tok_begin t) (tok_end t), kind) \<in> set OPERATORS)"

lemma scan_word_loop_progress:
  assumes "word_continues l st" "scan_word_loop l st = (True, l')"
  shows "lx_offset l < lx_offset l'"
proof -
  obtain k m st2 where r: "scan_word_byte l st (lx_input l ! lx_offset l) = (k, m, st2)"
    by (metis prod_cases3)
  with assms have k: "k" "scan_word_loop m st2 = (True, l')"
    by (auto simp: scan_word_loop_step split: if_splits bool.splits)
  have "lx_offset l < lx_offset m"
    using scan_word_byte_moves[of l st "lx_input l ! lx_offset l"] r k by (simp add: scan_defs)
  also have "\<dots> \<le> lx_offset l'"
    using scan_word_loop_keeps[OF k(2)] by simp
  finally show ?thesis .
qed


definition token_at_cursor :: "gsh_token \<Rightarrow> gsh_lexer \<Rightarrow> gsh_token_kind \<Rightarrow> nat \<Rightarrow> gsh_token" where
  "token_at_cursor t0 m kind e = t0\<lparr>tok_kind := kind, tok_begin := lx_offset m, tok_end := e,
     tok_line := lx_line m, tok_column := lx_column m\<rparr>"

lemma token_at_cursor_fields [simp]:
  "tok_kind (token_at_cursor t0 m kind e) = kind"
  "tok_begin (token_at_cursor t0 m kind e) = lx_offset m"
  "tok_end (token_at_cursor t0 m kind e) = e"
  "tok_line (token_at_cursor t0 m kind e) = lx_line m"
  "tok_column (token_at_cursor t0 m kind e) = lx_column m"
  by (simp_all add: token_at_cursor_def)

text \<open>The four ways a call succeeds, once the trivia before the token is gone.\<close>

lemma gsh_lexer_next_OK_cases:
  assumes "gsh_lexer_next l t0 = (LEX_OK, l', t)"
  obtains (eof) m where "lx_status l = LEX_OK" "skip_trivia 0 l = (False, m)" "l' = m"
      "lx_offset m = lx_length m" "t = token_at_cursor t0 m TOKEN_EOF (lx_offset m)"
  | (newline) m where "lx_status l = LEX_OK" "skip_trivia 0 l = (False, m)" "l' = advance_one m"
      "lx_offset m \<noteq> lx_length m" "lx_input m ! lx_offset m = NL"
      "t = token_at_cursor t0 m TOKEN_NEWLINE (Suc (lx_offset m))"
  | (oper) m oper kind where "lx_status l = LEX_OK" "skip_trivia 0 l = (False, m)"
      "lx_offset m \<noteq> lx_length m" "lx_input m ! lx_offset m \<noteq> NUL"
      "operator_at m = Some (oper, kind)" "l' = advance_count m (length oper)"
      "t = token_at_cursor t0 m kind (lx_offset m + length oper)"
  | (word) m where "lx_status l = LEX_OK" "skip_trivia 0 l = (False, m)"
      "lx_offset m \<noteq> lx_length m" "lx_input m ! lx_offset m \<notin> {NUL, NL}"
      "operator_at m = None" "scan_word m = (True, l')" "lx_offset l' \<noteq> lx_offset m"
      "t = token_at_cursor t0 m TOKEN_WORD (lx_offset l')"
proof -
  obtain limit m where m: "skip_trivia 0 l = (limit, m)" by fastforce
  obtain k n where n: "scan_word m = (k, n)" by fastforce
  from scan_word_loop_keeps[OF n[unfolded scan_word_def]] show ?thesis
    using assms m n
    by (auto simp: gsh_lexer_next_def Let_def token_at_cursor_def
        split: if_splits option.splits bool.splits intro: that)
qed

lemma lexer_next_ok:
  assumes ok: "gsh_lexer_next l t0 = (LEX_OK, l', t)" and pos: "position_ok l"
  shows "lx_input l' = lx_input l \<and> position_ok l' \<and>
    token_ok (lx_input l) t \<and> lx_offset l \<le> tok_begin t \<and> tok_end t = lx_offset l' \<and>
    (tok_kind t \<noteq> TOKEN_EOF \<longrightarrow> tok_begin t < tok_end t) \<and>
    drop (tok_begin t) (lx_input l) = skip_trivia_text (lx_rest l)"
proof -
  have trivia: "lx_input m = lx_input l \<and> lx_offset l \<le> lx_offset m \<and> position_ok m \<and>
      lx_rest m = skip_trivia_text (lx_rest l) \<and>
      lx_line m = line_of (lx_input l) (lx_offset m) \<and>
      lx_column m = column_of (lx_input l) (lx_offset m) \<and> lx_offset m \<le> lx_length l \<and>
      drop (lx_offset m) (lx_input l) = skip_trivia_text (lx_rest l)"
    if "skip_trivia 0 l = (False, m)" for m
    using skip_trivia_keeps[OF that] pos by (auto simp: position_ok_def lx_rest_def)
  from ok show ?thesis
  proof (cases rule: gsh_lexer_next_OK_cases)
    case (eof m)
    with trivia[of m] show ?thesis by (auto simp: token_ok_def)
  next
    case (newline m)
    with trivia[of m] show ?thesis by (auto simp: token_ok_def position_ok_advance_one slice_Suc)
  next
    case (oper m oper kind)
    note op = operator_at_SomeD[OF oper(5)]
    have "slice (lx_input m) (lx_offset m) (lx_offset m + length oper) = oper"
      using starts_with_slice[OF op(3)] .
    moreover have bound: "lx_offset m + length oper \<le> lx_length m"
      using starts_with_bound[OF op(3)] oper trivia[of m] by simp
    moreover have "kind \<noteq> TOKEN_EOF \<and> kind \<noteq> TOKEN_WORD \<and> kind \<noteq> TOKEN_NEWLINE" "oper \<noteq> []"
      using op(1) OPERATORS_kind OPERATORS_nonempty by blast+
    moreover have "position_ok (advance_count m (length oper))"
      using position_ok_advance_count bound oper trivia[of m] by blast
    ultimately show ?thesis
      using oper trivia[of m] op(1) by (auto simp: token_ok_def split: gsh_token_kind.split)
  next
    case (word m)
    note keeps = scan_word_loop_keeps[OF word(6)[unfolded scan_word_def]]
    from word trivia[of m] obtain b s where cons: "lx_rest m = b # s" "lx_input m ! lx_offset m = b"
      by (cases m rule: lx_restE) auto
    note start = skip_trivia_text_start[of "lx_rest l" b s]
    have "\<not> operator_byte b"
      using word operator_text_None[of "lx_rest m"] cons by (simp add: operator_at_rest)
    moreover have "position_ok l'" "lx_offset l' \<le> lx_length l"
      using keeps trivia[of m] word position_ok_offset[of l'] by auto
    ultimately show ?thesis
      using word trivia[of m] cons start keeps by (auto simp: token_ok_def)
  qed
qed

subsection \<open>Failures\<close>

lemma lexer_next_sticky: "lx_status l \<noteq> LEX_OK \<Longrightarrow> gsh_lexer_next l t = (lx_status l, l, t)"
  by (simp add: gsh_lexer_next_def)

text \<open>
  A failing call leaves a status that is not \<open>LEX_OK\<close>, so every later call fails the same
  way, and the status it returns is the one it leaves.
\<close>

lemma lexer_next_fail:
  assumes "gsh_lexer_next l t0 = (st, l', t)" "st \<noteq> LEX_OK"
  shows "lx_status l' = st \<and> lx_input l' = lx_input l \<and> (position_ok l \<longrightarrow> position_ok l')"
proof (cases "lx_status l = LEX_OK")
  case True
  obtain limit m where m: "skip_trivia 0 l = (limit, m)" by fastforce
  obtain k n where n: "scan_word m = (k, n)" by fastforce
  from assms True m n skip_trivia_keeps[OF m] scan_word_loop_keeps[OF n[unfolded scan_word_def]]
  show ?thesis
    by (auto simp: gsh_lexer_next_def Let_def lexer_error_def
        split: if_splits option.splits bool.splits)
qed (use assms in \<open>auto simp: lexer_next_sticky\<close>)

lemma position_ok_init [simp]: "position_ok (gsh_lexer_init s)"
  by (simp add: position_ok_def gsh_lexer_init_def line_of_def column_of_def)

lemma gsh_lexer_init_fields [simp]:
  "lx_input (gsh_lexer_init s) = s" "lx_offset (gsh_lexer_init s) = 0"
  "lx_status (gsh_lexer_init s) = LEX_OK" "lx_rest (gsh_lexer_init s) = s"
  by (simp_all add: gsh_lexer_init_def lx_rest_def)

subsection \<open>Scanning known text\<close>

definition plain_word_byte :: "byte \<Rightarrow> bool" where
  "plain_word_byte b \<longleftrightarrow> \<not> blank_byte b \<and> \<not> operator_byte b \<and>
    b \<notin> {NL, NUL, BSLASH, QUOTE, DQUOTE, BQUOTE, CHR ''$''}"

lemma word_ends_rest:
  assumes "lx_rest l = b # r"
  shows "word_ends l b \<longleftrightarrow> blank_byte b \<or> b = NL \<or> operator_byte b"
  using operator_text_None[of "lx_rest l"] assms
  by (auto simp: word_ends_def blank_byte_def operator_at_rest)

lemma word_continues_rest:
  "lx_rest l = b # r \<Longrightarrow> word_continues l st \<longleftrightarrow>
    b \<noteq> NUL \<and> (st = [] \<longrightarrow> \<not> (blank_byte b \<or> b = NL \<or> operator_byte b))"
  using word_ends_rest[of l b r] lx_rest_ConsD[of l b r] by (auto simp: word_continues_def)

lemma scan_plain_byte:
  assumes "lx_rest l = b # r" "plain_word_byte b"
  shows "scan_word_loop l [] = scan_word_loop (advance_one l) []"
  using assms word_continues_rest[OF assms(1)] lx_rest_ConsD[OF assms(1)]
  by (simp add: scan_word_loop_step plain_word_byte_def scan_word_byte_def
      scan_plain_word_byte_def dollar_or_advance_def)

lemma scan_plain_run:
  "lx_rest l = w @ r \<Longrightarrow> \<forall>b \<in> set w. plain_word_byte b \<Longrightarrow>
    scan_word_loop l [] = scan_word_loop (advance_count l (length w)) []"
  by (induction w arbitrary: l) (simp_all add: scan_plain_byte)

lemma scan_word_end:
  assumes "lx_rest l = [] \<or> blank_byte (hd (lx_rest l)) \<or> hd (lx_rest l) = NL \<or>
      operator_byte (hd (lx_rest l))"
  shows "scan_word_loop l [] = (True, l)"
proof (cases l rule: lx_restE)
  case nil
  then show ?thesis by (simp add: scan_word_loop_stop word_continues_def)
next
  case (cons b r)
  with assms have "b \<noteq> NUL" by (auto simp: blank_byte_def operator_byte_def)
  with assms cons word_continues_rest[OF cons(1), of "[]"] show ?thesis
    by (simp add: scan_word_loop_stop)
qed

lemma scan_backslash_pair:
  assumes "lx_rest l = BSLASH # b # r"
  shows "scan_word_loop l [] = scan_word_loop (advance_count l 2) []"
proof -
  have "Suc (lx_offset l) < lx_length l"
    using assms lx_rest_nil[of "advance_one l"] by simp
  with assms word_continues_rest[OF assms] lx_rest_ConsD[OF assms] show ?thesis
    by (simp add: scan_word_loop_step scan_word_byte_def scan_plain_word_byte_def blank_byte_def
        operator_byte_def consume_escape_def Let_def numeral_2_eq_2)
qed

lemma scan_single_open:
  assumes "lx_rest l = QUOTE # r"
  shows "scan_word_loop l [] = scan_word_loop (advance_one l) [CONTEXT_SINGLE]"
  using word_continues_rest[OF assms] lx_rest_ConsD[OF assms]
  by (simp add: scan_word_loop_step scan_word_byte_def scan_plain_word_byte_def blank_byte_def
      operator_byte_def push_and_advance_def push_context_def)

lemma scan_single_byte:
  assumes "lx_rest l = b # r" "b \<noteq> NUL"
  shows "scan_word_loop l (CONTEXT_SINGLE # st) =
    scan_word_loop (advance_one l) (if b = QUOTE then st else CONTEXT_SINGLE # st)"
  using assms(2) word_continues_rest[OF assms(1)] lx_rest_ConsD[OF assms(1)]
  by (simp add: scan_word_loop_step scan_word_byte_def quoted_context_def
      scan_quoted_word_byte_def pop_context_def)

lemma scan_single_run:
  "lx_rest l = w @ QUOTE # r \<Longrightarrow> NUL \<notin> set w \<Longrightarrow> QUOTE \<notin> set w \<Longrightarrow>
    scan_word_loop l (CONTEXT_SINGLE # st) = scan_word_loop (advance_count l (Suc (length w))) st"
  by (induction w arbitrary: l) (auto simp: scan_single_byte)

section \<open>Properties\<close>

definition no_token :: gsh_token where
  "no_token = \<lparr>tok_kind = TOKEN_EOF, tok_begin = 0, tok_end = 0, tok_line = 0, tok_column = 0\<rparr>"

lemma next_and_if:
  "gsh_lexer_next (gsh_lexer_init ''&& ls'') no_token =
    (LEX_OK, advance_count (gsh_lexer_init ''&& ls'') 2,
     no_token\<lparr>tok_kind := TOKEN_AND_IF, tok_end := 2, tok_line := 1, tok_column := 1\<rparr>)"
  by (simp add: gsh_lexer_next_def gsh_lexer_init_def skip_trivia.simps skip_while.simps
      blank_byte_def operator_at_def OPERATORS_def starts_with_def no_token_def numeral_2_eq_2)

lemma next_bare_nul:
  "gsh_lexer_next (gsh_lexer_init [NUL]) no_token =
    (LEX_INVALID, lexer_error LEX_INVALID (gsh_lexer_init [NUL]), no_token\<lparr>tok_line := 1, tok_column := 1\<rparr>)"
  by (simp add: gsh_lexer_next_def gsh_lexer_init_def skip_trivia.simps skip_while.simps
      blank_byte_def operator_at_def OPERATORS_def starts_with_def no_token_def)

text \<open>C4. A call of \<open>gsh_lexer_next\<close> that succeeds skips exactly the blanks, comments and line
  continuations before the token, never moves back, leaves the lexer at the end of the token, and
  describes the token truthfully: its span lies in the input, its line and column are those of its
  first byte, an operator's span spells that operator, a newline's span is a newline, the end of
  file stands at the end of the input, and a word is non-empty and does not start with an operator,
  a blank, a newline, a NUL or a comment.\<close>

theorem lexer_next_token:
  assumes "gsh_lexer_next l t0 = (LEX_OK, l', t)" and "position_ok l"
  shows "lx_input l' = lx_input l \<and> position_ok l' \<and> token_ok (lx_input l) t \<and>
    lx_offset l \<le> tok_begin t \<and> tok_end t = lx_offset l' \<and>
    (tok_kind t \<noteq> TOKEN_EOF \<longrightarrow> tok_begin t < tok_end t) \<and>
    drop (tok_begin t) (lx_input l) = skip_trivia_text (lx_rest l)"
  using assms by (rule lexer_next_ok)

theorem lexer_next_token_witness:
  "token_ok ''&& ls'' (no_token\<lparr>tok_kind := TOKEN_AND_IF, tok_end := 2, tok_line := 1, tok_column := 1\<rparr>)"
  using lexer_next_token[OF next_and_if position_ok_init] by simp

lemma operator_text_longest:
  assumes "(oper, kind) \<in> set OPERATORS" "take (length oper) s = oper"
  shows "\<exists>o' k'. operator_text s = Some (o', k') \<and> length oper \<le> length o'"
proof -
  let ?p = "\<lambda>(oper, kind :: gsh_token_kind). take (length oper) s = oper"
  have hit: "?p (oper, kind)" using assms(2) by simp
  then have "find ?p OPERATORS \<noteq> None" using assms(1) by (auto simp: find_None_iff)
  then obtain o' k' where found: "find ?p OPERATORS = Some (o', k')" by auto
  with find_longest[OF OPERATORS_longest_first found assms(1) hit] show ?thesis
    by (simp add: operator_text_def)
qed

text \<open>Operators are read by maximal munch: where the text at a token starts with an operator of
  the shell, the token is an operator and none of the table that matches there is longer than it.\<close>

theorem lexer_longest_operator:
  assumes "gsh_lexer_next l t0 = (LEX_OK, l', t)" and "position_ok l"
    and "(oper, kind) \<in> set OPERATORS"
    and "take (length oper) (drop (tok_begin t) (lx_input l)) = oper"
  shows "tok_kind t \<notin> {TOKEN_EOF, TOKEN_NEWLINE, TOKEN_WORD} \<and>
    length oper \<le> tok_end t - tok_begin t"
proof -
  from operator_text_longest[OF assms(3,4)] obtain o' k'
    where longest: "operator_text (drop (tok_begin t) (lx_input l)) = Some (o', k')"
      "length oper \<le> length o'" by blast
  have input: "lx_input m = lx_input l" if "skip_trivia 0 l = (False, m)" for m
    using skip_trivia_keeps[OF that] by simp
  have first: "operator_byte (hd (drop (tok_begin t) (lx_input l)))" "tok_begin t < lx_length l"
    using longest(1) operator_text_None[of "drop (tok_begin t) (lx_input l)"] by auto
  from assms(1) show ?thesis
  proof (cases rule: gsh_lexer_next_OK_cases)
    case (oper m o2 k2)
    then have "o2 = o'" using longest(1) input[of m] by (simp add: operator_at_rest lx_rest_def)
    moreover have "k2 \<noteq> TOKEN_EOF \<and> k2 \<noteq> TOKEN_WORD \<and> k2 \<noteq> TOKEN_NEWLINE"
      using operator_at_SomeD(1)[OF oper(5)] by (rule OPERATORS_kind)
    ultimately show ?thesis using oper(7) longest(2) by simp
  next
    case (eof m)
    with first(2) input[of m] show ?thesis by simp
  next
    case (newline m)
    with first input[of m] show ?thesis
      by (simp add: hd_drop_conv_nth operator_byte_def)
  next
    case (word m)
    with longest(1) input[of m] show ?thesis by (simp add: operator_at_rest lx_rest_def)
  qed
qed

theorem lexer_longest_operator_witness: "length ''&'' \<le> tok_end
    (no_token\<lparr>tok_kind := TOKEN_AND_IF, tok_end := 2, tok_line := 1, tok_column := 1\<rparr>) - 0"
  using lexer_longest_operator[OF next_and_if position_ok_init, of "''&''" TOKEN_AMPERSAND]
  by (simp add: OPERATORS_def no_token_def)

text \<open>An error of the lexer is final: the failing call leaves its status in the lexer, and
  every later call returns that status again and changes neither the lexer nor the token.\<close>

theorem lexer_failure_final:
  assumes "gsh_lexer_next l t0 = (st, l', t)" and "st \<noteq> LEX_OK"
  shows "gsh_lexer_next l' t1 = (st, l', t1)"
  using lexer_next_fail[OF assms] assms(2) by (simp add: lexer_next_sticky)

theorem lexer_failure_final_witness:
  "gsh_lexer_next (lexer_error LEX_INVALID (gsh_lexer_init [NUL])) no_token =
    (LEX_INVALID, lexer_error LEX_INVALID (gsh_lexer_init [NUL]), no_token)"
  using lexer_failure_final[OF next_bare_nul] by simp

end
