(* ===== verification/ParserState.thy ===== *)
theory ParserState
  imports Lexer
begin

text \<open>
  The parser's storage and the helpers of \<open>src/posix_parser.c\<close> that read and grow it:
  token access, the first-error record \<open>fail\<close>, node, word and redirection allocation,
  redirections, and the simple command. An array of \<open>gsh_parse_storage\<close> with its count is
  the list of its used cells; \<open>GSH_AST_NONE\<close> is \<open>SIZE_MAX\<close>, as in the C.
\<close>

section \<open>Data\<close>

abbreviation (input) GSH_PARSE_TOKEN_CAP :: nat where "GSH_PARSE_TOKEN_CAP \<equiv> 4096"
abbreviation (input) GSH_PARSE_NODE_CAP :: nat where "GSH_PARSE_NODE_CAP \<equiv> 2048"
abbreviation (input) GSH_PARSE_WORD_CAP :: nat where "GSH_PARSE_WORD_CAP \<equiv> 4096"
abbreviation (input) GSH_PARSE_REDIRECT_CAP :: nat where "GSH_PARSE_REDIRECT_CAP \<equiv> 1024"
abbreviation (input) GSH_HEREDOC_DELIMITER_CAP :: nat where "GSH_HEREDOC_DELIMITER_CAP \<equiv> 4096"
abbreviation (input) PARSE_FRAME_CAP :: nat where "PARSE_FRAME_CAP \<equiv> 2048"
abbreviation (input) PARSE_MACHINE_STEP_CAP :: nat where "PARSE_MACHINE_STEP_CAP \<equiv> 262144"
abbreviation (input) PARSE_INPUT_STEP_CAP :: nat where "PARSE_INPUT_STEP_CAP \<equiv> 1048577"
abbreviation (input) GSH_AST_NONE :: nat where "GSH_AST_NONE \<equiv> SIZE_MAX"

datatype gsh_parse_status =
  PARSE_OK | PARSE_LEXICAL | PARSE_SYNTAX | PARSE_INCOMPLETE | PARSE_LIMIT

datatype gsh_ast_kind =
    AST_PROGRAM | AST_LIST | AST_AND_OR | AST_PIPELINE | AST_SIMPLE | AST_SUBSHELL
  | AST_BRACE_GROUP | AST_IF | AST_IF_BRANCH | AST_WHILE | AST_UNTIL | AST_FOR | AST_CASE
  | AST_CASE_ITEM | AST_FUNCTION

abbreviation (input) FLAG_ASYNC :: uint32 where "FLAG_ASYNC \<equiv> 1"
abbreviation (input) FLAG_NEGATED :: uint32 where "FLAG_NEGATED \<equiv> 2"
abbreviation (input) FLAG_FOR_HAS_IN :: uint32 where "FLAG_FOR_HAS_IN \<equiv> 4"
abbreviation (input) FLAG_CASE_FALLTHROUGH :: uint32 where "FLAG_CASE_FALLTHROUGH \<equiv> 8"

abbreviation (input) REDIRECT_HEREDOC :: uint32 where "REDIRECT_HEREDOC \<equiv> 1"
abbreviation (input) REDIRECT_HEREDOC_STRIP_TABS :: uint32 where "REDIRECT_HEREDOC_STRIP_TABS \<equiv> 2"
abbreviation (input) REDIRECT_HEREDOC_QUOTED :: uint32 where "REDIRECT_HEREDOC_QUOTED \<equiv> 4"

record gsh_word_ref =
  ref_begin :: nat
  ref_end :: nat

record gsh_redirect =
  rd_descriptor :: int
  rd_operator :: gsh_token_kind
  rd_target :: gsh_word_ref
  rd_body :: gsh_word_ref
  rd_flags :: uint32

record gsh_heredoc =
  doc_delimiter :: gsh_word_ref
  doc_body :: gsh_word_ref
  doc_flags :: uint32

record gsh_ast_node =
  node_kind :: gsh_ast_kind
  node_flags :: uint32
  node_connector :: gsh_token_kind
  node_first_child :: nat
  node_last_child :: nat
  node_next_sibling :: nat
  node_first_word :: nat
  node_word_count :: nat
  node_first_redirect :: nat
  node_redirect_count :: nat
  node_begin :: nat
  node_end :: nat

record gsh_parse_storage =
  ps_tokens :: "gsh_token list"
  ps_nodes :: "gsh_ast_node list"
  ps_words :: "gsh_word_ref list"
  ps_redirects :: "gsh_redirect list"
  ps_heredocs :: "gsh_heredoc list"
  ps_command_words :: "gsh_word_ref list"

record gsh_parse_result =
  res_status :: gsh_parse_status
  res_root :: nat
  res_error_offset :: nat
  res_unexpected :: gsh_token_kind

record parser =
  p_input :: "byte list"
  p_storage :: gsh_parse_storage
  p_position :: nat
  p_result :: gsh_parse_result

abbreviation p_tokens :: "parser \<Rightarrow> gsh_token list" where "p_tokens p \<equiv> ps_tokens (p_storage p)"
abbreviation p_nodes :: "parser \<Rightarrow> gsh_ast_node list" where "p_nodes p \<equiv> ps_nodes (p_storage p)"
abbreviation p_words :: "parser \<Rightarrow> gsh_word_ref list" where "p_words p \<equiv> ps_words (p_storage p)"
abbreviation p_redirects :: "parser \<Rightarrow> gsh_redirect list" where
  "p_redirects p \<equiv> ps_redirects (p_storage p)"
abbreviation p_heredocs :: "parser \<Rightarrow> gsh_heredoc list" where
  "p_heredocs p \<equiv> ps_heredocs (p_storage p)"
abbreviation p_command_words :: "parser \<Rightarrow> gsh_word_ref list" where
  "p_command_words p \<equiv> ps_command_words (p_storage p)"
abbreviation p_status :: "parser \<Rightarrow> gsh_parse_status" where
  "p_status p \<equiv> res_status (p_result p)"

section \<open>Tokens\<close>

definition current_token :: "parser \<Rightarrow> gsh_token" where
  "current_token p = p_tokens p ! p_position p"

abbreviation current_kind :: "parser \<Rightarrow> gsh_token_kind" where
  "current_kind p \<equiv> tok_kind (current_token p)"

definition token_at :: "parser \<Rightarrow> nat \<Rightarrow> gsh_token" where
  "token_at p lookahead =
    (let position = p_position p + lookahead;
         position = (if length (p_tokens p) \<le> position then length (p_tokens p) - 1 else position)
     in p_tokens p ! position)"

text \<open>The parser's cursor only moves by \<open>advance\<close>, the C's \<open>state->position++\<close>.\<close>

definition advance :: "parser \<Rightarrow> parser" where
  "advance p = p\<lparr>p_position := Suc (p_position p)\<rparr>"

text \<open>Only the first error of a parse is recorded.\<close>

definition fail :: "parser \<Rightarrow> gsh_parse_status \<Rightarrow> parser" where
  "fail p st =
    (if p_status p \<noteq> PARSE_OK then p
     else p\<lparr>p_result := (p_result p)\<lparr>res_status := st,
        res_error_offset := tok_begin (current_token p),
        res_unexpected := tok_kind (current_token p)\<rparr>\<rparr>)"

text \<open>The code's usual choice at an unexpected token: more input may help at the end of it.\<close>

definition fail_unexpected :: "parser \<Rightarrow> parser" where
  "fail_unexpected p =
    fail p (if current_kind p = TOKEN_EOF then PARSE_INCOMPLETE else PARSE_SYNTAX)"

definition token_text :: "parser \<Rightarrow> gsh_token \<Rightarrow> byte list" where
  "token_text p t = slice (p_input p) (tok_begin t) (tok_end t)"

definition raw_word_equals :: "parser \<Rightarrow> gsh_token \<Rightarrow> byte list \<Rightarrow> bool" where
  "raw_word_equals p t word \<longleftrightarrow> tok_kind t = TOKEN_WORD \<and>
    tok_end t - tok_begin t = length word \<and> token_text p t = word"

definition current_word_is :: "parser \<Rightarrow> byte list \<Rightarrow> bool" where
  "current_word_is p word = raw_word_equals p (current_token p) word"

definition is_name_span :: "parser \<Rightarrow> gsh_token \<Rightarrow> bool" where
  "is_name_span p t \<longleftrightarrow>
    tok_kind t = TOKEN_WORD \<and> tok_begin t \<noteq> tok_end t \<and>
    name_start_byte (p_input p ! tok_begin t) \<and>
    list_all name_byte (slice (p_input p) (Suc (tok_begin t)) (tok_end t))"

definition is_digit_span :: "parser \<Rightarrow> gsh_token \<Rightarrow> bool" where
  "is_digit_span p t \<longleftrightarrow>
    tok_kind t = TOKEN_WORD \<and> tok_begin t \<noteq> tok_end t \<and> list_all digit_byte (token_text p t)"

fun assignment_tail :: "byte list \<Rightarrow> bool" where
  "assignment_tail [] = False"
| "assignment_tail (b # s) =
    (if b = CHR ''='' then True else if \<not> name_byte b then False else assignment_tail s)"

definition is_assignment_span :: "parser \<Rightarrow> gsh_token \<Rightarrow> bool" where
  "is_assignment_span p t \<longleftrightarrow>
    tok_kind t = TOKEN_WORD \<and> tok_begin t \<noteq> tok_end t \<and>
    name_start_byte (p_input p ! tok_begin t) \<and>
    assignment_tail (slice (p_input p) (Suc (tok_begin t)) (tok_end t))"

definition is_redirect_operator :: "gsh_token_kind \<Rightarrow> bool" where
  "is_redirect_operator kind \<longleftrightarrow>
    kind = TOKEN_LESS \<or> kind = TOKEN_LESSAND \<or> kind = TOKEN_GREAT \<or> kind = TOKEN_GREATAND \<or>
    kind = TOKEN_DGREAT \<or> kind = TOKEN_LESSGREAT \<or> kind = TOKEN_CLOBBER \<or>
    kind = TOKEN_DLESS \<or> kind = TOKEN_DLESSDASH"

definition reserved_words :: "byte list list" where
  "reserved_words =
    [''if'', ''then'', ''else'', ''elif'', ''fi'', ''do'', ''done'', ''case'', ''esac'',
     ''while'', ''until'', ''for'', ''in'', ''{'', ''}'', ''!'']"

definition is_any_reserved :: "parser \<Rightarrow> gsh_token \<Rightarrow> bool" where
  "is_any_reserved p t = list_ex (raw_word_equals p t) reserved_words"

section \<open>Growing the storage\<close>

definition record_command_word :: "parser \<Rightarrow> gsh_token \<Rightarrow> bool \<times> parser" where
  "record_command_word p t =
    (if tok_kind t \<noteq> TOKEN_WORD then (False, p)
     else if length (p_command_words p) = GSH_PARSE_NODE_CAP then (False, fail p PARSE_LIMIT)
     else (True, p\<lparr>p_storage := (p_storage p)\<lparr>ps_command_words :=
        p_command_words p @ [\<lparr>ref_begin = tok_begin t, ref_end = tok_end t\<rparr>]\<rparr>\<rparr>))"

definition fresh_node :: "parser \<Rightarrow> gsh_ast_kind \<Rightarrow> nat \<Rightarrow> gsh_ast_node" where
  "fresh_node p kind begin =
    \<lparr>node_kind = kind, node_flags = 0, node_connector = TOKEN_EOF,
     node_first_child = GSH_AST_NONE, node_last_child = GSH_AST_NONE,
     node_next_sibling = GSH_AST_NONE,
     node_first_word = length (p_words p), node_word_count = 0,
     node_first_redirect = length (p_redirects p), node_redirect_count = 0,
     node_begin = begin, node_end = begin\<rparr>"

definition new_node :: "parser \<Rightarrow> gsh_ast_kind \<Rightarrow> nat \<Rightarrow> nat \<times> parser" where
  "new_node p kind begin =
    (if length (p_nodes p) = GSH_PARSE_NODE_CAP then (GSH_AST_NONE, fail p PARSE_LIMIT)
     else (length (p_nodes p),
       p\<lparr>p_storage := (p_storage p)\<lparr>ps_nodes := p_nodes p @ [fresh_node p kind begin]\<rparr>\<rparr>))"

definition update_node :: "parser \<Rightarrow> nat \<Rightarrow> (gsh_ast_node \<Rightarrow> gsh_ast_node) \<Rightarrow> parser" where
  "update_node p i f =
    p\<lparr>p_storage := (p_storage p)\<lparr>ps_nodes := (p_nodes p)[i := f (p_nodes p ! i)]\<rparr>\<rparr>"

definition append_child :: "parser \<Rightarrow> nat \<Rightarrow> nat \<Rightarrow> bool \<times> parser" where
  "append_child p parent child =
    (if parent = GSH_AST_NONE \<or> child = GSH_AST_NONE then (False, p)
     else
       (let p = (if node_first_child (p_nodes p ! parent) = GSH_AST_NONE
                 then update_node p parent (\<lambda>n. n\<lparr>node_first_child := child\<rparr>)
                 else update_node p (node_last_child (p_nodes p ! parent))
                        (\<lambda>n. n\<lparr>node_next_sibling := child\<rparr>))
        in (True, update_node p parent
              (\<lambda>n. n\<lparr>node_last_child := child, node_end := node_end (p_nodes p ! child)\<rparr>))))"

definition append_word :: "parser \<Rightarrow> nat \<Rightarrow> gsh_token \<Rightarrow> bool \<times> parser" where
  "append_word p node t =
    (if length (p_words p) = GSH_PARSE_WORD_CAP then (False, fail p PARSE_LIMIT)
     else
       (let p = p\<lparr>p_storage := (p_storage p)\<lparr>ps_words :=
                    p_words p @ [\<lparr>ref_begin = tok_begin t, ref_end = tok_end t\<rparr>]\<rparr>\<rparr>
        in (True, update_node p node
              (\<lambda>n. n\<lparr>node_word_count := Suc (node_word_count n), node_end := tok_end t\<rparr>))))"

section \<open>Redirections\<close>

fun descriptor_digits :: "int \<Rightarrow> byte list \<Rightarrow> int" where
  "descriptor_digits descriptor [] = descriptor"
| "descriptor_digits descriptor (b # s) =
    (if 1000000 < descriptor then -2
     else descriptor_digits (descriptor * 10 + (of_char b - 48)) s)"

definition descriptor_from_token :: "parser \<Rightarrow> gsh_token \<Rightarrow> int" where
  "descriptor_from_token p t = descriptor_digits 0 (token_text p t)"

definition append_redirect ::
  "parser \<Rightarrow> nat \<Rightarrow> int \<Rightarrow> gsh_token_kind \<Rightarrow> gsh_token \<Rightarrow> bool \<times> parser" where
  "append_redirect p node descriptor oper target =
    (if length (p_redirects p) = GSH_PARSE_REDIRECT_CAP then (False, fail p PARSE_LIMIT)
     else
       (let span = \<lparr>ref_begin = tok_begin target, ref_end = tok_end target\<rparr>;
            redirect = \<lparr>rd_descriptor = descriptor, rd_operator = oper, rd_target = span,
               rd_body = \<lparr>ref_begin = tok_end target, ref_end = tok_end target\<rparr>, rd_flags = 0\<rparr>;
            heredoc = (oper = TOKEN_DLESS \<or> oper = TOKEN_DLESSDASH);
            source = find (\<lambda>d. doc_delimiter d = span) (p_heredocs p);
            redirect = (case (heredoc, source) of
                (True, Some d) \<Rightarrow> redirect\<lparr>rd_body := doc_body d, rd_flags := doc_flags d\<rparr>
              | _ \<Rightarrow> redirect);
            p = p\<lparr>p_storage := (p_storage p)\<lparr>ps_redirects := p_redirects p @ [redirect]\<rparr>\<rparr>
        in if heredoc \<and> source = None then (False, fail p PARSE_INCOMPLETE)
           else (True, update_node p node
              (\<lambda>n. n\<lparr>node_redirect_count := Suc (node_redirect_count n),
                     node_end := tok_end target\<rparr>))))"

function skip_linebreak :: "parser \<Rightarrow> parser" where
  "skip_linebreak p =
    (if p_position p < length (p_tokens p) \<and> current_kind p = TOKEN_NEWLINE
     then skip_linebreak (advance p) else p)"
  by pat_completeness auto
termination
  by (relation "measure (\<lambda>p. length (p_tokens p) - p_position p)") (auto simp: advance_def)

declare skip_linebreak.simps [simp del]

definition expect_word :: "parser \<Rightarrow> byte list \<Rightarrow> bool \<times> parser" where
  "expect_word p word =
    (if current_word_is p word then (True, advance p) else (False, fail_unexpected p))"

text \<open>A number glued to a following redirection operator is its descriptor.\<close>

definition io_number_at :: "parser \<Rightarrow> bool" where
  "io_number_at p \<longleftrightarrow>
    is_digit_span p (current_token p) \<and>
    is_redirect_operator (tok_kind (token_at p 1)) \<and>
    tok_end (current_token p) = tok_begin (token_at p 1)"

definition redirect_starts :: "parser \<Rightarrow> bool" where
  "redirect_starts p \<longleftrightarrow> is_redirect_operator (current_kind p) \<or> io_number_at p"

definition parse_redirect_operator :: "parser \<Rightarrow> nat \<Rightarrow> int \<Rightarrow> bool \<times> parser" where
  "parse_redirect_operator p node descriptor =
    (if \<not> is_redirect_operator (current_kind p) then (False, p)
     else
       (let oper = current_kind p;
            p = advance p;
            target = current_token p
        in if tok_kind target \<noteq> TOKEN_WORD then (False, fail_unexpected p)
           else append_redirect (advance p) node descriptor oper target))"

definition parse_one_redirect :: "parser \<Rightarrow> nat \<Rightarrow> bool \<times> parser" where
  "parse_one_redirect p node =
    (if current_kind p = TOKEN_WORD \<and> io_number_at p then
       (let descriptor = descriptor_from_token p (current_token p)
        in if descriptor < 0 then (False, fail p PARSE_LIMIT)
           else parse_redirect_operator (advance p) node descriptor)
     else parse_redirect_operator p node (- 1))"


section \<open>Frames: what the helpers leave alone\<close>

lemma advance_fields [simp, frame_simps]:
  "p_input (advance p) = p_input p" "p_storage (advance p) = p_storage p"
  "p_position (advance p) = Suc (p_position p)" "p_result (advance p) = p_result p"
  by (simp_all add: advance_def)

lemma fail_fields [simp, frame_simps]:
  "p_input (fail p st) = p_input p" "p_storage (fail p st) = p_storage p"
  "p_position (fail p st) = p_position p"
  "res_root (p_result (fail p st)) = res_root (p_result p)"
  by (simp_all add: fail_def)

lemma fail_unexpected_fields [simp, frame_simps]:
  "p_input (fail_unexpected p) = p_input p" "p_storage (fail_unexpected p) = p_storage p"
  "p_position (fail_unexpected p) = p_position p"
  "res_root (p_result (fail_unexpected p)) = res_root (p_result p)"
  by (simp_all add: fail_unexpected_def)

lemma update_node_fields [simp, frame_simps]:
  "p_input (update_node p i f) = p_input p" "p_position (update_node p i f) = p_position p"
  "p_result (update_node p i f) = p_result p"
  "p_tokens (update_node p i f) = p_tokens p" "p_words (update_node p i f) = p_words p"
  "p_redirects (update_node p i f) = p_redirects p"
  "p_heredocs (update_node p i f) = p_heredocs p"
  "p_command_words (update_node p i f) = p_command_words p"
  "p_nodes (update_node p i f) = (p_nodes p)[i := f (p_nodes p ! i)]"
  by (simp_all add: update_node_def)

lemma current_token_cong:
  "p_tokens p = p_tokens q \<Longrightarrow> p_position p = p_position q \<Longrightarrow> current_token p = current_token q"
  by (simp add: current_token_def)

lemma current_token_update_node [simp]: "current_token (update_node p i f) = current_token p"
  by (rule current_token_cong) simp_all

section \<open>Simple commands\<close>

text \<open>
  The loop of \<open>parse_simple\<close>. Its test \<open>p_position p < length (p_tokens p)\<close> is the array
  bound of the C token array, which the code leaves to the end-of-input token; it is shown
  below never to fail. The loop returns whether it went on to its end, whether it consumed
  anything, and the parser.
\<close>

definition parse_simple_word :: "parser \<Rightarrow> nat \<Rightarrow> bool \<Rightarrow> bool \<times> bool \<times> parser" where
  "parse_simple_word p node command_word =
    (let record = \<not> command_word \<and> \<not> is_assignment_span p (current_token p);
         r = (if record then record_command_word p (current_token p) else (True, p))
     in case r of
       (False, p) \<Rightarrow> (False, command_word, p)
     | (True, p) \<Rightarrow>
         (case append_word p node (current_token p) of
            (False, p) \<Rightarrow> (False, command_word \<or> record, p)
          | (True, p) \<Rightarrow> (True, command_word \<or> record, advance p)))"

lemma advance_mono: "p_position p \<le> p_position (advance p)"
  by simp

lemma append_redirect_frame:
  "append_redirect p node d oper t = (ok, q) \<Longrightarrow>
    p_tokens q = p_tokens p \<and> p_position q = p_position p \<and> p_input q = p_input p"
  by (auto simp: append_redirect_def Let_def split: if_splits)

lemma parse_redirect_operator_frame:
  "parse_redirect_operator p node d = (ok, q) \<Longrightarrow>
    p_tokens q = p_tokens p \<and> p_input q = p_input p \<and> p_position p \<le> p_position q \<and>
    (ok \<longrightarrow> p_position q = p_position p + 2)"
  by (auto simp: parse_redirect_operator_def Let_def dest: append_redirect_frame split: if_splits)

lemma parse_one_redirect_frame:
  "parse_one_redirect p node = (ok, q) \<Longrightarrow>
    p_tokens q = p_tokens p \<and> p_input q = p_input p \<and> p_position p \<le> p_position q \<and>
    (ok \<longrightarrow> p_position p < p_position q)"
  by (auto simp: parse_one_redirect_def Let_def dest: parse_redirect_operator_frame split: if_splits)

lemma append_word_frame:
  "append_word p node t = (ok, q) \<Longrightarrow>
    p_tokens q = p_tokens p \<and> p_input q = p_input p \<and> p_position q = p_position p"
  by (auto simp: append_word_def Let_def split: if_splits)

lemma record_command_word_frame:
  "record_command_word p t = (ok, q) \<Longrightarrow>
    p_tokens q = p_tokens p \<and> p_input q = p_input p \<and> p_position q = p_position p"
  by (auto simp: record_command_word_def split: if_splits)

lemma parse_simple_word_frame:
  "parse_simple_word p node cw = (ok, cw', q) \<Longrightarrow>
    p_tokens q = p_tokens p \<and> p_input q = p_input p \<and> p_position p \<le> p_position q \<and>
    (ok \<longrightarrow> p_position q = Suc (p_position p))"
  by (auto simp: parse_simple_word_def Let_def
      dest!: append_word_frame record_command_word_frame split: if_splits prod.splits bool.splits)

function parse_simple_loop :: "parser \<Rightarrow> nat \<Rightarrow> bool \<Rightarrow> bool \<Rightarrow> bool \<times> bool \<times> parser" where
  "parse_simple_loop p node consumed command_word =
    (if p_status p = PARSE_OK \<and> p_position p < length (p_tokens p) then
       (if is_redirect_operator (current_kind p) \<or> (current_kind p = TOKEN_WORD \<and> io_number_at p)
        then (case parse_one_redirect p node of
                (False, p) \<Rightarrow> (False, consumed, p)
              | (True, p) \<Rightarrow> parse_simple_loop p node True command_word)
        else if current_kind p \<noteq> TOKEN_WORD then (True, consumed, p)
        else (case parse_simple_word p node command_word of
                (False, _, p) \<Rightarrow> (False, consumed, p)
              | (True, command_word, p) \<Rightarrow> parse_simple_loop p node True command_word))
     else (True, consumed, p))"
  by pat_completeness auto
termination
proof (relation "measure (\<lambda>(p, node, consumed, cw). length (p_tokens p) - p_position p)",
    simp, goal_cases)
  case (1 p node consumed cw ok q)
  then show ?case using parse_one_redirect_frame[of p node True q] by auto
next
  case (2 p node consumed cw ok s cw' q)
  then show ?case using parse_simple_word_frame[of p node cw True cw' q] by auto
qed

declare parse_simple_loop.simps [simp del]

definition parse_simple :: "parser \<Rightarrow> nat \<times> parser" where
  "parse_simple p =
    (case new_node p AST_SIMPLE (tok_begin (current_token p)) of (node, p) \<Rightarrow>
      if node = GSH_AST_NONE then (node, p)
      else (case parse_simple_loop p node False False of
          (False, _, p) \<Rightarrow> (GSH_AST_NONE, p)
        | (True, consumed, p) \<Rightarrow>
            if \<not> consumed then (GSH_AST_NONE, fail_unexpected p) else (node, p)))"

end
