(* ===== verification/ParserMachine.thy ===== *)
theory ParserMachine
  imports ParserState
begin

text \<open>
  The pushdown machine of \<open>src/posix_parser.c\<close>: the suspended productions
  (\<open>parse_frame\<close>), one step function per production, \<open>machine_step\<close> and the driver
  \<open>parse_syntax\<close>. The frame stack is a list with the top first, so \<open>depth\<close> is its length.
  A step function gets the machine, its top frame and the frames below it, where the C
  holds a pointer to the top frame; it writes the updated frame back before it pushes.
\<close>

datatype parse_frame_kind =
    FRAME_LIST | FRAME_AND_OR | FRAME_PIPELINE | FRAME_COMMAND | FRAME_SUBSHELL | FRAME_BRACE
  | FRAME_WHILE | FRAME_UNTIL | FRAME_IF | FRAME_FOR | FRAME_CASE | FRAME_FUNCTION

abbreviation (input) STOP_RPAREN :: uint32 where "STOP_RPAREN \<equiv> 1"
abbreviation (input) STOP_RBRACE :: uint32 where "STOP_RBRACE \<equiv> 2"
abbreviation (input) STOP_DO :: uint32 where "STOP_DO \<equiv> 4"
abbreviation (input) STOP_DONE :: uint32 where "STOP_DONE \<equiv> 8"
abbreviation (input) STOP_THEN :: uint32 where "STOP_THEN \<equiv> 16"
abbreviation (input) STOP_ELIF :: uint32 where "STOP_ELIF \<equiv> 32"
abbreviation (input) STOP_ELSE :: uint32 where "STOP_ELSE \<equiv> 64"
abbreviation (input) STOP_FI :: uint32 where "STOP_FI \<equiv> 128"
abbreviation (input) STOP_ESAC :: uint32 where "STOP_ESAC \<equiv> 256"
abbreviation (input) STOP_CASE_ITEM :: uint32 where "STOP_CASE_ITEM \<equiv> 512"

record parse_frame =
  pf_kind :: parse_frame_kind
  pf_stops :: uint32
  pf_phase :: nat
  pf_node :: nat
  pf_saved :: nat
  pf_begin :: nat
  pf_connector :: gsh_token_kind

record parse_machine =
  pm_state :: parser
  pm_frames :: "parse_frame list"
  pm_value :: nat
  pm_returned :: bool

section \<open>Stack discipline\<close>

text \<open>\<open>None\<close> is \<open>PARSE_FRAME_NONE\<close>.\<close>

definition compound_frame_kind :: "parser \<Rightarrow> parse_frame_kind option" where
  "compound_frame_kind p =
    (if current_kind p = TOKEN_LPAREN then Some FRAME_SUBSHELL
     else if current_word_is p ''{'' then Some FRAME_BRACE
     else if current_word_is p ''if'' then Some FRAME_IF
     else if current_word_is p ''while'' then Some FRAME_WHILE
     else if current_word_is p ''until'' then Some FRAME_UNTIL
     else if current_word_is p ''for'' then Some FRAME_FOR
     else if current_word_is p ''case'' then Some FRAME_CASE
     else None)"

definition list_stops :: "parser \<Rightarrow> uint32 \<Rightarrow> bool" where
  "list_stops p stops \<longleftrightarrow>
    (stops AND STOP_RPAREN \<noteq> 0 \<and> current_kind p = TOKEN_RPAREN) \<or>
    (stops AND STOP_CASE_ITEM \<noteq> 0 \<and>
      (current_kind p = TOKEN_DSEMI \<or> current_kind p = TOKEN_SEMI_AND)) \<or>
    (stops AND STOP_RBRACE \<noteq> 0 \<and> current_word_is p ''}'') \<or>
    (stops AND STOP_DO \<noteq> 0 \<and> current_word_is p ''do'') \<or>
    (stops AND STOP_DONE \<noteq> 0 \<and> current_word_is p ''done'') \<or>
    (stops AND STOP_THEN \<noteq> 0 \<and> current_word_is p ''then'') \<or>
    (stops AND STOP_ELIF \<noteq> 0 \<and> current_word_is p ''elif'') \<or>
    (stops AND STOP_ELSE \<noteq> 0 \<and> current_word_is p ''else'') \<or>
    (stops AND STOP_FI \<noteq> 0 \<and> current_word_is p ''fi'') \<or>
    (stops AND (STOP_ESAC OR STOP_CASE_ITEM) \<noteq> 0 \<and> current_word_is p ''esac'')"

definition set_state :: "parse_machine \<Rightarrow> parser \<Rightarrow> parse_machine" where
  "set_state m p = m\<lparr>pm_state := p\<rparr>"

definition set_top :: "parse_machine \<Rightarrow> parser \<Rightarrow> parse_frame \<Rightarrow> parse_frame list \<Rightarrow> parse_machine" where
  "set_top m p f fs = m\<lparr>pm_state := p, pm_frames := f # fs\<rparr>"

definition fresh_frame :: "parse_frame_kind \<Rightarrow> uint32 \<Rightarrow> parse_frame" where
  "fresh_frame kind stops =
    \<lparr>pf_kind = kind, pf_stops = stops, pf_phase = 0, pf_node = GSH_AST_NONE,
     pf_saved = GSH_AST_NONE, pf_begin = 0, pf_connector = TOKEN_EOF\<rparr>"

definition machine_push ::
  "parse_machine \<Rightarrow> parse_frame_kind \<Rightarrow> uint32 \<Rightarrow> bool \<times> parse_machine" where
  "machine_push m kind stops =
    (if PARSE_FRAME_CAP \<le> length (pm_frames m) \<or> pm_returned m
     then (False, set_state m (fail (pm_state m) PARSE_LIMIT))
     else (True, m\<lparr>pm_frames := fresh_frame kind stops # pm_frames m\<rparr>))"

definition machine_complete :: "parse_machine \<Rightarrow> nat \<Rightarrow> parse_machine" where
  "machine_complete m value =
    m\<lparr>pm_frames := tl (pm_frames m), pm_value := value, pm_returned := True\<rparr>"

text \<open>
  \<open>machine_take\<close> hands the returned node to a continuation, so that a step reads like the
  C's \<open>if (!machine_take(...)) return false; ...\<close>. \<open>take_child\<close> is the common pair
  \<open>!machine_take(machine, &child) || !append_child(state, frame->node, child)\<close>.
\<close>

definition machine_take ::
  "parse_machine \<Rightarrow> (nat \<Rightarrow> parse_machine \<Rightarrow> bool \<times> parse_machine) \<Rightarrow> bool \<times> parse_machine" where
  "machine_take m k =
    (if PARSE_FRAME_CAP \<le> length (pm_frames m) \<or> \<not> pm_returned m
     then (False, set_state m (fail (pm_state m) PARSE_SYNTAX))
     else if pm_value m = GSH_AST_NONE then (False, m\<lparr>pm_returned := False\<rparr>)
     else k (pm_value m) (m\<lparr>pm_returned := False\<rparr>))"

text \<open>Running an operation of the parser inside the machine.\<close>

definition on_state ::
  "parse_machine \<Rightarrow> (parser \<Rightarrow> bool \<times> parser) \<Rightarrow> bool \<times> parse_machine" where
  "on_state m f = (case f (pm_state m) of (ok, p) \<Rightarrow> (ok, set_state m p))"

definition take_child ::
  "parse_machine \<Rightarrow> nat \<Rightarrow> (nat \<Rightarrow> parse_machine \<Rightarrow> bool \<times> parse_machine) \<Rightarrow> bool \<times> parse_machine" where
  "take_child m node k =
    machine_take m (\<lambda>child m. and_then (on_state m (\<lambda>p. append_child p node child)) (k child))"

definition set_node_end :: "parser \<Rightarrow> nat \<Rightarrow> nat \<Rightarrow> parser" where
  "set_node_end p node e = update_node p node (\<lambda>n. n\<lparr>node_end := e\<rparr>)"

definition or_node_flags :: "parser \<Rightarrow> nat \<Rightarrow> uint32 \<Rightarrow> parser" where
  "or_node_flags p node flags = update_node p node (\<lambda>n. n\<lparr>node_flags := node_flags n OR flags\<rparr>)"

text \<open>
  The close of a compound command: the reserved word, then the end offset of the token just
  consumed, then the return to the frame below.
\<close>

definition close_compound :: "parse_machine \<Rightarrow> nat \<Rightarrow> byte list \<Rightarrow> bool \<times> parse_machine" where
  "close_compound m node word =
    and_then (on_state m (\<lambda>p. expect_word p word))
      (\<lambda>m. let p = pm_state m
           in (True, machine_complete
                (set_state m (set_node_end p node (tok_end (p_tokens p ! (p_position p - 1)))))
                node))"

section \<open>Lists, and-or lists, pipelines and commands\<close>

definition step_list ::
  "parse_machine \<Rightarrow> parse_frame \<Rightarrow> parse_frame list \<Rightarrow> bool \<times> parse_machine" where
  "step_list m f fs =
    (if pf_phase f = 0 then
       (let p = skip_linebreak (pm_state m)
        in if list_stops p (pf_stops f) \<or> current_kind p = TOKEN_EOF
           then (False, set_state m (fail_unexpected p))
           else (case new_node p AST_LIST (tok_begin (current_token p)) of (node, p) \<Rightarrow>
              let m = set_top m p (f\<lparr>pf_node := node, pf_phase := 1\<rparr>) fs
              in if node = GSH_AST_NONE then (False, m) else machine_push m FRAME_AND_OR 0))
     else
       take_child m (pf_node f) (\<lambda>child m.
         let p = pm_state m;
             separator = (current_kind p = TOKEN_AMPERSAND \<or> current_kind p = TOKEN_SEMICOLON);
             separated = (separator \<or> current_kind p = TOKEN_NEWLINE);
             p = (if separator then
                    skip_linebreak (advance
                      (if current_kind p = TOKEN_AMPERSAND then or_node_flags p child FLAG_ASYNC
                       else p))
                  else if current_kind p = TOKEN_NEWLINE then skip_linebreak p
                  else p);
             m = set_state m p
         in if list_stops p (pf_stops f) then (True, machine_complete m (pf_node f))
            else if current_kind p = TOKEN_EOF then
              (if pf_stops f AND STOP_CASE_ITEM \<noteq> 0
               then (False, set_state m (fail p PARSE_INCOMPLETE))
               else (True, machine_complete m (pf_node f)))
            else if \<not> separated then (False, set_state m (fail p PARSE_SYNTAX))
            else machine_push m FRAME_AND_OR 0))"

definition step_and_or ::
  "parse_machine \<Rightarrow> parse_frame \<Rightarrow> parse_frame list \<Rightarrow> bool \<times> parse_machine" where
  "step_and_or m f fs =
    (if pf_phase f = 0 then
       (case new_node (pm_state m) AST_AND_OR (tok_begin (current_token (pm_state m))) of
          (node, p) \<Rightarrow>
            let m = set_top m p (f\<lparr>pf_node := node, pf_phase := 1\<rparr>) fs
            in if node = GSH_AST_NONE then (False, m) else machine_push m FRAME_PIPELINE 0)
     else
       machine_take m (\<lambda>pipeline m.
         let m = (if pf_phase f = 2 then
                    set_state m (update_node (pm_state m) pipeline
                      (\<lambda>n. n\<lparr>node_connector := pf_connector f\<rparr>))
                  else m)
         in and_then (on_state m (\<lambda>p. append_child p (pf_node f) pipeline)) (\<lambda>m.
              let p = pm_state m
              in if current_kind p \<noteq> TOKEN_AND_IF \<and> current_kind p \<noteq> TOKEN_OR_IF
                 then (True, machine_complete m (pf_node f))
                 else machine_push
                        (set_top m (skip_linebreak (advance p))
                          (f\<lparr>pf_connector := current_kind p, pf_phase := 2\<rparr>) fs)
                        FRAME_PIPELINE 0)))"

definition step_pipeline ::
  "parse_machine \<Rightarrow> parse_frame \<Rightarrow> parse_frame list \<Rightarrow> bool \<times> parse_machine" where
  "step_pipeline m f fs =
    (if pf_phase f = 0 then
       (case new_node (pm_state m) AST_PIPELINE (tok_begin (current_token (pm_state m))) of
          (node, p) \<Rightarrow>
            if node = GSH_AST_NONE then (False, set_top m p (f\<lparr>pf_node := node\<rparr>) fs)
            else
              (let p = (if current_word_is p ''!''
                        then skip_linebreak (advance (or_node_flags p node FLAG_NEGATED))
                        else p)
               in machine_push (set_top m p (f\<lparr>pf_node := node, pf_phase := 1\<rparr>) fs)
                    FRAME_COMMAND 0))
     else
       take_child m (pf_node f) (\<lambda>command m.
         let p = pm_state m
         in if current_kind p \<noteq> TOKEN_PIPE then (True, machine_complete m (pf_node f))
            else machine_push (set_state m (skip_linebreak (advance p))) FRAME_COMMAND 0))"

definition command_is_function :: "parser \<Rightarrow> bool" where
  "command_is_function p \<longleftrightarrow>
    current_kind p = TOKEN_WORD \<and> is_name_span p (current_token p) \<and>
    tok_kind (token_at p 1) = TOKEN_LPAREN \<and> tok_kind (token_at p 2) = TOKEN_RPAREN"

function parse_redirects :: "parser \<Rightarrow> nat \<Rightarrow> bool \<times> parser" where
  "parse_redirects p node =
    (if p_position p < length (p_tokens p) \<and> redirect_starts p
     then (case parse_one_redirect p node of
             (False, p) \<Rightarrow> (False, p)
           | (True, p) \<Rightarrow> parse_redirects p node)
     else (True, p))"
  by pat_completeness auto
termination
proof (relation "measure (\<lambda>(p, node). length (p_tokens p) - p_position p)", simp, goal_cases)
  case (1 p node ok q)
  then show ?case using parse_one_redirect_frame[of p node True q] by auto
qed

declare parse_redirects.simps [simp del]

definition step_command ::
  "parse_machine \<Rightarrow> parse_frame \<Rightarrow> parse_frame list \<Rightarrow> bool \<times> parse_machine" where
  "step_command m f fs =
    (let p = pm_state m in
     if pf_phase f = 0 then
       (case (if command_is_function p then Some FRAME_FUNCTION else compound_frame_kind p) of
          None \<Rightarrow>
            if is_any_reserved p (current_token p) then (False, set_state m (fail p PARSE_SYNTAX))
            else (case parse_simple p of (node, p) \<Rightarrow>
                (node \<noteq> GSH_AST_NONE, machine_complete (set_state m p) node))
        | Some kind \<Rightarrow> machine_push (set_top m p (f\<lparr>pf_phase := 1\<rparr>) fs) kind 0)
     else
       machine_take m (\<lambda>node m.
         and_then (on_state m (\<lambda>p. parse_redirects p node))
           (\<lambda>m. (True, machine_complete m node))))"


section \<open>Compound commands\<close>

definition step_group ::
  "parse_machine \<Rightarrow> parse_frame \<Rightarrow> parse_frame list \<Rightarrow> bool \<times> parse_machine" where
  "step_group m f fs =
    (let subshell = (pf_kind f = FRAME_SUBSHELL) in
     if pf_phase f = 0 then
       (case new_node (pm_state m) (if subshell then AST_SUBSHELL else AST_BRACE_GROUP)
               (tok_begin (current_token (pm_state m))) of (node, p) \<Rightarrow>
          let m = set_top m (advance p) (f\<lparr>pf_node := node, pf_phase := 1\<rparr>) fs
          in if node = GSH_AST_NONE then (False, m)
             else machine_push m FRAME_LIST (if subshell then STOP_RPAREN else STOP_RBRACE))
     else
       take_child m (pf_node f) (\<lambda>body m.
         if subshell then
           (let p = pm_state m
            in if current_kind p \<noteq> TOKEN_RPAREN then (False, set_state m (fail_unexpected p))
               else (True, machine_complete
                      (set_state m
                        (advance (set_node_end p (pf_node f) (tok_end (current_token p)))))
                      (pf_node f)))
         else close_compound m (pf_node f) ''}''))"

definition step_loop ::
  "parse_machine \<Rightarrow> parse_frame \<Rightarrow> parse_frame list \<Rightarrow> bool \<times> parse_machine" where
  "step_loop m f fs =
    (if pf_phase f = 0 then
       (case new_node (pm_state m) (if pf_kind f = FRAME_UNTIL then AST_UNTIL else AST_WHILE)
               (tok_begin (current_token (pm_state m))) of (node, p) \<Rightarrow>
          let m = set_top m (advance p) (f\<lparr>pf_node := node, pf_phase := 1\<rparr>) fs
          in if node = GSH_AST_NONE then (False, m) else machine_push m FRAME_LIST STOP_DO)
     else
       take_child m (pf_node f) (\<lambda>child m.
         if pf_phase f = 1 then
           and_then (on_state m (\<lambda>p. expect_word p ''do''))
             (\<lambda>m. machine_push (set_top m (pm_state m) (f\<lparr>pf_phase := 2\<rparr>) fs) FRAME_LIST STOP_DONE)
         else close_compound m (pf_node f) ''done''))"

definition new_if_branch :: "parser \<Rightarrow> nat \<Rightarrow> nat \<Rightarrow> nat \<Rightarrow> nat \<times> parser" where
  "new_if_branch p begin condition body =
    (case new_node p AST_IF_BRANCH begin of (branch, p) \<Rightarrow>
       if branch = GSH_AST_NONE then (branch, p)
       else (case (if condition \<noteq> GSH_AST_NONE then append_child p branch condition
                   else (True, p)) of
           (False, p) \<Rightarrow> (GSH_AST_NONE, p)
         | (True, p) \<Rightarrow>
             (case append_child p branch body of
                (False, p) \<Rightarrow> (GSH_AST_NONE, p)
              | (True, p) \<Rightarrow> (branch, p))))"

definition append_if_branch :: "parse_frame \<Rightarrow> nat \<Rightarrow> parser \<Rightarrow> bool \<times> parser" where
  "append_if_branch f body p =
    (case new_if_branch p (pf_begin f) (pf_saved f) body of (branch, p) \<Rightarrow>
       if branch = GSH_AST_NONE then (False, p) else append_child p (pf_node f) branch)"

text \<open>
  Phase 1 waits for a condition, phase 2 for the body after \<open>then\<close>, phase 3 for the body
  after \<open>else\<close>. The condition's node stays in \<open>pf_saved\<close> until its branch is built.
\<close>

definition step_if ::
  "parse_machine \<Rightarrow> parse_frame \<Rightarrow> parse_frame list \<Rightarrow> bool \<times> parse_machine" where
  "step_if m f fs =
    (if pf_phase f = 0 then
       (case new_node (pm_state m) AST_IF (tok_begin (current_token (pm_state m))) of (node, p) \<Rightarrow>
          let p = advance p;
              m = set_top m p
                    (f\<lparr>pf_node := node, pf_begin := tok_begin (current_token p), pf_phase := 1\<rparr>) fs
          in if node = GSH_AST_NONE then (False, m) else machine_push m FRAME_LIST STOP_THEN)
     else
       machine_take m (\<lambda>child m.
         if pf_phase f = 1 then
           (let f = f\<lparr>pf_saved := child\<rparr>
            in and_then (on_state (set_top m (pm_state m) f fs) (\<lambda>p. expect_word p ''then''))
                 (\<lambda>m. machine_push (set_top m (pm_state m) (f\<lparr>pf_phase := 2\<rparr>) fs)
                        FRAME_LIST (STOP_ELIF OR STOP_ELSE OR STOP_FI)))
         else if pf_phase f = 3 then
           (let f = f\<lparr>pf_saved := GSH_AST_NONE\<rparr>
            in and_then (on_state (set_top m (pm_state m) f fs) (append_if_branch f child))
                 (\<lambda>m. close_compound m (pf_node f) ''fi''))
         else
           and_then (on_state m (append_if_branch f child)) (\<lambda>m.
             let p = pm_state m
             in if current_word_is p ''elif'' then
                  (let p = advance p
                   in machine_push
                        (set_top m p
                          (f\<lparr>pf_begin := tok_begin (current_token p), pf_phase := 1\<rparr>) fs)
                        FRAME_LIST STOP_THEN)
                else if current_word_is p ''else'' then
                  machine_push
                    (set_top m (advance p)
                      (f\<lparr>pf_begin := tok_begin (current_token p), pf_phase := 3\<rparr>) fs)
                    FRAME_LIST STOP_FI
                else close_compound m (pf_node f) ''fi'')))"

text \<open>The word list of \<open>for name in ...\<close>; the counter and its cap are the C loop's.\<close>

function parse_for_words :: "nat \<Rightarrow> parser \<Rightarrow> nat \<Rightarrow> bool \<times> parser" where
  "parse_for_words words p node =
    (if words < GSH_PARSE_TOKEN_CAP \<and> current_kind p = TOKEN_WORD \<and> \<not> current_word_is p ''do''
     then (case append_word p node (current_token p) of
             (False, p) \<Rightarrow> (False, p)
           | (True, p) \<Rightarrow> parse_for_words (Suc words) (advance p) node)
     else (True, p))"
  by pat_completeness auto
termination
  by (relation "measure (\<lambda>(words, p, node). GSH_PARSE_TOKEN_CAP - words)") auto

declare parse_for_words.simps [simp del]

definition parse_for_name :: "parser \<Rightarrow> nat \<Rightarrow> bool \<times> parser" where
  "parse_for_name p node =
    (let p = advance p
     in case (if is_name_span p (current_token p) then append_word p node (current_token p)
              else (False, p)) of
          (False, p) \<Rightarrow> (False, fail_unexpected p)
        | (True, p) \<Rightarrow> (True, skip_linebreak (advance p)))"

definition parse_for_separator :: "bool \<Rightarrow> parser \<Rightarrow> bool \<times> parser" where
  "parse_for_separator has_in p =
    (let semicolon = (current_kind p = TOKEN_SEMICOLON);
         newline = (current_kind p = TOKEN_NEWLINE);
         p = (if semicolon then skip_linebreak (advance p)
              else if newline then skip_linebreak p else p)
     in if has_in \<and> \<not> (semicolon \<or> newline) then (False, fail p PARSE_SYNTAX)
        else expect_word p ''do'')"

definition parse_for_header :: "parser \<Rightarrow> nat \<Rightarrow> bool \<times> parser" where
  "parse_for_header p node =
    and_then (parse_for_name p node) (\<lambda>p.
      if current_word_is p ''in'' then
        and_then (parse_for_words 0 (advance (or_node_flags p node FLAG_FOR_HAS_IN)) node)
          (parse_for_separator True)
      else parse_for_separator False p)"

definition step_for ::
  "parse_machine \<Rightarrow> parse_frame \<Rightarrow> parse_frame list \<Rightarrow> bool \<times> parse_machine" where
  "step_for m f fs =
    (if pf_phase f = 0 then
       (case new_node (pm_state m) AST_FOR (tok_begin (current_token (pm_state m))) of (node, p) \<Rightarrow>
          let m = set_top m p (f\<lparr>pf_node := node\<rparr>) fs
          in if node = GSH_AST_NONE then (False, m)
             else and_then (on_state m (\<lambda>p. parse_for_header p node))
               (\<lambda>m. machine_push (set_top m (pm_state m) (f\<lparr>pf_node := node, pf_phase := 1\<rparr>) fs)
                      FRAME_LIST STOP_DONE))
     else take_child m (pf_node f) (\<lambda>body m. close_compound m (pf_node f) ''done''))"


section \<open>Case commands and functions\<close>

definition parse_case_header :: "nat \<Rightarrow> parser \<Rightarrow> bool \<times> parser" where
  "parse_case_header node p =
    (let p = advance p
     in case (if node = GSH_AST_NONE \<or> current_kind p \<noteq> TOKEN_WORD then (False, p)
              else append_word p node (current_token p)) of
          (False, p) \<Rightarrow> (False, fail_unexpected p)
        | (True, p) \<Rightarrow>
            and_then (expect_word (skip_linebreak (advance p)) ''in'')
              (\<lambda>p. (True, skip_linebreak p)))"

function parse_pattern_words :: "nat \<Rightarrow> parser \<Rightarrow> nat \<Rightarrow> bool \<times> parser" where
  "parse_pattern_words patterns p item =
    (if patterns < GSH_PARSE_TOKEN_CAP then
       (case append_word p item (current_token p) of
          (False, p) \<Rightarrow> (False, p)
        | (True, p) \<Rightarrow>
            (let p = advance p
             in if current_kind p \<noteq> TOKEN_PIPE then (True, p)
                else (let p = advance p
                      in if current_kind p \<noteq> TOKEN_WORD then (False, fail_unexpected p)
                         else parse_pattern_words (Suc patterns) p item)))
     else (True, p))"
  by pat_completeness auto
termination
  by (relation "measure (\<lambda>(patterns, p, item). GSH_PARSE_TOKEN_CAP - patterns)") auto

declare parse_pattern_words.simps [simp del]

definition parse_case_patterns :: "nat \<Rightarrow> parser \<Rightarrow> bool \<times> parser" where
  "parse_case_patterns item p =
    (let p = (if current_kind p = TOKEN_LPAREN then advance p else p)
     in if current_kind p \<noteq> TOKEN_WORD then (False, fail_unexpected p)
        else and_then (parse_pattern_words 0 p item) (\<lambda>p.
               if current_kind p \<noteq> TOKEN_RPAREN then (False, fail_unexpected p)
               else (True, skip_linebreak (advance p))))"

definition finish_case_item :: "parse_frame \<Rightarrow> parser \<Rightarrow> bool \<times> parser" where
  "finish_case_item f p =
    (let kind = current_kind p;
         item = pf_saved f
     in case (if kind = TOKEN_DSEMI \<or> kind = TOKEN_SEMI_AND then
                (let p = (if kind = TOKEN_SEMI_AND then or_node_flags p item FLAG_CASE_FALLTHROUGH
                          else p)
                 in (True, skip_linebreak (advance
                             (set_node_end p item (tok_end (current_token p))))))
              else if \<not> current_word_is p ''esac'' then (False, fail_unexpected p)
              else (True, p)) of
          (False, p) \<Rightarrow> (False, p)
        | (True, p) \<Rightarrow>
            and_then (append_child p (pf_node f) item) (\<lambda>p.
              if current_kind p = TOKEN_EOF then (False, fail p PARSE_INCOMPLETE)
              else (True, p)))"

text \<open>
  The tail of \<open>step_case\<close> in phase 1: the closing \<open>esac\<close> or the next item. After the
  patterns the frame waits for a body in phase 2, or goes on with an empty item in phase 3.
\<close>

definition case_next ::
  "parse_machine \<Rightarrow> parse_frame \<Rightarrow> parse_frame list \<Rightarrow> bool \<times> parse_machine" where
  "case_next m f fs =
    (if current_word_is (pm_state m) ''esac'' then close_compound m (pf_node f) ''esac''
     else
       (case new_node (pm_state m) AST_CASE_ITEM (tok_begin (current_token (pm_state m))) of
          (item, p) \<Rightarrow>
            let f = f\<lparr>pf_saved := item\<rparr>;
                m = set_top m p f fs
            in if item = GSH_AST_NONE then (False, m)
               else and_then (on_state m (parse_case_patterns item)) (\<lambda>m.
                 let p = pm_state m
                 in if \<not> list_stops p STOP_CASE_ITEM \<and> current_kind p \<noteq> TOKEN_EOF
                    then machine_push (set_top m p (f\<lparr>pf_phase := 2\<rparr>) fs) FRAME_LIST STOP_CASE_ITEM
                    else (True, set_top m p (f\<lparr>pf_phase := 3\<rparr>) fs))))"

definition case_finish ::
  "parse_machine \<Rightarrow> parse_frame \<Rightarrow> parse_frame list \<Rightarrow> bool \<times> parse_machine" where
  "case_finish m f fs =
    and_then (on_state m (finish_case_item f))
      (\<lambda>m. let f = f\<lparr>pf_phase := 1\<rparr> in case_next (set_top m (pm_state m) f fs) f fs)"

definition step_case ::
  "parse_machine \<Rightarrow> parse_frame \<Rightarrow> parse_frame list \<Rightarrow> bool \<times> parse_machine" where
  "step_case m f fs =
    (if pf_phase f = 0 then
       (case new_node (pm_state m) AST_CASE (tok_begin (current_token (pm_state m))) of (node, p) \<Rightarrow>
          let m = set_top m p (f\<lparr>pf_node := node\<rparr>) fs
          in and_then (on_state m (parse_case_header node))
               (\<lambda>m. let f = f\<lparr>pf_node := node, pf_phase := 1\<rparr>
                    in case_next (set_top m (pm_state m) f fs) f fs))
     else if pf_phase f = 2 then
       take_child m (pf_saved f) (\<lambda>body m.
         let f = f\<lparr>pf_phase := 3\<rparr> in case_finish (set_top m (pm_state m) f fs) f fs)
     else if pf_phase f = 3 then case_finish m f fs
     else case_next m f fs)"

definition step_function ::
  "parse_machine \<Rightarrow> parse_frame \<Rightarrow> parse_frame list \<Rightarrow> bool \<times> parse_machine" where
  "step_function m f fs =
    (if pf_phase f = 0 then
       (case new_node (pm_state m) AST_FUNCTION (tok_begin (current_token (pm_state m))) of
          (node, p) \<Rightarrow>
            let m = set_top m p (f\<lparr>pf_node := node\<rparr>) fs
            in if node = GSH_AST_NONE then (False, m)
               else and_then (on_state m (\<lambda>p. append_word p node (current_token p))) (\<lambda>m.
                 let p = skip_linebreak (advance (advance (advance (pm_state m))))
                 in case compound_frame_kind p of
                      None \<Rightarrow> (False, set_state m (fail_unexpected p))
                    | Some kind \<Rightarrow>
                        machine_push (set_top m p (f\<lparr>pf_node := node, pf_phase := 1\<rparr>) fs) kind 0))
     else
       take_child m (pf_node f) (\<lambda>body m. (True, machine_complete m (pf_node f))))"

section \<open>The machine\<close>

definition machine_step :: "parse_machine \<Rightarrow> bool \<times> parse_machine" where
  "machine_step m =
    (case pm_frames m of
       [] \<Rightarrow> (False, m)
     | f # fs \<Rightarrow>
         (case pf_kind f of
            FRAME_LIST \<Rightarrow> step_list m f fs
          | FRAME_AND_OR \<Rightarrow> step_and_or m f fs
          | FRAME_PIPELINE \<Rightarrow> step_pipeline m f fs
          | FRAME_COMMAND \<Rightarrow> step_command m f fs
          | FRAME_SUBSHELL \<Rightarrow> step_group m f fs
          | FRAME_BRACE \<Rightarrow> step_group m f fs
          | FRAME_WHILE \<Rightarrow> step_loop m f fs
          | FRAME_UNTIL \<Rightarrow> step_loop m f fs
          | FRAME_IF \<Rightarrow> step_if m f fs
          | FRAME_FOR \<Rightarrow> step_for m f fs
          | FRAME_CASE \<Rightarrow> step_case m f fs
          | FRAME_FUNCTION \<Rightarrow> step_function m f fs))"

function run_machine :: "nat \<Rightarrow> parse_machine \<Rightarrow> bool \<times> parse_machine" where
  "run_machine steps m =
    (if steps < PARSE_MACHINE_STEP_CAP \<and> pm_frames m \<noteq> [] then
       (case machine_step m of
          (False, m) \<Rightarrow> (False, m)
        | (True, m) \<Rightarrow> run_machine (Suc steps) m)
     else (True, m))"
  by pat_completeness auto
termination by (relation "measure (\<lambda>(steps, m). PARSE_MACHINE_STEP_CAP - steps)") auto

declare run_machine.simps [simp del]

definition start_machine :: "parser \<Rightarrow> parse_machine" where
  "start_machine p = \<lparr>pm_state = p, pm_frames = [], pm_value = 0, pm_returned = False\<rparr>"

definition parse_syntax :: "parser \<Rightarrow> nat \<times> parser" where
  "parse_syntax p =
    (case machine_push (start_machine p) FRAME_LIST 0 of
       (False, m) \<Rightarrow> (GSH_AST_NONE, pm_state m)
     | (True, m) \<Rightarrow>
         (case run_machine 0 m of
            (False, m) \<Rightarrow> (GSH_AST_NONE, pm_state m)
          | (True, m) \<Rightarrow>
              if pm_frames m \<noteq> [] \<or> \<not> pm_returned m
              then (GSH_AST_NONE, fail (pm_state m) PARSE_LIMIT)
              else (pm_value m, pm_state m)))"

end
