(* ===== verification/Heredoc.thy ===== *)
theory Heredoc
  imports ParserState
begin

text \<open>
  Here-documents and the tokenizing pass of \<open>src/posix_parser.c\<close>: quote removal of a
  delimiter word, the scan of one line of a body, the collection of the pending bodies after
  a newline, and \<open>tokenize\<close>. Where the C moves an offset towards the end of a span, the
  model holds the list of bytes of the span that are not read yet.
\<close>

section \<open>Quote removal of the delimiter\<close>

record pending_heredoc =
  pend_delimiter :: gsh_word_ref
  pend_strip_tabs :: bool

definition heredoc_byte :: "byte list \<Rightarrow> byte \<Rightarrow> byte list option" where
  "heredoc_byte output b =
    (if length output = GSH_HEREDOC_DELIMITER_CAP then None else Some (output @ [b]))"

definition heredoc_hexadecimal :: "byte \<Rightarrow> int" where
  "heredoc_hexadecimal b =
    (if CHR ''0'' \<le> b \<and> b \<le> CHR ''9'' then of_char b - 48
     else if CHR ''a'' \<le> b \<and> b \<le> CHR ''f'' then 10 + (of_char b - 97)
     else if CHR ''A'' \<le> b \<and> b \<le> CHR ''F'' then 10 + (of_char b - 65)
     else -1)"

datatype heredoc_quote = QUOTE_NONE | QUOTE_SINGLE | QUOTE_DOUBLE | QUOTE_DOLLAR

definition heredoc_simple_escape :: "byte \<Rightarrow> byte option" where
  "heredoc_simple_escape e =
    (if e = NUL then None
     else if e = CHR ''n'' then Some (CHR 0x0A)
     else if e = CHR ''r'' then Some (CHR 0x0D)
     else if e = CHR ''t'' then Some (CHR 0x09)
     else if e = CHR ''a'' then Some (CHR 0x07)
     else if e = CHR ''b'' then Some (CHR 0x08)
     else if e = CHR ''e'' then Some (CHR 0x1B)
     else if e = CHR ''f'' then Some (CHR 0x0C)
     else if e = CHR ''v'' then Some (CHR 0x0B)
     else if e = BSLASH \<or> e = QUOTE \<or> e = DQUOTE then Some e
     else None)"

fun hex_escape :: "nat \<Rightarrow> nat \<Rightarrow> byte list \<Rightarrow> nat \<times> nat \<times> byte list" where
  "hex_escape digits v [] = (digits, v, [])"
| "hex_escape digits v (b # rest) =
    (if digits < 2 \<and> 0 \<le> heredoc_hexadecimal b
     then hex_escape (Suc digits) (v * 16 + nat (heredoc_hexadecimal b)) rest
     else (digits, v, b # rest))"

definition octal_byte :: "byte \<Rightarrow> bool" where
  "octal_byte b \<longleftrightarrow> CHR ''0'' \<le> b \<and> b \<le> CHR ''7''"

fun octal_escape :: "nat \<Rightarrow> nat \<Rightarrow> byte list \<Rightarrow> nat \<times> byte list" where
  "octal_escape digits v [] = (v, [])"
| "octal_escape digits v (b # rest) =
    (if digits < 3 \<and> octal_byte b
     then octal_escape (Suc digits) (v * 8 + (of_char b - 48)) rest
     else (v, b # rest))"

definition heredoc_dollar_escape :: "byte list \<Rightarrow> (byte \<times> byte list) option" where
  "heredoc_dollar_escape rest =
    (case rest of
       [] \<Rightarrow> None
     | e # rest \<Rightarrow>
         (case heredoc_simple_escape e of
            Some b \<Rightarrow> Some (b, rest)
          | None \<Rightarrow>
              if e = CHR ''x'' then
                (case hex_escape 0 0 rest of (digits, v, rest) \<Rightarrow>
                   if digits = 0 \<or> v = 0 then None else Some (char_of v, rest))
              else if octal_byte e then
                (case octal_escape 1 (of_char e - 48) rest of (v, rest) \<Rightarrow>
                   if v = 0 \<or> 255 < v then None else Some (char_of v, rest))
              else None))"

type_synonym delimiter_scan = "byte list \<times> heredoc_quote \<times> byte list"

definition emit :: "byte list \<Rightarrow> heredoc_quote \<Rightarrow> byte list \<Rightarrow> byte \<Rightarrow> delimiter_scan option" where
  "emit rest quote output b = map_option (\<lambda>output. (rest, quote, output)) (heredoc_byte output b)"

definition heredoc_quoted_byte ::
  "byte list \<Rightarrow> heredoc_quote \<Rightarrow> byte \<Rightarrow> byte list \<Rightarrow> delimiter_scan option" where
  "heredoc_quoted_byte rest quote b output =
    (if quote = QUOTE_SINGLE then
       (if b = QUOTE then Some (rest, QUOTE_NONE, output) else emit rest quote output b)
     else if quote = QUOTE_DOUBLE then
       (if b = DQUOTE then Some (rest, QUOTE_NONE, output)
        else if b = BSLASH \<and> rest \<noteq> [] \<and>
                hd rest \<in> {CHR ''$'', BQUOTE, DQUOTE, BSLASH, NL} then
          (if hd rest = NL then Some (tl rest, quote, output)
           else emit (tl rest) quote output (hd rest))
        else emit rest quote output b)
     else if b = QUOTE then Some (rest, QUOTE_NONE, output)
     else if b = BSLASH then
       (case heredoc_dollar_escape rest of
          None \<Rightarrow> None
        | Some (b, rest) \<Rightarrow> emit rest quote output b)
     else emit rest quote output b)"

text \<open>One unquoted byte: the new rest, quote and output, and whether it was a quoting byte.\<close>

definition heredoc_plain_byte ::
  "byte list \<Rightarrow> byte \<Rightarrow> byte list \<Rightarrow> (delimiter_scan \<times> bool) option" where
  "heredoc_plain_byte rest b output =
    (if b = QUOTE then Some ((rest, QUOTE_SINGLE, output), True)
     else if b = DQUOTE then Some ((rest, QUOTE_DOUBLE, output), True)
     else if b = BSLASH then
       (case rest of
          [] \<Rightarrow> None
        | c # rest \<Rightarrow>
            if c = NL then Some ((rest, QUOTE_NONE, output), True)
            else map_option (\<lambda>r. (r, True)) (emit rest QUOTE_NONE output c))
     else if b = CHR ''$'' \<and> rest \<noteq> [] \<and> hd rest = QUOTE then
       Some ((tl rest, QUOTE_DOLLAR, output), True)
     else map_option (\<lambda>r. (r, False)) (emit rest QUOTE_NONE output b))"

lemma hex_escape_length: "length (snd (snd (hex_escape d v rest))) \<le> length rest"
  by (induction d v rest rule: hex_escape.induct) auto

lemma octal_escape_length: "length (snd (octal_escape d v rest)) \<le> length rest"
  by (induction d v rest rule: octal_escape.induct) auto

lemma heredoc_dollar_escape_length:
  "heredoc_dollar_escape rest = Some (b, rest') \<Longrightarrow> length rest' < length rest"
  using hex_escape_length[of 0 0 "tl rest"] octal_escape_length[of 1 _ "tl rest"]
  by (auto simp: heredoc_dollar_escape_def less_Suc_eq_le
      split: list.splits option.splits if_splits prod.splits)
    (metis snd_conv)

lemma emit_Some: "emit rest quote output b = Some (rest', quote', output') \<longleftrightarrow>
    rest' = rest \<and> quote' = quote \<and> output' = output @ [b] \<and>
    length output \<noteq> GSH_HEREDOC_DELIMITER_CAP"
  by (auto simp: emit_def heredoc_byte_def)

lemma heredoc_quoted_byte_length:
  "heredoc_quoted_byte rest quote b output = Some (rest', quote', output') \<Longrightarrow>
    length rest' \<le> length rest"
  by (auto simp: heredoc_quoted_byte_def emit_Some split: if_splits option.splits
      dest: heredoc_dollar_escape_length)

lemma heredoc_plain_byte_length:
  "heredoc_plain_byte rest b output = Some ((rest', quote', output'), q) \<Longrightarrow>
    length rest' \<le> length rest"
  by (auto simp: heredoc_plain_byte_def emit_Some split: if_splits list.splits)

function heredoc_delimiter_loop ::
  "byte list \<Rightarrow> heredoc_quote \<Rightarrow> byte list \<Rightarrow> bool \<Rightarrow> (byte list \<times> bool) option" where
  "heredoc_delimiter_loop [] quote output quoted =
    (if quote = QUOTE_NONE then Some (output, quoted) else None)"
| "heredoc_delimiter_loop (b # rest) quote output quoted =
    (if quote \<noteq> QUOTE_NONE then
       (case heredoc_quoted_byte rest quote b output of
          None \<Rightarrow> None
        | Some (rest, quote, output) \<Rightarrow> heredoc_delimiter_loop rest quote output quoted)
     else
       (case heredoc_plain_byte rest b output of
          None \<Rightarrow> None
        | Some ((rest, quote, output), q) \<Rightarrow>
            heredoc_delimiter_loop rest quote output (quoted \<or> q)))"
  by pat_completeness auto
termination
  by (relation "measure (\<lambda>(rest, quote, output, quoted). length rest)")
    (auto dest: heredoc_quoted_byte_length heredoc_plain_byte_length
      simp: less_Suc_eq_le)

text \<open>\<open>Some (text, quoted)\<close> where the C returns true with the text and the flag.\<close>

definition build_heredoc_delimiter :: "byte list \<Rightarrow> gsh_word_ref \<Rightarrow> (byte list \<times> bool) option" where
  "build_heredoc_delimiter input ref =
    heredoc_delimiter_loop (slice input (ref_begin ref) (ref_end ref)) QUOTE_NONE [] False"


section \<open>One line of a body\<close>

text \<open>
  A logical line of an unquoted here-document may run over several physical lines, joined by
  a backslash before the newline; \<open>sg_copy_end\<close> leaves that backslash out of the comparison.
\<close>

record heredoc_segment =
  sg_begin :: nat
  sg_end :: nat
  sg_continuation :: bool

definition sg_copy_end :: "heredoc_segment \<Rightarrow> nat" where
  "sg_copy_end g = (if sg_continuation g then sg_end g - 1 else sg_end g)"

definition line_segment :: "byte list \<Rightarrow> bool \<Rightarrow> bool \<Rightarrow> nat \<Rightarrow> heredoc_segment" where
  "line_segment input skip_tabs quoted scan =
    (let segment_begin = (if skip_tabs
           then scan + length (takeWhile (\<lambda>b. b = TAB) (drop scan input)) else scan);
         segment_end = segment_begin + length (takeWhile (\<lambda>b. b \<noteq> NL) (drop segment_begin input));
         trailing_backslashes = (if \<not> quoted \<and> segment_end < length input
           then length (takeWhile (\<lambda>b. b = BSLASH) (rev (slice input segment_begin segment_end)))
           else 0)
     in \<lparr>sg_begin = segment_begin, sg_end = segment_end,
         sg_continuation = (\<not> quoted \<and> segment_end < length input \<and>
           trailing_backslashes mod 2 \<noteq> 0)\<rparr>)"

record heredoc_line_scan =
  ls_line_begin :: nat
  ls_after_line :: nat
  ls_comparison :: "byte list"
  ls_overflow :: bool

definition add_segment :: "byte list \<Rightarrow> heredoc_segment \<Rightarrow> heredoc_line_scan \<Rightarrow> heredoc_line_scan" where
  "add_segment input g r =
    (let r = (if ls_overflow r then r
       else if GSH_HEREDOC_DELIMITER_CAP - length (ls_comparison r) < sg_copy_end g - sg_begin g
       then r\<lparr>ls_overflow := True\<rparr>
       else r\<lparr>ls_comparison := ls_comparison r @ slice input (sg_begin g) (sg_copy_end g)\<rparr>)
     in r\<lparr>ls_after_line := (if sg_end g < length input then Suc (sg_end g) else sg_end g)\<rparr>)"

function scan_line_loop ::
  "nat \<Rightarrow> byte list \<Rightarrow> bool \<Rightarrow> bool \<Rightarrow> nat \<Rightarrow> heredoc_line_scan \<Rightarrow> heredoc_line_scan option" where
  "scan_line_loop step input strip_tabs quoted scan r =
    (if step < PARSE_INPUT_STEP_CAP then
       (let g = line_segment input
                  (strip_tabs \<and> ls_comparison r = [] \<and> \<not> ls_overflow r) quoted scan;
            r = add_segment input g r
        in if \<not> sg_continuation g then Some r
           else scan_line_loop (Suc step) input strip_tabs quoted (ls_after_line r) r)
     else None)"
  by pat_completeness auto
termination
  by (relation "measure (\<lambda>(step, _). PARSE_INPUT_STEP_CAP - step)") auto

declare scan_line_loop.simps [simp del]

definition scan_heredoc_line :: "gsh_lexer \<Rightarrow> bool \<Rightarrow> bool \<Rightarrow> heredoc_line_scan option" where
  "scan_heredoc_line l strip_tabs quoted =
    scan_line_loop 0 (lx_input l) strip_tabs quoted (lx_offset l)
      \<lparr>ls_line_begin = lx_offset l, ls_after_line = 0, ls_comparison = [], ls_overflow = False\<rparr>"

lemma add_segment_fields [simp]:
  "ls_line_begin (add_segment input g r) = ls_line_begin r"
  "ls_after_line (add_segment input g r) =
    (if sg_end g < length input then Suc (sg_end g) else sg_end g)"
  by (simp_all add: add_segment_def Let_def)

lemma line_segment_bounds:
  "scan \<le> sg_begin (line_segment input st q scan) \<and>
    sg_begin (line_segment input st q scan) \<le> sg_end (line_segment input st q scan) \<and>
    (scan \<le> length input \<longrightarrow> sg_end (line_segment input st q scan) \<le> length input)"
proof -
  have tw: "length (takeWhile P (drop n input)) \<le> length input - n" for P n
    by (metis length_drop length_takeWhile_le)
  show ?thesis
    using tw[of "\<lambda>b. b = TAB" scan]
      tw[of "\<lambda>b. b \<noteq> NL" scan]
      tw[of "\<lambda>b. b \<noteq> NL" "scan + length (takeWhile (\<lambda>b. b = TAB) (drop scan input))"]
    by (auto simp: line_segment_def Let_def)
qed

lemma scan_line_loop_bounds:
  "scan_line_loop step input st q scan r = Some r' \<Longrightarrow> scan \<le> length input \<Longrightarrow>
    ls_line_begin r' = ls_line_begin r \<and> ls_after_line r' \<le> length input \<and>
    (scan < ls_after_line r' \<or> ls_after_line r' = length input)"
proof (induction step input st q scan r rule: scan_line_loop.induct)
  case (1 step input st q scan r)
  let ?tabs = "st \<and> ls_comparison r = [] \<and> \<not> ls_overflow r"
  let ?g = "line_segment input ?tabs q scan"
  let ?r = "add_segment input ?g r"
  have b: "scan \<le> sg_end ?g" "sg_end ?g \<le> length input"
    using line_segment_bounds[of scan input ?tabs q] "1.prems" by auto
  show ?case
  proof (cases "step < PARSE_INPUT_STEP_CAP \<and> sg_continuation ?g")
    case True
    with "1.prems" have "scan_line_loop (Suc step) input st q (ls_after_line ?r) ?r = Some r'"
      by (simp add: scan_line_loop.simps[of step] Let_def)
    with "1.IH"[OF _ refl refl] True b show ?thesis by (auto split: if_splits)
  next
    case False
    with "1.prems" b show ?thesis
      by (auto simp: scan_line_loop.simps[of step] Let_def split: if_splits)
  qed
qed

section \<open>Collecting the pending bodies\<close>

definition advance_lexer_to :: "gsh_lexer \<Rightarrow> nat \<Rightarrow> gsh_lexer" where
  "advance_lexer_to l new_offset = advance_count l (new_offset - lx_offset l)"

definition record_heredoc ::
  "parser \<Rightarrow> pending_heredoc \<Rightarrow> nat \<Rightarrow> nat \<Rightarrow> bool \<Rightarrow> gsh_parse_status \<times> parser" where
  "record_heredoc p entry body_begin line_begin quoted =
    (if line_begin < body_begin then (PARSE_LIMIT, p)
     else if length (p_heredocs p) = GSH_PARSE_REDIRECT_CAP then (PARSE_LIMIT, p)
     else (PARSE_OK, p\<lparr>p_storage := (p_storage p)\<lparr>ps_heredocs := p_heredocs p @
       [\<lparr>doc_delimiter = pend_delimiter entry,
         doc_body = \<lparr>ref_begin = body_begin, ref_end = line_begin\<rparr>,
         doc_flags = REDIRECT_HEREDOC OR
           (if pend_strip_tabs entry then REDIRECT_HEREDOC_STRIP_TABS else 0) OR
           (if quoted then REDIRECT_HEREDOC_QUOTED else 0)\<rparr>]\<rparr>\<rparr>))"

text \<open>
  The search for the delimiter line of one body: \<open>Inl\<close> is the failing status, with the
  lexer where the search stopped; \<open>Inr\<close> is the delimiter line that was found.
\<close>

function find_delimiter_line ::
  "gsh_lexer \<Rightarrow> bool \<Rightarrow> bool \<Rightarrow> byte list \<Rightarrow> (gsh_parse_status + heredoc_line_scan) \<times> gsh_lexer" where
  "find_delimiter_line l strip_tabs quoted delimiter =
    (if lx_offset l \<le> lx_length l then
       (case scan_heredoc_line l strip_tabs quoted of
          None \<Rightarrow> (Inl PARSE_LIMIT, l)
        | Some line \<Rightarrow>
            if \<not> ls_overflow line \<and> ls_comparison line = delimiter then (Inr line, l)
            else if ls_after_line line = lx_length l then (Inl PARSE_INCOMPLETE, l)
            else find_delimiter_line (advance_lexer_to l (ls_after_line line))
                   strip_tabs quoted delimiter)
     else (Inl PARSE_INCOMPLETE, l))"
  by pat_completeness auto
termination
proof (relation "measure (\<lambda>(l, _). lx_length l - lx_offset l)", simp, goal_cases)
  case (1 l strip_tabs quoted delimiter line)
  from 1(2) scan_line_loop_bounds[OF 1(2)[unfolded scan_heredoc_line_def]] 1(1,4) show ?case
    by (auto simp: advance_lexer_to_def)
qed

declare find_delimiter_line.simps [simp del]

definition collect_one ::
  "parser \<Rightarrow> gsh_lexer \<Rightarrow> pending_heredoc \<Rightarrow> gsh_parse_status \<times> parser \<times> gsh_lexer" where
  "collect_one p l entry =
    (let body_begin = lx_offset l
     in case build_heredoc_delimiter (p_input p) (pend_delimiter entry) of
          None \<Rightarrow> (PARSE_LIMIT, p, l)
        | Some (delimiter, quoted) \<Rightarrow>
            (case find_delimiter_line l (pend_strip_tabs entry) quoted delimiter of
               (Inl st, l) \<Rightarrow>
                 (st, if st = PARSE_INCOMPLETE
                      then p\<lparr>p_result := (p_result p)\<lparr>res_error_offset := lx_offset l\<rparr>\<rparr> else p, l)
             | (Inr line, l) \<Rightarrow>
                 (case record_heredoc p entry body_begin (ls_line_begin line) quoted of
                    (st, p) \<Rightarrow>
                      if st \<noteq> PARSE_OK then (st, p, l)
                      else (PARSE_OK, p, advance_lexer_to l (ls_after_line line)))))"

fun collect_heredocs ::
  "parser \<Rightarrow> gsh_lexer \<Rightarrow> pending_heredoc list \<Rightarrow> gsh_parse_status \<times> parser \<times> gsh_lexer" where
  "collect_heredocs p l [] = (PARSE_OK, p, l)"
| "collect_heredocs p l (entry # pending) =
    (case collect_one p l entry of
       (st, p, l) \<Rightarrow> if st \<noteq> PARSE_OK then (st, p, l) else collect_heredocs p l pending)"

section \<open>Tokenizing\<close>

definition blank_token :: gsh_token where
  "blank_token = \<lparr>tok_kind = TOKEN_EOF, tok_begin = 0, tok_end = 0, tok_line = 0, tok_column = 0\<rparr>"

definition set_error_offset :: "parser \<Rightarrow> nat \<Rightarrow> parser" where
  "set_error_offset p e = p\<lparr>p_result := (p_result p)\<lparr>res_error_offset := e\<rparr>\<rparr>"

definition push_token :: "parser \<Rightarrow> gsh_token \<Rightarrow> parser" where
  "push_token p t = p\<lparr>p_storage := (p_storage p)\<lparr>ps_tokens := p_tokens p @ [t]\<rparr>\<rparr>"

text \<open>
  What the loop does with one token: \<open>Inl\<close> ends the tokenizing with a status. The
  here-document state is the pending list and, after an operator whose delimiter word is
  awaited, whether it strips tabs.
\<close>

type_synonym heredoc_state = "pending_heredoc list \<times> bool option"

definition note_token ::
  "parser \<Rightarrow> gsh_token \<Rightarrow> heredoc_state \<Rightarrow> (gsh_parse_status \<times> parser) + heredoc_state" where
  "note_token p t h =
    (case h of (pending, awaiting) \<Rightarrow>
       (case awaiting of
          Some strip_tabs \<Rightarrow>
            if tok_kind t \<noteq> TOKEN_WORD \<or> length pending = GSH_PARSE_REDIRECT_CAP
            then Inl (if tok_kind t = TOKEN_EOF then PARSE_INCOMPLETE else PARSE_SYNTAX,
                      set_error_offset p (tok_begin t))
            else Inr (pending @ [\<lparr>pend_delimiter = \<lparr>ref_begin = tok_begin t, ref_end = tok_end t\<rparr>,
                                  pend_strip_tabs = strip_tabs\<rparr>], None)
        | None \<Rightarrow>
            Inr (pending, if tok_kind t = TOKEN_DLESS \<or> tok_kind t = TOKEN_DLESSDASH
                          then Some (tok_kind t = TOKEN_DLESSDASH) else None)))"

function tokenize_loop ::
  "nat \<Rightarrow> parser \<Rightarrow> gsh_lexer \<Rightarrow> heredoc_state \<Rightarrow> gsh_parse_status \<times> parser" where
  "tokenize_loop step p l h =
    (if step \<le> GSH_PARSE_TOKEN_CAP then
       (if length (p_tokens p) = GSH_PARSE_TOKEN_CAP
        then (PARSE_LIMIT, set_error_offset p (lx_offset l))
        else (case gsh_lexer_next l blank_token of (status, l, t) \<Rightarrow>
          if status \<noteq> LEX_OK then
            (if status = LEX_INCOMPLETE then PARSE_INCOMPLETE
             else if status = LEX_LIMIT then PARSE_LIMIT else PARSE_LEXICAL,
             set_error_offset p (lx_error_offset l))
          else
            (let p = push_token p t
             in case note_token p t h of
                  Inl r \<Rightarrow> r
                | Inr (pending, awaiting) \<Rightarrow>
                    (case (if tok_kind t = TOKEN_NEWLINE \<and> pending \<noteq> [] \<and> awaiting = None
                           then (case collect_heredocs p l pending of (st, p, l) \<Rightarrow> (st, p, l, []))
                           else (PARSE_OK, p, l, pending)) of
                       (st, p, l, pending) \<Rightarrow>
                         if st \<noteq> PARSE_OK then (st, p)
                         else if tok_kind t = TOKEN_EOF then
                           (if awaiting \<noteq> None \<or> pending \<noteq> [] then PARSE_INCOMPLETE else PARSE_OK, p)
                         else tokenize_loop (Suc step) p l (pending, awaiting)))))
     else (PARSE_LIMIT, set_error_offset p (lx_offset l)))"
  by pat_completeness auto
termination
  by (relation "measure (\<lambda>(step, _). Suc GSH_PARSE_TOKEN_CAP - step)") auto

declare tokenize_loop.simps [simp del]

definition tokenize :: "parser \<Rightarrow> gsh_parse_status \<times> parser" where
  "tokenize p = tokenize_loop 0 p (gsh_lexer_init (p_input p)) ([], None)"

end
