(* ===== verification/Parser.thy ===== *)
theory Parser
  imports ParserMachine Heredoc
begin

text \<open>
  The entry point \<open>gsh_parse\<close> of \<open>src/posix_parser.c\<close>: tokenizing, the program node and
  the syntax machine. The model returns the result with the storage the C fills.
\<close>

definition initial_parser :: "byte list \<Rightarrow> parser" where
  "initial_parser input =
    \<lparr>p_input = input,
     p_storage = \<lparr>ps_tokens = [], ps_nodes = [], ps_words = [], ps_redirects = [],
                  ps_heredocs = [], ps_command_words = []\<rparr>,
     p_position = 0,
     p_result = \<lparr>res_status = PARSE_OK, res_root = GSH_AST_NONE, res_error_offset = 0,
                 res_unexpected = TOKEN_EOF\<rparr>\<rparr>"

definition set_status :: "parser \<Rightarrow> gsh_parse_status \<Rightarrow> parser" where
  "set_status p st = p\<lparr>p_result := (p_result p)\<lparr>res_status := st\<rparr>\<rparr>"

definition finish_program :: "parser \<Rightarrow> nat \<Rightarrow> parser" where
  "finish_program p program =
    (let p = set_node_end p program (length (p_input p))
     in p\<lparr>p_result := (p_result p)\<lparr>res_root := program\<rparr>\<rparr>)"

definition parse_program :: "parser \<Rightarrow> parser" where
  "parse_program p =
    (case new_node p AST_PROGRAM 0 of (program, p) \<Rightarrow>
       if program = GSH_AST_NONE then p
       else
         (let p = skip_linebreak p
          in if current_kind p = TOKEN_EOF then finish_program p program
             else (case parse_syntax p of (body, p) \<Rightarrow>
               if body = GSH_AST_NONE then p
               else (case append_child p program body of
                   (False, p) \<Rightarrow> p
                 | (True, p) \<Rightarrow>
                     (let p = skip_linebreak p
                      in if current_kind p \<noteq> TOKEN_EOF then fail p PARSE_SYNTAX
                         else finish_program p program)))))"

definition gsh_parse :: "byte list \<Rightarrow> gsh_parse_result \<times> gsh_parse_storage" where
  "gsh_parse input =
    (case tokenize (initial_parser input) of (st, p) \<Rightarrow>
       let p = set_status p st;
           p = (if st \<noteq> PARSE_OK then p else parse_program p)
       in (p_result p, p_storage p))"

definition gsh_parse_status_name :: "gsh_parse_status \<Rightarrow> byte list" where
  "gsh_parse_status_name st = (case st of
     PARSE_OK \<Rightarrow> ''ok'' | PARSE_LEXICAL \<Rightarrow> ''lexical'' | PARSE_SYNTAX \<Rightarrow> ''syntax''
   | PARSE_INCOMPLETE \<Rightarrow> ''incomplete'' | PARSE_LIMIT \<Rightarrow> ''limit'')"

end
