(* ===== verification/TokenStream.thy ===== *)
theory TokenStream
  imports Heredoc
begin

text \<open>
  What \<open>tokenize\<close> of \<open>src/posix_parser.c\<close> leaves for the syntax machine: a stream of
  truthful tokens in the order of the input, closed by the end of file, and one here-document
  per \<open><<\<close> operator whose body no token touches.
\<close>

section \<open>The invariant of the loop\<close>

abbreviation (input) heredoc_operator :: "gsh_token \<Rightarrow> bool" where
  "heredoc_operator t \<equiv> tok_kind t = TOKEN_DLESS \<or> tok_kind t = TOKEN_DLESSDASH"

definition word_span :: "gsh_token list \<Rightarrow> gsh_word_ref \<Rightarrow> bool" where
  "word_span ts r \<longleftrightarrow>
    (\<exists>t \<in> set ts. tok_kind t = TOKEN_WORD \<and> tok_begin t = ref_begin r \<and> tok_end t = ref_end r)"

definition apart :: "gsh_word_ref \<Rightarrow> gsh_token \<Rightarrow> bool" where
  "apart r t \<longleftrightarrow> tok_end t \<le> ref_begin r \<or> ref_end r \<le> tok_begin t"

definition tokens_ok :: "byte list \<Rightarrow> gsh_token list \<Rightarrow> bool" where
  "tokens_ok input ts \<longleftrightarrow> (\<forall>t \<in> set ts. token_ok input t) \<and>
    sorted_wrt (\<lambda>s t. tok_end s \<le> tok_begin t) ts"

definition heredocs_ok :: "byte list \<Rightarrow> gsh_token list \<Rightarrow> gsh_heredoc list \<Rightarrow> bool" where
  "heredocs_ok input ts ds \<longleftrightarrow>
    (\<forall>d \<in> set ds. word_span ts (doc_delimiter d) \<and>
       ref_begin (doc_body d) \<le> ref_end (doc_body d) \<and> ref_end (doc_body d) \<le> length input \<and>
       (\<forall>t \<in> set ts. apart (doc_body d) t))"

definition stream_ok :: "parser \<Rightarrow> gsh_lexer \<Rightarrow> bool" where
  "stream_ok p l \<longleftrightarrow> lx_input l = p_input p \<and> position_ok l \<and>
    tokens_ok (p_input p) (p_tokens p) \<and> heredocs_ok (p_input p) (p_tokens p) (p_heredocs p) \<and>
    length (p_tokens p) \<le> GSH_PARSE_TOKEN_CAP \<and> length (p_heredocs p) \<le> GSH_PARSE_REDIRECT_CAP \<and>
    (\<forall>t \<in> set (p_tokens p). tok_end t \<le> lx_offset l) \<and>
    (\<forall>d \<in> set (p_heredocs p). ref_end (doc_body d) \<le> lx_offset l)"

definition pending_ok :: "parser \<Rightarrow> heredoc_state \<Rightarrow> bool" where
  "pending_ok p h \<longleftrightarrow>
    (\<forall>e \<in> set (fst h). word_span (p_tokens p) (pend_delimiter e)) \<and>
    length (p_heredocs p) + length (fst h) + (if snd h = None then 0 else 1) =
      length (filter heredoc_operator (p_tokens p))"

lemma word_span_append: "word_span ts r \<Longrightarrow> word_span (ts @ us) r"
  by (auto simp: word_span_def)

section \<open>One token\<close>

lemma push_token_fields [simp]:
  "p_input (push_token p t) = p_input p" "p_tokens (push_token p t) = p_tokens p @ [t]"
  "p_heredocs (push_token p t) = p_heredocs p" "p_result (push_token p t) = p_result p"
  by (simp_all add: push_token_def)

lemma stream_push:
  assumes "stream_ok p l" "gsh_lexer_next l t0 = (LEX_OK, l', t)"
    "length (p_tokens p) < GSH_PARSE_TOKEN_CAP"
  shows "stream_ok (push_token p t) l'"
proof -
  have pos: "position_ok l" "lx_input l = p_input p" using assms(1) by (auto simp: stream_ok_def)
  note t = lexer_next_ok[OF assms(2) pos(1)]
  have le: "lx_offset l \<le> tok_begin t" "tok_begin t \<le> tok_end t" "tok_end t = lx_offset l'"
    using t by (auto simp: token_ok_def)
  have "tokens_ok (p_input p) (p_tokens p @ [t])"
    using assms(1) t pos(2) le by (auto simp: stream_ok_def tokens_ok_def sorted_wrt_append)
  moreover have "heredocs_ok (p_input p) (p_tokens p @ [t]) (p_heredocs p)"
    using assms(1) le
    by (auto simp: stream_ok_def heredocs_ok_def apart_def word_span_append)
  ultimately show ?thesis
    using assms t pos(2) le by (fastforce simp: stream_ok_def)
qed

lemma pending_note:
  assumes "pending_ok p h" "note_token (push_token p t) t h = Inr h'"
  shows "pending_ok (push_token p t) h'"
proof -
  obtain pending awaiting where h: "h = (pending, awaiting)" by (cases h)
  have new: "word_span (p_tokens p @ [t]) \<lparr>ref_begin = tok_begin t, ref_end = tok_end t\<rparr>"
    if "tok_kind t = TOKEN_WORD"
    using that by (simp add: word_span_def)
  show ?thesis
    using assms new
    by (auto simp: h pending_ok_def note_token_def word_span_append split: option.splits if_splits)
qed

section \<open>The bodies\<close>

lemma advance_to_ok:
  assumes "position_ok l" "lx_offset l \<le> n" "n \<le> lx_length l"
  shows "position_ok (advance_lexer_to l n)" "lx_offset (advance_lexer_to l n) = n"
    "lx_input (advance_lexer_to l n) = lx_input l"
  using assms by (simp_all add: advance_lexer_to_def position_ok_advance_count)

lemma line_after:
  assumes "scan_heredoc_line l st q = Some r" "lx_offset l \<le> lx_length l"
  shows "ls_line_begin r = lx_offset l" "ls_after_line r \<le> lx_length l"
    "lx_offset l \<le> ls_after_line r"
  using scan_line_loop_bounds[OF assms(1)[unfolded scan_heredoc_line_def] assms(2)] assms(2)
  by auto

lemma find_delimiter_line_ok:
  "find_delimiter_line l st q d = (r, l') \<Longrightarrow> position_ok l \<Longrightarrow>
    lx_input l' = lx_input l \<and> position_ok l' \<and> lx_offset l \<le> lx_offset l' \<and>
    (case r of Inl err \<Rightarrow> err \<noteq> PARSE_OK
     | Inr line \<Rightarrow> ls_line_begin line = lx_offset l' \<and> lx_offset l' \<le> ls_after_line line \<and>
         ls_after_line line \<le> lx_length l')"
proof (induction l st q d rule: find_delimiter_line.induct)
  case (1 l st q d)
  have le: "lx_offset l \<le> lx_length l" using "1.prems"(2) by (rule position_ok_offset)
  show ?case
  proof (cases "scan_heredoc_line l st q")
    case None
    with "1.prems" le show ?thesis by (auto simp: find_delimiter_line.simps[of l])
  next
    case (Some line)
    note line = line_after[OF Some le]
    note moved = advance_to_ok[OF "1.prems"(2) line(3,2)]
    show ?thesis
    proof (cases "(\<not> ls_overflow line \<and> ls_comparison line = d) \<or> ls_after_line line = lx_length l")
      case True
      with "1.prems" le Some line show ?thesis
        by (auto simp: find_delimiter_line.simps[of l] split: if_splits)
    next
      case False
      then have "find_delimiter_line (advance_lexer_to l (ls_after_line line)) st q d = (r, l')"
        using "1.prems"(1) le Some by (subst (asm) find_delimiter_line.simps) (auto split: if_splits)
      from "1.IH"[OF le Some _ _ this moved(1)] False moved line show ?thesis
        by (auto split: sum.splits)
    qed
  qed
qed

lemma find_delimiter_line_fails:
  "find_delimiter_line l st q d = (Inl err, l') \<Longrightarrow> position_ok l \<Longrightarrow> err \<noteq> PARSE_OK"
  using find_delimiter_line_ok[of l st q d "Inl err" l'] by simp

lemma collect_one_ok:
  assumes "collect_one p l e = (PARSE_OK, q, l')" "stream_ok p l"
    "word_span (p_tokens p) (pend_delimiter e)"
  shows "stream_ok q l' \<and> p_input q = p_input p \<and> p_tokens q = p_tokens p \<and>
    length (p_heredocs q) = Suc (length (p_heredocs p))"
proof -
  have pos: "position_ok l" "lx_input l = p_input p" using assms(2) by (auto simp: stream_ok_def)
  from assms(1) obtain d quoted line m where
    m: "find_delimiter_line l (pend_strip_tabs e) quoted d = (Inr line, m)" and
    rec: "record_heredoc p e (lx_offset l) (ls_line_begin line) quoted = (PARSE_OK, q)" and
    l': "l' = advance_lexer_to m (ls_after_line line)"
    by (auto simp: collect_one_def Let_def split: option.splits prod.splits sum.splits if_splits
        dest: find_delimiter_line_fails[OF _ pos(1)])
  note f = find_delimiter_line_ok[OF m pos(1), simplified]
  have moved: "position_ok l'" "lx_offset l' = ls_after_line line" "lx_input l' = lx_input l"
    using advance_to_ok[of m "ls_after_line line"] f by (auto simp: l')
  from rec have q: "q = p\<lparr>p_storage := (p_storage p)\<lparr>ps_heredocs := p_heredocs p @
       [\<lparr>doc_delimiter = pend_delimiter e,
         doc_body = \<lparr>ref_begin = lx_offset l, ref_end = lx_offset m\<rparr>,
         doc_flags = REDIRECT_HEREDOC OR
           (if pend_strip_tabs e then REDIRECT_HEREDOC_STRIP_TABS else 0) OR
           (if quoted then REDIRECT_HEREDOC_QUOTED else 0)\<rparr>]\<rparr>\<rparr>"
    "length (p_heredocs p) \<noteq> GSH_PARSE_REDIRECT_CAP"
    using f by (auto simp: record_heredoc_def split: if_splits)
  have "lx_offset m \<le> length (p_input p)" using f pos position_ok_offset[of m] by auto
  then show ?thesis
    using assms(2,3) moved f pos q(2) unfolding q(1)
    by (fastforce simp: stream_ok_def heredocs_ok_def apart_def)
qed

lemma collect_heredocs_ok:
  "collect_heredocs p l es = (PARSE_OK, q, l') \<Longrightarrow> stream_ok p l \<Longrightarrow>
    \<forall>e \<in> set es. word_span (p_tokens p) (pend_delimiter e) \<Longrightarrow>
    stream_ok q l' \<and> p_input q = p_input p \<and> p_tokens q = p_tokens p \<and>
    length (p_heredocs q) = length (p_heredocs p) + length es"
proof (induction es arbitrary: p l)
  case (Cons e es)
  obtain st p1 l1 where one: "collect_one p l e = (st, p1, l1)" by (metis prod_cases3)
  with Cons.prems(1) have "st = PARSE_OK" "collect_heredocs p1 l1 es = (PARSE_OK, q, l')"
    by (auto split: if_splits)
  moreover note collect_one_ok[of p l e p1 l1] one Cons.prems(2,3)
  ultimately show ?case using Cons.IH[of p1 l1] by simp
qed simp

section \<open>The loop\<close>

text \<open>The state in which the loop hands over: the last token is the end of file.\<close>

definition stream_done :: "parser \<Rightarrow> bool" where
  "stream_done p \<longleftrightarrow>
    tokens_ok (p_input p) (p_tokens p) \<and> heredocs_ok (p_input p) (p_tokens p) (p_heredocs p) \<and>
    length (p_tokens p) \<le> GSH_PARSE_TOKEN_CAP \<and> length (p_heredocs p) \<le> GSH_PARSE_REDIRECT_CAP \<and>
    p_tokens p \<noteq> [] \<and> tok_kind (last (p_tokens p)) = TOKEN_EOF \<and>
    (\<forall>t \<in> set (butlast (p_tokens p)). tok_kind t \<noteq> TOKEN_EOF) \<and>
    length (p_heredocs p) = length (filter heredoc_operator (p_tokens p))"

lemma stream_finish:
  assumes "stream_ok p l" "pending_ok p (pending, awaiting)" "pending = []" "awaiting = None"
    "p_tokens p = ts @ [t]" "tok_kind t = TOKEN_EOF" "\<forall>t \<in> set ts. tok_kind t \<noteq> TOKEN_EOF"
  shows "stream_done p"
  using assms by (simp add: stream_ok_def stream_done_def pending_ok_def)

lemma stream_bodies:
  assumes "stream_ok p l" "pending_ok p (pending, None)"
    "collect_heredocs p l pending = (PARSE_OK, q, l')"
  shows "stream_ok q l'" "p_input q = p_input p" "p_tokens q = p_tokens p" "pending_ok q ([], None)"
  using collect_heredocs_ok[OF assms(3,1)] assms(2) by (simp_all add: pending_ok_def)

lemma tokenize_loop_ok:
  "tokenize_loop step p l h = (PARSE_OK, q) \<Longrightarrow> stream_ok p l \<Longrightarrow> pending_ok p h \<Longrightarrow>
    \<forall>t \<in> set (p_tokens p). tok_kind t \<noteq> TOKEN_EOF \<Longrightarrow> stream_done q \<and> p_input q = p_input p"
proof (induction step p l h rule: tokenize_loop.induct)
  case (1 step p l h)
  obtain st l1 t where lex: "gsh_lexer_next l blank_token = (st, l1, t)" by (metis prod_cases3)
  from "1.prems"(1) lex have room: "step \<le> GSH_PARSE_TOKEN_CAP"
      "length (p_tokens p) \<noteq> GSH_PARSE_TOKEN_CAP" "st = LEX_OK"
    by (auto simp: tokenize_loop.simps[of step] split: if_splits)
  have sok: "stream_ok (push_token p t) l1"
    using stream_push[OF "1.prems"(2) lex[unfolded room(3)]] room(2) "1.prems"(2)
    by (simp add: stream_ok_def)
  show ?case
  proof (cases "note_token (push_token p t) t h")
    case (Inl r)
    then have "fst r \<noteq> PARSE_OK"
      by (auto simp: note_token_def split: prod.splits option.splits if_splits)
    with "1.prems"(1) lex room Inl show ?thesis
      by (auto simp: tokenize_loop.simps[of step] Let_def)
  next
    case (Inr h1)
    obtain pending awaiting where h1: "h1 = (pending, awaiting)" by (cases h1)
    have pok: "pending_ok (push_token p t) (pending, awaiting)"
      using pending_note[OF "1.prems"(3) Inr] by (simp add: h1)
    obtain st2 q1 l2 rest where bodies:
      "(if tok_kind t = TOKEN_NEWLINE \<and> pending \<noteq> [] \<and> awaiting = None
        then (case collect_heredocs (push_token p t) l1 pending of (st, p, l) \<Rightarrow> (st, p, l, []))
        else (PARSE_OK, push_token p t, l1, pending)) = (st2, q1, l2, rest)"
      by (metis prod_cases4)
    have run: "(if st2 \<noteq> PARSE_OK then (st2, q1)
        else if tok_kind t = TOKEN_EOF
        then (if awaiting \<noteq> None \<or> rest \<noteq> [] then PARSE_INCOMPLETE else PARSE_OK, q1)
        else tokenize_loop (Suc step) q1 l2 (rest, awaiting)) = (PARSE_OK, q)"
      using "1.prems"(1) lex room Inr bodies
      by (simp add: tokenize_loop.simps[of step] Let_def h1)
    then have "st2 = PARSE_OK" by (auto split: if_splits)
    have inv: "stream_ok q1 l2 \<and> p_input q1 = p_input p \<and> p_tokens q1 = p_tokens p @ [t] \<and>
        pending_ok q1 (rest, awaiting)"
      using bodies sok pok stream_bodies[of "push_token p t" l1 pending q1 l2] \<open>st2 = PARSE_OK\<close>
      by (auto split: if_splits prod.splits)
    show ?thesis
    proof (cases "tok_kind t = TOKEN_EOF")
      case True
      with run \<open>st2 = PARSE_OK\<close> have "q1 = q" "awaiting = None" "rest = []"
        by (auto split: if_splits)
      with True inv stream_finish[of q1 l2 rest awaiting "p_tokens p" t] "1.prems"(4)
      show ?thesis by auto
    next
      case False
      with run \<open>st2 = PARSE_OK\<close>
      have "tokenize_loop (Suc step) q1 l2 (rest, awaiting) = (PARSE_OK, q)" by simp
      then show ?thesis
        using "1.IH"[OF room(1) room(2) lex[symmetric] refl] room(3) Inr h1 bodies inv False
          "1.prems"(4) \<open>st2 = PARSE_OK\<close>
        by auto
    qed
  qed
qed

text \<open>What tokenizing leaves for the syntax machine: everything but tokens and here-documents, and
  these within their arrays, also when it fails.\<close>

definition arrays_fit :: "parser \<Rightarrow> bool" where
  "arrays_fit p \<longleftrightarrow> length (p_tokens p) \<le> GSH_PARSE_TOKEN_CAP \<and> length (p_heredocs p) \<le> GSH_PARSE_REDIRECT_CAP"

definition untouched :: "parser \<Rightarrow> parser \<Rightarrow> bool" where
  "untouched p q \<longleftrightarrow> p_position q = p_position p \<and> p_nodes q = p_nodes p \<and>
    p_words q = p_words p \<and> p_redirects q = p_redirects p \<and>
    p_command_words q = p_command_words p \<and> p_status q = p_status p \<and>
    res_root (p_result q) = res_root (p_result p) \<and> (arrays_fit p \<longrightarrow> arrays_fit q)"

lemma untouched_refl [simp]: "untouched p p"
  by (simp add: untouched_def)

lemma untouched_trans: "untouched p q \<Longrightarrow> untouched q r \<Longrightarrow> untouched p r"
  by (simp add: untouched_def)

lemma untouched_error [simp]: "untouched p (set_error_offset q e) = untouched p q"
  by (simp add: untouched_def set_error_offset_def arrays_fit_def)

lemma untouched_push: "length (p_tokens p) \<noteq> GSH_PARSE_TOKEN_CAP \<Longrightarrow> untouched p (push_token p t)"
  by (simp add: untouched_def push_token_def arrays_fit_def)

lemma record_heredoc_untouched: "record_heredoc p e a b q = (st, r) \<Longrightarrow> untouched p r"
  by (auto simp: record_heredoc_def untouched_def arrays_fit_def split: if_splits)

lemma collect_one_untouched: "collect_one p l e = (st, q, l') \<Longrightarrow> untouched p q"
  by (auto simp: collect_one_def Let_def untouched_def arrays_fit_def
      dest: record_heredoc_untouched[unfolded untouched_def arrays_fit_def]
      split: option.splits prod.splits sum.splits if_splits)

lemma collect_heredocs_untouched: "collect_heredocs p l es = (st, q, l') \<Longrightarrow> untouched p q"
proof (induction es arbitrary: p l)
  case (Cons e es)
  obtain st1 p1 l1 where one: "collect_one p l e = (st1, p1, l1)" by (metis prod_cases3)
  then show ?case
    using Cons.prems Cons.IH[of p1 l1] untouched_trans[OF collect_one_untouched[OF one]]
    by (cases "st1 = PARSE_OK") (auto simp: collect_one_untouched)
qed simp

lemma note_token_untouched: "note_token q t h = Inl (st, r) \<Longrightarrow> untouched q r"
  by (auto simp: note_token_def split: prod.splits option.splits if_splits)

lemma tokenize_loop_untouched: "tokenize_loop step p l h = (st, q) \<Longrightarrow> untouched p q"
proof (induction step p l h rule: tokenize_loop.induct)
  case (1 step p l h)
  obtain ls l1 t where lex: "gsh_lexer_next l blank_token = (ls, l1, t)" by (metis prod_cases3)
  show ?case
  proof (cases "step \<le> GSH_PARSE_TOKEN_CAP \<and> length (p_tokens p) \<noteq> GSH_PARSE_TOKEN_CAP \<and> ls = LEX_OK")
    case False
    with "1.prems" lex show ?thesis
      by (auto simp: tokenize_loop.simps[of step] split: if_splits)
  next
    case True
    then have room: "step \<le> GSH_PARSE_TOKEN_CAP" "length (p_tokens p) \<noteq> GSH_PARSE_TOKEN_CAP"
      "ls = LEX_OK" by simp_all
    show ?thesis
    proof (cases "note_token (push_token p t) t h")
      case (Inl r)
      obtain st1 q1 where r: "r = (st1, q1)" by fastforce
      have "q = q1" using "1.prems" lex room Inl r by (simp add: tokenize_loop.simps[of step] Let_def)
      with note_token_untouched[OF Inl[unfolded r]] show ?thesis
        using untouched_trans[OF untouched_push[OF room(2)]] by blast
    next
      case (Inr h1)
      obtain pending awaiting where h1: "h1 = (pending, awaiting)" by (cases h1)
      obtain st2 q1 l2 rest where bodies:
        "(if tok_kind t = TOKEN_NEWLINE \<and> pending \<noteq> [] \<and> awaiting = None
          then (case collect_heredocs (push_token p t) l1 pending of (st, p, l) \<Rightarrow> (st, p, l, []))
          else (PARSE_OK, push_token p t, l1, pending)) = (st2, q1, l2, rest)"
        by (metis prod_cases4)
      have u: "untouched p q1"
        using bodies untouched_push[OF room(2), of t]
          untouched_trans[OF untouched_push[OF room(2)] collect_heredocs_untouched, of t l1 pending]
        by (auto split: if_splits prod.splits)
      have run: "(if st2 \<noteq> PARSE_OK then (st2, q1)
          else if tok_kind t = TOKEN_EOF
          then (if awaiting \<noteq> None \<or> rest \<noteq> [] then PARSE_INCOMPLETE else PARSE_OK, q1)
          else tokenize_loop (Suc step) q1 l2 (rest, awaiting)) = (st, q)"
        using "1.prems" lex room Inr bodies by (simp add: tokenize_loop.simps[of step] Let_def h1)
      show ?thesis
      proof (cases "st2 = PARSE_OK \<and> tok_kind t \<noteq> TOKEN_EOF")
        case False
        with run u show ?thesis by (auto split: if_splits)
      next
        case go: True
        with run have "tokenize_loop (Suc step) q1 l2 (rest, awaiting) = (st, q)" by simp
        then have "untouched q1 q"
          using "1.IH"[OF room(1) room(2) lex[symmetric] refl] room(3) Inr h1 bodies go by auto
        with u show ?thesis by (rule untouched_trans)
      qed
    qed
  qed
qed

section \<open>Properties\<close>

lemma stream_start:
  assumes "p_tokens p = []" "p_heredocs p = []"
  shows "stream_ok p (gsh_lexer_init (p_input p))" "pending_ok p ([], None)"
  using assms by (simp_all add: stream_ok_def pending_ok_def tokens_ok_def heredocs_ok_def)

text \<open>C3. When \<open>tokenize\<close> succeeds, its tokens are truthful (their spans, lines, columns and
  kinds), in the order of the input without overlap, at most 4096, and end in the only end-of-file
  token. There is exactly one here-document per \<open><<\<close> or \<open><<-\<close> operator; its delimiter is the span
  of a word token, its body lies in the input, and no token overlaps the body: here-document text
  is never tokenized.\<close>

theorem tokenize_stream:
  assumes "tokenize p = (PARSE_OK, q)" and "p_tokens p = []" and "p_heredocs p = []"
  shows "p_input q = p_input p \<and>
    tokens_ok (p_input q) (p_tokens q) \<and> length (p_tokens q) \<le> GSH_PARSE_TOKEN_CAP \<and>
    p_tokens q \<noteq> [] \<and> tok_kind (last (p_tokens q)) = TOKEN_EOF \<and>
    (\<forall>t \<in> set (butlast (p_tokens q)). tok_kind t \<noteq> TOKEN_EOF) \<and>
    heredocs_ok (p_input q) (p_tokens q) (p_heredocs q) \<and>
    length (p_heredocs q) = length (filter heredoc_operator (p_tokens q))"
proof -
  have "stream_done q \<and> p_input q = p_input p"
    using tokenize_loop_ok[OF assms(1)[unfolded tokenize_def] stream_start[OF assms(2,3)]] assms(2)
    by simp
  then show ?thesis by (auto simp: stream_done_def)
qed

definition newline_parser :: parser where
  "newline_parser =
    \<lparr>p_input = [NL],
     p_storage = \<lparr>ps_tokens = [], ps_nodes = [], ps_words = [], ps_redirects = [],
                  ps_heredocs = [], ps_command_words = []\<rparr>,
     p_position = 0,
     p_result = \<lparr>res_status = PARSE_OK, res_root = GSH_AST_NONE, res_error_offset = 0,
                 res_unexpected = TOKEN_EOF\<rparr>\<rparr>"

definition newline_stream :: parser where
  "newline_stream = push_token (push_token newline_parser
    (blank_token\<lparr>tok_kind := TOKEN_NEWLINE, tok_end := 1, tok_line := 1, tok_column := 1\<rparr>))
    (blank_token\<lparr>tok_begin := 1, tok_end := 1, tok_line := 2, tok_column := 1\<rparr>)"

lemma tokenize_newline: "tokenize newline_parser = (PARSE_OK, newline_stream)"
  by (simp add: tokenize_def tokenize_loop.simps[of 0] tokenize_loop.simps[of "Suc 0"] Let_def
      newline_parser_def newline_stream_def push_token_def note_token_def gsh_lexer_next_def
      gsh_lexer_init_def skip_trivia.simps skip_while.simps blank_byte_def blank_token_def
      advance_one_def)

lemma newline_parser_empty: "p_tokens newline_parser = []" "p_heredocs newline_parser = []"
  by (simp_all add: newline_parser_def)

theorem tokenize_stream_witness:
  "length (p_tokens newline_stream) = 2 \<and> tokens_ok (p_input newline_stream) (p_tokens newline_stream)"
  using tokenize_stream[OF tokenize_newline newline_parser_empty]
  by (simp add: newline_stream_def newline_parser_empty)

end
