(* ===== verification/ParserSafety.thy ===== *)
theory ParserSafety
  imports Parser TokenStream
begin

text \<open>
  Safety of the syntax machine of \<open>src/posix_parser.c\<close>: it never reads outside the token array,
  never uses a node, word or redirection that does not exist, keeps the storage within its
  capacities, never takes a node that was not returned, and fails exactly when it has recorded
  an error status.
\<close>

section \<open>Invariants of the parser\<close>

definition tokens_closed :: "gsh_token list \<Rightarrow> bool" where
  "tokens_closed ts \<longleftrightarrow> ts \<noteq> [] \<and> tok_kind (last ts) = TOKEN_EOF"

definition link_ok :: "nat \<Rightarrow> nat \<Rightarrow> bool" where
  "link_ok nodes i \<longleftrightarrow> i = GSH_AST_NONE \<or> i < nodes"

definition node_ok :: "parser \<Rightarrow> gsh_ast_node \<Rightarrow> bool" where
  "node_ok p n \<longleftrightarrow>
    link_ok (length (p_nodes p)) (node_first_child n) \<and>
    link_ok (length (p_nodes p)) (node_last_child n) \<and>
    link_ok (length (p_nodes p)) (node_next_sibling n) \<and>
    (node_first_child n = GSH_AST_NONE \<longleftrightarrow> node_last_child n = GSH_AST_NONE) \<and>
    node_first_word n + node_word_count n \<le> length (p_words p) \<and>
    node_first_redirect n + node_redirect_count n \<le> length (p_redirects p)"

text \<open>Every span the parser keeps lies in the input, and what tokenizing made fits its arrays.\<close>

definition span_in :: "byte list \<Rightarrow> gsh_word_ref \<Rightarrow> bool" where
  "span_in input r \<longleftrightarrow> ref_begin r \<le> ref_end r \<and> ref_end r \<le> length input"

definition spans_ok :: "parser \<Rightarrow> bool" where
  "spans_ok p \<longleftrightarrow>
    length (p_tokens p) \<le> GSH_PARSE_TOKEN_CAP \<and> length (p_heredocs p) \<le> GSH_PARSE_REDIRECT_CAP \<and>
    (\<forall>t \<in> set (p_tokens p). tok_begin t \<le> tok_end t \<and> tok_end t \<le> length (p_input p)) \<and>
    (\<forall>d \<in> set (p_heredocs p). span_in (p_input p) (doc_body d)) \<and>
    (\<forall>w \<in> set (p_words p). span_in (p_input p) w) \<and>
    (\<forall>w \<in> set (p_command_words p). span_in (p_input p) w) \<and>
    (\<forall>r \<in> set (p_redirects p). span_in (p_input p) (rd_target r) \<and> span_in (p_input p) (rd_body r))"

definition parser_ok :: "parser \<Rightarrow> bool" where
  "parser_ok p \<longleftrightarrow> spans_ok p \<and>
    tokens_closed (p_tokens p) \<and> p_position p < length (p_tokens p) \<and>
    (\<forall>n \<in> set (p_nodes p). node_ok p n) \<and>
    length (p_nodes p) \<le> GSH_PARSE_NODE_CAP \<and> length (p_words p) \<le> GSH_PARSE_WORD_CAP \<and>
    length (p_redirects p) \<le> GSH_PARSE_REDIRECT_CAP \<and>
    length (p_command_words p) \<le> GSH_PARSE_NODE_CAP"

abbreviation running :: "parser \<Rightarrow> bool" where
  "running p \<equiv> parser_ok p \<and> p_status p = PARSE_OK"

text \<open>What an operation leaves alone, and what it must say of its success.\<close>

definition keeps :: "parser \<Rightarrow> parser \<Rightarrow> bool" where
  "keeps p q \<longleftrightarrow> p_tokens q = p_tokens p \<and> p_input q = p_input p \<and>
    length (p_nodes p) \<le> length (p_nodes q) \<and> res_root (p_result q) = res_root (p_result p)"

definition outcome :: "parser \<Rightarrow> bool \<times> parser \<Rightarrow> bool" where
  "outcome p r \<longleftrightarrow> parser_ok (snd r) \<and> keeps p (snd r) \<and>
    (fst r \<longleftrightarrow> p_status (snd r) = PARSE_OK)"

lemma keeps_refl [simp]: "keeps p p"
  by (simp add: keeps_def)

lemma keeps_trans: "keeps p q \<Longrightarrow> keeps q r \<Longrightarrow> keeps p r"
  by (auto simp: keeps_def)

lemma outcomeI: "parser_ok q \<Longrightarrow> keeps p q \<Longrightarrow> (b \<longleftrightarrow> p_status q = PARSE_OK) \<Longrightarrow> outcome p (b, q)"
  by (simp add: outcome_def)

lemma outcome_True: "outcome p (True, q) \<longleftrightarrow> running q \<and> keeps p q"
  by (auto simp: outcome_def)

lemma outcome_False: "outcome p (False, q) \<longleftrightarrow> parser_ok q \<and> p_status q \<noteq> PARSE_OK \<and> keeps p q"
  by (auto simp: outcome_def)

lemma outcome_weaken: "outcome q r \<Longrightarrow> keeps p q \<Longrightarrow> outcome p r"
  by (auto simp: outcome_def intro: keeps_trans)

lemma outcome_then:
  assumes "outcome p r" "\<And>q. r = (True, q) \<Longrightarrow> running q \<Longrightarrow> keeps p q \<Longrightarrow> outcome q (f q)"
  shows "outcome p (and_then r f)"
proof (cases r)
  case (Pair b q)
  then show ?thesis using assms
    by (cases b) (auto simp: outcome_True intro: outcome_weaken)
qed

lemma case_and_then:
  "(case r of (True, p) \<Rightarrow> f p | (False, p) \<Rightarrow> (False, p)) = and_then r f"
  by (simp add: and_then_def split: prod.splits bool.splits)

section \<open>Reading tokens\<close>

lemma parser_ok_cong:
  "p_storage q = p_storage p \<Longrightarrow> p_position q = p_position p \<Longrightarrow> p_input q = p_input p \<Longrightarrow>
    parser_ok q = parser_ok p"
  by (simp add: parser_ok_def node_ok_def spans_ok_def)

lemma spans_ok_nodes [simp]:
  "spans_ok (update_node p i f) = spans_ok p"
  "spans_ok (p\<lparr>p_storage := (p_storage p)\<lparr>ps_nodes := ns\<rparr>\<rparr>) = spans_ok p"
  by (simp_all add: spans_ok_def)

lemma current_token_in: "parser_ok p \<Longrightarrow> current_token p \<in> set (p_tokens p)"
  by (simp add: parser_ok_def current_token_def)

lemma current_token_span:
  "parser_ok p \<Longrightarrow> span_in (p_input p)
    \<lparr>ref_begin = tok_begin (current_token p), ref_end = tok_end (current_token p)\<rparr>"
  using current_token_in[of p] by (auto simp: parser_ok_def spans_ok_def span_in_def)

lemma keeps_storage:
  "p_storage q = p_storage p \<Longrightarrow> p_input q = p_input p \<Longrightarrow>
    res_root (p_result q) = res_root (p_result p) \<Longrightarrow> keeps p q"
  by (simp add: keeps_def)

lemma parser_ok_advance:
  assumes "parser_ok p" "current_kind p \<noteq> TOKEN_EOF"
  shows "parser_ok (advance p)"
proof -
  have "p_position p \<noteq> length (p_tokens p) - 1"
    using assms by (auto simp: parser_ok_def tokens_closed_def current_token_def last_conv_nth)
  with assms(1) show ?thesis by (auto simp: parser_ok_def node_ok_def spans_ok_def)
qed

lemma keeps_advance [simp]: "keeps p (advance p)"
  by (simp add: keeps_def)

lemma running_advance: "running p \<Longrightarrow> current_kind p \<noteq> TOKEN_EOF \<Longrightarrow> running (advance p)"
  by (simp add: parser_ok_advance)

lemma token_at_inside:
  assumes "parser_ok p" "tok_kind (token_at p k) \<noteq> TOKEN_EOF"
  shows "p_position p + k < length (p_tokens p)" "token_at p k = p_tokens p ! (p_position p + k)"
proof -
  show "p_position p + k < length (p_tokens p)"
    using assms by (auto simp: token_at_def parser_ok_def tokens_closed_def last_conv_nth Let_def
        split: if_splits)
  then show "token_at p k = p_tokens p ! (p_position p + k)"
    by (simp add: token_at_def Let_def)
qed

lemma skip_linebreak_ok:
  "parser_ok p \<Longrightarrow> parser_ok (skip_linebreak p) \<and> keeps p (skip_linebreak p) \<and>
    p_result (skip_linebreak p) = p_result p \<and> p_storage (skip_linebreak p) = p_storage p"
proof (induction p rule: skip_linebreak.induct)
  case (1 p)
  then show ?case
    by (subst (1 2 3 4) skip_linebreak.simps)
       (auto simp: parser_ok_advance intro: keeps_trans[OF keeps_advance])
qed

lemma fail_ok:
  assumes "parser_ok p" "st \<noteq> PARSE_OK"
  shows "outcome p (False, fail p st)"
proof -
  have "p_status (fail p st) \<noteq> PARSE_OK" using assms(2) by (simp add: fail_def)
  then show ?thesis
    using assms(1) by (simp add: outcome_False keeps_storage parser_ok_cong[of "fail p st" p])
qed

lemma fail_unexpected_ok: "parser_ok p \<Longrightarrow> outcome p (False, fail_unexpected p)"
  by (simp add: fail_unexpected_def fail_ok)

section \<open>Growing the storage\<close>

lemma node_ok_mono:
  assumes "node_ok p n" "length (p_nodes p) \<le> length (p_nodes q)"
    "length (p_words p) \<le> length (p_words q)" "length (p_redirects p) \<le> length (p_redirects q)"
  shows "node_ok q n"
proof -
  have "link_ok (length (p_nodes q)) i" if "link_ok (length (p_nodes p)) i" for i
    using that assms(2) by (auto simp: link_ok_def)
  then show ?thesis using assms unfolding node_ok_def by (meson le_trans)
qed

lemma new_node_ok:
  assumes "running p" "new_node p kind b = (n, q)"
  obtains (full) "n = GSH_AST_NONE" "outcome p (False, q)"
  | (node) "n < length (p_nodes q)" "n \<noteq> GSH_AST_NONE" "running q" "keeps p q"
      "p_position q = p_position p" "node_kind (p_nodes q ! n) = kind"
proof (cases "length (p_nodes p) = GSH_PARSE_NODE_CAP")
  case True
  with assms fail_ok[of p PARSE_LIMIT] full show ?thesis by (simp add: new_node_def)
next
  case False
  then have q: "n = length (p_nodes p)" "q = p\<lparr>p_storage := (p_storage p)\<lparr>ps_nodes :=
      p_nodes p @ [fresh_node p kind b]\<rparr>\<rparr>"
    using assms(2) by (auto simp: new_node_def)
  have "\<forall>m \<in> set (p_nodes p). node_ok q m"
    using assms(1) node_ok_mono[of p _ q] by (simp add: q(2) parser_ok_def)
  moreover have "node_ok q (fresh_node p kind b)"
    by (simp add: q(2) node_ok_def link_ok_def fresh_node_def)
  ultimately have "running q"
    using assms(1) False by (auto simp: q(2) parser_ok_def)
  with assms(1) False show ?thesis
    by (intro node) (auto simp: q keeps_def parser_ok_def fresh_node_def)
qed

lemma node_ok_update [simp]: "node_ok (update_node p i f) = node_ok p"
  by (intro ext) (simp add: node_ok_def)

lemma keeps_update [simp]: "keeps p (update_node p i f)"
  by (simp add: keeps_def)

lemma parser_ok_update:
  assumes "parser_ok p" "i < length (p_nodes p) \<Longrightarrow> node_ok p (f (p_nodes p ! i))"
  shows "parser_ok (update_node p i f)"
proof (cases "i < length (p_nodes p)")
  case True
  have "n \<in> insert (f (p_nodes p ! i)) (set (p_nodes p))"
    if "n \<in> set (p_nodes (update_node p i f))" for n
    using that set_update_subset_insert[of "p_nodes p" i] by auto
  then show ?thesis using assms True by (auto simp: parser_ok_def)
next
  case False
  then show ?thesis using assms by (simp add: parser_ok_def list_update_beyond)
qed

lemma node_in_ok: "parser_ok p \<Longrightarrow> i < length (p_nodes p) \<Longrightarrow> node_ok p (p_nodes p ! i)"
  by (simp add: parser_ok_def)

lemma update_twice: "update_node (update_node p i f) i g = update_node p i (\<lambda>n. g (f n))"
  if "i < length (p_nodes p)"
  using that by (simp add: update_node_def)

lemma append_child_ok:
  assumes "running p" "parent < length (p_nodes p)" "child < length (p_nodes p)"
  shows "outcome p (append_child p parent child)"
proof -
  have caps: "parent \<noteq> GSH_AST_NONE" "child \<noteq> GSH_AST_NONE"
    using assms by (auto simp: parser_ok_def)
  note ok = node_in_ok[OF _ assms(2)]
  show ?thesis
  proof (cases "node_first_child (p_nodes p ! parent) = GSH_AST_NONE")
    case True
    have "running (update_node p parent (\<lambda>n. n\<lparr>node_first_child := child, node_last_child := child,
        node_end := node_end (p_nodes (update_node p parent
          (\<lambda>n. n\<lparr>node_first_child := child\<rparr>)) ! child)\<rparr>))"
      using assms ok by (auto intro!: parser_ok_update simp: node_ok_def link_ok_def)
    then show ?thesis
      using True caps assms(2)
      by (simp add: append_child_def Let_def outcome_True update_twice)
  next
    case False
    define last where "last = node_last_child (p_nodes p ! parent)"
    define q where "q = update_node p last (\<lambda>n. n\<lparr>node_next_sibling := child\<rparr>)"
    have "running q"
      using assms node_in_ok[of p last]
      by (auto intro!: parser_ok_update simp: q_def node_ok_def link_ok_def)
    moreover have "parent < length (p_nodes q)" "child < length (p_nodes q)"
      using assms by (simp_all add: q_def)
    moreover have "node_first_child (p_nodes q ! parent) \<noteq> GSH_AST_NONE"
      using False assms(2) by (cases "last = parent") (auto simp: q_def)
    ultimately have "running (update_node q parent
        (\<lambda>n. n\<lparr>node_last_child := child, node_end := node_end (p_nodes q ! child)\<rparr>))"
      using node_in_ok[of q parent] caps
      by (auto intro!: parser_ok_update simp: node_ok_def link_ok_def)
    moreover have "keeps p (update_node q parent
        (\<lambda>n. n\<lparr>node_last_child := child, node_end := node_end (p_nodes q ! child)\<rparr>))"
      by (rule keeps_trans[of _ q]) (simp_all add: q_def)
    ultimately show ?thesis
      using False caps by (simp add: append_child_def Let_def outcome_True q_def last_def)
  qed
qed

lemma node_flags_ok:
  "running p \<Longrightarrow> running (or_node_flags p i fl)" "running p \<Longrightarrow> running (set_node_end p i e)"
  "keeps p (or_node_flags p i fl)" "keeps p (set_node_end p i e)"
  using node_in_ok[of p i]
  by (auto simp: or_node_flags_def set_node_end_def node_ok_def intro!: parser_ok_update)

lemma append_word_ok:
  assumes "running p" "node < length (p_nodes p)"
  shows "outcome p (append_word p node (current_token p)) \<and>
    p_position (snd (append_word p node (current_token p))) = p_position p"
proof (cases "length (p_words p) = GSH_PARSE_WORD_CAP")
  case True
  with assms fail_ok[of p PARSE_LIMIT] show ?thesis by (simp add: append_word_def)
next
  case False
  let ?t = "current_token p"
  define q where "q = p\<lparr>p_storage := (p_storage p)\<lparr>ps_words :=
      p_words p @ [\<lparr>ref_begin = tok_begin ?t, ref_end = tok_end ?t\<rparr>]\<rparr>\<rparr>"
  have weaken: "node_ok q n" if "node_ok p n" for n
    using node_ok_mono[OF that] by (simp add: q_def)
  then have "running q" using assms(1) False current_token_span[of p]
    by (auto simp: q_def parser_ok_def spans_ok_def)
  moreover have "node_ok q ((p_nodes p ! node)
      \<lparr>node_word_count := Suc (node_word_count (p_nodes p ! node)), node_end := tok_end ?t\<rparr>)"
    using node_in_ok[of p node] assms by (auto simp: q_def node_ok_def)
  ultimately have "running (update_node q node
      (\<lambda>n. n\<lparr>node_word_count := Suc (node_word_count n), node_end := tok_end ?t\<rparr>))"
    by (auto intro!: parser_ok_update simp: q_def)
  moreover have "keeps p q" by (simp add: q_def keeps_def)
  ultimately show ?thesis
    using False keeps_trans[of p q] by (simp add: append_word_def Let_def outcome_True q_def)
qed

lemma same_token:
  assumes "outcome p (b, q)" "p_position q = p_position p"
  shows "current_token q = current_token p"
  using assms by (intro current_token_cong) (auto simp: outcome_def keeps_def)

lemma record_command_word_ok:
  assumes "running p" "current_kind p = TOKEN_WORD"
  shows "outcome p (record_command_word p (current_token p))"
proof (cases "length (p_command_words p) = GSH_PARSE_NODE_CAP")
  case True
  with assms fail_ok[of p PARSE_LIMIT] show ?thesis by (simp add: record_command_word_def)
next
  case False
  let ?t = "current_token p"
  define q where "q = p\<lparr>p_storage := (p_storage p)\<lparr>ps_command_words :=
        p_command_words p @ [\<lparr>ref_begin = tok_begin ?t, ref_end = tok_end ?t\<rparr>]\<rparr>\<rparr>"
  have "node_ok q n" if "node_ok p n" for n
    using node_ok_mono[OF that] by (simp add: q_def)
  then have "running q" "keeps p q"
    using assms(1) False current_token_span[of p] by (auto simp: q_def parser_ok_def spans_ok_def keeps_def)
  then show ?thesis using assms(2) False
    by (simp add: record_command_word_def outcome_True q_def)
qed

lemma append_redirect_ok:
  assumes "running p" "node < length (p_nodes p)" "t \<in> set (p_tokens p)"
  shows "outcome p (append_redirect p node d oper t)"
proof (cases "length (p_redirects p) = GSH_PARSE_REDIRECT_CAP")
  case True
  with assms fail_ok[of p PARSE_LIMIT] show ?thesis by (simp add: append_redirect_def)
next
  case False
  let ?span = "\<lparr>ref_begin = tok_begin t, ref_end = tok_end t\<rparr>"
  define source where "source = find (\<lambda>d. doc_delimiter d = ?span) (p_heredocs p)"
  define heredoc where "heredoc \<longleftrightarrow> oper = TOKEN_DLESS \<or> oper = TOKEN_DLESSDASH"
  define redirect where "redirect = (case (heredoc, source) of
      (True, Some doc) \<Rightarrow> \<lparr>rd_descriptor = d, rd_operator = oper, rd_target = ?span,
        rd_body = doc_body doc, rd_flags = doc_flags doc\<rparr>
    | _ \<Rightarrow> \<lparr>rd_descriptor = d, rd_operator = oper, rd_target = ?span,
        rd_body = \<lparr>ref_begin = tok_end t, ref_end = tok_end t\<rparr>, rd_flags = 0\<rparr>)"
  define q where q: "q = p\<lparr>p_storage := (p_storage p)\<lparr>ps_redirects := p_redirects p @ [redirect]\<rparr>\<rparr>"
  have r: "append_redirect p node d oper t =
      (if heredoc \<and> source = None then (False, fail q PARSE_INCOMPLETE)
       else (True, update_node q node (\<lambda>n. n\<lparr>node_redirect_count := Suc (node_redirect_count n),
                     node_end := tok_end t\<rparr>)))"
    using False unfolding append_redirect_def Let_def q redirect_def heredoc_def[symmetric]
      source_def[symmetric]
    by (simp cong: option.case_cong bool.case_cong split: option.split bool.split)
  have "doc \<in> set (p_heredocs p)" if "source = Some doc" for doc
    using that by (auto simp: source_def find_Some_iff)
  then have "span_in (p_input p) (rd_target redirect) \<and> span_in (p_input p) (rd_body redirect)"
    using assms(1,3) by (auto simp: redirect_def parser_ok_def spans_ok_def span_in_def
        split: option.split bool.split)
  then have "spans_ok q" using assms(1) by (auto simp: q parser_ok_def spans_ok_def)
  moreover have weaken: "node_ok q n" if "node_ok p n" for n
    using node_ok_mono[OF that] by (simp add: q)
  ultimately have ok: "running q" "keeps p q"
    using assms(1) False by (auto simp: q parser_ok_def keeps_def)
  moreover have "node_ok q ((p_nodes p ! node)
      \<lparr>node_redirect_count := Suc (node_redirect_count (p_nodes p ! node)), node_end := tok_end t\<rparr>)"
    using node_in_ok[of p node] assms by (auto simp: q node_ok_def)
  ultimately have "outcome q (True, update_node q node
      (\<lambda>n. n\<lparr>node_redirect_count := Suc (node_redirect_count n), node_end := tok_end t\<rparr>))"
    by (auto intro!: parser_ok_update simp: q outcome_True)
  with ok fail_ok[of q PARSE_INCOMPLETE] have "outcome q (append_redirect p node d oper t)"
    by (simp add: r)
  then show ?thesis using ok(2) by (rule outcome_weaken)
qed

lemma current_word_is_kind: "current_word_is p w \<Longrightarrow> current_kind p = TOKEN_WORD"
  by (simp add: current_word_is_def raw_word_equals_def)

lemma expect_word_ok: "running p \<Longrightarrow> outcome p (expect_word p w)"
  using running_advance[of p] current_word_is_kind[of p w] fail_unexpected_ok[of p]
  by (auto simp: expect_word_def outcome_True)

section \<open>Redirections and simple commands\<close>

lemma redirect_operator_kind: "is_redirect_operator k \<Longrightarrow> k \<noteq> TOKEN_EOF \<and> k \<noteq> TOKEN_WORD"
  by (auto simp: is_redirect_operator_def)

lemma parse_redirect_operator_ok:
  assumes "running p" "node < length (p_nodes p)" "is_redirect_operator (current_kind p)"
  shows "outcome p (parse_redirect_operator p node d)"
proof (cases "current_kind (advance p) = TOKEN_WORD")
  case True
  have "running (advance p)"
    by (rule running_advance[OF assms(1)]) (simp add: redirect_operator_kind[OF assms(3)])
  then have "running (advance (advance p))"
    by (rule running_advance) (simp add: True)
  then have "outcome (advance (advance p))
      (append_redirect (advance (advance p)) node d (current_kind p) (current_token (advance p)))"
    using assms(2) current_token_in[of "advance p"] \<open>running (advance p)\<close>
    by (intro append_redirect_ok) auto
  then have "outcome p
      (append_redirect (advance (advance p)) node d (current_kind p) (current_token (advance p)))"
    by (rule outcome_weaken) (simp add: keeps_def)
  then show ?thesis using assms(3) True by (simp add: parse_redirect_operator_def Let_def)
next
  case False
  have "running (advance p)"
    by (rule running_advance[OF assms(1)]) (simp add: redirect_operator_kind[OF assms(3)])
  then have "outcome (advance p) (False, fail_unexpected (advance p))"
    by (intro fail_unexpected_ok) simp
  then have "outcome p (False, fail_unexpected (advance p))"
    by (rule outcome_weaken) simp
  with False assms(3) show ?thesis by (simp add: parse_redirect_operator_def Let_def)
qed

lemma io_number_next:
  assumes "running p" "io_number_at p"
  shows "current_kind p = TOKEN_WORD" "running (advance p)"
    "is_redirect_operator (current_kind (advance p))"
proof -
  show w: "current_kind p = TOKEN_WORD" using assms by (simp add: io_number_at_def is_digit_span_def)
  with assms show "running (advance p)" by (intro running_advance) auto
  have "tok_kind (token_at p 1) \<noteq> TOKEN_EOF"
    using assms(2) redirect_operator_kind by (simp add: io_number_at_def)
  with assms token_at_inside(2)[of p 1] have "token_at p 1 = current_token (advance p)"
    by (simp add: current_token_def)
  with assms(2) show "is_redirect_operator (current_kind (advance p))" by (simp add: io_number_at_def)
qed

lemma parse_one_redirect_ok:
  assumes "running p" "node < length (p_nodes p)" "redirect_starts p"
  shows "outcome p (parse_one_redirect p node)"
proof (cases "io_number_at p")
  case True
  note n = io_number_next[OF assms(1) True]
  have "outcome (advance p) (parse_redirect_operator (advance p) node d)" for d
    using assms(2) n by (intro parse_redirect_operator_ok) auto
  then have "outcome p (parse_redirect_operator (advance p) node d)" for d
    by (rule outcome_weaken) simp
  then show ?thesis
    using True n assms(1) fail_ok[of p PARSE_LIMIT] by (simp add: parse_one_redirect_def Let_def)
next
  case False
  then show ?thesis using assms parse_redirect_operator_ok[OF assms(1,2)]
    by (simp add: parse_one_redirect_def redirect_starts_def)
qed

lemma parse_redirects_ok:
  "running p \<Longrightarrow> node < length (p_nodes p) \<Longrightarrow> outcome p (parse_redirects p node)"
proof (induction p node rule: parse_redirects.induct)
  case (1 p node)
  show ?case
  proof (cases "redirect_starts p")
    case True
    have inside: "p_position p < length (p_tokens p)" using "1.prems"(1) by (simp add: parser_ok_def)
    obtain b q where r: "parse_one_redirect p node = (b, q)" by fastforce
    note one = parse_one_redirect_ok[OF "1.prems" True, unfolded r]
    show ?thesis
    proof (cases b)
      case True
      have q: "running q" "keeps p q" using one True by (auto simp: outcome_True)
      then have "node < length (p_nodes q)" using "1.prems"(2) by (simp add: keeps_def)
      from "1.IH"[OF conjI[OF inside \<open>redirect_starts p\<close>] r[symmetric] _ q(1) this] True
      have "outcome q (parse_redirects q node)" by simp
      then have "outcome p (parse_redirects q node)" using q(2) by (rule outcome_weaken)
      with True r inside \<open>redirect_starts p\<close> show ?thesis
        by (subst parse_redirects.simps) simp
    next
      case False
      with one r inside \<open>redirect_starts p\<close> show ?thesis
        by (subst parse_redirects.simps) simp
    qed
  next
    case False
    with "1.prems" show ?thesis by (subst parse_redirects.simps) (simp add: outcome_True)
  qed
qed

lemma keeps_nodes: "keeps p q \<Longrightarrow> n < length (p_nodes p) \<Longrightarrow> n < length (p_nodes q)"
  by (simp add: keeps_def)

text \<open>An operation that adds the current word and leaves the cursor, then moves past the word.\<close>

lemma word_then_advance:
  assumes "outcome p r" "p_position (snd r) = p_position p" "current_kind p = TOKEN_WORD"
  shows "outcome p (and_then r (\<lambda>q. (True, advance q)))"
proof (rule outcome_then[OF assms(1)])
  fix q assume q: "r = (True, q)" "running q" "keeps p q"
  then have "current_token q = current_token p"
    using assms(1,2) same_token[of p True q] by simp
  with q(2) assms(3) running_advance[of q] show "outcome q (True, advance q)"
    by (simp add: outcome_True)
qed

lemma append_word_advance_ok:
  assumes "running p" "node < length (p_nodes p)" "current_kind p = TOKEN_WORD"
  shows "outcome p (and_then (append_word p node (current_token p)) (\<lambda>q. (True, advance q)))"
  using append_word_ok[OF assms(1,2)] assms(3) by (intro word_then_advance) auto

lemma parse_simple_word_and_then:
  "parse_simple_word p node cw =
    (let record = \<not> cw \<and> \<not> is_assignment_span p (current_token p);
         r = (if record then record_command_word p (current_token p) else (True, p))
     in (fst (and_then r (\<lambda>p. and_then (append_word p node (current_token p))
                  (\<lambda>q. (True, advance q)))),
         (if fst r then cw \<or> record else cw),
         snd (and_then r (\<lambda>p. and_then (append_word p node (current_token p))
                  (\<lambda>q. (True, advance q))))))"
  by (simp add: parse_simple_word_def Let_def and_then_def split: prod.splits bool.splits)

lemma parse_simple_word_ok:
  assumes "running p" "node < length (p_nodes p)" "current_kind p = TOKEN_WORD"
    "parse_simple_word p node cw = (b, cw', q)"
  shows "outcome p (b, q)"
proof -
  define r where "r = (if \<not> cw \<and> \<not> is_assignment_span p (current_token p)
      then record_command_word p (current_token p) else (True, p))"
  have r: "outcome p r" "p_tokens (snd r) = p_tokens p \<and> p_position (snd r) = p_position p"
    using assms record_command_word_ok[OF assms(1,3)]
      record_command_word_frame[of p "current_token p" "fst r" "snd r"]
    by (auto simp: r_def outcome_True)
  have "outcome p (and_then r (\<lambda>p. and_then (append_word p node (current_token p))
      (\<lambda>q. (True, advance q))))"
  proof (rule outcome_then[OF r(1)])
    fix q assume q: "r = (True, q)" "running q" "keeps p q"
    then have "current_token q = current_token p" using r(2) by (intro current_token_cong) auto
    with q assms(2,3) keeps_nodes[OF q(3) assms(2)] show
      "outcome q (and_then (append_word q node (current_token q)) (\<lambda>q. (True, advance q)))"
      by (intro append_word_advance_ok) auto
  qed
  moreover have "(b, q) = and_then r (\<lambda>p. and_then (append_word p node (current_token p))
      (\<lambda>q. (True, advance q)))"
    using assms(4) by (simp add: parse_simple_word_and_then Let_def r_def prod_eq_iff)
  ultimately show ?thesis by simp
qed

lemma parse_simple_loop_ok:
  "parse_simple_loop p node cs cw = (b, cs', q) \<Longrightarrow> running p \<Longrightarrow> node < length (p_nodes p) \<Longrightarrow>
    outcome p (b, q)"
proof (induction p node cs cw rule: parse_simple_loop.induct)
  case (1 p node cs cw)
  have inside: "p_status p = PARSE_OK \<and> p_position p < length (p_tokens p)"
    using "1.prems"(2) by (simp add: parser_ok_def)
  show ?case
  proof (cases "is_redirect_operator (current_kind p) \<or> (current_kind p = TOKEN_WORD \<and> io_number_at p)")
    case True
    obtain c r where r: "parse_one_redirect p node = (c, r)" by fastforce
    have "redirect_starts p" using True by (auto simp: redirect_starts_def)
    note one = parse_one_redirect_ok[OF "1.prems"(2,3) this, unfolded r]
    show ?thesis
    proof (cases c)
      case c: True
      have k: "running r" "keeps p r" using one c by (auto simp: outcome_True)
      have "parse_simple_loop r node True cw = (b, cs', q)"
        using "1.prems"(1) True r c inside by (subst (asm) parse_simple_loop.simps) simp
      then have "outcome r (b, q)"
        using "1.IH"(1)[OF inside True r[symmetric]] c k keeps_nodes[OF k(2) "1.prems"(3)] by simp
      then show ?thesis using k(2) by (rule outcome_weaken)
    next
      case c: False
      then show ?thesis using "1.prems"(1) True r inside one
        by (subst (asm) parse_simple_loop.simps) simp
    qed
  next
    case False
    show ?thesis
    proof (cases "current_kind p = TOKEN_WORD")
      case True
      obtain c cw1 r where r: "parse_simple_word p node cw = (c, cw1, r)" by (metis prod_cases3)
      note one = parse_simple_word_ok[OF "1.prems"(2,3) True r]
      show ?thesis
      proof (cases c)
        case c: True
        have k: "running r" "keeps p r" using one c by (auto simp: outcome_True)
        have "parse_simple_loop r node True cw1 = (b, cs', q)"
          using "1.prems"(1) True False r c inside by (subst (asm) parse_simple_loop.simps) simp
        then have "outcome r (b, q)"
          using "1.IH"(2)[OF inside False _ r[symmetric]] True c k keeps_nodes[OF k(2) "1.prems"(3)]
          by simp
        then show ?thesis using k(2) by (rule outcome_weaken)
      next
        case c: False
        then show ?thesis using "1.prems"(1) True False r inside one
          by (subst (asm) parse_simple_loop.simps) simp
      qed
    next
      case word: False
      then show ?thesis using "1.prems" False inside
        by (subst (asm) parse_simple_loop.simps) (simp add: outcome_True)
    qed
  qed
qed

lemma parse_simple_ok:
  assumes "running p" "parse_simple p = (n, q)"
  shows "outcome p (n \<noteq> GSH_AST_NONE, q) \<and> (n \<noteq> GSH_AST_NONE \<longrightarrow> n < length (p_nodes q))"
proof -
  obtain m r where r: "new_node p AST_SIMPLE (tok_begin (current_token p)) = (m, r)" by fastforce
  from assms(1) r show ?thesis
  proof (cases rule: new_node_ok)
    case full
    with assms(2) r show ?thesis by (simp add: parse_simple_def)
  next
    case node
    obtain b cs t where t: "parse_simple_loop r m False False = (b, cs, t)" by (metis prod_cases3)
    note o = parse_simple_loop_ok[OF t node(3) node(1)]
    have po: "outcome p (b, t)" using o node(4) by (rule outcome_weaken)
    have len: "m < length (p_nodes t)"
      using o node(1) keeps_nodes[of r t m] by (simp add: outcome_def)
    have unexpected: "outcome p (False, fail_unexpected t)"
      using fail_unexpected_ok[of t] po by (auto simp: outcome_def elim: keeps_trans)
    from assms(2) r t node(2) po len unexpected show ?thesis
      by (cases b; cases cs) (simp_all add: parse_simple_def)
  qed
qed

section \<open>Headers of compound commands\<close>

lemma skip_after_advance:
  assumes "running p" "current_kind p \<noteq> TOKEN_EOF"
  shows "running (skip_linebreak (advance p))" "keeps p (skip_linebreak (advance p))"
proof -
  note a = running_advance[OF assms]
  show "running (skip_linebreak (advance p))" using skip_linebreak_ok[of "advance p"] a by simp
  show "keeps p (skip_linebreak (advance p))"
    using skip_linebreak_ok[of "advance p"] a keeps_trans[OF keeps_advance] by blast
qed

lemma fail_later:
  "parser_ok q \<Longrightarrow> keeps p q \<Longrightarrow> outcome p (False, fail_unexpected q)"
  "parser_ok q \<Longrightarrow> keeps p q \<Longrightarrow> st \<noteq> PARSE_OK \<Longrightarrow> outcome p (False, fail q st)"
  by (rule outcome_weaken[OF fail_unexpected_ok] outcome_weaken[OF fail_ok]; simp)+

lemma parse_for_words_ok:
  "running p \<Longrightarrow> node < length (p_nodes p) \<Longrightarrow> outcome p (parse_for_words words p node)"
proof (induction words p node rule: parse_for_words.induct)
  case (1 words p node)
  show ?case
  proof (cases "words < GSH_PARSE_TOKEN_CAP \<and> current_kind p = TOKEN_WORD \<and> \<not> current_word_is p ''do''")
    case True
    obtain b q where r: "append_word p node (current_token p) = (b, q)" by fastforce
    note one = append_word_ok[OF "1.prems", unfolded r, simplified]
    show ?thesis
    proof (cases b)
      case b: True
      have q: "running q" "keeps p q" "current_kind q = TOKEN_WORD"
        using one b True same_token[of p b q] by (auto simp: outcome_True)
      then have a: "running (advance q)" "node < length (p_nodes (advance q))" "keeps p (advance q)"
        using running_advance[of q] keeps_nodes[OF q(2) "1.prems"(2)] keeps_trans[OF q(2) keeps_advance]
        by auto
      have "outcome (advance q) (parse_for_words (Suc words) (advance q) node)"
        using "1.IH"[OF True r[symmetric] _ a(1,2)] b by simp
      then have "outcome p (parse_for_words (Suc words) (advance q) node)"
        using a(3) by (rule outcome_weaken)
      with True r b show ?thesis by (subst parse_for_words.simps) simp
    next
      case False
      with one r True show ?thesis by (subst parse_for_words.simps) simp
    qed
  next
    case False
    with "1.prems" show ?thesis by (subst parse_for_words.simps) (auto simp: outcome_True)
  qed
qed

lemma parse_for_name_ok:
  assumes "running p" "node < length (p_nodes p)" "current_kind p \<noteq> TOKEN_EOF"
  shows "outcome p (parse_for_name p node)"
proof -
  note a = running_advance[OF assms(1,3)]
  have len: "node < length (p_nodes (advance p))" using assms(2) by simp
  obtain b q where r: "append_word (advance p) node (current_token (advance p)) = (b, q)" by fastforce
  note one = append_word_ok[OF a len, unfolded r, simplified]
  have k: "parser_ok q" "keeps p q"
    using one keeps_trans[OF keeps_advance] by (auto simp: outcome_def)
  show ?thesis
  proof (cases "is_name_span (advance p) (current_token (advance p)) \<and> b")
    case True
    then have "running q" "current_kind q \<noteq> TOKEN_EOF"
      using one same_token[of "advance p" b q] by (auto simp: outcome_True is_name_span_def)
    note s = skip_after_advance[OF this]
    from s keeps_trans[OF k(2) s(2)] True r show ?thesis
      by (simp add: parse_for_name_def outcome_True)
  next
    case False
    then show ?thesis
      using r a fail_later(1)[OF k] fail_later(1)[of "advance p" p]
      by (cases "is_name_span (advance p) (current_token (advance p))")
         (simp_all add: parse_for_name_def)
  qed
qed

lemma parse_for_separator_ok:
  assumes "running p" shows "outcome p (parse_for_separator has_in p)"
proof -
  define q where "q = (if current_kind p = TOKEN_SEMICOLON then skip_linebreak (advance p)
      else if current_kind p = TOKEN_NEWLINE then skip_linebreak p else p)"
  have q: "running q" "keeps p q"
    using skip_after_advance[OF assms] skip_linebreak_ok[of p] assms by (auto simp: q_def)
  have "outcome p (expect_word q ''do'')"
    using expect_word_ok[OF q(1)] q(2) by (rule outcome_weaken)
  with fail_later(2)[of p p PARSE_SYNTAX] assms show ?thesis
    by (simp add: parse_for_separator_def Let_def q_def[symmetric])
qed

lemma parse_for_header_ok:
  assumes "running p" "node < length (p_nodes p)" "current_kind p \<noteq> TOKEN_EOF"
  shows "outcome p (parse_for_header p node)"
  unfolding parse_for_header_def
proof (rule outcome_then[OF parse_for_name_ok[OF assms]])
  fix q assume q: "running q" "keeps p q"
  show "outcome q (if current_word_is q ''in''
      then and_then (parse_for_words 0 (advance (or_node_flags q node FLAG_FOR_HAS_IN)) node)
             (parse_for_separator True)
      else parse_for_separator False q)"
  proof (cases "current_word_is q ''in''")
    case True
    have "current_kind (or_node_flags q node FLAG_FOR_HAS_IN) = TOKEN_WORD"
      using True current_word_is_kind by (simp add: or_node_flags_def)
    then have a: "running (advance (or_node_flags q node FLAG_FOR_HAS_IN))"
      using q(1) node_flags_ok(1) running_advance by auto
    have "outcome (advance (or_node_flags q node FLAG_FOR_HAS_IN))
        (and_then (parse_for_words 0 (advance (or_node_flags q node FLAG_FOR_HAS_IN)) node)
           (parse_for_separator True))"
      using a keeps_nodes[OF q(2) assms(2)]
      by (intro outcome_then[OF parse_for_words_ok] parse_for_separator_ok)
         (auto simp: or_node_flags_def)
    then have "outcome q
        (and_then (parse_for_words 0 (advance (or_node_flags q node FLAG_FOR_HAS_IN)) node)
           (parse_for_separator True))"
      using keeps_trans[OF node_flags_ok(3) keeps_advance] by (rule outcome_weaken)
    with True show ?thesis by simp
  qed (use q parse_for_separator_ok in simp)
qed

lemma parse_case_header_ok:
  assumes "parser_ok p" "current_kind p \<noteq> TOKEN_EOF"
    "node \<noteq> GSH_AST_NONE \<Longrightarrow> p_status p = PARSE_OK \<and> node < length (p_nodes p)"
  shows "outcome p (parse_case_header node p)"
proof (cases "node = GSH_AST_NONE \<or> current_kind (advance p) \<noteq> TOKEN_WORD")
  case True
  with fail_later(1)[OF parser_ok_advance[OF assms(1,2)] keeps_advance] show ?thesis
    by (auto simp: parse_case_header_def Let_def)
next
  case False
  have a: "running (advance p)" "node < length (p_nodes (advance p))"
    using assms(3) False parser_ok_advance[OF assms(1,2)] by auto
  obtain b q where r: "append_word (advance p) node (current_token (advance p)) = (b, q)" by fastforce
  note one = append_word_ok[OF a, unfolded r, simplified]
  have k: "parser_ok q" "keeps p q"
    using one keeps_trans[OF keeps_advance] by (auto simp: outcome_def)
  show ?thesis
  proof (cases b)
    case True
    then have "running q" "current_kind q \<noteq> TOKEN_EOF"
      using one same_token[of "advance p" b q] False by (auto simp: outcome_True)
    note s = skip_after_advance[OF this]
    have "outcome (skip_linebreak (advance q))
        (and_then (expect_word (skip_linebreak (advance q)) ''in'') (\<lambda>p. (True, skip_linebreak p)))"
      by (rule outcome_then[OF expect_word_ok[OF s(1)]])
         (use skip_linebreak_ok in \<open>auto simp: outcome_True\<close>)
    then have "outcome p
        (and_then (expect_word (skip_linebreak (advance q)) ''in'') (\<lambda>p. (True, skip_linebreak p)))"
      using keeps_trans[OF k(2) s(2)] by (rule outcome_weaken)
    with True False r show ?thesis by (simp add: parse_case_header_def)
  next
    case b: False
    with fail_later(1)[OF k] False r show ?thesis by (simp add: parse_case_header_def)
  qed
qed

lemma parse_pattern_words_ok:
  "running p \<Longrightarrow> item < length (p_nodes p) \<Longrightarrow> current_kind p = TOKEN_WORD \<Longrightarrow>
    outcome p (parse_pattern_words n p item)"
proof (induction n p item rule: parse_pattern_words.induct)
  case (1 n p item)
  obtain b q where r: "append_word p item (current_token p) = (b, q)" by fastforce
  note one = append_word_ok[OF "1.prems"(1,2), unfolded r, simplified]
  show ?case
  proof (cases "n < GSH_PARSE_TOKEN_CAP \<and> b")
    case True
    then have q: "running q" "keeps p q" "current_kind q = TOKEN_WORD"
      using one "1.prems"(3) same_token[of p b q] by (auto simp: outcome_True)
    then have a: "running (advance q)" "keeps p (advance q)"
      using running_advance[of q] keeps_trans[OF q(2) keeps_advance] by auto
    show ?thesis
    proof (cases "current_kind (advance q) = TOKEN_PIPE")
      case pipe: True
      then have a2: "running (advance (advance q))" "keeps p (advance (advance q))"
        using running_advance[OF a(1)] keeps_trans[OF a(2) keeps_advance] by auto
      show ?thesis
      proof (cases "current_kind (advance (advance q)) = TOKEN_WORD")
        case word: True
        have len: "item < length (p_nodes (advance (advance q)))"
          using keeps_nodes[OF a2(2) "1.prems"(2)] .
        have "outcome (advance (advance q)) (parse_pattern_words (Suc n) (advance (advance q)) item)"
          using "1.IH"[OF _ r[symmetric] _ refl _ refl _ a2(1) len word] True pipe word by simp
        then have "outcome p (parse_pattern_words (Suc n) (advance (advance q)) item)"
          using a2(2) by (rule outcome_weaken)
        with True pipe word r show ?thesis
          by (subst parse_pattern_words.simps) (simp add: Let_def)
      next
        case False
        with True pipe r fail_later(1)[OF _ a2(2)] a2(1) show ?thesis
          by (subst parse_pattern_words.simps) (simp add: Let_def)
      qed
    next
      case False
      with True r a show ?thesis
        by (subst parse_pattern_words.simps) (simp add: Let_def outcome_True)
    qed
  next
    case False
    with one r "1.prems"(1) show ?thesis
      by (subst parse_pattern_words.simps) (auto simp: outcome_True)
  qed
qed

lemma parse_case_patterns_ok:
  assumes "running p" "item < length (p_nodes p)"
  shows "outcome p (parse_case_patterns item p)"
proof -
  define q where "q = (if current_kind p = TOKEN_LPAREN then advance p else p)"
  have q: "running q" "keeps p q"
    using running_advance[OF assms(1)] assms(1) by (auto simp: q_def)
  show ?thesis
  proof (cases "current_kind q = TOKEN_WORD")
    case True
    have "outcome q (and_then (parse_pattern_words 0 q item) (\<lambda>p.
        if current_kind p \<noteq> TOKEN_RPAREN then (False, fail_unexpected p)
        else (True, skip_linebreak (advance p))))"
      using skip_after_advance fail_unexpected_ok
      by (intro outcome_then[OF parse_pattern_words_ok[OF q(1) keeps_nodes[OF q(2) assms(2)] True]])
         (simp add: outcome_True)
    then have "outcome p (and_then (parse_pattern_words 0 q item) (\<lambda>p.
        if current_kind p \<noteq> TOKEN_RPAREN then (False, fail_unexpected p)
        else (True, skip_linebreak (advance p))))"
      using q(2) by (rule outcome_weaken)
    with True show ?thesis by (simp add: parse_case_patterns_def Let_def q_def[symmetric])
  next
    case False
    with fail_later(1)[OF _ q(2)] q(1) show ?thesis
      by (simp add: parse_case_patterns_def Let_def q_def[symmetric])
  qed
qed

lemma finish_case_item_ok:
  assumes "running p" "pf_node f < length (p_nodes p)" "pf_saved f < length (p_nodes p)"
  shows "outcome p (finish_case_item f p)"
proof -
  let ?k = "current_kind p" and ?item = "pf_saved f"
  define r where "r = (if ?k = TOKEN_DSEMI \<or> ?k = TOKEN_SEMI_AND then
      (True, skip_linebreak (advance (set_node_end
         (if ?k = TOKEN_SEMI_AND then or_node_flags p ?item FLAG_CASE_FALLTHROUGH else p) ?item
         (tok_end (current_token
           (if ?k = TOKEN_SEMI_AND then or_node_flags p ?item FLAG_CASE_FALLTHROUGH else p))))))
    else if \<not> current_word_is p ''esac'' then (False, fail_unexpected p) else (True, p))"
  have flagged: "running (set_node_end
      (if ?k = TOKEN_SEMI_AND then or_node_flags p ?item FLAG_CASE_FALLTHROUGH else p) ?item e)"
    "keeps p (set_node_end
      (if ?k = TOKEN_SEMI_AND then or_node_flags p ?item FLAG_CASE_FALLTHROUGH else p) ?item e)"
    "current_kind (set_node_end
      (if ?k = TOKEN_SEMI_AND then or_node_flags p ?item FLAG_CASE_FALLTHROUGH else p) ?item e) = ?k" for e
    using assms(1) node_flags_ok keeps_trans[OF node_flags_ok(3,4)]
    by (simp_all add: set_node_end_def or_node_flags_def)
  have r: "outcome p r"
  proof (cases "?k = TOKEN_DSEMI \<or> ?k = TOKEN_SEMI_AND")
    case True
    define e where "e = tok_end (current_token
      (if ?k = TOKEN_SEMI_AND then or_node_flags p ?item FLAG_CASE_FALLTHROUGH else p))"
    define s where "s = set_node_end
      (if ?k = TOKEN_SEMI_AND then or_node_flags p ?item FLAG_CASE_FALLTHROUGH else p) ?item e"
    have "r = (True, skip_linebreak (advance s))"
      by (simp only: r_def s_def e_def True if_True)
    moreover have "running s" "keeps p s" "current_kind s \<noteq> TOKEN_EOF"
      using flagged[of e] True by (auto simp only: s_def)
    ultimately show ?thesis
      using skip_after_advance[of s] keeps_trans[of p s] by (simp add: outcome_True)
  next
    case False
    with assms(1) fail_unexpected_ok[of p] show ?thesis by (simp add: r_def outcome_True)
  qed
  have "finish_case_item f p = and_then r (\<lambda>p. and_then (append_child p (pf_node f) (pf_saved f))
      (\<lambda>p. if current_kind p = TOKEN_EOF then (False, fail p PARSE_INCOMPLETE) else (True, p)))"
    by (simp only: finish_case_item_def Let_def case_and_then r_def)
  moreover have "outcome p (and_then r (\<lambda>p. and_then (append_child p (pf_node f) (pf_saved f))
      (\<lambda>p. if current_kind p = TOKEN_EOF then (False, fail p PARSE_INCOMPLETE) else (True, p))))"
    using assms(2,3) fail_ok
    by (intro outcome_then[OF r] outcome_then[OF append_child_ok])
       (auto intro: keeps_nodes simp: outcome_True)
  ultimately show ?thesis by simp
qed

lemma new_if_branch_ok:
  assumes "running p" "body < length (p_nodes p)"
    "condition \<noteq> GSH_AST_NONE \<Longrightarrow> condition < length (p_nodes p)"
    "new_if_branch p b condition body = (n, q)"
  shows "outcome p (n \<noteq> GSH_AST_NONE, q) \<and> (n \<noteq> GSH_AST_NONE \<longrightarrow> n < length (p_nodes q))"
proof -
  obtain m r where r: "new_node p AST_IF_BRANCH b = (m, r)" by fastforce
  from assms(1) r show ?thesis
  proof (cases rule: new_node_ok)
    case full
    with assms(4) r show ?thesis by (simp add: new_if_branch_def)
  next
    case node
    define c where "c = (if condition \<noteq> GSH_AST_NONE then append_child r m condition else (True, r))"
    define s where "s = and_then c (\<lambda>q. append_child q m body)"
    have c: "outcome r c"
      using append_child_ok[OF node(3,1)] keeps_nodes[OF node(4) assms(3)] node(3)
      by (simp add: c_def outcome_True)
    have "outcome r s" unfolding s_def
      using node(1) keeps_nodes[OF node(4) assms(2)]
      by (intro outcome_then[OF c] append_child_ok) (auto intro: keeps_nodes)
    moreover have "(n, q) = (if fst s then m else GSH_AST_NONE, snd s)"
      using assms(4) r node(2)
      by (simp add: new_if_branch_def c_def[symmetric] s_def and_then_def split: prod.splits bool.splits)
    ultimately show ?thesis
      using node(2) outcome_weaken[OF _ node(4)] keeps_nodes[of r q, OF _ node(1)]
      by (cases s) (auto simp: outcome_def)
  qed
qed

lemma append_if_branch_ok:
  assumes "running p" "body < length (p_nodes p)" "pf_node f < length (p_nodes p)"
    "pf_saved f \<noteq> GSH_AST_NONE \<Longrightarrow> pf_saved f < length (p_nodes p)"
  shows "outcome p (append_if_branch f body p)"
proof -
  obtain n q where q: "new_if_branch p (pf_begin f) (pf_saved f) body = (n, q)" by fastforce
  note n = new_if_branch_ok[OF assms(1,2,4) q]
  show ?thesis
  proof (cases "n = GSH_AST_NONE")
    case True
    with n q show ?thesis by (simp add: append_if_branch_def)
  next
    case False
    with n have k: "running q" "keeps p q" "n < length (p_nodes q)" by (auto simp: outcome_def)
    with False q show ?thesis
      using outcome_weaken[OF append_child_ok[OF k(1) keeps_nodes[OF k(2) assms(3)] k(3)] k(2)]
      by (simp add: append_if_branch_def)
  qed
qed

end
