(* ===== verification/ParserRuns.thy ===== *)
theory ParserRuns
  imports Parser
begin

text \<open>
  Two inputs parsed to the end, for the witnesses of the parser and of alias expansion: one word,
  and a word with an argument. The storage is written out; the node chain of a simple command is
  program, list, and-or list, pipeline, command.
\<close>

lemmas lexer_eval = gsh_lexer_next_def gsh_lexer_init_def skip_trivia.simps skip_while.simps
  blank_byte_def blank_token_def advance_one_def operator_at_def OPERATORS_def starts_with_def
  scan_word_def scan_word_loop.simps word_ends_def scan_word_byte_def scan_plain_word_byte_def
  dollar_or_advance_def tokenize_def tokenize_loop.simps push_token_def note_token_def Let_def

lemmas parser_eval = run_machine.simps machine_step_def step_list_def step_and_or_def
  step_pipeline_def step_command_def skip_linebreak.simps current_token_def token_at_def
  list_stops_def new_node_def set_top_def set_state_def machine_push_def fresh_frame_def
  fresh_node_def current_word_is_def raw_word_equals_def token_text_def slice_def
  command_is_function_def is_name_span_def byte_class_defs compound_frame_kind_def
  is_any_reserved_def reserved_words_def parse_simple_def parse_simple_loop.simps
  is_redirect_operator_def io_number_at_def is_digit_span_def parse_simple_word_def
  is_assignment_span_def record_command_word_def append_word_def update_node_def
  machine_complete_def machine_take_def take_child_def on_state_def append_child_def
  parse_redirects.simps redirect_starts_def advance_def set_node_end_def start_machine_def
  parse_syntax_def parse_program_def finish_program_def set_status_def Let_def

definition spine_node :: "gsh_ast_kind \<Rightarrow> nat \<Rightarrow> nat \<Rightarrow> nat \<Rightarrow> gsh_ast_node" where
  "spine_node kind child words end_at =
    \<lparr>node_kind = kind, node_flags = 0, node_connector = TOKEN_EOF, node_first_child = child,
     node_last_child = child, node_next_sibling = GSH_AST_NONE, node_first_word = 0,
     node_word_count = words, node_first_redirect = 0, node_redirect_count = 0,
     node_begin = 0, node_end = end_at\<rparr>"

definition simple_result :: gsh_parse_result where
  "simple_result = \<lparr>res_status = PARSE_OK, res_root = 0, res_error_offset = 0,
    res_unexpected = TOKEN_EOF\<rparr>"

definition ll_tokens :: "gsh_token list" where
  "ll_tokens =
    [\<lparr>tok_kind = TOKEN_WORD, tok_begin = 0, tok_end = 2, tok_line = 1, tok_column = 1\<rparr>,
     \<lparr>tok_kind = TOKEN_EOF, tok_begin = 2, tok_end = 2, tok_line = 1, tok_column = 3\<rparr>]"

definition ll_storage :: gsh_parse_storage where
  "ll_storage =
    \<lparr>ps_tokens = ll_tokens,
     ps_nodes = [spine_node AST_PROGRAM 1 0 2, spine_node AST_LIST 2 0 2,
       spine_node AST_AND_OR 3 0 2, spine_node AST_PIPELINE 4 0 2,
       spine_node AST_SIMPLE GSH_AST_NONE 1 2],
     ps_words = [\<lparr>ref_begin = 0, ref_end = 2\<rparr>],
     ps_redirects = [], ps_heredocs = [], ps_command_words = [\<lparr>ref_begin = 0, ref_end = 2\<rparr>]\<rparr>"

lemma tokenize_ll:
  "tokenize (initial_parser ''ll'') = (PARSE_OK, (initial_parser ''ll'')
    \<lparr>p_storage := (p_storage (initial_parser ''ll''))\<lparr>ps_tokens := ll_tokens\<rparr>\<rparr>)"
  by (simp add: lexer_eval initial_parser_def ll_tokens_def)

lemma program_ll:
  "parse_program (set_status ((initial_parser ''ll'')
    \<lparr>p_storage := (p_storage (initial_parser ''ll''))\<lparr>ps_tokens := ll_tokens\<rparr>\<rparr>) PARSE_OK) =
    \<lparr>p_input = ''ll'', p_storage = ll_storage, p_position = 1, p_result = simple_result\<rparr>"
  by (simp add: parser_eval initial_parser_def ll_tokens_def ll_storage_def spine_node_def
      simple_result_def)

lemma parse_ll: "gsh_parse ''ll'' = (simple_result, ll_storage)"
  unfolding gsh_parse_def tokenize_ll by (simp add: program_ll)

definition ls_tokens :: "gsh_token list" where
  "ls_tokens =
    [\<lparr>tok_kind = TOKEN_WORD, tok_begin = 0, tok_end = 2, tok_line = 1, tok_column = 1\<rparr>,
     \<lparr>tok_kind = TOKEN_WORD, tok_begin = 3, tok_end = 5, tok_line = 1, tok_column = 4\<rparr>,
     \<lparr>tok_kind = TOKEN_EOF, tok_begin = 6, tok_end = 6, tok_line = 1, tok_column = 7\<rparr>]"

definition ls_storage :: gsh_parse_storage where
  "ls_storage =
    \<lparr>ps_tokens = ls_tokens,
     ps_nodes = [spine_node AST_PROGRAM 1 0 6, spine_node AST_LIST 2 0 5,
       spine_node AST_AND_OR 3 0 5, spine_node AST_PIPELINE 4 0 5,
       spine_node AST_SIMPLE GSH_AST_NONE 2 5],
     ps_words = [\<lparr>ref_begin = 0, ref_end = 2\<rparr>, \<lparr>ref_begin = 3, ref_end = 5\<rparr>],
     ps_redirects = [], ps_heredocs = [], ps_command_words = [\<lparr>ref_begin = 0, ref_end = 2\<rparr>]\<rparr>"

lemma tokenize_ls:
  "tokenize (initial_parser ''ls -l '') = (PARSE_OK, (initial_parser ''ls -l '')
    \<lparr>p_storage := (p_storage (initial_parser ''ls -l ''))\<lparr>ps_tokens := ls_tokens\<rparr>\<rparr>)"
  by (simp add: lexer_eval initial_parser_def ls_tokens_def)

lemma program_ls:
  "parse_program (set_status ((initial_parser ''ls -l '')
    \<lparr>p_storage := (p_storage (initial_parser ''ls -l ''))\<lparr>ps_tokens := ls_tokens\<rparr>\<rparr>) PARSE_OK) =
    \<lparr>p_input = ''ls -l '', p_storage = ls_storage, p_position = 2, p_result = simple_result\<rparr>"
  by (simp add: parser_eval initial_parser_def ls_tokens_def ls_storage_def spine_node_def
      simple_result_def)

lemma parse_ls: "gsh_parse ''ls -l '' = (simple_result, ls_storage)"
  unfolding gsh_parse_def tokenize_ls by (simp add: program_ls)

end
