(* ===== verification/MachineSafety.thy ===== *)
theory MachineSafety
  imports ParserSafety ParserRuns
begin

text \<open>
  The invariant of the syntax machine of \<open>src/posix_parser.c\<close> and its preservation by every
  production, on top of the safety of the operations they call: the frames' nodes exist, a
  continued frame has a returned child, and a failing step has recorded its error.
\<close>

section \<open>Invariant of the machine\<close>

text \<open>
  A frame that was just pushed may rely on the tokens its production was chosen for; a frame
  below, or one whose child has returned, holds the node it is building.
\<close>

definition starts :: "parser \<Rightarrow> parse_frame_kind \<Rightarrow> bool" where
  "starts p kind \<longleftrightarrow>
    (kind = FRAME_FUNCTION \<longrightarrow> command_is_function p) \<and>
    (kind \<in> {FRAME_SUBSHELL, FRAME_BRACE, FRAME_WHILE, FRAME_UNTIL, FRAME_IF, FRAME_FOR, FRAME_CASE}
       \<longrightarrow> compound_frame_kind p = Some kind)"

definition waiting :: "parser \<Rightarrow> parse_frame \<Rightarrow> bool" where
  "waiting p f \<longleftrightarrow> pf_phase f \<noteq> 0 \<and>
    (pf_kind f = FRAME_COMMAND \<or> pf_node f < length (p_nodes p)) \<and>
    (pf_kind f = FRAME_IF \<longrightarrow>
       pf_phase f = 1 \<or> pf_phase f = 3 \<or> pf_saved f < length (p_nodes p)) \<and>
    (pf_kind f = FRAME_CASE \<and> pf_phase f \<noteq> 1 \<longrightarrow> pf_saved f < length (p_nodes p))"

definition top_ok :: "parse_machine \<Rightarrow> parse_frame \<Rightarrow> bool" where
  "top_ok m f \<longleftrightarrow>
    (if pf_phase f = 0 then \<not> pm_returned m \<and> starts (pm_state m) (pf_kind f)
     else waiting (pm_state m) f \<and> (pm_returned m \<or> pf_kind f = FRAME_CASE \<and> pf_phase f = 3))"

definition machine_ok :: "parse_machine \<Rightarrow> bool" where
  "machine_ok m \<longleftrightarrow> running (pm_state m) \<and>
    (pm_returned m \<longrightarrow> pm_value m < length (p_nodes (pm_state m)) \<and>
       length (pm_frames m) < PARSE_FRAME_CAP) \<and>
    length (pm_frames m) \<le> PARSE_FRAME_CAP \<and>
    (\<forall>f \<in> set (tl (pm_frames m)). waiting (pm_state m) f) \<and>
    (if pm_frames m = [] then pm_returned m else top_ok m (hd (pm_frames m)))"

definition step_out :: "parser \<Rightarrow> bool \<times> parse_machine \<Rightarrow> bool" where
  "step_out p r \<longleftrightarrow> keeps p (pm_state (snd r)) \<and> parser_ok (pm_state (snd r)) \<and>
    (if fst r then machine_ok (snd r) else p_status (pm_state (snd r)) \<noteq> PARSE_OK)"

text \<open>What every step function is called with.\<close>

definition frames_ready :: "parse_machine \<Rightarrow> parse_frame list \<Rightarrow> bool" where
  "frames_ready m fs \<longleftrightarrow> running (pm_state m) \<and> length fs < PARSE_FRAME_CAP \<and>
    (\<forall>g \<in> set fs. waiting (pm_state m) g) \<and> (\<exists>f. pm_frames m = f # fs)"

lemma waiting_mono:
  assumes "waiting p f" "keeps p q" shows "waiting q f"
proof -
  have "i < length (p_nodes q)" if "i < length (p_nodes p)" for i using assms(2) that by (rule keeps_nodes)
  with assms(1) show ?thesis by (auto simp: waiting_def link_ok_def)
qed

lemma step_out_weaken: "step_out q r \<Longrightarrow> keeps p q \<Longrightarrow> step_out p r"
  by (auto simp: step_out_def intro: keeps_trans)

lemma set_state_fields [simp]:
  "pm_state (set_state m p) = p" "pm_frames (set_state m p) = pm_frames m"
  "pm_value (set_state m p) = pm_value m" "pm_returned (set_state m p) = pm_returned m"
  by (simp_all add: set_state_def)

lemma set_top_fields [simp]:
  "pm_state (set_top m p f fs) = p" "pm_frames (set_top m p f fs) = f # fs"
  "pm_value (set_top m p f fs) = pm_value m" "pm_returned (set_top m p f fs) = pm_returned m"
  by (simp_all add: set_top_def)

lemma frames_ready_step:
  assumes "frames_ready m fs" "running q" "keeps (pm_state m) q"
  shows "frames_ready (set_state m q) fs" "frames_ready (set_top m q f fs) fs"
  using assms by (auto simp: frames_ready_def intro: waiting_mono)

lemma fail_out:
  assumes "outcome p (False, q)" shows "step_out p (False, set_state m q)"
    "step_out p (False, set_top m q f fs)"
  using assms by (simp_all add: step_out_def outcome_False)

lemma push_out:
  assumes "frames_ready m fs" "waiting (pm_state m) f" "hd (pm_frames m) = f"
    "starts (pm_state m) kind"
  shows "step_out (pm_state m) (machine_push m kind stops)"
proof (cases "PARSE_FRAME_CAP \<le> length (pm_frames m) \<or> pm_returned m")
  case True
  then show ?thesis
    using assms(1) fail_out(1)[OF fail_ok[of "pm_state m" PARSE_LIMIT]]
    by (simp add: machine_push_def frames_ready_def)
next
  case False
  with assms show ?thesis
    by (auto simp: machine_push_def step_out_def machine_ok_def frames_ready_def top_ok_def
        fresh_frame_def)
qed

lemma complete_out:
  assumes "frames_ready m fs" "n < length (p_nodes (pm_state m))"
  shows "step_out (pm_state m) (True, machine_complete m n)"
proof -
  have "top_ok (machine_complete m n) (hd fs)" if "fs \<noteq> []"
    using assms(1) that
    by (cases fs) (auto simp: top_ok_def machine_complete_def frames_ready_def waiting_def)
  then show ?thesis using assms
    by (auto simp: machine_complete_def step_out_def machine_ok_def frames_ready_def
        dest: list.set_sel(2))
qed

lemma state_then:
  assumes "outcome (pm_state m) (op (pm_state m))"
    "\<And>q. op (pm_state m) = (True, q) \<Longrightarrow> running q \<Longrightarrow> keeps (pm_state m) q \<Longrightarrow>
      step_out q (k (set_state m q))"
  shows "step_out (pm_state m) (and_then (on_state m op) k)"
proof -
  obtain b q where r: "op (pm_state m) = (b, q)" by fastforce
  show ?thesis
  proof (cases b)
    case True
    with assms(1) r have q: "running q" "keeps (pm_state m) q" by (auto simp: outcome_True)
    from step_out_weaken[OF assms(2)[OF _ q] q(2)] r True show ?thesis by (simp add: on_state_def)
  next
    case False
    with assms(1) r fail_out(1)[of "pm_state m" q m] show ?thesis by (simp add: on_state_def)
  qed
qed

lemma close_out:
  assumes "frames_ready m fs" "node < length (p_nodes (pm_state m))"
  shows "step_out (pm_state m) (close_compound m node w)"
  unfolding close_compound_def
proof (rule state_then)
  show "outcome (pm_state m) (expect_word (pm_state m) w)"
    using assms(1) by (intro expect_word_ok) (simp add: frames_ready_def)
next
  fix q assume q: "running q" "keeps (pm_state m) q"
  define r where "r = set_node_end q node (tok_end (p_tokens q ! (p_position q - 1)))"
  have r: "running r" "keeps q r" using node_flags_ok(2)[OF q(1)] node_flags_ok(4) by (simp_all add: r_def)
  have "frames_ready (set_state (set_state m q) r) fs"
    using frames_ready_step(1)[OF frames_ready_step(1)[OF assms(1) q], of r] r by simp
  from complete_out[OF this, of node]
  have "step_out r (True, machine_complete (set_state (set_state m q) r) node)"
    using keeps_nodes[OF keeps_trans[OF q(2) r(2)] assms(2)] by simp
  then show "step_out q (let p = pm_state (set_state m q)
      in (True, machine_complete (set_state (set_state m q)
             (set_node_end p node (tok_end (p_tokens p ! (p_position p - 1))))) node))"
    using r(2) by (simp add: r_def step_out_weaken)
qed

lemma take_ready:
  assumes "machine_ok m" "pm_frames m = f # fs" "pm_returned m"
  shows "frames_ready (m\<lparr>pm_returned := False\<rparr>) fs" "pm_value m < length (p_nodes (pm_state m))"
    "machine_take m k = k (pm_value m) (m\<lparr>pm_returned := False\<rparr>)"
proof -
  show "frames_ready (m\<lparr>pm_returned := False\<rparr>) fs"
    using assms by (simp add: machine_ok_def frames_ready_def)
  show v: "pm_value m < length (p_nodes (pm_state m))" using assms by (simp add: machine_ok_def)
  then have "pm_value m \<noteq> GSH_AST_NONE" using assms(1) by (auto simp: machine_ok_def parser_ok_def)
  then show "machine_take m k = k (pm_value m) (m\<lparr>pm_returned := False\<rparr>)"
    using assms by (simp add: machine_take_def machine_ok_def)
qed

lemma take_child_out:
  assumes "machine_ok m" "pm_frames m = f # fs" "pm_returned m" "node < length (p_nodes (pm_state m))"
    "\<And>q. running q \<Longrightarrow> keeps (pm_state m) q \<Longrightarrow> frames_ready (set_state (m\<lparr>pm_returned := False\<rparr>) q) fs \<Longrightarrow>
      step_out q (k (pm_value m) (set_state (m\<lparr>pm_returned := False\<rparr>) q))"
  shows "step_out (pm_state m) (take_child m node k)"
proof -
  note ready = take_ready[OF assms(1-3)]
  have run: "running (pm_state m)" using assms(1) by (simp add: machine_ok_def)
  have "step_out (pm_state (m\<lparr>pm_returned := False\<rparr>))
      (and_then (on_state (m\<lparr>pm_returned := False\<rparr>) (\<lambda>p. append_child p node (pm_value m)))
        (k (pm_value m)))"
  proof (rule state_then)
    show "outcome (pm_state (m\<lparr>pm_returned := False\<rparr>))
        (append_child (pm_state (m\<lparr>pm_returned := False\<rparr>)) node (pm_value m))"
      using append_child_ok[OF run assms(4) ready(2)] by simp
    fix q assume q: "running q" "keeps (pm_state (m\<lparr>pm_returned := False\<rparr>)) q"
    then show "step_out q (k (pm_value m) (set_state (m\<lparr>pm_returned := False\<rparr>) q))"
      using assms(5)[of q] frames_ready_step(1)[OF ready(1) q] by simp
  qed
  then show ?thesis by (simp add: take_child_def ready(3))
qed

section \<open>The productions\<close>

text \<open>What a step function knows of the machine it is called with, by the phase of its frame.\<close>

lemma start_ready:
  assumes "machine_ok m" "pm_frames m = f # fs"
  shows "frames_ready m fs" "running (pm_state m)"
    "pf_phase f = 0 \<Longrightarrow> starts (pm_state m) (pf_kind f)"
    "pf_phase f \<noteq> 0 \<Longrightarrow> waiting (pm_state m) f"
    "pf_phase f \<noteq> 0 \<Longrightarrow> pf_kind f \<noteq> FRAME_CASE \<or> pf_phase f \<noteq> 3 \<Longrightarrow> pm_returned m"
  using assms by (auto simp: machine_ok_def frames_ready_def top_ok_def split: if_splits)

lemma starts_plain [simp]:
  "starts p FRAME_LIST" "starts p FRAME_AND_OR" "starts p FRAME_PIPELINE" "starts p FRAME_COMMAND"
  by (simp_all add: starts_def)

lemma compound_kind_word: "compound_frame_kind p = Some kind \<Longrightarrow> current_kind p \<noteq> TOKEN_EOF"
  by (auto simp: compound_frame_kind_def dest: current_word_is_kind split: if_splits)

lemma starts_compound:
  "compound_frame_kind p = Some kind \<Longrightarrow> starts p kind"
  by (auto simp: starts_def compound_frame_kind_def split: if_splits)

text \<open>Pushing from a frame that was just updated.\<close>

lemma push_top:
  assumes "frames_ready m fs" "running q" "keeps (pm_state m) q" "waiting q f" "starts q kind"
  shows "step_out q (machine_push (set_top m q f fs) kind stops)"
  using push_out[OF frames_ready_step(2)[OF assms(1-3)], of f f kind stops] assms(4,5) by simp

lemma push_state:
  assumes "frames_ready m fs" "running q" "keeps (pm_state m) q" "pm_frames m = f # fs"
    "waiting q f" "starts q kind"
  shows "step_out q (machine_push (set_state m q) kind stops)"
  using push_out[OF frames_ready_step(1)[OF assms(1-3)], of f kind stops] assms(4-) by simp

lemma complete_state:
  assumes "frames_ready m fs" "running q" "keeps (pm_state m) q" "n < length (p_nodes q)"
  shows "step_out q (True, machine_complete (set_state m q) n)"
  using complete_out[OF frames_ready_step(1)[OF assms(1-3)]] assms(4) by simp

text \<open>The common opening: a new node for the frame, then the rest of the production.\<close>

lemma node_then:
  assumes "running p" "new_node p kind b = (n, q)"
    "n = GSH_AST_NONE \<Longrightarrow> outcome p (False, q) \<Longrightarrow> step_out p r"
    "n \<noteq> GSH_AST_NONE \<Longrightarrow> running q \<Longrightarrow> keeps p q \<Longrightarrow> n < length (p_nodes q) \<Longrightarrow>
      p_position q = p_position p \<Longrightarrow> current_token q = current_token p \<Longrightarrow> step_out q r"
  shows "step_out p r"
proof -
  from assms(1,2) show ?thesis
  proof (cases rule: new_node_ok)
    case full
    with assms(3) show ?thesis by simp
  next
    case node
    then have "current_token q = current_token p"
      by (intro current_token_cong) (simp_all add: keeps_def)
    with node assms(4) show ?thesis by (blast intro: step_out_weaken)
  qed
qed

lemma step_list_out:
  assumes "machine_ok m" "pm_frames m = f # fs" "pf_kind f = FRAME_LIST"
  shows "step_out (pm_state m) (step_list m f fs)"
proof (cases "pf_phase f = 0")
  case True
  define p where "p = skip_linebreak (pm_state m)"
  note ready = start_ready[OF assms(1,2)]
  have p: "running p" "keeps (pm_state m) p"
    using skip_linebreak_ok[of "pm_state m"] ready(2) by (simp_all add: p_def)
  obtain n q where n: "new_node p AST_LIST (tok_begin (current_token p)) = (n, q)" by fastforce
  have "step_out p (step_list m f fs)"
  proof (cases "list_stops p (pf_stops f) \<or> current_kind p = TOKEN_EOF")
    case stop: True
    then show ?thesis
      using True p(1) fail_out(1)[OF fail_unexpected_ok[of p]]
      by (simp add: step_list_def Let_def p_def[symmetric])
  next
    case False
    show ?thesis
    proof (rule node_then[OF p(1) n])
      assume "n = GSH_AST_NONE" "outcome p (False, q)"
      then show "step_out p (step_list m f fs)"
        using True False n fail_out(2) by (simp add: step_list_def Let_def p_def[symmetric])
    next
      assume q: "n \<noteq> GSH_AST_NONE" "running q" "keeps p q" "n < length (p_nodes q)"
      have "step_out q (machine_push (set_top m q (f\<lparr>pf_node := n, pf_phase := 1\<rparr>) fs) FRAME_AND_OR 0)"
        using ready(1) q keeps_trans[OF p(2) q(3)] assms(3)
        by (intro push_top) (simp_all add: waiting_def)
      then show "step_out q (step_list m f fs)"
        using True False n q(1) by (simp add: step_list_def Let_def p_def[symmetric])
    qed
  qed
  then show ?thesis using p(2) by (rule step_out_weaken)
next
  case False
  note ready = start_ready[OF assms(1,2)]
  have node: "pf_node f < length (p_nodes (pm_state m))"
    using ready(4)[OF False] assms(3) by (simp add: waiting_def)
  show ?thesis
    unfolding step_list_def if_not_P[OF False]
  proof (rule take_child_out[OF assms(1,2) _ node], goal_cases)
    case 1
    show ?case using ready(5)[OF False] assms(3) by simp
  next
    case (2 p)
    let ?m = "m\<lparr>pm_returned := False\<rparr>" and ?child = "pm_value m"
    define q where "q = (if current_kind p = TOKEN_AMPERSAND \<or> current_kind p = TOKEN_SEMICOLON then
        skip_linebreak (advance
          (if current_kind p = TOKEN_AMPERSAND then or_node_flags p ?child FLAG_ASYNC else p))
      else if current_kind p = TOKEN_NEWLINE then skip_linebreak p else p)"
    define r where "r = (if current_kind p = TOKEN_AMPERSAND then or_node_flags p ?child FLAG_ASYNC else p)"
    have r: "running r" "keeps p r" "current_kind r = current_kind p"
      using 2(1) node_flags_ok(1)[OF 2(1)] node_flags_ok(3)
      by (simp_all add: r_def) (simp add: or_node_flags_def)
    have "current_kind p = TOKEN_AMPERSAND \<or> current_kind p = TOKEN_SEMICOLON \<Longrightarrow>
        running (skip_linebreak (advance r)) \<and> keeps p (skip_linebreak (advance r))"
      using skip_after_advance[OF r(1)] keeps_trans[OF r(2)] r(3) by auto
    then have q: "running q" "keeps p q"
      using skip_linebreak_ok[of p] 2(1) by (auto simp: q_def r_def[symmetric])
    have f: "waiting q f" "pf_node f < length (p_nodes q)"
      using waiting_mono[OF ready(4)[OF False] keeps_trans[OF 2(2) q(2)]]
        keeps_nodes[OF keeps_trans[OF 2(2) q(2)] node] by auto
    have ready2: "frames_ready (set_state ?m p) fs" "keeps (pm_state (set_state ?m p)) q"
      using 2(3) q(2) by simp_all
    have out:
      "step_out q (True, machine_complete (set_state (set_state ?m p) q) (pf_node f))"
      "step_out q (machine_push (set_state (set_state ?m p) q) FRAME_AND_OR 0)"
      using complete_state[OF ready2(1) q(1) ready2(2) f(2)]
        push_state[OF ready2(1) q(1) ready2(2) _ f(1)] assms(2) by simp_all
    have bad: "step_out q (False, set_state (set_state (set_state ?m p) q) (fail q PARSE_SYNTAX))"
      "step_out q (False, set_state (set_state (set_state ?m p) q) (fail q PARSE_INCOMPLETE))"
      using q(1) by (intro fail_out(1) fail_ok; simp)+
    show ?case
      unfolding Let_def set_state_fields
      by (rule step_out_weaken[OF _ q(2)], unfold q_def[symmetric])
        (simp only: out bad if_cancel simp_thms split: if_split)
  qed
qed

lemma fail_top:
  "outcome p (False, q) \<Longrightarrow> current_kind q \<noteq> TOKEN_EOF \<Longrightarrow>
    step_out p (False, set_top m (advance q) f fs)"
  using parser_ok_advance[of q] keeps_trans[OF _ keeps_advance, of p q]
  by (auto simp: step_out_def outcome_False)

text \<open>A child that returned, and a parser the code moves on before it pushes or completes.\<close>

lemma step_and_or_out:
  assumes "machine_ok m" "pm_frames m = f # fs" "pf_kind f = FRAME_AND_OR"
  shows "step_out (pm_state m) (step_and_or m f fs)"
proof (cases "pf_phase f = 0")
  case True
  note ready = start_ready[OF assms(1,2)]
  obtain n q where n: "new_node (pm_state m) AST_AND_OR (tok_begin (current_token (pm_state m))) = (n, q)"
    by fastforce
  show ?thesis
  proof (rule node_then[OF ready(2) n])
    assume "n = GSH_AST_NONE" "outcome (pm_state m) (False, q)"
    then show "step_out (pm_state m) (step_and_or m f fs)"
      using True n fail_out(2) by (simp add: step_and_or_def Let_def)
  next
    assume q: "n \<noteq> GSH_AST_NONE" "running q" "keeps (pm_state m) q" "n < length (p_nodes q)"
    have "step_out q (machine_push (set_top m q (f\<lparr>pf_node := n, pf_phase := 1\<rparr>) fs) FRAME_PIPELINE 0)"
      using ready(1) q assms(3) by (intro push_top) (simp_all add: waiting_def)
    then show "step_out q (step_and_or m f fs)"
      using True n q(1) by (simp add: step_and_or_def Let_def)
  qed
next
  case False
  note ready = start_ready[OF assms(1,2)]
  have ret: "pm_returned m" using ready(5)[OF False] assms(3) by simp
  note take = take_ready[OF assms(1,2) ret]
  have node: "pf_node f < length (p_nodes (pm_state m))"
    using ready(4)[OF False] assms(3) by (simp add: waiting_def)
  define p where "p = (if pf_phase f = 2 then update_node (pm_state m) (pm_value m)
      (\<lambda>n. n\<lparr>node_connector := pf_connector f\<rparr>) else pm_state m)"
  have p: "running p" "keeps (pm_state m) p"
    using ready(2) node_in_ok[of "pm_state m" "pm_value m"] take(2)
    by (auto simp: p_def node_ok_def intro!: parser_ok_update)
  let ?m = "set_state (m\<lparr>pm_returned := False\<rparr>) p"
  have ready2: "frames_ready ?m fs"
    using frames_ready_step(1)[OF take(1), of p] p by simp
  have "step_out (pm_state ?m) (and_then (on_state ?m (\<lambda>p. append_child p (pf_node f) (pm_value m))) (\<lambda>m.
      let p = pm_state m
      in if current_kind p \<noteq> TOKEN_AND_IF \<and> current_kind p \<noteq> TOKEN_OR_IF
         then (True, machine_complete m (pf_node f))
         else machine_push (set_top m (skip_linebreak (advance p))
                (f\<lparr>pf_connector := current_kind p, pf_phase := 2\<rparr>) fs) FRAME_PIPELINE 0))"
  proof (rule state_then, goal_cases)
    case 1
    show ?case
      using append_child_ok[OF p(1) keeps_nodes[OF p(2) node] keeps_nodes[OF p(2) take(2)]] by simp
  next
    case (2 q)
    have q: "running q" "keeps p q" using 2(2,3) by simp_all
    note len = keeps_nodes[OF keeps_trans[OF p(2) q(2)] node]
    note r = frames_ready_step(1)[OF ready2, of q, simplified, OF q]
    have "step_out q (machine_push (set_top (set_state ?m q) (skip_linebreak (advance q))
        (f\<lparr>pf_connector := current_kind q, pf_phase := 2\<rparr>) fs) FRAME_PIPELINE 0)"
      if "current_kind q \<noteq> TOKEN_EOF"
    proof -
      note s = skip_after_advance[OF q(1) that]
      have "step_out (skip_linebreak (advance q))
          (machine_push (set_top (set_state ?m q) (skip_linebreak (advance q))
             (f\<lparr>pf_connector := current_kind q, pf_phase := 2\<rparr>) fs) FRAME_PIPELINE 0)"
        using r s keeps_nodes[OF s(2) len] assms(3) by (intro push_top) (simp_all add: waiting_def)
      then show ?thesis using s(2) by (rule step_out_weaken)
    qed
    moreover have "step_out q (True, machine_complete (set_state ?m q) (pf_node f))"
      using complete_out[OF r] len by simp
    ultimately show ?case by (auto simp: Let_def)
  qed
  then have "step_out (pm_state m) (and_then (on_state ?m (\<lambda>p. append_child p (pf_node f) (pm_value m))) (\<lambda>m.
      let p = pm_state m
      in if current_kind p \<noteq> TOKEN_AND_IF \<and> current_kind p \<noteq> TOKEN_OR_IF
         then (True, machine_complete m (pf_node f))
         else machine_push (set_top m (skip_linebreak (advance p))
                (f\<lparr>pf_connector := current_kind p, pf_phase := 2\<rparr>) fs) FRAME_PIPELINE 0))"
    using p(2) by (simp add: step_out_weaken)
  moreover have "?m = (if pf_phase f = 2 then set_state (m\<lparr>pm_returned := False\<rparr>)
      (update_node (pm_state (m\<lparr>pm_returned := False\<rparr>)) (pm_value m)
         (\<lambda>n. n\<lparr>node_connector := pf_connector f\<rparr>)) else m\<lparr>pm_returned := False\<rparr>)"
    by (simp add: p_def set_state_def)
  ultimately show ?thesis
    unfolding step_and_or_def if_not_P[OF False] take(3) by (simp only: Let_def)
qed

lemma push_top_moved:
  assumes "frames_ready m fs" "running q" "keeps (pm_state m) q" "waiting q f" "starts q kind"
  shows "step_out (pm_state m) (machine_push (set_top m q f fs) kind stops)"
  using push_top[OF assms] assms(3) by (rule step_out_weaken)

lemma push_state_moved:
  assumes "frames_ready m fs" "running q" "keeps (pm_state m) q" "pm_frames m = f # fs"
    "waiting q f" "starts q kind"
  shows "step_out (pm_state m) (machine_push (set_state m q) kind stops)"
  using push_state[OF assms] assms(3) by (rule step_out_weaken)

lemma complete_state_moved:
  assumes "frames_ready m fs" "running q" "keeps (pm_state m) q" "n < length (p_nodes q)"
  shows "step_out (pm_state m) (True, machine_complete (set_state m q) n)"
  using complete_state[OF assms] assms(3) by (rule step_out_weaken)

lemma waiting_node:
  "n < length (p_nodes q) \<Longrightarrow> k \<noteq> 0 \<Longrightarrow> pf_kind f \<noteq> FRAME_CASE \<Longrightarrow> pf_kind f \<noteq> FRAME_IF \<Longrightarrow>
    waiting q (f\<lparr>pf_node := n, pf_phase := k\<rparr>)"
  by (simp add: waiting_def)

lemma step_pipeline_out:
  assumes "machine_ok m" "pm_frames m = f # fs" "pf_kind f = FRAME_PIPELINE"
  shows "step_out (pm_state m) (step_pipeline m f fs)"
proof (cases "pf_phase f = 0")
  case True
  note ready = start_ready[OF assms(1,2)]
  obtain n q where n: "new_node (pm_state m) AST_PIPELINE (tok_begin (current_token (pm_state m))) = (n, q)"
    by fastforce
  show ?thesis
  proof (rule node_then[OF ready(2) n])
    assume "n = GSH_AST_NONE" "outcome (pm_state m) (False, q)"
    then show "step_out (pm_state m) (step_pipeline m f fs)"
      using True n fail_out(2) by (simp add: step_pipeline_def Let_def)
  next
    assume q: "n \<noteq> GSH_AST_NONE" "running q" "keeps (pm_state m) q" "n < length (p_nodes q)"
    define r where "r = (if current_word_is q ''!''
        then skip_linebreak (advance (or_node_flags q n FLAG_NEGATED)) else q)"
    have "running r \<and> keeps q r"
    proof (cases "current_word_is q ''!''")
      case True
      have "current_kind (or_node_flags q n FLAG_NEGATED) \<noteq> TOKEN_EOF"
        using current_word_is_kind[OF True] by (simp add: or_node_flags_def)
      note s = skip_after_advance[OF node_flags_ok(1)[OF q(2)] this]
      from s keeps_trans[OF node_flags_ok(3) s(2)] True show ?thesis by (simp add: r_def)
    qed (use q in \<open>simp add: r_def\<close>)
    then have r: "running r" "keeps q r" "keeps (pm_state m) r" "n < length (p_nodes r)"
      using keeps_trans[OF q(3)] keeps_nodes[OF _ q(4)] by auto
    have "step_out r (machine_push (set_top m r (f\<lparr>pf_node := n, pf_phase := 1\<rparr>) fs) FRAME_COMMAND 0)"
      using ready(1) r assms(3) by (intro push_top waiting_node) simp_all
    then have "step_out q (machine_push (set_top m r (f\<lparr>pf_node := n, pf_phase := 1\<rparr>) fs) FRAME_COMMAND 0)"
      using r(2) by (rule step_out_weaken)
    then show "step_out q (step_pipeline m f fs)"
      using True n q(1) by (simp add: step_pipeline_def Let_def r_def)
  qed
next
  case False
  note ready = start_ready[OF assms(1,2)]
  have node: "pf_node f < length (p_nodes (pm_state m))"
    using ready(4)[OF False] assms(3) by (simp add: waiting_def)
  show ?thesis
    unfolding step_pipeline_def if_not_P[OF False]
  proof (rule take_child_out[OF assms(1,2) _ node], goal_cases)
    case 1
    show ?case using ready(5)[OF False] assms(3) by simp
  next
    case (2 q)
    let ?m = "set_state (m\<lparr>pm_returned := False\<rparr>) q"
    have "step_out (pm_state ?m) (machine_push (set_state ?m (skip_linebreak (advance q))) FRAME_COMMAND 0)"
      if "current_kind q \<noteq> TOKEN_EOF"
    proof -
      note s = skip_after_advance[OF 2(1) that]
      note w = waiting_mono[OF ready(4)[OF False] keeps_trans[OF 2(2) s(2)]]
      show ?thesis using 2(3) s assms(2) w by (intro push_state_moved) simp_all
    qed
    moreover have "step_out (pm_state ?m) (True, machine_complete ?m (pf_node f))"
      using complete_out[OF 2(3)] keeps_nodes[OF 2(2) node] by simp
    ultimately show ?case by (simp add: Let_def)
  qed
qed

lemma step_command_out:
  assumes "machine_ok m" "pm_frames m = f # fs" "pf_kind f = FRAME_COMMAND"
  shows "step_out (pm_state m) (step_command m f fs)"
proof (cases "pf_phase f = 0")
  case True
  note ready = start_ready[OF assms(1,2)]
  let ?p = "pm_state m"
  define kind where "kind = (if command_is_function ?p then Some FRAME_FUNCTION else compound_frame_kind ?p)"
  show ?thesis
  proof (cases kind)
    case None
    obtain n q where n: "parse_simple ?p = (n, q)" by fastforce
    note simple = parse_simple_ok[OF ready(2) n]
    have "step_out ?p (n \<noteq> GSH_AST_NONE, machine_complete (set_state m q) n)"
    proof (cases "n = GSH_AST_NONE")
      case True
      with simple have "outcome ?p (False, q)" by simp
      then show ?thesis using True by (simp add: step_out_def outcome_False machine_complete_def)
    next
      case False
      with simple have "running q" "keeps ?p q" "n < length (p_nodes q)" by (simp_all add: outcome_def)
      from complete_state_moved[OF ready(1) this] False show ?thesis by simp
    qed
    moreover have "step_out ?p (False, set_state m (fail ?p PARSE_SYNTAX))"
      using ready(2) by (intro fail_out(1) fail_ok) simp_all
    ultimately show ?thesis
      unfolding step_command_def Let_def if_P[OF True] kind_def[symmetric] None option.case n prod.case
      by (simp only: if_cancel simp_thms split: if_split)
  next
    case (Some k)
    have "starts ?p k"
    proof (cases "command_is_function ?p")
      case True
      with Some have "k = FRAME_FUNCTION" by (simp add: kind_def)
      with True show ?thesis by (simp add: starts_def)
    next
      case False
      with Some show ?thesis by (intro starts_compound) (simp add: kind_def)
    qed
    moreover have "waiting ?p (f\<lparr>pf_phase := 1\<rparr>)" using assms(3) by (simp add: waiting_def)
    ultimately have "step_out ?p (machine_push (set_top m ?p (f\<lparr>pf_phase := 1\<rparr>) fs) k 0)"
      using ready(1,2) by (intro push_top_moved) simp_all
    then show ?thesis
      unfolding step_command_def Let_def if_P[OF True] kind_def[symmetric] Some option.case .
  qed
next
  case False
  note ready = start_ready[OF assms(1,2)]
  have ret: "pm_returned m" using ready(5)[OF False] assms(3) by simp
  note take = take_ready[OF assms(1,2) ret]
  have "step_out (pm_state (m\<lparr>pm_returned := False\<rparr>))
      (and_then (on_state (m\<lparr>pm_returned := False\<rparr>) (\<lambda>p. parse_redirects p (pm_value m)))
        (\<lambda>m'. (True, machine_complete m' (pm_value m))))"
  proof (rule state_then, goal_cases)
    case 1
    show ?case using parse_redirects_ok[OF ready(2) take(2)] by simp
  next
    case (2 q)
    have q: "running q" "keeps (pm_state m) q" using 2(2,3) by simp_all
    have "keeps (pm_state (m\<lparr>pm_returned := False\<rparr>)) q" using q(2) by simp
    from complete_state[OF take(1) q(1) this keeps_nodes[OF q(2) take(2)]] show ?case .
  qed
  then show ?thesis
    unfolding step_command_def Let_def if_not_P[OF False] take(3) by simp
qed

lemma new_node_position: "new_node p kind b = (n, q) \<Longrightarrow> p_position q = p_position p"
  by (auto simp: new_node_def split: if_splits)

text \<open>The opening of a compound command whose first token is skipped.\<close>

lemma open_compound:
  assumes "frames_ready m fs" "current_kind (pm_state m) \<noteq> TOKEN_EOF"
    "new_node (pm_state m) kind b = (n, q)"
    "waiting (advance q) f \<or> n = GSH_AST_NONE"
  shows "step_out (pm_state m)
    (if n = GSH_AST_NONE then (False, set_top m (advance q) f fs)
     else machine_push (set_top m (advance q) f fs) FRAME_LIST stops)"
proof (rule node_then[OF _ assms(3)])
  show "running (pm_state m)" using assms(1) by (simp add: frames_ready_def)
next
  assume n: "n = GSH_AST_NONE" "outcome (pm_state m) (False, q)"
  have "current_token q = current_token (pm_state m)"
    using same_token[OF n(2)] new_node_position[OF assms(3)] by simp
  with fail_top[OF n(2)] assms(2) n(1) show "step_out (pm_state m)
    (if n = GSH_AST_NONE then (False, set_top m (advance q) f fs)
     else machine_push (set_top m (advance q) f fs) FRAME_LIST stops)" by simp
next
  assume q: "n \<noteq> GSH_AST_NONE" "running q" "keeps (pm_state m) q"
    "current_token q = current_token (pm_state m)"
  have a: "running (advance q)" using running_advance[of q] q assms(2) by simp
  have "step_out (advance q) (machine_push (set_top m (advance q) f fs) FRAME_LIST stops)"
    using a assms(4) q(1) keeps_trans[OF q(3) keeps_advance] by (intro push_top[OF assms(1)]) simp_all
  then have "step_out q (machine_push (set_top m (advance q) f fs) FRAME_LIST stops)"
    by (rule step_out_weaken) simp
  with q(1) show "step_out q
    (if n = GSH_AST_NONE then (False, set_top m (advance q) f fs)
     else machine_push (set_top m (advance q) f fs) FRAME_LIST stops)" by simp
qed

lemma new_node_length:
  "new_node p kind b = (n, q) \<Longrightarrow> n \<noteq> GSH_AST_NONE \<Longrightarrow> n < length (p_nodes q)"
  by (auto simp: new_node_def split: if_splits)

lemma compound_start:
  assumes "starts p kind"
    "kind \<in> {FRAME_SUBSHELL, FRAME_BRACE, FRAME_WHILE, FRAME_UNTIL, FRAME_IF, FRAME_FOR, FRAME_CASE}"
  shows "current_kind p \<noteq> TOKEN_EOF"
proof -
  have "compound_frame_kind p = Some kind" using assms unfolding starts_def by blast
  then show ?thesis by (rule compound_kind_word)
qed

lemma step_group_out:
  assumes "machine_ok m" "pm_frames m = f # fs" "pf_kind f \<in> {FRAME_SUBSHELL, FRAME_BRACE}"
  shows "step_out (pm_state m) (step_group m f fs)"
proof (cases "pf_phase f = 0")
  case True
  note ready = start_ready[OF assms(1,2)]
  let ?subshell = "pf_kind f = FRAME_SUBSHELL"
  obtain n q where n: "new_node (pm_state m) (if ?subshell then AST_SUBSHELL else AST_BRACE_GROUP)
      (tok_begin (current_token (pm_state m))) = (n, q)" by fastforce
  have "current_kind (pm_state m) \<noteq> TOKEN_EOF"
    using compound_start[OF ready(3)[OF True]] assms(3) by auto
  moreover have "waiting (advance q) (f\<lparr>pf_node := n, pf_phase := 1\<rparr>) \<or> n = GSH_AST_NONE"
    using new_node_length[OF n] assms(3) by (auto simp: waiting_def)
  ultimately show ?thesis
    using open_compound[OF ready(1) _ n] True n by (simp add: step_group_def Let_def)
next
  case False
  note ready = start_ready[OF assms(1,2)]
  have node: "pf_node f < length (p_nodes (pm_state m))"
    using ready(4)[OF False] assms(3) by (auto simp: waiting_def)
  show ?thesis
    unfolding step_group_def Let_def if_not_P[OF False]
  proof (rule take_child_out[OF assms(1,2) _ node], goal_cases)
    case 1
    show ?case using ready(5)[OF False] assms(3) by auto
  next
    case (2 q)
    let ?m = "set_state (m\<lparr>pm_returned := False\<rparr>) q"
    note len = keeps_nodes[OF 2(2) node]
    have "step_out (pm_state ?m) (True, machine_complete (set_state ?m
        (advance (set_node_end q (pf_node f) e))) (pf_node f))" if "current_kind q \<noteq> TOKEN_EOF" for e
    proof -
      have "current_kind (set_node_end q (pf_node f) e) \<noteq> TOKEN_EOF"
        using that by (simp add: set_node_end_def)
      note a = running_advance[OF node_flags_ok(2)[OF 2(1)] this]
      note k = keeps_trans[OF node_flags_ok(4) keeps_advance]
      have "keeps (pm_state ?m) (advance (set_node_end q (pf_node f) e))" using k by simp
      from complete_state_moved[OF 2(3) a this] keeps_nodes[OF k len] show ?thesis by simp
    qed
    moreover have "step_out (pm_state ?m) (False, set_state ?m (fail_unexpected q))"
      using 2(1) fail_out(1)[OF fail_unexpected_ok[of q]] by simp
    moreover have "step_out (pm_state ?m) (close_compound ?m (pf_node f) w)" for w
      using close_out[OF 2(3)] len by simp
    ultimately show ?case by auto
  qed
qed

lemma step_loop_out:
  assumes "machine_ok m" "pm_frames m = f # fs" "pf_kind f \<in> {FRAME_WHILE, FRAME_UNTIL}"
  shows "step_out (pm_state m) (step_loop m f fs)"
proof (cases "pf_phase f = 0")
  case True
  note ready = start_ready[OF assms(1,2)]
  obtain n q where n: "new_node (pm_state m) (if pf_kind f = FRAME_UNTIL then AST_UNTIL else AST_WHILE)
      (tok_begin (current_token (pm_state m))) = (n, q)" by fastforce
  have "current_kind (pm_state m) \<noteq> TOKEN_EOF"
    using compound_start[OF ready(3)[OF True]] assms(3) by auto
  moreover have "waiting (advance q) (f\<lparr>pf_node := n, pf_phase := 1\<rparr>) \<or> n = GSH_AST_NONE"
    using new_node_length[OF n] assms(3) by (auto simp: waiting_def)
  ultimately show ?thesis
    using open_compound[OF ready(1) _ n] True n by (simp add: step_loop_def Let_def)
next
  case False
  note ready = start_ready[OF assms(1,2)]
  have node: "pf_node f < length (p_nodes (pm_state m))"
    using ready(4)[OF False] assms(3) by (auto simp: waiting_def)
  show ?thesis
    unfolding step_loop_def if_not_P[OF False]
  proof (rule take_child_out[OF assms(1,2) _ node], goal_cases)
    case 1
    show ?case using ready(5)[OF False] assms(3) by auto
  next
    case (2 q)
    let ?m = "set_state (m\<lparr>pm_returned := False\<rparr>) q"
    have "step_out (pm_state ?m) (and_then (on_state ?m (\<lambda>p. expect_word p ''do''))
        (\<lambda>m. machine_push (set_top m (pm_state m) (f\<lparr>pf_phase := 2\<rparr>) fs) FRAME_LIST STOP_DONE))"
    proof (rule state_then, goal_cases)
      case 1
      show ?case using expect_word_ok[OF 2(1)] by simp
    next
      case s: (2 s)
      have s: "running s" "keeps q s" using s(2,3) by simp_all
      have "waiting s (f\<lparr>pf_phase := 2\<rparr>)"
        using keeps_nodes[OF keeps_trans[OF 2(2) s(2)] node] assms(3) by (auto simp: waiting_def)
      then show ?case
        using frames_ready_step(1)[OF 2(3), of s] s push_top[of "set_state ?m s" fs s] by simp
    qed
    moreover have "step_out (pm_state ?m) (close_compound ?m (pf_node f) w)" for w
      using close_out[OF 2(3)] keeps_nodes[OF 2(2) node] by simp
    ultimately show ?case by simp
  qed
qed

lemma expect_push:
  assumes "frames_ready m fs" "waiting (pm_state m) g"
  shows "step_out (pm_state m) (and_then (on_state m (\<lambda>p. expect_word p w))
    (\<lambda>m. machine_push (set_top m (pm_state m) g fs) FRAME_LIST stops))"
proof (rule state_then, goal_cases)
  case 1
  show ?case using expect_word_ok assms(1) by (simp add: frames_ready_def)
next
  case (2 q)
  note r = frames_ready_step(1)[OF assms(1) 2(2,3)]
  from push_top[OF r, of q g FRAME_LIST stops] 2(2,3) waiting_mono[OF assms(2) 2(3)]
  show ?case by simp
qed

lemma branch_then:
  assumes "frames_ready m fs" "child < length (p_nodes (pm_state m))"
    "pf_node f < length (p_nodes (pm_state m))"
    "pf_saved f \<noteq> GSH_AST_NONE \<Longrightarrow> pf_saved f < length (p_nodes (pm_state m))"
    "\<And>q. running q \<Longrightarrow> keeps (pm_state m) q \<Longrightarrow> frames_ready (set_state m q) fs \<Longrightarrow>
       step_out q (k (set_state m q))"
  shows "step_out (pm_state m) (and_then (on_state m (append_if_branch f child)) k)"
proof (rule state_then, goal_cases)
  case 1
  show ?case using append_if_branch_ok[OF _ assms(2-4)] assms(1) by (simp add: frames_ready_def)
next
  case (2 q)
  show ?case using assms(5)[OF 2(2,3) frames_ready_step(1)[OF assms(1) 2(2,3)]] .
qed

lemma step_if_out:
  assumes "machine_ok m" "pm_frames m = f # fs" "pf_kind f = FRAME_IF"
  shows "step_out (pm_state m) (step_if m f fs)"
proof (cases "pf_phase f = 0")
  case True
  note ready = start_ready[OF assms(1,2)]
  obtain n q where n: "new_node (pm_state m) AST_IF (tok_begin (current_token (pm_state m))) = (n, q)"
    by fastforce
  let ?f = "f\<lparr>pf_node := n, pf_begin := tok_begin (current_token (advance q)), pf_phase := 1\<rparr>"
  have "current_kind (pm_state m) \<noteq> TOKEN_EOF"
    using compound_start[OF ready(3)[OF True]] assms(3) by simp
  moreover have "waiting (advance q) ?f \<or> n = GSH_AST_NONE"
    using new_node_length[OF n] assms(3) by (auto simp: waiting_def)
  ultimately show ?thesis
    using open_compound[OF ready(1) _ n] True n by (simp add: step_if_def Let_def)
next
  case False
  note ready = start_ready[OF assms(1,2)]
  have w: "waiting (pm_state m) f" by (rule ready(4)[OF False])
  have ret: "pm_returned m" using ready(5)[OF False] assms(3) by simp
  note take = take_ready[OF assms(1,2) ret]
  have node: "pf_node f < length (p_nodes (pm_state m))"
    using w assms(3) by (simp add: waiting_def)
  let ?m = "m\<lparr>pm_returned := False\<rparr>" and ?p = "pm_state m"
  have run: "running ?p" by (rule ready(2))
  have top: "frames_ready (set_top ?m ?p g fs) fs" for g
    using frames_ready_step(2)[OF take(1), of ?p] run by simp
  consider (condition) "pf_phase f = 1" | (else_body) "pf_phase f = 3"
    | (body) "pf_phase f \<noteq> 1" "pf_phase f \<noteq> 3" by blast
  then show ?thesis
  proof cases
    case condition
    let ?f = "f\<lparr>pf_saved := pm_value m\<rparr>"
    have "waiting ?p (?f\<lparr>pf_phase := 2\<rparr>)"
      using node take(2) assms(3) by (simp add: waiting_def)
    from expect_push[OF top, of ?f, simplified, OF this] show ?thesis
      unfolding step_if_def if_not_P[OF False] take(3) if_P[OF condition] by (simp add: Let_def)
  next
    case else_body
    let ?f = "f\<lparr>pf_saved := GSH_AST_NONE\<rparr>"
    have "step_out (pm_state (set_top ?m ?p ?f fs)) (and_then (on_state (set_top ?m ?p ?f fs)
        (append_if_branch ?f (pm_value m))) (\<lambda>m. close_compound m (pf_node ?f) ''fi''))"
    proof (rule branch_then[OF top], goal_cases)
      case (4 q)
      then show ?case using close_out[OF 4(3)] keeps_nodes[OF _ node, of q] by simp
    qed (use take(2) node in simp_all)
    with else_body show ?thesis
      unfolding step_if_def if_not_P[OF False] take(3) by (simp add: Let_def)
  next
    case body
    have saved: "pf_saved f < length (p_nodes ?p)"
      using w assms(3) body by (simp add: waiting_def)
    have "step_out (pm_state ?m) (and_then (on_state ?m (append_if_branch f (pm_value m))) (\<lambda>m.
             let p = pm_state m
             in if current_word_is p ''elif'' then
                  (let p = advance p
                   in machine_push
                        (set_top m p
                          (f\<lparr>pf_begin := tok_begin (current_token p), pf_phase := 1\<rparr>) fs)
                        FRAME_LIST STOP_THEN)
                else if current_word_is p ''else'' then
                  machine_push
                    (set_top m (advance p)
                      (f\<lparr>pf_begin := tok_begin (current_token p), pf_phase := 3\<rparr>) fs)
                    FRAME_LIST STOP_FI
                else close_compound m (pf_node f) ''fi''))"
    proof (rule branch_then[OF take(1)], goal_cases)
      case (4 q)
      have len: "pf_node f < length (p_nodes q)" using 4(2) node by (simp add: keeps_def)
      have "step_out q (machine_push (set_top (set_state ?m q) (advance q)
          (f\<lparr>pf_begin := b, pf_phase := k\<rparr>) fs) FRAME_LIST stops)"
        if "current_kind q = TOKEN_WORD" "k = 1 \<or> k = 3" for b k stops
      proof -
        have "running (advance q)" using running_advance[OF 4(1)] that(1) by simp
        moreover have "waiting (advance q) (f\<lparr>pf_begin := b, pf_phase := k\<rparr>)"
          using len assms(3) that(2) by (auto simp: waiting_def)
        ultimately show ?thesis using push_top_moved[OF 4(3), of "advance q"] by simp
      qed
      moreover have "step_out q (close_compound (set_state ?m q) (pf_node f) ''fi'')"
        using close_out[OF 4(3)] len by simp
      ultimately show ?case
        unfolding Let_def set_state_fields by (simp add: current_word_is_kind)
    qed (use take(2) node saved in simp_all)
    with body show ?thesis
      unfolding step_if_def if_not_P[OF False] take(3) by simp
  qed
qed

lemma step_for_out:
  assumes "machine_ok m" "pm_frames m = f # fs" "pf_kind f = FRAME_FOR"
  shows "step_out (pm_state m) (step_for m f fs)"
proof (cases "pf_phase f = 0")
  case True
  note ready = start_ready[OF assms(1,2)]
  obtain n q where n: "new_node (pm_state m) AST_FOR (tok_begin (current_token (pm_state m))) = (n, q)"
    by fastforce
  have eof: "current_kind (pm_state m) \<noteq> TOKEN_EOF"
    using compound_start[OF ready(3)[OF True]] assms(3) by simp
  show ?thesis
  proof (rule node_then[OF ready(2) n])
    assume "n = GSH_AST_NONE" "outcome (pm_state m) (False, q)"
    then show "step_out (pm_state m) (step_for m f fs)"
      using True n fail_out(2) by (simp add: step_for_def Let_def)
  next
    assume q: "n \<noteq> GSH_AST_NONE" "running q" "keeps (pm_state m) q" "n < length (p_nodes q)"
      "current_token q = current_token (pm_state m)"
    let ?M = "set_top m q (f\<lparr>pf_node := n\<rparr>) fs"
    have "step_out (pm_state ?M) (and_then (on_state ?M (\<lambda>p. parse_for_header p n))
        (\<lambda>m. machine_push (set_top m (pm_state m) (f\<lparr>pf_node := n, pf_phase := 1\<rparr>) fs)
               FRAME_LIST STOP_DONE))"
    proof (rule state_then, goal_cases)
      case 1
      show ?case using parse_for_header_ok[OF q(2,4)] eof q(5) by simp
    next
      case (2 r)
      have r: "running r" "keeps q r" using 2(2,3) by simp_all
      have "frames_ready (set_state ?M r) fs"
        using frames_ready_step(1)[OF frames_ready_step(2)[OF ready(1) q(2,3)], of r] r by simp
      moreover have "waiting r (f\<lparr>pf_node := n, pf_phase := 1\<rparr>)"
        using keeps_nodes[OF r(2) q(4)] assms(3) by (simp add: waiting_def)
      ultimately show ?case
        using push_top[of "set_state ?M r" fs r] r(1) by simp
    qed
    then show "step_out q (step_for m f fs)"
      using True n q(1) by (simp add: step_for_def Let_def)
  qed
next
  case False
  note ready = start_ready[OF assms(1,2)]
  have node: "pf_node f < length (p_nodes (pm_state m))"
    using ready(4)[OF False] assms(3) by (simp add: waiting_def)
  show ?thesis
    unfolding step_for_def if_not_P[OF False]
  proof (rule take_child_out[OF assms(1,2) _ node], goal_cases)
    case 1
    show ?case using ready(5)[OF False] assms(3) by simp
  next
    case (2 q)
    from close_out[OF 2(3)] keeps_nodes[OF 2(2) node] show ?case by simp
  qed
qed

lemma case_next_out:
  assumes "frames_ready m fs" "pf_kind f = FRAME_CASE" "pf_node f < length (p_nodes (pm_state m))"
    "pm_returned m \<Longrightarrow> pm_value m < length (p_nodes (pm_state m)) \<and> length fs + 1 < PARSE_FRAME_CAP"
  shows "step_out (pm_state m) (case_next m f fs)"
proof (cases "current_word_is (pm_state m) ''esac''")
  case True
  with close_out[OF assms(1,3)] show ?thesis by (simp add: case_next_def)
next
  case False
  obtain n q where n: "new_node (pm_state m) AST_CASE_ITEM (tok_begin (current_token (pm_state m))) = (n, q)"
    by fastforce
  have run: "running (pm_state m)" using assms(1) by (simp add: frames_ready_def)
  let ?f = "f\<lparr>pf_saved := n\<rparr>"
  show ?thesis
  proof (rule node_then[OF run n])
    assume "n = GSH_AST_NONE" "outcome (pm_state m) (False, q)"
    then show "step_out (pm_state m) (case_next m f fs)"
      using False n fail_out(2) by (simp add: case_next_def Let_def)
  next
    assume q: "n \<noteq> GSH_AST_NONE" "running q" "keeps (pm_state m) q" "n < length (p_nodes q)"
    let ?M = "set_top m q ?f fs"
    have "step_out (pm_state ?M) (and_then (on_state ?M (parse_case_patterns n)) (\<lambda>m.
                 let p = pm_state m
                 in if \<not> list_stops p STOP_CASE_ITEM \<and> current_kind p \<noteq> TOKEN_EOF
                    then machine_push (set_top m p (?f\<lparr>pf_phase := 2\<rparr>) fs) FRAME_LIST STOP_CASE_ITEM
                    else (True, set_top m p (?f\<lparr>pf_phase := 3\<rparr>) fs)))"
    proof (rule state_then, goal_cases)
      case 1
      show ?case using parse_case_patterns_ok[OF q(2,4)] by simp
    next
      case (2 r)
      have r: "running r" "keeps q r" using 2(2,3) by simp_all
      note ready = frames_ready_step(1)[OF frames_ready_step(2)[OF assms(1) q(2,3)], of r "f\<lparr>pf_saved := n\<rparr>"]
      have len: "n < length (p_nodes r)" "pf_node f < length (p_nodes r)"
        using keeps_nodes[OF r(2) q(4)] keeps_nodes[OF keeps_trans[OF q(3) r(2)] assms(3)] by simp_all
      have w: "waiting r (?f\<lparr>pf_phase := k\<rparr>)" if "k \<noteq> 0" for k
        using len assms(2) that by (simp add: waiting_def)
      have "step_out r (machine_push (set_top (set_state ?M r) r (?f\<lparr>pf_phase := 2\<rparr>) fs)
          FRAME_LIST STOP_CASE_ITEM)"
        using ready r w[of 2] push_top[of "set_state ?M r" fs r] by simp
      moreover have "step_out r (True, set_top (set_state ?M r) r (?f\<lparr>pf_phase := 3\<rparr>) fs)"
      proof -
        have "pm_returned m \<Longrightarrow> pm_value m < length (p_nodes r)"
          using assms(4) keeps_nodes[OF keeps_trans[OF q(3) r(2)]] by blast
        moreover have "length fs < PARSE_FRAME_CAP" "\<forall>g \<in> set fs. waiting r g"
          using ready r by (simp_all add: frames_ready_def)
        ultimately show ?thesis
          using r w[of 3] assms(2,4) by (auto simp: step_out_def machine_ok_def top_ok_def)
      qed
      ultimately show ?case by (simp add: Let_def)
    qed
    then show "step_out q (case_next m f fs)"
      using False n q(1) by (simp add: case_next_def Let_def)
  qed
qed

lemma case_finish_out:
  assumes "frames_ready m fs" "pf_kind f = FRAME_CASE" "pf_node f < length (p_nodes (pm_state m))"
    "pf_saved f < length (p_nodes (pm_state m))"
    "pm_returned m \<Longrightarrow> pm_value m < length (p_nodes (pm_state m)) \<and> length fs + 1 < PARSE_FRAME_CAP"
  shows "step_out (pm_state m) (case_finish m f fs)"
  unfolding case_finish_def
proof (rule state_then, goal_cases)
  case 1
  show ?case using finish_case_item_ok[OF _ assms(3,4)] assms(1) by (simp add: frames_ready_def)
next
  case (2 q)
  let ?f = "f\<lparr>pf_phase := 1\<rparr>"
  note r = frames_ready_step[OF assms(1) 2(2,3)]
  have top: "frames_ready (set_top (set_state m q) q ?f fs) fs"
    using frames_ready_step(2)[OF r(1), of q ?f] 2(2) by simp
  have "pm_returned m \<Longrightarrow> pm_value m < length (p_nodes q)"
    using assms(5) 2(3) by (auto intro: keeps_nodes)
  then show ?case
    using case_next_out[OF top, of ?f] assms(2,3,5) keeps_nodes[OF 2(3) assms(3)]
    by (simp add: Let_def)
qed

lemma step_case_out:
  assumes "machine_ok m" "pm_frames m = f # fs" "pf_kind f = FRAME_CASE"
  shows "step_out (pm_state m) (step_case m f fs)"
proof (cases "pf_phase f = 0")
  case True
  note ready = start_ready[OF assms(1,2)]
  have ret: "\<not> pm_returned m" using assms(1,2) True by (simp add: machine_ok_def top_ok_def)
  obtain n q where n: "new_node (pm_state m) AST_CASE (tok_begin (current_token (pm_state m))) = (n, q)"
    by fastforce
  have eof: "current_kind (pm_state m) \<noteq> TOKEN_EOF"
    using compound_start[OF ready(3)[OF True]] assms(3) by simp
  let ?M = "set_top m q (f\<lparr>pf_node := n\<rparr>) fs"
  let ?f = "f\<lparr>pf_node := n, pf_phase := 1\<rparr>"
  let ?k = "\<lambda>m. case_next (set_top m (pm_state m) ?f fs) ?f fs"
  have unfolded: "step_case m f fs = and_then (on_state ?M (parse_case_header n)) ?k"
    using True n by (simp add: step_case_def Let_def)
  have "current_token q = current_token (pm_state m)" if "keeps (pm_state m) q"
    using new_node_position[OF n] that by (intro current_token_cong) (simp_all add: keeps_def)
  note same = this
  show ?thesis
  proof (rule node_then[OF ready(2) n])
    assume q: "n = GSH_AST_NONE" "outcome (pm_state m) (False, q)"
    then have "outcome q (parse_case_header n q)"
      using same eof by (intro parse_case_header_ok) (auto simp: outcome_False)
    then have "outcome (pm_state m) (parse_case_header n q)"
      using q(2) by (auto simp: outcome_False intro: outcome_weaken)
    moreover have "\<not> fst (parse_case_header n q)"
      using q(1) by (simp add: parse_case_header_def Let_def)
    ultimately have "step_out (pm_state m) (and_then (on_state ?M (parse_case_header n)) ?k)"
      by (cases "parse_case_header n q") (simp add: on_state_def fail_out)
    then show "step_out (pm_state m) (step_case m f fs)" by (simp only: unfolded)
  next
    assume q: "n \<noteq> GSH_AST_NONE" "running q" "keeps (pm_state m) q" "n < length (p_nodes q)"
    have "step_out (pm_state ?M) (and_then (on_state ?M (parse_case_header n)) ?k)"
    proof (rule state_then, goal_cases)
      case 1
      show ?case using parse_case_header_ok[of q n] q same[OF q(3)] eof by simp
    next
      case (2 r)
      have r: "running r" "keeps q r" using 2(2,3) by simp_all
      have R: "frames_ready (set_state ?M r) fs"
        using frames_ready_step(1)[OF frames_ready_step(2)[OF ready(1) q(2,3)], of r] r by simp
      have "frames_ready (set_top (set_state ?M r) r ?f fs) fs"
        using frames_ready_step(2)[OF R, of r] r by simp
      from case_next_out[OF this, of ?f] ret assms(3) keeps_nodes[OF r(2) q(4)]
      show ?case by simp
    qed
    then show "step_out q (step_case m f fs)" by (simp only: unfolded set_top_fields)
  qed
next
  case False
  note ready = start_ready[OF assms(1,2)]
  note w = ready(4)[OF False]
  have node: "pf_node f < length (p_nodes (pm_state m))"
    using w assms(3) by (simp add: waiting_def)
  have val: "pm_returned m \<Longrightarrow>
      pm_value m < length (p_nodes (pm_state m)) \<and> length fs + 1 < PARSE_FRAME_CAP"
    using assms(1,2) by (simp add: machine_ok_def)
  consider (body) "pf_phase f = 2" | (item) "pf_phase f = 3" | (other) "pf_phase f \<noteq> 2" "pf_phase f \<noteq> 3"
    by blast
  then show ?thesis
  proof cases
    case body
    have saved: "pf_saved f < length (p_nodes (pm_state m))"
      using w assms(3) body by (simp add: waiting_def)
    have "step_out (pm_state m) (take_child m (pf_saved f) (\<lambda>body m.
         let f = f\<lparr>pf_phase := 3\<rparr> in case_finish (set_top m (pm_state m) f fs) f fs))"
    proof (rule take_child_out[OF assms(1,2) _ saved], goal_cases)
      case 1
      show ?case using ready(5)[OF False] body by simp
    next
      case (2 q)
      have "frames_ready (set_top (set_state (m\<lparr>pm_returned := False\<rparr>) q) q (f\<lparr>pf_phase := 3\<rparr>) fs) fs"
        using frames_ready_step(2)[OF 2(3), of q] 2(1) by simp
      from case_finish_out[OF this, of "f\<lparr>pf_phase := 3\<rparr>"] assms(3)
        keeps_nodes[OF 2(2) node] keeps_nodes[OF 2(2) saved]
      show ?case by (simp add: Let_def)
    qed
    with body show ?thesis by (simp add: step_case_def)
  next
    case item
    have "pf_saved f < length (p_nodes (pm_state m))"
      using w assms(3) item by (simp add: waiting_def)
    from case_finish_out[OF ready(1) assms(3) node this val] item show ?thesis
      by (simp add: step_case_def)
  next
    case other
    from case_next_out[OF ready(1) assms(3) node val] other False show ?thesis
      by (simp add: step_case_def)
  qed
qed

lemma function_tokens:
  assumes "running p" "command_is_function p" "keeps p q" "running q" "p_position q = p_position p"
  shows "running (advance (advance (advance q)))"
proof -
  have kinds: "current_kind p = TOKEN_WORD" "tok_kind (token_at p 1) = TOKEN_LPAREN"
    "tok_kind (token_at p 2) = TOKEN_RPAREN"
    using assms(2) by (simp_all add: command_is_function_def)
  have "token_at p 1 = p_tokens p ! (p_position p + 1)" "token_at p 2 = p_tokens p ! (p_position p + 2)"
    using token_at_inside(2)[of p 1] token_at_inside(2)[of p 2] assms(1) kinds by simp_all
  then have "current_kind q = TOKEN_WORD" "current_kind (advance q) = TOKEN_LPAREN"
    "current_kind (advance (advance q)) = TOKEN_RPAREN"
    using kinds assms(3,5) by (simp_all add: current_token_def keeps_def)
  then show ?thesis using running_advance[of q] running_advance[of "advance q"]
      running_advance[of "advance (advance q)"] assms(4) by simp
qed

lemma step_function_out:
  assumes "machine_ok m" "pm_frames m = f # fs" "pf_kind f = FRAME_FUNCTION"
  shows "step_out (pm_state m) (step_function m f fs)"
proof (cases "pf_phase f = 0")
  case True
  note ready = start_ready[OF assms(1,2)]
  obtain n q where n: "new_node (pm_state m) AST_FUNCTION (tok_begin (current_token (pm_state m))) = (n, q)"
    by fastforce
  have fn: "command_is_function (pm_state m)"
    using ready(3)[OF True] assms(3) by (simp add: starts_def)
  let ?M = "set_top m q (f\<lparr>pf_node := n\<rparr>) fs"
  let ?k = "\<lambda>m. let p = skip_linebreak (advance (advance (advance (pm_state m))))
                 in case compound_frame_kind p of
                      None \<Rightarrow> (False, set_state m (fail_unexpected p))
                    | Some kind \<Rightarrow>
                        machine_push (set_top m p (f\<lparr>pf_node := n, pf_phase := 1\<rparr>) fs) kind 0"
  show ?thesis
  proof (rule node_then[OF ready(2) n])
    assume "n = GSH_AST_NONE" "outcome (pm_state m) (False, q)"
    then show "step_out (pm_state m) (step_function m f fs)"
      using True n fail_out(2) by (simp add: step_function_def Let_def)
  next
    assume q: "n \<noteq> GSH_AST_NONE" "running q" "keeps (pm_state m) q" "n < length (p_nodes q)"
      "p_position q = p_position (pm_state m)"
    have "step_out (pm_state ?M) (and_then (on_state ?M (\<lambda>p. append_word p n (current_token p))) ?k)"
    proof (rule state_then, goal_cases)
      case 1
      show ?case using append_word_ok[OF q(2,4)] by simp
    next
      case (2 r)
      have r: "running r" "keeps q r" "p_position r = p_position q"
        using 2 append_word_ok[OF q(2,4)] by simp_all
      define s where "s = skip_linebreak (advance (advance (advance r)))"
      have a: "running (advance (advance (advance r)))"
        using function_tokens[OF ready(2) fn keeps_trans[OF q(3) r(2)] r(1)] r(3) q(5) by simp
      have "keeps r (advance (advance (advance r)))" by (simp add: keeps_def)
      then have s: "running s" "keeps r s"
        using skip_linebreak_ok[of "advance (advance (advance r))"] a keeps_trans
        by (auto simp: s_def)
      have R: "frames_ready (set_state ?M r) fs"
        using frames_ready_step(1)[OF frames_ready_step(2)[OF ready(1) q(2,3)], of r] r by simp
      have w: "waiting s (f\<lparr>pf_node := n, pf_phase := 1\<rparr>)"
        using keeps_nodes[OF keeps_trans[OF r(2) s(2)] q(4)] assms(3) by (simp add: waiting_def)
      have "step_out s (?k (set_state ?M r))"
      proof (cases "compound_frame_kind s")
        case None
        have "step_out s (False, set_state (set_state ?M r) (fail_unexpected s))"
          using s(1) by (intro fail_out(1) fail_unexpected_ok) simp
        with None show ?thesis by (simp add: Let_def s_def[symmetric])
      next
        case (Some kind)
        have "step_out s (machine_push
            (set_top (set_state ?M r) s (f\<lparr>pf_node := n, pf_phase := 1\<rparr>) fs) kind 0)"
          using R s w starts_compound[OF Some] by (intro push_top) simp_all
        with Some show ?thesis by (simp add: Let_def s_def[symmetric])
      qed
      then show ?case using s(2) by (rule step_out_weaken)
    qed
    then show "step_out q (step_function m f fs)"
      using True n q(1) by (simp add: step_function_def Let_def)
  qed
next
  case False
  note ready = start_ready[OF assms(1,2)]
  have node: "pf_node f < length (p_nodes (pm_state m))"
    using ready(4)[OF False] assms(3) by (simp add: waiting_def)
  show ?thesis
    unfolding step_function_def if_not_P[OF False]
  proof (rule take_child_out[OF assms(1,2) _ node], goal_cases)
    case 1
    show ?case using ready(5)[OF False] assms(3) by simp
  next
    case (2 q)
    from complete_out[OF 2(3)] keeps_nodes[OF 2(2) node] show ?case by simp
  qed
qed

lemma machine_step_out:
  assumes "machine_ok m" "pm_frames m \<noteq> []"
  shows "step_out (pm_state m) (machine_step m)"
proof -
  obtain f fs where f: "pm_frames m = f # fs" using assms(2) by (cases "pm_frames m") auto
  note step = step_list_out step_and_or_out step_pipeline_out step_command_out step_group_out
    step_loop_out step_if_out step_for_out step_case_out step_function_out
  show ?thesis using step[OF assms(1) f] by (cases "pf_kind f") (simp_all add: machine_step_def f)
qed

section \<open>Whole parses\<close>

lemma run_machine_out:
  "machine_ok m \<Longrightarrow> run_machine k m = (b, m') \<Longrightarrow> step_out (pm_state m) (b, m')"
proof (induction k m arbitrary: b m' rule: run_machine.induct)
  case (1 k m)
  show ?case
  proof (cases "k < PARSE_MACHINE_STEP_CAP \<and> pm_frames m \<noteq> []")
    case True
    obtain c n where step: "machine_step m = (c, n)" by fastforce
    note out = machine_step_out[OF "1.prems"(1) conjunct2[OF True], unfolded step]
    show ?thesis
    proof (cases c)
      case c: True
      with "1.prems"(2) step True have "run_machine (Suc k) n = (b, m')"
        by (subst (asm) run_machine.simps) simp
      moreover have "machine_ok n" "keeps (pm_state m) (pm_state n)"
        using out c by (simp_all add: step_out_def)
      ultimately show ?thesis
        using "1.IH"[OF True step[symmetric]] c step_out_weaken by simp
    next
      case False
      with "1.prems"(2) step True out show ?thesis by (subst (asm) run_machine.simps) simp
    qed
  next
    case False
    with "1.prems"(2) have "b" "m' = m" by (auto simp: run_machine.simps[of k m])
    with "1.prems"(1) show ?thesis by (simp add: step_out_def machine_ok_def)
  qed
qed

lemma parse_syntax_ok:
  assumes "running p" "parse_syntax p = (n, q)"
  shows "outcome p (n \<noteq> GSH_AST_NONE, q) \<and> (n \<noteq> GSH_AST_NONE \<longrightarrow> n < length (p_nodes q))"
proof -
  define m where "m = start_machine p\<lparr>pm_frames := [fresh_frame FRAME_LIST 0]\<rparr>"
  have push: "machine_push (start_machine p) FRAME_LIST 0 = (True, m)"
    by (simp add: machine_push_def start_machine_def m_def)
  have "machine_ok m" "pm_state m = p"
    using assms(1) by (simp_all add: m_def machine_ok_def top_ok_def start_machine_def fresh_frame_def)
  moreover obtain b m' where run: "run_machine 0 m = (b, m')" by fastforce
  ultimately have out: "step_out p (b, m')" using run_machine_out by fastforce
  show ?thesis
  proof (cases "b \<and> pm_frames m' = [] \<and> pm_returned m'")
    case True
    then have ok: "machine_ok m'" "keeps p (pm_state m')" using out by (simp_all add: step_out_def)
    then have "pm_value m' < length (p_nodes (pm_state m'))" "running (pm_state m')"
      using True by (simp_all add: machine_ok_def)
    moreover from this have "pm_value m' \<noteq> GSH_AST_NONE" by (auto simp: parser_ok_def)
    moreover have "n = pm_value m'" "q = pm_state m'"
      using assms(2) push run True by (simp_all add: parse_syntax_def)
    ultimately show ?thesis using ok(2) by (simp add: outcome_True)
  next
    case False
    have p': "parser_ok (pm_state m')" "keeps p (pm_state m')" using out by (simp_all add: step_out_def)
    from False assms(2) push run have "n = GSH_AST_NONE"
      "q = (if b then fail (pm_state m') PARSE_LIMIT else pm_state m')"
      by (auto simp: parse_syntax_def split: if_splits bool.splits)
    then show ?thesis
      using p' out fail_later(2)[OF p'] by (cases b) (simp_all add: step_out_def outcome_False)
  qed
qed

definition result_ok :: "byte list \<Rightarrow> parser \<Rightarrow> bool" where
  "result_ok input p \<longleftrightarrow> parser_ok p \<and> p_input p = input \<and>
    (if p_status p = PARSE_OK then res_root (p_result p) < length (p_nodes p)
     else res_root (p_result p) = GSH_AST_NONE)"

lemma keeps_input: "keeps p q \<Longrightarrow> p_input q = p_input p"
  by (simp add: keeps_def)

lemma finish_program_ok:
  assumes "running p" "n < length (p_nodes p)"
  shows "result_ok (p_input p) (finish_program p n)"
proof -
  define q where "q = set_node_end p n (length (p_input p))"
  have f: "finish_program p n = q\<lparr>p_result := (p_result q)\<lparr>res_root := n\<rparr>\<rparr>"
    by (simp add: finish_program_def Let_def q_def)
  have q: "running q" "keeps p q"
    using node_flags_ok(2)[OF assms(1)] node_flags_ok(4) by (simp_all add: q_def)
  have "parser_ok (finish_program p n)"
    using q(1) parser_ok_cong[of "finish_program p n" q] by (simp add: f)
  with q keeps_nodes[OF q(2) assms(2)] show ?thesis by (simp add: result_ok_def f keeps_def)
qed

lemma outcome_result:
  "outcome p (False, q) \<Longrightarrow> res_root (p_result p) = GSH_AST_NONE \<Longrightarrow> result_ok (p_input p) q"
  by (simp add: outcome_False result_ok_def keeps_def)

lemma parse_program_ok:
  assumes "running p" "res_root (p_result p) = GSH_AST_NONE"
  shows "result_ok (p_input p) (parse_program p)"
proof -
  obtain n q where n: "new_node p AST_PROGRAM 0 = (n, q)" by fastforce
  from assms(1) n show ?thesis
  proof (cases rule: new_node_ok)
    case full
    with n outcome_result[OF full(2) assms(2)] show ?thesis by (simp add: parse_program_def)
  next
    case node
    define r where "r = skip_linebreak q"
    have r: "running r" "keeps p r" "n < length (p_nodes r)"
      using skip_linebreak_ok[of q] node keeps_trans[OF node(4)] keeps_nodes[of q r, OF _ node(1)]
      by (auto simp: r_def)
    obtain body s where s: "parse_syntax r = (body, s)" by fastforce
    note syn = parse_syntax_ok[OF r(1) s]
    show ?thesis
    proof (cases "current_kind r = TOKEN_EOF")
      case True
      with n node finish_program_ok[OF r(1,3)] keeps_input[OF r(2)] show ?thesis
        by (simp add: parse_program_def Let_def r_def)
    next
      case eof: False
      show ?thesis
      proof (cases "body = GSH_AST_NONE")
        case True
        have "outcome p (False, s)" using syn True outcome_weaken[OF _ r(2)] by simp
        from outcome_result[OF this assms(2)] True eof n node s show ?thesis
          by (simp add: parse_program_def Let_def r_def)
      next
        case False
        then have k: "running s" "keeps p s" "body < length (p_nodes s)" "n < length (p_nodes s)"
          using syn keeps_trans[OF r(2)] keeps_nodes[OF _ r(3)] by (auto simp: outcome_def)
        obtain b t where t: "append_child s n body = (b, t)" by fastforce
        note child = append_child_ok[OF k(1,4,3), unfolded t]
        have pt: "outcome p (b, t)" using child k(2) by (rule outcome_weaken)
        define u where "u = skip_linebreak t"
        have tail: "parse_program p = (if \<not> b then t
            else if current_kind u \<noteq> TOKEN_EOF then fail u PARSE_SYNTAX else finish_program u n)"
          using n node(2) eof False s t
          by (simp add: parse_program_def Let_def r_def[symmetric] u_def split: bool.splits)
        show ?thesis
        proof (cases b)
          case False
          with pt outcome_result[OF _ assms(2)] tail show ?thesis by simp
        next
          case True
          then have t2: "running t" "keeps p t" "n < length (p_nodes t)"
            using pt child keeps_nodes[OF _ k(4)] by (auto simp: outcome_def)
          then have u: "running u" "keeps p u" "n < length (p_nodes u)"
            using skip_linebreak_ok[of t] keeps_trans[OF t2(2)] by (simp_all add: u_def)
          have "result_ok (p_input p) (fail u PARSE_SYNTAX)"
            using outcome_result[OF fail_later(2)[OF _ u(2)] assms(2)] u(1) by simp
          with finish_program_ok[OF u(1,3)] keeps_input[OF u(2)] tail True show ?thesis by simp
        qed
      qed
    qed
  qed
qed

lemma initial_parser_fields [simp]:
  "p_input (initial_parser s) = s" "p_tokens (initial_parser s) = []" "p_nodes (initial_parser s) = []"
  "p_words (initial_parser s) = []" "p_redirects (initial_parser s) = []"
  "p_heredocs (initial_parser s) = []" "p_command_words (initial_parser s) = []"
  "p_position (initial_parser s) = 0" "p_status (initial_parser s) = PARSE_OK"
  "res_root (p_result (initial_parser s)) = GSH_AST_NONE"
  by (simp_all add: initial_parser_def)

text \<open>The storage of any parse, also of one that fails: the six arrays are within their capacities,
  and every word, redirection target and here-document body is a span of the input.\<close>

definition storage_within :: "gsh_parse_storage \<Rightarrow> bool" where
  "storage_within s \<longleftrightarrow>
    length (ps_tokens s) \<le> GSH_PARSE_TOKEN_CAP \<and> length (ps_nodes s) \<le> GSH_PARSE_NODE_CAP \<and>
    length (ps_words s) \<le> GSH_PARSE_WORD_CAP \<and> length (ps_redirects s) \<le> GSH_PARSE_REDIRECT_CAP \<and>
    length (ps_heredocs s) \<le> GSH_PARSE_REDIRECT_CAP \<and> length (ps_command_words s) \<le> GSH_PARSE_NODE_CAP"

definition storage_spans :: "byte list \<Rightarrow> gsh_parse_storage \<Rightarrow> bool" where
  "storage_spans input s \<longleftrightarrow>
    (\<forall>w \<in> set (ps_words s). span_in input w) \<and> (\<forall>w \<in> set (ps_command_words s). span_in input w) \<and>
    (\<forall>r \<in> set (ps_redirects s). span_in input (rd_target r) \<and> span_in input (rd_body r)) \<and>
    storage_within s"

lemma parser_ok_spans: "parser_ok p \<Longrightarrow> storage_spans (p_input p) (p_storage p)"
  by (simp add: parser_ok_def spans_ok_def storage_spans_def storage_within_def)

lemma tokenize_initial:
  assumes "tokenize (initial_parser s) = (st, p)"
  shows "res_root (p_result p) = GSH_AST_NONE" "p_position p = 0" "p_nodes p = []"
    "st = PARSE_OK \<Longrightarrow> stream_done p" "st = PARSE_OK \<Longrightarrow> running p"
    "st = PARSE_OK \<Longrightarrow> p_input p = s" "storage_spans s (p_storage p)"
proof -
  have u: "untouched (initial_parser s) p"
    using tokenize_loop_untouched assms by (simp add: tokenize_def)
  then show "res_root (p_result p) = GSH_AST_NONE" "p_position p = 0" "p_nodes p = []"
    by (simp_all add: untouched_def)
  have done': "stream_done p \<and> p_input p = s" if "st = PARSE_OK"
    using tokenize_loop_ok assms that
    by (fastforce simp: tokenize_def stream_ok_def pending_ok_def tokens_ok_def heredocs_ok_def)
  then show "stream_done p" "p_input p = s" if "st = PARSE_OK" using that by simp_all
  show "storage_spans s (p_storage p)"
    using u by (simp add: untouched_def storage_spans_def storage_within_def arrays_fit_def)
  show "running p" if "st = PARSE_OK"
    using u done'[OF that] that
    by (auto simp: parser_ok_def tokens_closed_def stream_done_def untouched_def spans_ok_def
        span_in_def tokens_ok_def heredocs_ok_def token_ok_def)
qed

lemma set_status_fields [simp]:
  "p_storage (set_status p st) = p_storage p" "p_position (set_status p st) = p_position p"
  "res_root (p_result (set_status p st)) = res_root (p_result p)" "p_status (set_status p st) = st"
  "p_input (set_status p st) = p_input p"
  by (simp_all add: set_status_def)

lemma gsh_parse_result:
  assumes "gsh_parse s = (result, storage)"
  obtains p where "result = p_result p" "storage = p_storage p" "storage_spans s storage"
    "if res_status result = PARSE_OK then result_ok s p else res_root result = GSH_AST_NONE"
proof -
  obtain st p where p: "tokenize (initial_parser s) = (st, p)" by fastforce
  note t = tokenize_initial[OF p]
  show thesis
  proof (cases "st = PARSE_OK")
    case True
    have "parser_ok (set_status p st)"
      using t(5)[OF True] by (simp add: parser_ok_cong[of "set_status p st" p])
    then have "running (set_status p st)" using True by simp
    then have "result_ok s (parse_program (set_status p st))"
      using parse_program_ok[of "set_status p st"] t(1,6) True by simp
    moreover have "result = p_result (parse_program (set_status p st))"
      "storage = p_storage (parse_program (set_status p st))"
      using assms p True by (simp_all add: gsh_parse_def Let_def)
    ultimately show ?thesis using parser_ok_spans by (intro that) (auto simp: result_ok_def)
  next
    case False
    then have "result = p_result (set_status p st)" "storage = p_storage (set_status p st)"
      using assms p False by (simp_all add: gsh_parse_def Let_def)
    with t(1,7) False show ?thesis by (intro that[of "set_status p st"]) simp_all
  qed
qed

section \<open>Properties\<close>

text \<open>The storage a caller gets: every index of every node points into it.\<close>

definition storage_ok :: "gsh_parse_storage \<Rightarrow> bool" where
  "storage_ok s \<longleftrightarrow> storage_within s \<and>
    (\<forall>n \<in> set (ps_nodes s).
      link_ok (length (ps_nodes s)) (node_first_child n) \<and>
      link_ok (length (ps_nodes s)) (node_last_child n) \<and>
      link_ok (length (ps_nodes s)) (node_next_sibling n) \<and>
      (node_first_child n = GSH_AST_NONE \<longleftrightarrow> node_last_child n = GSH_AST_NONE) \<and>
      node_first_word n + node_word_count n \<le> length (ps_words s) \<and>
      node_first_redirect n + node_redirect_count n \<le> length (ps_redirects s))"

lemma parser_ok_storage: "parser_ok p \<Longrightarrow> storage_ok (p_storage p)"
  by (simp add: parser_ok_def storage_ok_def storage_within_def spans_ok_def node_ok_def)

text \<open>C2. Every step of the syntax machine is safe. From a machine that satisfies the invariant
  (the cursor inside the token array, every frame's node in the arena, a continued frame's child
  returned, all storage within its capacities) a step either gives such a machine again or stops
  with an error recorded; the tokens and the input are never changed and no node is lost. So the
  code never reads past the token array, never follows a node that does not exist, and never
  stops without saying why.\<close>

theorem machine_step_safe:
  assumes "machine_ok m" and "pm_frames m \<noteq> []"
  shows "keeps (pm_state m) (pm_state (snd (machine_step m))) \<and>
    parser_ok (pm_state (snd (machine_step m))) \<and>
    (if fst (machine_step m) then machine_ok (snd (machine_step m))
     else p_status (pm_state (snd (machine_step m))) \<noteq> PARSE_OK)"
  using machine_step_out[OF assms] by (simp add: step_out_def)

definition eof_machine :: parse_machine where
  "eof_machine =
    start_machine ((initial_parser [])\<lparr>p_storage :=
      (p_storage (initial_parser []))\<lparr>ps_tokens := [blank_token]\<rparr>\<rparr>)
    \<lparr>pm_frames := [fresh_frame FRAME_LIST 0]\<rparr>"

lemma eof_machine_ok: "machine_ok eof_machine" "pm_frames eof_machine \<noteq> []"
  by (simp_all add: eof_machine_def machine_ok_def top_ok_def start_machine_def fresh_frame_def
      initial_parser_def parser_ok_def spans_ok_def tokens_closed_def blank_token_def)

theorem machine_step_safe_witness:
  "keeps (pm_state eof_machine) (pm_state (snd (machine_step eof_machine)))"
  using machine_step_safe[OF eof_machine_ok] by blast

text \<open>C1. \<open>gsh_parse\<close> reports truthfully: for every input, the status is \<open>ok\<close> exactly when a root
  node is returned, and then the root is a node of the arena and every index in the arena (the
  children and siblings of a node, its words and its redirections) points into the storage. Whether
  the parse succeeds or not, all six arrays of the storage (tokens, nodes, words, redirections,
  here-documents, command words) are within their capacities, and every word, redirection target
  and here-document body is a span of the input.\<close>

theorem gsh_parse_sound:
  assumes "gsh_parse input = (result, storage)"
  shows "(res_status result = PARSE_OK \<longleftrightarrow> res_root result \<noteq> GSH_AST_NONE) \<and>
    (res_status result = PARSE_OK \<longrightarrow>
       res_root result < length (ps_nodes storage) \<and> storage_ok storage) \<and>
    storage_spans input storage"
  using assms
proof (rule gsh_parse_result)
  fix p assume p: "result = p_result p" "storage = p_storage p" "storage_spans input storage"
    "if res_status result = PARSE_OK then result_ok input p else res_root result = GSH_AST_NONE"
  show ?thesis
  proof (cases "res_status result = PARSE_OK")
    case True
    then have "parser_ok p" "res_root result < length (ps_nodes storage)"
      using p by (simp_all add: result_ok_def)
    moreover have "res_root result \<noteq> GSH_AST_NONE"
      using calculation p by (auto simp: parser_ok_def)
    ultimately show ?thesis using True parser_ok_storage p(2,3) by simp
  next
    case False
    with p(3,4) show ?thesis by simp
  qed
qed

theorem gsh_parse_sound_witness:
  "res_status simple_result = PARSE_OK \<and> res_root simple_result < length (ps_nodes ls_storage) \<and>
    storage_ok ls_storage \<and> storage_spans ''ls -l '' ls_storage"
proof -
  have "res_status simple_result = PARSE_OK" by (simp add: simple_result_def)
  with gsh_parse_sound[OF parse_ls] show ?thesis by blast
qed

end
