(* ===== verification/Positionals.thy ===== *)
theory Positionals
  imports GshPrelude
begin

text \<open>
  The positional parameters of \<open>src/positional_parameters.c\<close>: one text arena holding the
  NUL-terminated values, an offset per value, and a window (\<open>start\<close>, \<open>count\<close>) that
  \<open>shift\<close> moves. A C string argument is the list of its bytes without the final NUL; the
  store's own text is the raw byte array. A store the code can be handed has its two arrays
  at their declared sizes (\<open>pos_arrays\<close>). Pointers are not null.
\<close>

section \<open>The store and its operations\<close>

abbreviation (input) GSH_POSITIONAL_CAP :: nat where "GSH_POSITIONAL_CAP \<equiv> 128"
abbreviation (input) GSH_POSITIONAL_TEXT_CAP :: nat where "GSH_POSITIONAL_TEXT_CAP \<equiv> 16384"
abbreviation (input) GSH_POSITIONAL_VERSION :: uint32 where "GSH_POSITIONAL_VERSION \<equiv> 1"

record gsh_positional_store =
  pos_version :: uint32
  pos_count :: uint32
  pos_start :: uint32
  pos_text_used :: uint32
  pos_offsets :: "16 word list"
  pos_text :: "byte list"

definition gsh_positionals_initialize :: "gsh_positional_store \<Rightarrow> gsh_positional_store" where
  "gsh_positionals_initialize s =
    s\<lparr>pos_version := GSH_POSITIONAL_VERSION, pos_count := 0, pos_start := 0, pos_text_used := 0\<rparr>"

definition strnlen :: "byte list \<Rightarrow> nat \<Rightarrow> nat" where
  "strnlen s n = min (length s) n"

text \<open>The measuring loop of \<open>gsh_positionals_assign\<close>; \<open>None\<close> where a value does not fit.\<close>

fun measure_values :: "nat \<Rightarrow> byte list list \<Rightarrow> nat list option" where
  "measure_values used [] = Some []"
| "measure_values used (v # vs) =
    (let remaining = GSH_POSITIONAL_TEXT_CAP - used;
         len = strnlen v remaining
     in if len = remaining then None
        else map_option (Cons len) (measure_values (used + len + 1) vs))"

fun store_values ::
  "gsh_positional_store \<Rightarrow> nat \<Rightarrow> (byte list \<times> nat) list \<Rightarrow> gsh_positional_store" where
  "store_values s index [] = s"
| "store_values s index ((v, len) # rest) =
    store_values
      (s\<lparr>pos_offsets := (pos_offsets s)[index := ucast (pos_text_used s)],
         pos_text := copy_bytes (pos_text s) (unat (pos_text_used s)) (take (len + 1) (v @ [NUL])),
         pos_text_used := pos_text_used s + (of_nat len + 1)\<rparr>)
      (Suc index) rest"

definition gsh_positionals_assign ::
  "gsh_positional_store \<Rightarrow> byte list list \<Rightarrow> errno + gsh_positional_store" where
  "gsh_positionals_assign s values =
    (if GSH_POSITIONAL_CAP < length values then Inl E2BIG
     else (case measure_values 0 values of
       None \<Rightarrow> Inl E2BIG
     | Some lengths \<Rightarrow>
         (let s = store_values (gsh_positionals_initialize s) 0 (zip values lengths)
          in Inr (s\<lparr>pos_count := of_nat (length values)\<rparr>))))"

definition gsh_positionals_shift ::
  "gsh_positional_store \<Rightarrow> nat \<Rightarrow> errno + gsh_positional_store" where
  "gsh_positionals_shift s amount =
    (if unat (pos_count s) < amount then Inl EINVAL
     else if amount = unat (pos_count s) then Inr (gsh_positionals_initialize s)
     else Inr (s\<lparr>pos_start := pos_start s + of_nat amount,
                 pos_count := pos_count s - of_nat amount\<rparr>))"

definition gsh_positionals_count :: "gsh_positional_store \<Rightarrow> nat" where
  "gsh_positionals_count s = unat (pos_count s)"

text \<open>The string a pointer into the text reads.\<close>

definition c_string :: "byte list \<Rightarrow> byte list" where
  "c_string s = takeWhile (\<lambda>b. b \<noteq> NUL) s"

definition gsh_positionals_view :: "gsh_positional_store \<Rightarrow> byte list list" where
  "gsh_positionals_view s =
    map (\<lambda>index. c_string (drop (unat (pos_offsets s ! (unat (pos_start s) + index))) (pos_text s)))
      [0..<gsh_positionals_count s]"

definition gsh_positionals_validate :: "gsh_positional_store \<Rightarrow> bool" where
  "gsh_positionals_validate s \<longleftrightarrow>
    pos_version s = GSH_POSITIONAL_VERSION \<and> unat (pos_count s) \<le> GSH_POSITIONAL_CAP \<and>
    unat (pos_start s) \<le> GSH_POSITIONAL_CAP - unat (pos_count s) \<and>
    unat (pos_text_used s) \<le> GSH_POSITIONAL_TEXT_CAP \<and>
    (\<forall>index \<in> set [0..<unat (pos_count s)].
       let offset = unat (pos_offsets s ! (unat (pos_start s) + index))
       in offset < unat (pos_text_used s) \<and>
          NUL \<in> set (slice (pos_text s) offset (unat (pos_text_used s))))"

section \<open>Assigning and reading back\<close>

definition pos_arrays :: "gsh_positional_store \<Rightarrow> bool" where
  "pos_arrays s \<longleftrightarrow> length (pos_offsets s) = GSH_POSITIONAL_CAP \<and>
    length (pos_text s) = GSH_POSITIONAL_TEXT_CAP"

definition terminated :: "byte list list \<Rightarrow> byte list" where
  "terminated values = concat (map (\<lambda>v. v @ [NUL]) values)"

lemma terminated_simps [simp]:
  "terminated [] = []" "terminated (v # vs) = v @ NUL # terminated vs"
  by (simp_all add: terminated_def)

lemma measure_values_spec:
  "used \<le> GSH_POSITIONAL_TEXT_CAP \<Longrightarrow>
    measure_values used vs =
      (if used + length (terminated vs) \<le> GSH_POSITIONAL_TEXT_CAP
       then Some (map length vs) else None)"
proof (induction vs arbitrary: used)
  case (Cons v vs)
  show ?case
  proof (cases "used + length v < GSH_POSITIONAL_TEXT_CAP")
    case True
    with Cons.IH[of "used + length v + 1"] show ?thesis
      by (auto simp: strnlen_def Let_def)
  qed (use Cons.prems in \<open>auto simp: strnlen_def Let_def min_def\<close>)
qed simp

lemma store_values_spec:
  assumes "take (length pre) (pos_text s) = pre" "unat (pos_text_used s) = length pre"
    "length pre + length (terminated vs) \<le> GSH_POSITIONAL_TEXT_CAP"
    "i + length vs \<le> GSH_POSITIONAL_CAP" "pos_arrays s"
    "r = store_values s i (zip vs (map length vs))"
  shows "pos_arrays r \<and> unat (pos_text_used r) = length pre + length (terminated vs) \<and>
    take (unat (pos_text_used r)) (pos_text r) = pre @ terminated vs \<and>
    pos_version r = pos_version s \<and> pos_start r = pos_start s \<and>
    (\<forall>j < i. pos_offsets r ! j = pos_offsets s ! j) \<and>
    (\<forall>j < length vs. unat (pos_offsets r ! (i + j)) = length pre + length (terminated (take j vs)))"
  using assms
proof (induction vs arbitrary: s i pre)
  case Nil
  then show ?case by simp
next
  case (Cons v vs)
  let ?s = "s\<lparr>pos_offsets := (pos_offsets s)[i := ucast (pos_text_used s)],
     pos_text := copy_bytes (pos_text s) (unat (pos_text_used s)) (take (length v + 1) (v @ [NUL])),
     pos_text_used := pos_text_used s + (of_nat (length v) + 1)\<rparr>"
  let ?pre = "pre @ v @ [NUL]"
  have len: "length pre + length v < 16384"
    using Cons.prems(3) by simp
  have used: "unat (pos_text_used ?s) = length ?pre"
    using len Cons.prems(2)
    by (simp add: unat_word_ariths unat_of_nat)
  have offset: "unat (ucast (pos_text_used s) :: 16 word) = length pre"
    using len Cons.prems(2) by (simp add: unsigned_ucast_eq unsigned_take_bit_eq take_bit_eq_mod)
  have arrays: "pos_arrays ?s"
    using Cons.prems len by (simp add: pos_arrays_def copy_bytes_def)
  have taken: "take (length ?pre) (pos_text ?s) = ?pre"
    using Cons.prems len by (simp add: copy_bytes_def pos_arrays_def)
  have run: "r = store_values ?s (Suc i) (zip vs (map length vs))"
    using Cons.prems(6) by simp
  have "length ?pre + length (terminated vs) \<le> 16384" "Suc i + length vs \<le> 128"
    using Cons.prems by simp_all
  note IH = Cons.IH[OF taken used this(1) this(2) arrays run]
  have i: "pos_offsets r ! i = ucast (pos_text_used s)"
    using IH Cons.prems(4,5) by (simp add: pos_arrays_def)
  have "unat (pos_offsets r ! (i + j)) = length pre + length (terminated (take j (v # vs)))"
    if "j < length (v # vs)" for j
    using that IH i offset by (cases j) auto
  with IH show ?case by auto
qed

lemma c_string_terminated:
  "NUL \<notin> set v \<Longrightarrow> c_string (v @ NUL # r) = v"
  by (auto simp: c_string_def takeWhile_append)

lemma drop_terminated:
  "j < length vs \<Longrightarrow> drop (length (terminated (take j vs))) (terminated vs) =
    vs ! j @ NUL # terminated (drop (Suc j) vs)"
proof (induction j arbitrary: vs)
  case (Suc j)
  then show ?case by (cases vs) auto
qed (auto simp: neq_Nil_conv)

definition fits :: "byte list list \<Rightarrow> bool" where
  "fits values \<longleftrightarrow> length values \<le> GSH_POSITIONAL_CAP \<and>
    length (terminated values) \<le> GSH_POSITIONAL_TEXT_CAP"

lemma assign_fits:
  assumes "fits values" "pos_arrays s" "\<forall>v \<in> set values. NUL \<notin> set v"
  obtains r where "gsh_positionals_assign s values = Inr r" "pos_arrays r"
    "gsh_positionals_validate r" "gsh_positionals_view r = values"
proof -
  let ?s = "gsh_positionals_initialize s"
  obtain r where r: "store_values ?s 0 (zip values (map length values)) = r" by simp
  let ?r = "r\<lparr>pos_count := of_nat (length values)\<rparr>"
  have "measure_values 0 values = Some (map length values)"
    using assms(1) by (simp add: measure_values_spec fits_def)
  then have run: "gsh_positionals_assign s values = Inr ?r"
    using assms(1) r by (simp add: gsh_positionals_assign_def fits_def Let_def)
  have spec: "pos_arrays r" "unat (pos_text_used r) = length (terminated values)"
    "take (unat (pos_text_used r)) (pos_text r) = terminated values"
    "pos_version r = 1" "pos_start r = 0"
    "\<And>j. j < length values \<Longrightarrow> unat (pos_offsets r ! j) = length (terminated (take j values))"
    using store_values_spec[of "[]" ?s "values" 0 r] assms(1,2) r
    by (auto simp: fits_def gsh_positionals_initialize_def pos_arrays_def)
  have count: "unat (pos_count ?r) = length values"
    using assms(1) by (simp add: unat_of_nat fits_def)
  have split: "pos_text r = terminated values @ drop (length (terminated values)) (pos_text r)"
    using spec(2,3) by (metis append_take_drop_id)
  have le: "length (terminated (take j values)) < length (terminated values)"
    if "j < length values" for j
    using arg_cong[OF drop_terminated[OF that], of length] by simp
  have read: "drop (length (terminated (take j values))) (pos_text r) =
      values ! j @ NUL # terminated (drop (Suc j) values) @
        drop (length (terminated values)) (pos_text r)" if "j < length values" for j
    using drop_terminated[OF that] le[OF that] by (subst split) simp
  have view: "gsh_positionals_view ?r = values"
  proof (rule nth_equalityI)
    show "length (gsh_positionals_view ?r) = length values"
      using count by (simp add: gsh_positionals_view_def gsh_positionals_count_def)
    fix j assume "j < length (gsh_positionals_view ?r)"
    then have j: "j < length values"
      using count by (simp add: gsh_positionals_view_def gsh_positionals_count_def)
    with assms(3) show "gsh_positionals_view ?r ! j = values ! j"
      using count spec(5,6) read[OF j]
      by (simp add: gsh_positionals_view_def gsh_positionals_count_def c_string_terminated)
  qed
  have "NUL \<in> set (slice (pos_text r) (length (terminated (take j values)))
      (length (terminated values)))" if "j < length values" for j
  proof -
    have "length (terminated values) - length (terminated (take j values)) =
        Suc (length (values ! j) + length (terminated (drop (Suc j) values)))"
      using arg_cong[OF drop_terminated[OF that], of length] by simp
    with read[OF that] show ?thesis by (simp add: slice_def Suc_diff_le)
  qed
  with count spec le assms(1) have "gsh_positionals_validate ?r"
    by (auto simp: gsh_positionals_validate_def fits_def Let_def)
  with run view spec(1) show ?thesis
    by (intro that[of ?r]) (simp_all add: pos_arrays_def)
qed

lemma assign_error:
  "\<not> fits values \<Longrightarrow> gsh_positionals_assign s values = Inl E2BIG"
  by (simp add: gsh_positionals_assign_def measure_values_spec fits_def)

section \<open>Shifting\<close>

lemma view_shift:
  assumes "gsh_positionals_validate s" "n \<le> unat (pos_count s)"
  obtains r where "gsh_positionals_shift s n = Inr r" "gsh_positionals_validate r"
    "gsh_positionals_view r = drop n (gsh_positionals_view s)" "pos_arrays s \<Longrightarrow> pos_arrays r"
proof (cases "n = unat (pos_count s)")
  case True
  then show ?thesis
    by (intro that[of "gsh_positionals_initialize s"])
      (simp_all add: gsh_positionals_shift_def gsh_positionals_initialize_def pos_arrays_def
        gsh_positionals_validate_def gsh_positionals_view_def gsh_positionals_count_def)
next
  case False
  let ?r = "s\<lparr>pos_start := pos_start s + of_nat n, pos_count := pos_count s - of_nat n\<rparr>"
  have n: "unat (of_nat n :: uint32) = n"
    using assms by (simp add: unat_of_nat gsh_positionals_validate_def)
  have count: "unat (pos_count s - of_nat n) = unat (pos_count s) - n"
    using assms(2) n by (metis unat_sub word_le_nat_alt)
  have start: "unat (pos_start s + of_nat n) = unat (pos_start s) + n"
    using assms n by (auto simp: unat_word_ariths gsh_positionals_validate_def)
  have "gsh_positionals_validate ?r"
    using assms start count
    by (auto simp: gsh_positionals_validate_def Let_def add.assoc)
  moreover have "gsh_positionals_view ?r = drop n (gsh_positionals_view s)"
    using count start
    by (auto simp: gsh_positionals_view_def gsh_positionals_count_def list_eq_iff_nth_eq
        add.assoc add.commute[of n])
  ultimately show ?thesis
    using False assms(2) by (intro that[of ?r]) (simp_all add: gsh_positionals_shift_def pos_arrays_def)
qed

section \<open>Properties\<close>

text \<open>C33. \<open>gsh_positionals_assign\<close> and \<open>gsh_positionals_view\<close> are inverse: an assignment that
  fits the 128 values and 16384 bytes of the store gives a valid store whose view is the
  assigned list, and it fails with \<open>E2BIG\<close> exactly when the values do not fit.\<close>

theorem assign_round_trip:
  assumes "pos_arrays s" "\<forall>v \<in> set values. NUL \<notin> set v"
  shows "case gsh_positionals_assign s values of
      Inr r \<Rightarrow> fits values \<and> pos_arrays r \<and> gsh_positionals_validate r \<and>
        gsh_positionals_view r = values
    | Inl e \<Rightarrow> e = E2BIG \<and> \<not> fits values"
proof (cases "fits values")
  case True
  then obtain r where "gsh_positionals_assign s values = Inr r" "pos_arrays r"
    "gsh_positionals_validate r" "gsh_positionals_view r = values"
    using assms by (rule assign_fits)
  with True show ?thesis by simp
qed (simp add: assign_error)

definition blank_positionals :: gsh_positional_store where
  "blank_positionals = gsh_positionals_initialize
    \<lparr>pos_version = 0, pos_count = 0, pos_start = 0, pos_text_used = 0,
     pos_offsets = replicate GSH_POSITIONAL_CAP 0, pos_text = replicate GSH_POSITIONAL_TEXT_CAP NUL\<rparr>"

lemma blank_positionals_ok: "pos_arrays blank_positionals" "gsh_positionals_validate blank_positionals"
  by (simp_all add: blank_positionals_def pos_arrays_def gsh_positionals_validate_def
      gsh_positionals_initialize_def)

lemma assign_round_trip_witness:
  "case gsh_positionals_assign blank_positionals [''a b'', []] of
      Inr r \<Rightarrow> gsh_positionals_view r = [''a b'', []] | Inl e \<Rightarrow> False"
  using assign_round_trip[of blank_positionals "[''a b'', []]"] blank_positionals_ok
  by (simp add: fits_def split: sum.splits)

text \<open>\<open>shift n\<close> keeps the store valid and drops the first \<open>n\<close> parameters of its view;
  it fails with \<open>EINVAL\<close>, changing nothing, exactly when there are fewer than \<open>n\<close>.\<close>

theorem shift_drops:
  assumes "gsh_positionals_validate s" "pos_arrays s"
  shows "case gsh_positionals_shift s n of
      Inr r \<Rightarrow> n \<le> gsh_positionals_count s \<and> gsh_positionals_validate r \<and> pos_arrays r \<and>
        gsh_positionals_view r = drop n (gsh_positionals_view s)
    | Inl e \<Rightarrow> e = EINVAL \<and> gsh_positionals_count s < n"
proof (cases "n \<le> unat (pos_count s)")
  case True
  from view_shift[OF assms(1) True] obtain r where
    "gsh_positionals_shift s n = Inr r" "gsh_positionals_validate r"
    "gsh_positionals_view r = drop n (gsh_positionals_view s)" "pos_arrays r" using assms(2) by metis
  with True show ?thesis by (simp add: gsh_positionals_count_def)
qed (simp add: gsh_positionals_shift_def gsh_positionals_count_def)

lemma shift_drops_witness:
  "case gsh_positionals_shift blank_positionals 1 of Inr r \<Rightarrow> False | Inl e \<Rightarrow> e = EINVAL"
  using shift_drops[OF blank_positionals_ok(2,1), of 1]
  by (simp add: gsh_positionals_count_def blank_positionals_def gsh_positionals_initialize_def
      gsh_positionals_shift_def)

end
