(* ===== verification/Options.thy ===== *)
theory Options
  imports Positionals
begin

text \<open>
  The shell options of \<open>src/shell_options.c\<close>: one word of option bits, the table that names
  them, and the \<open>getopts\<close> cursor kept beside them. An option is addressed by its name, by
  its letter or by its index in the table; a letter of NUL means the option has none.
\<close>

section \<open>The options word and its table\<close>

abbreviation (input) GSH_OPTION_FLAG_CAP :: nat where "GSH_OPTION_FLAG_CAP \<equiv> 16"
abbreviation (input) GSH_OPTION_NOCLOBBER :: uint32 where "GSH_OPTION_NOCLOBBER \<equiv> 1"
abbreviation (input) GSH_OPTION_NOGLOB :: uint32 where "GSH_OPTION_NOGLOB \<equiv> 2"
abbreviation (input) GSH_OPTION_ALLEXPORT :: uint32 where "GSH_OPTION_ALLEXPORT \<equiv> 4"
abbreviation (input) GSH_OPTION_NOUNSET :: uint32 where "GSH_OPTION_NOUNSET \<equiv> 8"
abbreviation (input) GSH_OPTION_PIPEFAIL :: uint32 where "GSH_OPTION_PIPEFAIL \<equiv> 16"
abbreviation (input) GSH_OPTION_HASHALL :: uint32 where "GSH_OPTION_HASHALL \<equiv> 32"
abbreviation (input) GSH_OPTION_NOEXEC :: uint32 where "GSH_OPTION_NOEXEC \<equiv> 64"
abbreviation (input) GSH_OPTION_NOLOG :: uint32 where "GSH_OPTION_NOLOG \<equiv> 128"
abbreviation (input) GSH_OPTION_IGNOREEOF :: uint32 where "GSH_OPTION_IGNOREEOF \<equiv> 256"
abbreviation (input) GSH_OPTION_NOTIFY :: uint32 where "GSH_OPTION_NOTIFY \<equiv> 512"
abbreviation (input) GSH_OPTION_VERBOSE :: uint32 where "GSH_OPTION_VERBOSE \<equiv> 1024"
abbreviation (input) GSH_OPTION_XTRACE :: uint32 where "GSH_OPTION_XTRACE \<equiv> 2048"
abbreviation (input) GSH_OPTION_ERREXIT :: uint32 where "GSH_OPTION_ERREXIT \<equiv> 4096"
abbreviation (input) GSH_OPTION_INTERACTIVE :: uint32 where
  "GSH_OPTION_INTERACTIVE \<equiv> 1073741824"

record option_descriptor =
  od_name :: "byte list"
  od_bit :: uint32
  od_letter :: byte

record gsh_shell_options =
  opt_enabled :: uint32
  opt_getopts_index :: "16 word"
  opt_getopts_offset :: "16 word"
  opt_getopts_generation :: uint64

definition descriptors :: "option_descriptor list" where
  "descriptors =
    [\<lparr>od_name = ''allexport'', od_bit = GSH_OPTION_ALLEXPORT, od_letter = CHR ''a''\<rparr>,
     \<lparr>od_name = ''errexit'', od_bit = GSH_OPTION_ERREXIT, od_letter = CHR ''e''\<rparr>,
     \<lparr>od_name = ''hashall'', od_bit = GSH_OPTION_HASHALL, od_letter = CHR ''h''\<rparr>,
     \<lparr>od_name = ''ignoreeof'', od_bit = GSH_OPTION_IGNOREEOF, od_letter = NUL\<rparr>,
     \<lparr>od_name = ''noclobber'', od_bit = GSH_OPTION_NOCLOBBER, od_letter = CHR ''C''\<rparr>,
     \<lparr>od_name = ''noexec'', od_bit = GSH_OPTION_NOEXEC, od_letter = CHR ''n''\<rparr>,
     \<lparr>od_name = ''noglob'', od_bit = GSH_OPTION_NOGLOB, od_letter = CHR ''f''\<rparr>,
     \<lparr>od_name = ''nolog'', od_bit = GSH_OPTION_NOLOG, od_letter = NUL\<rparr>,
     \<lparr>od_name = ''notify'', od_bit = GSH_OPTION_NOTIFY, od_letter = CHR ''b''\<rparr>,
     \<lparr>od_name = ''nounset'', od_bit = GSH_OPTION_NOUNSET, od_letter = CHR ''u''\<rparr>,
     \<lparr>od_name = ''pipefail'', od_bit = GSH_OPTION_PIPEFAIL, od_letter = NUL\<rparr>,
     \<lparr>od_name = ''verbose'', od_bit = GSH_OPTION_VERBOSE, od_letter = CHR ''v''\<rparr>,
     \<lparr>od_name = ''xtrace'', od_bit = GSH_OPTION_XTRACE, od_letter = CHR ''x''\<rparr>]"

definition gsh_options_initialize :: "gsh_shell_options \<Rightarrow> bool \<Rightarrow> gsh_shell_options" where
  "gsh_options_initialize opts interactive =
    opts\<lparr>opt_enabled := (if interactive then GSH_OPTION_INTERACTIVE else 0),
      opt_getopts_index := 1, opt_getopts_offset := 1, opt_getopts_generation := 0\<rparr>"

definition gsh_options_enabled :: "gsh_shell_options \<Rightarrow> uint32 \<Rightarrow> bool" where
  "gsh_options_enabled opts opt \<longleftrightarrow> opt_enabled opts AND opt \<noteq> 0"

definition known_options :: uint32 where
  "known_options =
    GSH_OPTION_NOCLOBBER OR GSH_OPTION_NOGLOB OR GSH_OPTION_ALLEXPORT OR GSH_OPTION_NOUNSET OR
    GSH_OPTION_PIPEFAIL OR GSH_OPTION_HASHALL OR GSH_OPTION_NOEXEC OR GSH_OPTION_NOLOG OR
    GSH_OPTION_IGNOREEOF OR GSH_OPTION_NOTIFY OR GSH_OPTION_VERBOSE OR GSH_OPTION_XTRACE OR
    GSH_OPTION_ERREXIT OR GSH_OPTION_INTERACTIVE"

definition gsh_options_validate :: "gsh_shell_options \<Rightarrow> bool" where
  "gsh_options_validate opts \<longleftrightarrow>
    opt_enabled opts AND NOT known_options = 0 \<and>
    1 \<le> opt_getopts_index opts \<and> unat (opt_getopts_index opts) \<le> GSH_POSITIONAL_CAP + 1 \<and>
    1 \<le> opt_getopts_offset opts \<and> unat (opt_getopts_offset opts) \<le> GSH_POSITIONAL_TEXT_CAP"

definition update_option ::
  "gsh_shell_options \<Rightarrow> option_descriptor \<Rightarrow> bool \<Rightarrow> gsh_shell_options" where
  "update_option opts d enabled =
    (if enabled then opts\<lparr>opt_enabled := opt_enabled opts OR od_bit d\<rparr>
     else opts\<lparr>opt_enabled := opt_enabled opts AND NOT (od_bit d)\<rparr>)"

definition gsh_options_update_letter ::
  "gsh_shell_options \<Rightarrow> byte \<Rightarrow> bool \<Rightarrow> errno + gsh_shell_options" where
  "gsh_options_update_letter opts letter enabled =
    (case find (\<lambda>d. od_letter d = letter) descriptors of
       Some d \<Rightarrow> Inr (update_option opts d enabled)
     | None \<Rightarrow> Inl EINVAL)"

definition gsh_options_update_name ::
  "gsh_shell_options \<Rightarrow> byte list \<Rightarrow> bool \<Rightarrow> errno + gsh_shell_options" where
  "gsh_options_update_name opts name enabled =
    (case find (\<lambda>d. od_name d = name) descriptors of
       Some d \<Rightarrow> Inr (update_option opts d enabled)
     | None \<Rightarrow> Inl EINVAL)"

definition gsh_options_count :: nat where
  "gsh_options_count = length descriptors"

definition gsh_options_name :: "nat \<Rightarrow> byte list option" where
  "gsh_options_name index =
    (if index < gsh_options_count then Some (od_name (descriptors ! index)) else None)"

definition gsh_options_index_enabled :: "gsh_shell_options \<Rightarrow> nat \<Rightarrow> bool" where
  "gsh_options_index_enabled opts index \<longleftrightarrow>
    index < gsh_options_count \<and> gsh_options_enabled opts (od_bit (descriptors ! index))"

text \<open>\<open>$-\<close>: the letters of the enabled options, in the order of the C string \<open>order\<close>.\<close>

definition letter_flags :: "gsh_shell_options \<Rightarrow> byte \<Rightarrow> byte list" where
  "letter_flags opts letter =
    (if letter = CHR ''i'' \<and> gsh_options_enabled opts GSH_OPTION_INTERACTIVE then ''i'' else []) @
    concat (map (\<lambda>index.
        if od_letter (descriptors ! index) = letter \<and> gsh_options_index_enabled opts index
        then [letter] else [])
      [0..<gsh_options_count])"

definition gsh_options_flags :: "gsh_shell_options \<Rightarrow> byte list" where
  "gsh_options_flags opts = concat (map (letter_flags opts) ''abCefhimnuvx'')"

section \<open>Setting one option\<close>

lemma descriptors_length [simp]: "gsh_options_count = 13" "length descriptors = 13"
  by (simp_all add: gsh_options_count_def descriptors_def)

lemma descriptors_distinct: "distinct (map od_name descriptors)"
  by (simp add: descriptors_def)

lemma descriptors_bits_distinct: "distinct (map od_bit descriptors)"
  by (simp add: descriptors_def)

lemma descriptors_bits_disjoint:
  "list_all (\<lambda>b. list_all (\<lambda>c. b = c \<or> b AND c = 0) (map od_bit descriptors)) (map od_bit descriptors)"
  by (simp add: descriptors_def)

lemma descriptors_bits_known:
  "list_all (\<lambda>b. b \<noteq> 0 \<and> b AND known_options = b \<and> b AND GSH_OPTION_INTERACTIVE = 0)
    (map od_bit descriptors)"
  by (simp add: descriptors_def known_options_def)

lemma descriptor_bit:
  assumes "d \<in> set descriptors"
  shows "od_bit d \<noteq> 0" "od_bit d AND known_options = od_bit d"
    "od_bit d AND GSH_OPTION_INTERACTIVE = 0"
  using descriptors_bits_known assms by (simp_all add: list_all_iff)

lemma descriptor_bits:
  assumes "d \<in> set descriptors" "e \<in> set descriptors" "d \<noteq> e"
  shows "od_bit d AND od_bit e = 0"
proof -
  have "od_bit d \<noteq> od_bit e"
    using descriptors_bits_distinct assms by (auto simp: distinct_map dest: inj_onD)
  then show ?thesis
    using descriptors_bits_disjoint assms by (auto simp: list_all_iff)
qed

lemma word_and_keep:
  fixes x :: "'a :: len word"
  assumes "b AND c = 0"
  shows "(x OR b) AND c = x AND c" "(x AND NOT b) AND c = x AND c"
proof -
  have nb: "bit b n \<Longrightarrow> \<not> bit c n" for n
    using assms by (metis bit_0_eq bit_and_iff bot_apply bot_bool_def)
  show "(x OR b) AND c = x AND c" "(x AND NOT b) AND c = x AND c"
    using nb by (auto intro!: bit_word_eqI simp: bit_simps)
qed

lemma word_and_hit:
  fixes x :: "'a :: len word"
  shows "(x OR b) AND b = b" "(x AND NOT b) AND b = 0"
  by (auto intro!: bit_word_eqI simp: bit_simps)

lemma enabled_update:
  assumes "d \<in> set descriptors" "e \<in> set descriptors"
  shows "gsh_options_enabled (update_option opts d v) (od_bit e) =
    (if d = e then v else gsh_options_enabled opts (od_bit e))"
  using descriptor_bits[OF assms] descriptor_bit[OF assms(2)]
  by (auto simp add: gsh_options_enabled_def update_option_def word_and_keep word_and_hit)

lemma interactive_update:
  assumes "d \<in> set descriptors"
  shows "gsh_options_enabled (update_option opts d v) GSH_OPTION_INTERACTIVE =
    gsh_options_enabled opts GSH_OPTION_INTERACTIVE"
  using descriptor_bit[OF assms]
  by (simp add: gsh_options_enabled_def update_option_def word_and_keep)

lemma validate_update:
  assumes "gsh_options_validate opts" "d \<in> set descriptors"
  shows "gsh_options_validate (update_option opts d v)"
proof -
  have known: "bit (opt_enabled opts) n \<Longrightarrow> bit known_options n" for n
    using assms(1) by (metis bit_0_eq bit_and_iff bit_not_iff bot_apply bot_bool_def
        gsh_options_validate_def impossible_bit possible_bit_word)
  have "bit (od_bit d) n \<Longrightarrow> bit known_options n" for n
    using descriptor_bit(2)[OF assms(2)] by (metis bit_and_iff)
  with known have "opt_enabled (update_option opts d v) AND NOT known_options = 0"
    by (auto intro!: bit_word_eqI simp: bit_simps update_option_def)
  with assms(1) show ?thesis
    by (simp add: gsh_options_validate_def update_option_def)
qed


lemma find_descriptor_name:
  "d \<in> set descriptors \<Longrightarrow> find (\<lambda>e. od_name e = od_name d) descriptors = Some d"
proof -
  have uniq: "distinct (map f xs) \<Longrightarrow> d \<in> set xs \<Longrightarrow> find (\<lambda>e. f e = f d) xs = Some d" for f xs
    by (induction xs) auto
  show "d \<in> set descriptors \<Longrightarrow> ?thesis"
    using uniq[of od_name descriptors] descriptors_distinct by simp
qed

lemma find_descriptorD:
  "find P descriptors = Some d \<Longrightarrow> d \<in> set descriptors \<and> P d"
  by (auto simp: find_Some_iff in_set_conv_nth)

text \<open>The state of the option that a name stands for; no option is read for an unknown name.\<close>

definition option_state :: "gsh_shell_options \<Rightarrow> byte list \<Rightarrow> bool option" where
  "option_state opts name =
    map_option (\<lambda>d. gsh_options_enabled opts (od_bit d)) (find (\<lambda>d. od_name d = name) descriptors)"

lemma option_state_update:
  assumes "find (\<lambda>d. od_name d = name) descriptors = Some d"
  shows "option_state (update_option opts d v) m =
    (if m = name then Some v else option_state opts m)"
proof (cases "find (\<lambda>d. od_name d = m) descriptors")
  case None
  moreover from None assms have "m \<noteq> name" by force
  ultimately show ?thesis by (simp add: option_state_def)
next
  case (Some e)
  note d = find_descriptorD[OF assms] and e = find_descriptorD[OF Some]
  have "d = e \<longleftrightarrow> m = name"
    using d e assms Some by (metis option.inject)
  with enabled_update[of d e opts v] d e Some show ?thesis
    by (simp add: option_state_def)
qed

section \<open>The flags string\<close>

lemma letter_flags_table:
  "letter_flags opts l =
    (if l = CHR ''i'' \<and> gsh_options_enabled opts GSH_OPTION_INTERACTIVE then ''i'' else []) @
    concat (map (\<lambda>d. if od_letter d = l \<and> gsh_options_enabled opts (od_bit d) then [l] else [])
      descriptors)"
proof -
  let ?f = "\<lambda>d. if od_letter d = l \<and> gsh_options_enabled opts (od_bit d) then [l] else []"
  have "map (\<lambda>i. if od_letter (descriptors ! i) = l \<and> gsh_options_index_enabled opts i
      then [l] else []) [0..<gsh_options_count] = map ?f descriptors"
    by (rule nth_equalityI) (simp_all add: gsh_options_index_enabled_def)
  then show ?thesis by (simp only: letter_flags_def)
qed

text \<open>The string as the table reads it, one optional letter per option that has one.\<close>

lemma gsh_options_flags_table:
  "gsh_options_flags opts =
    concat (map (\<lambda>(letter, opt). if gsh_options_enabled opts opt then [letter] else [])
      [(CHR ''a'', GSH_OPTION_ALLEXPORT), (CHR ''b'', GSH_OPTION_NOTIFY),
       (CHR ''C'', GSH_OPTION_NOCLOBBER), (CHR ''e'', GSH_OPTION_ERREXIT),
       (CHR ''f'', GSH_OPTION_NOGLOB), (CHR ''h'', GSH_OPTION_HASHALL),
       (CHR ''i'', GSH_OPTION_INTERACTIVE), (CHR ''n'', GSH_OPTION_NOEXEC),
       (CHR ''u'', GSH_OPTION_NOUNSET), (CHR ''v'', GSH_OPTION_VERBOSE),
       (CHR ''x'', GSH_OPTION_XTRACE)])"
  by (simp add: gsh_options_flags_def letter_flags_table descriptors_def)

lemma gsh_options_flags_length: "length (gsh_options_flags opts) < GSH_OPTION_FLAG_CAP"
  by (simp add: gsh_options_flags_table)

lemma letter_flags_member:
  "x \<in> set (letter_flags opts l) \<longleftrightarrow> x = l \<and>
    (l = CHR ''i'' \<and> gsh_options_enabled opts GSH_OPTION_INTERACTIVE \<or>
     (\<exists>d \<in> set descriptors. od_letter d = l \<and> gsh_options_enabled opts (od_bit d)))"
  by (auto simp: letter_flags_table split: if_splits)

lemma letters_in_order:
  "list_all (\<lambda>d. od_letter d \<noteq> NUL \<longleftrightarrow> od_letter d \<in> set ''abCefhimnuvx'') descriptors"
  by (simp add: descriptors_def)

lemma gsh_options_flags_member:
  "letter \<in> set (gsh_options_flags opts) \<longleftrightarrow>
    letter = CHR ''i'' \<and> gsh_options_enabled opts GSH_OPTION_INTERACTIVE \<or>
    letter \<noteq> NUL \<and> (\<exists>d \<in> set descriptors. od_letter d = letter \<and> gsh_options_enabled opts (od_bit d))"
proof -
  obtain order :: "byte list" where order: "order = ''abCefhimnuvx''" by simp
  have "letter \<in> set (gsh_options_flags opts) \<longleftrightarrow>
      (letter \<in> set order \<and> letter \<in> set (letter_flags opts letter))"
    unfolding gsh_options_flags_def order[symmetric] using letter_flags_member[of letter opts] by auto
  moreover have "CHR ''i'' \<in> set order" by (simp add: order)
  moreover have "d \<in> set descriptors \<Longrightarrow> od_letter d \<in> set order \<longleftrightarrow> od_letter d \<noteq> NUL" for d
    using letters_in_order unfolding order[symmetric] list_all_iff by blast
  moreover have "NUL \<notin> set order" by (simp add: order)
  ultimately show ?thesis
    unfolding letter_flags_member by blast
qed

definition flag_order :: "byte list" where
  "flag_order = ''abCefhimnuvx''"

lemma letter_flags_single:
  "list_all (\<lambda>l. letter_flags opts l = [] \<or> letter_flags opts l = [l]) flag_order"
  by (simp add: flag_order_def letter_flags_table descriptors_def)

lemma gsh_options_flags_order: "gsh_options_flags opts = concat (map (letter_flags opts) flag_order)"
  by (simp only: gsh_options_flags_def flag_order_def)

lemma letter_flags_once:
  assumes "letter \<in> set flag_order"
  shows "letter_flags opts letter = (if letter \<in> set (gsh_options_flags opts) then [letter] else [])"
proof -
  have "letter_flags opts letter = [] \<or> letter_flags opts letter = [letter]"
    using assms letter_flags_single by (simp add: list_all_iff)
  moreover have "letter \<in> set (gsh_options_flags opts) \<longleftrightarrow> letter \<in> set (letter_flags opts letter)"
    using assms letter_flags_member[of letter opts] by (auto simp: gsh_options_flags_order)
  ultimately show ?thesis by auto
qed

lemma concat_filter:
  "(\<And>x. x \<in> set xs \<Longrightarrow> f x = (if P x then [x] else [])) \<Longrightarrow> concat (map f xs) = filter P xs"
  by (induction xs) auto

lemma gsh_options_flags_filter:
  "gsh_options_flags opts = filter (\<lambda>letter. letter \<in> set (gsh_options_flags opts)) flag_order"
  by (subst (1) gsh_options_flags_order) (rule concat_filter[OF letter_flags_once])

lemma distinct_map_inj:
  "distinct (filter P (map f xs)) \<Longrightarrow> x \<in> set xs \<Longrightarrow> y \<in> set xs \<Longrightarrow> f x = f y \<Longrightarrow> P (f x) \<Longrightarrow> x = y"
  by (induction xs) (auto split: if_splits, metis rev_image_eqI)

lemma descriptors_letters_distinct:
  "distinct (filter (\<lambda>l. l \<noteq> NUL) (map od_letter descriptors))"
  by (simp add: descriptors_def)

lemma descriptor_letter_inj:
  "d \<in> set descriptors \<Longrightarrow> e \<in> set descriptors \<Longrightarrow> od_letter d = od_letter e \<Longrightarrow> od_letter d \<noteq> NUL \<Longrightarrow>
    d = e"
  using distinct_map_inj[OF descriptors_letters_distinct] by blast

lemma descriptors_letters:
  "list_all (\<lambda>d. od_letter d \<noteq> CHR ''i'' \<and> (od_letter d \<noteq> NUL \<longrightarrow> od_letter d \<in> set flag_order)) descriptors"
  by (simp add: descriptors_def flag_order_def)

lemma flag_order_letters: "NUL \<notin> set flag_order"
  by (simp add: flag_order_def)

section \<open>Properties\<close>

text \<open>C34. \<open>set -o name\<close> and \<open>set +o name\<close> through \<open>gsh_options_update_name\<close>: a known name sets that
  one option and leaves every other option and the interactive bit as they were, in a valid
  word; an unknown name is \<open>EINVAL\<close>.\<close>

theorem update_name_isolated:
  assumes "gsh_options_validate opts"
  shows "case gsh_options_update_name opts name v of
      Inr r \<Rightarrow> gsh_options_validate r \<and> option_state opts name \<noteq> None \<and>
        option_state r = (option_state opts)(name \<mapsto> v) \<and>
        gsh_options_enabled r GSH_OPTION_INTERACTIVE = gsh_options_enabled opts GSH_OPTION_INTERACTIVE
    | Inl e \<Rightarrow> e = EINVAL \<and> option_state opts name = None"
proof (cases "find (\<lambda>d. od_name d = name) descriptors")
  case None
  then show ?thesis by (simp add: gsh_options_update_name_def option_state_def)
next
  case (Some d)
  have "option_state (update_option opts d v) = (option_state opts)(name \<mapsto> v)"
    using option_state_update[OF Some] by auto
  moreover have "option_state opts name \<noteq> None" using Some by (simp add: option_state_def)
  ultimately show ?thesis
    using Some find_descriptorD[OF Some] validate_update[OF assms] interactive_update
    by (simp add: gsh_options_update_name_def)
qed

definition initial_options :: gsh_shell_options where
  "initial_options = gsh_options_initialize
    \<lparr>opt_enabled = 0, opt_getopts_index = 0, opt_getopts_offset = 0, opt_getopts_generation = 0\<rparr> True"

lemma initial_options_ok: "gsh_options_validate initial_options"
  by (simp add: initial_options_def gsh_options_initialize_def gsh_options_validate_def known_options_def)

lemma update_name_isolated_witness:
  "case gsh_options_update_name initial_options ''xtrace'' True of
      Inr r \<Rightarrow> option_state r = (option_state initial_options)(''xtrace'' \<mapsto> True) | Inl e \<Rightarrow> False"
  using update_name_isolated[OF initial_options_ok, of "''xtrace''" True]
  by (simp add: gsh_options_update_name_def descriptors_def)

text \<open>\<open>set -x\<close> and \<open>set +x\<close> against \<open>$-\<close>: after an update by letter the flags string is,
  letter for letter, the old one with exactly that letter put in its place or taken out, and
  it always fits its 16-byte buffer.\<close>

theorem update_letter_flags:
  assumes "gsh_options_update_letter opts letter v = Inr r" "letter \<noteq> NUL"
  shows "gsh_options_flags r =
      filter (\<lambda>x. if x = letter then v else x \<in> set (gsh_options_flags opts)) flag_order \<and>
    letter \<in> set flag_order \<and> length (gsh_options_flags r) < GSH_OPTION_FLAG_CAP"
proof -
  obtain d where found: "find (\<lambda>d. od_letter d = letter) descriptors = Some d"
    using assms(1) by (cases "find (\<lambda>d. od_letter d = letter) descriptors")
      (simp_all add: gsh_options_update_letter_def)
  then have r: "r = update_option opts d v" using assms(1) by (simp add: gsh_options_update_letter_def)
  note d = conjunct1[OF find_descriptorD[OF found]] conjunct2[OF find_descriptorD[OF found]] r
  have "od_letter d \<noteq> CHR ''i'' \<and> (od_letter d \<noteq> NUL \<longrightarrow> od_letter d \<in> set flag_order)"
    using descriptors_letters d(1) unfolding list_all_iff by blast
  then have i: "letter \<noteq> CHR ''i''" and order: "letter \<in> set flag_order"
    using d(2) assms(2) by simp_all
  have member: "x \<in> set (gsh_options_flags r) \<longleftrightarrow> (if x = letter then v else x \<in> set (gsh_options_flags opts))"
    if x: "x \<noteq> NUL" for x
  proof -
    have enabled: "gsh_options_enabled r (od_bit e) =
        (if d = e then v else gsh_options_enabled opts (od_bit e))" if "e \<in> set descriptors" for e
      unfolding d(3) by (rule enabled_update[OF d(1) that])
    have inj: "e \<in> set descriptors \<Longrightarrow> od_letter e = letter \<Longrightarrow> d = e" for e
      using descriptor_letter_inj[OF d(1), of e] d(2) assms(2) by metis
    have int: "gsh_options_enabled r GSH_OPTION_INTERACTIVE = gsh_options_enabled opts GSH_OPTION_INTERACTIVE"
      unfolding d(3) by (rule interactive_update[OF d(1)])
    show ?thesis
    proof (cases "x = letter")
      case True
      have "(\<exists>e \<in> set descriptors. od_letter e = letter \<and> gsh_options_enabled r (od_bit e)) \<longleftrightarrow>
          gsh_options_enabled r (od_bit d)"
        using d(1,2) by (auto dest: inj)
      with True x i enabled[OF d(1)] show ?thesis unfolding gsh_options_flags_member by simp
    next
      case False
      have "(\<exists>e \<in> set descriptors. od_letter e = x \<and> gsh_options_enabled r (od_bit e)) \<longleftrightarrow>
          (\<exists>e \<in> set descriptors. od_letter e = x \<and> gsh_options_enabled opts (od_bit e))"
        using enabled False d(2) by (intro bex_cong) auto
      with False int show ?thesis unfolding gsh_options_flags_member by simp
    qed
  qed
  have "filter (\<lambda>x. x \<in> set (gsh_options_flags r)) flag_order =
      filter (\<lambda>x. if x = letter then v else x \<in> set (gsh_options_flags opts)) flag_order"
  proof (rule filter_cong[OF refl])
    fix x assume "x \<in> set flag_order"
    with flag_order_letters have "x \<noteq> NUL" by blast
    then show "x \<in> set (gsh_options_flags r) \<longleftrightarrow>
        (if x = letter then v else x \<in> set (gsh_options_flags opts))" by (rule member)
  qed
  note flags = trans[OF gsh_options_flags_filter this]
  show ?thesis by (intro conjI flags order gsh_options_flags_length)
qed

lemma update_letter_flags_witness:
  "gsh_options_flags (update_option initial_options (descriptors ! 1) True) = ''ei''"
  using update_letter_flags[of initial_options "CHR ''e''" True
      "update_option initial_options (descriptors ! 1) True"]
  by (simp add: gsh_options_update_letter_def descriptors_def gsh_options_flags_table
      initial_options_def gsh_options_initialize_def gsh_options_enabled_def flag_order_def)

end
