(* ===== verification/HashIndex.thy ===== *)
theory HashIndex
  imports GshPrelude
begin

text \<open>
  The open-addressing index that \<open>src/shell_aliases.c\<close>, \<open>src/command_cache.c\<close> (256 slots)
  and \<open>src/shell_variables.c\<close> (2048 slots) carry: slots of 16 bits, slot value 0 for empty and
  \<open>i + 1\<close> for entry \<open>i\<close>, linear probing from the low bits of a 32-bit FNV-1a hash. The files
  repeat the same three loops; they are defined once here, over the length of the slot array,
  and instantiated by each store with its own match.

  \<open>name_index\<close> is the contract the stores rely on, stated over the hashes of the entries.
  Deletion is not in it: both stores rebuild the index from scratch after a removal.
\<close>

section \<open>The code\<close>

fun fnv1a :: "uint32 \<Rightarrow> byte list \<Rightarrow> uint32" where
  "fnv1a hash [] = hash"
| "fnv1a hash (b # s) = fnv1a ((hash XOR of_char b) * 16777619) s"

definition name_hash :: "byte list \<Rightarrow> uint32" where
  "name_hash name = fnv1a 2166136261 name"

definition home_slot :: "nat \<Rightarrow> uint32 \<Rightarrow> nat" where
  "home_slot cap hash = unat hash AND (cap - 1)"

text \<open>The counter is the number of probes left.\<close>

fun probe_find :: "(nat \<Rightarrow> bool) \<Rightarrow> 16 word list \<Rightarrow> nat \<Rightarrow> nat \<Rightarrow> nat option" where
  "probe_find matches slots slot 0 = None"
| "probe_find matches slots slot (Suc probes) =
    (let encoded = slots ! slot
     in if encoded = 0 then None
        else if matches (unat encoded - 1) then Some (unat encoded - 1)
        else probe_find matches slots ((slot + 1) AND (length slots - 1)) probes)"

fun probe_insert :: "nat \<Rightarrow> 16 word list \<Rightarrow> nat \<Rightarrow> nat \<Rightarrow> 16 word list option" where
  "probe_insert index slots slot 0 = None"
| "probe_insert index slots slot (Suc probes) =
    (if slots ! slot = 0 then Some (slots[slot := of_nat (index + 1)])
     else probe_insert index slots ((slot + 1) AND (length slots - 1)) probes)"

definition index_find :: "16 word list \<Rightarrow> (nat \<Rightarrow> bool) \<Rightarrow> uint32 \<Rightarrow> nat option" where
  "index_find slots matches hash = probe_find matches slots (home_slot (length slots) hash) (length slots)"

definition index_insert :: "16 word list \<Rightarrow> uint32 \<Rightarrow> nat \<Rightarrow> 16 word list option" where
  "index_insert slots hash index = probe_insert index slots (home_slot (length slots) hash) (length slots)"

definition empty_index :: "nat \<Rightarrow> 16 word list" where
  "empty_index cap = replicate cap 0"

text \<open>The rebuilding loop: the entries from \<open>index\<close> on, with their hashes.\<close>

fun index_rebuild :: "16 word list \<Rightarrow> nat \<Rightarrow> uint32 list \<Rightarrow> 16 word list option" where
  "index_rebuild slots index [] = Some slots"
| "index_rebuild slots index (hash # hashes) =
    (case index_insert slots hash index of
       None \<Rightarrow> None
     | Some slots \<Rightarrow> index_rebuild slots (Suc index) hashes)"

section \<open>The contract\<close>

text \<open>
  \<open>rep t hs\<close>: the table \<open>t\<close> indexes entries \<open>0 ..< length hs\<close>, entry \<open>i\<close> under the hash
  \<open>hs ! i\<close>. A match predicate that holds of at most one entry, and only if its hash is the
  one searched for, is found exactly when it holds somewhere.
\<close>

locale name_index =
  fixes find :: "'t \<Rightarrow> (nat \<Rightarrow> bool) \<Rightarrow> 'h \<Rightarrow> nat option"
    and insert :: "'t \<Rightarrow> 'h \<Rightarrow> nat \<Rightarrow> 't option"
    and empty :: 't
    and rep :: "'t \<Rightarrow> 'h list \<Rightarrow> bool"
    and cap :: nat
  assumes rep_empty: "rep empty []"
    and rep_insert: "rep t hs \<Longrightarrow> length hs < cap \<Longrightarrow>
      \<exists>t'. insert t h (length hs) = Some t' \<and> rep t' (hs @ [h])"
    and find_sound: "rep t hs \<Longrightarrow> find t P h = Some i \<Longrightarrow> i < length hs \<and> P i"
    and find_complete: "rep t hs \<Longrightarrow> i < length hs \<Longrightarrow> hs ! i = h \<Longrightarrow> P i \<Longrightarrow>
      \<exists>j. find t P h = Some j"
begin

primrec rebuild :: "'t \<Rightarrow> nat \<Rightarrow> 'h list \<Rightarrow> 't option" where
  "rebuild t index [] = Some t"
| "rebuild t index (h # hs) =
    (case insert t h index of None \<Rightarrow> None | Some t \<Rightarrow> rebuild t (Suc index) hs)"

lemma rebuild_rep:
  "rep t hs \<Longrightarrow> length hs + length hs' \<le> cap \<Longrightarrow>
    \<exists>t'. rebuild t (length hs) hs' = Some t' \<and> rep t' (hs @ hs')"
proof (induction hs' arbitrary: t hs)
  case (Cons h hs')
  from Cons.prems rep_insert[of t hs h] obtain t' where
    t': "insert t h (length hs) = Some t'" "rep t' (hs @ [h])" by auto
  with Cons.IH[of t' "hs @ [h]"] Cons.prems show ?case by simp
qed simp

text \<open>A table over named entries, all different, finds a name exactly where it stands.\<close>

lemma find_name:
  assumes "rep t (map H names)" "distinct names"
    "\<And>i. i < length names \<Longrightarrow> P i \<longleftrightarrow> names ! i = name"
  shows "find t P (H name) = (if name \<in> set names
    then Some (THE i. i < length names \<and> names ! i = name) else None)"
proof (cases "name \<in> set names")
  case True
  then obtain i where i: "i < length names" "names ! i = name"
    by (auto simp: in_set_conv_nth)
  have the: "(THE i. i < length names \<and> names ! i = name) = i"
    using i assms(2) by (auto simp: nth_eq_iff_index_eq)
  obtain j where j: "find t P (H name) = Some j"
    using find_complete[OF assms(1), of i "H name" P] i assms(3) by auto
  have "j = i"
    using find_sound[OF assms(1) j] i assms(2,3) by (auto simp: nth_eq_iff_index_eq)
  with j the True show ?thesis by simp
next
  case False
  with find_sound[OF assms(1)] assms(3) show ?thesis
    by (cases "find t P (H name)") (auto simp: in_set_conv_nth)
qed

lemma find_name_Some:
  assumes "rep t (map H names)" "distinct names"
    "\<And>i. i < length names \<Longrightarrow> P i \<longleftrightarrow> names ! i = name"
  shows "find t P (H name) = Some i \<longleftrightarrow> i < length names \<and> names ! i = name"
  using find_name[OF assms] find_sound[OF assms(1), of P "H name" i] assms(3)[of i]
    find_complete[OF assms(1), of i "H name" P] assms(2)
  by (auto split: if_splits simp: nth_eq_iff_index_eq dest: find_sound[OF assms(1)] assms(3))

lemma find_name_None:
  assumes "rep t (map H names)" "distinct names"
    "\<And>i. i < length names \<Longrightarrow> P i \<longleftrightarrow> names ! i = name"
  shows "find t P (H name) = None \<longleftrightarrow> name \<notin> set names"
  using find_name[OF assms] by auto

end

section \<open>Linear probing keeps the contract\<close>

text \<open>The slot at distance \<open>d\<close> on the probe path of a hash, in a table of \<open>cap\<close> slots.\<close>

definition path_slot :: "nat \<Rightarrow> uint32 \<Rightarrow> nat \<Rightarrow> nat" where
  "path_slot cap h d = (home_slot cap h + d) mod cap"

definition index_rep :: "nat \<Rightarrow> 16 word list \<Rightarrow> uint32 list \<Rightarrow> bool" where
  "index_rep cap t hs \<longleftrightarrow> length t = cap \<and> length hs \<le> cap \<and>
    (\<forall>s < cap. t ! s \<noteq> 0 \<longrightarrow> unat (t ! s) \<le> length hs) \<and>
    (\<forall>s < cap. \<forall>r < cap. t ! s = t ! r \<and> t ! s \<noteq> 0 \<longrightarrow> s = r) \<and>
    (\<forall>i < length hs. \<exists>d < cap. unat (t ! path_slot cap (hs ! i) d) = Suc i \<and>
      (\<forall>e < d. t ! path_slot cap (hs ! i) e \<noteq> 0))"

text \<open>The masks of the code take a power of two; the slots hold 16 bits.\<close>

definition slot_count :: "nat \<Rightarrow> bool" where
  "slot_count cap \<longleftrightarrow> 0 < cap \<and> cap < 65536 \<and> (\<forall>n. n AND (cap - 1) = n mod cap)"

lemma slot_count_exp:
  assumes "k < 16"
  shows "slot_count (2 ^ k)"
proof -
  have "(2 :: nat) ^ k < 2 ^ 16" using assms by (intro power_strict_increasing) simp_all
  moreover have "n AND (2 ^ k - 1) = n mod 2 ^ k" for n :: nat
    using take_bit_eq_mask[of k n] by (simp add: take_bit_eq_mod mask_eq_exp_minus_1)
  ultimately show ?thesis by (simp add: slot_count_def)
qed

lemma slot_count_caps: "slot_count 256" "slot_count 2048"
  using slot_count_exp[of 8] slot_count_exp[of 11] by simp_all

lemma path_slot_0: "slot_count cap \<Longrightarrow> path_slot cap h 0 = home_slot cap h"
  by (simp add: path_slot_def home_slot_def slot_count_def)

lemma path_slot_less: "slot_count cap \<Longrightarrow> path_slot cap h d < cap"
  by (simp add: path_slot_def slot_count_def)

lemma path_slot_Suc:
  "slot_count cap \<Longrightarrow> (path_slot cap h d + 1) AND (cap - 1) = path_slot cap h (Suc d)"
  by (simp add: slot_count_def) (simp add: path_slot_def mod_Suc_eq)

lemma path_slot_surj:
  assumes "slot_count cap" "s < cap"
  shows "\<exists>d < cap. path_slot cap h d = s"
proof (intro exI conjI)
  have home: "home_slot cap h < cap" using assms(1) by (simp add: home_slot_def slot_count_def)
  show "(s + cap - home_slot cap h) mod cap < cap" using assms(2) by simp
  show "path_slot cap h ((s + cap - home_slot cap h) mod cap) = s"
    using assms(2) home by (simp add: path_slot_def mod_add_right_eq)
qed

lemma probe_find_path:
  assumes "slot_count cap" "length t = cap"
  shows "probe_find P t (path_slot cap h d) n = Some i \<Longrightarrow>
    \<exists>e. d \<le> e \<and> t ! path_slot cap h e \<noteq> 0 \<and> unat (t ! path_slot cap h e) - 1 = i \<and> P i"
proof (induction n arbitrary: d)
  case (Suc n)
  show ?case
  proof (cases "P (unat (t ! path_slot cap h d) - 1)")
    case True
    with Suc.prems show ?thesis
      by (auto simp: Let_def split: if_splits intro!: exI[of _ d])
  next
    case False
    with Suc.prems have "probe_find P t (path_slot cap h (Suc d)) n = Some i"
      by (auto simp: Let_def path_slot_Suc[OF assms(1), simplified] assms(2) split: if_splits)
    from Suc.IH[OF this] show ?thesis by (auto intro: Suc_leD)
  qed
qed simp

lemma probe_find_reaches:
  assumes "slot_count cap" "length t = cap" "\<forall>e < d + k. t ! path_slot cap h e \<noteq> 0"
    "t ! path_slot cap h (d + k) \<noteq> 0"
    "P (unat (t ! path_slot cap h (d + k)) - 1)" "k < n"
  shows "\<exists>j. probe_find P t (path_slot cap h d) n = Some j"
  using assms(3-)
proof (induction k arbitrary: d n)
  case 0
  then show ?case by (cases n) (auto simp: Let_def)
next
  case (Suc k)
  then obtain m where n: "n = Suc m" by (cases n) auto
  have "t ! path_slot cap h d \<noteq> 0" using Suc.prems(1) by simp
  moreover have "\<exists>j. probe_find P t (path_slot cap h (Suc d)) m = Some j"
    using Suc.prems n by (intro Suc.IH) simp_all
  ultimately show ?case
    by (auto simp: n Let_def path_slot_Suc[OF assms(1), simplified] assms(2))
qed

lemma probe_insert_first:
  assumes "slot_count cap" "length t = cap" "\<forall>e < d + k. t ! path_slot cap h e \<noteq> 0"
    "t ! path_slot cap h (d + k) = 0" "k < n"
  shows "probe_insert i t (path_slot cap h d) n = Some (t[path_slot cap h (d + k) := of_nat (i + 1)])"
  using assms(3-)
proof (induction k arbitrary: d n)
  case 0
  then show ?case by (cases n) auto
next
  case (Suc k)
  then obtain m where n: "n = Suc m" by (cases n) auto
  have "t ! path_slot cap h d \<noteq> 0" using Suc.prems(1) by simp
  moreover have "probe_insert i t (path_slot cap h (Suc d)) m =
      Some (t[path_slot cap h (Suc d + k) := of_nat (i + 1)])"
    using Suc.prems n by (intro Suc.IH) simp_all
  ultimately show ?case by (simp add: n path_slot_Suc[OF assms(1), simplified] assms(2))
qed

text \<open>With fewer entries than slots there is an empty slot, by counting.\<close>

lemma index_rep_free:
  assumes "index_rep cap t hs" "length hs < cap"
  shows "\<exists>s < cap. t ! s = 0"
proof (rule ccontr)
  assume "\<not> (\<exists>s < cap. t ! s = 0)"
  then have full: "\<forall>s < cap. t ! s \<noteq> 0" by blast
  have "inj_on (\<lambda>s. unat (t ! s)) {..<cap}"
    using assms(1) full unfolding index_rep_def inj_on_def
    by (metis lessThan_iff word_unat_eq_iff)
  moreover have "(\<lambda>s. unat (t ! s)) ` {..<cap} \<subseteq> {1..length hs}"
    using assms(1) full by (auto simp: index_rep_def Suc_le_eq unat_gt_0)
  ultimately have "card {..<cap} \<le> card {1..length hs}"
    by (metis card_inj_on_le finite_atLeastAtMost)
  with assms(2) show False by simp
qed

lemma index_insert_spec:
  assumes cap: "slot_count cap" and rep: "index_rep cap t hs" and room: "length hs < cap"
  obtains t' where "index_insert t h (length hs) = Some t'" "index_rep cap t' (hs @ [h])"
proof -
  obtain s where s: "s < cap" "t ! s = 0" using index_rep_free[OF assms(2,3)] by blast
  obtain c where c: "c < cap" "path_slot cap h c = s" using path_slot_surj[OF cap s(1)] by blast
  obtain d where d: "d < cap" "t ! path_slot cap h d = 0" "\<forall>e < d. t ! path_slot cap h e \<noteq> 0"
    using exists_least_iff[of "\<lambda>d. t ! path_slot cap h d = 0"] s c
    by (metis le_less_trans not_le_imp_less)
  obtain w :: "16 word" where w_def: "of_nat (length hs + 1) = w" by simp
  let ?t = "t[path_slot cap h d := w]"
  note path = path_slot_less[OF cap]
  have w: "unat w = Suc (length hs)" "w \<noteq> 0"
  proof -
    have "Suc (length hs) < 2 ^ LENGTH(16)" using room cap by (simp add: slot_count_def)
    then show "unat w = Suc (length hs)"
      unfolding w_def[symmetric] by (simp only: unat_of_nat take_bit_nat_eq_self) simp
    then show "w \<noteq> 0" by (metis nat.distinct(1) unat_0)
  qed
  have len: "length t = cap" using rep by (simp add: index_rep_def)
  have nth: "?t ! r = (if r = path_slot cap h d then w else t ! r)" if "r < cap" for r
    using that len by (auto simp: nth_list_update)
  have old: "unat (t ! r) \<le> length hs" if "r < cap" for r
    using rep that by (cases "t ! r = 0") (auto simp: index_rep_def)
  have fresh: "t ! r \<noteq> w" if "r < cap" for r
    using old[OF that] w by auto
  have inj: "s = r" if "s < cap" "r < cap" "?t ! s = ?t ! r" "?t ! s \<noteq> 0" for s r
    using that rep fresh[OF that(1)] fresh[OF that(2)]
    by (simp add: nth index_rep_def split: if_splits)
  have bound: "unat (?t ! r) \<le> length (hs @ [h])" if "r < cap" for r
    using old[OF that] w that by (simp add: nth)
  have paths: "\<exists>k < cap. unat (?t ! path_slot cap ((hs @ [h]) ! i) k) = Suc i \<and>
      (\<forall>e < k. ?t ! path_slot cap ((hs @ [h]) ! i) e \<noteq> 0)" if i: "i < length (hs @ [h])" for i
  proof (cases "i < length hs")
    case True
    then obtain k where k: "k < cap" "unat (t ! path_slot cap (hs ! i) k) = Suc i"
        "\<forall>e < k. t ! path_slot cap (hs ! i) e \<noteq> 0"
      using rep by (auto simp: index_rep_def)
    have "path_slot cap (hs ! i) k \<noteq> path_slot cap h d"
      using k(2) d(2) by auto
    with k w True show ?thesis
      by (auto simp: nth path nth_append intro!: exI[of _ k])
  next
    case False
    with i d w show ?thesis
      by (auto simp: nth path nth_append less_Suc_eq intro!: exI[of _ d])
  qed
  have "index_rep cap ?t (hs @ [h])"
    unfolding index_rep_def using len room bound inj paths by auto
  moreover have "index_insert t h (length hs) = Some ?t"
    using probe_insert_first[OF cap len, of 0 d h cap "length hs"] d
    by (simp add: index_insert_def w_def[simplified] len path_slot_0[OF cap])
  ultimately show ?thesis using that by blast
qed

lemma probing_keeps_contract:
  assumes cap: "slot_count cap"
  shows "name_index index_find index_insert (empty_index cap) (index_rep cap) cap"
proof unfold_locales
  show "index_rep cap (empty_index cap) []"
    by (simp add: index_rep_def empty_index_def)
  show "\<exists>t'. index_insert t h (length hs) = Some t' \<and> index_rep cap t' (hs @ [h])"
    if "index_rep cap t hs" "length hs < cap" for t hs h
    using index_insert_spec[OF cap that] by metis
  show "i < length hs \<and> P i" if "index_rep cap t hs" "index_find t P h = Some i" for t hs P h i
  proof -
    have len: "length t = cap" using that(1) by (simp add: index_rep_def)
    from that(2) have "probe_find P t (path_slot cap h 0) cap = Some i"
      by (simp add: index_find_def len path_slot_0[OF cap])
    from probe_find_path[OF cap len this] obtain e where
      e: "t ! path_slot cap h e \<noteq> 0" "unat (t ! path_slot cap h e) - 1 = i" "P i" by blast
    moreover have "unat (t ! path_slot cap h e) \<le> length hs" "0 < unat (t ! path_slot cap h e)"
      using that(1) e(1) path_slot_less[OF cap] by (auto simp: index_rep_def unat_gt_0)
    ultimately show ?thesis by linarith
  qed
  show "\<exists>j. index_find t P h = Some j"
    if a: "index_rep cap t hs" "i < length hs" "hs ! i = h" "P i" for t hs i h P
  proof -
    have len: "length t = cap" using a(1) by (simp add: index_rep_def)
    obtain k where k: "k < cap" "unat (t ! path_slot cap h k) = Suc i"
        "\<forall>e < k. t ! path_slot cap h e \<noteq> 0"
      using a(1-3) by (auto simp: index_rep_def)
    then have "t ! path_slot cap h k \<noteq> 0" by (metis nat.distinct(1) unat_0)
    with k a(4) have "\<exists>j. probe_find P t (path_slot cap h 0) cap = Some j"
      by (intro probe_find_reaches[OF cap len, where k = k]) simp_all
    then show ?thesis by (simp add: index_find_def len path_slot_0[OF cap])
  qed
qed

interpretation probing: name_index index_find index_insert "empty_index 256" "index_rep 256" 256
  by (rule probing_keeps_contract[OF slot_count_caps(1)])

interpretation wide_probing:
  name_index index_find index_insert "empty_index 2048" "index_rep 2048" 2048
  by (rule probing_keeps_contract[OF slot_count_caps(2)])

lemma index_rebuild_eq: "index_rebuild = probing.rebuild"
proof (intro ext)
  fix t i hs show "index_rebuild t i hs = probing.rebuild t i hs"
    by (induction hs arbitrary: t i) (simp_all split: option.split)
qed

lemma index_rebuild_spec:
  "length hs \<le> 256 \<Longrightarrow> \<exists>t. index_rebuild (empty_index 256) 0 hs = Some t \<and> index_rep 256 t hs"
  "length hs \<le> 2048 \<Longrightarrow> \<exists>t. index_rebuild (empty_index 2048) 0 hs = Some t \<and> index_rep 2048 t hs"
  using probing.rebuild_rep[OF probing.rep_empty, of hs]
    wide_probing.rebuild_rep[OF wide_probing.rep_empty, of hs] by (simp_all add: index_rebuild_eq)


text \<open>The table holds exactly one slot per entry.\<close>

lemma index_rep_count:
  assumes rep: "index_rep cap t hs"
  shows "length (filter (\<lambda>s. s \<noteq> 0) t) = length hs"
proof -
  have len: "length t = cap" using rep by (simp add: index_rep_def)
  let ?S = "{s. s < length t \<and> t ! s \<noteq> 0}"
  have inj: "inj_on (\<lambda>s. unat (t ! s)) ?S"
    using rep unfolding index_rep_def inj_on_def by (metis (mono_tags, lifting) len mem_Collect_eq word_unat_eq_iff)
  have "(\<lambda>s. unat (t ! s)) ` ?S = {1..length hs}"
  proof (intro equalityI subsetI)
    fix k assume "k \<in> (\<lambda>s. unat (t ! s)) ` ?S"
    with rep show "k \<in> {1..length hs}"
      by (auto simp: index_rep_def Suc_le_eq unat_gt_0)
  next
    fix k assume "k \<in> {1..length hs}"
    then obtain i where i: "k = Suc i" "i < length hs" by (cases k) auto
    with rep obtain d where "unat (t ! path_slot cap (hs ! i) d) = k" by (auto simp: index_rep_def)
    moreover have "0 < cap" using rep i by (auto simp: index_rep_def)
    ultimately show "k \<in> (\<lambda>s. unat (t ! s)) ` ?S"
      using i len by (intro image_eqI[of _ _ "path_slot cap (hs ! i) d"]) (auto simp: path_slot_def)
  qed
  then have "card ?S = length hs"
    using card_image[OF inj] by simp
  then show ?thesis by (simp add: length_filter_conv_card)
qed

end
