(* ===== verification/Aliases.thy ===== *)
theory Aliases
  imports HashIndex
begin

text \<open>
  The alias store of \<open>src/shell_aliases.c\<close>: entries in a text arena behind the probing index.
  The entries and the text are the used parts of their C arrays, so \<open>count\<close> and \<open>text_used\<close>
  are lengths; what the code clears behind them is not observable. The 32-bit offsets and
  lengths and the 16-bit name length are naturals: the caps, which every operation checks and
  the invariant keeps, leave them far below their width.

  The store is a finite map from names to values, kept as the list of its assignments; every
  operation is proved to act on that list as it should and to keep the representation.
\<close>

section \<open>The store\<close>

abbreviation (input) GSH_ALIAS_CAP :: nat where "GSH_ALIAS_CAP \<equiv> 128"
abbreviation (input) GSH_ALIAS_TEXT_CAP :: nat where "GSH_ALIAS_TEXT_CAP \<equiv> 32768"
abbreviation (input) GSH_ALIAS_VALUE_CAP :: nat where "GSH_ALIAS_VALUE_CAP \<equiv> 16384"

record gsh_alias_entry =
  ae_offset :: nat
  ae_length :: nat
  ae_hash :: uint32
  ae_name_length :: nat

record gsh_alias_store =
  al_entries :: "gsh_alias_entry list"
  al_slots :: "16 word list"
  al_text :: "byte list"

definition alias_byte :: "byte \<Rightarrow> bool" where
  "alias_byte b \<longleftrightarrow> upper_byte b \<or> lower_byte b \<or> digit_byte b \<or>
    b = CHR ''!'' \<or> b = CHR ''%'' \<or> b = CHR '','' \<or> b = CHR ''-'' \<or> b = CHR ''@'' \<or> b = CHR ''_''"

definition gsh_alias_name_is_valid :: "byte list \<Rightarrow> bool" where
  "gsh_alias_name_is_valid name \<longleftrightarrow> name \<noteq> [] \<and> list_all alias_byte name"

definition gsh_aliases_initialize :: "gsh_alias_store \<Rightarrow> gsh_alias_store" where
  "gsh_aliases_initialize s = s\<lparr>al_slots := empty_index 256, al_entries := [], al_text := []\<rparr>"

definition entry_matches ::
  "gsh_alias_store \<Rightarrow> gsh_alias_entry \<Rightarrow> byte list \<Rightarrow> uint32 \<Rightarrow> bool" where
  "entry_matches s e name hash \<longleftrightarrow>
    ae_hash e = hash \<and> ae_name_length e = length name \<and> ae_offset e < length (al_text s) \<and>
    take (Suc (length name)) (drop (ae_offset e) (al_text s)) = name @ ''=''"

text \<open>\<open>None\<close> is the C's \<open>GSH_ALIAS_CAP\<close>.\<close>

definition alias_index :: "gsh_alias_store \<Rightarrow> byte list \<Rightarrow> uint32 \<Rightarrow> nat option" where
  "alias_index s name hash =
    index_find (al_slots s)
      (\<lambda>i. i < length (al_entries s) \<and> entry_matches s (al_entries s ! i) name hash) hash"

definition insert_hash :: "gsh_alias_store \<Rightarrow> nat \<Rightarrow> errno option \<times> gsh_alias_store" where
  "insert_hash s index =
    (case index_insert (al_slots s) (ae_hash (al_entries s ! index)) index of
       Some slots \<Rightarrow> (None, s\<lparr>al_slots := slots\<rparr>)
     | None \<Rightarrow> (Some ENOSPC, s))"

definition rebuild_hash :: "gsh_alias_store \<Rightarrow> errno option \<times> gsh_alias_store" where
  "rebuild_hash s =
    (case index_rebuild (empty_index 256) 0 (map ae_hash (al_entries s)) of
       Some slots \<Rightarrow> (None, s\<lparr>al_slots := slots\<rparr>)
     | None \<Rightarrow> (Some ENOSPC, s))"

definition cstring_at :: "byte list \<Rightarrow> nat \<Rightarrow> byte list" where
  "cstring_at bytes offset = takeWhile (\<lambda>b. b \<noteq> NUL) (drop offset bytes)"

definition gsh_aliases_lookup :: "gsh_alias_store \<Rightarrow> byte list \<Rightarrow> (byte list \<times> nat) option" where
  "gsh_aliases_lookup s name =
    (if \<not> gsh_alias_name_is_valid name then None
     else map_option
       (\<lambda>found. (cstring_at (al_text s) (ae_offset (al_entries s ! found) + length name + 1), found))
       (alias_index s name (name_hash name)))"

definition assignment_bytes :: "byte list \<Rightarrow> byte list \<Rightarrow> byte list" where
  "assignment_bytes name val = name @ CHR ''='' # val @ [NUL]"

text \<open>
  Replacing the assignment of entry \<open>index\<close>: the tail of the text moves, the offsets behind
  the entry move with it, and the new assignment is copied over the old one.
\<close>

definition replace_assignment ::
  "gsh_alias_store \<Rightarrow> nat \<Rightarrow> byte list \<Rightarrow> byte list \<Rightarrow> errno option \<times> gsh_alias_store" where
  "replace_assignment s index name val =
    (let len = length name + length val + 2;
         e = al_entries s ! index;
         old_offset = ae_offset e;
         old_length = ae_length e
     in if old_length < len \<and> GSH_ALIAS_TEXT_CAP - length (al_text s) < len - old_length
        then (Some ENOSPC, s)
        else
          (let moved = (if len \<noteq> old_length
             then map (\<lambda>other. if old_offset < ae_offset other
                    then other\<lparr>ae_offset := ae_offset other + len - old_length\<rparr> else other)
                  (al_entries s)
             else al_entries s)
           in (None, s\<lparr>al_entries := moved[index := (moved ! index)\<lparr>ae_length := len\<rparr>],
                 al_text := take old_offset (al_text s) @ assignment_bytes name val @
                   drop (old_offset + old_length) (al_text s)\<rparr>)))"

definition append_assignment ::
  "gsh_alias_store \<Rightarrow> byte list \<Rightarrow> byte list \<Rightarrow> uint32 \<Rightarrow> errno option \<times> gsh_alias_store" where
  "append_assignment s name val hash =
    (let len = length name + length val + 2
     in if length (al_entries s) = GSH_ALIAS_CAP \<or> GSH_ALIAS_TEXT_CAP - length (al_text s) < len
        then (Some ENOSPC, s)
        else insert_hash
          (s\<lparr>al_entries := al_entries s @
               [\<lparr>ae_offset = length (al_text s), ae_length = len, ae_hash = hash,
                 ae_name_length = length name\<rparr>],
             al_text := al_text s @ assignment_bytes name val\<rparr>)
          (length (al_entries s)))"

definition gsh_aliases_set ::
  "gsh_alias_store \<Rightarrow> byte list \<Rightarrow> byte list \<Rightarrow> errno option \<times> gsh_alias_store" where
  "gsh_aliases_set s name val =
    (if \<not> gsh_alias_name_is_valid name \<or> UINT16_MAX < length name \<or>
        GSH_ALIAS_VALUE_CAP < length val \<or> SIZE_MAX - length val - 2 < length name
     then (Some EINVAL, s)
     else if GSH_ALIAS_TEXT_CAP < length name + length val + 2 then (Some E2BIG, s)
     else (let hash = name_hash name
           in case alias_index s name hash of
                Some index \<Rightarrow> replace_assignment s index name val
              | None \<Rightarrow> append_assignment s name val hash))"

definition gsh_aliases_unset ::
  "gsh_alias_store \<Rightarrow> byte list \<Rightarrow> errno option \<times> gsh_alias_store" where
  "gsh_aliases_unset s name =
    (if \<not> gsh_alias_name_is_valid name then (Some EINVAL, s)
     else case alias_index s name (name_hash name) of
       None \<Rightarrow> (Some ENOENT, s)
     | Some index \<Rightarrow>
         (let e = al_entries s ! index;
              moved = map (\<lambda>other. if ae_offset e < ae_offset other
                  then other\<lparr>ae_offset := ae_offset other - ae_length e\<rparr> else other)
                (al_entries s)
          in rebuild_hash (s\<lparr>al_entries := take index moved @ drop (Suc index) moved,
               al_text := take (ae_offset e) (al_text s) @
                 drop (ae_offset e + ae_length e) (al_text s)\<rparr>)))"

definition gsh_aliases_clear :: "gsh_alias_store \<Rightarrow> gsh_alias_store" where
  "gsh_aliases_clear s = s\<lparr>al_entries := [], al_slots := empty_index 256, al_text := []\<rparr>"

definition gsh_aliases_count :: "gsh_alias_store \<Rightarrow> nat" where
  "gsh_aliases_count s = length (al_entries s)"

definition gsh_aliases_assignment :: "gsh_alias_store \<Rightarrow> nat \<Rightarrow> byte list option" where
  "gsh_aliases_assignment s index =
    (if length (al_entries s) \<le> index then None
     else Some (cstring_at (al_text s) (ae_offset (al_entries s ! index))))"

section \<open>The representation\<close>

fun assignments :: "(byte list \<times> byte list) list \<Rightarrow> byte list" where
  "assignments [] = []"
| "assignments ((name, val) # ps) = assignment_bytes name val @ assignments ps"

fun entries_of :: "nat \<Rightarrow> (byte list \<times> byte list) list \<Rightarrow> gsh_alias_entry list" where
  "entries_of offset [] = []"
| "entries_of offset ((name, val) # ps) =
    \<lparr>ae_offset = offset, ae_length = length name + length val + 2, ae_hash = name_hash name,
     ae_name_length = length name\<rparr> # entries_of (offset + (length name + length val + 2)) ps"

definition alias_ok_pair :: "byte list \<times> byte list \<Rightarrow> bool" where
  "alias_ok_pair p \<longleftrightarrow> gsh_alias_name_is_valid (fst p) \<and> length (fst p) \<le> UINT16_MAX \<and>
    length (snd p) \<le> GSH_ALIAS_VALUE_CAP \<and> NUL \<notin> set (snd p)"

definition alias_rep :: "gsh_alias_store \<Rightarrow> (byte list \<times> byte list) list \<Rightarrow> bool" where
  "alias_rep s ps \<longleftrightarrow> al_text s = assignments ps \<and> al_entries s = entries_of 0 ps \<and>
    index_rep 256 (al_slots s) (map name_hash (map fst ps)) \<and> distinct (map fst ps) \<and>
    length ps \<le> GSH_ALIAS_CAP \<and> length (assignments ps) \<le> GSH_ALIAS_TEXT_CAP \<and>
    list_all alias_ok_pair ps"

lemma length_assignment_bytes [simp]:
  "length (assignment_bytes name val) = length name + length val + 2"
  by (simp add: assignment_bytes_def)

lemma assignments_append [simp]: "assignments (ps @ qs) = assignments ps @ assignments qs"
  by (induction ps rule: assignments.induct) simp_all

lemma entries_of_append:
  "entries_of k (ps @ qs) = entries_of k ps @ entries_of (k + length (assignments ps)) qs"
  by (induction ps arbitrary: k rule: assignments.induct) (simp_all add: add.assoc)

lemma length_entries_of [simp]: "length (entries_of k ps) = length ps"
  by (induction k ps rule: entries_of.induct) simp_all

lemma hash_entries_of [simp]: "map ae_hash (entries_of k ps) = map name_hash (map fst ps)"
  by (induction k ps rule: entries_of.induct) simp_all

lemma entries_of_offsets:
  "e \<in> set (entries_of k ps) \<Longrightarrow> k \<le> ae_offset e \<and> ae_offset e < k + length (assignments ps)"
  by (induction k ps rule: entries_of.induct) force+

lemma entries_of_before:
  assumes "\<And>e. ae_offset e < k + length (assignments ps) \<Longrightarrow> f e = e"
  shows "map f (entries_of k ps) = entries_of k ps"
  using assms by (intro map_idI) (auto dest: entries_of_offsets)

lemma entries_of_shift:
  "(\<And>e. k \<le> ae_offset e \<Longrightarrow> f e = e\<lparr>ae_offset := ae_offset e + a - b\<rparr>) \<Longrightarrow> b \<le> k \<Longrightarrow>
    map f (entries_of k ps) = entries_of (k + a - b) ps"
proof (induction k ps rule: entries_of.induct)
  case (2 k name val ps)
  have "map f (entries_of (k + (length name + length val + 2)) ps) =
      entries_of (k + (length name + length val + 2) + a - b) ps"
    using "2.prems" by (intro "2.IH") auto
  with "2.prems" show ?case by (simp add: add.assoc add.commute[of _ a] Suc_diff_le)
qed simp

lemma nth_split:
  assumes "i < length ps"
  shows "ps = take i ps @ ps ! i # drop (Suc i) ps"
  using assms by (simp add: id_take_nth_drop)

text \<open>Reading an entry of a represented store.\<close>

lemma alias_rep_split:
  assumes "alias_rep s ps" "i < length ps" "ps ! i = (name, val)"
  shows "al_text s = assignments (take i ps) @ assignment_bytes name val @ assignments (drop (Suc i) ps)"
    "al_entries s = entries_of 0 (take i ps) @
      \<lparr>ae_offset = length (assignments (take i ps)), ae_length = length name + length val + 2,
       ae_hash = name_hash name, ae_name_length = length name\<rparr> #
      entries_of (length (assignments (take i ps)) + (length name + length val + 2)) (drop (Suc i) ps)"
    "al_entries s ! i =
      \<lparr>ae_offset = length (assignments (take i ps)), ae_length = length name + length val + 2,
       ae_hash = name_hash name, ae_name_length = length name\<rparr>"
proof -
  have ps: "ps = take i ps @ (name, val) # drop (Suc i) ps"
    using nth_split[OF assms(2)] assms(3) by simp
  show read: "al_text s = assignments (take i ps) @ assignment_bytes name val @
      assignments (drop (Suc i) ps)"
    using assms(1) by (subst (asm) alias_rep_def, subst (asm) (1) ps) simp
  show entries: "al_entries s = entries_of 0 (take i ps) @
      \<lparr>ae_offset = length (assignments (take i ps)), ae_length = length name + length val + 2,
       ae_hash = name_hash name, ae_name_length = length name\<rparr> #
      entries_of (length (assignments (take i ps)) + (length name + length val + 2)) (drop (Suc i) ps)"
    using assms(1) by (subst (asm) alias_rep_def, subst (asm) (2) ps) (simp add: entries_of_append)
  show "al_entries s ! i =
      \<lparr>ae_offset = length (assignments (take i ps)), ae_length = length name + length val + 2,
       ae_hash = name_hash name, ae_name_length = length name\<rparr>"
    unfolding entries using assms(2) by (simp add: nth_append)
qed


lemma alias_bytes_no_equals:
  "gsh_alias_name_is_valid name \<Longrightarrow> CHR ''='' \<notin> set name \<and> NUL \<notin> set name \<and> name \<noteq> []"
  by (auto simp: gsh_alias_name_is_valid_def list_all_iff alias_byte_def byte_class_defs
      less_eq_char_def)

lemma prefix_equals:
  assumes "c \<notin> set n" "c \<notin> set m"
  shows "take (Suc (length m)) (n @ c # r) = m @ [c] \<longleftrightarrow> n = m"
proof
  assume eq: "take (Suc (length m)) (n @ c # r) = m @ [c]"
  have at: "(n @ c # r) ! i = (m @ [c]) ! i" if "i \<le> length m" for i
    using arg_cong[OF eq, of "\<lambda>xs. xs ! i"] that by (simp del: take_append)
  consider "length n < length m" | "length m < length n" | "length n = length m" by linarith
  then show "n = m"
  proof cases
    case 1
    with at[of "length n"] have "c = m ! length n" by (simp add: nth_append)
    with 1 assms(2) show ?thesis by (metis nth_mem)
  next
    case 2
    with at[of "length m"] have "n ! length m = c" by (simp add: nth_append)
    with 2 assms(1) show ?thesis by (metis nth_mem)
  next
    case 3
    with eq show ?thesis by simp
  qed
qed simp

lemma alias_rep_matches:
  assumes "alias_rep s ps" "i < length ps" "gsh_alias_name_is_valid name"
  shows "entry_matches s (al_entries s ! i) name (name_hash name) \<longleftrightarrow> map fst ps ! i = name"
proof -
  obtain n v where p: "ps ! i = (n, v)" by fastforce
  note split = alias_rep_split[OF assms(1,2) p]
  have "alias_ok_pair (ps ! i)"
    using assms(1,2) by (simp add: alias_rep_def list_all_length)
  then have "CHR ''='' \<notin> set n" "CHR ''='' \<notin> set name"
    using p assms(3) alias_bytes_no_equals by (auto simp: alias_ok_pair_def)
  note eq = prefix_equals[OF this]
  have drop: "drop (length (assignments (take i ps))) (al_text s) =
      n @ CHR ''='' # (v @ [NUL] @ assignments (drop (Suc i) ps))"
    by (simp add: split(1) assignment_bytes_def)
  have "length (assignments (take i ps)) < length (al_text s)"
    by (simp add: split(1))
  then show ?thesis
    unfolding entry_matches_def split(3) using assms(2) p eq
    by (auto simp: drop simp del: take_Suc_Cons)
qed

lemma alias_rep_index:
  assumes "alias_rep s ps" "gsh_alias_name_is_valid name"
  shows "alias_index s name (name_hash name) = Some i \<longleftrightarrow> i < length ps \<and> fst (ps ! i) = name"
    "alias_index s name (name_hash name) = None \<longleftrightarrow> name \<notin> fst ` set ps"
proof -
  have len: "length (al_entries s) = length ps"
    using assms(1) by (simp add: alias_rep_def)
  have rep: "index_rep 256 (al_slots s) (map name_hash (map fst ps))" "distinct (map fst ps)"
    using assms(1) by (simp_all add: alias_rep_def)
  let ?P = "\<lambda>i. i < length (al_entries s) \<and>
      entry_matches s (al_entries s ! i) name (name_hash name)"
  have P: "?P i \<longleftrightarrow> map fst ps ! i = name" if "i < length (map fst ps)" for i
    using alias_rep_matches[OF assms(1) _ assms(2), of i] len that by simp
  have some: "index_find (al_slots s) ?P (name_hash name) = Some i \<longleftrightarrow>
      i < length (map fst ps) \<and> map fst ps ! i = name"
    by (rule probing.find_name_Some[OF rep]) (rule P)
  have none: "index_find (al_slots s) ?P (name_hash name) = None \<longleftrightarrow> name \<notin> set (map fst ps)"
    by (rule probing.find_name_None[OF rep]) (rule P)
  show "alias_index s name (name_hash name) = Some i \<longleftrightarrow> i < length ps \<and> fst (ps ! i) = name"
    unfolding alias_index_def some by auto
  show "alias_index s name (name_hash name) = None \<longleftrightarrow> name \<notin> fst ` set ps"
    unfolding alias_index_def none by simp
qed

text \<open>Lookup reads the map of the represented assignments.\<close>

definition alias_value :: "gsh_alias_store \<Rightarrow> byte list \<Rightarrow> byte list option" where
  "alias_value s name = map_option fst (gsh_aliases_lookup s name)"

lemma cstring_at_end: "NUL \<notin> set v \<Longrightarrow> length xs = k \<Longrightarrow> cstring_at (xs @ v @ NUL # r) k = v"
  by (simp add: cstring_at_def takeWhile_tail)
    (metis takeWhile_append2 takeWhile.simps(2) self_append_conv)

lemma alias_rep_read:
  assumes "alias_rep s ps" "i < length ps" "ps ! i = (name, val)"
  shows "cstring_at (al_text s) (ae_offset (al_entries s ! i) + length name + 1) = val"
    "cstring_at (al_text s) (ae_offset (al_entries s ! i)) = name @ CHR ''='' # val"
proof -
  note split = alias_rep_split[OF assms]
  have ok: "alias_ok_pair (name, val)"
    using assms by (metis alias_rep_def list_all_length)
  then have nul: "NUL \<notin> set val" "NUL \<notin> set (name @ CHR ''='' # val)"
    using alias_bytes_no_equals by (auto simp: alias_ok_pair_def)
  show "cstring_at (al_text s) (ae_offset (al_entries s ! i) + length name + 1) = val"
    using cstring_at_end[OF nul(1) refl, of "assignments (take i ps) @ name @ ''=''"]
    by (simp add: split(1,3) assignment_bytes_def)
  show "cstring_at (al_text s) (ae_offset (al_entries s ! i)) = name @ CHR ''='' # val"
    using cstring_at_end[OF nul(2) refl, of "assignments (take i ps)"]
    by (simp add: split(1,3) assignment_bytes_def)
qed

lemma alias_rep_value:
  assumes "alias_rep s ps"
  shows "alias_value s = map_of ps"
proof
  fix name
  have valid: "alias_ok_pair (ps ! i)" if "i < length ps" for i
    using assms that by (simp add: alias_rep_def list_all_length)
  show "alias_value s name = map_of ps name"
  proof (cases "gsh_alias_name_is_valid name")
    case False
    then have "map_of ps name = None"
      using valid by (force simp: map_of_eq_None_iff in_set_conv_nth alias_ok_pair_def)
    with False show ?thesis by (simp add: alias_value_def gsh_aliases_lookup_def)
  next
    case True
    show ?thesis
    proof (cases "alias_index s name (name_hash name)")
      case None
      with True alias_rep_index(2)[OF assms True] have "map_of ps name = None"
        by (simp add: map_of_eq_None_iff)
      with None True show ?thesis by (simp add: alias_value_def gsh_aliases_lookup_def)
    next
      case (Some i)
      with alias_rep_index(1)[OF assms True, of i] obtain v where
        i: "i < length ps" "ps ! i = (name, v)" by (cases "ps ! i") auto
      then have "map_of ps name = Some v"
        using assms by (metis alias_rep_def map_of_is_SomeI nth_mem)
      with Some True alias_rep_read(1)[OF assms i] show ?thesis
        by (simp add: alias_value_def gsh_aliases_lookup_def)
    qed
  qed
qed


section \<open>The operations on the represented assignments\<close>

lemma alias_rep_empty: "al_slots s = empty_index 256 \<Longrightarrow> al_entries s = [] \<Longrightarrow> al_text s = [] \<Longrightarrow> alias_rep s []"
  using probing.rep_empty by (simp add: alias_rep_def)

lemma alias_rep_append:
  assumes "alias_rep s ps" "alias_ok_pair (name, val)" "name \<notin> fst ` set ps"
    "append_assignment s name val (name_hash name) = (r, t)"
  shows "if length ps = GSH_ALIAS_CAP \<or>
      GSH_ALIAS_TEXT_CAP < length (assignments ps) + length name + length val + 2
    then r = Some ENOSPC \<and> t = s else r = None \<and> alias_rep t (ps @ [(name, val)])"
proof -
  have rep: "index_rep 256 (al_slots s) (map name_hash (map fst ps))"
    and entries: "al_entries s = entries_of 0 ps" and bytes: "al_text s = assignments ps"
    and cap: "length (assignments ps) \<le> 32768"
    using assms(1) by (simp_all add: alias_rep_def)
  have full: "length (al_entries s) = 128 \<or>
        32768 - length (al_text s) < length name + length val + 2 \<longleftrightarrow>
      length ps = 128 \<or> 32768 < length (assignments ps) + length name + length val + 2"
    using cap by (auto simp: entries bytes)
  show ?thesis
  proof (cases "length ps = 128 \<or>
      32768 < length (assignments ps) + length name + length val + 2")
    case True
    with assms(4) full show ?thesis by (simp add: append_assignment_def Let_def)
  next
    case False
    have "length (map name_hash (map fst ps)) < 256"
      using assms(1) by (simp add: alias_rep_def)
    from index_insert_spec[OF slot_count_caps(1) rep this, of "name_hash name"] obtain slots where
      slots: "index_insert (al_slots s) (name_hash name) (length ps) = Some slots"
        "index_rep 256 slots (map name_hash (map fst ps) @ [name_hash name])" by auto
    have "(r, t) = insert_hash
        (s\<lparr>al_entries := entries_of 0 (ps @ [(name, val)]),
           al_text := assignments (ps @ [(name, val)])\<rparr>) (length ps)"
      using assms(4) False full
      by (simp add: append_assignment_def Let_def entries bytes entries_of_append)
    then have run: "t = s\<lparr>al_slots := slots,
          al_entries := entries_of 0 (ps @ [(name, val)]),
          al_text := assignments (ps @ [(name, val)])\<rparr> \<and> r = None"
      using slots(1) by (simp add: insert_hash_def entries_of_append nth_append)
    show ?thesis
      using run slots(2) assms(1-3) False by (auto simp: alias_rep_def)
  qed
qed

lemma alias_rep_replace:
  assumes rep: "alias_rep s ps" and pair: "alias_ok_pair (name, val)"
    and i: "i < length ps" "ps ! i = (name, old)"
    and run: "replace_assignment s i name val = (r, t)"
  shows "if GSH_ALIAS_TEXT_CAP < length (assignments ps) - length old + length val
    then r = Some ENOSPC \<and> t = s else r = None \<and> alias_rep t (ps[i := (name, val)])"
proof -
  note split = alias_rep_split[OF rep i]
  let ?pre = "take i ps" and ?post = "drop (Suc i) ps"
  let ?off = "length (assignments ?pre)"
  have ps: "ps = ?pre @ (name, old) # ?post"
    using nth_split[OF i(1)] i(2) by simp
  have total: "length (assignments ps) =
      ?off + (length name + length old + 2) + length (assignments ?post)"
    by (subst ps) simp
  have bytes: "al_text s = assignments ps" and cap: "length (assignments ps) \<le> 32768"
    using rep by (simp_all add: alias_rep_def)
  have full: "length name + length old + 2 < length name + length val + 2 \<and>
        32768 - length (al_text s) < length name + length val + 2 - (length name + length old + 2) \<longleftrightarrow>
      32768 < length (assignments ps) - length old + length val"
    using cap total by (auto simp: bytes)
  show ?thesis
  proof (cases "32768 < length (assignments ps) - length old + length val")
    case True
    with run full show ?thesis
      by (simp add: replace_assignment_def split(3) Let_def)
  next
    case False
    have new: "ps[i := (name, val)] = ?pre @ (name, val) # ?post"
      using i(1) by (simp add: upd_conv_take_nth_drop)
    let ?old = "length name + length old + 2" and ?len = "length name + length val + 2"
    let ?f = "\<lambda>other. if ?off < ae_offset other
                then other\<lparr>ae_offset := ae_offset other + ?len - ?old\<rparr> else other"
    let ?e = "\<lparr>ae_offset = ?off, ae_length = ?old, ae_hash = name_hash name,
                ae_name_length = length name\<rparr>"
    have pre: "map ?f (entries_of 0 ?pre) = entries_of 0 ?pre"
      by (rule entries_of_before) simp
    have post: "map ?f (entries_of (?off + ?old) ?post) = entries_of (?off + ?len) ?post"
      using entries_of_shift[of "?off + ?old" ?f ?len ?old ?post] by simp
    have moved: "(if ?len \<noteq> ?old then map ?f (al_entries s) else al_entries s) =
        entries_of 0 ?pre @ ?e # entries_of (?off + ?len) ?post"
      using pre post by (cases "?len = ?old") (simp_all add: split(2))
    have li: "length (entries_of 0 ?pre) = i"
      using i(1) by simp
    have f: "ae_offset (al_entries s ! i) = ?off" "ae_length (al_entries s ! i) = ?old"
      by (simp_all add: split(3))
    have unmet: "\<not> (?old < ?len \<and> 32768 - length (al_text s) < ?len - ?old)"
      using False full by blast
    have "(r, t) = (None, s\<lparr>al_entries := (entries_of 0 ?pre @ ?e # entries_of (?off + ?len) ?post)
          [i := ((entries_of 0 ?pre @ ?e # entries_of (?off + ?len) ?post) ! i)\<lparr>ae_length := ?len\<rparr>],
        al_text := take ?off (al_text s) @ assignment_bytes name val @ drop (?off + ?old) (al_text s)\<rparr>)"
      using run by (simp only: replace_assignment_def Let_def f if_not_P[OF unmet] moved)
    then have "t = s\<lparr>al_entries := entries_of 0 (ps[i := (name, val)]),
        al_text := assignments (ps[i := (name, val)])\<rparr> \<and> r = None"
      using li by (simp add: new entries_of_append list_update_append split(1) nth_append)
    moreover have "map fst (ps[i := (name, val)]) = map fst ps"
      using i by (simp add: map_update) (metis fst_conv list_update_id nth_map)
    moreover have "length (assignments (ps[i := (name, val)])) \<le> 32768"
      using False total by (simp add: new)
    moreover have "list_all alias_ok_pair (ps[i := (name, val)])"
      using rep pair set_update_subset_insert[of ps i "(name, val)"]
      by (auto simp: alias_rep_def list_all_iff)
    ultimately show ?thesis
      using rep False by (auto simp: alias_rep_def)
  qed
qed

lemma alias_rep_unset:
  assumes rep: "alias_rep s ps" and i: "i < length ps" "ps ! i = (name, val)"
    and run: "gsh_aliases_unset s name = (r, t)"
  shows "r = None \<and> alias_rep t (take i ps @ drop (Suc i) ps)"
proof -
  note split = alias_rep_split[OF rep i]
  let ?pre = "take i ps" and ?post = "drop (Suc i) ps"
  let ?off = "length (assignments ?pre)" and ?len = "length name + length val + 2"
  let ?f = "\<lambda>other. if ?off < ae_offset other
              then other\<lparr>ae_offset := ae_offset other - ?len\<rparr> else other"
  have valid: "gsh_alias_name_is_valid name"
    using rep i by (metis alias_ok_pair_def alias_rep_def fst_conv list_all_length)
  have index: "alias_index s name (name_hash name) = Some i"
    using alias_rep_index(1)[OF rep valid, of i] i by simp
  have pre: "map ?f (entries_of 0 ?pre) = entries_of 0 ?pre"
    by (rule entries_of_before) simp
  have post: "map ?f (entries_of (?off + ?len) ?post) = entries_of ?off ?post"
    using entries_of_shift[of "?off + ?len" ?f 0 ?len ?post] by simp
  have li: "length (entries_of 0 ?pre) = i"
    using i(1) by simp
  have moved: "take i (map ?f (al_entries s)) @ drop (Suc i) (map ?f (al_entries s)) =
      entries_of 0 (?pre @ ?post)"
    using pre post li by (simp add: split(2) entries_of_append)
  have bytes: "take ?off (al_text s) @ drop (?off + ?len) (al_text s) = assignments (?pre @ ?post)"
    by (simp add: split(1))
  have hashes: "length (map name_hash (map fst (?pre @ ?post))) \<le> 256"
    using rep i by (auto simp: alias_rep_def)
  from index_rebuild_spec(1)[OF this] obtain slots where
    slots: "index_rebuild (empty_index 256) 0 (map name_hash (map fst (?pre @ ?post))) = Some slots"
      "index_rep 256 slots (map name_hash (map fst (?pre @ ?post)))" by blast
  have f: "ae_offset (al_entries s ! i) = ?off" "ae_length (al_entries s ! i) = ?len"
    by (simp_all add: split(3))
  have "gsh_aliases_unset s name = rebuild_hash (s\<lparr>al_entries := entries_of 0 (?pre @ ?post),
        al_text := assignments (?pre @ ?post)\<rparr>)"
    unfolding gsh_aliases_unset_def Let_def moved[symmetric] bytes[symmetric]
    by (simp only: valid index f option.case not_True_eq_False if_False)
  then have "rebuild_hash (s\<lparr>al_entries := entries_of 0 (?pre @ ?post),
        al_text := assignments (?pre @ ?post)\<rparr>) = (r, t)"
    using run by simp
  then have "t = s\<lparr>al_entries := entries_of 0 (?pre @ ?post),
        al_text := assignments (?pre @ ?post), al_slots := slots\<rparr> \<and> r = None"
    using slots(1) by (simp add: rebuild_hash_def del: map_append)
  then have t: "al_text t = assignments (?pre @ ?post)" "al_entries t = entries_of 0 (?pre @ ?post)"
    "al_slots t = slots" "r = None" by simp_all
  have "distinct (map fst (?pre @ ?post))" "length (?pre @ ?post) \<le> 128"
    "length (assignments (?pre @ ?post)) \<le> 32768" "list_all alias_ok_pair (?pre @ ?post)"
  proof -
    obtain pre post where q: "pre = ?pre" "post = ?post" by simp
    have ps: "ps = pre @ (name, val) # post" using nth_split[OF i(1)] i(2) by (simp add: q)
    have "distinct (map fst ps)" "length ps \<le> 128" "length (assignments ps) \<le> 32768"
      "list_all alias_ok_pair ps" using rep by (simp_all add: alias_rep_def)
    then show "distinct (map fst (?pre @ ?post))" "length (?pre @ ?post) \<le> 128"
      "length (assignments (?pre @ ?post)) \<le> 32768" "list_all alias_ok_pair (?pre @ ?post)"
      unfolding q[symmetric] by (auto simp: ps)
  qed
  then show ?thesis unfolding alias_rep_def t using slots(2) by blast
qed


section \<open>The store as a finite map\<close>

definition alias_pairs :: "gsh_alias_store \<Rightarrow> (byte list \<times> byte list) list" where
  "alias_pairs s =
    map (\<lambda>e. (take (ae_name_length e) (drop (ae_offset e) (al_text s)),
              cstring_at (al_text s) (ae_offset e + ae_name_length e + 1)))
      (al_entries s)"

definition alias_ok :: "gsh_alias_store \<Rightarrow> bool" where
  "alias_ok s \<longleftrightarrow> alias_rep s (alias_pairs s)"

lemma alias_rep_pairs:
  assumes "alias_rep s ps"
  shows "alias_pairs s = ps"
proof (rule nth_equalityI)
  have len: "length (al_entries s) = length ps"
    using assms by (simp add: alias_rep_def)
  then show "length (alias_pairs s) = length ps"
    by (simp add: alias_pairs_def)
  fix i assume "i < length (alias_pairs s)"
  then have i: "i < length ps" using len by (simp add: alias_pairs_def)
  obtain name val where p: "ps ! i = (name, val)" by fastforce
  note split = alias_rep_split[OF assms i p]
  have e: "ae_name_length (al_entries s ! i) = length name"
    "ae_offset (al_entries s ! i) = length (assignments (take i ps))"
    by (simp_all add: split(3))
  have "take (length name) (drop (length (assignments (take i ps))) (al_text s)) = name"
    by (simp add: split(1) assignment_bytes_def)
  with e alias_rep_read(1)[OF assms i p] i len show "alias_pairs s ! i = ps ! i"
    by (simp add: alias_pairs_def p)
qed

lemma alias_okI: "alias_rep s ps \<Longrightarrow> alias_ok s"
  using alias_rep_pairs by (simp add: alias_ok_def)

lemma alias_ok_count: "alias_ok s \<Longrightarrow> gsh_aliases_count s = length (alias_pairs s)"
  by (simp add: gsh_aliases_count_def alias_pairs_def)

lemma alias_ok_value: "alias_ok s \<Longrightarrow> alias_value s = map_of (alias_pairs s)"
  using alias_rep_value by (simp add: alias_ok_def)

lemma map_of_snoc:
  "k \<notin> fst ` set ps \<Longrightarrow> map_of (ps @ [(k, v)]) = (map_of ps)(k \<mapsto> v)"
  by (induction ps) (auto simp: fun_upd_twist)

lemma map_of_replace:
  assumes "distinct (map fst ps)" "i < length ps" "fst (ps ! i) = k"
  shows "map_of (ps[i := (k, v)]) = (map_of ps)(k \<mapsto> v)"
  using assms
proof (induction ps arbitrary: i)
  case (Cons p ps)
  show ?case
  proof (cases i)
    case 0
    with Cons.prems show ?thesis by (cases p) auto
  next
    case (Suc j)
    with Cons.prems have "k \<noteq> fst p" by (metis Suc_less_eq distinct.simps(2) imageI length_Cons list.set_map list.simps(9) nth_Cons_Suc nth_mem)
    with Cons Suc show ?thesis by (cases p) (auto simp: fun_upd_twist)
  qed
qed simp

lemma map_of_remove:
  assumes "distinct (map fst ps)" "i < length ps" "fst (ps ! i) = k"
  shows "map_of (take i ps @ drop (Suc i) ps) = (map_of ps)(k := None)"
  using assms
proof (induction ps arbitrary: i)
  case (Cons p ps)
  show ?case
  proof (cases i)
    case 0
    with Cons.prems show ?thesis by (cases p) (auto simp: map_of_eq_None_iff intro!: ext)
  next
    case (Suc j)
    with Cons.prems have "k \<noteq> fst p" by (metis Suc_less_eq distinct.simps(2) imageI length_Cons list.set_map list.simps(9) nth_Cons_Suc nth_mem)
    with Cons Suc show ?thesis by (cases p) (auto simp: fun_upd_twist)
  qed
qed simp

text \<open>When \<open>gsh_aliases_set\<close> has its arguments in bounds, and when the store has room.\<close>

definition alias_args_ok :: "byte list \<Rightarrow> byte list \<Rightarrow> bool" where
  "alias_args_ok name val \<longleftrightarrow> gsh_alias_name_is_valid name \<and> length name \<le> UINT16_MAX \<and>
    length val \<le> GSH_ALIAS_VALUE_CAP \<and> length name + length val + 2 \<le> GSH_ALIAS_TEXT_CAP"

definition alias_has_room :: "gsh_alias_store \<Rightarrow> byte list \<Rightarrow> byte list \<Rightarrow> bool" where
  "alias_has_room s name val \<longleftrightarrow>
    (case alias_value s name of
       None \<Rightarrow> gsh_aliases_count s < GSH_ALIAS_CAP \<and>
         length (al_text s) + length name + length val + 2 \<le> GSH_ALIAS_TEXT_CAP
     | Some old \<Rightarrow> length (al_text s) - length old + length val \<le> GSH_ALIAS_TEXT_CAP)"

lemma alias_set_spec:
  assumes ok: "alias_ok s" and nul: "NUL \<notin> set val" and run: "gsh_aliases_set s name val = (r, t)"
  shows "alias_ok t" "r = None \<longleftrightarrow> alias_args_ok name val \<and> alias_has_room s name val"
    "r = None \<Longrightarrow> alias_value t = (alias_value s)(name \<mapsto> val)" "r \<noteq> None \<Longrightarrow> t = s"
proof -
  let ?ps = "alias_pairs s"
  have rep: "alias_rep s ?ps" and val_s: "alias_value s = map_of ?ps"
    using ok alias_ok_value by (simp_all add: alias_ok_def)
  have dist: "distinct (map fst ?ps)" and bytes: "al_text s = assignments ?ps"
    and len: "length ?ps \<le> 128"
    using rep by (simp_all add: alias_rep_def)
  have "alias_ok t \<and> (r = None \<longleftrightarrow> alias_args_ok name val \<and> alias_has_room s name val) \<and>
    (r = None \<longrightarrow> alias_value t = (alias_value s)(name \<mapsto> val)) \<and> (r \<noteq> None \<longrightarrow> t = s)"
  proof (cases "alias_args_ok name val")
    case False
    with run have "t = s \<and> r \<noteq> None"
      by (auto simp: gsh_aliases_set_def alias_args_ok_def split: if_splits)
    with ok False show ?thesis by (auto simp del: not_None_eq)
  next
    case True
    have pair: "alias_ok_pair (name, val)"
      using True nul by (simp add: alias_args_ok_def alias_ok_pair_def)
    have valid: "gsh_alias_name_is_valid name"
      using True by (simp add: alias_args_ok_def)
    have run: "(case alias_index s name (name_hash name) of
        Some index \<Rightarrow> replace_assignment s index name val
      | None \<Rightarrow> append_assignment s name val (name_hash name)) = (r, t)"
    proof -
      have "\<not> 18446744073709551615 - length val - 2 < length name"
        "\<not> 32768 < length name + length val + 2"
        using True by (simp add: alias_args_ok_def not_less, linarith)
          (use True in \<open>simp add: alias_args_ok_def\<close>)
      then show ?thesis
        using run True by (simp add: gsh_aliases_set_def alias_args_ok_def Let_def)
    qed
    show ?thesis
    proof (cases "alias_index s name (name_hash name)")
      case None
      then have new: "name \<notin> fst ` set ?ps"
        using alias_rep_index(2)[OF rep valid] by simp
      then have "alias_value s name = None"
        by (simp add: val_s map_of_eq_None_iff)
      then have room: "alias_has_room s name val \<longleftrightarrow> \<not> (length ?ps = 128 \<or>
          32768 < length (assignments ?ps) + length name + length val + 2)"
        using len alias_ok_count[OF ok] by (auto simp: alias_has_room_def bytes)
      have app: "append_assignment s name val (name_hash name) = (r, t)"
        using run None by simp
      note spec = alias_rep_append[OF rep pair new app]
      show ?thesis
      proof (cases "alias_has_room s name val")
        case True
        with spec room have "r = None" "alias_rep t (?ps @ [(name, val)])" by auto
        moreover from this(2) have "alias_value t = map_of (?ps @ [(name, val)])"
          by (rule alias_rep_value)
        moreover have "map_of (?ps @ [(name, val)]) = (map_of ?ps)(name \<mapsto> val)"
          using new by (rule map_of_snoc)
        ultimately show ?thesis
          using True \<open>alias_args_ok name val\<close> val_s alias_okI by simp
      next
        case False
        with spec room ok show ?thesis by auto
      qed
    next
      case (Some i)
      then have i: "i < length ?ps" "fst (?ps ! i) = name"
        using alias_rep_index(1)[OF rep valid, of i] by auto
      obtain old where old: "?ps ! i = (name, old)"
        using i(2) by (cases "?ps ! i") auto
      have "alias_value s name = Some old"
        using i(1) old dist val_s by (metis map_of_is_SomeI nth_mem)
      then have room: "alias_has_room s name val \<longleftrightarrow>
          \<not> 32768 < length (assignments ?ps) - length old + length val"
        by (auto simp: alias_has_room_def bytes)
      have repl: "replace_assignment s i name val = (r, t)"
        using run Some by simp
      note spec = alias_rep_replace[OF rep pair i(1) old repl]
      show ?thesis
      proof (cases "alias_has_room s name val")
        case True
        with spec room have "r = None" "alias_rep t (?ps[i := (name, val)])" by auto
        moreover from this(2) have "alias_value t = map_of (?ps[i := (name, val)])"
          by (rule alias_rep_value)
        ultimately show ?thesis
          using True \<open>alias_args_ok name val\<close> val_s alias_okI map_of_replace[OF dist i] by simp
      next
        case False
        with spec room ok show ?thesis by auto
      qed
    qed
  qed
  then show "alias_ok t" "r = None \<longleftrightarrow> alias_args_ok name val \<and> alias_has_room s name val"
    "r = None \<Longrightarrow> alias_value t = (alias_value s)(name \<mapsto> val)" "r \<noteq> None \<Longrightarrow> t = s"
    by blast+
qed

lemma alias_unset_spec:
  assumes ok: "alias_ok s" and run: "gsh_aliases_unset s name = (r, t)"
  shows "alias_ok t" "r = None \<longleftrightarrow> alias_value s name \<noteq> None"
    "r = None \<Longrightarrow> alias_value t = (alias_value s)(name := None)" "r \<noteq> None \<Longrightarrow> t = s"
proof -
  let ?ps = "alias_pairs s"
  have rep: "alias_rep s ?ps" and val_s: "alias_value s = map_of ?ps"
    using ok alias_ok_value by (simp_all add: alias_ok_def)
  have dist: "distinct (map fst ?ps)" using rep by (simp add: alias_rep_def)
  have "alias_ok t \<and> (r = None \<longleftrightarrow> alias_value s name \<noteq> None) \<and>
    (r = None \<longrightarrow> alias_value t = (alias_value s)(name := None)) \<and> (r \<noteq> None \<longrightarrow> t = s)"
  proof (cases "gsh_alias_name_is_valid name \<and> alias_index s name (name_hash name) \<noteq> None")
    case False
    then have "alias_value s name = None"
      by (auto simp: alias_value_def gsh_aliases_lookup_def)
    moreover have "t = s \<and> r \<noteq> None"
      using run False by (auto simp: gsh_aliases_unset_def split: option.splits if_splits)
    ultimately show ?thesis using ok by (auto simp del: not_None_eq)
  next
    case True
    then obtain i where "alias_index s name (name_hash name) = Some i" by auto
    with True have i: "i < length ?ps" "fst (?ps ! i) = name"
      using alias_rep_index(1)[OF rep, of name i] by auto
    obtain old where old: "?ps ! i = (name, old)"
      using i(2) by (cases "?ps ! i") auto
    from alias_rep_unset[OF rep i(1) old run] have
      t: "r = None" "alias_rep t (take i ?ps @ drop (Suc i) ?ps)" by auto
    have "alias_value s name \<noteq> None"
      using i(1) old dist val_s by (metis map_of_is_SomeI nth_mem option.distinct(1))
    with t alias_rep_value[OF t(2)] map_of_remove[OF dist i] val_s alias_okI[OF t(2)]
    show ?thesis by simp
  qed
  then show "alias_ok t" "r = None \<longleftrightarrow> alias_value s name \<noteq> None"
    "r = None \<Longrightarrow> alias_value t = (alias_value s)(name := None)" "r \<noteq> None \<Longrightarrow> t = s"
    by blast+
qed

lemma alias_clear_spec:
  "alias_ok (gsh_aliases_clear s)" "alias_value (gsh_aliases_clear s) = Map.empty"
  "alias_ok (gsh_aliases_initialize s)" "alias_value (gsh_aliases_initialize s) = Map.empty"
proof -
  have "alias_rep (gsh_aliases_clear s) []" "alias_rep (gsh_aliases_initialize s) []"
    by (rule alias_rep_empty, simp_all add: gsh_aliases_clear_def gsh_aliases_initialize_def)+
  from this[THEN alias_rep_value] this[THEN alias_okI]
  show "alias_ok (gsh_aliases_clear s)" "alias_value (gsh_aliases_clear s) = Map.empty"
    "alias_ok (gsh_aliases_initialize s)" "alias_value (gsh_aliases_initialize s) = Map.empty"
    by simp_all
qed

section \<open>Properties\<close>

text \<open>C8. \<open>gsh_aliases_set\<close> refines the update of a map: it fails exactly for an invalid or too
  long name or value or for want of room, and then changes nothing; otherwise the store stays
  well formed (packed text, exact offsets, probing index) and reads as the old map with the
  new value.\<close>

theorem aliases_set_refines:
  assumes "alias_ok s" "NUL \<notin> set val"
  shows "case gsh_aliases_set s name val of
      (None, t) \<Rightarrow> alias_args_ok name val \<and> alias_has_room s name val \<and> alias_ok t \<and>
        alias_value t = (alias_value s)(name \<mapsto> val)
    | (Some err, t) \<Rightarrow> \<not> (alias_args_ok name val \<and> alias_has_room s name val) \<and> t = s"
proof -
  obtain r t where run: "gsh_aliases_set s name val = (r, t)" by fastforce
  show ?thesis using alias_set_spec[OF assms run] by (cases r) (simp_all add: run)
qed

definition blank_aliases :: gsh_alias_store where
  "blank_aliases = gsh_aliases_initialize \<lparr>al_entries = [], al_slots = [], al_text = []\<rparr>"

lemma blank_aliases_ok: "alias_ok blank_aliases" "alias_value blank_aliases = Map.empty"
  "gsh_aliases_count blank_aliases = 0" "al_text blank_aliases = []"
  by (simp_all add: blank_aliases_def alias_clear_spec)
    (simp_all add: gsh_aliases_initialize_def gsh_aliases_count_def)

lemma aliases_set_refines_witness:
  "\<exists>t. gsh_aliases_set blank_aliases ''ll'' ''ls -l'' = (None, t) \<and>
    alias_value t ''ll'' = Some ''ls -l''"
  using aliases_set_refines[OF blank_aliases_ok(1), of "''ls -l''" "''ll''"]
  by (auto simp: alias_args_ok_def alias_has_room_def blank_aliases_ok gsh_alias_name_is_valid_def
      alias_byte_def byte_class_defs split: prod.splits option.splits)

text \<open>\<open>gsh_aliases_unset\<close> refines the removal of a key: it fails, changing nothing, exactly
  when the name is not defined; otherwise the text is closed up, the offsets behind it move,
  the index is rebuilt, and the store reads as the old map without the name.\<close>

theorem aliases_unset_refines:
  assumes "alias_ok s"
  shows "case gsh_aliases_unset s name of
      (None, t) \<Rightarrow> alias_value s name \<noteq> None \<and> alias_ok t \<and>
        alias_value t = (alias_value s)(name := None)
    | (Some err, t) \<Rightarrow> alias_value s name = None \<and> t = s"
proof -
  obtain r t where run: "gsh_aliases_unset s name = (r, t)" by fastforce
  show ?thesis using alias_unset_spec[OF assms run] by (cases r) (simp_all add: run)
qed

lemma aliases_unset_refines_witness:
  "let t = snd (gsh_aliases_set blank_aliases ''ll'' ''ls -l'')
   in \<exists>u. gsh_aliases_unset t ''ll'' = (None, u) \<and> alias_value u = Map.empty"
proof -
  obtain r t where run: "gsh_aliases_set blank_aliases ''ll'' ''ls -l'' = (r, t)" by fastforce
  note spec = alias_set_spec[OF blank_aliases_ok(1) _ run]
  have "r = None"
    using spec(2) by (simp add: alias_args_ok_def alias_has_room_def blank_aliases_ok
        gsh_alias_name_is_valid_def alias_byte_def byte_class_defs)
  then have "alias_ok t" "alias_value t = [''ll'' \<mapsto> ''ls -l'']"
    using spec(1,3) by (simp_all add: blank_aliases_ok)
  with aliases_unset_refines[of t "''ll''"] show ?thesis
    by (auto simp: run split: prod.splits option.splits)
qed

end
