(* ===== verification/AliasJournal.thy ===== *)
theory AliasJournal
  imports Aliases
begin

text \<open>
  The alias journal of \<open>src/shell_aliases.c\<close>: a child records the alias operations it made,
  the parent validates the journal and replays it, in place or through a scratch copy. A
  journal comes from another process, so it is modelled raw: a version, counts and two arrays
  of fixed size, whatever they hold.

  The locale \<open>op_journal\<close> is the contract of a journal, stated over the operations it
  records; its lemma is the protocol's promise, that replaying the journal of a run on the
  state the run started from gives the state the run ended in.
\<close>

section \<open>The journal\<close>

abbreviation (input) GSH_ALIAS_JOURNAL_CAP :: nat where "GSH_ALIAS_JOURNAL_CAP \<equiv> 64"
abbreviation (input) GSH_ALIAS_JOURNAL_TEXT_CAP :: nat where "GSH_ALIAS_JOURNAL_TEXT_CAP \<equiv> 16384"
abbreviation (input) GSH_ALIAS_JOURNAL_VERSION :: nat where "GSH_ALIAS_JOURNAL_VERSION \<equiv> 1"
abbreviation (input) GSH_ALIAS_JOURNAL_SET :: nat where "GSH_ALIAS_JOURNAL_SET \<equiv> 0"
abbreviation (input) GSH_ALIAS_JOURNAL_UNSET :: nat where "GSH_ALIAS_JOURNAL_UNSET \<equiv> 1"
abbreviation (input) GSH_ALIAS_JOURNAL_CLEAR :: nat where "GSH_ALIAS_JOURNAL_CLEAR \<equiv> 2"

record gsh_alias_journal_entry =
  je_text_offset :: nat
  je_text_length :: nat
  je_name_length :: nat
  je_operation :: nat
  je_reserved :: nat

record gsh_alias_journal =
  aj_version :: nat
  aj_count :: nat
  aj_text_used :: nat
  aj_reserved :: nat
  aj_base_generation :: uint64
  aj_entries :: "gsh_alias_journal_entry list"
  aj_text :: "byte list"

definition gsh_alias_journal_initialize :: "uint64 \<Rightarrow> gsh_alias_journal" where
  "gsh_alias_journal_initialize base_generation =
    \<lparr>aj_version = GSH_ALIAS_JOURNAL_VERSION, aj_count = 0, aj_text_used = 0, aj_reserved = 0,
     aj_base_generation = base_generation,
     aj_entries = replicate GSH_ALIAS_JOURNAL_CAP
       \<lparr>je_text_offset = 0, je_text_length = 0, je_name_length = 0, je_operation = 0,
        je_reserved = 0\<rparr>,
     aj_text = replicate GSH_ALIAS_JOURNAL_TEXT_CAP NUL\<rparr>"

definition record_length :: "nat \<Rightarrow> byte list \<Rightarrow> byte list \<Rightarrow> nat" where
  "record_length operation name val =
    (if operation = GSH_ALIAS_JOURNAL_CLEAR then 0
     else length name + 1 + (if operation = GSH_ALIAS_JOURNAL_SET then length val + 1 else 0))"

definition record_text :: "nat \<Rightarrow> byte list \<Rightarrow> byte list \<Rightarrow> byte list" where
  "record_text operation name val =
    (if operation = GSH_ALIAS_JOURNAL_CLEAR then []
     else if operation = GSH_ALIAS_JOURNAL_SET then name @ CHR ''='' # val @ [NUL]
     else name @ [NUL])"

definition record_alias ::
  "gsh_alias_journal \<Rightarrow> nat \<Rightarrow> byte list \<Rightarrow> byte list \<Rightarrow> errno option \<times> gsh_alias_journal" where
  "record_alias j operation name val =
    (let len = record_length operation name val
     in if aj_version j \<noteq> GSH_ALIAS_JOURNAL_VERSION \<or> GSH_ALIAS_JOURNAL_CAP \<le> aj_count j \<or>
           GSH_ALIAS_JOURNAL_TEXT_CAP - aj_text_used j < len \<or>
           operation \<noteq> GSH_ALIAS_JOURNAL_CLEAR \<and> \<not> gsh_alias_name_is_valid name \<or>
           operation = GSH_ALIAS_JOURNAL_SET \<and> GSH_ALIAS_VALUE_CAP < length val
        then (Some ENOSPC, j)
        else (None, j\<lparr>
          aj_count := aj_count j + 1,
          aj_entries := (aj_entries j)[aj_count j :=
            \<lparr>je_text_offset = aj_text_used j, je_text_length = len,
             je_name_length = length name mod 65536, je_operation = operation,
             je_reserved = 0\<rparr>],
          aj_text := copy_bytes (aj_text j) (aj_text_used j) (record_text operation name val),
          aj_text_used := aj_text_used j + len\<rparr>))"

definition gsh_alias_journal_record_set ::
  "gsh_alias_journal \<Rightarrow> byte list \<Rightarrow> byte list \<Rightarrow> errno option \<times> gsh_alias_journal" where
  "gsh_alias_journal_record_set j name val = record_alias j GSH_ALIAS_JOURNAL_SET name val"

definition gsh_alias_journal_record_unset ::
  "gsh_alias_journal \<Rightarrow> byte list \<Rightarrow> errno option \<times> gsh_alias_journal" where
  "gsh_alias_journal_record_unset j name = record_alias j GSH_ALIAS_JOURNAL_UNSET name []"

definition gsh_alias_journal_record_clear ::
  "gsh_alias_journal \<Rightarrow> errno option \<times> gsh_alias_journal" where
  "gsh_alias_journal_record_clear j = record_alias j GSH_ALIAS_JOURNAL_CLEAR [] []"

section \<open>Validation and replay\<close>

text \<open>One turn of the validating loop: the text used after the entry, or \<open>None\<close>.\<close>

definition validate_entry :: "gsh_alias_journal \<Rightarrow> nat \<Rightarrow> gsh_alias_journal_entry \<Rightarrow> nat option" where
  "validate_entry j used e =
    (if je_reserved e \<noteq> 0 \<or> je_text_offset e \<noteq> used \<or>
        GSH_ALIAS_JOURNAL_CLEAR < je_operation e \<or> aj_text_used j - used < je_text_length e
     then None
     else if je_operation e = GSH_ALIAS_JOURNAL_CLEAR then
       (if je_text_length e \<noteq> 0 \<or> je_name_length e \<noteq> 0 then None else Some used)
     else if je_name_length e = 0 \<or> je_text_length e \<le> je_name_length e \<or>
        \<not> gsh_alias_name_is_valid (slice (aj_text j) used (used + je_name_length e))
     then None
     else if je_operation e = GSH_ALIAS_JOURNAL_SET then
       (if aj_text j ! (used + je_name_length e) \<noteq> CHR ''='' \<or>
           aj_text j ! (used + je_text_length e - 1) \<noteq> NUL
        then None else Some (used + je_text_length e))
     else if je_text_length e \<noteq> je_name_length e + 1 \<or>
        aj_text j ! (used + je_name_length e) \<noteq> NUL
     then None else Some (used + je_text_length e))"

fun validate_entries ::
  "gsh_alias_journal \<Rightarrow> nat \<Rightarrow> gsh_alias_journal_entry list \<Rightarrow> nat option" where
  "validate_entries j used [] = Some used"
| "validate_entries j used (e # es) =
    (case validate_entry j used e of
       None \<Rightarrow> None
     | Some used \<Rightarrow> validate_entries j used es)"

definition gsh_alias_journal_validate :: "gsh_alias_journal \<Rightarrow> bool" where
  "gsh_alias_journal_validate j \<longleftrightarrow>
    aj_version j = GSH_ALIAS_JOURNAL_VERSION \<and> aj_reserved j = 0 \<and>
    aj_count j \<le> GSH_ALIAS_JOURNAL_CAP \<and> aj_text_used j \<le> GSH_ALIAS_JOURNAL_TEXT_CAP \<and>
    validate_entries j 0 (take (aj_count j) (aj_entries j)) = Some (aj_text_used j)"

definition apply_entry ::
  "gsh_alias_journal \<Rightarrow> gsh_alias_journal_entry \<Rightarrow> gsh_alias_store \<Rightarrow> errno option \<times> gsh_alias_store" where
  "apply_entry j e s =
    (let at = je_text_offset e; name = slice (aj_text j) at (at + je_name_length e)
     in if je_operation e = GSH_ALIAS_JOURNAL_CLEAR then (None, gsh_aliases_clear s)
        else if je_operation e = GSH_ALIAS_JOURNAL_SET then
          gsh_aliases_set s name
            (take (je_text_length e - je_name_length e - 2)
              (drop (at + je_name_length e + 1) (aj_text j)))
        else gsh_aliases_unset s name)"

fun apply_entries ::
  "gsh_alias_journal \<Rightarrow> gsh_alias_journal_entry list \<Rightarrow> gsh_alias_store \<Rightarrow> errno option \<times> gsh_alias_store" where
  "apply_entries j [] s = (None, s)"
| "apply_entries j (e # es) s =
    (case apply_entry j e s of
       (Some err, s) \<Rightarrow> (Some err, s)
     | (None, s) \<Rightarrow> apply_entries j es s)"

definition gsh_aliases_apply_journal_in_place ::
  "gsh_alias_store \<Rightarrow> gsh_alias_journal \<Rightarrow> errno option \<times> gsh_alias_store" where
  "gsh_aliases_apply_journal_in_place s j =
    (if \<not> gsh_alias_journal_validate j then (Some EPROTO, s)
     else apply_entries j (take (aj_count j) (aj_entries j)) s)"

text \<open>The result, the store and the scratch store.\<close>

definition gsh_aliases_apply_journal ::
  "gsh_alias_store \<Rightarrow> gsh_alias_journal \<Rightarrow> gsh_alias_store \<Rightarrow>
    errno option \<times> gsh_alias_store \<times> gsh_alias_store" where
  "gsh_aliases_apply_journal s j scratch =
    (let scratch = s
     in case gsh_aliases_apply_journal_in_place scratch j of
          (Some err, scratch) \<Rightarrow> (Some err, s, scratch)
        | (None, scratch) \<Rightarrow> (None, scratch, scratch))"

section \<open>The contract of a journal\<close>

locale op_journal =
  fixes run :: "'s \<Rightarrow> 'op \<Rightarrow> 'e option \<times> 's"
    and log :: "'j \<Rightarrow> 'op \<Rightarrow> 'e option \<times> 'j"
    and ops :: "'j \<Rightarrow> 'op list"
    and valid :: "'j \<Rightarrow> bool"
  assumes log_ok: "valid j \<Longrightarrow> log j x = (None, j') \<Longrightarrow> valid j' \<and> ops j' = ops j @ [x]"
begin

primrec run_all :: "'s \<Rightarrow> 'op list \<Rightarrow> 'e option \<times> 's" where
  "run_all s [] = (None, s)"
| "run_all s (x # xs) =
    (case run s x of (Some err, s) \<Rightarrow> (Some err, s) | (None, s) \<Rightarrow> run_all s xs)"

lemma run_all_snoc:
  "run_all s (xs @ [x]) =
    (case run_all s xs of (Some err, s) \<Rightarrow> (Some err, s) | (None, s) \<Rightarrow> run s x)"
  by (induction xs arbitrary: s) (auto split: prod.splits option.splits)

text \<open>A run from \<open>s0\<close> that has reached \<open>s\<close> and whose journal is \<open>j\<close>.\<close>

definition logged :: "'s \<Rightarrow> 's \<Rightarrow> 'j \<Rightarrow> bool" where
  "logged s0 s j \<longleftrightarrow> valid j \<and> run_all s0 (ops j) = (None, s)"

lemma logged_start: "valid j \<Longrightarrow> ops j = [] \<Longrightarrow> logged s s j"
  by (simp add: logged_def)

lemma logged_step:
  "logged s0 s j \<Longrightarrow> run s x = (None, s') \<Longrightarrow> log j x = (None, j') \<Longrightarrow> logged s0 s' j'"
  by (auto simp: logged_def run_all_snoc dest: log_ok)

end

section \<open>The alias journal keeps the contract\<close>

datatype alias_op = Op_set "byte list" "byte list" | Op_unset "byte list" | Op_clear

definition run_alias_op :: "gsh_alias_store \<Rightarrow> alias_op \<Rightarrow> errno option \<times> gsh_alias_store" where
  "run_alias_op s x =
    (case x of
       Op_set name val \<Rightarrow> gsh_aliases_set s name val
     | Op_unset name \<Rightarrow> gsh_aliases_unset s name
     | Op_clear \<Rightarrow> (None, gsh_aliases_clear s))"

definition log_alias_op :: "gsh_alias_journal \<Rightarrow> alias_op \<Rightarrow> errno option \<times> gsh_alias_journal" where
  "log_alias_op j x =
    (case x of
       Op_set name val \<Rightarrow> gsh_alias_journal_record_set j name val
     | Op_unset name \<Rightarrow> gsh_alias_journal_record_unset j name
     | Op_clear \<Rightarrow> gsh_alias_journal_record_clear j)"

definition decode_entry :: "gsh_alias_journal \<Rightarrow> gsh_alias_journal_entry \<Rightarrow> alias_op" where
  "decode_entry j e =
    (let at = je_text_offset e; name = slice (aj_text j) at (at + je_name_length e)
     in if je_operation e = GSH_ALIAS_JOURNAL_CLEAR then Op_clear
        else if je_operation e = GSH_ALIAS_JOURNAL_SET then
          Op_set name (take (je_text_length e - je_name_length e - 2)
            (drop (at + je_name_length e + 1) (aj_text j)))
        else Op_unset name)"

definition journal_ops :: "gsh_alias_journal \<Rightarrow> alias_op list" where
  "journal_ops j = map (decode_entry j) (take (aj_count j) (aj_entries j))"

definition journal_arrays :: "gsh_alias_journal \<Rightarrow> bool" where
  "journal_arrays j \<longleftrightarrow> length (aj_entries j) = GSH_ALIAS_JOURNAL_CAP \<and>
    length (aj_text j) = GSH_ALIAS_JOURNAL_TEXT_CAP"

definition journal_ok :: "gsh_alias_journal \<Rightarrow> bool" where
  "journal_ok j \<longleftrightarrow> journal_arrays j \<and> gsh_alias_journal_validate j"

lemma apply_entry_decode: "apply_entry j e s = run_alias_op s (decode_entry j e)"
  by (simp add: apply_entry_def decode_entry_def run_alias_op_def Let_def)

text \<open>A valid entry reads only the used text, so more text behind it changes nothing.\<close>

lemma validate_entry_bounds:
  assumes "validate_entry j used e = Some used'" "used \<le> aj_text_used j"
  shows "used \<le> used' \<and> used' \<le> aj_text_used j \<and> used' = used + je_text_length e \<and>
    je_text_offset e = used \<and>
    (je_operation e \<noteq> GSH_ALIAS_JOURNAL_CLEAR \<longrightarrow> je_name_length e < je_text_length e) \<and>
    (je_operation e = GSH_ALIAS_JOURNAL_SET \<longrightarrow> je_name_length e + 2 \<le> je_text_length e)"
proof -
  have basic: "used' = used + je_text_length e" "je_text_offset e = used"
    "je_text_length e \<le> aj_text_used j - used"
    "je_operation e \<noteq> GSH_ALIAS_JOURNAL_CLEAR \<Longrightarrow> je_name_length e < je_text_length e"
    using assms(1) by (auto simp: validate_entry_def split: if_splits)
  have "je_text_length e \<noteq> je_name_length e + 1" if "je_operation e = GSH_ALIAS_JOURNAL_SET"
    using assms(1) that by (auto simp: validate_entry_def split: if_splits)
  with basic assms(2) show ?thesis by fastforce
qed

lemma slice_cong_take:
  assumes "take n xs = take n ys" "b \<le> n"
  shows "slice xs a b = slice ys a b"
proof -
  have "take (b - a) (drop a (take n xs)) = take (b - a) (drop a xs)" for xs :: "'a list"
    using assms(2) by (simp add: drop_take min_def)
  then show ?thesis using assms(1) by (metis slice_def)
qed

lemma nth_cong_take: "take n xs = take n ys \<Longrightarrow> i < n \<Longrightarrow> xs ! i = ys ! i"
  by (metis nth_take)

lemma validate_entry_extend:
  assumes "validate_entry j used e = Some used'" "used \<le> aj_text_used j"
    "take (aj_text_used j) (aj_text j') = take (aj_text_used j) (aj_text j)"
    "aj_text_used j \<le> aj_text_used j'"
  shows "validate_entry j' used e = Some used' \<and> decode_entry j' e = decode_entry j e"
proof -
  note b = validate_entry_bounds[OF assms(1,2)]
  have name: "slice (aj_text j') used (used + je_name_length e) =
      slice (aj_text j) used (used + je_name_length e)"
    if "je_operation e \<noteq> 2"
    using b that by (intro slice_cong_take[OF assms(3)]) simp
  have val: "take (je_text_length e - je_name_length e - 2)
        (drop (used + je_name_length e + 1) (aj_text j')) =
      take (je_text_length e - je_name_length e - 2)
        (drop (used + je_name_length e + 1) (aj_text j))" if "je_operation e = 0"
    using b that slice_cong_take[OF assms(3), of "used + je_text_length e - 1"
        "used + je_name_length e + 1"]
    by (simp add: slice_def le_diff_conv)
  have at: "aj_text j' ! (used + i) = aj_text j ! (used + i)" if "i < je_text_length e" for i
    using b that by (intro nth_cong_take[OF assms(3)]) simp
  show ?thesis
    using assms(1,4) b name val at[of "je_name_length e"] at[of "je_text_length e - 1"]
    by (auto simp: validate_entry_def decode_entry_def Let_def split: if_splits)
qed


lemma validate_entries_extend:
  assumes "take (aj_text_used j) (aj_text j') = take (aj_text_used j) (aj_text j)"
    "aj_text_used j \<le> aj_text_used j'"
  shows "validate_entries j used es = Some used' \<Longrightarrow> used \<le> aj_text_used j \<Longrightarrow>
    validate_entries j' used es = Some used' \<and> map (decode_entry j') es = map (decode_entry j) es"
proof (induction es arbitrary: used)
  case (Cons e es)
  from Cons.prems(1) obtain mid where mid: "validate_entry j used e = Some mid"
      "validate_entries j mid es = Some used'" by (auto split: option.splits)
  with Cons.IH[OF mid(2)] validate_entry_extend[OF mid(1) Cons.prems(2) assms]
    validate_entry_bounds[OF mid(1) Cons.prems(2)]
  show ?case by simp
qed simp

lemma validate_entries_snoc:
  "validate_entries j used (es @ [e]) =
    (case validate_entries j used es of None \<Rightarrow> None | Some used \<Rightarrow> validate_entry j used e)"
  by (induction es arbitrary: used) (auto split: option.splits)

lemma record_alias_ok:
  assumes ok: "journal_ok j" and log: "log_alias_op j x = (None, j')"
  shows "journal_ok j' \<and> journal_ops j' = journal_ops j @ [x]"
proof -
  obtain operation name val where x:
    "log_alias_op j x = record_alias j operation name val"
    "x = (if operation = 2 then Op_clear else if operation = 0 then Op_set name val else Op_unset name)"
    "operation \<le> 2" "operation = 2 \<Longrightarrow> name = []"
    by (cases x) (auto simp: log_alias_op_def gsh_alias_journal_record_set_def
        gsh_alias_journal_record_unset_def gsh_alias_journal_record_clear_def intro: that[of 0] that[of 1] that[of 2])
  obtain len where len: "len = record_length operation name val" by simp
  let ?e = "\<lparr>je_text_offset = aj_text_used j, je_text_length = len,
     je_name_length = length name, je_operation = operation, je_reserved = 0\<rparr>"
  let ?bytes = "record_text operation name val"
  have guards: "aj_count j < 64" "len \<le> 16384 - aj_text_used j"
    "operation \<noteq> 2 \<Longrightarrow> gsh_alias_name_is_valid name"
    using log x(1) by (auto simp: record_alias_def Let_def len split: if_splits)
  have valid: "gsh_alias_journal_validate j" "length (aj_entries j) = 64" "length (aj_text j) = 16384"
    using ok by (simp_all add: journal_ok_def journal_arrays_def)
  have used: "aj_text_used j \<le> 16384" using valid(1) by (simp add: gsh_alias_journal_validate_def)
  have bytes: "length ?bytes = len"
    by (simp add: len record_length_def record_text_def)
  have name_len: "length name mod 65536 = length name"
    using guards(2) x(4) len by (cases "operation = 2") (simp_all add: record_length_def)
  have j': "j' = j\<lparr>aj_count := aj_count j + 1, aj_entries := (aj_entries j)[aj_count j := ?e],
      aj_text := copy_bytes (aj_text j) (aj_text_used j) ?bytes,
      aj_text_used := aj_text_used j + len\<rparr>"
    using log x(1) name_len by (auto simp: record_alias_def Let_def len split: if_splits)
  have room: "aj_text_used j + len \<le> 16384" using guards(2) used by simp
  have text': "aj_text j' = take (aj_text_used j) (aj_text j) @ ?bytes @ drop (aj_text_used j + len) (aj_text j)"
    by (simp add: j' copy_bytes_def bytes)
  have entries': "take (aj_count j') (aj_entries j') = take (aj_count j) (aj_entries j) @ [?e]"
    using guards(1) valid(2) by (simp add: j' take_Suc_conv_app_nth take_update_cancel)
  have keep: "take (aj_text_used j) (aj_text j') = take (aj_text_used j) (aj_text j)"
    using used valid(3) by (simp add: text')
  have old: "validate_entries j 0 (take (aj_count j) (aj_entries j)) = Some (aj_text_used j)"
    using valid(1) by (simp add: gsh_alias_journal_validate_def)
  have "aj_text_used j \<le> aj_text_used j'" by (simp add: j')
  note old' = validate_entries_extend[OF keep this old]
  have drop: "drop (aj_text_used j) (aj_text j') = ?bytes @ drop (aj_text_used j + len) (aj_text j)"
    using used valid(3) by (simp add: text')
  have at: "aj_text j' ! (aj_text_used j + i) = ?bytes ! i" if "i < len" for i
    using that used valid(3) bytes by (simp add: text' nth_append)
  have new: "validate_entry j' (aj_text_used j) ?e = Some (aj_text_used j + len) \<and>
      decode_entry j' ?e = x"
  proof (cases "operation = 2")
    case True
    then show ?thesis
      by (simp add: validate_entry_def decode_entry_def x(2,4) len record_length_def j' Let_def)
  next
    case False
    then have name: "gsh_alias_name_is_valid name" "name \<noteq> []"
      using guards(3) by (auto simp: gsh_alias_name_is_valid_def)
    have read: "slice (aj_text j') (aj_text_used j) (aj_text_used j + length name) = name"
      using False by (simp add: slice_def drop record_text_def)
    have tail: "drop (aj_text_used j + length name + 1) (aj_text j') =
        drop (length name + 1) ?bytes @ drop (aj_text_used j + len) (aj_text j)"
    proof -
      have "drop (length name + 1) (drop (aj_text_used j) (aj_text j')) =
          drop (length name + 1) ?bytes @ drop (aj_text_used j + len) (aj_text j)"
        using False unfolding drop by (simp add: record_text_def)
      then show ?thesis by (simp add: add.commute)
    qed
    have used': "aj_text_used j' - aj_text_used j = len" by (simp add: j')
    show ?thesis
      using False name x(3) at[of "length name"] at[of "len - 1"] read tail used'
      by (cases "operation = 0") (auto simp: validate_entry_def decode_entry_def Let_def x(2) len record_length_def
          record_text_def nth_append)
  qed
  have "validate_entries j' 0 (take (aj_count j') (aj_entries j')) = Some (aj_text_used j')"
    unfolding entries' validate_entries_snoc using old' new by (simp add: j')
  then have "gsh_alias_journal_validate j'"
    using valid(1) room guards(1) by (simp add: gsh_alias_journal_validate_def j')
  moreover have "journal_arrays j'"
    using valid(2,3) room by (simp add: journal_arrays_def j' bytes)
  moreover have "journal_ops j' = journal_ops j @ [x]"
    unfolding journal_ops_def entries' using old' new by simp
  ultimately show ?thesis by (simp add: journal_ok_def)
qed

interpretation journal: op_journal run_alias_op log_alias_op journal_ops journal_ok
  by unfold_locales (rule record_alias_ok)

lemma journal_initialize:
  "journal_ok (gsh_alias_journal_initialize g)" "journal_ops (gsh_alias_journal_initialize g) = []"
  by (simp_all add: journal_ok_def journal_arrays_def gsh_alias_journal_initialize_def
      gsh_alias_journal_validate_def journal_ops_def)

lemma apply_entries_ops:
  "apply_entries j es s = journal.run_all s (map (decode_entry j) es)"
  by (induction es arbitrary: s) (auto simp: apply_entry_decode split: prod.splits option.splits)

lemma apply_journal_ops:
  "gsh_alias_journal_validate j \<Longrightarrow>
    gsh_aliases_apply_journal_in_place s j = journal.run_all s (journal_ops j)"
  by (simp add: gsh_aliases_apply_journal_in_place_def apply_entries_ops journal_ops_def)

lemma logged_apply:
  assumes "journal.logged s0 s j"
  shows "gsh_aliases_apply_journal_in_place s0 j = (None, s)"
    "gsh_aliases_apply_journal s0 j scratch = (None, s, s)"
  using assms apply_journal_ops[of j s0]
  by (simp_all add: journal.logged_def journal_ok_def gsh_aliases_apply_journal_def)

lemma apply_journal_atomic:
  "gsh_aliases_apply_journal s j scratch = (r, s', scratch') \<Longrightarrow>
    gsh_aliases_apply_journal_in_place s j = (r, scratch') \<and> s' = (if r = None then scratch' else s)"
  by (auto simp: gsh_aliases_apply_journal_def Let_def split: prod.splits option.splits)

section \<open>Properties\<close>

text \<open>A child that runs alias operations and records each one, as the builtins do.\<close>

fun run_recorded ::
  "gsh_alias_store \<times> gsh_alias_journal \<Rightarrow> alias_op list \<Rightarrow> (gsh_alias_store \<times> gsh_alias_journal) option" where
  "run_recorded st [] = Some st"
| "run_recorded (s, j) (x # xs) =
    (case run_alias_op s x of
       (Some err, s) \<Rightarrow> None
     | (None, s) \<Rightarrow>
         (case log_alias_op j x of
            (Some err, j) \<Rightarrow> None
          | (None, j) \<Rightarrow> run_recorded (s, j) xs))"

lemma run_recorded_logged:
  "run_recorded (s, j) xs = Some (s', j') \<Longrightarrow> journal.logged s0 s j \<Longrightarrow>
    journal.logged s0 s' j' \<and> journal_ops j' = journal_ops j @ xs"
proof (induction xs arbitrary: s j)
  case (Cons x xs)
  then obtain t i where step: "run_alias_op s x = (None, t)" "log_alias_op j x = (None, i)"
    "run_recorded (t, i) xs = Some (s', j')"
    by (auto split: prod.splits option.splits)
  have "journal_ok j" using Cons.prems(2) by (simp add: journal.logged_def)
  from record_alias_ok[OF this step(2)] have "journal_ops i = journal_ops j @ [x]" by simp
  with Cons.IH[OF step(3) journal.logged_step[OF Cons.prems(2) step(1,2)]] show ?case by simp
qed simp

text \<open>C9. The journal of a run of alias operations is a faithful log: from a fresh journal, a run
  that records every operation leaves a journal that validates, decodes to exactly those
  operations in order, and replayed by the parent on the store the run started from gives
  exactly the store the run ended with.\<close>

theorem journal_replays_run:
  assumes "run_recorded (s0, gsh_alias_journal_initialize g) xs = Some (s, j)"
  shows "gsh_alias_journal_validate j \<and> journal_ops j = xs \<and>
    gsh_aliases_apply_journal s0 j scratch = (None, s, s)"
proof -
  have "journal.logged s0 s0 (gsh_alias_journal_initialize g)"
    by (rule journal.logged_start) (rule journal_initialize)+
  from run_recorded_logged[OF assms this] have "journal.logged s0 s j" "journal_ops j = xs"
    by (simp_all add: journal_initialize)
  then show ?thesis using logged_apply(2) by (simp add: journal.logged_def journal_ok_def)
qed

lemma journal_replays_run_witness:
  "\<exists>s j. run_recorded (blank_aliases, gsh_alias_journal_initialize 7) [Op_set ''ll'' ''ls -l'', Op_clear] =
      Some (s, j) \<and>
    gsh_aliases_apply_journal blank_aliases j blank_aliases = (None, s, s)"
proof -
  obtain r t where run: "gsh_aliases_set blank_aliases ''ll'' ''ls -l'' = (r, t)" by fastforce
  have "r = None"
    using alias_set_spec(2)[OF blank_aliases_ok(1) _ run]
    by (simp add: alias_args_ok_def alias_has_room_def blank_aliases_ok
        gsh_alias_name_is_valid_def alias_byte_def byte_class_defs)
  then have "\<exists>s j. run_recorded (blank_aliases, gsh_alias_journal_initialize 7)
      [Op_set ''ll'' ''ls -l'', Op_clear] = Some (s, j)"
    using run
    by (simp add: run_alias_op_def log_alias_op_def gsh_alias_journal_record_set_def
        gsh_alias_journal_record_clear_def record_alias_def record_length_def
        gsh_alias_journal_initialize_def gsh_alias_name_is_valid_def alias_byte_def byte_class_defs
        del: replicate.simps)
  then show ?thesis using journal_replays_run[of blank_aliases 7] by blast
qed

end
