(* ===== verification/BuiltinSink.thy ===== *)
theory BuiltinSink
  imports GshPrelude
begin

text \<open>
  Where a builtin writes: the bounded buffer of \<open>src/builtin_common.c\<close>
  (\<open>bounded_buffer_output\<close> behind \<open>gsh_builtin_output\<close>), a byte array with a window
  (\<open>offset\<close>, \<open>length\<close>) of bytes not drained yet, moved back to the front of the array when
  the window would run over its end. In this sink the two descriptors share the window.
  The descriptor sink (\<open>write\<close>), the sink of the asynchronous cells and the
  resource cursor are not modelled.

  The locale \<open>byte_sink\<close> is what the builtins rely on: a write appends all of its text or
  nothing. What they print is proved in it once, from that law only.
\<close>

section \<open>The bounded buffer\<close>

record buffer_sink =
  sb_bytes :: "byte list"
  sb_offset :: nat
  sb_length :: nat
  sb_overloads :: uint64

abbreviation sb_capacity :: "buffer_sink \<Rightarrow> nat" where
  "sb_capacity io \<equiv> length (sb_bytes io)"

text \<open>\<open>True\<close> is the C result 0, \<open>False\<close> the result 1.\<close>

definition bounded_buffer_output :: "buffer_sink \<Rightarrow> byte list \<Rightarrow> bool \<times> buffer_sink" where
  "bounded_buffer_output io bytes =
    (if sb_capacity io < sb_length io \<or> sb_capacity io - sb_length io < length bytes
     then (False, io\<lparr>sb_overloads := sb_overloads io + 1\<rparr>)
     else
       (let io = (if sb_capacity io < sb_offset io + sb_length io + length bytes
                  then io\<lparr>sb_bytes := copy_bytes (sb_bytes io) 0
                            (slice (sb_bytes io) (sb_offset io) (sb_offset io + sb_length io)),
                          sb_offset := 0\<rparr>
                  else io)
        in (True, io\<lparr>sb_bytes := copy_bytes (sb_bytes io) (sb_offset io + sb_length io) bytes,
                     sb_length := sb_length io + length bytes\<rparr>)))"

definition gsh_builtin_error :: "buffer_sink \<Rightarrow> byte list \<Rightarrow> byte list \<Rightarrow> int \<times> buffer_sink" where
  "gsh_builtin_error io name message =
    (let io = snd (bounded_buffer_output io ''gsh: '');
         io = snd (bounded_buffer_output io name);
         io = snd (bounded_buffer_output io '': '');
         io = snd (bounded_buffer_output io message);
         io = snd (bounded_buffer_output io [NL])
     in (1, io))"

definition sink_content :: "buffer_sink \<Rightarrow> byte list" where
  "sink_content io = slice (sb_bytes io) (sb_offset io) (sb_offset io + sb_length io)"

definition sink_ok :: "buffer_sink \<Rightarrow> bool" where
  "sink_ok io \<longleftrightarrow> sb_offset io + sb_length io \<le> sb_capacity io"

section \<open>The contract of a sink\<close>

locale byte_sink =
  fixes put :: "'s \<Rightarrow> byte list \<Rightarrow> bool \<times> 's"
    and content :: "'s \<Rightarrow> byte list"
    and ok :: "'s \<Rightarrow> bool"
  assumes put_True: "ok s \<Longrightarrow> put s bytes = (True, t) \<Longrightarrow> ok t \<and> content t = content s @ bytes"
    and put_False: "ok s \<Longrightarrow> put s bytes = (False, t) \<Longrightarrow> ok t \<and> content t = content s"
begin

text \<open>A sequence of writes that stops at the first failing one.\<close>

primrec put_all :: "'s \<Rightarrow> byte list list \<Rightarrow> bool \<times> 's" where
  "put_all s [] = (True, s)"
| "put_all s (piece # pieces) = and_then (put s piece) (\<lambda>s. put_all s pieces)"

lemma put_all_True:
  "ok s \<Longrightarrow> put_all s pieces = (True, t) \<Longrightarrow> ok t \<and> content t = content s @ concat pieces"
proof (induction pieces arbitrary: s)
  case (Cons piece pieces)
  then obtain m where "put s piece = (True, m)" "put_all m pieces = (True, t)"
    by (auto simp: and_then_True)
  with Cons.IH[of m] put_True[OF Cons.prems(1)] show ?case by auto
qed simp

lemma put_all_False:
  "ok s \<Longrightarrow> put_all s pieces = (False, t) \<Longrightarrow>
    ok t \<and> (\<exists>n < length pieces. content t = content s @ concat (take n pieces))"
proof (induction pieces arbitrary: s)
  case (Cons piece pieces)
  from Cons.prems(2) have "and_then (put s piece) (\<lambda>s. put_all s pieces) = (False, t)" by simp
  then show ?case
  proof (cases rule: and_thenE)
    case stop
    with put_False[OF Cons.prems(1)] show ?thesis by (auto intro!: exI[of _ 0])
  next
    case (continue m)
    note m = put_True[OF Cons.prems(1) continue(1)]
    with Cons.IH[OF _ continue(2)] obtain n where
      "ok t" "n < length pieces" "content t = content m @ concat (take n pieces)" by auto
    with m show ?thesis by (auto intro!: exI[of _ "Suc n"])
  qed
qed simp

lemma put_all_append:
  "put_all s (ps @ qs) = and_then (put_all s ps) (\<lambda>s. put_all s qs)"
  by (induction ps arbitrary: s) (auto simp: and_then_def)

end

text \<open>
  A sink of known room: a write succeeds exactly when it fits, and uses up what it writes.
\<close>

locale bounded_sink = byte_sink put content ok
  for put :: "'s \<Rightarrow> byte list \<Rightarrow> bool \<times> 's"
    and content :: "'s \<Rightarrow> byte list"
    and ok :: "'s \<Rightarrow> bool" +
  fixes room :: "'s \<Rightarrow> nat"
  assumes put_room: "ok s \<Longrightarrow> fst (put s bytes) \<longleftrightarrow> length bytes \<le> room s"
    and room_put: "ok s \<Longrightarrow> put s bytes = (True, t) \<Longrightarrow> room t = room s - length bytes"
begin

lemma put_all_room:
  "ok s \<Longrightarrow> fst (put_all s pieces) \<longleftrightarrow> length (concat pieces) \<le> room s"
proof (induction pieces arbitrary: s)
  case (Cons piece pieces)
  obtain r m where m: "put s piece = (r, m)" by fastforce
  show ?case
  proof (cases r)
    case True
    with m put_True[OF Cons.prems, of piece m] put_room[OF Cons.prems, of piece]
      room_put[OF Cons.prems, of piece m] Cons.IH[of m]
    show ?thesis by auto
  next
    case False
    with m put_room[OF Cons.prems, of piece] show ?thesis by auto
  qed
qed simp

end

section \<open>The buffer keeps the contract\<close>

lemma bounded_buffer_output_spec:
  assumes "sink_ok io" "bounded_buffer_output io bytes = (r, io')"
  shows "sink_ok io' \<and> sb_capacity io' = sb_capacity io \<and>
    (r \<longleftrightarrow> length (sink_content io) + length bytes \<le> sb_capacity io) \<and>
    sink_content io' = sink_content io @ (if r then bytes else [])"
proof (cases "r")
  case True
  obtain m where m: "m = (if sb_capacity io < sb_offset io + sb_length io + length bytes
      then io\<lparr>sb_bytes := copy_bytes (sb_bytes io) 0
                (slice (sb_bytes io) (sb_offset io) (sb_offset io + sb_length io)),
              sb_offset := 0\<rparr>
      else io)" by simp
  from True assms(2) m have
    fit: "sb_length io \<le> sb_capacity io" "length bytes \<le> sb_capacity io - sb_length io" and
    io': "io' = m\<lparr>sb_bytes := copy_bytes (sb_bytes m) (sb_offset m + sb_length m) bytes,
                 sb_length := sb_length m + length bytes\<rparr>"
    by (auto simp: bounded_buffer_output_def Let_def split: if_splits)
  have moved: "sb_capacity m = sb_capacity io" "sb_length m = sb_length io"
    "sb_offset m + sb_length m + length bytes \<le> sb_capacity io"
    "sink_content m = sink_content io"
    using assms(1) fit by (auto simp: m sink_ok_def sink_content_def copy_bytes_def slice_def)
  have "sink_content io' = sink_content m @ bytes"
    using moved(1,3) by (simp add: io' sink_content_def copy_bytes_def slice_def add.assoc drop_take)
  moreover have "sb_capacity io' = sb_capacity io" "sink_ok io'"
    using moved by (auto simp: io' sink_ok_def copy_bytes_def)
  moreover have "length (sink_content io) = sb_length io"
    using assms(1) by (simp add: sink_content_def sink_ok_def)
  ultimately show ?thesis using True fit moved by simp
next
  case False
  with assms show ?thesis
    by (auto simp: bounded_buffer_output_def sink_ok_def sink_content_def Let_def split: if_splits)
qed

definition sink_room :: "buffer_sink \<Rightarrow> nat" where
  "sink_room io = sb_capacity io - length (sink_content io)"

interpretation buffer: bounded_sink bounded_buffer_output sink_content sink_ok sink_room
proof unfold_locales
  fix io io' bytes assume ok: "sink_ok io"
  have le: "length (sink_content io) \<le> sb_capacity io"
    by (simp add: sink_content_def slice_def min_le_iff_disj)
  { assume "bounded_buffer_output io bytes = (True, io')"
    from bounded_buffer_output_spec[OF ok this]
    show "sink_ok io' \<and> sink_content io' = sink_content io @ bytes"
      "sink_room io' = sink_room io - length bytes" by (auto simp: sink_room_def) }
  { assume "bounded_buffer_output io bytes = (False, io')"
    from bounded_buffer_output_spec[OF ok this]
    show "sink_ok io' \<and> sink_content io' = sink_content io" by simp }
  show "fst (bounded_buffer_output io bytes) \<longleftrightarrow> length bytes \<le> sink_room io"
    using bounded_buffer_output_spec[OF ok, of bytes "fst (bounded_buffer_output io bytes)"
        "snd (bounded_buffer_output io bytes)"] le
    by (auto simp: sink_room_def)
qed

lemma gsh_builtin_error_status:
  assumes "sink_ok io" "gsh_builtin_error io name message = (status, io')"
  shows "status = 1 \<and> sink_ok io'"
proof -
  have keep: "sink_ok s \<Longrightarrow> sink_ok (snd (bounded_buffer_output s b))" for s b
    by (cases "bounded_buffer_output s b") (auto dest: bounded_buffer_output_spec)
  with assms show ?thesis by (auto simp: gsh_builtin_error_def Let_def)
qed

section \<open>Properties\<close>

text \<open>C35. A write to the sink is all or nothing: it succeeds exactly when its bytes fit behind
  what the buffer holds, then appends exactly them, and otherwise leaves the content as it
  was; the window stays inside the buffer, whose size never changes, also when the write has
  to slide the content back to the start.\<close>

theorem bounded_output_all_or_nothing:
  assumes "sink_ok io"
  shows "case bounded_buffer_output io bytes of (r, io') \<Rightarrow>
    sink_ok io' \<and> sb_capacity io' = sb_capacity io \<and>
    (r \<longleftrightarrow> length (sink_content io) + length bytes \<le> sb_capacity io) \<and>
    sink_content io' = sink_content io @ (if r then bytes else [])"
  by (cases "bounded_buffer_output io bytes") (use bounded_buffer_output_spec[OF assms] in simp)

lemma bounded_output_all_or_nothing_witness:
  "let io = \<lparr>sb_bytes = ''..ab'', sb_offset = 2, sb_length = 2, sb_overloads = 0\<rparr>
   in sink_content (snd (bounded_buffer_output io ''cd'')) = ''abcd'' \<and>
      fst (bounded_buffer_output io ''cde'') = False"
  using bounded_output_all_or_nothing[of
      "\<lparr>sb_bytes = ''..ab'', sb_offset = 2, sb_length = 2, sb_overloads = 0\<rparr>" "''cd''"]
    bounded_output_all_or_nothing[of
      "\<lparr>sb_bytes = ''..ab'', sb_offset = 2, sb_length = 2, sb_overloads = 0\<rparr>" "''cde''"]
  by (simp add: sink_ok_def sink_content_def slice_def split: prod.splits)

end
