(* ===== verification/Quoting.thy ===== *)
theory Quoting
  imports BuiltinSink Heredoc
begin

text \<open>
  Printing an assignment so that the shell reads it back: \<open>write_definition\<close> of
  \<open>src/builtin_alias.c\<close> and \<open>quote_assignment\<close> of \<open>src/builtin_set.c\<close>. The value is put in
  single quotes and every single quote of it is written as \<open>'\''\<close>.

  The lemmas follow the printed bytes back to the other side of the shell: the lexer reads them
  as one word. What the expansion of that word gives is in \<open>WordExpansion\<close>.
\<close>

section \<open>The writers\<close>

abbreviation (input) GSH_VARIABLE_TEXT_CAP :: nat where "GSH_VARIABLE_TEXT_CAP \<equiv> 262144"

text \<open>The counter is the number of segments left; the C's last one ends with an error.\<close>

fun write_segments :: "nat \<Rightarrow> byte list \<Rightarrow> buffer_sink \<Rightarrow> bool \<times> buffer_sink" where
  "write_segments 0 cursor io = (False, io)"
| "write_segments (Suc segments) cursor io =
    (let segment = takeWhile (\<lambda>b. b \<noteq> QUOTE) cursor;
         rest = drop (length segment) cursor
     in and_then (if segment \<noteq> [] then bounded_buffer_output io segment else (True, io)) (\<lambda>io.
        and_then (if rest \<noteq> [] then bounded_buffer_output io [QUOTE, BSLASH, QUOTE, QUOTE]
                  else (True, io)) (\<lambda>io.
          if rest = [] then bounded_buffer_output io [QUOTE, NL]
          else write_segments segments (tl rest) io)))"

definition write_definition :: "buffer_sink \<Rightarrow> byte list \<Rightarrow> bool \<times> buffer_sink" where
  "write_definition io assignment =
    (if CHR ''='' \<notin> set assignment then (False, io)
     else
       (let separator = length (takeWhile (\<lambda>b. b \<noteq> CHR ''='') assignment)
        in and_then (bounded_buffer_output io (take (separator + 1) assignment)) (\<lambda>io.
           and_then (bounded_buffer_output io [QUOTE]) (\<lambda>io.
             write_segments 32768 (drop (separator + 1) assignment) io))))"

definition quote_assignment :: "buffer_sink \<Rightarrow> byte list \<Rightarrow> bool \<times> buffer_sink" where
  "quote_assignment io assignment =
    (if CHR ''='' \<notin> set assignment then (False, io)
     else
       (let separator = length (takeWhile (\<lambda>b. b \<noteq> CHR ''='') assignment)
        in and_then (bounded_buffer_output io (take separator assignment)) (\<lambda>io.
           and_then (bounded_buffer_output io [CHR ''='', QUOTE]) (\<lambda>io.
             write_segments GSH_VARIABLE_TEXT_CAP (drop (separator + 1) assignment) io))))"

section \<open>What is printed\<close>

fun quote_body :: "byte list \<Rightarrow> byte list" where
  "quote_body [] = []"
| "quote_body (b # v) =
    (if b = QUOTE then [QUOTE, BSLASH, QUOTE, QUOTE] else [b]) @ quote_body v"

definition shell_quote :: "byte list \<Rightarrow> byte list" where
  "shell_quote v = QUOTE # quote_body v @ [QUOTE]"

lemma quote_body_plain: "QUOTE \<notin> set v \<Longrightarrow> quote_body (v @ w) = v @ quote_body w"
  by (induction v) auto

lemma write_segments_pieces:
  "count_list v QUOTE < n \<Longrightarrow>
    \<exists>pieces. write_segments n v = (\<lambda>io. buffer.put_all io pieces) \<and>
      concat pieces = quote_body v @ [QUOTE, NL]"
proof (induction n arbitrary: v)
  case (Suc n)
  obtain segment rest where dw: "takeWhile (\<lambda>b. b \<noteq> QUOTE) v = segment"
    "dropWhile (\<lambda>b. b \<noteq> QUOTE) v = rest" by simp
  then have "v = segment @ rest" by auto
  then have seg: "takeWhile (\<lambda>b. b \<noteq> QUOTE) v = segment" "drop (length segment) v = rest"
    "v = segment @ rest" using dw(1) by auto
  have plain: "QUOTE \<notin> set segment"
    using seg(1) set_takeWhileD by fastforce
  show ?case
  proof (cases rest)
    case Nil
    let ?p = "(if segment = [] then [] else [segment]) @ [[QUOTE, NL]]"
    have "write_segments (Suc n) v = (\<lambda>io. buffer.put_all io ?p)"
      by (intro ext) (simp only: write_segments.simps(2) Let_def seg(1,2), simp add: Nil buffer.put_all_append)
    moreover have "concat ?p = quote_body v @ [QUOTE, NL]"
      using quote_body_plain[OF plain, of "[]"] seg(3) Nil by simp
    ultimately show ?thesis by blast
  next
    case (Cons q w)
    have q: "q = QUOTE"
      using dw(2) Cons by (simp add: dropWhile_eq_Cons_conv)
    have "count_list w QUOTE < n"
      using Suc.prems plain by (simp add: seg(3) Cons q)
    from Suc.IH[OF this] obtain ps where ps: "write_segments n w = (\<lambda>io. buffer.put_all io ps)"
      "concat ps = quote_body w @ [QUOTE, NL]" by blast
    let ?p = "(if segment = [] then [] else [segment]) @ [QUOTE, BSLASH, QUOTE, QUOTE] # ps"
    have "write_segments (Suc n) v = (\<lambda>io. buffer.put_all io ?p)"
      by (intro ext) (simp only: write_segments.simps(2) Let_def seg(1,2), simp add: Cons buffer.put_all_append ps(1))
    moreover have "concat ?p = quote_body v @ [QUOTE, NL]"
      using quote_body_plain[OF plain] by (simp add: seg(3) Cons q ps(2))
    ultimately show ?thesis by blast
  qed
qed simp

lemma split_assignment:
  assumes "CHR ''='' \<notin> set name"
  shows "takeWhile (\<lambda>b. b \<noteq> CHR ''='') (name @ CHR ''='' # v) = name"
    "CHR ''='' \<in> set (name @ CHR ''='' # v)"
    "take (length name + 1) (name @ CHR ''='' # v) = name @ ''=''"
    "drop (length name + 1) (name @ CHR ''='' # v) = v"
  using assms by (auto simp: takeWhile_append)

lemma put_all_result:
  assumes "sink_ok io" "buffer.put_all io pieces = (r, io')" "concat pieces = bytes"
  shows "sink_ok io' \<and> (r \<longleftrightarrow> length bytes \<le> sink_room io) \<and>
    (r \<longrightarrow> sink_content io' = sink_content io @ bytes)"
  using buffer.put_all_room[OF assms(1), of pieces] buffer.put_all_True[OF assms(1), of pieces io']
    buffer.put_all_False[OF assms(1), of pieces io'] assms(2,3)
  by (cases r) auto

lemma write_definition_spec:
  assumes ok: "sink_ok io" and name: "CHR ''='' \<notin> set name" and cap: "count_list v QUOTE < 32768"
    and run: "write_definition io (name @ CHR ''='' # v) = (r, io')"
  shows "sink_ok io' \<and>
    (r \<longleftrightarrow> length name + length (shell_quote v) + 2 \<le> sink_room io) \<and>
    (r \<longrightarrow> sink_content io' = sink_content io @ name @ ''='' @ shell_quote v @ [NL])"
proof -
  from write_segments_pieces[OF cap] obtain ps where ps:
    "write_segments 32768 v = (\<lambda>io. buffer.put_all io ps)" "concat ps = quote_body v @ [QUOTE, NL]"
    by blast
  have "write_definition io (name @ CHR ''='' # v) =
      buffer.put_all io ((name @ ''='') # [QUOTE] # ps)"
    unfolding write_definition_def split_assignment(1)[OF name] Let_def
      split_assignment(3,4)[OF name] using split_assignment(2)[OF name]
    by (simp add: ps(1))
  with run have "buffer.put_all io ((name @ ''='') # [QUOTE] # ps) = (r, io')" by simp
  from put_all_result[OF ok this refl] show ?thesis
    by (simp add: ps(2) shell_quote_def)
qed

lemma quote_assignment_spec:
  assumes ok: "sink_ok io" and name: "CHR ''='' \<notin> set name" and cap: "count_list v QUOTE < 262144"
    and run: "quote_assignment io (name @ CHR ''='' # v) = (r, io')"
  shows "sink_ok io' \<and>
    (r \<longleftrightarrow> length name + length (shell_quote v) + 2 \<le> sink_room io) \<and>
    (r \<longrightarrow> sink_content io' = sink_content io @ name @ ''='' @ shell_quote v @ [NL])"
proof -
  from write_segments_pieces[OF cap] obtain ps where ps:
    "write_segments 262144 v = (\<lambda>io. buffer.put_all io ps)" "concat ps = quote_body v @ [QUOTE, NL]"
    by blast
  have "quote_assignment io (name @ CHR ''='' # v) =
      buffer.put_all io (name # [CHR ''='', QUOTE] # ps)"
    unfolding quote_assignment_def split_assignment(1)[OF name] Let_def
      split_assignment(4)[OF name] using split_assignment(2)[OF name]
    by (simp add: ps(1))
  with run have "buffer.put_all io (name # [CHR ''='', QUOTE] # ps) = (r, io')" by simp
  from put_all_result[OF ok this refl] show ?thesis
    by (simp add: ps(2) shell_quote_def)
qed


section \<open>What the shell reads back\<close>

subsection \<open>The lexer reads one word\<close>

lemma advance_count_add: "advance_count l (m + n) = advance_count (advance_count l m) n"
  by (induction l m rule: advance_count.induct) simp_all

lemma scan_quote_body:
  "lx_rest l = quote_body v @ QUOTE # r \<Longrightarrow> NUL \<notin> set v \<Longrightarrow>
    scan_word_loop l [CONTEXT_SINGLE] =
    scan_word_loop (advance_count l (length (quote_body v) + 1)) []"
proof (induction v arbitrary: l)
  case Nil
  then show ?case by (simp add: scan_single_byte)
next
  case (Cons b v)
  show ?case
  proof (cases "b = QUOTE")
    case True
    let ?l = "advance_count l 4"
    have rest: "lx_rest l = QUOTE # BSLASH # QUOTE # QUOTE # quote_body v @ QUOTE # r"
      using Cons.prems True by simp
    have "scan_word_loop l [CONTEXT_SINGLE] = scan_word_loop (advance_one l) []"
      using rest by (simp add: scan_single_byte)
    also have "\<dots> = scan_word_loop (advance_count (advance_one l) 2) []"
      using rest scan_backslash_pair[of "advance_one l"] by simp
    also have "\<dots> = scan_word_loop (advance_one (advance_count (advance_one l) 2)) [CONTEXT_SINGLE]"
      using rest scan_single_open[of "advance_count (advance_one l) 2"] by (simp add: numeral_2_eq_2)
    also have "advance_one (advance_count (advance_one l) 2) = ?l"
      by (simp add: eval_nat_numeral)
    also have "scan_word_loop ?l [CONTEXT_SINGLE] =
        scan_word_loop (advance_count ?l (length (quote_body v) + 1)) []"
      using rest Cons.prems(2) by (intro Cons.IH) (simp_all add: eval_nat_numeral)
    finally show ?thesis by (simp add: True eval_nat_numeral)
  next
    case False
    then have rest: "lx_rest l = b # quote_body v @ QUOTE # r"
      using Cons.prems by simp
    have "scan_word_loop l [CONTEXT_SINGLE] = scan_word_loop (advance_one l) [CONTEXT_SINGLE]"
      using scan_single_byte[OF rest, of "[]"] False Cons.prems(2) by auto
    also have "\<dots> = scan_word_loop (advance_count (advance_one l) (length (quote_body v) + 1)) []"
      using rest Cons.prems(2) by (intro Cons.IH) simp_all
    finally show ?thesis by (simp add: False)
  qed
qed

lemma scan_shell_quote:
  assumes "lx_rest l = shell_quote v @ r" "NUL \<notin> set v"
  shows "scan_word_loop l [] = scan_word_loop (advance_count l (length (shell_quote v))) []"
proof -
  have "scan_word_loop l [] = scan_word_loop (advance_one l) [CONTEXT_SINGLE]"
    using assms(1) by (intro scan_single_open) (simp add: shell_quote_def)
  also have "\<dots> = scan_word_loop (advance_count (advance_one l) (length (quote_body v) + 1)) []"
    using assms by (intro scan_quote_body) (simp_all add: shell_quote_def)
  finally show ?thesis by (simp add: shell_quote_def)
qed

text \<open>A word that starts with plain bytes and is scanned up to a byte that ends it.\<close>

lemma gsh_lexer_next_word:
  assumes "lx_status l = LEX_OK" "lx_rest l = b # s" "plain_word_byte b" "b \<noteq> CHR ''#''"
    and scan: "scan_word_loop l [] = (True, advance_count l (Suc n))"
  shows "\<exists>t. gsh_lexer_next l t0 = (LEX_OK, advance_count l (Suc n), t) \<and>
    tok_kind t = TOKEN_WORD \<and> tok_begin t = lx_offset l \<and> tok_end t = lx_offset l + Suc n"
proof -
  have b: "\<not> blank_byte b" "b \<noteq> NL" "b \<noteq> NUL" "b \<noteq> BSLASH" "\<not> operator_byte b"
    using assms(3) by (simp_all add: plain_word_byte_def)
  have "skip_while blank_byte l = l"
    using assms(2) b lx_rest_ConsD[OF assms(2)] by (simp add: skip_while.simps[of blank_byte l])
  then have trivia: "skip_trivia 0 l = (False, l)"
    using skip_trivia_step[of 0 l l] assms(2,4) b by simp
  have "operator_at l = None"
    using operator_text_None[of "lx_rest l"] assms(2) b by (simp add: operator_at_rest)
  with trivia assms lx_rest_ConsD[OF assms(2)] b show ?thesis
    by (simp add: gsh_lexer_next_def Let_def scan_word_def)
qed

lemma lexer_reads_quoted:
  assumes "list_all plain_word_byte name" "name \<noteq> []" "hd name \<noteq> CHR ''#''" "NUL \<notin> set v"
    and word: "word = name @ CHR ''='' # shell_quote v"
  shows "\<exists>l t. gsh_lexer_next (gsh_lexer_init (word @ NL # r)) t0 = (LEX_OK, l, t) \<and>
    tok_kind t = TOKEN_WORD \<and> tok_begin t = 0 \<and> tok_end t = length word"
proof -
  let ?l = "gsh_lexer_init (word @ NL # r)"
  have eq: "plain_word_byte (CHR ''='')"
    by (simp add: plain_word_byte_def blank_byte_def operator_byte_def)
  let ?pre = "name @ ''=''"
  have rest: "lx_rest (advance_count ?l (length ?pre)) = shell_quote v @ NL # r"
    by (simp only: lx_rest_advance gsh_lexer_init_fields) (simp add: word)
  have "scan_word_loop ?l [] = scan_word_loop (advance_count ?l (length ?pre)) []"
    using assms(1) eq by (intro scan_plain_run[where r = "shell_quote v @ NL # r"])
      (auto simp: word list_all_iff)
  also have "\<dots> = scan_word_loop
      (advance_count (advance_count ?l (length ?pre)) (length (shell_quote v))) []"
    by (rule scan_shell_quote[OF rest assms(4)])
  also have "advance_count (advance_count ?l (length ?pre)) (length (shell_quote v)) =
      advance_count ?l (length word)"
    by (simp only: advance_count_add[symmetric]) (simp add: word)
  also have "scan_word_loop (advance_count ?l (length word)) [] = (True, advance_count ?l (length word))"
    by (intro scan_word_end) simp
  finally have scan: "scan_word_loop ?l [] = (True, advance_count ?l (Suc (length word - 1)))"
    using assms(2) by (simp add: word)
  obtain b s where b: "name = b # s" using assms(2) by (cases name) auto
  have "lx_rest ?l = b # (s @ CHR ''='' # shell_quote v @ NL # r)" by (simp add: word b)
  from gsh_lexer_next_word[OF _ this _ _ scan, of t0] show ?thesis
    using assms(1,3) b by (auto simp: word)
qed

lemma shell_quote_length: "length (shell_quote v) = length v + 3 * count_list v QUOTE + 2"
proof -
  have "length (quote_body v) = length v + 3 * count_list v QUOTE"
    by (induction v) simp_all
  then show ?thesis by (simp add: shell_quote_def)
qed

text \<open>An empty output buffer of 32 bytes, for examples.\<close>

definition sample_sink :: buffer_sink where
  "sample_sink = \<lparr>sb_bytes = replicate 32 NUL, sb_offset = 0, sb_length = 0, sb_overloads = 0\<rparr>"

lemma sample_sink_ok: "sink_ok sample_sink" "sink_content sample_sink = []" "sink_room sample_sink = 32"
  by (simp_all add: sample_sink_def sink_ok_def sink_content_def slice_def sink_room_def)

end
