(* ===== verification/AliasBuiltins.thy ===== *)
theory AliasBuiltins
  imports AliasJournal Quoting "HOL-Library.Multiset"
begin

text \<open>
  The builtins \<open>alias\<close> (\<open>src/builtin_alias.c\<close>) and \<open>unalias\<close> (\<open>src/builtin_unalias.c\<close>).
  Both work on the store and, in a child that reports its changes, on a journal beside it;
  \<open>None\<close> is the null journal. Arguments are C strings, lists of bytes without the final NUL.
\<close>

section \<open>Listing\<close>

text \<open>\<open>strcmp(left, right) > 0\<close>.\<close>

fun strcmp_greater :: "byte list \<Rightarrow> byte list \<Rightarrow> bool" where
  "strcmp_greater [] right = False"
| "strcmp_greater (a # left) [] = True"
| "strcmp_greater (a # left) (b # right) = (if a = b then strcmp_greater left right else b < a)"

definition assignment_at :: "gsh_alias_store \<Rightarrow> nat \<Rightarrow> byte list" where
  "assignment_at aliases index = the (gsh_aliases_assignment aliases index)"

text \<open>The inner loop moves the last element of the sorted prefix down to its place.\<close>

fun sift_down :: "(nat \<Rightarrow> byte list) \<Rightarrow> nat list \<Rightarrow> nat \<Rightarrow> nat list" where
  "sift_down key order 0 = order"
| "sift_down key order (Suc position) =
    (if strcmp_greater (key (order ! position)) (key (order ! Suc position))
     then sift_down key
            (order[position := order ! Suc position, Suc position := order ! position]) position
     else order)"

fun sort_order :: "(nat \<Rightarrow> byte list) \<Rightarrow> nat \<Rightarrow> nat list" where
  "sort_order key 0 = []"
| "sort_order key (Suc index) = sift_down key (sort_order key index @ [index]) index"

fun write_definitions :: "buffer_sink \<Rightarrow> byte list list \<Rightarrow> bool \<times> buffer_sink" where
  "write_definitions io [] = (True, io)"
| "write_definitions io (assignment # rest) =
    and_then (write_definition io assignment) (\<lambda>io. write_definitions io rest)"

definition list_all_aliases :: "gsh_alias_store \<Rightarrow> buffer_sink \<Rightarrow> int \<times> buffer_sink" where
  "list_all_aliases aliases io =
    (let order = sort_order (assignment_at aliases) (gsh_aliases_count aliases)
     in case write_definitions io (map (assignment_at aliases) order) of
          (ok, io) \<Rightarrow> (if ok then 0 else 1, io))"

section \<open>alias and unalias\<close>

type_synonym alias_state = "gsh_alias_store \<times> gsh_alias_journal option \<times> buffer_sink"

definition alias_error :: "byte list \<Rightarrow> byte list \<Rightarrow> alias_state \<Rightarrow> int \<times> alias_state" where
  "alias_error builtin message st =
    (case st of (aliases, journal, io) \<Rightarrow>
       case gsh_builtin_error io builtin message of (status, io) \<Rightarrow> (status, aliases, journal, io))"

text \<open>
  The record of an operation in the journal, if there is one. A failure ends the builtin with
  status 125 after its message; \<open>Inl\<close> is that end, \<open>Inr\<close> goes on with the status.
\<close>

definition journal_step ::
  "byte list \<Rightarrow> alias_op \<Rightarrow> int \<Rightarrow> alias_state \<Rightarrow> (alias_state + int \<times> alias_state)" where
  "journal_step builtin x status st =
    (case st of (aliases, journal, io) \<Rightarrow>
       (case journal of
          None \<Rightarrow> Inr (status, st)
        | Some j \<Rightarrow>
            (case log_alias_op j x of
               (None, j) \<Rightarrow> Inr (status, aliases, Some j, io)
             | (Some err, j) \<Rightarrow>
                 Inl (snd (alias_error builtin ''alias transaction capacity exceeded''
                       (aliases, Some j, io))))))"

definition alias_operand ::
  "byte list \<Rightarrow> int \<Rightarrow> alias_state \<Rightarrow> (alias_state + int \<times> alias_state)" where
  "alias_operand operand status st =
    (case st of (aliases, journal, io) \<Rightarrow>
       let name = takeWhile (\<lambda>b. b \<noteq> CHR ''='') operand
       in if \<not> gsh_alias_name_is_valid name then Inr (alias_error ''alias'' ''invalid alias name'' st)
          else if CHR ''='' \<notin> set operand then
            (case gsh_aliases_lookup aliases name of
               None \<Rightarrow> Inr (alias_error ''alias'' ''alias is not defined'' st)
             | Some (val, found) \<Rightarrow>
                 (case write_definition io (assignment_at aliases found) of
                    (ok, io) \<Rightarrow> Inr (if ok then status else 1, aliases, journal, io)))
          else
            (let val = drop (length name + 1) operand
             in case gsh_aliases_set aliases name val of
                  (Some err, aliases) \<Rightarrow>
                    Inr (alias_error ''alias'' ''alias capacity exceeded'' (aliases, journal, io))
                | (None, aliases) \<Rightarrow>
                    journal_step ''alias'' (Op_set name val) status (aliases, journal, io)))"

fun alias_operands :: "byte list list \<Rightarrow> int \<Rightarrow> alias_state \<Rightarrow> int \<times> alias_state" where
  "alias_operands [] status st = (status, st)"
| "alias_operands (operand # rest) status st =
    (case alias_operand operand status st of
       Inl st \<Rightarrow> (125, st)
     | Inr (status, st) \<Rightarrow> alias_operands rest status st)"

definition option_like :: "byte list \<Rightarrow> bool" where
  "option_like argument \<longleftrightarrow> argument \<noteq> [] \<and> hd argument = CHR ''-'' \<and> tl argument \<noteq> []"

text \<open>The arguments behind the command name; the io is valid and there is a command name.\<close>

definition gsh_builtin_alias :: "byte list list \<Rightarrow> alias_state \<Rightarrow> int \<times> alias_state" where
  "gsh_builtin_alias arguments st =
    (let double_dash = (arguments \<noteq> [] \<and> hd arguments = ''--'')
     in if \<not> double_dash \<and> arguments \<noteq> [] \<and> option_like (hd arguments)
        then alias_error ''alias'' ''invalid option'' st
        else
          (let operands = (if double_dash then tl arguments else arguments)
           in if operands = []
              then (case st of (aliases, journal, io) \<Rightarrow>
                case list_all_aliases aliases io of (status, io) \<Rightarrow> (status, aliases, journal, io))
              else alias_operands operands 0 st))"

definition unalias_operand ::
  "byte list \<Rightarrow> int \<Rightarrow> alias_state \<Rightarrow> (alias_state + int \<times> alias_state)" where
  "unalias_operand operand status st =
    (case st of (aliases, journal, io) \<Rightarrow>
       if \<not> gsh_alias_name_is_valid operand then
         Inr (alias_error ''unalias'' ''invalid alias name'' st)
       else (case gsh_aliases_unset aliases operand of
           (Some err, aliases) \<Rightarrow>
             Inr (alias_error ''unalias'' ''alias is not defined'' (aliases, journal, io))
         | (None, aliases) \<Rightarrow>
             journal_step ''unalias'' (Op_unset operand) status (aliases, journal, io)))"

fun unalias_operands :: "byte list list \<Rightarrow> int \<Rightarrow> alias_state \<Rightarrow> int \<times> alias_state" where
  "unalias_operands [] status st = (status, st)"
| "unalias_operands (operand # rest) status st =
    (case unalias_operand operand status st of
       Inl st \<Rightarrow> (125, st)
     | Inr (status, st) \<Rightarrow> unalias_operands rest status st)"

definition unalias_all :: "alias_state \<Rightarrow> int \<times> alias_state" where
  "unalias_all st =
    (case st of (aliases, journal, io) \<Rightarrow>
       case journal_step ''unalias'' Op_clear 0 (gsh_aliases_clear aliases, journal, io) of
         Inl st \<Rightarrow> (125, st)
       | Inr (status, st) \<Rightarrow> (0, st))"

definition gsh_builtin_unalias :: "byte list list \<Rightarrow> alias_state \<Rightarrow> int \<times> alias_state" where
  "gsh_builtin_unalias arguments st =
    (let all = (arguments \<noteq> [] \<and> hd arguments = ''-a'');
         double_dash = (arguments \<noteq> [] \<and> hd arguments = ''--'')
     in if \<not> all \<and> \<not> double_dash \<and> arguments \<noteq> [] \<and> option_like (hd arguments)
        then alias_error ''unalias'' ''invalid option'' st
        else
          (let operands = (if all \<or> double_dash then tl arguments else arguments)
           in if all then
                (if operands \<noteq> [] then alias_error ''unalias'' ''-a does not accept operands'' st
                 else unalias_all st)
              else if operands = [] then alias_error ''unalias'' ''missing alias name'' st
              else unalias_operands operands 0 st))"

section \<open>The journal follows the store\<close>

text \<open>
  \<open>follows s0 st\<close>: the journal of \<open>st\<close> records a run of alias operations from \<open>s0\<close> to the
  store of \<open>st\<close>.
\<close>

definition follows :: "gsh_alias_store \<Rightarrow> alias_state \<Rightarrow> bool" where
  "follows s0 st \<longleftrightarrow> (case st of (aliases, journal, io) \<Rightarrow>
    case journal of None \<Rightarrow> False | Some j \<Rightarrow> journal.logged s0 aliases j)"

lemma alias_error_keeps:
  assumes "alias_error builtin message st = (status, st')"
  shows "status = 1 \<and> fst st' = fst st \<and> fst (snd st') = fst (snd st)"
proof -
  obtain aliases journal io where st: "st = (aliases, journal, io)" by (cases st)
  obtain code io' where e: "gsh_builtin_error io builtin message = (code, io')"
    by (cases "gsh_builtin_error io builtin message")
  then have "code = 1" by (auto simp: gsh_builtin_error_def Let_def)
  with assms e show ?thesis by (auto simp: alias_error_def st)
qed

text \<open>The state the builtins keep: a well-formed store that its journal follows.\<close>

definition tracked :: "gsh_alias_store \<Rightarrow> alias_state \<Rightarrow> bool" where
  "tracked s0 st \<longleftrightarrow> alias_ok (fst st) \<and> follows s0 st"

lemma tracked_cong:
  "tracked s0 st \<Longrightarrow> fst st' = fst st \<Longrightarrow> fst (snd st') = fst (snd st) \<Longrightarrow> tracked s0 st'"
  by (cases st, cases st') (simp add: tracked_def follows_def)

lemma alias_error_tracked:
  "alias_error builtin message st = (status, st') \<Longrightarrow> tracked s0 st \<Longrightarrow> tracked s0 st' \<and> status = 1"
  using alias_error_keeps[of builtin message st status st'] tracked_cong[of s0 st st'] by blast

lemma journal_step_tracked:
  assumes st: "tracked s0 (aliases, journal, io)" and run: "run_alias_op aliases x = (None, aliases')"
    and ok: "alias_ok aliases'"
    and step: "journal_step builtin x status (aliases', journal, io) = Inr (status', st')"
  shows "tracked s0 st' \<and> status' = status"
proof -
  have "follows s0 (aliases, journal, io)" using st by (simp add: tracked_def)
  then obtain j where j: "journal = Some j" "journal.logged s0 aliases j"
    by (cases journal) (simp_all add: follows_def)
  obtain r j' where r: "log_alias_op j x = (r, j')" by (cases "log_alias_op j x")
  have "r = None" using step by (cases r) (simp_all add: journal_step_def j(1) r)
  with r step have j': "log_alias_op j x = (None, j')"
    "st' = (aliases', Some j', io)" "status' = status"
    by (simp_all add: journal_step_def j(1))
  have "journal.logged s0 aliases' j'"
    by (rule journal.logged_step[OF j(2) run j'(1)])
  with ok show ?thesis
    by (simp only: tracked_def follows_def j'(2,3) fst_conv prod.case option.case)
qed

text \<open>The ways an operand ends without status 125.\<close>

lemma alias_operand_cases:
  assumes ok: "alias_ok aliases" and nul: "NUL \<notin> set operand"
    and run: "alias_operand operand status (aliases, journal, io) = Inr (status', st')"
  obtains (error) message where "alias_error ''alias'' message (aliases, journal, io) = (status', st')"
  | (printed) io' where "st' = (aliases, journal, io')"
  | (set) name val aliases' where "gsh_aliases_set aliases name val = (None, aliases')" "alias_ok aliases'"
      "journal_step ''alias'' (Op_set name val) status (aliases', journal, io) = Inr (status', st')"
proof -
  obtain name val where nv: "takeWhile (\<lambda>b. b \<noteq> CHR ''='') operand = name"
    "drop (length name + 1) operand = val" by simp
  have val: "NUL \<notin> set val" using nul nv(2) by (metis in_set_dropD)
  obtain r t where t: "gsh_aliases_set aliases name val = (r, t)" by fastforce
  note spec = alias_set_spec[OF ok val t]
  show thesis
  proof (cases "gsh_alias_name_is_valid name")
    case False
    with run nv(1) show ?thesis by (intro error) (simp add: alias_operand_def Let_def)
  next
    case valid: True
    show ?thesis
    proof (cases "CHR ''='' \<in> set operand")
      case False
      show ?thesis
      proof (cases "gsh_aliases_lookup aliases name")
        case None
        with run nv(1) valid False show ?thesis by (intro error) (simp add: alias_operand_def Let_def)
      next
        case (Some p)
        obtain v found w io' where p: "p = (v, found)"
          "write_definition io (assignment_at aliases found) = (w, io')" by (metis surj_pair)
        with run nv(1) valid False Some show ?thesis
          by (intro printed) (auto simp: alias_operand_def Let_def)
      qed
    next
      case True
      show ?thesis
      proof (cases r)
        case None
        with run nv valid True t spec(1) show ?thesis
          by (intro set[of name val t]) (auto simp: alias_operand_def Let_def)
      next
        case (Some err)
        with spec(4) have "t = aliases" by simp
        with run nv valid True t Some show ?thesis
          by (intro error) (simp add: alias_operand_def Let_def)
      qed
    qed
  qed
qed

lemma alias_operand_tracked:
  assumes st: "tracked s0 st" and nul: "NUL \<notin> set operand"
    and run: "alias_operand operand status st = Inr (status', st')"
  shows "tracked s0 st'"
proof -
  obtain aliases journal io where st_def: "st = (aliases, journal, io)" by (cases st)
  have ok: "alias_ok aliases" using st by (simp add: tracked_def st_def)
  from ok nul run[unfolded st_def] show ?thesis
  proof (cases rule: alias_operand_cases)
    case (error message)
    then show ?thesis using alias_error_tracked st st_def by metis
  next
    case (printed io')
    with st show ?thesis by (simp add: st_def tracked_def follows_def)
  next
    case (set name val aliases')
    have "run_alias_op aliases (Op_set name val) = (None, aliases')"
      using set(1) by (simp add: run_alias_op_def)
    from journal_step_tracked[OF st[unfolded st_def] this set(2,3)] show ?thesis by simp
  qed
qed

lemma unalias_operand_tracked:
  assumes st: "tracked s0 st" and run: "unalias_operand operand status st = Inr (status', st')"
  shows "tracked s0 st'"
proof -
  obtain aliases journal io where st_def: "st = (aliases, journal, io)" by (cases st)
  have ok: "alias_ok aliases" using st by (simp add: tracked_def st_def)
  obtain r t where t: "gsh_aliases_unset aliases operand = (r, t)" by fastforce
  note spec = alias_unset_spec[OF ok t]
  consider (error) message where "alias_error ''unalias'' message st = (status', st')"
    | (unset) "r = None" "gsh_alias_name_is_valid operand"
  proof (cases "gsh_alias_name_is_valid operand")
    case False
    with run that(1) show ?thesis by (simp add: unalias_operand_def st_def)
  next
    case True
    show ?thesis
    proof (cases r)
      case (Some err)
      with spec(4) have "t = aliases" by simp
      with run t True Some that(1) show ?thesis by (simp add: unalias_operand_def st_def)
    qed (use True that(2) in simp)
  qed
  then show ?thesis
  proof cases
    case (error message)
    then show ?thesis using alias_error_tracked st by metis
  next
    case unset
    have "run_alias_op aliases (Op_unset operand) = (None, t)"
      using t unset(1) by (simp add: run_alias_op_def)
    moreover have "journal_step ''unalias'' (Op_unset operand) status (t, journal, io) = Inr (status', st')"
      using run t unset by (simp add: unalias_operand_def st_def)
    ultimately show ?thesis
      using journal_step_tracked[OF st[unfolded st_def] _ spec(1)] by blast
  qed
qed

lemma alias_operands_tracked:
  "alias_operands operands status st = (status', st') \<Longrightarrow> tracked s0 st \<Longrightarrow>
    \<forall>operand \<in> set operands. NUL \<notin> set operand \<Longrightarrow> status' \<noteq> 125 \<Longrightarrow> tracked s0 st'"
proof (induction operands arbitrary: status st)
  case (Cons operand rest)
  show ?case
  proof (cases "alias_operand operand status st")
    case (Inr p)
    obtain status2 st2 where p: "p = (status2, st2)" by (cases p)
    with Cons.prems Inr have "tracked s0 st2" by (auto dest: alias_operand_tracked)
    with Cons.IH[of status2 st2] Cons.prems Inr p show ?thesis by simp
  qed (use Cons.prems in simp)
qed simp

lemma unalias_operands_tracked:
  "unalias_operands operands status st = (status', st') \<Longrightarrow> tracked s0 st \<Longrightarrow>
    status' \<noteq> 125 \<Longrightarrow> tracked s0 st'"
proof (induction operands arbitrary: status st)
  case (Cons operand rest)
  show ?case
  proof (cases "unalias_operand operand status st")
    case (Inr p)
    obtain status2 st2 where p: "p = (status2, st2)" by (cases p)
    with Cons.prems Inr have "tracked s0 st2" by (auto dest: unalias_operand_tracked)
    with Cons.IH[of status2 st2] Cons.prems Inr p show ?thesis by simp
  qed (use Cons.prems in simp)
qed simp

lemma gsh_builtin_alias_tracked:
  assumes run: "gsh_builtin_alias arguments st = (status, st')" and st: "tracked s0 st"
    and nul: "\<forall>argument \<in> set arguments. NUL \<notin> set argument" and status: "status \<noteq> 125"
  shows "tracked s0 st'"
proof -
  let ?operands = "if arguments \<noteq> [] \<and> hd arguments = ''--'' then tl arguments else arguments"
  have operands: "\<forall>operand \<in> set ?operands. NUL \<notin> set operand"
    using nul by (cases arguments) auto
  consider (error) "alias_error ''alias'' ''invalid option'' st = (status, st')"
    | (list) "fst st' = fst st" "fst (snd st') = fst (snd st)"
    | (operands) "alias_operands ?operands 0 st = (status, st')"
    using run by (auto simp: gsh_builtin_alias_def Let_def split: if_splits prod.splits)
  then show ?thesis
  proof cases
    case error
    then show ?thesis using alias_error_tracked st by metis
  next
    case list
    with st show ?thesis by (metis tracked_cong)
  next
    case operands
    from alias_operands_tracked[OF this st \<open>\<forall>operand \<in> set ?operands. _\<close> status] show ?thesis .
  qed
qed

lemma gsh_builtin_unalias_tracked:
  assumes run: "gsh_builtin_unalias arguments st = (status, st')" and st: "tracked s0 st"
    and status: "status \<noteq> 125"
  shows "tracked s0 st'"
proof -
  consider (error) message where "alias_error ''unalias'' message st = (status, st')"
    | (all) "unalias_all st = (status, st')"
    | (operands) operands where "unalias_operands operands 0 st = (status, st')"
    using run by (auto simp: gsh_builtin_unalias_def Let_def split: if_splits)
  then show ?thesis
  proof cases
    case (error message)
    then show ?thesis using alias_error_tracked st by metis
  next
    case all
    obtain aliases journal io where st_def: "st = (aliases, journal, io)" by (cases st)
    have "run_alias_op aliases Op_clear = (None, gsh_aliases_clear aliases)"
      by (simp add: run_alias_op_def)
    moreover obtain status2 where "journal_step ''unalias'' Op_clear 0
        (gsh_aliases_clear aliases, journal, io) = Inr (status2, st')"
      using all status by (auto simp: unalias_all_def st_def split: sum.splits)
    ultimately show ?thesis
      using journal_step_tracked[OF st[unfolded st_def] _ alias_clear_spec(1)] by blast
  next
    case (operands operands)
    from unalias_operands_tracked[OF this st status] show ?thesis .
  qed
qed


section \<open>The order and the output of a listing\<close>

lemma strcmp_greater_asym: "strcmp_greater a b \<Longrightarrow> \<not> strcmp_greater b a"
  by (induction a b rule: strcmp_greater.induct) (auto split: if_splits)

lemma strcmp_greater_trans:
  "\<not> strcmp_greater a b \<Longrightarrow> \<not> strcmp_greater b c \<Longrightarrow> \<not> strcmp_greater a c"
proof (induction a b arbitrary: c rule: strcmp_greater.induct)
  case (3 x xs y ys)
  show ?case
  proof (cases c)
    case (Cons z zs)
    with 3 show ?thesis by (auto split: if_splits)
  qed (use 3 in simp)
qed auto

definition key_le :: "(nat \<Rightarrow> byte list) \<Rightarrow> nat \<Rightarrow> nat \<Rightarrow> bool" where
  "key_le key i j \<longleftrightarrow> \<not> strcmp_greater (key i) (key j)"

lemma sift_down_sorts:
  assumes "sorted_wrt (key_le key) (xs @ ys)" "\<forall>y \<in> set ys. key_le key x y"
  shows "sorted_wrt (key_le key) (sift_down key (xs @ x # ys) (length xs)) \<and>
    set (sift_down key (xs @ x # ys) (length xs)) = insert x (set xs \<union> set ys) \<and>
    length (sift_down key (xs @ x # ys) (length xs)) = length xs + Suc (length ys)"
  using assms
proof (induction xs arbitrary: ys rule: rev_induct)
  case (snoc z zs)
  show ?case
  proof (cases "strcmp_greater (key z) (key x)")
    case True
    then have "\<forall>y \<in> set (z # ys). key_le key x y"
      using snoc.prems(2) strcmp_greater_asym by (auto simp: key_le_def)
    with snoc.IH[of "z # ys"] snoc.prems(1) True show ?thesis
      by (auto simp: nth_append list_update_append)
  next
    case False
    then have le: "key_le key z x" by (simp add: key_le_def)
    have "key_le key w x" if "w \<in> set zs" for w
      using snoc.prems(1) that le strcmp_greater_trans[of "key w" "key z" "key x"]
      by (auto simp: sorted_wrt_append key_le_def)
    with snoc.prems le False show ?thesis
      by (auto simp: sorted_wrt_append nth_append)
  qed
qed simp

lemma sort_order_sorted:
  "sorted_wrt (key_le key) (sort_order key n) \<and> set (sort_order key n) = {..<n} \<and>
    length (sort_order key n) = n"
proof (induction n)
  case (Suc n)
  with sift_down_sorts[of key "sort_order key n" "[]" n] show ?case by auto
qed simp

text \<open>The lines of a listing, when every assignment is written in full.\<close>

definition definition_line :: "byte list \<Rightarrow> byte list" where
  "definition_line assignment =
    (let name = takeWhile (\<lambda>b. b \<noteq> CHR ''='') assignment
     in name @ ''='' @ shell_quote (drop (length name + 1) assignment) @ [NL])"

lemma write_definition_line:
  assumes "sink_ok io" "CHR ''='' \<in> set assignment" "count_list assignment QUOTE < 32768"
    "write_definition io assignment = (r, io')"
  shows "sink_ok io' \<and> (r \<longrightarrow> sink_content io' = sink_content io @ definition_line assignment)"
proof -
  let ?name = "takeWhile (\<lambda>b. b \<noteq> CHR ''='') assignment"
  let ?val = "drop (length ?name + 1) assignment"
  have name: "CHR ''='' \<notin> set ?name" using set_takeWhileD by fastforce
  have split: "assignment = ?name @ CHR ''='' # ?val"
    using assms(2) by (induction assignment) auto
  have "count_list ?val QUOTE \<le> count_list assignment QUOTE"
    by (subst (2) split) simp
  with assms(3) have "count_list ?val QUOTE < 32768" by simp
  from write_definition_spec[OF assms(1) name this, of r io'] assms(4) split show ?thesis
    by (simp add: definition_line_def Let_def)
qed

lemma write_definitions_lines:
  "sink_ok io \<Longrightarrow> write_definitions io as = (r, io') \<Longrightarrow>
    \<forall>a \<in> set as. CHR ''='' \<in> set a \<and> count_list a QUOTE < 32768 \<Longrightarrow>
    sink_ok io' \<and> (r \<longrightarrow> sink_content io' = sink_content io @ concat (map definition_line as))"
proof (induction as arbitrary: io)
  case (Cons a as)
  from Cons.prems(2) have "and_then (write_definition io a) (\<lambda>io. write_definitions io as) = (r, io')"
    by simp
  then show ?case
  proof (cases rule: and_thenE)
    case stop
    with write_definition_line[OF Cons.prems(1) _ _ stop(1)] Cons.prems(3) show ?thesis by simp
  next
    case (continue m)
    with write_definition_line[OF Cons.prems(1) _ _ continue(1)] Cons.IH[of m] Cons.prems(3)
    show ?thesis by auto
  qed
qed simp

lemma alias_ok_assignment:
  assumes "alias_ok s" "i < gsh_aliases_count s"
  shows "assignment_at s i = fst (alias_pairs s ! i) @ CHR ''='' # snd (alias_pairs s ! i)"
    "alias_ok_pair (alias_pairs s ! i)"
proof -
  have i: "i < length (alias_pairs s)" using assms alias_ok_count by simp
  have rep: "alias_rep s (alias_pairs s)" using assms(1) by (simp add: alias_ok_def)
  show "alias_ok_pair (alias_pairs s ! i)"
    using rep i by (simp add: alias_rep_def list_all_length)
  obtain n v where p: "alias_pairs s ! i = (n, v)" by (cases "alias_pairs s ! i")
  from alias_rep_read(2)[OF rep i p] assms(2) p
  show "assignment_at s i = fst (alias_pairs s ! i) @ CHR ''='' # snd (alias_pairs s ! i)"
    by (simp add: assignment_at_def gsh_aliases_assignment_def gsh_aliases_count_def)
qed

lemma list_all_aliases_spec:
  assumes ok: "alias_ok s" "sink_ok io" and run: "list_all_aliases s io = (0, io')"
  shows "\<exists>order. sorted_wrt (key_le (assignment_at s)) order \<and> set order = {..<gsh_aliases_count s} \<and>
    length order = gsh_aliases_count s \<and>
    sink_content io' = sink_content io @ concat (map (\<lambda>i. definition_line (assignment_at s i)) order)"
proof -
  let ?order = "sort_order (assignment_at s) (gsh_aliases_count s)"
  note sorted = sort_order_sorted[of "assignment_at s" "gsh_aliases_count s"]
  obtain r io2 where w: "write_definitions io (map (assignment_at s) ?order) = (r, io2)"
    by (cases "write_definitions io (map (assignment_at s) ?order)")
  with run have r: "r" "io2 = io'"
    by (auto simp: list_all_aliases_def Let_def split: if_splits)
  have "\<forall>a \<in> set (map (assignment_at s) ?order). CHR ''='' \<in> set a \<and> count_list a QUOTE < 32768"
  proof
    fix a assume "a \<in> set (map (assignment_at s) ?order)"
    then obtain i where i: "i < gsh_aliases_count s" "a = assignment_at s i" using sorted by auto
    note p = alias_ok_assignment[OF ok(1) i(1)]
    have "QUOTE \<notin> set (fst (alias_pairs s ! i))"
      using p(2) by (auto simp: alias_ok_pair_def gsh_alias_name_is_valid_def list_all_iff
          alias_byte_def byte_class_defs less_eq_char_def)
    moreover have "count_list (snd (alias_pairs s ! i)) QUOTE \<le> 16384"
      using p(2) count_le_length[of "snd (alias_pairs s ! i)" QUOTE] by (simp add: alias_ok_pair_def)
    ultimately show "CHR ''='' \<in> set a \<and> count_list a QUOTE < 32768"
      using p(1) i(2) by simp
  qed
  from write_definitions_lines[OF ok(2) w this] r sorted show ?thesis
    by (intro exI[of _ ?order]) (simp add: comp_def)
qed

section \<open>Properties\<close>

text \<open>C10. What the builtins do in a child reaches the parent: whatever \<open>alias\<close> and \<open>unalias\<close> do
  with their arguments, errors included, a run that does not end with the journal's overflow
  status 125 leaves a well-formed store and a journal whose replay in the parent gives that
  same store.\<close>

theorem alias_builtins_replay:
  assumes "builtin \<in> {gsh_builtin_alias, gsh_builtin_unalias}"
    "builtin arguments (aliases, Some (gsh_alias_journal_initialize g), io) =
      (status, aliases', journal', io')"
    "alias_ok aliases" "\<forall>argument \<in> set arguments. NUL \<notin> set argument" "status \<noteq> 125"
  shows "alias_ok aliases' \<and> (\<exists>j. journal' = Some j \<and>
    gsh_aliases_apply_journal aliases j scratch = (None, aliases', aliases'))"
proof -
  have "journal.logged aliases aliases (gsh_alias_journal_initialize g)"
    by (rule journal.logged_start) (rule journal_initialize)+
  then have "tracked aliases (aliases, Some (gsh_alias_journal_initialize g), io)"
    using assms(3) by (simp add: tracked_def follows_def)
  then have "tracked aliases (aliases', journal', io')"
    using assms gsh_builtin_alias_tracked gsh_builtin_unalias_tracked by blast
  then show ?thesis using logged_apply(2) by (auto simp: tracked_def follows_def split: option.splits)
qed

lemma alias_builtins_replay_witness:
  "case gsh_builtin_unalias [''-a''] (blank_aliases, Some (gsh_alias_journal_initialize 7), sample_sink) of
    (status, aliases', journal', io') \<Rightarrow> status = 0 \<and> (\<exists>j. journal' = Some j \<and>
      gsh_aliases_apply_journal blank_aliases j blank_aliases = (None, aliases', aliases'))"
proof -
  obtain status aliases' journal' io' where run:
    "gsh_builtin_unalias [''-a''] (blank_aliases, Some (gsh_alias_journal_initialize 7), sample_sink) =
      (status, aliases', journal', io')" by (metis prod_cases4)
  have "status = 0"
    using run by (simp add: gsh_builtin_unalias_def unalias_all_def journal_step_def log_alias_op_def
        gsh_alias_journal_record_clear_def record_alias_def record_length_def
        gsh_alias_journal_initialize_def del: replicate.simps)
  with alias_builtins_replay[where builtin = gsh_builtin_unalias, OF _ run blank_aliases_ok(1), of blank_aliases]
    run show ?thesis by simp
qed

text \<open>\<open>alias\<close> without operands lists every definition of the store exactly once, in the byte
  order of the assignments, each as its re-readable line.\<close>

theorem alias_listing_sorted:
  assumes "alias_ok aliases" "sink_ok io" "list_all_aliases aliases io = (0, io')"
  shows "\<exists>ps. mset ps = mset (alias_pairs aliases) \<and>
    sorted_wrt (\<lambda>p q. \<not> strcmp_greater (fst p @ CHR ''='' # snd p) (fst q @ CHR ''='' # snd q)) ps \<and>
    sink_content io' = sink_content io @
      concat (map (\<lambda>p. fst p @ CHR ''='' # shell_quote (snd p) @ [NL]) ps)"
proof -
  let ?n = "gsh_aliases_count aliases" and ?pairs = "alias_pairs aliases"
  obtain order where order: "sorted_wrt (key_le (assignment_at aliases)) order" "set order = {..<?n}"
    "length order = ?n" and content: "sink_content io' = sink_content io @
      concat (map (\<lambda>i. definition_line (assignment_at aliases i)) order)"
    using list_all_aliases_spec[OF assms] by blast
  have n: "length ?pairs = ?n" using alias_ok_count[OF assms(1)] by simp
  have "distinct order" by (rule card_distinct) (simp only: order(2,3) card_lessThan)
  then have "mset order = mset [0..<?n]"
    by (rule iffD1[OF set_eq_iff_mset_eq_distinct])
      (use order(2) in \<open>simp_all only: distinct_upt set_upt atLeast0LessThan\<close>)
  then have "mset (map ((!) ?pairs) order) = mset (map ((!) ?pairs) [0..<?n])" by (metis mset_map)
  then have perm: "mset (map ((!) ?pairs) order) = mset ?pairs"
    by (simp only: n[symmetric] map_nth)
  have read: "assignment_at aliases i = fst (?pairs ! i) @ CHR ''='' # snd (?pairs ! i)"
    if "i \<in> set order" for i using alias_ok_assignment(1)[OF assms(1), of i] order(2) that by simp
  have line: "definition_line (assignment_at aliases i) =
      fst (?pairs ! i) @ CHR ''='' # shell_quote (snd (?pairs ! i)) @ [NL]" if "i \<in> set order" for i
  proof -
    have "gsh_alias_name_is_valid (fst (?pairs ! i))"
      using alias_ok_assignment(2)[OF assms(1), of i] order(2) that by (simp add: alias_ok_pair_def)
    from split_assignment[OF conjunct1[OF alias_bytes_no_equals[OF this]]] show ?thesis
      by (simp add: read[OF that] definition_line_def)
  qed
  have "sorted_wrt (\<lambda>p q. \<not> strcmp_greater (fst p @ CHR ''='' # snd p) (fst q @ CHR ''='' # snd q))
      (map ((!) ?pairs) order)"
    unfolding sorted_wrt_map using order(1) by (rule sorted_wrt_mono_rel[rotated]) (simp add: key_le_def read)
  moreover have "map (\<lambda>i. definition_line (assignment_at aliases i)) order =
      map (\<lambda>p. fst p @ CHR ''='' # shell_quote (snd p) @ [NL]) (map ((!) ?pairs) order)"
    unfolding map_map comp_def by (rule map_cong[OF refl line])
  ultimately show ?thesis using perm content by (intro exI[of _ "map ((!) ?pairs) order"]) (simp only: simp_thms)
qed

lemma alias_listing_sorted_witness:
  "case list_all_aliases blank_aliases sample_sink of (status, io') \<Rightarrow> status = 0 \<and> sink_content io' = []"
proof -
  have run: "list_all_aliases blank_aliases sample_sink = (0, sample_sink)"
    by (simp add: list_all_aliases_def blank_aliases_ok)
  have "alias_pairs blank_aliases = []"
    using alias_ok_count[OF blank_aliases_ok(1)] blank_aliases_ok(3) by simp
  with alias_listing_sorted[OF blank_aliases_ok(1) sample_sink_ok(1) run] run sample_sink_ok(2)
  show ?thesis by simp
qed

end
