(* ===== verification/History.thy ===== *)
theory History
  imports GshPrelude
begin

text \<open>
  The command history of \<open>src/history_store.c\<close>: a ring of 1024 slots with a start, a count
  and the number of the next event. The ring refines the list of the newest 1024 commands,
  oldest first; events are the positions of the commands in the whole history, from 1.
\<close>

section \<open>The ring\<close>

abbreviation (input) GSH_HISTORY_CAP :: nat where "GSH_HISTORY_CAP \<equiv> 1024"
abbreviation (input) GSH_HISTORY_ENTRY_CAP :: nat where "GSH_HISTORY_ENTRY_CAP \<equiv> 4096"
abbreviation (input) UINT64_MAX :: uint64 where "UINT64_MAX \<equiv> - 1"

text \<open>A slot holds the command bytes and their 16-bit length.\<close>

record gsh_history_store =
  hs_lengths :: "16 word list"
  hs_start :: nat
  hs_count :: nat
  hs_next_event :: uint64
  hs_entries :: "byte list list"

definition gsh_history_initialize :: "gsh_history_store \<Rightarrow> gsh_history_store" where
  "gsh_history_initialize s =
    s\<lparr>hs_lengths := replicate GSH_HISTORY_CAP 0, hs_start := 0, hs_count := 0,
      hs_next_event := 1\<rparr>"

definition gsh_history_clear :: "gsh_history_store \<Rightarrow> gsh_history_store" where
  "gsh_history_clear s =
    \<lparr>hs_lengths = replicate GSH_HISTORY_CAP 0, hs_start = 0, hs_count = 0, hs_next_event = 1,
     hs_entries = replicate GSH_HISTORY_CAP (replicate GSH_HISTORY_ENTRY_CAP NUL)\<rparr>"

definition physical_index :: "gsh_history_store \<Rightarrow> nat \<Rightarrow> nat" where
  "physical_index s chronological = (hs_start s + chronological) mod GSH_HISTORY_CAP"

definition slot_bytes :: "gsh_history_store \<Rightarrow> nat \<Rightarrow> byte list" where
  "slot_bytes s slot = take (unat (hs_lengths s ! slot)) (hs_entries s ! slot)"

text \<open>\<open>Inr b\<close> is the C result 1 (\<open>True\<close>) or 0 (\<open>False\<close>); the command is \<open>length\<close> bytes.\<close>

definition gsh_history_add ::
  "gsh_history_store \<Rightarrow> byte list \<Rightarrow> bool \<Rightarrow> (errno + bool) \<times> gsh_history_store" where
  "gsh_history_add s command deduplicate =
    (if command = [] \<or> GSH_HISTORY_ENTRY_CAP \<le> length command \<or> GSH_HISTORY_CAP < hs_count s \<or>
        hs_next_event s = 0 \<or> unat (hs_next_event s) \<le> hs_count s
     then (Inl EINVAL, s)
     else if deduplicate \<and> hs_count s \<noteq> 0 \<and>
        (let latest = physical_index s (hs_count s - 1)
         in unat (hs_lengths s ! latest) = length command \<and>
            take (length command) (hs_entries s ! latest) = command)
     then (Inr False, s)
     else if hs_next_event s = UINT64_MAX then (Inl EOVERFLOW, s)
     else
       (let slot = (if hs_count s < GSH_HISTORY_CAP then physical_index s (hs_count s)
                    else hs_start s);
            s = (if hs_count s < GSH_HISTORY_CAP then s\<lparr>hs_count := hs_count s + 1\<rparr>
                 else s\<lparr>hs_start := (hs_start s + 1) mod GSH_HISTORY_CAP\<rparr>)
        in (Inr True, s\<lparr>
             hs_entries := (hs_entries s)[slot := copy_bytes (hs_entries s ! slot) 0 (command @ [NUL])],
             hs_lengths := (hs_lengths s)[slot := of_nat (length command)],
             hs_next_event := hs_next_event s + 1\<rparr>)))"

definition gsh_history_from_newest :: "gsh_history_store \<Rightarrow> nat \<Rightarrow> byte list option" where
  "gsh_history_from_newest s position =
    (if hs_count s \<le> position \<or> GSH_HISTORY_CAP < hs_count s then None
     else Some (slot_bytes s (physical_index s (hs_count s - position - 1))))"

text \<open>The scan of \<open>contains\<close> from an offset on.\<close>

fun contains_from :: "byte list \<Rightarrow> byte list \<Rightarrow> bool" where
  "contains_from bytes query =
    (if length bytes < length query then False
     else if take (length query) bytes = query then True
     else (case bytes of [] \<Rightarrow> False | b # rest \<Rightarrow> contains_from rest query))"

declare contains_from.simps [simp del]

definition contains :: "byte list \<Rightarrow> byte list \<Rightarrow> bool" where
  "contains bytes query \<longleftrightarrow>
    (if query = [] then True
     else if length bytes < length query then False
     else contains_from bytes query)"

function search_from :: "gsh_history_store \<Rightarrow> byte list \<Rightarrow> nat \<Rightarrow> nat option" where
  "search_from s query candidate =
    (if candidate < hs_count s then
       (case gsh_history_from_newest s candidate of
          Some entry \<Rightarrow> if contains entry query then Some candidate
                       else search_from s query (Suc candidate)
        | None \<Rightarrow> search_from s query (Suc candidate))
     else None)"
  by pat_completeness auto
termination by (relation "measure (\<lambda>(s, query, candidate). hs_count s - candidate)") auto

declare search_from.simps [simp del]

definition gsh_history_search_reverse ::
  "gsh_history_store \<Rightarrow> byte list \<Rightarrow> nat \<Rightarrow> errno + nat" where
  "gsh_history_search_reverse s query before =
    (if GSH_HISTORY_ENTRY_CAP \<le> length query \<or> hs_count s < before \<or> GSH_HISTORY_CAP < hs_count s
     then Inl EINVAL
     else case search_from s query before of Some position \<Rightarrow> Inr position | None \<Rightarrow> Inl ENOENT)"

definition gsh_history_oldest_event :: "gsh_history_store \<Rightarrow> uint64" where
  "gsh_history_oldest_event s =
    (if hs_count s = 0 \<or> unat (hs_next_event s) \<le> hs_count s then 0
     else hs_next_event s - of_nat (hs_count s))"

definition gsh_history_newest_event :: "gsh_history_store \<Rightarrow> uint64" where
  "gsh_history_newest_event s =
    (if hs_count s = 0 \<or> hs_next_event s = 0 then 0 else hs_next_event s - 1)"

definition gsh_history_event :: "gsh_history_store \<Rightarrow> uint64 \<Rightarrow> byte list option" where
  "gsh_history_event s event =
    (let oldest = gsh_history_oldest_event s
     in if oldest = 0 \<or> event < oldest \<or> hs_next_event s \<le> event then None
        else Some (slot_bytes s (physical_index s (unat (event - oldest)))))"

text \<open>The scan of \<open>find_prefix\<close>, newest candidate first; the counter is the turns left.\<close>

fun find_prefix_from ::
  "gsh_history_store \<Rightarrow> byte list \<Rightarrow> nat \<Rightarrow> uint64 \<Rightarrow> uint64 option" where
  "find_prefix_from s prefix 0 candidate = None"
| "find_prefix_from s prefix (Suc turns) candidate =
    (if candidate < gsh_history_oldest_event s then None
     else case gsh_history_event s candidate of
       Some entry \<Rightarrow>
         if length prefix \<le> length entry \<and> take (length prefix) entry = prefix then Some candidate
         else find_prefix_from s prefix turns (candidate - 1)
     | None \<Rightarrow> find_prefix_from s prefix turns (candidate - 1))"

definition gsh_history_find_prefix ::
  "gsh_history_store \<Rightarrow> byte list \<Rightarrow> uint64 \<Rightarrow> errno + uint64" where
  "gsh_history_find_prefix s prefix before_event =
    (if GSH_HISTORY_ENTRY_CAP \<le> length prefix \<or> gsh_history_oldest_event s = 0 then Inl EINVAL
     else
       (let candidate = (if hs_next_event s \<le> before_event then hs_next_event s - 1
                         else before_event)
        in case find_prefix_from s prefix (hs_count s) candidate of
             Some event \<Rightarrow> Inr event
           | None \<Rightarrow> Inl ENOENT))"

section \<open>The ring as a list\<close>

definition history_list :: "gsh_history_store \<Rightarrow> byte list list" where
  "history_list s = map (\<lambda>i. slot_bytes s (physical_index s i)) [0..<hs_count s]"

definition history_ok :: "gsh_history_store \<Rightarrow> bool" where
  "history_ok s \<longleftrightarrow>
    length (hs_lengths s) = GSH_HISTORY_CAP \<and> length (hs_entries s) = GSH_HISTORY_CAP \<and>
    list_all (\<lambda>e. length e = GSH_HISTORY_ENTRY_CAP) (hs_entries s) \<and>
    hs_start s < GSH_HISTORY_CAP \<and> hs_count s \<le> GSH_HISTORY_CAP \<and>
    hs_count s < unat (hs_next_event s) \<and>
    list_all (\<lambda>c. c \<noteq> [] \<and> length c < GSH_HISTORY_ENTRY_CAP) (history_list s) \<and>
    list_all (\<lambda>n. unat n < GSH_HISTORY_ENTRY_CAP) (hs_lengths s)"

text \<open>What one more command does to the list, and when it is taken at all.\<close>

definition push_command :: "byte list list \<Rightarrow> byte list \<Rightarrow> byte list list" where
  "push_command cs c = (if length cs < GSH_HISTORY_CAP then cs @ [c] else tl cs @ [c])"

lemma length_history_list [simp]: "length (history_list s) = hs_count s"
  by (simp add: history_list_def)

lemma history_list_nth:
  "i < hs_count s \<Longrightarrow> history_list s ! i = slot_bytes s (physical_index s i)"
  by (simp add: history_list_def)

lemma physical_index_less [simp]: "physical_index s i < 1024"
  by (simp add: physical_index_def)

lemma physical_index_if:
  "hs_start s < 1024 \<Longrightarrow> i \<le> 1024 \<Longrightarrow>
    physical_index s i = (if hs_start s + i < 1024 then hs_start s + i else hs_start s + i - 1024)"
  by (simp add: physical_index_def mod_if)

lemma physical_index_inj:
  "hs_start s < 1024 \<Longrightarrow> physical_index s i = physical_index s j \<Longrightarrow> i < 1024 \<Longrightarrow> j < 1024 \<Longrightarrow> i = j"
  by (simp add: physical_index_if split: if_splits)

lemma slot_update:
  assumes "history_ok s" "slot < 1024" "r < 1024" "length command < 4096"
    "t = s\<lparr>hs_count := n, hs_start := k,
      hs_entries := (hs_entries s)[slot := copy_bytes (hs_entries s ! slot) 0 (command @ [NUL])],
      hs_lengths := (hs_lengths s)[slot := of_nat (length command)], hs_next_event := e\<rparr>"
  shows "slot_bytes t r = (if r = slot then command else slot_bytes s r)"
proof -
  have len: "length (hs_lengths s) = 1024" "length (hs_entries s) = 1024"
    using assms(1) by (simp_all add: history_ok_def)
  have "unat (of_nat (length command) :: 16 word) = length command"
    using assms(4) by (simp add: unat_of_nat)
  with len assms(2,3) show ?thesis
    by (auto simp: slot_bytes_def assms(5) copy_bytes_def nth_list_update)
qed

text \<open>A taken command: the list grows by it, and drops its oldest one when the ring is full.\<close>

lemma history_add_taken:
  assumes ok: "history_ok s" and c: "command \<noteq> []" "length command < 4096"
    and e: "hs_next_event s \<noteq> UINT64_MAX" and run: "gsh_history_add s command d = (Inr True, t)"
  shows "history_ok t \<and> history_list t = push_command (history_list s) command \<and>
    hs_next_event t = hs_next_event s + 1"
proof -
  let ?n = "hs_count s"
  let ?full = "1024 \<le> ?n"
  let ?slot = "if ?n < 1024 then physical_index s ?n else hs_start s"
  obtain n k where nk: "n = (if ?n < 1024 then ?n + 1 else ?n)"
    "k = (if ?n < 1024 then hs_start s else (hs_start s + 1) mod 1024)" by simp
  have inv: "hs_start s < 1024" "?n \<le> 1024" "length (hs_lengths s) = 1024"
    "length (hs_entries s) = 1024" "?n < unat (hs_next_event s)"
    "list_all (\<lambda>e. length e = 4096) (hs_entries s)"
    "list_all (\<lambda>c. c \<noteq> [] \<and> length c < 4096) (history_list s)"
    "list_all (\<lambda>n. unat n < 4096) (hs_lengths s)"
    using ok by (simp_all add: history_ok_def)
  have t: "t = s\<lparr>hs_count := n, hs_start := k,
      hs_entries := (hs_entries s)[?slot := copy_bytes (hs_entries s ! ?slot) 0 (command @ [NUL])],
      hs_lengths := (hs_lengths s)[?slot := of_nat (length command)],
      hs_next_event := hs_next_event s + 1\<rparr>"
    using run by (auto simp: gsh_history_add_def Let_def nk split: if_splits)
  have slot: "?slot < 1024" using inv(1) by simp
  note upd = slot_update[OF ok slot _ c(2) t]
  have phys: "physical_index t i = (if ?n < 1024 then physical_index s i else physical_index s (Suc i))"
    for i using inv(2) by (auto simp: physical_index_def t nk mod_add_left_eq)
  have list: "history_list t = push_command (history_list s) command"
  proof (rule nth_equalityI)
    show "length (history_list t) = length (push_command (history_list s) command)"
      using inv(2) by (simp add: push_command_def t nk)
    fix i assume "i < length (history_list t)"
    then have i: "i < n" by (simp add: t)
    then have get: "history_list t ! i = slot_bytes t (physical_index t i)"
      by (simp add: history_list_nth t)
    show "history_list t ! i = push_command (history_list s) command ! i"
    proof (cases "?n < 1024")
      case True
      have "physical_index s i = physical_index s ?n \<longleftrightarrow> i = ?n"
        using physical_index_inj[OF inv(1), of i ?n] True i nk by auto
      with True i nk show ?thesis
        unfolding get by (auto simp: phys upd push_command_def nth_append history_list_nth)
    next
      case False
      then have n: "?n = 1024" using inv(2) by simp
      have "physical_index s (Suc i) = hs_start s \<longleftrightarrow> i = 1023"
        using i nk n inv(1) by (auto simp: physical_index_if)
      with n i nk show ?thesis
        unfolding get by (auto simp: phys upd push_command_def nth_append history_list_nth nth_tl)
    qed
  qed
  have succ: "unat (hs_next_event t) = Suc (unat (hs_next_event s))"
  proof -
    have "unat (- 1 :: 64 word) = 2 ^ 64 - 1"
      by (simp add: unsigned_minus_1_eq_mask mask_eq_exp_minus_1)
    then have "unat (hs_next_event s) \<noteq> 2 ^ 64 - 1"
      using e by (metis word_unat_eq_iff)
    moreover have "unat (hs_next_event s) < 2 ^ 64" using unsigned_less[of "hs_next_event s"] by simp
    ultimately show ?thesis by (simp add: t unat_word_ariths)
  qed
  have "set (push_command (history_list s) command) \<subseteq> insert command (set (history_list s))"
    by (cases "history_list s") (auto simp: push_command_def)
  then have cmds: "list_all (\<lambda>c. c \<noteq> [] \<and> length c < 4096) (history_list t)"
    using inv(7) c unfolding list by (auto simp: list_all_iff)
  have lens: "list_all (\<lambda>n. unat n < 4096) (hs_lengths t)"
    using inv(8) c(2) set_update_subset_insert[of "hs_lengths s" ?slot "of_nat (length command)"]
    by (auto simp: t list_all_iff unat_of_nat)
  have "length (copy_bytes (hs_entries s ! ?slot) 0 (command @ [NUL])) = 4096"
    using inv(4,6) slot c(2) by (simp add: list_all_length)
  then have ents: "list_all (\<lambda>e. length e = 4096) (hs_entries t)"
    using inv(6) set_update_subset_insert[of "hs_entries s" ?slot
        "copy_bytes (hs_entries s ! ?slot) 0 (command @ [NUL])"]
    by (auto simp: t list_all_iff)
  have "history_ok t"
    using inv(1-5) succ cmds lens ents by (auto simp: history_ok_def t nk)
  with list show ?thesis by (simp add: t)
qed


lemma history_okD:
  assumes "history_ok s"
  shows "hs_start s < 1024" "hs_count s \<le> 1024" "hs_count s < unat (hs_next_event s)"
    "hs_next_event s \<noteq> 0"
  using assms by (auto simp: history_ok_def)

lemma history_slot_nonempty:
  assumes "history_ok s" "i < hs_count s"
  shows "length (slot_bytes s (physical_index s i)) = unat (hs_lengths s ! physical_index s i)"
  using assms by (auto simp: history_ok_def slot_bytes_def list_all_length less_imp_le)

lemma history_add_spec:
  assumes ok: "history_ok s"
  shows "gsh_history_add s command d =
    (if command = [] \<or> 4096 \<le> length command then (Inl EINVAL, s)
     else if d \<and> history_list s \<noteq> [] \<and> last (history_list s) = command then (Inr False, s)
     else if hs_next_event s = UINT64_MAX then (Inl EOVERFLOW, s)
     else (Inr True, snd (gsh_history_add s command d)))"
proof -
  note inv = history_okD[OF ok]
  have latest: "unat (hs_lengths s ! physical_index s (hs_count s - 1)) = length command \<and>
      take (length command) (hs_entries s ! physical_index s (hs_count s - 1)) = command \<longleftrightarrow>
      last (history_list s) = command" if "hs_count s \<noteq> 0"
  proof -
    have i: "hs_count s - 1 < hs_count s" using that by simp
    have "last (history_list s) = history_list s ! (hs_count s - 1)"
      using that by (simp add: last_conv_nth flip: length_0_conv)
    then have "last (history_list s) = slot_bytes s (physical_index s (hs_count s - 1))"
      using i by (simp add: history_list_nth)
    with history_slot_nonempty[OF ok i] show ?thesis
      by (auto simp: slot_bytes_def)
  qed
  have ne: "history_list s \<noteq> [] \<longleftrightarrow> hs_count s \<noteq> 0"
    by (metis length_0_conv length_history_list)
  show ?thesis
    using inv latest by (auto simp: gsh_history_add_def Let_def ne)
qed

lemma history_from_newest_spec:
  assumes "history_ok s"
  shows "gsh_history_from_newest s p =
    (if p < hs_count s then Some (rev (history_list s) ! p) else None)"
  using history_okD[OF assms]
  by (auto simp: gsh_history_from_newest_def rev_nth history_list_nth)

lemma history_oldest_spec:
  assumes "history_ok s"
  shows "gsh_history_oldest_event s = (if hs_count s = 0 then 0 else hs_next_event s - of_nat (hs_count s))"
    "hs_count s \<noteq> 0 \<Longrightarrow> unat (gsh_history_oldest_event s) = unat (hs_next_event s) - hs_count s"
    "hs_count s \<noteq> 0 \<Longrightarrow> gsh_history_oldest_event s \<noteq> 0"
proof -
  note inv = history_okD[OF assms]
  have n: "unat (of_nat (hs_count s) :: uint64) = hs_count s"
    using inv(2) by (simp add: unat_of_nat)
  show oldest: "gsh_history_oldest_event s = (if hs_count s = 0 then 0 else hs_next_event s - of_nat (hs_count s))"
    using inv(3) by (auto simp: gsh_history_oldest_event_def)
  show u: "unat (gsh_history_oldest_event s) = unat (hs_next_event s) - hs_count s" if "hs_count s \<noteq> 0"
    using that inv(3) n oldest by (simp add: unat_sub word_le_nat_alt)
  show "gsh_history_oldest_event s \<noteq> 0" if "hs_count s \<noteq> 0"
    using u[OF that] inv(3) by (metis diff_is_0_eq not_less unat_0)
qed

text \<open>The events that are still held, and the command of each.\<close>

lemma history_event_spec:
  assumes "history_ok s"
  shows "gsh_history_event s event =
    (if unat (hs_next_event s) - hs_count s \<le> unat event \<and> event < hs_next_event s
     then Some (history_list s ! (unat event - (unat (hs_next_event s) - hs_count s)))
     else None)"
proof (cases "hs_count s = 0")
  case True
  then show ?thesis
    by (auto simp: gsh_history_event_def history_oldest_spec(1)[OF assms] word_less_nat_alt)
next
  case False
  note inv = history_okD[OF assms] and old = history_oldest_spec(2,3)[OF assms False]
  show ?thesis
  proof (cases "unat (hs_next_event s) - hs_count s \<le> unat event \<and> event < hs_next_event s")
    case True
    then have le: "gsh_history_oldest_event s \<le> event" using old by (simp add: word_le_nat_alt)
    have "unat (event - gsh_history_oldest_event s) = unat event - (unat (hs_next_event s) - hs_count s)"
      using le old(1) by (simp add: unat_sub word_le_nat_alt)
    moreover have "unat event - (unat (hs_next_event s) - hs_count s) < hs_count s"
      using True inv(3) by (auto simp: word_less_nat_alt)
    ultimately show ?thesis
      using True le old(2) by (simp add: gsh_history_event_def Let_def history_list_nth not_le not_less)
  next
    case out: False
    then have "event < gsh_history_oldest_event s \<or> hs_next_event s \<le> event"
      using old(1) by (auto simp: word_less_nat_alt word_le_nat_alt)
    with out show ?thesis by (auto simp: gsh_history_event_def Let_def)
  qed
qed

section \<open>Searching\<close>

lemma contains_from_iff:
  "contains_from bytes query \<longleftrightarrow> (\<exists>pre post. bytes = pre @ query @ post)"
proof (induction bytes query rule: contains_from.induct)
  case (1 bytes query)
  show ?case
  proof (cases "length bytes < length query \<or> take (length query) bytes = query")
    case True
    have "bytes = [] @ query @ drop (length query) bytes" if "take (length query) bytes = query"
      using append_take_drop_id[of "length query" bytes] that by simp
    then have "take (length query) bytes = query \<Longrightarrow> \<exists>pre post. bytes = pre @ query @ post" by blast
    with True show ?thesis
      by (cases "length bytes < length query") (auto simp: contains_from.simps[of bytes])
  next
    case no: False
    show ?thesis
    proof (cases bytes)
      case Nil
      with no show ?thesis by (auto simp: contains_from.simps[of bytes])
    next
      case (Cons b rest)
      have "(\<exists>pre post. bytes = pre @ query @ post) \<longleftrightarrow> (\<exists>pre post. rest = pre @ query @ post)"
      proof
        assume "\<exists>pre post. bytes = pre @ query @ post"
        then obtain pre post where p: "bytes = pre @ query @ post" by blast
        with no have "pre \<noteq> []" by (cases pre) auto
        with p Cons show "\<exists>pre post. rest = pre @ query @ post" by (cases pre) auto
      next
        assume "\<exists>pre post. rest = pre @ query @ post"
        then obtain pre post where "bytes = (b # pre) @ query @ post" using Cons by auto
        then show "\<exists>pre post. bytes = pre @ query @ post" by blast
      qed
      moreover have "contains_from rest query \<longleftrightarrow> (\<exists>pre post. rest = pre @ query @ post)"
        using 1 no Cons by auto
      moreover have "contains_from bytes query = contains_from rest query"
        using no Cons by (subst contains_from.simps) simp
      ultimately show ?thesis by blast
    qed
  qed
qed

lemma contains_iff: "contains bytes query \<longleftrightarrow> (\<exists>pre post. bytes = pre @ query @ post)"
  using contains_from_iff[of bytes query] by (auto simp: contains_def)

lemma search_from_spec:
  "history_ok s \<Longrightarrow> search_from s query k = Some p \<longleftrightarrow>
    k \<le> p \<and> p < hs_count s \<and> contains (rev (history_list s) ! p) query \<and>
    (\<forall>r. k \<le> r \<and> r < p \<longrightarrow> \<not> contains (rev (history_list s) ! r) query)"
proof (induction s query k rule: search_from.induct)
  case (1 s query k)
  show ?case
  proof (cases "k < hs_count s")
    case False
    then show ?thesis by (auto simp: search_from.simps[of s query k])
  next
    case True
    let ?entry = "rev (history_list s) ! k"
    have get: "gsh_history_from_newest s k = Some ?entry"
      using history_from_newest_spec[OF 1(3)] True by simp
    show ?thesis
    proof (cases "contains ?entry query")
      case hit: True
      then have "search_from s query k = Some k"
        by (simp add: search_from.simps[of s query k] True get)
      with hit True show ?thesis by (auto simp: not_less)
    next
      case miss: False
      then have "search_from s query k = search_from s query (Suc k)"
        by (subst search_from.simps) (simp add: True get)
      moreover have "(k \<le> p \<and> p < hs_count s \<and> contains (rev (history_list s) ! p) query \<and>
          (\<forall>r. k \<le> r \<and> r < p \<longrightarrow> \<not> contains (rev (history_list s) ! r) query)) \<longleftrightarrow>
        (Suc k \<le> p \<and> p < hs_count s \<and> contains (rev (history_list s) ! p) query \<and>
          (\<forall>r. Suc k \<le> r \<and> r < p \<longrightarrow> \<not> contains (rev (history_list s) ! r) query))"
        using miss by (metis Suc_leD Suc_leI le_neq_implies_less)
      ultimately show ?thesis
        using 1(2)[OF True get miss 1(3)] by simp
    qed
  qed
qed

lemma search_from_None:
  "history_ok s \<Longrightarrow> search_from s query k = None \<longleftrightarrow>
    (\<forall>p. k \<le> p \<and> p < hs_count s \<longrightarrow> \<not> contains (rev (history_list s) ! p) query)"
proof (induction s query k rule: search_from.induct)
  case (1 s query k)
  show ?case
  proof (cases "k < hs_count s")
    case False
    then show ?thesis by (auto simp: search_from.simps[of s query k])
  next
    case True
    let ?entry = "rev (history_list s) ! k"
    have get: "gsh_history_from_newest s k = Some ?entry"
      using history_from_newest_spec[OF 1(3)] True by simp
    show ?thesis
    proof (cases "contains ?entry query")
      case hit: True
      with True show ?thesis by (auto simp: search_from.simps[of s query k] get)
    next
      case miss: False
      have "search_from s query k = search_from s query (Suc k)"
        by (subst search_from.simps) (simp add: True get miss)
      with 1(2)[OF True get miss 1(3)] miss show ?thesis
        by (metis Suc_leD Suc_leI le_neq_implies_less)
    qed
  qed
qed

lemma gsh_history_search_reverse_spec:
  assumes "history_ok s" "length query < 4096" "before \<le> hs_count s"
  shows "case gsh_history_search_reverse s query before of
      Inr p \<Rightarrow> before \<le> p \<and> p < hs_count s \<and> contains (rev (history_list s) ! p) query \<and>
        (\<forall>r. before \<le> r \<and> r < p \<longrightarrow> \<not> contains (rev (history_list s) ! r) query)
    | Inl e \<Rightarrow> e = ENOENT \<and>
        (\<forall>p. before \<le> p \<and> p < hs_count s \<longrightarrow> \<not> contains (rev (history_list s) ! p) query)"
proof (cases "search_from s query before")
  case None
  with search_from_None[OF assms(1), of query before] assms history_okD(2)[OF assms(1)] show ?thesis
    by (simp add: gsh_history_search_reverse_def)
next
  case (Some p)
  with search_from_spec[OF assms(1), of query before p] assms history_okD(2)[OF assms(1)] show ?thesis
    by (simp add: gsh_history_search_reverse_def)
qed


text \<open>Prefix search by event number: the newest event up to the given one.\<close>

definition event_has_prefix :: "gsh_history_store \<Rightarrow> byte list \<Rightarrow> uint64 \<Rightarrow> bool" where
  "event_has_prefix s prefix event =
    (case gsh_history_event s event of
       None \<Rightarrow> False
     | Some entry \<Rightarrow> length prefix \<le> length entry \<and> take (length prefix) entry = prefix)"

definition newest_prefix ::
  "gsh_history_store \<Rightarrow> byte list \<Rightarrow> uint64 \<Rightarrow> uint64 option \<Rightarrow> bool" where
  "newest_prefix s prefix bound found =
    (case found of
       Some e \<Rightarrow> e \<le> bound \<and> event_has_prefix s prefix e \<and>
         (\<forall>f. e < f \<and> f \<le> bound \<longrightarrow> \<not> event_has_prefix s prefix f)
     | None \<Rightarrow> \<forall>f. f \<le> bound \<longrightarrow> \<not> event_has_prefix s prefix f)"

lemma event_has_prefix_held:
  assumes "history_ok s" "event_has_prefix s prefix event" "hs_count s \<noteq> 0"
  shows "gsh_history_oldest_event s \<le> event \<and> event < hs_next_event s"
  using assms(2) history_oldest_spec(2)[OF assms(1,3)]
  by (auto simp: event_has_prefix_def history_event_spec[OF assms(1)] word_le_nat_alt split: if_splits)

lemma find_prefix_from_spec:
  assumes "history_ok s" "hs_count s \<noteq> 0"
  shows "unat candidate < turns + unat (gsh_history_oldest_event s) \<Longrightarrow>
    newest_prefix s prefix candidate (find_prefix_from s prefix turns candidate)"
proof (induction turns arbitrary: candidate)
  case 0
  then show ?case
    using event_has_prefix_held[OF assms(1) _ assms(2)]
    by (fastforce simp: newest_prefix_def word_le_nat_alt)
next
  case (Suc turns)
  let ?oldest = "gsh_history_oldest_event s"
  have pos: "0 < unat ?oldest" using history_oldest_spec(3)[OF assms] by (simp add: unat_gt_0)
  show ?case
  proof (cases "candidate < ?oldest")
    case True
    then show ?thesis
      using event_has_prefix_held[OF assms(1) _ assms(2)]
      by (fastforce simp: newest_prefix_def)
  next
    case held: False
    show ?thesis
    proof (cases "event_has_prefix s prefix candidate")
      case True
      then have "find_prefix_from s prefix (Suc turns) candidate = Some candidate"
        using held by (simp add: event_has_prefix_def split: option.splits)
      with True show ?thesis by (auto simp: newest_prefix_def simp del: find_prefix_from.simps dest: leD)
    next
      case False
      then have step: "find_prefix_from s prefix (Suc turns) candidate =
          find_prefix_from s prefix turns (candidate - 1)"
        using held by (auto simp: event_has_prefix_def split: option.splits)
      have "0 < unat candidate" using held pos by (simp add: word_less_nat_alt)
      then have pred: "unat (candidate - 1) = unat candidate - 1"
        by (metis unat_minus_one unat_0 less_numeral_extra(3))
      have "newest_prefix s prefix (candidate - 1) (find_prefix_from s prefix turns (candidate - 1))"
        using Suc.prems pred \<open>0 < unat candidate\<close> by (intro Suc.IH) simp
      moreover have "f \<le> candidate \<longleftrightarrow> f \<le> candidate - 1 \<or> f = candidate" for f
        using pred \<open>0 < unat candidate\<close> by (auto simp: word_le_nat_alt word_unat_eq_iff)
      ultimately show ?thesis
        using False unfolding step newest_prefix_def by (auto split: option.splits)
    qed
  qed
qed

lemma gsh_history_find_prefix_spec:
  assumes ok: "history_ok s" and count: "hs_count s \<noteq> 0" and len: "length prefix < 4096"
  shows "case gsh_history_find_prefix s prefix before of
      Inr e \<Rightarrow> newest_prefix s prefix before (Some e)
    | Inl err \<Rightarrow> err = ENOENT \<and> newest_prefix s prefix before None"
proof -
  note inv = history_okD[OF ok] and old = history_oldest_spec(2,3)[OF ok count]
  let ?c = "if hs_next_event s \<le> before then hs_next_event s - 1 else before"
  have pred: "unat (hs_next_event s - 1) = unat (hs_next_event s) - 1"
    using inv(4) by (simp add: unat_minus_one)
  have c: "unat ?c < unat (hs_next_event s)"
    using inv(3) pred by (auto simp: word_le_nat_alt)
  then have spec: "newest_prefix s prefix ?c (find_prefix_from s prefix (hs_count s) ?c)"
    using old(1) inv(3) by (intro find_prefix_from_spec[OF ok count]) simp
  have range: "event_has_prefix s prefix f \<Longrightarrow> f \<le> before \<longleftrightarrow> f \<le> ?c" for f
    using event_has_prefix_held[OF ok _ count, of prefix f] pred
    by (auto simp: word_le_nat_alt word_less_nat_alt)
  obtain c found where cf: "?c = c" "find_prefix_from s prefix (hs_count s) c = found" by simp
  have found: "newest_prefix s prefix before found"
  proof (cases found)
    case None
    with spec range show ?thesis unfolding cf newest_prefix_def by (simp only: option.case) blast
  next
    case (Some e)
    with spec range show ?thesis unfolding cf newest_prefix_def by (simp only: option.case) blast
  qed
  have "gsh_history_find_prefix s prefix before =
      (case found of Some event \<Rightarrow> Inr event | None \<Rightarrow> Inl ENOENT)"
    using len old(2) unfolding gsh_history_find_prefix_def Let_def cf by simp
  with found show ?thesis by (cases found) simp_all
qed

section \<open>Properties\<close>

text \<open>C32. \<open>gsh_history_add\<close> refines the bounded list of commands: it is refused with \<open>EINVAL\<close> for an
  empty or over-long command, skipped for a repeated one when deduplicating, refused with
  \<open>EOVERFLOW\<close> when the event numbers are used up, and otherwise appends the command, dropping
  the oldest of 1024, and keeps the ring well formed.\<close>

theorem history_add_refines:
  assumes "history_ok s"
  shows "case gsh_history_add s command d of
      (Inr True, t) \<Rightarrow> history_ok t \<and> history_list t = push_command (history_list s) command \<and>
        hs_next_event t = hs_next_event s + 1 \<and>
        \<not> (d \<and> history_list s \<noteq> [] \<and> last (history_list s) = command)
    | (Inr False, t) \<Rightarrow> t = s \<and> d \<and> history_list s \<noteq> [] \<and> last (history_list s) = command
    | (Inl e, t) \<Rightarrow> t = s \<and>
        (if command = [] \<or> 4096 \<le> length command then e = EINVAL
         else e = EOVERFLOW \<and> hs_next_event s = UINT64_MAX)"
proof -
  obtain r t where run: "gsh_history_add s command d = (r, t)" by fastforce
  note spec = history_add_spec[OF assms, of command d, unfolded run]
  show ?thesis
  proof (cases "r = Inr True")
    case True
    with spec have "command \<noteq> []" "length command < 4096" "hs_next_event s \<noteq> UINT64_MAX"
      "\<not> (d \<and> history_list s \<noteq> [] \<and> last (history_list s) = command)"
      by (auto split: if_splits)
    with history_add_taken[OF assms _ _ _ run[unfolded True]] True run show ?thesis by simp
  next
    case False
    with spec run show ?thesis by (auto split: if_splits)
  qed
qed

definition blank_history :: gsh_history_store where
  "blank_history = gsh_history_clear
    \<lparr>hs_lengths = [], hs_start = 0, hs_count = 0, hs_next_event = 0, hs_entries = []\<rparr>"

lemma blank_history_ok: "history_ok blank_history" "history_list blank_history = []"
  "hs_next_event blank_history = 1" "hs_count blank_history = 0"
  by (simp_all add: blank_history_def gsh_history_clear_def history_ok_def history_list_def
      list_all_iff)

lemma history_add_refines_witness:
  "history_list (snd (gsh_history_add blank_history ''ls'' True)) = [''ls'']"
  using history_add_refines[OF blank_history_ok(1), of "''ls''" True]
  by (auto simp: blank_history_ok push_command_def split: prod.splits sum.splits bool.splits)

lemma history_add_some:
  "gsh_history_add blank_history ''ls'' True = (Inr True, snd (gsh_history_add blank_history ''ls'' True))"
  using history_add_spec[OF blank_history_ok(1), of "''ls''" True] by (simp add: blank_history_ok)

text \<open>Event numbers are stable: a command keeps the number it was given when it was added, as
  long as the ring still holds it, and the command just added is found under the number that
  was next.\<close>

theorem history_events_stable:
  assumes "history_ok s" "gsh_history_add s command d = (Inr True, t)"
  shows "gsh_history_event t (hs_next_event s) = Some command \<and>
    (\<forall>event. gsh_history_oldest_event t \<le> event \<and> event < hs_next_event s \<longrightarrow>
      gsh_history_event t event = gsh_history_event s event)"
proof -
  have c: "command \<noteq> []" "length command < 4096" "hs_next_event s \<noteq> UINT64_MAX"
    using history_add_spec[OF assms(1), of command d] assms(2) by (auto split: if_splits)
  note t = history_add_taken[OF assms(1) c assms(2)]
  note ok = assms(1) conjunct1[OF t]
  note inv = history_okD[OF ok(1)]
  let ?n = "unat (hs_next_event s)"
  have next_t: "unat (hs_next_event t) = ?n + 1"
  proof -
    have "1 + hs_next_event s \<noteq> 0"
      using c(3) by (metis add.commute eq_neg_iff_add_eq_0)
    from unatSuc[OF this] t show ?thesis by (simp only: add.commute Suc_eq_plus1)
  qed
  have list: "history_list t = push_command (history_list s) command" using t by simp
  have count: "hs_count t = (if hs_count s < 1024 then hs_count s + 1 else hs_count s)"
    using arg_cong[OF list, of length] inv(2) by (auto simp: push_command_def)
  have newest: "history_list t ! (hs_count t - 1) = command"
    using inv(2) by (simp add: list count push_command_def nth_append)
  have older: "history_list t ! k = history_list s ! (if hs_count s < 1024 then k else Suc k)"
    if "k + 1 < hs_count t" for k
    using that inv(2) by (simp add: list count push_command_def nth_append nth_tl split: if_splits)
  have le: "hs_count t \<le> ?n + 1" "0 < hs_count t" "hs_count s \<le> ?n" using inv(3) count by simp_all
  have "?n - (?n + 1 - hs_count t) = hs_count t - 1" using le by linarith
  then have new: "gsh_history_event t (hs_next_event s) = Some command"
    using newest next_t le by (simp add: history_event_spec[OF ok(2)] word_less_nat_alt)
  have old: "gsh_history_event t event = gsh_history_event s event"
    if e: "gsh_history_oldest_event t \<le> event" "event < hs_next_event s" for event
  proof -
    have range: "?n + 1 - hs_count t \<le> unat event" "unat event < ?n"
      using e history_oldest_spec(2)[OF ok(2)] next_t le(2)
      by (simp_all add: word_le_nat_alt word_less_nat_alt)
    obtain k where k: "k = unat event - (?n + 1 - hs_count t)" by simp
    then have "k + 1 < hs_count t" using range le by linarith
    note read = older[OF this]
    have shift: "(if hs_count s < 1024 then k else Suc k) = unat event - (?n - hs_count s)"
      using range le inv(2) count by (simp add: k split: if_splits)
    have s_range: "?n - hs_count s \<le> unat event" using range count by (simp split: if_splits)
    have "gsh_history_event t event = Some (history_list t ! k)"
      using range next_t by (simp add: history_event_spec[OF ok(2)] word_less_nat_alt k)
    also have "\<dots> = gsh_history_event s event"
      unfolding read shift using s_range e(2) by (simp add: history_event_spec[OF ok(1)])
    finally show ?thesis .
  qed
  from new old show ?thesis by blast
qed

lemma history_events_stable_witness:
  "gsh_history_event (snd (gsh_history_add blank_history ''ls'' True)) 1 = Some ''ls''"
  using history_events_stable[OF blank_history_ok(1) history_add_some] by (simp add: blank_history_ok)

text \<open>Reverse search returns the most recent matching command: the position counted from the
  newest, at or beyond the one asked for, whose command contains the query, with no match at
  any position between; \<open>ENOENT\<close> means there is none.\<close>

theorem history_search_newest:
  assumes "history_ok s" "length query < 4096" "before \<le> hs_count s"
  shows "case gsh_history_search_reverse s query before of
      Inr p \<Rightarrow> before \<le> p \<and> (\<exists>pre post. gsh_history_from_newest s p = Some (pre @ query @ post)) \<and>
        (\<forall>r. before \<le> r \<and> r < p \<longrightarrow> \<not> (\<exists>pre post. rev (history_list s) ! r = pre @ query @ post))
    | Inl e \<Rightarrow> e = ENOENT \<and>
        (\<forall>r. before \<le> r \<and> r < hs_count s \<longrightarrow> \<not> (\<exists>pre post. rev (history_list s) ! r = pre @ query @ post))"
  using gsh_history_search_reverse_spec[OF assms]
  by (auto simp: contains_iff history_from_newest_spec[OF assms(1)] split: sum.splits)

lemma history_search_newest_witness:
  "gsh_history_search_reverse blank_history ''ls'' 0 = Inl ENOENT"
  using history_search_newest[OF blank_history_ok(1), of "''ls''" 0]
  by (auto simp: blank_history_ok history_from_newest_spec split: sum.splits)

text \<open>Prefix search by event number returns the newest event at or before the bound whose
  command starts with the prefix, and \<open>ENOENT\<close> only when no held event does.\<close>

theorem history_prefix_newest:
  assumes "history_ok s" "hs_count s \<noteq> 0" "length prefix < 4096"
  shows "case gsh_history_find_prefix s prefix before of
      Inr e \<Rightarrow> newest_prefix s prefix before (Some e)
    | Inl err \<Rightarrow> err = ENOENT \<and> newest_prefix s prefix before None"
  by (rule gsh_history_find_prefix_spec[OF assms])

lemma history_prefix_newest_witness:
  "let s = snd (gsh_history_add blank_history ''ls'' True)
   in case gsh_history_find_prefix s ''l'' 9 of
      Inr e \<Rightarrow> newest_prefix s ''l'' 9 (Some e) | Inl err \<Rightarrow> newest_prefix s ''l'' 9 None"
proof -
  let ?s = "snd (gsh_history_add blank_history ''ls'' True)"
  have "history_ok ?s \<and> history_list ?s = push_command (history_list blank_history) ''ls''"
    using history_add_taken[OF blank_history_ok(1) _ _ _ history_add_some] by (simp add: blank_history_ok)
  then have "history_ok ?s" "length (history_list ?s) = 1"
    by (simp_all add: blank_history_ok push_command_def)
  then show ?thesis using history_prefix_newest[of ?s "''l''" 9] by (simp split: sum.splits)
qed

end
