(* ===== verification/CommandCache.thy ===== *)
theory CommandCache
  imports HashIndex
begin

text \<open>
  The command path cache of \<open>src/command_cache.c\<close>: the PATH search, and a store from command
  names to the paths found for them, dropped whenever the generation of PATH changes. What the
  file system answers (\<open>access\<close> and \<open>stat\<close> in \<open>executable_candidate\<close>) is the parameter
  \<open>exec\<close>. Entries and text are the used parts of their C arrays, as in the alias store.
\<close>

section \<open>Searching PATH\<close>

abbreviation (input) GSH_COMMAND_CACHE_CAP :: nat where "GSH_COMMAND_CACHE_CAP \<equiv> 128"
abbreviation (input) GSH_COMMAND_CACHE_TEXT_CAP :: nat where "GSH_COMMAND_CACHE_TEXT_CAP \<equiv> 65536"
abbreviation (input) GSH_COMMAND_PATH_CAP :: nat where "GSH_COMMAND_PATH_CAP \<equiv> 4096"
abbreviation (input) GSH_COMMAND_PATH_SCAN_CAP :: nat where "GSH_COMMAND_PATH_SCAN_CAP \<equiv> 32768"
abbreviation (input) GSH_COMMAND_CACHE_VERSION :: nat where "GSH_COMMAND_CACHE_VERSION \<equiv> 1"
abbreviation (input) SLASH :: byte where "SLASH \<equiv> CHR ''/''"
abbreviation (input) COLON :: byte where "COLON \<equiv> CHR '':''"

definition copy_candidate :: "byte list \<Rightarrow> byte list \<Rightarrow> byte list option" where
  "copy_candidate directory name =
    (let used = (if directory = [] then 1 else length directory)
     in if GSH_COMMAND_PATH_CAP < used + 1 + length name + 1 then None
        else Some ((if directory = [] then ''.'' else directory) @ SLASH # name))"

text \<open>
  The component loop, on what is left of the path. A result is \<open>Inr (Some output)\<close> for the C
  result 1 with its output, \<open>Inr None\<close> for 0 and \<open>Inl errno\<close> for -1.
\<close>

function search_components ::
  "(byte list \<Rightarrow> bool) \<Rightarrow> byte list \<Rightarrow> byte list \<Rightarrow> nat \<Rightarrow> errno + byte list option" where
  "search_components exec name rest components =
    (if components \<le> GSH_COMMAND_PATH_SCAN_CAP then
       (let directory = takeWhile (\<lambda>b. b \<noteq> COLON) rest;
            behind = dropWhile (\<lambda>b. b \<noteq> COLON) rest;
            candidate = (if length directory < GSH_COMMAND_PATH_CAP
                         then copy_candidate directory name else None)
        in case (case candidate of None \<Rightarrow> None
                 | Some path \<Rightarrow> if exec path then Some path else None) of
             Some path \<Rightarrow> Inr (Some path)
           | None \<Rightarrow> if behind = [] then Inr None
                     else search_components exec name (tl behind) (components + 1))
     else Inl E2BIG)"
  by pat_completeness auto
termination
  by (relation "measure (\<lambda>(exec, name, rest, components). Suc GSH_COMMAND_PATH_SCAN_CAP - components)")
    auto

declare search_components.simps [simp del]

definition gsh_command_search_external ::
  "(byte list \<Rightarrow> bool) \<Rightarrow> byte list \<Rightarrow> byte list \<Rightarrow> errno + byte list option" where
  "gsh_command_search_external exec name path =
    (if name = [] then Inl EINVAL
     else if GSH_COMMAND_PATH_CAP \<le> length name then Inl ENAMETOOLONG
     else if SLASH \<in> set name then (if exec name then Inr (Some name) else Inr None)
     else if GSH_COMMAND_PATH_SCAN_CAP < length path then Inl E2BIG
     else search_components exec name path 0)"

section \<open>The cache\<close>

record gsh_command_cache_entry =
  ce_name_offset :: nat
  ce_path_offset :: nat
  ce_hash :: uint32
  ce_name_length :: nat
  ce_path_length :: nat

record gsh_command_cache =
  cc_version :: nat
  cc_reserved :: nat
  cc_generation :: uint64
  cc_entries :: "gsh_command_cache_entry list"
  cc_slots :: "16 word list"
  cc_text :: "byte list"

definition gsh_command_cache_initialize :: "uint64 \<Rightarrow> gsh_command_cache" where
  "gsh_command_cache_initialize path_generation =
    \<lparr>cc_version = GSH_COMMAND_CACHE_VERSION, cc_reserved = 0, cc_generation = path_generation,
     cc_entries = [], cc_slots = empty_index 256, cc_text = []\<rparr>"

definition gsh_command_cache_clear :: "gsh_command_cache \<Rightarrow> uint64 \<Rightarrow> gsh_command_cache" where
  "gsh_command_cache_clear c path_generation = gsh_command_cache_initialize path_generation"

definition gsh_command_cache_sync ::
  "gsh_command_cache \<Rightarrow> uint64 \<Rightarrow> bool \<times> gsh_command_cache" where
  "gsh_command_cache_sync c path_generation =
    (if cc_generation c = path_generation then (False, c)
     else (True, gsh_command_cache_clear c path_generation))"

definition cache_entry_matches ::
  "gsh_command_cache \<Rightarrow> gsh_command_cache_entry \<Rightarrow> byte list \<Rightarrow> uint32 \<Rightarrow> bool" where
  "cache_entry_matches c e name hash \<longleftrightarrow>
    ce_hash e = hash \<and> ce_name_length e = length name \<and> ce_name_offset e < length (cc_text c) \<and>
    take (length name) (drop (ce_name_offset e) (cc_text c)) = name"

definition cache_index :: "gsh_command_cache \<Rightarrow> byte list \<Rightarrow> uint32 \<Rightarrow> nat option" where
  "cache_index c name hash =
    index_find (cc_slots c)
      (\<lambda>i. i < length (cc_entries c) \<and> cache_entry_matches c (cc_entries c ! i) name hash) hash"

definition insert_hash_slot :: "gsh_command_cache \<Rightarrow> nat \<Rightarrow> errno option \<times> gsh_command_cache" where
  "insert_hash_slot c index =
    (case index_insert (cc_slots c) (ce_hash (cc_entries c ! index)) index of
       Some slots \<Rightarrow> (None, c\<lparr>cc_slots := slots\<rparr>)
     | None \<Rightarrow> (Some ENOSPC, c))"

text \<open>The C goes on past a failing insertion here; the index always has room (below).\<close>

fun rebuild_slots :: "gsh_command_cache \<Rightarrow> nat list \<Rightarrow> gsh_command_cache" where
  "rebuild_slots c [] = c"
| "rebuild_slots c (index # rest) = rebuild_slots (snd (insert_hash_slot c index)) rest"

definition cache_rebuild_hash :: "gsh_command_cache \<Rightarrow> gsh_command_cache" where
  "cache_rebuild_hash c = rebuild_slots (c\<lparr>cc_slots := empty_index 256\<rparr>) [0..<length (cc_entries c)]"

definition remove_entry :: "gsh_command_cache \<Rightarrow> nat \<Rightarrow> gsh_command_cache" where
  "remove_entry c index =
    (let e = cc_entries c ! index;
         begin = ce_name_offset e;
         end_offset = ce_path_offset e + ce_path_length e + 1;
         removed = end_offset - begin;
         entries = take index (cc_entries c) @ drop (Suc index) (cc_entries c)
     in cache_rebuild_hash (c\<lparr>
          cc_text := take begin (cc_text c) @ drop end_offset (cc_text c),
          cc_entries := map (\<lambda>other. if begin < ce_name_offset other
              then other\<lparr>ce_name_offset := ce_name_offset other - removed,
                         ce_path_offset := ce_path_offset other - removed\<rparr>
              else other) entries\<rparr>))"

definition remember_path ::
  "gsh_command_cache \<Rightarrow> byte list \<Rightarrow> byte list \<Rightarrow> errno option \<times> gsh_command_cache" where
  "remember_path c name path =
    (let required = length name + length path + 2
     in if name = [] \<or> UINT16_MAX < length name \<or> path = [] \<or> UINT16_MAX < length path \<or>
           SLASH \<in> set name \<or> NL \<in> set name \<or> NL \<in> set path \<or>
           GSH_COMMAND_CACHE_TEXT_CAP < required
        then (Some EINVAL, c)
        else case cache_index c name (name_hash name) of
          Some _ \<Rightarrow> (None, c)
        | None \<Rightarrow>
            if length (cc_entries c) = GSH_COMMAND_CACHE_CAP \<or>
               GSH_COMMAND_CACHE_TEXT_CAP - length (cc_text c) < required
            then (Some ENOSPC, c)
            else
              (let used = length (cc_text c)
               in case insert_hash_slot
                    (c\<lparr>cc_entries := cc_entries c @
                         [\<lparr>ce_name_offset = used, ce_path_offset = used + length name + 1,
                           ce_hash = name_hash name, ce_name_length = length name,
                           ce_path_length = length path\<rparr>],
                       cc_text := cc_text c @ name @ [NUL] @ path @ [NUL]\<rparr>)
                    (length (cc_entries c)) of
                    (None, c) \<Rightarrow> (None, c)
                  | (Some err, _) \<Rightarrow> (Some err, c)))"

definition cached_path :: "gsh_command_cache \<Rightarrow> nat \<Rightarrow> byte list" where
  "cached_path c index =
    takeWhile (\<lambda>b. b \<noteq> NUL) (drop (ce_path_offset (cc_entries c ! index)) (cc_text c))"

definition plain_command_name :: "byte list \<Rightarrow> bool" where
  "plain_command_name name \<longleftrightarrow>
    name \<noteq> [] \<and> length name < GSH_COMMAND_PATH_CAP \<and> SLASH \<notin> set name"

definition gsh_command_cache_lookup ::
  "gsh_command_cache \<Rightarrow> uint64 \<Rightarrow> byte list \<Rightarrow> byte list option" where
  "gsh_command_cache_lookup c path_generation name =
    (if cc_version c \<noteq> GSH_COMMAND_CACHE_VERSION \<or> cc_generation c \<noteq> path_generation \<or>
        \<not> plain_command_name name
     then None
     else map_option (cached_path c) (cache_index c name (name_hash name)))"

text \<open>The result with its output, the cache and the \<open>changed\<close> flag; the cache is not null.\<close>

definition gsh_command_cache_resolve ::
  "(byte list \<Rightarrow> bool) \<Rightarrow> gsh_command_cache \<Rightarrow> uint64 \<Rightarrow> byte list \<Rightarrow> byte list \<Rightarrow> bool \<Rightarrow>
    (errno + byte list option) \<times> gsh_command_cache \<times> bool" where
  "gsh_command_cache_resolve exec c path_generation name path require_remember =
    (if cc_version c \<noteq> GSH_COMMAND_CACHE_VERSION \<or> cc_reserved c \<noteq> 0 \<or>
        GSH_COMMAND_CACHE_CAP < length (cc_entries c) \<or>
        GSH_COMMAND_CACHE_TEXT_CAP < length (cc_text c)
     then (Inl EPROTO, c, False)
     else case gsh_command_cache_sync c path_generation of (changed, c) \<Rightarrow>
       if \<not> plain_command_name name then (gsh_command_search_external exec name path, c, changed)
       else
         (let index = cache_index c name (name_hash name);
              hit = (case index of None \<Rightarrow> None
                     | Some i \<Rightarrow> if exec (cached_path c i) then Some (cached_path c i) else None)
          in case hit of
               Some cached \<Rightarrow> (Inr (Some cached), c, changed)
             | None \<Rightarrow>
                 (let c = (case index of None \<Rightarrow> c | Some i \<Rightarrow> remove_entry c i);
                      changed = (changed \<or> index \<noteq> None);
                      found = gsh_command_search_external exec name path
                  in case found of
                       Inr (Some output) \<Rightarrow>
                         (case remember_path c name output of
                            (Some err, c) \<Rightarrow>
                              (if require_remember then Inl err else found, c, changed)
                          | (None, c) \<Rightarrow> (found, c, True))
                     | _ \<Rightarrow> (found, c, changed))))"

definition gsh_command_cache_count :: "gsh_command_cache \<Rightarrow> nat" where
  "gsh_command_cache_count c = length (cc_entries c)"

definition gsh_command_cache_name :: "gsh_command_cache \<Rightarrow> nat \<Rightarrow> byte list option" where
  "gsh_command_cache_name c index =
    (if length (cc_entries c) \<le> index then None
     else Some (takeWhile (\<lambda>b. b \<noteq> NUL)
       (drop (ce_name_offset (cc_entries c ! index)) (cc_text c))))"

definition gsh_command_cache_path :: "gsh_command_cache \<Rightarrow> nat \<Rightarrow> byte list option" where
  "gsh_command_cache_path c index =
    (if length (cc_entries c) \<le> index then None else Some (cached_path c index))"

definition gsh_command_cache_rebind ::
  "gsh_command_cache \<Rightarrow> uint64 \<Rightarrow> uint64 \<Rightarrow> gsh_command_cache" where
  "gsh_command_cache_rebind c final_path_generation parent_path_generation =
    (if cc_generation c \<noteq> final_path_generation
     then gsh_command_cache_clear c parent_path_generation
     else c\<lparr>cc_generation := parent_path_generation\<rparr>)"

section \<open>Validation\<close>

text \<open>One turn of the entry loop: the expected offset after the entry, or \<open>None\<close>.\<close>

definition cache_validate_entry ::
  "gsh_command_cache \<Rightarrow> nat \<Rightarrow> nat \<Rightarrow> gsh_command_cache_entry \<Rightarrow> nat option" where
  "cache_validate_entry c expected index e =
    (let name = take (ce_name_length e) (drop (ce_name_offset e) (cc_text c));
         path = take (ce_path_length e) (drop (ce_path_offset e) (cc_text c))
     in if ce_name_offset e \<noteq> expected \<or> ce_name_length e = 0 \<or>
           ce_path_offset e \<noteq> expected + ce_name_length e + 1 \<or> ce_path_length e = 0 \<or>
           length (cc_text c) < ce_path_offset e \<or>
           length (cc_text c) - ce_path_offset e < ce_path_length e + 1
        then None
        else if cc_text c ! (ce_name_offset e + ce_name_length e) \<noteq> NUL \<or>
           cc_text c ! (ce_path_offset e + ce_path_length e) \<noteq> NUL \<or>
           NUL \<in> set name \<or> NUL \<in> set path \<or> NL \<in> set name \<or> NL \<in> set path \<or>
           SLASH \<in> set name \<or> ce_hash e \<noteq> name_hash name \<or>
           cache_index c name (ce_hash e) \<noteq> Some index
        then None
        else Some (ce_path_offset e + ce_path_length e + 1))"

fun cache_validate_entries ::
  "gsh_command_cache \<Rightarrow> nat \<Rightarrow> nat \<Rightarrow> gsh_command_cache_entry list \<Rightarrow> nat option" where
  "cache_validate_entries c expected index [] = Some expected"
| "cache_validate_entries c expected index (e # es) =
    (case cache_validate_entry c expected index e of
       None \<Rightarrow> None
     | Some expected \<Rightarrow> cache_validate_entries c expected (Suc index) es)"

definition gsh_command_cache_validate :: "gsh_command_cache \<Rightarrow> bool" where
  "gsh_command_cache_validate c \<longleftrightarrow>
    cc_version c = GSH_COMMAND_CACHE_VERSION \<and> cc_reserved c = 0 \<and>
    length (cc_entries c) \<le> GSH_COMMAND_CACHE_CAP \<and>
    length (cc_text c) \<le> GSH_COMMAND_CACHE_TEXT_CAP \<and>
    list_all (\<lambda>slot. slot \<noteq> 0 \<longrightarrow> unat slot - 1 < length (cc_entries c)) (cc_slots c) \<and>
    length (filter (\<lambda>slot. slot \<noteq> 0) (cc_slots c)) = length (cc_entries c) \<and>
    cache_validate_entries c 0 0 (cc_entries c) = Some (length (cc_text c))"

section \<open>The search, component by component\<close>

fun path_components :: "byte list \<Rightarrow> byte list \<Rightarrow> byte list list" where
  "path_components acc [] = [acc]"
| "path_components acc (b # rest) =
    (if b = COLON then acc # path_components [] rest else path_components (acc @ [b]) rest)"

definition component_candidate :: "byte list \<Rightarrow> byte list \<Rightarrow> byte list option" where
  "component_candidate name directory =
    (if length directory < GSH_COMMAND_PATH_CAP then copy_candidate directory name else None)"

definition first_executable ::
  "(byte list \<Rightarrow> bool) \<Rightarrow> byte list \<Rightarrow> byte list list \<Rightarrow> byte list option" where
  "first_executable exec name directories =
    find exec (List.map_filter (component_candidate name) directories)"

lemma path_components_split:
  "path_components acc rest =
    (let directory = takeWhile (\<lambda>b. b \<noteq> COLON) rest; behind = dropWhile (\<lambda>b. b \<noteq> COLON) rest
     in (acc @ directory) # (if behind = [] then [] else path_components [] (tl behind)))"
  by (induction acc rest rule: path_components.induct)
    (simp_all add: Let_def del: dropWhile_eq_Nil_conv)

lemma first_executable_simps:
  "first_executable exec name [] = None"
  "first_executable exec name (d # ds) =
    (case component_candidate name d of
       Some path \<Rightarrow> if exec path then Some path else first_executable exec name ds
     | None \<Rightarrow> first_executable exec name ds)"
  by (auto simp: first_executable_def map_filter_simps split: option.split)

lemma search_components_first:
  "length rest + components \<le> GSH_COMMAND_PATH_SCAN_CAP \<Longrightarrow>
    search_components exec name rest components =
    Inr (first_executable exec name (path_components [] rest))"
proof (induction exec name rest components rule: search_components.induct)
  case (1 exec name rest components)
  let ?d = "takeWhile (\<lambda>b. b \<noteq> COLON) rest" and ?b = "dropWhile (\<lambda>b. b \<noteq> COLON) rest"
  have comp: "path_components [] rest = ?d # (if ?b = [] then [] else path_components [] (tl ?b))"
    by (subst path_components_split) (simp add: Let_def)
  have len: "?b \<noteq> [] \<Longrightarrow> length (tl ?b) + (components + 1) \<le> 32768"
    using "1.prems" length_dropWhile_le[of "\<lambda>b. b \<noteq> COLON" rest] by (cases ?b) auto
  show ?case
  proof (cases "case component_candidate name ?d of None \<Rightarrow> False | Some path \<Rightarrow> exec path")
    case True
    with "1.prems" show ?thesis
      by (subst search_components.simps)
        (auto simp: comp first_executable_simps component_candidate_def Let_def split: option.splits if_splits)
  next
    case False
    show ?thesis
    proof (cases "?b = []")
      case True
      with False "1.prems" show ?thesis
        by (subst search_components.simps)
          (auto simp: comp first_executable_simps component_candidate_def Let_def
            split: option.splits if_splits)
    next
      case more: False
      have step: "search_components exec name rest components =
          search_components exec name (tl ?b) (components + 1)"
        using False more "1.prems"
        by (subst search_components.simps)
          (auto simp: component_candidate_def Let_def split: option.splits if_splits)
      have "search_components exec name (tl ?b) (components + 1) =
          Inr (first_executable exec name (path_components [] (tl ?b)))"
        using "1.IH"[OF _ refl refl refl] False more len "1.prems"
        by (auto simp: component_candidate_def split: option.splits if_splits)
      with step more False show ?thesis
        by (auto simp: comp first_executable_simps split: option.splits)
    qed
  qed
qed


section \<open>The representation\<close>

fun cache_bytes :: "(byte list \<times> byte list) list \<Rightarrow> byte list" where
  "cache_bytes [] = []"
| "cache_bytes ((name, path) # ps) = name @ NUL # path @ NUL # cache_bytes ps"

fun cache_entries_of :: "nat \<Rightarrow> (byte list \<times> byte list) list \<Rightarrow> gsh_command_cache_entry list" where
  "cache_entries_of k [] = []"
| "cache_entries_of k ((name, path) # ps) =
    \<lparr>ce_name_offset = k, ce_path_offset = k + length name + 1, ce_hash = name_hash name,
     ce_name_length = length name, ce_path_length = length path\<rparr> #
    cache_entries_of (k + (length name + length path + 2)) ps"

definition cache_ok_pair :: "byte list \<times> byte list \<Rightarrow> bool" where
  "cache_ok_pair p \<longleftrightarrow>
    fst p \<noteq> [] \<and> length (fst p) \<le> UINT16_MAX \<and> snd p \<noteq> [] \<and> length (snd p) \<le> UINT16_MAX \<and>
    SLASH \<notin> set (fst p) \<and> NL \<notin> set (fst p) \<and> NL \<notin> set (snd p) \<and>
    NUL \<notin> set (fst p) \<and> NUL \<notin> set (snd p)"

definition cache_rep :: "gsh_command_cache \<Rightarrow> (byte list \<times> byte list) list \<Rightarrow> bool" where
  "cache_rep c ps \<longleftrightarrow> cc_version c = GSH_COMMAND_CACHE_VERSION \<and> cc_reserved c = 0 \<and>
    cc_text c = cache_bytes ps \<and> cc_entries c = cache_entries_of 0 ps \<and>
    index_rep 256 (cc_slots c) (map name_hash (map fst ps)) \<and> distinct (map fst ps) \<and>
    length ps \<le> GSH_COMMAND_CACHE_CAP \<and> length (cache_bytes ps) \<le> GSH_COMMAND_CACHE_TEXT_CAP \<and>
    list_all cache_ok_pair ps"

lemma cache_bytes_append [simp]: "cache_bytes (ps @ qs) = cache_bytes ps @ cache_bytes qs"
  by (induction ps rule: cache_bytes.induct) simp_all

lemma cache_entries_of_append:
  "cache_entries_of k (ps @ qs) =
    cache_entries_of k ps @ cache_entries_of (k + length (cache_bytes ps)) qs"
  by (induction ps arbitrary: k rule: cache_bytes.induct) (simp_all add: add.assoc)

lemma length_cache_entries_of [simp]: "length (cache_entries_of k ps) = length ps"
  by (induction k ps rule: cache_entries_of.induct) simp_all

lemma hash_cache_entries_of [simp]:
  "map ce_hash (cache_entries_of k ps) = map name_hash (map fst ps)"
  by (induction k ps rule: cache_entries_of.induct) simp_all

lemma cache_entries_of_offsets:
  "e \<in> set (cache_entries_of k ps) \<Longrightarrow>
    k \<le> ce_name_offset e \<and> ce_name_offset e < k + length (cache_bytes ps) \<and>
    ce_name_offset e < ce_path_offset e"
  by (induction k ps rule: cache_entries_of.induct) force+

lemma cache_entries_of_before:
  assumes "\<And>e. ce_name_offset e < k + length (cache_bytes ps) \<Longrightarrow> f e = e"
  shows "map f (cache_entries_of k ps) = cache_entries_of k ps"
  using assms by (intro map_idI) (auto dest: cache_entries_of_offsets)

lemma cache_entries_of_shift:
  "(\<And>e. k \<le> ce_name_offset e \<Longrightarrow> f e = e\<lparr>ce_name_offset := ce_name_offset e - b,
      ce_path_offset := ce_path_offset e - b\<rparr>) \<Longrightarrow> b \<le> k \<Longrightarrow>
    map f (cache_entries_of k ps) = cache_entries_of (k - b) ps"
proof (induction k ps rule: cache_entries_of.induct)
  case (2 k name path ps)
  have "map f (cache_entries_of (k + (length name + length path + 2)) ps) =
      cache_entries_of (k + (length name + length path + 2) - b) ps"
    using "2.prems" by (intro "2.IH") auto
  with "2.prems" show ?case by (simp add: Suc_diff_le)
qed simp

lemma cache_rep_split:
  assumes "cache_rep c ps" "i < length ps" "ps ! i = (name, path)"
  shows "cc_text c = cache_bytes (take i ps) @ name @ NUL # path @ NUL # cache_bytes (drop (Suc i) ps)"
    "cc_entries c = cache_entries_of 0 (take i ps) @
      \<lparr>ce_name_offset = length (cache_bytes (take i ps)),
       ce_path_offset = length (cache_bytes (take i ps)) + length name + 1,
       ce_hash = name_hash name, ce_name_length = length name, ce_path_length = length path\<rparr> #
      cache_entries_of (length (cache_bytes (take i ps)) + (length name + length path + 2))
        (drop (Suc i) ps)"
    "cc_entries c ! i =
      \<lparr>ce_name_offset = length (cache_bytes (take i ps)),
       ce_path_offset = length (cache_bytes (take i ps)) + length name + 1,
       ce_hash = name_hash name, ce_name_length = length name, ce_path_length = length path\<rparr>"
proof -
  have ps: "ps = take i ps @ (name, path) # drop (Suc i) ps"
    using id_take_nth_drop[OF assms(2)] assms(3) by simp
  show "cc_text c = cache_bytes (take i ps) @ name @ NUL # path @ NUL # cache_bytes (drop (Suc i) ps)"
    using assms(1) by (subst (asm) cache_rep_def, subst (asm) (1) ps) simp
  show entries: "cc_entries c = cache_entries_of 0 (take i ps) @
      \<lparr>ce_name_offset = length (cache_bytes (take i ps)),
       ce_path_offset = length (cache_bytes (take i ps)) + length name + 1,
       ce_hash = name_hash name, ce_name_length = length name, ce_path_length = length path\<rparr> #
      cache_entries_of (length (cache_bytes (take i ps)) + (length name + length path + 2))
        (drop (Suc i) ps)"
    using assms(1) by (subst (asm) cache_rep_def, subst (asm) (2) ps)
      (simp add: cache_entries_of_append)
  show "cc_entries c ! i =
      \<lparr>ce_name_offset = length (cache_bytes (take i ps)),
       ce_path_offset = length (cache_bytes (take i ps)) + length name + 1,
       ce_hash = name_hash name, ce_name_length = length name, ce_path_length = length path\<rparr>"
    unfolding entries using assms(2) by (simp add: nth_append)
qed

lemma cache_rep_pair: "cache_rep c ps \<Longrightarrow> i < length ps \<Longrightarrow> cache_ok_pair (ps ! i)"
  by (simp add: cache_rep_def list_all_length)

lemma cache_rep_matches:
  assumes "cache_rep c ps" "i < length ps"
  shows "cache_entry_matches c (cc_entries c ! i) name (name_hash name) \<longleftrightarrow> map fst ps ! i = name"
proof -
  obtain n p where np: "ps ! i = (n, p)" by (cases "ps ! i")
  note split = cache_rep_split[OF assms np]
  have "drop (length (cache_bytes (take i ps))) (cc_text c) =
      n @ NUL # p @ NUL # cache_bytes (drop (Suc i) ps)"
    by (simp add: split(1))
  moreover have "length (cache_bytes (take i ps)) < length (cc_text c)"
    by (simp add: split(1))
  ultimately show ?thesis
    unfolding cache_entry_matches_def split(3) using assms(2) np by auto
qed

lemma cache_rep_index:
  assumes "cache_rep c ps"
  shows "cache_index c name (name_hash name) = Some i \<longleftrightarrow> i < length ps \<and> fst (ps ! i) = name"
    "cache_index c name (name_hash name) = None \<longleftrightarrow> name \<notin> fst ` set ps"
proof -
  have len: "length (cc_entries c) = length ps"
    using assms by (simp add: cache_rep_def)
  have rep: "index_rep 256 (cc_slots c) (map name_hash (map fst ps))" "distinct (map fst ps)"
    using assms by (simp_all add: cache_rep_def)
  let ?P = "\<lambda>i. i < length (cc_entries c) \<and>
      cache_entry_matches c (cc_entries c ! i) name (name_hash name)"
  have P: "?P i \<longleftrightarrow> map fst ps ! i = name" if "i < length (map fst ps)" for i
    using cache_rep_matches[OF assms, of i] len that by simp
  have some: "index_find (cc_slots c) ?P (name_hash name) = Some i \<longleftrightarrow>
      i < length (map fst ps) \<and> map fst ps ! i = name"
    by (rule probing.find_name_Some[OF rep]) (rule P)
  have none: "index_find (cc_slots c) ?P (name_hash name) = None \<longleftrightarrow> name \<notin> set (map fst ps)"
    by (rule probing.find_name_None[OF rep]) (rule P)
  show "cache_index c name (name_hash name) = Some i \<longleftrightarrow> i < length ps \<and> fst (ps ! i) = name"
    unfolding cache_index_def some by auto
  show "cache_index c name (name_hash name) = None \<longleftrightarrow> name \<notin> fst ` set ps"
    unfolding cache_index_def none by simp
qed

lemma cache_rep_path:
  assumes "cache_rep c ps" "i < length ps"
  shows "cached_path c i = snd (ps ! i)"
proof -
  obtain n p where np: "ps ! i = (n, p)" by (cases "ps ! i")
  note split = cache_rep_split[OF assms np]
  have "drop (length (cache_bytes (take i ps)) + length n + 1) (cc_text c) =
      p @ NUL # cache_bytes (drop (Suc i) ps)"
    by (simp add: split(1))
  moreover have "\<forall>b \<in> set p. b \<noteq> NUL"
    using cache_rep_pair[OF assms] np by (auto simp: cache_ok_pair_def)
  ultimately show ?thesis
    by (simp add: cached_path_def split(3) np takeWhile_append)
qed

lemma cache_rep_initialize: "cache_rep (gsh_command_cache_initialize g) []"
  using probing.rep_empty by (simp add: cache_rep_def gsh_command_cache_initialize_def)

lemma cache_rep_remember:
  assumes rep: "cache_rep c ps" and nul: "NUL \<notin> set name" "NUL \<notin> set path"
    and run: "remember_path c name path = (r, d)"
  shows "(r = None \<longrightarrow> cache_rep d (if name \<in> fst ` set ps then ps else ps @ [(name, path)])) \<and>
    (r \<noteq> None \<longrightarrow> d = c) \<and> cc_generation d = cc_generation c \<and>
    (r = None \<longrightarrow> name \<noteq> [])"
proof (cases "r = None \<and> name \<notin> fst ` set ps")
  case False
  have "cache_index c name (name_hash name) \<noteq> None \<or> r \<noteq> None"
    using False cache_rep_index(2)[OF rep, of name] by auto
  then have "d = c"
    using run by (auto simp: remember_path_def Let_def split: if_splits option.splits prod.splits)
  with False rep run show ?thesis by (auto simp: remember_path_def)
next
  case True
  have text_c: "cc_text c = cache_bytes ps" "cc_entries c = cache_entries_of 0 ps"
    and index: "index_rep 256 (cc_slots c) (map name_hash (map fst ps))" and "length ps \<le> 128"
    and cap: "length (cache_bytes ps) \<le> 65536"
    using rep by (simp_all add: cache_rep_def)
  then have "length (map name_hash (map fst ps)) < 256" by simp
  from index_insert_spec[OF slot_count_caps(1) index this, of "name_hash name"] obtain slots where
    slots: "index_insert (cc_slots c) (name_hash name) (length ps) = Some slots"
      "index_rep 256 slots (map name_hash (map fst ps) @ [name_hash name])" by auto
  let ?c = "c\<lparr>cc_entries := cache_entries_of 0 (ps @ [(name, path)]),
              cc_text := cache_bytes (ps @ [(name, path)])\<rparr>"
  have ins: "insert_hash_slot ?c (length ps) = (None, ?c\<lparr>cc_slots := slots\<rparr>)"
    using slots(1) by (simp add: insert_hash_slot_def cache_entries_of_append nth_append)
  have none: "cache_index c name (name_hash name) = None"
    using True cache_rep_index(2)[OF rep] by simp
  have guards: "cache_ok_pair (name, path)" "length ps \<noteq> 128"
    "length (cache_bytes ps) + (length name + length path + 2) \<le> 65536"
    and d: "d = ?c\<lparr>cc_slots := slots\<rparr>"
    using run True none nul ins cap
    by (auto simp: remember_path_def Let_def text_c cache_entries_of_append cache_ok_pair_def
        split: if_splits)
  show ?thesis
    using True rep guards slots(2) \<open>length ps \<le> 128\<close> by (auto simp: d cache_rep_def cache_ok_pair_def)
qed

lemma rebuild_slots_spec:
  assumes "length (cc_entries c) \<le> 256" "index_rep 256 (cc_slots c) (map ce_hash (take k (cc_entries c)))"
    "k \<le> length (cc_entries c)"
  shows "\<exists>slots. rebuild_slots c [k..<length (cc_entries c)] = c\<lparr>cc_slots := slots\<rparr> \<and>
    index_rep 256 slots (map ce_hash (cc_entries c))"
  using assms
proof (induction "length (cc_entries c) - k" arbitrary: c k)
  case 0
  then show ?case by (auto intro!: exI[of _ "cc_slots c"])
next
  case (Suc n)
  then have k: "k < length (cc_entries c)" by simp
  let ?h = "ce_hash (cc_entries c ! k)"
  have "length (map ce_hash (take k (cc_entries c))) < 256" using Suc.prems(1) k by simp
  from index_insert_spec[OF slot_count_caps(1) Suc.prems(2) this, of ?h] k obtain slots where
    slots: "index_insert (cc_slots c) ?h k = Some slots"
      "index_rep 256 slots (map ce_hash (take k (cc_entries c)) @ [?h])" by auto
  let ?d = "c\<lparr>cc_slots := slots\<rparr>"
  have "map ce_hash (take k (cc_entries c)) @ [?h] = map ce_hash (take (Suc k) (cc_entries c))"
    using k by (simp add: take_Suc_conv_app_nth)
  with slots(2) have rep: "index_rep 256 (cc_slots ?d) (map ce_hash (take (Suc k) (cc_entries ?d)))"
    by simp
  have "n = length (cc_entries ?d) - Suc k" using Suc.hyps(2) by simp
  from Suc.hyps(1)[OF this] Suc.prems(1) k rep obtain slots' where
    "rebuild_slots ?d [Suc k..<length (cc_entries c)] = ?d\<lparr>cc_slots := slots'\<rparr>"
    "index_rep 256 slots' (map ce_hash (cc_entries c))" by auto
  moreover have "[k..<length (cc_entries c)] = k # [Suc k..<length (cc_entries c)]"
    using k by (rule upt_conv_Cons)
  ultimately show ?case
    using slots(1) by (auto simp: insert_hash_slot_def)
qed

lemma cache_rep_remove:
  assumes rep: "cache_rep c ps" and i: "i < length ps"
  shows "cache_rep (remove_entry c i) (take i ps @ drop (Suc i) ps) \<and>
    cc_generation (remove_entry c i) = cc_generation c"
proof -
  obtain name path where np: "ps ! i = (name, path)" by (cases "ps ! i")
  note split = cache_rep_split[OF rep i np]
  obtain pre post where q: "pre = take i ps" "post = drop (Suc i) ps" by simp
  have ps: "ps = pre @ (name, path) # post"
    using id_take_nth_drop[OF i] np by (simp add: q)
  have li: "length pre = i" using i by (simp add: q)
  note split = split[folded q]
  let ?off = "length (cache_bytes pre)" and ?len = "length name + length path + 2"
  let ?f = "\<lambda>other. if ?off < ce_name_offset other
              then other\<lparr>ce_name_offset := ce_name_offset other - ?len,
                         ce_path_offset := ce_path_offset other - ?len\<rparr> else other"
  have pre: "map ?f (cache_entries_of 0 pre) = cache_entries_of 0 pre"
    by (rule cache_entries_of_before) simp
  have post: "map ?f (cache_entries_of (?off + ?len) post) = cache_entries_of ?off post"
    using cache_entries_of_shift[of "?off + ?len" ?f ?len post] by simp
  have entries: "map ?f (take i (cc_entries c) @ drop (Suc i) (cc_entries c)) =
      cache_entries_of 0 (pre @ post)"
    using pre post li by (simp add: split(2) cache_entries_of_append)
  have bytes: "take ?off (cc_text c) @ drop (?off + ?len) (cc_text c) = cache_bytes (pre @ post)"
    by (simp add: split(1))
  let ?c = "c\<lparr>cc_text := cache_bytes (pre @ post), cc_entries := cache_entries_of 0 (pre @ post)\<rparr>"
  have f: "ce_name_offset (cc_entries c ! i) = ?off"
    "ce_path_offset (cc_entries c ! i) + ce_path_length (cc_entries c ! i) + 1 = ?off + ?len"
    by (simp_all add: split(3))
  have diff: "?off + ?len - ?off = ?len" by simp
  have removed: "remove_entry c i = cache_rebuild_hash ?c"
    unfolding remove_entry_def Let_def f diff entries bytes ..
  have inv: "distinct (map fst ps)" "length ps \<le> 128" "length (cache_bytes ps) \<le> 65536"
    "list_all cache_ok_pair ps" "cc_version c = 1" "cc_reserved c = 0"
    using rep by (simp_all add: cache_rep_def)
  have "length (cc_entries (?c\<lparr>cc_slots := empty_index 256\<rparr>)) \<le> 256"
    "index_rep 256 (cc_slots (?c\<lparr>cc_slots := empty_index 256\<rparr>))
      (map ce_hash (take 0 (cc_entries (?c\<lparr>cc_slots := empty_index 256\<rparr>))))"
    using inv(2) probing.rep_empty by (simp_all add: ps)
  from rebuild_slots_spec[OF this] obtain slots where
    slots: "cache_rebuild_hash ?c = ?c\<lparr>cc_slots := slots\<rparr>"
      "index_rep 256 slots (map name_hash (map fst (pre @ post)))"
    by (auto simp: cache_rebuild_hash_def simp del: map_map map_append)
  have "cache_rep (?c\<lparr>cc_slots := slots\<rparr>) (pre @ post)"
    using inv slots(2) by (auto simp: cache_rep_def ps)
  then show ?thesis unfolding removed slots(1) by (simp add: q)
qed


section \<open>What resolving promises\<close>

definition cache_pairs :: "gsh_command_cache \<Rightarrow> (byte list \<times> byte list) list" where
  "cache_pairs c =
    map (\<lambda>e. (take (ce_name_length e) (drop (ce_name_offset e) (cc_text c)),
              take (ce_path_length e) (drop (ce_path_offset e) (cc_text c))))
      (cc_entries c)"

definition cache_ok :: "gsh_command_cache \<Rightarrow> bool" where
  "cache_ok c \<longleftrightarrow> cache_rep c (cache_pairs c)"

definition cache_value :: "gsh_command_cache \<Rightarrow> byte list \<Rightarrow> byte list option" where
  "cache_value c name = map_option (cached_path c) (cache_index c name (name_hash name))"

lemma cache_rep_pairs:
  assumes "cache_rep c ps"
  shows "cache_pairs c = ps"
proof (rule nth_equalityI)
  have len: "length (cc_entries c) = length ps"
    using assms by (simp add: cache_rep_def)
  then show "length (cache_pairs c) = length ps" by (simp add: cache_pairs_def)
  fix i assume "i < length (cache_pairs c)"
  then have i: "i < length ps" using len by (simp add: cache_pairs_def)
  obtain n p where np: "ps ! i = (n, p)" by (cases "ps ! i")
  note split = cache_rep_split[OF assms i np]
  have "take (length n) (drop (length (cache_bytes (take i ps))) (cc_text c)) = n"
    "take (length p) (drop (length (cache_bytes (take i ps)) + length n + 1) (cc_text c)) = p"
    by (simp_all add: split(1))
  moreover have "cc_entries c ! i =
      \<lparr>ce_name_offset = length (cache_bytes (take i ps)),
       ce_path_offset = length (cache_bytes (take i ps)) + length n + 1,
       ce_hash = name_hash n, ce_name_length = length n, ce_path_length = length p\<rparr>"
    by (rule split(3))
  ultimately show "cache_pairs c ! i = ps ! i"
    using i len by (simp add: cache_pairs_def np)
qed

lemma cache_okI: "cache_rep c ps \<Longrightarrow> cache_ok c"
  using cache_rep_pairs by (simp add: cache_ok_def)

lemma cache_rep_value:
  assumes "cache_rep c ps"
  shows "cache_value c = map_of ps"
proof
  fix name show "cache_value c name = map_of ps name"
  proof (cases "cache_index c name (name_hash name)")
    case None
    with cache_rep_index(2)[OF assms, of name] have "map_of ps name = None"
      by (simp add: map_of_eq_None_iff)
    with None show ?thesis by (simp add: cache_value_def)
  next
    case (Some i)
    then have i: "i < length ps" "fst (ps ! i) = name"
      using cache_rep_index(1)[OF assms] by auto
    have "distinct (map fst ps)" using assms by (simp add: cache_rep_def)
    moreover have "(name, snd (ps ! i)) \<in> set ps" using i nth_mem[OF i(1)] by (cases "ps ! i") auto
    ultimately have "map_of ps name = Some (snd (ps ! i))" by (rule map_of_is_SomeI)
    with Some cache_rep_path[OF assms i(1)] show ?thesis by (simp add: cache_value_def)
  qed
qed

lemma remove_subset: "set (take i ps @ drop (Suc i) ps) \<subseteq> set ps"
  using set_take_subset[of i ps] set_drop_subset[of "Suc i" ps] by auto

lemma search_external_executable:
  assumes "gsh_command_search_external exec name path = Inr (Some out)"
  shows "exec out"
proof -
  have first: "first_executable exec name ds = Some out \<Longrightarrow> exec out" for ds
    by (auto simp: first_executable_def find_Some_iff)
  show ?thesis
    using assms first
    by (auto simp: gsh_command_search_external_def search_components_first split: if_splits)
qed

lemma search_external_plain:
  assumes "plain_command_name name"
  shows "gsh_command_search_external exec name path =
    (if GSH_COMMAND_PATH_SCAN_CAP < length path then Inl E2BIG
     else Inr (first_executable exec name (path_components [] path)))"
  using assms by (simp add: gsh_command_search_external_def plain_command_name_def
      search_components_first)

lemma component_candidate_bytes:
  "component_candidate name d = Some out \<Longrightarrow> set out \<subseteq> set d \<union> set name \<union> {CHR ''.'', SLASH}"
  by (auto simp: component_candidate_def copy_candidate_def Let_def split: if_splits)

lemma path_components_bytes: "d \<in> set (path_components acc path) \<Longrightarrow> set d \<subseteq> set acc \<union> set path"
  by (induction acc path rule: path_components.induct) (auto split: if_splits)

lemma search_external_bytes:
  assumes "plain_command_name name" "gsh_command_search_external exec name path = Inr (Some out)"
  shows "set out \<subseteq> set path \<union> set name \<union> {CHR ''.'', SLASH}"
proof -
  have "first_executable exec name (path_components [] path) = Some out"
    using assms by (simp add: search_external_plain split: if_splits)
  then have "out \<in> set (List.map_filter (component_candidate name) (path_components [] path))"
    by (auto simp: first_executable_def find_Some_iff in_set_conv_nth)
  then obtain d where "d \<in> set (path_components [] path)" "component_candidate name d = Some out"
    by (auto simp: map_filter_def)
  with component_candidate_bytes[of name d out] path_components_bytes[of d "[]" path]
  show ?thesis by auto
qed

lemma cache_sync_ok:
  assumes "cache_ok c" "gsh_command_cache_sync c g = (changed, d)"
  shows "cache_ok d \<and> cc_generation d = g \<and>
    (if changed then cc_generation c \<noteq> g \<and> cache_value d = Map.empty else d = c)"
  using assms cache_okI[OF cache_rep_initialize] cache_rep_value[OF cache_rep_initialize, of g]
  by (auto simp: gsh_command_cache_sync_def gsh_command_cache_clear_def
      gsh_command_cache_initialize_def split: if_splits)

text \<open>
  The two ways a plain name is resolved in a synchronised cache: by an entry that is still
  executable, or by a search whose result is remembered when it can be.
\<close>

lemma resolve_cases:
  assumes ok: "cache_ok c" and sync: "gsh_command_cache_sync c g = (changed, d)"
    and plain: "plain_command_name name" and nul: "NUL \<notin> set name" "NUL \<notin> set path"
    and run: "gsh_command_cache_resolve exec c g name path req = (r, c', ch)"
  obtains (hit) out where "cache_value d name = Some out" "exec out" "r = Inr (Some out)" "c' = d"
      "ch = changed"
  | (search) qs where "cache_rep c' qs" "cc_generation c' = g" "set qs \<subseteq> insert
        (name, case gsh_command_search_external exec name path of Inr (Some out) \<Rightarrow> out | _ \<Rightarrow> [])
        (set (cache_pairs d))"
      "\<forall>out. (name, out) \<in> set qs \<longrightarrow> gsh_command_search_external exec name path = Inr (Some out)"
      "r = gsh_command_search_external exec name path \<or> req \<and> (\<exists>err. r = Inl err)"
      "case cache_value d name of None \<Rightarrow> True | Some out \<Rightarrow> \<not> exec out"
      "\<not> ch \<Longrightarrow> c' = d \<and> \<not> changed"
proof -
  let ?search = "gsh_command_search_external exec name path"
  have d: "cache_ok d" "cc_generation d = g" using cache_sync_ok[OF ok sync] by simp_all
  let ?ps = "cache_pairs d"
  have rep: "cache_rep d ?ps" using d(1) by (simp add: cache_ok_def)
  have guards: "cc_version c = 1" "cc_reserved c = 0" "length (cc_entries c) \<le> 128"
    "length (cc_text c) \<le> 65536"
    using ok by (simp_all add: cache_ok_def cache_rep_def)
  obtain index where index: "cache_index d name (name_hash name) = index" by simp
  have val_d: "cache_value d name = map_option (cached_path d) index"
    by (simp add: cache_value_def index)
  show thesis
  proof (cases "case index of None \<Rightarrow> False | Some i \<Rightarrow> exec (cached_path d i)")
    case True
    then obtain i where i: "index = Some i" "exec (cached_path d i)"
      by (auto split: option.splits)
    with run guards sync plain index have "r = Inr (Some (cached_path d i))" "c' = d" "ch = changed"
      by (auto simp: gsh_command_cache_resolve_def)
    with i val_d show ?thesis by (intro hit[of "cached_path d i"]) simp_all
  next
    case False
    obtain e where e: "e = (case index of None \<Rightarrow> d | Some i \<Rightarrow> remove_entry d i)" by simp
    obtain qs where qs: "qs = (case index of None \<Rightarrow> ?ps | Some i \<Rightarrow> take i ?ps @ drop (Suc i) ?ps)"
      by simp
    have e_rep: "cache_rep e qs" "cc_generation e = g" "set qs \<subseteq> set ?ps" "name \<notin> fst ` set qs"
    proof -
      have "cache_rep e qs \<and> cc_generation e = g \<and> set qs \<subseteq> set ?ps \<and> name \<notin> fst ` set qs"
      proof (cases index)
        case None
        with rep d(2) cache_rep_index(2)[OF rep, of name] index show ?thesis by (simp add: e qs)
      next
        case (Some i)
        then have i: "i < length ?ps" "fst (?ps ! i) = name"
          using cache_rep_index(1)[OF rep, of name i] index by simp_all
        have dist: "distinct (map fst ?ps)" using rep by (simp add: cache_rep_def)
        obtain pre post where q: "pre = take i ?ps" "post = drop (Suc i) ?ps" by simp
        have "map fst ?ps = map fst pre @ name # map fst post"
          using arg_cong[OF id_take_nth_drop[OF i(1)], of "map fst"] i(2) by (simp add: q)
        with dist have "name \<notin> fst ` set (take i ?ps @ drop (Suc i) ?ps)"
          by (auto simp: q[symmetric])
        with Some i cache_rep_remove[OF rep i(1)] d(2) remove_subset[of i ?ps] show ?thesis
          by (simp add: e qs)
      qed
      then show "cache_rep e qs" "cc_generation e = g" "set qs \<subseteq> set ?ps" "name \<notin> fst ` set qs"
        by simp_all
    qed
    have nohit: "case cache_value d name of None \<Rightarrow> True | Some out \<Rightarrow> \<not> exec out"
      using False by (simp add: val_d split: option.splits)
    have run': "(case ?search of
         Inr (Some output) \<Rightarrow>
           (case remember_path e name output of
              (Some err, c) \<Rightarrow> (if req then Inl err else ?search, c, changed \<or> index \<noteq> None)
            | (None, c) \<Rightarrow> (?search, c, True))
       | _ \<Rightarrow> (?search, e, changed \<or> index \<noteq> None)) = (r, c', ch)"
    proof -
      have miss: "(case index of None \<Rightarrow> None
          | Some i \<Rightarrow> if exec (cached_path d i) then Some (cached_path d i) else None) = None"
        using False by (auto split: option.splits)
      show ?thesis
        using run guards plain
        unfolding gsh_command_cache_resolve_def sync prod.case Let_def index miss e[symmetric]
        by (simp del: not_None_eq)
    qed
    have quiet: "e = d" if "\<not> (changed \<or> index \<noteq> None)" using that by (simp add: e)
    show ?thesis
    proof (cases "\<exists>out. ?search = Inr (Some out)")
      case False
      then have "r = ?search" "c' = e" "ch = (changed \<or> index \<noteq> None)"
        using run' by (auto split: sum.splits option.splits)
      with e_rep nohit quiet show ?thesis by (intro search[of qs]) (auto simp: image_iff)
    next
      case True
      then obtain out where out: "?search = Inr (Some out)" by blast
      obtain m f where m: "remember_path e name out = (m, f)" by (cases "remember_path e name out")
      have "NUL \<notin> set out"
        using search_external_bytes[OF plain out] nul by auto
      note spec = cache_rep_remember[OF e_rep(1) nul(1) this m]
      show ?thesis
      proof (cases m)
        case None
        then have "r = ?search" "c' = f" "ch" using run' out m by auto
        with spec e_rep nohit None out show ?thesis
          by (intro search[of "qs @ [(name, out)]"]) (auto simp: image_iff)
      next
        case (Some err)
        then have "r = ?search \<or> req \<and> (\<exists>err. r = Inl err)" "c' = e" "ch = (changed \<or> index \<noteq> None)"
          using run' out m spec by (auto split: if_splits)
        with e_rep nohit quiet show ?thesis by (intro search[of qs]) (auto simp: image_iff)
      qed
    qed
  qed
qed


text \<open>Every cached path is what a search of PATH would find now.\<close>

definition cache_agrees :: "(byte list \<Rightarrow> bool) \<Rightarrow> byte list \<Rightarrow> gsh_command_cache \<Rightarrow> bool" where
  "cache_agrees exec path c \<longleftrightarrow>
    (\<forall>(name, out) \<in> set (cache_pairs c).
      gsh_command_search_external exec name path = Inr (Some out))"

lemma cache_agrees_value:
  "cache_ok c \<Longrightarrow> cache_agrees exec path c \<Longrightarrow> cache_value c name = Some out \<Longrightarrow>
    gsh_command_search_external exec name path = Inr (Some out)"
  using cache_rep_value[of c "cache_pairs c"]
  by (auto simp: cache_ok_def cache_agrees_def dest: map_of_SomeD)

lemma resolve_not_plain:
  assumes "cache_ok c" "\<not> plain_command_name name"
    "gsh_command_cache_resolve exec c g name path req = (r, c', ch)"
  shows "r = gsh_command_search_external exec name path \<and> gsh_command_cache_sync c g = (ch, c')"
proof -
  have "cc_version c = 1" "cc_reserved c = 0" "length (cc_entries c) \<le> 128"
    "length (cc_text c) \<le> 65536"
    using assms(1) by (simp_all add: cache_ok_def cache_rep_def)
  with assms(2,3) show ?thesis
    by (auto simp: gsh_command_cache_resolve_def split: prod.splits)
qed

lemma resolve_keeps:
  assumes ok: "cache_ok c" and nul: "NUL \<notin> set name" "NUL \<notin> set path"
    and run: "gsh_command_cache_resolve exec c g name path req = (r, c', ch)"
  shows "cache_ok c' \<and> cc_generation c' = g \<and> (\<forall>out. r = Inr (Some out) \<longrightarrow> exec out) \<and>
    (\<not> ch \<longrightarrow> c' = c)"
proof (cases "plain_command_name name")
  case False
  from resolve_not_plain[OF ok False run] cache_sync_ok[OF ok, of g ch c']
  show ?thesis by (auto dest: search_external_executable)
next
  case True
  obtain changed d where sync: "gsh_command_cache_sync c g = (changed, d)"
    by (cases "gsh_command_cache_sync c g")
  note d = cache_sync_ok[OF ok sync]
  from ok sync True nul run show ?thesis
  proof (cases rule: resolve_cases)
    case (hit out)
    with d show ?thesis by auto
  next
    case (search qs)
    have "exec out" if "r = Inr (Some out)" for out
      using search(5) that search_external_executable[of exec name path out] by auto
    with search(1,2,7) d cache_okI show ?thesis by (cases changed) auto
  qed
qed

lemma resolve_transparent:
  assumes ok: "cache_ok c" and nul: "NUL \<notin> set name" "NUL \<notin> set path"
    and agrees: "cc_generation c = g \<Longrightarrow> cache_agrees exec path c"
    and run: "gsh_command_cache_resolve exec c g name path req = (r, c', ch)"
  shows "(r = gsh_command_search_external exec name path \<or> req \<and> (\<exists>err. r = Inl err)) \<and>
    cache_agrees exec path c'"
proof -
  obtain changed d where sync: "gsh_command_cache_sync c g = (changed, d)"
    by (cases "gsh_command_cache_sync c g")
  note d = cache_sync_ok[OF ok sync]
  have empty: "cache_agrees exec path (gsh_command_cache_initialize g)"
    using cache_rep_pairs[OF cache_rep_initialize, of g] by (simp add: cache_agrees_def)
  have agrees_d: "cache_agrees exec path d"
  proof (cases "cc_generation c = g")
    case True
    with sync agrees show ?thesis by (simp add: gsh_command_cache_sync_def)
  next
    case False
    with sync empty show ?thesis
      by (simp add: gsh_command_cache_sync_def gsh_command_cache_clear_def)
  qed
  show ?thesis
  proof (cases "plain_command_name name")
    case False
    from resolve_not_plain[OF ok False run] agrees_d sync show ?thesis by simp
  next
    case True
    from ok sync True nul run show ?thesis
    proof (cases rule: resolve_cases)
      case (hit out)
      with cache_agrees_value[OF _ agrees_d, of name out] d agrees_d show ?thesis by simp
    next
      case (search qs)
      have "gsh_command_search_external exec n path = Inr (Some out)" if "(n, out) \<in> set qs" for n out
      proof (cases "(n, out) \<in> set (cache_pairs d)")
        case True
        with agrees_d show ?thesis unfolding cache_agrees_def by blast
      next
        case False
        with search(3) that have "n = name" by blast
        with search(4) that show ?thesis by blast
      qed
      then have "cache_agrees exec path c'"
        using cache_rep_pairs[OF search(1)] by (auto simp: cache_agrees_def)
      with search(5) show ?thesis by simp
    qed
  qed
qed

text \<open>Why a path cannot be remembered, in terms of what the cache holds: the name or the path cannot
  be stored at all, or the entries or their text are full.\<close>

definition remember_error ::
  "(byte list \<times> byte list) list \<Rightarrow> byte list \<Rightarrow> byte list \<Rightarrow> errno option" where
  "remember_error ps name out =
    (if UINT16_MAX < length name \<or> out = [] \<or> UINT16_MAX < length out \<or> NL \<in> set name \<or> NL \<in> set out \<or>
        GSH_COMMAND_CACHE_TEXT_CAP < length name + length out + 2
     then Some EINVAL
     else if length ps = GSH_COMMAND_CACHE_CAP \<or>
        GSH_COMMAND_CACHE_TEXT_CAP < length (cache_bytes ps) + length name + length out + 2
     then Some ENOSPC else None)"

lemma remember_path_error:
  assumes rep: "cache_rep c ps" and name: "plain_command_name name" "name \<notin> fst ` set ps"
  shows "fst (remember_path c name out) = remember_error ps name out"
proof -
  have text_c: "cc_text c = cache_bytes ps" "cc_entries c = cache_entries_of 0 ps"
    and index: "index_rep 256 (cc_slots c) (map name_hash (map fst ps))" and "length ps \<le> 128"
    and cap: "length (cache_bytes ps) \<le> 65536"
    using rep by (simp_all add: cache_rep_def)
  then have "length (map name_hash (map fst ps)) < 256" by simp
  from index_insert_spec[OF slot_count_caps(1) index this, of "name_hash name"] obtain slots where
    slots: "index_insert (cc_slots c) (name_hash name) (length ps) = Some slots" by auto
  have ins: "insert_hash_slot (c\<lparr>cc_entries := cache_entries_of 0 ps @ [e], cc_text := t\<rparr>) (length ps) =
      (None, c\<lparr>cc_entries := cache_entries_of 0 ps @ [e], cc_text := t, cc_slots := slots\<rparr>)"
    if "ce_hash e = name_hash name" for e t
    using slots that by (simp add: insert_hash_slot_def nth_append)
  have none: "cache_index c name (name_hash name) = None"
    using name(2) cache_rep_index(2)[OF rep] by simp
  have "GSH_COMMAND_CACHE_TEXT_CAP - length (cache_bytes ps) < k \<longleftrightarrow>
      GSH_COMMAND_CACHE_TEXT_CAP < length (cache_bytes ps) + k" for k using cap by linarith
  with name(1) none ins show ?thesis
    by (simp add: remember_path_def remember_error_def text_c plain_command_name_def Let_def
        add.assoc)
qed

definition synced_pairs :: "gsh_command_cache \<Rightarrow> uint64 \<Rightarrow> (byte list \<times> byte list) list" where
  "synced_pairs c g = (if cc_generation c = g then cache_pairs c else [])"

lemma sync_pairs: "gsh_command_cache_sync c g = (changed, d) \<Longrightarrow> cache_pairs d = synced_pairs c g"
  using cache_rep_pairs[OF cache_rep_initialize, of g]
  by (auto simp: gsh_command_cache_sync_def gsh_command_cache_clear_def synced_pairs_def split: if_splits)

lemma resolve_absent:
  assumes ok: "cache_ok c" and plain: "plain_command_name name" "name \<notin> fst ` set (synced_pairs c g)"
    and run: "gsh_command_cache_resolve exec c g name path req = (r, c', ch)"
    and found: "gsh_command_search_external exec name path = Inr (Some out)"
    and nul: "NUL \<notin> set name" "NUL \<notin> set path"
  shows "r = (case remember_error (synced_pairs c g) name out of
      Some err \<Rightarrow> if req then Inl err else Inr (Some out) | None \<Rightarrow> Inr (Some out))"
    "remember_error (synced_pairs c g) name out = None \<Longrightarrow> cache_value c' name = Some out"
proof -
  obtain changed d where sync: "gsh_command_cache_sync c g = (changed, d)"
    by (cases "gsh_command_cache_sync c g")
  have rep: "cache_rep d (synced_pairs c g)"
    using cache_sync_ok[OF ok sync] sync_pairs[OF sync] by (simp add: cache_ok_def)
  have miss: "cache_index d name (name_hash name) = None"
    using cache_rep_index(2)[OF rep] plain(2) by simp
  have guards: "cc_version c = 1" "cc_reserved c = 0" "length (cc_entries c) \<le> 128"
    "length (cc_text c) \<le> 65536"
    using ok by (simp_all add: cache_ok_def cache_rep_def)
  obtain m f where m: "remember_path d name out = (m, f)" by fastforce
  have err: "m = remember_error (synced_pairs c g) name out"
    using remember_path_error[OF rep plain, of out] m by simp
  have "(r, c') = (if m \<noteq> None \<and> req then Inl (the m) else Inr (Some out), f)"
    using run guards plain(1) miss m found
    unfolding gsh_command_cache_resolve_def sync prod.case Let_def miss
    by (auto split: option.splits if_splits)
  then show "r = (case remember_error (synced_pairs c g) name out of
      Some err \<Rightarrow> if req then Inl err else Inr (Some out) | None \<Rightarrow> Inr (Some out))"
    by (simp add: err[symmetric] split: option.splits)
  assume "remember_error (synced_pairs c g) name out = None"
  moreover have "NUL \<notin> set out" using search_external_bytes[OF plain(1) found] nul by auto
  ultimately have "cache_rep f (synced_pairs c g @ [(name, out)])" "c' = f"
    using cache_rep_remember[OF rep nul(1) _ m] err plain(2) \<open>(r, c') = _\<close> by auto
  then show "cache_value c' name = Some out"
    using cache_rep_value[of f] map_of_eq_None_iff[of "synced_pairs c g" name] plain(2)
    by (simp add: map_add_def)
qed

lemma resolve_not_found:
  assumes "cache_ok c" "gsh_command_cache_resolve exec c g name path req = (r, c', ch)"
    "\<nexists>out. gsh_command_search_external exec name path = Inr (Some out)" "\<nexists>out. r = Inr (Some out)"
  shows "r = gsh_command_search_external exec name path"
proof -
  have "cc_version c = 1" "cc_reserved c = 0" "length (cc_entries c) \<le> 128"
    "length (cc_text c) \<le> 65536"
    using assms(1) by (simp_all add: cache_ok_def cache_rep_def)
  with assms(2-4) show ?thesis
    by (auto simp: gsh_command_cache_resolve_def Let_def split: prod.splits option.splits sum.splits if_splits)
qed

lemma resolve_present:
  assumes ok: "cache_ok c" and plain: "plain_command_name name" "name \<in> fst ` set (synced_pairs c g)"
    and agrees: "cc_generation c = g \<Longrightarrow> cache_agrees exec path c"
    and run: "gsh_command_cache_resolve exec c g name path req = (r, c', ch)"
    and nul: "NUL \<notin> set name" "NUL \<notin> set path"
  shows "r = gsh_command_search_external exec name path" "r = Inr (cache_value c' name)"
proof -
  obtain changed d where sync: "gsh_command_cache_sync c g = (changed, d)"
    by (cases "gsh_command_cache_sync c g")
  have g: "cc_generation c = g" using plain(2) by (cases "cc_generation c = g") (simp_all add: synced_pairs_def)
  with sync have d: "d = c" by (simp add: gsh_command_cache_sync_def)
  have rep: "cache_rep c (cache_pairs c)" using ok by (simp add: cache_ok_def)
  from plain(2) g obtain out where out: "cache_value c name = Some out"
    using cache_rep_value[OF rep] by (cases "map_of (cache_pairs c) name")
      (auto simp: synced_pairs_def map_of_eq_None_iff)
  with cache_agrees_value[OF ok agrees[OF g]] have
    search: "gsh_command_search_external exec name path = Inr (Some out)" by blast
  then have "exec out" by (rule search_external_executable)
  with ok sync plain(1) nul run have "r = Inr (Some out) \<and> c' = c"
    by (cases rule: resolve_cases) (simp_all add: d out)
  with search out show "r = gsh_command_search_external exec name path" "r = Inr (cache_value c' name)"
    by simp_all
qed

text \<open>What the operations build passes the validation of a received cache.\<close>

lemma cache_rep_validate_entry:
  assumes rep: "cache_rep c ps" and i: "i < length ps"
  shows "cache_validate_entry c (length (cache_bytes (take i ps))) i (cc_entries c ! i) =
    Some (length (cache_bytes (take (Suc i) ps)))"
proof -
  obtain n p where np: "ps ! i = (n, p)" by (cases "ps ! i")
  note split = cache_rep_split[OF rep i np]
  let ?off = "length (cache_bytes (take i ps))"
  have pair: "cache_ok_pair (n, p)" using cache_rep_pair[OF rep i] np by simp
  have index: "cache_index c n (name_hash n) = Some i"
    using cache_rep_index(1)[OF rep, of n i] i np by simp
  have total: "length (cc_text c) = ?off + (length n + length p + 2) + length (cache_bytes (drop (Suc i) ps))"
    by (simp add: split(1))
  have drops: "drop ?off (cc_text c) = n @ NUL # p @ NUL # cache_bytes (drop (Suc i) ps)"
    "drop (?off + length n + 1) (cc_text c) = p @ NUL # cache_bytes (drop (Suc i) ps)"
    by (simp_all add: split(1))
  have at: "cc_text c ! (?off + length n) = NUL" "cc_text c ! (?off + length n + 1 + length p) = NUL"
    by (simp_all add: split(1) nth_append)
  have next_bytes: "length (cache_bytes (take (Suc i) ps)) = ?off + (length n + length p + 2)"
    using i np by (simp add: take_Suc_conv_app_nth)
  show ?thesis
    using pair index total drops at
    by (simp add: cache_validate_entry_def split(3) Let_def cache_ok_pair_def next_bytes)
qed

lemma cache_rep_validate_entries:
  assumes rep: "cache_rep c ps"
  shows "i \<le> length ps \<Longrightarrow>
    cache_validate_entries c (length (cache_bytes (take i ps))) i (drop i (cc_entries c)) =
    Some (length (cc_text c))"
proof (induction "length ps - i" arbitrary: i)
  case 0
  with rep show ?case by (simp add: cache_rep_def)
next
  case (Suc n)
  then have i: "i < length ps" by simp
  have "length (cc_entries c) = length ps" using rep by (simp add: cache_rep_def)
  then have "drop i (cc_entries c) = cc_entries c ! i # drop (Suc i) (cc_entries c)"
    using i by (simp add: Cons_nth_drop_Suc)
  with cache_rep_validate_entry[OF rep i] Suc.hyps(1)[of "Suc i"] Suc.hyps(2) i
  show ?case by simp
qed

lemma cache_ok_validate:
  assumes "cache_ok c"
  shows "gsh_command_cache_validate c"
proof -
  let ?ps = "cache_pairs c"
  have rep: "cache_rep c ?ps" using assms by (simp add: cache_ok_def)
  have index: "index_rep 256 (cc_slots c) (map name_hash (map fst ?ps))" "length (cc_entries c) = length ?ps"
    using rep by (simp_all add: cache_rep_def)
  have "list_all (\<lambda>slot. slot \<noteq> 0 \<longrightarrow> unat slot - 1 < length (cc_entries c)) (cc_slots c)"
    using index
    by (auto simp: list_all_length index_rep_def) (metis One_nat_def Suc_le_eq Suc_pred unat_gt_0)
  moreover have "length (filter (\<lambda>slot. slot \<noteq> 0) (cc_slots c)) = length (cc_entries c)"
    using index_rep_count[OF index(1)] index(2) by simp
  ultimately show ?thesis
    using cache_rep_validate_entries[OF rep, of 0] rep
    by (simp add: gsh_command_cache_validate_def cache_rep_def)
qed

section \<open>Properties\<close>

text \<open>The PATH search of a plain name finds the first executable in PATH order: each component
  of the colon-separated list, the empty one standing for the current directory, is joined
  with the name, components that do not fit the path buffer are skipped, and the step bound of
  the loop is never what ends it.\<close>

theorem path_search_first:
  assumes "plain_command_name name" "length path \<le> GSH_COMMAND_PATH_SCAN_CAP"
  shows "gsh_command_search_external exec name path =
    Inr (first_executable exec name (path_components [] path))"
  using search_external_plain[OF assms(1)] assms(2) by simp

lemma path_search_first_witness:
  "gsh_command_search_external (\<lambda>p. p \<in> {''./ls'', ''/bin/ls''}) ''ls'' ''/x::/bin'' = Inr (Some ''./ls'')"
  using path_search_first[of "''ls''" "''/x::/bin''" "\<lambda>p. p \<in> {''./ls'', ''/bin/ls''}"]
  by (simp add: plain_command_name_def first_executable_simps component_candidate_def copy_candidate_def)

text \<open>C31. Every resolution keeps the cache well formed and of the asked generation, so that it
  passes its own validator; a path it answers is executable at that moment, also when it comes
  from the cache; and a result not flagged as a change has changed nothing.\<close>

theorem cache_resolve_sound:
  assumes "cache_ok c" "NUL \<notin> set name" "NUL \<notin> set path"
  shows "case gsh_command_cache_resolve exec c g name path required of (r, c', changed) \<Rightarrow>
    cache_ok c' \<and> gsh_command_cache_validate c' \<and> cc_generation c' = g \<and>
    (\<forall>out. r = Inr (Some out) \<longrightarrow> exec out) \<and> (\<not> changed \<longrightarrow> c' = c)"
proof -
  obtain r c' changed where run: "gsh_command_cache_resolve exec c g name path required = (r, c', changed)"
    by (metis prod_cases3)
  show ?thesis using resolve_keeps[OF assms run] cache_ok_validate by (simp add: run)
qed

lemma blank_cache_ok: "cache_ok (gsh_command_cache_initialize g)"
  "cache_pairs (gsh_command_cache_initialize g) = []"
  using cache_okI[OF cache_rep_initialize] cache_rep_pairs[OF cache_rep_initialize] by blast+

lemma cache_resolve_sound_witness:
  "case gsh_command_cache_resolve (\<lambda>p. p = ''/bin/ls'') (gsh_command_cache_initialize 3) 4 ''ls'' ''/bin'' True of
    (r, c', changed) \<Rightarrow> gsh_command_cache_validate c' \<and> cc_generation c' = 4 \<and> changed"
  using cache_resolve_sound[OF blank_cache_ok(1)[of 3], of "''ls''" "''/bin''", where exec = "\<lambda>p. p = ''/bin/ls''" and g = 4 and required = True]
  by (auto simp: gsh_command_cache_initialize_def)

text \<open>C30. The cache is transparent: while what it holds for this generation is what a search would
  find (the file system as it was when the paths were cached), a resolution answers what the
  plain PATH search answers, hit or miss. The only exception is a path that was found, is not in
  the cache and cannot be remembered there (a newline, a size no entry can hold, 128 entries or
  65536 bytes of text used up), where a caller who asked for it gets that error and no other.
  Otherwise a path that was found is in the cache afterwards. The cache stays that faithful.\<close>

theorem cache_resolve_transparent:
  assumes "cache_ok c" "NUL \<notin> set name" "NUL \<notin> set path"
    "cc_generation c = g \<Longrightarrow> cache_agrees exec path c"
  shows "case gsh_command_cache_resolve exec c g name path required of (r, c', changed) \<Rightarrow>
    cache_agrees exec path c' \<and>
    (case gsh_command_search_external exec name path of
       Inr (Some out) \<Rightarrow>
         if plain_command_name name \<and> name \<notin> fst ` set (synced_pairs c g)
         then (case remember_error (synced_pairs c g) name out of
                 Some err \<Rightarrow> r = (if required then Inl err else Inr (Some out))
               | None \<Rightarrow> r = Inr (Some out) \<and> cache_value c' name = Some out)
         else r = Inr (Some out) \<and> (plain_command_name name \<longrightarrow> cache_value c' name = Some out)
     | found \<Rightarrow> r = found)"
proof -
  obtain r c' changed where run: "gsh_command_cache_resolve exec c g name path required = (r, c', changed)"
    by (metis prod_cases3)
  note keeps = resolve_transparent[OF assms run]
  show ?thesis
  proof (cases "\<exists>out. gsh_command_search_external exec name path = Inr (Some out)")
    case False
    then have "r = gsh_command_search_external exec name path"
      using resolve_not_found[OF assms(1) run False] keeps by auto
    with False keeps show ?thesis by (auto simp: run split: sum.splits option.splits)
  next
    case True
    then obtain out where out: "gsh_command_search_external exec name path = Inr (Some out)" by blast
    show ?thesis
    proof (cases "plain_command_name name")
      case False
      with resolve_not_plain[OF assms(1) False run] out keeps show ?thesis by (simp add: run)
    next
      case plain: True
      show ?thesis
      proof (cases "name \<in> fst ` set (synced_pairs c g)")
        case True
        with resolve_present[OF assms(1) plain True assms(4) run assms(2,3)] out keeps
        show ?thesis by (simp add: run)
      next
        case False
        with resolve_absent[OF assms(1) plain False run out assms(2,3)] out keeps plain
        show ?thesis by (simp add: run split: option.splits)
      qed
    qed
  qed
qed

lemma cache_resolve_transparent_witness:
  "case gsh_command_cache_resolve (\<lambda>p. p = ''/bin/ls'') (gsh_command_cache_initialize 3) 3 ''ls'' ''/bin'' True of
    (r, c', changed) \<Rightarrow> r = Inr (Some ''/bin/ls'') \<and> cache_value c' ''ls'' = Some ''/bin/ls''"
proof -
  have "cache_agrees (\<lambda>p. p = ''/bin/ls'') ''/bin'' (gsh_command_cache_initialize 3)"
    by (simp add: cache_agrees_def blank_cache_ok)
  moreover have "synced_pairs (gsh_command_cache_initialize 3) 3 = []"
    by (simp add: synced_pairs_def blank_cache_ok)
  ultimately show ?thesis
    using cache_resolve_transparent[OF blank_cache_ok(1), of "''ls''" "''/bin''" 3 3
        "\<lambda>p. p = ''/bin/ls''" True]
    by (simp add: search_external_plain plain_command_name_def first_executable_simps
        component_candidate_def copy_candidate_def remember_error_def split: prod.splits)
qed

end
