(* ===== verification/BackgroundJobs.thy ===== *)
theory BackgroundJobs
  imports GshPrelude "HOL-Library.Multiset" "HOL-Library.Sublist"
begin

text \<open>
  Background jobs of \<open>src/background_jobs.c\<close>: the accumulator of a pipeline's status and the
  table of jobs, fed by the wait statuses of their members. The entries of the table are its
  \<open>used\<close> ones, and the two member arrays of an entry are its \<open>member_count\<close> cells. What the
  code erases behind them is not observable. Process ids and wait statuses are C ints that
  the code only compares and takes apart; the macros of \<open>sys/wait.h\<close> read the statuses in
  the layout the code itself writes with \<open>125 << 8\<close>.
\<close>

section \<open>Wait statuses\<close>

definition WIFEXITED :: "int \<Rightarrow> bool" where
  "WIFEXITED w \<longleftrightarrow> w AND 127 = 0"

definition WEXITSTATUS :: "int \<Rightarrow> int" where
  "WEXITSTATUS w = drop_bit 8 (w AND 65280)"

definition WIFSIGNALED :: "int \<Rightarrow> bool" where
  "WIFSIGNALED w \<longleftrightarrow> w AND 127 \<noteq> 0 \<and> w AND 127 \<noteq> 127"

definition WIFSTOPPED :: "int \<Rightarrow> bool" where
  "WIFSTOPPED w \<longleftrightarrow> w AND 255 = 127"

definition WIFCONTINUED :: "int \<Rightarrow> bool" where
  "WIFCONTINUED w \<longleftrightarrow> w = 65535"

definition terminal_status :: "int \<Rightarrow> bool" where
  "terminal_status w \<longleftrightarrow> WIFEXITED w \<or> WIFSIGNALED w"

definition wait_status_nonzero :: "int \<Rightarrow> bool" where
  "wait_status_nonzero w \<longleftrightarrow> WIFSIGNALED w \<or> (WIFEXITED w \<and> WEXITSTATUS w \<noteq> 0)"

section \<open>The status of a pipeline\<close>

record gsh_pipeline_status =
  pl_command_count :: nat
  pl_rightmost_nonzero :: nat
  pl_selected :: int
  pl_last :: int
  pl_pipefail :: bool
  pl_selected_known :: bool
  pl_last_known :: bool

definition gsh_pipeline_status_initialize :: "nat \<Rightarrow> bool \<Rightarrow> gsh_pipeline_status" where
  "gsh_pipeline_status_initialize command_count pipefail =
    \<lparr>pl_command_count = command_count, pl_rightmost_nonzero = 0, pl_selected = 0, pl_last = 0,
     pl_pipefail = pipefail, pl_selected_known = False, pl_last_known = False\<rparr>"

definition gsh_pipeline_status_record ::
  "gsh_pipeline_status \<Rightarrow> nat \<Rightarrow> int \<Rightarrow> bool \<times> gsh_pipeline_status" where
  "gsh_pipeline_status_record s command_index w =
    (if pl_command_count s = 0 \<or> pl_command_count s \<le> command_index \<or>
        \<not> WIFEXITED w \<and> \<not> WIFSIGNALED w
     then (False, s)
     else
       (let s = (if command_index + 1 = pl_command_count s
                 then s\<lparr>pl_last := w, pl_last_known := True\<rparr> else s);
            s = (if pl_pipefail s \<and> wait_status_nonzero w \<and>
                   (\<not> pl_selected_known s \<or> pl_rightmost_nonzero s < command_index)
                 then s\<lparr>pl_selected := w, pl_rightmost_nonzero := command_index,
                        pl_selected_known := True\<rparr>
                 else s)
        in (True, s)))"

definition gsh_pipeline_status_result :: "gsh_pipeline_status \<Rightarrow> int option" where
  "gsh_pipeline_status_result s =
    (if pl_command_count s = 0 \<or> \<not> pl_last_known s then None
     else Some (if pl_pipefail s \<and> pl_selected_known s then pl_selected s else pl_last s))"

section \<open>The table\<close>

abbreviation (input) GSH_BACKGROUND_CAP :: nat where "GSH_BACKGROUND_CAP \<equiv> 128"
abbreviation (input) GSH_BACKGROUND_MEMBER_CAP :: nat where "GSH_BACKGROUND_MEMBER_CAP \<equiv> 64"
abbreviation (input) GSH_BACKGROUND_COMMAND_CAP :: nat where "GSH_BACKGROUND_COMMAND_CAP \<equiv> 4096"

datatype gsh_job_state = JOB_RUNNING | JOB_STOPPED | JOB_DONE

datatype gsh_job_origin =
  JOB_ORIGIN_CLASSIC | JOB_ORIGIN_MANAGED | JOB_ORIGIN_ASYNC_LIST | JOB_ORIGIN_EVALUATOR

datatype gsh_jobspec_status =
  JOBSPEC_OK | JOBSPEC_MISSING | JOBSPEC_AMBIGUOUS | JOBSPEC_INVALID

record gsh_background_entry =
  be_pid :: int
  be_pgid :: int
  be_status_pid :: int
  be_members :: "int list"
  be_member_states :: "nat list"
  be_remaining :: nat
  be_wait_status :: int
  be_job_id :: uint32
  be_sequence :: uint64
  be_state :: gsh_job_state
  be_origin :: gsh_job_origin
  be_known :: bool
  be_done :: bool
  be_foreground :: bool
  be_terminal_owned :: bool
  be_notified :: bool
  be_consumed :: bool
  be_pipeline :: gsh_pipeline_status
  be_command :: "byte list"

record gsh_background_table =
  bt_entries :: "gsh_background_entry list"
  bt_next_job_id :: uint32
  bt_current :: uint32
  bt_previous :: uint32
  bt_next_sequence :: uint64

definition gsh_background_initialize :: "gsh_background_table \<Rightarrow> gsh_background_table" where
  "gsh_background_initialize t =
    t\<lparr>bt_entries := [], bt_next_job_id := 1, bt_current := 0, bt_previous := 0,
      bt_next_sequence := 1\<rparr>"

definition entry_reclaimable :: "gsh_background_entry \<Rightarrow> bool" where
  "entry_reclaimable e \<longleftrightarrow>
    \<not> be_known e \<or> (be_state e = JOB_DONE \<and> (be_notified e \<or> be_consumed e))"

definition gsh_background_has_capacity :: "gsh_background_table \<Rightarrow> bool" where
  "gsh_background_has_capacity t \<longleftrightarrow>
    length (bt_entries t) \<le> GSH_BACKGROUND_CAP \<and>
    (length (bt_entries t) < GSH_BACKGROUND_CAP \<or> list_ex entry_reclaimable (bt_entries t))"

definition gsh_background_active_count :: "gsh_background_table \<Rightarrow> nat" where
  "gsh_background_active_count t =
    (if GSH_BACKGROUND_CAP < length (bt_entries t) then 0
     else length (filter (\<lambda>e. be_known e \<and> be_state e \<noteq> JOB_DONE) (bt_entries t)))"

definition job_id_in_use :: "gsh_background_table \<Rightarrow> uint32 \<Rightarrow> bool" where
  "job_id_in_use t job_id \<longleftrightarrow>
    GSH_BACKGROUND_CAP < length (bt_entries t) \<or>
    list_ex (\<lambda>e. be_known e \<and> be_job_id e = job_id) (bt_entries t)"

text \<open>The counter is the number of candidates left.\<close>

fun next_job_id_loop :: "nat \<Rightarrow> gsh_background_table \<Rightarrow> uint32 option \<times> gsh_background_table" where
  "next_job_id_loop 0 t = (None, t)"
| "next_job_id_loop (Suc left) t =
    (let candidate = bt_next_job_id t;
         t = t\<lparr>bt_next_job_id := bt_next_job_id t + 1\<rparr>;
         t = (if bt_next_job_id t = 0 then t\<lparr>bt_next_job_id := 1\<rparr> else t)
     in if candidate \<noteq> 0 \<and> \<not> job_id_in_use t candidate then (Some candidate, t)
        else next_job_id_loop left t)"

definition next_job_id :: "gsh_background_table \<Rightarrow> uint32 option \<times> gsh_background_table" where
  "next_job_id t = next_job_id_loop (GSH_BACKGROUND_CAP + 1) t"

text \<open>The scan of \<open>refresh_current_jobs\<close>: newest and prior sequence, current and previous job.\<close>

fun refresh_scan ::
  "gsh_background_entry list \<Rightarrow> uint64 \<times> uint64 \<times> uint32 \<times> uint32 \<Rightarrow> uint32 \<times> uint32" where
  "refresh_scan [] (newest, prior, current, previous) = (current, previous)"
| "refresh_scan (e # es) (newest, prior, current, previous) =
    (if \<not> be_known e then refresh_scan es (newest, prior, current, previous)
     else if newest < be_sequence e then
       refresh_scan es (be_sequence e, newest, be_job_id e, current)
     else if prior < be_sequence e then
       refresh_scan es (newest, be_sequence e, current, be_job_id e)
     else refresh_scan es (newest, prior, current, previous))"

definition refresh_current_jobs :: "gsh_background_table \<Rightarrow> gsh_background_table" where
  "refresh_current_jobs t =
    (case refresh_scan (bt_entries t) (0, 0, 0, 0) of
       (current, previous) \<Rightarrow> t\<lparr>bt_current := current, bt_previous := previous\<rparr>)"

text \<open>The index of the entry to fill: the first reclaimable one, or one more.\<close>

fun first_reclaimable :: "nat \<Rightarrow> gsh_background_entry list \<Rightarrow> nat option" where
  "first_reclaimable i [] = None"
| "first_reclaimable i (e # es) =
    (if entry_reclaimable e then Some i else first_reclaimable (Suc i) es)"

definition available_entry :: "gsh_background_table \<Rightarrow> errno + nat" where
  "available_entry t =
    (if GSH_BACKGROUND_CAP < length (bt_entries t) then Inl EINVAL
     else case first_reclaimable 0 (bt_entries t) of
       Some i \<Rightarrow> Inr i
     | None \<Rightarrow> if length (bt_entries t) < GSH_BACKGROUND_CAP then Inr (length (bt_entries t))
               else Inl EAGAIN)"

definition member_in_use :: "gsh_background_table \<Rightarrow> int \<Rightarrow> bool" where
  "member_in_use t pid \<longleftrightarrow>
    GSH_BACKGROUND_CAP < length (bt_entries t) \<or>
    list_ex (\<lambda>e. be_known e \<and> list_ex (\<lambda>m. m = pid) (be_members e)) (bt_entries t)"

fun check_members :: "gsh_background_table \<Rightarrow> int list \<Rightarrow> errno option" where
  "check_members t [] = None"
| "check_members t (m # ms) =
    (if m \<le> 0 then Some EINVAL
     else if member_in_use t m then Some EEXIST
     else check_members t ms)"

definition gsh_background_add_job ::
  "gsh_background_table \<Rightarrow> int \<Rightarrow> int \<Rightarrow> int list \<Rightarrow> nat \<Rightarrow> bool \<Rightarrow> byte list \<Rightarrow> gsh_job_origin \<Rightarrow>
    (errno + uint32) \<times> gsh_background_table" where
  "gsh_background_add_job t pgid status_pid members command_count pipefail command origin =
    (if pgid \<le> 0 \<or> status_pid \<le> 0 \<or> members = [] \<or> GSH_BACKGROUND_MEMBER_CAP < length members \<or>
        command_count = 0 \<or> length members < command_count \<or>
        GSH_BACKGROUND_COMMAND_CAP \<le> length command \<or> GSH_BACKGROUND_CAP < length (bt_entries t)
     then (Inl EINVAL, t)
     else case check_members t members of
       Some err \<Rightarrow> (Inl err, t)
     | None \<Rightarrow>
         (case next_job_id t of
            (None, t) \<Rightarrow> (Inl EAGAIN, t)
          | (Some assigned, t) \<Rightarrow>
              (case available_entry t of
                 Inl err \<Rightarrow> (Inl err, t)
               | Inr i \<Rightarrow>
                   (let e = \<lparr>be_pid = status_pid, be_pgid = pgid, be_status_pid = status_pid,
                        be_members = members, be_member_states = replicate (length members) 0,
                        be_remaining = length members, be_wait_status = 0, be_job_id = assigned,
                        be_sequence = bt_next_sequence t, be_state = JOB_RUNNING, be_origin = origin,
                        be_known = True, be_done = False, be_foreground = False,
                        be_terminal_owned = False, be_notified = False, be_consumed = False,
                        be_pipeline = gsh_pipeline_status_initialize command_count pipefail,
                        be_command = command\<rparr>;
                      t = t\<lparr>bt_entries := (if i < length (bt_entries t) then (bt_entries t)[i := e]
                                              else bt_entries t @ [e]),
                              bt_next_sequence := (if bt_next_sequence t + 1 = 0 then 1
                                                   else bt_next_sequence t + 1)\<rparr>
                    in (Inr assigned, t\<lparr>bt_previous := bt_current t, bt_current := assigned\<rparr>)))))"

definition gsh_background_add ::
  "gsh_background_table \<Rightarrow> int \<Rightarrow> (errno + uint32) \<times> gsh_background_table" where
  "gsh_background_add t pid =
    gsh_background_add_job t pid pid [pid] 1 False [] JOB_ORIGIN_ASYNC_LIST"

section \<open>Wait statuses of members\<close>

definition all_members_stopped :: "gsh_background_entry \<Rightarrow> bool" where
  "all_members_stopped e \<longleftrightarrow> be_remaining e \<noteq> 0 \<and> list_all (\<lambda>s. s \<noteq> 0) (be_member_states e)"

fun member_index :: "nat \<Rightarrow> int list \<Rightarrow> int \<Rightarrow> nat option" where
  "member_index i [] pid = None"
| "member_index i (m # ms) pid = (if m = pid then Some i else member_index (Suc i) ms pid)"

fun locate_member :: "nat \<Rightarrow> gsh_background_entry list \<Rightarrow> int \<Rightarrow> (nat \<times> nat) option" where
  "locate_member i [] pid = None"
| "locate_member i (e # es) pid =
    (if \<not> be_known e then locate_member (Suc i) es pid
     else case member_index 0 (be_members e) pid of
       Some m \<Rightarrow> Some (i, m)
     | None \<Rightarrow> locate_member (Suc i) es pid)"

text \<open>The three steps of the branch for a member that ended (C lines 351 to 366).\<close>

definition mark_exited :: "gsh_background_entry \<Rightarrow> nat \<Rightarrow> gsh_background_entry" where
  "mark_exited e member =
    (if be_member_states e ! member \<noteq> 2
     then e\<lparr>be_member_states := (be_member_states e)[member := 2],
            be_remaining := be_remaining e - 1\<rparr>
     else e)"

definition record_exit :: "gsh_background_entry \<Rightarrow> nat \<Rightarrow> int \<Rightarrow> gsh_background_entry" where
  "record_exit e member w =
    (if member < pl_command_count (be_pipeline e)
     then e\<lparr>be_pipeline := snd (gsh_pipeline_status_record (be_pipeline e) member w)\<rparr>
     else e)"

definition finish_entry :: "gsh_background_entry \<Rightarrow> gsh_background_entry" where
  "finish_entry e =
    (if be_remaining e = 0
     then e\<lparr>be_state := JOB_DONE, be_done := True, be_notified := False,
            be_wait_status := (case gsh_pipeline_status_result (be_pipeline e) of
               Some result \<Rightarrow> result | None \<Rightarrow> push_bit 8 125)\<rparr>
     else e)"

definition exit_member :: "gsh_background_entry \<Rightarrow> nat \<Rightarrow> int \<Rightarrow> gsh_background_entry" where
  "exit_member e member w = finish_entry (record_exit (mark_exited e member) member w)"

definition update_entry ::
  "gsh_background_table \<Rightarrow> nat \<Rightarrow> nat \<Rightarrow> int \<Rightarrow> gsh_background_table" where
  "update_entry t i member w =
    (let e = bt_entries t ! i
     in if WIFSTOPPED w then
          (let e = e\<lparr>be_member_states := (be_member_states e)[member := 1]\<rparr>
           in if all_members_stopped e
              then (let t = t\<lparr>bt_entries := (bt_entries t)[i := e\<lparr>be_state := JOB_STOPPED,
                                                                be_notified := False\<rparr>]\<rparr>
                    in if bt_current t \<noteq> be_job_id e
                       then t\<lparr>bt_previous := bt_current t, bt_current := be_job_id e\<rparr> else t)
              else t\<lparr>bt_entries := (bt_entries t)[i := e]\<rparr>)
        else if WIFCONTINUED w then
          t\<lparr>bt_entries := (bt_entries t)[i := e\<lparr>be_member_states := (be_member_states e)[member := 0],
              be_state := JOB_RUNNING, be_notified := False\<rparr>]\<rparr>
        else if WIFEXITED w \<or> WIFSIGNALED w then
          t\<lparr>bt_entries := (bt_entries t)[i := exit_member e member w]\<rparr>
        else t)"

definition gsh_background_update_member ::
  "gsh_background_table \<Rightarrow> int \<Rightarrow> int \<Rightarrow> bool \<times> gsh_background_table" where
  "gsh_background_update_member t pid w =
    (if GSH_BACKGROUND_CAP < length (bt_entries t) then (False, t)
     else case locate_member 0 (bt_entries t) pid of
       None \<Rightarrow> (False, t)
     | Some (i, member) \<Rightarrow> (True, update_entry t i member w))"

section \<open>Queries\<close>

definition gsh_background_record ::
  "gsh_background_table \<Rightarrow> int \<Rightarrow> int \<Rightarrow> bool \<times> gsh_background_table" where
  "gsh_background_record t pid w = gsh_background_update_member t pid w"

text \<open>The first entry the loop accepts, with its index.\<close>

fun find_entry ::
  "(gsh_background_entry \<Rightarrow> bool) \<Rightarrow> nat \<Rightarrow> gsh_background_entry list \<Rightarrow>
    (nat \<times> gsh_background_entry) option" where
  "find_entry p i [] = None"
| "find_entry p i (e # es) =
    (if be_known e \<and> p e then Some (i, e) else find_entry p (Suc i) es)"

text \<open>Whether the job is done, and the wait status when it is.\<close>

definition gsh_background_get ::
  "gsh_background_table \<Rightarrow> int \<Rightarrow> (bool \<times> int option) option" where
  "gsh_background_get t pid =
    (if GSH_BACKGROUND_CAP < length (bt_entries t) then None
     else case find_entry (\<lambda>e. be_pid e = pid) 0 (bt_entries t) of
       Some (i, e) \<Rightarrow> Some (be_done e, if be_done e then Some (be_wait_status e) else None)
     | None \<Rightarrow> None)"

definition gsh_background_job_pid :: "gsh_background_table \<Rightarrow> uint32 \<Rightarrow> int" where
  "gsh_background_job_pid t job_id =
    (if GSH_BACKGROUND_CAP < length (bt_entries t) then -1
     else case find_entry (\<lambda>e. be_job_id e = job_id) 0 (bt_entries t) of
       Some (i, e) \<Rightarrow> be_pid e
     | None \<Rightarrow> -1)"

text \<open>Entries at the end that are not known leave the used part.\<close>

definition trim_entries :: "gsh_background_table \<Rightarrow> gsh_background_table" where
  "trim_entries t =
    t\<lparr>bt_entries := rev (dropWhile (\<lambda>e. \<not> be_known e) (rev (bt_entries t)))\<rparr>"

definition gsh_background_consume ::
  "gsh_background_table \<Rightarrow> int \<Rightarrow> int option \<times> gsh_background_table" where
  "gsh_background_consume t pid =
    (if GSH_BACKGROUND_CAP < length (bt_entries t) then (None, t)
     else case find_entry (\<lambda>e. be_pid e = pid \<and> be_done e) 0 (bt_entries t) of
       None \<Rightarrow> (None, t)
     | Some (i, e) \<Rightarrow>
         (let e' = e\<lparr>be_command := [], be_consumed := True, be_known := False\<rparr>
          in (Some (be_wait_status e),
              refresh_current_jobs (trim_entries (t\<lparr>bt_entries := (bt_entries t)[i := e']\<rparr>)))))"

definition gsh_background_consume_all_if_done ::
  "gsh_background_table \<Rightarrow> bool \<times> gsh_background_table" where
  "gsh_background_consume_all_if_done t =
    (if GSH_BACKGROUND_CAP < length (bt_entries t) \<or>
        list_ex (\<lambda>e. be_known e \<and> be_state e \<noteq> JOB_DONE) (bt_entries t)
     then (False, t)
     else (True, t\<lparr>bt_entries := [], bt_current := 0, bt_previous := 0\<rparr>))"

definition gsh_background_snapshot :: "gsh_background_table \<Rightarrow> int list" where
  "gsh_background_snapshot t =
    (if GSH_BACKGROUND_CAP < length (bt_entries t) then []
     else map be_pid (filter be_known (bt_entries t)))"

definition gsh_background_live_snapshot :: "gsh_background_table \<Rightarrow> int list" where
  "gsh_background_live_snapshot t =
    (if GSH_BACKGROUND_CAP < length (bt_entries t) then []
     else map be_pid (filter (\<lambda>e. be_known e \<and> be_state e \<noteq> JOB_DONE) (bt_entries t)))"

definition gsh_background_entry_for_id ::
  "gsh_background_table \<Rightarrow> uint32 \<Rightarrow> (nat \<times> gsh_background_entry) option" where
  "gsh_background_entry_for_id t job_id =
    (if job_id = 0 \<or> GSH_BACKGROUND_CAP < length (bt_entries t) then None
     else find_entry (\<lambda>e. be_job_id e = job_id) 0 (bt_entries t))"

definition gsh_background_entry_for_pid ::
  "gsh_background_table \<Rightarrow> int \<Rightarrow> (nat \<times> gsh_background_entry) option" where
  "gsh_background_entry_for_pid t pid =
    (if pid \<le> 0 \<or> GSH_BACKGROUND_CAP < length (bt_entries t) then None
     else find_entry (\<lambda>e. be_pid e = pid \<or> be_pgid e = pid \<or>
            list_ex (\<lambda>m. m = pid) (be_members e)) 0 (bt_entries t))"

section \<open>Job specifications\<close>

text \<open>\<open>strstr\<close> on the part of the command before its first NUL.\<close>

fun strstr :: "byte list \<Rightarrow> byte list \<Rightarrow> bool" where
  "strstr [] needle \<longleftrightarrow> needle = []"
| "strstr (b # bs) needle \<longleftrightarrow> take (length needle) (b # bs) = needle \<or> strstr bs needle"

definition command_matches :: "gsh_background_entry \<Rightarrow> byte list \<Rightarrow> bool \<Rightarrow> bool" where
  "command_matches e needle substring \<longleftrightarrow>
    needle \<noteq> [] \<and> be_command e \<noteq> [] \<and>
    (if substring then strstr (takeWhile (\<lambda>b. b \<noteq> NUL) (be_command e)) needle
     else length needle \<le> length (be_command e) \<and>
          take (length needle) (be_command e) = needle)"

fun textual_scan ::
  "gsh_background_entry list \<Rightarrow> byte list \<Rightarrow> bool \<Rightarrow> nat \<times> uint32 \<Rightarrow> nat \<times> uint32" where
  "textual_scan [] needle substring found = found"
| "textual_scan (e # es) needle substring found =
    textual_scan es needle substring
      (if be_known e \<and> command_matches e needle substring
       then (fst found + 1, be_job_id e) else found)"

definition resolve_textual ::
  "gsh_background_table \<Rightarrow> byte list \<Rightarrow> bool \<Rightarrow> uint32 \<Rightarrow> gsh_jobspec_status \<times> uint32" where
  "resolve_textual t needle substring job_id =
    (if GSH_BACKGROUND_CAP < length (bt_entries t) then (JOBSPEC_INVALID, job_id)
     else case textual_scan (bt_entries t) needle substring (0, job_id) of
       (matches, job_id) \<Rightarrow>
         (if matches = 1 then JOBSPEC_OK
          else if matches = 0 then JOBSPEC_MISSING else JOBSPEC_AMBIGUOUS, job_id))"

text \<open>
  \<open>strtoul\<close> in base 10 on a text that starts with a digit: the value of the digits, None
  when it does not fit an \<open>unsigned long\<close> of 64 bits, and what follows the digits.
\<close>

definition strtoul :: "byte list \<Rightarrow> nat option \<times> byte list" where
  "strtoul bs =
    (let n = decimal_value 0 (takeWhile digit_byte bs)
     in (if n < 2 ^ 64 then Some n else None, dropWhile digit_byte bs))"

definition gsh_background_resolve ::
  "gsh_background_table \<Rightarrow> byte list \<Rightarrow> uint32 \<Rightarrow> gsh_jobspec_status \<times> uint32" where
  "gsh_background_resolve t jobspec job_id =
    (let known = (\<lambda>job_id. (if job_id \<noteq> 0 \<and> gsh_background_entry_for_id t job_id \<noteq> None
                            then JOBSPEC_OK else JOBSPEC_MISSING, job_id))
     in case jobspec of
       [] \<Rightarrow> (JOBSPEC_INVALID, job_id)
     | c # spec \<Rightarrow>
         if c \<noteq> CHR ''%'' then (JOBSPEC_INVALID, job_id)
         else if spec = ''%'' \<or> spec = ''+'' then known (bt_current t)
         else if spec = ''-'' then known (bt_previous t)
         else if spec \<noteq> [] \<and> hd spec = CHR ''?'' then resolve_textual t (tl spec) True job_id
         else if spec \<noteq> [] \<and> digit_byte (hd spec) then
           (case strtoul spec of
              (None, rest) \<Rightarrow> (JOBSPEC_INVALID, job_id)
            | (Some number, rest) \<Rightarrow>
                if rest \<noteq> [] \<or> number = 0 \<or> 2 ^ 32 - 1 < number then (JOBSPEC_INVALID, job_id)
                else known (of_nat number))
         else resolve_textual t spec False job_id)"

section \<open>Changes of a job by its id\<close>

definition gsh_background_mark_notified ::
  "gsh_background_table \<Rightarrow> uint32 \<Rightarrow> bool \<times> gsh_background_table" where
  "gsh_background_mark_notified t job_id =
    (case gsh_background_entry_for_id t job_id of
       None \<Rightarrow> (False, t)
     | Some (i, e) \<Rightarrow> (True, t\<lparr>bt_entries := (bt_entries t)[i := e\<lparr>be_notified := True\<rparr>]\<rparr>))"

definition make_current :: "gsh_background_table \<Rightarrow> uint32 \<Rightarrow> gsh_background_table" where
  "make_current t job_id =
    (if bt_current t \<noteq> job_id then t\<lparr>bt_previous := bt_current t, bt_current := job_id\<rparr> else t)"

definition gsh_background_continue_job ::
  "gsh_background_table \<Rightarrow> uint32 \<Rightarrow> bool \<times> gsh_background_table" where
  "gsh_background_continue_job t job_id =
    (case gsh_background_entry_for_id t job_id of
       None \<Rightarrow> (False, t)
     | Some (i, e) \<Rightarrow>
         if be_state e = JOB_DONE then (False, t)
         else (True, make_current (t\<lparr>bt_entries := (bt_entries t)[i := e
           \<lparr>be_member_states := map (\<lambda>s. if s = 1 then 0 else s) (be_member_states e),
            be_state := JOB_RUNNING, be_notified := False\<rparr>]\<rparr>) job_id))"

definition gsh_background_stop_job ::
  "gsh_background_table \<Rightarrow> uint32 \<Rightarrow> bool \<times> gsh_background_table" where
  "gsh_background_stop_job t job_id =
    (case gsh_background_entry_for_id t job_id of
       None \<Rightarrow> (False, t)
     | Some (i, e) \<Rightarrow>
         if be_state e = JOB_DONE then (False, t)
         else (True, make_current (t\<lparr>bt_entries := (bt_entries t)[i := e
           \<lparr>be_member_states := map (\<lambda>s. if s \<noteq> 2 then 1 else s) (be_member_states e),
            be_state := JOB_STOPPED, be_notified := False\<rparr>]\<rparr>) job_id))"

definition gsh_background_remove_job ::
  "gsh_background_table \<Rightarrow> uint32 \<Rightarrow> bool \<times> gsh_background_table" where
  "gsh_background_remove_job t job_id =
    (case gsh_background_entry_for_id t job_id of
       None \<Rightarrow> (False, t)
     | Some (i, e) \<Rightarrow>
         (True, refresh_current_jobs (trim_entries (t\<lparr>bt_entries := (bt_entries t)
            [i := e\<lparr>be_command := [], be_known := False\<rparr>]\<rparr>))))"

definition gsh_background_marker :: "gsh_background_table \<Rightarrow> uint32 \<Rightarrow> byte" where
  "gsh_background_marker t job_id =
    (if bt_current t = job_id then CHR ''+''
     else if bt_previous t = job_id then CHR ''-'' else CHR '' '')"

section \<open>Reports in any order\<close>

text \<open>
  What both accumulators promise their callers, who learn of the ends of processes in whatever
  order the kernel reports them: reports of different sources commute. Then the state after a
  group of reports, one per source, does not depend on the order they come in.
\<close>

locale collector =
  fixes step :: "'e \<Rightarrow> 's \<Rightarrow> 's" and source :: "'e \<Rightarrow> 'k" and fits :: "'e \<Rightarrow> bool"
  assumes commute: "fits e \<Longrightarrow> fits f \<Longrightarrow> source e \<noteq> source f \<Longrightarrow>
    step e (step f s) = step f (step e s)"
begin

lemma any_order:
  assumes "mset es = mset fs" "distinct (map source es)" "\<forall>e\<in>set es. fits e"
  shows "fold step es s = fold step fs s"
proof (rule fold_permuted_eq[where P = "\<lambda>_. True"])
  fix e f s
  assume "e \<in> set es" "f \<in> set es"
  then have "e = f \<or> source e \<noteq> source f"
    using assms(2) by (auto simp: distinct_map inj_on_def)
  then show "step e (step f s) = step f (step e s)"
    using assms(3) \<open>e \<in> set es\<close> \<open>f \<in> set es\<close> commute by auto
qed (use assms in auto)

end

text \<open>A report to the pipeline is the index of a command and its wait status.\<close>

definition pipeline_step :: "nat \<times> int \<Rightarrow> gsh_pipeline_status \<Rightarrow> gsh_pipeline_status" where
  "pipeline_step e s = snd (gsh_pipeline_status_record s (fst e) (snd e))"

definition pipeline_accepts :: "nat \<times> int \<Rightarrow> gsh_pipeline_status \<Rightarrow> bool" where
  "pipeline_accepts e s \<longleftrightarrow> fst e < pl_command_count s \<and> terminal_status (snd e)"

lemma pipeline_step_fields:
  "pl_command_count (pipeline_step e s) = pl_command_count s"
  "pl_pipefail (pipeline_step e s) = pl_pipefail s"
  "pl_last (pipeline_step e s) =
    (if pipeline_accepts e s \<and> fst e + 1 = pl_command_count s then snd e else pl_last s)"
  "pl_last_known (pipeline_step e s) \<longleftrightarrow>
    pl_last_known s \<or> pipeline_accepts e s \<and> fst e + 1 = pl_command_count s"
  "pl_selected_known (pipeline_step e s) \<longleftrightarrow>
    pl_selected_known s \<or> pipeline_accepts e s \<and> pl_pipefail s \<and> wait_status_nonzero (snd e)"
  "pl_selected (pipeline_step e s) =
    (if pipeline_accepts e s \<and> pl_pipefail s \<and> wait_status_nonzero (snd e) \<and>
        (\<not> pl_selected_known s \<or> pl_rightmost_nonzero s < fst e) then snd e else pl_selected s)"
  "pl_rightmost_nonzero (pipeline_step e s) =
    (if pipeline_accepts e s \<and> pl_pipefail s \<and> wait_status_nonzero (snd e) \<and>
        (\<not> pl_selected_known s \<or> pl_rightmost_nonzero s < fst e) then fst e
     else pl_rightmost_nonzero s)"
  by (auto simp: pipeline_step_def gsh_pipeline_status_record_def pipeline_accepts_def
      terminal_status_def Let_def)

lemma pipeline_accepts_step [simp]: "pipeline_accepts e (pipeline_step f s) = pipeline_accepts e s"
  by (simp add: pipeline_accepts_def pipeline_step_fields)

lemma pipeline_commute:
  assumes "fst e \<noteq> fst f"
  shows "pipeline_step e (pipeline_step f s) = pipeline_step f (pipeline_step e s)"
proof (rule gsh_pipeline_status.equality)
  show "pl_rightmost_nonzero (pipeline_step e (pipeline_step f s)) =
    pl_rightmost_nonzero (pipeline_step f (pipeline_step e s))"
    using assms by (simp add: pipeline_step_fields) linarith
  show "pl_selected (pipeline_step e (pipeline_step f s)) =
    pl_selected (pipeline_step f (pipeline_step e s))"
    using assms by (simp add: pipeline_step_fields) linarith
qed (use assms in \<open>auto simp: pipeline_step_fields\<close>)

interpretation pipeline: collector pipeline_step fst "\<lambda>e. terminal_status (snd e)"
  by unfold_locales (rule pipeline_commute)

text \<open>The status a pipeline has by POSIX, from the wait statuses of its commands.\<close>

definition pipeline_outcome :: "bool \<Rightarrow> int list \<Rightarrow> int" where
  "pipeline_outcome pipefail ws =
    (if pipefail \<and> filter wait_status_nonzero ws \<noteq> [] then last (filter wait_status_nonzero ws)
     else last ws)"

definition in_order :: "int list \<Rightarrow> (nat \<times> int) list" where
  "in_order ws = zip [0..<length ws] ws"

lemma in_order_snoc: "in_order (ws @ [w]) = in_order ws @ [(length ws, w)]"
  by (simp add: in_order_def)

definition pipeline_read :: "nat \<Rightarrow> bool \<Rightarrow> int list \<Rightarrow> gsh_pipeline_status \<Rightarrow> bool" where
  "pipeline_read n pipefail ws s \<longleftrightarrow>
    pl_command_count s = n \<and> pl_pipefail s = pipefail \<and>
    (pl_last_known s \<longleftrightarrow> length ws = n) \<and> (pl_last_known s \<longrightarrow> pl_last s = last ws) \<and>
    (pl_selected_known s \<longleftrightarrow> pipefail \<and> filter wait_status_nonzero ws \<noteq> []) \<and>
    (pl_selected_known s \<longrightarrow>
       pl_selected s = last (filter wait_status_nonzero ws) \<and> pl_rightmost_nonzero s < length ws)"

lemma pipeline_read_step:
  assumes "pipeline_read n pipefail ws s" "length ws < n" "terminal_status w"
  shows "pipeline_read n pipefail (ws @ [w]) (pipeline_step (length ws, w) s)"
  using assms
  by (auto simp: pipeline_read_def pipeline_step_def gsh_pipeline_status_record_def
      terminal_status_def)

lemma pipeline_read_in_order:
  assumes "length ws \<le> n" "n \<noteq> 0" "list_all terminal_status ws"
  shows "pipeline_read n pipefail ws
    (fold pipeline_step (in_order ws) (gsh_pipeline_status_initialize n pipefail))"
  using assms
proof (induction ws rule: rev_induct)
  case Nil
  then show ?case by (simp add: pipeline_read_def in_order_def gsh_pipeline_status_initialize_def)
next
  case (snoc w ws)
  then show ?case using pipeline_read_step[of n pipefail ws _ w] by (simp add: in_order_snoc)
qed

lemma pipeline_read_result:
  assumes "pipeline_read n pipefail ws s" "length ws = n" "n \<noteq> 0"
  shows "gsh_pipeline_status_result s = Some (pipeline_outcome pipefail ws)"
  using assms
  by (auto simp: pipeline_read_def gsh_pipeline_status_result_def pipeline_outcome_def)

lemma map_fst_in_order [simp]: "map fst (in_order ws) = [0..<length ws]"
  by (simp add: in_order_def)

lemma in_order_terminal:
  "list_all terminal_status ws \<Longrightarrow> \<forall>e\<in>set (in_order ws). terminal_status (snd e)"
  by (auto simp: in_order_def list_all_iff dest: set_zip_rightD)

lemma pipeline_reports:
  assumes "mset es = mset (in_order ws)" "ws \<noteq> []" "list_all terminal_status ws"
  shows "pipeline_read (length ws) pipefail ws
    (fold pipeline_step es (gsh_pipeline_status_initialize (length ws) pipefail))"
proof -
  have "mset (map fst es) = mset [0..<length ws]"
    using arg_cong[OF assms(1), of "image_mset fst"] by (simp flip: mset_map)
  then have "distinct (map fst es)" by (metis distinct_upt mset_eq_imp_distinct_iff)
  moreover have "\<forall>e\<in>set es. terminal_status (snd e)"
    using in_order_terminal[OF assms(3)] mset_eq_setD[OF assms(1)] by simp
  ultimately show ?thesis
    using pipeline.any_order[OF assms(1)] pipeline_read_in_order[of ws "length ws"] assms(2,3)
    by simp
qed

section \<open>Reports to the table\<close>

definition table_report :: "int \<times> int \<Rightarrow> gsh_background_table \<Rightarrow> gsh_background_table" where
  "table_report e t = snd (gsh_background_update_member t (fst e) (snd e))"

lemma member_index_SomeD:
  "member_index k ms pid = Some i \<Longrightarrow> \<exists>j. i = k + j \<and> j < length ms \<and> ms ! j = pid"
proof (induction ms arbitrary: k)
  case (Cons m ms)
  show ?case
  proof (cases "m = pid")
    case True
    then show ?thesis using Cons.prems by (intro exI[of _ 0]) simp
  next
    case False
    then obtain j where "i = Suc k + j" "j < length ms" "ms ! j = pid"
      using Cons.IH[of "Suc k"] Cons.prems by auto
    then show ?thesis by (intro exI[of _ "Suc j"]) simp
  qed
qed simp

lemma member_index_None: "member_index k ms pid = None \<longleftrightarrow> pid \<notin> set ms"
  by (induction ms arbitrary: k) auto

definition holds_member :: "gsh_background_entry \<Rightarrow> nat \<Rightarrow> int \<Rightarrow> bool" where
  "holds_member e m pid \<longleftrightarrow> be_known e \<and> m < length (be_members e) \<and> be_members e ! m = pid"

lemma member_index_holds:
  "be_known e \<Longrightarrow> member_index 0 (be_members e) pid = Some m \<Longrightarrow> holds_member e m pid"
  using member_index_SomeD[of 0 "be_members e" pid m] by (auto simp: holds_member_def)

lemma locate_member_SomeD:
  "locate_member k es pid = Some (i, m) \<Longrightarrow>
    \<exists>j. i = k + j \<and> j < length es \<and> holds_member (es ! j) m pid"
proof (induction es arbitrary: k)
  case (Cons e es)
  show ?case
  proof (cases "be_known e \<and> pid \<in> set (be_members e)")
    case True
    then have "member_index 0 (be_members e) pid \<noteq> None" by (simp add: member_index_None)
    then obtain n where n: "member_index 0 (be_members e) pid = Some n" by blast
    then have "i = k" "m = n" using True Cons.prems by auto
    then show ?thesis using True member_index_holds[OF _ n] by (intro exI[of _ 0]) simp
  next
    case False
    then have "locate_member (Suc k) es pid = Some (i, m)"
      using Cons.prems member_index_None[of 0 "be_members e" pid]
      by (auto split: if_splits option.splits)
    from Cons.IH[OF this] obtain j
      where "i = Suc k + j" "j < length es" "holds_member (es ! j) m pid" by blast
    then show ?thesis by (intro exI[of _ "Suc j"]) simp
  qed
qed simp

lemma locate_member_located:
  "locate_member 0 es pid = Some (i, m) \<Longrightarrow> i < length es \<and> holds_member (es ! i) m pid"
  using locate_member_SomeD[of 0 es pid i m] by simp

abbreviation (input) member_view :: "gsh_background_entry \<Rightarrow> bool \<times> int list" where
  "member_view e \<equiv> (be_known e, be_members e)"

lemma locate_member_cong:
  "map member_view es = map member_view fs \<Longrightarrow> locate_member k es pid = locate_member k fs pid"
proof (induction es arbitrary: fs k)
  case (Cons e es)
  then obtain f fs' where "fs = f # fs'" by (cases fs) auto
  then show ?case using Cons by (auto split: option.splits)
qed simp

lemma mark_exited_fields [simp]:
  "be_known (mark_exited e m) = be_known e" "be_members (mark_exited e m) = be_members e"
  "be_job_id (mark_exited e m) = be_job_id e" "be_sequence (mark_exited e m) = be_sequence e"
  "be_pipeline (mark_exited e m) = be_pipeline e" "be_state (mark_exited e m) = be_state e"
  "be_done (mark_exited e m) = be_done e" "be_notified (mark_exited e m) = be_notified e"
  "be_wait_status (mark_exited e m) = be_wait_status e"
  "length (be_member_states (mark_exited e m)) = length (be_member_states e)"
  by (simp_all add: mark_exited_def)

lemma record_exit_fields [simp]:
  "be_known (record_exit e m w) = be_known e" "be_members (record_exit e m w) = be_members e"
  "be_job_id (record_exit e m w) = be_job_id e" "be_sequence (record_exit e m w) = be_sequence e"
  "be_member_states (record_exit e m w) = be_member_states e"
  "be_remaining (record_exit e m w) = be_remaining e" "be_state (record_exit e m w) = be_state e"
  "be_done (record_exit e m w) = be_done e" "be_notified (record_exit e m w) = be_notified e"
  "be_wait_status (record_exit e m w) = be_wait_status e"
  by (simp_all add: record_exit_def)

lemma finish_entry_fields [simp]:
  "be_known (finish_entry e) = be_known e" "be_members (finish_entry e) = be_members e"
  "be_job_id (finish_entry e) = be_job_id e" "be_sequence (finish_entry e) = be_sequence e"
  "be_member_states (finish_entry e) = be_member_states e"
  "be_remaining (finish_entry e) = be_remaining e" "be_pipeline (finish_entry e) = be_pipeline e"
  by (simp_all add: finish_entry_def)

lemma exit_member_keeps [simp]:
  "be_known (exit_member e m w) = be_known e" "be_members (exit_member e m w) = be_members e"
  "be_job_id (exit_member e m w) = be_job_id e" "be_sequence (exit_member e m w) = be_sequence e"
  "length (be_member_states (exit_member e m w)) = length (be_member_states e)"
  by (simp_all add: exit_member_def)

lemma terminal_not_stopped: "terminal_status w \<Longrightarrow> \<not> WIFSTOPPED w"
proof -
  have "w AND 127 = (w AND 255) AND 127" by (simp add: and.assoc)
  then show "terminal_status w \<Longrightarrow> \<not> WIFSTOPPED w"
    by (auto simp: terminal_status_def WIFEXITED_def WIFSIGNALED_def WIFSTOPPED_def)
qed

lemma terminal_not_continued: "terminal_status w \<Longrightarrow> \<not> WIFCONTINUED w"
  by (auto simp: terminal_status_def WIFEXITED_def WIFSIGNALED_def WIFCONTINUED_def)

lemma update_entry_terminal:
  assumes "terminal_status w"
  shows "update_entry t i m w =
    t\<lparr>bt_entries := (bt_entries t)[i := exit_member (bt_entries t ! i) m w]\<rparr>"
  using assms terminal_not_stopped[OF assms] terminal_not_continued[OF assms]
  by (simp add: update_entry_def Let_def terminal_status_def)

lemma table_report_terminal:
  assumes "terminal_status (snd e)"
  shows "table_report e t =
    (if GSH_BACKGROUND_CAP < length (bt_entries t) then t
     else case locate_member 0 (bt_entries t) (fst e) of
       None \<Rightarrow> t
     | Some (i, m) \<Rightarrow>
         t\<lparr>bt_entries := (bt_entries t)[i := exit_member (bt_entries t ! i) m (snd e)]\<rparr>)"
  using assms
  by (auto simp: table_report_def gsh_background_update_member_def update_entry_terminal
      split: option.splits)

lemma member_view_update:
  "member_view e = member_view (es ! i) \<Longrightarrow> map member_view (es[i := e]) = map member_view es"
  by (cases "i < length es") (simp_all add: map_update list_update_same_conv list_update_beyond)

lemma locate_after_report:
  assumes "terminal_status (snd e)"
  shows "locate_member k (bt_entries (table_report e t)) pid = locate_member k (bt_entries t) pid"
    "length (bt_entries (table_report e t)) = length (bt_entries t)"
proof -
  have "map member_view (bt_entries (table_report e t)) = map member_view (bt_entries t)"
    using assms by (auto simp: table_report_terminal member_view_update split: option.splits)
  then show "locate_member k (bt_entries (table_report e t)) pid = locate_member k (bt_entries t) pid"
    "length (bt_entries (table_report e t)) = length (bt_entries t)"
    by (auto intro: locate_member_cong dest: map_eq_imp_length_eq)
qed

lemma mark_record: "mark_exited (record_exit e m w) n = record_exit (mark_exited e n) m w"
  by (simp add: mark_exited_def record_exit_def)

lemma mark_mark:
  "m \<noteq> n \<Longrightarrow> mark_exited (mark_exited e m) n = mark_exited (mark_exited e n) m"
  by (simp add: mark_exited_def list_update_swap)

lemma record_exit_step:
  "record_exit e m w =
    (if m < pl_command_count (be_pipeline e)
     then e\<lparr>be_pipeline := pipeline_step (m, w) (be_pipeline e)\<rparr> else e)"
  by (simp add: record_exit_def pipeline_step_def)

lemma record_record:
  assumes "m \<noteq> n"
  shows "record_exit (record_exit e m w) n v = record_exit (record_exit e n v) m w"
proof -
  define c where "c = pl_command_count (be_pipeline e)"
  have step: "pipeline_step (n, v) (pipeline_step (m, w) (be_pipeline e)) =
      pipeline_step (m, w) (pipeline_step (n, v) (be_pipeline e))"
    using assms by (intro pipeline_commute) simp
  have R: "record_exit e' k u = (if k < c
      then e'\<lparr>be_pipeline := pipeline_step (k, u) (be_pipeline e')\<rparr> else e')"
    if "pl_command_count (be_pipeline e') = c" for e' k u
    using that by (simp add: record_exit_step)
  have C: "pl_command_count (be_pipeline (e\<lparr>be_pipeline := pipeline_step d (be_pipeline e)\<rparr>)) = c"
    for d
    by (simp add: c_def pipeline_step_fields)
  show ?thesis
    by (cases "m < c"; cases "n < c") (simp_all only: R[OF c_def[symmetric]] if_True if_False R[OF C],
      simp_all add: step)
qed

lemma other_fields [simp]:
  "be_pid (mark_exited e m) = be_pid e" "be_pgid (mark_exited e m) = be_pgid e"
  "be_status_pid (mark_exited e m) = be_status_pid e" "be_origin (mark_exited e m) = be_origin e"
  "be_foreground (mark_exited e m) = be_foreground e"
  "be_terminal_owned (mark_exited e m) = be_terminal_owned e"
  "be_consumed (mark_exited e m) = be_consumed e" "be_command (mark_exited e m) = be_command e"
  "be_pid (record_exit e m w) = be_pid e" "be_pgid (record_exit e m w) = be_pgid e"
  "be_status_pid (record_exit e m w) = be_status_pid e" "be_origin (record_exit e m w) = be_origin e"
  "be_foreground (record_exit e m w) = be_foreground e"
  "be_terminal_owned (record_exit e m w) = be_terminal_owned e"
  "be_consumed (record_exit e m w) = be_consumed e" "be_command (record_exit e m w) = be_command e"
  "be_pid (finish_entry e) = be_pid e" "be_pgid (finish_entry e) = be_pgid e"
  "be_status_pid (finish_entry e) = be_status_pid e" "be_origin (finish_entry e) = be_origin e"
  "be_foreground (finish_entry e) = be_foreground e"
  "be_terminal_owned (finish_entry e) = be_terminal_owned e"
  "be_consumed (finish_entry e) = be_consumed e" "be_command (finish_entry e) = be_command e"
  by (simp_all add: mark_exited_def record_exit_def finish_entry_def)

lemma mark_exited_cells:
  "be_member_states (mark_exited e m) = (be_member_states e)[m := 2]"
  "be_remaining (mark_exited e m) = be_remaining e - (if be_member_states e ! m \<noteq> 2 then 1 else 0)"
proof -
  have "be_member_states e ! m = 2 \<Longrightarrow> (be_member_states e)[m := 2] = be_member_states e"
    by (metis list_update_id)
  then show "be_member_states (mark_exited e m) = (be_member_states e)[m := 2]"
    by (simp add: mark_exited_def)
qed (simp add: mark_exited_def)

lemma be_pipeline_record_exit:
  "be_pipeline (record_exit e m w) =
    (if m < pl_command_count (be_pipeline e) then pipeline_step (m, w) (be_pipeline e)
     else be_pipeline e)"
  by (simp add: record_exit_step)

lemma finish_entry_done:
  assumes "be_remaining e = 0"
  shows "be_state (finish_entry e) = JOB_DONE" "be_done (finish_entry e)"
    "\<not> be_notified (finish_entry e)"
    "be_wait_status (finish_entry e) = (case gsh_pipeline_status_result (be_pipeline e) of
       Some result \<Rightarrow> result | None \<Rightarrow> push_bit 8 125)"
  using assms by (simp_all add: finish_entry_def)

lemma finish_absorb:
  "finish_entry (record_exit (mark_exited (finish_entry e) m) m w) =
   finish_entry (record_exit (mark_exited e m) m w)"
proof (cases "be_remaining e = 0")
  case True
  then show ?thesis
    by (intro gsh_background_entry.equality)
       (simp_all add: finish_entry_done mark_exited_cells be_pipeline_record_exit)
qed (simp add: finish_entry_def)

lemma exit_member_commute:
  assumes "m \<noteq> n"
  shows "exit_member (exit_member e m w) n v = exit_member (exit_member e n v) m w"
  using assms
  by (simp add: exit_member_def finish_absorb mark_record mark_mark[of m n] record_record[of m n])

definition located :: "gsh_background_table \<Rightarrow> int \<Rightarrow> (nat \<times> nat) option" where
  "located t pid = (if GSH_BACKGROUND_CAP < length (bt_entries t) then None
    else locate_member 0 (bt_entries t) pid)"

lemma table_report_None: "located t (fst e) = None \<Longrightarrow> table_report e t = t"
  by (auto simp: located_def table_report_def gsh_background_update_member_def split: if_splits)

lemma table_report_Some:
  "terminal_status (snd e) \<Longrightarrow> located t (fst e) = Some (i, m) \<Longrightarrow>
   table_report e t = t\<lparr>bt_entries := (bt_entries t)[i := exit_member (bt_entries t ! i) m (snd e)]\<rparr>"
  by (simp add: located_def table_report_terminal split: if_splits)

lemma located_after: "terminal_status (snd e) \<Longrightarrow> located (table_report e t) pid = located t pid"
  by (simp add: located_def locate_after_report)

lemma locatedD: "located t pid = Some (i, m) \<Longrightarrow>
  i < length (bt_entries t) \<and> holds_member (bt_entries t ! i) m pid"
  by (simp add: located_def locate_member_located split: if_splits)

lemma table_report_commute:
  assumes ok: "terminal_status (snd e)" "terminal_status (snd f)" and differ: "fst e \<noteq> fst f"
  shows "table_report e (table_report f t) = table_report f (table_report e t)"
proof (cases "located t (fst e)")
  case None
  then show ?thesis by (simp add: table_report_None located_after[OF ok(2)])
next
  case e: (Some im)
  show ?thesis
  proof (cases "located t (fst f)")
    case None
    then show ?thesis by (simp add: table_report_None located_after[OF ok(1)])
  next
    case f: (Some jn)
    obtain i m j n where ij: "im = (i, m)" "jn = (j, n)" by (cases im; cases jn)
    have "i < length (bt_entries t)" "j < length (bt_entries t)" "i = j \<Longrightarrow> m \<noteq> n"
      using locatedD[of t "fst e" i m] locatedD[of t "fst f" j n] e f ij differ
      by (auto simp: holds_member_def)
    moreover have
      "table_report e t =
        t\<lparr>bt_entries := (bt_entries t)[i := exit_member (bt_entries t ! i) m (snd e)]\<rparr>"
      "table_report f t =
        t\<lparr>bt_entries := (bt_entries t)[j := exit_member (bt_entries t ! j) n (snd f)]\<rparr>"
      using e f ij table_report_Some ok by auto
    moreover have
      "table_report e (table_report f t) = table_report f t\<lparr>bt_entries :=
        (bt_entries (table_report f t))[i :=
          exit_member (bt_entries (table_report f t) ! i) m (snd e)]\<rparr>"
      "table_report f (table_report e t) = table_report e t\<lparr>bt_entries :=
        (bt_entries (table_report e t))[j :=
          exit_member (bt_entries (table_report e t) ! j) n (snd f)]\<rparr>"
      using e f ij located_after ok by (intro table_report_Some; simp)+
    ultimately show ?thesis
      by (cases "i = j") (simp_all add: list_update_swap exit_member_commute[of m n])
  qed
qed

interpretation table: collector table_report fst "\<lambda>e. terminal_status (snd e)"
  by unfold_locales (rule table_report_commute)

end
