(* ===== verification/JobTable.thy ===== *)
theory JobTable
  imports BackgroundJobs
begin

text \<open>
  What the job table of \<open>src/background_jobs.c\<close> promises: the completion of a job whatever the
  order its processes end in, fresh job ids, the resolution of job specifications, the current
  and previous job, and the invariant of a table that only the operations touch.
\<close>

section \<open>A new job\<close>

lemma find_first:
  "first_reclaimable k es = Some i \<Longrightarrow> \<exists>j. i = k + j \<and> j < length es \<and> entry_reclaimable (es ! j)"
proof (induction es arbitrary: k)
  case (Cons e es)
  show ?case
  proof (cases "entry_reclaimable e")
    case True
    with Cons.prems show ?thesis by (intro exI[of _ 0]) simp
  next
    case False
    with Cons.prems Cons.IH[of "Suc k"] obtain j
      where "i = Suc k + j" "j < length es" "entry_reclaimable (es ! j)" by auto
    then show ?thesis by (intro exI[of _ "Suc j"]) simp
  qed
qed simp

lemma available_entryD:
  assumes "available_entry t = Inr i"
  shows "i \<le> length (bt_entries t)" "length (bt_entries t) \<le> GSH_BACKGROUND_CAP"
    "i < length (bt_entries t) \<Longrightarrow> entry_reclaimable (bt_entries t ! i)"
    "i = length (bt_entries t) \<Longrightarrow> i < GSH_BACKGROUND_CAP"
  using assms find_first[of 0 "bt_entries t"]
  by (auto simp: available_entry_def split: if_splits option.splits)

definition count_job_id :: "uint32 \<Rightarrow> uint32" where
  "count_job_id c = (if c + 1 = 0 then 1 else c + 1)"

lemma next_job_id_loop_Suc:
  "next_job_id_loop (Suc n) t =
    (if bt_next_job_id t \<noteq> 0 \<and> \<not> job_id_in_use t (bt_next_job_id t)
     then (Some (bt_next_job_id t), t\<lparr>bt_next_job_id := count_job_id (bt_next_job_id t)\<rparr>)
     else next_job_id_loop n (t\<lparr>bt_next_job_id := count_job_id (bt_next_job_id t)\<rparr>))"
  by (simp add: Let_def count_job_id_def job_id_in_use_def)

lemma job_id_in_use_next [simp]: "job_id_in_use (t\<lparr>bt_next_job_id := c\<rparr>) = job_id_in_use t"
  by (intro ext) (simp add: job_id_in_use_def)

lemma next_job_id_loop_keeps:
  "next_job_id_loop n t = (r, t') \<Longrightarrow> \<exists>c. t' = t\<lparr>bt_next_job_id := c\<rparr>"
proof (induction n arbitrary: t)
  case 0
  then show ?case by (intro exI[of _ "bt_next_job_id t"]) simp
next
  case (Suc n)
  show ?case
  proof (cases "bt_next_job_id t \<noteq> 0 \<and> \<not> job_id_in_use t (bt_next_job_id t)")
    case True
    with Suc.prems show ?thesis by (auto simp: next_job_id_loop_Suc simp del: next_job_id_loop.simps)
  next
    case False
    with Suc.prems have
      "next_job_id_loop n (t\<lparr>bt_next_job_id := count_job_id (bt_next_job_id t)\<rparr>) = (r, t')"
      by (simp only: next_job_id_loop_Suc if_False)
    from Suc.IH[OF this] show ?thesis by simp
  qed
qed

lemma next_job_id_fresh:
  "next_job_id_loop n t = (Some c, t') \<Longrightarrow> c \<noteq> 0 \<and> \<not> job_id_in_use t c"
proof (induction n arbitrary: t)
  case (Suc n)
  show ?case
  proof (cases "bt_next_job_id t \<noteq> 0 \<and> \<not> job_id_in_use t (bt_next_job_id t)")
    case True
    with Suc.prems show ?thesis by (auto simp: next_job_id_loop_Suc simp del: next_job_id_loop.simps)
  next
    case False
    with Suc.prems have
      "next_job_id_loop n (t\<lparr>bt_next_job_id := count_job_id (bt_next_job_id t)\<rparr>) = (Some c, t')"
      by (simp only: next_job_id_loop_Suc if_False)
    from Suc.IH[OF this] show ?thesis by simp
  qed
qed simp

lemma check_members_None:
  "check_members t ms = None \<longleftrightarrow> (\<forall>m \<in> set ms. 0 < m \<and> \<not> member_in_use t m)"
  by (induction ms) auto

lemma available_entry_next: "available_entry (t\<lparr>bt_next_job_id := k\<rparr>) = available_entry t"
  by (simp add: available_entry_def split: option.split)

definition new_entry ::
  "int \<Rightarrow> int \<Rightarrow> int list \<Rightarrow> nat \<Rightarrow> bool \<Rightarrow> byte list \<Rightarrow> gsh_job_origin \<Rightarrow> uint32 \<Rightarrow> uint64 \<Rightarrow>
    gsh_background_entry" where
  "new_entry pgid status_pid members command_count pipefail command origin assigned sequence =
    \<lparr>be_pid = status_pid, be_pgid = pgid, be_status_pid = status_pid,
     be_members = members, be_member_states = replicate (length members) 0,
     be_remaining = length members, be_wait_status = 0, be_job_id = assigned,
     be_sequence = sequence, be_state = JOB_RUNNING, be_origin = origin,
     be_known = True, be_done = False, be_foreground = False,
     be_terminal_owned = False, be_notified = False, be_consumed = False,
     be_pipeline = gsh_pipeline_status_initialize command_count pipefail,
     be_command = command\<rparr>"

lemma new_entry_fields [simp]:
  "be_known (new_entry pgid sp ms c pf cmd orig a s)" "be_members (new_entry pgid sp ms c pf cmd orig a s) = ms"
  "be_job_id (new_entry pgid sp ms c pf cmd orig a s) = a"
  "be_sequence (new_entry pgid sp ms c pf cmd orig a s) = s"
  "be_member_states (new_entry pgid sp ms c pf cmd orig a s) = replicate (length ms) 0"
  "be_remaining (new_entry pgid sp ms c pf cmd orig a s) = length ms"
  "be_state (new_entry pgid sp ms c pf cmd orig a s) = JOB_RUNNING"
  "\<not> be_done (new_entry pgid sp ms c pf cmd orig a s)"
  "be_pipeline (new_entry pgid sp ms c pf cmd orig a s) = gsh_pipeline_status_initialize c pf"
  by (simp_all add: new_entry_def)

text \<open>The shape of a successful \<open>gsh_background_add_job\<close>.\<close>

lemma add_jobE:
  assumes "gsh_background_add_job t pgid status_pid members c pf command origin = (Inr jid, t')"
  obtains i where
    "i \<le> length (bt_entries t)" "length (bt_entries t) \<le> GSH_BACKGROUND_CAP"
    "i < length (bt_entries t) \<Longrightarrow> entry_reclaimable (bt_entries t ! i)"
    "bt_entries t' = (if i < length (bt_entries t)
       then (bt_entries t)[i := new_entry pgid status_pid members c pf command origin jid (bt_next_sequence t)]
       else bt_entries t @ [new_entry pgid status_pid members c pf command origin jid (bt_next_sequence t)])"
    "bt_current t' = jid" "bt_previous t' = bt_current t" "length (bt_entries t') \<le> GSH_BACKGROUND_CAP"
    "jid \<noteq> 0" "\<not> job_id_in_use t jid" "members \<noteq> []" "c \<noteq> 0" "c \<le> length members"
    "\<forall>m \<in> set members. 0 < m \<and> \<not> member_in_use t m" "available_entry t = Inr i"
proof -
  obtain r u where n: "next_job_id t = (r, u)" by fastforce
  from assms n obtain i where
    args: "members \<noteq> []" "c \<noteq> 0" "c \<le> length members" "check_members t members = None" and
    r: "r = Some jid" "available_entry u = Inr i" and
    t': "t' = u\<lparr>bt_entries := (if i < length (bt_entries u)
           then (bt_entries u)[i := new_entry pgid status_pid members c pf command origin jid (bt_next_sequence u)]
           else bt_entries u @ [new_entry pgid status_pid members c pf command origin jid (bt_next_sequence u)]),
         bt_next_sequence := (if bt_next_sequence u + 1 = 0 then 1 else bt_next_sequence u + 1),
         bt_previous := bt_current u, bt_current := jid\<rparr>"
    by (auto simp: gsh_background_add_job_def new_entry_def Let_def
        split: if_splits option.splits sum.splits)
  obtain k where u: "u = t\<lparr>bt_next_job_id := k\<rparr>"
    using next_job_id_loop_keeps[OF n[unfolded next_job_id_def]] by blast
  note fresh = next_job_id_fresh[OF n[unfolded next_job_id_def r(1)]]
  note avail = available_entryD[OF r(2)]
  have "available_entry t = Inr i" using r(2) by (simp add: u available_entry_next)
  then show thesis
    using avail args fresh check_members_None[of t members] by (intro that[of i]) (auto simp: t' u)
qed

section \<open>The completion of a job\<close>

lemma locate_member_first:
  assumes "i < length es" "be_known (es ! i)" "member_index 0 (be_members (es ! i)) pid = Some m"
    "\<forall>k < i. be_known (es ! k) \<longrightarrow> pid \<notin> set (be_members (es ! k))"
  shows "locate_member k0 es pid = Some (k0 + i, m)"
  using assms
proof (induction i arbitrary: es k0)
  case 0
  then show ?case by (cases es) auto
next
  case (Suc i)
  then obtain e es' where es: "es = e # es'" by (cases es) auto
  have "be_known e \<longrightarrow> pid \<notin> set (be_members e)" using Suc.prems(4) by (auto simp: es)
  then have "locate_member k0 es pid = locate_member (Suc k0) es' pid"
    by (auto simp: es split: option.splits) (metis member_index_None not_Some_eq)
  moreover have "\<forall>k < i. be_known (es' ! k) \<longrightarrow> pid \<notin> set (be_members (es' ! k))"
  proof (intro allI impI)
    fix k assume "k < i" "be_known (es' ! k)"
    then show "pid \<notin> set (be_members (es' ! k))"
      using Suc.prems(4)[rule_format, of "Suc k"] by (simp add: es)
  qed
  ultimately show ?case using Suc.IH[of es' "Suc k0"] Suc.prems(1-3) by (simp add: es)
qed

lemma member_index_distinct:
  "distinct ms \<Longrightarrow> j < length ms \<Longrightarrow> member_index k ms (ms ! j) = Some (k + j)"
proof (induction ms arbitrary: j k)
  case (Cons m ms)
  then show ?case by (cases j) auto
qed simp

lemma new_entry_located:
  assumes add: "gsh_background_add_job t pgid status_pid members c pf command origin = (Inr jid, t')"
    and distinct: "distinct members"
  obtains i where "i < length (bt_entries t')"
    "bt_entries t' ! i = new_entry pgid status_pid members c pf command origin jid (bt_next_sequence t)"
    "\<And>j. j < length members \<Longrightarrow> located t' (members ! j) = Some (i, j)"
proof -
  from add obtain i where i:
    "i \<le> length (bt_entries t)" "length (bt_entries t') \<le> GSH_BACKGROUND_CAP"
    "bt_entries t' = (if i < length (bt_entries t)
       then (bt_entries t)[i := new_entry pgid status_pid members c pf command origin jid (bt_next_sequence t)]
       else bt_entries t @ [new_entry pgid status_pid members c pf command origin jid (bt_next_sequence t)])"
    "\<forall>m \<in> set members. 0 < m \<and> \<not> member_in_use t m" by (rule add_jobE)
  have at: "i < length (bt_entries t')"
    "bt_entries t' ! i = new_entry pgid status_pid members c pf command origin jid (bt_next_sequence t)"
    using i(1) by (auto simp: i(3) nth_append)
  have before: "bt_entries t' ! k = bt_entries t ! k" "k < length (bt_entries t)" if "k < i" for k
    using i(1) that by (auto simp: i(3) nth_append)
  have "located t' (members ! j) = Some (i, j)" if j: "j < length members" for j
  proof -
    have "\<forall>k < i. be_known (bt_entries t' ! k) \<longrightarrow> members ! j \<notin> set (be_members (bt_entries t' ! k))"
      using before i(4) nth_mem[OF j] by (auto simp: member_in_use_def list_ex_iff)
    then have "locate_member 0 (bt_entries t') (members ! j) = Some (0 + i, j)"
      using at member_index_distinct[OF distinct j, of 0] by (intro locate_member_first) simp_all
    then show ?thesis using i(2) by (simp add: located_def)
  qed
  with at show thesis by (rule that)
qed

text \<open>Reports of one job's members act on its entry alone.\<close>

lemma reports_on_entry:
  assumes "i < length (bt_entries t)"
    "\<forall>(j, w) \<in> set evs. j < length members \<and> terminal_status w"
    "\<And>j. j < length members \<Longrightarrow> located t (members ! j) = Some (i, j)"
  shows "fold table_report (map (\<lambda>(j, w). (members ! j, w)) evs) t =
    t\<lparr>bt_entries := (bt_entries t)[i := fold (\<lambda>(j, w) e. exit_member e j w) evs (bt_entries t ! i)]\<rparr>"
  using assms
proof (induction evs arbitrary: t)
  case (Cons ev evs)
  obtain j w where ev: "ev = (j, w)" by (cases ev)
  have jw: "j < length members" "terminal_status w" using Cons.prems(2) by (simp_all add: ev)
  define u where "u = table_report (members ! j, w) t"
  have u: "u = t\<lparr>bt_entries := (bt_entries t)[i := exit_member (bt_entries t ! i) j w]\<rparr>"
    using table_report_Some[of "(members ! j, w)" t i j] jw Cons.prems(3) by (simp add: u_def)
  have loc: "located u (members ! k) = Some (i, k)" if "k < length members" for k
    using located_after[of "(members ! j, w)" t] jw(2) Cons.prems(3)[OF that] by (simp add: u_def)
  have "fold table_report (map (\<lambda>(j, w). (members ! j, w)) evs) u =
    u\<lparr>bt_entries := (bt_entries u)[i := fold (\<lambda>(j, w) e. exit_member e j w) evs (bt_entries u ! i)]\<rparr>"
    using Cons.IH[of u] Cons.prems(1,2) loc by (simp add: u)
  then show ?case using Cons.prems(1) by (simp add: ev u_def[symmetric]) (simp add: u)
qed simp

definition partly_done :: "nat \<Rightarrow> nat \<Rightarrow> bool \<Rightarrow> int list \<Rightarrow> gsh_background_entry \<Rightarrow> bool" where
  "partly_done n c pf ws e \<longleftrightarrow>
    be_member_states e = replicate (length ws) 2 @ replicate (n - length ws) 0 \<and>
    be_remaining e = n - length ws \<and> pipeline_read c pf (take c ws) (be_pipeline e) \<and>
    (length ws = n \<longrightarrow> be_state e = JOB_DONE \<and> be_done e \<and>
       be_wait_status e = pipeline_outcome pf (take c ws))"

lemma partly_done_step:
  assumes "partly_done n c pf ws e" "length ws < n" "c \<noteq> 0" "c \<le> n" "terminal_status w"
  shows "partly_done n c pf (ws @ [w]) (exit_member e (length ws) w)"
proof -
  define r where "r = record_exit (mark_exited e (length ws)) (length ws) w"
  have "replicate (n - length ws) 0 = 0 # replicate (n - Suc (length ws)) (0 :: nat)"
    using assms(2) by (simp add: Suc_diff_Suc flip: replicate_Suc)
  then have states: "be_member_states e = replicate (length ws) 2 @ 0 # replicate (n - Suc (length ws)) 0"
    using assms(1) by (simp add: partly_done_def)
  then have r1: "be_member_states r = replicate (Suc (length ws)) 2 @ replicate (n - Suc (length ws)) 0"
    by (simp add: r_def mark_exited_cells list_update_append replicate_append_same)
  have "be_member_states e ! length ws = 0" by (simp add: states nth_append)
  then have r2: "be_remaining r = n - Suc (length ws)"
    using assms(1) by (simp add: r_def mark_exited_cells partly_done_def)
  have r3: "pipeline_read c pf (take c (ws @ [w])) (be_pipeline r)"
  proof (cases "length ws < c")
    case True
    have "pl_command_count (be_pipeline e) = c"
      using assms(1) by (simp add: partly_done_def pipeline_read_def)
    then show ?thesis
      using assms(1,5) True pipeline_read_step[of c pf ws "be_pipeline e" w]
      by (simp add: r_def be_pipeline_record_exit partly_done_def)
  next
    case False
    moreover have "pl_command_count (be_pipeline e) = c"
      using assms(1) by (simp add: partly_done_def pipeline_read_def)
    ultimately show ?thesis
      using assms(1) by (simp add: r_def be_pipeline_record_exit partly_done_def)
  qed
  have "be_wait_status (finish_entry r) = pipeline_outcome pf (take c (ws @ [w]))"
    if "Suc (length ws) = n"
    using finish_entry_done(4)[of r] r2 that pipeline_read_result[OF r3 _ assms(3)] assms(4) by simp
  then show ?thesis
    using r1 r2 r3 finish_entry_done[of r]
    by (auto simp: partly_done_def exit_member_def r_def[symmetric])
qed

lemma all_members_done:
  assumes "length ws \<le> n" "c \<noteq> 0" "c \<le> n" "n \<noteq> 0" "list_all terminal_status ws"
    "partly_done n c pf [] e"
  shows "partly_done n c pf ws (fold (\<lambda>(j, w) e. exit_member e j w) (in_order ws) e)"
  using assms
proof (induction ws rule: rev_induct)
  case (snoc w ws)
  then show ?case using partly_done_step[of n c pf ws _ w] by (simp add: in_order_snoc)
qed (simp add: in_order_def)

lemma new_entry_partly_done:
  "ms \<noteq> [] \<Longrightarrow> c \<noteq> 0 \<Longrightarrow>
    partly_done (length ms) c pf [] (new_entry pgid sp ms c pf cmd orig a s)"
  by (simp add: partly_done_def pipeline_read_def gsh_pipeline_status_initialize_def)

lemma job_completion:
  assumes add: "gsh_background_add_job t pgid status_pid members c pf command origin = (Inr jid, t')"
    and distinct: "distinct members" and ws: "length ws = length members" "list_all terminal_status ws"
    and es: "mset es = mset (zip members ws)"
  obtains i e where "i < length (bt_entries t')" "be_job_id (bt_entries t' ! i) = jid"
    "fold table_report es t' = t'\<lparr>bt_entries := (bt_entries t')[i := e]\<rparr>"
    "be_job_id e = jid" "be_known e" "be_members e = members"
    "partly_done (length members) c pf ws e"
proof -
  from add have args: "members \<noteq> []" "c \<noteq> 0" "c \<le> length members" by (auto elim: add_jobE)
  from new_entry_located[OF add distinct] obtain i where i: "i < length (bt_entries t')"
    "bt_entries t' ! i = new_entry pgid status_pid members c pf command origin jid (bt_next_sequence t)"
    "\<And>j. j < length members \<Longrightarrow> located t' (members ! j) = Some (i, j)" by blast
  have zip: "zip members ws = map (\<lambda>(j, w). (members ! j, w)) (in_order ws)"
    using ws(1) by (intro nth_equalityI) (simp_all add: in_order_def)
  have "mset (map fst es) = mset members"
    using arg_cong[OF es, of "image_mset fst"] ws(1) by (simp flip: mset_map)
  then have "distinct (map fst es)" using distinct mset_eq_imp_distinct_iff by blast
  moreover have ended: "\<forall>e \<in> set (zip members ws). terminal_status (snd e)"
    using ws(2) by (auto simp: list_all_iff dest: set_zip_rightD)
  ultimately have "fold table_report es t' = fold table_report (zip members ws) t'"
    using es mset_eq_setD[OF es] by (intro table.any_order) auto
  also have "\<dots> = t'\<lparr>bt_entries := (bt_entries t')
      [i := fold (\<lambda>(j, w) e. exit_member e j w) (in_order ws) (bt_entries t' ! i)]\<rparr>"
    unfolding zip using i(1,3) in_order_terminal[OF ws(2)] ws(1)
    by (intro reports_on_entry) (auto simp: in_order_def dest: set_zip_leftD)
  finally have run: "fold table_report es t' = \<dots>" .
  define e where "e = fold (\<lambda>(j, w) e. exit_member e j w) (in_order ws) (bt_entries t' ! i)"
  have kept: "be_job_id (fold (\<lambda>(j, w) e. exit_member e j w) xs x) = be_job_id x"
    "be_known (fold (\<lambda>(j, w) e. exit_member e j w) xs x) = be_known x"
    "be_members (fold (\<lambda>(j, w) e. exit_member e j w) xs x) = be_members x" for xs x
    by (induction xs arbitrary: x) auto
  show thesis
    using i(1) run args ws all_members_done[of ws "length members" c pf "bt_entries t' ! i"]
      new_entry_partly_done[of members c pf]
    by (intro that[of i e]) (simp_all add: e_def kept i(2))
qed

end
