(* ===== verification/JobReach.thy ===== *)
theory JobReach
  imports JobTable
begin

text \<open>
  The reachable tables of \<open>src/background_jobs.c\<close>: one rule per operation, the invariant every
  operation keeps, fresh job ids, current and previous jobs, and the resolution of \<open>%\<close>
  specifications.
\<close>

section \<open>Fresh job ids\<close>

lemma loop_None:
  "next_job_id_loop n t = (None, t') \<Longrightarrow> i < n \<Longrightarrow>
    (count_job_id ^^ i) (bt_next_job_id t) = 0 \<or>
    job_id_in_use t ((count_job_id ^^ i) (bt_next_job_id t))"
proof (induction n arbitrary: t i)
  case (Suc n)
  then have taken: "bt_next_job_id t = 0 \<or> job_id_in_use t (bt_next_job_id t)"
    and rest: "next_job_id_loop n (t\<lparr>bt_next_job_id := count_job_id (bt_next_job_id t)\<rparr>) = (None, t')"
    by (auto simp: next_job_id_loop_Suc simp del: next_job_id_loop.simps split: if_splits)
  show ?case
  proof (cases i)
    case 0
    with taken show ?thesis by simp
  next
    case (Suc k)
    with Suc.IH[OF rest, of k] Suc.prems(2) show ?thesis by (simp add: funpow_swap1)
  qed
qed simp

lemma count_job_id_nonzero: "count_job_id c \<noteq> 0"
  by (simp add: count_job_id_def)

abbreviation (input) job_ids :: nat where "job_ids \<equiv> 4294967295"

lemma count_job_id_value:
  assumes "c \<noteq> 0"
  shows "unat (count_job_id c) - 1 = (unat c - 1 + 1) mod job_ids"
proof -
  have pos: "0 < unat c" using assms by (simp add: unat_gt_0)
  have less: "unat c < 4294967296" using unsigned_less[of c] by simp
  show ?thesis
  proof (cases "c + 1 = 0")
    case True
    then have "c = - 1" by (metis add.commute add_eq_0_iff)
    then have "unat c = job_ids" by (simp add: unsigned_minus_1_eq_mask mask_eq_exp_minus_1)
    with True show ?thesis by (simp add: count_job_id_def)
  next
    case False
    then have "unat (c + 1) = Suc (unat c)" by (metis Suc_eq_plus1 add.commute unatSuc)
    moreover have "unat (c + 1) < 4294967296" using unsigned_less[of "c + 1"] by simp
    ultimately show ?thesis using False pos by (simp add: count_job_id_def)
  qed
qed

lemma count_job_id_iterate:
  assumes "c \<noteq> 0"
  shows "(count_job_id ^^ i) c \<noteq> 0 \<and> unat ((count_job_id ^^ i) c) - 1 = (unat c - 1 + i) mod job_ids"
proof (induction i)
  case 0
  have "unat c < 4294967296" using unsigned_less[of c] by simp
  then show ?case using assms by (simp add: unat_gt_0)
next
  case (Suc i)
  then show ?case
    using count_job_id_value[of "(count_job_id ^^ i) c"]
    by (simp add: count_job_id_nonzero mod_Suc_eq)
qed

lemma count_job_id_distinct:
  assumes "c \<noteq> 0" "i < j" "j < job_ids"
  shows "(count_job_id ^^ i) c \<noteq> (count_job_id ^^ j) c"
proof
  assume "(count_job_id ^^ i) c = (count_job_id ^^ j) c"
  then have "(unat c - 1 + j) mod job_ids = (unat c - 1 + i) mod job_ids"
    using count_job_id_iterate[OF assms(1)] by metis
  then have "job_ids dvd (unat c - 1 + j) - (unat c - 1 + i)"
    using assms(2) by (subst (asm) mod_eq_dvd_iff_nat) auto
  then have "job_ids dvd j - i" by simp
  moreover have "0 < j - i" "j - i < job_ids" using assms(2,3) by auto
  ultimately show False using nat_dvd_not_less by blast
qed

lemma next_job_id_found:
  assumes "bt_next_job_id t \<noteq> 0" "length (bt_entries t) \<le> GSH_BACKGROUND_CAP"
  shows "\<exists>c t'. next_job_id t = (Some c, t')"
proof (rule ccontr)
  assume "\<not> ?thesis"
  then obtain t' where none: "next_job_id_loop (GSH_BACKGROUND_CAP + 1) t = (None, t')"
    by (metis next_job_id_def not_Some_eq prod.collapse)
  let ?f = "\<lambda>i. (count_job_id ^^ i) (bt_next_job_id t)"
  let ?ids = "be_job_id ` set (bt_entries t)"
  have "?f i \<in> ?ids" if "i < GSH_BACKGROUND_CAP + 1" for i
    using loop_None[OF none that] count_job_id_iterate[OF assms(1), of i] assms(2)
    by (auto simp: job_id_in_use_def list_ex_iff intro: rev_image_eqI)
  then have "?f ` {..< GSH_BACKGROUND_CAP + 1} \<subseteq> ?ids" by auto
  moreover have "inj_on ?f {..< GSH_BACKGROUND_CAP + 1}"
  proof (rule linorder_inj_onI)
    show "?f i \<noteq> ?f j" if "i < j" "i \<in> {..< GSH_BACKGROUND_CAP + 1}"
      "j \<in> {..< GSH_BACKGROUND_CAP + 1}" for i j
      using count_job_id_distinct[OF assms(1) that(1)] that(3) by simp
  qed auto
  ultimately have "GSH_BACKGROUND_CAP + 1 \<le> card ?ids"
    by (metis List.finite_set card_image card_lessThan card_mono finite_imageI)
  also have "\<dots> \<le> length (bt_entries t)"
    by (metis card_image_le card_length finite_set le_trans)
  finally show False using assms(2) by simp
qed

lemma available_when_capacity:
  "gsh_background_has_capacity t \<Longrightarrow> \<exists>i. available_entry t = Inr i"
proof -
  assume cap: "gsh_background_has_capacity t"
  have found: "\<exists>i. first_reclaimable k es = Some i" if "list_ex entry_reclaimable es" for k es
    using that by (induction k es rule: first_reclaimable.induct) auto
  show ?thesis
    using cap found[of "bt_entries t" 0]
    by (cases "first_reclaimable 0 (bt_entries t)")
       (auto simp: gsh_background_has_capacity_def available_entry_def)
qed

lemma add_job_total:
  assumes "0 < pgid" "0 < status_pid" "members \<noteq> []" "length members \<le> GSH_BACKGROUND_MEMBER_CAP"
    "c \<noteq> 0" "c \<le> length members" "length command < GSH_BACKGROUND_COMMAND_CAP"
    "\<forall>m \<in> set members. 0 < m \<and> \<not> member_in_use t m"
    "bt_next_job_id t \<noteq> 0" "gsh_background_has_capacity t"
  shows "\<exists>jid t'. gsh_background_add_job t pgid status_pid members c pf command origin = (Inr jid, t')"
proof -
  have len: "length (bt_entries t) \<le> GSH_BACKGROUND_CAP"
    using assms(10) by (simp add: gsh_background_has_capacity_def)
  obtain a u where n: "next_job_id t = (Some a, u)" using next_job_id_found[OF assms(9) len] by blast
  obtain k where u: "u = t\<lparr>bt_next_job_id := k\<rparr>"
    using next_job_id_loop_keeps[OF n[unfolded next_job_id_def]] by blast
  then have "gsh_background_has_capacity u" using assms(10) by (simp add: gsh_background_has_capacity_def)
  then obtain i where "available_entry u = Inr i" using available_when_capacity by blast
  moreover have "check_members t members = None" using assms(8) by (simp add: check_members_None)
  ultimately show ?thesis
    using assms(1-7) len n by (simp add: gsh_background_add_job_def Let_def not_le)
qed

section \<open>The current and the previous job\<close>

text \<open>
  \<open>newest_two S (newest, prior, current, previous)\<close>: the entries \<open>S\<close> seen so far have
  these two greatest sequence numbers, and the ids belong to them.
\<close>

definition newest_one :: "gsh_background_entry set \<Rightarrow> uint64 \<Rightarrow> uint32 \<Rightarrow> bool" where
  "newest_one S n j \<longleftrightarrow>
    (if S = {} then n = 0 \<and> j = 0
     else \<exists>e \<in> S. be_sequence e = n \<and> be_job_id e = j \<and> (\<forall>x \<in> S. be_sequence x \<le> n))"

definition newest_two :: "gsh_background_entry set \<Rightarrow> uint64 \<times> uint64 \<times> uint32 \<times> uint32 \<Rightarrow> bool" where
  "newest_two S st \<longleftrightarrow>
    (case st of (newest, prior, current, previous) \<Rightarrow>
       newest_one S newest current \<and>
       newest_one {e \<in> S. be_sequence e \<noteq> newest} prior previous)"

lemma newest_one_keep:
  "newest_one T m j \<Longrightarrow> T \<noteq> {} \<Longrightarrow> be_sequence e \<le> m \<Longrightarrow> newest_one (insert e T) m j"
  by (auto simp: newest_one_def)

lemma newest_two_step:
  assumes "newest_two S (n, p, c, r)" "be_sequence e \<noteq> 0" "be_sequence e \<notin> be_sequence ` S"
  shows "newest_two (insert e S)
    (if n < be_sequence e then (be_sequence e, n, be_job_id e, c)
     else if p < be_sequence e then (n, be_sequence e, c, be_job_id e)
     else (n, p, c, r))"
proof -
  have one: "newest_one S n c" and two: "newest_one {e \<in> S. be_sequence e \<noteq> n} p r"
    using assms(1) by (simp_all add: newest_two_def)
  have top: "\<forall>x \<in> S. be_sequence x \<le> n" using one by (auto simp: newest_one_def split: if_splits)
  have snd: "\<forall>x \<in> S. be_sequence x \<noteq> n \<longrightarrow> be_sequence x \<le> p"
    using two by (auto simp: newest_one_def split: if_splits)
  have differ: "\<forall>x \<in> S. be_sequence x \<noteq> be_sequence e" using assms(3) by (metis image_eqI)
  consider (first) "n < be_sequence e" | (second) "\<not> n < be_sequence e" "p < be_sequence e"
    | (none) "\<not> n < be_sequence e" "\<not> p < be_sequence e" by blast
  then show ?thesis
  proof cases
    case first
    have "{x \<in> insert e S. be_sequence x \<noteq> be_sequence e} = S" using differ by auto
    moreover have "newest_one (insert e S) (be_sequence e) (be_job_id e)"
      using top first by (auto simp: newest_one_def)
    ultimately show ?thesis using first one by (simp add: newest_two_def)
  next
    case second
    have "S \<noteq> {}"
    proof
      assume "S = {}"
      with one second(1) assms(2) show False by (simp add: newest_one_def word_gt_0)
    qed
    with one obtain b where b: "b \<in> S" "be_sequence b = n" by (auto simp: newest_one_def)
    then have ne: "be_sequence e \<noteq> n" using differ by auto
    have "newest_one (insert e S) n c"
      using one second(1) \<open>S \<noteq> {}\<close> by (auto simp: newest_one_def)
    moreover have "{x \<in> insert e S. be_sequence x \<noteq> n} = insert e {x \<in> S. be_sequence x \<noteq> n}"
      using ne by auto
    moreover have "newest_one (insert e {x \<in> S. be_sequence x \<noteq> n}) (be_sequence e) (be_job_id e)"
      using snd second(2) by (force simp: newest_one_def)
    ultimately show ?thesis using second by (simp add: newest_two_def)
  next
    case none
    have "S \<noteq> {}"
    proof
      assume "S = {}"
      with one none(1) assms(2) show False by (simp add: newest_one_def word_gt_0)
    qed
    with one obtain b where b: "b \<in> S" "be_sequence b = n" by (auto simp: newest_one_def)
    then have ne: "be_sequence e \<noteq> n" using differ by auto
    have "{x \<in> S. be_sequence x \<noteq> n} \<noteq> {}"
    proof
      assume "{x \<in> S. be_sequence x \<noteq> n} = {}"
      with two none(2) assms(2) show False by (simp add: newest_one_def word_gt_0)
    qed
    moreover have "{x \<in> insert e S. be_sequence x \<noteq> n} = insert e {x \<in> S. be_sequence x \<noteq> n}"
      using ne by auto
    moreover have "newest_one (insert e S) n c"
      using one \<open>S \<noteq> {}\<close> none(1) by (intro newest_one_keep) simp_all
    moreover have "newest_one (insert e {x \<in> S. be_sequence x \<noteq> n}) p r"
      using two calculation(1) none(2) by (intro newest_one_keep) simp_all
    ultimately show ?thesis using none by (simp add: newest_two_def)
  qed
qed

lemma refresh_scan_newest:
  assumes "newest_two S st" "\<forall>e \<in> set es. be_known e \<longrightarrow> be_sequence e \<noteq> 0"
    "distinct (map be_sequence (filter be_known es))"
    "be_sequence ` S \<inter> be_sequence ` set (filter be_known es) = {}"
    "refresh_scan es st = (current, previous)"
  shows "\<exists>n p. newest_two (S \<union> set (filter be_known es)) (n, p, current, previous)"
  using assms
proof (induction es arbitrary: S st)
  case Nil
  then show ?case by (cases st) auto
next
  case (Cons e es)
  obtain n p c r where st: "st = (n, p, c, r)" by (metis prod_cases4)
  show ?case
  proof (cases "be_known e")
    case False
    with Cons st show ?thesis by simp
  next
    case True
    define st' where "st' = (if n < be_sequence e then (be_sequence e, n, be_job_id e, c)
      else if p < be_sequence e then (n, be_sequence e, c, be_job_id e) else (n, p, c, r))"
    have "newest_two (insert e S) st'"
      unfolding st'_def using Cons.prems(1,2,4) True st by (intro newest_two_step) auto
    moreover have "refresh_scan es st' = (current, previous)"
      using Cons.prems(5) True by (simp add: st st'_def split: if_splits)
    moreover have "be_sequence ` insert e S \<inter> be_sequence ` set (filter be_known es) = {}"
      "distinct (map be_sequence (filter be_known es))"
      using Cons.prems(3,4) True by auto
    ultimately show ?thesis using Cons.IH[of "insert e S" st'] Cons.prems(2) True by simp
  qed
qed

lemma refresh_newest:
  assumes "\<forall>e \<in> set (bt_entries t). be_known e \<longrightarrow> be_sequence e \<noteq> 0"
    "distinct (map be_sequence (filter be_known (bt_entries t)))"
  obtains n p where
    "newest_two (set (filter be_known (bt_entries t)))
      (n, p, bt_current (refresh_current_jobs t), bt_previous (refresh_current_jobs t))"
proof -
  obtain c r where run: "refresh_scan (bt_entries t) (0, 0, 0, 0) = (c, r)" by fastforce
  have "newest_two {} (0, 0, 0, 0)" by (simp add: newest_two_def newest_one_def)
  from refresh_scan_newest[OF this assms _ run] obtain n p where
    "newest_two (set (filter be_known (bt_entries t))) (n, p, c, r)" by auto
  with run show thesis by (intro that) (simp add: refresh_current_jobs_def)
qed

section \<open>The invariant\<close>

definition live_members :: "gsh_background_entry \<Rightarrow> nat" where
  "live_members e = length (filter (\<lambda>s. s \<noteq> 2) (be_member_states e))"

definition entry_ok :: "gsh_background_entry \<Rightarrow> bool" where
  "entry_ok e \<longleftrightarrow> be_job_id e \<noteq> 0 \<and> length (be_member_states e) = length (be_members e) \<and>
    be_remaining e = live_members e \<and>
    (be_state e = JOB_DONE \<longleftrightarrow> live_members e = 0) \<and> (be_done e \<longleftrightarrow> live_members e = 0)"

definition table_ok :: "gsh_background_table \<Rightarrow> bool" where
  "table_ok t \<longleftrightarrow> length (bt_entries t) \<le> GSH_BACKGROUND_CAP \<and> bt_next_job_id t \<noteq> 0 \<and>
    (\<forall>e \<in> set (bt_entries t). be_known e \<longrightarrow> entry_ok e) \<and>
    distinct (map be_job_id (filter be_known (bt_entries t)))"

text \<open>The kernel reports a stop or a continuation only of a process that has not ended.\<close>

definition reportable :: "gsh_background_table \<Rightarrow> int \<Rightarrow> int \<Rightarrow> bool" where
  "reportable t pid w \<longleftrightarrow>
    (case located t pid of
       None \<Rightarrow> True
     | Some (i, m) \<Rightarrow>
         terminal_status w \<or> be_member_states (bt_entries t ! i) ! m \<noteq> 2)"

inductive job_reach :: "gsh_background_table \<Rightarrow> bool" where
  start: "job_reach (gsh_background_initialize t)"
| add: "job_reach t \<Longrightarrow>
    job_reach (snd (gsh_background_add_job t pgid status_pid members c pf command origin))"
| report: "job_reach t \<Longrightarrow> reportable t pid w \<Longrightarrow> job_reach (snd (gsh_background_record t pid w))"
| consume: "job_reach t \<Longrightarrow> job_reach (snd (gsh_background_consume t pid))"
| consume_all: "job_reach t \<Longrightarrow> job_reach (snd (gsh_background_consume_all_if_done t))"
| notified: "job_reach t \<Longrightarrow> job_reach (snd (gsh_background_mark_notified t j))"
| continue: "job_reach t \<Longrightarrow> job_reach (snd (gsh_background_continue_job t j))"
| stop: "job_reach t \<Longrightarrow> job_reach (snd (gsh_background_stop_job t j))"
| remove: "job_reach t \<Longrightarrow> job_reach (snd (gsh_background_remove_job t j))"

subsection \<open>Replacing an entry\<close>

lemma known_ids_view:
  "map be_job_id (filter be_known es) = map snd (filter fst (map (\<lambda>e. (be_known e, be_job_id e)) es))"
  by (induction es) auto

lemma known_ids_same:
  assumes "be_known e = be_known (es ! i)" "be_job_id e = be_job_id (es ! i)"
  shows "map be_job_id (filter be_known (es[i := e])) = map be_job_id (filter be_known es)"
proof (cases "i < length es")
  case True
  have "(be_known e, be_job_id e) = map (\<lambda>e. (be_known e, be_job_id e)) es ! i"
    using True assms by simp
  then have "map (\<lambda>e. (be_known e, be_job_id e)) (es[i := e]) = map (\<lambda>e. (be_known e, be_job_id e)) es"
    by (metis list_update_id map_update)
  then show ?thesis by (simp only: known_ids_view)
qed (simp add: list_update_beyond)

lemma known_ids_replace:
  assumes "i < length es"
  shows "map be_job_id (filter be_known (es[i := e])) =
    map be_job_id (filter be_known (take i es)) @ (if be_known e then [be_job_id e] else []) @
    map be_job_id (filter be_known (drop (Suc i) es))"
  using assms by (simp add: upd_conv_take_nth_drop)

lemma known_ids_forget:
  assumes "distinct (map be_job_id (filter be_known es))" "\<not> be_known e"
  shows "distinct (map be_job_id (filter be_known (es[i := e])))"
proof (cases "i < length es")
  case True
  have "map be_job_id (filter be_known es) = map be_job_id (filter be_known (es[i := es ! i]))"
    by simp
  then show ?thesis
    using assms unfolding known_ids_replace[OF True] by (auto split: if_splits)
qed (use assms in \<open>simp add: list_update_beyond\<close>)

lemma known_ids_fresh:
  assumes "distinct (map be_job_id (filter be_known es))" "i < length es"
    "\<forall>x \<in> set es. be_known x \<longrightarrow> be_job_id x \<noteq> be_job_id e"
  shows "distinct (map be_job_id (filter be_known (es[i := e])))"
proof -
  have "map be_job_id (filter be_known es) = map be_job_id (filter be_known (es[i := es ! i]))"
    by simp
  moreover have "\<forall>x \<in> set (take i es) \<union> set (drop (Suc i) es). be_known x \<longrightarrow> be_job_id x \<noteq> be_job_id e"
    using assms(3) by (auto dest: in_set_takeD in_set_dropD)
  ultimately show ?thesis
    using assms(1) unfolding known_ids_replace[OF assms(2)] by (auto split: if_splits)
qed

lemma table_ok_update:
  assumes "table_ok t" "i < length (bt_entries t)" "be_known e = be_known (bt_entries t ! i)"
    "be_job_id e = be_job_id (bt_entries t ! i)" "be_known e \<Longrightarrow> entry_ok e"
  shows "table_ok (t\<lparr>bt_entries := (bt_entries t)[i := e]\<rparr>)"
proof -
  have "x = e \<or> x \<in> set (bt_entries t)" if "x \<in> set ((bt_entries t)[i := e])" for x
    using that set_update_subset_insert by fast
  then have "\<forall>x \<in> set ((bt_entries t)[i := e]). be_known x \<longrightarrow> entry_ok x"
    using assms(1,5) by (auto simp: table_ok_def)
  then show ?thesis using assms(1,3,4) by (simp add: table_ok_def known_ids_same)
qed

lemma table_ok_current [simp]:
  "table_ok (t\<lparr>bt_current := c\<rparr>) = table_ok t" "table_ok (t\<lparr>bt_previous := c\<rparr>) = table_ok t"
  "table_ok (t\<lparr>bt_previous := p, bt_current := c\<rparr>) = table_ok t"
  "table_ok (t\<lparr>bt_current := c, bt_previous := p\<rparr>) = table_ok t"
  by (simp_all add: table_ok_def)

lemma table_ok_refresh [simp]: "table_ok (refresh_current_jobs t) = table_ok t"
  by (simp add: refresh_current_jobs_def split: prod.split)

lemma filter_trim: "filter be_known (rev (dropWhile (\<lambda>e. \<not> be_known e) (rev es))) = filter be_known es"
proof -
  have F: "filter be_known (dropWhile (\<lambda>e. \<not> be_known e) xs) = filter be_known xs" for xs
    by (induction xs) auto
  have "filter be_known (rev (dropWhile (\<lambda>e. \<not> be_known e) (rev es))) =
      rev (filter be_known (dropWhile (\<lambda>e. \<not> be_known e) (rev es)))" by (simp only: rev_filter)
  also have "\<dots> = rev (filter be_known (rev es))" by (simp only: F)
  also have "\<dots> = filter be_known es" by (simp add: rev_filter)
  finally show ?thesis .
qed

lemma table_ok_trim: "table_ok t \<Longrightarrow> table_ok (trim_entries t)"
proof -
  assume ok: "table_ok t"
  have sub: "set (bt_entries (trim_entries t)) \<subseteq> set (bt_entries t)"
    by (auto simp: trim_entries_def dest: set_dropWhileD)
  have len: "length (bt_entries (trim_entries t)) \<le> length (bt_entries t)"
    using length_dropWhile_le[of _ "rev (bt_entries t)"] by (simp add: trim_entries_def)
  have ids: "filter be_known (bt_entries (trim_entries t)) = filter be_known (bt_entries t)"
    by (simp add: trim_entries_def filter_trim)
  show ?thesis
    using ok sub len unfolding table_ok_def ids by (auto simp: trim_entries_def)
qed

lemma table_ok_forget:
  assumes "table_ok t" "\<not> be_known e"
  shows "table_ok (trim_entries (t\<lparr>bt_entries := (bt_entries t)[i := e]\<rparr>))"
proof -
  have "x = e \<or> x \<in> set (bt_entries t)" if "x \<in> set ((bt_entries t)[i := e])" for x
    using that set_update_subset_insert by fast
  then have "table_ok (t\<lparr>bt_entries := (bt_entries t)[i := e]\<rparr>)"
    using assms known_ids_forget by (fastforce simp: table_ok_def)
  then show ?thesis by (simp add: table_ok_trim)
qed

subsection \<open>Every operation keeps it\<close>

lemma find_entry_SomeD:
  "find_entry p k es = Some (i, e) \<Longrightarrow>
    \<exists>j. i = k + j \<and> j < length es \<and> e = es ! j \<and> be_known e \<and> p e"
proof (induction es arbitrary: k)
  case (Cons x es)
  show ?case
  proof (cases "be_known x \<and> p x")
    case True
    with Cons.prems show ?thesis by (intro exI[of _ 0]) auto
  next
    case False
    with Cons.prems have "find_entry p (Suc k) es = Some (i, e)" by (simp only: find_entry.simps if_False)
    from Cons.IH[OF this] obtain j where "i = Suc k + j" "j < length es" "e = es ! j" "be_known e" "p e"
      by blast
    then show ?thesis by (intro exI[of _ "Suc j"]) simp
  qed
qed simp

lemma find_entry_found:
  "find_entry p 0 es = Some (i, e) \<Longrightarrow> i < length es \<and> e = es ! i \<and> be_known e \<and> p e"
  using find_entry_SomeD[of p 0 es i e] by auto

lemma entry_for_idD:
  "gsh_background_entry_for_id t j = Some (i, e) \<Longrightarrow>
    i < length (bt_entries t) \<and> e = bt_entries t ! i \<and> be_known e \<and> be_job_id e = j \<and> j \<noteq> 0"
  using find_entry_found[of _ "bt_entries t" i e]
  by (auto simp: gsh_background_entry_for_id_def split: if_splits)

lemma known_entry_ok: "table_ok t \<Longrightarrow> i < length (bt_entries t) \<Longrightarrow> be_known (bt_entries t ! i) \<Longrightarrow>
  entry_ok (bt_entries t ! i)"
  by (simp add: table_ok_def)

lemma live_update:
  assumes "m < length xs"
  shows "length (filter (\<lambda>s. s \<noteq> 2) (xs[m := x])) + (if xs ! m \<noteq> 2 then 1 else 0) =
    length (filter (\<lambda>s. s \<noteq> (2 :: nat)) xs) + (if x \<noteq> 2 then 1 else 0)"
  using assms
proof (induction xs arbitrary: m)
  case (Cons y ys)
  show ?case
  proof (cases m)
    case (Suc n)
    with Cons.IH[of n] Cons.prems show ?thesis by (cases "x = 2"; cases "ys ! n = 2"; simp)
  qed simp
qed simp

lemma entry_ok_exit:
  assumes "entry_ok e" "m < length (be_members e)"
  shows "entry_ok (exit_member e m w)"
proof -
  define r where "r = record_exit (mark_exited e m) m w"
  have len: "m < length (be_member_states e)" using assms by (simp add: entry_ok_def)
  have states: "be_member_states r = (be_member_states e)[m := 2]" by (simp add: r_def mark_exited_cells)
  have rem: "be_remaining r = live_members r"
    using assms(1) live_update[OF len, of 2]
    by (auto simp: r_def mark_exited_cells entry_ok_def live_members_def)
  have keep: "be_state r = be_state e" "be_done r = be_done e" by (simp_all add: r_def)
  have fin: "live_members (finish_entry r) = live_members r" by (simp add: live_members_def)
  have "(be_state (finish_entry r) = JOB_DONE \<longleftrightarrow> live_members r = 0) \<and>
      (be_done (finish_entry r) \<longleftrightarrow> live_members r = 0)"
  proof (cases "live_members r = 0")
    case True
    then show ?thesis using finish_entry_done[of r] rem by simp
  next
    case False
    then have "live_members e \<noteq> 0"
      using live_update[OF len, of 2] states by (auto simp: live_members_def split: if_splits)
    with assms(1) False rem keep show ?thesis by (simp add: entry_ok_def finish_entry_def)
  qed
  then show ?thesis
    using assms(1) rem states fin by (simp add: exit_member_def r_def[symmetric] entry_ok_def)
       (simp add: r_def)
qed

lemma entry_ok_states:
  assumes "entry_ok e" "length states = length (be_member_states e)"
    "filter (\<lambda>s. s \<noteq> 2) states = [] \<longleftrightarrow> filter (\<lambda>s. s \<noteq> 2) (be_member_states e) = []"
    "length (filter (\<lambda>s. s \<noteq> 2) states) = length (filter (\<lambda>s. s \<noteq> 2) (be_member_states e))"
    "be_state e' = JOB_DONE \<longleftrightarrow> be_state e = JOB_DONE"
    "be_member_states e' = states" "be_members e' = be_members e" "be_job_id e' = be_job_id e"
    "be_remaining e' = be_remaining e" "be_done e' = be_done e"
  shows "entry_ok e'"
  using assms by (simp add: entry_ok_def live_members_def)

lemma update_live_length:
  assumes "m < length xs" "xs ! m \<noteq> 2" "x \<noteq> (2 :: nat)"
  shows "length (filter (\<lambda>s. s \<noteq> 2) (xs[m := x])) = length (filter (\<lambda>s. s \<noteq> 2) xs)"
  using live_update[OF assms(1), of x] assms(2,3) by simp

lemma running_not_done:
  assumes "entry_ok e" "m < length (be_member_states e)" "be_member_states e ! m \<noteq> 2"
  shows "be_state e \<noteq> JOB_DONE"
proof -
  have "be_member_states e ! m \<in> set (be_member_states e)" using assms(2) by simp
  with assms(3) have "live_members e \<noteq> 0"
    unfolding live_members_def length_0_conv filter_empty_conv by blast
  with assms(1) show ?thesis by (simp add: entry_ok_def)
qed

lemma table_ok_entries:
  "bt_entries u = bt_entries t \<Longrightarrow> bt_next_job_id u = bt_next_job_id t \<Longrightarrow> table_ok u = table_ok t"
  by (simp add: table_ok_def)

lemma table_ok_report:
  assumes ok: "table_ok t" and rep: "reportable t pid w"
  shows "table_ok (snd (gsh_background_record t pid w))"
proof (cases "located t pid")
  case None
  then have "snd (gsh_background_record t pid w) = t"
    by (auto simp: located_def gsh_background_record_def gsh_background_update_member_def split: if_splits)
  with ok show ?thesis by simp
next
  case (Some im)
  obtain i m where im: "im = (i, m)" by (cases im)
  note loc = locatedD[OF Some[unfolded im]]
  let ?e = "bt_entries t ! i"
  have e: "i < length (bt_entries t)" "be_known ?e" "m < length (be_members ?e)" "entry_ok ?e"
    using loc known_entry_ok[OF ok] by (auto simp: holds_member_def)
  have m: "m < length (be_member_states ?e)" using e(3,4) by (simp add: entry_ok_def)
  have run: "snd (gsh_background_record t pid w) = update_entry t i m w"
    using Some im by (auto simp: located_def gsh_background_record_def gsh_background_update_member_def
        split: if_splits)
  show ?thesis
  proof (cases "terminal_status w")
    case True
    have "table_ok (t\<lparr>bt_entries := (bt_entries t)[i := exit_member ?e m w]\<rparr>)"
      using table_ok_update[OF ok e(1)] entry_ok_exit[OF e(4,3)] by simp
    then show ?thesis by (simp add: run update_entry_terminal[OF True])
  next
    case False
    then have live: "be_member_states ?e ! m \<noteq> 2"
      using rep Some im by (simp add: reportable_def)
    note nd = running_not_done[OF e(4) m live]
    have ok_state: "table_ok (t\<lparr>bt_entries := (bt_entries t)[i := e']\<rparr>)"
      if "be_known e' = be_known ?e" "be_job_id e' = be_job_id ?e" "be_member_states e' = (be_member_states ?e)[m := x]"
        "x \<noteq> 2" "be_state e' \<noteq> JOB_DONE" "be_members e' = be_members ?e"
        "be_remaining e' = be_remaining ?e" "be_done e' = be_done ?e" for e' x
    proof (rule table_ok_update[OF ok e(1) that(1,2)])
      show "entry_ok e'"
        by (rule entry_ok_states[OF e(4), where states = "(be_member_states ?e)[m := x]"])
           (use that nd update_live_length[OF m live that(4)] in \<open>auto simp flip: length_0_conv\<close>)
    qed
    let ?s = "?e\<lparr>be_member_states := (be_member_states ?e)[m := 1]\<rparr>"
    have "table_ok (t\<lparr>bt_entries := (bt_entries t)[i := ?s]\<rparr>)"
      "table_ok (t\<lparr>bt_entries := (bt_entries t)[i := ?s\<lparr>be_state := JOB_STOPPED, be_notified := False\<rparr>]\<rparr>)"
      using nd by (rule_tac ok_state[where x = 1]; simp)+
    moreover have "table_ok (t\<lparr>bt_entries := (bt_entries t)[i :=
        ?e\<lparr>be_member_states := (be_member_states ?e)[m := 0], be_state := JOB_RUNNING, be_notified := False\<rparr>]\<rparr>)"
      by (rule ok_state[where x = 0]) simp_all
    ultimately show ?thesis
      using ok False by (simp add: run update_entry_def Let_def terminal_status_def)
  qed
qed

lemma new_entry_ok:
  "jid \<noteq> 0 \<Longrightarrow> members \<noteq> [] \<Longrightarrow>
    entry_ok (new_entry pgid sp members c pf cmd orig jid s)"
  by (simp add: entry_ok_def live_members_def)

lemma table_ok_add:
  assumes ok: "table_ok t"
  shows "table_ok (snd (gsh_background_add_job t pgid status_pid members c pf command origin))"
proof -
  obtain r t' where r: "gsh_background_add_job t pgid status_pid members c pf command origin = (r, t')"
    by fastforce
  obtain n u where n: "next_job_id t = (n, u)" by fastforce
  have next_nonzero: "next_job_id_loop k t = (r, u) \<Longrightarrow> bt_next_job_id t \<noteq> 0 \<Longrightarrow> bt_next_job_id u \<noteq> 0" for k t r u
  proof (induction k arbitrary: t)
    case (Suc k)
    then show ?case
      using count_job_id_nonzero Suc.IH[of "t\<lparr>bt_next_job_id := count_job_id (bt_next_job_id t)\<rparr>"]
      by (auto simp: next_job_id_loop_Suc simp del: next_job_id_loop.simps split: if_splits)
  qed simp
  have u: "bt_entries u = bt_entries t" "bt_next_job_id u \<noteq> 0"
    using next_job_id_loop_keeps[OF n[unfolded next_job_id_def]] ok
      next_nonzero[OF n[unfolded next_job_id_def]] by (auto simp: table_ok_def)
  have uok: "table_ok u" using ok u by (simp add: table_ok_def)
  show ?thesis
  proof (cases r)
    case (Inl err)
    then have "t' = t \<or> t' = u"
      using r n by (auto simp: gsh_background_add_job_def Let_def split: if_splits option.splits sum.splits)
    then show ?thesis using ok uok r by auto
  next
    case (Inr jid)
    from r[unfolded Inr] obtain i where i:
      "i \<le> length (bt_entries t)"
      "bt_entries t' = (if i < length (bt_entries t)
         then (bt_entries t)[i := new_entry pgid status_pid members c pf command origin jid (bt_next_sequence t)]
         else bt_entries t @ [new_entry pgid status_pid members c pf command origin jid (bt_next_sequence t)])"
      "length (bt_entries t') \<le> GSH_BACKGROUND_CAP" "jid \<noteq> 0" "\<not> job_id_in_use t jid" "members \<noteq> []"
      by (rule add_jobE)
    have next_id: "bt_next_job_id t' = bt_next_job_id u"
      using r n Inr by (auto simp: gsh_background_add_job_def Let_def split: if_splits option.splits sum.splits)
    have fresh: "\<forall>x \<in> set (bt_entries t). be_known x \<longrightarrow> be_job_id x \<noteq> jid"
      using i(5) ok by (auto simp: job_id_in_use_def list_ex_iff)
    let ?e = "new_entry pgid status_pid members c pf command origin jid (bt_next_sequence t)"
    have "set (bt_entries t') \<subseteq> insert ?e (set (bt_entries t))"
      using i(2) set_update_subset_insert[of "bt_entries t" i ?e] by (auto split: if_splits)
    moreover have "entry_ok ?e" using i(4,6) by (rule new_entry_ok)
    ultimately have entries: "\<forall>x \<in> set (bt_entries t'). be_known x \<longrightarrow> entry_ok x"
      using ok unfolding table_ok_def by blast
    have "distinct (map be_job_id (filter be_known (bt_entries t')))"
    proof (cases "i < length (bt_entries t)")
      case True
      then show ?thesis using ok fresh i(2) known_ids_fresh[of "bt_entries t" i ?e]
        by (simp add: table_ok_def)
    next
      case False
      then show ?thesis using ok fresh i(2) by (auto simp: table_ok_def)
    qed
    with entries i(3) u(2) next_id show ?thesis by (simp add: r table_ok_def)
  qed
qed

lemma table_ok_by_id:
  assumes "table_ok t" "gsh_background_entry_for_id t j = Some (i, e)"
    "be_known e' = be_known e" "be_job_id e' = be_job_id e" "entry_ok e \<Longrightarrow> entry_ok e'"
  shows "table_ok (t\<lparr>bt_entries := (bt_entries t)[i := e']\<rparr>)"
  using table_ok_update[OF assms(1), of i e'] entry_for_idD[OF assms(2)] assms(3-5)
    known_entry_ok[OF assms(1)] by auto

lemma table_ok_make_current [simp]: "table_ok (make_current t j) = table_ok t"
  by (simp add: make_current_def)

lemma entry_ok_map:
  assumes "entry_ok e" "be_state e \<noteq> JOB_DONE" "\<forall>s. f s = 2 \<longleftrightarrow> s = 2"
    "be_member_states e' = map f (be_member_states e)" "be_state e' \<noteq> JOB_DONE"
    "be_members e' = be_members e" "be_job_id e' = be_job_id e" "be_remaining e' = be_remaining e"
    "be_done e' = be_done e"
  shows "entry_ok e'"
proof -
  have "length (filter (\<lambda>s. s \<noteq> 2) (map f xs)) = length (filter (\<lambda>s. s \<noteq> 2) xs)" for xs
    using assms(3) by (induction xs) auto
  then have "live_members e' = live_members e" using assms(4) by (simp add: live_members_def)
  with assms show ?thesis by (simp add: entry_ok_def)
qed

lemma job_reach_ok: "job_reach t \<Longrightarrow> table_ok t"
proof (induction rule: job_reach.induct)
  case (start t)
  then show ?case by (simp add: table_ok_def gsh_background_initialize_def)
next
  case (add t pgid status_pid members c pf command origin)
  then show ?case by (intro table_ok_add)
next
  case (report t pid w)
  then show ?case by (intro table_ok_report)
next
  case (consume t pid)
  then show ?case
    by (auto simp: gsh_background_consume_def Let_def table_ok_forget split: option.split)
next
  case (consume_all t)
  then show ?case by (simp add: gsh_background_consume_all_if_done_def table_ok_def)
next
  case (notified t j)
  have "table_ok (t\<lparr>bt_entries := (bt_entries t)[i := e\<lparr>be_notified := True\<rparr>]\<rparr>)"
    if "gsh_background_entry_for_id t j = Some (i, e)" for i e
    by (rule table_ok_by_id[OF notified.IH that]) (simp_all add: entry_ok_def live_members_def)
  with notified.IH show ?case
    by (auto simp: gsh_background_mark_notified_def split: option.split)
next
  case (continue t j)
  have "table_ok (t\<lparr>bt_entries := (bt_entries t)[i := e
      \<lparr>be_member_states := map (\<lambda>s. if s = 1 then 0 else s) (be_member_states e),
       be_state := JOB_RUNNING, be_notified := False\<rparr>]\<rparr>)"
    if "gsh_background_entry_for_id t j = Some (i, e)" "be_state e \<noteq> JOB_DONE" for i e
    by (rule table_ok_by_id[OF continue.IH that(1)])
       (use that(2) in \<open>simp_all add: entry_ok_map[where f = "\<lambda>s. if s = Suc 0 then 0 else s"]\<close>)
  with continue.IH show ?case
    by (auto simp: gsh_background_continue_job_def split: option.split)
next
  case (stop t j)
  have "table_ok (t\<lparr>bt_entries := (bt_entries t)[i := e
      \<lparr>be_member_states := map (\<lambda>s. if s \<noteq> 2 then 1 else s) (be_member_states e),
       be_state := JOB_STOPPED, be_notified := False\<rparr>]\<rparr>)"
    if "gsh_background_entry_for_id t j = Some (i, e)" "be_state e \<noteq> JOB_DONE" for i e
    by (rule table_ok_by_id[OF stop.IH that(1)])
       (use that(2) in \<open>simp_all add: entry_ok_map[where f = "\<lambda>s. if s \<noteq> 2 then Suc 0 else s"]\<close>)
  with stop.IH show ?case
    by (auto simp: gsh_background_stop_job_def split: option.split)
next
  case (remove t j)
  then show ?case
    by (auto simp: gsh_background_remove_job_def table_ok_forget split: option.split)
qed

end
