(* ===== verification/JobProperties.thy ===== *)
theory JobProperties
  imports JobReach
begin

text \<open>
  The properties of the job table of \<open>src/background_jobs.c\<close>, with witnesses on a table of
  two processes.
\<close>

section \<open>Job specifications\<close>

lemma textual_scan_matches:
  "textual_scan es needle sub (k, j) =
    (let ms = filter (\<lambda>e. be_known e \<and> command_matches e needle sub) es
     in (k + length ms, if ms = [] then j else be_job_id (last ms)))"
  by (induction es arbitrary: k j) (auto simp: Let_def)

lemma find_entry_exists:
  "e \<in> set es \<Longrightarrow> be_known e \<Longrightarrow> p e \<Longrightarrow> find_entry p k es \<noteq> None"
  by (induction es arbitrary: k) auto

lemma entry_for_id_known:
  assumes "length (bt_entries t) \<le> GSH_BACKGROUND_CAP" "j \<noteq> 0"
  shows "gsh_background_entry_for_id t j \<noteq> None \<longleftrightarrow>
    (\<exists>e \<in> set (bt_entries t). be_known e \<and> be_job_id e = j)"
proof
  assume "gsh_background_entry_for_id t j \<noteq> None"
  then obtain i e where "gsh_background_entry_for_id t j = Some (i, e)" by auto
  from entry_for_idD[OF this] show "\<exists>e \<in> set (bt_entries t). be_known e \<and> be_job_id e = j" by auto
next
  assume "\<exists>e \<in> set (bt_entries t). be_known e \<and> be_job_id e = j"
  then show "gsh_background_entry_for_id t j \<noteq> None"
    using assms find_entry_exists[of _ "bt_entries t" "\<lambda>e. be_job_id e = j" 0]
    by (auto simp: gsh_background_entry_for_id_def)
qed

lemma resolve_textual_OK:
  assumes "resolve_textual t needle sub j0 = (JOBSPEC_OK, j)"
  shows "\<exists>e. filter (\<lambda>e. be_known e \<and> command_matches e needle sub) (bt_entries t) = [e] \<and>
    be_job_id e = j"
proof -
  define ms where "ms = filter (\<lambda>e. be_known e \<and> command_matches e needle sub) (bt_entries t)"
  have "length ms = 1" "j = be_job_id (last ms)"
    using assms by (auto simp: resolve_textual_def textual_scan_matches Let_def ms_def[symmetric]
        split: if_splits)
  then obtain e where "ms = [e]" by (auto simp: length_Suc_conv)
  with \<open>j = _\<close> show ?thesis by (simp add: ms_def)
qed

lemma resolve_known:
  assumes "gsh_background_resolve t spec j0 = (JOBSPEC_OK, j)"
  shows "\<exists>e \<in> set (bt_entries t). be_known e \<and> be_job_id e = j"
proof -
  obtain c rest where spec: "spec = c # rest"
    using assms by (cases spec) (auto simp: gsh_background_resolve_def Let_def)
  have known: "gsh_background_entry_for_id t k = Some (a, b) \<Longrightarrow>
      \<exists>e \<in> set (bt_entries t). be_known e \<and> be_job_id e = k" for k a b
    using entry_for_idD[of t k a b] by auto
  have textual: "\<exists>e \<in> set (bt_entries t). be_known e \<and> be_job_id e = j"
    if "resolve_textual t needle sub j0 = (JOBSPEC_OK, j)" for needle sub
  proof -
    from resolve_textual_OK[OF that] obtain e where
      e: "filter (\<lambda>e. be_known e \<and> command_matches e needle sub) (bt_entries t) = [e]" "be_job_id e = j"
      by blast
    have "e \<in> set (filter (\<lambda>e. be_known e \<and> command_matches e needle sub) (bt_entries t))"
      by (simp add: e(1))
    with e(2) show ?thesis by auto
  qed
  from assms show ?thesis
    unfolding spec gsh_background_resolve_def Let_def
    by (auto split: if_splits prod.splits option.splits dest: textual known)
qed

section \<open>Properties\<close>

subsection \<open>A table for the witnesses\<close>

definition empty_jobs :: gsh_background_table where
  "empty_jobs = \<lparr>bt_entries = [], bt_next_job_id = 1, bt_current = 0, bt_previous = 0,
     bt_next_sequence = 1\<rparr>"

definition pipe_entry :: gsh_background_entry where
  "pipe_entry = new_entry 10 11 [10, 11] 2 True ''a|b'' JOB_ORIGIN_CLASSIC 1 1"

definition pipe_jobs :: gsh_background_table where
  "pipe_jobs = \<lparr>bt_entries = [pipe_entry], bt_next_job_id = 2, bt_current = 1, bt_previous = 0,
     bt_next_sequence = 2\<rparr>"

lemma next_job_id_first:
  "bt_next_job_id t \<noteq> 0 \<Longrightarrow> \<not> job_id_in_use t (bt_next_job_id t) \<Longrightarrow>
    next_job_id t =
      (Some (bt_next_job_id t), t\<lparr>bt_next_job_id := count_job_id (bt_next_job_id t)\<rparr>)"
  using next_job_id_loop_Suc[of GSH_BACKGROUND_CAP t] by (simp add: next_job_id_def)

lemma pipe_jobs_added:
  "gsh_background_add_job empty_jobs 10 11 [10, 11] 2 True ''a|b'' JOB_ORIGIN_CLASSIC =
    (Inr 1, pipe_jobs)"
  by (simp add: gsh_background_add_job_def next_job_id_first empty_jobs_def job_id_in_use_def
      member_in_use_def count_job_id_def available_entry_def pipe_jobs_def pipe_entry_def
      new_entry_def)

lemma pipe_jobs_reach: "job_reach pipe_jobs"
proof -
  have "job_reach empty_jobs"
    using job_reach.start[of empty_jobs] by (simp add: gsh_background_initialize_def empty_jobs_def)
  from job_reach.add[OF this, of 10 11 "[10, 11]" 2 True "''a|b''" JOB_ORIGIN_CLASSIC]
  show ?thesis by (simp add: pipe_jobs_added)
qed

subsection \<open>Statuses\<close>

text \<open>C6. The status of a pipeline does not depend on the order its commands end in: after a
  report for every command, in any order, \<open>gsh_pipeline_status_result\<close> is the status POSIX
  gives, that of the last command or, with \<open>pipefail\<close>, of the rightmost one that failed.\<close>

theorem pipeline_status_any_order:
  assumes "mset es = mset (in_order ws)" and "ws \<noteq> []" and "list_all terminal_status ws"
  shows "gsh_pipeline_status_result
      (fold pipeline_step es (gsh_pipeline_status_initialize (length ws) pipefail)) =
    Some (pipeline_outcome pipefail ws)"
  using pipeline_read_result[OF pipeline_reports[OF assms]] assms(2) by simp

theorem pipeline_status_any_order_witness:
  "gsh_pipeline_status_result
      (fold pipeline_step [(1, 0), (0, 256)] (gsh_pipeline_status_initialize 2 True)) = Some 256"
  using pipeline_status_any_order[of "[(1, 0), (0, 256)]" "[256, 0]" True]
  by (simp add: in_order_def upt_rec terminal_status_def WIFEXITED_def WIFSIGNALED_def
      pipeline_outcome_def wait_status_nonzero_def WEXITSTATUS_def numeral_2_eq_2)

text \<open>C5. A background job completes whatever the order its processes end in: once a job was
  added and each of its processes has been reported ended, in any order, its entry is done with no
  process remaining, its wait status is the pipeline status of its commands, and no other entry
  has changed.\<close>

theorem job_completes_any_order:
  assumes "gsh_background_add_job t pgid status_pid members c pf command origin = (Inr jid, t')"
    and "distinct members" and "length ws = length members" and "list_all terminal_status ws"
    and "mset es = mset (zip members ws)"
  shows "\<exists>i < length (bt_entries t'). \<exists>e.
    bt_entries (fold table_report es t') = (bt_entries t')[i := e] \<and>
    be_job_id (bt_entries t' ! i) = jid \<and> be_job_id e = jid \<and> be_known e \<and>
    be_state e = JOB_DONE \<and> be_done e \<and> be_remaining e = 0 \<and>
    be_wait_status e = pipeline_outcome pf (take c ws)"
proof -
  from job_completion[OF assms] obtain i e where "i < length (bt_entries t')"
    "be_job_id (bt_entries t' ! i) = jid"
    "fold table_report es t' = t'\<lparr>bt_entries := (bt_entries t')[i := e]\<rparr>"
    "be_job_id e = jid" "be_known e" "partly_done (length members) c pf ws e" by blast
  with assms(3) show ?thesis
    by (intro exI[of _ i] conjI exI[of _ e]) (simp_all add: partly_done_def)
qed

theorem job_completes_any_order_witness:
  "\<exists>e. bt_entries (fold table_report [(11, 0), (10, 256)] pipe_jobs) = [e] \<and>
    be_state e = JOB_DONE \<and> be_wait_status e = 256"
proof -
  have "pipeline_outcome True (take 2 [256, 0]) = 256"
    by (simp add: pipeline_outcome_def wait_status_nonzero_def WIFEXITED_def WIFSIGNALED_def
        WEXITSTATUS_def)
  moreover have "bt_entries pipe_jobs = [pipe_entry]" by (simp add: pipe_jobs_def)
  ultimately show ?thesis
    using job_completes_any_order[OF pipe_jobs_added, of "[256, 0]" "[(11, 0), (10, 256)]"]
    by (auto simp: terminal_status_def WIFEXITED_def WIFSIGNALED_def)
qed

subsection \<open>The table\<close>

text \<open>C7. Every reachable table is well formed: at most 128 entries, known jobs with distinct
  non-zero ids, and in every known entry one state per member, \<open>remaining\<close> equal to the number of
  members that have not ended, and the job done exactly when that number is zero.\<close>

theorem reachable_table_ok:
  assumes "job_reach t"
  shows "table_ok t"
  using assms by (rule job_reach_ok)

theorem reachable_table_ok_witness: "table_ok pipe_jobs"
  using reachable_table_ok[OF pipe_jobs_reach] .

text \<open>Adding a job to a table with capacity never fails for want of an id: for valid arguments
  an id is found among the 129 candidates the code tries, across the wrap-around of the 32-bit
  counter; the id is not zero and belongs to no known job.\<close>

theorem add_job_succeeds:
  assumes "0 < pgid" and "0 < status_pid" and "members \<noteq> []"
    and "length members \<le> GSH_BACKGROUND_MEMBER_CAP" and "c \<noteq> 0" and "c \<le> length members"
    and "length command < GSH_BACKGROUND_COMMAND_CAP"
    and "\<forall>m \<in> set members. 0 < m \<and> \<not> member_in_use t m"
    and "bt_next_job_id t \<noteq> 0" and "gsh_background_has_capacity t"
  shows "\<exists>jid t'. gsh_background_add_job t pgid status_pid members c pf command origin = (Inr jid, t') \<and>
    jid \<noteq> 0 \<and> \<not> job_id_in_use t jid \<and> bt_current t' = jid \<and> bt_previous t' = bt_current t"
proof -
  from add_job_total[OF assms, of pf origin] obtain jid t' where
    r: "gsh_background_add_job t pgid status_pid members c pf command origin = (Inr jid, t')" by blast
  from r have "jid \<noteq> 0 \<and> \<not> job_id_in_use t jid \<and> bt_current t' = jid \<and> bt_previous t' = bt_current t"
    by (rule add_jobE) simp
  with r show ?thesis by blast
qed

theorem add_job_succeeds_witness:
  "\<exists>jid t'. gsh_background_add_job pipe_jobs 20 20 [20] 1 False ''c'' JOB_ORIGIN_ASYNC_LIST = (Inr jid, t') \<and>
    jid \<noteq> 0 \<and> bt_previous t' = 1"
  using add_job_succeeds[of 20 20 "[20]" 1 "''c''" pipe_jobs False JOB_ORIGIN_ASYNC_LIST]
  by (simp add: pipe_jobs_def pipe_entry_def member_in_use_def gsh_background_has_capacity_def)
     blast

text \<open>After a job is removed, the current and the previous job are the two known jobs with the
  greatest sequence numbers, or zero where there is none.\<close>

theorem remove_refreshes_current:
  assumes "gsh_background_remove_job t j = (True, t')"
    and "\<forall>e \<in> set (bt_entries t). be_known e \<longrightarrow> be_sequence e \<noteq> 0"
    and "distinct (map be_sequence (filter be_known (bt_entries t)))"
  shows "\<exists>n p. newest_two (set (filter be_known (bt_entries t'))) (n, p, bt_current t', bt_previous t')"
proof -
  from assms(1) obtain i e where e: "gsh_background_entry_for_id t j = Some (i, e)" and
    t': "t' = refresh_current_jobs (trim_entries (t\<lparr>bt_entries := (bt_entries t)
            [i := e\<lparr>be_command := [], be_known := False\<rparr>]\<rparr>))"
    by (auto simp: gsh_background_remove_job_def split: option.splits)
  define u where "u = trim_entries (t\<lparr>bt_entries := (bt_entries t)
            [i := e\<lparr>be_command := [], be_known := False\<rparr>]\<rparr>)"
  have i: "i < length (bt_entries t)" using entry_for_idD[OF e] by simp
  have "filter be_known (bt_entries u) =
      filter be_known ((bt_entries t)[i := e\<lparr>be_command := [], be_known := False\<rparr>])"
    by (simp add: u_def trim_entries_def filter_trim)
  then have known: "filter be_known (bt_entries u) =
      filter be_known (take i (bt_entries t)) @ filter be_known (drop (Suc i) (bt_entries t))"
    using i by (simp add: upd_conv_take_nth_drop)
  have all: "filter be_known (bt_entries t) = filter be_known (take i (bt_entries t)) @
      filter be_known [bt_entries t ! i] @ filter be_known (drop (Suc i) (bt_entries t))"
    using i by (metis (no_types) append_Cons append_Nil filter_append id_take_nth_drop)
  have "\<forall>x \<in> set (filter be_known (bt_entries u)). be_sequence x \<noteq> 0"
    using assms(2) by (auto simp: known dest: in_set_takeD in_set_dropD)
  moreover have "distinct (map be_sequence (filter be_known (bt_entries u)))"
    using assms(3) unfolding known all by auto
  ultimately obtain n p where "newest_two (set (filter be_known (bt_entries u)))
      (n, p, bt_current (refresh_current_jobs u), bt_previous (refresh_current_jobs u))"
    using refresh_newest[of u] by auto
  moreover have "bt_entries t' = bt_entries u"
    by (simp add: t' u_def refresh_current_jobs_def split: prod.split)
  ultimately show ?thesis by (auto simp: t' u_def)
qed

lemma pipe_jobs_remove:
  "gsh_background_remove_job pipe_jobs 1 =
    (True, \<lparr>bt_entries = [], bt_next_job_id = 2, bt_current = 0, bt_previous = 0, bt_next_sequence = 2\<rparr>)"
  by (simp add: gsh_background_remove_job_def gsh_background_entry_for_id_def pipe_jobs_def
      pipe_entry_def trim_entries_def refresh_current_jobs_def)

theorem remove_refreshes_current_witness:
  "\<exists>n p. newest_two {} (n, p, 0, 0)"
  using remove_refreshes_current[OF pipe_jobs_remove]
  by (simp add: pipe_jobs_def pipe_entry_def)

text \<open>A job specification that resolves names a job of the table: whenever
  \<open>gsh_background_resolve\<close> answers \<open>JOBSPEC_OK\<close>, the id it gives is that of a known entry.\<close>

theorem resolve_names_known_job:
  assumes "gsh_background_resolve t spec j0 = (JOBSPEC_OK, j)"
  shows "\<exists>e \<in> set (bt_entries t). be_known e \<and> be_job_id e = j"
  using assms by (rule resolve_known)

lemma pipe_jobs_resolve: "gsh_background_resolve pipe_jobs ''%a'' 0 = (JOBSPEC_OK, 1)"
  by (simp add: gsh_background_resolve_def resolve_textual_def command_matches_def pipe_jobs_def
      pipe_entry_def new_entry_def digit_byte_def)

theorem resolve_names_known_job_witness: "be_job_id pipe_entry = 1"
  using resolve_names_known_job[OF pipe_jobs_resolve] by (auto simp: pipe_jobs_def)

subsection \<open>Two defects\<close>

lemma stop_report:
  assumes "WIFSTOPPED w" "located t pid = Some (i, n)"
  shows "bt_entries (table_report (pid, w) t) =
    (let e = (bt_entries t ! i)\<lparr>be_member_states := (be_member_states (bt_entries t ! i))[n := 1]\<rparr>
     in (bt_entries t)[i := if all_members_stopped e then e\<lparr>be_state := JOB_STOPPED, be_notified := False\<rparr>
        else e])"
  using assms
  by (auto simp: located_def table_report_def gsh_background_update_member_def update_entry_def Let_def
      split: if_splits)

lemma located_after_stop:
  assumes "WIFSTOPPED w" "located t pid = Some (i, n)"
  shows "located (table_report (pid, w) t) q = located t q"
proof -
  have "map member_view (bt_entries (table_report (pid, w) t)) = map member_view (bt_entries t)"
    unfolding stop_report[OF assms] Let_def by (rule member_view_update) simp
  then show ?thesis
    using locate_member_cong[of "bt_entries (table_report (pid, w) t)" "bt_entries t" 0 q]
      map_eq_imp_length_eq[of member_view "bt_entries (table_report (pid, w) t)" member_view "bt_entries t"]
    by (simp add: located_def)
qed

lemma live_pair:
  assumes "m < length ss" "n < length ss" "m \<noteq> n" "ss ! m \<noteq> 2" "ss ! n \<noteq> (2 :: nat)"
  shows "2 \<le> length (filter (\<lambda>s. s \<noteq> 2) ss)"
proof -
  have "{m, n} \<subseteq> {k. k < length ss \<and> ss ! k \<noteq> 2}" using assms by auto
  then have "card {m, n} \<le> card {k. k < length ss \<and> ss ! k \<noteq> 2}" by (intro card_mono) simp_all
  with assms(3) show ?thesis by (simp add: length_filter_conv_card)
qed

text \<open>C38. The stopped state of a job depends on the order of the reports. In a well-formed table, let
  a running job have two living processes, the first running, and no other process running. When the first ends
  and then the second stops, the job is stopped. When the second stops and then the first ends, every
  process of the job has the same state as before and all that are left are stopped, and the job is
  still said to be running.\<close>

theorem stopped_state_order:
  assumes "table_ok t" and "located t first = Some (i, m)" and "located t second = Some (i, n)"
    and "first \<noteq> second" and "WIFSTOPPED stop" and "terminal_status ended"
    and "be_state (bt_entries t ! i) = JOB_RUNNING"
    and "be_member_states (bt_entries t ! i) ! m = 0" and "be_member_states (bt_entries t ! i) ! n \<noteq> 2"
    and "\<forall>k < length (be_members (bt_entries t ! i)). k \<noteq> m \<and> k \<noteq> n \<longrightarrow>
      be_member_states (bt_entries t ! i) ! k \<noteq> 0"
  shows "let e = bt_entries (table_report (second, stop) (table_report (first, ended) t)) ! i;
             e' = bt_entries (table_report (first, ended) (table_report (second, stop) t)) ! i
    in be_member_states e = be_member_states e' \<and> all_members_stopped e \<and> all_members_stopped e' \<and>
       be_state e = JOB_STOPPED \<and> be_state e' = JOB_RUNNING"
proof -
  let ?e = "bt_entries t ! i"
  let ?exited = "table_report (first, ended) t" and ?stop = "table_report (second, stop) t"
  have i: "i < length (bt_entries t)" "be_known ?e" "m < length (be_members ?e)" "n < length (be_members ?e)" "m \<noteq> n"
    using locatedD[OF assms(2)] locatedD[OF assms(3)] assms(4) by (auto simp: holds_member_def)
  have ok: "entry_ok ?e" using assms(1) i(1,2) by (simp add: table_ok_def)
  then have len: "length (be_member_states ?e) = length (be_members ?e)" by (simp add: entry_ok_def)
  have "2 \<le> be_remaining ?e"
    using ok live_pair[of m "be_member_states ?e" n] i(3-5) assms(8,9) len by (simp add: entry_ok_def live_members_def)
  then have left: "be_remaining (mark_exited e m) \<noteq> 0" if "be_remaining e = be_remaining ?e" for e
    using that by (simp add: mark_exited_cells)
  have exit: "exit_member e m ended = record_exit (mark_exited e m) m ended"
    if "be_remaining e = be_remaining ?e" for e
    using left[OF that] by (simp add: exit_member_def finish_entry_def)
  have ended: "bt_entries ?exited ! i = exit_member ?e m ended"
    using table_report_Some[of "(first, ended)" t i m] assms(2,6) i(1) by simp
  have size: "i < length (bt_entries ?exited)"
    using table_report_Some[of "(first, ended)" t i m] assms(2,6) i(1) by simp
  have there: "located ?exited second = Some (i, n)"
    using located_after[of "(first, ended)" t second] assms(3,6) by simp
  have all: "list_all (\<lambda>s. s \<noteq> 0) ((be_member_states ?e)[m := 2, n := 1])"
    using assms(10) len i(3,4) by (auto simp: list_all_length nth_list_update)
  have first_runs: "\<not> list_all (\<lambda>s. s \<noteq> 0) ((be_member_states ?e)[n := 1])"
    using assms(8) i(3,5) len by (auto simp: list_all_length intro!: exI[of _ m])
  have one: "bt_entries (table_report (second, stop) ?exited) ! i =
      (exit_member ?e m ended)\<lparr>be_member_states := (be_member_states ?e)[m := 2, n := 1],
        be_state := JOB_STOPPED, be_notified := False\<rparr>"
    using stop_report[OF assms(5) there] left[OF refl] all ended size
    by (simp add: exit[OF refl] all_members_stopped_def mark_exited_cells Let_def)
  have stopped: "bt_entries ?stop ! i = ?e\<lparr>be_member_states := (be_member_states ?e)[n := 1]\<rparr>"
    using stop_report[OF assms(5,3)] first_runs i(1) by (simp add: all_members_stopped_def)
  have two: "bt_entries (table_report (first, ended) ?stop) ! i =
      record_exit (mark_exited (?e\<lparr>be_member_states := (be_member_states ?e)[n := 1]\<rparr>) m) m ended"
    using table_report_Some[of "(first, ended)" ?stop i m] located_after_stop[OF assms(5,3), of first]
      assms(2,6) stopped i(1) stop_report[OF assms(5,3)] by (simp add: exit Let_def)
  show ?thesis
    unfolding one two Let_def
    using left[of "?e\<lparr>be_member_states := (be_member_states ?e)[n := 1]\<rparr>"] left[OF refl] all assms(7) i(5)
    by (simp add: exit[OF refl] all_members_stopped_def mark_exited_cells list_update_swap)
qed

theorem stopped_state_order_witness:
  "let e = bt_entries (table_report (11, 4991) (table_report (10, 0) pipe_jobs)) ! 0;
       e' = bt_entries (table_report (10, 0) (table_report (11, 4991) pipe_jobs)) ! 0
   in be_member_states e = be_member_states e' \<and> all_members_stopped e \<and> all_members_stopped e' \<and>
      be_state e = JOB_STOPPED \<and> be_state e' = JOB_RUNNING"
proof -
  have "table_ok pipe_jobs" using pipe_jobs_reach by (rule job_reach_ok)
  moreover have "located pipe_jobs 10 = Some (0, 0)" "located pipe_jobs 11 = Some (0, 1)"
    by (simp_all add: located_def pipe_jobs_def pipe_entry_def)
  moreover have "WIFSTOPPED 4991" "terminal_status 0"
    by (simp_all add: WIFSTOPPED_def terminal_status_def WIFEXITED_def)
  ultimately show ?thesis
    using stopped_state_order[of pipe_jobs 10 0 0 11 1 4991 0]
    by (simp add: pipe_jobs_def pipe_entry_def less_Suc_eq numeral_2_eq_2)
qed

lemma other_known_id:
  assumes "distinct (map be_job_id (filter be_known es))" "i < length es" "be_known (es ! i)"
    "x < length es" "be_known (es ! x)" "x \<noteq> i"
  shows "be_job_id (es ! x) \<noteq> be_job_id (es ! i)"
proof -
  have "map be_job_id (filter be_known es) = map be_job_id (filter be_known (es[i := es ! i]))" by simp
  with assms(1,3) have "distinct (map be_job_id (filter be_known (take i es)) @ [be_job_id (es ! i)] @
      map be_job_id (filter be_known (drop (Suc i) es)))"
    by (simp only: known_ids_replace[OF assms(2)] if_True)
  moreover have "es ! x \<in> set (take i es) \<union> set (drop (Suc i) es)"
  proof (cases "x < i")
    case True
    with assms(2) have "take i es ! x = es ! x" "x < length (take i es)" by simp_all
    then show ?thesis by (metis UnI1 nth_mem)
  next
    case False
    with assms(2,4,6) have "drop (Suc i) es ! (x - Suc i) = es ! x" "x - Suc i < length (drop (Suc i) es)"
      by simp_all
    then show ?thesis by (metis UnI2 nth_mem)
  qed
  ultimately show ?thesis using assms(5) by (auto dest: image_eqI[OF sym])
qed

text \<open>C39. Adding a job can leave a previous job that does not exist: when the entry the new job
  reuses is that of the current job, its id becomes the previous job's although no entry has it,
  so \<open>%-\<close> is missing whatever other jobs the table holds.\<close>

theorem add_job_stale_previous:
  assumes "table_ok t" and "available_entry t = Inr i" and "i < length (bt_entries t)"
    and "be_known (bt_entries t ! i)" and "be_job_id (bt_entries t ! i) = bt_current t"
    and "gsh_background_add_job t pgid status_pid members c pf command origin = (Inr jid, t')"
  shows "bt_previous t' = bt_current t \<and>
    (\<forall>e \<in> set (bt_entries t'). be_known e \<longrightarrow> be_job_id e \<noteq> bt_previous t') \<and>
    gsh_background_resolve t' ''%-'' 0 = (JOBSPEC_MISSING, bt_previous t')"
proof -
  from assms(6) obtain k where k: "available_entry t = Inr k"
    "bt_entries t' = (if k < length (bt_entries t)
       then (bt_entries t)[k := new_entry pgid status_pid members c pf command origin jid (bt_next_sequence t)]
       else bt_entries t @ [new_entry pgid status_pid members c pf command origin jid (bt_next_sequence t)])"
    "bt_previous t' = bt_current t" "length (bt_entries t') \<le> GSH_BACKGROUND_CAP"
    "\<not> job_id_in_use t jid" by (rule add_jobE)
  let ?e = "new_entry pgid status_pid members c pf command origin jid (bt_next_sequence t)"
  have "k = i" using k(1) assms(2) by simp
  then have entries: "bt_entries t' = (bt_entries t)[i := ?e]" using k(2) assms(3) by simp
  have differ: "jid \<noteq> bt_current t"
    using k(5) assms(3-5) by (auto simp: job_id_in_use_def list_ex_iff)
  have others: "be_job_id (bt_entries t ! x) \<noteq> bt_current t"
    if "x < length (bt_entries t)" "x \<noteq> i" "be_known (bt_entries t ! x)" for x
    using other_known_id[OF _ assms(3,4) that(1,3,2)] assms(1,5) by (simp add: table_ok_def)
  have none: "\<forall>e \<in> set (bt_entries t'). be_known e \<longrightarrow> be_job_id e \<noteq> bt_previous t'"
  proof (intro ballI impI)
    fix e assume "e \<in> set (bt_entries t')" "be_known e"
    then obtain x where x: "x < length (bt_entries t)" "e = (bt_entries t)[i := ?e] ! x" "be_known e"
      by (auto simp: entries in_set_conv_nth)
    with differ others k(3) assms(3) show "be_job_id e \<noteq> bt_previous t'"
      by (cases "x = i") auto
  qed
  have "gsh_background_entry_for_id t' (bt_previous t') = None"
    using none entry_for_idD[of t' "bt_previous t'"] by (metis nth_mem option.exhaust surj_pair)
  then have "gsh_background_resolve t' ''%-'' 0 = (JOBSPEC_MISSING, bt_previous t')"
    by (simp add: gsh_background_resolve_def)
  with none k(3) show ?thesis by simp
qed

definition done_jobs :: gsh_background_table where
  "done_jobs = pipe_jobs\<lparr>bt_entries := [pipe_entry\<lparr>be_member_states := [2, 2], be_remaining := 0,
     be_state := JOB_DONE, be_done := True, be_notified := True\<rparr>]\<rparr>"

definition reused_jobs :: gsh_background_table where
  "reused_jobs = \<lparr>bt_entries = [new_entry 20 20 [20] 1 False ''c'' JOB_ORIGIN_CLASSIC 2 2],
     bt_next_job_id = 3, bt_current = 2, bt_previous = 1, bt_next_sequence = 3\<rparr>"

lemma done_jobs_facts:
  "table_ok done_jobs" "available_entry done_jobs = Inr 0" "0 < length (bt_entries done_jobs)"
  "be_known (bt_entries done_jobs ! 0)" "be_job_id (bt_entries done_jobs ! 0) = bt_current done_jobs"
  "gsh_background_add_job done_jobs 20 20 [20] 1 False ''c'' JOB_ORIGIN_CLASSIC = (Inr 2, reused_jobs)"
  by (simp_all add: done_jobs_def pipe_jobs_def pipe_entry_def table_ok_def entry_ok_def
      live_members_def available_entry_def entry_reclaimable_def gsh_background_add_job_def
      next_job_id_first job_id_in_use_def member_in_use_def count_job_id_def reused_jobs_def
      new_entry_def)

theorem add_job_stale_previous_witness:
  "gsh_background_resolve reused_jobs ''%-'' 0 = (JOBSPEC_MISSING, 1)"
  using add_job_stale_previous[OF done_jobs_facts] by (simp add: done_jobs_def pipe_jobs_def)

end
