(* ===== verification/ArithmeticValues.thy ===== *)
theory ArithmeticValues
  imports GshPrelude "HOL-Library.Signed_Division"
begin

text \<open>
  The values of arithmetic expansion in \<open>src/native_plan.c\<close>: the C type \<open>long\<close> (64 bits), its
  constants, its checked operators and its decimal text. A \<open>long\<close> is an \<open>int\<close>; the code tests
  for overflow before it computes, and \<open>long_ok\<close> of every result below shows that no
  signed overflow, which C leaves undefined, is ever reached. Division truncates
  (\<open>sdiv\<close>, \<open>smod\<close>), a right shift of a negative value keeps the sign as the compiler does.
\<close>

section \<open>The type long\<close>

abbreviation (input) LONG_MAX :: int where "LONG_MAX \<equiv> 9223372036854775807"
abbreviation (input) LONG_MIN :: int where "LONG_MIN \<equiv> - 9223372036854775808"
abbreviation (input) LONG_BITS :: int where "LONG_BITS \<equiv> 64"

definition long_ok :: "int \<Rightarrow> bool" where
  "long_ok v \<longleftrightarrow> LONG_MIN \<le> v \<and> v \<le> LONG_MAX"

section \<open>Constants\<close>

definition arithmetic_digit :: "byte \<Rightarrow> nat option" where
  "arithmetic_digit b =
    (if digit_byte b then Some (of_char b - of_char (CHR ''0''))
     else if CHR ''a'' \<le> b \<and> b \<le> CHR ''f'' then Some (10 + (of_char b - of_char (CHR ''a'')))
     else if CHR ''A'' \<le> b \<and> b \<le> CHR ''F'' then Some (10 + (of_char b - of_char (CHR ''A'')))
     else None)"

fun constant_digits :: "nat \<Rightarrow> nat \<Rightarrow> nat \<Rightarrow> byte list \<Rightarrow> nat option" where
  "constant_digits base maximum magnitude [] = Some magnitude"
| "constant_digits base maximum magnitude (b # s) =
    (case arithmetic_digit b of
       None \<Rightarrow> None
     | Some digit \<Rightarrow>
         if base \<le> digit \<or> (maximum - digit) div base < magnitude then None
         else constant_digits base maximum (magnitude * base + digit) s)"

text \<open>The base and the digits after the prefix; a single \<open>0\<close> is its own octal digit.\<close>

definition constant_base :: "byte list \<Rightarrow> nat \<times> byte list" where
  "constant_base s =
    (if hd s = CHR ''0'' then
       (if 1 < length s \<and> (s ! 1 = CHR ''x'' \<or> s ! 1 = CHR ''X'') then (16, drop 2 s) else (8, s))
     else (10, s))"

definition arithmetic_constant :: "byte list \<Rightarrow> int option" where
  "arithmetic_constant s =
    (let signed = (s \<noteq> [] \<and> (hd s = CHR ''+'' \<or> hd s = CHR ''-''));
         negative = (signed \<and> hd s = CHR ''-'');
         s = (if signed then tl s else s)
     in if s = [] then None
        else (case constant_base s of (base, digits) \<Rightarrow>
          let maximum = (if negative then nat LONG_MAX + 1 else nat LONG_MAX)
          in case constant_digits base maximum 0 digits of
               None \<Rightarrow> None
             | Some magnitude \<Rightarrow>
                 if digits = [] then None
                 else Some (if negative
                   then (if magnitude = nat LONG_MAX + 1 then LONG_MIN else - int magnitude)
                   else int magnitude)))"

section \<open>Checked operators\<close>

definition arithmetic_add :: "int \<Rightarrow> int \<Rightarrow> int option" where
  "arithmetic_add left right =
    (if 0 < right \<and> LONG_MAX - right < left \<or> right < 0 \<and> left < LONG_MIN - right then None
     else Some (left + right))"

definition arithmetic_subtract :: "int \<Rightarrow> int \<Rightarrow> int option" where
  "arithmetic_subtract left right =
    (if 0 < right \<and> left < LONG_MIN + right \<or> right < 0 \<and> LONG_MAX + right < left then None
     else Some (left - right))"

definition arithmetic_multiply :: "int \<Rightarrow> int \<Rightarrow> int option" where
  "arithmetic_multiply left right =
    (if left = 0 \<or> right = 0 then Some 0
     else if left = LONG_MIN \<and> right = - 1 \<or> right = LONG_MIN \<and> left = - 1 then None
     else if 0 < left then
       (if 0 < right \<and> LONG_MAX sdiv right < left \<or> right < 0 \<and> right < LONG_MIN sdiv left
        then None else Some (left * right))
     else if 0 < right \<and> left < LONG_MIN sdiv right \<or> right < 0 \<and> left < LONG_MAX sdiv right
       then None
     else Some (left * right))"

datatype arithmetic_assignment_operator =
    ASSIGN_NONE | ASSIGN_SET | ASSIGN_MULTIPLY | ASSIGN_DIVIDE | ASSIGN_REMAINDER | ASSIGN_ADD
  | ASSIGN_SUBTRACT | ASSIGN_SHIFT_LEFT | ASSIGN_SHIFT_RIGHT | ASSIGN_AND | ASSIGN_XOR | ASSIGN_OR

datatype arithmetic_operator =
    OPERATOR_NONE | OPERATOR_MULTIPLY | OPERATOR_DIVIDE | OPERATOR_REMAINDER | OPERATOR_ADD
  | OPERATOR_SUBTRACT | OPERATOR_SHIFT_LEFT | OPERATOR_SHIFT_RIGHT | OPERATOR_LESS
  | OPERATOR_LESS_EQUAL | OPERATOR_GREATER | OPERATOR_GREATER_EQUAL | OPERATOR_EQUAL
  | OPERATOR_NOT_EQUAL | OPERATOR_BITAND | OPERATOR_BITXOR | OPERATOR_BITOR
  | OPERATOR_LOGICAL_AND | OPERATOR_LOGICAL_OR

text \<open>The shift both kinds of operator share; \<open>None\<close> where it is out of range.\<close>

definition arithmetic_shift :: "bool \<Rightarrow> int \<Rightarrow> int \<Rightarrow> int option" where
  "arithmetic_shift left_shift left right =
    (if right < 0 \<or> LONG_BITS \<le> right \<or>
        left_shift \<and> (left < 0 \<or> drop_bit (nat right) LONG_MAX < left) then None
     else Some (if left_shift then push_bit (nat right) left else drop_bit (nat right) left))"

definition arithmetic_apply_assignment ::
  "arithmetic_assignment_operator \<Rightarrow> int \<Rightarrow> int \<Rightarrow> int option" where
  "arithmetic_apply_assignment operator left right =
    (case operator of
       ASSIGN_SET \<Rightarrow> Some right
     | ASSIGN_MULTIPLY \<Rightarrow> arithmetic_multiply left right
     | ASSIGN_DIVIDE \<Rightarrow>
         if right = 0 \<or> left = LONG_MIN \<and> right = - 1 then None else Some (left sdiv right)
     | ASSIGN_REMAINDER \<Rightarrow>
         if right = 0 \<or> left = LONG_MIN \<and> right = - 1 then None else Some (left smod right)
     | ASSIGN_ADD \<Rightarrow> arithmetic_add left right
     | ASSIGN_SUBTRACT \<Rightarrow> arithmetic_subtract left right
     | ASSIGN_SHIFT_LEFT \<Rightarrow> arithmetic_shift True left right
     | ASSIGN_SHIFT_RIGHT \<Rightarrow> arithmetic_shift False left right
     | ASSIGN_AND \<Rightarrow> Some (left AND right)
     | ASSIGN_XOR \<Rightarrow> Some (left XOR right)
     | ASSIGN_OR \<Rightarrow> Some (left OR right)
     | ASSIGN_NONE \<Rightarrow> None)"

text \<open>\<open>Inl\<close> is the diagnostic the code passes to \<open>arithmetic_failure\<close>.\<close>

definition arithmetic_apply_binary ::
  "arithmetic_operator \<Rightarrow> int \<Rightarrow> int \<Rightarrow> byte list + int" where
  "arithmetic_apply_binary operator left right =
    (let checked = (\<lambda>message result. case result of Some v \<Rightarrow> Inr v | None \<Rightarrow> Inl message);
         truth = (\<lambda>b. Inr (if b then 1 else 0))
     in case operator of
       OPERATOR_MULTIPLY \<Rightarrow> checked ''integer overflow'' (arithmetic_multiply left right)
     | OPERATOR_DIVIDE \<Rightarrow>
         if right = 0 then Inl ''division by zero''
         else if left = LONG_MIN \<and> right = - 1 then Inl ''integer overflow''
         else Inr (left sdiv right)
     | OPERATOR_REMAINDER \<Rightarrow>
         if right = 0 then Inl ''division by zero''
         else if left = LONG_MIN \<and> right = - 1 then Inl ''integer overflow''
         else Inr (left smod right)
     | OPERATOR_ADD \<Rightarrow> checked ''integer overflow'' (arithmetic_add left right)
     | OPERATOR_SUBTRACT \<Rightarrow> checked ''integer overflow'' (arithmetic_subtract left right)
     | OPERATOR_SHIFT_LEFT \<Rightarrow>
         checked ''shift count or value is out of range'' (arithmetic_shift True left right)
     | OPERATOR_SHIFT_RIGHT \<Rightarrow>
         checked ''shift count or value is out of range'' (arithmetic_shift False left right)
     | OPERATOR_LESS \<Rightarrow> truth (left < right)
     | OPERATOR_LESS_EQUAL \<Rightarrow> truth (left \<le> right)
     | OPERATOR_GREATER \<Rightarrow> truth (right < left)
     | OPERATOR_GREATER_EQUAL \<Rightarrow> truth (right \<le> left)
     | OPERATOR_EQUAL \<Rightarrow> truth (left = right)
     | OPERATOR_NOT_EQUAL \<Rightarrow> truth (left \<noteq> right)
     | OPERATOR_BITAND \<Rightarrow> Inr (left AND right)
     | OPERATOR_BITXOR \<Rightarrow> Inr (left XOR right)
     | OPERATOR_BITOR \<Rightarrow> Inr (left OR right)
     | OPERATOR_LOGICAL_AND \<Rightarrow> truth (left \<noteq> 0 \<and> right \<noteq> 0)
     | OPERATOR_LOGICAL_OR \<Rightarrow> truth (left \<noteq> 0 \<or> right \<noteq> 0)
     | OPERATOR_NONE \<Rightarrow> Inr left)"

section \<open>Decimal text\<close>

text \<open>The digits as the \<open>do\<close> loop stores them, least significant first.\<close>

fun reversed_digits :: "nat \<Rightarrow> byte list" where
  "reversed_digits n =
    char_of (48 + n mod 10) # (if n div 10 = 0 then [] else reversed_digits (n div 10))"

declare reversed_digits.simps [simp del]

text \<open>The output buffer is its used part; \<open>False\<close> is \<open>GSH_NATIVE_PLAN_LIMIT\<close>.\<close>

definition reserve_arithmetic_value :: "byte list \<Rightarrow> nat \<Rightarrow> int \<Rightarrow> bool \<times> byte list" where
  "reserve_arithmetic_value output capacity v =
    (if v < 0 \<and> length output = capacity then (False, output)
     else
       (let output = (if v < 0 then output @ ''-'' else output);
            magnitude = (if v < 0 then nat (- (v + 1)) + 1 else nat v);
            digits = reversed_digits magnitude
        in if capacity - length output < length digits then (False, output)
           else (True, output @ rev digits)))"

section \<open>The checked operators are exact\<close>

text \<open>
  What an operator means over the integers; \<open>None\<close> where C gives it no meaning. The remainder has
  none either when the quotient cannot be represented.
\<close>

definition operator_value :: "arithmetic_operator \<Rightarrow> int \<Rightarrow> int \<Rightarrow> int option" where
  "operator_value operator left right =
    (let truth = (\<lambda>b. Some (if b then 1 else 0))
     in case operator of
       OPERATOR_MULTIPLY \<Rightarrow> Some (left * right)
     | OPERATOR_DIVIDE \<Rightarrow> if right = 0 then None else Some (left sdiv right)
     | OPERATOR_REMAINDER \<Rightarrow>
         if right = 0 \<or> \<not> long_ok (left sdiv right) then None
         else Some (left - (left sdiv right) * right)
     | OPERATOR_ADD \<Rightarrow> Some (left + right)
     | OPERATOR_SUBTRACT \<Rightarrow> Some (left - right)
     | OPERATOR_SHIFT_LEFT \<Rightarrow>
         if 0 \<le> left \<and> 0 \<le> right \<and> right < LONG_BITS then Some (left * 2 ^ nat right) else None
     | OPERATOR_SHIFT_RIGHT \<Rightarrow>
         if 0 \<le> right \<and> right < LONG_BITS then Some (left div 2 ^ nat right) else None
     | OPERATOR_LESS \<Rightarrow> truth (left < right)
     | OPERATOR_LESS_EQUAL \<Rightarrow> truth (left \<le> right)
     | OPERATOR_GREATER \<Rightarrow> truth (left > right)
     | OPERATOR_GREATER_EQUAL \<Rightarrow> truth (left \<ge> right)
     | OPERATOR_EQUAL \<Rightarrow> truth (left = right)
     | OPERATOR_NOT_EQUAL \<Rightarrow> truth (left \<noteq> right)
     | OPERATOR_BITAND \<Rightarrow> Some (left AND right)
     | OPERATOR_BITXOR \<Rightarrow> Some (left XOR right)
     | OPERATOR_BITOR \<Rightarrow> Some (left OR right)
     | OPERATOR_LOGICAL_AND \<Rightarrow> truth (left \<noteq> 0 \<and> right \<noteq> 0)
     | OPERATOR_LOGICAL_OR \<Rightarrow> truth (left \<noteq> 0 \<or> right \<noteq> 0)
     | OPERATOR_NONE \<Rightarrow> Some left)"

definition in_range :: "int \<Rightarrow> int option" where
  "in_range v = (if long_ok v then Some v else None)"

lemma arithmetic_add_exact:
  "long_ok l \<Longrightarrow> long_ok r \<Longrightarrow> arithmetic_add l r = in_range (l + r)"
  by (auto simp: arithmetic_add_def in_range_def long_ok_def)

lemma arithmetic_subtract_exact:
  "long_ok l \<Longrightarrow> long_ok r \<Longrightarrow> arithmetic_subtract l r = in_range (l - r)"
  by (auto simp: arithmetic_subtract_def in_range_def long_ok_def)

lemma sdiv_signs:
  fixes a b :: int
  shows "0 \<le> a \<Longrightarrow> 0 < b \<Longrightarrow> a sdiv b = a div b"
    "a < 0 \<Longrightarrow> 0 < b \<Longrightarrow> a sdiv b = - ((- a) div b)"
    "0 \<le> a \<Longrightarrow> b < 0 \<Longrightarrow> a sdiv b = - (a div (- b))"
    "a < 0 \<Longrightarrow> b < 0 \<Longrightarrow> a sdiv b = (- a) div (- b)"
  by (cases "a = 0"; simp add: signed_divide_int_def)+

lemma div_less_times: "0 < (b :: int) \<Longrightarrow> a div b < c \<longleftrightarrow> a < c * b"
proof -
  assume b: "0 < b"
  have "c \<le> a div b" if "c * b \<le> a" using zdiv_mono1[OF that b] b by simp
  moreover have "c * b \<le> a" if "c \<le> a div b"
  proof -
    have "c * b \<le> (a div b) * b" using that b by simp
    also have "\<dots> \<le> a" using b by (metis add.commute add_le_cancel_left div_mult_mod_eq le_add_same_cancel1 pos_mod_sign)
    finally show ?thesis .
  qed
  ultimately show ?thesis by (meson not_le)
qed

lemma div_between:
  fixes a b :: int
  assumes "0 < b"
  shows "0 \<le> a \<Longrightarrow> 0 \<le> a div b \<and> a div b \<le> a" "a < 0 \<Longrightarrow> a \<le> a div b \<and> a div b < 0"
proof -
  have "a * b \<le> a" if "a < 0"
    using that assms mult_le_cancel_left1[of a b] by simp
  moreover have "a < (a + 1) * b" if "0 \<le> a"
  proof -
    have "(a + 1) * 1 \<le> (a + 1) * b" by (rule mult_left_mono) (use that assms in simp_all)
    then show ?thesis by simp
  qed
  ultimately show "0 \<le> a \<Longrightarrow> 0 \<le> a div b \<and> a div b \<le> a" "a < 0 \<Longrightarrow> a \<le> a div b \<and> a div b < 0"
    using div_less_times[OF assms, of a a] div_less_times[OF assms, of a "a + 1"] assms
    by (auto simp: pos_imp_zdiv_nonneg_iff pos_imp_zdiv_neg_iff)
qed

lemma arithmetic_multiply_exact:
  assumes "long_ok l" "long_ok r"
  shows "arithmetic_multiply l r = in_range (l * r)"
proof -
  consider (zero) "l = 0 \<or> r = 0" | (pp) "0 < l" "0 < r" | (pn) "0 < l" "r < 0"
    | (np) "l < 0" "0 < r" | (nn) "l < 0" "r < 0" by linarith
  then show ?thesis
  proof cases
    case zero
    then show ?thesis by (auto simp: arithmetic_multiply_def in_range_def long_ok_def)
  next
    case pp
    then have "0 < l * r" by simp
    then have "LONG_MIN \<le> l * r" by linarith
    with pp div_less_times[OF pp(2), of LONG_MAX l] show ?thesis
      by (simp add: arithmetic_multiply_def in_range_def long_ok_def sdiv_signs)
  next
    case pn
    then have "l * r < 0" by (simp add: mult_pos_neg)
    moreover have "r < LONG_MIN sdiv l \<longleftrightarrow> l * r < LONG_MIN"
      using pn div_less_times[OF pn(1), of "- LONG_MIN" "- r"]
      by (simp add: sdiv_signs mult.commute) linarith
    ultimately show ?thesis
      using pn by (auto simp: arithmetic_multiply_def in_range_def long_ok_def)
  next
    case np
    then have "l * r < 0" by (simp add: mult_neg_pos)
    moreover have "l < LONG_MIN sdiv r \<longleftrightarrow> l * r < LONG_MIN"
      using np div_less_times[OF np(2), of "- LONG_MIN" "- l"]
      by (simp add: sdiv_signs) linarith
    ultimately show ?thesis
      using np by (auto simp: arithmetic_multiply_def in_range_def long_ok_def)
  next
    case nn
    then have "0 < l * r" by (simp add: mult_neg_neg)
    moreover have "l < LONG_MAX sdiv r \<longleftrightarrow> LONG_MAX < l * r"
      using nn div_less_times[of "- r" LONG_MAX "- l"]
      by (simp add: sdiv_signs) linarith
    ultimately show ?thesis
      using nn by (auto simp: arithmetic_multiply_def in_range_def long_ok_def)
  qed
qed

lemma long_ok_bits: "long_ok v \<longleftrightarrow> signed_take_bit 63 v = v"
  by (simp add: long_ok_def signed_take_bit_int_eq_self_iff) linarith

lemma long_ok_bitwise:
  assumes "long_ok l" "long_ok r"
  shows "long_ok (l AND r)" "long_ok (l OR r)" "long_ok (l XOR r)" "long_ok (NOT l)"
proof -
  have bits: "bit v n \<longleftrightarrow> bit v (min 63 n)" if "long_ok v" for v :: int and n
    using that bit_signed_take_bit_iff[of 63 v n] by (metis long_ok_bits possible_bit_int)
  have ok: "long_ok v" if "\<And>n. bit v n \<longleftrightarrow> bit v (min 63 n)" for v :: int
    using that by (simp add: long_ok_bits bit_eq_iff bit_signed_take_bit_iff)
  show "long_ok (l AND r)" "long_ok (l OR r)" "long_ok (l XOR r)" "long_ok (NOT l)"
    using bits[OF assms(1)] bits[OF assms(2)]
    by (auto intro!: ok simp only: bit_and_iff bit_or_iff bit_xor_iff bit_not_iff possible_bit_int)
qed

lemma long_ok_div: "long_ok l \<Longrightarrow> long_ok (l div 2 ^ n)"
  using div_between[of "2 ^ n" l] by (cases "0 \<le> l") (auto simp: long_ok_def)

lemma arithmetic_shift_exact:
  assumes "long_ok l"
  shows "arithmetic_shift True l r = (if 0 \<le> l \<and> 0 \<le> r \<and> r < 64 then in_range (l * 2 ^ nat r) else None)"
    "arithmetic_shift False l r = (if 0 \<le> r \<and> r < 64 then Some (l div 2 ^ nat r) else None)"
proof -
  have "drop_bit (nat r) LONG_MAX < l \<longleftrightarrow> LONG_MAX < l * 2 ^ nat r"
    using div_less_times[of "2 ^ nat r" LONG_MAX l] by (simp add: drop_bit_eq_div)
  moreover have "LONG_MIN \<le> l * 2 ^ nat r" if "0 \<le> l"
  proof -
    have "0 \<le> l * 2 ^ nat r" using that by simp
    then show ?thesis by linarith
  qed
  ultimately show "arithmetic_shift True l r =
      (if 0 \<le> l \<and> 0 \<le> r \<and> r < 64 then in_range (l * 2 ^ nat r) else None)"
    by (auto simp: arithmetic_shift_def in_range_def long_ok_def push_bit_eq_mult)
  show "arithmetic_shift False l r = (if 0 \<le> r \<and> r < 64 then Some (l div 2 ^ nat r) else None)"
    by (auto simp: arithmetic_shift_def drop_bit_eq_div)
qed

lemma sdiv_range:
  assumes "long_ok l" "r \<noteq> 0"
  shows "long_ok (l sdiv r) \<longleftrightarrow> \<not> (l = LONG_MIN \<and> r = - 1)"
    "long_ok r \<Longrightarrow> long_ok (l smod r)"
proof -
  have le: "\<bar>l\<bar> div \<bar>r\<bar> \<le> \<bar>l\<bar>" "0 \<le> \<bar>l\<bar> div \<bar>r\<bar>"
    using div_between(1)[of "\<bar>r\<bar>" "\<bar>l\<bar>"] assms(2) by simp_all
  have strict: "\<bar>l\<bar> div \<bar>r\<bar> < \<bar>l\<bar>" if "1 < \<bar>r\<bar>" "l \<noteq> 0"
    using that int_div_less_self[of "\<bar>l\<bar>" "\<bar>r\<bar>"] by simp
  show "long_ok (l sdiv r) \<longleftrightarrow> \<not> (l = LONG_MIN \<and> r = - 1)"
  proof (cases "1 < \<bar>r\<bar>")
    case True
    with strict le assms(1) show ?thesis
      by (cases "l = 0") (auto simp: signed_divide_int_def long_ok_def sgn_if)
  next
    case False
    with assms(2) have "r = 1 \<or> r = - 1" by linarith
    with assms(1) show ?thesis by (auto simp: signed_divide_int_def long_ok_def sgn_if)
  qed
  have "\<bar>l\<bar> mod \<bar>r\<bar> < \<bar>r\<bar>" "0 \<le> \<bar>l\<bar> mod \<bar>r\<bar>" using assms(2) by simp_all
  then show "long_ok r \<Longrightarrow> long_ok (l smod r)"
    by (auto simp: signed_modulo_int_def long_ok_def sgn_if)
qed

lemma long_ok_small [simp]: "long_ok 0" "long_ok 1"
  by (simp_all add: long_ok_def)

lemma long_not_ok_above: "\<not> long_ok 9223372036854775808"
  by (simp add: long_ok_def)

lemma apply_binary_exact:
  assumes "long_ok l" "long_ok r"
  shows "case arithmetic_apply_binary operator l r of
      Inr v \<Rightarrow> operator_value operator l r = Some v \<and> long_ok v
    | Inl message \<Rightarrow> (case operator_value operator l r of None \<Rightarrow> True | Some v \<Rightarrow> \<not> long_ok v)"
  using assms
  by (cases operator)
    (simp_all add: arithmetic_apply_binary_def operator_value_def Let_def in_range_def
      arithmetic_add_exact arithmetic_subtract_exact arithmetic_multiply_exact
      arithmetic_shift_exact long_not_ok_above sdiv_range long_ok_bitwise long_ok_div minus_sdiv_mult_eq_smod)

lemma apply_assignment_long_ok:
  assumes "arithmetic_apply_assignment operator l r = Some v" "long_ok l" "long_ok r"
  shows "long_ok v"
  using assms
  by (cases operator)
    (simp_all add: arithmetic_apply_assignment_def in_range_def arithmetic_add_exact
      arithmetic_subtract_exact arithmetic_multiply_exact arithmetic_shift_exact sdiv_range
      long_ok_bitwise long_ok_div split: if_splits, auto simp: sdiv_range long_ok_div intro: long_ok_bitwise)

lemma constant_digits_bound:
  assumes "constant_digits base maximum m digits = Some n" "m \<le> maximum" "base \<le> maximum"
    "0 < base"
  shows "n \<le> maximum"
  using assms(1,2)
proof (induction digits arbitrary: m)
  case (Cons b digits)
  obtain d where d: "arithmetic_digit b = Some d" "d < base" "m \<le> (maximum - d) div base"
    "constant_digits base maximum (m * base + d) digits = Some n"
    using Cons.prems(1) by (auto split: option.splits if_splits)
  have "m * base \<le> maximum - d"
    using d(3) by (meson div_times_less_eq_dividend le_trans mult_le_mono1)
  with Cons.IH[OF d(4)] d(2) assms(3) show ?case by simp
qed simp

lemma arithmetic_constant_long_ok: "arithmetic_constant s = Some v \<Longrightarrow> long_ok v"
  by (auto simp: arithmetic_constant_def constant_base_def Let_def long_ok_def
      split: if_splits option.splits prod.splits
      dest!: constant_digits_bound)

section \<open>Printing and reading back\<close>

lemma reversed_digits_size:
  "length (reversed_digits n) = (if n < 10 then 1 else Suc (length (reversed_digits (n div 10))))"
  by (subst reversed_digits.simps) auto

lemma reversed_digits_bound: "n < 10 ^ Suc k \<Longrightarrow> length (reversed_digits n) \<le> Suc k"
proof (induction k arbitrary: n)
  case 0
  then show ?case by (simp add: reversed_digits_size)
next
  case (Suc k)
  then have "n div 10 < 10 ^ Suc k" by (simp add: div_less_iff_less_mult mult.commute)
  with Suc.IH show ?case by (subst reversed_digits_size) simp
qed

lemma arithmetic_digit_decimal: "d < 10 \<Longrightarrow> arithmetic_digit (char_of (48 + d :: nat)) = Some d"
  by (simp add: arithmetic_digit_def digit_byte_def less_eq_char_def)

lemma constant_digits_append:
  "constant_digits base maximum m (s @ t) =
    (case constant_digits base maximum m s of
       None \<Rightarrow> None | Some m \<Rightarrow> constant_digits base maximum m t)"
  by (induction s arbitrary: m) (auto split: option.splits)

lemma constant_digits_decimal:
  "n \<le> maximum \<Longrightarrow> constant_digits 10 maximum 0 (rev (reversed_digits n)) = Some n"
proof (induction n rule: reversed_digits.induct)
  case (1 n)
  have fits: "n div 10 \<le> (maximum - n mod 10) div 10"
    using 1(2) by (simp add: less_eq_div_iff_mult_less_eq) presburger
  show ?case
  proof (cases "n div 10 = 0")
    case True
    then have "n < 10" by simp
    then show ?thesis using 1(2) by (subst reversed_digits.simps) (simp add: arithmetic_digit_decimal)
  next
    case False
    with 1 have "constant_digits 10 maximum 0 (rev (reversed_digits (n div 10))) = Some (n div 10)"
      using div_le_dividend le_trans by blast
    with False fits show ?thesis
      by (subst reversed_digits.simps)
        (simp add: arithmetic_digit_decimal constant_digits_append not_less)
  qed
qed

lemma decimal_byte:
  assumes "d < 10"
  shows "digit_byte (char_of (48 + d :: nat))" "char_of (48 + d) = CHR ''0'' \<longleftrightarrow> d = 0"
proof -
  show "digit_byte (char_of (48 + d :: nat))"
    using assms by (simp add: digit_byte_def less_eq_char_def)
  have "of_char (char_of (48 + d) :: char) = 48 + d" "of_char (CHR ''0'') = (48 :: nat)"
    using assms by simp_all
  then show "char_of (48 + d) = CHR ''0'' \<longleftrightarrow> d = 0"
    by (metis add.right_neutral add_left_cancel of_char_eq_iff)
qed

lemma reversed_digits_last:
  "reversed_digits n \<noteq> [] \<and> digit_byte (last (reversed_digits n)) \<and>
    (0 < n \<longrightarrow> last (reversed_digits n) \<noteq> CHR ''0'')"
proof (induction n rule: reversed_digits.induct)
  case (1 n)
  show ?case
  proof (cases "n div 10 = 0")
    case True
    then have "n < 10" by simp
    with True show ?thesis by (subst (1 2 3) reversed_digits.simps) (simp add: decimal_byte)
  next
    case False
    with 1 show ?thesis by (subst (1 2 3) reversed_digits.simps) simp
  qed
qed

lemma reserved_text:
  assumes "long_ok v"
  shows "reserve_arithmetic_value [] 26 v =
    (True, (if v < 0 then ''-'' else []) @ rev (reversed_digits (nat \<bar>v\<bar>)))"
proof -
  have "nat \<bar>v\<bar> < 10 ^ Suc 18" using assms by (simp add: long_ok_def nat_less_iff abs_less_iff)
  then have "length (reversed_digits (nat \<bar>v\<bar>)) \<le> 19"
    using reversed_digits_bound[of "nat \<bar>v\<bar>" 18] by simp
  moreover have "nat (- (v + 1)) + 1 = nat \<bar>v\<bar>" if "v < 0" using that by linarith
  ultimately show ?thesis
    by (auto simp: reserve_arithmetic_value_def Let_def simp del: One_nat_def add_Suc_right)
qed

lemma digit_byte_head:
  "digit_byte c \<Longrightarrow> c \<noteq> CHR ''+'' \<and> c \<noteq> CHR ''-''"
  by (auto simp: digit_byte_def)

lemma arithmetic_constant_decimal:
  assumes "long_ok v"
  shows "arithmetic_constant ((if v < 0 then ''-'' else []) @ rev (reversed_digits (nat \<bar>v\<bar>))) = Some v"
proof -
  let ?n = "nat \<bar>v\<bar>" and ?s = "rev (reversed_digits (nat \<bar>v\<bar>))"
  have s: "?s \<noteq> []" "hd ?s \<noteq> CHR ''+''" "hd ?s \<noteq> CHR ''-''"
    "0 < ?n \<Longrightarrow> hd ?s \<noteq> CHR ''0''"
    using reversed_digits_last[of ?n] digit_byte_head by (auto simp: hd_rev)
  show ?thesis
  proof (cases "v = 0")
    case True
    then have "rev (reversed_digits (nat \<bar>v\<bar>)) = ''0''"
      using decimal_byte(2)[of 0] by (subst reversed_digits.simps) simp
    with True show ?thesis
      by (simp add: arithmetic_constant_def constant_base_def arithmetic_digit_def digit_byte_def)
  next
    case False
    then have base: "constant_base ?s = (10, ?s)" using s(4) by (simp add: constant_base_def)
    show ?thesis
    proof (cases "v < 0")
      case True
      then have "constant_digits 10 (nat LONG_MAX + 1) 0 ?s = Some ?n"
        using assms by (intro constant_digits_decimal) (simp add: long_ok_def nat_le_iff)
      with True s base show ?thesis by (simp add: arithmetic_constant_def Let_def) (simp add: nat_eq_iff)
    next
      case False
      then have "constant_digits 10 (nat LONG_MAX) 0 ?s = Some ?n"
        using assms by (intro constant_digits_decimal) (simp add: long_ok_def nat_le_iff)
      with False s base show ?thesis by (simp add: arithmetic_constant_def Let_def)
    qed
  qed
qed



end
