(* ===== verification/PackedText.thy ===== *)
theory PackedText
  imports Aliases
begin

text \<open>
  Entries over a packed text. The alias store, the variable store and the variable journal keep
  arrays of entries whose offsets point into one text of assignments; replacing or removing an
  assignment moves the tail of the text and the offsets behind it. The alias store's entries
  are the reference (\<open>entries_of\<close>); the locale says what another type of entry must offer for
  the same lemmas, and each store interprets it on its own record.
\<close>

section \<open>Entries that can be moved\<close>

text \<open>
  \<open>core\<close> is the part of an entry an alias entry has too, up to \<open>blank\<close>, which forgets what the
  type at hand does not keep; \<open>move\<close> is the update of the offset.
\<close>

locale moving_entries =
  fixes core :: "'e \<Rightarrow> gsh_alias_entry"
    and blank :: "gsh_alias_entry \<Rightarrow> gsh_alias_entry"
    and offset :: "'e \<Rightarrow> nat"
    and move :: "nat \<Rightarrow> 'e \<Rightarrow> 'e"
  assumes offset_core: "ae_offset (core e) = offset e"
    and core_move: "core (move k e) = (core e)\<lparr>ae_offset := k\<rparr>"
    and offset_blank: "ae_offset (blank a) = ae_offset a"
    and blank_move: "blank (a\<lparr>ae_offset := k\<rparr>) = (blank a)\<lparr>ae_offset := k\<rparr>"
begin

definition packed :: "'e list \<Rightarrow> nat \<Rightarrow> (byte list \<times> byte list) list \<Rightarrow> bool" where
  "packed es k ps \<longleftrightarrow> map core es = map blank (entries_of k ps)"

lemma packed_length: "packed es k ps \<Longrightarrow> length es = length ps"
  unfolding packed_def by (metis length_entries_of length_map)

lemma packed_append:
  "packed (es @ fs) k (ps @ qs) \<longleftrightarrow>
    packed es k ps \<and> packed fs (k + length (assignments ps)) qs" if "length es = length ps"
  using that by (simp add: packed_def entries_of_append)

lemma packed_Cons:
  "packed (e # es) k ((name, val) # ps) \<longleftrightarrow>
    core e = blank \<lparr>ae_offset = k, ae_length = length name + length val + 2,
      ae_hash = name_hash name, ae_name_length = length name\<rparr> \<and>
    packed es (k + (length name + length val + 2)) ps"
  by (simp add: packed_def)

lemma packed_offset:
  assumes "packed es k ps" "e \<in> set es"
  shows "k \<le> offset e \<and> offset e < k + length (assignments ps)"
proof -
  have "core e \<in> set (map blank (entries_of k ps))"
    using assms unfolding packed_def by (metis imageI list.set_map)
  then obtain a where "a \<in> set (entries_of k ps)" "core e = blank a" by auto
  then show ?thesis
    using entries_of_offsets[of a k ps] offset_core[of e] offset_blank[of a] by simp
qed

lemma packed_before:
  assumes "packed es k ps" "\<And>e. offset e < k + length (assignments ps) \<Longrightarrow> f e = e"
  shows "map f es = es"
  using packed_offset[OF assms(1)] assms(2) by (intro map_idI) blast

lemma packed_shift:
  assumes "packed es k ps" "b \<le> k" "\<And>e. k \<le> offset e \<Longrightarrow> f e = move (offset e + a - b) e"
  shows "packed (map f es) (k + a - b) ps"
proof -
  let ?g = "\<lambda>e. e\<lparr>ae_offset := ae_offset e + a - b\<rparr>"
  have "map core (map f es) = map ?g (map core es)"
    using packed_offset[OF assms(1)] assms(3) by (simp add: core_move offset_core)
  also have "\<dots> = map blank (map ?g (entries_of k ps))"
    using assms(1) by (simp add: packed_def blank_move offset_blank del: map_map)
      (simp add: blank_move offset_blank)
  also have "map ?g (entries_of k ps) = entries_of (k + a - b) ps"
    using assms(2) by (intro entries_of_shift) simp_all
  finally show ?thesis by (simp add: packed_def)
qed

text \<open>Moving everything behind one entry.\<close>

lemma packed_around:
  assumes es: "packed (es @ e # fs) 0 (ps @ (name, old) # qs)" and len: "length es = length ps"
  defines "off \<equiv> length (assignments ps)" and "gap \<equiv> length name + length old + 2"
  assumes f: "\<And>e. off < offset e \<Longrightarrow> f e = move (offset e + new - gap) e"
    "\<And>e. offset e \<le> off \<Longrightarrow> f e = e"
  shows "map f es = es" "f e = e" "packed (map f fs) (off + new) qs"
proof -
  have parts: "packed es 0 ps" "packed (e # fs) off ((name, old) # qs)"
    using es len by (simp_all add: packed_append off_def)
  then have tail: "packed fs (off + gap) qs" and at: "core e = blank \<lparr>ae_offset = off,
      ae_length = length name + length old + 2, ae_hash = name_hash name,
      ae_name_length = length name\<rparr>"
    by (simp_all add: packed_Cons gap_def add.assoc)
  show "map f es = es" by (rule packed_before[OF parts(1)]) (simp add: f(2) off_def)
  have "offset e = off" using offset_core[of e] by (simp add: at offset_blank)
  then show "f e = e" using f(2) by simp
  have "packed (map f fs) (off + gap + new - gap) qs"
  proof (rule packed_shift[OF tail])
    show "off + gap \<le> offset e \<Longrightarrow> f e = move (offset e + new - gap) e" for e
      by (rule f(1)) (simp add: gap_def)
  qed simp
  then show "packed (map f fs) (off + new) qs" by simp
qed

end

end
