(* ===== verification/Variables.thy ===== *)
theory Variables
  imports PackedText
begin

text \<open>
  The variable store of \<open>src/shell_variables.c\<close>: 1024 entries over a packed text of
  assignments, behind the probing index of 2048 slots. The text is its used part. The array
  of entries is \<open>vs_entries\<close> followed by \<open>vs_beyond\<close>, the cells behind \<open>count\<close>: a new entry
  keeps the generation its cell last held, so they are part of the state.

  Attributes are the C bits in 16-bit words; masks and attributes of a call are \<open>unsigned int\<close>.
  A failing \<open>require\<close> returns \<open>-1\<close> and leaves \<open>errno\<close>; its conditions hold in every call of
  this file, and it is left out.
\<close>

section \<open>The store\<close>

abbreviation (input) GSH_VARIABLE_CAP :: nat where "GSH_VARIABLE_CAP \<equiv> 1024"
abbreviation (input) GSH_VARIABLE_HASH_CAP :: nat where "GSH_VARIABLE_HASH_CAP \<equiv> 2048"
abbreviation (input) GSH_VARIABLE_TEXT_CAP :: nat where "GSH_VARIABLE_TEXT_CAP \<equiv> 262144"
abbreviation (input) GSH_VARIABLE_VALUE_CAP :: nat where "GSH_VARIABLE_VALUE_CAP \<equiv> 65535"
abbreviation (input) GSH_VARIABLE_IMPORT_SCAN_CAP :: nat where "GSH_VARIABLE_IMPORT_SCAN_CAP \<equiv> 4096"
abbreviation (input) GSH_VARIABLE_EXPORTED :: "'a::len word" where "GSH_VARIABLE_EXPORTED \<equiv> 1"
abbreviation (input) GSH_VARIABLE_READONLY :: "'a::len word" where "GSH_VARIABLE_READONLY \<equiv> 2"
abbreviation (input) GSH_VARIABLE_ATTRIBUTE_MASK :: "'a::len word" where
  "GSH_VARIABLE_ATTRIBUTE_MASK \<equiv> 3"
abbreviation (input) GSH_VARIABLE_INTERNAL_UNSET :: "'a::len word" where
  "GSH_VARIABLE_INTERNAL_UNSET \<equiv> 32768"

record gsh_variable_entry =
  ve_offset :: nat
  ve_length :: nat
  ve_hash :: uint32
  ve_name_length :: nat
  ve_attributes :: "16 word"
  ve_generation :: uint64

record gsh_variable_store =
  vs_entries :: "gsh_variable_entry list"
  vs_beyond :: "gsh_variable_entry list"
  vs_slots :: "16 word list"
  vs_text :: "byte list"
  vs_path_generation :: uint64
  vs_next_generation :: uint64

definition gsh_variable_name_is_valid :: "byte list \<Rightarrow> bool" where
  "gsh_variable_name_is_valid name \<longleftrightarrow>
    name \<noteq> [] \<and> name_start_byte (hd name) \<and> list_all name_byte (tl name)"

definition variable_hash :: "byte list \<Rightarrow> uint32" where
  "variable_hash name = fnv1a 2166136261 name"

definition gsh_variables_initialize :: "gsh_variable_store" where
  "gsh_variables_initialize =
    \<lparr>vs_entries = [],
     vs_beyond = replicate GSH_VARIABLE_CAP
       \<lparr>ve_offset = 0, ve_length = 0, ve_hash = 0, ve_name_length = 0, ve_attributes = 0,
        ve_generation = 0\<rparr>,
     vs_slots = empty_index GSH_VARIABLE_HASH_CAP, vs_text = [], vs_path_generation = 0,
     vs_next_generation = 1\<rparr>"

definition entry_name_matches ::
  "gsh_variable_store \<Rightarrow> gsh_variable_entry \<Rightarrow> byte list \<Rightarrow> uint32 \<Rightarrow> bool" where
  "entry_name_matches s e name hash \<longleftrightarrow>
    ve_hash e = hash \<and> ve_name_length e = length name \<and> ve_offset e < length (vs_text s) \<and>
    take (Suc (length name)) (drop (ve_offset e) (vs_text s)) = name @ ''=''"

text \<open>\<open>None\<close> is the C's \<open>GSH_VARIABLE_CAP\<close>.\<close>

definition variable_index :: "gsh_variable_store \<Rightarrow> byte list \<Rightarrow> uint32 \<Rightarrow> nat option" where
  "variable_index s name hash =
    index_find (vs_slots s)
      (\<lambda>i. i < length (vs_entries s) \<and> entry_name_matches s (vs_entries s ! i) name hash) hash"

definition insert_hash_slot ::
  "gsh_variable_store \<Rightarrow> nat \<Rightarrow> errno option \<times> gsh_variable_store" where
  "insert_hash_slot s index =
    (case index_insert (vs_slots s) (ve_hash (vs_entries s ! index)) index of
       Some slots \<Rightarrow> (None, s\<lparr>vs_slots := slots\<rparr>)
     | None \<Rightarrow> (Some ENOSPC, s))"

section \<open>Reading\<close>

text \<open>\<open>None\<close> is an empty text with \<open>*found\<close> false.\<close>

definition gsh_variables_lookup :: "gsh_variable_store \<Rightarrow> byte list \<Rightarrow> byte list option" where
  "gsh_variables_lookup s name =
    (if \<not> gsh_variable_name_is_valid name then None
     else case variable_index s name (variable_hash name) of
       None \<Rightarrow> None
     | Some index \<Rightarrow>
         if ve_attributes (vs_entries s ! index) AND GSH_VARIABLE_INTERNAL_UNSET \<noteq> 0 then None
         else Some (cstring_at (vs_text s) (ve_offset (vs_entries s ! index) + length name + 1)))"

text \<open>\<open>None\<close> is \<open>false\<close>; otherwise \<open>*is_set\<close> and \<open>*attributes\<close>.\<close>

definition gsh_variables_get_state ::
  "gsh_variable_store \<Rightarrow> byte list \<Rightarrow> (bool \<times> uint32) option" where
  "gsh_variables_get_state s name =
    (if \<not> gsh_variable_name_is_valid name then None
     else case variable_index s name (variable_hash name) of
       None \<Rightarrow> None
     | Some index \<Rightarrow>
         Some (ve_attributes (vs_entries s ! index) AND GSH_VARIABLE_INTERNAL_UNSET = 0,
               ucast (ve_attributes (vs_entries s ! index)) AND GSH_VARIABLE_ATTRIBUTE_MASK))"

definition gsh_variables_count :: "gsh_variable_store \<Rightarrow> nat" where
  "gsh_variables_count s = length (vs_entries s)"

definition gsh_variables_assignment ::
  "gsh_variable_store \<Rightarrow> nat \<Rightarrow> (byte list \<times> uint32) option" where
  "gsh_variables_assignment s index =
    (if gsh_variables_count s \<le> index then None
     else Some (cstring_at (vs_text s) (ve_offset (vs_entries s ! index)),
                ucast (ve_attributes (vs_entries s ! index)) AND GSH_VARIABLE_ATTRIBUTE_MASK))"

definition gsh_variables_is_set :: "gsh_variable_store \<Rightarrow> nat \<Rightarrow> bool" where
  "gsh_variables_is_set s index \<longleftrightarrow> index < length (vs_entries s) \<and>
    ve_attributes (vs_entries s ! index) AND GSH_VARIABLE_INTERNAL_UNSET = 0"

definition gsh_variables_path_generation :: "gsh_variable_store \<Rightarrow> uint64" where
  "gsh_variables_path_generation s = vs_path_generation s"

definition gsh_variables_value_generation :: "gsh_variable_store \<Rightarrow> byte list \<Rightarrow> uint64" where
  "gsh_variables_value_generation s name =
    (if \<not> gsh_variable_name_is_valid name then 0
     else case variable_index s name (variable_hash name) of
       None \<Rightarrow> 0
     | Some index \<Rightarrow> ve_generation (vs_entries s ! index))"

section \<open>Writing\<close>

definition successful_update ::
  "gsh_variable_store \<Rightarrow> byte list \<Rightarrow> bool \<Rightarrow> errno option \<times> gsh_variable_store" where
  "successful_update s name set_value =
    (None, if set_value \<and> name = ''PATH''
       then s\<lparr>vs_path_generation := vs_path_generation s + 1\<rparr> else s)"

text \<open>The counter is the number of attempts left.\<close>

fun mark_attempts ::
  "nat \<Rightarrow> gsh_variable_store \<Rightarrow> nat \<Rightarrow> errno option \<times> gsh_variable_store" where
  "mark_attempts 0 s index = (Some EOVERFLOW, s)"
| "mark_attempts (Suc attempts) s index =
    (let candidate = vs_next_generation s;
         s = s\<lparr>vs_next_generation := (if candidate + 1 = 0 then 1 else candidate + 1)\<rparr>
     in if candidate = 0 \<or> list_ex (\<lambda>e. ve_generation e = candidate) (vs_entries s)
        then mark_attempts attempts s index
        else (None, s\<lparr>vs_entries := (vs_entries s)
               [index := (vs_entries s ! index)\<lparr>ve_generation := candidate\<rparr>]\<rparr>))"

definition mark_value_update ::
  "gsh_variable_store \<Rightarrow> nat \<Rightarrow> errno option \<times> gsh_variable_store" where
  "mark_value_update s index = mark_attempts (length (vs_entries s) + 1) s index"

definition merge_attributes :: "16 word \<Rightarrow> uint32 \<Rightarrow> uint32 \<Rightarrow> 16 word" where
  "merge_attributes old attribute_mask attributes =
    ucast ((ucast old AND NOT attribute_mask) OR (attributes AND attribute_mask))"

definition marked_update ::
  "gsh_variable_store \<Rightarrow> nat \<Rightarrow> byte list \<Rightarrow> errno option \<times> gsh_variable_store" where
  "marked_update s index name =
    (case mark_value_update s index of
       (Some err, s) \<Rightarrow> (Some err, s)
     | (None, s) \<Rightarrow> successful_update s name True)"

definition update_existing_variable ::
  "gsh_variable_store \<Rightarrow> nat \<Rightarrow> byte list \<Rightarrow> byte list \<Rightarrow> uint32 \<Rightarrow> uint32 \<Rightarrow> bool \<Rightarrow>
    errno option \<times> gsh_variable_store" where
  "update_existing_variable s index name val attribute_mask attributes set_value =
    (let entry = vs_entries s ! index;
         new_length = length name + length val + 2;
         old_offset = ve_offset entry;
         old_length = ve_length entry;
         merged = merge_attributes (ve_attributes entry) attribute_mask attributes
     in if ve_attributes entry AND GSH_VARIABLE_READONLY \<noteq> 0 \<and>
           (set_value \<or> attribute_mask AND GSH_VARIABLE_READONLY \<noteq> 0 \<and>
             attributes AND GSH_VARIABLE_READONLY = 0)
        then (Some EROFS, s)
        else if \<not> set_value
        then (None, s\<lparr>vs_entries := (vs_entries s)[index := entry\<lparr>ve_attributes := merged\<rparr>]\<rparr>)
        else if ve_attributes entry AND GSH_VARIABLE_INTERNAL_UNSET = 0 \<and>
           old_length = new_length \<and>
           take (length val) (drop (old_offset + length name + 1) (vs_text s)) = val
        then marked_update
          (s\<lparr>vs_entries := (vs_entries s)[index := entry\<lparr>ve_attributes := merged\<rparr>]\<rparr>) index name
        else if old_length < new_length \<and>
           GSH_VARIABLE_TEXT_CAP - length (vs_text s) < new_length - old_length
        then (Some ENOSPC, s)
        else
          (let moved = (if new_length \<noteq> old_length
             then map (\<lambda>other. if old_offset < ve_offset other
                    then other\<lparr>ve_offset := ve_offset other + new_length - old_length\<rparr> else other)
                  (vs_entries s)
             else vs_entries s)
           in marked_update
             (s\<lparr>vs_entries := moved[index := (moved ! index)\<lparr>ve_length := new_length,
                  ve_attributes := merged AND NOT GSH_VARIABLE_INTERNAL_UNSET\<rparr>],
                vs_text := take old_offset (vs_text s) @ assignment_bytes name val @
                  drop (old_offset + old_length) (vs_text s)\<rparr>) index name))"

text \<open>Taking the newest entry back: \<open>count\<close> and \<open>text_used\<close> fall, its cell keeps what it holds.\<close>

definition drop_newest :: "gsh_variable_store \<Rightarrow> nat \<Rightarrow> gsh_variable_store" where
  "drop_newest s new_length =
    s\<lparr>vs_entries := butlast (vs_entries s), vs_beyond := last (vs_entries s) # vs_beyond s,
      vs_text := take (length (vs_text s) - new_length) (vs_text s)\<rparr>"

definition insert_variable ::
  "gsh_variable_store \<Rightarrow> uint32 \<Rightarrow> byte list \<Rightarrow> byte list \<Rightarrow> uint32 \<Rightarrow> uint32 \<Rightarrow> bool \<Rightarrow>
    errno option \<times> gsh_variable_store" where
  "insert_variable s hash name val attribute_mask attributes set_value =
    (let index = length (vs_entries s);
         new_length = length name + length val + 2
     in if index = GSH_VARIABLE_CAP \<or> GSH_VARIABLE_TEXT_CAP - length (vs_text s) < new_length
        then (Some ENOSPC, s)
        else case insert_hash_slot
            (s\<lparr>vs_entries := vs_entries s @
                 [\<lparr>ve_offset = length (vs_text s), ve_length = new_length, ve_hash = hash,
                   ve_name_length = length name,
                   ve_attributes = ucast (attributes AND attribute_mask OR
                     (if set_value then 0 else GSH_VARIABLE_INTERNAL_UNSET)),
                   ve_generation = ve_generation (hd (vs_beyond s))\<rparr>],
               vs_beyond := tl (vs_beyond s),
               vs_text := vs_text s @ assignment_bytes name val\<rparr>) index of
          (Some err, s) \<Rightarrow> (Some err, drop_newest s new_length)
        | (None, s) \<Rightarrow>
            if set_value then
              (case mark_value_update s index of
                 (Some err, s) \<Rightarrow> (Some err, drop_newest s new_length)
               | (None, s) \<Rightarrow> successful_update s name set_value)
            else successful_update s name set_value)"

definition set_variable ::
  "gsh_variable_store \<Rightarrow> byte list \<Rightarrow> byte list \<Rightarrow> uint32 \<Rightarrow> uint32 \<Rightarrow> bool \<Rightarrow>
    errno option \<times> gsh_variable_store" where
  "set_variable s name val attribute_mask attributes set_value =
    (if \<not> gsh_variable_name_is_valid name \<or> UINT16_MAX < length name \<or>
        GSH_VARIABLE_VALUE_CAP < length val \<or>
        GSH_VARIABLE_ATTRIBUTE_MASK < attribute_mask \<or> GSH_VARIABLE_ATTRIBUTE_MASK < attributes \<or>
        attributes AND NOT attribute_mask \<noteq> 0
     then (Some EINVAL, s)
     else if SIZE_MAX - length val - 2 < length name then (Some E2BIG, s)
     else if GSH_VARIABLE_TEXT_CAP < length name + length val + 2 then (Some E2BIG, s)
     else case variable_index s name (variable_hash name) of
       Some index \<Rightarrow>
         update_existing_variable s index name val attribute_mask attributes set_value
     | None \<Rightarrow>
         insert_variable s (variable_hash name) name val attribute_mask attributes set_value)"

definition gsh_variables_set ::
  "gsh_variable_store \<Rightarrow> byte list \<Rightarrow> byte list \<Rightarrow> uint32 \<Rightarrow> uint32 \<Rightarrow>
    errno option \<times> gsh_variable_store" where
  "gsh_variables_set s name val attribute_mask attributes =
    set_variable s name val attribute_mask attributes True"

definition gsh_variables_set_attributes ::
  "gsh_variable_store \<Rightarrow> byte list \<Rightarrow> uint32 \<Rightarrow> uint32 \<Rightarrow> errno option \<times> gsh_variable_store" where
  "gsh_variables_set_attributes s name attribute_mask attributes =
    set_variable s name [] attribute_mask attributes False"

text \<open>Rebuilding ignores the result of each insertion, as the C does.\<close>

fun insert_slots :: "gsh_variable_store \<Rightarrow> nat list \<Rightarrow> gsh_variable_store" where
  "insert_slots s [] = s"
| "insert_slots s (index # rest) = insert_slots (snd (insert_hash_slot s index)) rest"

definition rebuild_variable_hash :: "gsh_variable_store \<Rightarrow> gsh_variable_store" where
  "rebuild_variable_hash s =
    insert_slots (s\<lparr>vs_slots := empty_index GSH_VARIABLE_HASH_CAP\<rparr>) [0..<length (vs_entries s)]"

definition gsh_variables_unset ::
  "gsh_variable_store \<Rightarrow> byte list \<Rightarrow> errno option \<times> gsh_variable_store" where
  "gsh_variables_unset s name =
    (if \<not> gsh_variable_name_is_valid name then (Some EINVAL, s)
     else case variable_index s name (variable_hash name) of
       None \<Rightarrow> successful_update s name True
     | Some index \<Rightarrow>
         if ve_attributes (vs_entries s ! index) AND GSH_VARIABLE_READONLY \<noteq> 0
         then (Some EROFS, s)
         else
           (let text_offset = ve_offset (vs_entries s ! index);
                text_length = ve_length (vs_entries s ! index);
                kept = take index (vs_entries s) @ drop (Suc index) (vs_entries s)
            in successful_update (rebuild_variable_hash
                 (s\<lparr>vs_entries := map (\<lambda>other. if text_offset < ve_offset other
                       then other\<lparr>ve_offset := ve_offset other - text_length\<rparr> else other) kept,
                    vs_beyond := last (vs_entries s) # vs_beyond s,
                    vs_text := take text_offset (vs_text s) @
                      drop (text_offset + text_length) (vs_text s)\<rparr>)) name True))"

text \<open>
  The environment is the list of its strings before the closing \<open>NULL\<close>. The counter is the
  number of entries the scan may still read; reading the \<open>NULL\<close> takes one too.
\<close>

fun import_entries ::
  "nat \<Rightarrow> gsh_variable_store \<Rightarrow> byte list list \<Rightarrow> errno option \<times> gsh_variable_store" where
  "import_entries 0 s environment = (Some E2BIG, s)"
| "import_entries (Suc n) s [] = (None, s)"
| "import_entries (Suc n) s (assignment # environment) =
    (let name = takeWhile (\<lambda>b. b \<noteq> CHR ''='') assignment
     in if CHR ''='' \<notin> set assignment \<or> \<not> gsh_variable_name_is_valid name
        then import_entries n s environment
        else case gsh_variables_set s name (drop (length name + 1) assignment)
               GSH_VARIABLE_EXPORTED GSH_VARIABLE_EXPORTED of
             (Some err, s) \<Rightarrow> (Some err, s)
           | (None, s) \<Rightarrow> import_entries n s environment)"

definition gsh_variables_import :: "byte list list \<Rightarrow> errno option \<times> gsh_variable_store" where
  "gsh_variables_import environment =
    (case import_entries GSH_VARIABLE_IMPORT_SCAN_CAP gsh_variables_initialize environment of
       (Some err, s) \<Rightarrow> (Some err, s)
     | (None, s) \<Rightarrow>
         (case gsh_variables_set s ''IFS'' [CHR '' '', TAB, NL] 0 0 of
            (Some err, s) \<Rightarrow> (Some err, s)
          | (None, s) \<Rightarrow> gsh_variables_set s ''OPTIND'' ''1'' 0 0))"

section \<open>The representation\<close>

text \<open>
  A store holds items: a name, a value and the attribute bits. \<open>entry_core\<close> is the part of an
  entry the alias store has too, so the packed text is described by the same functions.
\<close>

type_synonym variable_item = "byte list \<times> byte list \<times> 16 word"

definition entry_core :: "gsh_variable_entry \<Rightarrow> gsh_alias_entry" where
  "entry_core e = \<lparr>ae_offset = ve_offset e, ae_length = ve_length e, ae_hash = ve_hash e,
     ae_name_length = ve_name_length e\<rparr>"

abbreviation item_pair :: "variable_item \<Rightarrow> byte list \<times> byte list" where
  "item_pair q \<equiv> (fst q, fst (snd q))"

definition variable_item_ok :: "variable_item \<Rightarrow> bool" where
  "variable_item_ok q \<longleftrightarrow> gsh_variable_name_is_valid (fst q) \<and> length (fst q) \<le> UINT16_MAX \<and>
    length (fst (snd q)) \<le> GSH_VARIABLE_VALUE_CAP \<and> NUL \<notin> set (fst (snd q)) \<and>
    (bit (snd (snd q)) 15 \<longrightarrow> fst (snd q) = [])"

definition variable_rep :: "gsh_variable_store \<Rightarrow> variable_item list \<Rightarrow> bool" where
  "variable_rep s qs \<longleftrightarrow> vs_text s = assignments (map item_pair qs) \<and>
    map entry_core (vs_entries s) = entries_of 0 (map item_pair qs) \<and>
    map ve_attributes (vs_entries s) = map (snd \<circ> snd) qs \<and>
    index_rep GSH_VARIABLE_HASH_CAP (vs_slots s) (map variable_hash (map fst qs)) \<and>
    distinct (map fst qs) \<and>
    length (assignments (map item_pair qs)) \<le> GSH_VARIABLE_TEXT_CAP \<and>
    length (vs_entries s) + length (vs_beyond s) = GSH_VARIABLE_CAP \<and>
    list_all variable_item_ok qs \<and> vs_next_generation s \<noteq> 0"

lemma variable_hash_eq: "variable_hash = name_hash"
  by (simp add: variable_hash_def name_hash_def fun_eq_iff)

lemma entry_core_sel [simp]:
  "ae_offset (entry_core e) = ve_offset e" "ae_length (entry_core e) = ve_length e"
  "ae_hash (entry_core e) = ve_hash e" "ae_name_length (entry_core e) = ve_name_length e"
  by (simp_all add: entry_core_def)

lemma entry_core_update [simp]:
  "entry_core (e\<lparr>ve_offset := k\<rparr>) = (entry_core e)\<lparr>ae_offset := k\<rparr>"
  "entry_core (e\<lparr>ve_length := k\<rparr>) = (entry_core e)\<lparr>ae_length := k\<rparr>"
  "entry_core (e\<lparr>ve_attributes := a\<rparr>) = entry_core e"
  "entry_core (e\<lparr>ve_generation := g\<rparr>) = entry_core e"
  by (simp_all add: entry_core_def)

lemma variable_name_bytes:
  "gsh_variable_name_is_valid name \<Longrightarrow> CHR ''='' \<notin> set name \<and> NUL \<notin> set name \<and> name \<noteq> []"
proof -
  have "name_start_byte b \<Longrightarrow> name_byte b" for b
    by (auto simp: name_start_byte_def name_byte_def)
  moreover have "\<not> name_byte (CHR ''='')" "\<not> name_byte NUL"
    by (simp_all add: byte_class_defs less_eq_char_def)
  ultimately show "gsh_variable_name_is_valid name \<Longrightarrow> ?thesis"
    by (cases name) (auto simp: gsh_variable_name_is_valid_def list_all_iff)
qed

lemma variable_rep_length:
  assumes "variable_rep s qs"
  shows "length (vs_entries s) = length qs"
proof -
  have "map ve_attributes (vs_entries s) = map (snd \<circ> snd) qs"
    using assms by (simp only: variable_rep_def)
  then show ?thesis by (rule map_eq_imp_length_eq)
qed

lemma variable_rep_split:
  assumes "variable_rep s qs" "i < length qs" "qs ! i = (name, val, a)"
  defines "off \<equiv> length (assignments (map item_pair (take i qs)))"
  shows "vs_text s = assignments (map item_pair (take i qs)) @ assignment_bytes name val @
      assignments (map item_pair (drop (Suc i) qs))"
    "map entry_core (vs_entries s) = entries_of 0 (map item_pair (take i qs)) @
      \<lparr>ae_offset = off, ae_length = length name + length val + 2,
       ae_hash = name_hash name, ae_name_length = length name\<rparr> #
      entries_of (off + (length name + length val + 2)) (map item_pair (drop (Suc i) qs))"
    "ve_offset (vs_entries s ! i) = off"
    "ve_length (vs_entries s ! i) = length name + length val + 2"
    "ve_hash (vs_entries s ! i) = name_hash name"
    "ve_name_length (vs_entries s ! i) = length name"
    "ve_attributes (vs_entries s ! i) = a"
proof -
  have parts: "vs_text s = assignments (map item_pair qs)"
    "map entry_core (vs_entries s) = entries_of 0 (map item_pair qs)"
    "map ve_attributes (vs_entries s) = map (snd \<circ> snd) qs"
    using assms(1) by (simp_all only: variable_rep_def)
  have qs: "qs = take i qs @ (name, val, a) # drop (Suc i) qs"
    by (simp only: assms(3)[symmetric]) (rule nth_split[OF assms(2)])
  show "vs_text s = assignments (map item_pair (take i qs)) @ assignment_bytes name val @
      assignments (map item_pair (drop (Suc i) qs))"
    unfolding parts(1) by (subst qs) simp
  show entries: "map entry_core (vs_entries s) = entries_of 0 (map item_pair (take i qs)) @
      \<lparr>ae_offset = off, ae_length = length name + length val + 2,
       ae_hash = name_hash name, ae_name_length = length name\<rparr> #
      entries_of (off + (length name + length val + 2)) (map item_pair (drop (Suc i) qs))"
    unfolding parts(2) off_def by (subst qs) (simp add: entries_of_append)
  have len: "length (vs_entries s) = length qs" by (rule variable_rep_length[OF assms(1)])
  have "entry_core (vs_entries s ! i) = map entry_core (vs_entries s) ! i"
    using assms(2) len by simp
  also have "\<dots> = \<lparr>ae_offset = off, ae_length = length name + length val + 2,
       ae_hash = name_hash name, ae_name_length = length name\<rparr>"
    unfolding entries using assms(2) by (simp add: nth_append)
  finally have core: "entry_core (vs_entries s ! i) = \<dots>" .
  show "ve_offset (vs_entries s ! i) = off"
    "ve_length (vs_entries s ! i) = length name + length val + 2"
    "ve_hash (vs_entries s ! i) = name_hash name"
    "ve_name_length (vs_entries s ! i) = length name"
    using core by (simp_all add: entry_core_def)
  have "ve_attributes (vs_entries s ! i) = map ve_attributes (vs_entries s) ! i"
    using assms(2) len by simp
  also have "\<dots> = a" unfolding parts(3) using assms(2,3) by simp
  finally show "ve_attributes (vs_entries s ! i) = a" .
qed

lemma variable_rep_item_ok:
  "variable_rep s qs \<Longrightarrow> q \<in> set qs \<Longrightarrow> variable_item_ok q"
  by (simp add: variable_rep_def list_all_iff)

lemma variable_rep_matches:
  assumes "variable_rep s qs" "i < length qs" "gsh_variable_name_is_valid name"
  shows "entry_name_matches s (vs_entries s ! i) name (variable_hash name) \<longleftrightarrow> map fst qs ! i = name"
proof -
  obtain n v a where q: "qs ! i = (n, v, a)" by (cases "qs ! i")
  note split = variable_rep_split[OF assms(1,2) q]
  have "variable_item_ok (n, v, a)"
    using assms(1,2) q by (metis nth_mem variable_rep_item_ok)
  then have "CHR ''='' \<notin> set n" "CHR ''='' \<notin> set name"
    using assms(3) variable_name_bytes by (auto simp: variable_item_ok_def)
  note eq = prefix_equals[OF this]
  let ?off = "length (assignments (map item_pair (take i qs)))"
  have drop: "drop ?off (vs_text s) =
      n @ CHR ''='' # (v @ [NUL] @ assignments (map item_pair (drop (Suc i) qs)))"
    by (simp add: split(1) assignment_bytes_def)
  have "?off < length (vs_text s)" by (simp add: split(1))
  then show ?thesis
    unfolding entry_name_matches_def split(3-6) variable_hash_eq using assms(2) q eq
    by (auto simp: drop simp del: take_Suc_Cons)
qed

lemma variable_rep_index:
  assumes "variable_rep s qs" "gsh_variable_name_is_valid name"
  shows "variable_index s name (variable_hash name) = Some i \<longleftrightarrow> i < length qs \<and> fst (qs ! i) = name"
    "variable_index s name (variable_hash name) = None \<longleftrightarrow> name \<notin> fst ` set qs"
proof -
  have len: "length (vs_entries s) = length qs" by (rule variable_rep_length[OF assms(1)])
  have rep: "index_rep 2048 (vs_slots s) (map variable_hash (map fst qs))" "distinct (map fst qs)"
    using assms(1) by (simp_all add: variable_rep_def)
  let ?P = "\<lambda>i. i < length (vs_entries s) \<and>
      entry_name_matches s (vs_entries s ! i) name (variable_hash name)"
  have P: "?P i \<longleftrightarrow> map fst qs ! i = name" if "i < length (map fst qs)" for i
    using variable_rep_matches[OF assms(1) _ assms(2), of i] len that by simp
  have some: "index_find (vs_slots s) ?P (variable_hash name) = Some i \<longleftrightarrow>
      i < length (map fst qs) \<and> map fst qs ! i = name"
    by (rule wide_probing.find_name_Some[OF rep]) (rule P)
  have none: "index_find (vs_slots s) ?P (variable_hash name) = None \<longleftrightarrow> name \<notin> set (map fst qs)"
    by (rule wide_probing.find_name_None[OF rep]) (rule P)
  show "variable_index s name (variable_hash name) = Some i \<longleftrightarrow> i < length qs \<and> fst (qs ! i) = name"
    unfolding variable_index_def some by auto
  show "variable_index s name (variable_hash name) = None \<longleftrightarrow> name \<notin> fst ` set qs"
    unfolding variable_index_def none by simp
qed

lemma variable_rep_read:
  assumes "variable_rep s qs" "i < length qs" "qs ! i = (name, val, a)"
  shows "cstring_at (vs_text s) (ve_offset (vs_entries s ! i) + length name + 1) = val"
    "cstring_at (vs_text s) (ve_offset (vs_entries s ! i)) = name @ CHR ''='' # val"
proof -
  note split = variable_rep_split[OF assms]
  have ok: "variable_item_ok (name, val, a)"
    using assms by (metis nth_mem variable_rep_item_ok)
  then have nul: "NUL \<notin> set val" "NUL \<notin> set (name @ CHR ''='' # val)"
    using variable_name_bytes by (auto simp: variable_item_ok_def)
  let ?pre = "assignments (map item_pair (take i qs))"
  show "cstring_at (vs_text s) (ve_offset (vs_entries s ! i) + length name + 1) = val"
    using cstring_at_end[OF nul(1) refl, of "?pre @ name @ ''=''"]
    by (simp add: split(1,3) assignment_bytes_def)
  show "cstring_at (vs_text s) (ve_offset (vs_entries s ! i)) = name @ CHR ''='' # val"
    using cstring_at_end[OF nul(2) refl, of ?pre]
    by (simp add: split(1,3) assignment_bytes_def)
qed

section \<open>Value generations\<close>

definition next_generation :: "uint64 \<Rightarrow> uint64" where
  "next_generation g = (if g + 1 = 0 then 1 else g + 1)"

lemma next_generation_unat:
  assumes "g \<noteq> 0"
  shows "next_generation g \<noteq> 0 \<and>
    unat (next_generation g) - 1 = (unat g - 1 + 1) mod 18446744073709551615"
proof (cases "g + 1 = 0")
  case True
  then have "g = - 1" by (simp add: eq_neg_iff_add_eq_0)
  then have "unat g = 18446744073709551615" by (simp add: unsigned_minus_1_eq_mask mask_eq_exp_minus_1)
  with True show ?thesis by (simp add: next_generation_def)
next
  case False
  have up: "unat (g + 1) = unat g + 1"
    using False by (metis Suc_eq_plus1 add.commute unatSuc)
  moreover have "unat (g + 1) < 18446744073709551616"
    using unsigned_less[of "g + 1", where 'a = nat] by simp
  moreover have "0 < unat g" using assms by (simp add: unat_gt_0)
  ultimately show ?thesis using False by (simp add: next_generation_def)
qed

lemma next_generation_iter:
  assumes "g \<noteq> 0"
  shows "(next_generation ^^ k) g \<noteq> 0 \<and>
    unat ((next_generation ^^ k) g) - 1 = (unat g - 1 + k) mod 18446744073709551615"
proof (induction k)
  case 0
  have "unat g < 18446744073709551616" using unsigned_less[of g, where 'a = nat] by simp
  moreover have "0 < unat g" using assms by (simp add: unat_gt_0)
  ultimately show ?case using assms by simp
next
  case (Suc k)
  with next_generation_unat[of "(next_generation ^^ k) g"] show ?case
    by (simp add: mod_Suc_eq)
qed

lemma next_generation_inj:
  assumes "g \<noteq> 0" "n \<le> 18446744073709551615"
  shows "inj_on (\<lambda>k. (next_generation ^^ k) g) {..<n}"
proof (rule inj_onI)
  fix j k assume jk: "j \<in> {..<n}" "k \<in> {..<n}" "(next_generation ^^ j) g = (next_generation ^^ k) g"
  obtain u where u: "u = unat g - 1" by simp
  have "(u + j) mod 18446744073709551615 = (u + k) mod 18446744073709551615"
    using jk(3) next_generation_iter[OF assms(1), of j] next_generation_iter[OF assms(1), of k]
    by (simp add: u)
  then have "j mod 18446744073709551615 = k mod 18446744073709551615"
    by (simp add: nat_mod_eq_iff)
  with jk assms(2) show "j = k" by simp
qed

text \<open>One more candidate than entries: one of them is not in use.\<close>

lemma fresh_generation:
  assumes "g \<noteq> 0" "length es < 18446744073709551615"
  shows "\<exists>k \<le> length es. \<forall>e \<in> set es. ve_generation e \<noteq> (next_generation ^^ k) g"
proof (rule ccontr)
  assume "\<not> (\<exists>k \<le> length es. \<forall>e \<in> set es. ve_generation e \<noteq> (next_generation ^^ k) g)"
  then have "(\<lambda>k. (next_generation ^^ k) g) ` {..<Suc (length es)} \<subseteq> ve_generation ` set es"
    by (auto simp: less_Suc_eq_le image_iff) metis
  moreover have inj: "inj_on (\<lambda>k. (next_generation ^^ k) g) {..<Suc (length es)}"
    using assms by (intro next_generation_inj) simp_all
  ultimately have "Suc (length es) \<le> card (ve_generation ` set es)"
    by (metis card_image card_lessThan card_mono finite_imageI List.finite_set)
  also have "\<dots> \<le> length es"
    by (rule le_trans[OF card_image_le card_length]) simp
  finally show False by simp
qed

text \<open>Marking changes one generation and the next candidate, to values not in use.\<close>

definition marked :: "gsh_variable_store \<Rightarrow> nat \<Rightarrow> uint64 \<Rightarrow> uint64 \<Rightarrow> gsh_variable_store" where
  "marked s index g n = s\<lparr>vs_next_generation := n,
     vs_entries := (vs_entries s)[index := (vs_entries s ! index)\<lparr>ve_generation := g\<rparr>]\<rparr>"

lemma mark_attempts_fresh:
  assumes "vs_next_generation s \<noteq> 0" "k < attempts"
    "\<forall>e \<in> set (vs_entries s). ve_generation e \<noteq> (next_generation ^^ k) (vs_next_generation s)"
  shows "\<exists>g n. mark_attempts attempts s index = (None, marked s index g n) \<and> n \<noteq> 0 \<and> g \<noteq> 0 \<and>
    (\<forall>e \<in> set (vs_entries s). ve_generation e \<noteq> g)"
  using assms
proof (induction attempts arbitrary: s k)
  case (Suc attempts)
  let ?g = "vs_next_generation s" and ?s = "s\<lparr>vs_next_generation := next_generation (vs_next_generation s)\<rparr>"
  have step: "mark_attempts (Suc attempts) s index =
      (if list_ex (\<lambda>e. ve_generation e = ?g) (vs_entries s) then mark_attempts attempts ?s index
       else (None, marked s index ?g (next_generation ?g)))"
    using Suc.prems(1) by (simp add: Let_def next_generation_def marked_def)
  have nz: "next_generation ?g \<noteq> 0" using next_generation_unat[OF Suc.prems(1)] by simp
  show ?case
  proof (cases "list_ex (\<lambda>e. ve_generation e = ?g) (vs_entries s)")
    case True
    with Suc.prems(3) have "k \<noteq> 0" by (cases k) (auto simp: list_ex_iff)
    then obtain j where k: "k = Suc j" by (cases k) auto
    have "\<exists>g n. mark_attempts attempts ?s index = (None, marked ?s index g n) \<and> n \<noteq> 0 \<and> g \<noteq> 0 \<and>
        (\<forall>e \<in> set (vs_entries ?s). ve_generation e \<noteq> g)"
      using Suc.prems(2,3) nz k by (intro Suc.IH[of ?s j]) (simp_all add: funpow_swap1)
    then show ?thesis unfolding step if_P[OF True] by (simp add: marked_def)
  next
    case False
    with Suc.prems(1) nz show ?thesis unfolding step by (auto simp: list_ex_iff)
  qed
qed simp

lemma mark_value_update_fresh:
  assumes "vs_next_generation s \<noteq> 0" "length (vs_entries s) \<le> 1024"
  obtains g n where "mark_value_update s index = (None, marked s index g n)" "n \<noteq> 0" "g \<noteq> 0"
    "\<forall>e \<in> set (vs_entries s). ve_generation e \<noteq> g"
proof -
  obtain k where "k \<le> length (vs_entries s)"
    "\<forall>e \<in> set (vs_entries s). ve_generation e \<noteq> (next_generation ^^ k) (vs_next_generation s)"
    using fresh_generation[OF assms(1), of "vs_entries s"] assms(2) by auto
  then have "\<exists>g n. mark_attempts (length (vs_entries s) + 1) s index = (None, marked s index g n) \<and>
      n \<noteq> 0 \<and> g \<noteq> 0 \<and> (\<forall>e \<in> set (vs_entries s). ve_generation e \<noteq> g)"
    using assms(1) by (intro mark_attempts_fresh) simp_all
  then show ?thesis using that unfolding mark_value_update_def by blast
qed

section \<open>Attribute bits\<close>

lemma attribute_tests:
  fixes a :: "'a::len word"
  shows "a AND 1 = 0 \<longleftrightarrow> \<not> bit a 0" "a AND 2 = 0 \<longleftrightarrow> \<not> bit a 1" "a AND 32768 = 0 \<longleftrightarrow> \<not> bit a 15"
  using and_exp_eq_0_iff_not_bit[of a 0] and_exp_eq_0_iff_not_bit[of a 1]
    and_exp_eq_0_iff_not_bit[of a 15] by simp_all

lemma small_mask: "m \<le> (3 :: uint32) \<Longrightarrow> m \<in> {0, 1, 2, 3}"
proof -
  assume "m \<le> 3"
  then have "unat m \<le> 3" by (simp add: word_le_nat_alt)
  then have "unat m = 0 \<or> unat m = 1 \<or> unat m = 2 \<or> unat m = 3" by linarith
  then have "unat m = unat (0 :: uint32) \<or> unat m = unat (1 :: uint32) \<or>
      unat m = unat (2 :: uint32) \<or> unat m = unat (3 :: uint32)" by simp
  then show ?thesis by (simp only: word_unat_eq_iff[symmetric]) simp
qed

lemma merge_attributes_bit:
  "n < 16 \<Longrightarrow> bit (merge_attributes old m at) n \<longleftrightarrow> (if bit m n then bit at n else bit old n)"
  by (auto simp: merge_attributes_def bit_simps)

section \<open>The operations on the represented items\<close>

lemma map_list_update_same: "f x = f (xs ! i) \<Longrightarrow> map f (xs[i := x]) = map f xs"
  by (cases "i < length xs") (simp_all add: map_update list_update_same_conv list_update_beyond)

lemma variable_rep_marked:
  assumes "variable_rep s qs" "n \<noteq> 0"
  shows "variable_rep (marked s i g n) qs"
proof -
  have "map entry_core ((vs_entries s)[i := (vs_entries s ! i)\<lparr>ve_generation := g\<rparr>]) =
      map entry_core (vs_entries s)"
    by (rule map_list_update_same) simp
  moreover have "map ve_attributes ((vs_entries s)[i := (vs_entries s ! i)\<lparr>ve_generation := g\<rparr>]) =
      map ve_attributes (vs_entries s)"
    by (rule map_list_update_same) simp
  ultimately show ?thesis using assms by (simp add: variable_rep_def marked_def)
qed

lemma variable_rep_path:
  "variable_rep s qs \<Longrightarrow> variable_rep (snd (successful_update s name b)) qs"
  by (simp add: variable_rep_def successful_update_def)

text \<open>A marked update keeps what was written and cannot fail.\<close>

lemma marked_update_rep:
  assumes "variable_rep s qs" "marked_update s i name = (r, t)"
  shows "r = None \<and> variable_rep t qs"
proof -
  have "vs_next_generation s \<noteq> 0" "length (vs_entries s) \<le> 1024"
    using assms(1) by (auto simp: variable_rep_def)
  then obtain g n where g: "mark_value_update s i = (None, marked s i g n)" "n \<noteq> 0"
    by (rule mark_value_update_fresh)
  from variable_rep_path[OF variable_rep_marked[OF assms(1) g(2)]] assms(2) g(1) show ?thesis
    by (simp add: marked_update_def) (metis fst_conv prod.collapse snd_conv successful_update_def)
qed

lemma variable_rep_attributes:
  assumes rep: "variable_rep s qs" and i: "i < length qs" "qs ! i = (name, val, a)"
    and unset: "bit a' 15 \<longrightarrow> val = []"
  shows "variable_rep (s\<lparr>vs_entries := (vs_entries s)[i := (vs_entries s ! i)\<lparr>ve_attributes := a'\<rparr>]\<rparr>)
    (qs[i := (name, val, a')])"
proof -
  have len: "length (vs_entries s) = length qs" by (rule variable_rep_length[OF rep])
  have same: "map item_pair (qs[i := (name, val, a')]) = map item_pair qs"
    "map fst (qs[i := (name, val, a')]) = map fst qs"
    using i(2) by (simp_all add: map_list_update_same)
  have "map entry_core ((vs_entries s)[i := (vs_entries s ! i)\<lparr>ve_attributes := a'\<rparr>]) =
      map entry_core (vs_entries s)"
    by (rule map_list_update_same) simp
  moreover have "list_all variable_item_ok (qs[i := (name, val, a')])"
  proof -
    have "variable_item_ok (name, val, a)" using variable_rep_item_ok[OF rep] i by (metis nth_mem)
    then have "variable_item_ok (name, val, a')" using unset by (simp add: variable_item_ok_def)
    with variable_rep_item_ok[OF rep] show ?thesis
      using set_update_subset_insert[of qs i "(name, val, a')"] by (auto simp: list_all_iff)
  qed
  ultimately show ?thesis
    using rep unfolding variable_rep_def same by (simp add: map_update del: map_map)
qed

interpretation variable_entries:
  moving_entries entry_core "\<lambda>a. a" ve_offset "\<lambda>k e. e\<lparr>ve_offset := k\<rparr>"
  by unfold_locales simp_all

lemma variable_rep_packed:
  assumes "variable_rep s qs"
  shows "variable_entries.packed (vs_entries s) 0 (map item_pair qs)"
  using assms by (simp add: variable_rep_def variable_entries.packed_def)

text \<open>The entries around entry \<open>i\<close>, and what moving the offsets behind it does to them.\<close>

lemma variable_rep_around:
  assumes rep: "variable_rep s qs" and i: "i < length qs" "qs ! i = (name, old, a)"
  defines "off \<equiv> length (assignments (map item_pair (take i qs)))"
    and "len \<equiv> length name + length old + 2"
  assumes f: "\<And>e. off < ve_offset e \<Longrightarrow> f e = e\<lparr>ve_offset := ve_offset e + new - len\<rparr>"
    "\<And>e. ve_offset e \<le> off \<Longrightarrow> f e = e"
  shows "take i (map f (vs_entries s)) = take i (vs_entries s)"
    "map entry_core (take i (vs_entries s)) = entries_of 0 (map item_pair (take i qs))"
    "map f (vs_entries s) ! i = vs_entries s ! i"
    "map entry_core (drop (Suc i) (map f (vs_entries s))) =
      entries_of (off + new) (map item_pair (drop (Suc i) qs))"
    "map ve_attributes (drop (Suc i) (map f (vs_entries s))) = map (snd \<circ> snd) (drop (Suc i) qs)"
    "map ve_attributes (take i (vs_entries s)) = map (snd \<circ> snd) (take i qs)"
proof -
  let ?es = "vs_entries s" and ?pre = "map item_pair (take i qs)"
  have len_es: "length ?es = length qs" by (rule variable_rep_length[OF rep])
  have attrs: "map ve_attributes ?es = map (snd \<circ> snd) qs"
    using rep by (simp only: variable_rep_def)
  have es: "take i ?es @ ?es ! i # drop (Suc i) ?es = ?es"
    using i(1) len_es by (intro nth_split[symmetric]) simp
  have qs: "?pre @ (name, old) # map item_pair (drop (Suc i) qs) = map item_pair qs"
    using arg_cong[OF nth_split[OF i(1)], of "map item_pair"] i(2) by simp
  have packed: "variable_entries.packed (take i ?es @ ?es ! i # drop (Suc i) ?es) 0
      (?pre @ (name, old) # map item_pair (drop (Suc i) qs))"
    unfolding es qs by (rule variable_rep_packed[OF rep])
  have len_pre: "length (take i ?es) = length ?pre" using i(1) len_es by simp
  note around = variable_entries.packed_around[OF packed len_pre, of f new,
      folded off_def len_def, OF f]
  show "map entry_core (take i ?es) = entries_of 0 ?pre"
    using packed len_pre by (simp add: variable_entries.packed_append) (simp add: variable_entries.packed_def)
  show "map ve_attributes (take i ?es) = map (snd \<circ> snd) (take i qs)"
    by (simp add: take_map[symmetric] attrs)
  show "take i (map f ?es) = take i ?es" by (simp add: take_map around(1))
  show "map f ?es ! i = ?es ! i" using i(1) len_es around(2) by simp
  show "map entry_core (drop (Suc i) (map f ?es)) =
      entries_of (off + new) (map item_pair (drop (Suc i) qs))"
    using around(3) by (simp add: drop_map variable_entries.packed_def)
  have keep: "ve_attributes (f e) = ve_attributes e" for e
    using f[of e] by (cases "off < ve_offset e") simp_all
  have "map ve_attributes (map f ?es) = map ve_attributes ?es" by (simp add: keep)
  then show "map ve_attributes (drop (Suc i) (map f ?es)) = map (snd \<circ> snd) (drop (Suc i) qs)"
    by (metis attrs drop_map)
qed

lemma total_length:
  assumes "i < length qs" "qs ! i = (name, old, a)"
  shows "length (assignments (map item_pair qs)) =
    length (assignments (map item_pair (take i qs))) + (length name + length old + 2) +
    length (assignments (map item_pair (drop (Suc i) qs)))"
proof -
  have qs: "qs = take i qs @ (name, old, a) # drop (Suc i) qs"
    by (simp only: assms(2)[symmetric]) (rule nth_split[OF assms(1)])
  show ?thesis by (subst qs) simp
qed

lemma variable_rep_replace:
  assumes rep: "variable_rep s qs" and i: "i < length qs" "qs ! i = (name, old, a)"
    and ok: "variable_item_ok (name, val, a')"
    and room: "length (vs_text s) - length old + length val \<le> GSH_VARIABLE_TEXT_CAP"
  defines "off \<equiv> ve_offset (vs_entries s ! i)" and "len \<equiv> ve_length (vs_entries s ! i)"
    and "new \<equiv> length name + length val + 2"
  defines "moved \<equiv> (if new \<noteq> len
      then map (\<lambda>other. if off < ve_offset other
        then other\<lparr>ve_offset := ve_offset other + new - len\<rparr> else other) (vs_entries s)
      else vs_entries s)"
  shows "variable_rep (s\<lparr>vs_entries := moved[i := (moved ! i)\<lparr>ve_length := new, ve_attributes := a'\<rparr>],
      vs_text := take off (vs_text s) @ assignment_bytes name val @ drop (off + len) (vs_text s)\<rparr>)
    (qs[i := (name, val, a')])"
proof -
  note split = variable_rep_split[OF rep i]
  let ?f = "\<lambda>other. if off < ve_offset other
        then other\<lparr>ve_offset := ve_offset other + new - len\<rparr> else other"
  let ?off = "length (assignments (map item_pair (take i qs)))"
  have ol: "off = ?off" "len = length name + length old + 2" by (simp_all add: off_def len_def split)
  note around = variable_rep_around[OF rep i, of ?f new, folded ol]
  have len_es: "length (vs_entries s) = length qs" by (rule variable_rep_length[OF rep])
  have same: "moved = map ?f (vs_entries s)"
    by (auto simp: moved_def intro!: map_idI[symmetric])
  have new_qs: "qs[i := (name, val, a')] = take i qs @ (name, val, a') # drop (Suc i) qs"
    using i(1) by (rule upd_conv_take_nth_drop)
  have es: "moved[i := (moved ! i)\<lparr>ve_length := new, ve_attributes := a'\<rparr>] =
      take i (vs_entries s) @ (vs_entries s ! i)\<lparr>ve_length := new, ve_attributes := a'\<rparr> #
        drop (Suc i) (map ?f (vs_entries s))"
    using i(1) len_es around(1,3) by (simp add: same upd_conv_take_nth_drop)
  have core: "entry_core (vs_entries s ! i) = \<lparr>ae_offset = off, ae_length = len,
      ae_hash = name_hash name, ae_name_length = length name\<rparr>"
    by (simp add: entry_core_def split off_def len_def)
  have bytes: "vs_text s = assignments (map item_pair qs)"
    using rep by (simp only: variable_rep_def)
  have "map entry_core (moved[i := (moved ! i)\<lparr>ve_length := new, ve_attributes := a'\<rparr>]) =
      entries_of 0 (map item_pair (qs[i := (name, val, a')]))"
    unfolding es new_qs using around(2,4) core ol(1) new_def by (simp add: entries_of_append)
  moreover have "map ve_attributes (moved[i := (moved ! i)\<lparr>ve_length := new, ve_attributes := a'\<rparr>]) =
      map (snd \<circ> snd) (qs[i := (name, val, a')])"
    using around(5,6) by (simp add: es new_qs del: map_map)
  moreover have "take off (vs_text s) @ assignment_bytes name val @ drop (off + len) (vs_text s) =
      assignments (map item_pair (qs[i := (name, val, a')]))"
    by (simp add: ol split(1) new_qs)
  moreover have "map fst (qs[i := (name, val, a')]) = map fst qs"
    using i(2) by (simp add: map_list_update_same)
  moreover have "length (assignments (map item_pair (qs[i := (name, val, a')]))) \<le> 262144"
    using room total_length[OF i] by (simp add: new_qs bytes)
  moreover have "list_all variable_item_ok (qs[i := (name, val, a')])"
    using variable_rep_item_ok[OF rep] ok set_update_subset_insert[of qs i "(name, val, a')"]
    by (auto simp: list_all_iff)
  moreover have "length (moved[i := (moved ! i)\<lparr>ve_length := new, ve_attributes := a'\<rparr>]) =
      length (vs_entries s)" by (simp add: same)
  ultimately show ?thesis
    using rep unfolding variable_rep_def by simp
qed

lemma variable_rep_append:
  assumes rep: "variable_rep s qs" and ok: "variable_item_ok (name, val, a)"
    and new: "name \<notin> fst ` set qs" and room: "length qs < GSH_VARIABLE_CAP"
      "length (vs_text s) + length name + length val + 2 \<le> GSH_VARIABLE_TEXT_CAP"
  obtains slots where
    "index_insert (vs_slots s) (variable_hash name) (length qs) = Some slots"
    "\<And>g. variable_rep (s\<lparr>vs_slots := slots, vs_entries := vs_entries s @
        [\<lparr>ve_offset = length (vs_text s), ve_length = length name + length val + 2,
          ve_hash = variable_hash name, ve_name_length = length name, ve_attributes = a,
          ve_generation = g\<rparr>],
      vs_beyond := tl (vs_beyond s), vs_text := vs_text s @ assignment_bytes name val\<rparr>)
      (qs @ [(name, val, a)])"
proof -
  have parts: "vs_text s = assignments (map item_pair qs)"
    "map entry_core (vs_entries s) = entries_of 0 (map item_pair qs)"
    "map ve_attributes (vs_entries s) = map (snd \<circ> snd) qs"
    "index_rep 2048 (vs_slots s) (map variable_hash (map fst qs))" "distinct (map fst qs)"
    "length (vs_entries s) + length (vs_beyond s) = 1024" "list_all variable_item_ok qs"
    "vs_next_generation s \<noteq> 0"
    using rep by (simp_all only: variable_rep_def not_False_eq_True)
  have len: "length (vs_entries s) = length qs" by (rule variable_rep_length[OF rep])
  have "length (map variable_hash (map fst qs)) < 2048" using room(1) by simp
  from index_insert_spec[OF slot_count_caps(2) parts(4) this, of "variable_hash name"]
  obtain slots where slots: "index_insert (vs_slots s) (variable_hash name) (length qs) = Some slots"
      "index_rep 2048 slots (map variable_hash (map fst qs) @ [variable_hash name])" by auto
  let ?e = "\<lambda>g. \<lparr>ve_offset = length (vs_text s), ve_length = length name + length val + 2,
      ve_hash = variable_hash name, ve_name_length = length name, ve_attributes = a,
      ve_generation = g\<rparr>"
  have "length (vs_entries s @ [?e g]) + length (tl (vs_beyond s)) = 1024" for g
    using parts(6) len room(1) by simp
  moreover have "map entry_core (vs_entries s @ [?e g]) = entries_of 0 (map item_pair (qs @ [(name, val, a)]))"
    for g using parts(1,2) by (simp add: entries_of_append entry_core_def variable_hash_eq del: map_map)
  moreover have "map ve_attributes (vs_entries s @ [?e g]) = map (snd \<circ> snd) (qs @ [(name, val, a)])" for g
    using parts(3) by simp
  moreover have "distinct (map fst (qs @ [(name, val, a)]))" using parts(5) new by simp
  moreover have "length (assignments (map item_pair (qs @ [(name, val, a)]))) \<le> 262144"
    using room(2) parts(1) by simp
  moreover have "list_all variable_item_ok (qs @ [(name, val, a)])" using parts(7) ok by simp
  moreover have "index_rep 2048 slots (map variable_hash (map fst (qs @ [(name, val, a)])))"
    using slots(2) by simp
  moreover have "vs_text s @ assignment_bytes name val = assignments (map item_pair (qs @ [(name, val, a)]))"
    using parts(1) by simp
  ultimately have "variable_rep (s\<lparr>vs_slots := slots, vs_entries := vs_entries s @ [?e g],
      vs_beyond := tl (vs_beyond s), vs_text := vs_text s @ assignment_bytes name val\<rparr>)
      (qs @ [(name, val, a)])" for g
    unfolding variable_rep_def using parts(8) by simp
  then show ?thesis by (rule that[OF slots(1)])
qed

lemma insert_slots_rebuild:
  assumes "map ve_hash (vs_entries s) = hs @ hs'" "index_rebuild (vs_slots s) (length hs) hs' = Some slots"
  shows "insert_slots s [length hs..<length (vs_entries s)] = s\<lparr>vs_slots := slots\<rparr>"
  using assms
proof (induction hs' arbitrary: s hs)
  case Nil
  then have "length (vs_entries s) = length hs" by (metis append_Nil2 length_map)
  with Nil show ?case by simp
next
  case (Cons h hs')
  have len: "length (vs_entries s) = length hs + Suc (length hs')"
    using arg_cong[OF Cons.prems(1), of length] by simp
  have "ve_hash (vs_entries s ! length hs) = map ve_hash (vs_entries s) ! length hs"
    using len by simp
  then have h: "ve_hash (vs_entries s ! length hs) = h" by (simp add: Cons.prems(1))
  from Cons.prems(2) obtain mid where mid: "index_insert (vs_slots s) h (length hs) = Some mid"
      "index_rebuild mid (Suc (length hs)) hs' = Some slots" by (auto split: option.splits)
  have "insert_slots (s\<lparr>vs_slots := mid\<rparr>) [length (hs @ [h])..<length (vs_entries (s\<lparr>vs_slots := mid\<rparr>))] =
      (s\<lparr>vs_slots := mid\<rparr>)\<lparr>vs_slots := slots\<rparr>"
    using Cons.prems(1) mid(2) by (intro Cons.IH) simp_all
  moreover have "[length hs..<length (vs_entries s)] =
      length hs # [Suc (length hs)..<length (vs_entries s)]"
    using len by (intro upt_conv_Cons) simp
  ultimately show ?case using h mid(1) by (simp add: insert_hash_slot_def del: upt_Suc)
qed

lemma variable_rep_unset:
  assumes rep: "variable_rep s qs" and i: "i < length qs" "qs ! i = (name, val, a)"
  defines "off \<equiv> ve_offset (vs_entries s ! i)" and "len \<equiv> ve_length (vs_entries s ! i)"
  defines "f \<equiv> \<lambda>other. if off < ve_offset other
      then other\<lparr>ve_offset := ve_offset other - len\<rparr> else other"
  shows "variable_rep (rebuild_variable_hash
      (s\<lparr>vs_entries := map f (take i (vs_entries s) @ drop (Suc i) (vs_entries s)),
         vs_beyond := last (vs_entries s) # vs_beyond s,
         vs_text := take off (vs_text s) @ drop (off + len) (vs_text s)\<rparr>))
    (take i qs @ drop (Suc i) qs)"
proof -
  note split = variable_rep_split[OF rep i]
  let ?pre = "take i qs" and ?post = "drop (Suc i) qs" and ?es = "vs_entries s"
  let ?off = "length (assignments (map item_pair ?pre))"
  have ol: "off = ?off" "len = length name + length val + 2" by (simp_all add: off_def len_def split)
  have f: "off < ve_offset e \<Longrightarrow> f e = e\<lparr>ve_offset := ve_offset e + 0 - len\<rparr>"
    "ve_offset e \<le> off \<Longrightarrow> f e = e" for e by (simp_all add: f_def)
  note around = variable_rep_around[OF rep i, of f 0, folded ol, OF f, simplified]
  have parts: "vs_text s = assignments (map item_pair qs)" "distinct (map fst qs)"
    "length (assignments (map item_pair qs)) \<le> 262144"
    "length ?es + length (vs_beyond s) = 1024" "list_all variable_item_ok qs"
    "vs_next_generation s \<noteq> 0"
    using rep by (simp_all only: variable_rep_def not_False_eq_True)
  have len_es: "length ?es = length qs" by (rule variable_rep_length[OF rep])
  let ?kept = "map f (take i ?es @ drop (Suc i) ?es)"
  have kept: "?kept = take i ?es @ drop (Suc i) (map f ?es)"
    using around(1) by (simp add: take_map drop_map)
  have core: "map entry_core ?kept = entries_of 0 (map item_pair (?pre @ ?post))"
    unfolding kept using around(2,4) by (simp add: entries_of_append ol(1) del: map_map)
  have attrs: "map ve_attributes ?kept = map (snd \<circ> snd) (?pre @ ?post)"
    unfolding kept using around(5,6) by (simp del: map_map)
  have "map ve_hash ?kept = map ae_hash (map entry_core ?kept)" by simp
  also have "\<dots> = map variable_hash (map fst (?pre @ ?post))"
    unfolding core by (simp add: variable_hash_eq)
  finally have hashes: "map ve_hash ?kept = \<dots>" .
  have "length (map variable_hash (map fst (?pre @ ?post))) \<le> 2048"
    using parts(4) len_es by simp
  from index_rebuild_spec(2)[OF this] obtain slots where
    slots: "index_rebuild (empty_index 2048) 0 (map variable_hash (map fst (?pre @ ?post))) = Some slots"
      "index_rep 2048 slots (map variable_hash (map fst (?pre @ ?post)))" by blast
  let ?s = "s\<lparr>vs_entries := ?kept, vs_beyond := last ?es # vs_beyond s,
         vs_text := take off (vs_text s) @ drop (off + len) (vs_text s)\<rparr>"
  have "rebuild_variable_hash ?s = ?s\<lparr>vs_slots := slots\<rparr>"
    using insert_slots_rebuild[of "?s\<lparr>vs_slots := empty_index 2048\<rparr>" "[]" _ slots] hashes slots(1)
    by (simp add: rebuild_variable_hash_def)
  moreover have "variable_rep (?s\<lparr>vs_slots := slots\<rparr>) (?pre @ ?post)"
  proof -
    obtain pre post where q: "pre = ?pre" "post = ?post" by simp
    have qs: "qs = pre @ (name, val, a) # post"
      by (simp only: i(2)[symmetric] q) (rule nth_split[OF i(1)])
    have "take off (vs_text s) @ drop (off + len) (vs_text s) = assignments (map item_pair (?pre @ ?post))"
      by (simp add: ol split(1))
    moreover have "distinct (map fst (?pre @ ?post))" "list_all variable_item_ok (?pre @ ?post)"
      "length (assignments (map item_pair (?pre @ ?post))) \<le> 262144"
      using parts(2,3,5) unfolding q[symmetric] by (auto simp: qs)
    moreover have "length ?kept + length (last ?es # vs_beyond s) = 1024"
      using parts(4) len_es i(1) by simp
    ultimately show ?thesis
      unfolding variable_rep_def using core attrs slots(2) parts(6) by simp
  qed
  ultimately show ?thesis by (simp only:)
qed

section \<open>The store as a finite map\<close>

text \<open>
  What the readers tell of a variable. A variable may be known without being set: it then has
  attributes and no value.
\<close>

record variable =
  v_value :: "byte list option"
  v_exported :: bool
  v_readonly :: bool

definition variable_at :: "gsh_variable_store \<Rightarrow> byte list \<Rightarrow> variable option" where
  "variable_at s name =
    (case gsh_variables_get_state s name of
       None \<Rightarrow> None
     | Some (is_set, attributes) \<Rightarrow>
         Some \<lparr>v_value = (if is_set then gsh_variables_lookup s name else None),
               v_exported = bit attributes 0, v_readonly = bit attributes 1\<rparr>)"

definition variable_ok :: "gsh_variable_store \<Rightarrow> bool" where
  "variable_ok s \<longleftrightarrow> (\<exists>qs. variable_rep s qs)"

definition item_variable :: "byte list \<times> 16 word \<Rightarrow> variable" where
  "item_variable p = \<lparr>v_value = (if bit (snd p) 15 then None else Some (fst p)),
     v_exported = bit (snd p) 0, v_readonly = bit (snd p) 1\<rparr>"

lemma attribute_mask_bits:
  "n < 2 \<Longrightarrow> bit (ucast (a :: 16 word) AND 3 :: uint32) n \<longleftrightarrow> bit a n"
proof -
  have "bit (3 :: uint32) n \<longleftrightarrow> n < 2" if "n < 2" for n
    using that by (auto simp: less_2_cases_iff)
  then show "n < 2 \<Longrightarrow> ?thesis" by (simp add: bit_simps)
qed

lemma variable_rep_at:
  assumes rep: "variable_rep s qs"
  shows "variable_at s name = map_option item_variable (map_of qs name)"
    "gsh_variables_lookup s name = Option.bind (variable_at s name) v_value"
proof -
  have dist: "distinct (map fst qs)" using rep by (simp only: variable_rep_def)
  have invalid: "map_of qs name = None" if "\<not> gsh_variable_name_is_valid name"
    using that variable_rep_item_ok[OF rep] by (force simp: map_of_eq_None_iff variable_item_ok_def)
  have none: "map_of qs name = None" if "gsh_variable_name_is_valid name"
    "variable_index s name (variable_hash name) = None"
    using that variable_rep_index(2)[OF rep that(1)] by (simp add: map_of_eq_None_iff)
  have some: "\<exists>v a. map_of qs name = Some (v, a) \<and> ve_attributes (vs_entries s ! i) = a \<and>
      cstring_at (vs_text s) (ve_offset (vs_entries s ! i) + length name + 1) = v"
    if "gsh_variable_name_is_valid name" "variable_index s name (variable_hash name) = Some i" for i
  proof -
    from that variable_rep_index(1)[OF rep that(1), of i] obtain v a where
      i: "i < length qs" "qs ! i = (name, v, a)" by (cases "qs ! i") auto
    then have "map_of qs name = Some (v, a)" using dist by (metis map_of_is_SomeI nth_mem)
    with variable_rep_split(7)[OF rep i] variable_rep_read(1)[OF rep i] show ?thesis by blast
  qed
  have "variable_at s name = map_option item_variable (map_of qs name) \<and>
    gsh_variables_lookup s name = Option.bind (map_option item_variable (map_of qs name)) v_value"
  proof (cases "gsh_variable_name_is_valid name")
    case False
    then show ?thesis
      by (simp add: invalid variable_at_def gsh_variables_get_state_def gsh_variables_lookup_def)
  next
    case True
    show ?thesis
    proof (cases "variable_index s name (variable_hash name)")
      case None
      with True show ?thesis
        by (simp add: none variable_at_def gsh_variables_get_state_def gsh_variables_lookup_def)
    next
      case (Some i)
      from some[OF True Some] obtain v a where
        "map_of qs name = Some (v, a)" "ve_attributes (vs_entries s ! i) = a"
        "cstring_at (vs_text s) (ve_offset (vs_entries s ! i) + length name + 1) = v" by blast
      then show ?thesis using True Some
        by (auto simp: variable_at_def gsh_variables_get_state_def gsh_variables_lookup_def
            item_variable_def attribute_tests attribute_mask_bits)
    qed
  qed
  then show "variable_at s name = map_option item_variable (map_of qs name)"
    "gsh_variables_lookup s name = Option.bind (variable_at s name) v_value" by simp_all
qed

text \<open>What a call may do, and what it makes of the variable.\<close>

definition variable_args_ok :: "byte list \<Rightarrow> byte list \<Rightarrow> uint32 \<Rightarrow> uint32 \<Rightarrow> bool" where
  "variable_args_ok name val attribute_mask attributes \<longleftrightarrow>
    gsh_variable_name_is_valid name \<and> length name \<le> UINT16_MAX \<and>
    length val \<le> GSH_VARIABLE_VALUE_CAP \<and>
    attribute_mask \<le> GSH_VARIABLE_ATTRIBUTE_MASK \<and> attributes \<le> GSH_VARIABLE_ATTRIBUTE_MASK \<and>
    attributes AND NOT attribute_mask = 0"

definition variable_readonly :: "gsh_variable_store \<Rightarrow> byte list \<Rightarrow> bool" where
  "variable_readonly s name \<longleftrightarrow> (\<exists>v. variable_at s name = Some v \<and> v_readonly v)"

definition variable_has_room :: "gsh_variable_store \<Rightarrow> byte list \<Rightarrow> byte list \<Rightarrow> bool" where
  "variable_has_room s name val \<longleftrightarrow>
    (case variable_at s name of
       None \<Rightarrow> gsh_variables_count s < GSH_VARIABLE_CAP \<and>
         length (vs_text s) + length name + length val + 2 \<le> GSH_VARIABLE_TEXT_CAP
     | Some v \<Rightarrow> length (vs_text s) - length (case v_value v of None \<Rightarrow> [] | Some old \<Rightarrow> old) +
         length val \<le> GSH_VARIABLE_TEXT_CAP)"

definition masked :: "uint32 \<Rightarrow> uint32 \<Rightarrow> nat \<Rightarrow> bool \<Rightarrow> bool" where
  "masked attribute_mask attributes n old = (if bit attribute_mask n then bit attributes n else old)"

definition updated_variable ::
  "variable option \<Rightarrow> byte list option \<Rightarrow> uint32 \<Rightarrow> uint32 \<Rightarrow> variable" where
  "updated_variable old val attribute_mask attributes =
    \<lparr>v_value = val,
     v_exported = masked attribute_mask attributes 0 (case old of None \<Rightarrow> False | Some v \<Rightarrow> v_exported v),
     v_readonly = masked attribute_mask attributes 1 (case old of None \<Rightarrow> False | Some v \<Rightarrow> v_readonly v)\<rparr>"

definition set_error ::
  "gsh_variable_store \<Rightarrow> byte list \<Rightarrow> byte list \<Rightarrow> uint32 \<Rightarrow> uint32 \<Rightarrow> errno option" where
  "set_error s name val attribute_mask attributes =
    (if \<not> variable_args_ok name val attribute_mask attributes then Some EINVAL
     else if variable_readonly s name then Some EROFS
     else if \<not> variable_has_room s name val then Some ENOSPC
     else None)"

definition set_attributes_error ::
  "gsh_variable_store \<Rightarrow> byte list \<Rightarrow> uint32 \<Rightarrow> uint32 \<Rightarrow> errno option" where
  "set_attributes_error s name attribute_mask attributes =
    (if \<not> variable_args_ok name [] attribute_mask attributes then Some EINVAL
     else if variable_readonly s name \<and> bit attribute_mask 1 \<and> \<not> bit attributes 1 then Some EROFS
     else if variable_at s name = None \<and> \<not> variable_has_room s name [] then Some ENOSPC
     else None)"

definition unset_error :: "gsh_variable_store \<Rightarrow> byte list \<Rightarrow> errno option" where
  "unset_error s name =
    (if \<not> gsh_variable_name_is_valid name then Some EINVAL
     else if variable_readonly s name then Some EROFS
     else None)"

lemma set_variable_eq:
  assumes "b \<or> val = []"
  shows "set_variable s name val m at b =
    (if \<not> variable_args_ok name val m at then (Some EINVAL, s)
     else case variable_index s name (variable_hash name) of
       Some index \<Rightarrow> update_existing_variable s index name val m at b
     | None \<Rightarrow> insert_variable s (variable_hash name) name val m at b)"
proof (cases "variable_args_ok name val m at")
  case False
  then have "\<not> gsh_variable_name_is_valid name \<or> 65535 < length name \<or> 65535 < length val \<or>
      3 < m \<or> 3 < at \<or> at AND NOT m \<noteq> 0"
    by (auto simp: variable_args_ok_def not_le)
  then show ?thesis using False by (simp only: set_variable_def if_True not_False_eq_True)
next
  case True
  then have ok: "\<not> (\<not> gsh_variable_name_is_valid name \<or> 65535 < length name \<or> 65535 < length val \<or>
      3 < m \<or> 3 < at \<or> at AND NOT m \<noteq> 0)" "length name \<le> 65535" "length val \<le> 65535"
    by (auto simp: variable_args_ok_def not_less)
  then have "\<not> 18446744073709551615 - length val - 2 < length name"
    "\<not> 262144 < length name + length val + 2" by linarith+
  with ok(1) True show ?thesis
    by (simp only: set_variable_def if_False if_True not_True_eq_False not_False_eq_True)
qed

lemma marked_update_rep_snd: "variable_rep s qs \<Longrightarrow>
    fst (marked_update s i name) = None \<and> variable_rep (snd (marked_update s i name)) qs"
  using marked_update_rep[of s qs i name] by (cases "marked_update s i name") simp

lemma update_existing_set:
  assumes rep: "variable_rep s qs" and i: "i < length qs" "qs ! i = (name, old, a)"
    and args: "variable_args_ok name val m at" and nul: "NUL \<notin> set val"
    and run: "update_existing_variable s i name val m at True = (r, t)"
  shows "if bit a 1 then r = Some EROFS \<and> t = s
    else if GSH_VARIABLE_TEXT_CAP < length (vs_text s) - length old + length val
    then r = Some ENOSPC \<and> t = s
    else r = None \<and> (\<exists>a'. variable_rep t (qs[i := (name, val, a')]) \<and> \<not> bit a' 15 \<and>
      (\<forall>n < 2. bit a' n = masked m at n (bit a n)))"
proof -
  note split = variable_rep_split[OF rep i]
  let ?e = "vs_entries s ! i" and ?len = "length name + length old + 2"
    and ?new = "length name + length val + 2" and ?merged = "merge_attributes a m at"
  let ?off = "length (assignments (map item_pair (take i qs)))"
  have m15: "\<not> bit m 15" using args small_mask[of m] by (auto simp: variable_args_ok_def)
  have bits: "bit ?merged n = masked m at n (bit a n)" if "n < 2" for n
    using that by (simp add: merge_attributes_bit masked_def)
  have cap: "length (vs_text s) \<le> 262144" "?len \<le> length (vs_text s)"
    using rep by (simp add: variable_rep_def) (simp add: split(1))
  show ?thesis
  proof (cases "bit a 1")
    case True
    with run show ?thesis
      by (simp add: update_existing_variable_def Let_def split(7) attribute_tests)
  next
    case writable: False
    let ?same = "\<not> bit a 15 \<and> ?len = ?new \<and> take (length val) (drop (?off + length name + 1) (vs_text s)) = val"
    have at: "take (length val) (drop (?off + length name + 1) (vs_text s)) =
        take (length val) (old @ [NUL] @ assignments (map item_pair (drop (Suc i) qs)))"
      by (simp add: split(1) assignment_bytes_def)
    show ?thesis
    proof (cases ?same)
      case True
      then have "take (length val) (drop (?off + length name + 1) (vs_text s)) = val" by blast
      moreover have "length old = length val" using True by linarith
      ultimately have eq: "old = val" unfolding at by simp
      let ?s = "s\<lparr>vs_entries := (vs_entries s)[i := ?e\<lparr>ve_attributes := ?merged\<rparr>]\<rparr>"
      have "marked_update ?s i name = (r, t)"
        using run True writable
        by (simp only: update_existing_variable_def Let_def split(3,4,7) attribute_tests
            simp_thms if_True if_False)
      moreover have "variable_rep ?s (qs[i := (name, old, ?merged)])"
        using True m15 by (intro variable_rep_attributes[OF rep i]) (simp add: merge_attributes_bit)
      ultimately have "r = None" "variable_rep t (qs[i := (name, val, ?merged)])"
        using marked_update_rep eq by blast+
      moreover have "\<not> bit ?merged 15" using True m15 by (simp add: merge_attributes_bit)
      ultimately show ?thesis using writable bits cap eq by auto
    next
      case False
      let ?full = "?len < ?new \<and> 262144 - length (vs_text s) < ?new - ?len"
      have full: "?full \<longleftrightarrow> 262144 < length (vs_text s) - length old + length val"
        using cap by linarith
      show ?thesis
      proof (cases ?full)
        case True
        with run False writable have "(r, t) = (Some ENOSPC, s)"
          by (simp only: update_existing_variable_def Let_def split(3,4,7) attribute_tests
              simp_thms if_True if_False)
        with True full writable show ?thesis by simp
      next
        case fits: False
        let ?a = "?merged AND NOT 32768"
        have a15: "\<not> bit ?a 15" by (simp add: bit_simps)
        have abits: "bit ?a n = masked m at n (bit a n)" if "n < 2" for n
        proof -
          have "\<not> bit (32768 :: 16 word) n" using that by (auto simp: less_2_cases_iff)
          with that show ?thesis
            by (simp only: bit_and_iff bit_not_iff bits[OF that] simp_thms) simp
        qed
        have ok: "variable_item_ok (name, val, ?a)"
          using args nul a15 by (simp add: variable_item_ok_def variable_args_ok_def)
        have room: "length (vs_text s) - length old + length val \<le> 262144"
          using fits unfolding full by simp
        note repl = variable_rep_replace[OF rep i ok room, unfolded split(3,4)]
        from run False writable fits have "marked_update (s\<lparr>vs_entries :=
            (let moved = (if ?new \<noteq> ?len
               then map (\<lambda>other. if ?off < ve_offset other
                 then other\<lparr>ve_offset := ve_offset other + ?new - ?len\<rparr> else other) (vs_entries s)
               else vs_entries s) in
             moved[i := (moved ! i)\<lparr>ve_length := ?new, ve_attributes := ?a\<rparr>]),
            vs_text := take ?off (vs_text s) @ assignment_bytes name val @
              drop (?off + ?len) (vs_text s)\<rparr>) i name = (r, t)"
          by (simp only: update_existing_variable_def Let_def split(3,4,7) attribute_tests
              simp_thms if_True if_False)
        from marked_update_rep[OF _ this, unfolded Let_def, OF repl] a15 abits writable fits full
        show ?thesis by auto
      qed
    qed
  qed
qed

lemma update_existing_attributes:
  assumes rep: "variable_rep s qs" and i: "i < length qs" "qs ! i = (name, old, a)"
    and args: "variable_args_ok name val m at"
    and run: "update_existing_variable s i name val m at False = (r, t)"
  shows "if bit a 1 \<and> bit m 1 \<and> \<not> bit at 1 then r = Some EROFS \<and> t = s
    else r = None \<and> (\<exists>a'. variable_rep t (qs[i := (name, old, a')]) \<and> (bit a' 15 \<longleftrightarrow> bit a 15) \<and>
      (\<forall>n < 2. bit a' n = masked m at n (bit a n)))"
proof -
  note split = variable_rep_split[OF rep i]
  let ?merged = "merge_attributes a m at"
  have m15: "\<not> bit m 15" using args small_mask[of m] by (auto simp: variable_args_ok_def)
  show ?thesis
  proof (cases "bit a 1 \<and> bit m 1 \<and> \<not> bit at 1")
    case True
    with run show ?thesis
      by (simp add: update_existing_variable_def Let_def split(7) attribute_tests)
  next
    case False
    let ?s = "s\<lparr>vs_entries := (vs_entries s)[i := (vs_entries s ! i)\<lparr>ve_attributes := ?merged\<rparr>]\<rparr>"
    have "r = None" "t = ?s"
      using run False by (auto simp: update_existing_variable_def Let_def split(7) attribute_tests)
    moreover have "bit a 15 \<longrightarrow> old = []"
      using variable_rep_item_ok[OF rep nth_mem[OF i(1)]] i(2) by (simp add: variable_item_ok_def)
    then have "variable_rep ?s (qs[i := (name, old, ?merged)])"
      using m15 by (intro variable_rep_attributes[OF rep i]) (simp add: merge_attributes_bit)
    moreover have "bit ?merged 15 \<longleftrightarrow> bit a 15" using m15 by (simp add: merge_attributes_bit)
    moreover have "\<forall>n < 2. bit ?merged n = masked m at n (bit a n)"
      by (simp add: merge_attributes_bit masked_def)
    ultimately show ?thesis using False by auto
  qed
qed

lemma insert_variable_spec:
  assumes rep: "variable_rep s qs" and new: "name \<notin> fst ` set qs"
    and args: "variable_args_ok name val m at" and nul: "NUL \<notin> set val" and b: "b \<or> val = []"
    and run: "insert_variable s (variable_hash name) name val m at b = (r, t)"
  shows "if length qs = GSH_VARIABLE_CAP \<or>
      GSH_VARIABLE_TEXT_CAP < length (vs_text s) + length name + length val + 2
    then r = Some ENOSPC \<and> t = s
    else r = None \<and> (\<exists>a'. variable_rep t (qs @ [(name, val, a')]) \<and> (bit a' 15 \<longleftrightarrow> \<not> b) \<and>
      (\<forall>n < 2. bit a' n = masked m at n False))"
proof -
  let ?a = "ucast (at AND m OR (if b then 0 else 32768)) :: 16 word"
  have len: "length (vs_entries s) = length qs" by (rule variable_rep_length[OF rep])
  have cap: "length (vs_text s) \<le> 262144" "length qs \<le> 1024"
    using rep len by (auto simp: variable_rep_def)
  have full: "262144 - length (vs_text s) < length name + length val + 2 \<longleftrightarrow>
      262144 < length (vs_text s) + length name + length val + 2" using cap by linarith
  show ?thesis
  proof (cases "length qs = 1024 \<or> 262144 < length (vs_text s) + length name + length val + 2")
    case True
    with run full show ?thesis by (simp add: insert_variable_def Let_def len)
  next
    case False
    have m15: "\<not> bit m 15" using args small_mask[of m] by (auto simp: variable_args_ok_def)
    have b32: "bit (32768 :: uint32) 15" "n < 2 \<Longrightarrow> \<not> bit (32768 :: uint32) n" for n
      by (auto simp: less_2_cases_iff)
    have a15: "bit ?a 15 \<longleftrightarrow> \<not> b" using m15 b32(1) by (simp add: bit_simps)
    have bits: "\<forall>n < 2. bit ?a n = masked m at n False"
      using b32(2) by (auto simp: bit_simps masked_def)
    have ok: "variable_item_ok (name, val, ?a)"
      using args nul a15 b by (auto simp: variable_item_ok_def variable_args_ok_def)
    obtain slots where slots:
      "index_insert (vs_slots s) (variable_hash name) (length qs) = Some slots"
      "\<And>g. variable_rep (s\<lparr>vs_slots := slots, vs_entries := vs_entries s @
          [\<lparr>ve_offset = length (vs_text s), ve_length = length name + length val + 2,
            ve_hash = variable_hash name, ve_name_length = length name, ve_attributes = ?a,
            ve_generation = g\<rparr>],
        vs_beyond := tl (vs_beyond s), vs_text := vs_text s @ assignment_bytes name val\<rparr>)
        (qs @ [(name, val, ?a)])"
      using False cap by (auto intro: variable_rep_append[OF rep ok new])
    define u where "u = s\<lparr>vs_slots := slots, vs_entries := vs_entries s @
          [\<lparr>ve_offset = length (vs_text s), ve_length = length name + length val + 2,
            ve_hash = variable_hash name, ve_name_length = length name, ve_attributes = ?a,
            ve_generation = ve_generation (hd (vs_beyond s))\<rparr>],
        vs_beyond := tl (vs_beyond s), vs_text := vs_text s @ assignment_bytes name val\<rparr>"
    have rep_u: "variable_rep u (qs @ [(name, val, ?a)])" unfolding u_def by (rule slots(2))
    have inserted: "insert_hash_slot (s\<lparr>vs_entries := vs_entries s @
          [\<lparr>ve_offset = length (vs_text s), ve_length = length name + length val + 2,
            ve_hash = variable_hash name, ve_name_length = length name, ve_attributes = ?a,
            ve_generation = ve_generation (hd (vs_beyond s))\<rparr>],
        vs_beyond := tl (vs_beyond s), vs_text := vs_text s @ assignment_bytes name val\<rparr>)
        (length (vs_entries s)) = (None, u)"
      using slots(1) by (simp add: insert_hash_slot_def u_def len[symmetric] nth_append)
    have unfull: "\<not> (length (vs_entries s) = 1024 \<or>
        262144 - length (vs_text s) < length name + length val + 2)"
      using False by (simp only: len full) simp
    have "(r, t) = (if b then (case mark_value_update u (length (vs_entries s)) of
               (Some err, s) \<Rightarrow> (Some err, drop_newest s (length name + length val + 2))
             | (None, s) \<Rightarrow> successful_update s name b)
          else successful_update u name b)"
      unfolding run[symmetric] insert_variable_def Let_def if_not_P[OF unfull] inserted
      by (simp only: prod.case option.case)
    also have "\<dots> = (if b then marked_update u (length (vs_entries s)) name
          else successful_update u name b)"
    proof -
      have "vs_next_generation u \<noteq> 0" "length (vs_entries u) \<le> 1024"
        using rep_u by (auto simp: variable_rep_def)
      then obtain g n where "mark_value_update u (length (vs_entries s)) =
          (None, marked u (length (vs_entries s)) g n)" by (rule mark_value_update_fresh)
      then show ?thesis by (simp add: marked_update_def)
    qed
    finally have "r = None \<and> variable_rep t (qs @ [(name, val, ?a)])"
      using marked_update_rep[OF rep_u] variable_rep_path[OF rep_u, of name b]
      by (cases b) (auto simp: successful_update_def dest: sym)
    with False a15 bits show ?thesis by auto
  qed
qed

section \<open>The operations on the map\<close>

lemma variable_rep_found:
  assumes "variable_rep s qs" "gsh_variable_name_is_valid name"
    "variable_index s name (variable_hash name) = Some i"
  obtains val a where "i < length qs" "qs ! i = (name, val, a)" "map_of qs name = Some (val, a)"
proof -
  from variable_rep_index(1)[OF assms(1,2), of i] assms(3) obtain val a where
    i: "i < length qs" "qs ! i = (name, val, a)" by (cases "qs ! i") auto
  moreover have "distinct (map fst qs)"
    using assms(1) by (simp only: variable_rep_def)
  then have "map_of qs name = Some (val, a)"
    using i nth_mem[OF i(1)] by (intro map_of_is_SomeI) simp_all
  ultimately show ?thesis using that by blast
qed

lemma variable_rep_missing:
  assumes "variable_rep s qs" "gsh_variable_name_is_valid name"
    "variable_index s name (variable_hash name) = None"
  shows "name \<notin> fst ` set qs" "map_of qs name = None"
  using variable_rep_index(2)[OF assms(1,2)] assms(3) by (simp_all add: map_of_eq_None_iff)

lemma variable_rep_replaced:
  assumes "variable_rep s qs" "variable_rep t (qs[i := (name, val, a)])" "i < length qs"
    "fst (qs ! i) = name"
  shows "variable_at t = (variable_at s)(name \<mapsto> item_variable (val, a))"
proof -
  have "map_of (qs[i := (name, val, a)]) = (map_of qs)(name \<mapsto> (val, a))"
    using assms by (intro map_of_replace) (simp_all add: variable_rep_def)
  then show ?thesis
    using variable_rep_at(1)[OF assms(1)] variable_rep_at(1)[OF assms(2)] by (auto simp: fun_eq_iff)
qed

lemma variable_rep_appended:
  assumes "variable_rep s qs" "variable_rep t (qs @ [(name, val, a)])" "name \<notin> fst ` set qs"
  shows "variable_at t = (variable_at s)(name \<mapsto> item_variable (val, a))"
  using variable_rep_at(1)[OF assms(1)] variable_rep_at(1)[OF assms(2)] map_of_snoc[OF assms(3)]
  by (auto simp: fun_eq_iff)

lemma variable_rep_count: "variable_rep s qs \<Longrightarrow> gsh_variables_count s = length qs"
  by (simp add: gsh_variables_count_def variable_rep_length)

lemma variable_rep_count_le: "variable_rep s qs \<Longrightarrow> length qs \<le> 1024"
  using variable_rep_length[of s qs] by (auto simp: variable_rep_def)

lemma item_variable_updated:
  assumes "\<forall>n < 2. bit a' n = masked m at n (bit a n)" "\<not> bit a' 15"
  shows "item_variable (val, a') = updated_variable (Some (item_variable (old, a))) (Some val) m at"
  using assms by (simp add: item_variable_def updated_variable_def)

lemma variables_set_spec:
  assumes ok: "variable_ok s" and nul: "NUL \<notin> set val"
    and run: "gsh_variables_set s name val m at = (r, t)"
  shows "variable_ok t \<and> r = set_error s name val m at \<and>
    (r = None \<longrightarrow> variable_at t = (variable_at s)
      (name \<mapsto> updated_variable (variable_at s name) (Some val) m at)) \<and>
    (r \<noteq> None \<longrightarrow> t = s)"
proof -
  obtain qs where rep: "variable_rep s qs" using ok by (auto simp: variable_ok_def)
  note at = variable_rep_at(1)[OF rep]
  show ?thesis
  proof (cases "variable_args_ok name val m at")
    case False
    with run ok show ?thesis by (auto simp: gsh_variables_set_def set_variable_eq set_error_def)
  next
    case True
    then have valid: "gsh_variable_name_is_valid name" by (simp add: variable_args_ok_def)
    show ?thesis
    proof (cases "variable_index s name (variable_hash name)")
      case (Some i)
      from variable_rep_found[OF rep valid Some] obtain old a where
        i: "i < length qs" "qs ! i = (name, old, a)" "map_of qs name = Some (old, a)" .
      have now: "variable_at s name = Some (item_variable (old, a))" by (simp add: at i(3))
      have "bit a 15 \<longrightarrow> old = []"
        using variable_rep_item_ok[OF rep nth_mem[OF i(1)]] i(2) by (simp add: variable_item_ok_def)
      then have err: "variable_readonly s name \<longleftrightarrow> bit a 1"
        "variable_has_room s name val \<longleftrightarrow> \<not> 262144 < length (vs_text s) - length old + length val"
        by (auto simp: variable_readonly_def variable_has_room_def now item_variable_def)
      have run': "update_existing_variable s i name val m at True = (r, t)"
        using run True Some by (simp add: gsh_variables_set_def set_variable_eq)
      note spec = update_existing_set[OF rep i(1,2) True nul run']
      show ?thesis
      proof (cases "set_error s name val m at")
        case (Some e)
        with spec True ok err show ?thesis by (auto simp: set_error_def split: if_splits)
      next
        case None
        with spec True err obtain a' where a': "r = None" "variable_rep t (qs[i := (name, val, a')])"
          "\<not> bit a' 15" "\<forall>n < 2. bit a' n = masked m at n (bit a n)"
          by (auto simp: set_error_def split: if_splits)
        have "variable_at t = (variable_at s)(name \<mapsto> item_variable (val, a'))"
          using i by (intro variable_rep_replaced[OF rep a'(2)]) simp_all
        then show ?thesis
          using None a' item_variable_updated[OF a'(4,3)] by (auto simp: variable_ok_def now)
      qed
    next
      case None
      note new = variable_rep_missing[OF rep valid None]
      have now: "variable_at s name = None" by (simp add: at new(2))
      have err: "\<not> variable_readonly s name" "variable_has_room s name val \<longleftrightarrow>
          \<not> (length qs = 1024 \<or> 262144 < length (vs_text s) + length name + length val + 2)"
        using variable_rep_count_le[OF rep]
        by (auto simp: variable_readonly_def variable_has_room_def now variable_rep_count[OF rep])
      have run': "insert_variable s (variable_hash name) name val m at True = (r, t)"
        using run True None by (simp add: gsh_variables_set_def set_variable_eq)
      note spec = insert_variable_spec[OF rep new(1) True nul _ run']
      show ?thesis
      proof (cases "set_error s name val m at")
        case (Some e)
        with spec True ok err show ?thesis by (auto simp: set_error_def split: if_splits)
      next
        case None
        with spec True err obtain a' where a': "r = None" "variable_rep t (qs @ [(name, val, a')])"
          "\<not> bit a' 15" "\<forall>n < 2. bit a' n = masked m at n False"
          by (auto simp: set_error_def split: if_splits)
        have "variable_at t = (variable_at s)(name \<mapsto> item_variable (val, a'))"
          by (rule variable_rep_appended[OF rep a'(2) new(1)])
        then show ?thesis
          using None a' by (auto simp: variable_ok_def now item_variable_def updated_variable_def)
      qed
    qed
  qed
qed

lemma variables_set_attributes_spec:
  assumes ok: "variable_ok s" and run: "gsh_variables_set_attributes s name m at = (r, t)"
  shows "variable_ok t \<and> r = set_attributes_error s name m at \<and>
    (r = None \<longrightarrow> variable_at t = (variable_at s)
      (name \<mapsto> updated_variable (variable_at s name)
        (Option.bind (variable_at s name) v_value) m at)) \<and>
    (r \<noteq> None \<longrightarrow> t = s)"
proof -
  obtain qs where rep: "variable_rep s qs" using ok by (auto simp: variable_ok_def)
  note at = variable_rep_at(1)[OF rep]
  show ?thesis
  proof (cases "variable_args_ok name [] m at")
    case False
    with run ok show ?thesis
      by (auto simp: gsh_variables_set_attributes_def set_variable_eq set_attributes_error_def)
  next
    case True
    then have valid: "gsh_variable_name_is_valid name" by (simp add: variable_args_ok_def)
    show ?thesis
    proof (cases "variable_index s name (variable_hash name)")
      case (Some i)
      from variable_rep_found[OF rep valid Some] obtain old a where
        i: "i < length qs" "qs ! i = (name, old, a)" "map_of qs name = Some (old, a)" .
      have now: "variable_at s name = Some (item_variable (old, a))" by (simp add: at i(3))
      then have err: "set_attributes_error s name m at =
          (if bit a 1 \<and> bit m 1 \<and> \<not> bit at 1 then Some EROFS else None)"
        using True by (simp add: set_attributes_error_def variable_readonly_def item_variable_def)
      have run': "update_existing_variable s i name [] m at False = (r, t)"
        using run True Some by (simp add: gsh_variables_set_attributes_def set_variable_eq)
      note spec = update_existing_attributes[OF rep i(1,2) True run']
      show ?thesis
      proof (cases "bit a 1 \<and> bit m 1 \<and> \<not> bit at 1")
        case True
        with spec ok err show ?thesis by simp
      next
        case False
        with spec obtain a' where a': "r = None" "variable_rep t (qs[i := (name, old, a')])"
          "bit a' 15 \<longleftrightarrow> bit a 15" "\<forall>n < 2. bit a' n = masked m at n (bit a n)" by auto
        have "variable_at t = (variable_at s)(name \<mapsto> item_variable (old, a'))"
          using i by (intro variable_rep_replaced[OF rep a'(2)]) simp_all
        then show ?thesis
          using False a' err by (auto simp: variable_ok_def now item_variable_def updated_variable_def)
      qed
    next
      case None
      note new = variable_rep_missing[OF rep valid None]
      have now: "variable_at s name = None" by (simp add: at new(2))
      have err: "set_attributes_error s name m at = (if length qs = 1024 \<or>
          262144 < length (vs_text s) + length name + length ([] :: byte list) + 2 then Some ENOSPC else None)"
        using variable_rep_count_le[OF rep] True
        by (auto simp: set_attributes_error_def variable_readonly_def variable_has_room_def now
            variable_rep_count[OF rep])
      have run': "insert_variable s (variable_hash name) name [] m at False = (r, t)"
        using run True None by (simp add: gsh_variables_set_attributes_def set_variable_eq)
      note spec = insert_variable_spec[OF rep new(1) True _ _ run', simplified]
      show ?thesis
      proof (cases "length qs = 1024 \<or>
          262144 < length (vs_text s) + length name + length ([] :: byte list) + 2")
        case True
        with spec ok err show ?thesis by simp
      next
        case False
        with spec obtain a' where a': "r = None" "variable_rep t (qs @ [(name, [], a')])"
          "bit a' 15" "\<forall>n < 2. bit a' n = masked m at n False" by auto
        have "variable_at t = (variable_at s)(name \<mapsto> item_variable ([], a'))"
          by (rule variable_rep_appended[OF rep a'(2) new(1)])
        then show ?thesis
          using False a' err by (auto simp: variable_ok_def now item_variable_def updated_variable_def)
      qed
    qed
  qed
qed

lemma variables_unset_spec:
  assumes ok: "variable_ok s" and run: "gsh_variables_unset s name = (r, t)"
  shows "variable_ok t \<and> r = unset_error s name \<and>
    (r = None \<longrightarrow> variable_at t = (variable_at s)(name := None)) \<and> (r \<noteq> None \<longrightarrow> t = s)"
proof -
  obtain qs where rep: "variable_rep s qs" using ok by (auto simp: variable_ok_def)
  note at = variable_rep_at(1)[OF rep]
  show ?thesis
  proof (cases "gsh_variable_name_is_valid name")
    case False
    with run ok show ?thesis by (auto simp: gsh_variables_unset_def unset_error_def)
  next
    case valid: True
    show ?thesis
    proof (cases "variable_index s name (variable_hash name)")
      case None
      then have now: "variable_at s name = None"
        using variable_rep_missing[OF rep valid None] by (simp add: at)
      have t: "r = None" "t = snd (successful_update s name True)"
        using run valid None by (auto simp: gsh_variables_unset_def successful_update_def)
      have rep_t: "variable_rep t qs" unfolding t by (rule variable_rep_path[OF rep])
      have "variable_at t = variable_at s"
        using variable_rep_at(1)[OF rep] variable_rep_at(1)[OF rep_t] by (auto simp: fun_eq_iff)
      then show ?thesis using rep_t valid t(1) now
        by (auto simp: variable_ok_def unset_error_def variable_readonly_def fun_eq_iff)
    next
      case (Some i)
      from variable_rep_found[OF rep valid Some] obtain old a where
        i: "i < length qs" "qs ! i = (name, old, a)" "map_of qs name = Some (old, a)" .
      have now: "variable_at s name = Some (item_variable (old, a))" by (simp add: at i(3))
      have dist: "distinct (map fst qs)" using rep by (simp only: variable_rep_def)
      have attr: "ve_attributes (vs_entries s ! i) = a" by (rule variable_rep_split(7)[OF rep i(1,2)])
      show ?thesis
      proof (cases "bit a 1")
        case True
        then show ?thesis using run valid Some ok now
          by (auto simp: gsh_variables_unset_def attr attribute_tests unset_error_def
              variable_readonly_def item_variable_def)
      next
        case False
        note removed = variable_rep_path[OF variable_rep_unset[OF rep i(1,2)], of name True]
        have "r = None" "variable_rep t (take i qs @ drop (Suc i) qs)"
          using run valid Some False removed
          by (auto simp: gsh_variables_unset_def attr attribute_tests Let_def successful_update_def)
        moreover from this(2) have "variable_at t = (variable_at s)(name := None)"
          using variable_rep_at(1)[OF rep] variable_rep_at(1)[of t] map_of_remove[OF dist i(1), of name] i(2)
          by (auto simp: fun_eq_iff)
        ultimately show ?thesis using valid False now
          by (auto simp: variable_ok_def unset_error_def variable_readonly_def item_variable_def)
      qed
    qed
  qed
qed

lemma variables_initial:
  "variable_rep gsh_variables_initialize []" "variable_ok gsh_variables_initialize"
  "variable_at gsh_variables_initialize = Map.empty"
proof -
  show rep: "variable_rep gsh_variables_initialize []"
    using wide_probing.rep_empty by (simp add: variable_rep_def gsh_variables_initialize_def)
  then show "variable_ok gsh_variables_initialize" by (auto simp: variable_ok_def)
  show "variable_at gsh_variables_initialize = Map.empty"
    using variable_rep_at(1)[OF rep] by (simp add: fun_eq_iff)
qed

section \<open>Generations after a set\<close>

abbreviation generations :: "gsh_variable_store \<Rightarrow> uint64 list" where
  "generations s \<equiv> map ve_generation (vs_entries s)"

lemma marked_update_generation:
  assumes "vs_next_generation u \<noteq> 0" "length (vs_entries u) \<le> 1024" "marked_update u i name = (r, t)"
  shows "\<exists>g. generations t = (generations u)[i := g] \<and> g \<noteq> 0 \<and> g \<notin> set (generations u)"
proof -
  obtain g n where "mark_value_update u i = (None, marked u i g n)" "g \<noteq> 0"
    "\<forall>e \<in> set (vs_entries u). ve_generation e \<noteq> g"
    by (rule mark_value_update_fresh[OF assms(1,2)])
  with assms(3) show ?thesis
    by (auto simp: marked_update_def successful_update_def marked_def map_update split: if_splits
        intro!: exI[of _ g])
qed

lemma update_existing_generation:
  assumes "vs_next_generation s \<noteq> 0" "length (vs_entries s) \<le> 1024" "i < length (vs_entries s)"
    "update_existing_variable s i name val m at True = (None, t)"
  shows "\<exists>g. generations t = (generations s)[i := g] \<and> g \<noteq> 0 \<and> g \<notin> set (generations s)"
proof -
  have moved: "map ve_generation (map (\<lambda>e. if c e then e\<lparr>ve_offset := k e\<rparr> else e) es) =
      map ve_generation es" for c k es by (simp add: map_list_update_same)
  have keep: "map ve_generation (es[i := e]) = map ve_generation es"
    if "ve_generation e = ve_generation (es ! i)" for es e
    using that by (simp add: map_list_update_same)
  obtain u where "marked_update u i name = (None, t)" "generations u = generations s"
    "vs_next_generation u = vs_next_generation s" "length (vs_entries u) = length (vs_entries s)"
    using assms(3,4)
    by (auto simp: update_existing_variable_def Let_def keep moved nth_map if_distrib
        simp del: map_map split: if_splits)
  then show ?thesis using marked_update_generation[of u i name None t] assms(1,2) by metis
qed

lemma insert_variable_generation:
  assumes "vs_next_generation s \<noteq> 0" "length (vs_entries s) < 1024"
    "insert_variable s h name val m at True = (None, t)"
  shows "\<exists>g. generations t = generations s @ [g] \<and> g \<noteq> 0 \<and> g \<notin> set (generations s)"
proof -
  let ?e = "\<lparr>ve_offset = length (vs_text s), ve_length = length name + length val + 2, ve_hash = h,
      ve_name_length = length name, ve_attributes = ucast (at AND m),
      ve_generation = ve_generation (hd (vs_beyond s))\<rparr>"
  let ?u = "\<lambda>slots. s\<lparr>vs_entries := vs_entries s @ [?e], vs_beyond := tl (vs_beyond s),
      vs_text := vs_text s @ assignment_bytes name val, vs_slots := slots\<rparr>"
  obtain slots where "(case mark_value_update (?u slots) (length (vs_entries s)) of
        (Some err, s) \<Rightarrow> (Some err, drop_newest s (length name + length val + 2))
      | (None, s) \<Rightarrow> successful_update s name True) = (None, t)"
    using assms(3)
    by (simp add: insert_variable_def Let_def insert_hash_slot_def nth_append
        del: add_2_eq_Suc' split: if_splits option.splits)
  then have "marked_update (?u slots) (length (vs_entries s)) name = (None, t)"
    by (auto simp: marked_update_def split: prod.splits option.splits)
  moreover have "vs_entries (?u slots) = vs_entries s @ [?e]"
    "vs_next_generation (?u slots) = vs_next_generation s" by simp_all
  ultimately obtain u e where u: "marked_update u (length (vs_entries s)) name = (None, t)"
      "vs_entries u = vs_entries s @ [e]" "vs_next_generation u = vs_next_generation s" by blast
  have "length (vs_entries u) \<le> 1024" "vs_next_generation u \<noteq> 0" using assms(1,2) u by simp_all
  from marked_update_generation[OF this(2,1) u(1)] obtain g where
    "generations t = (generations u)[length (vs_entries s) := g]" "g \<noteq> 0" "g \<notin> set (generations u)"
    by blast
  then show ?thesis by (auto simp: u(2) list_update_append intro!: exI[of _ g])
qed

lemma variable_rep_generation:
  assumes "variable_rep s qs" "i < length qs" "fst (qs ! i) = name"
  shows "gsh_variables_value_generation s name = generations s ! i"
proof -
  have "gsh_variable_name_is_valid name"
    using variable_rep_item_ok[OF assms(1) nth_mem[OF assms(2)]] assms(3) by (simp add: variable_item_ok_def)
  with variable_rep_index(1)[OF assms(1) this, of i] assms variable_rep_length[OF assms(1)]
  show ?thesis by (simp add: gsh_variables_value_generation_def)
qed

lemma variable_rep_generations:
  assumes "variable_rep s qs"
  shows "gsh_variables_value_generation s name \<in> insert 0 (set (generations s))"
proof (cases "gsh_variable_name_is_valid name")
  case True
  show ?thesis
  proof (cases "variable_index s name (variable_hash name)")
    case (Some i)
    then have "i < length (vs_entries s)"
      using variable_rep_index(1)[OF assms True, of i] variable_rep_length[OF assms] by simp
    then show ?thesis using True Some by (simp add: gsh_variables_value_generation_def)
  qed (simp add: gsh_variables_value_generation_def)
qed (simp add: gsh_variables_value_generation_def)

lemma variables_set_generation:
  assumes ok: "variable_ok s" and nul: "NUL \<notin> set val"
    and run: "gsh_variables_set s name val m at = (None, t)"
  shows "gsh_variables_value_generation t name \<noteq> 0 \<and>
    (\<forall>other. gsh_variables_value_generation t name \<noteq> gsh_variables_value_generation s other) \<and>
    (\<forall>other. other \<noteq> name \<longrightarrow>
      gsh_variables_value_generation t other = gsh_variables_value_generation s other)"
proof -
  obtain qs where rep: "variable_rep s qs" using ok by (auto simp: variable_ok_def)
  have start: "vs_next_generation s \<noteq> 0" "length (vs_entries s) \<le> 1024"
    using rep by (auto simp: variable_rep_def)
  have len: "length (vs_entries s) = length qs" by (rule variable_rep_length[OF rep])
  have args: "variable_args_ok name val m at"
    using run by (auto simp: gsh_variables_set_def set_variable_eq split: if_splits)
  then have valid: "gsh_variable_name_is_valid name" by (simp add: variable_args_ok_def)
  have absent: "gsh_variables_value_generation u other = 0"
    if "variable_rep u ps" "other \<notin> fst ` set ps" for u ps other
    using variable_rep_index(2)[OF that(1), of other] that(2)
    by (auto simp: gsh_variables_value_generation_def split: option.splits)
  have finish: ?thesis if "variable_rep t ps" "generations t = gs" "i < length ps"
    "map fst ps = ns" "ns ! i = name" "gs ! i \<noteq> 0" "gs ! i \<notin> set (generations s)"
    "\<And>j. j < length ps \<Longrightarrow> j \<noteq> i \<Longrightarrow> j < length qs \<and> fst (qs ! j) = ns ! j \<and> gs ! j = generations s ! j"
    "insert name (fst ` set qs) = set ns" for ps gs ns i
  proof -
    have "gsh_variables_value_generation t name = gs ! i"
      using variable_rep_generation[OF that(1,3)] that(2-5) by auto
    moreover have "gsh_variables_value_generation t other = gsh_variables_value_generation s other"
      if "other \<noteq> name" for other
    proof (cases "other \<in> set ns")
      case True
      then obtain j where j: "j < length ps" "ns ! j = other"
        using \<open>map fst ps = ns\<close> by (auto simp: in_set_conv_nth)
      with that \<open>ns ! i = name\<close> have "j \<noteq> i" by auto
      with that(1) j \<open>map fst ps = ns\<close> show ?thesis
        using variable_rep_generation[OF \<open>variable_rep t ps\<close> j(1)]
          variable_rep_generation[OF rep, of j]
          \<open>\<And>j. j < length ps \<Longrightarrow> j \<noteq> i \<Longrightarrow> j < length qs \<and> fst (qs ! j) = ns ! j \<and> gs ! j = generations s ! j\<close>[OF j(1)]
          \<open>generations t = gs\<close> by auto
    next
      case False
      moreover have "set ns = fst ` set ps" using \<open>map fst ps = ns\<close> by (metis list.set_map)
      ultimately have "other \<notin> fst ` set ps" "other \<notin> fst ` set qs"
        using \<open>insert name (fst ` set qs) = set ns\<close> by blast+
      then show ?thesis using absent[OF rep] absent[OF \<open>variable_rep t ps\<close>] by simp
    qed
    ultimately show ?thesis
      using that(6,7) variable_rep_generations[OF rep] by (metis insertE)
  qed
  show ?thesis
  proof (cases "variable_index s name (variable_hash name)")
    case (Some i)
    from variable_rep_found[OF rep valid Some] obtain old a where i: "i < length qs" "qs ! i = (name, old, a)" .
    have run': "update_existing_variable s i name val m at True = (None, t)"
      using run args Some by (simp add: gsh_variables_set_def set_variable_eq)
    from update_existing_set[OF rep i args nul run'] obtain a' where
      rep_t: "variable_rep t (qs[i := (name, val, a')])" by (auto split: if_splits)
    from update_existing_generation[OF start _ run'] i(1) len obtain g where
      g: "generations t = (generations s)[i := g]" "g \<noteq> 0" "g \<notin> set (generations s)" by auto
    show ?thesis
    proof (rule finish[OF rep_t g(1), of i "map fst qs"])
      show "map fst (qs[i := (name, val, a')]) = map fst qs"
        using i(2) by (simp add: map_list_update_same)
      show "insert name (fst ` set qs) = set (map fst qs)"
        using i nth_mem[OF i(1)] by (force simp: insert_absorb)
    qed (use i g len in auto)
  next
    case None
    note new = variable_rep_missing[OF rep valid None]
    have run': "insert_variable s (variable_hash name) name val m at True = (None, t)"
      using run args None by (simp add: gsh_variables_set_def set_variable_eq)
    from insert_variable_spec[OF rep new(1) args nul _ run'] obtain a' where
      rep_t: "variable_rep t (qs @ [(name, val, a')])" by (auto split: if_splits)
    have "length (vs_entries s) < 1024"
      using variable_rep_count_le[OF rep_t] len by simp
    from insert_variable_generation[OF start(1) this run'] obtain g where
      g: "generations t = generations s @ [g]" "g \<noteq> 0" "g \<notin> set (generations s)" by auto
    show ?thesis
      by (rule finish[OF rep_t g(1), of "length qs" "map fst qs @ [name]"])
        (use g len in \<open>auto simp: nth_append\<close>)
  qed
qed

section \<open>Properties\<close>

text \<open>C18. Setting a variable refines a map update: on a well-formed store the call returns the error
  the arguments, the read-only attribute and the free room decide and then leaves the store as it
  was, or it succeeds and the store, still well formed (packed text, exact offsets, probing
  index), reads as the old map with the variable updated under the attribute mask.\<close>

theorem variables_set_refines:
  assumes "variable_ok s" "NUL \<notin> set val"
  shows "case gsh_variables_set s name val attribute_mask attributes of (r, t) \<Rightarrow>
    variable_ok t \<and> r = set_error s name val attribute_mask attributes \<and>
    (r = None \<longrightarrow> variable_at t = (variable_at s)
      (name \<mapsto> updated_variable (variable_at s name) (Some val) attribute_mask attributes)) \<and>
    (r \<noteq> None \<longrightarrow> t = s)"
  using variables_set_spec[OF assms] by (simp split: prod.split)

lemma variables_initial_size:
  "gsh_variables_count gsh_variables_initialize = 0" "vs_text gsh_variables_initialize = []"
  by (simp_all add: gsh_variables_initialize_def gsh_variables_count_def)

lemma blank_set:
  assumes "variable_args_ok name val m at" "NUL \<notin> set val"
  obtains t where "gsh_variables_set gsh_variables_initialize name val m at = (None, t)"
    "variable_ok t" "variable_at t = [name \<mapsto> updated_variable None (Some val) m at]"
proof -
  have "length name \<le> 65535" "length val \<le> 65535" using assms(1) by (simp_all add: variable_args_ok_def)
  then have "set_error gsh_variables_initialize name val m at = None"
    using assms(1) by (simp add: set_error_def variables_initial(3) variable_readonly_def
        variable_has_room_def variables_initial_size)
  with variables_set_spec[OF variables_initial(2) assms(2), of name m at] that show ?thesis
    by (cases "gsh_variables_set gsh_variables_initialize name val m at")
      (auto simp: variables_initial(3))
qed

lemma home_args: "variable_args_ok ''HOME'' ''/r'' 1 1" "NUL \<notin> set ''/r''"
  by (simp_all add: variable_args_ok_def gsh_variable_name_is_valid_def byte_class_defs
      less_eq_char_def)

lemma variables_set_refines_witness:
  "\<exists>t. gsh_variables_set gsh_variables_initialize ''HOME'' ''/r'' 1 1 = (None, t) \<and>
    variable_at t ''HOME'' = Some \<lparr>v_value = Some ''/r'', v_exported = True, v_readonly = False\<rparr>"
proof -
  obtain t where "gsh_variables_set gsh_variables_initialize ''HOME'' ''/r'' 1 1 = (None, t)"
    using blank_set[OF home_args] by metis
  with variables_set_refines[OF variables_initial(2) home_args(2), of "''HOME''" 1 1] show ?thesis
    by (simp add: variables_initial(3) updated_variable_def masked_def)
qed

text \<open>Each successful assignment gives its variable a value generation that is not zero and that
  no variable of the store had before, even after the 64-bit counter wraps, and leaves the
  generations of the other variables alone.\<close>

theorem variables_set_fresh_generation:
  assumes "variable_ok s" "NUL \<notin> set val"
    "gsh_variables_set s name val attribute_mask attributes = (None, t)"
  shows "gsh_variables_value_generation t name \<noteq> 0 \<and>
    (\<forall>other. gsh_variables_value_generation t name \<noteq> gsh_variables_value_generation s other) \<and>
    (\<forall>other. other \<noteq> name \<longrightarrow>
      gsh_variables_value_generation t other = gsh_variables_value_generation s other)"
  by (rule variables_set_generation[OF assms])

lemma variables_set_fresh_generation_witness:
  "\<exists>t. gsh_variables_set gsh_variables_initialize ''HOME'' ''/r'' 1 1 = (None, t) \<and>
    gsh_variables_value_generation t ''HOME'' \<noteq> 0"
proof -
  obtain t where t: "gsh_variables_set gsh_variables_initialize ''HOME'' ''/r'' 1 1 = (None, t)"
    using blank_set[OF home_args] by metis
  with variables_set_fresh_generation[OF variables_initial(2) home_args(2) t] show ?thesis by blast
qed

text \<open>A run of operations, each of which may fail.\<close>

datatype variable_op =
    Op_assign "byte list" "byte list" uint32 uint32
  | Op_attributes "byte list" uint32 uint32
  | Op_forget "byte list"

definition run_variable_op ::
  "gsh_variable_store \<Rightarrow> variable_op \<Rightarrow> errno option \<times> gsh_variable_store" where
  "run_variable_op s x =
    (case x of
       Op_assign name val m at \<Rightarrow> gsh_variables_set s name val m at
     | Op_attributes name m at \<Rightarrow> gsh_variables_set_attributes s name m at
     | Op_forget name \<Rightarrow> gsh_variables_unset s name)"

definition op_has_string :: "variable_op \<Rightarrow> bool" where
  "op_has_string x = (case x of Op_assign name val m at \<Rightarrow> NUL \<notin> set val | _ \<Rightarrow> True)"

text \<open>What the three specifications say together.\<close>

lemma run_variable_op_spec:
  assumes "variable_ok s" "op_has_string x" "run_variable_op s x = (r, t)"
  shows "variable_ok t" "r \<noteq> None \<Longrightarrow> t = s"
    "r = None \<Longrightarrow> variable_at t = (case x of
        Op_assign name val m at \<Rightarrow> (variable_at s)
          (name \<mapsto> updated_variable (variable_at s name) (Some val) m at)
      | Op_attributes name m at \<Rightarrow> (variable_at s)
          (name \<mapsto> updated_variable (variable_at s name) (Option.bind (variable_at s name) v_value) m at)
      | Op_forget name \<Rightarrow> (variable_at s)(name := None))"
    "r = (case x of Op_assign name val m at \<Rightarrow> set_error s name val m at
      | Op_attributes name m at \<Rightarrow> set_attributes_error s name m at
      | Op_forget name \<Rightarrow> unset_error s name)"
  using assms variables_set_spec[OF assms(1)] variables_set_attributes_spec[OF assms(1)]
    variables_unset_spec[OF assms(1)]
  by (cases x; simp add: run_variable_op_def op_has_string_def)+

lemma run_variable_op_ok:
  "variable_ok s \<Longrightarrow> op_has_string x \<Longrightarrow> variable_ok (snd (run_variable_op s x))"
  using run_variable_op_spec(1)[of s x] by (metis prod.collapse)

lemma run_variable_op_readonly:
  assumes "variable_ok s" "op_has_string x" "variable_at s name = Some v" "v_readonly v"
  shows "\<exists>w. variable_at (snd (run_variable_op s x)) name = Some w \<and> v_readonly w \<and> v_value w = v_value v"
proof -
  obtain r t where run: "run_variable_op s x = (r, t)" by fastforce
  note spec = run_variable_op_spec[OF assms(1,2) run]
  have ro: "variable_readonly s name" using assms(3,4) by (simp add: variable_readonly_def)
  show ?thesis
  proof (cases r)
    case None
    with spec(4) ro have "\<And>val m at. x \<noteq> Op_assign name val m at" "x \<noteq> Op_forget name"
      "\<And>m at. x = Op_attributes name m at \<Longrightarrow> bit m 1 \<longrightarrow> bit at 1"
      by (auto simp: set_error_def unset_error_def set_attributes_error_def split: if_splits)
    with spec(3)[OF None] assms(3,4) run show ?thesis
      by (cases x) (auto simp: updated_variable_def masked_def)
  next
    case (Some e)
    with spec(2) run assms(3,4) show ?thesis by simp
  qed
qed

fun run_variable_ops :: "gsh_variable_store \<Rightarrow> variable_op list \<Rightarrow> gsh_variable_store" where
  "run_variable_ops s [] = s"
| "run_variable_ops s (x # xs) = run_variable_ops (snd (run_variable_op s x)) xs"

text \<open>C19. A variable that is read-only stays read-only and keeps its value, set or not, under every
  sequence of assignments, attribute changes and removals, whatever they return.\<close>

theorem readonly_variable_is_final:
  assumes "variable_ok s" "list_all op_has_string ops" "variable_at s name = Some v" "v_readonly v"
  shows "\<exists>w. variable_at (run_variable_ops s ops) name = Some w \<and> v_readonly w \<and> v_value w = v_value v"
  using assms
proof (induction ops arbitrary: s v)
  case (Cons x ops)
  then have ops: "op_has_string x" "list_all op_has_string ops" by simp_all
  obtain w where w: "variable_at (snd (run_variable_op s x)) name = Some w" "v_readonly w"
      "v_value w = v_value v"
    using run_variable_op_readonly[OF Cons.prems(1) ops(1) Cons.prems(3,4)] by blast
  show ?case
    using Cons.IH[OF run_variable_op_ok[OF Cons.prems(1) ops(1)] ops(2) w(1,2)] w(3) by simp
qed simp

lemma readonly_variable_is_final_witness:
  "\<exists>t. gsh_variables_set gsh_variables_initialize ''HOME'' ''/r'' 2 2 = (None, t) \<and>
    (\<exists>w. variable_at (run_variable_ops t [Op_forget ''HOME'', Op_attributes ''HOME'' 3 1,
        Op_assign ''HOME'' ''/'' 0 0]) ''HOME'' = Some w \<and> v_value w = Some ''/r'')"
proof -
  have args: "variable_args_ok ''HOME'' ''/r'' 2 2"
    using home_args by (simp add: variable_args_ok_def)
  obtain t where t: "gsh_variables_set gsh_variables_initialize ''HOME'' ''/r'' 2 2 = (None, t)"
      "variable_ok t" "variable_at t = [''HOME'' \<mapsto> updated_variable None (Some ''/r'') 2 2]"
    using blank_set[OF args home_args(2)] by metis
  have "list_all op_has_string [Op_forget ''HOME'', Op_attributes ''HOME'' 3 1, Op_assign ''HOME'' ''/'' 0 0]"
    by (simp add: op_has_string_def)
  from readonly_variable_is_final[OF t(2) this, of "''HOME''" "updated_variable None (Some ''/r'') 2 2"]
  show ?thesis using t(1,3) by (simp add: updated_variable_def masked_def) metis
qed

end
