(* ===== verification/VariableJournal.thy ===== *)
theory VariableJournal
  imports Variables
begin

text \<open>
  The variable journal of \<open>src/shell_variables.c\<close>: a child process records the assignments,
  attribute changes and removals it made, at most one entry per scope and name; the parent
  validates the journal and replays it, in place or through a scratch copy. The entries and the
  text are their used parts, so \<open>count\<close> and \<open>text_used\<close> are lengths. The operation is the byte
  the entry holds, the reserved bytes are a list; a journal comes from another process, so
  validation is over any values of them.
\<close>

section \<open>The journal\<close>

abbreviation (input) GSH_VARIABLE_JOURNAL_CAP :: nat where "GSH_VARIABLE_JOURNAL_CAP \<equiv> 64"
abbreviation (input) GSH_VARIABLE_JOURNAL_TEXT_CAP :: nat where
  "GSH_VARIABLE_JOURNAL_TEXT_CAP \<equiv> 65536"
abbreviation (input) GSH_VARIABLE_JOURNAL_VERSION :: nat where "GSH_VARIABLE_JOURNAL_VERSION \<equiv> 3"
abbreviation (input) GSH_VARIABLE_JOURNAL_SET :: nat where "GSH_VARIABLE_JOURNAL_SET \<equiv> 0"
abbreviation (input) GSH_VARIABLE_JOURNAL_ATTRIBUTES :: nat where
  "GSH_VARIABLE_JOURNAL_ATTRIBUTES \<equiv> 1"
abbreviation (input) GSH_VARIABLE_JOURNAL_UNSET :: nat where "GSH_VARIABLE_JOURNAL_UNSET \<equiv> 2"
abbreviation (input) GSH_VARIABLE_JOURNAL_UNSET_ATTRIBUTES :: nat where
  "GSH_VARIABLE_JOURNAL_UNSET_ATTRIBUTES \<equiv> 3"

datatype gsh_variable_journal_value_state =
    GSH_VARIABLE_JOURNAL_VALUE_ABSENT | GSH_VARIABLE_JOURNAL_VALUE_SET
  | GSH_VARIABLE_JOURNAL_VALUE_UNSET

record gsh_variable_journal_entry =
  vj_offset :: nat
  vj_length :: nat
  vj_name_length :: nat
  vj_mask :: "16 word"
  vj_attributes :: "16 word"
  vj_scope :: nat
  vj_operation :: nat
  vj_reserved :: "byte list"

record gsh_variable_journal =
  vj_version :: nat
  vj_journal_reserved :: uint32
  vj_base_generation :: uint64
  vj_entries :: "gsh_variable_journal_entry list"
  vj_text :: "byte list"

definition gsh_variable_journal_initialize :: "uint64 \<Rightarrow> gsh_variable_journal" where
  "gsh_variable_journal_initialize base_generation =
    \<lparr>vj_version = GSH_VARIABLE_JOURNAL_VERSION, vj_journal_reserved = 0,
     vj_base_generation = base_generation, vj_entries = [], vj_text = []\<rparr>"

definition journal_name_matches ::
  "gsh_variable_journal \<Rightarrow> nat \<Rightarrow> byte list \<Rightarrow> gsh_variable_journal_entry \<Rightarrow> bool" where
  "journal_name_matches j scope name e \<longleftrightarrow> vj_scope e = scope \<and> vj_name_length e = length name \<and>
    take (Suc (length name)) (drop (vj_offset e) (vj_text j)) = name @ ''=''"

text \<open>The first entry that matches; \<open>None\<close> is the C's \<open>GSH_VARIABLE_JOURNAL_CAP\<close>.\<close>

fun first_match :: "('a \<Rightarrow> bool) \<Rightarrow> nat \<Rightarrow> 'a list \<Rightarrow> nat option" where
  "first_match P index [] = None"
| "first_match P index (e # es) = (if P e then Some index else first_match P (Suc index) es)"

definition journal_name_index ::
  "gsh_variable_journal \<Rightarrow> nat \<Rightarrow> byte list \<Rightarrow> nat option" where
  "journal_name_index j scope name = first_match (journal_name_matches j scope name) 0 (vj_entries j)"

definition gsh_variable_journal_lookup_scoped ::
  "gsh_variable_journal \<Rightarrow> nat \<Rightarrow> byte list \<Rightarrow> byte list \<times> gsh_variable_journal_value_state" where
  "gsh_variable_journal_lookup_scoped j scope name =
    (if UINT16_MAX < scope then ([], GSH_VARIABLE_JOURNAL_VALUE_ABSENT)
     else case journal_name_index j scope name of
       None \<Rightarrow> ([], GSH_VARIABLE_JOURNAL_VALUE_ABSENT)
     | Some index \<Rightarrow>
         (let e = vj_entries j ! index
          in if vj_operation e = GSH_VARIABLE_JOURNAL_ATTRIBUTES
             then ([], GSH_VARIABLE_JOURNAL_VALUE_ABSENT)
             else if vj_operation e \<noteq> GSH_VARIABLE_JOURNAL_SET
             then ([], GSH_VARIABLE_JOURNAL_VALUE_UNSET)
             else (cstring_at (vj_text j) (vj_offset e + length name + 1),
                   GSH_VARIABLE_JOURNAL_VALUE_SET)))"

definition gsh_variable_journal_lookup ::
  "gsh_variable_journal \<Rightarrow> byte list \<Rightarrow> byte list \<times> gsh_variable_journal_value_state" where
  "gsh_variable_journal_lookup j name = gsh_variable_journal_lookup_scoped j 0 name"

section \<open>Recording\<close>

definition merge_journal_attributes :: "16 word \<Rightarrow> uint32 \<Rightarrow> uint32 \<Rightarrow> 16 word" where
  "merge_journal_attributes old attribute_mask attributes =
    ucast ((ucast old AND NOT attribute_mask) OR (attributes AND attribute_mask))"

definition update_journal_entry ::
  "gsh_variable_journal \<Rightarrow> nat \<Rightarrow> byte list \<Rightarrow> byte list \<Rightarrow> uint32 \<Rightarrow> uint32 \<Rightarrow> nat \<Rightarrow>
    errno option \<times> gsh_variable_journal" where
  "update_journal_entry j index name val attribute_mask attributes operation =
    (let e = vj_entries j ! index;
         new_length = length name + length val + 2;
         old_offset = vj_offset e;
         old_length = vj_length e;
         merged_mask = vj_mask e OR ucast attribute_mask;
         merged = merge_journal_attributes (vj_attributes e) attribute_mask attributes
     in if vj_attributes e AND GSH_VARIABLE_READONLY \<noteq> 0 \<and>
           (operation \<noteq> GSH_VARIABLE_JOURNAL_ATTRIBUTES \<or>
            attribute_mask AND GSH_VARIABLE_READONLY \<noteq> 0 \<and> attributes AND GSH_VARIABLE_READONLY = 0)
        then (Some EROFS, j)
        else if operation = GSH_VARIABLE_JOURNAL_ATTRIBUTES
        then (None, j\<lparr>vj_entries := (vj_entries j)[index := e\<lparr>
               vj_operation := (if vj_operation e = GSH_VARIABLE_JOURNAL_UNSET
                 then GSH_VARIABLE_JOURNAL_UNSET_ATTRIBUTES else vj_operation e),
               vj_mask := merged_mask, vj_attributes := merged\<rparr>]\<rparr>)
        else if old_length < new_length \<and>
           GSH_VARIABLE_JOURNAL_TEXT_CAP - length (vj_text j) < new_length - old_length
        then (Some ENOSPC, j)
        else
          (let moved = (if new_length \<noteq> old_length
             then map (\<lambda>other. if old_offset < vj_offset other
                    then other\<lparr>vj_offset := vj_offset other + new_length - old_length\<rparr> else other)
                  (vj_entries j)
             else vj_entries j)
           in (None, j\<lparr>
             vj_entries := moved[index := (moved ! index)\<lparr>
               vj_length := new_length, vj_operation := operation,
               vj_mask := (if operation = GSH_VARIABLE_JOURNAL_UNSET then 0 else merged_mask),
               vj_attributes := (if operation = GSH_VARIABLE_JOURNAL_UNSET then 0 else merged)\<rparr>],
             vj_text := take old_offset (vj_text j) @ assignment_bytes name val @
               drop (old_offset + old_length) (vj_text j)\<rparr>)))"

definition insert_journal_entry ::
  "gsh_variable_journal \<Rightarrow> nat \<Rightarrow> byte list \<Rightarrow> byte list \<Rightarrow> uint32 \<Rightarrow> uint32 \<Rightarrow> nat \<Rightarrow>
    errno option \<times> gsh_variable_journal" where
  "insert_journal_entry j scope name val attribute_mask attributes operation =
    (let new_length = length name + length val + 2
     in if length (vj_entries j) = GSH_VARIABLE_JOURNAL_CAP \<or>
           GSH_VARIABLE_JOURNAL_TEXT_CAP - length (vj_text j) < new_length
        then (Some ENOSPC, j)
        else (None, j\<lparr>
          vj_entries := vj_entries j @
            [\<lparr>vj_offset = length (vj_text j), vj_length = new_length,
              vj_name_length = length name, vj_mask = ucast attribute_mask,
              vj_attributes = ucast (attributes AND attribute_mask), vj_scope = scope,
              vj_operation = operation, vj_reserved = [NUL, NUL, NUL]\<rparr>],
          vj_text := vj_text j @ assignment_bytes name val\<rparr>))"

definition journal_record ::
  "gsh_variable_journal \<Rightarrow> nat \<Rightarrow> byte list \<Rightarrow> byte list \<Rightarrow> uint32 \<Rightarrow> uint32 \<Rightarrow> nat \<Rightarrow>
    errno option \<times> gsh_variable_journal" where
  "journal_record j scope name val attribute_mask attributes operation =
    (if vj_version j \<noteq> GSH_VARIABLE_JOURNAL_VERSION \<or> \<not> gsh_variable_name_is_valid name \<or>
        UINT16_MAX < scope \<or> UINT16_MAX < length name \<or> GSH_VARIABLE_VALUE_CAP < length val \<or>
        GSH_VARIABLE_ATTRIBUTE_MASK < attribute_mask \<or> GSH_VARIABLE_ATTRIBUTE_MASK < attributes \<or>
        attributes AND NOT attribute_mask \<noteq> 0 \<or>
        GSH_VARIABLE_JOURNAL_UNSET < operation \<or>
        operation = GSH_VARIABLE_JOURNAL_UNSET \<and> (length val \<noteq> 0 \<or> attribute_mask \<noteq> 0) \<or>
        operation = GSH_VARIABLE_JOURNAL_ATTRIBUTES \<and> length val \<noteq> 0 \<or>
        SIZE_MAX - length val - 2 < length name
     then (Some EINVAL, j)
     else if GSH_VARIABLE_JOURNAL_TEXT_CAP < length name + length val + 2 then (Some E2BIG, j)
     else case journal_name_index j scope name of
       Some index \<Rightarrow> update_journal_entry j index name val attribute_mask attributes operation
     | None \<Rightarrow> insert_journal_entry j scope name val attribute_mask attributes operation)"

definition gsh_variable_journal_record_scoped ::
  "gsh_variable_journal \<Rightarrow> nat \<Rightarrow> byte list \<Rightarrow> byte list \<Rightarrow> uint32 \<Rightarrow> uint32 \<Rightarrow>
    errno option \<times> gsh_variable_journal" where
  "gsh_variable_journal_record_scoped j scope name val attribute_mask attributes =
    journal_record j scope name val attribute_mask attributes GSH_VARIABLE_JOURNAL_SET"

definition gsh_variable_journal_record ::
  "gsh_variable_journal \<Rightarrow> byte list \<Rightarrow> byte list \<Rightarrow> uint32 \<Rightarrow> uint32 \<Rightarrow>
    errno option \<times> gsh_variable_journal" where
  "gsh_variable_journal_record j name val attribute_mask attributes =
    gsh_variable_journal_record_scoped j 0 name val attribute_mask attributes"

definition gsh_variable_journal_record_attributes ::
  "gsh_variable_journal \<Rightarrow> byte list \<Rightarrow> uint32 \<Rightarrow> uint32 \<Rightarrow> errno option \<times> gsh_variable_journal" where
  "gsh_variable_journal_record_attributes j name attribute_mask attributes =
    journal_record j 0 name [] attribute_mask attributes GSH_VARIABLE_JOURNAL_ATTRIBUTES"

definition gsh_variable_journal_record_unset ::
  "gsh_variable_journal \<Rightarrow> byte list \<Rightarrow> errno option \<times> gsh_variable_journal" where
  "gsh_variable_journal_record_unset j name =
    journal_record j 0 name [] 0 0 GSH_VARIABLE_JOURNAL_UNSET"

section \<open>Validation\<close>

definition journal_entry_valid ::
  "gsh_variable_journal \<Rightarrow> gsh_variable_journal_entry \<Rightarrow> bool" where
  "journal_entry_valid j e \<longleftrightarrow>
    (let value_operation = (vj_operation e = GSH_VARIABLE_JOURNAL_SET);
         used = length (vj_text j);
         assignment = drop (vj_offset e) (vj_text j);
         value_offset = vj_name_length e + 1
     in vj_name_length e \<noteq> 0 \<and> vj_name_length e + 2 \<le> vj_length e \<and> vj_offset e \<le> used \<and>
        vj_length e \<le> used - vj_offset e \<and>
        vj_mask e \<le> GSH_VARIABLE_ATTRIBUTE_MASK \<and> vj_attributes e \<le> GSH_VARIABLE_ATTRIBUTE_MASK \<and>
        vj_attributes e AND NOT (vj_mask e) = 0 \<and>
        vj_operation e \<le> GSH_VARIABLE_JOURNAL_UNSET_ATTRIBUTES \<and>
        vj_reserved e = [NUL, NUL, NUL] \<and>
        (vj_operation e = GSH_VARIABLE_JOURNAL_UNSET \<longrightarrow> vj_mask e = 0 \<and> vj_attributes e = 0) \<and>
        (value_operation \<or> vj_length e = vj_name_length e + 2) \<and>
        gsh_variable_name_is_valid (take (vj_name_length e) assignment) \<and>
        assignment ! vj_name_length e = CHR ''='' \<and> assignment ! (vj_length e - 1) = NUL \<and>
        NUL \<notin> set (take (vj_length e - value_offset - 1) (drop value_offset assignment)))"

definition gsh_variable_journal_validate :: "gsh_variable_journal \<Rightarrow> bool" where
  "gsh_variable_journal_validate j \<longleftrightarrow>
    vj_version j = GSH_VARIABLE_JOURNAL_VERSION \<and> vj_journal_reserved j = 0 \<and>
    length (vj_entries j) \<le> GSH_VARIABLE_JOURNAL_CAP \<and>
    length (vj_text j) \<le> GSH_VARIABLE_JOURNAL_TEXT_CAP \<and>
    list_all (journal_entry_valid j) (vj_entries j)"

section \<open>The test that a journal can be applied\<close>

text \<open>
  The running totals are \<open>size_t\<close>: one that falls below zero wraps to a value above every cap,
  which the test of the same turn rejects, so they are integers here and a negative one is
  rejected.
\<close>

definition can_apply_entry ::
  "gsh_variable_store \<Rightarrow> gsh_variable_journal \<Rightarrow> gsh_variable_journal_entry \<Rightarrow> int \<times> int \<Rightarrow>
    errno + int \<times> int" where
  "can_apply_entry s j change totals =
    (let (final_count, final_text) = totals;
         name = take (vj_name_length change) (drop (vj_offset change) (vj_text j));
         checked = (\<lambda>(final_count, final_text).
           if final_count < 0 \<or> int GSH_VARIABLE_CAP < final_count \<or>
              final_text < 0 \<or> int GSH_VARIABLE_TEXT_CAP < final_text
           then Inl ENOSPC else Inr (final_count, final_text))
     in case variable_index s name (variable_hash name) of
          None \<Rightarrow>
            checked (if vj_operation change \<noteq> GSH_VARIABLE_JOURNAL_UNSET
              then (final_count + 1, final_text + int (vj_length change))
              else (final_count, final_text))
        | Some current \<Rightarrow>
            (let entry = vs_entries s ! current;
                 clears_readonly = (vj_operation change = GSH_VARIABLE_JOURNAL_ATTRIBUTES \<and>
                   vj_mask change AND GSH_VARIABLE_READONLY \<noteq> 0 \<and>
                   vj_attributes change AND GSH_VARIABLE_READONLY = 0)
             in if ve_attributes entry AND GSH_VARIABLE_READONLY \<noteq> 0 \<and>
                   (vj_operation change \<noteq> GSH_VARIABLE_JOURNAL_ATTRIBUTES \<or> clears_readonly)
                then Inl EROFS
                else checked (if vj_operation change = GSH_VARIABLE_JOURNAL_UNSET
                  then (final_count - 1, final_text - int (ve_length entry))
                  else if vj_operation change \<noteq> GSH_VARIABLE_JOURNAL_ATTRIBUTES
                  then (final_count, final_text - int (ve_length entry) + int (vj_length change))
                  else (final_count, final_text))))"

fun can_apply_entries ::
  "gsh_variable_store \<Rightarrow> gsh_variable_journal \<Rightarrow> nat \<Rightarrow> bool \<Rightarrow> gsh_variable_journal_entry list \<Rightarrow>
    int \<times> int \<Rightarrow> errno option" where
  "can_apply_entries s j scope require_only_scope [] totals = None"
| "can_apply_entries s j scope require_only_scope (change # changes) totals =
    (if vj_scope change \<noteq> scope then
       (if require_only_scope then Some EPROTO
        else can_apply_entries s j scope require_only_scope changes totals)
     else case can_apply_entry s j change totals of
       Inl err \<Rightarrow> Some err
     | Inr totals \<Rightarrow> can_apply_entries s j scope require_only_scope changes totals)"

definition can_apply_journal_scope ::
  "gsh_variable_store \<Rightarrow> gsh_variable_journal \<Rightarrow> nat \<Rightarrow> bool \<Rightarrow> errno option" where
  "can_apply_journal_scope s j scope require_only_scope =
    (if UINT16_MAX < scope \<or> \<not> gsh_variable_journal_validate j then Some EPROTO
     else can_apply_entries s j scope require_only_scope (vj_entries j)
       (int (length (vs_entries s)), int (length (vs_text s))))"

definition gsh_variables_can_apply_journal ::
  "gsh_variable_store \<Rightarrow> gsh_variable_journal \<Rightarrow> errno option" where
  "gsh_variables_can_apply_journal s j = can_apply_journal_scope s j 0 True"

definition gsh_variables_can_apply_journal_scope ::
  "gsh_variable_store \<Rightarrow> gsh_variable_journal \<Rightarrow> nat \<Rightarrow> errno option" where
  "gsh_variables_can_apply_journal_scope s j scope = can_apply_journal_scope s j scope False"

section \<open>Replay\<close>

definition apply_journal_entry ::
  "gsh_variable_store \<Rightarrow> gsh_variable_journal \<Rightarrow> gsh_variable_journal_entry \<Rightarrow>
    errno option \<times> gsh_variable_store" where
  "apply_journal_entry s j e =
    (let assignment = drop (vj_offset e) (vj_text j);
         name = take (vj_name_length e) assignment;
         val = take (vj_length e - vj_name_length e - 2) (drop (vj_name_length e + 1) assignment);
         change_mask = ucast (vj_mask e);
         attributes = ucast (vj_attributes e)
     in if vj_operation e = GSH_VARIABLE_JOURNAL_SET
        then gsh_variables_set s name val change_mask attributes
        else if vj_operation e = GSH_VARIABLE_JOURNAL_ATTRIBUTES
        then gsh_variables_set_attributes s name change_mask attributes
        else if vj_operation e = GSH_VARIABLE_JOURNAL_UNSET then gsh_variables_unset s name
        else if vj_operation e = GSH_VARIABLE_JOURNAL_UNSET_ATTRIBUTES
        then (case gsh_variables_unset s name of
                (Some err, s) \<Rightarrow> (Some err, s)
              | (None, s) \<Rightarrow> gsh_variables_set_attributes s name change_mask attributes)
        else (Some EPROTO, s))"

text \<open>The loop of both in-place replays; the test decides which entries are replayed.\<close>

fun apply_journal_entries ::
  "gsh_variable_store \<Rightarrow> gsh_variable_journal \<Rightarrow> (gsh_variable_journal_entry \<Rightarrow> bool) \<Rightarrow>
    gsh_variable_journal_entry list \<Rightarrow> errno option \<times> gsh_variable_store" where
  "apply_journal_entries s j chosen [] = (None, s)"
| "apply_journal_entries s j chosen (e # es) =
    (if \<not> chosen e then apply_journal_entries s j chosen es
     else case apply_journal_entry s j e of
       (Some err, s) \<Rightarrow> (Some err, s)
     | (None, s) \<Rightarrow> apply_journal_entries s j chosen es)"

definition gsh_variables_apply_journal_in_place ::
  "gsh_variable_store \<Rightarrow> gsh_variable_journal \<Rightarrow> errno option \<times> gsh_variable_store" where
  "gsh_variables_apply_journal_in_place s j =
    (case gsh_variables_can_apply_journal s j of
       Some err \<Rightarrow> (Some err, s)
     | None \<Rightarrow> apply_journal_entries s j (\<lambda>e. True) (vj_entries j))"

definition gsh_variables_apply_journal_scope_in_place ::
  "gsh_variable_store \<Rightarrow> gsh_variable_journal \<Rightarrow> nat \<Rightarrow> errno option \<times> gsh_variable_store" where
  "gsh_variables_apply_journal_scope_in_place s j scope =
    (case can_apply_journal_scope s j scope False of
       Some err \<Rightarrow> (Some err, s)
     | None \<Rightarrow> apply_journal_entries s j (\<lambda>e. vj_scope e = scope) (vj_entries j))"

text \<open>The result, the store and the scratch store.\<close>

definition gsh_variables_apply_journal ::
  "gsh_variable_store \<Rightarrow> gsh_variable_journal \<Rightarrow> gsh_variable_store \<Rightarrow>
    errno option \<times> gsh_variable_store \<times> gsh_variable_store" where
  "gsh_variables_apply_journal s j scratch =
    (if \<not> gsh_variable_journal_validate j then (Some EPROTO, s, scratch)
     else case gsh_variables_apply_journal_in_place s j of
       (Some err, scratch) \<Rightarrow> (Some err, s, scratch)
     | (None, scratch) \<Rightarrow> (None, scratch, scratch))"

section \<open>What a journal says\<close>

text \<open>The change an entry stands for, and its effect on what is known of its variable.\<close>

record change =
  ch_scope :: nat
  ch_name :: "byte list"
  ch_value :: "byte list"
  ch_mask :: "16 word"
  ch_attributes :: "16 word"
  ch_operation :: nat

abbreviation change_pair :: "change \<Rightarrow> byte list \<times> byte list" where
  "change_pair c \<equiv> (ch_name c, ch_value c)"

abbreviation change_key :: "change \<Rightarrow> nat \<times> byte list" where
  "change_key c \<equiv> (ch_scope c, ch_name c)"

definition entry_meta where
  "entry_meta e = (vj_scope e, vj_mask e, vj_attributes e, vj_operation e, vj_reserved e)"

definition change_meta where
  "change_meta c = (ch_scope c, ch_mask c, ch_attributes c, ch_operation c, [NUL, NUL, NUL])"

definition change_ok :: "change \<Rightarrow> bool" where
  "change_ok c \<longleftrightarrow> gsh_variable_name_is_valid (ch_name c) \<and> length (ch_name c) \<le> UINT16_MAX \<and>
    length (ch_value c) \<le> GSH_VARIABLE_VALUE_CAP \<and> NUL \<notin> set (ch_value c) \<and>
    ch_scope c \<le> UINT16_MAX \<and>
    ch_mask c \<le> GSH_VARIABLE_ATTRIBUTE_MASK \<and> ch_attributes c \<le> GSH_VARIABLE_ATTRIBUTE_MASK \<and>
    ch_attributes c AND NOT (ch_mask c) = 0 \<and>
    ch_operation c \<le> GSH_VARIABLE_JOURNAL_UNSET_ATTRIBUTES \<and>
    (ch_operation c = GSH_VARIABLE_JOURNAL_UNSET \<longrightarrow> ch_mask c = 0 \<and> ch_attributes c = 0) \<and>
    (ch_operation c \<noteq> GSH_VARIABLE_JOURNAL_SET \<longrightarrow> ch_value c = [])"

definition journal_core :: "gsh_variable_journal_entry \<Rightarrow> gsh_alias_entry" where
  "journal_core e = \<lparr>ae_offset = vj_offset e, ae_length = vj_length e, ae_hash = 0,
     ae_name_length = vj_name_length e\<rparr>"

interpretation journal_entries:
  moving_entries journal_core "\<lambda>a. a\<lparr>ae_hash := 0\<rparr>" vj_offset "\<lambda>k e. e\<lparr>vj_offset := k\<rparr>"
  by unfold_locales (simp_all add: journal_core_def)

definition journal_rep :: "gsh_variable_journal \<Rightarrow> change list \<Rightarrow> bool" where
  "journal_rep j cs \<longleftrightarrow> vj_version j = GSH_VARIABLE_JOURNAL_VERSION \<and> vj_journal_reserved j = 0 \<and>
    journal_entries.packed (vj_entries j) 0 (map change_pair cs) \<and>
    map entry_meta (vj_entries j) = map change_meta cs \<and>
    vj_text j = assignments (map change_pair cs) \<and>
    distinct (map change_key cs) \<and> length cs \<le> GSH_VARIABLE_JOURNAL_CAP \<and>
    length (assignments (map change_pair cs)) \<le> GSH_VARIABLE_JOURNAL_TEXT_CAP \<and>
    list_all change_ok cs"

lemma journal_rep_length: "journal_rep j cs \<Longrightarrow> length (vj_entries j) = length cs"
  using journal_entries.packed_length[of "vj_entries j" 0 "map change_pair cs"]
  by (simp add: journal_rep_def)

lemma journal_rep_change_ok: "journal_rep j cs \<Longrightarrow> c \<in> set cs \<Longrightarrow> change_ok c"
  by (simp add: journal_rep_def list_all_iff)

text \<open>Entry \<open>i\<close> of a represented journal and the text around its assignment.\<close>

lemma journal_rep_split:
  assumes rep: "journal_rep j cs" and i: "i < length cs"
  defines "e \<equiv> vj_entries j ! i" and "c \<equiv> cs ! i"
    and "off \<equiv> length (assignments (map change_pair (take i cs)))"
  shows "vj_text j = assignments (map change_pair (take i cs)) @
      assignment_bytes (ch_name c) (ch_value c) @ assignments (map change_pair (drop (Suc i) cs))"
    "vj_offset e = off" "vj_length e = length (ch_name c) + length (ch_value c) + 2"
    "vj_name_length e = length (ch_name c)" "entry_meta e = change_meta c"
proof -
  have len: "length (vj_entries j) = length cs" by (rule journal_rep_length[OF rep])
  have parts: "journal_entries.packed (vj_entries j) 0 (map change_pair cs)"
    "map entry_meta (vj_entries j) = map change_meta cs"
    "vj_text j = assignments (map change_pair cs)"
    using rep by (simp_all only: journal_rep_def)
  have cs: "cs = take i cs @ c # drop (Suc i) cs" unfolding c_def by (rule nth_split[OF i])
  have es: "take i (vj_entries j) @ e # drop (Suc i) (vj_entries j) = vj_entries j"
    unfolding e_def using i len by (intro nth_split[symmetric]) simp
  have pairs: "map change_pair (take i cs) @ change_pair c # map change_pair (drop (Suc i) cs) =
      map change_pair cs"
    using arg_cong[OF cs[symmetric], of "map change_pair"] by (simp only: list.map map_append)
  show "vj_text j = assignments (map change_pair (take i cs)) @
      assignment_bytes (ch_name c) (ch_value c) @ assignments (map change_pair (drop (Suc i) cs))"
    unfolding parts(3) by (subst cs) simp
  have "journal_entries.packed (take i (vj_entries j) @ e # drop (Suc i) (vj_entries j)) 0
      (map change_pair (take i cs) @ change_pair c # map change_pair (drop (Suc i) cs))"
    unfolding es pairs by (rule parts(1))
  then have "journal_core e = \<lparr>ae_offset = off, ae_length = length (ch_name c) + length (ch_value c) + 2,
      ae_hash = 0, ae_name_length = length (ch_name c)\<rparr>"
    using i len by (simp add: journal_entries.packed_append journal_entries.packed_Cons off_def)
  then show "vj_offset e = off" "vj_length e = length (ch_name c) + length (ch_value c) + 2"
    "vj_name_length e = length (ch_name c)"
    by (simp_all add: journal_core_def)
  show "entry_meta e = change_meta c"
    using arg_cong[OF parts(2), of "\<lambda>xs. xs ! i"] i len by (simp add: e_def c_def)
qed

lemma journal_rep_assignment:
  assumes "journal_rep j cs" "i < length cs"
  shows "drop (vj_offset (vj_entries j ! i)) (vj_text j) = ch_name (cs ! i) @ CHR ''='' #
    ch_value (cs ! i) @ NUL # assignments (map change_pair (drop (Suc i) cs))"
    "vj_offset (vj_entries j ! i) + vj_length (vj_entries j ! i) \<le> length (vj_text j)"
  using journal_rep_split[OF assms] by (simp_all add: assignment_bytes_def)

lemma journal_rep_matches:
  assumes "journal_rep j cs" "i < length cs"
  shows "journal_name_matches j scope name (vj_entries j ! i) \<longleftrightarrow> change_key (cs ! i) = (scope, name)"
proof -
  note split = journal_rep_split[OF assms]
  have scope: "vj_scope (vj_entries j ! i) = ch_scope (cs ! i)"
    using split(5) by (simp add: entry_meta_def change_meta_def)
  have "take (Suc (length name)) (ch_name (cs ! i) @ CHR ''='' # r) = name @ ''='' \<longleftrightarrow>
      ch_name (cs ! i) = name" if "length (ch_name (cs ! i)) = length name" for r
    using that by auto
  then show ?thesis
    using split(4) scope
    by (auto simp: journal_name_matches_def journal_rep_assignment[OF assms] simp del: take_Suc_Cons)
qed

lemma first_match_Some:
  assumes "\<And>i. i < length es \<Longrightarrow> P (es ! i) \<longleftrightarrow> keys ! i = k" "length keys = length es" "distinct keys"
  shows "first_match P n es = Some m \<longleftrightarrow> (\<exists>i < length es. keys ! i = k \<and> m = n + i)"
  using assms
proof (induction es arbitrary: n keys)
  case (Cons e es)
  then obtain key keys' where keys: "keys = key # keys'" by (cases keys) auto
  have P: "P e \<longleftrightarrow> key = k" using Cons.prems(1)[of 0] by (simp add: keys)
  have "first_match P (Suc n) es = Some m \<longleftrightarrow> (\<exists>i < length es. keys' ! i = k \<and> m = Suc n + i)"
    using Cons.prems(1)[of "Suc i" for i] Cons.prems(2,3)
    by (intro Cons.IH) (auto simp: keys)
  then show ?case
    using P Cons.prems(2,3) by (auto simp: keys Ex_less_Suc2 in_set_conv_nth)
qed simp

lemma first_match_None: "first_match P n es = None \<longleftrightarrow> (\<forall>e \<in> set es. \<not> P e)"
  by (induction es arbitrary: n) simp_all

lemma journal_rep_index:
  assumes "journal_rep j cs"
  shows "journal_name_index j scope name = Some i \<longleftrightarrow> i < length cs \<and> change_key (cs ! i) = (scope, name)"
    "journal_name_index j scope name = None \<longleftrightarrow> (scope, name) \<notin> set (map change_key cs)"
proof -
  have len: "length (vj_entries j) = length cs" by (rule journal_rep_length[OF assms])
  have dist: "distinct (map change_key cs)" using assms by (simp only: journal_rep_def)
  have P: "journal_name_matches j scope name (vj_entries j ! i) \<longleftrightarrow>
      map change_key cs ! i = (scope, name)" if "i < length (vj_entries j)" for i
    using that len journal_rep_matches[OF assms, of i scope] by simp
  have lens: "length (map change_key cs) = length (vj_entries j)" using len by simp
  have "first_match (journal_name_matches j scope name) 0 (vj_entries j) = Some i \<longleftrightarrow>
      (\<exists>k < length (vj_entries j). map change_key cs ! k = (scope, name) \<and> i = 0 + k)"
    by (rule first_match_Some[OF P lens dist])
  then show "journal_name_index j scope name = Some i \<longleftrightarrow> i < length cs \<and> change_key (cs ! i) = (scope, name)"
    unfolding journal_name_index_def len by (simp cong: conj_cong)
  have "(\<forall>e \<in> set (vj_entries j). \<not> journal_name_matches j scope name e) \<longleftrightarrow>
      (\<forall>k < length cs. map change_key cs ! k \<noteq> (scope, name))"
    using P len by (simp add: all_set_conv_all_nth)
  also have "\<dots> \<longleftrightarrow> (scope, name) \<notin> set (map change_key cs)"
    unfolding in_set_conv_nth by simp
  finally show "journal_name_index j scope name = None \<longleftrightarrow> (scope, name) \<notin> set (map change_key cs)"
    unfolding journal_name_index_def first_match_None .
qed

section \<open>Recording keeps the journal well formed\<close>

definition journal_blocked :: "change \<Rightarrow> uint32 \<Rightarrow> uint32 \<Rightarrow> nat \<Rightarrow> bool" where
  "journal_blocked c m at operation \<longleftrightarrow> bit (ch_attributes c) 1 \<and>
    (operation \<noteq> GSH_VARIABLE_JOURNAL_ATTRIBUTES \<or> bit m 1 \<and> \<not> bit at 1)"

definition recorded_change :: "change \<Rightarrow> byte list \<Rightarrow> uint32 \<Rightarrow> uint32 \<Rightarrow> nat \<Rightarrow> change" where
  "recorded_change c val m at operation =
    (let merged_mask = ch_mask c OR ucast m;
         attributes = merge_journal_attributes (ch_attributes c) m at
     in if operation = GSH_VARIABLE_JOURNAL_ATTRIBUTES
        then c\<lparr>ch_operation := (if ch_operation c = GSH_VARIABLE_JOURNAL_UNSET
                 then GSH_VARIABLE_JOURNAL_UNSET_ATTRIBUTES else ch_operation c),
               ch_mask := merged_mask, ch_attributes := attributes\<rparr>
        else if operation = GSH_VARIABLE_JOURNAL_UNSET
        then c\<lparr>ch_value := val, ch_operation := operation, ch_mask := 0, ch_attributes := 0\<rparr>
        else c\<lparr>ch_value := val, ch_operation := operation, ch_mask := merged_mask,
               ch_attributes := attributes\<rparr>)"

definition record_args_ok ::
  "nat \<Rightarrow> byte list \<Rightarrow> byte list \<Rightarrow> uint32 \<Rightarrow> uint32 \<Rightarrow> nat \<Rightarrow> bool" where
  "record_args_ok scope name val m at operation \<longleftrightarrow>
    variable_args_ok name val m at \<and> scope \<le> UINT16_MAX \<and>
    operation \<le> GSH_VARIABLE_JOURNAL_UNSET \<and>
    (operation = GSH_VARIABLE_JOURNAL_UNSET \<longrightarrow> val = [] \<and> m = 0) \<and>
    (operation = GSH_VARIABLE_JOURNAL_ATTRIBUTES \<longrightarrow> val = [])"

lemma small_bits:
  fixes x :: "16 word" and y :: uint32
  shows "x \<le> 3 \<longleftrightarrow> (\<forall>n. bit x n \<longrightarrow> n < 2)" "y \<le> 3 \<longleftrightarrow> (\<forall>n. bit y n \<longrightarrow> n < 2)"
proof -
  have "x \<le> 3 \<longleftrightarrow> unat x < 2 ^ 2" by (auto simp: word_le_nat_alt)
  also have "\<dots> \<longleftrightarrow> take_bit 2 (unat x) = unat x" by (simp only: take_bit_nat_eq_self_iff)
  also have "\<dots> \<longleftrightarrow> (\<forall>n. bit x n \<longrightarrow> n < 2)"
    by (auto simp: bit_eq_iff bit_take_bit_iff bit_unsigned_iff)
  finally show "x \<le> 3 \<longleftrightarrow> (\<forall>n. bit x n \<longrightarrow> n < 2)" .
  have "y \<le> 3 \<longleftrightarrow> unat y < 2 ^ 2" by (auto simp: word_le_nat_alt)
  also have "\<dots> \<longleftrightarrow> take_bit 2 (unat y) = unat y" by (simp only: take_bit_nat_eq_self_iff)
  also have "\<dots> \<longleftrightarrow> (\<forall>n. bit y n \<longrightarrow> n < 2)"
    by (auto simp: bit_eq_iff bit_take_bit_iff bit_unsigned_iff)
  finally show "y \<le> 3 \<longleftrightarrow> (\<forall>n. bit y n \<longrightarrow> n < 2)" .
qed

lemma subset_bits: "(x :: 'a::len word) AND NOT y = 0 \<longleftrightarrow> (\<forall>n. bit x n \<longrightarrow> bit y n)"
  by (auto simp: bit_eq_iff bit_simps dest: bit_imp_le_length)

lemma journal_masks_ok:
  assumes "km \<le> (3 :: 16 word)" "attributes \<le> 3" "attributes AND NOT km = 0"
    "m \<le> (3 :: uint32)" "at \<le> 3" "at AND NOT m = 0"
  shows "km OR ucast m \<le> 3" "merge_journal_attributes attributes m at \<le> 3"
    "merge_journal_attributes attributes m at AND NOT (km OR ucast m) = 0"
    "ucast m \<le> (3 :: 16 word)" "ucast (at AND m) \<le> (3 :: 16 word)"
    "ucast (at AND m) AND NOT (ucast m :: 16 word) = 0"
  using assms unfolding small_bits subset_bits
  by (auto simp: merge_journal_attributes_def bit_simps)

lemma recorded_change_ok:
  assumes "change_ok c" "record_args_ok scope name val m at operation" "NUL \<notin> set val"
  shows "change_ok (recorded_change c val m at operation)"
proof -
  have masks: "ch_mask c OR ucast m \<le> 3" "merge_journal_attributes (ch_attributes c) m at \<le> 3"
    "merge_journal_attributes (ch_attributes c) m at AND NOT (ch_mask c OR ucast m) = 0"
    using assms(1,2) journal_masks_ok[of "ch_mask c" "ch_attributes c" m at]
    by (simp_all add: change_ok_def record_args_ok_def variable_args_ok_def)
  then show ?thesis
    using assms by (auto simp: recorded_change_def Let_def change_ok_def record_args_ok_def
        variable_args_ok_def)
qed

lemma packed_update:
  fixes val :: "byte list"
  assumes "journal_entries.packed (vj_entries j) 0 (map change_pair cs)" "i < length cs"
    "change_pair (cs ! i) = (name, old)"
  defines "off \<equiv> vj_offset (vj_entries j ! i)" and "gap \<equiv> length name + length old + 2"
    and "new \<equiv> length name + length val + 2"
  defines "f \<equiv> \<lambda>other. if off < vj_offset other
      then other\<lparr>vj_offset := vj_offset other + new - gap\<rparr> else other"
  assumes e: "vj_offset e = off" "vj_length e = new" "vj_name_length e = length name"
    and off: "off = length (assignments (map change_pair (take i cs)))"
  shows "journal_entries.packed ((map f (vj_entries j))[i := e]) 0
      ((map change_pair cs)[i := (name, val)])"
proof -
  let ?es = "vj_entries j" and ?pre = "map change_pair (take i cs)"
    and ?post = "map change_pair (drop (Suc i) cs)"
  have len: "length ?es = length cs"
    using journal_entries.packed_length[OF assms(1)] by simp
  have es: "take i ?es @ ?es ! i # drop (Suc i) ?es = ?es"
    using assms(2) len by (intro nth_split[symmetric]) simp
  have pairs: "?pre @ (name, old) # ?post = map change_pair cs"
    using arg_cong[OF nth_split[OF assms(2)], of "map change_pair"] assms(3) by simp
  have packed: "journal_entries.packed (take i ?es @ ?es ! i # drop (Suc i) ?es) 0
      (?pre @ (name, old) # ?post)" unfolding es pairs by (rule assms(1))
  have len_pre: "length (take i ?es) = length ?pre" using assms(2) len by simp
  have f: "length (assignments ?pre) < vj_offset e \<Longrightarrow>
        f e = e\<lparr>vj_offset := vj_offset e + new - (length name + length old + 2)\<rparr>"
    "vj_offset e \<le> length (assignments ?pre) \<Longrightarrow> f e = e" for e
    by (simp_all add: f_def off gap_def)
  note around = journal_entries.packed_around[OF packed len_pre f]
  have list: "(map f ?es)[i := e] = take i ?es @ e # map f (drop (Suc i) ?es)"
    using assms(2) len around(1) by (simp add: upd_conv_take_nth_drop take_map drop_map)
  have items: "(map change_pair cs)[i := (name, val)] = ?pre @ (name, val) # ?post"
    using assms(2) by (simp add: upd_conv_take_nth_drop take_map drop_map)
  have "journal_entries.packed (take i ?es) 0 ?pre"
    using packed len_pre by (simp add: journal_entries.packed_append)
  then show ?thesis
    unfolding list items journal_entries.packed_append[OF len_pre]
    using around(3) e off by (simp add: journal_entries.packed_Cons journal_core_def new_def)
qed

lemma journal_rep_update:
  assumes rep: "journal_rep j cs" and i: "i < length cs" and key: "change_key (cs ! i) = (scope, name)"
    and args: "record_args_ok scope name val m at operation" and nul: "NUL \<notin> set val"
    and run: "update_journal_entry j i name val m at operation = (r, t)"
  shows "if journal_blocked (cs ! i) m at operation then r = Some EROFS \<and> t = j
    else r = Some ENOSPC \<and> t = j \<or>
      r = None \<and> journal_rep t (cs[i := recorded_change (cs ! i) val m at operation])"
proof -
  let ?c = "cs ! i" and ?e = "vj_entries j ! i"
  let ?c' = "recorded_change ?c val m at operation"
  note split = journal_rep_split[OF rep i]
  have name: "ch_name ?c = name" "ch_scope ?c = scope" using key by simp_all
  have len: "length (vj_entries j) = length cs" by (rule journal_rep_length[OF rep])
  have meta: "vj_scope ?e = scope" "vj_mask ?e = ch_mask ?c" "vj_attributes ?e = ch_attributes ?c"
    "vj_operation ?e = ch_operation ?c" "vj_reserved ?e = [NUL, NUL, NUL]"
    using split(5) name by (simp_all add: entry_meta_def change_meta_def)
  have parts: "vj_version j = 3" "vj_journal_reserved j = 0"
    "journal_entries.packed (vj_entries j) 0 (map change_pair cs)"
    "map entry_meta (vj_entries j) = map change_meta cs"
    "vj_text j = assignments (map change_pair cs)" "distinct (map change_key cs)" "length cs \<le> 64"
    "length (assignments (map change_pair cs)) \<le> 65536" "list_all change_ok cs"
    using rep by (simp_all only: journal_rep_def)
  have keys: "map change_key (cs[i := ?c']) = map change_key cs"
    by (simp add: map_list_update_same recorded_change_def Let_def)
  have ok: "list_all change_ok (cs[i := ?c'])"
  proof -
    have "change_ok ?c" using journal_rep_change_ok[OF rep] i by simp
    then have "change_ok ?c'" by (rule recorded_change_ok[OF _ args nul])
    with parts(9) show ?thesis
      using set_update_subset_insert[of cs i ?c'] by (auto simp: list_all_iff)
  qed
  show ?thesis
  proof (cases "journal_blocked ?c m at operation")
    case True
    with run show ?thesis
      by (simp add: update_journal_entry_def Let_def meta journal_blocked_def attribute_tests)
  next
    case free: False
    then have unblocked: "\<not> (vj_attributes ?e AND 2 \<noteq> 0 \<and>
        (operation \<noteq> 1 \<or> m AND 2 \<noteq> 0 \<and> at AND 2 = 0))"
      by (simp add: meta journal_blocked_def attribute_tests)
    show ?thesis
    proof (cases "operation = 1")
      case True
      let ?e' = "?e\<lparr>vj_operation := (if vj_operation ?e = 2 then 3 else vj_operation ?e),
        vj_mask := vj_mask ?e OR ucast m,
        vj_attributes := merge_journal_attributes (vj_attributes ?e) m at\<rparr>"
      have "(r, t) = (None, j\<lparr>vj_entries := (vj_entries j)[i := ?e']\<rparr>)"
        unfolding run[symmetric] update_journal_entry_def Let_def if_not_P[OF unblocked] if_P[OF True]
        by (rule refl)
      then have t: "r = None" "t = j\<lparr>vj_entries := (vj_entries j)[i := ?e']\<rparr>" by simp_all
      have pairs: "map change_pair (cs[i := ?c']) = map change_pair cs"
        using True by (simp add: map_list_update_same recorded_change_def Let_def)
      have "map journal_core ((vj_entries j)[i := ?e']) = map journal_core (vj_entries j)"
        by (simp add: map_list_update_same journal_core_def)
      then have "journal_entries.packed ((vj_entries j)[i := ?e']) 0 (map change_pair cs)"
        using parts(3) by (simp add: journal_entries.packed_def)
      moreover have "map entry_meta ((vj_entries j)[i := ?e']) = map change_meta (cs[i := ?c'])"
        using True parts(4) name
        by (simp add: map_update entry_meta_def change_meta_def recorded_change_def Let_def meta)
      ultimately have "journal_rep t (cs[i := ?c'])"
        unfolding journal_rep_def keys pairs t(2) using parts ok by simp
      with t(1) free show ?thesis by simp
    next
      case False
      let ?old = "length name + length (ch_value ?c) + 2" and ?new = "length name + length val + 2"
      let ?off = "length (assignments (map change_pair (take i cs)))"
      have e: "vj_offset ?e = ?off" "vj_length ?e = ?old" using split(2,3) name by simp_all
      show ?thesis
      proof (cases "?old < ?new \<and> 65536 - length (vj_text j) < ?new - ?old")
        case True
        have "(r, t) = (Some ENOSPC, j)"
          unfolding run[symmetric] update_journal_entry_def Let_def if_not_P[OF unblocked]
            if_not_P[OF False] e if_P[OF True] by (rule refl)
        then show ?thesis using free by simp
      next
        case fits: False
        let ?f = "\<lambda>other. if ?off < vj_offset other
              then other\<lparr>vj_offset := vj_offset other + ?new - ?old\<rparr> else other"
        let ?e' = "?e\<lparr>vj_length := ?new, vj_operation := operation,
             vj_mask := (if operation = 2 then 0 else vj_mask ?e OR ucast m),
             vj_attributes := (if operation = 2 then 0
               else merge_journal_attributes (vj_attributes ?e) m at)\<rparr>"
        have moved: "(if ?new \<noteq> ?old then map ?f (vj_entries j) else vj_entries j) = map ?f (vj_entries j)"
          by (auto intro!: map_idI[symmetric])
        have fi: "map ?f (vj_entries j) ! i = ?e" using i len e(1) by simp
        have "(r, t) = (None, j\<lparr>vj_entries := (map ?f (vj_entries j))[i := ?e'],
            vj_text := take ?off (vj_text j) @ assignment_bytes name val @
              drop (?off + ?old) (vj_text j)\<rparr>)"
          unfolding run[symmetric] update_journal_entry_def Let_def if_not_P[OF unblocked]
            if_not_P[OF False] e if_not_P[OF fits] moved fi by (rule refl)
        then have t: "r = None" "t = j\<lparr>vj_entries := (map ?f (vj_entries j))[i := ?e'],
            vj_text := take ?off (vj_text j) @ assignment_bytes name val @
              drop (?off + ?old) (vj_text j)\<rparr>" by simp_all
        have pair': "change_pair ?c' = (name, val)"
          using False name by (simp add: recorded_change_def Let_def)
        have items: "map change_pair (cs[i := ?c']) = (map change_pair cs)[i := (name, val)]"
          by (simp only: map_update pair')
        have "journal_entries.packed ((map ?f (vj_entries j))[i := ?e']) 0
            ((map change_pair cs)[i := (name, val)])"
          using packed_update[OF parts(3) i, of name "ch_value ?c" ?e' val] e split(4) name by simp
        moreover have "map entry_meta ((map ?f (vj_entries j))[i := ?e']) = map change_meta (cs[i := ?c'])"
        proof -
          have "map entry_meta (map ?f (vj_entries j)) = map entry_meta (vj_entries j)"
            by (simp add: entry_meta_def)
          moreover have "entry_meta ?e' = change_meta ?c'"
            using False args name by (auto simp: entry_meta_def change_meta_def recorded_change_def
                Let_def meta record_args_ok_def)
          ultimately show ?thesis by (simp only: map_update parts(4))
        qed
        moreover have bytes: "take ?off (vj_text j) @ assignment_bytes name val @
              drop (?off + ?old) (vj_text j) = assignments ((map change_pair cs)[i := (name, val)])"
          using i name split(1) by (simp add: upd_conv_take_nth_drop take_map drop_map)
        moreover have "length (assignments ((map change_pair cs)[i := (name, val)])) \<le> 65536"
        proof -
          have "?off + ?old \<le> length (vj_text j)"
            using journal_rep_assignment(2)[OF rep i] e by simp
          then have "length (take ?off (vj_text j) @ assignment_bytes name val @
              drop (?off + ?old) (vj_text j)) = length (vj_text j) + ?new - ?old" by simp
          moreover have "length (vj_text j) \<le> 65536" using parts(5,8) by simp
          ultimately show ?thesis using fits unfolding bytes[symmetric] by linarith
        qed
        ultimately have "journal_rep t (cs[i := ?c'])"
          unfolding journal_rep_def keys items t(2) using parts ok by simp
        with t(1) free show ?thesis by simp
      qed
    qed
  qed
qed

definition new_change :: "nat \<Rightarrow> byte list \<Rightarrow> byte list \<Rightarrow> uint32 \<Rightarrow> uint32 \<Rightarrow> nat \<Rightarrow> change" where
  "new_change scope name val m at operation =
    \<lparr>ch_scope = scope, ch_name = name, ch_value = val, ch_mask = ucast m,
     ch_attributes = ucast (at AND m), ch_operation = operation\<rparr>"

lemma journal_rep_insert:
  assumes rep: "journal_rep j cs" and new: "(scope, name) \<notin> set (map change_key cs)"
    and args: "record_args_ok scope name val m at operation" and nul: "NUL \<notin> set val"
    and run: "insert_journal_entry j scope name val m at operation = (r, t)"
  shows "r = Some ENOSPC \<and> t = j \<or>
    r = None \<and> journal_rep t (cs @ [new_change scope name val m at operation])"
proof -
  let ?c = "new_change scope name val m at operation"
  have len: "length (vj_entries j) = length cs" by (rule journal_rep_length[OF rep])
  have parts: "vj_version j = 3" "vj_journal_reserved j = 0"
    "journal_entries.packed (vj_entries j) 0 (map change_pair cs)"
    "map entry_meta (vj_entries j) = map change_meta cs"
    "vj_text j = assignments (map change_pair cs)" "distinct (map change_key cs)" "length cs \<le> 64"
    "length (assignments (map change_pair cs)) \<le> 65536" "list_all change_ok cs"
    using rep by (simp_all only: journal_rep_def)
  show ?thesis
  proof (cases "length (vj_entries j) = 64 \<or> 65536 - length (vj_text j) < length name + length val + 2")
    case True
    with run show ?thesis by (simp add: insert_journal_entry_def Let_def)
  next
    case False
    let ?e = "\<lparr>vj_offset = length (vj_text j), vj_length = length name + length val + 2,
        vj_name_length = length name, vj_mask = ucast m, vj_attributes = ucast (at AND m),
        vj_scope = scope, vj_operation = operation, vj_reserved = [NUL, NUL, NUL]\<rparr>"
    have "(r, t) = (None, j\<lparr>vj_entries := vj_entries j @ [?e],
        vj_text := vj_text j @ assignment_bytes name val\<rparr>)"
      unfolding run[symmetric] insert_journal_entry_def Let_def if_not_P[OF False] by (rule refl)
    then have t: "r = None" "t = j\<lparr>vj_entries := vj_entries j @ [?e],
        vj_text := vj_text j @ assignment_bytes name val\<rparr>" by simp_all
    have "journal_entries.packed (vj_entries j @ [?e]) 0 (map change_pair (cs @ [?c]))"
      using parts(3,5) len
      by (simp add: journal_entries.packed_append journal_entries.packed_Cons journal_core_def
          new_change_def) (simp add: journal_entries.packed_def)
    moreover have "map entry_meta (vj_entries j @ [?e]) = map change_meta (cs @ [?c])"
      using parts(4) by (simp add: entry_meta_def change_meta_def new_change_def)
    moreover have "change_ok ?c"
      using args nul journal_masks_ok(4-6)[of 0 0 m at]
      by (auto simp: change_ok_def new_change_def record_args_ok_def variable_args_ok_def)
    moreover have "vj_text j @ assignment_bytes name val = assignments (map change_pair (cs @ [?c]))"
      using parts(5) by (simp add: new_change_def)
    moreover have "distinct (map change_key (cs @ [?c]))"
      using parts(6) new by (simp add: new_change_def)
    moreover have "length (cs @ [?c]) \<le> 64" using False len parts(7) by simp
    moreover have "length (assignments (map change_pair (cs @ [?c]))) \<le> 65536"
      using False parts(5,8) by (simp add: new_change_def) linarith
    moreover have "list_all change_ok (cs @ [?c])" using parts(9) \<open>change_ok ?c\<close> by simp
    ultimately have "journal_rep t (cs @ [?c])"
      unfolding journal_rep_def t(2) using parts(1,2) by simp
    with t(1) show ?thesis by simp
  qed
qed

lemma journal_rep_initialize: "journal_rep (gsh_variable_journal_initialize g) []"
  by (simp add: journal_rep_def gsh_variable_journal_initialize_def journal_entries.packed_def)

lemma journal_record_eq:
  assumes "vj_version j = 3"
  shows "journal_record j scope name val m at operation =
    (if \<not> record_args_ok scope name val m at operation then (Some EINVAL, j)
     else if GSH_VARIABLE_JOURNAL_TEXT_CAP < length name + length val + 2 then (Some E2BIG, j)
     else case journal_name_index j scope name of
       Some index \<Rightarrow> update_journal_entry j index name val m at operation
     | None \<Rightarrow> insert_journal_entry j scope name val m at operation)"
proof -
  let ?bad = "vj_version j \<noteq> 3 \<or> \<not> gsh_variable_name_is_valid name \<or>
        65535 < scope \<or> 65535 < length name \<or> 65535 < length val \<or> 3 < m \<or> 3 < at \<or>
        at AND NOT m \<noteq> 0 \<or> 2 < operation \<or>
        operation = 2 \<and> (length val \<noteq> 0 \<or> m \<noteq> 0) \<or> operation = 1 \<and> length val \<noteq> 0 \<or>
        18446744073709551615 - length val - 2 < length name"
  have "?bad \<longleftrightarrow> \<not> record_args_ok scope name val m at operation"
  proof (cases "record_args_ok scope name val m at operation")
    case True
    then have "length name \<le> 65535" "length val \<le> 65535"
      by (simp_all add: record_args_ok_def variable_args_ok_def)
    then have "\<not> 18446744073709551615 - length val - 2 < length name" by linarith
    with True assms show ?thesis
      by (simp add: record_args_ok_def variable_args_ok_def not_less)
  next
    case False
    then show ?thesis using assms
      by (simp add: record_args_ok_def variable_args_ok_def not_le) blast
  qed
  then show ?thesis unfolding journal_record_def by (simp only:)
qed

text \<open>A successful recording is one of three changes to the represented list.\<close>

definition record_result ::
  "change list \<Rightarrow> nat \<Rightarrow> byte list \<Rightarrow> byte list \<Rightarrow> uint32 \<Rightarrow> uint32 \<Rightarrow> nat \<Rightarrow> change list \<Rightarrow> bool" where
  "record_result cs scope name val m at operation cs' \<longleftrightarrow>
    (scope, name) \<notin> set (map change_key cs) \<and> cs' = cs @ [new_change scope name val m at operation] \<or>
    (\<exists>i < length cs. change_key (cs ! i) = (scope, name) \<and>
      \<not> journal_blocked (cs ! i) m at operation \<and>
      cs' = cs[i := recorded_change (cs ! i) val m at operation])"

lemma journal_record_spec:
  assumes rep: "journal_rep j cs" and nul: "NUL \<notin> set val"
    and run: "journal_record j scope name val m at operation = (r, t)"
  shows "r \<noteq> None \<and> t = j \<or> r = None \<and> record_args_ok scope name val m at operation \<and>
    (\<exists>cs'. journal_rep t cs' \<and> record_result cs scope name val m at operation cs')"
proof -
  have version: "vj_version j = 3" using rep by (simp only: journal_rep_def)
  note run = run[unfolded journal_record_eq[OF version]]
  show ?thesis
  proof (cases "record_args_ok scope name val m at operation \<and> length name + length val + 2 \<le> 65536")
    case False
    with run show ?thesis by (auto split: if_splits)
  next
    case True
    note index = journal_rep_index[OF rep, of scope]
    show ?thesis
    proof (cases "journal_name_index j scope name")
      case None
      then have new: "(scope, name) \<notin> set (map change_key cs)" using index(2) by blast
      have "insert_journal_entry j scope name val m at operation = (r, t)"
        using run True None by simp
      from journal_rep_insert[OF rep new _ nul this] True new show ?thesis
        by (auto simp: record_result_def simp del: set_map)
    next
      case (Some i)
      then have i: "i < length cs" "change_key (cs ! i) = (scope, name)" using index(1) by blast+
      have "update_journal_entry j i name val m at operation = (r, t)"
        using run True Some by simp
      from journal_rep_update[OF rep i _ nul this] True i show ?thesis
        unfolding record_result_def by (auto split: if_splits)
    qed
  qed
qed

section \<open>A recorded journal is valid\<close>

lemma journal_rep_fields:
  assumes "journal_rep j cs" "i < length cs"
  shows "vj_scope (vj_entries j ! i) = ch_scope (cs ! i)" "vj_mask (vj_entries j ! i) = ch_mask (cs ! i)"
    "vj_attributes (vj_entries j ! i) = ch_attributes (cs ! i)"
    "vj_operation (vj_entries j ! i) = ch_operation (cs ! i)"
    "vj_reserved (vj_entries j ! i) = [NUL, NUL, NUL]"
  using journal_rep_split(5)[OF assms] by (simp_all add: entry_meta_def change_meta_def)

lemma journal_rep_decode:
  assumes "journal_rep j cs" "i < length cs"
  defines "e \<equiv> vj_entries j ! i" and "assignment \<equiv> drop (vj_offset (vj_entries j ! i)) (vj_text j)"
  shows "take (vj_name_length e) assignment = ch_name (cs ! i)"
    "take (vj_length e - vj_name_length e - 2) (drop (vj_name_length e + 1) assignment) = ch_value (cs ! i)"
    "assignment ! vj_name_length e = CHR ''=''" "assignment ! (vj_length e - 1) = NUL"
proof -
  note text_at = journal_rep_assignment(1)[OF assms(1,2), folded assignment_def]
  note split = journal_rep_split(3,4)[OF assms(1,2), folded e_def]
  show "take (vj_name_length e) assignment = ch_name (cs ! i)"
    "take (vj_length e - vj_name_length e - 2) (drop (vj_name_length e + 1) assignment) = ch_value (cs ! i)"
    "assignment ! vj_name_length e = CHR ''=''"
    by (simp_all add: text_at split)
  show "assignment ! (vj_length e - 1) = NUL"
    by (simp add: text_at split nth_append)
qed

lemma journal_rep_validate:
  assumes "journal_rep j cs"
  shows "gsh_variable_journal_validate j"
proof -
  have len: "length (vj_entries j) = length cs" by (rule journal_rep_length[OF assms])
  have "journal_entry_valid j (vj_entries j ! i)" if i: "i < length cs" for i
  proof -
    note fields = journal_rep_fields[OF assms i] and dec = journal_rep_decode[OF assms i]
    note split = journal_rep_split(3,4)[OF assms i]
    have ok: "change_ok (cs ! i)" using journal_rep_change_ok[OF assms] i by simp
    have inside: "vj_offset (vj_entries j ! i) + vj_length (vj_entries j ! i) \<le> length (vj_text j)"
      by (rule journal_rep_assignment(2)[OF assms i])
    have val: "take (vj_length (vj_entries j ! i) - (vj_name_length (vj_entries j ! i) + 1) - 1)
        (drop (vj_name_length (vj_entries j ! i) + 1) (drop (vj_offset (vj_entries j ! i)) (vj_text j))) =
        ch_value (cs ! i)"
      using dec(2) by (simp add: numeral_2_eq_2)
    have name: "ch_name (cs ! i) \<noteq> []" using ok variable_name_bytes by (auto simp: change_ok_def)
    show ?thesis
      unfolding journal_entry_valid_def Let_def val dec(1,3,4)
      unfolding fields split
      using ok inside split name by (auto simp: change_ok_def)
  qed
  then show ?thesis
    using assms len by (auto simp: gsh_variable_journal_validate_def journal_rep_def list_all_length)
qed

section \<open>Sizes of a store\<close>

text \<open>The bytes a variable takes in the text, and the total, as integers.\<close>

definition variable_bytes :: "byte list \<Rightarrow> variable \<Rightarrow> int" where
  "variable_bytes name v =
    int (length name) + int (length (case v_value v of None \<Rightarrow> [] | Some val \<Rightarrow> val)) + 2"

definition text_size :: "(byte list \<Rightarrow> variable option) \<Rightarrow> int" where
  "text_size m = (\<Sum>name \<in> dom m. variable_bytes name (the (m name)))"

lemma text_size_upd:
  assumes "finite (dom m)"
  shows "text_size (m(name \<mapsto> v)) = text_size m -
      (case m name of None \<Rightarrow> 0 | Some old \<Rightarrow> variable_bytes name old) + variable_bytes name v"
    "text_size (m(name := None)) = text_size m -
      (case m name of None \<Rightarrow> 0 | Some old \<Rightarrow> variable_bytes name old)"
proof -
  have rest: "(\<Sum>n \<in> dom m - {name}. variable_bytes n (the ((m(name := w)) n))) =
      (\<Sum>n \<in> dom m - {name}. variable_bytes n (the (m n)))" for w
    by (rule sum.cong) auto
  have all: "text_size m = (case m name of None \<Rightarrow> 0 | Some old \<Rightarrow> variable_bytes name old) +
      (\<Sum>n \<in> dom m - {name}. variable_bytes n (the (m n)))"
  proof (cases "m name")
    case None
    then have "dom m - {name} = dom m" by auto
    with None show ?thesis by (simp add: text_size_def)
  next
    case (Some v)
    then have "name \<in> dom m" by blast
    with Some sum.remove[OF assms this, of "\<lambda>n. variable_bytes n (the (m n))"] show ?thesis
      by (simp add: text_size_def)
  qed
  have "text_size (m(name \<mapsto> v)) = variable_bytes name v +
      (\<Sum>n \<in> dom m - {name}. variable_bytes n (the ((m(name \<mapsto> v)) n)))"
    using assms by (simp add: text_size_def sum.insert_remove)
  then show "text_size (m(name \<mapsto> v)) = text_size m -
      (case m name of None \<Rightarrow> 0 | Some old \<Rightarrow> variable_bytes name old) + variable_bytes name v"
    unfolding rest all by simp
  have "text_size (m(name := None)) =
      (\<Sum>n \<in> dom m - {name}. variable_bytes n (the ((m(name := None)) n)))"
    by (simp add: text_size_def)
  then show "text_size (m(name := None)) = text_size m -
      (case m name of None \<Rightarrow> 0 | Some old \<Rightarrow> variable_bytes name old)"
    unfolding rest all by simp
qed

lemma variable_ok_size:
  assumes "variable_ok s"
  shows "finite (dom (variable_at s))" "gsh_variables_count s = card (dom (variable_at s))"
    "int (length (vs_text s)) = text_size (variable_at s)"
proof -
  obtain qs where rep: "variable_rep s qs" using assms by (auto simp: variable_ok_def)
  have dist: "distinct (map fst qs)" "list_all variable_item_ok qs"
    "vs_text s = assignments (map item_pair qs)"
    using rep by (simp_all only: variable_rep_def)
  have at: "variable_at s = (\<lambda>name. map_option item_variable (map_of qs name))"
    using variable_rep_at(1)[OF rep] by (simp add: fun_eq_iff)
  have dom: "dom (variable_at s) = fst ` set qs"
    by (simp add: at dom_def dom_map_of_conv_image_fst[symmetric])
  then show "finite (dom (variable_at s))" by simp
  show "gsh_variables_count s = card (dom (variable_at s))"
    using distinct_card[OF dist(1)] by (simp add: variable_rep_count[OF rep] dom)
  have "text_size (variable_at s) = (\<Sum>name \<in> set (map fst qs). variable_bytes name (the (variable_at s name)))"
    by (simp add: text_size_def dom)
  also have "\<dots> = (\<Sum>name \<leftarrow> map fst qs. variable_bytes name (the (variable_at s name)))"
    by (rule sum.distinct_set_conv_list[OF dist(1)])
  also have "\<dots> = (\<Sum>q \<leftarrow> qs. variable_bytes (fst q) (item_variable (snd q)))"
    using dist(1) by (auto simp: at o_def intro!: arg_cong[of _ _ sum_list] map_cong)
  also have "\<dots> = int (length (assignments (map item_pair qs)))"
    using dist(2)
    by (induction qs) (auto simp: variable_bytes_def item_variable_def variable_item_ok_def)
  finally show "int (length (vs_text s)) = text_size (variable_at s)" by (simp add: dist(3))
qed

section \<open>The effect of a change\<close>

definition run_change :: "gsh_variable_store \<Rightarrow> change \<Rightarrow> errno option \<times> gsh_variable_store" where
  "run_change s c =
    (let change_mask = ucast (ch_mask c); attributes = ucast (ch_attributes c)
     in if ch_operation c = GSH_VARIABLE_JOURNAL_SET
        then gsh_variables_set s (ch_name c) (ch_value c) change_mask attributes
        else if ch_operation c = GSH_VARIABLE_JOURNAL_ATTRIBUTES
        then gsh_variables_set_attributes s (ch_name c) change_mask attributes
        else if ch_operation c = GSH_VARIABLE_JOURNAL_UNSET then gsh_variables_unset s (ch_name c)
        else (case gsh_variables_unset s (ch_name c) of
                (Some err, s) \<Rightarrow> (Some err, s)
              | (None, s) \<Rightarrow> gsh_variables_set_attributes s (ch_name c) change_mask attributes))"

definition change_effect :: "change \<Rightarrow> variable option \<Rightarrow> variable option" where
  "change_effect c old =
    (let change_mask = ucast (ch_mask c); attributes = ucast (ch_attributes c)
     in if ch_operation c = GSH_VARIABLE_JOURNAL_SET
        then Some (updated_variable old (Some (ch_value c)) change_mask attributes)
        else if ch_operation c = GSH_VARIABLE_JOURNAL_ATTRIBUTES
        then Some (updated_variable old (Option.bind old v_value) change_mask attributes)
        else if ch_operation c = GSH_VARIABLE_JOURNAL_UNSET then None
        else Some (updated_variable None None change_mask attributes))"

definition change_blocked :: "change \<Rightarrow> variable option \<Rightarrow> bool" where
  "change_blocked c old \<longleftrightarrow> (\<exists>v. old = Some v \<and> v_readonly v \<and>
    (ch_operation c \<noteq> GSH_VARIABLE_JOURNAL_ATTRIBUTES \<or>
     bit (ch_mask c) 1 \<and> \<not> bit (ch_attributes c) 1))"

definition change_length :: "change \<Rightarrow> int" where
  "change_length c = int (length (ch_name c)) + int (length (ch_value c)) + 2"

definition change_count :: "change \<Rightarrow> variable option \<Rightarrow> int" where
  "change_count c old =
    (case old of
       None \<Rightarrow> if ch_operation c \<noteq> GSH_VARIABLE_JOURNAL_UNSET then 1 else 0
     | Some v \<Rightarrow> if ch_operation c = GSH_VARIABLE_JOURNAL_UNSET then - 1 else 0)"

definition change_text :: "change \<Rightarrow> variable option \<Rightarrow> int" where
  "change_text c old =
    (case old of
       None \<Rightarrow> if ch_operation c \<noteq> GSH_VARIABLE_JOURNAL_UNSET then change_length c else 0
     | Some v \<Rightarrow>
         if ch_operation c = GSH_VARIABLE_JOURNAL_UNSET then - variable_bytes (ch_name c) v
         else if ch_operation c \<noteq> GSH_VARIABLE_JOURNAL_ATTRIBUTES
         then change_length c - variable_bytes (ch_name c) v
         else 0)"

lemma change_effect_size:
  assumes "finite (dom m)" "change_ok c"
  defines "m' \<equiv> m(ch_name c := change_effect c (m (ch_name c)))"
  shows "int (card (dom m')) = int (card (dom m)) + change_count c (m (ch_name c))"
    "text_size m' = text_size m + change_text c (m (ch_name c))"
proof -
  let ?n = "ch_name c" and ?op = "ch_operation c"
  have val: "?op \<noteq> 0 \<Longrightarrow> ch_value c = []" "?op \<le> 3" using assms(2) by (auto simp: change_ok_def)
  have none: "change_effect c old = None \<longleftrightarrow> ?op = 2" for old
    by (simp add: change_effect_def Let_def)
  have pos: "0 < card (dom m)" if "m ?n = Some v" for v
    using assms(1) that by (auto simp: card_gt_0_iff)
  have ins: "card (insert ?n (dom m)) = (if m ?n = None then Suc (card (dom m)) else card (dom m))"
    using assms(1) by (auto simp: domIff insert_absorb)
  have del: "int (card (dom m - {?n})) = int (card (dom m)) - (if m ?n = None then 0 else 1)"
    using assms(1) pos by (cases "m ?n") (auto simp: domIff card_Diff_singleton_if of_nat_diff Suc_leI)
  show "int (card (dom m')) = int (card (dom m)) + change_count c (m ?n)"
  proof (cases "change_effect c (m ?n)")
    case None
    then show ?thesis using none[of "m ?n"] del
      by (auto simp: m'_def change_count_def split: option.splits)
  next
    case (Some w)
    then show ?thesis using none[of "m ?n"] ins
      by (auto simp: m'_def change_count_def split: option.splits)
  qed
  show "text_size m' = text_size m + change_text c (m ?n)"
  proof (cases "change_effect c (m ?n)")
    case None
    then have "?op = 2" using none by blast
    with None text_size_upd(2)[OF assms(1), of ?n] show ?thesis
      by (simp add: m'_def change_text_def split: option.split)
  next
    case (Some w)
    then have op: "?op \<noteq> 2" using none by force
    have bytes: "variable_bytes ?n w = (if ?op = 1 then
        (case m ?n of None \<Rightarrow> change_length c | Some v \<Rightarrow> variable_bytes ?n v) else change_length c)"
      using Some val op by (auto simp: change_effect_def Let_def updated_variable_def
          variable_bytes_def change_length_def split: if_splits option.splits)
    show ?thesis
      using Some op text_size_upd(1)[OF assms(1), of ?n w]
      by (simp add: m'_def change_text_def bytes split: option.split)
  qed
qed

lemma change_args_ok:
  assumes "change_ok c"
  shows "variable_args_ok (ch_name c) (ch_value c) (ucast (ch_mask c)) (ucast (ch_attributes c))"
proof -
  have "ucast (ch_mask c) \<le> (3 :: uint32)" "ucast (ch_attributes c) \<le> (3 :: uint32)"
    "ucast (ch_attributes c) AND NOT (ucast (ch_mask c) :: uint32) = 0"
    using assms unfolding change_ok_def small_bits subset_bits by (auto simp: bit_simps)
  then show ?thesis using assms by (simp add: variable_args_ok_def change_ok_def)
qed

lemma ucast_bits: "n < 16 \<Longrightarrow> bit (ucast (x :: 16 word) :: uint32) n \<longleftrightarrow> bit x n"
  by (simp add: bit_simps)

lemma run_change_spec:
  assumes ok: "variable_ok s" and c: "change_ok c" and free: "\<not> change_blocked c (variable_at s (ch_name c))"
    and count: "int (gsh_variables_count s) + change_count c (variable_at s (ch_name c)) \<le> int GSH_VARIABLE_CAP"
    and room: "int (length (vs_text s)) + change_text c (variable_at s (ch_name c)) \<le> int GSH_VARIABLE_TEXT_CAP"
  shows "\<exists>t. run_change s c = (None, t) \<and> variable_ok t \<and>
    variable_at t = (variable_at s)(ch_name c := change_effect c (variable_at s (ch_name c)))"
proof -
  let ?n = "ch_name c" and ?m = "ucast (ch_mask c) :: uint32" and ?at = "ucast (ch_attributes c) :: uint32"
  note args = change_args_ok[OF c]
  have val: "ch_operation c \<noteq> 0 \<Longrightarrow> ch_value c = []" "ch_operation c \<le> 3" "NUL \<notin> set (ch_value c)"
    "gsh_variable_name_is_valid ?n"
    using c by (auto simp: change_ok_def)
  have cap: "length (vs_text s) \<le> 262144" "gsh_variables_count s \<le> 1024"
  proof -
    obtain qs where rep: "variable_rep s qs" using ok by (auto simp: variable_ok_def)
    then show "length (vs_text s) \<le> 262144" by (simp add: variable_rep_def)
    show "gsh_variables_count s \<le> 1024"
      using variable_rep_count_le[OF rep] variable_rep_count[OF rep] by simp
  qed
  consider (set) "ch_operation c = 0" | (attributes) "ch_operation c = 1" | (unset) "ch_operation c = 2"
    | (both) "ch_operation c = 3" using val(2) by linarith
  then show ?thesis
  proof cases
    case set
    obtain r t where run: "gsh_variables_set s ?n (ch_value c) ?m ?at = (r, t)" by fastforce
    have "\<not> variable_readonly s ?n" using free set by (auto simp: variable_readonly_def change_blocked_def)
    moreover have "variable_has_room s ?n (ch_value c)"
      using set count room cap c[unfolded change_ok_def, THEN conjunct2, THEN conjunct2, THEN conjunct1]
      by (auto simp: variable_has_room_def change_count_def change_text_def change_length_def
          variable_bytes_def split: option.splits)
    ultimately have "set_error s ?n (ch_value c) ?m ?at = None" using args by (simp add: set_error_def)
    with variables_set_spec[OF ok val(3) run] run set show ?thesis
      by (simp add: run_change_def change_effect_def Let_def)
  next
    case attributes
    obtain r t where run: "gsh_variables_set_attributes s ?n ?m ?at = (r, t)" by fastforce
    have "\<not> (variable_readonly s ?n \<and> bit ?m 1 \<and> \<not> bit ?at 1)"
      using free attributes by (auto simp: variable_readonly_def change_blocked_def ucast_bits)
    moreover have "variable_at s ?n = None \<Longrightarrow> variable_has_room s ?n []"
      using attributes count room val(1)
      by (simp add: variable_has_room_def change_count_def change_text_def change_length_def)
    ultimately have "set_attributes_error s ?n ?m ?at = None"
      using args val(1) attributes by (auto simp: set_attributes_error_def)
    with variables_set_attributes_spec[OF ok run] run attributes show ?thesis
      by (simp add: run_change_def change_effect_def Let_def)
  next
    case unset
    obtain r t where run: "gsh_variables_unset s ?n = (r, t)" by fastforce
    have "\<not> variable_readonly s ?n" using free unset by (auto simp: variable_readonly_def change_blocked_def)
    then have "unset_error s ?n = None" using val(4) by (simp add: unset_error_def)
    with variables_unset_spec[OF ok run] run unset show ?thesis
      by (simp add: run_change_def change_effect_def Let_def)
  next
    case both
    obtain r t where run: "gsh_variables_unset s ?n = (r, t)" by fastforce
    have "\<not> variable_readonly s ?n" using free both by (auto simp: variable_readonly_def change_blocked_def)
    then have "unset_error s ?n = None" using val(4) by (simp add: unset_error_def)
    with variables_unset_spec[OF ok run] have t: "r = None" "variable_ok t"
      "variable_at t = (variable_at s)(?n := None)" by simp_all
    obtain r' u where run': "gsh_variables_set_attributes t ?n ?m ?at = (r', u)" by fastforce
    have size: "int (gsh_variables_count t) = int (card (dom ((variable_at s)(?n := None))))"
      "int (length (vs_text t)) = text_size ((variable_at s)(?n := None))"
      using variable_ok_size(2,3)[OF t(2)] t(3) by simp_all
    have "gsh_variables_count t < 1024 \<and> length (vs_text t) + length ?n + 2 \<le> 262144"
    proof (cases "variable_at s ?n")
      case None
      then have "(variable_at s)(?n := None) = variable_at s" by auto
      with size variable_ok_size(2,3)[OF ok] None both count room val(1) show ?thesis
        by (simp add: change_count_def change_text_def change_length_def)
    next
      case (Some v)
      have dom: "dom ((variable_at s)(?n := None)) = dom (variable_at s) - {?n}" by simp
      have "?n \<in> dom (variable_at s)" using Some by blast
      then have "card (dom ((variable_at s)(?n := None))) < gsh_variables_count s"
        unfolding dom variable_ok_size(2)[OF ok]
        by (rule card_Diff1_less[OF variable_ok_size(1)[OF ok]])
      with size(1) cap(2) have "gsh_variables_count t < 1024" by simp
      moreover have "int (length (vs_text t)) = int (length (vs_text s)) - variable_bytes ?n v"
        using size(2) text_size_upd(2)[OF variable_ok_size(1)[OF ok], of ?n] variable_ok_size(3)[OF ok] Some
        by simp
      ultimately show ?thesis using room Some both val(1)
        by (simp add: change_text_def change_length_def)
    qed
    then have "set_attributes_error t ?n ?m ?at = None"
      using args val(1) both by (simp add: set_attributes_error_def variable_readonly_def t(3)
          variable_has_room_def)
    with variables_set_attributes_spec[OF t(2) run'] run run' both t show ?thesis
      by (simp add: run_change_def change_effect_def Let_def)
  qed
qed

section \<open>A journal that can be applied applies\<close>

lemma apply_entry_change:
  assumes "journal_rep j cs" "i < length cs"
  shows "apply_journal_entry s j (vj_entries j ! i) = run_change s (cs ! i)"
proof -
  have "ch_operation (cs ! i) \<le> 3"
    using journal_rep_change_ok[OF assms(1)] assms(2) by (simp add: change_ok_def)
  then show ?thesis
    unfolding apply_journal_entry_def Let_def journal_rep_decode(1,2)[OF assms]
      journal_rep_fields[OF assms] run_change_def
    by simp
qed

definition totals_ok :: "int \<Rightarrow> int \<Rightarrow> bool" where
  "totals_ok final_count final_text \<longleftrightarrow> 0 \<le> final_count \<and> final_count \<le> int GSH_VARIABLE_CAP \<and>
    0 \<le> final_text \<and> final_text \<le> int GSH_VARIABLE_TEXT_CAP"

lemma can_apply_entry_change:
  assumes rep: "journal_rep j cs" and i: "i < length cs" and ok: "variable_ok s"
  defines "c \<equiv> cs ! i" and "old \<equiv> variable_at s (ch_name (cs ! i))"
  shows "can_apply_entry s j (vj_entries j ! i) (final_count, final_text) =
    (if change_blocked c old then Inl EROFS
     else if totals_ok (final_count + change_count c old) (final_text + change_text c old)
     then Inr (final_count + change_count c old, final_text + change_text c old)
     else Inl ENOSPC)"
proof -
  obtain qs where qs: "variable_rep s qs" using ok by (auto simp: variable_ok_def)
  have valid: "gsh_variable_name_is_valid (ch_name c)"
    using journal_rep_change_ok[OF rep] i by (simp add: change_ok_def c_def)
  have length: "int (vj_length (vj_entries j ! i)) = change_length c"
    using journal_rep_split(3)[OF rep i] by (simp add: change_length_def c_def)
  have name: "take (vj_name_length (vj_entries j ! i)) (drop (vj_offset (vj_entries j ! i)) (vj_text j)) =
      ch_name c" unfolding c_def by (rule journal_rep_decode(1)[OF rep i])
  note fields = journal_rep_fields[OF rep i, folded c_def]
  show ?thesis
  proof (cases "variable_index s (ch_name c) (variable_hash (ch_name c))")
    case None
    then have "old = None"
      using variable_rep_missing(2)[OF qs valid None] variable_rep_at(1)[OF qs] by (simp add: old_def c_def)
    then show ?thesis
      unfolding can_apply_entry_def Let_def name fields prod.case None option.case length
      by (cases "ch_operation c = 2")
        (auto simp: totals_ok_def change_blocked_def change_count_def change_text_def)
  next
    case (Some k)
    from variable_rep_found[OF qs valid Some] obtain val a where
      k: "k < length qs" "qs ! k = (ch_name c, val, a)" "map_of qs (ch_name c) = Some (val, a)" .
    have now: "old = Some (item_variable (val, a))"
      using k(3) variable_rep_at(1)[OF qs] by (simp add: old_def c_def)
    have "bit a 15 \<longrightarrow> val = []"
      using variable_rep_item_ok[OF qs nth_mem[OF k(1)]] k(2) by (simp add: variable_item_ok_def)
    then have bytes: "int (ve_length (vs_entries s ! k)) = variable_bytes (ch_name c) (item_variable (val, a))"
      using variable_rep_split(4)[OF qs k(1,2)] by (auto simp: variable_bytes_def item_variable_def)
    show ?thesis
      unfolding can_apply_entry_def Let_def name fields prod.case Some option.case length bytes
        variable_rep_split(7)[OF qs k(1,2)]
      by (cases "ch_operation c = 2"; cases "ch_operation c = 1")
        (auto simp: totals_ok_def change_blocked_def change_count_def change_text_def now
          attribute_tests item_variable_def)
  qed
qed

text \<open>The store the loop has reached agrees with the first one on the names still to come.\<close>

lemma apply_entries_progress:
  assumes rep: "journal_rep j cs" and ok: "variable_ok s"
    and es: "es = map (\<lambda>i. vj_entries j ! i) is" "set is \<subseteq> {..<length cs}"
    and dist: "distinct (map (\<lambda>i. ch_name (cs ! i)) is)" "\<forall>i \<in> set is. ch_scope (cs ! i) = scope"
    and u: "variable_ok u" "\<forall>i \<in> set is. variable_at u (ch_name (cs ! i)) = variable_at s (ch_name (cs ! i))"
    and can: "can_apply_entries s j scope b es (int (gsh_variables_count u), int (length (vs_text u))) = None"
  shows "\<exists>t. apply_journal_entries u j (\<lambda>e. True) es = (None, t) \<and> variable_ok t \<and>
    (\<forall>i \<in> set is. variable_at t (ch_name (cs ! i)) =
      change_effect (cs ! i) (variable_at s (ch_name (cs ! i)))) \<and>
    (\<forall>name. name \<notin> (\<lambda>i. ch_name (cs ! i)) ` set is \<longrightarrow> variable_at t name = variable_at u name)"
  using es dist u can
proof (induction "is" arbitrary: es u)
  case Nil
  then show ?case by simp
next
  case (Cons i rest)
  let ?c = "cs ! i" and ?e = "vj_entries j ! i"
  let ?n = "ch_name ?c"
  have i: "i < length cs" using Cons.prems(2) by simp
  have c: "change_ok ?c" using journal_rep_change_ok[OF rep] i by simp
  have es: "es = ?e # map (\<lambda>i. vj_entries j ! i) rest" using Cons.prems(1) by simp
  have scope: "vj_scope ?e = scope" using journal_rep_fields(1)[OF rep i] Cons.prems(4) by simp
  have same: "variable_at u ?n = variable_at s ?n" using Cons.prems(6) by simp
  let ?old = "variable_at s ?n"
  let ?count = "int (gsh_variables_count u) + change_count ?c ?old"
    and ?text = "int (length (vs_text u)) + change_text ?c ?old"
  have step: "\<not> change_blocked ?c ?old" "totals_ok ?count ?text"
    "can_apply_entries s j scope b (map (\<lambda>i. vj_entries j ! i) rest) (?count, ?text) = None"
    using Cons.prems(7) scope
    by (auto simp: es can_apply_entry_change[OF rep i ok] split: if_splits)
  obtain t where t: "run_change u ?c = (None, t)" "variable_ok t"
      "variable_at t = (variable_at u)(?n := change_effect ?c ?old)"
    using run_change_spec[OF Cons.prems(5) c] step(1,2) unfolding same totals_ok_def by auto
  have size: "int (gsh_variables_count t) = ?count" "int (length (vs_text t)) = ?text"
    using variable_ok_size[OF t(2)] variable_ok_size[OF Cons.prems(5)]
      change_effect_size[OF variable_ok_size(1)[OF Cons.prems(5)] c]
    by (simp_all add: t(3) same)
  have fresh: "?n \<notin> (\<lambda>i. ch_name (cs ! i)) ` set rest" using Cons.prems(3) by auto
  have apart: "ch_name (cs ! k) \<noteq> ?n" if "k \<in> set rest" for k using fresh that by (metis imageI)
  have "\<exists>v. apply_journal_entries t j (\<lambda>e. True) (map (\<lambda>i. vj_entries j ! i) rest) = (None, v) \<and>
      variable_ok v \<and>
      (\<forall>i \<in> set rest. variable_at v (ch_name (cs ! i)) =
        change_effect (cs ! i) (variable_at s (ch_name (cs ! i)))) \<and>
      (\<forall>name. name \<notin> (\<lambda>i. ch_name (cs ! i)) ` set rest \<longrightarrow> variable_at v name = variable_at t name)"
  proof (rule Cons.IH[OF refl _ _ _ t(2)])
    show "\<forall>i \<in> set rest. variable_at t (ch_name (cs ! i)) = variable_at s (ch_name (cs ! i))"
      using Cons.prems(6) apart by (simp add: t(3))
    show "can_apply_entries s j scope b (map (\<lambda>i. vj_entries j ! i) rest)
        (int (gsh_variables_count t), int (length (vs_text t))) = None"
      unfolding size by (rule step(3))
  qed (use Cons.prems in auto)
  then obtain v where v: "apply_journal_entries t j (\<lambda>e. True) (map (\<lambda>i. vj_entries j ! i) rest) = (None, v)"
      "variable_ok v" "\<forall>i \<in> set rest. variable_at v (ch_name (cs ! i)) =
        change_effect (cs ! i) (variable_at s (ch_name (cs ! i)))"
      "\<forall>name. name \<notin> (\<lambda>i. ch_name (cs ! i)) ` set rest \<longrightarrow> variable_at v name = variable_at t name"
    by blast
  have "apply_journal_entries u j (\<lambda>e. True) es = (None, v)"
    using t(1) v(1) by (simp add: es apply_entry_change[OF rep i])
  moreover have "variable_at v ?n = change_effect ?c ?old" using v(4) fresh by (simp add: t(3))
  moreover have "variable_at v name = variable_at u name"
    if "name \<notin> (\<lambda>i. ch_name (cs ! i)) ` set (i # rest)" for name
    using v(4) that by (simp add: t(3))
  ultimately show ?case using v(2,3) by auto
qed

section \<open>Reading through a journal\<close>

definition journal_ok :: "gsh_variable_journal \<Rightarrow> bool" where
  "journal_ok j \<longleftrightarrow> (\<exists>cs. journal_rep j cs)"

definition change_of :: "change list \<Rightarrow> byte list \<Rightarrow> change option" where
  "change_of cs = map_of (map (\<lambda>c. (ch_name c, c)) cs)"

definition change_value :: "change \<Rightarrow> byte list option \<Rightarrow> byte list option" where
  "change_value c old =
    (if ch_operation c = GSH_VARIABLE_JOURNAL_SET then Some (ch_value c)
     else if ch_operation c = GSH_VARIABLE_JOURNAL_ATTRIBUTES then old else None)"

text \<open>What a reader sees that asks the journal first and the store second.\<close>

definition overlaid ::
  "byte list \<times> gsh_variable_journal_value_state \<Rightarrow> byte list option \<Rightarrow> byte list option" where
  "overlaid found stored =
    (case snd found of
       GSH_VARIABLE_JOURNAL_VALUE_SET \<Rightarrow> Some (fst found)
     | GSH_VARIABLE_JOURNAL_VALUE_UNSET \<Rightarrow> None
     | GSH_VARIABLE_JOURNAL_VALUE_ABSENT \<Rightarrow> stored)"

abbreviation in_scope :: "change list \<Rightarrow> nat \<Rightarrow> bool" where
  "in_scope cs scope \<equiv> \<forall>c \<in> set cs. ch_scope c = scope"

lemma names_distinct:
  "distinct (map change_key cs) \<Longrightarrow> in_scope cs scope \<Longrightarrow> distinct (map ch_name cs)"
  by (induction cs) auto

lemma change_of_Some:
  assumes "distinct (map ch_name cs)" "i < length cs"
  shows "change_of cs (ch_name (cs ! i)) = Some (cs ! i)"
  using assms by (simp add: change_of_def map_of_eq_Some_iff o_def)

lemma change_of_None: "change_of cs name = None \<longleftrightarrow> name \<notin> ch_name ` set cs"
  by (simp add: change_of_def map_of_eq_None_iff image_image)

lemma journal_rep_value:
  assumes rep: "journal_rep j cs" and i: "i < length cs"
  shows "cstring_at (vj_text j) (vj_offset (vj_entries j ! i) + length (ch_name (cs ! i)) + 1) =
    ch_value (cs ! i)"
proof -
  let ?name = "ch_name (cs ! i)"
  let ?before = "assignments (map change_pair (take i cs)) @ ?name @ ''=''"
  have bytes: "vj_text j = ?before @ ch_value (cs ! i) @ NUL # assignments (map change_pair (drop (Suc i) cs))"
    using journal_rep_split(1)[OF rep i] by (simp add: assignment_bytes_def)
  have at: "vj_offset (vj_entries j ! i) + length ?name + 1 = length ?before"
    using journal_rep_split(2)[OF rep i] by simp
  have nul: "NUL \<notin> set (ch_value (cs ! i))"
    using journal_rep_change_ok[OF rep] i by (simp add: change_ok_def)
  show ?thesis unfolding bytes at by (rule cstring_at_end[OF nul refl])
qed

lemma journal_rep_lookup:
  assumes rep: "journal_rep j cs" and scope: "in_scope cs scope" "scope \<le> UINT16_MAX"
  shows "overlaid (gsh_variable_journal_lookup_scoped j scope name) stored =
    (case change_of cs name of None \<Rightarrow> stored | Some c \<Rightarrow> change_value c stored)"
proof -
  note index = journal_rep_index[OF rep, of scope name]
  have dist: "distinct (map change_key cs)" using rep by (simp only: journal_rep_def)
  note names = names_distinct[OF dist scope(1)]
  show ?thesis
  proof (cases "journal_name_index j scope name")
    case None
    then have "(scope, name) \<notin> set (map change_key cs)" using index(2) by blast
    then have "change_of cs name = None" using scope(1) by (auto simp: change_of_None)
    with None scope(2) show ?thesis
      by (simp add: gsh_variable_journal_lookup_scoped_def overlaid_def)
  next
    case (Some i)
    then have i: "i < length cs" "ch_name (cs ! i) = name" using index(1)[of i] by simp_all
    have change: "change_of cs name = Some (cs ! i)" using change_of_Some[OF names i(1)] i(2) by simp
    note read = journal_rep_value[OF rep i(1), unfolded i(2)]
    show ?thesis
      using Some scope(2) change read
      by (simp add: gsh_variable_journal_lookup_scoped_def Let_def overlaid_def change_value_def
          journal_rep_fields[OF rep i(1)])
  qed
qed

lemma change_effect_value:
  "Option.bind (change_effect c old) v_value = change_value c (Option.bind old v_value)"
  by (simp add: change_effect_def change_value_def Let_def updated_variable_def)

lemma can_apply_scope:
  "can_apply_entries s j scope True es totals = None \<Longrightarrow> e \<in> set es \<Longrightarrow> vj_scope e = scope"
  by (induction es arbitrary: totals) (auto split: if_splits sum.splits)

lemma journal_applies:
  assumes j: "journal_rep j cs" and ok: "variable_ok s"
    and can: "gsh_variables_can_apply_journal s j = None"
  shows "in_scope cs 0 \<and> (\<exists>t. gsh_variables_apply_journal_in_place s j = (None, t) \<and> variable_ok t \<and>
    (\<forall>name. variable_at t name = (case change_of cs name of
        None \<Rightarrow> variable_at s name | Some c \<Rightarrow> change_effect c (variable_at s name))))"
proof -
  have len: "length (vj_entries j) = length cs" by (rule journal_rep_length[OF j])
  have es: "vj_entries j = map (\<lambda>i. vj_entries j ! i) [0..<length cs]"
    by (simp only: len[symmetric] map_nth)
  have can': "can_apply_entries s j 0 True (vj_entries j)
      (int (gsh_variables_count s), int (length (vs_text s))) = None"
    using can by (simp add: gsh_variables_can_apply_journal_def can_apply_journal_scope_def
        gsh_variables_count_def split: if_splits)
  have scope: "ch_scope (cs ! i) = 0" if "i < length cs" for i
    using can_apply_scope[OF can', of "vj_entries j ! i"] journal_rep_fields(1)[OF j that] that len by simp
  then have in_scope: "in_scope cs 0" by (auto simp: in_set_conv_nth)
  have "distinct (map change_key cs)" using j by (simp only: journal_rep_def)
  then have names: "distinct (map ch_name cs)" by (rule names_distinct[OF _ in_scope])
  have names': "map (\<lambda>i. ch_name (cs ! i)) [0..<length cs] = map ch_name cs"
    using arg_cong[OF map_nth[of cs], of "map ch_name"] by (simp add: o_def)
  have "\<exists>t. apply_journal_entries s j (\<lambda>e. True) (vj_entries j) = (None, t) \<and> variable_ok t \<and>
    (\<forall>i \<in> set [0..<length cs]. variable_at t (ch_name (cs ! i)) =
      change_effect (cs ! i) (variable_at s (ch_name (cs ! i)))) \<and>
    (\<forall>name. name \<notin> (\<lambda>i. ch_name (cs ! i)) ` set [0..<length cs] \<longrightarrow>
      variable_at t name = variable_at s name)"
    using scope can' names by (intro apply_entries_progress[OF j ok es, where scope = 0]) (auto simp: names' ok)
  then obtain t where t: "apply_journal_entries s j (\<lambda>e. True) (vj_entries j) = (None, t)" "variable_ok t"
    "\<And>i. i < length cs \<Longrightarrow> variable_at t (ch_name (cs ! i)) =
      change_effect (cs ! i) (variable_at s (ch_name (cs ! i)))"
    "\<And>name. name \<notin> (\<lambda>i. ch_name (cs ! i)) ` {0..<length cs} \<Longrightarrow> variable_at t name = variable_at s name"
    by auto
  have "variable_at t name = (case change_of cs name of
        None \<Rightarrow> variable_at s name | Some c \<Rightarrow> change_effect c (variable_at s name))" for name
  proof (cases "name \<in> ch_name ` set cs")
    case True
    then obtain i where i: "i < length cs" "name = ch_name (cs ! i)" by (auto simp: in_set_conv_nth)
    then show ?thesis using t(3)[OF i(1)] change_of_Some[OF names i(1)] by simp
  next
    case False
    then have "name \<notin> (\<lambda>i. ch_name (cs ! i)) ` {0..<length cs}" by auto
    with False t(4) show ?thesis by (simp add: change_of_None[symmetric])
  qed
  with t(1,2) in_scope can show ?thesis by (auto simp: gsh_variables_apply_journal_in_place_def)
qed

section \<open>A child's run and its replay\<close>

text \<open>
  A child starts from a copy of the store with an empty journal and makes each operation on the
  store, then records it, as the assignment, \<open>export\<close>, \<open>readonly\<close> and \<open>unset\<close> builtins do.
\<close>

definition record_variable_op ::
  "gsh_variable_journal \<Rightarrow> variable_op \<Rightarrow> errno option \<times> gsh_variable_journal" where
  "record_variable_op j x =
    (case x of
       Op_assign name val m at \<Rightarrow> gsh_variable_journal_record j name val m at
     | Op_attributes name m at \<Rightarrow> gsh_variable_journal_record_attributes j name m at
     | Op_forget name \<Rightarrow> gsh_variable_journal_record_unset j name)"

inductive child_run ::
  "gsh_variable_store \<Rightarrow> gsh_variable_store \<Rightarrow> gsh_variable_journal \<Rightarrow> bool" for s where
  start: "child_run s s (gsh_variable_journal_initialize generation)"
| operation: "child_run s t j \<Longrightarrow> op_has_string x \<Longrightarrow> run_variable_op t x = (None, t') \<Longrightarrow>
    record_variable_op j x = (None, j') \<Longrightarrow> child_run s t' j'"

definition op_name :: "variable_op \<Rightarrow> byte list" where
  "op_name x = (case x of Op_assign name val m at \<Rightarrow> name | Op_attributes name m at \<Rightarrow> name
    | Op_forget name \<Rightarrow> name)"

definition op_value :: "variable_op \<Rightarrow> byte list option \<Rightarrow> byte list option" where
  "op_value x old = (case x of Op_assign name val m at \<Rightarrow> Some val | Op_attributes name m at \<Rightarrow> old
    | Op_forget name \<Rightarrow> None)"

abbreviation stored_value :: "gsh_variable_store \<Rightarrow> byte list \<Rightarrow> byte list option" where
  "stored_value s name \<equiv> Option.bind (variable_at s name) v_value"

lemma lookup_stored: "variable_ok s \<Longrightarrow> gsh_variables_lookup s name = stored_value s name"
  using variable_rep_at(2) by (auto simp: variable_ok_def)

lemma run_variable_op_value:
  assumes "variable_ok s" "op_has_string x" "run_variable_op s x = (None, t)"
  shows "stored_value t name =
    (if name = op_name x then op_value x (stored_value s name) else stored_value s name)"
  using run_variable_op_spec(3)[OF assms refl]
  by (cases x) (simp_all add: op_name_def op_value_def updated_variable_def)

lemma change_of_snoc:
  "ch_name c \<notin> ch_name ` set cs \<Longrightarrow> change_of (cs @ [c]) = (change_of cs)(ch_name c \<mapsto> c)"
  using map_of_snoc[of "ch_name c" "map (\<lambda>c. (ch_name c, c)) cs" c]
  by (simp add: change_of_def image_image)

lemma change_of_update:
  assumes "distinct (map ch_name cs)" "i < length cs" "ch_name c = ch_name (cs ! i)"
  shows "change_of (cs[i := c]) = (change_of cs)(ch_name c \<mapsto> c)"
  using map_of_replace[of "map (\<lambda>c. (ch_name c, c)) cs" i "ch_name c" c] assms
  by (simp add: change_of_def map_update o_def)

text \<open>One record keeps the journal's values those of the operation.\<close>

lemma record_result_value:
  assumes dist: "distinct (map ch_name cs)" and scope: "in_scope cs 0"
    and result: "record_result cs 0 name val m at operation cs'"
    and op: "operation \<le> 2" "operation \<noteq> 0 \<Longrightarrow> val = []"
  shows "in_scope cs' 0 \<and> (case change_of cs' other of None \<Rightarrow> stored | Some c \<Rightarrow> change_value c stored) =
    (let old = (case change_of cs other of None \<Rightarrow> stored | Some c \<Rightarrow> change_value c stored)
     in if other = name
        then (if operation = 0 then Some val else if operation = 1 then old else None) else old)"
proof -
  from result consider
    (new) "(0, name) \<notin> set (map change_key cs)" "cs' = cs @ [new_change 0 name val m at operation]"
  | (old) i where "i < length cs" "ch_name (cs ! i) = name"
      "cs' = cs[i := recorded_change (cs ! i) val m at operation]"
    by (auto simp: record_result_def simp del: set_map)
  then show ?thesis
  proof cases
    case new
    then have fresh: "name \<notin> ch_name ` set cs" using scope by force
    have "change_of cs' = (change_of cs)(name \<mapsto> new_change 0 name val m at operation)"
      using change_of_snoc[of "new_change 0 name val m at operation" cs] fresh
      by (simp add: new(2) new_change_def)
    moreover have "change_of cs name = None" using fresh by (simp add: change_of_None)
    moreover have "operation = 0 \<or> operation = 1 \<or> operation = 2" using op(1) by linarith
    ultimately show ?thesis using scope
      by (auto simp: new(2) new_change_def change_value_def Let_def)
  next
    case old
    let ?c = "recorded_change (cs ! i) val m at operation"
    have name: "ch_name ?c = name" "ch_scope ?c = 0"
      using old(1,2) scope by (auto simp: recorded_change_def Let_def)
    then have upd: "change_of cs' = (change_of cs)(name \<mapsto> ?c)"
      using change_of_update[OF dist old(1), of ?c] old(2) by (simp add: old(3))
    have now: "change_of cs name = Some (cs ! i)" using change_of_Some[OF dist old(1)] old(2) by simp
    have "in_scope cs' 0"
      using scope name(2) set_update_subset_insert[of cs i ?c] by (auto simp: old(3))
    moreover have "operation = 0 \<or> operation = 1 \<or> operation = 2" using op(1) by linarith
    ultimately show ?thesis
      by (auto simp: upd now recorded_change_def change_value_def Let_def)
  qed
qed

lemma record_variable_op_spec:
  assumes rep: "journal_rep j cs" and scope: "in_scope cs 0" and string: "op_has_string x"
    and run: "record_variable_op j x = (None, j')"
  shows "\<exists>cs'. journal_rep j' cs' \<and> in_scope cs' 0 \<and>
    (\<forall>name stored. (case change_of cs' name of None \<Rightarrow> stored | Some c \<Rightarrow> change_value c stored) =
      (let old = (case change_of cs name of None \<Rightarrow> stored | Some c \<Rightarrow> change_value c stored)
       in if name = op_name x then op_value x old else old))"
proof -
  have "distinct (map change_key cs)" using rep by (simp only: journal_rep_def)
  then have dist: "distinct (map ch_name cs)" by (rule names_distinct[OF _ scope])
  obtain val m at operation where x:
    "record_variable_op j x = journal_record j 0 (op_name x) val m at operation"
    "NUL \<notin> set val" "operation \<le> 2" "operation \<noteq> 0 \<Longrightarrow> val = []"
    "\<And>old. op_value x old = (if operation = 0 then Some val else if operation = 1 then old else None)"
  proof (cases x)
    case (Op_assign name val m at)
    then show ?thesis using string that[of val m at 0]
      by (simp add: record_variable_op_def op_name_def op_value_def op_has_string_def
          gsh_variable_journal_record_def gsh_variable_journal_record_scoped_def)
  next
    case (Op_attributes name m at)
    then show ?thesis using that[of "[]" m at 1]
      by (simp add: record_variable_op_def op_name_def op_value_def
          gsh_variable_journal_record_attributes_def)
  next
    case (Op_forget name)
    then show ?thesis using that[of "[]" 0 0 2]
      by (simp add: record_variable_op_def op_name_def op_value_def
          gsh_variable_journal_record_unset_def)
  qed
  have "journal_record j 0 (op_name x) val m at operation = (None, j')" using run x(1) by simp
  from journal_record_spec[OF rep x(2) this] obtain cs' where
    cs': "journal_rep j' cs'" "record_result cs 0 (op_name x) val m at operation cs'" by auto
  from cs'(1) record_result_value[OF dist scope cs'(2) x(3,4)] show ?thesis
    unfolding x(5) by blast
qed

lemma child_run_invariant:
  assumes "child_run s t j" "variable_ok s"
  shows "variable_ok t \<and> (\<exists>cs. journal_rep j cs \<and> in_scope cs 0 \<and>
    (\<forall>name. stored_value t name = (case change_of cs name of
        None \<Rightarrow> stored_value s name | Some c \<Rightarrow> change_value c (stored_value s name))))"
  using assms
proof (induction rule: child_run.induct)
  case (start g)
  then show ?case
    using journal_rep_initialize by (intro conjI exI[of _ "[]"]) (simp_all add: change_of_def)
next
  case (operation t j x t' j')
  then obtain cs where ok: "variable_ok t" and cs: "journal_rep j cs" "in_scope cs 0"
    "\<And>name. stored_value t name = (case change_of cs name of
        None \<Rightarrow> stored_value s name | Some c \<Rightarrow> change_value c (stored_value s name))" by blast
  from record_variable_op_spec[OF cs(1,2) operation(2,4)] obtain cs' where
    cs': "journal_rep j' cs'" "in_scope cs' 0"
    "\<And>name stored. (case change_of cs' name of None \<Rightarrow> stored | Some c \<Rightarrow> change_value c stored) =
      (let old = (case change_of cs name of None \<Rightarrow> stored | Some c \<Rightarrow> change_value c stored)
       in if name = op_name x then op_value x old else old)" by blast
  have "stored_value t' name = (case change_of cs' name of
        None \<Rightarrow> stored_value s name | Some c \<Rightarrow> change_value c (stored_value s name))" for name
    unfolding run_variable_op_value[OF ok operation(2,3)] cs'(3) cs(3) by (simp add: Let_def)
  with cs' run_variable_op_spec(1)[OF ok operation(2,3)] show ?case by blast
qed

section \<open>Properties\<close>

text \<open>C20. The journal of a child replays: whenever the parent, whose store the child started from,
  finds the journal applicable, every entry applies, the new store is well formed, and each
  variable then has the value it has in the child's own store (set, changed, or unset).\<close>

theorem child_journal_replays:
  assumes "child_run s t j" "variable_ok s" "gsh_variables_can_apply_journal s j = None"
  shows "\<exists>u. gsh_variables_apply_journal s j scratch = (None, u, u) \<and> variable_ok u \<and>
    (\<forall>name. gsh_variables_lookup u name = gsh_variables_lookup t name)"
proof -
  obtain cs where ok: "variable_ok t" and cs: "journal_rep j cs"
    "\<And>name. stored_value t name = (case change_of cs name of
        None \<Rightarrow> stored_value s name | Some c \<Rightarrow> change_value c (stored_value s name))"
    using child_run_invariant[OF assms(1,2)] by blast
  from journal_applies[OF cs(1) assms(2,3)] obtain u where
    u: "gsh_variables_apply_journal_in_place s j = (None, u)" "variable_ok u"
      "\<And>name. variable_at u name = (case change_of cs name of
        None \<Rightarrow> variable_at s name | Some c \<Rightarrow> change_effect c (variable_at s name))" by blast
  have "stored_value u name = stored_value t name" for name
    unfolding cs(2) u(3) by (simp add: change_effect_value split: option.split)
  then show ?thesis
    using u(1,2) lookup_stored[OF u(2)] lookup_stored[OF ok] journal_rep_validate[OF cs(1)]
    by (simp add: gsh_variables_apply_journal_def)
qed

text \<open>C21. Reading through a journal is reading the store after it: for a journal the recorder built
  and the store finds applicable, looking a name up in the journal first and in the store second
  gives, for every name, what the store holds once the journal is applied.\<close>

theorem overlay_reads_the_replay:
  assumes "journal_ok j" "variable_ok s" "gsh_variables_can_apply_journal s j = None"
  shows "\<exists>u. gsh_variables_apply_journal_in_place s j = (None, u) \<and> variable_ok u \<and>
    (\<forall>name. gsh_variables_lookup u name =
      overlaid (gsh_variable_journal_lookup j name) (gsh_variables_lookup s name))"
proof -
  obtain cs where cs: "journal_rep j cs" using assms(1) by (auto simp: journal_ok_def)
  from journal_applies[OF cs assms(2,3)] obtain u where scope: "in_scope cs 0"
    and u: "gsh_variables_apply_journal_in_place s j = (None, u)" "variable_ok u"
      "\<And>name. variable_at u name = (case change_of cs name of
        None \<Rightarrow> variable_at s name | Some c \<Rightarrow> change_effect c (variable_at s name))" by blast
  have "gsh_variables_lookup u name =
      overlaid (gsh_variable_journal_lookup j name) (gsh_variables_lookup s name)" for name
    unfolding gsh_variable_journal_lookup_def journal_rep_lookup[OF cs scope le0]
      lookup_stored[OF u(2)] lookup_stored[OF assms(2)] u(3)
    by (simp add: change_effect_value split: option.split)
  with u(1,2) show ?thesis by blast
qed

text \<open>A journal and a run to apply the properties to.\<close>

definition home_journal :: gsh_variable_journal where
  "home_journal = snd (gsh_variable_journal_record (gsh_variable_journal_initialize 7) ''HOME'' ''/r'' 1 1)"

lemma home_journal_recorded:
  "gsh_variable_journal_record (gsh_variable_journal_initialize 7) ''HOME'' ''/r'' 1 1 = (None, home_journal)"
  "journal_rep home_journal [new_change 0 ''HOME'' ''/r'' 1 1 0]"
proof -
  have args: "record_args_ok 0 ''HOME'' ''/r'' 1 1 0" using home_args by (simp add: record_args_ok_def)
  have "fst (gsh_variable_journal_record (gsh_variable_journal_initialize 7) ''HOME'' ''/r'' 1 1) = None"
    using args by (simp add: gsh_variable_journal_record_def gsh_variable_journal_record_scoped_def
        journal_record_eq gsh_variable_journal_initialize_def journal_name_index_def insert_journal_entry_def)
  then show run: "gsh_variable_journal_record (gsh_variable_journal_initialize 7) ''HOME'' ''/r'' 1 1 =
      (None, home_journal)"
    unfolding home_journal_def by (metis prod.collapse)
  have "journal_record (gsh_variable_journal_initialize 7) 0 ''HOME'' ''/r'' 1 1 0 = (None, home_journal)"
    using run by (simp add: gsh_variable_journal_record_def gsh_variable_journal_record_scoped_def)
  from journal_record_spec[OF journal_rep_initialize home_args(2) this]
  show "journal_rep home_journal [new_change 0 ''HOME'' ''/r'' 1 1 0]"
    by (auto simp: record_result_def)
qed

lemma home_journal_applies:
  "gsh_variables_can_apply_journal gsh_variables_initialize home_journal = None"
proof -
  note rep = home_journal_recorded(2)
  have entries: "vj_entries home_journal = [vj_entries home_journal ! 0]"
    using journal_rep_length[OF rep] by (cases "vj_entries home_journal") auto
  have "can_apply_entries gsh_variables_initialize home_journal 0 True (vj_entries home_journal) (0, 0) = None"
    using journal_rep_fields(1)[OF rep, of 0] can_apply_entry_change[OF rep _ variables_initial(2), of 0 0 0]
    by (subst entries) (simp add: new_change_def variables_initial(3) change_blocked_def totals_ok_def
        change_count_def change_text_def change_length_def)
  then show ?thesis
    using journal_rep_validate[OF rep] variables_initial_size
    by (simp add: gsh_variables_can_apply_journal_def can_apply_journal_scope_def gsh_variables_count_def)
qed

lemma overlay_reads_the_replay_witness:
  "\<exists>u. gsh_variables_apply_journal_in_place gsh_variables_initialize home_journal = (None, u) \<and>
    gsh_variables_lookup u ''HOME'' =
      overlaid (gsh_variable_journal_lookup home_journal ''HOME'') None"
proof -
  have "journal_ok home_journal" using home_journal_recorded(2) by (auto simp: journal_ok_def)
  from overlay_reads_the_replay[OF this variables_initial(2) home_journal_applies]
  show ?thesis using lookup_stored[OF variables_initial(2)] by (auto simp: variables_initial(3))
qed

lemma home_run:
  obtains t where "child_run gsh_variables_initialize t home_journal"
    "gsh_variables_set gsh_variables_initialize ''HOME'' ''/r'' 1 1 = (None, t)"
proof -
  obtain t where t: "gsh_variables_set gsh_variables_initialize ''HOME'' ''/r'' 1 1 = (None, t)"
    using blank_set[OF home_args] by metis
  have "child_run gsh_variables_initialize t home_journal"
  proof (rule child_run.operation[OF child_run.start])
    show "op_has_string (Op_assign ''HOME'' ''/r'' 1 1)" using home_args by (simp add: op_has_string_def)
    show "run_variable_op gsh_variables_initialize (Op_assign ''HOME'' ''/r'' 1 1) = (None, t)"
      using t by (simp add: run_variable_op_def)
    show "record_variable_op (gsh_variable_journal_initialize 7) (Op_assign ''HOME'' ''/r'' 1 1) =
        (None, home_journal)"
      using home_journal_recorded(1) by (simp add: record_variable_op_def)
  qed
  then show ?thesis using t that by blast
qed

lemma child_journal_replays_witness:
  "\<exists>t u. gsh_variables_set gsh_variables_initialize ''HOME'' ''/r'' 1 1 = (None, t) \<and>
    gsh_variables_apply_journal gsh_variables_initialize home_journal gsh_variables_initialize =
      (None, u, u) \<and> gsh_variables_lookup u ''HOME'' = gsh_variables_lookup t ''HOME''"
proof -
  obtain t where t: "child_run gsh_variables_initialize t home_journal"
      "gsh_variables_set gsh_variables_initialize ''HOME'' ''/r'' 1 1 = (None, t)" by (rule home_run)
  from child_journal_replays[OF t(1) variables_initial(2) home_journal_applies, of gsh_variables_initialize]
  show ?thesis using t(2) by blast
qed

text \<open>C40. Attributes do not replay as faithfully. An assignment recorded over an \<open>unset\<close> keeps only the
  assignment, so the parent, which still has the variable, leaves its attributes in place: a
  variable that was exported stays exported in the parent and is not exported in the child.\<close>

lemma unset_then_assign_replay:
  assumes s: "variable_ok s" "variable_at s name = Some v" "v_exported v" and val: "NUL \<notin> set val"
    and child: "gsh_variables_unset s name = (None, s')" "gsh_variables_set s' name val 0 0 = (None, t)"
    and logged: "gsh_variable_journal_record_unset (gsh_variable_journal_initialize g) name = (None, j')"
      "gsh_variable_journal_record j' name val 0 0 = (None, j)"
    and can: "gsh_variables_can_apply_journal s j = None"
  shows "\<exists>u. gsh_variables_apply_journal_in_place s j = (None, u) \<and>
    variable_at t name = Some \<lparr>v_value = Some val, v_exported = False, v_readonly = False\<rparr> \<and>
    variable_at u name = Some \<lparr>v_value = Some val, v_exported = True, v_readonly = v_readonly v\<rparr>"
proof -
  have s': "variable_ok s'" "variable_at s' name = None"
    using variables_unset_spec[OF s(1) child(1)] by simp_all
  have t: "variable_at t name = Some \<lparr>v_value = Some val, v_exported = False, v_readonly = False\<rparr>"
    using variables_set_spec[OF s'(1) val child(2)] s'(2) by (simp add: updated_variable_def masked_def)
  obtain cs' where cs': "journal_rep j' cs'"
    "record_result [] 0 name [] 0 0 2 cs'"
    using journal_record_spec[OF journal_rep_initialize, of "[]" g 0 name 0 0 2 None j'] logged(1)
    by (auto simp: gsh_variable_journal_record_unset_def)
  then have one: "cs' = [new_change 0 name [] 0 0 2]" by (simp add: record_result_def)
  obtain cs where cs: "journal_rep j cs" "record_result cs' 0 name val 0 0 0 cs"
    using journal_record_spec[OF cs'(1) val, of 0 name 0 0 0 None j] logged(2)
    by (auto simp: gsh_variable_journal_record_def gsh_variable_journal_record_scoped_def)
  then have two: "cs = [recorded_change (new_change 0 name [] 0 0 2) val 0 0 0]"
    by (auto simp: record_result_def one new_change_def)
  from journal_applies[OF cs(1) s(1) can] obtain u where
    u: "gsh_variables_apply_journal_in_place s j = (None, u)"
      "variable_at u name = (case change_of cs name of
        None \<Rightarrow> variable_at s name | Some c \<Rightarrow> change_effect c (variable_at s name))" by blast
  then have "variable_at u name = Some \<lparr>v_value = Some val, v_exported = True, v_readonly = v_readonly v\<rparr>"
    using s(2,3) by (simp add: two change_of_def recorded_change_def new_change_def Let_def
        change_effect_def updated_variable_def masked_def merge_journal_attributes_def)
  with u(1) t show ?thesis by blast
qed

definition reset_journal :: gsh_variable_journal where
  "reset_journal = snd (gsh_variable_journal_record_unset (gsh_variable_journal_initialize 7) ''HOME'')"

definition reassigned_journal :: gsh_variable_journal where
  "reassigned_journal = snd (gsh_variable_journal_record reset_journal ''HOME'' ''/q'' 0 0)"

lemma reset_args: "record_args_ok 0 ''HOME'' [] 0 0 2" "record_args_ok 0 ''HOME'' ''/q'' 0 0 0"
  using home_args by (simp_all add: record_args_ok_def variable_args_ok_def)

lemma reset_journal_recorded:
  "gsh_variable_journal_record_unset (gsh_variable_journal_initialize 7) ''HOME'' = (None, reset_journal)"
  "gsh_variable_journal_record reset_journal ''HOME'' ''/q'' 0 0 = (None, reassigned_journal)"
  "journal_rep reassigned_journal [recorded_change (new_change 0 ''HOME'' [] 0 0 2) ''/q'' 0 0 0]"
proof -
  have "fst (gsh_variable_journal_record_unset (gsh_variable_journal_initialize 7) ''HOME'') = None"
    using reset_args(1) by (simp add: gsh_variable_journal_record_unset_def
        journal_record_eq gsh_variable_journal_initialize_def journal_name_index_def insert_journal_entry_def)
  then show unset: "gsh_variable_journal_record_unset (gsh_variable_journal_initialize 7) ''HOME'' =
      (None, reset_journal)"
    unfolding reset_journal_def by (metis prod.collapse)
  have rep: "journal_rep reset_journal [new_change 0 ''HOME'' [] 0 0 2]"
    using journal_record_spec[OF journal_rep_initialize, of "[]" 7 0 "''HOME''" 0 0 2 None reset_journal] unset
    by (auto simp: gsh_variable_journal_record_unset_def record_result_def)
  have version: "vj_version reset_journal = 3" using rep by (simp only: journal_rep_def)
  have index: "journal_name_index reset_journal 0 ''HOME'' = Some 0"
    using journal_rep_index(1)[OF rep, of 0 "''HOME''" 0] by (simp add: new_change_def)
  have "length (vj_text reset_journal) = 6" "vj_attributes (vj_entries reset_journal ! 0) = 0"
    using journal_rep_fields(3)[OF rep, of 0] reset_args(1)
    by (simp_all add: new_change_def reset_journal_def gsh_variable_journal_record_unset_def journal_record_eq
        gsh_variable_journal_initialize_def journal_name_index_def insert_journal_entry_def
        assignment_bytes_def)
  then have "fst (gsh_variable_journal_record reset_journal ''HOME'' ''/q'' 0 0) = None"
    using reset_args(2) index
    by (simp add: gsh_variable_journal_record_def gsh_variable_journal_record_scoped_def
        journal_record_eq[OF version] update_journal_entry_def Let_def, arith)
  then show run: "gsh_variable_journal_record reset_journal ''HOME'' ''/q'' 0 0 = (None, reassigned_journal)"
    unfolding reassigned_journal_def by (metis prod.collapse)
  have "NUL \<notin> set ''/q''" by simp
  from journal_record_spec[OF rep this, of 0 "''HOME''" 0 0 0 None reassigned_journal] run
  show "journal_rep reassigned_journal [recorded_change (new_change 0 ''HOME'' [] 0 0 2) ''/q'' 0 0 0]"
    by (auto simp: record_result_def new_change_def gsh_variable_journal_record_def
        gsh_variable_journal_record_scoped_def)
qed

lemma reassigned_applies:
  assumes ok: "variable_ok s" and at: "variable_at s = [''HOME'' \<mapsto> v]" and v: "\<not> v_readonly v"
  shows "gsh_variables_can_apply_journal s reassigned_journal = None"
proof -
  note rep = reset_journal_recorded(3)
  have entries: "vj_entries reassigned_journal = [vj_entries reassigned_journal ! 0]"
    using journal_rep_length[OF rep] by (cases "vj_entries reassigned_journal") auto
  note size = variable_ok_size[OF ok]
  have totals: "gsh_variables_count s = 1" "int (length (vs_text s)) = variable_bytes ''HOME'' v"
    using size by (simp_all add: at text_size_def)
  have "can_apply_entries s reassigned_journal 0 True (vj_entries reassigned_journal)
      (int (gsh_variables_count s), int (length (vs_text s))) = None"
    using journal_rep_fields(1)[OF rep, of 0] can_apply_entry_change[OF rep _ ok, of 0 1 "variable_bytes ''HOME'' v"] v
    by (subst entries) (simp add: new_change_def recorded_change_def Let_def change_blocked_def totals_ok_def
        change_count_def change_text_def change_length_def at totals)
  then show ?thesis
    using journal_rep_validate[OF rep]
    by (simp add: gsh_variables_can_apply_journal_def can_apply_journal_scope_def gsh_variables_count_def)
qed

lemma unset_then_assign_replay_witness:
  "\<exists>s s' t u. variable_at s ''HOME'' = Some \<lparr>v_value = Some ''/r'', v_exported = True, v_readonly = False\<rparr> \<and>
    gsh_variables_unset s ''HOME'' = (None, s') \<and> gsh_variables_set s' ''HOME'' ''/q'' 0 0 = (None, t) \<and>
    gsh_variables_apply_journal_in_place s reassigned_journal = (None, u) \<and>
    variable_at t ''HOME'' = Some \<lparr>v_value = Some ''/q'', v_exported = False, v_readonly = False\<rparr> \<and>
    variable_at u ''HOME'' = Some \<lparr>v_value = Some ''/q'', v_exported = True, v_readonly = False\<rparr>"
proof -
  let ?v = "\<lparr>v_value = Some ''/r'', v_exported = True, v_readonly = False\<rparr>"
  obtain s where s: "variable_ok s" "variable_at s = [''HOME'' \<mapsto> ?v]"
    using blank_set[OF home_args] by (auto simp: updated_variable_def masked_def)
  obtain s' where unset: "gsh_variables_unset s ''HOME'' = (None, s')"
    using variables_unset_spec[OF s(1), of "''HOME''"] s(2) reset_args(1)
    by (cases "gsh_variables_unset s ''HOME''")
      (auto simp: unset_error_def variable_readonly_def record_args_ok_def variable_args_ok_def)
  then have s': "variable_ok s'" "variable_at s' = Map.empty"
    using variables_unset_spec[OF s(1) unset] s(2) by auto
  have "gsh_variables_count s' = 0" "length (vs_text s') = 0"
    using variable_ok_size[OF s'(1)] by (simp_all add: s'(2) text_size_def)
  then obtain t where set: "gsh_variables_set s' ''HOME'' ''/q'' 0 0 = (None, t)"
    using variables_set_spec[OF s'(1), of "''/q''" "''HOME''" 0 0] s'(2) reset_args(2)
    by (cases "gsh_variables_set s' ''HOME'' ''/q'' 0 0")
      (auto simp: set_error_def variable_readonly_def variable_has_room_def record_args_ok_def)
  have "\<not> v_readonly ?v" "v_exported ?v" "NUL \<notin> set ''/q''" by simp_all
  then obtain u where "gsh_variables_apply_journal_in_place s reassigned_journal = (None, u)"
    "variable_at t ''HOME'' = Some \<lparr>v_value = Some ''/q'', v_exported = False, v_readonly = False\<rparr>"
    "variable_at u ''HOME'' = Some \<lparr>v_value = Some ''/q'', v_exported = True, v_readonly = False\<rparr>"
    using unset_then_assign_replay[OF s(1) _ _ _ unset set reset_journal_recorded(1,2)
      reassigned_applies[OF s], of ?v] s(2) by auto
  then show ?thesis
    using s(2) unset set
    by (intro exI[of _ s] exI[of _ s'] exI[of _ t] exI[of _ u] conjI) simp_all
qed

end
