(* ===== verification/NativeVariables.thy ===== *)
theory NativeVariables
  imports VariableJournal
begin

text \<open>
  How \<open>src/native_plan.c\<close> reads and assigns variables while it expands words: from the store
  itself (live), from a journal over an unchanged store (overlay), or from a journal scoped by
  the command of a pipeline over the store the pipeline began with (isolated overlay).

  The pointers of \<open>gsh_native_variable_state\<close> are values here, \<open>None\<close> for \<open>NULL\<close>: in overlay mode
  the stores are only read, and in live mode \<open>scope_base\<close> is a store of its own. The diagnostic
  stream is the text sent to it. In overlay mode the journals are always given; the code does not
  test for them. Of the expansion context, the fields the modelled functions read are modelled.
\<close>

section \<open>The state\<close>

abbreviation (input) GSH_NATIVE_ENVIRONMENT_CAP :: nat where "GSH_NATIVE_ENVIRONMENT_CAP \<equiv> 4096"

datatype gsh_native_plan_status =
    GSH_NATIVE_PLAN_OK | GSH_NATIVE_PLAN_UNSUPPORTED | GSH_NATIVE_PLAN_LIMIT
  | GSH_NATIVE_PLAN_ERROR | GSH_NATIVE_PLAN_DEFERRED

datatype gsh_native_variable_mode = GSH_NATIVE_VARIABLE_OVERLAY | GSH_NATIVE_VARIABLE_LIVE

record gsh_native_variable_state =
  nv_mode :: gsh_native_variable_mode
  nv_variables :: "gsh_variable_store option"
  nv_journal :: "gsh_variable_journal option"
  nv_journal_generation :: uint64
  nv_scope_base :: "gsh_variable_store option"
  nv_scope_changes :: "gsh_variable_journal option"
  nv_command_count :: nat
  nv_current_scope :: nat
  nv_attributes :: uint32
  nv_isolated :: bool
  nv_mutated :: bool
  nv_preflight :: bool
  nv_fault_enabled :: bool
  nv_fault_trigger :: uint64
  nv_fault_calls :: "uint64 option"
  nv_fatal_error :: "bool option"
  nv_diagnostic :: "byte list option"
  nv_carriage_return :: bool

record gsh_native_expansion_context =
  cx_environment :: "byte list list option"
  cx_variable_state :: "gsh_native_variable_state option"
  cx_deferred_work :: "bool option"
  cx_nounset :: bool
  cx_preflight :: bool

section \<open>Diagnostics\<close>

definition expansion_diagnostic ::
  "gsh_native_variable_state \<Rightarrow> byte list \<Rightarrow> gsh_native_variable_state" where
  "expansion_diagnostic v message =
    (if nv_preflight v then v else v\<lparr>nv_diagnostic := map_option (\<lambda>s. s @ message) (nv_diagnostic v)\<rparr>)"

definition expansion_diagnostic_newline ::
  "gsh_native_variable_state \<Rightarrow> gsh_native_variable_state" where
  "expansion_diagnostic_newline v =
    expansion_diagnostic v (if nv_carriage_return v then [CHR 0x0D, NL] else [NL])"

text \<open>\<open>*fatal_error = true\<close> where it is given, outside the scopes of a pipeline.\<close>

definition raise_fatal :: "gsh_native_variable_state \<Rightarrow> gsh_native_variable_state" where
  "raise_fatal v =
    (if nv_scope_changes v = None then v\<lparr>nv_fatal_error := map_option (\<lambda>_. True) (nv_fatal_error v)\<rparr>
     else v)"

definition native_parameter_error ::
  "gsh_native_variable_state \<Rightarrow> byte list \<Rightarrow> byte list \<Rightarrow> bool \<Rightarrow>
    gsh_native_plan_status \<times> gsh_native_variable_state" where
  "native_parameter_error v name message default_message =
    (if nv_preflight v then (GSH_NATIVE_PLAN_OK, v)
     else (GSH_NATIVE_PLAN_ERROR, raise_fatal (expansion_diagnostic_newline
       (expansion_diagnostic (expansion_diagnostic (expansion_diagnostic
         (expansion_diagnostic v ''gsh: '') name) '': '')
         (if default_message then ''parameter null or not set'' else message)))))"

text \<open>The state may be missing (\<open>state == NULL\<close>).\<close>

definition native_arithmetic_error ::
  "gsh_native_variable_state option \<Rightarrow> byte list \<Rightarrow>
    gsh_native_plan_status \<times> gsh_native_variable_state option" where
  "native_arithmetic_error state message =
    (case state of
       None \<Rightarrow> (GSH_NATIVE_PLAN_UNSUPPORTED, None)
     | Some v \<Rightarrow>
         if nv_preflight v then (GSH_NATIVE_PLAN_OK, Some v)
         else (GSH_NATIVE_PLAN_ERROR, Some (raise_fatal (expansion_diagnostic_newline
           (expansion_diagnostic (expansion_diagnostic v ''gsh: arithmetic expansion: '') message)))))"

section \<open>Looking up\<close>

definition store_lookup :: "gsh_variable_store option \<Rightarrow> byte list \<Rightarrow> byte list \<times> bool" where
  "store_lookup store name =
    (case Option.bind store (\<lambda>s. gsh_variables_lookup s name) of
       None \<Rightarrow> ([], False) | Some val \<Rightarrow> (val, True))"

definition journal_first ::
  "byte list \<times> gsh_variable_journal_value_state \<Rightarrow> byte list \<times> bool \<Rightarrow> byte list \<times> bool" where
  "journal_first found otherwise =
    (if snd found \<noteq> GSH_VARIABLE_JOURNAL_VALUE_ABSENT
     then (fst found, snd found = GSH_VARIABLE_JOURNAL_VALUE_SET) else otherwise)"

text \<open>The value and \<open>*found\<close>.\<close>

definition native_variable_lookup ::
  "gsh_native_variable_state \<Rightarrow> byte list \<Rightarrow> byte list \<times> bool" where
  "native_variable_lookup v name =
    (if nv_mode v = GSH_NATIVE_VARIABLE_OVERLAY \<and> nv_isolated v
     then journal_first
       (case nv_scope_changes v of None \<Rightarrow> ([], GSH_VARIABLE_JOURNAL_VALUE_ABSENT)
        | Some j \<Rightarrow> gsh_variable_journal_lookup_scoped j (nv_current_scope v) name)
       (store_lookup (nv_scope_base v) name)
     else if nv_mode v = GSH_NATIVE_VARIABLE_OVERLAY \<and> nv_mutated v
     then journal_first
       (case nv_journal v of None \<Rightarrow> ([], GSH_VARIABLE_JOURNAL_VALUE_ABSENT)
        | Some j \<Rightarrow> gsh_variable_journal_lookup j name)
       (store_lookup (nv_variables v) name)
     else store_lookup (nv_variables v) name)"

definition environment_name_matches :: "byte list \<Rightarrow> byte list \<Rightarrow> bool" where
  "environment_name_matches entry name \<longleftrightarrow>
    take (length name) entry = name \<and> length name < length entry \<and> entry ! length name = CHR ''=''"

text \<open>
  The environment is the list of its strings before the closing \<open>NULL\<close>; the counter is the
  number of entries the scan may still read. The result is \<open>None\<close> for \<open>NULL\<close>.
\<close>

fun environment_scan :: "nat \<Rightarrow> byte list list \<Rightarrow> byte list \<Rightarrow> byte list option \<times> bool" where
  "environment_scan 0 entries name = (None, False)"
| "environment_scan (Suc n) [] name = (Some [], False)"
| "environment_scan (Suc n) (entry # entries) name =
    (if environment_name_matches entry name then (Some (drop (length name + 1) entry), True)
     else environment_scan n entries name)"

definition lookup_variable ::
  "gsh_native_expansion_context \<Rightarrow> byte list \<Rightarrow> byte list option \<times> bool" where
  "lookup_variable context name =
    (case cx_variable_state context of
       Some v \<Rightarrow> (case native_variable_lookup v name of (val, found) \<Rightarrow> (Some val, found))
     | None \<Rightarrow>
         (case cx_environment context of
            None \<Rightarrow> (Some [], False)
          | Some entries \<Rightarrow> environment_scan GSH_NATIVE_ENVIRONMENT_CAP entries name))"

definition report_unset_parameter ::
  "gsh_native_expansion_context \<Rightarrow> byte list \<Rightarrow>
    gsh_native_plan_status \<times> gsh_native_expansion_context" where
  "report_unset_parameter context name =
    (if \<not> cx_nounset context then (GSH_NATIVE_PLAN_OK, context)
     else case cx_variable_state context of
       None \<Rightarrow> (GSH_NATIVE_PLAN_ERROR, context)
     | Some v \<Rightarrow>
         (case native_parameter_error v name [] True of
            (status, v) \<Rightarrow> (status, context\<lparr>cx_variable_state := Some v\<rparr>)))"

section \<open>Assigning\<close>

definition native_variable_command_begin ::
  "gsh_native_variable_state \<Rightarrow> nat \<Rightarrow> nat \<Rightarrow> gsh_native_plan_status \<times> gsh_native_variable_state" where
  "native_variable_command_begin v command_index command_count =
    (if nv_mode v = GSH_NATIVE_VARIABLE_OVERLAY then
       (let v = v\<lparr>nv_isolated := 1 < command_count\<rparr>;
            v = (if nv_isolated v \<and> command_index = 0
              then v\<lparr>nv_scope_changes := map_option (\<lambda>_. gsh_variable_journal_initialize 0)
                       (nv_scope_changes v),
                     nv_scope_base := nv_variables v, nv_command_count := command_count\<rparr>
              else v)
        in (GSH_NATIVE_PLAN_OK, v\<lparr>nv_current_scope := command_index + 1\<rparr>))
     else if nv_scope_changes v = None then (GSH_NATIVE_PLAN_OK, v)
     else if nv_scope_base v = None \<or> nv_command_count v \<noteq> command_count \<or>
        command_count \<le> command_index
     then (GSH_NATIVE_PLAN_ERROR, v)
     else (GSH_NATIVE_PLAN_OK,
       v\<lparr>nv_variables := nv_scope_base v, nv_current_scope := command_index + 1\<rparr>))"

definition assignment_status :: "errno option \<Rightarrow> gsh_native_plan_status" where
  "assignment_status result =
    (if result = Some ENOSPC \<or> result = Some E2BIG then GSH_NATIVE_PLAN_LIMIT
     else GSH_NATIVE_PLAN_ERROR)"

text \<open>A call whose journal or store is missing fails without setting \<open>errno\<close>.\<close>

definition overlay_variable_assign ::
  "gsh_native_variable_state \<Rightarrow> byte list \<Rightarrow> byte list \<Rightarrow>
    gsh_native_plan_status \<times> gsh_native_variable_state" where
  "overlay_variable_assign v name val =
    (let (result, v) =
       (if nv_isolated v then
          (case (nv_scope_changes v, nv_scope_base v) of
             (Some j, Some base) \<Rightarrow>
               (case gsh_variable_journal_record_scoped j (nv_current_scope v) name val
                   (nv_attributes v) (nv_attributes v) of
                  (Some err, j) \<Rightarrow> (Some err, v\<lparr>nv_scope_changes := Some j\<rparr>)
                | (None, j) \<Rightarrow>
                    (gsh_variables_can_apply_journal_scope base j (nv_current_scope v),
                     v\<lparr>nv_scope_changes := Some j\<rparr>))
           | _ \<Rightarrow> (Some EINVAL, v))
        else
          (case (nv_journal v, nv_variables v) of
             (Some j, Some store) \<Rightarrow>
               (let j = (if nv_mutated v then j
                   else gsh_variable_journal_initialize (nv_journal_generation v));
                    (result, j) =
                      (case gsh_variable_journal_record j name val (nv_attributes v) (nv_attributes v) of
                         (Some err, j) \<Rightarrow> (Some err, j)
                       | (None, j) \<Rightarrow> (gsh_variables_can_apply_journal store j, j))
                in (result, v\<lparr>nv_journal := Some j, nv_mutated := result = None \<or> nv_mutated v\<rparr>))
           | _ \<Rightarrow> (Some EINVAL, v)))
     in if result = None then (GSH_NATIVE_PLAN_OK, v)
        else (assignment_status result, expansion_diagnostic_newline (expansion_diagnostic v
          (if nv_isolated v then ''gsh: pipeline parameter assignment failed''
           else ''gsh: parameter assignment failed''))))"

definition live_variable_assign ::
  "gsh_native_variable_state \<Rightarrow> byte list \<Rightarrow> byte list \<Rightarrow>
    gsh_native_plan_status \<times> gsh_native_variable_state" where
  "live_variable_assign v name val =
    (let counted = nv_fault_enabled v \<and> nv_fault_calls v \<noteq> None;
         v = (if counted then v\<lparr>nv_fault_calls := map_option (\<lambda>n. n + 1) (nv_fault_calls v)\<rparr> else v);
         (result, v) =
           (if counted \<and> nv_fault_calls v = Some (nv_fault_trigger v) then (Some ENOSPC, v)
            else case nv_variables v of
              None \<Rightarrow> (Some EINVAL, v)
            | Some store \<Rightarrow>
                (case gsh_variables_set store name val (nv_attributes v) (nv_attributes v) of
                   (result, store) \<Rightarrow> (result, v\<lparr>nv_variables := Some store\<rparr>)));
         (result, v) =
           (case (result, nv_scope_changes v, nv_journal v) of
              (None, Some j, _) \<Rightarrow>
                (case gsh_variable_journal_record_scoped j (nv_current_scope v) name val
                    (nv_attributes v) (nv_attributes v) of
                   (result, j) \<Rightarrow> (result, v\<lparr>nv_scope_changes := Some j\<rparr>))
            | (None, None, Some j) \<Rightarrow>
                (case gsh_variable_journal_record j name val (nv_attributes v) (nv_attributes v) of
                   (result, j) \<Rightarrow> (result, v\<lparr>nv_journal := Some j\<rparr>))
            | _ \<Rightarrow> (result, v))
     in if result = None then (GSH_NATIVE_PLAN_OK, v)
        else (assignment_status result, raise_fatal (expansion_diagnostic_newline
          (expansion_diagnostic v ''gsh: parameter assignment failed''))))"

definition native_variable_assign ::
  "gsh_native_variable_state \<Rightarrow> byte list \<Rightarrow> byte list \<Rightarrow>
    gsh_native_plan_status \<times> gsh_native_variable_state" where
  "native_variable_assign v name val =
    (if nv_variables v = None then (GSH_NATIVE_PLAN_UNSUPPORTED, v)
     else if nv_mode v = GSH_NATIVE_VARIABLE_OVERLAY then overlay_variable_assign v name val
     else live_variable_assign v name val)"

section \<open>An assignment is seen by the next lookup\<close>

text \<open>The entry of a scope and name, and what a lookup makes of it.\<close>

definition entry_of :: "change list \<Rightarrow> nat \<times> byte list \<Rightarrow> change option" where
  "entry_of cs = map_of (map (\<lambda>c. (change_key c, c)) cs)"

definition entry_answer ::
  "change option \<Rightarrow> byte list \<times> gsh_variable_journal_value_state" where
  "entry_answer entry =
    (case entry of
       None \<Rightarrow> ([], GSH_VARIABLE_JOURNAL_VALUE_ABSENT)
     | Some c \<Rightarrow>
         if ch_operation c = GSH_VARIABLE_JOURNAL_ATTRIBUTES then ([], GSH_VARIABLE_JOURNAL_VALUE_ABSENT)
         else if ch_operation c = GSH_VARIABLE_JOURNAL_SET
         then (ch_value c, GSH_VARIABLE_JOURNAL_VALUE_SET)
         else ([], GSH_VARIABLE_JOURNAL_VALUE_UNSET))"

lemma entry_of_Some:
  assumes "distinct (map change_key cs)" "i < length cs"
  shows "entry_of cs (change_key (cs ! i)) = Some (cs ! i)"
  using assms by (simp add: entry_of_def map_of_eq_Some_iff o_def)

lemma journal_rep_answer:
  assumes rep: "journal_rep j cs"
  shows "gsh_variable_journal_lookup_scoped j scope name =
    (if UINT16_MAX < scope then ([], GSH_VARIABLE_JOURNAL_VALUE_ABSENT)
     else entry_answer (entry_of cs (scope, name)))"
proof -
  note index = journal_rep_index[OF rep, of scope name]
  have dist: "distinct (map change_key cs)" using rep by (simp only: journal_rep_def)
  show ?thesis
  proof (cases "journal_name_index j scope name")
    case None
    then have "(scope, name) \<notin> set (map change_key cs)" using index(2) by blast
    then have "entry_of cs (scope, name) = None"
      by (simp add: entry_of_def map_of_eq_None_iff image_image)
    with None show ?thesis by (simp add: gsh_variable_journal_lookup_scoped_def entry_answer_def)
  next
    case (Some i)
    then have i: "i < length cs" "change_key (cs ! i) = (scope, name)" using index(1)[of i] by blast+
    have entry: "entry_of cs (scope, name) = Some (cs ! i)" using entry_of_Some[OF dist i(1)] i(2) by simp
    show ?thesis
      using Some entry i(2) journal_rep_value[OF rep i(1)]
      by (simp add: gsh_variable_journal_lookup_scoped_def Let_def entry_answer_def
          journal_rep_fields[OF rep i(1)])
  qed
qed

text \<open>After a recorded assignment the name answers with the value, every other key as before.\<close>

lemma record_set_answer:
  assumes rep: "journal_rep j cs" and nul: "NUL \<notin> set val"
    and run: "gsh_variable_journal_record_scoped j scope name val m at = (r, j')"
  shows "\<exists>cs'. journal_rep j' cs' \<and> (r = None \<longrightarrow>
    entry_answer (entry_of cs' (scope, name)) = (val, GSH_VARIABLE_JOURNAL_VALUE_SET) \<and>
    scope \<le> UINT16_MAX \<and> (\<forall>key. key \<noteq> (scope, name) \<longrightarrow> entry_of cs' key = entry_of cs key))"
proof (cases r)
  case (Some err)
  with journal_record_spec[OF rep nul run[unfolded gsh_variable_journal_record_scoped_def]] rep
  show ?thesis by auto
next
  case None
  have dist: "distinct (map change_key cs)" using rep by (simp only: journal_rep_def)
  from journal_record_spec[OF rep nul run[unfolded gsh_variable_journal_record_scoped_def]] None
  obtain cs' where cs': "journal_rep j' cs'" "record_result cs scope name val m at 0 cs'"
    "scope \<le> 65535" by (auto simp: record_args_ok_def)
  from cs'(2) consider
    (new) "(scope, name) \<notin> set (map change_key cs)" "cs' = cs @ [new_change scope name val m at 0]"
  | (old) i where "i < length cs" "change_key (cs ! i) = (scope, name)"
      "cs' = cs[i := recorded_change (cs ! i) val m at 0]"
    unfolding record_result_def by blast
  then have "\<exists>c. entry_of cs' = (entry_of cs)((scope, name) \<mapsto> c) \<and> ch_operation c = 0 \<and> ch_value c = val"
  proof cases
    case new
    then have "entry_of cs' = (entry_of cs)((scope, name) \<mapsto> new_change scope name val m at 0)"
      using map_of_snoc[of "(scope, name)" "map (\<lambda>c. (change_key c, c)) cs"
          "new_change scope name val m at 0"]
      by (simp add: entry_of_def new_change_def image_image)
    then show ?thesis by (auto simp: new_change_def)
  next
    case old
    let ?c = "recorded_change (cs ! i) val m at 0"
    have "change_key ?c = (scope, name)" using old(2) by (simp add: recorded_change_def Let_def)
    then have "entry_of cs' = (entry_of cs)((scope, name) \<mapsto> ?c)"
      using map_of_replace[of "map (\<lambda>c. (change_key c, c)) cs" i "(scope, name)" ?c] dist old
      by (simp add: entry_of_def map_update o_def)
    then show ?thesis by (auto simp: recorded_change_def Let_def)
  qed
  with cs'(1,3) show ?thesis by (auto simp: entry_answer_def)
qed

definition nv_ok :: "gsh_native_variable_state \<Rightarrow> bool" where
  "nv_ok v \<longleftrightarrow> (\<exists>store. nv_variables v = Some store \<and> variable_ok store) \<and>
    (case nv_mode v of
       GSH_NATIVE_VARIABLE_LIVE \<Rightarrow> pred_option journal_ok (nv_journal v) \<and>
         pred_option journal_ok (nv_scope_changes v)
     | GSH_NATIVE_VARIABLE_OVERLAY \<Rightarrow>
         if nv_isolated v
         then (\<exists>j base. nv_scope_changes v = Some j \<and> journal_ok j \<and> nv_scope_base v = Some base)
         else (\<exists>j. nv_journal v = Some j \<and> (nv_mutated v \<longrightarrow> journal_ok j)))"

lemma record_set_lookup:
  assumes "journal_ok j" "NUL \<notin> set val"
    "gsh_variable_journal_record_scoped j scope name val m at = (r, j')"
  shows "journal_ok j'" "r = None \<Longrightarrow>
      gsh_variable_journal_lookup_scoped j' scope name = (val, GSH_VARIABLE_JOURNAL_VALUE_SET)"
    "r = None \<Longrightarrow> other \<noteq> name \<Longrightarrow>
      gsh_variable_journal_lookup_scoped j' scope other = gsh_variable_journal_lookup_scoped j scope other"
proof -
  obtain cs where cs: "journal_rep j cs" using assms(1) by (auto simp: journal_ok_def)
  from record_set_answer[OF cs assms(2,3)] obtain cs' where cs': "journal_rep j' cs'"
    "r = None \<Longrightarrow> entry_answer (entry_of cs' (scope, name)) = (val, GSH_VARIABLE_JOURNAL_VALUE_SET)"
    "r = None \<Longrightarrow> scope \<le> UINT16_MAX"
    "\<And>key. r = None \<Longrightarrow> key \<noteq> (scope, name) \<Longrightarrow> entry_of cs' key = entry_of cs key" by blast
  show "journal_ok j'" using cs'(1) by (auto simp: journal_ok_def)
  note answer = journal_rep_answer[OF cs] journal_rep_answer[OF cs'(1)]
  show "r = None \<Longrightarrow>
      gsh_variable_journal_lookup_scoped j' scope name = (val, GSH_VARIABLE_JOURNAL_VALUE_SET)"
    using cs'(2,3) by (simp add: answer)
  show "r = None \<Longrightarrow> other \<noteq> name \<Longrightarrow>
      gsh_variable_journal_lookup_scoped j' scope other = gsh_variable_journal_lookup_scoped j scope other"
    using cs'(4)[of "(scope, other)"] by (simp add: answer)
qed

lemma journal_first_simps [simp]:
  "journal_first (val, GSH_VARIABLE_JOURNAL_VALUE_SET) otherwise = (val, True)"
  "journal_first (val, GSH_VARIABLE_JOURNAL_VALUE_ABSENT) otherwise = otherwise"
  by (simp_all add: journal_first_def)

lemma store_lookup_set:
  assumes "variable_ok s" "NUL \<notin> set val" "gsh_variables_set s name val m at = (None, t)"
  shows "store_lookup (Some t) name = (val, True)"
    "other \<noteq> name \<Longrightarrow> store_lookup (Some t) other = store_lookup (Some s) other"
  using variables_set_spec[OF assms] lookup_stored[of s] lookup_stored[of t] assms(1)
  by (auto simp: store_lookup_def updated_variable_def)

lemma overlay_assign_lookup:
  assumes ok: "nv_ok v" and mode: "nv_mode v = GSH_NATIVE_VARIABLE_OVERLAY" and nul: "NUL \<notin> set val"
    and run: "overlay_variable_assign v name val = (GSH_NATIVE_PLAN_OK, v')"
  shows "nv_ok v' \<and> native_variable_lookup v' name = (val, True) \<and>
    (\<forall>other. other \<noteq> name \<longrightarrow> native_variable_lookup v' other = native_variable_lookup v other)"
proof (cases "nv_isolated v")
  case True
  then obtain j base where j: "nv_scope_changes v = Some j" "journal_ok j" "nv_scope_base v = Some base"
    using ok mode by (auto simp: nv_ok_def)
  obtain r j' where logged: "gsh_variable_journal_record_scoped j (nv_current_scope v) name val
      (nv_attributes v) (nv_attributes v) = (r, j')" by fastforce
  have v': "r = None" "v' = v\<lparr>nv_scope_changes := Some j'\<rparr>"
    using run True j logged
    by (auto simp: overlay_variable_assign_def assignment_status_def split: option.splits if_splits)
  from record_set_lookup[OF j(2) nul logged] v' ok mode True j show ?thesis
    by (auto simp: nv_ok_def native_variable_lookup_def)
next
  case False
  then obtain j store where j: "nv_journal v = Some j" "nv_mutated v \<Longrightarrow> journal_ok j"
      "nv_variables v = Some store"
    using ok mode by (auto simp: nv_ok_def)
  let ?j = "if nv_mutated v then j else gsh_variable_journal_initialize (nv_journal_generation v)"
  have start: "journal_ok ?j" using j(2) journal_rep_initialize by (auto simp: journal_ok_def)
  have blank: "gsh_variable_journal_lookup_scoped (gsh_variable_journal_initialize g) 0 other =
      ([], GSH_VARIABLE_JOURNAL_VALUE_ABSENT)" for g other
    by (simp add: journal_rep_answer[OF journal_rep_initialize] entry_of_def entry_answer_def)
  obtain r j' where logged: "gsh_variable_journal_record_scoped ?j 0 name val
      (nv_attributes v) (nv_attributes v) = (r, j')" by fastforce
  have v': "r = None" "v' = v\<lparr>nv_journal := Some j', nv_mutated := True\<rparr>"
    using run False j logged
    by (auto simp: overlay_variable_assign_def Let_def assignment_status_def
        gsh_variable_journal_record_def split: option.splits if_splits prod.splits)
  have "gsh_variable_journal_lookup_scoped ?j 0 other =
      (if nv_mutated v then gsh_variable_journal_lookup j other else ([], GSH_VARIABLE_JOURNAL_VALUE_ABSENT))"
    for other by (simp add: blank gsh_variable_journal_lookup_def)
  with record_set_lookup[OF start nul logged] v' ok mode False j show ?thesis
    by (auto simp: nv_ok_def native_variable_lookup_def gsh_variable_journal_lookup_def)
qed

lemma live_assign_lookup:
  assumes ok: "nv_ok v" and mode: "nv_mode v = GSH_NATIVE_VARIABLE_LIVE" and nul: "NUL \<notin> set val"
    and run: "live_variable_assign v name val = (GSH_NATIVE_PLAN_OK, v')"
  shows "nv_ok v' \<and> native_variable_lookup v' name = (val, True) \<and>
    (\<forall>other. other \<noteq> name \<longrightarrow> native_variable_lookup v' other = native_variable_lookup v other)"
proof -
  obtain store where store: "nv_variables v = Some store" "variable_ok store"
    using ok by (auto simp: nv_ok_def)
  obtain r store' where set: "gsh_variables_set store name val (nv_attributes v) (nv_attributes v) =
      (r, store')" by fastforce
  have shape: "r = None \<and> nv_mode v' = nv_mode v \<and> nv_variables v' = Some store' \<and>
      pred_option journal_ok (nv_journal v') \<and> pred_option journal_ok (nv_scope_changes v')"
  proof -
    have journals: "pred_option journal_ok (nv_journal v)" "pred_option journal_ok (nv_scope_changes v)"
      using ok mode by (simp_all add: nv_ok_def)
    have scoped: "journal_ok j'" if "gsh_variable_journal_record_scoped j s name val m a = (x, j')"
      "journal_ok j" for j j' s m a x by (rule record_set_lookup(1)[OF that(2) nul that(1)])
    show ?thesis
      using run store(1) set journals
      by (auto simp: live_variable_assign_def Let_def assignment_status_def
          gsh_variable_journal_record_def
          split: option.splits if_splits prod.splits dest: scoped)
  qed
  have "variable_ok store'" using variables_set_spec[OF store(2) nul set] by simp
  with shape show ?thesis
    using store_lookup_set[OF store(2) nul set[unfolded conjunct1[OF shape]]] store(1) mode
    by (simp add: nv_ok_def native_variable_lookup_def)
qed

text \<open>C22. A variable an expansion assigns is seen by the lookups after it, in all three modes (the
  live store, the journal over an unchanged store, the journal of a pipeline's command): a
  successful assignment keeps the state well formed, its name then reads as the new value, and
  every other name reads as before.\<close>

theorem native_assign_then_lookup:
  assumes "nv_ok v" "NUL \<notin> set val"
    "native_variable_assign v name val = (GSH_NATIVE_PLAN_OK, v')"
  shows "nv_ok v' \<and> native_variable_lookup v' name = (val, True) \<and>
    (\<forall>other. other \<noteq> name \<longrightarrow> native_variable_lookup v' other = native_variable_lookup v other)"
  using assms overlay_assign_lookup[of v val name v'] live_assign_lookup[of v val name v']
  by (cases "nv_mode v") (simp_all add: native_variable_assign_def split: if_splits)

definition live_state :: "gsh_variable_store \<Rightarrow> gsh_native_variable_state" where
  "live_state store =
    \<lparr>nv_mode = GSH_NATIVE_VARIABLE_LIVE, nv_variables = Some store, nv_journal = None,
     nv_journal_generation = 0, nv_scope_base = None, nv_scope_changes = None, nv_command_count = 0,
     nv_current_scope = 0, nv_attributes = 0, nv_isolated = False, nv_mutated = False,
     nv_preflight = False, nv_fault_enabled = False, nv_fault_trigger = 0, nv_fault_calls = None,
     nv_fatal_error = None, nv_diagnostic = Some [], nv_carriage_return = False\<rparr>"

lemma live_state_ok: "variable_ok store \<Longrightarrow> nv_ok (live_state store)"
  by (simp add: nv_ok_def live_state_def)

lemma native_assign_then_lookup_witness:
  "\<exists>v. native_variable_assign (live_state gsh_variables_initialize) ''HOME'' ''/r'' =
      (GSH_NATIVE_PLAN_OK, v) \<and> native_variable_lookup v ''HOME'' = (''/r'', True)"
proof -
  have args: "variable_args_ok ''HOME'' ''/r'' 0 0" using home_args by (simp add: variable_args_ok_def)
  obtain t where t: "gsh_variables_set gsh_variables_initialize ''HOME'' ''/r'' 0 0 = (None, t)"
    using blank_set[OF args home_args(2)] by metis
  let ?v = "(live_state gsh_variables_initialize)\<lparr>nv_variables := Some t\<rparr>"
  have run: "native_variable_assign (live_state gsh_variables_initialize) ''HOME'' ''/r'' =
      (GSH_NATIVE_PLAN_OK, ?v)"
    using t by (simp add: native_variable_assign_def live_variable_assign_def live_state_def)
  from native_assign_then_lookup[OF live_state_ok[OF variables_initial(2)] home_args(2) run] run
  show ?thesis by blast
qed

end
