(* ===== verification/Arithmetic.thy ===== *)
theory Arithmetic
  imports ArithmeticValues NativeVariables
begin

text \<open>
  Arithmetic expansion, \<open>src/native_plan.c\<close>: the lexical helpers, the assignment targets, and the
  pushdown machine that parses and evaluates an expression in one pass.

  The parser is a record passed along; its input is read between \<open>offset\<close> and \<open>end\<close>. The stack of
  the machine is the list of its frames, top first, so the C's \<open>depth\<close> is its length. A unary
  frame keeps its operator byte in the field \<open>af_unary\<close>, where the C stores it, cast, in the field of
  the binary operators. A function that returns \<open>false\<close> and leaves its result unset returns
  \<open>None\<close>. \<open>require\<close> tests on pointers are left out.
\<close>

section \<open>The parser\<close>

abbreviation (input) GSH_NATIVE_TEXT_CAP :: nat where "GSH_NATIVE_TEXT_CAP \<equiv> 16384"
abbreviation (input) ARITHMETIC_FRAME_CAP :: nat where "ARITHMETIC_FRAME_CAP \<equiv> 512"
abbreviation (input) ARITHMETIC_MACHINE_STEP_CAP :: nat where
  "ARITHMETIC_MACHINE_STEP_CAP \<equiv> 1048576"
abbreviation (input) ARITHMETIC_NESTING_CAP :: nat where "ARITHMETIC_NESTING_CAP \<equiv> 32"

record arithmetic_parser =
  ap_input :: "byte list"
  ap_offset :: nat
  ap_end :: nat
  ap_context :: "gsh_native_expansion_context option"
  ap_nesting :: nat
  ap_error :: gsh_native_plan_status
  ap_diagnostic :: "byte list option"

definition arithmetic_failure :: "arithmetic_parser \<Rightarrow> byte list \<Rightarrow> arithmetic_parser" where
  "arithmetic_failure p message =
    (if ap_diagnostic p = None then p\<lparr>ap_diagnostic := Some message\<rparr> else p)"

text \<open>The scanning loops: on from \<open>cursor\<close> while the bytes before \<open>end\<close> satisfy the test.\<close>

function scan_while :: "(byte \<Rightarrow> bool) \<Rightarrow> arithmetic_parser \<Rightarrow> nat \<Rightarrow> nat" where
  "scan_while test p cursor =
    (if cursor < ap_end p \<and> test (ap_input p ! cursor) then scan_while test p (cursor + 1)
     else cursor)"
  by auto
termination by (relation "measure (\<lambda>(test, p, cursor). ap_end p - cursor)") auto

declare scan_while.simps [simp del]

definition arithmetic_blank :: "byte \<Rightarrow> bool" where
  "arithmetic_blank b \<longleftrightarrow> b = CHR '' '' \<or> b = TAB \<or> b = NL"

definition arithmetic_skip_offset :: "arithmetic_parser \<Rightarrow> nat \<Rightarrow> nat" where
  "arithmetic_skip_offset p cursor = scan_while arithmetic_blank p cursor"

definition arithmetic_skip_space :: "arithmetic_parser \<Rightarrow> arithmetic_parser" where
  "arithmetic_skip_space p = p\<lparr>ap_offset := arithmetic_skip_offset p (ap_offset p)\<rparr>"

definition arithmetic_match ::
  "arithmetic_parser \<Rightarrow> byte list \<Rightarrow> bool \<times> arithmetic_parser" where
  "arithmetic_match p word =
    (let p = arithmetic_skip_space p
     in if ap_end p - ap_offset p < length word \<or>
           take (length word) (drop (ap_offset p) (ap_input p)) \<noteq> word
        then (False, p)
        else (True, p\<lparr>ap_offset := ap_offset p + length word\<rparr>))"

definition arithmetic_match_binary ::
  "arithmetic_parser \<Rightarrow> byte list \<Rightarrow> bool \<times> arithmetic_parser" where
  "arithmetic_match_binary p word =
    (let saved = ap_offset p
     in case arithmetic_match p word of
          (False, p) \<Rightarrow> (False, p)
        | (True, p) \<Rightarrow>
            if ap_offset p < ap_end p \<and> ap_input p ! ap_offset p = CHR ''=''
            then (False, p\<lparr>ap_offset := saved\<rparr>) else (True, p))"

section \<open>Values of variables\<close>

definition arithmetic_environment_value ::
  "arithmetic_parser \<Rightarrow> byte list \<Rightarrow> bool \<Rightarrow> int option \<times> arithmetic_parser" where
  "arithmetic_environment_value p name evaluate =
    (if \<not> evaluate then (Some 0, p)
     else case ap_context p of
       None \<Rightarrow> (None, p)
     | Some context \<Rightarrow>
         (case lookup_variable context name of
            (None, found) \<Rightarrow> (None, p)
          | (Some val, False) \<Rightarrow>
              (case report_unset_parameter context name of
                 (status, context) \<Rightarrow>
                   (let p = p\<lparr>ap_context := Some context\<rparr>
                    in if status \<noteq> GSH_NATIVE_PLAN_OK then (None, p\<lparr>ap_error := status\<rparr>)
                       else (Some 0, p)))
          | (Some val, True) \<Rightarrow>
              if val = [] then (Some 0, p)
              else if GSH_NATIVE_TEXT_CAP \<le> length val \<or> arithmetic_constant val = None
              then (None, arithmetic_failure p ''variable value is not a valid integer'')
              else (arithmetic_constant val, p)))"

section \<open>Assignment targets\<close>

definition arithmetic_assignment_operator_at ::
  "arithmetic_parser \<Rightarrow> nat \<Rightarrow> (arithmetic_assignment_operator \<times> nat) option" where
  "arithmetic_assignment_operator_at p cursor =
    (if \<not> cursor < ap_end p then None
     else
       (let byte = ap_input p ! cursor;
            follows = (\<lambda>k b. cursor + k < ap_end p \<and> ap_input p ! (cursor + k) = b)
        in if (byte = CHR ''<'' \<or> byte = CHR ''>'') \<and> cursor + 2 < ap_end p \<and>
              ap_input p ! (cursor + 1) = byte \<and> ap_input p ! (cursor + 2) = CHR ''=''
           then Some (if byte = CHR ''<'' then ASSIGN_SHIFT_LEFT else ASSIGN_SHIFT_RIGHT, 3)
           else if follows 1 (CHR ''='') then
             (if byte = CHR ''*'' then Some (ASSIGN_MULTIPLY, 2)
              else if byte = CHR ''/'' then Some (ASSIGN_DIVIDE, 2)
              else if byte = CHR ''%'' then Some (ASSIGN_REMAINDER, 2)
              else if byte = CHR ''+'' then Some (ASSIGN_ADD, 2)
              else if byte = CHR ''-'' then Some (ASSIGN_SUBTRACT, 2)
              else if byte = CHR ''&'' then Some (ASSIGN_AND, 2)
              else if byte = CHR ''^'' then Some (ASSIGN_XOR, 2)
              else if byte = CHR ''|'' then Some (ASSIGN_OR, 2)
              else None)
           else if byte \<noteq> CHR ''='' \<or> follows 1 (CHR ''='') then None
           else Some (ASSIGN_SET, 1)))"

lemma scan_while_le: "cursor \<le> scan_while test p cursor"
proof (induction test p cursor rule: scan_while.induct)
  case (1 test p cursor)
  show ?case
  proof (cases "cursor < ap_end p \<and> test (ap_input p ! cursor)")
    case True
    with 1 show ?thesis by (simp add: scan_while.simps[of _ _ cursor])
  qed (simp add: scan_while.simps)
qed

function open_parentheses ::
  "arithmetic_parser \<Rightarrow> nat \<Rightarrow> nat \<Rightarrow> (nat \<times> nat) option" where
  "open_parentheses p cursor parentheses =
    (if cursor < ap_end p \<and> ap_input p ! cursor = CHR ''('' then
       (if ap_nesting p + parentheses = ARITHMETIC_NESTING_CAP then None
        else open_parentheses p (arithmetic_skip_offset p (cursor + 1)) (parentheses + 1))
     else Some (cursor, parentheses))"
  by auto
termination
proof (relation "measure (\<lambda>(p, cursor, parentheses). ap_end p - cursor)")
  fix p :: arithmetic_parser and cursor parentheses :: nat
  assume "cursor < ap_end p \<and> ap_input p ! cursor = CHR ''(''"
  moreover have "cursor + 1 \<le> arithmetic_skip_offset p (cursor + 1)"
    unfolding arithmetic_skip_offset_def by (rule scan_while_le)
  ultimately show "((p, arithmetic_skip_offset p (cursor + 1), parentheses + 1), p, cursor, parentheses)
      \<in> measure (\<lambda>(p, cursor, parentheses). ap_end p - cursor)" by auto
qed simp

declare open_parentheses.simps [simp del]

fun close_parentheses :: "arithmetic_parser \<Rightarrow> nat \<Rightarrow> nat \<Rightarrow> nat option" where
  "close_parentheses p cursor 0 = Some cursor"
| "close_parentheses p cursor (Suc parentheses) =
    (let cursor = arithmetic_skip_offset p cursor
     in if cursor = ap_end p \<or> ap_input p ! cursor \<noteq> CHR '')'' then None
        else close_parentheses p (cursor + 1) parentheses)"

text \<open>\<open>(*name_begin, *name_length, *operator)\<close>, with the offset behind the operator.\<close>

definition arithmetic_assignment_target ::
  "arithmetic_parser \<Rightarrow> (nat \<times> nat \<times> arithmetic_assignment_operator) option \<times> arithmetic_parser" where
  "arithmetic_assignment_target p =
    (case open_parentheses p (arithmetic_skip_offset p (ap_offset p)) 0 of
       None \<Rightarrow> (None, p)
     | Some (name_begin, parentheses) \<Rightarrow>
         if name_begin = ap_end p \<or> \<not> name_start_byte (ap_input p ! name_begin) then (None, p)
         else
           (let name_end = scan_while name_byte p (name_begin + 1)
            in case close_parentheses p name_end parentheses of
                 None \<Rightarrow> (None, p)
               | Some cursor \<Rightarrow>
                   (let cursor = arithmetic_skip_offset p cursor
                    in if cursor = ap_end p then (None, p)
                       else case arithmetic_assignment_operator_at p cursor of
                         None \<Rightarrow> (None, p)
                       | Some (operator, operator_length) \<Rightarrow>
                           (Some (name_begin, name_end - name_begin, operator),
                            p\<lparr>ap_offset := cursor + operator_length\<rparr>))))"

definition arithmetic_commit_assignment ::
  "arithmetic_parser \<Rightarrow> nat \<Rightarrow> nat \<Rightarrow> arithmetic_assignment_operator \<Rightarrow> int \<Rightarrow> int \<Rightarrow>
    int option \<times> arithmetic_parser" where
  "arithmetic_commit_assignment p name_begin name_length operator left right =
    (case arithmetic_apply_assignment operator left right of
       None \<Rightarrow>
         (None, arithmetic_failure p
           (if (operator = ASSIGN_DIVIDE \<or> operator = ASSIGN_REMAINDER) \<and> right = 0
            then ''division by zero''
            else if operator = ASSIGN_SHIFT_LEFT \<or> operator = ASSIGN_SHIFT_RIGHT
            then ''shift count or value is out of range'' else ''integer overflow''))
     | Some result \<Rightarrow>
         (case ap_context p of
            None \<Rightarrow> (None, p)
          | Some context \<Rightarrow>
              (case cx_variable_state context of
                 None \<Rightarrow> (None, p)
               | Some v \<Rightarrow>
                   (let (reserved, digits) = reserve_arithmetic_value [] 26 result;
                        (status, v) = (if reserved
                          then native_variable_assign v
                            (slice (ap_input p) name_begin (name_begin + name_length)) digits
                          else (GSH_NATIVE_PLAN_LIMIT, v));
                        p = p\<lparr>ap_context := Some (context\<lparr>cx_variable_state := Some v\<rparr>)\<rparr>
                    in if status \<noteq> GSH_NATIVE_PLAN_OK then (None, p\<lparr>ap_error := status\<rparr>)
                       else (Some result, p)))))"

section \<open>Atoms\<close>

definition digit_of_base :: "nat \<Rightarrow> byte \<Rightarrow> bool" where
  "digit_of_base base b \<longleftrightarrow> (case arithmetic_digit b of None \<Rightarrow> False | Some digit \<Rightarrow> digit < base)"

definition arithmetic_parse_atom ::
  "arithmetic_parser \<Rightarrow> bool \<Rightarrow> int option \<times> arithmetic_parser" where
  "arithmetic_parse_atom p evaluate =
    (let p = arithmetic_skip_space p; begin_at = ap_offset p; at = (\<lambda>k. ap_input p ! k)
     in if ap_offset p = ap_end p then (None, p)
        else if digit_byte (at begin_at) then
          (let (base, cursor) =
             (if at begin_at = CHR ''0'' then
                (if begin_at + 1 < ap_end p \<and>
                    (at (begin_at + 1) = CHR ''x'' \<or> at (begin_at + 1) = CHR ''X'')
                 then (16, begin_at + 2) else (8, begin_at + 1))
              else (10, begin_at));
               p = p\<lparr>ap_offset := scan_while (digit_of_base base) p cursor\<rparr>
           in case arithmetic_constant (slice (ap_input p) begin_at (ap_offset p)) of
                None \<Rightarrow> (None, arithmetic_failure p ''integer constant is invalid or out of range'')
              | Some result \<Rightarrow> (Some result, p))
        else if at begin_at = CHR ''$'' \<and> begin_at + 1 < ap_end p \<and> at (begin_at + 1) = CHR ''{'' then
          (let name_begin = begin_at + 2; p = p\<lparr>ap_offset := name_begin\<rparr>
           in if name_begin = ap_end p \<or> \<not> name_start_byte (at name_begin) then (None, p)
              else
                (let p = p\<lparr>ap_offset := scan_while name_byte p (name_begin + 1)\<rparr>
                 in if ap_offset p = ap_end p then (None, p)
                    else if at (ap_offset p) \<noteq> CHR ''}'' then (None, p\<lparr>ap_offset := ap_offset p + 1\<rparr>)
                    else
                      (let p = p\<lparr>ap_offset := ap_offset p + 1\<rparr>
                       in arithmetic_environment_value p
                            (slice (ap_input p) name_begin (ap_offset p - 1)) True)))
        else
          (let explicit_parameter = (at begin_at = CHR ''$'');
               name_begin = (if explicit_parameter then begin_at + 1 else begin_at);
               p = p\<lparr>ap_offset := name_begin\<rparr>
           in if ap_end p \<le> name_begin \<or> \<not> name_start_byte (at name_begin) then (None, p)
              else
                (let p = p\<lparr>ap_offset := scan_while name_byte p (name_begin + 1)\<rparr>
                 in arithmetic_environment_value p (slice (ap_input p) name_begin (ap_offset p))
                      (evaluate \<or> explicit_parameter))))"

end
