(* ===== verification/ArithmeticMachine.thy ===== *)
theory ArithmeticMachine
  imports Arithmetic
begin

text \<open>
  The pushdown machine of arithmetic expansion, \<open>src/native_plan.c\<close>: one frame per precedence level
  in progress, stepped until the stack is empty. A step returns its \<open>bool\<close> and the machine; the
  stack is the list of its frames, top first.
\<close>

section \<open>Frames\<close>

datatype arithmetic_frame_kind =
    FRAME_COMMA | FRAME_ASSIGNMENT | FRAME_CONDITIONAL | FRAME_LOGICAL_OR | FRAME_LOGICAL_AND
  | FRAME_BITOR | FRAME_BITXOR | FRAME_BITAND | FRAME_EQUALITY | FRAME_RELATIONAL
  | FRAME_SHIFT | FRAME_ADD | FRAME_MULTIPLY | FRAME_UNARY | FRAME_PRIMARY

record arithmetic_assignment_frame =
  as_name_begin :: nat
  as_name_length :: nat
  as_operator :: arithmetic_assignment_operator
  as_left :: int

record arithmetic_parse_frame =
  af_kind :: arithmetic_frame_kind
  af_phase :: nat
  af_evaluate :: bool
  af_condition :: bool
  af_value :: int
  af_saved :: int
  af_operator :: arithmetic_operator
  af_unary :: byte
  af_assignment :: arithmetic_assignment_frame

record arithmetic_machine =
  am_parser :: arithmetic_parser
  am_frames :: "arithmetic_parse_frame list"
  am_value :: int
  am_returned :: bool

abbreviation (input) set_frame ::
  "arithmetic_machine \<Rightarrow> arithmetic_parse_frame \<Rightarrow> arithmetic_machine" where
  "set_frame m frame \<equiv> m\<lparr>am_frames := frame # tl (am_frames m)\<rparr>"

abbreviation (input) with_parser ::
  "arithmetic_machine \<Rightarrow> arithmetic_parser \<Rightarrow> arithmetic_machine" where
  "with_parser m p \<equiv> m\<lparr>am_parser := p\<rparr>"

definition blank_frame :: "arithmetic_frame_kind \<Rightarrow> bool \<Rightarrow> arithmetic_parse_frame" where
  "blank_frame kind evaluate =
    \<lparr>af_kind = kind, af_phase = 0, af_evaluate = evaluate, af_condition = False, af_value = 0,
     af_saved = 0, af_operator = OPERATOR_NONE, af_unary = NUL,
     af_assignment = \<lparr>as_name_begin = 0, as_name_length = 0, as_operator = ASSIGN_NONE, as_left = 0\<rparr>\<rparr>"

definition parser_limit :: "arithmetic_machine \<Rightarrow> arithmetic_machine" where
  "parser_limit m = m\<lparr>am_parser := (am_parser m)\<lparr>ap_error := GSH_NATIVE_PLAN_LIMIT\<rparr>\<rparr>"

definition arithmetic_machine_push ::
  "arithmetic_machine \<Rightarrow> arithmetic_frame_kind \<Rightarrow> bool \<Rightarrow> bool \<times> arithmetic_machine" where
  "arithmetic_machine_push m kind evaluate =
    (if ARITHMETIC_FRAME_CAP \<le> length (am_frames m) \<or> am_returned m
     then (False, parser_limit m)
     else (True, m\<lparr>am_frames := blank_frame kind evaluate # am_frames m\<rparr>))"

definition arithmetic_machine_complete :: "arithmetic_machine \<Rightarrow> int \<Rightarrow> arithmetic_machine" where
  "arithmetic_machine_complete m v =
    m\<lparr>am_frames := tl (am_frames m), am_value := v, am_returned := True\<rparr>"

definition arithmetic_machine_take :: "arithmetic_machine \<Rightarrow> int option \<times> arithmetic_machine" where
  "arithmetic_machine_take m =
    (if \<not> am_returned m then (None, m) else (Some (am_value m), m\<lparr>am_returned := False\<rparr>))"

section \<open>Binary operators\<close>

definition arithmetic_single_binary ::
  "arithmetic_parser \<Rightarrow> byte \<Rightarrow> byte \<Rightarrow> arithmetic_operator \<Rightarrow>
    arithmetic_operator \<times> arithmetic_parser" where
  "arithmetic_single_binary p first excluded operator =
    (let p = arithmetic_skip_space p; offset = ap_offset p
     in if offset = ap_end p \<or> ap_input p ! offset \<noteq> first \<or>
           offset + 1 < ap_end p \<and>
             (ap_input p ! (offset + 1) = excluded \<or> ap_input p ! (offset + 1) = CHR ''='')
        then (OPERATOR_NONE, p)
        else (operator, p\<lparr>ap_offset := offset + 1\<rparr>))"

definition arithmetic_next_multiply ::
  "arithmetic_parser \<Rightarrow> arithmetic_operator \<times> arithmetic_parser" where
  "arithmetic_next_multiply p =
    (let p = arithmetic_skip_space p; offset = ap_offset p; byte = ap_input p ! offset
     in if offset = ap_end p then (OPERATOR_NONE, p)
        else if (byte \<noteq> CHR ''*'' \<and> byte \<noteq> CHR ''/'' \<and> byte \<noteq> CHR ''%'') \<or>
           offset + 1 < ap_end p \<and> ap_input p ! (offset + 1) = CHR ''=''
        then (OPERATOR_NONE, p)
        else (if byte = CHR ''*'' then OPERATOR_MULTIPLY
              else if byte = CHR ''/'' then OPERATOR_DIVIDE else OPERATOR_REMAINDER,
              p\<lparr>ap_offset := offset + 1\<rparr>))"

definition arithmetic_next_add ::
  "arithmetic_parser \<Rightarrow> arithmetic_operator \<times> arithmetic_parser" where
  "arithmetic_next_add p =
    (let p = arithmetic_skip_space p; offset = ap_offset p; byte = ap_input p ! offset
     in if offset = ap_end p then (OPERATOR_NONE, p)
        else if (byte \<noteq> CHR ''+'' \<and> byte \<noteq> CHR ''-'') \<or>
           offset + 1 < ap_end p \<and> ap_input p ! (offset + 1) = CHR ''=''
        then (OPERATOR_NONE, p)
        else (if byte = CHR ''+'' then OPERATOR_ADD else OPERATOR_SUBTRACT,
              p\<lparr>ap_offset := offset + 1\<rparr>))"

definition arithmetic_next_relational ::
  "arithmetic_parser \<Rightarrow> arithmetic_operator \<times> arithmetic_parser" where
  "arithmetic_next_relational p =
    (case arithmetic_match p ''<='' of
       (True, p) \<Rightarrow> (OPERATOR_LESS_EQUAL, p)
     | (False, p) \<Rightarrow>
         (case arithmetic_match p ''>='' of
            (True, p) \<Rightarrow> (OPERATOR_GREATER_EQUAL, p)
          | (False, p) \<Rightarrow>
              (let p = arithmetic_skip_space p; offset = ap_offset p;
                   single = (\<lambda>b. offset < ap_end p \<and> ap_input p ! offset = b \<and>
                     (offset + 1 = ap_end p \<or> ap_input p ! (offset + 1) \<noteq> b))
               in if single (CHR ''<'') then (OPERATOR_LESS, p\<lparr>ap_offset := offset + 1\<rparr>)
                  else if single (CHR ''>'') then (OPERATOR_GREATER, p\<lparr>ap_offset := offset + 1\<rparr>)
                  else (OPERATOR_NONE, p))))"

text \<open>The two operators of a level, the second tried where the first does not match.\<close>

definition first_operator ::
  "(arithmetic_parser \<Rightarrow> byte list \<Rightarrow> bool \<times> arithmetic_parser) \<Rightarrow> arithmetic_parser \<Rightarrow>
    (byte list \<times> arithmetic_operator) list \<Rightarrow> arithmetic_operator \<times> arithmetic_parser" where
  "first_operator matches p choices =
    foldl (\<lambda>(operator, p) (word, matched).
      if operator \<noteq> OPERATOR_NONE then (operator, p)
      else case matches p word of (hit, p) \<Rightarrow> (if hit then matched else OPERATOR_NONE, p))
      (OPERATOR_NONE, p) choices"

fun arithmetic_next_binary ::
  "arithmetic_parser \<Rightarrow> arithmetic_frame_kind \<Rightarrow> arithmetic_operator \<times> arithmetic_parser" where
  "arithmetic_next_binary p FRAME_MULTIPLY = arithmetic_next_multiply p"
| "arithmetic_next_binary p FRAME_ADD = arithmetic_next_add p"
| "arithmetic_next_binary p FRAME_SHIFT = first_operator arithmetic_match_binary p
     [(''<<'', OPERATOR_SHIFT_LEFT), (''>>'', OPERATOR_SHIFT_RIGHT)]"
| "arithmetic_next_binary p FRAME_RELATIONAL = arithmetic_next_relational p"
| "arithmetic_next_binary p FRAME_EQUALITY = first_operator arithmetic_match p
     [(''=='', OPERATOR_EQUAL), (''!='', OPERATOR_NOT_EQUAL)]"
| "arithmetic_next_binary p FRAME_BITAND =
     arithmetic_single_binary p (CHR ''&'') (CHR ''&'') OPERATOR_BITAND"
| "arithmetic_next_binary p FRAME_BITXOR =
     first_operator arithmetic_match_binary p [(''^'', OPERATOR_BITXOR)]"
| "arithmetic_next_binary p FRAME_BITOR =
     arithmetic_single_binary p (CHR ''|'') (CHR ''|'') OPERATOR_BITOR"
| "arithmetic_next_binary p FRAME_LOGICAL_AND =
     first_operator arithmetic_match p [(''&&'', OPERATOR_LOGICAL_AND)]"
| "arithmetic_next_binary p kind =
     first_operator arithmetic_match p [(''||'', OPERATOR_LOGICAL_OR)]"

fun child_kind :: "arithmetic_frame_kind \<Rightarrow> arithmetic_frame_kind" where
  "child_kind FRAME_LOGICAL_OR = FRAME_LOGICAL_AND"
| "child_kind FRAME_LOGICAL_AND = FRAME_BITOR"
| "child_kind FRAME_BITOR = FRAME_BITXOR"
| "child_kind FRAME_BITXOR = FRAME_BITAND"
| "child_kind FRAME_BITAND = FRAME_EQUALITY"
| "child_kind FRAME_EQUALITY = FRAME_RELATIONAL"
| "child_kind FRAME_RELATIONAL = FRAME_SHIFT"
| "child_kind FRAME_SHIFT = FRAME_ADD"
| "child_kind FRAME_ADD = FRAME_MULTIPLY"
| "child_kind FRAME_MULTIPLY = FRAME_UNARY"
| "child_kind FRAME_COMMA = FRAME_ASSIGNMENT"
| "child_kind FRAME_ASSIGNMENT = FRAME_CONDITIONAL"
| "child_kind FRAME_CONDITIONAL = FRAME_LOGICAL_OR"
| "child_kind kind = FRAME_PRIMARY"

section \<open>Steps\<close>

definition arithmetic_step_binary ::
  "arithmetic_machine \<Rightarrow> arithmetic_parse_frame \<Rightarrow> bool \<times> arithmetic_machine" where
  "arithmetic_step_binary m frame =
    (let child = child_kind (af_kind frame)
     in if af_phase frame = 0
        then arithmetic_machine_push (set_frame m (frame\<lparr>af_phase := 1\<rparr>)) child (af_evaluate frame)
        else
          (case arithmetic_machine_take m of
             (None, m) \<Rightarrow> (False, m)
           | (Some right, m) \<Rightarrow>
               (case (if af_phase frame = 2 \<and> af_evaluate frame
                      then arithmetic_apply_binary (af_operator frame) (af_value frame) right
                      else Inr (if af_phase frame = 1 then right else af_value frame)) of
                  Inl message \<Rightarrow> (False, with_parser m (arithmetic_failure (am_parser m) message))
                | Inr v \<Rightarrow>
                    (case arithmetic_next_binary (am_parser m) (af_kind frame) of
                       (operator, p) \<Rightarrow>
                         (let m = with_parser m p; evaluate = af_evaluate frame
                          in if operator = OPERATOR_NONE
                             then (True, arithmetic_machine_complete m (if evaluate then v else 0))
                             else arithmetic_machine_push
                               (set_frame m (frame\<lparr>af_phase := 2, af_value := v,
                                  af_operator := operator\<rparr>)) child
                               (evaluate \<and> (operator \<noteq> OPERATOR_LOGICAL_AND \<or> v \<noteq> 0) \<and>
                                (operator \<noteq> OPERATOR_LOGICAL_OR \<or> v = 0)))))))"

definition arithmetic_step_primary ::
  "arithmetic_machine \<Rightarrow> arithmetic_parse_frame \<Rightarrow> bool \<times> arithmetic_machine" where
  "arithmetic_step_primary m frame =
    (let (opened, p) = (if af_phase frame = 0 then arithmetic_match (am_parser m) ''(''
                        else (False, am_parser m))
     in if opened then
          (if ap_nesting p = ARITHMETIC_NESTING_CAP then (False, parser_limit (with_parser m p))
           else arithmetic_machine_push
             (set_frame (with_parser m (p\<lparr>ap_nesting := ap_nesting p + 1\<rparr>)) (frame\<lparr>af_phase := 1\<rparr>))
             FRAME_COMMA (af_evaluate frame))
        else if af_phase frame = 1 then
          (case arithmetic_machine_take m of
             (None, m) \<Rightarrow> (False, m)
           | (Some v, m) \<Rightarrow>
               (case arithmetic_match (am_parser m) '')'' of
                  (False, p) \<Rightarrow> (False, with_parser m p)
                | (True, p) \<Rightarrow>
                    (True, arithmetic_machine_complete
                      (with_parser m (p\<lparr>ap_nesting := ap_nesting p - 1\<rparr>)) v)))
        else
          (case arithmetic_parse_atom p (af_evaluate frame) of
             (None, p) \<Rightarrow> (False, with_parser m p)
           | (Some v, p) \<Rightarrow>
               (True, arithmetic_machine_complete (with_parser m p) (if af_evaluate frame then v else 0))))"

fun match_unary :: "arithmetic_parser \<Rightarrow> byte list \<Rightarrow> byte option \<times> arithmetic_parser" where
  "match_unary p [] = (None, p)"
| "match_unary p (operator # operators) =
    (case arithmetic_match p [operator] of
       (True, p) \<Rightarrow> (Some operator, p) | (False, p) \<Rightarrow> match_unary p operators)"

definition unary_value :: "byte \<Rightarrow> int \<Rightarrow> int" where
  "unary_value operator v =
    (if operator = CHR ''-'' then - v
     else if operator = CHR ''!'' then (if v = 0 then 1 else 0)
     else if operator = CHR ''~'' then NOT v else v)"

definition arithmetic_step_unary ::
  "arithmetic_machine \<Rightarrow> arithmetic_parse_frame \<Rightarrow> bool \<times> arithmetic_machine" where
  "arithmetic_step_unary m frame =
    (if af_phase frame = 0 then
       (case match_unary (am_parser m) ''+-!~'' of
          (Some operator, p) \<Rightarrow>
            arithmetic_machine_push
              (set_frame (with_parser m p) (frame\<lparr>af_unary := operator, af_phase := 1\<rparr>))
              FRAME_UNARY (af_evaluate frame)
        | (None, p) \<Rightarrow>
            arithmetic_machine_push (set_frame (with_parser m p) (frame\<lparr>af_phase := 2\<rparr>))
              FRAME_PRIMARY (af_evaluate frame))
     else
       (case arithmetic_machine_take m of
          (None, m) \<Rightarrow> (False, m)
        | (Some v, m) \<Rightarrow>
            (let applied = (af_evaluate frame \<and> af_phase frame = 1); operator = af_unary frame
             in if applied \<and> operator = CHR ''-'' \<and> v = LONG_MIN
                then (False, with_parser m (arithmetic_failure (am_parser m) ''integer overflow''))
                else (True, arithmetic_machine_complete m
                  (if af_evaluate frame then if applied then unary_value operator v else v else 0)))))"

definition arithmetic_step_conditional ::
  "arithmetic_machine \<Rightarrow> arithmetic_parse_frame \<Rightarrow> bool \<times> arithmetic_machine" where
  "arithmetic_step_conditional m frame =
    (let evaluate = af_evaluate frame
     in if af_phase frame = 0
        then arithmetic_machine_push (set_frame m (frame\<lparr>af_phase := 1\<rparr>)) FRAME_LOGICAL_OR evaluate
        else
          (case arithmetic_machine_take m of
             (None, m) \<Rightarrow> (False, m)
           | (Some v, m) \<Rightarrow>
               if af_phase frame = 1 then
                 (case arithmetic_match (am_parser m) ''?'' of
                    (False, p) \<Rightarrow>
                      (True, arithmetic_machine_complete (with_parser m p) (if evaluate then v else 0))
                  | (True, p) \<Rightarrow>
                      if ap_nesting p = ARITHMETIC_NESTING_CAP
                      then (False, parser_limit (with_parser m p))
                      else arithmetic_machine_push
                        (set_frame (with_parser m (p\<lparr>ap_nesting := ap_nesting p + 1\<rparr>))
                          (frame\<lparr>af_condition := evaluate \<and> v \<noteq> 0, af_phase := 2\<rparr>))
                        FRAME_COMMA (evaluate \<and> v \<noteq> 0))
               else if af_phase frame = 2 then
                 (case arithmetic_match (am_parser m) '':'' of
                    (False, p) \<Rightarrow> (False, set_frame (with_parser m p) (frame\<lparr>af_saved := v\<rparr>))
                  | (True, p) \<Rightarrow>
                      arithmetic_machine_push
                        (set_frame (with_parser m p) (frame\<lparr>af_saved := v, af_phase := 3\<rparr>))
                        FRAME_CONDITIONAL (evaluate \<and> \<not> af_condition frame))
               else
                 (let p = am_parser m
                  in (True, arithmetic_machine_complete
                       (with_parser m (p\<lparr>ap_nesting := ap_nesting p - 1\<rparr>))
                       (if evaluate then if af_condition frame then af_saved frame else v else 0)))))"

definition arithmetic_step_assignment ::
  "arithmetic_machine \<Rightarrow> arithmetic_parse_frame \<Rightarrow> bool \<times> arithmetic_machine" where
  "arithmetic_step_assignment m frame =
    (let evaluate = af_evaluate frame
     in if af_phase frame = 0 then
          (case arithmetic_assignment_target (am_parser m) of
             (None, p) \<Rightarrow>
               arithmetic_machine_push
                 (set_frame (with_parser m (p\<lparr>ap_offset := ap_offset (am_parser m)\<rparr>))
                   (frame\<lparr>af_phase := 2\<rparr>))
                 FRAME_CONDITIONAL evaluate
           | (Some (name_begin, name_length, operator), p) \<Rightarrow>
               if ap_nesting p = ARITHMETIC_NESTING_CAP then (False, parser_limit (with_parser m p))
               else
                 (case (if evaluate \<and> operator \<noteq> ASSIGN_SET
                        then arithmetic_environment_value p
                          (slice (ap_input p) name_begin (name_begin + name_length)) True
                        else (Some 0, p)) of
                    (None, p) \<Rightarrow> (False, with_parser m p)
                  | (Some left, p) \<Rightarrow>
                      arithmetic_machine_push
                        (set_frame (with_parser m (p\<lparr>ap_nesting := ap_nesting p + 1\<rparr>))
                          (frame\<lparr>af_phase := 1,
                             af_assignment := \<lparr>as_name_begin = name_begin,
                               as_name_length = name_length, as_operator = operator,
                               as_left = left\<rparr>\<rparr>))
                        FRAME_ASSIGNMENT evaluate))
        else
          (case arithmetic_machine_take m of
             (None, m) \<Rightarrow> (False, m)
           | (Some v, m) \<Rightarrow>
               (let target = af_assignment frame; p = am_parser m;
                    p = (if af_phase frame = 1 then p\<lparr>ap_nesting := ap_nesting p - 1\<rparr> else p)
                in case (if af_phase frame = 1 \<and> evaluate
                         then arithmetic_commit_assignment p (as_name_begin target)
                           (as_name_length target) (as_operator target) (as_left target) v
                         else (Some v, p)) of
                     (None, p) \<Rightarrow> (False, with_parser m p)
                   | (Some v, p) \<Rightarrow>
                       (True, arithmetic_machine_complete (with_parser m p) (if evaluate then v else 0)))))"

definition arithmetic_step_comma ::
  "arithmetic_machine \<Rightarrow> arithmetic_parse_frame \<Rightarrow> bool \<times> arithmetic_machine" where
  "arithmetic_step_comma m frame =
    (if af_phase frame = 0
     then arithmetic_machine_push (set_frame m (frame\<lparr>af_phase := 1\<rparr>)) FRAME_ASSIGNMENT
       (af_evaluate frame)
     else
       (case arithmetic_machine_take m of
          (None, m) \<Rightarrow> (False, m)
        | (Some v, m) \<Rightarrow>
            (case arithmetic_match (am_parser m) '','' of
               (True, p) \<Rightarrow>
                 arithmetic_machine_push (set_frame (with_parser m p) (frame\<lparr>af_value := v\<rparr>))
                   FRAME_ASSIGNMENT (af_evaluate frame)
             | (False, p) \<Rightarrow>
                 (True, arithmetic_machine_complete (with_parser m p)
                   (if af_evaluate frame then v else 0)))))"

definition arithmetic_machine_step :: "arithmetic_machine \<Rightarrow> bool \<times> arithmetic_machine" where
  "arithmetic_machine_step m =
    (case am_frames m of
       [] \<Rightarrow> (False, m)
     | frame # _ \<Rightarrow>
         (case af_kind frame of
            FRAME_COMMA \<Rightarrow> arithmetic_step_comma m frame
          | FRAME_ASSIGNMENT \<Rightarrow> arithmetic_step_assignment m frame
          | FRAME_CONDITIONAL \<Rightarrow> arithmetic_step_conditional m frame
          | FRAME_UNARY \<Rightarrow> arithmetic_step_unary m frame
          | FRAME_PRIMARY \<Rightarrow> arithmetic_step_primary m frame
          | _ \<Rightarrow> arithmetic_step_binary m frame))"

section \<open>Running the machine\<close>

text \<open>The loop: \<open>False\<close> with the machine of the failing step.\<close>

fun arithmetic_machine_run :: "nat \<Rightarrow> arithmetic_machine \<Rightarrow> bool \<times> arithmetic_machine" where
  "arithmetic_machine_run 0 m = (True, m)"
| "arithmetic_machine_run (Suc steps) m =
    (if am_frames m = [] then (True, m)
     else case arithmetic_machine_step m of
       (False, m) \<Rightarrow> (False, m) | (True, m) \<Rightarrow> arithmetic_machine_run steps m)"

definition initial_machine :: "arithmetic_parser \<Rightarrow> arithmetic_machine" where
  "initial_machine p = \<lparr>am_parser = p, am_frames = [], am_value = 0, am_returned = False\<rparr>"

definition arithmetic_parse :: "arithmetic_parser \<Rightarrow> bool \<Rightarrow> int option \<times> arithmetic_parser" where
  "arithmetic_parse p evaluate =
    (case arithmetic_machine_push (initial_machine p) FRAME_COMMA evaluate of
       (False, m) \<Rightarrow> (None, am_parser m)
     | (True, m) \<Rightarrow>
         (case arithmetic_machine_run ARITHMETIC_MACHINE_STEP_CAP m of
            (False, m) \<Rightarrow> (None, am_parser m)
          | (True, m) \<Rightarrow>
              if am_frames m \<noteq> [] \<or> \<not> am_returned m
              then (None, (am_parser m)\<lparr>ap_error := GSH_NATIVE_PLAN_LIMIT\<rparr>)
              else (Some (am_value m), am_parser m)))"

text \<open>The status, and the parser for what the diagnostic changes in the context.\<close>

definition arithmetic_diagnostic ::
  "arithmetic_parser \<Rightarrow> gsh_native_plan_status \<times> arithmetic_parser" where
  "arithmetic_diagnostic p =
    (let message = (case ap_diagnostic p of None \<Rightarrow> ''invalid expression'' | Some text' \<Rightarrow> text')
     in case ap_context p of
          None \<Rightarrow> (GSH_NATIVE_PLAN_UNSUPPORTED, p)
        | Some context \<Rightarrow>
            (case native_arithmetic_error (cx_variable_state context) message of
               (status, v) \<Rightarrow> (status, p\<lparr>ap_context := Some (context\<lparr>cx_variable_state := v\<rparr>)\<rparr>)))"

text \<open>Whether the expression must be expanded first, \<open>*deferred\<close>, and the context.\<close>

definition arithmetic_expression_needs_expansion ::
  "byte list \<Rightarrow> nat \<Rightarrow> nat \<Rightarrow> gsh_native_expansion_context option \<Rightarrow> bool \<Rightarrow>
    bool \<times> bool \<times> gsh_native_expansion_context option" where
  "arithmetic_expression_needs_expansion input begin_at end_at context deferred =
    foldl (\<lambda>(needs, deferred, context) byte.
      (let substitutes = (byte = CHR ''$'' \<or> byte = CHR 0x60);
           needs = (needs \<or> substitutes \<or> byte = CHR 0x5C \<or> byte = CHR 0x27 \<or> byte = CHR 0x22)
       in case context of
            Some c \<Rightarrow>
              if \<not> deferred \<and> substitutes \<and> cx_preflight c \<and> cx_deferred_work c \<noteq> None
              then (needs, True, Some (c\<lparr>cx_deferred_work := Some True\<rparr>))
              else (needs, deferred, context)
          | None \<Rightarrow> (needs, deferred, context)))
      (False, deferred, context) (slice input begin_at end_at)"

definition recover_arithmetic_failure ::
  "arithmetic_parser \<Rightarrow> bool \<Rightarrow> gsh_native_plan_status \<times> int option \<times> arithmetic_parser" where
  "recover_arithmetic_failure p deferred =
    (if deferred \<and> ap_error p = GSH_NATIVE_PLAN_OK then (GSH_NATIVE_PLAN_OK, Some 0, p)
     else
       (let (status, p) = (if ap_error p = GSH_NATIVE_PLAN_OK then arithmetic_diagnostic p
                           else (ap_error p, p))
        in if status = GSH_NATIVE_PLAN_OK \<and>
             (case ap_context p of None \<Rightarrow> False | Some context \<Rightarrow> cx_preflight context)
           then (GSH_NATIVE_PLAN_OK, Some 0, p)
           else (if status = GSH_NATIVE_PLAN_OK then GSH_NATIVE_PLAN_ERROR else status, None, p)))"

definition evaluate_arithmetic_expression ::
  "arithmetic_parser \<Rightarrow> bool \<Rightarrow> gsh_native_plan_status \<times> int option \<times> arithmetic_parser" where
  "evaluate_arithmetic_expression p deferred =
    (case arithmetic_parse p True of
       (None, p) \<Rightarrow> recover_arithmetic_failure p deferred
     | (Some v, p) \<Rightarrow>
         (let p = arithmetic_skip_space p
          in if ap_offset p = ap_end p then (GSH_NATIVE_PLAN_OK, Some v, p)
             else if deferred then (GSH_NATIVE_PLAN_OK, Some 0, p)
             else recover_arithmetic_failure p False))"

end
