(* ===== verification/ArithmeticSafety.thy ===== *)
theory ArithmeticSafety
  imports ArithmeticMachine
begin

text \<open>
  Safety and termination of the arithmetic machine. \<open>moves k p q\<close>: the parser went from \<open>p\<close> to \<open>q\<close>,
  using at least \<open>k\<close> bytes, over the same text. \<open>machine_ok\<close> is the invariant of the machine: a value
  is waiting exactly when the frame on top has asked for one, the nesting counter counts the
  frames that hold a level, and every number kept is a \<open>long\<close>. \<open>potential\<close> counts 32 for each byte
  left and a weight for each frame; a step that succeeds keeps the invariant and lowers it.
\<close>

section \<open>The parser only moves forward\<close>

definition moves :: "nat \<Rightarrow> arithmetic_parser \<Rightarrow> arithmetic_parser \<Rightarrow> bool" where
  "moves k p p' \<longleftrightarrow> ap_input p' = ap_input p \<and> ap_end p' = ap_end p \<and>
    ap_nesting p' = ap_nesting p \<and> ap_offset p + k \<le> ap_offset p' \<and>
    (ap_offset p \<le> ap_end p \<longrightarrow> ap_offset p' \<le> ap_end p)"

lemma moves_refl [simp]: "moves 0 p p"
  by (simp add: moves_def)

lemma moves_trans: "moves k p q \<Longrightarrow> moves l q r \<Longrightarrow> moves (k + l) p r"
  by (auto simp: moves_def)

lemma moves_less: "moves k p q \<Longrightarrow> l \<le> k \<Longrightarrow> moves l p q"
  by (auto simp: moves_def)

lemma moves_context [simp]:
  "moves k p (q\<lparr>ap_context := c\<rparr>) = moves k p q" "moves k p (q\<lparr>ap_error := s\<rparr>) = moves k p q"
  "moves k p (q\<lparr>ap_diagnostic := d\<rparr>) = moves k p q"
  by (simp_all add: moves_def)

lemma moves_failure [simp]: "moves k p (arithmetic_failure q message) = moves k p q"
  by (simp add: arithmetic_failure_def)

lemma scan_while_end: "cursor \<le> ap_end p \<Longrightarrow> scan_while test p cursor \<le> ap_end p"
proof (induction test p cursor rule: scan_while.induct)
  case (1 test p cursor)
  then show ?case by (subst scan_while.simps) simp
qed

lemma scan_while_stop:
  "scan_while test p cursor < ap_end p \<Longrightarrow> \<not> test (ap_input p ! scan_while test p cursor)"
proof (induction test p cursor rule: scan_while.induct)
  case (1 test p cursor)
  show ?case
  proof (cases "cursor < ap_end p \<and> test (ap_input p ! cursor)")
    case True
    with 1 show ?thesis by (simp add: scan_while.simps[of _ _ cursor])
  next
    case False
    with 1 show ?thesis by (auto simp: scan_while.simps[of _ _ cursor])
  qed
qed

lemma moves_skip: "moves 0 p (arithmetic_skip_space p)"
  by (auto simp: moves_def arithmetic_skip_space_def arithmetic_skip_offset_def scan_while_le
      scan_while_end)

lemma moves_bytes:
  assumes "moves 0 p q" "ap_offset q + k \<le> ap_end q"
  shows "moves k p (q\<lparr>ap_offset := ap_offset q + k\<rparr>)"
  using assms by (auto simp: moves_def)

lemma moves_match:
  assumes "arithmetic_match p word = (hit, p')" "0 < length word"
  shows "moves (if hit then 1 else 0) p p'"
proof (cases hit)
  case True
  let ?q = "arithmetic_skip_space p"
  from True assms have "p' = ?q\<lparr>ap_offset := ap_offset ?q + length word\<rparr>"
    "length word \<le> ap_end ?q - ap_offset ?q"
    by (auto simp: arithmetic_match_def Let_def split: if_splits)
  moreover from this(2) assms(2) have "ap_offset ?q + length word \<le> ap_end ?q" by linarith
  ultimately show ?thesis
    using moves_less[OF moves_bytes[OF moves_skip[of p]], of "length word" 1] assms(2) True by simp
next
  case False
  with assms moves_skip[of p] show ?thesis
    by (auto simp: arithmetic_match_def Let_def split: if_splits)
qed

lemma moves_match_binary:
  assumes "arithmetic_match_binary p word = (hit, p')" "0 < length word"
  shows "moves (if hit then 1 else 0) p p'"
proof -
  obtain b q where m: "arithmetic_match p word = (b, q)" by fastforce
  show ?thesis using assms moves_match[OF m assms(2)] m
    by (auto simp: arithmetic_match_binary_def Let_def moves_def split: if_splits bool.splits)
qed

lemma moves_first_operator:
  assumes "first_operator matches p choices = (operator, p')"
    "\<And>p word hit p'. matches p word = (hit, p') \<Longrightarrow> 0 < length word \<Longrightarrow>
      moves (if hit then 1 else 0) p p'"
    "\<forall>(word, matched)\<in>set choices. 0 < length word"
  shows "moves (if operator \<noteq> OPERATOR_NONE then 1 else 0) p p'"
proof -
  let ?f = "\<lambda>(operator, p) (word, matched). if operator \<noteq> OPERATOR_NONE then (operator, p)
    else case matches p word of (hit, p) \<Rightarrow> (if hit then matched else OPERATOR_NONE, p)"
  have "moves (if operator \<noteq> OPERATOR_NONE then 1 else 0) p p'"
    if "foldl ?f (o0, q) cs = (operator, p')" "moves (if o0 \<noteq> OPERATOR_NONE then 1 else 0) p q"
      "\<forall>(word, matched)\<in>set cs. 0 < length word" for cs o0 q
    using that
  proof (induction cs arbitrary: o0 q)
    case (Cons c cs)
    obtain word matched where c: "c = (word, matched)" by fastforce
    obtain hit r where m: "matches q word = (hit, r)" by fastforce
    have step: "moves (if hit then 1 else 0) q r" using assms(2)[OF m] Cons.prems(3) c by simp
    have "moves (if fst (?f (o0, q) c) \<noteq> OPERATOR_NONE then 1 else 0) p (snd (?f (o0, q) c))"
      using Cons.prems(2) moves_trans[OF _ step] c m
      by (cases "o0 = OPERATOR_NONE"; cases hit) (auto intro: moves_less)
    with Cons.IH[of "fst (?f (o0, q) c)" "snd (?f (o0, q) c)"] Cons.prems show ?case
      by (simp del: split_paired_All)
  qed simp
  from this[of OPERATOR_NONE p choices] assms show ?thesis
    by (simp add: first_operator_def)
qed

lemma skip_space_fields [simp]:
  "ap_input (arithmetic_skip_space p) = ap_input p" "ap_end (arithmetic_skip_space p) = ap_end p"
  by (simp_all add: arithmetic_skip_space_def)

lemma moves_byte:
  assumes "q = arithmetic_skip_space p" "ap_offset q \<noteq> ap_end q" "ap_offset p \<le> ap_end p"
  shows "moves 1 p (q\<lparr>ap_offset := Suc (ap_offset q)\<rparr>)"
  using assms moves_skip[of p] by (auto simp: moves_def)

lemma moves_single_binary:
  assumes "arithmetic_single_binary p a b o0 = (operator, p')" "ap_offset p \<le> ap_end p"
  shows "moves (if operator \<noteq> OPERATOR_NONE then 1 else 0) p p'"
proof (cases "operator = OPERATOR_NONE \<and> p' = arithmetic_skip_space p")
  case True
  then show ?thesis by (simp add: moves_skip)
next
  case False
  with assms moves_byte[OF refl _ assms(2)] show ?thesis
    by (auto simp: arithmetic_single_binary_def Let_def moves_less split: if_splits)
qed

lemma moves_next_multiply:
  assumes "arithmetic_next_multiply p = (operator, p')" "ap_offset p \<le> ap_end p"
  shows "moves (if operator \<noteq> OPERATOR_NONE then 1 else 0) p p'"
  using assms moves_byte[OF refl _ assms(2)] moves_skip[of p]
  by (auto simp: arithmetic_next_multiply_def Let_def split: if_splits)

lemma moves_next_add:
  assumes "arithmetic_next_add p = (operator, p')" "ap_offset p \<le> ap_end p"
  shows "moves (if operator \<noteq> OPERATOR_NONE then 1 else 0) p p'"
  using assms moves_byte[OF refl _ assms(2)] moves_skip[of p]
  by (auto simp: arithmetic_next_add_def Let_def split: if_splits)

lemma moves_next_relational:
  assumes "arithmetic_next_relational p = (operator, p')" "ap_offset p \<le> ap_end p"
  shows "moves (if operator \<noteq> OPERATOR_NONE then 1 else 0) p p'"
proof -
  obtain b q where q: "arithmetic_match p ''<='' = (b, q)" by fastforce
  obtain c r where r: "arithmetic_match q ''>='' = (c, r)" by fastforce
  have mq: "moves (if b then 1 else 0) p q" and mr: "moves (if c then 1 else 0) q r"
    using moves_match[OF q] moves_match[OF r] by simp_all
  have pr: "moves (if c then 1 else 0) p r" if "\<not> b"
    using moves_trans[OF mq mr] that by simp
  let ?s = "arithmetic_skip_space r"
  have ps: "moves 0 p ?s" if "\<not> b" "\<not> c"
    using moves_trans[OF pr[OF that(1)] moves_skip[of r]] that by simp
  have "moves 1 p (?s\<lparr>ap_offset := Suc (ap_offset ?s)\<rparr>)" if "\<not> b" "\<not> c" "ap_offset ?s < ap_end p"
    using ps[OF that(1,2)] that(3) by (auto simp: moves_def)
  moreover have "ap_end r = ap_end p" if "\<not> b"
    using pr[OF that] by (simp add: moves_def)
  ultimately show ?thesis using assms(1) q r mq pr ps
    by (auto simp: arithmetic_next_relational_def Let_def split: if_splits)
qed

lemma moves_next_binary:
  assumes "arithmetic_next_binary p kind = (operator, p')" "ap_offset p \<le> ap_end p"
  shows "moves (if operator \<noteq> OPERATOR_NONE then 1 else 0) p p'"
proof -
  define P where "P \<longleftrightarrow> moves (if operator \<noteq> OPERATOR_NONE then 1 else 0) p p'"
  have first: "P" if "first_operator arithmetic_match p choices = (operator, p')"
      "\<forall>(word, matched)\<in>set choices. 0 < length word" for choices
    unfolding P_def by (rule moves_first_operator[OF that(1) moves_match that(2)])
  have binary: "P" if "first_operator arithmetic_match_binary p choices = (operator, p')"
      "\<forall>(word, matched)\<in>set choices. 0 < length word" for choices
    unfolding P_def by (rule moves_first_operator[OF that(1) moves_match_binary that(2)])
  have single: "P" if "arithmetic_single_binary p a b o0 = (operator, p')" for a b o0
    unfolding P_def by (rule moves_single_binary[OF that assms(2)])
  have levels: "arithmetic_next_multiply p = (operator, p') \<Longrightarrow> P"
    "arithmetic_next_add p = (operator, p') \<Longrightarrow> P"
    "arithmetic_next_relational p = (operator, p') \<Longrightarrow> P"
    unfolding P_def
    by (rule moves_next_multiply moves_next_add moves_next_relational; use assms(2) in simp)+
  have P using assms(1)
    by (cases kind; simp only: arithmetic_next_binary.simps)
      (erule levels | erule single | (erule first, simp) | (erule binary, simp))+
  then show ?thesis by (simp only: P_def)
qed

lemma moves_match_unary:
  assumes "match_unary p operators = (found, p')"
  shows "moves (if found \<noteq> None then 1 else 0) p p'"
  using assms
proof (induction operators arbitrary: p)
  case (Cons operator operators)
  obtain hit q where q: "arithmetic_match p [operator] = (hit, q)" by fastforce
  with Cons moves_match[OF q] show ?case
    by (cases hit) (auto intro: moves_trans[where k = 0, simplified])
qed simp

section \<open>Moves of the atoms and the targets\<close>

lemma moves_report_unset [simp]: "moves k p (q\<lparr>ap_context := c, ap_error := s\<rparr>) = moves k p q"
  by (simp add: moves_def)

lemma environment_value_moves:
  assumes "arithmetic_environment_value p name evaluate = (v, p')"
  shows "moves 0 p p'"
  using assms
  by (auto simp: arithmetic_environment_value_def Let_def split: if_splits option.splits prod.splits
      bool.splits)

lemma commit_assignment_moves:
  assumes "arithmetic_commit_assignment p b n operator l r = (v, p')"
  shows "moves 0 p p'"
  using assms
  by (auto simp: arithmetic_commit_assignment_def Let_def split: if_splits option.splits prod.splits)

lemma environment_value_ok:
  assumes "arithmetic_environment_value p name evaluate = (Some v, p')"
  shows "long_ok v"
  using assms
  by (auto simp: arithmetic_environment_value_def Let_def dest: arithmetic_constant_long_ok
      split: if_splits option.splits prod.splits bool.splits)

lemma commit_assignment_ok:
  assumes "arithmetic_commit_assignment p b n operator l r = (Some v, p')" "long_ok l" "long_ok r"
  shows "long_ok v"
  using assms
  by (auto simp: arithmetic_commit_assignment_def Let_def dest: apply_assignment_long_ok
      split: if_splits option.splits prod.splits)

lemma moves_scan:
  assumes "moves k p q" "ap_offset q \<le> c" "c \<le> ap_end p" "ap_offset p + l \<le> ap_offset q"
  shows "moves l p (q\<lparr>ap_offset := scan_while test q c\<rparr>)"
proof -
  have e: "ap_end q = ap_end p" using assms(1) by (simp add: moves_def)
  have "c \<le> scan_while test q c" "scan_while test q c \<le> ap_end p"
    using scan_while_le scan_while_end[of c q test] assms(3) by (simp_all add: e)
  with assms show ?thesis by (simp add: moves_def)
qed

lemma moves_start [intro]:
  assumes "moves 0 p q" "ap_offset q \<le> c" "c \<le> ap_end p"
  shows "moves 0 p (q\<lparr>ap_offset := scan_while test q c\<rparr>)"
  by (rule moves_scan[OF assms]) (use assms(1) in \<open>simp add: moves_def\<close>)

text \<open>An atom leaves the offset within the text, and its value is a \<open>long\<close>.\<close>

lemma parse_atom_ok:
  assumes run: "arithmetic_parse_atom p evaluate = (Some v, p')" and le: "ap_offset p \<le> ap_end p"
  shows "moves 0 p p' \<and> long_ok v"
proof -
  define q where "q = arithmetic_skip_space p"
  have q: "moves 0 p q" using moves_skip by (simp add: q_def)
  let ?at = "\<lambda>k. ap_input q ! k"
  let ?b = "ap_offset q"
  have ends: "ap_end q = ap_end p" "?b \<le> ap_end p" using q le by (simp_all add: moves_def)
  have at_end: "?b \<noteq> ap_end p"
    using run by (auto simp: arithmetic_parse_atom_def Let_def q_def[symmetric] ends split: if_splits)
  show ?thesis
  proof (cases "digit_byte (?at ?b)")
    case True
    obtain base c where bc: "(if ?at ?b = CHR ''0'' then
                (if ?b + 1 < ap_end q \<and> (?at (?b + 1) = CHR ''x'' \<or> ?at (?b + 1) = CHR ''X'')
                 then (16, ?b + 2) else (8, ?b + 1))
              else (10 :: nat, ?b)) = (base, c)" by fastforce
    then have c: "?b \<le> c" "c \<le> ap_end p" using at_end ends by (auto split: if_splits)
    have "p' = q\<lparr>ap_offset := scan_while (digit_of_base base) q c\<rparr>" "\<exists>s. arithmetic_constant s = Some v"
      using run True at_end bc
      by (auto simp: arithmetic_parse_atom_def Let_def q_def[symmetric] ends split: option.splits
          simp del: One_nat_def)
    with moves_start[OF q c] show ?thesis by (auto dest: arithmetic_constant_long_ok)
  next
    case digit: False
    let ?r = "\<lambda>c. q\<lparr>ap_offset := scan_while name_byte q c\<rparr>"
    have scan: "scan_while name_byte (q\<lparr>ap_offset := k\<rparr>) c = scan_while name_byte q c" for k c
    proof (induction name_byte "q\<lparr>ap_offset := k\<rparr>" c rule: scan_while.induct)
      case (1 c)
      then show ?case by (subst (1 2) scan_while.simps) simp
    qed
    have env: "moves 0 p p' \<and> long_ok v"
      if "arithmetic_environment_value r name e = (Some v, p')" "moves 0 p r" for r name e
      using moves_trans[OF that(2) environment_value_moves[OF that(1)]] environment_value_ok[OF that(1)]
      by simp
    show ?thesis
    proof (cases "?at ?b = CHR ''$'' \<and> ?b + 1 < ap_end q \<and> ?at (?b + 1) = CHR ''{''")
      case True
      define r where "r = ?r (?b + 3)"
      have run': "?b + 2 \<noteq> ap_end p" "ap_offset r \<noteq> ap_end p"
        "arithmetic_environment_value (r\<lparr>ap_offset := ap_offset r + 1\<rparr>)
          (slice (ap_input q) (?b + 2) (ap_offset r)) True = (Some v, p')"
        using run True at_end digit
        by (auto simp: arithmetic_parse_atom_def Let_def q_def[symmetric] ends r_def scan eval_nat_numeral
            split: if_splits)
      have r: "moves 0 p r" unfolding r_def
        by (rule moves_start[OF q]) (use True ends run'(1) in auto)
      then have "moves 0 p (r\<lparr>ap_offset := ap_offset r + 1\<rparr>)"
        using run'(2) le by (auto simp: moves_def)
      with env run'(3) show ?thesis by blast
    next
      case False
      define b where "b = (if ?at ?b = CHR ''$'' then ?b + 1 else ?b)"
      have run': "b < ap_end p" "\<exists>name e. arithmetic_environment_value (?r (b + 1)) name e = (Some v, p')"
        using run False at_end digit
        by (auto simp: arithmetic_parse_atom_def Let_def q_def[symmetric] ends scan b_def
            split: if_splits)
      have "moves 0 p (?r (b + 1))"
        by (rule moves_start[OF q]) (use run'(1) in \<open>auto simp: b_def\<close>)
      with env run'(2) show ?thesis by blast
    qed
  qed
qed

lemma open_parentheses_ge:
  "open_parentheses p c n = Some (c', n') \<Longrightarrow> c \<le> c'"
proof (induction p c n rule: open_parentheses.induct)
  case (1 p c n)
  show ?case
  proof (cases "c < ap_end p \<and> ap_input p ! c = CHR ''(''")
    case True
    with 1 have "arithmetic_skip_offset p (c + 1) \<le> c'"
      by (simp add: open_parentheses.simps[of p c] split: if_splits)
    moreover have "c + 1 \<le> arithmetic_skip_offset p (c + 1)"
      unfolding arithmetic_skip_offset_def by (rule scan_while_le)
    ultimately show ?thesis by simp
  next
    case False
    with 1(2) show ?thesis by (auto simp: open_parentheses.simps[of p c])
  qed
qed

lemma close_parentheses_ge: "close_parentheses p c n = Some c' \<Longrightarrow> c \<le> c'"
proof (induction p c n rule: close_parentheses.induct)
  case (2 p c n)
  let ?s = "arithmetic_skip_offset p c"
  have "c \<le> ?s" unfolding arithmetic_skip_offset_def by (rule scan_while_le)
  with 2 show ?case by (fastforce simp: Let_def split: if_splits)
qed simp

lemma close_parentheses_end:
  "close_parentheses p c n = Some c' \<Longrightarrow> c \<le> ap_end p \<Longrightarrow> c' \<le> ap_end p"
proof (induction p c n rule: close_parentheses.induct)
  case (2 p c n)
  let ?s = "arithmetic_skip_offset p c"
  have "?s \<le> ap_end p" using 2(3) unfolding arithmetic_skip_offset_def by (rule scan_while_end)
  with 2 show ?case by (fastforce simp: Let_def split: if_splits)
qed simp

lemma assignment_operator_length:
  assumes "arithmetic_assignment_operator_at p c = Some (operator, n)"
  shows "c < ap_end p \<and> 0 < n \<and> c + n \<le> ap_end p"
  using assms by (auto simp: arithmetic_assignment_operator_at_def Let_def split: if_splits)

lemma assignment_target_none:
  "arithmetic_assignment_target p = (None, p') \<Longrightarrow> p' = p"
  by (auto simp: arithmetic_assignment_target_def Let_def split: if_splits option.splits)

lemma assignment_target_some:
  assumes "arithmetic_assignment_target p = (Some (b, n, operator), p')"
  shows "moves 1 p p'"
proof -
  let ?s = "arithmetic_skip_offset p (ap_offset p)"
  obtain k where k: "open_parentheses p ?s 0 = Some (b, k)"
    using assms by (auto simp: arithmetic_assignment_target_def Let_def split: if_splits option.splits)
  define e where "e = scan_while name_byte p (b + 1)"
  obtain c where c: "close_parentheses p e k = Some c"
    using assms k
    by (auto simp: arithmetic_assignment_target_def Let_def e_def split: if_splits option.splits)
  define d where "d = arithmetic_skip_offset p c"
  obtain l where l: "arithmetic_assignment_operator_at p d = Some (operator, l)"
    "p' = p\<lparr>ap_offset := d + l\<rparr>"
    using assms k c
    by (auto simp: arithmetic_assignment_target_def Let_def e_def d_def
        split: if_splits option.splits)
  have "ap_offset p \<le> ?s" "b + 1 \<le> e" "c \<le> d"
    by (simp_all only: arithmetic_skip_offset_def e_def d_def scan_while_le)
  with open_parentheses_ge[OF k] close_parentheses_ge[OF c] assignment_operator_length[OF l(1)] l(2)
  show ?thesis by (auto simp: moves_def)
qed

section \<open>The invariant and the potential\<close>

text \<open>The frames that hold a nesting level, and the largest phase of a frame.\<close>

fun holds_nesting :: "arithmetic_parse_frame \<Rightarrow> bool" where
  "holds_nesting f =
    (case af_kind f of
       FRAME_PRIMARY \<Rightarrow> af_phase f = 1
     | FRAME_CONDITIONAL \<Rightarrow> 2 \<le> af_phase f
     | FRAME_ASSIGNMENT \<Rightarrow> af_phase f = 1
     | _ \<Rightarrow> False)"

fun phase_cap :: "arithmetic_frame_kind \<Rightarrow> nat" where
  "phase_cap FRAME_COMMA = 1"
| "phase_cap FRAME_PRIMARY = 1"
| "phase_cap FRAME_CONDITIONAL = 3"
| "phase_cap kind = 2"

definition frame_ok :: "arithmetic_parse_frame \<Rightarrow> bool" where
  "frame_ok f \<longleftrightarrow> af_phase f \<le> phase_cap (af_kind f) \<and> long_ok (af_value f) \<and>
    long_ok (af_saved f) \<and> long_ok (as_left (af_assignment f))"

definition nesting_of :: "arithmetic_parse_frame list \<Rightarrow> nat" where
  "nesting_of fs = length (filter holds_nesting fs)"

definition machine_ok :: "arithmetic_machine \<Rightarrow> bool" where
  "machine_ok m \<longleftrightarrow>
    (\<forall>f\<in>set (am_frames m). frame_ok f) \<and> long_ok (am_value m) \<and>
    (\<forall>f\<in>set (tl (am_frames m)). af_phase f \<noteq> 0) \<and>
    (am_returned m \<longleftrightarrow> (am_frames m = [] \<or> af_phase (hd (am_frames m)) \<noteq> 0)) \<and>
    ap_nesting (am_parser m) = nesting_of (am_frames m) \<and>
    nesting_of (am_frames m) \<le> ARITHMETIC_NESTING_CAP \<and>
    length (am_frames m) \<le> ARITHMETIC_FRAME_CAP \<and>
    ap_offset (am_parser m) \<le> ap_end (am_parser m)"

fun kind_weight :: "arithmetic_frame_kind \<Rightarrow> nat" where
  "kind_weight FRAME_COMMA = 29"
| "kind_weight FRAME_ASSIGNMENT = 27"
| "kind_weight FRAME_CONDITIONAL = 25"
| "kind_weight FRAME_LOGICAL_OR = 23"
| "kind_weight FRAME_LOGICAL_AND = 21"
| "kind_weight FRAME_BITOR = 19"
| "kind_weight FRAME_BITXOR = 17"
| "kind_weight FRAME_BITAND = 15"
| "kind_weight FRAME_EQUALITY = 13"
| "kind_weight FRAME_RELATIONAL = 11"
| "kind_weight FRAME_SHIFT = 9"
| "kind_weight FRAME_ADD = 7"
| "kind_weight FRAME_MULTIPLY = 5"
| "kind_weight FRAME_UNARY = 3"
| "kind_weight FRAME_PRIMARY = 1"

definition frame_weight :: "arithmetic_parse_frame \<Rightarrow> nat" where
  "frame_weight f = (if af_phase f = 0 then kind_weight (af_kind f) else 1)"

definition potential :: "arithmetic_machine \<Rightarrow> nat" where
  "potential m = 32 * (ap_end (am_parser m) - ap_offset (am_parser m)) +
    sum_list (map frame_weight (am_frames m))"

text \<open>
  The two ways a step ends: the frame \<open>f\<close> becomes \<open>g\<close> below a new frame (\<open>push_ok\<close>), or it is
  replaced by its value (\<open>complete_ok\<close>). \<open>k\<close> is the input used.
\<close>

lemma frame_ok_blank [simp]: "frame_ok (blank_frame kind evaluate)"
  by (simp add: frame_ok_def blank_frame_def)

lemma blank_fields [simp]:
  "af_phase (blank_frame kind evaluate) = 0" "af_kind (blank_frame kind evaluate) = kind"
  "af_evaluate (blank_frame kind evaluate) = evaluate"
  by (simp_all add: blank_frame_def)

lemma blank_holds [simp]: "\<not> holds_nesting (blank_frame kind evaluate)"
  by (simp split: arithmetic_frame_kind.splits)

lemma push_ok:
  assumes ok: "machine_ok m" and fs: "am_frames m = f # fs"
    and push: "arithmetic_machine_push n kind e = (True, m')"
    and n: "am_frames n = g # fs" "am_value n = am_value m"
    and g: "frame_ok g" "af_phase g \<noteq> 0"
    and p: "moves k (am_parser m) ((am_parser n)\<lparr>ap_nesting := ap_nesting (am_parser m)\<rparr>)"
    and nest: "ap_nesting (am_parser n) = nesting_of (g # fs)"
      "nesting_of (g # fs) \<le> ARITHMETIC_NESTING_CAP"
    and weight: "kind_weight kind + 1 < 32 * k + frame_weight f"
  shows "machine_ok m' \<and> potential m' < potential m"
proof -
  define p where "p = am_parser n"
  have m': "m' = n\<lparr>am_frames := blank_frame kind e # g # fs\<rparr>"
    and r: "\<not> am_returned n" "length fs + 1 < ARITHMETIC_FRAME_CAP"
    using push n by (auto simp: arithmetic_machine_push_def split: if_splits)
  have "nesting_of (blank_frame kind e # g # fs) = nesting_of (g # fs)"
    by (simp add: nesting_of_def del: holds_nesting.simps)
  then have "machine_ok m'"
    using ok fs n g p nest r by (auto simp: machine_ok_def m' moves_def)
  moreover have "potential m' < potential m"
  proof -
    have "ap_end p = ap_end (am_parser m)" "ap_offset (am_parser m) + k \<le> ap_offset p"
      "ap_offset p \<le> ap_end (am_parser m)"
      using p ok by (auto simp: moves_def machine_ok_def p_def)
    then have "32 * (ap_end p - ap_offset p) + 32 * k \<le>
        32 * (ap_end (am_parser m) - ap_offset (am_parser m))" by simp
    with weight g(2) show ?thesis by (simp add: potential_def m' fs frame_weight_def p_def)
  qed
  ultimately show ?thesis ..
qed

lemma complete_ok:
  assumes ok: "machine_ok m" and fs: "am_frames m = f # fs"
    and m': "m' = arithmetic_machine_complete n v" and n: "am_frames n = f # fs"
    and p: "moves 0 (am_parser m) ((am_parser n)\<lparr>ap_nesting := ap_nesting (am_parser m)\<rparr>)"
    and nest: "ap_nesting (am_parser n) = nesting_of fs" and v: "long_ok v"
  shows "machine_ok m' \<and> potential m' < potential m"
proof -
  have le: "nesting_of fs \<le> nesting_of (f # fs)" by (simp add: nesting_of_def del: holds_nesting.simps)
  have "machine_ok m'"
    using ok fs n p nest v le
    by (cases fs) (auto simp: machine_ok_def m' arithmetic_machine_complete_def moves_def)
  moreover have "0 < frame_weight f" by (cases "af_kind f") (simp_all add: frame_weight_def)
  then have "potential m' < potential m"
    using p ok by (auto simp: potential_def m' fs n arithmetic_machine_complete_def moves_def machine_ok_def)
  ultimately show ?thesis ..
qed

lemma moves_nesting [simp]:
  "moves k p (q\<lparr>ap_nesting := ap_nesting p\<rparr>) \<longleftrightarrow>
    ap_input q = ap_input p \<and> ap_end q = ap_end p \<and> ap_offset p + k \<le> ap_offset q \<and>
    (ap_offset p \<le> ap_end p \<longrightarrow> ap_offset q \<le> ap_end p)"
  by (auto simp: moves_def)

lemma machine_okD:
  assumes "machine_ok m" "am_frames m = f # fs"
  shows "frame_ok f" "long_ok (am_value m)" "ap_nesting (am_parser m) = nesting_of (f # fs)"
    "nesting_of (f # fs) \<le> ARITHMETIC_NESTING_CAP" "ap_offset (am_parser m) \<le> ap_end (am_parser m)"
    "am_returned m \<longleftrightarrow> af_phase f \<noteq> 0"
  using assms by (auto simp: machine_ok_def)

lemma take_returned:
  "am_returned m \<Longrightarrow> arithmetic_machine_take m = (Some (am_value m), m\<lparr>am_returned := False\<rparr>)"
  by (simp add: arithmetic_machine_take_def)

lemma long_ok_if [simp]: "long_ok v \<Longrightarrow> long_ok (if b then v else 0)"
  by simp

text \<open>One lemma for each kind of frame.\<close>

definition step_ok :: "arithmetic_machine \<Rightarrow> bool \<times> arithmetic_machine \<Rightarrow> bool" where
  "step_ok m r \<longleftrightarrow> (case r of (True, m') \<Rightarrow> machine_ok m' \<and> potential m' < potential m
    | (False, m') \<Rightarrow> True)"

lemma step_okI: "(\<And>m'. r = (True, m') \<Longrightarrow> machine_ok m' \<and> potential m' < potential m) \<Longrightarrow> step_ok m r"
  by (auto simp: step_ok_def split: bool.splits)

lemma step_ok_fails [simp]: "step_ok m (False, m')"
  by (simp add: step_ok_def)

lemma complete_step_ok:
  assumes "machine_ok m" "am_frames m = f # fs" "am_frames n = f # fs"
    "moves 0 (am_parser m) ((am_parser n)\<lparr>ap_nesting := ap_nesting (am_parser m)\<rparr>)"
    "ap_nesting (am_parser n) = nesting_of fs" "long_ok v"
  shows "step_ok m (True, arithmetic_machine_complete n v)"
  using complete_ok[OF assms(1,2) refl assms(3-6)] by (simp add: step_ok_def)

lemma push_step_ok:
  assumes "machine_ok m" "am_frames m = f # fs" "am_frames n = g # fs" "am_value n = am_value m"
    "frame_ok g" "af_phase g \<noteq> 0"
    "moves k (am_parser m) ((am_parser n)\<lparr>ap_nesting := ap_nesting (am_parser m)\<rparr>)"
    "ap_nesting (am_parser n) = nesting_of (g # fs)"
    "nesting_of (g # fs) \<le> ARITHMETIC_NESTING_CAP"
    "kind_weight kind + 1 < 32 * k + frame_weight f"
  shows "step_ok m (arithmetic_machine_push n kind e)"
  by (rule step_okI, rule push_ok[OF assms(1,2) _ assms(3-10)])

lemma step_comma_ok:
  assumes ok: "machine_ok m" and fs: "am_frames m = f # fs" and kind: "af_kind f = FRAME_COMMA"
  shows "step_ok m (arithmetic_step_comma m f)"
proof (cases "af_phase f = 0")
  case True
  then show ?thesis using machine_okD[OF ok fs]
    by (auto simp: arithmetic_step_comma_def kind frame_ok_def nesting_of_def frame_weight_def fs
        moves_def intro!: push_step_ok[OF ok fs, where k = 0])
next
  case False
  note D = machine_okD[OF ok fs]
  obtain hit p where p: "arithmetic_match (am_parser m) '','' = (hit, p)" by fastforce
  note mv = moves_match[OF p]
  show ?thesis
  proof (cases hit)
    case True
    show ?thesis using D False True p mv
      by (auto simp: arithmetic_step_comma_def take_returned kind frame_ok_def nesting_of_def
          frame_weight_def fs moves_def intro!: push_step_ok[OF ok fs, where k = 1])
  next
    case miss: False
    show ?thesis using D False miss p mv
      by (auto simp: arithmetic_step_comma_def take_returned kind nesting_of_def fs moves_def
          intro!: complete_step_ok[OF ok fs])
  qed
qed

lemma step_unary_ok:
  assumes ok: "machine_ok m" and fs: "am_frames m = f # fs" and kind: "af_kind f = FRAME_UNARY"
  shows "step_ok m (arithmetic_step_unary m f)"
proof (cases "af_phase f = 0")
  case True
  obtain hit p where p: "match_unary (am_parser m) ''+-!~'' = (hit, p)" by fastforce
  show ?thesis
  proof (cases hit)
    case None
    show ?thesis using machine_okD[OF ok fs] True p moves_match_unary[OF p] None
      by (auto simp: arithmetic_step_unary_def kind frame_ok_def nesting_of_def frame_weight_def fs
          moves_def intro!: push_step_ok[OF ok fs, where k = 0] simp del: match_unary.simps)
  next
    case (Some operator)
    show ?thesis using machine_okD[OF ok fs] True p moves_match_unary[OF p] Some
      by (auto simp: arithmetic_step_unary_def kind frame_ok_def nesting_of_def frame_weight_def fs
          moves_def intro!: push_step_ok[OF ok fs, where k = 1] simp del: match_unary.simps)
  qed
next
  case False
  have unary: "long_ok (unary_value operator v)"
    if "long_ok v" "\<not> (operator = CHR ''-'' \<and> v = LONG_MIN)" for operator v
  proof -
    have "long_ok (- v)" if "v \<noteq> LONG_MIN"
      using \<open>long_ok v\<close> that by (simp add: long_ok_def)
    with that long_ok_bitwise(4)[OF that(1)] show ?thesis by (simp add: unary_value_def)
  qed
  note D = machine_okD[OF ok fs]
  let ?applied = "af_evaluate f \<and> af_phase f = 1"
  show ?thesis
  proof (cases "?applied \<and> af_unary f = CHR ''-'' \<and> am_value m = LONG_MIN")
    case True
    then show ?thesis using D(6) False by (simp add: arithmetic_step_unary_def take_returned)
  next
    case fits: False
    let ?v = "if af_evaluate f then if ?applied then unary_value (af_unary f) (am_value m)
      else am_value m else 0"
    have "long_ok ?v" using D(2) unary[OF D(2)] fits by auto
    moreover have "arithmetic_step_unary m f =
        (True, arithmetic_machine_complete (m\<lparr>am_returned := False\<rparr>) ?v)"
      using D(6) False fits by (auto simp: arithmetic_step_unary_def take_returned Let_def)
    ultimately show ?thesis using D
      by (simp add: complete_step_ok[OF ok fs] fs kind nesting_of_def moves_def)
  qed
qed

lemma step_primary_ok:
  assumes ok: "machine_ok m" and fs: "am_frames m = f # fs" and kind: "af_kind f = FRAME_PRIMARY"
  shows "step_ok m (arithmetic_step_primary m f)"
proof (cases "af_phase f = 0")
  case True
  note D = machine_okD[OF ok fs]
  obtain hit p where p: "arithmetic_match (am_parser m) ''('' = (hit, p)" by fastforce
  note mv = moves_match[OF p, simplified]
  show ?thesis
  proof (cases hit)
    case opened: True
    show ?thesis using D True opened p mv
      by (auto simp: arithmetic_step_primary_def kind frame_ok_def nesting_of_def frame_weight_def fs
          moves_def intro!: push_step_ok[OF ok fs, where k = 1])
  next
    case miss: False
    obtain v q where q: "arithmetic_parse_atom p (af_evaluate f) = (v, q)" by fastforce
    show ?thesis
    proof (cases v)
      case None
      then show ?thesis using True miss p q by (simp add: arithmetic_step_primary_def)
    next
      case (Some w)
      have "ap_offset p \<le> ap_end p" using mv miss D(5) by (auto simp: moves_def)
      from parse_atom_ok[OF q[unfolded Some] this] moves_trans[of 0 _ p 0 q] mv miss
      have "moves 0 (am_parser m) q" "long_ok w" by auto
      then show ?thesis using D True miss p q Some
        by (auto simp: arithmetic_step_primary_def kind nesting_of_def fs moves_def
            intro!: complete_step_ok[OF ok fs])
    qed
  qed
next
  case False
  note D = machine_okD[OF ok fs]
  have one: "af_phase f = 1" using D(1) False by (simp add: frame_ok_def kind)
  obtain hit p where p: "arithmetic_match (am_parser m) '')'' = (hit, p)" by fastforce
  show ?thesis using D one p moves_match[OF p]
    by (cases hit) (auto simp: arithmetic_step_primary_def take_returned kind nesting_of_def fs
        moves_def intro!: complete_step_ok[OF ok fs])
qed

lemma step_assignment_ok:
  assumes ok: "machine_ok m" and fs: "am_frames m = f # fs" and kind: "af_kind f = FRAME_ASSIGNMENT"
  shows "step_ok m (arithmetic_step_assignment m f)"
proof (cases "af_phase f = 0")
  case True
  note D = machine_okD[OF ok fs]
  obtain target p where p: "arithmetic_assignment_target (am_parser m) = (target, p)" by fastforce
  show ?thesis
  proof (cases target)
    case None
    show ?thesis using D True None p assignment_target_none[OF p[unfolded None]]
      by (auto simp: arithmetic_step_assignment_def kind frame_ok_def nesting_of_def
          frame_weight_def fs moves_def intro!: push_step_ok[OF ok fs, where k = 0])
  next
    case (Some t)
    obtain b n operator where t: "t = (b, n, operator)" by (cases t)
    note mv = assignment_target_some[OF p[unfolded Some t]]
    obtain left q where q: "(if af_evaluate f \<and> operator \<noteq> ASSIGN_SET
        then arithmetic_environment_value p (slice (ap_input p) b (b + n)) True
        else (Some 0, p)) = (left, q)" by fastforce
    have "moves 0 p q" "\<And>v. left = Some v \<Longrightarrow> long_ok v"
      using q by (auto split: if_splits dest: environment_value_moves environment_value_ok)
    with moves_trans[OF mv this(1)] show ?thesis using D True Some t p q
      by (cases left) (auto simp: arithmetic_step_assignment_def Let_def kind frame_ok_def
          nesting_of_def frame_weight_def fs moves_def intro!: push_step_ok[OF ok fs, where k = 1])
  qed
next
  case False
  note D = machine_okD[OF ok fs]
  show ?thesis
  proof (cases "af_phase f = 1")
    case True
    let ?p = "(am_parser m)\<lparr>ap_nesting := length (filter holds_nesting fs)\<rparr>"
    let ?t = "af_assignment f"
    obtain v q where q: "(if af_evaluate f then arithmetic_commit_assignment ?p (as_name_begin ?t)
        (as_name_length ?t) (as_operator ?t) (as_left ?t) (am_value m)
        else (Some (am_value m), ?p)) = (v, q)" by fastforce
    have "moves 0 ?p q" "\<And>w. v = Some w \<Longrightarrow> long_ok w"
      using q D(1,2) by (auto simp: frame_ok_def split: if_splits dest: commit_assignment_moves
          commit_assignment_ok)
    then show ?thesis using D True q
      by (cases v) (auto simp: arithmetic_step_assignment_def Let_def take_returned kind
          nesting_of_def fs moves_def intro!: complete_step_ok[OF ok fs])
  next
    case two: False
    show ?thesis using D False two
      by (auto simp: arithmetic_step_assignment_def take_returned kind nesting_of_def fs moves_def
          intro!: complete_step_ok[OF ok fs])
  qed
qed

lemma step_conditional_ok:
  assumes ok: "machine_ok m" and fs: "am_frames m = f # fs" and kind: "af_kind f = FRAME_CONDITIONAL"
  shows "step_ok m (arithmetic_step_conditional m f)"
proof -
  note D = machine_okD[OF ok fs]
  note E = arithmetic_step_conditional_def Let_def kind frame_ok_def nesting_of_def frame_weight_def
    fs moves_def
  have "af_phase f \<le> 3" using D(1) by (simp add: frame_ok_def kind)
  then consider "af_phase f = 0" | "af_phase f = 1" | "af_phase f = 2" | "af_phase f = 3" by linarith
  then show ?thesis
  proof cases
    case 1
    then show ?thesis using D by (auto simp: E intro!: push_step_ok[OF ok fs, where k = 0])
  next
    case 2
    obtain hit p where p: "arithmetic_match (am_parser m) ''?'' = (hit, p)" by fastforce
    note mv = moves_match[OF p]
    show ?thesis
    proof (cases hit)
      case True
      then show ?thesis using D 2 p mv
        by (auto simp: E take_returned intro!: push_step_ok[OF ok fs, where k = 1])
    next
      case False
      then show ?thesis using D 2 p mv
        by (auto simp: E take_returned intro!: complete_step_ok[OF ok fs])
    qed
  next
    case 3
    obtain hit p where p: "arithmetic_match (am_parser m) '':'' = (hit, p)" by fastforce
    then show ?thesis using D 3 moves_match[OF p]
      by (cases hit) (auto simp: E take_returned intro!: push_step_ok[OF ok fs, where k = 1])
  next
    case 4
    then show ?thesis using D
      by (auto simp: E take_returned intro!: complete_step_ok[OF ok fs])
  qed
qed

abbreviation (input) binary_kind :: "arithmetic_frame_kind \<Rightarrow> bool" where
  "binary_kind kind \<equiv> kind \<notin> {FRAME_COMMA, FRAME_ASSIGNMENT, FRAME_CONDITIONAL, FRAME_UNARY,
    FRAME_PRIMARY}"

lemma binary_kind_facts:
  assumes "binary_kind (af_kind f)"
  shows "kind_weight (af_kind f) = kind_weight (child_kind (af_kind f)) + 2"
    "phase_cap (af_kind f) = 2" "\<And>g. af_kind g = af_kind f \<Longrightarrow> \<not> holds_nesting g"
    "kind_weight (child_kind (af_kind f)) < 32"
  using assms by (cases "af_kind f"; simp)+

lemma step_binary_ok:
  assumes ok: "machine_ok m" and fs: "am_frames m = f # fs" and kind: "binary_kind (af_kind f)"
  shows "step_ok m (arithmetic_step_binary m f)"
proof -
  note D = machine_okD[OF ok fs]
  note B = binary_kind_facts[OF kind]
  have nesting: "nesting_of (g # fs) = nesting_of fs" if "af_kind g = af_kind f" for g
    using B(3)[OF that] by (simp add: nesting_of_def del: holds_nesting.simps)
  note E = Let_def frame_ok_def nesting frame_weight_def fs moves_def B
  show ?thesis
  proof (cases "af_phase f = 0")
    case True
    then show ?thesis using D
      by (auto simp: arithmetic_step_binary_def E intro!: push_step_ok[OF ok fs, where k = 0])
  next
    case False
    let ?r = "if af_phase f = 2 \<and> af_evaluate f
      then arithmetic_apply_binary (af_operator f) (af_value f) (am_value m)
      else Inr (if af_phase f = 1 then am_value m else af_value f)"
    show ?thesis
    proof (cases ?r)
      case (Inl message)
      then show ?thesis using D False
        by (simp add: arithmetic_step_binary_def take_returned split del: if_split)
    next
      case (Inr v)
      have v: "long_ok v" using Inr D(1,2) apply_binary_exact[of "af_value f" "am_value m" "af_operator f"]
        by (auto simp: frame_ok_def split: if_splits)
      obtain operator p where p: "arithmetic_next_binary (am_parser m) (af_kind f) = (operator, p)"
        by fastforce
      note mv = moves_next_binary[OF p D(5)]
      have step: "arithmetic_step_binary m f =
          (let m = m\<lparr>am_returned := False, am_parser := p\<rparr>; evaluate = af_evaluate f
           in if operator = OPERATOR_NONE
              then (True, arithmetic_machine_complete m (if evaluate then v else 0))
              else arithmetic_machine_push
                (set_frame m (f\<lparr>af_phase := 2, af_value := v, af_operator := operator\<rparr>))
                (child_kind (af_kind f))
                (evaluate \<and> (operator \<noteq> OPERATOR_LOGICAL_AND \<or> v \<noteq> 0) \<and>
                  (operator \<noteq> OPERATOR_LOGICAL_OR \<or> v = 0)))"
        using D(6) False Inr p
        by (simp add: arithmetic_step_binary_def take_returned Let_def split del: if_split)
      show ?thesis
      proof (cases "operator = OPERATOR_NONE")
        case True
        then show ?thesis using D mv v False
          by (auto simp: step E intro!: complete_step_ok[OF ok fs])
      next
        case False
        then show ?thesis using D mv v B(4)
          by (auto simp: step E intro!: push_step_ok[OF ok fs, where k = 1])
      qed
    qed
  qed
qed

lemma machine_step_ok: "machine_ok m \<Longrightarrow> step_ok m (arithmetic_machine_step m)"
proof (cases "am_frames m")
  case Nil
  then show ?thesis by (simp add: arithmetic_machine_step_def)
next
  case (Cons f fs)
  assume ok: "machine_ok m"
  show ?thesis
    using step_comma_ok[OF ok Cons] step_assignment_ok[OF ok Cons] step_conditional_ok[OF ok Cons]
      step_unary_ok[OF ok Cons] step_primary_ok[OF ok Cons] step_binary_ok[OF ok Cons]
    by (cases "af_kind f") (simp_all add: arithmetic_machine_step_def Cons)
qed

section \<open>Running to the end\<close>

lemma frame_weight_pos: "0 < frame_weight f"
  by (cases "af_kind f") (simp_all add: frame_weight_def)

lemma potential_pos: "am_frames m \<noteq> [] \<Longrightarrow> 0 < potential m"
  using frame_weight_pos by (cases "am_frames m") (simp_all add: potential_def add_pos_nonneg)

lemma machine_run_ends:
  assumes "machine_ok m" "potential m \<le> steps" "potential m \<le> steps'"
  shows "arithmetic_machine_run steps' m = arithmetic_machine_run steps m \<and>
    (case arithmetic_machine_run steps m of
       (True, m') \<Rightarrow> machine_ok m' \<and> am_frames m' = [] | (False, m') \<Rightarrow> True)"
  using assms
proof (induction steps arbitrary: m steps')
  case 0
  then have "am_frames m = []" using potential_pos[of m] by auto
  with 0 show ?case by (cases steps') simp_all
next
  case (Suc steps)
  show ?case
  proof (cases "am_frames m = []")
    case True
    with Suc.prems show ?thesis by (cases steps') simp_all
  next
    case False
    then obtain n where n: "steps' = Suc n"
      using Suc.prems(3) potential_pos[of m] by (cases steps') auto
    obtain b m1 where step: "arithmetic_machine_step m = (b, m1)" by fastforce
    have "b \<Longrightarrow> machine_ok m1 \<and> potential m1 < potential m"
      using machine_step_ok[OF Suc.prems(1)] step by (simp add: step_ok_def split: bool.splits)
    with Suc.IH[of m1 n] Suc.prems(2,3) False n step show ?thesis by (cases b) auto
  qed
qed

definition start_machine :: "arithmetic_parser \<Rightarrow> bool \<Rightarrow> arithmetic_machine" where
  "start_machine p evaluate = (initial_machine p)\<lparr>am_frames := [blank_frame FRAME_COMMA evaluate]\<rparr>"

lemma start_machine:
  "arithmetic_machine_push (initial_machine p) FRAME_COMMA evaluate = (True, start_machine p evaluate)"
  by (simp add: arithmetic_machine_push_def initial_machine_def start_machine_def)

text \<open>The parser as the code sets it up, over a text within \<open>GSH_NATIVE_TEXT_CAP\<close>.\<close>

definition parser_ready :: "arithmetic_parser \<Rightarrow> bool" where
  "parser_ready p \<longleftrightarrow> ap_offset p \<le> ap_end p \<and>
    ap_end p - ap_offset p \<le> GSH_NATIVE_TEXT_CAP \<and> ap_nesting p = 0"

lemma start_ok:
  assumes "parser_ready p"
  shows "machine_ok (start_machine p evaluate)"
    "potential (start_machine p evaluate) \<le> ARITHMETIC_MACHINE_STEP_CAP"
    "potential (start_machine p evaluate) = 32 * (ap_end p - ap_offset p) + 29"
  using assms
  by (auto simp: parser_ready_def machine_ok_def start_machine_def initial_machine_def
      nesting_of_def potential_def frame_weight_def simp del: holds_nesting.simps)

lemma parse_run:
  assumes "parser_ready p" "32 * (ap_end p - ap_offset p) + 29 \<le> steps"
  shows "arithmetic_parse p evaluate =
    (case arithmetic_machine_run steps (start_machine p evaluate) of
       (False, m) \<Rightarrow> (None, am_parser m) | (True, m) \<Rightarrow> (Some (am_value m), am_parser m))"
    "arithmetic_machine_run steps (start_machine p evaluate) = (True, m) \<Longrightarrow>
      machine_ok m \<and> am_frames m = []"
proof -
  note run = machine_run_ends[OF start_ok(1)[OF assms(1), of evaluate]
      start_ok(2)[OF assms(1), of evaluate], of steps]
  have steps: "potential (start_machine p evaluate) \<le> steps"
    using assms(2) start_ok(3)[OF assms(1)] by simp
  show "arithmetic_machine_run steps (start_machine p evaluate) = (True, m) \<Longrightarrow>
      machine_ok m \<and> am_frames m = []"
    using run[OF steps] by simp
  show "arithmetic_parse p evaluate =
    (case arithmetic_machine_run steps (start_machine p evaluate) of
       (False, m) \<Rightarrow> (None, am_parser m) | (True, m) \<Rightarrow> (Some (am_value m), am_parser m))"
    using run[OF steps]
    by (auto simp: arithmetic_parse_def start_machine machine_ok_def split: prod.splits bool.splits)
qed

text \<open>C26. The arithmetic machine always ends, well before its ceiling of 1048576 steps: on a text of
  \<open>n\<close> bytes within the text cap, 32 n + 29 steps empty the stack with a value returned or meet the
  step that fails, and the run under the ceiling has that same outcome. So the \<open>LIMIT\<close> after the
  loop is never reported.\<close>

theorem arithmetic_machine_terminates:
  assumes "parser_ready p"
  shows "\<exists>b m. arithmetic_machine_run (32 * (ap_end p - ap_offset p) + 29) (start_machine p evaluate) = (b, m) \<and>
    arithmetic_machine_run ARITHMETIC_MACHINE_STEP_CAP (start_machine p evaluate) = (b, m) \<and>
    (b \<longrightarrow> am_frames m = [] \<and> am_returned m) \<and>
    arithmetic_parse p evaluate = (if b then Some (am_value m) else None, am_parser m)"
proof -
  let ?n = "32 * (ap_end p - ap_offset p) + 29"
  obtain b m where bm: "arithmetic_machine_run ?n (start_machine p evaluate) = (b, m)" by fastforce
  have "arithmetic_machine_run ARITHMETIC_MACHINE_STEP_CAP (start_machine p evaluate) = (b, m)"
    using conjunct1[OF machine_run_ends[of "start_machine p evaluate" ?n ARITHMETIC_MACHINE_STEP_CAP]]
      start_ok[OF assms, of evaluate] bm by simp
  moreover have "am_frames m = [] \<and> am_returned m" if b
    using parse_run(2)[OF assms order_refl, of evaluate m] bm that by (simp add: machine_ok_def)
  moreover have "arithmetic_parse p evaluate = (if b then Some (am_value m) else None, am_parser m)"
    unfolding parse_run(1)[OF assms order_refl] bm by (cases b) simp_all
  ultimately show ?thesis using bm by blast
qed

text \<open>A parser over a whole text, as \<open>resume_arithmetic\<close> makes it.\<close>

definition text_parser ::
  "byte list \<Rightarrow> gsh_native_expansion_context option \<Rightarrow> arithmetic_parser" where
  "text_parser s context =
    \<lparr>ap_input = s, ap_offset = 0, ap_end = length s, ap_context = context, ap_nesting = 0,
     ap_error = GSH_NATIVE_PLAN_OK, ap_diagnostic = None\<rparr>"

lemma text_parser_ready: "length s \<le> GSH_NATIVE_TEXT_CAP \<Longrightarrow> parser_ready (text_parser s c)"
  by (simp add: parser_ready_def text_parser_def)

lemma arithmetic_machine_terminates_witness:
  "\<exists>b m. arithmetic_machine_run 189 (start_machine (text_parser ''2 * 3'' None) True) = (b, m) \<and>
    arithmetic_machine_run ARITHMETIC_MACHINE_STEP_CAP (start_machine (text_parser ''2 * 3'' None) True) = (b, m) \<and>
    (b \<longrightarrow> am_frames m = [] \<and> am_returned m) \<and>
    arithmetic_parse (text_parser ''2 * 3'' None) True = (if b then Some (am_value m) else None, am_parser m)"
proof -
  have "parser_ready (text_parser ''2 * 3'' None)" by (rule text_parser_ready) simp
  moreover have "32 * (ap_end (text_parser ''2 * 3'' None) - ap_offset (text_parser ''2 * 3'' None)) + 29 = 189"
    by (simp add: text_parser_def)
  ultimately show ?thesis using arithmetic_machine_terminates[of "text_parser ''2 * 3'' None" True]
    by (simp only:)
qed

end
