(* ===== verification/ArithmeticSyntax.thy ===== *)
theory ArithmeticSyntax
  imports ArithmeticSafety
begin

text \<open>
  What the arithmetic machine is meant to compute: expressions as trees, their values in the
  variables of a context, and their text with the parentheses that precedence asks for.
  \<open>evaluate_printed\<close> in \<open>ArithmeticCorrect\<close> says that the machine gives the printed text of a tree
  the value of the tree.
\<close>

section \<open>Levels\<close>

text \<open>The frame kinds as precedence levels, from the comma (0) to primaries (14).\<close>

fun level_kind :: "nat \<Rightarrow> arithmetic_frame_kind" where
  "level_kind 0 = FRAME_COMMA"
| "level_kind (Suc n) = child_kind (level_kind n)"

fun operator_level :: "arithmetic_operator \<Rightarrow> nat" where
  "operator_level OPERATOR_LOGICAL_OR = 3"
| "operator_level OPERATOR_LOGICAL_AND = 4"
| "operator_level OPERATOR_BITOR = 5"
| "operator_level OPERATOR_BITXOR = 6"
| "operator_level OPERATOR_BITAND = 7"
| "operator_level OPERATOR_EQUAL = 8"
| "operator_level OPERATOR_NOT_EQUAL = 8"
| "operator_level OPERATOR_LESS = 9"
| "operator_level OPERATOR_LESS_EQUAL = 9"
| "operator_level OPERATOR_GREATER = 9"
| "operator_level OPERATOR_GREATER_EQUAL = 9"
| "operator_level OPERATOR_SHIFT_LEFT = 10"
| "operator_level OPERATOR_SHIFT_RIGHT = 10"
| "operator_level OPERATOR_ADD = 11"
| "operator_level OPERATOR_SUBTRACT = 11"
| "operator_level OPERATOR_MULTIPLY = 12"
| "operator_level OPERATOR_DIVIDE = 12"
| "operator_level OPERATOR_REMAINDER = 12"
| "operator_level OPERATOR_NONE = 0"

fun operator_text :: "arithmetic_operator \<Rightarrow> byte list" where
  "operator_text OPERATOR_LOGICAL_OR = ''||''"
| "operator_text OPERATOR_LOGICAL_AND = ''&&''"
| "operator_text OPERATOR_BITOR = ''|''"
| "operator_text OPERATOR_BITXOR = ''^''"
| "operator_text OPERATOR_BITAND = ''&''"
| "operator_text OPERATOR_EQUAL = ''==''"
| "operator_text OPERATOR_NOT_EQUAL = ''!=''"
| "operator_text OPERATOR_LESS = ''<''"
| "operator_text OPERATOR_LESS_EQUAL = ''<=''"
| "operator_text OPERATOR_GREATER = ''>''"
| "operator_text OPERATOR_GREATER_EQUAL = ''>=''"
| "operator_text OPERATOR_SHIFT_LEFT = ''<<''"
| "operator_text OPERATOR_SHIFT_RIGHT = ''>>''"
| "operator_text OPERATOR_ADD = ''+''"
| "operator_text OPERATOR_SUBTRACT = ''-''"
| "operator_text OPERATOR_MULTIPLY = ''*''"
| "operator_text OPERATOR_DIVIDE = ''/''"
| "operator_text OPERATOR_REMAINDER = ''%''"
| "operator_text OPERATOR_NONE = []"

fun assignment_text :: "arithmetic_assignment_operator \<Rightarrow> byte list" where
  "assignment_text ASSIGN_SET = ''=''"
| "assignment_text ASSIGN_MULTIPLY = ''*=''"
| "assignment_text ASSIGN_DIVIDE = ''/=''"
| "assignment_text ASSIGN_REMAINDER = ''%=''"
| "assignment_text ASSIGN_ADD = ''+=''"
| "assignment_text ASSIGN_SUBTRACT = ''-=''"
| "assignment_text ASSIGN_SHIFT_LEFT = ''<<=''"
| "assignment_text ASSIGN_SHIFT_RIGHT = ''>>=''"
| "assignment_text ASSIGN_AND = ''&=''"
| "assignment_text ASSIGN_XOR = ''^=''"
| "assignment_text ASSIGN_OR = ''|=''"
| "assignment_text ASSIGN_NONE = []"

section \<open>Expressions\<close>

datatype expression =
    Literal nat
  | Variable "byte list"
  | Unary byte expression
  | Binary arithmetic_operator expression expression
  | Conditional expression expression expression
  | Assign arithmetic_assignment_operator "byte list" expression
  | Comma expression expression

primrec expression_level :: "expression \<Rightarrow> nat" where
  "expression_level (Literal n) = 14"
| "expression_level (Variable name) = 14"
| "expression_level (Unary operator e) = 13"
| "expression_level (Binary operator l r) = operator_level operator"
| "expression_level (Conditional c a b) = 2"
| "expression_level (Assign operator name e) = 1"
| "expression_level (Comma l r) = 0"

definition variable_name :: "byte list \<Rightarrow> bool" where
  "variable_name name \<longleftrightarrow>
    name \<noteq> [] \<and> name_start_byte (hd name) \<and> list_all name_byte name"

primrec expression_ok :: "expression \<Rightarrow> bool" where
  "expression_ok (Literal n) \<longleftrightarrow> int n \<le> LONG_MAX"
| "expression_ok (Variable name) \<longleftrightarrow> variable_name name"
| "expression_ok (Unary operator e) \<longleftrightarrow> operator \<in> set ''+-!~'' \<and> expression_ok e"
| "expression_ok (Binary operator l r) \<longleftrightarrow>
     operator \<noteq> OPERATOR_NONE \<and> expression_ok l \<and> expression_ok r"
| "expression_ok (Conditional c a b) \<longleftrightarrow> expression_ok c \<and> expression_ok a \<and> expression_ok b"
| "expression_ok (Assign operator name e) \<longleftrightarrow>
     operator \<noteq> ASSIGN_NONE \<and> variable_name name \<and> expression_ok e"
| "expression_ok (Comma l r) \<longleftrightarrow> expression_ok l \<and> expression_ok r"

section \<open>Text\<close>

definition wrapped :: "nat \<Rightarrow> nat \<Rightarrow> byte list \<Rightarrow> byte list" where
  "wrapped least l s = (if l < least then ''('' @ s @ '')'' else s)"

primrec expression_text :: "expression \<Rightarrow> byte list" where
  "expression_text (Literal n) = rev (reversed_digits n)"
| "expression_text (Variable name) = name"
| "expression_text (Unary operator e) =
     operator # wrapped 13 (expression_level e) (expression_text e)"
| "expression_text (Binary operator l r) =
     wrapped (operator_level operator) (expression_level l) (expression_text l) @ '' '' @
     operator_text operator @ '' '' @
     wrapped (operator_level operator + 1) (expression_level r) (expression_text r)"
| "expression_text (Conditional c a b) =
     wrapped 3 (expression_level c) (expression_text c) @ '' ? '' @ expression_text a @ '' : '' @
     wrapped 2 (expression_level b) (expression_text b)"
| "expression_text (Assign operator name e) =
     name @ '' '' @ assignment_text operator @ '' '' @
     wrapped 1 (expression_level e) (expression_text e)"
| "expression_text (Comma l r) =
     expression_text l @ '', '' @ wrapped 1 (expression_level r) (expression_text r)"

text \<open>The nesting levels and the frames the machine needs, from the frame of the expression up.\<close>

primrec expression_nesting :: "expression \<Rightarrow> nat" where
  "expression_nesting (Literal n) = 0"
| "expression_nesting (Variable name) = 0"
| "expression_nesting (Unary operator e) =
     expression_nesting e + (if expression_level e < 13 then 1 else 0)"
| "expression_nesting (Binary operator l r) =
     max (expression_nesting l + (if expression_level l < operator_level operator then 1 else 0))
       (expression_nesting r + (if expression_level r < operator_level operator + 1 then 1 else 0))"
| "expression_nesting (Conditional c a b) =
     max (expression_nesting c + (if expression_level c < 3 then 1 else 0))
       (1 + max (expression_nesting a)
         (expression_nesting b + (if expression_level b < 2 then 1 else 0)))"
| "expression_nesting (Assign operator name e) =
     1 + expression_nesting e + (if expression_level e < 1 then 1 else 0)"
| "expression_nesting (Comma l r) =
     max (expression_nesting l) (expression_nesting r + (if expression_level r < 1 then 1 else 0))"

definition frames_at :: "nat \<Rightarrow> nat \<Rightarrow> nat \<Rightarrow> nat" where
  "frames_at least l n = (if l < least then 15 - least + l + n else l - least + n)"

primrec expression_frames :: "expression \<Rightarrow> nat" where
  "expression_frames (Literal n) = 1"
| "expression_frames (Variable name) = 1"
| "expression_frames (Unary operator e) =
     1 + frames_at 13 (expression_level e) (expression_frames e)"
| "expression_frames (Binary operator l r) =
     max (frames_at (operator_level operator) (expression_level l) (expression_frames l))
       (1 + frames_at (operator_level operator + 1) (expression_level r) (expression_frames r))"
| "expression_frames (Conditional c a b) =
     1 + max (frames_at 3 (expression_level c) (expression_frames c))
       (max (frames_at 0 (expression_level a) (expression_frames a))
         (frames_at 2 (expression_level b) (expression_frames b)))"
| "expression_frames (Assign operator name e) =
     1 + frames_at 1 (expression_level e) (expression_frames e)"
| "expression_frames (Comma l r) =
     max (frames_at 0 (expression_level l) (expression_frames l))
       (1 + frames_at 1 (expression_level r) (expression_frames r))"

section \<open>Values\<close>

text \<open>The value of a variable; unset or empty counts as 0.\<close>

definition variable_value :: "gsh_native_expansion_context \<Rightarrow> byte list \<Rightarrow> int option" where
  "variable_value c name =
    (case lookup_variable c name of
       (None, found) \<Rightarrow> None
     | (Some val, False) \<Rightarrow> if cx_nounset c then None else Some 0
     | (Some val, True) \<Rightarrow>
         if val = [] then Some 0
         else if GSH_NATIVE_TEXT_CAP \<le> length val then None else arithmetic_constant val)"

definition assign_variable ::
  "gsh_native_expansion_context \<Rightarrow> byte list \<Rightarrow> int \<Rightarrow> gsh_native_expansion_context option" where
  "assign_variable c name v =
    (case cx_variable_state c of
       None \<Rightarrow> None
     | Some s \<Rightarrow>
         (case native_variable_assign s name
             ((if v < 0 then ''-'' else []) @ rev (reversed_digits (nat \<bar>v\<bar>))) of
            (status, s) \<Rightarrow> if status = GSH_NATIVE_PLAN_OK then Some (c\<lparr>cx_variable_state := Some s\<rparr>)
              else None))"

text \<open>A result is a value only where it is a \<open>long\<close>.\<close>

definition checked :: "int option \<Rightarrow> int option" where
  "checked r = Option.bind r in_range"

fun assignment_operator :: "arithmetic_assignment_operator \<Rightarrow> arithmetic_operator" where
  "assignment_operator ASSIGN_MULTIPLY = OPERATOR_MULTIPLY"
| "assignment_operator ASSIGN_DIVIDE = OPERATOR_DIVIDE"
| "assignment_operator ASSIGN_REMAINDER = OPERATOR_REMAINDER"
| "assignment_operator ASSIGN_ADD = OPERATOR_ADD"
| "assignment_operator ASSIGN_SUBTRACT = OPERATOR_SUBTRACT"
| "assignment_operator ASSIGN_SHIFT_LEFT = OPERATOR_SHIFT_LEFT"
| "assignment_operator ASSIGN_SHIFT_RIGHT = OPERATOR_SHIFT_RIGHT"
| "assignment_operator ASSIGN_AND = OPERATOR_BITAND"
| "assignment_operator ASSIGN_XOR = OPERATOR_BITXOR"
| "assignment_operator ASSIGN_OR = OPERATOR_BITOR"
| "assignment_operator operator = OPERATOR_NONE"

definition unary_exact :: "byte \<Rightarrow> int \<Rightarrow> int" where
  "unary_exact operator v =
    (if operator = CHR ''-'' then - v else if operator = CHR ''!'' then of_bool (v = 0)
     else if operator = CHR ''~'' then - v - 1 else v)"

primrec expression_value ::
  "expression \<Rightarrow> gsh_native_expansion_context \<Rightarrow> (int \<times> gsh_native_expansion_context) option" where
  "expression_value (Literal n) c = Some (int n, c)"
| "expression_value (Variable name) c = map_option (\<lambda>v. (v, c)) (variable_value c name)"
| "expression_value (Unary operator e) c =
     (case expression_value e c of
        None \<Rightarrow> None | Some (v, c) \<Rightarrow> map_option (\<lambda>v. (v, c)) (in_range (unary_exact operator v)))"
| "expression_value (Binary operator l r) c =
     (case expression_value l c of
        None \<Rightarrow> None
      | Some (x, c) \<Rightarrow>
          if operator = OPERATOR_LOGICAL_AND \<and> x = 0 then Some (0, c)
          else if operator = OPERATOR_LOGICAL_OR \<and> x \<noteq> 0 then Some (1, c)
          else (case expression_value r c of
            None \<Rightarrow> None
          | Some (y, c) \<Rightarrow> map_option (\<lambda>v. (v, c)) (checked (operator_value operator x y))))"
| "expression_value (Conditional q a b) c =
     (case expression_value q c of
        None \<Rightarrow> None
      | Some (x, c) \<Rightarrow> if x \<noteq> 0 then expression_value a c else expression_value b c)"
| "expression_value (Assign operator name e) c =
     (case (if operator = ASSIGN_SET then Some 0 else variable_value c name) of
        None \<Rightarrow> None
      | Some old \<Rightarrow>
          (case expression_value e c of
             None \<Rightarrow> None
           | Some (y, c) \<Rightarrow>
               (case (if operator = ASSIGN_SET then Some y
                      else checked (operator_value (assignment_operator operator) old y)) of
                  None \<Rightarrow> None
                | Some v \<Rightarrow> map_option (\<lambda>c. (v, c)) (assign_variable c name v))))"
| "expression_value (Comma l r) c =
     (case expression_value l c of None \<Rightarrow> None | Some (x, c) \<Rightarrow> expression_value r c)"

end
