(* ===== verification/ArithmeticReading.thy ===== *)
theory ArithmeticReading
  imports ArithmeticSyntax
begin

text \<open>
  The operations of the arithmetic parser as functions on the rest of the text: \<open>reads\<close> says that
  the parser stands before a text, up to blanks, and the lemmas on it say what each operation
  finds there: an operator of a level, a constant, a variable, the target of an assignment.
\<close>

section \<open>The rest of the text\<close>

definition skip_blanks :: "byte list \<Rightarrow> byte list" where
  "skip_blanks s = dropWhile arithmetic_blank s"

text \<open>The parser stands before \<open>s\<close> in \<open>text'\<close>, up to blanks.\<close>

definition reads ::
  "byte list \<Rightarrow> arithmetic_parser \<Rightarrow> byte list \<Rightarrow> gsh_native_expansion_context \<Rightarrow> nat \<Rightarrow> bool" where
  "reads text' p s c n \<longleftrightarrow> ap_input p = text' \<and> ap_end p = length text' \<and>
    ap_offset p \<le> length text' \<and> skip_blanks (drop (ap_offset p) text') = skip_blanks s \<and>
    ap_context p = Some c \<and> ap_nesting p = n"

definition starts :: "byte list \<Rightarrow> byte \<Rightarrow> bool" where
  "starts s b \<longleftrightarrow> s \<noteq> [] \<and> hd s = b"

lemma starts_simps [simp]: "\<not> starts [] b" "starts (a # s) b \<longleftrightarrow> a = b"
  by (simp_all add: starts_def)

lemma skip_blanks_idem [simp]: "skip_blanks (skip_blanks s) = skip_blanks s"
  by (simp add: skip_blanks_def)

lemma reads_skip: "reads T p (skip_blanks s) c n = reads T p s c n"
  by (simp add: reads_def)

lemma reads_drop: "reads T p s c n \<Longrightarrow> reads T p (drop (ap_offset p) T) c n"
  by (simp add: reads_def)

lemma at_offset:
  assumes "k \<le> length T"
  shows "k < length T \<and> T ! k = b \<longleftrightarrow> starts (drop k T) b" "k = length T \<longleftrightarrow> drop k T = []"
  using assms by (auto simp: starts_def hd_drop_conv_nth)

lemma scan_while_list:
  assumes "ap_input p = T" "ap_end p = length T" "k \<le> length T"
  shows "scan_while test p k = k + length (takeWhile test (drop k T))"
    "drop (scan_while test p k) T = dropWhile test (drop k T)"
proof -
  show len: "scan_while test p k = k + length (takeWhile test (drop k T))"
    using assms
  proof (induction test p k rule: scan_while.induct)
    case (1 test p k)
    show ?case
    proof (cases "k < ap_end p \<and> test (ap_input p ! k)")
      case True
      then have "drop k T = T ! k # drop (k + 1) T" using 1(2,3) by (simp add: Cons_nth_drop_Suc)
      with True 1 show ?thesis by (simp add: scan_while.simps[of _ _ k])
    next
      case False
      have "takeWhile test (drop k T) = []"
      proof (cases "k < length T")
        case True
        then have "drop k T = T ! k # drop (Suc k) T" by (simp add: Cons_nth_drop_Suc)
        with False True 1(2,3) show ?thesis by simp
      qed simp
      with False show ?thesis by (auto simp: scan_while.simps[of _ _ k])
    qed
  qed
  show "drop (scan_while test p k) T = dropWhile test (drop k T)"
    by (simp add: len dropWhile_eq_drop add.commute)
qed

lemma skip_space_reads:
  assumes "reads T p s c n"
  shows "reads T (arithmetic_skip_space p) s c n"
    "drop (ap_offset (arithmetic_skip_space p)) T = skip_blanks s"
proof -
  have p: "ap_input p = T" "ap_end p = length T" "ap_offset p \<le> length T"
    using assms by (simp_all add: reads_def)
  have "drop (ap_offset (arithmetic_skip_space p)) T = skip_blanks (drop (ap_offset p) T)"
    using scan_while_list(2)[OF p] by (simp add: arithmetic_skip_space_def arithmetic_skip_offset_def skip_blanks_def)
  then show rest: "drop (ap_offset (arithmetic_skip_space p)) T = skip_blanks s"
    using assms by (simp add: reads_def)
  show "reads T (arithmetic_skip_space p) s c n"
    using assms rest scan_while_end[of "ap_offset p" p arithmetic_blank] p
    by (simp add: reads_def) (simp add: arithmetic_skip_space_def arithmetic_skip_offset_def)
qed

lemma reads_advance:
  assumes "reads T p s c n" "drop (ap_offset p) T = s" "k \<le> length s"
  shows "reads T (p\<lparr>ap_offset := ap_offset p + k\<rparr>) (drop k s) c n"
  using assms by (auto simp: reads_def add.commute)

lemma match_reads:
  assumes "reads T p s c n"
  shows "\<exists>p'. arithmetic_match p word = (take (length word) (skip_blanks s) = word, p') \<and>
    reads T p' (if take (length word) (skip_blanks s) = word then drop (length word) (skip_blanks s)
      else s) c n"
proof -
  let ?p = "arithmetic_skip_space p"
  have r: "reads T ?p s c n" "drop (ap_offset ?p) T = skip_blanks s"
    using skip_space_reads[OF assms] .
  have i: "ap_input ?p = T" "ap_end ?p = length T" using r(1) by (simp_all only: reads_def)
  have short: "take (length word) (skip_blanks s) \<noteq> word"
    if "length T - ap_offset ?p < length word"
    using that by (metis length_drop length_take min_less_iff_conj nat_neq_iff r(2))
  show ?thesis
  proof (cases "take (length word) (skip_blanks s) = word")
    case True
    then have "length word \<le> length (skip_blanks s)" by (metis length_take min.cobounded1 min_def)
    with reads_advance[of T ?p "skip_blanks s" c n "length word"] r True short i show ?thesis
      by (auto simp: arithmetic_match_def Let_def reads_skip)
  next
    case False
    with r i show ?thesis by (auto simp: arithmetic_match_def Let_def)
  qed
qed

lemma match_binary_reads:
  fixes word :: "byte list"
  assumes "reads T p s c n"
  defines "hit \<equiv> take (length word) (skip_blanks s) = word \<and>
    \<not> starts (drop (length word) (skip_blanks s)) (CHR ''='')"
  shows "\<exists>p'. arithmetic_match_binary p word = (hit, p') \<and>
    reads T p' (if hit then drop (length word) (skip_blanks s) else s) c n"
proof -
  let ?p = "arithmetic_skip_space p"
  have r: "reads T ?p s c n" "drop (ap_offset ?p) T = skip_blanks s"
    using skip_space_reads[OF assms(1)] .
  obtain p' where p': "arithmetic_match p word = (take (length word) (skip_blanks s) = word, p')"
    "reads T p' (if take (length word) (skip_blanks s) = word then drop (length word) (skip_blanks s)
      else s) c n" using match_reads[OF assms(1)] by blast
  show ?thesis
  proof (cases "take (length word) (skip_blanks s) = word")
    case True
    then have len: "length word \<le> length (skip_blanks s)" by (metis length_take min.cobounded1 min_def)
    have q: "p' = ?p\<lparr>ap_offset := ap_offset ?p + length word\<rparr>"
      using p'(1) True by (auto simp: arithmetic_match_def Let_def split: if_splits)
    have rest': "drop (ap_offset p') T = drop (length word) (skip_blanks s)"
      by (simp add: q add.commute flip: r(2))
    have "ap_offset p' \<le> length T" "ap_end p' = length T" "ap_input p' = T"
      using p'(2) by (simp_all add: reads_def)
    with at_offset(1)[of "ap_offset p'" T "CHR ''=''"] rest'
    have eq: "ap_offset p' < ap_end p' \<and> ap_input p' ! ap_offset p' = CHR ''='' \<longleftrightarrow>
        starts (drop (length word) (skip_blanks s)) (CHR ''='')" by simp
    have restored: "reads T (p'\<lparr>ap_offset := ap_offset p\<rparr>) s c n"
      using assms(1) p'(2) by (simp add: reads_def)
    show ?thesis using True p' eq restored
      by (auto simp: arithmetic_match_binary_def Let_def hit_def)
  next
    case False
    with p' show ?thesis by (auto simp: arithmetic_match_binary_def hit_def)
  qed
qed

section \<open>Operators of a level\<close>

text \<open>What the levels find at the head of the rest of the text, and what they leave.\<close>

fun take_operator ::
  "byte list \<Rightarrow> (byte list \<times> arithmetic_operator) list \<Rightarrow> (byte list \<Rightarrow> bool) \<Rightarrow>
    arithmetic_operator \<times> byte list" where
  "take_operator s [] stop = (OPERATOR_NONE, s)"
| "take_operator s ((word, operator) # choices) stop =
    (if take (length word) s = word \<and> \<not> stop (drop (length word) s)
     then (operator, drop (length word) s) else take_operator s choices stop)"

definition assigns :: "byte list \<Rightarrow> bool" where
  "assigns s \<longleftrightarrow> starts s (CHR ''='')"

fun next_operator :: "arithmetic_frame_kind \<Rightarrow> byte list \<Rightarrow> arithmetic_operator \<times> byte list" where
  "next_operator FRAME_MULTIPLY s = take_operator s [(''*'', OPERATOR_MULTIPLY),
     (''/'', OPERATOR_DIVIDE), (''%'', OPERATOR_REMAINDER)] assigns"
| "next_operator FRAME_ADD s =
     take_operator s [(''+'', OPERATOR_ADD), (''-'', OPERATOR_SUBTRACT)] assigns"
| "next_operator FRAME_SHIFT s =
     take_operator s [(''<<'', OPERATOR_SHIFT_LEFT), (''>>'', OPERATOR_SHIFT_RIGHT)] assigns"
| "next_operator FRAME_RELATIONAL s =
     (if take 2 s = ''<='' then (OPERATOR_LESS_EQUAL, drop 2 s)
      else if take 2 s = ''>='' then (OPERATOR_GREATER_EQUAL, drop 2 s)
      else if starts s (CHR ''<'') \<and> \<not> starts (tl s) (CHR ''<'') then (OPERATOR_LESS, tl s)
      else if starts s (CHR ''>'') \<and> \<not> starts (tl s) (CHR ''>'') then (OPERATOR_GREATER, tl s)
      else (OPERATOR_NONE, s))"
| "next_operator FRAME_EQUALITY s =
     take_operator s [(''=='', OPERATOR_EQUAL), (''!='', OPERATOR_NOT_EQUAL)] (\<lambda>_. False)"
| "next_operator FRAME_BITAND s =
     take_operator s [(''&'', OPERATOR_BITAND)] (\<lambda>r. starts r (CHR ''&'') \<or> assigns r)"
| "next_operator FRAME_BITXOR s = take_operator s [(''^'', OPERATOR_BITXOR)] assigns"
| "next_operator FRAME_BITOR s =
     take_operator s [(''|'', OPERATOR_BITOR)] (\<lambda>r. starts r (CHR ''|'') \<or> assigns r)"
| "next_operator FRAME_LOGICAL_AND s =
     take_operator s [(''&&'', OPERATOR_LOGICAL_AND)] (\<lambda>_. False)"
| "next_operator kind s = take_operator s [(''||'', OPERATOR_LOGICAL_OR)] (\<lambda>_. False)"

lemma first_operator_reads:
  assumes matches: "\<And>p s word. reads T p s c n \<Longrightarrow>
      \<exists>p'. matches p word = (take (length word) (skip_blanks s) = word \<and>
          \<not> stop (drop (length word) (skip_blanks s)), p') \<and>
        reads T p' (if take (length word) (skip_blanks s) = word \<and>
            \<not> stop (drop (length word) (skip_blanks s)) then drop (length word) (skip_blanks s)
          else s) c n"
    and r: "reads T p s c n" and choices: "\<forall>(word, operator)\<in>set choices. operator \<noteq> OPERATOR_NONE"
  shows "\<exists>p'. first_operator matches p choices = (fst (take_operator (skip_blanks s) choices stop), p') \<and>
    reads T p' (snd (take_operator (skip_blanks s) choices stop)) c n"
proof -
  let ?f = "\<lambda>(operator, p) (word, matched). if operator \<noteq> OPERATOR_NONE then (operator, p)
    else case matches p word of (hit, p) \<Rightarrow> (if hit then matched else OPERATOR_NONE, p)"
  have found: "foldl ?f (operator, p) cs = (operator, p)" if "operator \<noteq> OPERATOR_NONE" for operator p cs
    using that by (induction cs) auto
  have "\<exists>p'. foldl ?f (OPERATOR_NONE, q) cs = (fst (take_operator (skip_blanks s) cs stop), p') \<and>
      reads T p' (snd (take_operator (skip_blanks s) cs stop)) c n"
    if "reads T q s c n" "\<forall>(word, operator)\<in>set cs. operator \<noteq> OPERATOR_NONE" for q cs
    using that
  proof (induction cs arbitrary: q)
    case (Cons choice cs)
    obtain word operator where choice: "choice = (word, operator)" by fastforce
    let ?hit = "take (length word) (skip_blanks s) = word \<and> \<not> stop (drop (length word) (skip_blanks s))"
    obtain p' where p': "matches q word = (?hit, p')"
      "reads T p' (if ?hit then drop (length word) (skip_blanks s) else s) c n"
      using matches[OF Cons.prems(1)] by blast
    show ?case
    proof (cases ?hit)
      case True
      have "operator \<noteq> OPERATOR_NONE" using Cons.prems(2) choice by simp
      with True p' choice found show ?thesis by simp
    next
      case False
      with Cons.IH[of p'] Cons.prems(2) p' choice show ?thesis by auto
    qed
  qed (simp add: reads_skip)
  from this[OF r choices] show ?thesis by (simp add: first_operator_def)
qed

lemma head_facts:
  assumes "drop k T = s" "k \<le> length T"
  shows "k = length T \<longleftrightarrow> s = []" "k < length T \<longleftrightarrow> s \<noteq> []"
    "s = b # r \<Longrightarrow> T ! k = b" "s = b # r \<Longrightarrow> drop (Suc k) T = r"
    "s = b # r \<Longrightarrow> Suc k < length T \<and> T ! Suc k = x \<longleftrightarrow> starts r x"
    "s = b # r \<Longrightarrow> Suc k = length T \<longleftrightarrow> r = []"
proof -
  show *: "k = length T \<longleftrightarrow> s = []" "k < length T \<longleftrightarrow> s \<noteq> []" using assms by auto
  assume s: "s = b # r"
  then have "k < length T" using * by simp
  with assms(1) s have "T ! k # drop (Suc k) T = b # r" by (simp add: Cons_nth_drop_Suc)
  then show "T ! k = b" and r: "drop (Suc k) T = r" by simp_all
  from at_offset[of "Suc k" T] \<open>k < length T\<close> r
  show "Suc k < length T \<and> T ! Suc k = x \<longleftrightarrow> starts r x" "Suc k = length T \<longleftrightarrow> r = []" by simp_all
qed

lemma skipped:
  assumes "reads T p s c n"
  obtains q where "q = arithmetic_skip_space p" "reads T q (skip_blanks s) c n" "ap_input q = T" "ap_end q = length T"
    "drop (ap_offset q) T = skip_blanks s" "ap_offset q \<le> length T"
    "\<forall>b r. skip_blanks s = b # r \<longrightarrow> reads T (q\<lparr>ap_offset := Suc (ap_offset q)\<rparr>) r c n"
proof -
  let ?q = "arithmetic_skip_space p"
  note r = skip_space_reads[OF assms]
  have "reads T (?q\<lparr>ap_offset := Suc (ap_offset ?q)\<rparr>) w c n" if "skip_blanks s = b # w" for b w
    using reads_advance[of T ?q "skip_blanks s" c n 1] r reads_skip[of T ?q s] that by simp
  with r that[of ?q] show ?thesis by (auto simp: reads_def)
qed

lemma next_multiply_reads:
  assumes "reads T p s c n"
  shows "\<exists>p'. arithmetic_next_multiply p = (fst (next_operator FRAME_MULTIPLY (skip_blanks s)), p') \<and>
    reads T p' (snd (next_operator FRAME_MULTIPLY (skip_blanks s))) c n"
proof -
  obtain q where q: "q = arithmetic_skip_space p" "reads T q (skip_blanks s) c n" "ap_input q = T" "ap_end q = length T"
    "drop (ap_offset q) T = skip_blanks s" "ap_offset q \<le> length T"
    "\<forall>b r. skip_blanks s = b # r \<longrightarrow> reads T (q\<lparr>ap_offset := Suc (ap_offset q)\<rparr>) r c n"
    by (rule skipped[OF assms])
  note h = head_facts[OF q(5,6)]
  show ?thesis
    using q(2-4) h(1)
    by (cases "skip_blanks s")
      (auto simp: arithmetic_next_multiply_def Let_def q(1)[symmetric] h assigns_def dest: q(7)[rule_format])
qed

lemma next_add_reads:
  assumes "reads T p s c n"
  shows "\<exists>p'. arithmetic_next_add p = (fst (next_operator FRAME_ADD (skip_blanks s)), p') \<and>
    reads T p' (snd (next_operator FRAME_ADD (skip_blanks s))) c n"
proof -
  obtain q where q: "q = arithmetic_skip_space p" "reads T q (skip_blanks s) c n" "ap_input q = T" "ap_end q = length T"
    "drop (ap_offset q) T = skip_blanks s" "ap_offset q \<le> length T"
    "\<forall>b r. skip_blanks s = b # r \<longrightarrow> reads T (q\<lparr>ap_offset := Suc (ap_offset q)\<rparr>) r c n"
    by (rule skipped[OF assms])
  note h = head_facts[OF q(5,6)]
  show ?thesis
    using q(2-4) h(1)
    by (cases "skip_blanks s")
      (auto simp: arithmetic_next_add_def Let_def q(1)[symmetric] h assigns_def dest: q(7)[rule_format])
qed

lemma single_binary_reads:
  fixes first excluded :: byte and operator :: arithmetic_operator
  assumes "reads T p s c n"
  defines "r \<equiv> take_operator (skip_blanks s) [([first], operator)] (\<lambda>r. starts r excluded \<or> assigns r)"
  shows "\<exists>p'. arithmetic_single_binary p first excluded operator = (fst r, p') \<and> reads T p' (snd r) c n"
proof -
  obtain q where q: "q = arithmetic_skip_space p" "reads T q (skip_blanks s) c n" "ap_input q = T" "ap_end q = length T"
    "drop (ap_offset q) T = skip_blanks s" "ap_offset q \<le> length T"
    "\<forall>b r. skip_blanks s = b # r \<longrightarrow> reads T (q\<lparr>ap_offset := Suc (ap_offset q)\<rparr>) r c n"
    by (rule skipped[OF assms(1)])
  note h = head_facts[OF q(5,6)]
  show ?thesis
    using q(2-4) h(1)
    by (cases "skip_blanks s")
      (auto simp: arithmetic_single_binary_def Let_def q(1)[symmetric] h assigns_def r_def
        conj_disj_distribL dest: q(7)[rule_format])
qed

lemma next_relational_reads:
  assumes "reads T p s c n"
  shows "\<exists>p'. arithmetic_next_relational p = (fst (next_operator FRAME_RELATIONAL (skip_blanks s)), p') \<and>
    reads T p' (snd (next_operator FRAME_RELATIONAL (skip_blanks s))) c n"
proof -
  have two: "length ''<='' = 2" "length ''>='' = 2" by simp_all
  obtain p1 where p1: "arithmetic_match p ''<='' = (take 2 (skip_blanks s) = ''<='', p1)"
    "reads T p1 (if take 2 (skip_blanks s) = ''<='' then drop 2 (skip_blanks s) else s) c n"
    using match_reads[OF assms, of "''<=''", unfolded two] by blast
  show ?thesis
  proof (cases "take 2 (skip_blanks s) = ''<=''")
    case True
    with p1 show ?thesis by (auto simp: arithmetic_next_relational_def)
  next
    case le: False
    then have r1: "reads T p1 s c n" using p1(2) by simp
    obtain p2 where p2: "arithmetic_match p1 ''>='' = (take 2 (skip_blanks s) = ''>='', p2)"
      "reads T p2 (if take 2 (skip_blanks s) = ''>='' then drop 2 (skip_blanks s) else s) c n"
      using match_reads[OF r1, of "''>=''", unfolded two] by blast
    show ?thesis
    proof (cases "take 2 (skip_blanks s) = ''>=''")
      case True
      with p1 p2 le show ?thesis by (auto simp: arithmetic_next_relational_def)
    next
      case ge: False
      then have r2: "reads T p2 s c n" using p2(2) by simp
      then have i: "ap_input p2 = T" "ap_end p2 = length T" by (simp_all add: reads_def)
      from r2 obtain q where q: "q = arithmetic_skip_space p2" "reads T q (skip_blanks s) c n" "ap_input q = T"
        "ap_end q = length T" "drop (ap_offset q) T = skip_blanks s" "ap_offset q \<le> length T"
        "\<forall>b r. skip_blanks s = b # r \<longrightarrow> reads T (q\<lparr>ap_offset := Suc (ap_offset q)\<rparr>) r c n"
        by (rule skipped)
      note h = head_facts[OF q(5,6)]
      have single: "ap_offset q < length T \<and> T ! ap_offset q = b \<and>
          (Suc (ap_offset q) = length T \<or> T ! Suc (ap_offset q) \<noteq> b) \<longleftrightarrow>
          starts (skip_blanks s) b \<and> \<not> starts (tl (skip_blanks s)) b" for b
      proof (cases "skip_blanks s")
        case Nil
        then show ?thesis using h(2) by simp
      next
        case (Cons a w)
        then show ?thesis using h(2) h(3)[OF Cons] h(5)[OF Cons, of b] h(6)[OF Cons] q(6) by auto
      qed
      have adv: "reads T (q\<lparr>ap_offset := Suc (ap_offset q)\<rparr>) (tl (skip_blanks s)) c n"
        if "starts (skip_blanks s) b" for b
        using that q(7) by (cases "skip_blanks s") auto
      show ?thesis
        using p1(1) p2(1) le ge q(2) adv
        by (auto simp: arithmetic_next_relational_def Let_def q(1)[symmetric] q(3,4) i single)
    qed
  qed
qed

lemma next_binary_reads:
  assumes "reads T p s c n" "binary_kind kind"
  shows "\<exists>p'. arithmetic_next_binary p kind = (fst (next_operator kind (skip_blanks s)), p') \<and>
    reads T p' (snd (next_operator kind (skip_blanks s))) c n"
proof -
  have plain: "\<exists>p'. first_operator arithmetic_match p choices =
      (fst (take_operator (skip_blanks s) choices (\<lambda>_. False)), p') \<and>
      reads T p' (snd (take_operator (skip_blanks s) choices (\<lambda>_. False))) c n"
    if "\<forall>(word, operator)\<in>set choices. operator \<noteq> OPERATOR_NONE" for choices
    by (rule first_operator_reads[OF _ assms(1) that]) (use match_reads in simp)
  have binary: "\<exists>p'. first_operator arithmetic_match_binary p choices =
      (fst (take_operator (skip_blanks s) choices assigns), p') \<and>
      reads T p' (snd (take_operator (skip_blanks s) choices assigns)) c n"
    if "\<forall>(word, operator)\<in>set choices. operator \<noteq> OPERATOR_NONE" for choices
    by (rule first_operator_reads[OF _ assms(1) that]) (unfold assigns_def, rule match_binary_reads)
  show ?thesis
    using assms(2)
    by (cases kind; simp only: arithmetic_next_binary.simps next_operator.simps)
      (simp; fail | rule single_binary_reads[OF assms(1)] |
       rule next_multiply_reads[OF assms(1), unfolded next_operator.simps] |
       rule next_add_reads[OF assms(1), unfolded next_operator.simps] |
       rule next_relational_reads[OF assms(1), unfolded next_operator.simps] |
       (rule plain, simp; fail) | (rule binary, simp; fail))+
qed

lemma take_one: "take (Suc 0) s = [b] \<longleftrightarrow> starts s b" "drop (Suc 0) s = tl s"
  by (cases s; simp)+

lemma match_byte_reads:
  assumes "reads T p s c n"
  shows "\<exists>p'. arithmetic_match p [b] = (starts (skip_blanks s) b, p') \<and>
    reads T p' (if starts (skip_blanks s) b then tl (skip_blanks s) else s) c n"
  using match_reads[OF assms, of "[b]"] by (auto simp: take_one)

lemma match_unary_reads:
  assumes "reads T p s c n"
  shows "\<exists>p'. match_unary p operators =
      (if \<exists>b\<in>set operators. starts (skip_blanks s) b then Some (hd (skip_blanks s)) else None, p') \<and>
    reads T p' (if \<exists>b\<in>set operators. starts (skip_blanks s) b then tl (skip_blanks s) else s) c n"
  using assms
proof (induction operators arbitrary: p)
  case (Cons b operators)
  obtain p' where p': "arithmetic_match p [b] = (starts (skip_blanks s) b, p')"
    "reads T p' (if starts (skip_blanks s) b then tl (skip_blanks s) else s) c n"
    using match_byte_reads[OF Cons.prems] by blast
  show ?case
  proof (cases "starts (skip_blanks s) b")
    case True
    with p' show ?thesis by (auto simp: starts_def)
  next
    case False
    with Cons.IH[of p'] p' show ?thesis by auto
  qed
qed simp

section \<open>What may follow an expression\<close>

text \<open>An expression of level \<open>k\<close> or above ends where this holds of the rest.\<close>

inductive follows :: "nat \<Rightarrow> byte list \<Rightarrow> bool" where
  nothing: "follows k []"
| closed: "follows k ('')'' @ s)"
| colon: "follows k ('' : '' @ s)"
| comma: "0 < k \<Longrightarrow> follows k ('', '' @ s)"
| question: "2 < k \<Longrightarrow> follows k ('' ? '' @ s)"
| binary: "operator \<noteq> OPERATOR_NONE \<Longrightarrow> operator_level operator < k \<Longrightarrow>
    follows k ('' '' @ operator_text operator @ '' '' @ s)"

lemma follows_mono: "follows k s \<Longrightarrow> k \<le> l \<Longrightarrow> follows l s"
  by (induction rule: follows.induct) (auto intro: follows.intros simp del: append_Cons append_Nil)

lemma skip_blanks_simps [simp]:
  "skip_blanks [] = []"
  "skip_blanks (b # s) = (if b = CHR '' '' \<or> b = TAB \<or> b = NL then skip_blanks s else b # s)"
  by (simp_all add: skip_blanks_def arithmetic_blank_def)

lemma operator_level_range:
  "operator \<noteq> OPERATOR_NONE \<Longrightarrow> 3 \<le> operator_level operator \<and> operator_level operator \<le> 12"
  by (cases operator) simp_all

lemma level_cases:
  assumes "3 \<le> k" "k \<le> (12 :: nat)"
  obtains "k = 3" | "k = 4" | "k = 5" | "k = 6" | "k = 7" | "k = 8" | "k = 9" | "k = 10" | "k = 11" | "k = 12"
proof -
  have "k = 3 \<or> k = 4 \<or> k = 5 \<or> k = 6 \<or> k = 7 \<or> k = 8 \<or> k = 9 \<or> k = 10 \<or> k = 11 \<or> k = 12"
    using assms by arith
  with that show thesis by blast
qed

lemma level_kinds [simp]:
  "level_kind 0 = FRAME_COMMA" "level_kind (Suc 0) = FRAME_ASSIGNMENT" "level_kind 1 = FRAME_ASSIGNMENT"
  "level_kind 2 = FRAME_CONDITIONAL" "level_kind 3 = FRAME_LOGICAL_OR" "level_kind 4 = FRAME_LOGICAL_AND"
  "level_kind 5 = FRAME_BITOR" "level_kind 6 = FRAME_BITXOR" "level_kind 7 = FRAME_BITAND"
  "level_kind 8 = FRAME_EQUALITY" "level_kind 9 = FRAME_RELATIONAL" "level_kind 10 = FRAME_SHIFT"
  "level_kind 11 = FRAME_ADD" "level_kind 12 = FRAME_MULTIPLY" "level_kind 13 = FRAME_UNARY"
  "level_kind 14 = FRAME_PRIMARY"
  by (simp_all add: eval_nat_numeral)

lemma follows_next_operator:
  assumes "follows k s" "3 \<le> k" "k \<le> 12"
  shows "next_operator (level_kind k) (skip_blanks s) = (OPERATOR_NONE, skip_blanks s)"
  using assms(1)
proof cases
  case (binary operator w)
  show ?thesis
    using binary(2,3) unfolding binary(1)
    by (cases rule: level_cases[OF assms(2,3)]; cases operator) (simp_all add: assigns_def)
qed (cases rule: level_cases[OF assms(2,3)]; simp add: assigns_def)+

lemma next_operator_found:
  assumes "operator \<noteq> OPERATOR_NONE"
  shows "next_operator (level_kind (operator_level operator))
      (skip_blanks ('' '' @ operator_text operator @ '' '' @ s)) = (operator, '' '' @ s)"
  using assms by (cases operator) (simp_all add: assigns_def)

lemma follows_no_byte:
  assumes "follows k s"
  shows "k \<le> 2 \<Longrightarrow> \<not> starts (skip_blanks s) (CHR ''?'')" "k = 0 \<Longrightarrow> \<not> starts (skip_blanks s) (CHR '','')"
    "s = [] \<or> \<not> name_byte (hd s)"
proof -
  show "k \<le> 2 \<Longrightarrow> \<not> starts (skip_blanks s) (CHR ''?'')"
    using assms
  proof cases
    case (binary operator w)
    then show "k \<le> 2 \<Longrightarrow> ?thesis" using operator_level_range[of operator] by simp
  qed simp_all
  show "k = 0 \<Longrightarrow> \<not> starts (skip_blanks s) (CHR '','')" using assms by cases simp_all
  show "s = [] \<or> \<not> name_byte (hd s)"
    using assms by cases (simp_all add: byte_class_defs less_eq_char_def)
qed

section \<open>Atoms\<close>

lemma environment_value_reads:
  assumes "reads T p s c n" "evaluate \<Longrightarrow> variable_value c name = Some v" "\<not> evaluate \<Longrightarrow> v = 0"
  shows "\<exists>p'. arithmetic_environment_value p name evaluate = (Some v, p') \<and> reads T p' s c n"
  using assms
  by (auto simp: arithmetic_environment_value_def variable_value_def report_unset_parameter_def reads_def
      Let_def split: option.splits if_splits prod.splits bool.splits)

lemma digit_of_base_name: "digit_of_base base b \<Longrightarrow> name_byte b"
  by (auto simp: digit_of_base_def arithmetic_digit_def byte_class_defs less_eq_char_def
      split: if_splits)

lemma takeWhile_stop: "list_all P xs \<Longrightarrow> (ys = [] \<or> \<not> P (hd ys)) \<Longrightarrow>
    takeWhile P (xs @ ys) = xs \<and> dropWhile P (xs @ ys) = ys"
  by (induction xs) (cases ys; auto)+

lemma decimal_digits:
  "list_all (digit_of_base 10) (reversed_digits k)" "list_all digit_byte (reversed_digits k)"
proof -
  have digit: "digit_of_base 10 (char_of (48 + d :: nat))" if "d < 10" for d
    using that by (simp add: digit_of_base_def arithmetic_digit_decimal)
  have "list_all (digit_of_base 10) (reversed_digits k) \<and> list_all digit_byte (reversed_digits k)"
  proof (induction k rule: reversed_digits.induct)
    case (1 k)
    then show ?case
      by (subst (1 2) reversed_digits.simps)
        (simp add: digit decimal_byte)
  qed
  then show "list_all (digit_of_base 10) (reversed_digits k)" "list_all digit_byte (reversed_digits k)"
    by simp_all
qed

lemma scan_reads:
  assumes q: "ap_input q = T" "ap_end q = length T" "ap_context q = Some c" "ap_nesting q = n"
    and k: "drop k T = xs @ u" "k \<le> length T" and xs: "list_all test xs" "u = [] \<or> \<not> test (hd u)"
  shows "scan_while test q k = k + length xs" "drop (k + length xs) T = u"
    "k + length xs \<le> length T" "reads T (q\<lparr>ap_offset := k + length xs\<rparr>) u c n"
    "slice T k (k + length xs) = xs"
proof -
  show "scan_while test q k = k + length xs"
    using scan_while_list(1)[OF q(1,2) k(2)] takeWhile_stop[OF xs] by (simp add: k(1))
  have "drop (length xs) (drop k T) = u" using k(1) by simp
  then show u: "drop (k + length xs) T = u" by (simp add: add.commute)
  have "length T - k = length xs + length u" using arg_cong[OF k(1), of length] by simp
  with k(2) show len: "k + length xs \<le> length T" by linarith
  show "reads T (q\<lparr>ap_offset := k + length xs\<rparr>) u c n" using q u len by (simp add: reads_def)
  show "slice T k (k + length xs) = xs" by (simp add: slice_def k(1))
qed

lemma constant_reads:
  assumes r: "reads T p s c n" and s: "skip_blanks s = rev (reversed_digits k) @ u"
    and u: "u = [] \<or> \<not> name_byte (hd u)" and k: "int k \<le> LONG_MAX"
  shows "\<exists>p'. arithmetic_parse_atom p evaluate = (Some (int k), p') \<and> reads T p' u c n"
proof -
  obtain q where q: "q = arithmetic_skip_space p" "reads T q (skip_blanks s) c n" "ap_input q = T"
    "ap_end q = length T" "drop (ap_offset q) T = skip_blanks s" "ap_offset q \<le> length T"
    "\<forall>b r. skip_blanks s = b # r \<longrightarrow> reads T (q\<lparr>ap_offset := Suc (ap_offset q)\<rparr>) r c n"
    by (rule skipped[OF r])
  have cn: "ap_context q = Some c" "ap_nesting q = n" using q(2) by (simp_all add: reads_def)
  let ?digits = "rev (reversed_digits k)" and ?o = "ap_offset q"
  obtain b w where bw: "?digits = b # w" using reversed_digits_last[of k] by (cases ?digits) auto
  have head: "digit_byte b" "0 < k \<Longrightarrow> b \<noteq> CHR ''0''"
    using reversed_digits_last[of k] bw by (metis hd_rev list.sel(1))+
  note h = head_facts[OF q(5,6)]
  have rest: "skip_blanks s = b # w @ u" using s bw by simp
  have atb: "T ! ?o = b" "?o \<noteq> length T" using h(1) h(3)[OF rest] rest by simp_all
  have const: "arithmetic_constant ?digits = Some (int k)"
    using arithmetic_constant_decimal[of "int k"] k by (simp add: long_ok_def)
  have scanned: "scan_while (digit_of_base base) q cursor = ?o + length ?digits"
    if "(if T ! ?o = CHR ''0'' then
             (if ?o + 1 < length T \<and> (T ! (?o + 1) = CHR ''x'' \<or> T ! (?o + 1) = CHR ''X'')
              then (16, ?o + 2) else (8, ?o + 1)) else (10, ?o)) = (base, cursor)" for base cursor
  proof (cases "k = 0")
    case True
    then have zero: "b = CHR ''0''" "w = []"
      using bw decimal_byte(2)[of 0] by (auto simp: reversed_digits.simps)
    have "Suc ?o < length T \<and> T ! Suc ?o = x \<longleftrightarrow> starts u x" for x using h(5)[OF rest] zero by simp
    moreover have "\<not> starts u (CHR ''x'')" "\<not> starts u (CHR ''X'')"
      using u by (auto simp: starts_def byte_class_defs less_eq_char_def)
    ultimately have "base = 8" "cursor = Suc ?o" using that atb(1) zero(1) by (auto split: if_splits)
    moreover have "drop (Suc ?o) T = [] @ u" using h(4)[OF rest] zero by simp
    moreover have "Suc ?o \<le> length T" using atb(2) q(6) by simp
    ultimately show ?thesis
      using scan_reads(1)[OF q(3,4) cn, of "Suc ?o" "[]" u "digit_of_base 8"] u bw zero
      by (auto dest: digit_of_base_name)
  next
    case False
    then have "base = 10" "cursor = ?o" using that atb(1) head(2) by auto
    moreover have "list_all (digit_of_base 10) ?digits" using decimal_digits(1)[of k] by simp
    ultimately show ?thesis
      using scan_reads(1)[OF q(3,4) cn, of ?o ?digits u "digit_of_base 10"] q(5,6) s u
      by (auto dest: digit_of_base_name)
  qed
  have "list_all digit_byte ?digits" using decimal_digits(2)[of k] by simp
  moreover have "u = [] \<or> \<not> digit_byte (hd u)" using u by (auto simp: name_byte_def)
  ultimately have final: "reads T (q\<lparr>ap_offset := ?o + length ?digits\<rparr>) u c n"
    "slice T ?o (?o + length ?digits) = ?digits"
    using scan_reads(4,5)[OF q(3,4) cn, of ?o ?digits u digit_byte] q(5,6) s by simp_all
  have "arithmetic_parse_atom p evaluate = (Some (int k), q\<lparr>ap_offset := ?o + length ?digits\<rparr>)"
    using scanned final(2) const head(1) atb
    by (simp add: arithmetic_parse_atom_def Let_def q(1)[symmetric] q(3,4) split: prod.split)
  with final(1) show ?thesis by blast
qed

lemma variable_reads:
  assumes r: "reads T p s c n" and s: "skip_blanks s = name @ u" and name: "variable_name name"
    and u: "u = [] \<or> \<not> name_byte (hd u)"
    and v: "evaluate \<Longrightarrow> variable_value c name = Some v" "\<not> evaluate \<Longrightarrow> v = 0"
  shows "\<exists>p'. arithmetic_parse_atom p evaluate = (Some v, p') \<and> reads T p' u c n"
proof -
  obtain q where q: "q = arithmetic_skip_space p" "reads T q (skip_blanks s) c n" "ap_input q = T"
    "ap_end q = length T" "drop (ap_offset q) T = skip_blanks s" "ap_offset q \<le> length T"
    "\<forall>b r. skip_blanks s = b # r \<longrightarrow> reads T (q\<lparr>ap_offset := Suc (ap_offset q)\<rparr>) r c n"
    by (rule skipped[OF r])
  have cn: "ap_context q = Some c" "ap_nesting q = n" using q(2) by (simp_all add: reads_def)
  let ?o = "ap_offset q"
  obtain b w where bw: "name = b # w" "name_start_byte b" "list_all name_byte w"
    using name by (cases name) (auto simp: variable_name_def)
  note h = head_facts[OF q(5,6)]
  have rest: "skip_blanks s = b # w @ u" using s bw by simp
  have atb: "T ! ?o = b" "?o < length T" using h(2) h(3)[OF rest] rest by simp_all
  have start: "\<not> digit_byte b" "b \<noteq> CHR ''$''"
    using bw(2) by (auto simp: byte_class_defs less_eq_char_def)
  have "drop (Suc ?o) T = w @ u" using h(4)[OF rest] .
  note scan = scan_reads[OF _ _ _ _ this _ bw(3) u]
  let ?q = "q\<lparr>ap_offset := ?o + length name\<rparr>"
  have scanned: "scan_while name_byte (q\<lparr>ap_offset := ?o\<rparr>) (Suc ?o) = ?o + length name"
    using scan(1)[of "q\<lparr>ap_offset := ?o\<rparr>" c n] q(3,4) cn atb(2) bw(1) by simp
  have reads': "reads T ?q u c n" using scan(4)[of q c n] q(3,4) cn atb(2) bw(1) by simp
  have slice': "slice T ?o (?o + length name) = name"
    using q(5) s by (simp add: slice_def)
  obtain p' where p': "arithmetic_environment_value ?q name evaluate = (Some v, p')" "reads T p' u c n"
    using environment_value_reads[OF reads' v] by blast
  have "arithmetic_parse_atom p evaluate = arithmetic_environment_value ?q name evaluate"
    using atb start bw(2) scanned slice'
    by (simp add: arithmetic_parse_atom_def Let_def q(1)[symmetric] q(3,4))
  with p' show ?thesis by simp
qed

end
