(* ===== verification/ArithmeticTargets.thy ===== *)
theory ArithmeticTargets
  imports ArithmeticReading
begin

text \<open>
  The look-ahead for the target of an assignment as a function on the rest of the text, and what
  it answers on printed expressions: it finds the target of an assignment, and nothing in an
  expression of a higher level.
\<close>

section \<open>The look-ahead on the rest of the text\<close>

text \<open>The opening parentheses: the text behind them and their number.\<close>

function open_list :: "nat \<Rightarrow> nat \<Rightarrow> byte list \<Rightarrow> (byte list \<times> nat) option" where
  "open_list n m s =
    (if starts s (CHR ''('') then
       (if n + m = ARITHMETIC_NESTING_CAP then None else open_list n (m + 1) (skip_blanks (tl s)))
     else Some (s, m))"
  by auto
termination
proof (relation "measure (\<lambda>(n, m, s). length s)")
  fix n m :: nat and s
  assume "starts s (CHR ''('')"
  then show "((n, m + 1, skip_blanks (tl s)), n, m, s) \<in> measure (\<lambda>(n, m, s). length s)"
    using length_dropWhile_le[of arithmetic_blank "tl s"] by (cases s) (auto simp: skip_blanks_def)
qed simp

declare open_list.simps [simp del]

fun close_list :: "nat \<Rightarrow> byte list \<Rightarrow> byte list option" where
  "close_list 0 s = Some s"
| "close_list (Suc m) s =
    (if starts (skip_blanks s) (CHR '')'') then close_list m (tl (skip_blanks s)) else None)"

definition operator_at :: "byte list \<Rightarrow> (arithmetic_assignment_operator \<times> nat) option" where
  "operator_at s =
    (if s = [] then None
     else if (hd s = CHR ''<'' \<or> hd s = CHR ''>'') \<and> starts (tl s) (hd s) \<and>
        starts (tl (tl s)) (CHR ''='')
     then Some (if hd s = CHR ''<'' then ASSIGN_SHIFT_LEFT else ASSIGN_SHIFT_RIGHT, 3)
     else if starts (tl s) (CHR ''='') then
       (if hd s = CHR ''*'' then Some (ASSIGN_MULTIPLY, 2)
        else if hd s = CHR ''/'' then Some (ASSIGN_DIVIDE, 2)
        else if hd s = CHR ''%'' then Some (ASSIGN_REMAINDER, 2)
        else if hd s = CHR ''+'' then Some (ASSIGN_ADD, 2)
        else if hd s = CHR ''-'' then Some (ASSIGN_SUBTRACT, 2)
        else if hd s = CHR ''&'' then Some (ASSIGN_AND, 2)
        else if hd s = CHR ''^'' then Some (ASSIGN_XOR, 2)
        else if hd s = CHR ''|'' then Some (ASSIGN_OR, 2)
        else None)
     else if hd s \<noteq> CHR ''='' then None else Some (ASSIGN_SET, 1))"

text \<open>Behind the name: the closing parentheses and the operator.\<close>

definition target_after ::
  "nat \<Rightarrow> byte list \<Rightarrow> (arithmetic_assignment_operator \<times> byte list) option" where
  "target_after m s =
    (case close_list m s of
       None \<Rightarrow> None
     | Some r \<Rightarrow> map_option (\<lambda>(operator, l). (operator, drop l (skip_blanks r)))
         (operator_at (skip_blanks r)))"

definition target_from ::
  "nat \<Rightarrow> nat \<Rightarrow> byte list \<Rightarrow> (byte list \<times> arithmetic_assignment_operator \<times> byte list) option" where
  "target_from n m s =
    (case open_list n m s of
       None \<Rightarrow> None
     | Some (s, m) \<Rightarrow>
         if s = [] \<or> \<not> name_start_byte (hd s) then None
         else map_option (\<lambda>(operator, r). (takeWhile name_byte s, operator, r))
           (target_after m (dropWhile name_byte s)))"

text \<open>Positions in the text are given by the suffixes that start there.\<close>

definition stands :: "byte list \<Rightarrow> nat \<Rightarrow> byte list \<Rightarrow> bool" where
  "stands T k s \<longleftrightarrow> k \<le> length T \<and> drop k T = s"

lemma stands_unique: "stands T k s \<Longrightarrow> stands T l s \<Longrightarrow> k = l"
  by (auto simp: stands_def dest!: arg_cong[of _ _ length])

lemma stands_advance: "stands T k s \<Longrightarrow> l \<le> length s \<Longrightarrow> stands T (k + l) (drop l s)"
  by (auto simp: stands_def add.commute)

lemma stands_next: "stands T k (b # s) \<Longrightarrow> stands T (Suc k) s"
  using stands_advance[of T k "b # s" 1] by simp

lemma stands_head:
  assumes "stands T k s"
  shows "k < length T \<and> T ! k = b \<longleftrightarrow> starts s b" "k = length T \<longleftrightarrow> s = []" "k < length T \<longleftrightarrow> s \<noteq> []"
    "s \<noteq> [] \<Longrightarrow> T ! k = hd s"
    "Suc k < length T \<and> T ! Suc k = b \<longleftrightarrow> starts (tl s) b"
    "Suc (Suc k) < length T \<and> T ! Suc (Suc k) = b \<longleftrightarrow> starts (tl (tl s)) b"
proof -
  show "k < length T \<and> T ! k = b \<longleftrightarrow> starts s b"
    using assms at_offset(1)[of k T b] by (auto simp: stands_def)
  show "k = length T \<longleftrightarrow> s = []" "k < length T \<longleftrightarrow> s \<noteq> []" using assms by (auto simp: stands_def)
  show "s \<noteq> [] \<Longrightarrow> T ! k = hd s" using assms by (auto simp: stands_def hd_drop_conv_nth)
  show one: "Suc k < length T \<and> T ! Suc k = b \<longleftrightarrow> starts (tl s) b" for b
  proof (cases s)
    case Nil
    then show ?thesis using assms by (auto simp: stands_def)
  next
    case (Cons a r)
    then show ?thesis using stands_next[of T k a r] assms at_offset(1)[of "Suc k" T b]
      by (auto simp: stands_def)
  qed
  show "Suc (Suc k) < length T \<and> T ! Suc (Suc k) = b \<longleftrightarrow> starts (tl (tl s)) b"
  proof (cases "tl s")
    case Nil
    then have "length s \<le> 1" by (cases s) auto
    then show ?thesis using assms Nil by (auto simp: stands_def)
  next
    case (Cons a r)
    then obtain x where "s = x # a # r" by (cases s) auto
    then have "stands T (Suc (Suc k)) r" using assms stands_next by blast
    then show ?thesis using Cons at_offset(1)[of "Suc (Suc k)" T b] by (auto simp: stands_def)
  qed
qed

lemma stands_scan:
  assumes "ap_input p = T" "ap_end p = length T" "stands T k s"
  shows "stands T (scan_while test p k) (dropWhile test s)"
    "scan_while test p k = k + length (takeWhile test s)"
  using scan_while_list[OF assms(1,2), of k test] scan_while_end[of k p test] assms
  by (auto simp: stands_def)

lemma stands_skip:
  assumes "ap_input p = T" "ap_end p = length T" "stands T k s"
  shows "stands T (arithmetic_skip_offset p k) (skip_blanks s)"
  unfolding arithmetic_skip_offset_def skip_blanks_def by (rule stands_scan(1)[OF assms])

lemma open_parentheses_list:
  assumes p: "ap_input p = T" "ap_end p = length T"
  shows "stands T k s \<Longrightarrow>
    (case open_list (ap_nesting p) m s of
       None \<Rightarrow> open_parentheses p k m = None
     | Some (s', m') \<Rightarrow> \<exists>k'. open_parentheses p k m = Some (k', m') \<and> stands T k' s')"
proof (induction "ap_nesting p" m s arbitrary: k rule: open_list.induct)
  case (1 m s)
  note h = stands_head[OF 1(2)]
  show ?case
  proof (cases "starts s (CHR ''('')")
    case False
    with h(1) 1(2) p show ?thesis by (simp add: open_list.simps[of _ _ s] open_parentheses.simps[of p k])
  next
    case True
    then have next': "stands T (arithmetic_skip_offset p (Suc k)) (skip_blanks (tl s))"
      using 1(2) by (cases s) (auto intro!: stands_skip[OF p] dest: stands_next)
    show ?thesis
    proof (cases "ap_nesting p + m = ARITHMETIC_NESTING_CAP")
      case full: True
      with True h(1) p show ?thesis
        by (simp add: open_list.simps[of _ _ s] open_parentheses.simps[of p k])
    next
      case False
      with True h(1) p have "open_parentheses p k m = open_parentheses p (arithmetic_skip_offset p (Suc k)) (m + 1)"
        by (simp add: open_parentheses.simps[of p k])
      moreover have "open_list (ap_nesting p) m s = open_list (ap_nesting p) (m + 1) (skip_blanks (tl s))"
        using True False by (simp add: open_list.simps[of _ _ s])
      ultimately show ?thesis using 1(1)[OF True False next'] by (simp only:)
    qed
  qed
qed

lemma close_parentheses_list:
  assumes p: "ap_input p = T" "ap_end p = length T"
  shows "stands T k s \<Longrightarrow>
    (case close_list m s of
       None \<Rightarrow> close_parentheses p k m = None
     | Some s' \<Rightarrow> \<exists>k'. close_parentheses p k m = Some k' \<and> stands T k' s')"
proof (induction m s arbitrary: k rule: close_list.induct)
  case (2 m s)
  let ?k = "arithmetic_skip_offset p k"
  have k: "stands T ?k (skip_blanks s)" by (rule stands_skip[OF p 2(2)])
  note h = stands_head[OF k]
  show ?case
  proof (cases "starts (skip_blanks s) (CHR '')'')")
    case True
    then have "stands T (Suc ?k) (tl (skip_blanks s))" using k stands_next by (cases "skip_blanks s") auto
    with 2(1)[OF True this] True h(1)[of "CHR '')''"] p show ?thesis by (auto simp: Let_def split: option.splits)
  next
    case False
    with h(1)[of "CHR '')''"] h(2,3) p show ?thesis by (auto simp: Let_def)
  qed
qed simp

lemma operator_at_list:
  assumes "ap_input p = T" "ap_end p = length T" "stands T k s"
  shows "arithmetic_assignment_operator_at p k = operator_at s"
proof (cases "s = []")
  case True
  then show ?thesis using assms stands_head(3)[OF assms(3)]
    by (simp add: arithmetic_assignment_operator_at_def operator_at_def)
next
  case False
  note h = stands_head[OF assms(3)]
  have "k < length T" using h(3) False by simp
  then show ?thesis
    using False assms(1,2) h(4)[OF False] h(5)[of "hd s"] h(5)[of "CHR ''=''"] h(6)[of "CHR ''=''"]
    by (auto simp: arithmetic_assignment_operator_at_def operator_at_def Let_def numeral_2_eq_2)
qed

lemma name_start_is_name: "name_start_byte b \<Longrightarrow> name_byte b"
  by (auto simp: byte_class_defs)

lemma target_reads:
  assumes r: "reads T p s c n"
  shows "case target_from n 0 (skip_blanks s) of
      None \<Rightarrow> arithmetic_assignment_target p = (None, p)
    | Some (name, operator, rest) \<Rightarrow>
        \<exists>b p'. arithmetic_assignment_target p = (Some (b, length name, operator), p') \<and>
          slice T b (b + length name) = name \<and> reads T p' rest c n"
proof -
  have p: "ap_input p = T" "ap_end p = length T" "ap_nesting p = n" using r by (simp_all add: reads_def)
  have "stands T (ap_offset p) (drop (ap_offset p) T)" using r by (simp add: stands_def reads_def)
  from stands_skip[OF p(1,2) this] r
  have k: "stands T (arithmetic_skip_offset p (ap_offset p)) (skip_blanks s)" by (simp add: reads_def)
  note opened = open_parentheses_list[OF p(1,2) k, of 0]
  show ?thesis
  proof (cases "open_list n 0 (skip_blanks s)")
    case None
    then show ?thesis using opened p(3) by (simp add: target_from_def arithmetic_assignment_target_def)
  next
    case (Some sm)
    obtain s' m where sm: "sm = (s', m)" by fastforce
    from opened Some sm p(3) obtain b where b: "stands T b s'"
      "open_parentheses p (arithmetic_skip_offset p (ap_offset p)) 0 = Some (b, m)" by auto
    note h = stands_head[OF b(1)]
    show ?thesis
    proof (cases "s' = [] \<or> \<not> name_start_byte (hd s')")
      case True
      then show ?thesis using Some sm b(2) h(2,4) p
        by (auto simp: target_from_def arithmetic_assignment_target_def)
    next
      case name: False
      then obtain x w where xw: "s' = x # w" "name_start_byte x" by (cases s') auto
      define name_end where "name_end = scan_while name_byte p (Suc b)"
      have "stands T (Suc b) w" using b(1) xw(1) stands_next by simp
      from stands_scan[OF p(1,2) this, of name_byte] xw name_start_is_name[OF xw(2)]
      have e: "stands T name_end (dropWhile name_byte s')"
        "name_end = b + length (takeWhile name_byte s')" by (simp_all add: name_end_def)
      have at_b: "T ! b = x" "b \<noteq> length T" using h(2,4) xw by simp_all
      note closed = close_parentheses_list[OF p(1,2) e(1), of m]
      let ?a = "target_after m (dropWhile name_byte s')"
      have from_eq: "target_from n 0 (skip_blanks s) =
          map_option (\<lambda>(operator, r). (takeWhile name_byte s', operator, r)) ?a"
        using Some sm name by (simp add: target_from_def)
      show ?thesis
      proof (cases "close_list m (dropWhile name_byte s')")
        case None
        then show ?thesis using closed b(2) at_b xw(2) p
          by (simp add: from_eq target_after_def arithmetic_assignment_target_def Let_def
              name_end_def[symmetric])
      next
        case (Some rest)
        with closed obtain d where d: "close_parentheses p name_end m = Some d" "stands T d rest" by auto
        define d' where "d' = arithmetic_skip_offset p d"
        have d': "stands T d' (skip_blanks rest)" unfolding d'_def by (rule stands_skip[OF p(1,2) d(2)])
        note operator = operator_at_list[OF p(1,2) d']
        show ?thesis
        proof (cases "operator_at (skip_blanks rest)")
          case None
          then show ?thesis using Some d(1) b(2) at_b xw(2) p operator
            by (simp add: from_eq target_after_def arithmetic_assignment_target_def Let_def
                name_end_def[symmetric] d'_def[symmetric])
        next
          case (Some found)
          obtain operator l where found: "found = (operator, l)" by fastforce
          have len: "l \<le> length (skip_blanks rest)"
          proof -
            obtain y z where "skip_blanks rest = y # z" using Some
              by (cases "skip_blanks rest") (auto simp: operator_at_def)
            with Some found show ?thesis
              by (cases z; cases "tl z") (auto simp: operator_at_def split: if_splits)
          qed
          have ne: "d' \<noteq> length T"
            using stands_head(2)[OF d'] Some by (auto simp: operator_at_def)
          have "reads T (p\<lparr>ap_offset := d' + l\<rparr>) (drop l (skip_blanks rest)) c n"
            using stands_advance[OF d' len] r by (simp add: reads_def stands_def)
          moreover have "slice T b (b + length (takeWhile name_byte s')) = takeWhile name_byte s'"
            using b(1) by (simp add: slice_def stands_def takeWhile_eq_take[symmetric])
          moreover have "arithmetic_assignment_target p =
              (Some (b, length (takeWhile name_byte s'), operator), p\<lparr>ap_offset := d' + l\<rparr>)"
            using Some found d(1) b(2) at_b xw(2) p operator_at_list[OF p(1,2) d'] ne e(2)
            by (simp add: arithmetic_assignment_target_def Let_def name_end_def[symmetric]
                d'_def[symmetric])
          ultimately show ?thesis
            using Some found \<open>close_list m (dropWhile name_byte s') = Some rest\<close>
            by (simp add: from_eq target_after_def)
        qed
      qed
    qed
  qed
qed

section \<open>The look-ahead on printed expressions\<close>

text \<open>Behind a name there is no target: what follows a complete expression, or an operator.\<close>

lemma assignment_free:
  "operator \<noteq> OPERATOR_NONE \<Longrightarrow>
    operator_at (skip_blanks ('' '' @ operator_text operator @ '' '' @ s)) = None"
  by (cases operator) (simp_all add: operator_at_def)

lemma target_after_none:
  "target_after 0 [] = None" "target_after 0 ('')'' @ s) = None"
  "target_after (Suc m) [] = None" "target_after (Suc m) ('')'' @ s) = target_after m s"
  "target_after m ('' : '' @ s) = None" "target_after m ('', '' @ s) = None"
  "target_after m ('' ? '' @ s) = None"
  "operator \<noteq> OPERATOR_NONE \<Longrightarrow> target_after m ('' '' @ operator_text operator @ '' '' @ s) = None"
  "assignment \<noteq> ASSIGN_NONE \<Longrightarrow>
    target_after (Suc m) ('' '' @ assignment_text assignment @ '' '' @ s) = None"
proof -
  show "target_after 0 [] = None" "target_after 0 ('')'' @ s) = None"
    "target_after (Suc m) [] = None" "target_after (Suc m) ('')'' @ s) = target_after m s"
    by (simp_all add: target_after_def operator_at_def)
  show "target_after m ('' : '' @ s) = None" "target_after m ('', '' @ s) = None"
    "target_after m ('' ? '' @ s) = None"
    by (cases m; simp add: target_after_def operator_at_def)+
  show "operator \<noteq> OPERATOR_NONE \<Longrightarrow> target_after m ('' '' @ operator_text operator @ '' '' @ s) = None"
    by (cases m; cases operator) (simp_all add: target_after_def operator_at_def)
  show "assignment \<noteq> ASSIGN_NONE \<Longrightarrow>
      target_after (Suc m) ('' '' @ assignment_text assignment @ '' '' @ s) = None"
    by (cases assignment) (simp_all add: target_after_def)
qed

lemma follows_target: "follows k s \<Longrightarrow> target_after 0 s = None"
  by (induction rule: follows.induct) (simp_all only: target_after_none not_False_eq_True)

lemma start_facts:
  "name_start_byte b \<Longrightarrow> b \<noteq> CHR ''(''" "digit_byte b \<Longrightarrow> b \<noteq> CHR ''('' \<and> \<not> name_start_byte b"
  "name_start_byte b \<Longrightarrow> b \<noteq> CHR '' '' \<and> b \<noteq> TAB \<and> b \<noteq> NL"
  "digit_byte b \<Longrightarrow> b \<noteq> CHR '' '' \<and> b \<noteq> TAB \<and> b \<noteq> NL"
  by (auto simp: byte_class_defs less_eq_char_def)

lemma target_from_name:
  assumes "variable_name name" "u = [] \<or> \<not> name_byte (hd u)"
  shows "target_from n m (name @ u) =
    map_option (\<lambda>(operator, r). (name, operator, r)) (target_after m u)"
proof -
  obtain b w where bw: "name = b # w" "name_start_byte b" "list_all name_byte w"
    using assms(1) by (cases name) (auto simp: variable_name_def)
  have "open_list n m (name @ u) = Some (name @ u, m)"
    using bw start_facts(1)[of b] by (subst open_list.simps) simp
  then show ?thesis
    using takeWhile_stop[OF bw(3) assms(2)] bw name_start_is_name[of b]
    by (simp add: target_from_def)
qed

lemma target_from_other:
  assumes "s \<noteq> []" "hd s \<noteq> CHR ''(''" "\<not> name_start_byte (hd s)"
  shows "target_from n m s = None"
  using assms by (simp add: target_from_def open_list.simps[of n m s] starts_def)

text \<open>Printed expressions start with a byte of their own.\<close>

lemma expression_start:
  "expression_ok e \<Longrightarrow> expression_text e \<noteq> [] \<and> skip_blanks (expression_text e @ u) = expression_text e @ u"
proof (induction e arbitrary: u)
  case (Literal k)
  obtain b w where bw: "rev (reversed_digits k) = b # w"
    using reversed_digits_last[of k] by (cases "rev (reversed_digits k)") auto
  then have "digit_byte b" using reversed_digits_last[of k] by (metis hd_rev list.sel(1))
  with bw start_facts(4)[of b] show ?case by simp
next
  case (Variable name)
  then show ?case using start_facts(3)[of "hd name"] by (cases name) (auto simp: variable_name_def)
next
  case (Assign operator name e)
  then show ?case using start_facts(3)[of "hd name"] by (cases name) (auto simp: variable_name_def)
qed (auto simp: wrapped_def)

lemma wrapped_start:
  assumes "expression_ok e"
  shows "wrapped k l (expression_text e) \<noteq> []"
    "skip_blanks (wrapped k l (expression_text e) @ u) = wrapped k l (expression_text e) @ u"
  using expression_start[OF assms] by (simp_all add: wrapped_def)

lemma target_from_open:
  "target_from n m (CHR ''('' # s) =
    (if n + m = ARITHMETIC_NESTING_CAP then None else target_from n (m + 1) (skip_blanks s))"
  by (simp add: target_from_def open_list.simps[of n m "CHR ''('' # s"])

lemma not_name_byte:
  "\<not> name_byte (CHR '' '')" "\<not> name_byte (CHR '','')"
  by (simp_all add: byte_class_defs less_eq_char_def)

text \<open>
  No target in an expression above the level of assignments, or inside parentheses, where none is
  found behind it.
\<close>

lemma target_from_expression:
  assumes "expression_ok e" "0 < m \<or> 2 \<le> expression_level e" "target_after m u = None"
    "u = [] \<or> \<not> name_byte (hd u)"
  shows "target_from n m (expression_text e @ u) = None"
  using assms
proof (induction e arbitrary: m u)
  case (Literal k)
  obtain b w where bw: "rev (reversed_digits k) = b # w"
    using reversed_digits_last[of k] by (cases "rev (reversed_digits k)") auto
  then have "digit_byte b" using reversed_digits_last[of k] by (metis hd_rev list.sel(1))
  with bw start_facts(2)[of b] show ?case by (simp add: target_from_other)
next
  case (Variable name)
  then show ?case by (simp add: target_from_name)
next
  case (Unary operator e)
  then show ?case by (auto simp: byte_class_defs less_eq_char_def intro!: target_from_other)
next
  case (Binary operator l r)
  let ?u = "'' '' @ operator_text operator @ '' '' @
    wrapped (operator_level operator + 1) (expression_level r) (expression_text r) @ u"
  have range: "3 \<le> operator_level operator" using Binary.prems(1) operator_level_range by simp
  have none: "target_after k ?u = None" for k
    using Binary.prems(1) target_after_none(8)[of operator k] by simp
  have space: "?u = [] \<or> \<not> name_byte (hd ?u)" using not_name_byte by simp
  show ?case
  proof (cases "expression_level l < operator_level operator")
    case True
    have "target_from n (Suc m) (expression_text l @ '')'' @ ?u) = None"
      using Binary.prems(1) target_after_none(4)[of m ?u] none[of m]
      by (intro Binary.IH(1)) (simp_all add: byte_class_defs less_eq_char_def)
    then show ?thesis
      using True expression_start[of l "'')'' @ ?u"] Binary.prems(1)
      by (simp add: wrapped_def target_from_open)
  next
    case False
    have "target_from n m (expression_text l @ ?u) = None"
      using Binary.prems(1) False range by (intro Binary.IH(1) none space) auto
    then show ?thesis using False by (simp add: wrapped_def)
  qed
next
  case (Conditional c a b)
  let ?u = "'' ? '' @ expression_text a @ '' : '' @ wrapped 2 (expression_level b) (expression_text b) @ u"
  have none: "target_after k ?u = None" for k by (rule target_after_none(7))
  have space: "?u = [] \<or> \<not> name_byte (hd ?u)" using not_name_byte by simp
  show ?case
  proof (cases "expression_level c < 3")
    case True
    have "target_from n (Suc m) (expression_text c @ '')'' @ ?u) = None"
      using Conditional.prems(1) target_after_none(4)[of m ?u] none[of m]
      by (intro Conditional.IH(1)) (simp_all add: byte_class_defs less_eq_char_def)
    then show ?thesis
      using True expression_start[of c "'')'' @ ?u"] Conditional.prems(1)
      by (simp add: wrapped_def target_from_open)
  next
    case False
    have "target_from n m (expression_text c @ ?u) = None"
      using Conditional.prems(1) False by (intro Conditional.IH(1) none space) auto
    then show ?thesis using False by (simp add: wrapped_def)
  qed
next
  case (Assign operator name e)
  then obtain k where k: "m = Suc k" by (cases m) auto
  let ?u = "'' '' @ assignment_text operator @ '' '' @ wrapped 1 (expression_level e) (expression_text e) @ u"
  have "target_from n m (name @ ?u) = None"
    using Assign.prems(1) target_from_name[of name ?u] target_after_none(9)[of operator k] k not_name_byte by simp
  then show ?case by simp
next
  case (Comma l r)
  let ?u = "'', '' @ wrapped 1 (expression_level r) (expression_text r) @ u"
  have "target_from n m (expression_text l @ ?u) = None"
    using Comma.prems target_after_none(6)[of m] not_name_byte by (intro Comma.IH(1)) auto
  then show ?case by simp
qed

text \<open>An assignment is found.\<close>

lemma target_from_assignment:
  assumes "variable_name name" "operator \<noteq> ASSIGN_NONE"
  shows "target_from n 0 (name @ '' '' @ assignment_text operator @ '' '' @ u) =
    Some (name, operator, '' '' @ u)"
proof -
  have "target_after 0 ('' '' @ assignment_text operator @ '' '' @ u) = Some (operator, '' '' @ u)"
    using assms(2) by (cases operator) (simp_all add: target_after_def operator_at_def)
  then show ?thesis using target_from_name[OF assms(1)] not_name_byte by simp
qed

end
