(* ===== verification/ArithmeticCorrect.thy ===== *)
theory ArithmeticCorrect
  imports ArithmeticTargets
begin

text \<open>
  The arithmetic machine gives the printed text of an expression the value of the expression. The
  runs over an expression are put together from the runs over its parts, one precedence level at
  a time: \<open>parses\<close> says that a fresh frame of a level consumes a text and returns its value, \<open>chain\<close>
  that a frame of a level with left-associative operators has done so up to the operator it
  looks for next. Evaluation is switched off in the parts that are skipped; they count as 0.
\<close>

section \<open>Exact values\<close>

lemma checked_Some: "checked r = Some v \<longleftrightarrow> r = Some v \<and> long_ok v"
  by (cases r) (auto simp: checked_def in_range_def)

lemma apply_binary_value:
  assumes "long_ok x" "long_ok y" "checked (operator_value operator x y) = Some v"
  shows "arithmetic_apply_binary operator x y = Inr v"
  using apply_binary_exact[OF assms(1,2), of operator] assms(3)
  by (cases "arithmetic_apply_binary operator x y") (auto simp: checked_Some)

lemma apply_assignment_value:
  assumes "long_ok x" "long_ok y" "operator \<noteq> ASSIGN_SET" "operator \<noteq> ASSIGN_NONE"
    "checked (operator_value (assignment_operator operator) x y) = Some v"
  shows "arithmetic_apply_assignment operator x y = Some v"
proof -
  have "arithmetic_apply_binary (assignment_operator operator) x y = Inr v"
    by (rule apply_binary_value[OF assms(1,2,5)])
  with assms(3,4) show ?thesis
    by (cases operator)
      (simp_all add: arithmetic_apply_binary_def arithmetic_apply_assignment_def Let_def
        split: option.splits if_splits)
qed

lemma variable_value_long: "variable_value c name = Some v \<Longrightarrow> long_ok v"
  by (auto simp: variable_value_def split: option.splits prod.splits bool.splits if_splits
      dest: arithmetic_constant_long_ok)

lemma expression_value_long:
  "expression_ok e \<Longrightarrow> expression_value e c = Some (v, c') \<Longrightarrow> long_ok v"
proof (induction e arbitrary: c v c')
  case (Literal n)
  then show ?case by (simp add: long_ok_def)
next
  case (Assign operator name e)
  then show ?case
    by (auto simp: checked_Some split: option.splits prod.splits if_splits)
qed (auto simp: checked_Some in_range_def dest: variable_value_long
    split: option.splits prod.splits if_splits)

section \<open>Runs\<close>

definition steps :: "arithmetic_machine \<Rightarrow> arithmetic_machine \<Rightarrow> bool" where
  "steps m m' \<longleftrightarrow> (\<exists>n. \<forall>k. arithmetic_machine_run (n + k) m = arithmetic_machine_run k m')"

lemma steps_refl [simp]: "steps m m"
  unfolding steps_def by (rule exI[of _ 0]) simp

lemma steps_trans: "steps m m' \<Longrightarrow> steps m' m'' \<Longrightarrow> steps m m''"
  unfolding steps_def by (metis add.assoc)

lemma steps_step:
  assumes "arithmetic_machine_step m = (True, m')" "am_frames m \<noteq> []"
  shows "steps m m'"
  unfolding steps_def by (rule exI[of _ 1]) (simp add: assms)

text \<open>The machine about to work on its top frame, and with a value for it.\<close>

definition doing ::
  "byte list \<Rightarrow> arithmetic_machine \<Rightarrow> arithmetic_parse_frame list \<Rightarrow> byte list \<Rightarrow>
    gsh_native_expansion_context \<Rightarrow> nat \<Rightarrow> bool" where
  "doing T m fs s c n \<longleftrightarrow> am_frames m = fs \<and> \<not> am_returned m \<and> reads T (am_parser m) s c n"

definition done_with ::
  "byte list \<Rightarrow> arithmetic_machine \<Rightarrow> arithmetic_parse_frame list \<Rightarrow> int \<Rightarrow> byte list \<Rightarrow>
    gsh_native_expansion_context \<Rightarrow> nat \<Rightarrow> bool" where
  "done_with T m fs v s c n \<longleftrightarrow>
    am_frames m = fs \<and> am_returned m \<and> am_value m = v \<and> reads T (am_parser m) s c n"

definition parses ::
  "nat \<Rightarrow> bool \<Rightarrow> byte list \<Rightarrow> byte list \<Rightarrow> gsh_native_expansion_context \<Rightarrow> int \<Rightarrow>
    gsh_native_expansion_context \<Rightarrow> nat \<Rightarrow> nat \<Rightarrow> bool" where
  "parses k ev t u c v c' n d \<longleftrightarrow>
    (\<forall>T m fs. doing T m (blank_frame (level_kind k) ev # fs) (t @ u) c n \<and>
      length fs + d \<le> ARITHMETIC_FRAME_CAP \<longrightarrow>
      (\<exists>m'. steps m m' \<and> done_with T m' fs v u c' n))"

text \<open>The frame \<open>f\<close> waits for \<open>r\<close>, and has the value \<open>v\<close> with it.\<close>

definition pending :: "nat \<Rightarrow> bool \<Rightarrow> arithmetic_parse_frame \<Rightarrow> int \<Rightarrow> int \<Rightarrow> bool" where
  "pending k ev f r v \<longleftrightarrow> af_kind f = level_kind k \<and> af_evaluate f = ev \<and>
    (ev \<longrightarrow> af_phase f = 1 \<and> r = v \<or>
      af_phase f = 2 \<and> 0 < k \<and> arithmetic_apply_binary (af_operator f) (af_value f) r = Inr v) \<and>
    (\<not> ev \<longrightarrow> v = 0 \<and> (af_phase f = 1 \<or> af_phase f = 2))"

definition chain ::
  "nat \<Rightarrow> bool \<Rightarrow> byte list \<Rightarrow> byte list \<Rightarrow> gsh_native_expansion_context \<Rightarrow> int \<Rightarrow>
    gsh_native_expansion_context \<Rightarrow> nat \<Rightarrow> nat \<Rightarrow> bool" where
  "chain k ev t u c v c' n d \<longleftrightarrow>
    (\<forall>T m fs. doing T m (blank_frame (level_kind k) ev # fs) (t @ u) c n \<and>
      length fs + d \<le> ARITHMETIC_FRAME_CAP \<longrightarrow>
      (\<exists>m' f r. steps m m' \<and> done_with T m' (f # fs) r u c' n \<and> pending k ev f r v))"

lemma parsesD:
  assumes "parses k ev t u c v c' n d" "doing T m (blank_frame (level_kind k) ev # fs) (t @ u) c n"
    "length fs + d \<le> ARITHMETIC_FRAME_CAP"
  obtains m' where "steps m m'" "done_with T m' fs v u c' n"
  using assms unfolding parses_def by blast

lemma chainD:
  assumes "chain k ev t u c v c' n d" "doing T m (blank_frame (level_kind k) ev # fs) (t @ u) c n"
    "length fs + d \<le> ARITHMETIC_FRAME_CAP"
  obtains m' f r where "steps m m'" "done_with T m' (f # fs) r u c' n" "pending k ev f r v"
  using assms unfolding chain_def by blast

lemma push_doing:
  assumes "am_frames m = fs" "\<not> am_returned m" "reads T (am_parser m) s c n"
    "length fs < ARITHMETIC_FRAME_CAP"
  shows "\<exists>m'. arithmetic_machine_push m kind e = (True, m') \<and> doing T m' (blank_frame kind e # fs) s c n"
  using assms by (simp add: arithmetic_machine_push_def doing_def)

lemma complete_done:
  assumes "am_frames m = f # fs" "reads T (am_parser m) s c n"
  shows "done_with T (arithmetic_machine_complete m v) fs v s c n"
  using assms by (simp add: arithmetic_machine_complete_def done_with_def)

lemma binary_level: "3 \<le> k \<Longrightarrow> k \<le> 12 \<Longrightarrow> binary_kind (level_kind k)"
  by (erule (1) level_cases) simp_all

lemma binary_step:
  "binary_kind (af_kind f) \<Longrightarrow> am_frames m = f # fs \<Longrightarrow>
    arithmetic_machine_step m = arithmetic_step_binary m f"
  by (cases "af_kind f") (simp_all add: arithmetic_machine_step_def)

text \<open>A fresh frame of a binary level asks the level above it.\<close>

lemma binary_start:
  assumes "3 \<le> k" "k \<le> 12" "doing T m (blank_frame (level_kind k) ev # fs) s c n"
    "length fs + 2 \<le> ARITHMETIC_FRAME_CAP"
  shows "\<exists>m'. steps m m' \<and> doing T m' (blank_frame (level_kind (Suc k)) ev #
    (blank_frame (level_kind k) ev)\<lparr>af_phase := 1\<rparr> # fs) s c n"
proof -
  let ?f = "blank_frame (level_kind k) ev"
  have m: "am_frames m = ?f # fs" "\<not> am_returned m" "reads T (am_parser m) s c n"
    using assms(3) by (simp_all add: doing_def)
  let ?m = "m\<lparr>am_frames := ?f\<lparr>af_phase := 1\<rparr> # fs\<rparr>"
  obtain m' where m': "arithmetic_machine_push ?m (child_kind (level_kind k)) ev = (True, m')"
    "doing T m' (blank_frame (child_kind (level_kind k)) ev # ?f\<lparr>af_phase := 1\<rparr> # fs) s c n"
    using push_doing[of ?m "?f\<lparr>af_phase := 1\<rparr> # fs" T s c n] m assms(4) by auto
  have "arithmetic_machine_step m = (True, m')"
    using binary_step[of ?f m fs] binary_level[OF assms(1,2)] m m'(1)
    by (simp add: arithmetic_step_binary_def)
  from steps_step[OF this] m(1) m'(2) show ?thesis by auto
qed

text \<open>A frame that waits for a value takes it and looks for the next operator.\<close>

lemma binary_take:
  assumes k: "3 \<le> k" "k \<le> 12" and m: "done_with T m (f # fs) r u c n" and f: "pending k ev f r v"
    and next': "next_operator (level_kind k) (skip_blanks u) = (operator, u')"
  shows "\<exists>p w. reads T p u' c n \<and> (ev \<longrightarrow> w = v) \<and> arithmetic_machine_step m =
    (let m = m\<lparr>am_returned := False, am_parser := p\<rparr>
     in if operator = OPERATOR_NONE then (True, arithmetic_machine_complete m v)
        else arithmetic_machine_push
          (m\<lparr>am_frames := f\<lparr>af_phase := 2, af_value := w, af_operator := operator\<rparr> # fs\<rparr>)
          (level_kind (Suc k))
          (ev \<and> (operator \<noteq> OPERATOR_LOGICAL_AND \<or> v \<noteq> 0) \<and> (operator \<noteq> OPERATOR_LOGICAL_OR \<or> v = 0)))"
proof -
  have mf: "am_frames m = f # fs" "am_returned m" "am_value m = r" "reads T (am_parser m) u c n"
    using m by (simp_all add: done_with_def)
  have kind: "binary_kind (af_kind f)" "af_kind f = level_kind k" "af_evaluate f = ev" "af_phase f \<noteq> 0"
    using f binary_level[OF k] by (auto simp: pending_def)
  obtain p where p: "arithmetic_next_binary (am_parser m) (level_kind k) = (operator, p)" "reads T p u' c n"
    using next_binary_reads[OF mf(4), of "level_kind k"] kind(1,2) next' by auto
  let ?w = "if ev then v else if af_phase f = 1 then r else af_value f"
  have value': "(if af_phase f = 2 \<and> af_evaluate f
      then arithmetic_apply_binary (af_operator f) (af_value f) r
      else Inr (if af_phase f = 1 then r else af_value f)) = Inr ?w"
    using f by (auto simp: pending_def)
  have v: "(if ev then ?w else 0) = v" using f by (auto simp: pending_def)
  have "arithmetic_machine_step m = arithmetic_step_binary m f" by (rule binary_step[OF kind(1) mf(1)])
  also have "\<dots> = (let m = m\<lparr>am_returned := False, am_parser := p\<rparr>
     in if operator = OPERATOR_NONE then (True, arithmetic_machine_complete m v)
        else arithmetic_machine_push
          (m\<lparr>am_frames := f\<lparr>af_phase := 2, af_value := ?w, af_operator := operator\<rparr> # fs\<rparr>)
          (level_kind (Suc k))
          (ev \<and> (operator \<noteq> OPERATOR_LOGICAL_AND \<or> ?w \<noteq> 0) \<and> (operator \<noteq> OPERATOR_LOGICAL_OR \<or> ?w = 0)))"
    unfolding arithmetic_step_binary_def Let_def take_returned[OF mf(2)] mf(3)
    using kind p(1) value' v mf(1)
    by (simp split del: if_split cong: if_cong)
  also have "(ev \<and> (operator \<noteq> OPERATOR_LOGICAL_AND \<or> ?w \<noteq> 0) \<and> (operator \<noteq> OPERATOR_LOGICAL_OR \<or> ?w = 0)) =
      (ev \<and> (operator \<noteq> OPERATOR_LOGICAL_AND \<or> v \<noteq> 0) \<and> (operator \<noteq> OPERATOR_LOGICAL_OR \<or> v = 0))" by auto
  finally show ?thesis using p(2) by (intro exI[of _ p] exI[of _ ?w]) simp
qed

section \<open>Levels of binary operators\<close>

lemma chain_start:
  assumes k: "3 \<le> k" "k \<le> 12" and up: "parses (Suc k) ev t u c v c' n d" "0 < d"
    and v: "\<not> ev \<Longrightarrow> v = 0"
  shows "chain k ev t u c v c' n (Suc d)"
  unfolding chain_def
proof (intro allI impI, elim conjE)
  fix T m fs
  let ?f = "(blank_frame (level_kind k) ev)\<lparr>af_phase := 1\<rparr>"
  assume m: "doing T m (blank_frame (level_kind k) ev # fs) (t @ u) c n"
    and cap: "length fs + Suc d \<le> ARITHMETIC_FRAME_CAP"
  obtain m1 where m1: "steps m m1" "doing T m1 (blank_frame (level_kind (Suc k)) ev # ?f # fs) (t @ u) c n"
    using binary_start[OF k m] cap up(2) by auto
  obtain m2 where m2: "steps m1 m2" "done_with T m2 (?f # fs) v u c' n"
    by (rule parsesD[OF up(1) m1(2)]) (use cap in simp_all)
  have "pending k ev ?f v v" using v by (auto simp: pending_def)
  with steps_trans[OF m1(1) m2(1)] m2(2)
  show "\<exists>m' f r. steps m m' \<and> done_with T m' (f # fs) r u c' n \<and> pending k ev f r v" by blast
qed

lemma chain_finish:
  assumes k: "3 \<le> k" "k \<le> 12" and up: "chain k ev t u c v c' n d" and u: "follows k u"
  shows "parses k ev t u c v c' n d"
  unfolding parses_def
proof (intro allI impI, elim conjE)
  fix T m fs
  assume m: "doing T m (blank_frame (level_kind k) ev # fs) (t @ u) c n"
    and cap: "length fs + d \<le> ARITHMETIC_FRAME_CAP"
  obtain m1 f r where m1: "steps m m1" "done_with T m1 (f # fs) r u c' n" "pending k ev f r v"
    by (rule chainD[OF up m cap])
  from binary_take[OF k m1(2,3) follows_next_operator[OF u k]] obtain p where
    p: "reads T p (skip_blanks u) c' n" "arithmetic_machine_step m1 =
      (True, arithmetic_machine_complete (m1\<lparr>am_returned := False, am_parser := p\<rparr>) v)"
    by (auto simp: Let_def)
  have fr: "am_frames m1 = f # fs" using m1(2) by (simp add: done_with_def)
  have "done_with T (arithmetic_machine_complete (m1\<lparr>am_returned := False, am_parser := p\<rparr>) v) fs v u c' n"
    using complete_done[of "m1\<lparr>am_returned := False, am_parser := p\<rparr>" f fs T u c' n v] p(1) fr
    by (simp add: reads_skip)
  with steps_trans[OF m1(1) steps_step[OF p(2)]] fr
  show "\<exists>m'. steps m m' \<and> done_with T m' fs v u c' n" by auto
qed

lemma chain_extend:
  assumes operator: "operator \<noteq> OPERATOR_NONE" "k = operator_level operator"
    and left: "chain k ev t ('' '' @ operator_text operator @ '' '' @ t2 @ u) c x c1 n d"
    and right: "parses (Suc k) (ev \<and> (operator \<noteq> OPERATOR_LOGICAL_AND \<or> x \<noteq> 0) \<and>
      (operator \<noteq> OPERATOR_LOGICAL_OR \<or> x = 0)) t2 u c1 y c2 n d2"
    and apply': "ev \<Longrightarrow> arithmetic_apply_binary operator x y = Inr v" and v: "\<not> ev \<Longrightarrow> v = 0"
    and d: "0 < d2"
  shows "chain k ev (t @ '' '' @ operator_text operator @ '' '' @ t2) u c v c2 n (max d (1 + d2))"
  unfolding chain_def
proof (intro allI impI, elim conjE)
  fix T m fs
  let ?ev = "ev \<and> (operator \<noteq> OPERATOR_LOGICAL_AND \<or> x \<noteq> 0) \<and> (operator \<noteq> OPERATOR_LOGICAL_OR \<or> x = 0)"
  let ?u = "'' '' @ operator_text operator @ '' '' @ t2 @ u"
  have k: "3 \<le> k" "k \<le> 12" using operator_level_range[OF operator(1)] operator(2) by simp_all
  assume m: "doing T m (blank_frame (level_kind k) ev # fs)
      ((t @ '' '' @ operator_text operator @ '' '' @ t2) @ u) c n"
    and cap: "length fs + max d (1 + d2) \<le> ARITHMETIC_FRAME_CAP"
  then have cap': "length fs + 2 \<le> ARITHMETIC_FRAME_CAP" using d by simp
  obtain m1 f r where m1: "steps m m1" "done_with T m1 (f # fs) r ?u c1 n" "pending k ev f r x"
    by (rule chainD[OF left, of T m fs]) (use m cap in simp_all)
  have next': "next_operator (level_kind k) (skip_blanks ?u) = (operator, '' '' @ t2 @ u)"
    using next_operator_found[OF operator(1), of "t2 @ u"] operator(2) by simp
  from binary_take[OF k m1(2,3) next'] operator(1) obtain p w where
    p: "reads T p ('' '' @ t2 @ u) c1 n" "ev \<longrightarrow> w = x" "arithmetic_machine_step m1 =
      arithmetic_machine_push
          (m1\<lparr>am_returned := False, am_parser := p,
             am_frames := f\<lparr>af_phase := 2, af_value := w, af_operator := operator\<rparr> # fs\<rparr>)
          (level_kind (Suc k)) ?ev"
    by (auto simp: Let_def)
  let ?g = "f\<lparr>af_phase := 2, af_value := w, af_operator := operator\<rparr>"
  have "reads T p (t2 @ u) c1 n" using p(1) by (simp add: reads_def)
  then obtain m2 where m2: "arithmetic_machine_step m1 = (True, m2)"
    "doing T m2 (blank_frame (level_kind (Suc k)) ?ev # ?g # fs) (t2 @ u) c1 n"
    using push_doing[of "m1\<lparr>am_returned := False, am_parser := p, am_frames := ?g # fs\<rparr>" "?g # fs" T
        "t2 @ u" c1 n "level_kind (Suc k)" ?ev] cap'
    unfolding p(3) by auto
  have s12: "steps m1 m2" using steps_step[OF m2(1)] m1(2) by (simp add: done_with_def)
  obtain m3 where m3: "steps m2 m3" "done_with T m3 (?g # fs) y u c2 n"
    by (rule parsesD[OF right m2(2)]) (use cap in simp_all)
  have "pending k ev ?g y v"
    using m1(3) p(2) apply' v k(1) by (auto simp: pending_def)
  with steps_trans[OF steps_trans[OF m1(1) s12] m3(1)] m3(2)
  show "\<exists>m' f r. steps m m' \<and> done_with T m' (f # fs) r u c2 n \<and> pending k ev f r v" by blast
qed

lemma descend_binary:
  assumes "3 \<le> k" "k \<le> 12" "parses (Suc k) ev t u c v c' n d" "0 < d" "\<not> ev \<Longrightarrow> v = 0" "follows k u"
  shows "parses k ev t u c v c' n (Suc d)"
  by (rule chain_finish[OF assms(1,2) chain_start[OF assms(1-5)] assms(6)])

section \<open>The other levels\<close>

lemma frame_step:
  "am_frames m = f # fs \<Longrightarrow> af_kind f = FRAME_COMMA \<Longrightarrow> arithmetic_machine_step m = arithmetic_step_comma m f"
  "am_frames m = f # fs \<Longrightarrow> af_kind f = FRAME_ASSIGNMENT \<Longrightarrow>
    arithmetic_machine_step m = arithmetic_step_assignment m f"
  "am_frames m = f # fs \<Longrightarrow> af_kind f = FRAME_CONDITIONAL \<Longrightarrow>
    arithmetic_machine_step m = arithmetic_step_conditional m f"
  "am_frames m = f # fs \<Longrightarrow> af_kind f = FRAME_UNARY \<Longrightarrow> arithmetic_machine_step m = arithmetic_step_unary m f"
  "am_frames m = f # fs \<Longrightarrow> af_kind f = FRAME_PRIMARY \<Longrightarrow>
    arithmetic_machine_step m = arithmetic_step_primary m f"
  by (simp_all add: arithmetic_machine_step_def)

text \<open>A step that pushes a frame, from a frame \<open>f\<close> that becomes \<open>g\<close>.\<close>

lemma pushing_step:
  assumes "am_frames m = f # fs" "arithmetic_machine_step m = arithmetic_machine_push m1 kind e"
    "am_frames m1 = g # fs" "\<not> am_returned m1" "reads T (am_parser m1) s c n"
    "length fs + 2 \<le> ARITHMETIC_FRAME_CAP"
  obtains m' where "steps m m'" "doing T m' (blank_frame kind e # g # fs) s c n"
proof -
  obtain m' where "arithmetic_machine_push m1 kind e = (True, m')"
    "doing T m' (blank_frame kind e # g # fs) s c n"
    using push_doing[OF assms(3,4,5)] assms(6) by auto
  with steps_step[of m m'] assms(1,2) that show thesis by simp
qed

lemma completing_step:
  assumes "am_frames m = f # fs" "arithmetic_machine_step m = (True, arithmetic_machine_complete m1 v)"
    "am_frames m1 = g # fs" "reads T (am_parser m1) s c n"
  shows "\<exists>m'. steps m m' \<and> done_with T m' fs v s c n"
  using steps_step[OF assms(2)] complete_done[OF assms(3,4)] assms(1) by auto

lemma descend_unary:
  assumes up: "parses 14 ev t u c v c' n d" "0 < d" and v: "\<not> ev \<Longrightarrow> v = 0"
    and t: "\<forall>b\<in>set ''+-!~''. \<not> starts (skip_blanks (t @ u)) b"
  shows "parses 13 ev t u c v c' n (Suc d)"
  unfolding parses_def
proof (intro allI impI, elim conjE)
  fix T m fs
  let ?f = "blank_frame FRAME_UNARY ev" and ?g = "(blank_frame FRAME_UNARY ev)\<lparr>af_phase := 2\<rparr>"
  assume m: "doing T m (blank_frame (level_kind 13) ev # fs) (t @ u) c n"
    and cap: "length fs + Suc d \<le> ARITHMETIC_FRAME_CAP"
  have mf: "am_frames m = ?f # fs" "\<not> am_returned m" "reads T (am_parser m) (t @ u) c n"
    using m by (simp_all add: doing_def)
  have no: "\<not> (\<exists>b\<in>set ''+-!~''. starts (skip_blanks (t @ u)) b)" using t by blast
  obtain p where p: "match_unary (am_parser m) ''+-!~'' = (None, p)" "reads T p (t @ u) c n"
    using match_unary_reads[OF mf(3), of "''+-!~''"] unfolding if_not_P[OF no] by blast
  let ?m = "m\<lparr>am_parser := p, am_frames := ?g # fs\<rparr>"
  have run: "arithmetic_machine_step m = arithmetic_machine_push ?m FRAME_PRIMARY ev"
    unfolding frame_step(4)[OF mf(1) blank_fields(2)] arithmetic_step_unary_def p(1)
    using mf(1) by simp
  obtain m1 where m1: "steps m m1" "doing T m1 (blank_frame FRAME_PRIMARY ev # ?g # fs) (t @ u) c n"
    by (rule pushing_step[OF mf(1) run]) (use mf(2) p(2) cap up(2) in simp_all)
  obtain m2 where m2: "steps m1 m2" "done_with T m2 (?g # fs) v u c' n"
    by (rule parsesD[OF up(1), of T m1 "?g # fs"]) (use m1(2) cap in simp_all)
  have d2: "am_frames m2 = ?g # fs" "am_returned m2" "am_value m2 = v" "reads T (am_parser m2) u c' n"
    using m2(2) by (simp_all add: done_with_def)
  have "arithmetic_machine_step m2 = (True, arithmetic_machine_complete (m2\<lparr>am_returned := False\<rparr>) v)"
    using frame_step(4)[OF d2(1)] d2(2,3) v
    by (simp add: arithmetic_step_unary_def take_returned)
  from completing_step[OF d2(1) this, of ?g T u c' n] d2 steps_trans[OF m1(1) m2(1)]
  show "\<exists>m'. steps m m' \<and> done_with T m' fs v u c' n" by (auto dest: steps_trans)
qed

lemma unary_parses:
  assumes up: "parses 13 ev t u c v c' n d" "0 < d" and v: "\<not> ev \<Longrightarrow> v = 0"
    and operator: "operator \<in> set ''+-!~''"
    and w: "ev \<Longrightarrow> in_range (unary_exact operator v) = Some w" "\<not> ev \<Longrightarrow> w = 0"
  shows "parses 13 ev (operator # t) u c w c' n (Suc d)"
  unfolding parses_def
proof (intro allI impI, elim conjE)
  fix T m fs
  let ?f = "blank_frame FRAME_UNARY ev"
  let ?g = "(blank_frame FRAME_UNARY ev)\<lparr>af_unary := operator, af_phase := 1\<rparr>"
  assume m: "doing T m (blank_frame (level_kind 13) ev # fs) ((operator # t) @ u) c n"
    and cap: "length fs + Suc d \<le> ARITHMETIC_FRAME_CAP"
  have mf: "am_frames m = ?f # fs" "\<not> am_returned m" "reads T (am_parser m) (operator # t @ u) c n"
    using m by (simp_all add: doing_def)
  have skip: "skip_blanks (operator # t @ u) = operator # t @ u" using operator by auto
  have yes: "\<exists>b\<in>set ''+-!~''. starts (operator # t @ u) b"
    unfolding starts_simps using operator by blast
  obtain p where p: "match_unary (am_parser m) ''+-!~'' = (Some operator, p)" "reads T p (t @ u) c n"
    using match_unary_reads[OF mf(3), of "''+-!~''"] unfolding skip list.sel if_P[OF yes] by blast
  let ?m = "m\<lparr>am_parser := p, am_frames := ?g # fs\<rparr>"
  have run: "arithmetic_machine_step m = arithmetic_machine_push ?m FRAME_UNARY ev"
    unfolding frame_step(4)[OF mf(1) blank_fields(2)] arithmetic_step_unary_def p(1)
    using mf(1) by simp
  obtain m1 where m1: "steps m m1" "doing T m1 (blank_frame FRAME_UNARY ev # ?g # fs) (t @ u) c n"
    by (rule pushing_step[OF mf(1) run]) (use mf(2) p(2) cap up(2) in simp_all)
  obtain m2 where m2: "steps m1 m2" "done_with T m2 (?g # fs) v u c' n"
    by (rule parsesD[OF up(1), of T m1 "?g # fs"]) (use m1(2) cap in simp_all)
  have d2: "am_frames m2 = ?g # fs" "am_returned m2" "am_value m2 = v" "reads T (am_parser m2) u c' n"
    using m2(2) by (simp_all add: done_with_def)
  have value': "unary_value operator v = w" "\<not> (operator = CHR ''-'' \<and> v = LONG_MIN)" if ev
    using w(1)[OF that] operator
    by (auto simp: in_range_def long_ok_def unary_exact_def unary_value_def not_eq_complement
        split: if_splits)
  have "arithmetic_machine_step m2 = (True, arithmetic_machine_complete (m2\<lparr>am_returned := False\<rparr>) w)"
    unfolding frame_step(4)[OF d2(1), simplified] arithmetic_step_unary_def take_returned[OF d2(2)] d2(3)
    using value' w(2) by (cases ev) (auto simp: Let_def)
  from completing_step[OF d2(1) this, of ?g T u c' n] d2 steps_trans[OF m1(1) m2(1)]
  show "\<exists>m'. steps m m' \<and> done_with T m' fs w u c' n" by (auto dest: steps_trans)
qed

lemma atom_parses:
  assumes atom: "\<And>p T. reads T p (t @ u) c n \<Longrightarrow>
      \<exists>p'. arithmetic_parse_atom p ev = (Some v, p') \<and> reads T p' u c' n"
    and v: "\<not> ev \<Longrightarrow> v' = 0" "ev \<Longrightarrow> v' = v" and t: "\<not> starts (skip_blanks (t @ u)) (CHR ''('')"
  shows "parses 14 ev t u c v' c' n (Suc 0)"
  unfolding parses_def
proof (intro allI impI, elim conjE)
  fix T m fs
  let ?f = "blank_frame FRAME_PRIMARY ev"
  assume m: "doing T m (blank_frame (level_kind 14) ev # fs) (t @ u) c n"
  have mf: "am_frames m = ?f # fs" "\<not> am_returned m" "reads T (am_parser m) (t @ u) c n"
    using m by (simp_all add: doing_def)
  obtain p where p: "arithmetic_match (am_parser m) ''('' = (False, p)" "reads T p (t @ u) c n"
    using match_byte_reads[OF mf(3), of "CHR ''(''"] t by auto
  obtain p' where p': "arithmetic_parse_atom p ev = (Some v, p')" "reads T p' u c' n"
    using atom[OF p(2)] by blast
  have "arithmetic_machine_step m = (True, arithmetic_machine_complete (m\<lparr>am_parser := p'\<rparr>) v')"
    using frame_step(5)[OF mf(1)] p(1) p'(1) v by (cases ev) (simp_all add: arithmetic_step_primary_def)
  from completing_step[OF mf(1) this, of ?f T u c' n] mf(1) p'(2)
  show "\<exists>m'. steps m m' \<and> done_with T m' fs v' u c' n" by simp
qed

lemma parenthesis_parses:
  assumes up: "parses 0 ev t ('')'' @ u) c v c' (Suc n) d" "0 < d" and n: "n < ARITHMETIC_NESTING_CAP"
  shows "parses 14 ev (''('' @ t @ '')'') u c v c' n (Suc d)"
  unfolding parses_def
proof (intro allI impI, elim conjE)
  fix T m fs
  let ?f = "blank_frame FRAME_PRIMARY ev" and ?g = "(blank_frame FRAME_PRIMARY ev)\<lparr>af_phase := 1\<rparr>"
  assume m: "doing T m (blank_frame (level_kind 14) ev # fs) ((''('' @ t @ '')'') @ u) c n"
    and cap: "length fs + Suc d \<le> ARITHMETIC_FRAME_CAP"
  have mf: "am_frames m = ?f # fs" "\<not> am_returned m"
    "reads T (am_parser m) (CHR ''('' # t @ '')'' @ u) c n"
    using m by (simp_all add: doing_def)
  obtain p where p: "arithmetic_match (am_parser m) ''('' = (True, p)" "reads T p (t @ '')'' @ u) c n"
    using match_byte_reads[OF mf(3), of "CHR ''(''"] by auto
  have nest: "ap_nesting p = n" using p(2) by (simp add: reads_def)
  let ?p = "p\<lparr>ap_nesting := Suc n\<rparr>"
  have r: "reads T ?p (t @ '')'' @ u) c (Suc n)" using p(2) by (simp add: reads_def)
  let ?m = "m\<lparr>am_parser := ?p, am_frames := ?g # fs\<rparr>"
  have run: "arithmetic_machine_step m = arithmetic_machine_push ?m FRAME_COMMA ev"
    using frame_step(5)[OF mf(1)] p(1) nest n mf(1) by (simp add: arithmetic_step_primary_def)
  obtain m1 where m1: "steps m m1" "doing T m1 (blank_frame FRAME_COMMA ev # ?g # fs) (t @ '')'' @ u) c (Suc n)"
    by (rule pushing_step[OF mf(1) run]) (use mf(2) r cap up(2) in simp_all)
  obtain m2 where m2: "steps m1 m2" "done_with T m2 (?g # fs) v ('')'' @ u) c' (Suc n)"
    by (rule parsesD[OF up(1), of T m1 "?g # fs"]) (use m1(2) cap in simp_all)
  have d2: "am_frames m2 = ?g # fs" "am_returned m2" "am_value m2 = v"
    "reads T (am_parser m2) (CHR '')'' # u) c' (Suc n)"
    using m2(2) by (simp_all add: done_with_def)
  obtain q where q: "arithmetic_match (am_parser m2) '')'' = (True, q)" "reads T q u c' (Suc n)"
    using match_byte_reads[OF d2(4), of "CHR '')''"] by auto
  have back': "reads T (q\<lparr>ap_nesting := ap_nesting q - 1\<rparr>) u c' n" using q(2) by (simp add: reads_def)
  have "arithmetic_machine_step m2 = (True, arithmetic_machine_complete
      (m2\<lparr>am_returned := False, am_parser := q\<lparr>ap_nesting := ap_nesting q - 1\<rparr>\<rparr>) v)"
    using frame_step(5)[OF d2(1)] d2(2,3) q(1)
    by (simp add: arithmetic_step_primary_def take_returned)
  from completing_step[OF d2(1) this, of ?g T u c' n] d2(1) back' steps_trans[OF m1(1) m2(1)]
  show "\<exists>m'. steps m m' \<and> done_with T m' fs v u c' n" by (auto dest: steps_trans)
qed

text \<open>The first operand of a conditional, up to the question mark or what follows.\<close>

lemma conditional_first:
  assumes up: "parses 3 ev t u c x c1 n d" "0 < d"
    and m: "doing T m (blank_frame (level_kind 2) ev # fs) (t @ u) c n"
    and cap: "length fs + Suc d \<le> ARITHMETIC_FRAME_CAP"
  shows "\<exists>m1. steps m m1 \<and>
    done_with T m1 ((blank_frame FRAME_CONDITIONAL ev)\<lparr>af_phase := 1\<rparr> # fs) x u c1 n"
proof -
  let ?f = "blank_frame FRAME_CONDITIONAL ev" and ?g = "(blank_frame FRAME_CONDITIONAL ev)\<lparr>af_phase := 1\<rparr>"
  have mf: "am_frames m = ?f # fs" "\<not> am_returned m" "reads T (am_parser m) (t @ u) c n"
    using m by (simp_all add: doing_def)
  have run: "arithmetic_machine_step m = arithmetic_machine_push (m\<lparr>am_frames := ?g # fs\<rparr>) FRAME_LOGICAL_OR ev"
    using frame_step(3)[OF mf(1)] mf(1) by (simp add: arithmetic_step_conditional_def)
  obtain m1 where m1: "steps m m1" "doing T m1 (blank_frame FRAME_LOGICAL_OR ev # ?g # fs) (t @ u) c n"
    by (rule pushing_step[OF mf(1) run]) (use mf(2,3) cap up(2) in simp_all)
  obtain m2 where "steps m1 m2" "done_with T m2 (?g # fs) x u c1 n"
    by (rule parsesD[OF up(1), of T m1 "?g # fs"]) (use m1(2) cap in simp_all)
  with steps_trans[OF m1(1)] show ?thesis by blast
qed

lemma descend_conditional:
  assumes up: "parses 3 ev t u c v c' n d" "0 < d" and v: "\<not> ev \<Longrightarrow> v = 0" and u: "follows 2 u"
  shows "parses 2 ev t u c v c' n (Suc d)"
  unfolding parses_def
proof (intro allI impI, elim conjE)
  fix T m fs
  let ?g = "(blank_frame FRAME_CONDITIONAL ev)\<lparr>af_phase := 1\<rparr>"
  assume "doing T m (blank_frame (level_kind 2) ev # fs) (t @ u) c n"
    "length fs + Suc d \<le> ARITHMETIC_FRAME_CAP"
  from conditional_first[OF up this] obtain m2 where m2: "steps m m2" "done_with T m2 (?g # fs) v u c' n"
    by blast
  have d2: "am_frames m2 = ?g # fs" "am_returned m2" "am_value m2 = v" "reads T (am_parser m2) u c' n"
    using m2(2) by (simp_all add: done_with_def)
  obtain p where p: "arithmetic_match (am_parser m2) ''?'' = (False, p)" "reads T p u c' n"
    using match_byte_reads[OF d2(4), of "CHR ''?''"] follows_no_byte(1)[OF u] by auto
  have "arithmetic_machine_step m2 =
      (True, arithmetic_machine_complete (m2\<lparr>am_returned := False, am_parser := p\<rparr>) v)"
    using frame_step(3)[OF d2(1)] d2(2,3) v p(1)
    by (cases ev) (simp_all add: arithmetic_step_conditional_def take_returned)
  from completing_step[OF d2(1) this, of ?g T u c' n] d2(1) p(2) m2(1)
  show "\<exists>m'. steps m m' \<and> done_with T m' fs v u c' n" by (auto dest: steps_trans)
qed

lemma conditional_parses:
  assumes first: "parses 3 ev t ('' ? '' @ ta @ '' : '' @ tb @ u) c x c1 n d" "0 < d"
    and yes: "parses 0 (ev \<and> x \<noteq> 0) ta ('' : '' @ tb @ u) c1 y c2 (Suc n) da" "0 < da"
    and no: "parses 2 (ev \<and> x = 0) tb u c2 z c3 (Suc n) db" "0 < db"
    and v: "v = (if ev then if x \<noteq> 0 then y else z else 0)" and n: "n < ARITHMETIC_NESTING_CAP"
  shows "parses 2 ev (t @ '' ? '' @ ta @ '' : '' @ tb) u c v c3 n (1 + max d (max da db))"
  unfolding parses_def
proof (intro allI impI, elim conjE)
  fix T m fs
  let ?f = "blank_frame FRAME_CONDITIONAL ev"
  let ?g1 = "?f\<lparr>af_phase := 1\<rparr>"
  let ?g2 = "?g1\<lparr>af_condition := ev \<and> x \<noteq> 0, af_phase := 2\<rparr>"
  let ?g3 = "?g2\<lparr>af_saved := y, af_phase := 3\<rparr>"
  assume m: "doing T m (blank_frame (level_kind 2) ev # fs) ((t @ '' ? '' @ ta @ '' : '' @ tb) @ u) c n"
    and cap: "length fs + (1 + max d (max da db)) \<le> ARITHMETIC_FRAME_CAP"
  have caps: "length fs + Suc d \<le> ARITHMETIC_FRAME_CAP" "length fs + Suc da \<le> ARITHMETIC_FRAME_CAP"
    "length fs + Suc db \<le> ARITHMETIC_FRAME_CAP" "length fs + 2 \<le> ARITHMETIC_FRAME_CAP"
    using cap first(2) by simp_all
  obtain m2 where m2: "steps m m2" "done_with T m2 (?g1 # fs) x ('' ? '' @ ta @ '' : '' @ tb @ u) c1 n"
    using conditional_first[OF first, of T m fs] m caps(1) by auto
  have d2: "am_frames m2 = ?g1 # fs" "am_returned m2" "am_value m2 = x"
    "reads T (am_parser m2) ('' ? '' @ ta @ '' : '' @ tb @ u) c1 n"
    using m2(2) by (simp_all add: done_with_def)
  obtain p where p: "arithmetic_match (am_parser m2) ''?'' = (True, p)"
    "reads T p (CHR '' '' # ta @ '' : '' @ tb @ u) c1 n"
    using match_byte_reads[OF d2(4), of "CHR ''?''"] by auto
  have nest: "ap_nesting p = n" using p(2) by (simp add: reads_def)
  let ?p = "p\<lparr>ap_nesting := Suc n\<rparr>"
  have r: "reads T ?p (ta @ '' : '' @ tb @ u) c1 (Suc n)" using p(2) by (simp add: reads_def)
  have run2: "arithmetic_machine_step m2 = arithmetic_machine_push
      (m2\<lparr>am_returned := False, am_parser := ?p, am_frames := ?g2 # fs\<rparr>) FRAME_COMMA (ev \<and> x \<noteq> 0)"
    using frame_step(3)[OF d2(1)] d2(1-3) p(1) nest n
    by (simp add: arithmetic_step_conditional_def take_returned Let_def)
  obtain m3 where m3: "steps m2 m3"
    "doing T m3 (blank_frame FRAME_COMMA (ev \<and> x \<noteq> 0) # ?g2 # fs) (ta @ '' : '' @ tb @ u) c1 (Suc n)"
    by (rule pushing_step[OF d2(1) run2]) (use r caps(4) in simp_all)
  obtain m4 where m4: "steps m3 m4" "done_with T m4 (?g2 # fs) y ('' : '' @ tb @ u) c2 (Suc n)"
    by (rule parsesD[OF yes(1), of T m3 "?g2 # fs"]) (use m3(2) caps(2) in simp_all)
  have d4: "am_frames m4 = ?g2 # fs" "am_returned m4" "am_value m4 = y"
    "reads T (am_parser m4) ('' : '' @ tb @ u) c2 (Suc n)"
    using m4(2) by (simp_all add: done_with_def)
  obtain q where q: "arithmetic_match (am_parser m4) '':'' = (True, q)" "reads T q (CHR '' '' # tb @ u) c2 (Suc n)"
    using match_byte_reads[OF d4(4), of "CHR '':''"] by auto
  have r4: "reads T q (tb @ u) c2 (Suc n)" using q(2) by (simp add: reads_def)
  have ne: "(ev \<and> \<not> (ev \<and> x \<noteq> 0)) = (ev \<and> x = 0)" by blast
  have run4: "arithmetic_machine_step m4 = arithmetic_machine_push
      (m4\<lparr>am_returned := False, am_parser := q, am_frames := ?g3 # fs\<rparr>) FRAME_CONDITIONAL (ev \<and> x = 0)"
    using frame_step(3)[OF d4(1)] d4(1-3) q(1)
    by (simp add: arithmetic_step_conditional_def take_returned Let_def cong: conj_cong)
  obtain m5 where m5: "steps m4 m5"
    "doing T m5 (blank_frame FRAME_CONDITIONAL (ev \<and> x = 0) # ?g3 # fs) (tb @ u) c2 (Suc n)"
    by (rule pushing_step[OF d4(1) run4]) (use r4 caps(4) in simp_all)
  obtain m6 where m6: "steps m5 m6" "done_with T m6 (?g3 # fs) z u c3 (Suc n)"
    by (rule parsesD[OF no(1), of T m5 "?g3 # fs"]) (use m5(2) caps(3) in simp_all)
  have d6: "am_frames m6 = ?g3 # fs" "am_returned m6" "am_value m6 = z" "reads T (am_parser m6) u c3 (Suc n)"
    using m6(2) by (simp_all add: done_with_def)
  let ?q = "(am_parser m6)\<lparr>ap_nesting := ap_nesting (am_parser m6) - 1\<rparr>"
  have back': "reads T ?q u c3 n" using d6(4) by (simp add: reads_def)
  have "arithmetic_machine_step m6 =
      (True, arithmetic_machine_complete (m6\<lparr>am_returned := False, am_parser := ?q\<rparr>) v)"
    using frame_step(3)[OF d6(1)] d6(2,3) v
    by (auto simp: arithmetic_step_conditional_def take_returned Let_def)
  from completing_step[OF d6(1) this, of ?g3 T u c3 n] d6(1) back'
    steps_trans[OF m2(1) steps_trans[OF m3(1) steps_trans[OF m4(1) steps_trans[OF m5(1) m6(1)]]]]
  show "\<exists>m'. steps m m' \<and> done_with T m' fs v u c3 n" by (auto dest: steps_trans)
qed

lemma descend_assignment:
  assumes up: "parses 2 ev t u c v c' n d" "0 < d" and v: "\<not> ev \<Longrightarrow> v = 0"
    and t: "target_from n 0 (skip_blanks (t @ u)) = None"
  shows "parses 1 ev t u c v c' n (Suc d)"
  unfolding parses_def
proof (intro allI impI, elim conjE)
  fix T m fs
  let ?f = "blank_frame FRAME_ASSIGNMENT ev" and ?g = "(blank_frame FRAME_ASSIGNMENT ev)\<lparr>af_phase := 2\<rparr>"
  assume m: "doing T m (blank_frame (level_kind 1) ev # fs) (t @ u) c n"
    and cap: "length fs + Suc d \<le> ARITHMETIC_FRAME_CAP"
  have mf: "am_frames m = ?f # fs" "\<not> am_returned m" "reads T (am_parser m) (t @ u) c n"
    using m by (simp_all add: doing_def)
  have target: "arithmetic_assignment_target (am_parser m) = (None, am_parser m)"
    using target_reads[OF mf(3)] t by simp
  have run: "arithmetic_machine_step m = arithmetic_machine_push (m\<lparr>am_frames := ?g # fs\<rparr>) FRAME_CONDITIONAL ev"
    using frame_step(2)[OF mf(1)] mf(1) target by (simp add: arithmetic_step_assignment_def)
  obtain m1 where m1: "steps m m1" "doing T m1 (blank_frame FRAME_CONDITIONAL ev # ?g # fs) (t @ u) c n"
    by (rule pushing_step[OF mf(1) run]) (use mf(2,3) cap up(2) in simp_all)
  obtain m2 where m2: "steps m1 m2" "done_with T m2 (?g # fs) v u c' n"
    by (rule parsesD[OF up(1), of T m1 "?g # fs"]) (use m1(2) cap in simp_all)
  have d2: "am_frames m2 = ?g # fs" "am_returned m2" "am_value m2 = v" "reads T (am_parser m2) u c' n"
    using m2(2) by (simp_all add: done_with_def)
  have "arithmetic_machine_step m2 = (True, arithmetic_machine_complete (m2\<lparr>am_returned := False\<rparr>) v)"
    using frame_step(2)[OF d2(1)] d2(2,3) v
    by (cases ev) (simp_all add: arithmetic_step_assignment_def take_returned Let_def)
  from completing_step[OF d2(1) this, of ?g T u c' n] d2 steps_trans[OF m1(1) m2(1)]
  show "\<exists>m'. steps m m' \<and> done_with T m' fs v u c' n" by (auto dest: steps_trans)
qed

lemma descend_comma:
  assumes up: "parses 1 ev t u c v c' n d" "0 < d" and v: "\<not> ev \<Longrightarrow> v = 0"
  shows "chain 0 ev t u c v c' n (Suc d)"
  unfolding chain_def
proof (intro allI impI, elim conjE)
  fix T m fs
  let ?f = "blank_frame FRAME_COMMA ev" and ?g = "(blank_frame FRAME_COMMA ev)\<lparr>af_phase := 1\<rparr>"
  assume m: "doing T m (blank_frame (level_kind 0) ev # fs) (t @ u) c n"
    and cap: "length fs + Suc d \<le> ARITHMETIC_FRAME_CAP"
  have mf: "am_frames m = ?f # fs" "\<not> am_returned m" "reads T (am_parser m) (t @ u) c n"
    using m by (simp_all add: doing_def)
  have run: "arithmetic_machine_step m = arithmetic_machine_push (m\<lparr>am_frames := ?g # fs\<rparr>) FRAME_ASSIGNMENT ev"
    using frame_step(1)[OF mf(1)] mf(1) by (simp add: arithmetic_step_comma_def)
  obtain m1 where m1: "steps m m1" "doing T m1 (blank_frame FRAME_ASSIGNMENT ev # ?g # fs) (t @ u) c n"
    by (rule pushing_step[OF mf(1) run]) (use mf(2,3) cap up(2) in simp_all)
  obtain m2 where m2: "steps m1 m2" "done_with T m2 (?g # fs) v u c' n"
    by (rule parsesD[OF up(1), of T m1 "?g # fs"]) (use m1(2) cap in simp_all)
  have "pending 0 ev ?g v v" using v by (auto simp: pending_def)
  with steps_trans[OF m1(1) m2(1)] m2(2)
  show "\<exists>m' f r. steps m m' \<and> done_with T m' (f # fs) r u c' n \<and> pending 0 ev f r v" by blast
qed

text \<open>The comma's frame with a value: nothing but a comma continues it.\<close>

lemma comma_take:
  assumes m: "done_with T m (f # fs) r u c n" and f: "pending 0 ev f r v"
  shows "\<exists>p. reads T p (if starts (skip_blanks u) (CHR '','') then tl (skip_blanks u) else u) c n \<and>
    arithmetic_machine_step m =
      (if starts (skip_blanks u) (CHR '','')
       then arithmetic_machine_push (m\<lparr>am_returned := False, am_parser := p,
         am_frames := f\<lparr>af_value := r\<rparr> # fs\<rparr>) FRAME_ASSIGNMENT ev
       else (True, arithmetic_machine_complete (m\<lparr>am_returned := False, am_parser := p\<rparr>) v))"
proof -
  have mf: "am_frames m = f # fs" "am_returned m" "am_value m = r" "reads T (am_parser m) u c n"
    using m by (simp_all add: done_with_def)
  have kind: "af_kind f = FRAME_COMMA" "af_evaluate f = ev" "af_phase f \<noteq> 0" "ev \<Longrightarrow> r = v" "\<not> ev \<Longrightarrow> v = 0"
    using f by (auto simp: pending_def)
  obtain p where p: "arithmetic_match (am_parser m) '','' = (starts (skip_blanks u) (CHR '',''), p)"
    "reads T p (if starts (skip_blanks u) (CHR '','') then tl (skip_blanks u) else u) c n"
    using match_byte_reads[OF mf(4)] by blast
  show ?thesis
    using p frame_step(1)[OF mf(1) kind(1)] mf(1-3) kind(2-5)
    by (intro exI[of _ p]) (auto simp: arithmetic_step_comma_def take_returned split: bool.split)
qed

lemma comma_finish:
  assumes up: "chain 0 ev t u c v c' n d" and u: "follows 0 u"
  shows "parses 0 ev t u c v c' n d"
  unfolding parses_def
proof (intro allI impI, elim conjE)
  fix T m fs
  assume m: "doing T m (blank_frame (level_kind 0) ev # fs) (t @ u) c n"
    and cap: "length fs + d \<le> ARITHMETIC_FRAME_CAP"
  obtain m1 f r where m1: "steps m m1" "done_with T m1 (f # fs) r u c' n" "pending 0 ev f r v"
    by (rule chainD[OF up m cap])
  have no: "\<not> starts (skip_blanks u) (CHR '','')" using follows_no_byte(2)[OF u] by simp
  from comma_take[OF m1(2,3)] obtain p where p: "reads T p u c' n" "arithmetic_machine_step m1 =
      (True, arithmetic_machine_complete (m1\<lparr>am_returned := False, am_parser := p\<rparr>) v)"
    unfolding if_not_P[OF no] by blast
  have fr: "am_frames m1 = f # fs" using m1(2) by (simp add: done_with_def)
  from completing_step[OF fr p(2), of f T u c' n] fr p(1) m1(1)
  show "\<exists>m'. steps m m' \<and> done_with T m' fs v u c' n" by (auto dest: steps_trans)
qed

lemma comma_extend:
  assumes left: "chain 0 ev t ('', '' @ t2 @ u) c x c1 n d"
    and right: "parses 1 ev t2 u c1 v c2 n d2" "0 < d2" and v: "\<not> ev \<Longrightarrow> v = 0"
  shows "chain 0 ev (t @ '', '' @ t2) u c v c2 n (max d (1 + d2))"
  unfolding chain_def
proof (intro allI impI, elim conjE)
  fix T m fs
  assume m: "doing T m (blank_frame (level_kind 0) ev # fs) ((t @ '', '' @ t2) @ u) c n"
    and cap: "length fs + max d (1 + d2) \<le> ARITHMETIC_FRAME_CAP"
  then have caps: "length fs + 2 \<le> ARITHMETIC_FRAME_CAP" "length fs + Suc d2 \<le> ARITHMETIC_FRAME_CAP"
    using right(2) by simp_all
  obtain m1 f r where m1: "steps m m1" "done_with T m1 (f # fs) r ('', '' @ t2 @ u) c1 n" "pending 0 ev f r x"
    by (rule chainD[OF left, of T m fs]) (use m cap in simp_all)
  let ?g = "f\<lparr>af_value := r\<rparr>"
  have fr: "am_frames m1 = f # fs" using m1(2) by (simp add: done_with_def)
  from comma_take[OF m1(2,3)] obtain p where p: "reads T p (CHR '' '' # t2 @ u) c1 n"
    "arithmetic_machine_step m1 = arithmetic_machine_push (m1\<lparr>am_returned := False, am_parser := p,
       am_frames := ?g # fs\<rparr>) FRAME_ASSIGNMENT ev" by auto
  have r: "reads T p (t2 @ u) c1 n" using p(1) by (simp add: reads_def)
  obtain m2 where m2: "steps m1 m2" "doing T m2 (blank_frame FRAME_ASSIGNMENT ev # ?g # fs) (t2 @ u) c1 n"
    by (rule pushing_step[OF fr p(2)]) (use r caps(1) in simp_all)
  obtain m3 where m3: "steps m2 m3" "done_with T m3 (?g # fs) v u c2 n"
    by (rule parsesD[OF right(1), of T m2 "?g # fs"]) (use m2(2) caps(2) in simp_all)
  have "pending 0 ev ?g v v" using m1(3) v by (auto simp: pending_def)
  with steps_trans[OF m1(1) steps_trans[OF m2(1) m3(1)]] m3(2)
  show "\<exists>m' f r. steps m m' \<and> done_with T m' (f # fs) r u c2 n \<and> pending 0 ev f r v" by blast
qed

section \<open>Assignments\<close>

lemma commit_reads:
  assumes r: "reads T p u c n" and x: "ev \<Longrightarrow> operator \<noteq> ASSIGN_SET \<Longrightarrow> long_ok x" and y: "long_ok y"
    and operator: "operator \<noteq> ASSIGN_NONE"
    and v: "(if operator = ASSIGN_SET then Some y
      else checked (operator_value (assignment_operator operator) x y)) = Some v"
    and c': "assign_variable c (slice T b (b + l)) v = Some c'" and ev: ev
  shows "\<exists>p'. arithmetic_commit_assignment p b l operator x y = (Some v, p') \<and> reads T p' u c' n"
proof -
  have applied: "arithmetic_apply_assignment operator x y = Some v"
  proof (cases "operator = ASSIGN_SET")
    case True
    with v show ?thesis by (simp add: arithmetic_apply_assignment_def)
  next
    case False
    with v operator x[OF ev] y show ?thesis by (intro apply_assignment_value) simp_all
  qed
  have long: "long_ok v" using v y by (auto simp: checked_Some split: if_splits)
  obtain s where s: "cx_variable_state c = Some s"
    using c' by (auto simp: assign_variable_def split: option.splits)
  from c' s obtain s' where s': "native_variable_assign s (slice T b (b + l))
      ((if v < 0 then ''-'' else []) @ rev (reversed_digits (nat \<bar>v\<bar>))) = (GSH_NATIVE_PLAN_OK, s')"
    "c' = c\<lparr>cx_variable_state := Some s'\<rparr>"
    by (auto simp: assign_variable_def split: prod.splits if_splits)
  show ?thesis
    using applied s s' r reserved_text[OF long]
    by (auto simp: arithmetic_commit_assignment_def Let_def reads_def split: prod.splits)
qed

text \<open>The name and the operator in front of the value, which is one nesting level down.\<close>

lemma assign_parses:
  assumes up: "parses 1 ev t u c y c1 (Suc n) d" "0 < d"
    and name: "variable_name name" and operator: "operator \<noteq> ASSIGN_NONE"
    and n: "n < ARITHMETIC_NESTING_CAP"
    and left: "ev \<Longrightarrow> (if operator = ASSIGN_SET then Some 0 else variable_value c name) = Some x"
    and y: "long_ok y"
    and v: "ev \<Longrightarrow> (if operator = ASSIGN_SET then Some y
      else checked (operator_value (assignment_operator operator) x y)) = Some v"
    and c': "ev \<Longrightarrow> assign_variable c1 name v = Some c'" and off: "\<not> ev \<Longrightarrow> v = 0 \<and> c' = c1"
  shows "parses 1 ev (name @ '' '' @ assignment_text operator @ '' '' @ t) u c v c' n (Suc d)"
  unfolding parses_def
proof (intro allI impI, elim conjE)
  fix T m fs
  let ?f = "blank_frame FRAME_ASSIGNMENT ev" and ?s = "name @ '' '' @ assignment_text operator @ '' '' @ t @ u"
  assume m: "doing T m (blank_frame (level_kind 1) ev # fs)
      ((name @ '' '' @ assignment_text operator @ '' '' @ t) @ u) c n"
    and cap: "length fs + Suc d \<le> ARITHMETIC_FRAME_CAP"
  have mf: "am_frames m = ?f # fs" "\<not> am_returned m" "reads T (am_parser m) ?s c n"
    using m by (simp_all add: doing_def)
  have "skip_blanks ?s = ?s"
    using name start_facts(3)[of "hd name"] by (cases name) (auto simp: variable_name_def)
  then have "target_from n 0 (skip_blanks ?s) = Some (name, operator, '' '' @ t @ u)"
    using target_from_assignment[OF name operator] by simp
  with target_reads[OF mf(3)] obtain b p where
    p: "arithmetic_assignment_target (am_parser m) = (Some (b, length name, operator), p)"
      "slice T b (b + length name) = name" "reads T p ('' '' @ t @ u) c n" by auto
  have input: "ap_input p = T" "ap_nesting p = n" using p(3) by (simp_all add: reads_def)
  let ?x = "if ev then x else 0"
  obtain q where q: "(if ev \<and> operator \<noteq> ASSIGN_SET
      then arithmetic_environment_value p (slice (ap_input p) b (b + length name)) True else (Some 0, p)) =
      (Some ?x, q)" "reads T q ('' '' @ t @ u) c n"
  proof (cases "ev \<and> operator \<noteq> ASSIGN_SET")
    case True
    then have "variable_value c name = Some x" using left by simp
    with environment_value_reads[OF p(3), of True name x] True that input p(2) show thesis by auto
  next
    case False
    with left p(3) that[of p] show thesis by auto
  qed
  let ?q = "q\<lparr>ap_nesting := Suc n\<rparr>"
  let ?g = "?f\<lparr>af_phase := 1, af_assignment := \<lparr>as_name_begin = b, as_name_length = length name,
    as_operator = operator, as_left = ?x\<rparr>\<rparr>"
  have nest: "ap_nesting q = n" using q(2) by (simp add: reads_def)
  have r: "reads T ?q (t @ u) c (Suc n)" using q(2) by (simp add: reads_def)
  have run: "arithmetic_machine_step m =
      arithmetic_machine_push (m\<lparr>am_parser := ?q, am_frames := ?g # fs\<rparr>) FRAME_ASSIGNMENT ev"
    using frame_step(2)[OF mf(1)] mf(1) p(1) q(1) input n nest
    by (simp add: arithmetic_step_assignment_def Let_def)
  obtain m1 where m1: "steps m m1" "doing T m1 (blank_frame FRAME_ASSIGNMENT ev # ?g # fs) (t @ u) c (Suc n)"
    by (rule pushing_step[OF mf(1) run]) (use mf(2) r cap up(2) in simp_all)
  obtain m2 where m2: "steps m1 m2" "done_with T m2 (?g # fs) y u c1 (Suc n)"
    by (rule parsesD[OF up(1), of T m1 "?g # fs"]) (use m1(2) cap in simp_all)
  have d2: "am_frames m2 = ?g # fs" "am_returned m2" "am_value m2 = y" "reads T (am_parser m2) u c1 (Suc n)"
    using m2(2) by (simp_all add: done_with_def)
  let ?p = "(am_parser m2)\<lparr>ap_nesting := ap_nesting (am_parser m2) - 1\<rparr>"
  have r2: "reads T ?p u c1 n" using d2(4) by (simp add: reads_def)
  obtain p' w where p': "(if ev then arithmetic_commit_assignment ?p b (length name) operator ?x y
      else (Some y, ?p)) = (Some w, p')" "reads T p' u c' n" "(if ev then w else 0) = v"
  proof (cases ev)
    case True
    have "long_ok x" if "operator \<noteq> ASSIGN_SET" using left[OF True] that variable_value_long by simp
    moreover have "assign_variable c1 (slice T b (b + length name)) v = Some c'" using c'[OF True] p(2) by simp
    ultimately have "\<exists>p'. arithmetic_commit_assignment ?p b (length name) operator x y = (Some v, p') \<and>
        reads T p' u c' n"
      by (intro commit_reads[OF r2 _ y operator v[OF True] _ True])
    with True that show thesis by auto
  next
    case False
    with off r2 that[of y ?p] show thesis by simp
  qed
  have "arithmetic_machine_step m2 =
      (True, arithmetic_machine_complete (m2\<lparr>am_returned := False, am_parser := p'\<rparr>) v)"
    using frame_step(2)[OF d2(1)] d2(2,3) p'(1,3)
    by (cases ev) (simp_all add: arithmetic_step_assignment_def take_returned Let_def)
  from completing_step[OF d2(1) this, of ?g T u c' n] d2(1) p'(2) steps_trans[OF m1(1) m2(1)]
  show "\<exists>m'. steps m m' \<and> done_with T m' fs v u c' n" by (auto dest: steps_trans)
qed

section \<open>Operands\<close>

lemma descend:
  assumes "k \<le> j" "parses j ev t u c v c' n d" "0 < d" "j \<le> 14" "\<not> ev \<Longrightarrow> v = 0" "follows k u"
    and start: "j = 14 \<Longrightarrow> \<forall>b\<in>set ''+-!~''. \<not> starts (skip_blanks (t @ u)) b"
    and target: "k \<le> 1 \<Longrightarrow> 1 < j \<Longrightarrow> target_from n 0 (skip_blanks (t @ u)) = None"
  shows "parses k ev t u c v c' n (d + (j - k))"
  using assms(1)
proof (induction rule: inc_induct)
  case base
  show ?case using assms(2) by simp
next
  case (step i)
  have u: "follows i u" using follows_mono[OF assms(6) step(1)] .
  have d: "d + (j - i) = Suc (d + (j - Suc i))" "0 < d + (j - Suc i)" using step(2) assms(3) by simp_all
  consider "i = 0" | "i = 1" | "i = 2" | "3 \<le> i" "i \<le> 12" | "i = 13" using step(2) assms(4) by linarith
  then show ?case
  proof cases
    case 1
    then show ?thesis
      unfolding d(1) using comma_finish[OF descend_comma] step(3) d(2) assms(5) u by simp
  next
    case 2
    then show ?thesis
      unfolding d(1) using descend_assignment step(1-3) d(2) assms(5) target by (simp add: numeral_2_eq_2)
  next
    case 3
    then show ?thesis
      unfolding d(1) using descend_conditional step(3) d(2) assms(5) u by (simp add: numeral_3_eq_3 numeral_2_eq_2)
  next
    case 4
    then show ?thesis unfolding d(1) by (intro descend_binary step(3) d(2) assms(5) u)
  next
    case 5
    then have "j = 14" "Suc i = 14" using step(2) assms(4) by simp_all
    with 5 show ?thesis unfolding d(1) using descend_unary step(3) d(2) assms(5) start by simp
  qed
qed

lemma expression_frames_pos: "0 < expression_frames e"
  by (cases e) simp_all

lemma expression_level_bound: "expression_ok e \<Longrightarrow> expression_level e \<le> 14"
proof (cases e)
  case (Binary operator l r)
  then show "expression_ok e \<Longrightarrow> ?thesis" using operator_level_range[of operator] by simp
qed simp_all

lemma no_unary_start:
  assumes "expression_ok e" "expression_level e = 14" "b \<in> set ''+-!~''"
  shows "\<not> starts (skip_blanks (expression_text e @ u)) b"
proof -
  have "\<not> name_start_byte b" "\<not> digit_byte b" using assms(3) by (auto simp: byte_class_defs less_eq_char_def)
  moreover have "name_start_byte (hd (expression_text e)) \<or> digit_byte (hd (expression_text e))"
    using assms(1,2) operator_level_range
  proof (cases e)
    case (Literal k)
    then show ?thesis using reversed_digits_last[of k] by (simp add: hd_rev)
  next
    case (Binary operator l r)
    with assms(1,2) operator_level_range[of operator] show ?thesis by simp
  qed (simp_all add: variable_name_def)
  ultimately show ?thesis
    using expression_start[OF assms(1), of u] by (auto simp: starts_def)
qed

text \<open>What is to be shown of an expression, with evaluation on and off.\<close>

definition yields ::
  "expression \<Rightarrow> bool \<Rightarrow> gsh_native_expansion_context \<Rightarrow> int \<Rightarrow> gsh_native_expansion_context \<Rightarrow> bool" where
  "yields e ev c v c' \<longleftrightarrow> (if ev then expression_value e c = Some (v, c') else v = 0 \<and> c' = c)"

definition left_level :: "nat \<Rightarrow> bool" where
  "left_level k \<longleftrightarrow> k = 0 \<or> 3 \<le> k \<and> k \<le> 12"

definition readable :: "expression \<Rightarrow> bool" where
  "readable e \<longleftrightarrow> (\<forall>ev u c v c' n. yields e ev c v c' \<and> n + expression_nesting e \<le> ARITHMETIC_NESTING_CAP \<longrightarrow>
    (follows (expression_level e) u \<longrightarrow>
      parses (expression_level e) ev (expression_text e) u c v c' n (expression_frames e)) \<and>
    (left_level (expression_level e) \<longrightarrow> follows (Suc (expression_level e)) u \<longrightarrow>
      chain (expression_level e) ev (expression_text e) u c v c' n (expression_frames e)))"

lemma yields_off: "yields e ev c v c' \<Longrightarrow> \<not> ev \<Longrightarrow> v = 0"
  by (simp add: yields_def)

lemma operand_plain:
  assumes e: "expression_ok e" "readable e" "yields e ev c v c'" "k \<le> expression_level e" "follows k u"
    and n: "n + expression_nesting e \<le> ARITHMETIC_NESTING_CAP"
  shows "parses k ev (expression_text e) u c v c' n (expression_level e - k + expression_frames e)"
proof -
  have "follows (expression_level e) u" using follows_mono[OF e(5,4)] .
  with e(2,3) n have up: "parses (expression_level e) ev (expression_text e) u c v c' n (expression_frames e)"
    by (simp add: readable_def)
  have "parses k ev (expression_text e) u c v c' n (expression_frames e + (expression_level e - k))"
  proof (rule descend[OF e(4) up expression_frames_pos expression_level_bound[OF e(1)] yields_off[OF e(3)] e(5)])
    show "\<forall>b\<in>set ''+-!~''. \<not> starts (skip_blanks (expression_text e @ u)) b" if "expression_level e = 14"
      using no_unary_start[OF e(1) that] by blast
    show "target_from n 0 (skip_blanks (expression_text e @ u)) = None" if "1 < expression_level e"
      using target_from_expression[OF e(1), of 0 u n] follows_target[OF e(5)] follows_no_byte(3)[OF e(5)]
        expression_start[OF e(1), of u] that by simp
  qed
  then show ?thesis by (simp add: add.commute)
qed

text \<open>An operand of at least level \<open>k\<close>, in parentheses where its own level is lower.\<close>

lemma operand:
  assumes e: "expression_ok e" "readable e" "yields e ev c v c'" and k: "k \<le> 14" "follows k u"
    and n: "n + expression_nesting e + (if expression_level e < k then 1 else 0) \<le> ARITHMETIC_NESTING_CAP"
  shows "parses k ev (wrapped k (expression_level e) (expression_text e)) u c v c' n
    (frames_at k (expression_level e) (expression_frames e))"
proof (cases "expression_level e < k")
  case False
  with operand_plain[OF e, of k u n] k(2) n show ?thesis by (simp add: wrapped_def frames_at_def)
next
  case True
  let ?t = "''('' @ expression_text e @ '')''"
  have n': "n < ARITHMETIC_NESTING_CAP" using n True by simp
  have "parses 0 ev (expression_text e) ('')'' @ u) c v c' (Suc n) (expression_level e - 0 + expression_frames e)"
    using n True by (intro operand_plain[OF e] follows.closed) simp_all
  then have up: "parses 14 ev ?t u c v c' n (Suc (expression_level e + expression_frames e))"
    by (intro parenthesis_parses n') (simp_all add: expression_frames_pos)
  have "parses k ev ?t u c v c' n (Suc (expression_level e + expression_frames e) + (14 - k))"
  proof (rule descend[OF k(1) up _ _ yields_off[OF e(3)] k(2)])
    have "target_from n (Suc 0) (expression_text e @ '')'' @ u) = None"
      using follows_target[OF k(2)] target_after_none(4)[of 0 u]
      by (intro target_from_expression[OF e(1)]) (simp_all add: byte_class_defs less_eq_char_def)
    then show "target_from n 0 (skip_blanks (?t @ u)) = None"
      using expression_start[OF e(1), of "'')'' @ u"] n' by (simp add: target_from_open)
  qed simp_all
  moreover have "Suc (expression_level e + expression_frames e) + (14 - k) =
      frames_at k (expression_level e) (expression_frames e)"
    using True k(1) by (simp add: frames_at_def)
  ultimately show ?thesis using True by (simp only: wrapped_def if_True)
qed

lemma operand_chain:
  assumes e: "expression_ok e" "readable e" "yields e ev c v c'" and k: "left_level k" "follows (Suc k) u"
    and n: "n + expression_nesting e + (if expression_level e < k then 1 else 0) \<le> ARITHMETIC_NESTING_CAP"
  shows "chain k ev (wrapped k (expression_level e) (expression_text e)) u c v c' n
    (frames_at k (expression_level e) (expression_frames e))"
proof (cases "expression_level e = k")
  case True
  with e(2,3) k n show ?thesis by (auto simp: readable_def wrapped_def frames_at_def)
next
  case False
  have same: "wrapped (Suc k) l s = wrapped k l s"
    "k \<le> 12 \<Longrightarrow> Suc (frames_at (Suc k) l f) = frames_at k l f" if "l \<noteq> k" for l f and s :: "byte list"
    using that by (auto simp: wrapped_def frames_at_def)
  have "k \<le> 12" using k(1) by (auto simp: left_level_def)
  then have up: "parses (Suc k) ev (wrapped k (expression_level e) (expression_text e)) u c v c' n
      (frames_at (Suc k) (expression_level e) (expression_frames e))"
    using operand[OF e _ k(2), of n] n False by (simp add: same less_Suc_eq)
  have pos: "0 < frames_at (Suc k) (expression_level e) (expression_frames e)"
    using expression_frames_pos[of e] by (simp add: frames_at_def)
  show ?thesis
  proof (cases "k = 0")
    case True
    with descend_comma[OF _ pos yields_off[OF e(3)]] up same(2)[OF False \<open>k \<le> 12\<close>] show ?thesis by simp
  next
    case False
    with k(1) have "3 \<le> k" by (simp add: left_level_def)
    with chain_start[OF _ \<open>k \<le> 12\<close> up pos yields_off[OF e(3)]] same(2)[OF \<open>expression_level e \<noteq> k\<close> \<open>k \<le> 12\<close>]
    show ?thesis by simp
  qed
qed

section \<open>Expressions\<close>

lemma frames_at_pos: "0 < frames_at k (expression_level e) (expression_frames e)"
  using expression_frames_pos[of e] by (simp add: frames_at_def)

lemma literal_readable: "expression_ok (Literal k) \<Longrightarrow> readable (Literal k)"
  unfolding readable_def
proof (intro allI impI, elim conjE, intro conjI impI)
  fix ev u c v c' n
  assume ok: "expression_ok (Literal k)" and y: "yields (Literal k) ev c v c'"
    and u: "follows (expression_level (Literal k)) u"
  have c: "c' = c" "ev \<Longrightarrow> v = int k" "\<not> ev \<Longrightarrow> v = 0" using y by (auto simp: yields_def split: if_splits)
  have t: "skip_blanks (rev (reversed_digits k) @ u) = rev (reversed_digits k) @ u"
    using expression_start[OF ok, of u] by simp
  have head: "\<not> starts (rev (reversed_digits k) @ u) (CHR ''('')"
    using reversed_digits_last[of k] start_facts(2) by (auto simp: starts_def hd_append hd_rev)
  have "parses 14 ev (rev (reversed_digits k)) u c v c' n (Suc 0)"
    unfolding c(1)
    by (rule atom_parses[OF constant_reads[where k = k, OF _ _ follows_no_byte(3)[OF u]]])
      (use ok t head c in simp_all)
  then show "parses (expression_level (Literal k)) ev (expression_text (Literal k)) u c v c' n
      (expression_frames (Literal k))" by simp
qed (simp add: left_level_def)

lemma variable_readable: "expression_ok (Variable name) \<Longrightarrow> readable (Variable name)"
  unfolding readable_def
proof (intro allI impI, elim conjE, intro conjI impI)
  fix ev u c v c' n
  assume ok: "expression_ok (Variable name)" and y: "yields (Variable name) ev c v c'"
    and u: "follows (expression_level (Variable name)) u"
  have c: "c' = c" "ev \<Longrightarrow> variable_value c name = Some v" "\<not> ev \<Longrightarrow> v = 0"
    using y by (auto simp: yields_def split: if_splits)
  have t: "skip_blanks (name @ u) = name @ u" using expression_start[OF ok, of u] by simp
  have head: "\<not> starts (name @ u) (CHR ''('')"
    using ok start_facts(1)[of "hd name"] by (auto simp: starts_def variable_name_def)
  have "parses 14 ev name u c v c' n (Suc 0)"
    unfolding c(1)
    by (rule atom_parses[OF variable_reads[where name = name, OF _ _ _ follows_no_byte(3)[OF u]]])
      (use ok t head c in simp_all)
  then show "parses (expression_level (Variable name)) ev (expression_text (Variable name)) u c v c' n
      (expression_frames (Variable name))" by simp
qed (simp add: left_level_def)

lemma unary_readable:
  assumes ok: "expression_ok (Unary operator e)" and e: "readable e"
  shows "readable (Unary operator e)"
  unfolding readable_def
proof (intro allI impI, elim conjE, intro conjI impI)
  fix ev u c v c' n
  assume y: "yields (Unary operator e) ev c v c'" and u: "follows (expression_level (Unary operator e)) u"
    and n: "n + expression_nesting (Unary operator e) \<le> ARITHMETIC_NESTING_CAP"
  obtain x where x: "yields e ev c x c'" "ev \<Longrightarrow> in_range (unary_exact operator x) = Some v" "\<not> ev \<Longrightarrow> v = 0"
    using y by (cases ev) (auto simp: yields_def split: option.splits)
  have "parses 13 ev (wrapped 13 (expression_level e) (expression_text e)) u c x c' n
      (frames_at 13 (expression_level e) (expression_frames e))"
    using ok u n by (intro operand[OF _ e x(1)]) simp_all
  from unary_parses[OF this frames_at_pos yields_off[OF x(1)] _ x(2,3)] ok
  show "parses (expression_level (Unary operator e)) ev (expression_text (Unary operator e)) u c v c' n
      (expression_frames (Unary operator e))" by simp
qed (simp add: left_level_def)

text \<open>The two operands of a binary operator, and when the right one is skipped.\<close>

lemma binary_yields:
  assumes ok: "expression_ok (Binary operator l r)" and y: "yields (Binary operator l r) ev c v c'"
  defines "on x \<equiv> ev \<and> (operator \<noteq> OPERATOR_LOGICAL_AND \<or> x \<noteq> 0) \<and> (operator \<noteq> OPERATOR_LOGICAL_OR \<or> x = 0)"
  obtains x c1 y where "yields l ev c x c1" "yields r (on x) c1 y c'" "\<not> ev \<Longrightarrow> v = 0"
    "ev \<Longrightarrow> arithmetic_apply_binary operator x y = Inr v"
proof (cases ev)
  case False
  with y that[of 0 c 0] show thesis by (simp add: yields_def on_def)
next
  case True
  with y obtain x c1 where x: "expression_value l c = Some (x, c1)"
    by (auto simp: yields_def split: option.splits)
  show thesis
  proof (cases "on x")
    case False
    with True y x have "v = of_bool (x \<noteq> 0)" "c' = c1" "operator = OPERATOR_LOGICAL_AND \<or> operator = OPERATOR_LOGICAL_OR"
      by (auto simp: yields_def on_def)
    with False True x that[of x c1 0] show thesis
      by (auto simp: yields_def on_def arithmetic_apply_binary_def)
  next
    case on: True
    then have short: "\<not> (operator = OPERATOR_LOGICAL_AND \<and> x = 0)" "\<not> (operator = OPERATOR_LOGICAL_OR \<and> x \<noteq> 0)"
      by (auto simp: on_def)
    from True y x obtain w where w: "expression_value r c1 = Some (w, c')" "checked (operator_value operator x w) = Some v"
      unfolding yields_def if_P[OF True] expression_value.simps x option.case prod.case if_not_P[OF short(1)]
        if_not_P[OF short(2)]
      by (auto split: option.splits)
    have "arithmetic_apply_binary operator x w = Inr v"
      using ok by (intro apply_binary_value expression_value_long[OF _ x] expression_value_long[OF _ w(1)] w(2)) simp_all
    with that[of x c1 w] True on x w(1) show thesis by (simp add: yields_def)
  qed
qed

lemma binary_readable:
  assumes ok: "expression_ok (Binary operator l r)" and l: "readable l" and r: "readable r"
  shows "readable (Binary operator l r)"
  unfolding readable_def
proof (intro allI impI, elim conjE)
  fix ev u c v c' n
  let ?e = "Binary operator l r" and ?k = "operator_level operator"
  assume y: "yields ?e ev c v c'" and n: "n + expression_nesting ?e \<le> ARITHMETIC_NESTING_CAP"
  have k: "3 \<le> ?k" "?k \<le> 12" "operator \<noteq> OPERATOR_NONE" using ok operator_level_range[of operator] by simp_all
  let ?right = "wrapped (Suc ?k) (expression_level r) (expression_text r)"
  obtain x c1 w where w: "yields l ev c x c1"
    "yields r (ev \<and> (operator \<noteq> OPERATOR_LOGICAL_AND \<or> x \<noteq> 0) \<and> (operator \<noteq> OPERATOR_LOGICAL_OR \<or> x = 0)) c1 w c'"
    "\<not> ev \<Longrightarrow> v = 0" "ev \<Longrightarrow> arithmetic_apply_binary operator x w = Inr v"
    by (rule binary_yields[OF ok y], rule that) (assumption | blast)+
  have chain: "chain ?k ev (expression_text ?e) u c v c' n (expression_frames ?e)" if u: "follows (Suc ?k) u"
  proof -
    have "follows (Suc ?k) ('' '' @ operator_text operator @ '' '' @ ?right @ u)"
      by (rule follows.binary[OF k(3)]) simp
    then have "chain ?k ev (wrapped ?k (expression_level l) (expression_text l))
        ('' '' @ operator_text operator @ '' '' @ ?right @ u) c x c1 n
        (frames_at ?k (expression_level l) (expression_frames l))"
      using ok n k by (intro operand_chain[OF _ l w(1)]) (simp_all add: left_level_def)
    moreover have "parses (Suc ?k) (ev \<and> (operator \<noteq> OPERATOR_LOGICAL_AND \<or> x \<noteq> 0) \<and>
        (operator \<noteq> OPERATOR_LOGICAL_OR \<or> x = 0)) ?right u c1 w c' n
        (frames_at (Suc ?k) (expression_level r) (expression_frames r))"
      using ok n k u by (intro operand[OF _ r w(2)]) simp_all
    ultimately show ?thesis
      using chain_extend[OF k(3) refl _ _ w(4,3) frames_at_pos] by simp
  qed
  show "(follows (expression_level ?e) u \<longrightarrow>
      parses (expression_level ?e) ev (expression_text ?e) u c v c' n (expression_frames ?e)) \<and>
    (left_level (expression_level ?e) \<longrightarrow> follows (Suc (expression_level ?e)) u \<longrightarrow>
      chain (expression_level ?e) ev (expression_text ?e) u c v c' n (expression_frames ?e))"
    using chain chain_finish[OF k(1,2)] follows_mono[of ?k u "Suc ?k"] by simp
qed

lemma conditional_readable:
  assumes ok: "expression_ok (Conditional q a b)" and q: "readable q" and a: "readable a" and b: "readable b"
  shows "readable (Conditional q a b)"
  unfolding readable_def
proof (intro allI impI, elim conjE, intro conjI impI)
  fix ev u c v c' n
  let ?e = "Conditional q a b"
  assume y: "yields ?e ev c v c'" and n: "n + expression_nesting ?e \<le> ARITHMETIC_NESTING_CAP"
    and u: "follows (expression_level ?e) u"
  obtain x c1 y c2 z where w: "yields q ev c x c1" "yields a (ev \<and> x \<noteq> 0) c1 y c2"
    "yields b (ev \<and> x = 0) c2 z c'" "v = (if ev then if x \<noteq> 0 then y else z else 0)"
  proof (cases ev)
    case False
    with y that[of 0 c 0 c 0] show thesis by (simp add: yields_def)
  next
    case True
    with y obtain x c1 where x: "expression_value q c = Some (x, c1)"
      by (auto simp: yields_def split: option.splits)
    with True y that[of x c1 v c' 0] that[of x c1 0 c1 v] show thesis
      by (cases "x = 0") (simp_all add: yields_def)
  qed
  let ?q = "wrapped 3 (expression_level q) (expression_text q)"
  let ?b = "wrapped 2 (expression_level b) (expression_text b)"
  have first: "parses 3 ev ?q ('' ? '' @ expression_text a @ '' : '' @ ?b @ u) c x c1 n
      (frames_at 3 (expression_level q) (expression_frames q))"
    using ok n by (intro operand[OF _ q w(1)] follows.question) simp_all
  have "parses 0 (ev \<and> x \<noteq> 0) (wrapped 0 (expression_level a) (expression_text a)) ('' : '' @ ?b @ u) c1 y c2
      (Suc n) (frames_at 0 (expression_level a) (expression_frames a))"
    using ok n by (intro operand[OF _ a w(2)] follows.colon) simp_all
  then have yes: "parses 0 (ev \<and> x \<noteq> 0) (expression_text a) ('' : '' @ ?b @ u) c1 y c2
      (Suc n) (frames_at 0 (expression_level a) (expression_frames a))" by (simp add: wrapped_def)
  have no: "parses 2 (ev \<and> x = 0) ?b u c2 z c' (Suc n) (frames_at 2 (expression_level b) (expression_frames b))"
    using ok n u by (intro operand[OF _ b w(3)]) simp_all
  from conditional_parses[OF first frames_at_pos yes frames_at_pos no frames_at_pos w(4)] n
  show "parses (expression_level ?e) ev (expression_text ?e) u c v c' n (expression_frames ?e)" by simp
qed (simp add: left_level_def)

lemma assign_readable:
  assumes ok: "expression_ok (Assign operator name e)" and e: "readable e"
  shows "readable (Assign operator name e)"
  unfolding readable_def
proof (intro allI impI, elim conjE, intro conjI impI)
  fix ev u c v c' n
  let ?e = "Assign operator name e"
  assume y: "yields ?e ev c v c'" and n: "n + expression_nesting ?e \<le> ARITHMETIC_NESTING_CAP"
    and u: "follows (expression_level ?e) u"
  obtain x y c1 where w: "yields e ev c y c1" "long_ok y"
    "ev \<Longrightarrow> (if operator = ASSIGN_SET then Some 0 else variable_value c name) = Some x"
    "ev \<Longrightarrow> (if operator = ASSIGN_SET then Some y
      else checked (operator_value (assignment_operator operator) x y)) = Some v"
    "ev \<Longrightarrow> assign_variable c1 name v = Some c'" "\<not> ev \<Longrightarrow> v = 0 \<and> c' = c1"
  proof (cases ev)
    case False
    with y that[of 0 c 0] show thesis by (simp add: yields_def long_ok_def)
  next
    case True
    from y obtain x where x: "(if operator = ASSIGN_SET then Some 0 else variable_value c name) = Some x"
      unfolding yields_def if_P[OF True] expression_value.simps by (auto split: option.splits)
    from y x obtain z c1 where z: "expression_value e c = Some (z, c1)"
      unfolding yields_def if_P[OF True] expression_value.simps x option.case by (auto split: option.splits)
    from y have "(if operator = ASSIGN_SET then Some z
          else checked (operator_value (assignment_operator operator) x z)) = Some v"
        "assign_variable c1 name v = Some c'"
      unfolding yields_def if_P[OF True] expression_value.simps x z option.case prod.case
      by (auto split: option.splits)
    with that[of z c1 x] True x z ok expression_value_long[OF _ z] show thesis by (simp add: yields_def)
  qed
  have "parses 1 ev (wrapped 1 (expression_level e) (expression_text e)) u c y c1 (Suc n)
      (frames_at 1 (expression_level e) (expression_frames e))"
    using ok n u by (intro operand[OF _ e w(1)]) simp_all
  from assign_parses[OF this frames_at_pos _ _ _ w(3,2,4,5,6)] ok n
  show "parses (expression_level ?e) ev (expression_text ?e) u c v c' n (expression_frames ?e)" by simp
qed (simp add: left_level_def)

lemma comma_readable:
  assumes ok: "expression_ok (Comma l r)" and l: "readable l" and r: "readable r"
  shows "readable (Comma l r)"
  unfolding readable_def
proof (intro allI impI, elim conjE)
  fix ev u c v c' n
  let ?e = "Comma l r"
  assume y: "yields ?e ev c v c'" and n: "n + expression_nesting ?e \<le> ARITHMETIC_NESTING_CAP"
  obtain x c1 where w: "yields l ev c x c1" "yields r ev c1 v c'"
    using y by (cases ev) (auto simp: yields_def split: option.splits)
  let ?right = "wrapped 1 (expression_level r) (expression_text r)"
  have chain: "chain 0 ev (expression_text ?e) u c v c' n (expression_frames ?e)" if u: "follows (Suc 0) u"
  proof -
    have "chain 0 ev (wrapped 0 (expression_level l) (expression_text l)) ('', '' @ ?right @ u) c x c1 n
        (frames_at 0 (expression_level l) (expression_frames l))"
      using ok n by (intro operand_chain[OF _ l w(1)] follows.comma) (simp_all add: left_level_def)
    moreover have "parses 1 ev ?right u c1 v c' n (frames_at 1 (expression_level r) (expression_frames r))"
      using ok n u by (intro operand[OF _ r w(2)]) simp_all
    ultimately show ?thesis
      using comma_extend[OF _ _ frames_at_pos yields_off[OF w(2)]] by (simp add: wrapped_def)
  qed
  show "(follows (expression_level ?e) u \<longrightarrow>
      parses (expression_level ?e) ev (expression_text ?e) u c v c' n (expression_frames ?e)) \<and>
    (left_level (expression_level ?e) \<longrightarrow> follows (Suc (expression_level ?e)) u \<longrightarrow>
      chain (expression_level ?e) ev (expression_text ?e) u c v c' n (expression_frames ?e))"
    using chain comma_finish follows_mono[of 0 u "Suc 0"] by simp
qed

lemma expression_readable: "expression_ok e \<Longrightarrow> readable e"
  by (induction e)
    (use literal_readable variable_readable unary_readable binary_readable conditional_readable
      assign_readable comma_readable in simp_all)

section \<open>The whole text\<close>

lemma ended_run: "am_frames m = [] \<Longrightarrow> arithmetic_machine_run k m = (True, m)"
  by (cases k) simp_all

lemma parse_printed:
  assumes ok: "expression_ok e" and v: "expression_value e c = Some (v, c')"
    and nesting: "expression_nesting e \<le> ARITHMETIC_NESTING_CAP"
    and frames: "expression_level e + expression_frames e \<le> ARITHMETIC_FRAME_CAP"
    and len: "length (expression_text e) \<le> GSH_NATIVE_TEXT_CAP"
  shows "\<exists>p'. arithmetic_parse (text_parser (expression_text e) (Some c)) True = (Some v, p') \<and>
    reads (expression_text e) p' [] c' 0"
proof -
  let ?T = "expression_text e" and ?p = "text_parser (expression_text e) (Some c)"
  let ?m = "start_machine ?p True"
  have ready: "parser_ready ?p" by (rule text_parser_ready[OF len])
  have start: "doing ?T ?m [blank_frame (level_kind 0) True] (?T @ []) c 0"
    by (simp add: doing_def start_machine_def initial_machine_def reads_def text_parser_def)
  have "parses 0 True ?T [] c v c' 0 (expression_level e - 0 + expression_frames e)"
    using nesting v
    by (intro operand_plain[OF ok expression_readable[OF ok]] follows.nothing) (simp_all add: yields_def)
  then obtain m' where m': "steps ?m m'" "done_with ?T m' [] v [] c' 0"
    by (rule parsesD[OF _ start]) (use frames in simp)
  let ?n = "32 * (ap_end ?p - ap_offset ?p) + 29"
  obtain k where "arithmetic_machine_run (k + ?n) ?m = arithmetic_machine_run ?n m'"
    using m'(1) unfolding steps_def by blast
  also have "\<dots> = (True, m')"
    using m'(2) ended_run by (simp add: done_with_def)
  finally have "arithmetic_parse ?p True = (Some (am_value m'), am_parser m')"
    using parse_run(1)[OF ready, of "k + ?n" True] by simp
  with m'(2) show ?thesis by (simp add: done_with_def)
qed

text \<open>C23. Arithmetic expansion computes what the expression says: the text of an expression, printed
  with the parentheses that precedence and associativity ask for, evaluates to the value of the
  expression in the variables of the context, with the assignments made in their order and none in
  the operands that \<open>&&\<close>, \<open>||\<close> and \<open>?:\<close> skip. It takes an expression with a value, at most 32
  nesting levels, at most 512 frames, and a text of at most 16384 bytes.\<close>

theorem evaluate_printed:
  assumes "expression_ok e" "expression_value e c = Some (v, c')"
    "expression_nesting e \<le> ARITHMETIC_NESTING_CAP"
    "expression_level e + expression_frames e \<le> ARITHMETIC_FRAME_CAP"
    "length (expression_text e) \<le> GSH_NATIVE_TEXT_CAP"
  shows "\<exists>p'. evaluate_arithmetic_expression (text_parser (expression_text e) (Some c)) deferred =
      (GSH_NATIVE_PLAN_OK, Some v, p') \<and> ap_context p' = Some c'"
proof -
  obtain p where p: "arithmetic_parse (text_parser (expression_text e) (Some c)) True = (Some v, p)"
    "reads (expression_text e) p [] c' 0" using parse_printed[OF assms] by blast
  have "drop (ap_offset (arithmetic_skip_space p)) (expression_text e) = []"
    "reads (expression_text e) (arithmetic_skip_space p) [] c' 0"
    using skip_space_reads[OF p(2)] by simp_all
  then show ?thesis using p(1) by (simp add: evaluate_arithmetic_expression_def Let_def reads_def)
qed

text \<open>\<open>1 < 2 ? (2 + 3) * 4 : 1 / 0\<close>, where the division is skipped, without variables.\<close>

definition sample_expression :: expression where
  "sample_expression = Conditional (Binary OPERATOR_LESS (Literal 1) (Literal 2))
    (Binary OPERATOR_MULTIPLY (Binary OPERATOR_ADD (Literal 2) (Literal 3)) (Literal 4))
    (Binary OPERATOR_DIVIDE (Literal 1) (Literal 0))"

definition sample_context :: gsh_native_expansion_context where
  "sample_context = \<lparr>cx_environment = None, cx_variable_state = None, cx_deferred_work = None,
    cx_nounset = False, cx_preflight = False\<rparr>"

lemma sample_facts:
  "expression_ok sample_expression" "expression_value sample_expression sample_context = Some (20, sample_context)"
  "expression_nesting sample_expression \<le> ARITHMETIC_NESTING_CAP"
  "expression_level sample_expression + expression_frames sample_expression \<le> ARITHMETIC_FRAME_CAP"
  "expression_text sample_expression = ''1 < 2 ? (2 + 3) * 4 : 1 / 0''"
proof -
  show "expression_ok sample_expression" by (simp add: sample_expression_def)
  show "expression_value sample_expression sample_context = Some (20, sample_context)"
    by (simp add: sample_expression_def checked_def in_range_def long_ok_def operator_value_def)
  show "expression_nesting sample_expression \<le> ARITHMETIC_NESTING_CAP"
    "expression_level sample_expression + expression_frames sample_expression \<le> ARITHMETIC_FRAME_CAP"
    by (simp_all add: sample_expression_def frames_at_def)
  show "expression_text sample_expression = ''1 < 2 ? (2 + 3) * 4 : 1 / 0''"
    by code_simp
qed

theorem evaluate_printed_witness:
  "\<exists>p'. evaluate_arithmetic_expression (text_parser ''1 < 2 ? (2 + 3) * 4 : 1 / 0'' (Some sample_context)) False =
      (GSH_NATIVE_PLAN_OK, Some 20, p') \<and> ap_context p' = Some sample_context"
  using evaluate_printed[OF sample_facts(1-4)] unfolding sample_facts(5) by simp

text \<open>C24. Every value the machine returns is a \<open>long\<close>, whatever the text, of at most 16384 bytes,
  and the variables, and with a value the nesting counter is back at zero and the offset is within the text.\<close>

theorem arithmetic_value_is_long:
  assumes "parser_ready p" "arithmetic_parse p evaluate = (Some v, p')"
  shows "long_ok v \<and> ap_nesting p' = 0 \<and> ap_offset p' \<le> ap_end p'"
proof -
  let ?n = "32 * (ap_end p - ap_offset p) + 29"
  obtain b m where bm: "arithmetic_machine_run ?n (start_machine p evaluate) = (b, m)" by fastforce
  from assms(2)[unfolded parse_run(1)[OF assms(1) order_refl] bm]
  have "b" "v = am_value m" "p' = am_parser m" by (cases b; simp)+
  with parse_run(2)[OF assms(1) order_refl, of evaluate m] bm show ?thesis
    by (simp add: machine_ok_def nesting_of_def)
qed

theorem arithmetic_value_is_long_witness:
  "\<exists>p'. arithmetic_parse (text_parser ''1 < 2 ? (2 + 3) * 4 : 1 / 0'' (Some sample_context)) True = (Some 20, p') \<and>
    long_ok 20 \<and> ap_nesting p' = 0 \<and> ap_offset p' \<le> ap_end p'"
proof -
  let ?p = "text_parser ''1 < 2 ? (2 + 3) * 4 : 1 / 0'' (Some sample_context)"
  have ready: "parser_ready ?p" by (rule text_parser_ready) simp
  obtain p' where p': "arithmetic_parse ?p True = (Some 20, p')"
    using parse_printed[OF sample_facts(1-4)] unfolding sample_facts(5) by auto
  from p' arithmetic_value_is_long[OF ready p'] show ?thesis by blast
qed

end
