(* ===== verification/AliasExpansion.thy ===== *)
theory AliasExpansion
  imports MachineSafety Aliases
begin

text \<open>
  Alias expansion, \<open>src/alias_expansion.c\<close>: the text is parsed, a command word that names an alias
  is replaced by its value, and the new text is parsed again, until no command word is left to be
  replaced or a limit is met. The frames are the regions of the text that come from replacements,
  each with the aliases it came from; inside a region its aliases are not replaced again. The
  probe holds the text as it is now (the code's buffer \<open>expanded\<close>, or \<open>input\<close> before the first
  replacement) and the frames. The storage is overwritten by every parse.
\<close>

section \<open>Frames and probes\<close>

abbreviation (input) GSH_ALIAS_EXPANSION_CAP :: nat where "GSH_ALIAS_EXPANSION_CAP \<equiv> 65536"
abbreviation (input) GSH_ALIAS_EXPANSION_LIMIT :: nat where "GSH_ALIAS_EXPANSION_LIMIT \<equiv> 128"

record alias_frame =
  fr_begin :: nat
  fr_end :: nat
  fr_ancestors :: "uint64 list"

record alias_probe =
  pr_aliases :: gsh_alias_store
  pr_input :: "byte list"
  pr_frames :: "alias_frame list"
  pr_matched_index :: nat
  pr_matched_value :: "byte list"

definition reserved_word :: "byte list \<Rightarrow> bool" where
  "reserved_word word \<longleftrightarrow> word \<in> set
    [''if'', ''then'', ''else'', ''elif'', ''fi'', ''do'', ''done'', ''case'', ''esac'',
     ''while'', ''until'', ''for'', ''in'', ''{'', ''}'', ''!'']"

definition frame_meets :: "nat \<Rightarrow> nat \<Rightarrow> alias_frame \<Rightarrow> bool" where
  "frame_meets begin_at end_at frame \<longleftrightarrow> fr_begin frame < end_at \<and> begin_at < fr_end frame"

definition token_ancestors :: "alias_frame list \<Rightarrow> nat \<Rightarrow> nat \<Rightarrow> uint64 list" where
  "token_ancestors frames begin_at end_at =
    foldl (\<lambda>ancestors frame.
      if frame_meets begin_at end_at frame
      then [ancestors ! 0 OR fr_ancestors frame ! 0, ancestors ! 1 OR fr_ancestors frame ! 1]
      else ancestors) [0, 0] frames"

text \<open>The probe with the match noted, where the word can be replaced.\<close>

definition find_alias :: "alias_probe \<Rightarrow> nat \<Rightarrow> nat \<Rightarrow> bool \<times> alias_probe" where
  "find_alias probe begin_at end_at =
    (let word = slice (pr_input probe) begin_at end_at
     in if \<not> gsh_alias_name_is_valid word \<or> reserved_word word then (False, probe)
        else
          (case gsh_aliases_lookup (pr_aliases probe) word of
             None \<Rightarrow> (False, probe)
           | Some (val, index) \<Rightarrow>
               if GSH_ALIAS_CAP \<le> index then (False, probe)
               else
                 (let ancestors = token_ancestors (pr_frames probe) begin_at end_at
                  in if ancestors ! (index div 64) AND push_bit (index mod 64) 1 \<noteq> 0
                     then (False, probe)
                     else (True, probe\<lparr>pr_matched_index := index, pr_matched_value := val\<rparr>))))"

fun find_first_alias :: "alias_probe \<Rightarrow> gsh_word_ref list \<Rightarrow> gsh_word_ref option \<times> alias_probe" where
  "find_first_alias probe [] = (None, probe)"
| "find_first_alias probe (word # words) =
    (case find_alias probe (ref_begin word) (ref_end word) of
       (True, probe) \<Rightarrow> (Some word, probe)
     | (False, probe) \<Rightarrow> find_first_alias probe words)"

definition find_command_alias ::
  "alias_probe \<Rightarrow> gsh_parse_storage \<Rightarrow> gsh_word_ref option \<times> alias_probe" where
  "find_command_alias probe storage = find_first_alias probe (ps_command_words storage)"

definition replacement_ends_in_command :: "byte list \<Rightarrow> bool \<times> gsh_parse_storage" where
  "replacement_ends_in_command val =
    (case gsh_parse val of
       (result, storage) \<Rightarrow>
         (if res_status result \<noteq> PARSE_OK \<or> ps_command_words storage = [] then False
          else
            (let candidate = last (ps_command_words storage)
             in slice val (ref_begin candidate) (ref_end candidate) = ''command''),
          storage))"

section \<open>Trailing blanks\<close>

datatype blank_quote = QUOTE_NONE | QUOTE_SINGLE | QUOTE_DOUBLE

text \<open>Whether the last byte of the text is quoted.\<close>

function final_quoted :: "blank_quote \<Rightarrow> bool \<Rightarrow> byte list \<Rightarrow> bool" where
  "final_quoted quote final [] = final"
| "final_quoted QUOTE_SINGLE final (byte # text') =
    final_quoted (if byte = QUOTE then QUOTE_NONE else QUOTE_SINGLE) True text'"
| "final_quoted QUOTE_DOUBLE final (byte # text') =
    (if byte = DQUOTE then final_quoted QUOTE_NONE True text'
     else if byte = BSLASH \<and> text' \<noteq> [] \<and>
        hd text' \<in> {CHR ''$'', BQUOTE, DQUOTE, BSLASH, NL}
     then final_quoted QUOTE_DOUBLE True (tl text')
     else final_quoted QUOTE_DOUBLE True text')"
| "final_quoted QUOTE_NONE final (byte # text') =
    (if byte = QUOTE then final_quoted QUOTE_SINGLE False text'
     else if byte = DQUOTE then final_quoted QUOTE_DOUBLE False text'
     else if byte = BSLASH \<and> text' \<noteq> [] then final_quoted QUOTE_NONE (tl text' = []) (tl text')
     else final_quoted QUOTE_NONE False text')"
  by pat_completeness auto
termination by (relation "measure (\<lambda>(q, f, s). length s)") (auto simp: less_Suc_eq_le)

definition ends_in_unquoted_blank :: "byte list \<Rightarrow> bool" where
  "ends_in_unquoted_blank val \<longleftrightarrow>
    val \<noteq> [] \<and> (last val = CHR '' '' \<or> last val = TAB) \<and> \<not> final_quoted QUOTE_NONE False val"

section \<open>Replacing a word\<close>

definition moved_frame :: "nat \<Rightarrow> nat \<Rightarrow> nat \<Rightarrow> alias_frame \<Rightarrow> alias_frame option" where
  "moved_frame begin_at end_at replacement_length frame =
    (let move = (\<lambda>offset. offset + replacement_length - (end_at - begin_at))
     in if fr_end frame \<le> begin_at then Some frame
        else if end_at \<le> fr_begin frame
        then Some (frame\<lparr>fr_begin := move (fr_begin frame), fr_end := move (fr_end frame)\<rparr>)
        else if fr_begin frame \<le> begin_at \<and> end_at \<le> fr_end frame
        then Some (frame\<lparr>fr_end := move (fr_end frame)\<rparr>)
        else None)"

definition rewrite_alias ::
  "alias_probe \<Rightarrow> nat \<Rightarrow> nat \<Rightarrow> nat \<Rightarrow> byte list \<Rightarrow> nat \<Rightarrow> bool \<times> alias_probe" where
  "rewrite_alias probe capacity begin_at end_at val index =
    (let text' = pr_input probe; frames = pr_frames probe;
         replacement_length = length val + 1;
         old_length = end_at - begin_at
     in if length frames = GSH_ALIAS_EXPANSION_LIMIT \<or> end_at < begin_at \<or>
           length text' < end_at \<or> capacity - (length text' - old_length) \<le> replacement_length
        then (False, probe)
        else
          (let ancestors = token_ancestors frames begin_at end_at;
               kept = List.map_filter (moved_frame begin_at end_at replacement_length) frames;
               ancestors = ancestors[index div 64 :=
                 ancestors ! (index div 64) OR push_bit (index mod 64) 1]
           in (True, probe\<lparr>
             pr_input := take begin_at text' @ val @ '' '' @ drop end_at text',
             pr_frames := kept @ [\<lparr>fr_begin = begin_at, fr_end = begin_at + length val,
               fr_ancestors = ancestors\<rparr>]\<rparr>)))"

text \<open>A value that ends in a blank makes the next word a candidate.\<close>

function force_following_aliases ::
  "nat \<Rightarrow> nat \<Rightarrow> alias_probe \<Rightarrow> nat \<Rightarrow> bool \<times> alias_probe \<times> nat" where
  "force_following_aliases capacity marker probe expansions =
    (if marker < length (pr_input probe) \<and> expansions < GSH_ALIAS_EXPANSION_LIMIT then
       (case gsh_lexer_next (gsh_lexer_init (drop marker (pr_input probe))) blank_token of
          (status, lexer, token) \<Rightarrow>
            if status \<noteq> LEX_OK \<or> tok_kind token \<noteq> TOKEN_WORD then (True, probe, expansions)
            else
              (let begin_at = marker + tok_begin token; end_at = marker + tok_end token
               in case find_alias probe begin_at end_at of
                    (False, probe) \<Rightarrow> (True, probe, expansions)
                  | (True, probe) \<Rightarrow>
                      (let val = pr_matched_value probe
                       in case rewrite_alias probe capacity begin_at end_at val
                            (pr_matched_index probe) of
                            (False, probe) \<Rightarrow> (False, probe, expansions)
                          | (True, probe) \<Rightarrow>
                              if \<not> ends_in_unquoted_blank val then (True, probe, expansions + 1)
                              else force_following_aliases capacity
                                (begin_at + length val + 1) probe (expansions + 1))))
     else (length (pr_input probe) \<le> marker, probe, expansions))"
  by pat_completeness auto
termination
  by (relation "measure (\<lambda>(capacity, marker, probe, expansions).
      GSH_ALIAS_EXPANSION_LIMIT - expansions)") auto

declare force_following_aliases.simps [simp del]

section \<open>Expansion\<close>

definition limit_result :: "nat \<Rightarrow> gsh_parse_result" where
  "limit_result offset =
    \<lparr>res_status = PARSE_LIMIT, res_root = GSH_AST_NONE, res_error_offset = offset,
     res_unexpected = TOKEN_WORD\<rparr>"

text \<open>Replacing the candidate and what follows it, which the code has twice; the offset is that of
  the limit reported on failure.\<close>

definition expand_candidate ::
  "nat \<Rightarrow> gsh_word_ref \<Rightarrow> alias_probe \<Rightarrow> gsh_parse_storage \<Rightarrow> nat \<Rightarrow>
    bool \<times> alias_probe \<times> gsh_parse_storage \<times> nat" where
  "expand_candidate capacity candidate probe storage expansions =
    (let val = pr_matched_value probe
     in case rewrite_alias probe capacity (ref_begin candidate) (ref_end candidate) val
          (pr_matched_index probe) of
          (False, probe) \<Rightarrow> (False, probe, storage, expansions)
        | (True, probe) \<Rightarrow>
            if \<not> ends_in_unquoted_blank val then (True, probe, storage, expansions)
            else
              (case replacement_ends_in_command val of
                 (True, storage) \<Rightarrow> (True, probe, storage, expansions)
               | (False, storage) \<Rightarrow>
                   (case force_following_aliases capacity (ref_begin candidate + length val + 1)
                      probe expansions of
                      (ok, probe, expansions) \<Rightarrow> (ok, probe, storage, expansions))))"

lemma force_following_mono:
  "force_following_aliases capacity marker probe expansions = (ok, probe', expansions') \<Longrightarrow>
    expansions \<le> expansions'"
proof (induction capacity marker probe expansions rule: force_following_aliases.induct)
  case (1 capacity marker probe expansions)
  then show ?case
    by (subst (asm) (2) force_following_aliases.simps)
      (fastforce simp: Let_def split: if_splits prod.splits bool.splits)
qed

lemma expand_candidate_mono:
  "expand_candidate capacity candidate probe storage expansions = (ok, probe', storage', expansions') \<Longrightarrow>
    expansions \<le> expansions'"
  by (auto simp: expand_candidate_def Let_def dest: force_following_mono
      split: prod.splits bool.splits if_splits)

text \<open>The result, the storage and the text it refers to: \<open>input\<close> itself while a limit is reported.\<close>

function expand_loop ::
  "byte list \<Rightarrow> nat \<Rightarrow> gsh_word_ref \<Rightarrow> alias_probe \<Rightarrow> gsh_parse_storage \<Rightarrow> nat \<Rightarrow>
    gsh_parse_result \<times> gsh_parse_storage \<times> byte list" where
  "expand_loop input capacity candidate probe storage expansions =
    (if expansions < GSH_ALIAS_EXPANSION_LIMIT then
       (case gsh_parse (pr_input probe) of
          (result, storage) \<Rightarrow>
            (case find_command_alias probe storage of
               (None, probe) \<Rightarrow> (result, storage, pr_input probe)
             | (Some candidate, probe) \<Rightarrow>
                 (case expand_candidate capacity candidate probe storage expansions of
                    (False, probe, storage, expansions') \<Rightarrow>
                      (limit_result (ref_begin candidate), storage, input)
                  | (True, probe, storage, expansions') \<Rightarrow>
                      expand_loop input capacity candidate probe storage (expansions' + 1))))
     else (limit_result (ref_begin candidate), storage, input))"
  by pat_completeness auto
termination
proof (relation "measure (\<lambda>(input, capacity, candidate, probe, storage, expansions).
    GSH_ALIAS_EXPANSION_LIMIT - expansions)", goal_cases)
  case (2 input capacity candidate probe storage expansions result storage1 found probe1 candidate1
      ok probe2 r storage2 r' expansions')
  then have "expansions \<le> expansions'" using expand_candidate_mono by metis
  with 2(1) show ?case by simp
qed simp

declare expand_loop.simps [simp del]

definition gsh_alias_parse ::
  "byte list \<Rightarrow> gsh_alias_store \<Rightarrow> nat \<Rightarrow> gsh_parse_result \<times> gsh_parse_storage \<times> byte list" where
  "gsh_alias_parse input aliases capacity =
    (case gsh_parse input of
       (result, storage) \<Rightarrow>
         if gsh_aliases_count aliases = 0 then (result, storage, input)
         else
           (case find_command_alias
              \<lparr>pr_aliases = aliases, pr_input = input, pr_frames = [],
               pr_matched_index = GSH_ALIAS_CAP, pr_matched_value = []\<rparr> storage of
              (None, probe) \<Rightarrow> (result, storage, input)
            | (Some candidate, probe) \<Rightarrow>
                if capacity \<le> length input then (limit_result (length input), storage, input)
                else
                  (case expand_candidate capacity candidate probe storage 1 of
                     (False, probe, storage, expansions) \<Rightarrow>
                       (limit_result (ref_begin candidate), storage, input)
                   | (True, probe, storage, expansions) \<Rightarrow>
                       expand_loop input capacity candidate probe storage expansions)))"

section \<open>Ancestors as sets\<close>

definition ancestor_set :: "uint64 list \<Rightarrow> nat set" where
  "ancestor_set a = {i. i < 128 \<and> bit (a ! (i div 64)) (i mod 64)}"

text \<open>The aliases that may not be replaced in a span of the text.\<close>

definition blocked :: "alias_frame list \<Rightarrow> nat \<Rightarrow> nat \<Rightarrow> nat set" where
  "blocked frames b e = (\<Union>f \<in> {f \<in> set frames. frame_meets b e f}. ancestor_set (fr_ancestors f))"

lemma half_index: "i < 128 \<Longrightarrow> i div 64 = 0 \<or> i div 64 = (1 :: nat)"
  by auto

lemma merged_set:
  "ancestor_set [a ! 0 OR b ! 0, a ! 1 OR b ! 1] = ancestor_set a \<union> ancestor_set b"
proof -
  have "bit ([a ! 0 OR b ! 0, a ! 1 OR b ! 1] ! (i div 64)) (i mod 64) \<longleftrightarrow>
      bit (a ! (i div 64)) (i mod 64) \<or> bit (b ! (i div 64)) (i mod 64)" if "i < 128" for i
    using half_index[OF that] by (auto simp: bit_or_iff)
  then show ?thesis by (auto simp: ancestor_set_def)
qed

lemma token_ancestors_step:
  "token_ancestors (frames @ [f]) b e =
    (if frame_meets b e f
     then [token_ancestors frames b e ! 0 OR fr_ancestors f ! 0, token_ancestors frames b e ! 1 OR fr_ancestors f ! 1]
     else token_ancestors frames b e)"
  by (simp add: token_ancestors_def)

lemma token_ancestors:
  "length (token_ancestors frames b e) = 2" "ancestor_set (token_ancestors frames b e) = blocked frames b e"
proof (induction frames rule: rev_induct)
  case Nil
  show "length (token_ancestors [] b e) = 2" by (simp add: token_ancestors_def)
  have "[0, 0 :: uint64] ! (i div 64) = 0" if "i < 128" for i using half_index[OF that] by auto
  then show "ancestor_set (token_ancestors [] b e) = blocked [] b e"
    by (auto simp: token_ancestors_def blocked_def ancestor_set_def)
next
  case (snoc f frames)
  show "length (token_ancestors (frames @ [f]) b e) = 2"
    using snoc by (simp add: token_ancestors_step)
  have "blocked (frames @ [f]) b e =
      (if frame_meets b e f then blocked frames b e \<union> ancestor_set (fr_ancestors f) else blocked frames b e)"
    by (auto simp: blocked_def)
  then show "ancestor_set (token_ancestors (frames @ [f]) b e) = blocked (frames @ [f]) b e"
    using snoc by (simp add: token_ancestors_step merged_set del: One_nat_def)
qed

lemma added_ancestor:
  assumes "length a = 2" "i < 128"
  shows "ancestor_set (a[i div 64 := a ! (i div 64) OR push_bit (i mod 64) 1]) = insert i (ancestor_set a)"
proof -
  have bit': "bit (push_bit (i mod 64) (1 :: uint64)) k \<longleftrightarrow> k = i mod 64" if "k < 64" for k
    using that by (auto simp: bit_exp_iff)
  have same: "j = i \<longleftrightarrow> j div 64 = i div 64 \<and> j mod 64 = i mod 64" for j :: nat
    by (metis div_mult_mod_eq)
  have "bit (a[i div 64 := a ! (i div 64) OR push_bit (i mod 64) 1] ! (j div 64)) (j mod 64) \<longleftrightarrow>
      bit (a ! (j div 64)) (j mod 64) \<or> j = i" if "j < 128" for j
  proof (cases "j div 64 = i div 64")
    case True
    have "i div 64 < length a" using half_index[OF assms(2)] assms(1) by auto
    then show ?thesis using True bit'[of "j mod 64"] same[of j] by (simp add: bit_or_iff)
  next
    case False
    then show ?thesis using same[of j] by simp
  qed
  then show ?thesis using assms(2) by (auto simp: ancestor_set_def)
qed

lemma has_ancestor: "\<not> 128 \<le> i \<Longrightarrow> a ! (i div 64) AND 2 ^ (i mod 64) = 0 \<longleftrightarrow> i \<notin> ancestor_set a"
  by (simp add: ancestor_set_def and_exp_eq_0_iff_not_bit)

section \<open>Expansion as steps\<close>

text \<open>A word of the text that may be replaced: an alias, not reserved, and not in a region that comes
  from it.\<close>

definition expandable :: "alias_probe \<Rightarrow> nat \<Rightarrow> nat \<Rightarrow> bool" where
  "expandable p b e \<longleftrightarrow> (let word = slice (pr_input p) b e in \<not> reserved_word word \<and>
    (\<exists>val i. gsh_aliases_lookup (pr_aliases p) word = Some (val, i) \<and> i < GSH_ALIAS_CAP \<and>
      i \<notin> blocked (pr_frames p) b e))"

text \<open>The reference. After a value that ends in an unquoted blank a mark is left behind it, and the
  word that stands at the mark is replaced next, where it may be; otherwise it is the first
  command word of the parsed text that may be replaced. \<open>True\<close> tells that the word was found
  at a mark.\<close>

definition marked_word :: "alias_probe \<Rightarrow> nat \<Rightarrow> gsh_word_ref option" where
  "marked_word p mark =
    (if mark < length (pr_input p) then
       (case gsh_lexer_next (gsh_lexer_init (drop mark (pr_input p))) blank_token of
          (status, lexer, token) \<Rightarrow>
            if status = LEX_OK \<and> tok_kind token = TOKEN_WORD \<and>
               expandable p (mark + tok_begin token) (mark + tok_end token)
            then Some \<lparr>ref_begin = mark + tok_begin token, ref_end = mark + tok_end token\<rparr>
            else None)
     else None)"

definition command_word :: "alias_probe \<Rightarrow> gsh_word_ref option" where
  "command_word p = find (\<lambda>w. expandable p (ref_begin w) (ref_end w))
    (ps_command_words (snd (gsh_parse (pr_input p))))"

definition next_word :: "alias_probe \<Rightarrow> nat option \<Rightarrow> (gsh_word_ref \<times> bool) option" where
  "next_word p mark =
    (case Option.bind mark (marked_word p) of
       Some w \<Rightarrow> Some (w, True)
     | None \<Rightarrow> map_option (\<lambda>w. (w, False)) (command_word p))"

text \<open>The mark left by a replacement: none where the last command of the value of a command word is
  \<open>command\<close>; the word at a mark is not tested so.\<close>

definition mark_behind :: "bool \<Rightarrow> gsh_word_ref \<Rightarrow> byte list \<Rightarrow> nat option" where
  "mark_behind marked w val =
    (if ends_in_unquoted_blank val \<and> (marked \<or> \<not> fst (replacement_ends_in_command val))
     then Some (ref_begin w + length val + 1) else None)"

definition replaced_text :: "byte list \<Rightarrow> gsh_word_ref \<Rightarrow> byte list \<Rightarrow> byte list" where
  "replaced_text text' w val = take (ref_begin w) text' @ val @ '' '' @ drop (ref_end w) text'"

definition replaced_probe ::
  "alias_probe \<Rightarrow> gsh_word_ref \<Rightarrow> byte list \<Rightarrow> nat \<Rightarrow> uint64 list \<Rightarrow> alias_probe" where
  "replaced_probe p w val i anc =
    \<lparr>pr_aliases = pr_aliases p, pr_input = replaced_text (pr_input p) w val,
     pr_frames =
       List.map_filter (moved_frame (ref_begin w) (ref_end w) (length val + 1)) (pr_frames p) @
       [\<lparr>fr_begin = ref_begin w, fr_end = ref_begin w + length val, fr_ancestors = anc\<rparr>],
     pr_matched_index = i, pr_matched_value = val\<rparr>"

inductive alias_step :: "nat \<Rightarrow> alias_probe \<times> nat option \<Rightarrow> alias_probe \<times> nat option \<Rightarrow> bool"
  for capacity where
  replace: "next_word p mark = Some (w, marked) \<Longrightarrow>
    gsh_aliases_lookup (pr_aliases p) (slice (pr_input p) (ref_begin w) (ref_end w)) = Some (val, i) \<Longrightarrow>
    length (replaced_text (pr_input p) w val) < capacity \<Longrightarrow> length anc = 2 \<Longrightarrow>
    ancestor_set anc = insert i (blocked (pr_frames p) (ref_begin w) (ref_end w)) \<Longrightarrow>
    alias_step capacity (p, mark) (replaced_probe p w val i anc, mark_behind marked w val)"

lemma find_alias_spec:
  assumes "find_alias p b e = (r, q)"
  shows "r \<longleftrightarrow> expandable p b e" "\<not> r \<Longrightarrow> q = p"
    "r \<Longrightarrow> \<exists>val i. q = p\<lparr>pr_matched_index := i, pr_matched_value := val\<rparr> \<and>
      gsh_aliases_lookup (pr_aliases p) (slice (pr_input p) b e) = Some (val, i) \<and>
      \<not> reserved_word (slice (pr_input p) b e) \<and> i < GSH_ALIAS_CAP \<and> i \<notin> blocked (pr_frames p) b e \<and>
      slice (pr_input p) b e \<noteq> []"
proof -
  have valid: "gsh_alias_name_is_valid w \<and> w \<noteq> []" if "gsh_aliases_lookup s w = Some x" for s w x
    using that by (auto simp: gsh_aliases_lookup_def gsh_alias_name_is_valid_def split: if_splits)
  show "r \<longleftrightarrow> expandable p b e" "\<not> r \<Longrightarrow> q = p"
    "r \<Longrightarrow> \<exists>val i. q = p\<lparr>pr_matched_index := i, pr_matched_value := val\<rparr> \<and>
      gsh_aliases_lookup (pr_aliases p) (slice (pr_input p) b e) = Some (val, i) \<and>
      \<not> reserved_word (slice (pr_input p) b e) \<and> i < GSH_ALIAS_CAP \<and> i \<notin> blocked (pr_frames p) b e \<and>
      slice (pr_input p) b e \<noteq> []"
    using assms valid
    by (auto simp: find_alias_def expandable_def Let_def has_ancestor token_ancestors(2)
        split: if_splits option.splits dest: valid)
qed

lemma find_first_alias_spec:
  "find_first_alias p ws = (None, q) \<Longrightarrow>
    q = p \<and> find (\<lambda>w. expandable p (ref_begin w) (ref_end w)) ws = None"
  "find_first_alias p ws = (Some w, q) \<Longrightarrow> w \<in> set ws \<and>
    find (\<lambda>w. expandable p (ref_begin w) (ref_end w)) ws = Some w \<and>
    find_alias p (ref_begin w) (ref_end w) = (True, q)"
proof (induction ws)
  case (Cons v ws)
  obtain r q' where v: "find_alias p (ref_begin v) (ref_end v) = (r, q')" by fastforce
  note f = find_alias_spec[OF v]
  { case 1
    with v f Cons.IH(1) show ?case by (cases r) auto
  next
    case 2
    with v f Cons.IH(2) show ?case by (cases r) auto }
qed simp_all

lemma find_command_alias_spec:
  assumes "gsh_parse (pr_input p) = (result, storage)"
  shows "find_command_alias p storage = (None, q) \<Longrightarrow> q = p \<and> command_word p = None"
    "find_command_alias p storage = (Some w, q) \<Longrightarrow> command_word p = Some w \<and>
      find_alias p (ref_begin w) (ref_end w) = (True, q) \<and> span_in (pr_input p) w"
proof -
  show "find_command_alias p storage = (None, q) \<Longrightarrow> q = p \<and> command_word p = None"
    using find_first_alias_spec(1)[of p "ps_command_words storage" q] assms
    by (simp add: find_command_alias_def command_word_def)
  assume w: "find_command_alias p storage = (Some w, q)"
  have "\<forall>w \<in> set (ps_command_words storage). span_in (pr_input p) w"
    using gsh_parse_result[OF assms] by (metis storage_spans_def)
  with find_first_alias_spec(2)[of p "ps_command_words storage" w q] w assms
  show "command_word p = Some w \<and> find_alias p (ref_begin w) (ref_end w) = (True, q) \<and>
      span_in (pr_input p) w"
    by (simp add: find_command_alias_def command_word_def)
qed

text \<open>A replacement of the code is a step of the reference.\<close>

lemma rewrite_outcome:
  assumes "find_alias p b e = (True, q)"
    "rewrite_alias q capacity b e (pr_matched_value q) (pr_matched_index q) = (True, r)"
  shows "b < e" "e \<le> length (pr_input p)"
    "gsh_aliases_lookup (pr_aliases p) (slice (pr_input p) b e) = Some (pr_matched_value r, pr_matched_index r)"
    "pr_matched_index r = pr_matched_index q" "pr_matched_value r = pr_matched_value q"
    "pr_matched_index r \<notin> blocked (pr_frames p) b e" "pr_aliases r = pr_aliases p"
    "length (pr_frames p) \<noteq> GSH_ALIAS_EXPANSION_LIMIT"
    "pr_input r = take b (pr_input p) @ pr_matched_value r @ '' '' @ drop e (pr_input p)"
    "length (pr_input p) < capacity \<Longrightarrow> length (pr_input r) < capacity"
    "\<exists>anc. length anc = 2 \<and> ancestor_set anc = insert (pr_matched_index r) (blocked (pr_frames p) b e) \<and>
      pr_frames r = List.map_filter (moved_frame b e (length (pr_matched_value r) + 1)) (pr_frames p) @
        [\<lparr>fr_begin = b, fr_end = b + length (pr_matched_value r), fr_ancestors = anc\<rparr>]"
proof -
  from find_alias_spec(3)[OF assms(1)] obtain val i where
    q: "q = p\<lparr>pr_matched_index := i, pr_matched_value := val\<rparr>" and
    m: "gsh_aliases_lookup (pr_aliases p) (slice (pr_input p) b e) = Some (val, i)"
      "\<not> reserved_word (slice (pr_input p) b e)" "i < GSH_ALIAS_CAP" "i \<notin> blocked (pr_frames p) b e"
      "slice (pr_input p) b e \<noteq> []" by auto
  from m(5) show b: "b < e" by (simp add: slice_def)
  let ?anc = "token_ancestors (pr_frames p) b e"
  let ?new = "?anc[i div 64 := ?anc ! (i div 64) OR push_bit (i mod 64) 1]"
  from assms(2) q have guard: "length (pr_frames p) \<noteq> GSH_ALIAS_EXPANSION_LIMIT" "e \<le> length (pr_input p)"
    "length val + 1 < capacity - (length (pr_input p) - (e - b))" and
    r: "r = q\<lparr>pr_input := take b (pr_input p) @ val @ '' '' @ drop e (pr_input p),
      pr_frames := List.map_filter (moved_frame b e (length val + 1)) (pr_frames p) @
        [\<lparr>fr_begin = b, fr_end = b + length val, fr_ancestors = ?new\<rparr>]\<rparr>"
    by (auto simp: rewrite_alias_def Let_def split: if_splits)
  show "length (pr_input p) < capacity \<Longrightarrow> length (pr_input r) < capacity"
    using guard(2,3) b by (simp add: r)
  have "length ?new = 2" "ancestor_set ?new = insert i (blocked (pr_frames p) b e)"
    using added_ancestor[OF token_ancestors(1)] m(3) by (simp_all only: token_ancestors length_list_update)
  then show "\<exists>anc. length anc = 2 \<and>
      ancestor_set anc = insert (pr_matched_index r) (blocked (pr_frames p) b e) \<and>
      pr_frames r = List.map_filter (moved_frame b e (length (pr_matched_value r) + 1)) (pr_frames p) @
        [\<lparr>fr_begin = b, fr_end = b + length (pr_matched_value r), fr_ancestors = anc\<rparr>]"
    by (intro exI[of _ ?new]) (simp add: r q)
  show "e \<le> length (pr_input p)" "length (pr_frames p) \<noteq> GSH_ALIAS_EXPANSION_LIMIT"
    "gsh_aliases_lookup (pr_aliases p) (slice (pr_input p) b e) = Some (pr_matched_value r, pr_matched_index r)"
    "pr_matched_index r = pr_matched_index q" "pr_matched_value r = pr_matched_value q"
    "pr_matched_index r \<notin> blocked (pr_frames p) b e" "pr_aliases r = pr_aliases p"
    "pr_input r = take b (pr_input p) @ pr_matched_value r @ '' '' @ drop e (pr_input p)"
    using m(1,4) guard(1,2) by (simp_all add: r q)
qed

lemma rewrite_step:
  assumes "find_alias p (ref_begin w) (ref_end w) = (True, q)" "length (pr_input p) < capacity"
    "rewrite_alias q capacity (ref_begin w) (ref_end w) (pr_matched_value q) (pr_matched_index q) = (True, r)"
    "next_word p mark = Some (w, marked)"
  shows "alias_step capacity (p, mark) (r, mark_behind marked w (pr_matched_value q))"
proof -
  note o = rewrite_outcome[OF assms(1,3)]
  obtain anc where anc: "length anc = 2"
    "ancestor_set anc = insert (pr_matched_index r) (blocked (pr_frames p) (ref_begin w) (ref_end w))"
    "pr_frames r = List.map_filter (moved_frame (ref_begin w) (ref_end w) (length (pr_matched_value r) + 1))
        (pr_frames p) @
      [\<lparr>fr_begin = ref_begin w, fr_end = ref_begin w + length (pr_matched_value r), fr_ancestors = anc\<rparr>]"
    using o(11) by blast
  have input: "pr_input r = replaced_text (pr_input p) w (pr_matched_value r)"
    using o(9) by (simp add: replaced_text_def)
  then have "r = replaced_probe p w (pr_matched_value r) (pr_matched_index r) anc"
    using o(7) anc(3) unfolding replaced_probe_def by (cases r) simp
  with alias_step.replace[OF assms(4) o(3) _ anc(1,2), of capacity] o(5) o(10)[OF assms(2)] input
  show ?thesis by simp
qed

text \<open>Where a limit is reported: 128 replacements are made, or the next one does not fit the buffer.\<close>

definition too_long :: "nat \<Rightarrow> alias_probe \<times> nat option \<Rightarrow> bool" where
  "too_long capacity s \<longleftrightarrow> (case s of (p, mark) \<Rightarrow> \<exists>w marked val i.
    next_word p mark = Some (w, marked) \<and>
    gsh_aliases_lookup (pr_aliases p) (slice (pr_input p) (ref_begin w) (ref_end w)) = Some (val, i) \<and>
    capacity \<le> length (replaced_text (pr_input p) w val))"

definition overrun :: "nat \<Rightarrow> alias_probe \<times> nat option \<Rightarrow> nat \<Rightarrow> bool" where
  "overrun capacity s n \<longleftrightarrow> (\<exists>k r. (alias_step capacity ^^ k) s r \<and>
    (GSH_ALIAS_EXPANSION_LIMIT \<le> n + k \<or> too_long capacity r))"

lemma overrun_now: "GSH_ALIAS_EXPANSION_LIMIT \<le> n \<or> too_long capacity s \<Longrightarrow> overrun capacity s n"
  unfolding overrun_def by (rule exI[of _ 0], rule exI[of _ s]) simp

lemma overrun_steps:
  assumes "(alias_step capacity ^^ j) s r" "overrun capacity r (n + j)"
  shows "overrun capacity s n"
proof -
  obtain k t where "(alias_step capacity ^^ k) r t" "GSH_ALIAS_EXPANSION_LIMIT \<le> n + j + k \<or> too_long capacity t"
    using assms(2) by (auto simp: overrun_def)
  with assms(1) show ?thesis
    unfolding overrun_def by (intro exI[of _ "j + k"] exI[of _ t]) (auto simp: relpowp_add)
qed

lemma rewrite_fails:
  assumes "find_alias p (ref_begin w) (ref_end w) = (True, q)" "ref_end w \<le> length (pr_input p)"
    "rewrite_alias q capacity (ref_begin w) (ref_end w) (pr_matched_value q) (pr_matched_index q) = (False, r)"
    "next_word p mark = Some (w, marked)" "length (pr_frames p) \<le> N"
  shows "overrun capacity (p, mark) N"
proof -
  from find_alias_spec(3)[OF assms(1)] obtain val i where
    q: "q = p\<lparr>pr_matched_index := i, pr_matched_value := val\<rparr>" and
    m: "gsh_aliases_lookup (pr_aliases p) (slice (pr_input p) (ref_begin w) (ref_end w)) = Some (val, i)"
      "slice (pr_input p) (ref_begin w) (ref_end w) \<noteq> []" by auto
  from m(2) have b: "ref_begin w < ref_end w" by (simp add: slice_def)
  have "length (pr_frames p) = GSH_ALIAS_EXPANSION_LIMIT \<or>
      capacity \<le> length (replaced_text (pr_input p) w val)"
    using assms(3) q b assms(2) by (auto simp: rewrite_alias_def replaced_text_def Let_def split: if_splits)
  then have "length (pr_frames p) = GSH_ALIAS_EXPANSION_LIMIT \<or> too_long capacity (p, mark)"
    using m(1) assms(4) by (auto simp: too_long_def)
  with assms(5) show ?thesis by (auto intro: overrun_now)
qed

lemma map_filter_length: "length (List.map_filter m xs) \<le> length xs"
  by (simp add: List.map_filter_def)

lemma step_frames:
  assumes "alias_step capacity s r" shows "length (pr_frames (fst r)) \<le> length (pr_frames (fst s)) + 1"
  using assms map_filter_length by cases (simp add: replaced_probe_def)

lemma steps_frames:
  "(alias_step capacity ^^ k) s r \<Longrightarrow> length (pr_frames (fst r)) \<le> length (pr_frames (fst s)) + k"
proof (induction k arbitrary: r)
  case (Suc k)
  then obtain t where "(alias_step capacity ^^ k) s t" "alias_step capacity t r" by auto
  with Suc.IH step_frames show ?case by fastforce
qed simp

text \<open>The loops as runs of steps. A mark is spent when no word at it can be replaced: then the next
  word is a command word.\<close>

definition spent :: "alias_probe \<Rightarrow> nat option \<Rightarrow> bool" where
  "spent p mark \<longleftrightarrow> Option.bind mark (marked_word p) = None"

lemma spent_next: "spent p mark \<Longrightarrow> next_word p mark = map_option (\<lambda>w. (w, False)) (command_word p)"
  by (simp add: spent_def next_word_def)

lemma spent_None: "spent p None"
  by (simp add: spent_def)

text \<open>A call of \<open>force_following_aliases\<close> that does something replaces the marked word.\<close>

lemma force_following_cases:
  assumes "force_following_aliases capacity mark p n = (ok, q, m)"
  obtains (rest) "ok \<longleftrightarrow> n < GSH_ALIAS_EXPANSION_LIMIT \<or> length (pr_input p) \<le> mark" "q = p" "m = n"
      "ok \<Longrightarrow> marked_word p mark = None"
  | (word) w p1 rewritten p2 where "n < GSH_ALIAS_EXPANSION_LIMIT" "marked_word p mark = Some w"
      "ref_end w \<le> length (pr_input p)" "find_alias p (ref_begin w) (ref_end w) = (True, p1)"
      "rewrite_alias p1 capacity (ref_begin w) (ref_end w) (pr_matched_value p1) (pr_matched_index p1) =
        (rewritten, p2)"
      "if \<not> rewritten then \<not> ok
       else if ends_in_unquoted_blank (pr_matched_value p1)
       then force_following_aliases capacity (ref_begin w + length (pr_matched_value p1) + 1) p2 (n + 1) =
         (ok, q, m)
       else ok \<and> q = p2 \<and> m = n + 1"
proof -
  obtain st lexer t where lex: "gsh_lexer_next (gsh_lexer_init (drop mark (pr_input p))) blank_token = (st, lexer, t)"
    by (metis prod_cases3)
  let ?w = "\<lparr>ref_begin = mark + tok_begin t, ref_end = mark + tok_end t\<rparr>"
  obtain found p1 where found: "find_alias p (ref_begin ?w) (ref_end ?w) = (found, p1)" by fastforce
  obtain rewritten p2 where rew: "rewrite_alias p1 capacity (ref_begin ?w) (ref_end ?w)
      (pr_matched_value p1) (pr_matched_index p1) = (rewritten, p2)" by fastforce
  note f = find_alias_spec[OF found] and unfold = assms[unfolded force_following_aliases.simps[of capacity mark]]
  show thesis
  proof (cases "mark < length (pr_input p) \<and> n < GSH_ALIAS_EXPANSION_LIMIT \<and> st = LEX_OK \<and>
      tok_kind t = TOKEN_WORD \<and> found")
    case False
    with unfold lex found f show thesis
      by (intro rest) (auto simp: Let_def marked_word_def split: if_splits)
  next
    case True
    have "tok_end t \<le> length (drop mark (pr_input p))"
      using lexer_next_ok[OF lex[unfolded True[THEN conjunct2, THEN conjunct2, THEN conjunct1]]]
      by (simp add: token_ok_def)
    then have "ref_end ?w \<le> length (pr_input p)" using True by (simp add: le_diff_conv2)
    moreover have "marked_word p mark = Some ?w" using True lex f(1) by (simp add: marked_word_def)
    ultimately show thesis
      using True unfold lex found rew by (intro word[of ?w p1 rewritten p2]) (auto simp: Let_def split: bool.splits)
  qed
qed

lemma force_following_steps:
  assumes "length (pr_input p) < capacity" "n \<le> N" "length (pr_frames p) \<le> N"
    "force_following_aliases capacity mark p n = (ok, q, m)"
  shows "if ok then \<exists>k mark'. (alias_step capacity ^^ k) (p, Some mark) (q, mark') \<and> m = n + k \<and>
        length (pr_input q) < capacity \<and> spent q mark'
      else overrun capacity (p, Some mark) N"
  using assms
proof (induction "GSH_ALIAS_EXPANSION_LIMIT - n" arbitrary: mark p n N rule: less_induct)
  case less
  from less.prems(4) show ?case
  proof (cases rule: force_following_cases)
    case rest
    then show ?thesis
      using less.prems(1,2) by (auto simp: spent_def intro!: exI[of _ 0] overrun_now)
  next
    case (word w p1 rewritten p2)
    then have next': "next_word p (Some mark) = Some (w, True)" by (simp add: next_word_def)
    show ?thesis
    proof (cases rewritten)
      case False
      with word rewrite_fails[OF word(4,3) _ next' less.prems(3)] show ?thesis by simp
    next
      case True
      from word(5) True have rew: "rewrite_alias p1 capacity (ref_begin w) (ref_end w)
        (pr_matched_value p1) (pr_matched_index p1) = (True, p2)" by simp
      note step = rewrite_step[OF word(4) less.prems(1) rew next']
      have len: "length (pr_input p2) < capacity"
        using rewrite_outcome(10)[OF word(4) rew less.prems(1)] .
      show ?thesis
      proof (cases "ends_in_unquoted_blank (pr_matched_value p1)")
        case False
        with word True step len show ?thesis
          by (auto simp: mark_behind_def spent_None intro!: exI[of _ 1])
      next
        case blank: True
        let ?mark = "ref_begin w + length (pr_matched_value p1) + 1"
        have step': "(alias_step capacity ^^ 1) (p, Some mark) (p2, Some ?mark)"
          using step blank by (simp add: mark_behind_def del: One_nat_def relpowp.simps)
        have run: "force_following_aliases capacity ?mark p2 (n + 1) = (ok, q, m)"
          using word(6) True blank by simp
        have "if ok then \<exists>k mark'. (alias_step capacity ^^ k) (p2, Some ?mark) (q, mark') \<and>
              m = n + 1 + k \<and> length (pr_input q) < capacity \<and> spent q mark'
            else overrun capacity (p2, Some ?mark) (N + 1)"
          by (rule less.hyps[OF _ len _ _ run])
            (use word(1) less.prems(2,3) step_frames[OF step] in \<open>simp_all add: diff_less_mono2\<close>)
        then show ?thesis
          using relpowp_trans[OF step'] overrun_steps[OF step'] by (fastforce split: if_splits)
      qed
    qed
  qed
qed

lemma expand_candidate_steps:
  assumes "find_alias p (ref_begin w) (ref_end w) = (True, p1)" "length (pr_input p) < capacity"
    "span_in (pr_input p) w" "next_word p mark = Some (w, False)" "n \<le> N + 1" "length (pr_frames p) \<le> N"
    "expand_candidate capacity w p1 storage n = (ok, q, storage', m)"
  shows "if ok then \<exists>k mark'. (alias_step capacity ^^ Suc k) (p, mark) (q, mark') \<and> m = n + k \<and>
        length (pr_input q) < capacity \<and> spent q mark'
      else overrun capacity (p, mark) N"
proof -
  obtain rewritten p2 where rew: "rewrite_alias p1 capacity (ref_begin w) (ref_end w)
      (pr_matched_value p1) (pr_matched_index p1) = (rewritten, p2)" by fastforce
  let ?mark = "ref_begin w + length (pr_matched_value p1) + 1"
  show ?thesis
  proof (cases rewritten)
    case False
    have "ref_end w \<le> length (pr_input p)" using assms(3) by (simp add: span_in_def)
    moreover from rew False have "rewrite_alias p1 capacity (ref_begin w) (ref_end w)
        (pr_matched_value p1) (pr_matched_index p1) = (False, p2)" by simp
    ultimately have "overrun capacity (p, mark) N" using rewrite_fails[OF assms(1)] assms(4,6) by blast
    with False rew assms(7)
    show ?thesis by (auto simp: expand_candidate_def Let_def)
  next
    case True
    from rew True have rew': "rewrite_alias p1 capacity (ref_begin w) (ref_end w)
        (pr_matched_value p1) (pr_matched_index p1) = (True, p2)" by simp
    note step = rewrite_step[OF assms(1,2) rew' assms(4)]
    have len: "length (pr_input p2) < capacity" using rewrite_outcome(10)[OF assms(1) rew' assms(2)] .
    show ?thesis
    proof (cases "ends_in_unquoted_blank (pr_matched_value p1) \<and>
        \<not> fst (replacement_ends_in_command (pr_matched_value p1))")
      case False
      then have "ok" "q = p2" "m = n"
        using assms(7) rew' by (auto simp: expand_candidate_def Let_def split: if_splits prod.splits bool.splits)
      with False step len show ?thesis
        by (auto simp: mark_behind_def spent_None intro!: exI[of _ 0])
    next
      case blank: True
      then have run: "force_following_aliases capacity ?mark p2 n = (ok, q, m)"
        using assms(7) rew' by (auto simp: expand_candidate_def Let_def split: prod.splits bool.splits)
      have step': "(alias_step capacity ^^ 1) (p, mark) (p2, Some ?mark)"
        using step blank by (simp add: mark_behind_def del: One_nat_def relpowp.simps)
      show ?thesis
        using force_following_steps[OF len _ _ run, of "N + 1"] step_frames[OF step] assms(5,6)
          relpowp_trans[OF step'] overrun_steps[OF step'] by (fastforce split: if_splits)
    qed
  qed
qed

text \<open>Where the loop ends: at a limit, or with the parse of a text in which no word is left to be
  replaced.\<close>

definition expanded_to ::
  "nat \<Rightarrow> alias_probe \<times> nat option \<Rightarrow> nat \<Rightarrow> gsh_parse_result \<Rightarrow> gsh_parse_storage \<Rightarrow> byte list \<Rightarrow> bool" where
  "expanded_to capacity s n result storage text' \<longleftrightarrow>
    (\<exists>k q mark. (alias_step capacity ^^ k) s (q, mark) \<and> n + k < GSH_ALIAS_EXPANSION_LIMIT \<and>
      next_word q mark = None \<and> pr_input q = text' \<and> gsh_parse text' = (result, storage) \<and>
      (k = 0 \<or> length text' < capacity))"

lemma expanded_to_steps:
  assumes "(alias_step capacity ^^ j) s (q, mark)" "expanded_to capacity (q, mark) (n + j) result storage text'"
    "length (pr_input q) < capacity"
  shows "expanded_to capacity s n result storage text'"
proof -
  obtain k r mark' where r: "(alias_step capacity ^^ k) (q, mark) (r, mark')"
    "n + j + k < GSH_ALIAS_EXPANSION_LIMIT" "next_word r mark' = None"
    "pr_input r = text'" "gsh_parse text' = (result, storage)" "k = 0 \<or> length text' < capacity"
    using assms(2) by (auto simp: expanded_to_def)
  have "(alias_step capacity ^^ (j + k)) s (r, mark')" using assms(1) r(1) by (auto simp: relpowp_add)
  moreover have "length text' < capacity" using r assms(3) by (cases "k = 0") auto
  ultimately show ?thesis using r by (auto simp: expanded_to_def add.assoc)
qed

lemma expand_loop_spec:
  "expand_loop input capacity candidate p storage n = (result, storage', text') \<Longrightarrow>
    length (pr_input p) < capacity \<Longrightarrow> length (pr_frames p) \<le> n \<Longrightarrow> spent p mark \<Longrightarrow>
    (\<exists>offset. result = limit_result offset) \<and> text' = input \<and> overrun capacity (p, mark) n \<or>
    expanded_to capacity (p, mark) n result storage' text'"
proof (induction input capacity candidate p storage n arbitrary: mark rule: expand_loop.induct)
  case (1 input capacity candidate p storage n)
  obtain result1 storage1 where parse: "gsh_parse (pr_input p) = (result1, storage1)" by fastforce
  obtain found p1 where found: "find_command_alias p storage1 = (found, p1)" by fastforce
  note spec = find_command_alias_spec[OF parse]
  show ?case
  proof (cases "n < GSH_ALIAS_EXPANSION_LIMIT")
    case False
    with 1(2) overrun_now[of n capacity "(p, mark)"] show ?thesis by (subst (asm) expand_loop.simps) auto
  next
    case less: True
    show ?thesis
    proof (cases found)
      case None
      with spec(1)[of p1] found spent_next[OF 1(5)] have none: "p1 = p" "next_word p mark = None" by auto
      with 1(2) less parse found None have "result = result1" "storage' = storage1" "text' = pr_input p"
        by (subst (asm) expand_loop.simps, simp)+
      with none parse less show ?thesis
        by (auto simp: expanded_to_def intro!: exI[of _ 0] exI[of _ p])
    next
      case (Some w)
      with spec(2)[of w p1] found spent_next[OF 1(5)] have
        w: "find_alias p (ref_begin w) (ref_end w) = (True, p1)" "span_in (pr_input p) w"
          "next_word p mark = Some (w, False)" by auto
      obtain ok q storage2 m where expand: "expand_candidate capacity w p1 storage1 n = (ok, q, storage2, m)"
        by (metis prod_cases4)
      note steps = expand_candidate_steps[OF w(1) 1(3) w(2,3) _ 1(4) expand]
      show ?thesis
      proof (cases ok)
        case False
        with steps 1(2) less parse found Some expand show ?thesis by (subst (asm) expand_loop.simps) auto
      next
        case True
        with steps obtain k mark' where
          k: "(alias_step capacity ^^ Suc k) (p, mark) (q, mark')" "m = n + k"
            "length (pr_input q) < capacity" "spent q mark'" by auto
        from 1(2) less parse found Some expand True have
          loop: "expand_loop input capacity w q storage2 (m + 1) = (result, storage', text')"
          by (subst (asm) expand_loop.simps) simp
        have "(\<exists>offset. result = limit_result offset) \<and> text' = input \<and>
              overrun capacity (q, mark') (n + Suc k) \<or>
            expanded_to capacity (q, mark') (n + Suc k) result storage' text'"
          using steps_frames[OF k(1)] 1(4) 1(1)[of result1 storage1 found p1 w True "(q, storage2, m)" q
              "(storage2, m)" storage2 m mark'] less parse found Some expand True loop k by simp
        with expanded_to_steps[OF k(1) _ k(3)] overrun_steps[OF k(1)] show ?thesis by blast
      qed
    qed
  qed
qed

text \<open>The reference is deterministic: from a probe there is one run, so how it ends does not depend
  on the choice of steps.\<close>

lemma ancestor_set_inj:
  assumes "length a = 2" "length b = 2" "ancestor_set a = ancestor_set b"
  shows "a = b"
proof (rule nth_equalityI)
  fix j assume j: "j < length a"
  show "a ! j = b ! j"
  proof (rule bit_word_eqI)
    fix n assume "n < LENGTH(64)"
    then have n: "n < 64" by simp
    have "64 * j + n \<in> ancestor_set a \<longleftrightarrow> 64 * j + n \<in> ancestor_set b" using assms(3) by simp
    with n j assms(1) show "bit (a ! j) n \<longleftrightarrow> bit (b ! j) n" by (simp add: ancestor_set_def)
  qed
qed (simp add: assms)

lemma alias_step_deterministic:
  assumes "alias_step capacity (p, mark) r" "alias_step capacity (p, mark) t"
  shows "r = t"
proof -
  from assms(1) obtain w marked val i anc where
    q: "next_word p mark = Some (w, marked)"
      "gsh_aliases_lookup (pr_aliases p) (slice (pr_input p) (ref_begin w) (ref_end w)) = Some (val, i)"
      "length anc = 2" "ancestor_set anc = insert i (blocked (pr_frames p) (ref_begin w) (ref_end w))"
      "r = (replaced_probe p w val i anc, mark_behind marked w val)"
    by (rule alias_step.cases) simp
  from assms(2) obtain anc' where
    "length anc' = 2" "ancestor_set anc' = insert i (blocked (pr_frames p) (ref_begin w) (ref_end w))"
      "t = (replaced_probe p w val i anc', mark_behind marked w val)"
    using q(1,2) by cases auto
  with q(3-5) show ?thesis using ancestor_set_inj[of anc anc'] by simp
qed

lemma final_run:
  assumes "(alias_step capacity ^^ k) s r" "\<And>t. \<not> alias_step capacity r t" "(alias_step capacity ^^ j) s t"
  shows "j \<le> k \<and> (alias_step capacity ^^ (k - j)) t r"
  using assms(1,3)
proof (induction j arbitrary: k s)
  case (Suc j)
  from relpowp_Suc_D2[OF Suc.prems(2)] obtain u where
    u: "alias_step capacity s u" "(alias_step capacity ^^ j) u t" by blast
  with Suc.prems(1) assms(2) obtain k' where k: "k = Suc k'" by (cases k) auto
  from relpowp_Suc_D2[OF Suc.prems(1)[unfolded k]] obtain v where
    v: "alias_step capacity s v" "(alias_step capacity ^^ k') v r" by blast
  have "v = u" using alias_step_deterministic[of capacity "fst s" "snd s"] u(1) v(1) by simp
  with Suc.IH[OF _ u(2), of k'] v(2) k show ?case by simp
qed simp

lemma no_word_stuck: "next_word q mark = None \<Longrightarrow> \<not> alias_step capacity (q, mark) r"
  by (auto elim: alias_step.cases)

lemma too_long_stuck: "too_long capacity s \<Longrightarrow> \<not> alias_step capacity s r"
  by (auto simp: too_long_def elim!: alias_step.cases)

lemma expanded_not_overrun:
  assumes "expanded_to capacity s n result storage text'"
  shows "\<not> overrun capacity s n"
proof
  obtain k q mark where k: "(alias_step capacity ^^ k) s (q, mark)" "n + k < GSH_ALIAS_EXPANSION_LIMIT"
    "next_word q mark = None" using assms by (auto simp: expanded_to_def)
  assume "overrun capacity s n"
  then obtain j r where j: "(alias_step capacity ^^ j) s r"
    "GSH_ALIAS_EXPANSION_LIMIT \<le> n + j \<or> too_long capacity r" by (auto simp: overrun_def)
  from final_run[OF k(1) no_word_stuck[OF k(3)] j(1)] have
    run: "j \<le> k" "(alias_step capacity ^^ (k - j)) r (q, mark)" by simp_all
  with j(2) k(2) have long: "too_long capacity r" by simp
  show False
  proof (cases "k - j")
    case 0
    with run(2) long k(3) show False by (auto simp: too_long_def)
  next
    case (Suc d)
    with relpowp_Suc_D2[OF run(2)[unfolded Suc]] too_long_stuck[OF long] show False by blast
  qed
qed

lemma expanded_to_unique:
  assumes "expanded_to capacity s n result storage text'" "expanded_to capacity s n result2 storage2 text2"
  shows "result2 = result \<and> storage2 = storage \<and> text2 = text'"
proof -
  obtain k q mark where k: "(alias_step capacity ^^ k) s (q, mark)" "next_word q mark = None"
    "pr_input q = text'" "gsh_parse text' = (result, storage)"
    using assms(1) by (auto simp: expanded_to_def)
  obtain j r mark2 where j: "(alias_step capacity ^^ j) s (r, mark2)" "next_word r mark2 = None"
    "pr_input r = text2" "gsh_parse text2 = (result2, storage2)"
    using assms(2) by (auto simp: expanded_to_def)
  from final_run[OF k(1) no_word_stuck[OF k(2)] j(1)] final_run[OF j(1) no_word_stuck[OF j(2)] k(1)]
  have "(q, mark) = (r, mark2)" by auto
  with k(3,4) j(3,4) show ?thesis by auto
qed

section \<open>The regions of replacements\<close>

text \<open>Of two regions that meet, the later one comes from all aliases of the earlier and one more.\<close>

definition nested_in :: "alias_frame \<Rightarrow> alias_frame \<Rightarrow> bool" where
  "nested_in f g \<longleftrightarrow> frame_meets (fr_begin g) (fr_end g) f \<longrightarrow>
    ancestor_set (fr_ancestors f) \<subset> ancestor_set (fr_ancestors g)"

definition regions_ok :: "alias_probe \<Rightarrow> bool" where
  "regions_ok p \<longleftrightarrow>
    (\<forall>f \<in> set (pr_frames p). fr_begin f \<le> fr_end f \<and> fr_end f \<le> length (pr_input p) \<and>
      length (fr_ancestors f) = 2) \<and>
    length (pr_frames p) \<le> GSH_ALIAS_EXPANSION_LIMIT \<and>
    sorted_wrt nested_in (pr_frames p)"

lemma moved_frame_facts:
  assumes "moved_frame b e l f = Some f'" "b < e" "fr_begin f \<le> fr_end f"
  shows "fr_ancestors f' = fr_ancestors f" "fr_begin f' \<le> fr_end f'"
    "fr_end f \<le> n \<Longrightarrow> e \<le> n \<Longrightarrow> fr_end f' \<le> n + l - (e - b)"
    "frame_meets b (b + k) f' \<Longrightarrow> k < l \<Longrightarrow> frame_meets b e f"
  using assms by (auto simp: moved_frame_def Let_def frame_meets_def split: if_splits)

lemma moved_frames_nested:
  assumes "moved_frame b e l f = Some f'" "moved_frame b e l g = Some g'" "b < e" "0 < l"
    "fr_begin f \<le> fr_end f" "fr_begin g \<le> fr_end g" "nested_in f g"
  shows "nested_in f' g'"
proof -
  have "frame_meets (fr_begin g') (fr_end g') f' \<Longrightarrow> frame_meets (fr_begin g) (fr_end g) f"
    using assms(1-6) by (auto simp: moved_frame_def Let_def frame_meets_def split: if_splits)
  then show ?thesis
    using assms(7) moved_frame_facts(1)[OF assms(1,3,5)] moved_frame_facts(1)[OF assms(2,3,6)]
    by (simp add: nested_in_def)
qed

lemma map_filter_member: "y \<in> set (List.map_filter m xs) \<longleftrightarrow> (\<exists>x \<in> set xs. m x = Some y)"
  by (induction xs) (auto simp: List.map_filter_def)

lemma map_filter_sorted:
  assumes "sorted_wrt R xs" "\<And>x y x' y'. x \<in> set xs \<Longrightarrow> y \<in> set xs \<Longrightarrow> R x y \<Longrightarrow>
      m x = Some x' \<Longrightarrow> m y = Some y' \<Longrightarrow> R x' y'"
  shows "sorted_wrt R (List.map_filter m xs)"
  using assms
proof (induction xs)
  case (Cons x xs)
  have "sorted_wrt R (List.map_filter m xs)"
    by (rule Cons.IH) (use Cons.prems in auto)
  moreover have "R x' y'" if "m x = Some x'" "y' \<in> set (List.map_filter m xs)" for x' y'
    using that Cons.prems(1) Cons.prems(2)[of x] by (auto simp: map_filter_member)
  ultimately show ?case by (cases "m x") (auto simp: List.map_filter_simps)
qed (simp add: List.map_filter_simps)

lemma rewrite_regions:
  assumes "regions_ok p" "find_alias p b e = (True, p1)"
    "rewrite_alias p1 capacity b e (pr_matched_value p1) (pr_matched_index p1) = (True, q)"
  shows "regions_ok q"
proof -
  note o = rewrite_outcome[OF assms(2,3)]
  define val where "val = pr_matched_value q"
  obtain anc where anc: "length anc = 2"
    "ancestor_set anc = insert (pr_matched_index q) (blocked (pr_frames p) b e)"
    "pr_frames q = List.map_filter (moved_frame b e (length val + 1)) (pr_frames p) @
      [\<lparr>fr_begin = b, fr_end = b + length val, fr_ancestors = anc\<rparr>]"
    using o(11) unfolding val_def by blast
  let ?moved = "List.map_filter (moved_frame b e (length val + 1)) (pr_frames p)"
  let ?new = "\<lparr>fr_begin = b, fr_end = b + length val, fr_ancestors = anc\<rparr>"
  have old: "fr_begin f \<le> fr_end f \<and> fr_end f \<le> length (pr_input p) \<and> length (fr_ancestors f) = 2"
    if "f \<in> set (pr_frames p)" for f using assms(1) that by (simp add: regions_ok_def)
  have len: "length (pr_input q) = length (pr_input p) + (length val + 1) - (e - b)"
    using o(1,2,9) by (simp add: val_def)
  have regions: "fr_begin f \<le> fr_end f \<and> fr_end f \<le> length (pr_input q) \<and> length (fr_ancestors f) = 2"
    if "f \<in> set ?moved" for f
    using that old moved_frame_facts(1-3)[OF _ o(1)] o(2) unfolding map_filter_member len by metis
  have "sorted_wrt nested_in ?moved"
    using assms(1) moved_frames_nested[OF _ _ o(1)] old
    by (intro map_filter_sorted) (auto simp: regions_ok_def)
  moreover have "nested_in f' ?new" if member: "f' \<in> set ?moved" for f'
    unfolding nested_in_def
  proof
    assume meets: "frame_meets (fr_begin ?new) (fr_end ?new) f'"
    obtain f where f: "f \<in> set (pr_frames p)" "moved_frame b e (length val + 1) f = Some f'"
      using member by (auto simp: map_filter_member)
    note facts = moved_frame_facts[OF f(2) o(1)] old[OF f(1)]
    have "frame_meets b e f" using facts(4)[of "length val"] facts(5) meets by simp
    with f(1) have "ancestor_set (fr_ancestors f) \<subseteq> blocked (pr_frames p) b e"
      by (auto simp: blocked_def)
    with o(6) anc(2) facts(1,5) show "ancestor_set (fr_ancestors f') \<subset> ancestor_set (fr_ancestors ?new)"
      by auto
  qed
  ultimately have "sorted_wrt nested_in (pr_frames q)" by (simp add: anc(3) sorted_wrt_append)
  moreover have "length (pr_frames q) \<le> GSH_ALIAS_EXPANSION_LIMIT"
    using map_filter_length[of "moved_frame b e (length val + 1)" "pr_frames p"] o(8) assms(1)
    by (simp add: anc(3) regions_ok_def)
  moreover have "b + length val \<le> length (pr_input q)" using o(1,2,9) by (simp add: val_def)
  ultimately show ?thesis using regions anc(1) by (auto simp: regions_ok_def anc(3))
qed

lemma force_following_regions:
  assumes "regions_ok p" "force_following_aliases capacity mark p n = (ok, q, m)"
  shows "ok \<Longrightarrow> regions_ok q"
  using assms
proof (induction "GSH_ALIAS_EXPANSION_LIMIT - n" arbitrary: mark p n rule: less_induct)
  case less
  from less.prems(3) show ?case
  proof (cases rule: force_following_cases)
    case rest
    then show ?thesis using less.prems(2) by simp
  next
    case (word w p1 rewritten p2)
    then have ok: rewritten using less.prems(1) by (cases rewritten) simp_all
    with word(5) have "rewrite_alias p1 capacity (ref_begin w) (ref_end w)
        (pr_matched_value p1) (pr_matched_index p1) = (True, p2)" by simp
    from rewrite_regions[OF less.prems(2) word(4) this] have p2: "regions_ok p2" .
    show ?thesis
    proof (cases "ends_in_unquoted_blank (pr_matched_value p1)")
      case False
      with word(6) ok p2 show ?thesis by simp
    next
      case True
      with word(6) ok have run: "force_following_aliases capacity
          (ref_begin w + length (pr_matched_value p1) + 1) p2 (n + 1) = (ok, q, m)" by simp
      show ?thesis using less.hyps[OF _ less.prems(1) p2 run] word(1) by (simp add: diff_less_mono2)
    qed
  qed
qed

lemma expand_candidate_regions:
  assumes "regions_ok p" "find_alias p (ref_begin w) (ref_end w) = (True, p1)"
    "expand_candidate capacity w p1 storage n = (True, q, storage', m)"
  shows "regions_ok q"
proof -
  obtain p2 where rew: "rewrite_alias p1 capacity (ref_begin w) (ref_end w)
      (pr_matched_value p1) (pr_matched_index p1) = (True, p2)"
    using assms(3) by (auto simp: expand_candidate_def Let_def split: prod.splits bool.splits)
  note p2 = rewrite_regions[OF assms(1,2) rew]
  from assms(3) rew have "q = p2 \<or> (\<exists>mark. force_following_aliases capacity mark p2 n = (True, q, m))"
    by (auto simp: expand_candidate_def Let_def split: prod.splits bool.splits if_splits)
  then show ?thesis using p2 force_following_regions[OF p2] by blast
qed

text \<open>What is blocked in the text of a replacement.\<close>

lemma rewrite_blocks:
  assumes "find_alias p b e = (True, p1)"
    "rewrite_alias p1 capacity b e (pr_matched_value p1) (pr_matched_index p1) = (True, q)"
    "b' < b + length (pr_matched_value p1)" "b < e'"
  shows "insert (pr_matched_index p1) (blocked (pr_frames p) b e) \<subseteq> blocked (pr_frames q) b' e'"
proof -
  note o = rewrite_outcome[OF assms(1,2)]
  from o(11) o(4,5) obtain anc where
    "ancestor_set anc = insert (pr_matched_index p1) (blocked (pr_frames p) b e)"
    "\<lparr>fr_begin = b, fr_end = b + length (pr_matched_value p1), fr_ancestors = anc\<rparr> \<in> set (pr_frames q)"
    by auto
  with assms(3,4) show ?thesis by (force simp: blocked_def frame_meets_def)
qed

section \<open>Properties\<close>

definition start_probe :: "byte list \<Rightarrow> gsh_alias_store \<Rightarrow> alias_probe" where
  "start_probe input aliases = \<lparr>pr_aliases = aliases, pr_input = input, pr_frames = [],
    pr_matched_index = GSH_ALIAS_CAP, pr_matched_value = []\<rparr>"

lemma no_aliases_lookup:
  assumes "alias_ok s" "gsh_aliases_count s = 0"
  shows "gsh_aliases_lookup s name = None"
proof -
  have "alias_pairs s = []" using assms(2) by (simp add: alias_pairs_def gsh_aliases_count_def)
  then have "alias_rep s []" using assms(1) by (simp add: alias_ok_def)
  from alias_rep_value[OF this] have "alias_value s name = None" by simp
  then show ?thesis by (simp add: alias_value_def)
qed


definition ll_aliases :: gsh_alias_store where
  "ll_aliases = snd (gsh_aliases_set blank_aliases ''ll'' ''ls -l'')"

lemma ll_aliases:
  "alias_ok ll_aliases" "\<exists>i < 128. gsh_aliases_lookup ll_aliases ''ll'' = Some (''ls -l'', i)"
proof -
  obtain r t where run: "gsh_aliases_set blank_aliases ''ll'' ''ls -l'' = (r, t)" by fastforce
  note set' = alias_set_spec[OF blank_aliases_ok(1) _ run]
  have t: "t = ll_aliases" by (simp add: ll_aliases_def run)
  show ok: "alias_ok ll_aliases" using set'(1) t by simp
  have "alias_args_ok ''ll'' ''ls -l'' \<and> alias_has_room blank_aliases ''ll'' ''ls -l''"
    by (simp add: alias_args_ok_def alias_has_room_def blank_aliases_ok gsh_alias_name_is_valid_def
        alias_byte_def byte_class_defs)
  with set'(2,3) t have "alias_value ll_aliases ''ll'' = Some ''ls -l''" by simp
  then obtain i where i: "gsh_aliases_lookup ll_aliases ''ll'' = Some (''ls -l'', i)"
    by (auto simp: alias_value_def)
  have rep: "alias_rep ll_aliases (alias_pairs ll_aliases)" using ok by (simp add: alias_ok_def)
  have "alias_index ll_aliases ''ll'' (name_hash ''ll'') = Some i" "gsh_alias_name_is_valid ''ll''"
    using i by (auto simp: gsh_aliases_lookup_def split: if_splits)
  with alias_rep_index(1)[OF rep] have "i < length (alias_pairs ll_aliases)" by blast
  with rep i show "\<exists>i < 128. gsh_aliases_lookup ll_aliases ''ll'' = Some (''ls -l'', i)"
    by (auto simp: alias_rep_def)
qed

lemma ll_only: "gsh_aliases_lookup ll_aliases ''ls'' = None"
proof -
  obtain r t where run: "gsh_aliases_set blank_aliases ''ll'' ''ls -l'' = (r, t)" by fastforce
  then have t: "t = ll_aliases" by (simp add: ll_aliases_def)
  note set' = alias_set_spec[OF blank_aliases_ok(1) _ run]
  have "alias_value ll_aliases ''ls'' = None"
    using set'(3,4) t blank_aliases_ok(2) by (cases "r = None") simp_all
  then show ?thesis by (simp add: alias_value_def)
qed

definition ls_probe :: "nat \<Rightarrow> uint64 list \<Rightarrow> alias_probe" where
  "ls_probe i anc = replaced_probe (start_probe ''ll'' ll_aliases) \<lparr>ref_begin = 0, ref_end = 2\<rparr> ''ls -l'' i anc"

lemma ls_probe: "pr_input (ls_probe i anc) = ''ls -l ''" "pr_aliases (ls_probe i anc) = ll_aliases"
  by (simp_all add: ls_probe_def replaced_probe_def replaced_text_def start_probe_def)

lemma ll_expandable: "expandable (start_probe ''ll'' ll_aliases) 0 2"
  using ll_aliases(2) by (auto simp: expandable_def start_probe_def slice_def reserved_word_def blocked_def)

lemma ll_step:
  "\<exists>i anc. alias_step GSH_ALIAS_EXPANSION_CAP (start_probe ''ll'' ll_aliases, None) (ls_probe i anc, None)"
proof -
  obtain i where i: "i < 128" "gsh_aliases_lookup ll_aliases ''ll'' = Some (''ls -l'', i)"
    using ll_aliases(2) by blast
  obtain anc where anc: "length anc = 2" "ancestor_set anc = insert i (blocked [] 0 2)"
    using added_ancestor[OF token_ancestors(1)[of "[]" 0 2] i(1)] token_ancestors[of "[]" 0 2]
    by (metis length_list_update)
  let ?w = "\<lparr>ref_begin = 0, ref_end = 2\<rparr>"
  have "next_word (start_probe ''ll'' ll_aliases) None = Some (?w, False)"
    using ll_expandable by (simp add: next_word_def command_word_def parse_ll ll_storage_def
        start_probe_def[of "''ll''", simplified])
  from alias_step.replace[OF this, of "''ls -l''" i GSH_ALIAS_EXPANSION_CAP anc] i(2) anc
  have "alias_step GSH_ALIAS_EXPANSION_CAP (start_probe ''ll'' ll_aliases, None)
      (ls_probe i anc, mark_behind False ?w ''ls -l'')"
    by (simp add: ls_probe_def start_probe_def slice_def replaced_text_def)
  moreover have "mark_behind False ?w ''ls -l'' = None"
    by (simp add: mark_behind_def ends_in_unquoted_blank_def)
  ultimately show ?thesis by auto
qed



lemma start_regions: "regions_ok (start_probe input aliases)"
  by (simp add: regions_ok_def start_probe_def)


end
