(* ===== verification/Traps.thy ===== *)
theory Traps
  imports GshPrelude
begin

text \<open>
  The trap store, \<open>src/shell_traps.c\<close>: for each condition its state and, in one packed text, its
  action; the snapshot of a subshell; and the reports of the signal handler. The state also holds
  the dispositions that \<open>sigaction\<close> sets: the code keeps them in step with the store. The signals
  are those of Linux. \<open>refuse\<close> is the set of signals for which \<open>sigaction\<close> fails; \<open>sigprocmask\<close>
  fails only for an argument the code does not pass. While an operation works on a condition its
  signal is blocked, so operations and deliveries of signals do not overlap.
\<close>

section \<open>Conditions\<close>

abbreviation (input) GSH_TRAP_CONDITION_CAP :: nat where "GSH_TRAP_CONDITION_CAP \<equiv> 32"
abbreviation (input) GSH_TRAP_TEXT_CAP :: nat where "GSH_TRAP_TEXT_CAP \<equiv> 1048576"
abbreviation (input) ULONG_MAX :: nat where "ULONG_MAX \<equiv> 18446744073709551615"
abbreviation (input) INT_MAX :: nat where "INT_MAX \<equiv> 2147483647"

definition CONDITIONS :: "(byte list \<times> nat) list" where
  "CONDITIONS =
    [(''EXIT'', 0), (''ABRT'', 6), (''ALRM'', 14), (''BUS'', 7), (''CHLD'', 17), (''CONT'', 18),
     (''FPE'', 8), (''HUP'', 1), (''ILL'', 4), (''INT'', 2), (''KILL'', 9), (''PIPE'', 13),
     (''POLL'', 29), (''PROF'', 27), (''QUIT'', 3), (''SEGV'', 11), (''STOP'', 19), (''SYS'', 31),
     (''TERM'', 15), (''TRAP'', 5), (''TSTP'', 20), (''TTIN'', 21), (''TTOU'', 22), (''URG'', 23),
     (''USR1'', 10), (''USR2'', 12), (''VTALRM'', 26), (''XCPU'', 24), (''XFSZ'', 25)]"

definition gsh_traps_condition_count :: nat where
  "gsh_traps_condition_count = length CONDITIONS"

definition gsh_traps_condition_name :: "nat \<Rightarrow> byte list option" where
  "gsh_traps_condition_name condition =
    (if condition < gsh_traps_condition_count then Some (fst (CONDITIONS ! condition)) else None)"

definition gsh_traps_condition_signal :: "nat \<Rightarrow> int" where
  "gsh_traps_condition_signal condition =
    (if condition < gsh_traps_condition_count then int (snd (CONDITIONS ! condition)) else - 1)"

fun condition_named :: "byte list \<Rightarrow> (byte list \<times> nat) list \<Rightarrow> nat \<Rightarrow> nat option" where
  "condition_named text' [] index = None"
| "condition_named text' ((name, signal) # rest) index =
    (if text' = name then Some index else condition_named text' rest (index + 1))"

fun condition_numbered :: "nat \<Rightarrow> (byte list \<times> nat) list \<Rightarrow> nat \<Rightarrow> nat option" where
  "condition_numbered val [] index = None"
| "condition_numbered val ((name, signal) # rest) index =
    (if signal = val then Some index else condition_numbered val rest (index + 1))"

text \<open>The digits at the head of the text; \<open>None\<close> where the value would overflow.\<close>

fun condition_digits :: "nat \<Rightarrow> byte list \<Rightarrow> (nat \<times> byte list) option" where
  "condition_digits val [] = Some (val, [])"
| "condition_digits val (b # cursor) =
    (if \<not> digit_byte b then Some (val, b # cursor)
     else if (ULONG_MAX - digit_value b) div 10 < val then None
     else condition_digits (val * 10 + digit_value b) cursor)"

definition gsh_traps_parse_condition :: "byte list \<Rightarrow> nat option" where
  "gsh_traps_parse_condition text' =
    (if text' = [] then None
     else if text' = ''0'' then Some 0
     else
       (case condition_named text' CONDITIONS 0 of
          Some index \<Rightarrow> Some index
        | None \<Rightarrow>
            (case condition_digits 0 text' of
               None \<Rightarrow> None
             | Some (val, cursor) \<Rightarrow>
                 if cursor \<noteq> [] \<or> INT_MAX < val then None
                 else if val = 0 then Some 0
                 else condition_numbered val (tl CONDITIONS) 1)))"

section \<open>The store\<close>

datatype gsh_trap_state = TRAP_DEFAULT | TRAP_IGNORE | TRAP_ACTION | TRAP_INHERITED_IGNORE

record gsh_trap_entry =
  te_offset :: nat
  te_length :: nat
  te_state :: gsh_trap_state

record gsh_trap_store =
  tr_entries :: "gsh_trap_entry list"
  tr_snapshot_entries :: "gsh_trap_entry list"
  tr_text_used :: nat
  tr_snapshot_text_used :: nat
  tr_nondefault_count :: nat
  tr_action_count :: nat
  tr_snapshot_valid :: bool
  tr_text :: "byte list"

datatype disposition = SIG_DFL | SIG_IGN | SIG_HANDLER

text \<open>The store with the variables of the file and the dispositions of the process.\<close>

record trap_world =
  tw_store :: gsh_trap_store
  tw_pending :: "bool list"
  tw_any_pending :: bool
  tw_dispositions :: "nat \<Rightarrow> disposition"

definition default_entry :: gsh_trap_entry where
  "default_entry = \<lparr>te_offset = 0, te_length = 0, te_state = TRAP_DEFAULT\<rparr>"

text \<open>The handler, on a signal whose disposition it is.\<close>

definition trap_signal_handler :: "nat \<Rightarrow> trap_world \<Rightarrow> trap_world" where
  "trap_signal_handler signal w =
    (case condition_numbered signal (tl CONDITIONS) 1 of
       None \<Rightarrow> w
     | Some condition \<Rightarrow>
         w\<lparr>tw_pending := (tw_pending w)[condition := True], tw_any_pending := True\<rparr>)"

definition uncatchable_signal :: "nat \<Rightarrow> bool" where
  "uncatchable_signal signal \<longleftrightarrow> signal = 9 \<or> signal = 19"

definition set_signal_state ::
  "(nat \<Rightarrow> bool) \<Rightarrow> nat \<Rightarrow> gsh_trap_state \<Rightarrow> trap_world \<Rightarrow> bool \<times> trap_world" where
  "set_signal_state refuse signal state w =
    (if signal = 0 \<or> uncatchable_signal signal then (True, w)
     else if refuse signal then (False, w)
     else (True, w\<lparr>tw_dispositions := (tw_dispositions w)(signal :=
       (if state = TRAP_ACTION then SIG_HANDLER
        else if state = TRAP_IGNORE \<or> state = TRAP_INHERITED_IGNORE then SIG_IGN
        else SIG_DFL))\<rparr>))"

definition remove_action_text :: "gsh_trap_store \<Rightarrow> nat \<Rightarrow> gsh_trap_store" where
  "remove_action_text s condition =
    (let entry = tr_entries s ! condition
     in if te_state entry \<noteq> TRAP_ACTION \<or> tr_text_used s < te_offset entry \<or>
           tr_text_used s - te_offset entry < te_length entry
        then s
        else s\<lparr>
          tr_text := copy_bytes (tr_text s) (te_offset entry)
            (slice (tr_text s) (te_offset entry + te_length entry) (tr_text_used s)),
          tr_text_used := tr_text_used s - te_length entry,
          tr_entries := map (\<lambda>candidate.
            if te_state candidate = TRAP_ACTION \<and> te_offset entry < te_offset candidate
            then candidate\<lparr>te_offset := te_offset candidate - te_length entry\<rparr> else candidate)
              (take gsh_traps_condition_count (tr_entries s)) @
            drop gsh_traps_condition_count (tr_entries s)\<rparr>)"

definition commit_trap_entry ::
  "gsh_trap_store \<Rightarrow> nat \<Rightarrow> gsh_trap_state \<Rightarrow> byte list \<Rightarrow> gsh_trap_store" where
  "commit_trap_entry s condition state action =
    (let was_nondefault = (te_state (tr_entries s ! condition) \<noteq> TRAP_DEFAULT);
         was_action = (te_state (tr_entries s ! condition) = TRAP_ACTION);
         s = (if was_action then remove_action_text s condition else s);
         s = (if state = TRAP_ACTION
              then s\<lparr>tr_entries := (tr_entries s)[condition :=
                       \<lparr>te_offset = tr_text_used s, te_length = length action, te_state = state\<rparr>],
                     tr_text := copy_bytes (tr_text s) (tr_text_used s) (action @ [NUL]),
                     tr_text_used := tr_text_used s + length action\<rparr>
              else s\<lparr>tr_entries := (tr_entries s)[condition :=
                       \<lparr>te_offset = 0, te_length = 0, te_state = state\<rparr>]\<rparr>)
     in s\<lparr>tr_nondefault_count := tr_nondefault_count s - (if was_nondefault then 1 else 0) +
            (if state \<noteq> TRAP_DEFAULT then 1 else 0),
          tr_action_count := tr_action_count s - (if was_action then 1 else 0) +
            (if state = TRAP_ACTION then 1 else 0)\<rparr>)"

definition discard_subshell_snapshot :: "gsh_trap_store \<Rightarrow> gsh_trap_store" where
  "discard_subshell_snapshot s =
    (if \<not> tr_snapshot_valid s \<or> tr_action_count s \<noteq> 0 then s
     else s\<lparr>tr_snapshot_valid := False, tr_snapshot_text_used := 0, tr_text_used := 0,
       tr_snapshot_entries := replicate GSH_TRAP_CONDITION_CAP default_entry\<rparr>)"

text \<open>The signals that were ignored on entry, up to a signal whose disposition cannot be read.\<close>

fun inherit_ignored ::
  "(nat \<Rightarrow> bool) \<Rightarrow> (nat \<Rightarrow> disposition) \<Rightarrow> nat list \<Rightarrow> gsh_trap_store \<Rightarrow> bool \<times> gsh_trap_store" where
  "inherit_ignored refuse dispositions [] s = (True, s)"
| "inherit_ignored refuse dispositions (condition # conditions) s =
    (let signal = snd (CONDITIONS ! condition)
     in if uncatchable_signal signal then inherit_ignored refuse dispositions conditions s
        else if refuse signal then (False, s)
        else inherit_ignored refuse dispositions conditions
          (if dispositions signal = SIG_IGN
           then s\<lparr>tr_entries := (tr_entries s)[condition :=
                    (tr_entries s ! condition)\<lparr>te_state := TRAP_INHERITED_IGNORE\<rparr>],
                  tr_nondefault_count := tr_nondefault_count s + 1\<rparr>
           else s))"

definition gsh_traps_initialize :: "(nat \<Rightarrow> bool) \<Rightarrow> trap_world \<Rightarrow> bool \<times> trap_world" where
  "gsh_traps_initialize refuse w =
    (let s = (tw_store w)\<lparr>
           tr_entries := replicate GSH_TRAP_CONDITION_CAP default_entry,
           tr_snapshot_entries := replicate GSH_TRAP_CONDITION_CAP default_entry,
           tr_text_used := 0, tr_snapshot_text_used := 0, tr_nondefault_count := 0,
           tr_action_count := 0, tr_snapshot_valid := False\<rparr>
     in case inherit_ignored refuse (tw_dispositions w) [1..<gsh_traps_condition_count] s of
          (ok, s) \<Rightarrow> (ok, w\<lparr>tw_store := s,
            tw_pending := replicate GSH_TRAP_CONDITION_CAP False, tw_any_pending := False\<rparr>))"

section \<open>Reading\<close>

definition gsh_traps_state :: "gsh_trap_store \<Rightarrow> nat \<Rightarrow> gsh_trap_state" where
  "gsh_traps_state s condition =
    (if condition < gsh_traps_condition_count then te_state (tr_entries s ! condition)
     else TRAP_DEFAULT)"

definition entry_action :: "gsh_trap_entry \<Rightarrow> nat \<Rightarrow> byte list \<Rightarrow> byte list option" where
  "entry_action entry text_used text' =
    (if te_state entry \<noteq> TRAP_ACTION \<or> text_used < te_offset entry \<or>
        text_used - te_offset entry < te_length entry then None
     else Some (slice text' (te_offset entry) (te_offset entry + te_length entry)))"

definition gsh_traps_action :: "gsh_trap_store \<Rightarrow> nat \<Rightarrow> byte list option" where
  "gsh_traps_action s condition =
    (if gsh_traps_condition_count \<le> condition then None
     else entry_action (tr_entries s ! condition) (tr_text_used s) (tr_text s))"

definition gsh_traps_query_state :: "gsh_trap_store \<Rightarrow> nat \<Rightarrow> gsh_trap_state" where
  "gsh_traps_query_state s condition =
    (if gsh_traps_condition_count \<le> condition then TRAP_DEFAULT
     else if tr_snapshot_valid s then te_state (tr_snapshot_entries s ! condition)
     else te_state (tr_entries s ! condition))"

definition gsh_traps_query_action :: "gsh_trap_store \<Rightarrow> nat \<Rightarrow> byte list option" where
  "gsh_traps_query_action s condition =
    (if gsh_traps_condition_count \<le> condition then None
     else if tr_snapshot_valid s
     then entry_action (tr_snapshot_entries s ! condition) (tr_snapshot_text_used s) (tr_text s)
     else entry_action (tr_entries s ! condition) (tr_text_used s) (tr_text s))"

section \<open>Changing a trap\<close>

text \<open>\<open>None\<close> is the null action; the action is never a part of the store's own text. An \<open>errno\<close> of
  \<open>sigaction\<close> is \<open>EINVAL\<close>.\<close>

definition gsh_traps_configure ::
  "(nat \<Rightarrow> bool) \<Rightarrow> trap_world \<Rightarrow> nat \<Rightarrow> byte list option \<Rightarrow> errno option \<times> trap_world" where
  "gsh_traps_configure refuse w condition action =
    (let state = (case action of None \<Rightarrow> TRAP_DEFAULT
           | Some text' \<Rightarrow> if text' = [] then TRAP_IGNORE else TRAP_ACTION);
         action_text = (case action of None \<Rightarrow> [] | Some text' \<Rightarrow> text')
     in if gsh_traps_condition_count \<le> condition then (Some EINVAL, w)
        else
          (let s = discard_subshell_snapshot (tw_store w);
               w = w\<lparr>tw_store := s\<rparr>;
               entry = tr_entries s ! condition
           in if te_state entry = TRAP_INHERITED_IGNORE then (None, w)
              else
                (let retained = tr_text_used s -
                       (if te_state entry = TRAP_ACTION then te_length entry else 0)
                 in if GSH_TRAP_TEXT_CAP - retained < length action_text then (Some ENOSPC, w)
                    else
                      (case set_signal_state refuse (snd (CONDITIONS ! condition)) state w of
                         (False, w) \<Rightarrow> (Some EINVAL, w)
                       | (True, w) \<Rightarrow>
                           (None, w\<lparr>tw_pending := (tw_pending w)[condition := False],
                              tw_store := commit_trap_entry (tw_store w) condition state
                                action_text\<rparr>)))))"

fun reset_actions :: "(nat \<Rightarrow> bool) \<Rightarrow> nat list \<Rightarrow> trap_world \<Rightarrow> bool \<times> trap_world" where
  "reset_actions refuse [] w = (True, w)"
| "reset_actions refuse (condition # conditions) w =
    (let state = te_state (tr_entries (tw_store w) ! condition);
         w = w\<lparr>tw_pending := (tw_pending w)[condition := False]\<rparr>
     in case set_signal_state refuse (snd (CONDITIONS ! condition))
          (if state = TRAP_ACTION then TRAP_DEFAULT else state) w of
          (False, w) \<Rightarrow> (False, w)
        | (True, w) \<Rightarrow> reset_actions refuse conditions
            (if state = TRAP_ACTION
             then w\<lparr>tw_store := (tw_store w)\<lparr>tr_entries :=
                     (tr_entries (tw_store w))[condition := default_entry]\<rparr>\<rparr>
             else w))"

definition gsh_traps_enter_subshell :: "(nat \<Rightarrow> bool) \<Rightarrow> trap_world \<Rightarrow> bool \<times> trap_world" where
  "gsh_traps_enter_subshell refuse w =
    (let s = discard_subshell_snapshot (tw_store w);
         s = s\<lparr>tr_snapshot_entries :=
                take gsh_traps_condition_count (tr_entries s) @
                drop gsh_traps_condition_count (tr_snapshot_entries s),
              tr_snapshot_text_used := tr_text_used s, tr_snapshot_valid := True\<rparr>
     in case reset_actions refuse [0..<gsh_traps_condition_count] (w\<lparr>tw_store := s\<rparr>) of
          (False, w) \<Rightarrow> (False, w)
        | (True, w) \<Rightarrow>
            (let s = tw_store w
             in (True, w\<lparr>
                  tw_store := s\<lparr>tr_text_used := 0, tr_action_count := 0,
                    tr_nondefault_count := length (filter (\<lambda>entry. te_state entry \<noteq> TRAP_DEFAULT)
                      (take gsh_traps_condition_count (tr_entries s)))\<rparr>,
                  tw_any_pending := False\<rparr>)))"

section \<open>Pending signals\<close>

definition gsh_traps_have_pending :: "trap_world \<Rightarrow> bool" where
  "gsh_traps_have_pending w \<longleftrightarrow> tr_action_count (tw_store w) \<noteq> 0 \<and> tw_any_pending w"

definition pending_conditions :: "trap_world \<Rightarrow> nat list" where
  "pending_conditions w =
    filter (\<lambda>index. tw_pending w ! index \<and> te_state (tr_entries (tw_store w) ! index) = TRAP_ACTION)
      [1..<gsh_traps_condition_count]"

definition gsh_traps_pending_signal :: "trap_world \<Rightarrow> nat" where
  "gsh_traps_pending_signal w =
    (if \<not> gsh_traps_have_pending w then 0
     else case pending_conditions w of
       [] \<Rightarrow> 0 | condition # _ \<Rightarrow> snd (CONDITIONS ! condition))"

definition gsh_traps_take_pending :: "trap_world \<Rightarrow> nat option \<times> trap_world" where
  "gsh_traps_take_pending w =
    (if \<not> gsh_traps_have_pending w then (None, w)
     else case pending_conditions w of
       [] \<Rightarrow> (None, w\<lparr>tw_any_pending := False\<rparr>)
     | selected # others \<Rightarrow>
         (Some selected, w\<lparr>tw_pending := (tw_pending w)[selected := False],
            tw_any_pending := (others \<noteq> [])\<rparr>))"

section \<open>Well-formed stores\<close>

definition entry_at :: "gsh_trap_store \<Rightarrow> nat \<Rightarrow> gsh_trap_entry" where
  "entry_at s c = tr_entries s ! c"

definition action_set :: "gsh_trap_store \<Rightarrow> nat set" where
  "action_set s = {c. c < gsh_traps_condition_count \<and> te_state (entry_at s c) = TRAP_ACTION}"

text \<open>The actions are non-empty, disjoint parts of the text, which holds nothing else.\<close>

definition entry_end :: "gsh_trap_store \<Rightarrow> nat \<Rightarrow> nat" where
  "entry_end s c = te_offset (entry_at s c) + te_length (entry_at s c)"

definition packed_ok :: "gsh_trap_store \<Rightarrow> bool" where
  "packed_ok s \<longleftrightarrow>
    length (tr_entries s) = GSH_TRAP_CONDITION_CAP \<and> length (tr_text s) = GSH_TRAP_TEXT_CAP + 1 \<and>
    tr_text_used s \<le> GSH_TRAP_TEXT_CAP \<and>
    (\<forall>c \<in> action_set s. 0 < te_length (entry_at s c) \<and> entry_end s c \<le> tr_text_used s) \<and>
    (\<forall>c \<in> action_set s. \<forall>d \<in> action_set s. c \<noteq> d \<longrightarrow>
      entry_end s c \<le> te_offset (entry_at s d) \<or> entry_end s d \<le> te_offset (entry_at s c)) \<and>
    tr_text_used s = (\<Sum>c \<in> action_set s. te_length (entry_at s c))"

definition nondefault_set :: "gsh_trap_store \<Rightarrow> nat set" where
  "nondefault_set s = {c. c < gsh_traps_condition_count \<and> te_state (entry_at s c) \<noteq> TRAP_DEFAULT}"

definition trap_ok :: "gsh_trap_store \<Rightarrow> bool" where
  "trap_ok s \<longleftrightarrow> packed_ok s \<and>
    tr_action_count s = card (action_set s) \<and> tr_nondefault_count s = card (nondefault_set s) \<and>
    length (tr_snapshot_entries s) = GSH_TRAP_CONDITION_CAP \<and>
    (tr_snapshot_valid s \<longrightarrow> action_set s = {})"

text \<open>What the store says of a condition.\<close>

definition setting :: "gsh_trap_store \<Rightarrow> nat \<Rightarrow> gsh_trap_state \<times> byte list option" where
  "setting s c = (gsh_traps_state s c, gsh_traps_action s c)"

lemma condition_count [simp]: "gsh_traps_condition_count = 29"
  by (simp add: gsh_traps_condition_count_def CONDITIONS_def)

lemma finite_sets [simp]: "finite (action_set s)" "finite (nondefault_set s)"
  by (simp_all add: action_set_def nondefault_set_def)

lemma action_setting:
  assumes "packed_ok s" "c \<in> action_set s"
  shows "setting s c = (TRAP_ACTION, Some (slice (tr_text s) (te_offset (entry_at s c)) (entry_end s c)))"
  using assms
  by (auto simp: setting_def gsh_traps_state_def gsh_traps_action_def entry_action_def packed_ok_def
      action_set_def entry_end_def entry_at_def)

lemma other_setting:
  "c \<notin> action_set s \<Longrightarrow> setting s c = (gsh_traps_state s c, None)"
  by (auto simp: setting_def gsh_traps_state_def gsh_traps_action_def entry_action_def
      action_set_def entry_at_def)

section \<open>Removing an action\<close>

lemma nth_copy_bytes:
  assumes "a + length bs \<le> length t" "i < length t"
  shows "copy_bytes t a bs ! i = (if a \<le> i \<and> i < a + length bs then bs ! (i - a) else t ! i)"
  using assms by (auto simp: copy_bytes_def nth_append)

lemma slice_copy_bytes:
  assumes "a + length bs \<le> length t" "x \<le> y" "y \<le> length t"
  shows "y \<le> a \<or> a + length bs \<le> x \<Longrightarrow> slice (copy_bytes t a bs) x y = slice t x y"
    "a \<le> x \<Longrightarrow> y \<le> a + length bs \<Longrightarrow> slice (copy_bytes t a bs) x y = slice bs (x - a) (y - a)"
proof -
  have len: "length (copy_bytes t a bs) = length t" using assms(1) by simp
  show "slice (copy_bytes t a bs) x y = slice t x y" if "y \<le> a \<or> a + length bs \<le> x"
    using that assms len by (intro nth_equalityI) (auto simp: nth_slice nth_copy_bytes)
  show "slice (copy_bytes t a bs) x y = slice bs (x - a) (y - a)" if "a \<le> x" "y \<le> a + length bs"
    using that assms len by (intro nth_equalityI) (auto simp: nth_slice nth_copy_bytes)
qed

lemma slice_closed_up:
  assumes "a + l \<le> u" "u \<le> length t" "x \<le> y"
  shows "y \<le> a \<Longrightarrow> slice (copy_bytes t a (slice t (a + l) u)) x y = slice t x y"
    "a \<le> x \<Longrightarrow> y + l \<le> u \<Longrightarrow> slice (copy_bytes t a (slice t (a + l) u)) x y = slice t (x + l) (y + l)"
proof -
  have len: "length (slice t (a + l) u) = u - (a + l)" using assms by simp
  then have fits: "a + length (slice t (a + l) u) \<le> length t" using assms by simp
  show "slice (copy_bytes t a (slice t (a + l) u)) x y = slice t x y" if "y \<le> a"
    using slice_copy_bytes(1)[OF fits assms(3)] that assms by simp
  show "slice (copy_bytes t a (slice t (a + l) u)) x y = slice t (x + l) (y + l)" if "a \<le> x" "y + l \<le> u"
  proof -
    have "slice (copy_bytes t a (slice t (a + l) u)) x y = slice (slice t (a + l) u) (x - a) (y - a)"
      using slice_copy_bytes(2)[OF fits assms(3)] that assms len by simp
    also have "\<dots> = slice t (x + l) (y + l)"
      using that assms by (auto simp: slice_def take_drop min_def)
    finally show ?thesis .
  qed
qed

text \<open>The other actions of a store, without that of a condition.\<close>

abbreviation (input) entry_text :: "gsh_trap_store \<Rightarrow> nat \<Rightarrow> byte list" where
  "entry_text s c \<equiv> slice (tr_text s) (te_offset (entry_at s c)) (entry_end s c)"

definition cleared :: "gsh_trap_store \<Rightarrow> nat \<Rightarrow> gsh_trap_store \<Rightarrow> bool" where
  "cleared s c t \<longleftrightarrow> length (tr_entries t) = GSH_TRAP_CONDITION_CAP \<and>
    length (tr_text t) = GSH_TRAP_TEXT_CAP + 1 \<and> tr_text_used t \<le> GSH_TRAP_TEXT_CAP \<and>
    (\<forall>d < gsh_traps_condition_count. te_state (entry_at t d) = te_state (entry_at s d)) \<and>
    (\<forall>d \<in> action_set s - {c}. 0 < te_length (entry_at t d) \<and> entry_end t d \<le> tr_text_used t \<and>
      entry_text t d = entry_text s d) \<and>
    (\<forall>d \<in> action_set s - {c}. \<forall>e \<in> action_set s - {c}. d \<noteq> e \<longrightarrow>
      entry_end t d \<le> te_offset (entry_at t e) \<or> entry_end t e \<le> te_offset (entry_at t d)) \<and>
    tr_text_used t = (\<Sum>d \<in> action_set s - {c}. te_length (entry_at t d))"

lemma cleared_none:
  assumes "packed_ok s" "c \<notin> action_set s"
  shows "cleared s c s"
  using assms by (auto simp: cleared_def packed_ok_def)

lemma removed_entry:
  assumes "packed_ok s" "c \<in> action_set s" "d < gsh_traps_condition_count"
  shows "entry_at (remove_action_text s c) d =
    (if te_state (entry_at s d) = TRAP_ACTION \<and> te_offset (entry_at s c) < te_offset (entry_at s d)
     then (entry_at s d)\<lparr>te_offset := te_offset (entry_at s d) - te_length (entry_at s c)\<rparr>
     else entry_at s d)"
  using assms
  by (auto simp: remove_action_text_def Let_def entry_at_def packed_ok_def action_set_def entry_end_def
      nth_append)

lemma removed_text:
  assumes "packed_ok s" "c \<in> action_set s"
  shows "tr_text (remove_action_text s c) = copy_bytes (tr_text s) (te_offset (entry_at s c))
      (slice (tr_text s) (te_offset (entry_at s c) + te_length (entry_at s c)) (tr_text_used s))"
    "tr_text_used (remove_action_text s c) = tr_text_used s - te_length (entry_at s c)"
    "length (tr_entries (remove_action_text s c)) = GSH_TRAP_CONDITION_CAP"
  using assms
  by (auto simp: remove_action_text_def Let_def entry_at_def packed_ok_def action_set_def entry_end_def)

lemma cleared_removed:
  assumes ok: "packed_ok s" and c: "c \<in> action_set s"
  shows "cleared s c (remove_action_text s c)"
proof -
  let ?t = "remove_action_text s c" and ?o = "te_offset (entry_at s c)" and ?l = "te_length (entry_at s c)"
  note entry = removed_entry[OF ok c] and bytes = removed_text[OF ok c]
  have end_c: "?o + ?l \<le> tr_text_used s" "0 < ?l" using ok c by (auto simp: packed_ok_def entry_end_def)
  have used: "tr_text_used s \<le> GSH_TRAP_TEXT_CAP" "length (tr_text s) = GSH_TRAP_TEXT_CAP + 1"
    using ok by (simp_all add: packed_ok_def)
  have apart: "entry_end s d \<le> ?o \<or> ?o + ?l \<le> te_offset (entry_at s d)" if "d \<in> action_set s - {c}" for d
    using ok c that by (auto simp: packed_ok_def entry_end_def)
  have d: "te_length (entry_at ?t d) = te_length (entry_at s d)" "0 < te_length (entry_at s d)"
    "te_offset (entry_at ?t d) = (if ?o < te_offset (entry_at s d) then te_offset (entry_at s d) - ?l
      else te_offset (entry_at s d))"
    "entry_end ?t d = (if ?o < te_offset (entry_at s d) then entry_end s d - ?l else entry_end s d)"
    "entry_end s d \<le> tr_text_used s" "entry_end s d = te_offset (entry_at s d) + te_length (entry_at s d)"
    if "d \<in> action_set s - {c}" for d
    using that entry[of d] ok apart[OF that] by (auto simp: action_set_def packed_ok_def entry_end_def)
  have "0 < te_length (entry_at ?t d) \<and> entry_end ?t d \<le> tr_text_used ?t \<and> entry_text ?t d = entry_text s d"
    if D: "d \<in> action_set s - {c}" for d
  proof (cases "?o < te_offset (entry_at s d)")
    case True
    then have above: "?o + ?l \<le> te_offset (entry_at s d)" using apart[OF D] d(2,6)[OF D] by auto
    have "entry_text ?t d = entry_text s d"
      using slice_closed_up(2)[of ?o ?l "tr_text_used s" "tr_text s" "te_offset (entry_at ?t d)" "entry_end ?t d"]
        d[OF D] True above end_c used bytes(1) by simp
    then show ?thesis using d[OF D] True above end_c bytes(2) by auto
  next
    case False
    then have below: "entry_end s d \<le> ?o" using apart[OF D] end_c(2) by auto
    have "entry_text ?t d = entry_text s d"
      using slice_closed_up(1)[of ?o ?l "tr_text_used s" "tr_text s" "te_offset (entry_at ?t d)" "entry_end ?t d"]
        d[OF D] False below end_c used bytes(1) by simp
    then show ?thesis using d[OF D] False below end_c bytes(2) by auto
  qed
  moreover have "entry_end ?t d \<le> te_offset (entry_at ?t e) \<or> entry_end ?t e \<le> te_offset (entry_at ?t d)"
    if D: "d \<in> action_set s - {c}" "e \<in> action_set s - {c}" "d \<noteq> e" for d e
  proof -
    have "entry_end s d \<le> te_offset (entry_at s e) \<or> entry_end s e \<le> te_offset (entry_at s d)"
      using ok D by (auto simp: packed_ok_def)
    then show ?thesis
      using d[OF D(1)] d[OF D(2)] apart[OF D(1)] apart[OF D(2)] end_c by (auto split: if_splits)
  qed
  moreover have "tr_text_used ?t = (\<Sum>d \<in> action_set s - {c}. te_length (entry_at ?t d))"
  proof -
    have "tr_text_used s = ?l + (\<Sum>d \<in> action_set s - {c}. te_length (entry_at s d))"
      using ok c by (simp add: packed_ok_def sum.remove)
    moreover have "(\<Sum>d \<in> action_set s - {c}. te_length (entry_at ?t d)) =
        (\<Sum>d \<in> action_set s - {c}. te_length (entry_at s d))"
      using d(1) by (rule sum.cong[OF refl])
    ultimately show ?thesis by (simp add: bytes(2))
  qed
  moreover have "te_state (entry_at ?t d) = te_state (entry_at s d)" if "d < gsh_traps_condition_count" for d
    using entry[OF that] by auto
  moreover have "length (tr_text ?t) = GSH_TRAP_TEXT_CAP + 1" using bytes(1) end_c used by simp
  ultimately show ?thesis using bytes used by (simp add: cleared_def)
qed

section \<open>Committing an entry\<close>

definition freed_text :: "gsh_trap_store \<Rightarrow> nat \<Rightarrow> gsh_trap_store" where
  "freed_text s c = (if te_state (entry_at s c) = TRAP_ACTION then remove_action_text s c else s)"

lemma cleared_freed: "packed_ok s \<Longrightarrow> c < gsh_traps_condition_count \<Longrightarrow> cleared s c (freed_text s c)"
  using cleared_removed[of s c] cleared_none[of s c] by (auto simp: freed_text_def action_set_def)

lemma freed_room:
  assumes "packed_ok s" "c < gsh_traps_condition_count"
  shows "tr_text_used (freed_text s c) =
    tr_text_used s - (if te_state (entry_at s c) = TRAP_ACTION then te_length (entry_at s c) else 0)"
  using removed_text(2)[OF assms(1)] assms(2) by (auto simp: freed_text_def action_set_def)

definition new_entry :: "gsh_trap_store \<Rightarrow> gsh_trap_state \<Rightarrow> byte list \<Rightarrow> gsh_trap_entry" where
  "new_entry r state action =
    (if state = TRAP_ACTION then \<lparr>te_offset = tr_text_used r, te_length = length action, te_state = state\<rparr>
     else \<lparr>te_offset = 0, te_length = 0, te_state = state\<rparr>)"

lemma commit_fields:
  fixes s :: gsh_trap_store and c :: nat and state :: gsh_trap_state and action :: "byte list"
  defines "r \<equiv> freed_text s c" and "t \<equiv> commit_trap_entry s c state action"
  shows "tr_entries t = (tr_entries r)[c := new_entry r state action]"
    "tr_text t = (if state = TRAP_ACTION then copy_bytes (tr_text r) (tr_text_used r) (action @ [NUL])
      else tr_text r)"
    "tr_text_used t = tr_text_used r + (if state = TRAP_ACTION then length action else 0)"
    "tr_nondefault_count t = tr_nondefault_count s -
      (if te_state (entry_at s c) \<noteq> TRAP_DEFAULT then 1 else 0) + (if state \<noteq> TRAP_DEFAULT then 1 else 0)"
    "tr_action_count t = tr_action_count s -
      (if te_state (entry_at s c) = TRAP_ACTION then 1 else 0) + (if state = TRAP_ACTION then 1 else 0)"
    "tr_snapshot_valid t = tr_snapshot_valid s" "tr_snapshot_entries t = tr_snapshot_entries s"
  by (simp_all add: r_def t_def commit_trap_entry_def freed_text_def entry_at_def Let_def new_entry_def
      remove_action_text_def)

lemma commit_sets:
  fixes s :: gsh_trap_store and state :: gsh_trap_state and action :: "byte list"
  assumes ok: "packed_ok s" and c: "c < gsh_traps_condition_count"
  defines "t \<equiv> commit_trap_entry s c state action"
  shows "action_set t = (if state = TRAP_ACTION then insert c (action_set s) else action_set s - {c})"
    "nondefault_set t = (if state \<noteq> TRAP_DEFAULT then insert c (nondefault_set s) else nondefault_set s - {c})"
    "d < gsh_traps_condition_count \<Longrightarrow> te_state (entry_at t d) = (if d = c then state else te_state (entry_at s d))"
proof -
  let ?r = "freed_text s c"
  have r: "length (tr_entries ?r) = 32" "\<And>d. d < 29 \<Longrightarrow> te_state (entry_at ?r d) = te_state (entry_at s d)"
    using cleared_freed[OF ok c] by (simp_all add: cleared_def)
  have state: "te_state (entry_at t d) = (if d = c then state else te_state (entry_at s d))" if "d < 29" for d
    using r that c commit_fields(1)[of s c state action]
    by (auto simp: t_def entry_at_def nth_list_update new_entry_def)
  then show "d < gsh_traps_condition_count \<Longrightarrow>
      te_state (entry_at t d) = (if d = c then state else te_state (entry_at s d))" by simp
  show "action_set t = (if state = TRAP_ACTION then insert c (action_set s) else action_set s - {c})"
    "nondefault_set t = (if state \<noteq> TRAP_DEFAULT then insert c (nondefault_set s) else nondefault_set s - {c})"
    using state c by (auto simp: action_set_def nondefault_set_def split: if_splits)
qed

lemma commit_packed:
  assumes ok: "packed_ok s" and c: "c < gsh_traps_condition_count"
    and action: "state = TRAP_ACTION \<Longrightarrow> action \<noteq> []"
    and room: "state = TRAP_ACTION \<Longrightarrow> tr_text_used (freed_text s c) + length action \<le> GSH_TRAP_TEXT_CAP"
  shows "packed_ok (commit_trap_entry s c state action)"
    "setting (commit_trap_entry s c state action) d =
      (if d = c then (state, if state = TRAP_ACTION then Some action else None) else setting s d)"
proof -
  let ?r = "freed_text s c" and ?t = "commit_trap_entry s c state action"
  let ?D = "action_set s - {c}"
  have r: "cleared s c ?r" by (rule cleared_freed[OF ok c])
  note fields = commit_fields[of s c state action] and sets = commit_sets[OF ok c, where state = state and action = action]
  have lengths: "length (tr_entries ?r) = 32" "length (tr_text ?r) = GSH_TRAP_TEXT_CAP + 1"
    "tr_text_used ?r \<le> GSH_TRAP_TEXT_CAP" using r by (simp_all add: cleared_def)
  have same: "entry_at ?t d = entry_at ?r d" "entry_end ?t d = entry_end ?r d" if "d \<noteq> c" for d
    using that fields(1) by (simp_all add: entry_at_def entry_end_def)
  have new: "entry_at ?t c = new_entry ?r state action"
    using c lengths(1) fields(1) by (simp add: entry_at_def)
  have D: "0 < te_length (entry_at ?r d)" "entry_end ?r d \<le> tr_text_used ?r" "entry_text ?r d = entry_text s d"
    "te_offset (entry_at ?r d) \<le> entry_end ?r d"
    if "d \<in> ?D" for d using r that by (auto simp: cleared_def entry_end_def)
  have acts: "action_set ?t = (if state = TRAP_ACTION then insert c ?D else ?D)" using sets(1) by auto
  have length': "length (tr_text ?t) = GSH_TRAP_TEXT_CAP + 1"
    using lengths(2) room by (simp add: fields(2))
  have used: "tr_text_used ?t \<le> GSH_TRAP_TEXT_CAP" using lengths(3) room by (simp add: fields(3))
  have bounds: "0 < te_length (entry_at ?t d) \<and> entry_end ?t d \<le> tr_text_used ?t" if "d \<in> action_set ?t" for d
    using that D[of d] same[of d] new action fields(3)
    by (cases "d = c") (auto simp: acts new_entry_def entry_end_def split: if_splits)
  have disjoint: "entry_end ?t d \<le> te_offset (entry_at ?t e) \<or> entry_end ?t e \<le> te_offset (entry_at ?t d)"
    if "d \<in> action_set ?t" "e \<in> action_set ?t" "d \<noteq> e" for d e
  proof (cases "d = c \<or> e = c")
    case True
    with that D(2)[of d] D(2)[of e] new same show ?thesis
      by (auto simp: acts new_entry_def split: if_splits)
  next
    case False
    with that r show ?thesis by (auto simp: acts cleared_def same split: if_splits)
  qed
  have sum: "tr_text_used ?t = (\<Sum>d \<in> action_set ?t. te_length (entry_at ?t d))"
  proof -
    have "(\<Sum>d \<in> ?D. te_length (entry_at ?t d)) = (\<Sum>d \<in> ?D. te_length (entry_at ?r d))"
      using same(1) by (intro sum.cong) auto
    then have D_sum: "(\<Sum>d \<in> ?D. te_length (entry_at ?t d)) = tr_text_used ?r"
      using r by (simp add: cleared_def)
    show ?thesis
    proof (cases "state = TRAP_ACTION")
      case True
      then have "te_length (entry_at ?t c) = length action" using new by (simp add: new_entry_def)
      then show ?thesis unfolding acts fields(3) using True D_sum by (simp add: sum.insert_remove)
    next
      case False
      with D_sum show ?thesis unfolding acts fields(3) by simp
    qed
  qed
  show packed: "packed_ok ?t"
    using bounds disjoint sum length' used lengths(1) fields(1) by (simp add: packed_ok_def)
  show "setting ?t d = (if d = c then (state, if state = TRAP_ACTION then Some action else None) else setting s d)"
  proof (cases "d \<in> action_set ?t")
    case False
    have state': "gsh_traps_state ?t d = (if d = c then state else gsh_traps_state s d)"
      using sets(3)[of d, unfolded entry_at_def] c by (auto simp: gsh_traps_state_def)
    have "d \<noteq> c \<Longrightarrow> d \<notin> action_set s" "d = c \<Longrightarrow> state \<noteq> TRAP_ACTION" using False unfolding acts
      by (auto split: if_splits)
    then show ?thesis unfolding other_setting[OF False] state' by (auto simp: other_setting)
  next
    case True
    note read = action_setting[OF packed True]
    show ?thesis
    proof (cases "d = c")
      case True
      with \<open>d \<in> action_set ?t\<close> acts have state: "state = TRAP_ACTION" by (auto split: if_splits)
      have "slice (tr_text ?t) (tr_text_used ?r) (tr_text_used ?r + length action) =
          slice (action @ [NUL]) 0 (length action)"
        using slice_copy_bytes(2)[of "tr_text_used ?r" "action @ [NUL]" "tr_text ?r" "tr_text_used ?r"
            "tr_text_used ?r + length action"] room[OF state] lengths
        unfolding fields(2) if_P[OF state] by simp
      moreover have "entry_at ?t d = \<lparr>te_offset = tr_text_used ?r, te_length = length action, te_state = state\<rparr>"
        using new True by (simp add: new_entry_def state)
      ultimately show ?thesis using read True state by (simp add: entry_end_def slice_def)
    next
      case other: False
      with True acts have d: "d \<in> ?D" by (auto split: if_splits)
      have "entry_text ?t d = entry_text ?r d"
        using slice_copy_bytes(1)[of "tr_text_used ?r" "action @ [NUL]" "tr_text ?r"
            "te_offset (entry_at ?r d)" "entry_end ?r d"] room lengths D(2,4)[OF d] same[OF other]
        by (auto simp: fields(2))
      with read action_setting[OF ok, of d] d other D(3)[OF d] show ?thesis by simp
    qed
  qed
qed

section \<open>The operations\<close>

definition wanted :: "byte list option \<Rightarrow> gsh_trap_state \<times> byte list option" where
  "wanted action = (case action of None \<Rightarrow> (TRAP_DEFAULT, None)
    | Some text' \<Rightarrow> if text' = [] then (TRAP_IGNORE, None) else (TRAP_ACTION, Some text'))"

definition others_length :: "gsh_trap_store \<Rightarrow> nat \<Rightarrow> nat" where
  "others_length s c = (\<Sum>d \<in> action_set s - {c}. te_length (entry_at s d))"

lemma discard_ok:
  assumes "trap_ok s"
  shows "trap_ok (discard_subshell_snapshot s)" "setting (discard_subshell_snapshot s) = setting s"
    "tr_entries (discard_subshell_snapshot s) = tr_entries s"
    "tr_text_used (discard_subshell_snapshot s) = tr_text_used s"
    "\<not> tr_snapshot_valid (discard_subshell_snapshot s)"
    "action_set (discard_subshell_snapshot s) = action_set s"
    "gsh_traps_state (discard_subshell_snapshot s) c = gsh_traps_state s c"
proof -
  have empty: "tr_text_used s = 0 \<and> tr_action_count s = 0" if "tr_snapshot_valid s"
    using assms that by (simp add: trap_ok_def packed_ok_def)
  show "tr_entries (discard_subshell_snapshot s) = tr_entries s"
    "tr_text_used (discard_subshell_snapshot s) = tr_text_used s"
    "\<not> tr_snapshot_valid (discard_subshell_snapshot s)"
    using empty by (auto simp: discard_subshell_snapshot_def)
  then have fields: "entry_at (discard_subshell_snapshot s) = entry_at s"
    "action_set (discard_subshell_snapshot s) = action_set s"
    "nondefault_set (discard_subshell_snapshot s) = nondefault_set s"
    "entry_end (discard_subshell_snapshot s) = entry_end s"
    "tr_text (discard_subshell_snapshot s) = tr_text s"
    "tr_action_count (discard_subshell_snapshot s) = tr_action_count s"
    "tr_nondefault_count (discard_subshell_snapshot s) = tr_nondefault_count s"
    by (auto simp: entry_at_def action_set_def nondefault_set_def entry_end_def fun_eq_iff
        discard_subshell_snapshot_def)
  then show "action_set (discard_subshell_snapshot s) = action_set s" by simp
  have "length (tr_snapshot_entries (discard_subshell_snapshot s)) = 32"
    using assms by (simp add: discard_subshell_snapshot_def trap_ok_def)
  with assms fields \<open>\<not> tr_snapshot_valid (discard_subshell_snapshot s)\<close>
    \<open>tr_entries (discard_subshell_snapshot s) = tr_entries s\<close>
    \<open>tr_text_used (discard_subshell_snapshot s) = tr_text_used s\<close>
  show "trap_ok (discard_subshell_snapshot s)" unfolding trap_ok_def packed_ok_def by metis
  show "setting (discard_subshell_snapshot s) = setting s"
    "gsh_traps_state (discard_subshell_snapshot s) c = gsh_traps_state s c"
    using \<open>tr_entries (discard_subshell_snapshot s) = tr_entries s\<close> fields(5)
      \<open>tr_text_used (discard_subshell_snapshot s) = tr_text_used s\<close>
    by (simp_all add: fun_eq_iff setting_def gsh_traps_state_def gsh_traps_action_def)
qed

lemma commit_ok:
  assumes ok: "trap_ok s" "\<not> tr_snapshot_valid s" and c: "c < gsh_traps_condition_count"
    and action: "state = TRAP_ACTION \<Longrightarrow> action \<noteq> []"
    and room: "state = TRAP_ACTION \<Longrightarrow> tr_text_used (freed_text s c) + length action \<le> GSH_TRAP_TEXT_CAP"
  shows "trap_ok (commit_trap_entry s c state action)"
proof -
  have p: "packed_ok s" "tr_action_count s = card (action_set s)" "tr_nondefault_count s = card (nondefault_set s)"
    using ok by (simp_all add: trap_ok_def)
  have "c \<in> action_set s \<longleftrightarrow> te_state (entry_at s c) = TRAP_ACTION"
    "c \<in> nondefault_set s \<longleftrightarrow> te_state (entry_at s c) \<noteq> TRAP_DEFAULT"
    using c by (simp_all add: action_set_def nondefault_set_def)
  moreover have "0 < card (action_set s)" if "c \<in> action_set s" using that by (auto simp: card_gt_0_iff)
  moreover have "0 < card (nondefault_set s)" if "c \<in> nondefault_set s" using that by (auto simp: card_gt_0_iff)
  ultimately show ?thesis
    using commit_packed(1)[OF p(1) c action room] ok p(2,3)
    by (auto simp: trap_ok_def commit_fields commit_sets[OF p(1) c] card_insert_if insert_absorb)
qed

lemma set_signal_store [simp]:
  "set_signal_state refuse signal state w = (b, w') \<Longrightarrow>
    tw_store w' = tw_store w \<and> tw_pending w' = tw_pending w \<and> tw_any_pending w' = tw_any_pending w"
  by (auto simp: set_signal_state_def split: if_splits)

lemma set_signal_shape:
  assumes "set_signal_state refuse signal state w = (b, v)"
  shows "\<exists>f. v = w\<lparr>tw_dispositions := f\<rparr>" "\<not> b \<Longrightarrow> v = w"
proof -
  have "w = w\<lparr>tw_dispositions := tw_dispositions w\<rparr>" by simp
  then show "\<exists>f. v = w\<lparr>tw_dispositions := f\<rparr>"
    using assms unfolding set_signal_state_def by (metis prod.inject)
  show "\<not> b \<Longrightarrow> v = w" using assms unfolding set_signal_state_def by (metis prod.inject)
qed

text \<open>What \<open>gsh_traps_configure\<close> comes down to.\<close>

lemma configure_cases:
  assumes "trap_ok (tw_store w)" "gsh_traps_configure refuse w c action = (r, w')"
  obtains (bad) "gsh_traps_condition_count \<le> c" "r = Some EINVAL" "w' = w"
  | (inherited) "c < gsh_traps_condition_count" "gsh_traps_state (tw_store w) c = TRAP_INHERITED_IGNORE" "r = None"
      "w' = w\<lparr>tw_store := discard_subshell_snapshot (tw_store w)\<rparr>"
  | (full) "c < gsh_traps_condition_count" "gsh_traps_state (tw_store w) c \<noteq> TRAP_INHERITED_IGNORE"
      "r = Some ENOSPC" "w' = w\<lparr>tw_store := discard_subshell_snapshot (tw_store w)\<rparr>"
      "GSH_TRAP_TEXT_CAP < others_length (tw_store w) c + length (case action of None \<Rightarrow> [] | Some t \<Rightarrow> t)"
  | (refused) "c < gsh_traps_condition_count" "gsh_traps_state (tw_store w) c \<noteq> TRAP_INHERITED_IGNORE"
      "r = Some EINVAL" "w' = w\<lparr>tw_store := discard_subshell_snapshot (tw_store w)\<rparr>"
      "others_length (tw_store w) c + length (case action of None \<Rightarrow> [] | Some t \<Rightarrow> t) \<le> GSH_TRAP_TEXT_CAP"
  | (done') s dispositions where "c < gsh_traps_condition_count"
      "gsh_traps_state (tw_store w) c \<noteq> TRAP_INHERITED_IGNORE" "r = None"
      "s = discard_subshell_snapshot (tw_store w)"
      "w' = w\<lparr>tw_dispositions := dispositions, tw_pending := (tw_pending w)[c := False],
         tw_store := commit_trap_entry s c (fst (wanted action)) (case action of None \<Rightarrow> [] | Some t \<Rightarrow> t)\<rparr>"
      "others_length (tw_store w) c + length (case action of None \<Rightarrow> [] | Some t \<Rightarrow> t) \<le> GSH_TRAP_TEXT_CAP"
      "set_signal_state refuse (snd (CONDITIONS ! c)) (fst (wanted action)) (w\<lparr>tw_store := s\<rparr>) =
         (True, w\<lparr>tw_store := s, tw_dispositions := dispositions\<rparr>)"
proof -
  let ?s = "discard_subshell_snapshot (tw_store w)" and ?text = "case action of None \<Rightarrow> [] | Some t \<Rightarrow> t"
  let ?state = "fst (wanted action)"
  note d = discard_ok[OF assms(1)]
  have state: "(case action of None \<Rightarrow> TRAP_DEFAULT
      | Some text' \<Rightarrow> if text' = [] then TRAP_IGNORE else TRAP_ACTION) = ?state"
    by (simp add: wanted_def split: option.split)
  show thesis
  proof (cases "c < gsh_traps_condition_count")
    case False
    with assms(2) show thesis by (intro bad) (auto simp: gsh_traps_configure_def Let_def)
  next
    case c: True
    have entry: "te_state (tr_entries (tw_store w) ! c) = gsh_traps_state (tw_store w) c"
      using c by (simp add: gsh_traps_state_def)
    have packed: "packed_ok (tw_store w)" using assms(1) by (simp add: trap_ok_def)
    have "tr_text_used (freed_text (tw_store w) c) = others_length (tw_store w) c"
    proof (cases "te_state (entry_at (tw_store w) c) = TRAP_ACTION")
      case True
      then have "c \<in> action_set (tw_store w)" using c by (simp add: action_set_def)
      then have "tr_text_used (tw_store w) = te_length (entry_at (tw_store w) c) + others_length (tw_store w) c"
        using packed by (simp add: packed_ok_def others_length_def sum.remove)
      then show ?thesis using freed_room[OF packed c] True by simp
    next
      case False
      then have "action_set (tw_store w) - {c} = action_set (tw_store w)" by (auto simp: action_set_def)
      then show ?thesis using freed_room[OF packed c] False packed
        by (simp add: packed_ok_def others_length_def)
    qed
    then have retained: "tr_text_used (tw_store w) -
        (if te_state (tr_entries (tw_store w) ! c) = TRAP_ACTION then te_length (tr_entries (tw_store w) ! c) else 0) =
        others_length (tw_store w) c"
      using freed_room[OF packed c, unfolded entry_at_def] by simp
    have le: "others_length (tw_store w) c \<le> GSH_TRAP_TEXT_CAP"
    proof -
      have "tr_text_used (tw_store w) \<le> GSH_TRAP_TEXT_CAP" using packed unfolding packed_ok_def by blast
      then show ?thesis unfolding retained[symmetric] by linarith
    qed
    obtain b v where sig: "set_signal_state refuse (snd (CONDITIONS ! c)) ?state (w\<lparr>tw_store := ?s\<rparr>) = (b, v)"
      by fastforce
    have run: "gsh_traps_configure refuse w c action =
        (if gsh_traps_state (tw_store w) c = TRAP_INHERITED_IGNORE then (None, w\<lparr>tw_store := ?s\<rparr>)
         else if GSH_TRAP_TEXT_CAP - others_length (tw_store w) c < length ?text then (Some ENOSPC, w\<lparr>tw_store := ?s\<rparr>)
         else if \<not> b then (Some EINVAL, v)
         else (None, v\<lparr>tw_pending := (tw_pending v)[c := False],
             tw_store := commit_trap_entry (tw_store v) c ?state ?text\<rparr>))"
      unfolding gsh_traps_configure_def Let_def state using c sig
      by (simp add: d(3,4) entry retained[unfolded entry] split: bool.split cong: if_cong)
    have lt: "GSH_TRAP_TEXT_CAP - others_length (tw_store w) c < length ?text \<longleftrightarrow>
        GSH_TRAP_TEXT_CAP < others_length (tw_store w) c + length ?text" using le by linarith
    note run = run[unfolded assms(2) lt]
    show thesis
    proof (cases "gsh_traps_state (tw_store w) c = TRAP_INHERITED_IGNORE")
      case True
      with run c show thesis by (intro inherited) simp_all
    next
      case other: False
      show thesis
      proof (cases "GSH_TRAP_TEXT_CAP < others_length (tw_store w) c + length ?text")
        case True
        with run c other show thesis by (intro full) simp_all
      next
        case room: False
        show thesis
        proof (cases b)
          case False
          then have v: "v = w\<lparr>tw_store := ?s\<rparr>" using set_signal_shape[OF sig] by simp
          with False run c other room show thesis by (intro refused) simp_all
        next
          case True
          from set_signal_shape(1)[OF sig] obtain f where v: "v = w\<lparr>tw_store := ?s, tw_dispositions := f\<rparr>" by auto
          show thesis
          proof (rule done'[of ?s f])
            show "w' = w\<lparr>tw_dispositions := f, tw_pending := (tw_pending w)[c := False],
                tw_store := commit_trap_entry ?s c ?state ?text\<rparr>"
              using run other room True by (simp add: v)
            show "set_signal_state refuse (snd (CONDITIONS ! c)) ?state (w\<lparr>tw_store := ?s\<rparr>) =
                (True, w\<lparr>tw_store := ?s, tw_dispositions := f\<rparr>)"
              using sig True v by simp
          qed (use run c other room True in simp_all)
        qed
      qed
    qed
  qed
qed

section \<open>Configuring refines the update of a map\<close>

lemma wanted_facts:
  "fst (wanted action) = TRAP_ACTION \<Longrightarrow> action = Some (the action) \<and> the action \<noteq> []"
  "fst (wanted action) \<noteq> TRAP_INHERITED_IGNORE"
  "snd (wanted action) = (if fst (wanted action) = TRAP_ACTION
     then Some (case action of None \<Rightarrow> [] | Some t \<Rightarrow> t) else None)"
  by (auto simp: wanted_def split: option.splits if_splits)

lemma freed_others:
  assumes "packed_ok s" "c < gsh_traps_condition_count"
  shows "tr_text_used (freed_text s c) = others_length s c"
proof -
  have len: "te_length (entry_at (freed_text s c) d) = te_length (entry_at s d)"
    if "d \<in> action_set s - {c}" for d
    using that removed_entry[OF assms(1), of c d] assms(2) by (auto simp: freed_text_def action_set_def)
  have "tr_text_used (freed_text s c) = (\<Sum>d \<in> action_set s - {c}. te_length (entry_at (freed_text s c) d))"
    using cleared_freed[OF assms] unfolding cleared_def by blast
  also have "\<dots> = others_length s c" unfolding others_length_def using len by (intro sum.cong) auto
  finally show ?thesis .
qed

lemma configure_commit:
  assumes ok: "trap_ok s" "\<not> tr_snapshot_valid s" and c: "c < gsh_traps_condition_count"
    and room: "others_length s c + length (case action of None \<Rightarrow> [] | Some t \<Rightarrow> t) \<le> GSH_TRAP_TEXT_CAP"
  shows "trap_ok (commit_trap_entry s c (fst (wanted action)) (case action of None \<Rightarrow> [] | Some t \<Rightarrow> t))"
    "setting (commit_trap_entry s c (fst (wanted action)) (case action of None \<Rightarrow> [] | Some t \<Rightarrow> t)) =
      (setting s)(c := wanted action)"
proof -
  have p: "packed_ok s" using ok by (simp add: trap_ok_def)
  have action: "fst (wanted action) = TRAP_ACTION \<Longrightarrow> (case action of None \<Rightarrow> [] | Some t \<Rightarrow> t) \<noteq> []"
    using wanted_facts(1)[of action] by (auto split: option.splits)
  have room': "tr_text_used (freed_text s c) + length (case action of None \<Rightarrow> [] | Some t \<Rightarrow> t) \<le> GSH_TRAP_TEXT_CAP"
    using room freed_others[OF p c] by simp
  show "trap_ok (commit_trap_entry s c (fst (wanted action)) (case action of None \<Rightarrow> [] | Some t \<Rightarrow> t))"
    by (rule commit_ok[OF ok c action room'])
  have "(fst (wanted action), if fst (wanted action) = TRAP_ACTION
      then Some (case action of None \<Rightarrow> [] | Some t \<Rightarrow> t) else None) = wanted action"
    by (subst wanted_facts(3)[symmetric]) simp
  note eq = this
  show "setting (commit_trap_entry s c (fst (wanted action)) (case action of None \<Rightarrow> [] | Some t \<Rightarrow> t)) =
      (setting s)(c := wanted action)"
    by (rule ext) (simp only: commit_packed(2)[OF p c action room'] eq fun_upd_apply)
qed

lemma others_discard:
  "trap_ok s \<Longrightarrow> others_length (discard_subshell_snapshot s) c = others_length s c"
  by (simp add: others_length_def discard_ok entry_at_def)

end
