(* ===== verification/TrapSignals.thy ===== *)
theory TrapSignals
  imports Traps
begin

text \<open>
  The trap store and the signals of the process, \<open>src/shell_traps.c\<close>: that the dispositions
  are those the store asks for, that no report of a signal is lost, and what a subshell keeps of
  its parent's traps. The operations are those of \<open>Traps\<close>.
\<close>

section \<open>Configuring a trap\<close>

text \<open>C14. \<open>gsh_traps_configure\<close> refines the update of a map from conditions to settings: it keeps the
  store well formed (the actions packed without a gap, the counts exact), sets the one condition as
  asked, and leaves all others with their actions, except that a signal ignored since the shell
  was entered stays ignored. It fails without changing a setting, for want of room exactly when
  the other actions and the new one exceed the text.\<close>

theorem trap_configure_refines:
  assumes "trap_ok (tw_store w)" "gsh_traps_configure refuse w c action = (r, w')"
  shows "trap_ok (tw_store w') \<and>
    (case r of
       None \<Rightarrow> c < gsh_traps_condition_count \<and> setting (tw_store w') =
         (if gsh_traps_state (tw_store w) c = TRAP_INHERITED_IGNORE then setting (tw_store w)
          else (setting (tw_store w))(c := wanted action))
     | Some e \<Rightarrow> setting (tw_store w') = setting (tw_store w)) \<and>
    (r = Some ENOSPC \<longleftrightarrow> c < gsh_traps_condition_count \<and>
       gsh_traps_state (tw_store w) c \<noteq> TRAP_INHERITED_IGNORE \<and>
       GSH_TRAP_TEXT_CAP < others_length (tw_store w) c + length (case action of None \<Rightarrow> [] | Some t \<Rightarrow> t))"
proof -
  note d = discard_ok[OF assms(1)]
  from assms show ?thesis
  proof (cases rule: configure_cases)
    case bad
    then show ?thesis using assms(1) by simp
  next
    case inherited
    then show ?thesis using d by simp
  next
    case full
    then show ?thesis using d by simp
  next
    case refused
    then show ?thesis using d by simp
  next
    case (done' s dispositions)
    then have "others_length s c + length (case action of None \<Rightarrow> [] | Some t \<Rightarrow> t) \<le> GSH_TRAP_TEXT_CAP"
      using others_discard[OF assms(1)] by simp
    from configure_commit[OF _ _ done'(1) this] done' d show ?thesis by simp
  qed
qed

section \<open>Dispositions and reports\<close>

definition disposition_of :: "gsh_trap_state \<Rightarrow> disposition" where
  "disposition_of state = (if state = TRAP_ACTION then SIG_HANDLER
     else if state = TRAP_IGNORE \<or> state = TRAP_INHERITED_IGNORE then SIG_IGN else SIG_DFL)"

abbreviation (input) signal_of :: "nat \<Rightarrow> nat" where
  "signal_of c \<equiv> snd (CONDITIONS ! c)"

text \<open>The process handles a signal the way the store says.\<close>

definition in_step :: "trap_world \<Rightarrow> bool" where
  "in_step w \<longleftrightarrow> (\<forall>c < gsh_traps_condition_count. 0 < c \<longrightarrow> \<not> uncatchable_signal (signal_of c) \<longrightarrow>
    tw_dispositions w (signal_of c) = disposition_of (gsh_traps_state (tw_store w) c))"

text \<open>A report for a condition with an action is announced.\<close>

definition reports_ok :: "trap_world \<Rightarrow> bool" where
  "reports_ok w \<longleftrightarrow> length (tw_pending w) = GSH_TRAP_CONDITION_CAP \<and>
    (\<forall>c \<in> action_set (tw_store w). 0 < c \<and> tw_pending w ! c \<longrightarrow> tw_any_pending w)"

definition world_ok :: "trap_world \<Rightarrow> bool" where
  "world_ok w \<longleftrightarrow> trap_ok (tw_store w) \<and> in_step w \<and> reports_ok w"

lemma signals_distinct:
  assumes "c < gsh_traps_condition_count" "d < gsh_traps_condition_count"
  shows "signal_of c = signal_of d \<longleftrightarrow> c = d"
proof -
  have "distinct (map snd CONDITIONS)" by (simp add: CONDITIONS_def)
  then show ?thesis using assms nth_eq_iff_index_eq[of "map snd CONDITIONS" c d]
    by (simp add: gsh_traps_condition_count_def del: condition_count)
qed

lemma signal_positive: "c < gsh_traps_condition_count \<Longrightarrow> signal_of c = 0 \<longleftrightarrow> c = 0"
  using signals_distinct[of c 0] by (simp add: CONDITIONS_def)

lemma action_set_state: "c \<in> action_set s \<longleftrightarrow> c < gsh_traps_condition_count \<and> gsh_traps_state s c = TRAP_ACTION"
  by (auto simp: action_set_def gsh_traps_state_def entry_at_def)

lemma set_signal_dispositions:
  assumes "set_signal_state refuse signal state w = (True, v)"
  shows "tw_dispositions v = (if signal = 0 \<or> uncatchable_signal signal then tw_dispositions w
    else (tw_dispositions w)(signal := disposition_of state))"
proof (cases "signal = 0 \<or> uncatchable_signal signal")
  case True
  with assms have "v = w" unfolding set_signal_state_def by (metis prod.inject)
  with True show ?thesis by simp
next
  case False
  with assms have "\<not> refuse signal" unfolding set_signal_state_def by (metis prod.inject)
  with False assms have "v = w\<lparr>tw_dispositions := (tw_dispositions w)(signal := disposition_of state)\<rparr>"
    unfolding set_signal_state_def disposition_of_def by (metis prod.inject)
  with False show ?thesis by simp
qed

lemma configure_world_ok:
  assumes ok: "world_ok w" and run: "gsh_traps_configure refuse w c action = (r, w')"
  shows "world_ok w'"
proof -
  have t: "trap_ok (tw_store w)" using ok by (simp add: world_ok_def)
  note d = discard_ok[OF t]
  have kept: "world_ok (w\<lparr>tw_store := discard_subshell_snapshot (tw_store w)\<rparr>)"
    using ok d by (simp add: world_ok_def in_step_def reports_ok_def)
  from t run show ?thesis
  proof (cases rule: configure_cases)
    case (done' s dispositions)
    let ?text = "case action of None \<Rightarrow> [] | Some t \<Rightarrow> t" and ?state = "fst (wanted action)"
    let ?t = "commit_trap_entry s c ?state ?text"
    have s: "trap_ok s" "\<not> tr_snapshot_valid s" "action_set s = action_set (tw_store w)"
      "\<And>d. gsh_traps_state s d = gsh_traps_state (tw_store w) d" using d done'(4) by simp_all
    have "others_length s c + length ?text \<le> GSH_TRAP_TEXT_CAP"
      using done'(4,6) others_discard[OF t] by simp
    note commit = configure_commit[OF s(1,2) done'(1) this]
    have p: "packed_ok s" using s(1) by (simp add: trap_ok_def)
    have states: "gsh_traps_state ?t d = (if d = c then ?state else gsh_traps_state s d)" for d
    proof -
      have "fst (setting ?t d) = fst (((setting s)(c := wanted action)) d)" using commit(2) by simp
      then show ?thesis by (cases "d = c") (simp_all add: setting_def)
    qed
    have disp: "dispositions = (if signal_of c = 0 \<or> uncatchable_signal (signal_of c) then tw_dispositions w
        else (tw_dispositions w)(signal_of c := disposition_of ?state))"
      using set_signal_dispositions[OF done'(7)] by simp
    have "in_step w'"
      unfolding in_step_def
    proof (intro allI impI)
      fix e assume e: "e < gsh_traps_condition_count" "0 < e" "\<not> uncatchable_signal (signal_of e)"
      then have old: "tw_dispositions w (signal_of e) = disposition_of (gsh_traps_state (tw_store w) e)"
        using ok by (simp add: world_ok_def in_step_def)
      show "tw_dispositions w' (signal_of e) = disposition_of (gsh_traps_state (tw_store w') e)"
        using old e done'(1,5) states[of e] s(4) signals_distinct[OF e(1) done'(1)] signal_positive[OF done'(1)]
        by (cases "e = c") (simp_all add: disp)
    qed
    moreover have "reports_ok w'"
      unfolding reports_ok_def
    proof (intro conjI ballI impI)
      show "length (tw_pending w') = GSH_TRAP_CONDITION_CAP"
        using ok by (simp add: done'(5) world_ok_def reports_ok_def)
      fix e assume e: "e \<in> action_set (tw_store w')" "0 < e \<and> tw_pending w' ! e"
      have "length (tw_pending w) = GSH_TRAP_CONDITION_CAP" using ok by (simp add: world_ok_def reports_ok_def)
      then have "e \<noteq> c" "tw_pending w ! e" using e(2) done'(1) by (auto simp: done'(5) nth_list_update split: if_splits)
      moreover have "e \<in> action_set (tw_store w)"
        using e(1) states[of e] s(4)[of e] \<open>e \<noteq> c\<close> by (simp add: done'(5) action_set_state)
      ultimately show "tw_any_pending w'" using ok e(2) by (auto simp: done'(5) world_ok_def reports_ok_def)
    qed
    ultimately show ?thesis using commit(1) done'(5) by (simp add: world_ok_def)
  qed (use ok kept in simp_all)
qed

section \<open>Subshells\<close>

lemma reset_actions_spec:
  assumes "reset_actions refuse cs w = (True, w')" "distinct cs" "\<forall>c \<in> set cs. c < gsh_traps_condition_count"
    "length (tr_entries (tw_store w)) = GSH_TRAP_CONDITION_CAP" "length (tw_pending w) = GSH_TRAP_CONDITION_CAP"
  shows "\<exists>es. tw_store w' = (tw_store w)\<lparr>tr_entries := es\<rparr> \<and> length es = GSH_TRAP_CONDITION_CAP \<and>
      (\<forall>d < GSH_TRAP_CONDITION_CAP. es ! d =
        (if d \<in> set cs \<and> te_state (tr_entries (tw_store w) ! d) = TRAP_ACTION then default_entry
         else tr_entries (tw_store w) ! d)) \<and>
      length (tw_pending w') = GSH_TRAP_CONDITION_CAP \<and>
      (\<forall>d < gsh_traps_condition_count. tw_dispositions w' (signal_of d) =
        (if d \<in> set cs \<and> 0 < d \<and> \<not> uncatchable_signal (signal_of d) then disposition_of (te_state (es ! d))
         else tw_dispositions w (signal_of d)))"
  using assms
proof (induction cs arbitrary: w)
  case Nil
  then show ?case by (intro exI[of _ "tr_entries (tw_store w)"]) simp
next
  case (Cons c cs)
  let ?state = "te_state (tr_entries (tw_store w) ! c)"
  let ?v = "w\<lparr>tw_pending := (tw_pending w)[c := False]\<rparr>"
  let ?new = "if ?state = TRAP_ACTION then TRAP_DEFAULT else ?state"
  obtain b v where sig: "set_signal_state refuse (signal_of c) ?new ?v = (b, v)" by fastforce
  with Cons.prems(1) have b by (auto simp: Let_def split: bool.splits)
  with sig have sig': "set_signal_state refuse (signal_of c) ?new ?v = (True, v)" by simp
  define u where "u = (if ?state = TRAP_ACTION
    then v\<lparr>tw_store := (tw_store v)\<lparr>tr_entries := (tr_entries (tw_store v))[c := default_entry]\<rparr>\<rparr> else v)"
  have v: "tw_store v = tw_store w" "tw_pending v = (tw_pending w)[c := False]"
    using set_signal_store[OF sig'] by simp_all
  have u: "tw_pending u = (tw_pending w)[c := False]" "tw_dispositions u = tw_dispositions v"
    "tw_store u = (tw_store w)\<lparr>tr_entries := tr_entries (tw_store u)\<rparr>"
    "tr_entries (tw_store u) = (if ?state = TRAP_ACTION then (tr_entries (tw_store w))[c := default_entry]
       else tr_entries (tw_store w))"
    by (simp_all add: u_def v)
  have run: "reset_actions refuse cs u = (True, w')"
    using Cons.prems(1) sig' by (simp add: Let_def u_def)
  have shape: "length (tr_entries (tw_store u)) = GSH_TRAP_CONDITION_CAP" "length (tw_pending u) = GSH_TRAP_CONDITION_CAP"
    using Cons.prems(4,5) by (simp_all add: u(1,4) del: numeral_2_eq_2)
  have "distinct cs" "\<forall>c \<in> set cs. c < gsh_traps_condition_count" using Cons.prems(2,3) by simp_all
  from Cons.IH[OF run this shape] obtain es where es:
    "tw_store w' = (tw_store u)\<lparr>tr_entries := es\<rparr>" "length es = GSH_TRAP_CONDITION_CAP"
    "\<forall>d < GSH_TRAP_CONDITION_CAP. es ! d =
      (if d \<in> set cs \<and> te_state (tr_entries (tw_store u) ! d) = TRAP_ACTION then default_entry
       else tr_entries (tw_store u) ! d)"
    "length (tw_pending w') = GSH_TRAP_CONDITION_CAP"
    "\<forall>d < gsh_traps_condition_count. tw_dispositions w' (signal_of d) =
      (if d \<in> set cs \<and> 0 < d \<and> \<not> uncatchable_signal (signal_of d) then disposition_of (te_state (es ! d))
       else tw_dispositions u (signal_of d))"
    by blast
  have c: "c < 29" "c \<notin> set cs" using Cons.prems(2,3) by simp_all
  have entry: "es ! d = (if d \<in> set (c # cs) \<and> te_state (tr_entries (tw_store w) ! d) = TRAP_ACTION
      then default_entry else tr_entries (tw_store w) ! d)" if "d < GSH_TRAP_CONDITION_CAP" for d
    using es(3) that u(4) c Cons.prems(4) by (auto simp: nth_list_update default_entry_def)
  have new: "te_state (es ! c) = ?new" using entry[of c] c by (simp add: default_entry_def)
  have disp: "tw_dispositions u (signal_of d) =
      (if d = c \<and> 0 < c \<and> \<not> uncatchable_signal (signal_of c) then disposition_of ?new
       else tw_dispositions w (signal_of d))" if "d < gsh_traps_condition_count" for d
    using set_signal_dispositions[OF sig'] u(2) signals_distinct[OF that, of c] signal_positive[of c] c
    by (auto split: if_splits)
  have "tw_store w' = (tw_store w)\<lparr>tr_entries := es\<rparr>" using es(1) by (subst (asm) u(3)) simp
  with es(2,4,5) entry disp new c show ?case
    by (intro exI[of _ es]) auto
qed

lemma setting_cases:
  assumes "packed_ok s" "c < gsh_traps_condition_count"
  shows "gsh_traps_action s c \<noteq> None \<longleftrightarrow> gsh_traps_state s c = TRAP_ACTION"
  using action_setting[OF assms(1), of c] other_setting[of c s] assms(2)
  by (cases "c \<in> action_set s") (auto simp: setting_def action_set_state)

text \<open>A subshell, once entered.\<close>

lemma enter_subshell_shape:
  assumes ok: "trap_ok (tw_store w)" "length (tw_pending w) = GSH_TRAP_CONDITION_CAP"
    and run: "gsh_traps_enter_subshell refuse w = (True, w')"
  obtains s es where "s = discard_subshell_snapshot (tw_store w)" "length es = GSH_TRAP_CONDITION_CAP"
    "\<forall>d < GSH_TRAP_CONDITION_CAP. es ! d = (if d < gsh_traps_condition_count \<and> te_state (tr_entries s ! d) = TRAP_ACTION
       then default_entry else tr_entries s ! d)"
    "tw_store w' = s\<lparr>tr_snapshot_entries := take gsh_traps_condition_count (tr_entries s) @
         drop gsh_traps_condition_count (tr_snapshot_entries s),
       tr_snapshot_text_used := tr_text_used s, tr_snapshot_valid := True, tr_entries := es,
       tr_text_used := 0, tr_action_count := 0,
       tr_nondefault_count := length (filter (\<lambda>entry. te_state entry \<noteq> TRAP_DEFAULT)
         (take gsh_traps_condition_count es))\<rparr>"
    "length (tw_pending w') = GSH_TRAP_CONDITION_CAP"
    "\<forall>d < gsh_traps_condition_count. tw_dispositions w' (signal_of d) =
       (if 0 < d \<and> \<not> uncatchable_signal (signal_of d) then disposition_of (te_state (es ! d))
        else tw_dispositions w (signal_of d))"
proof -
  let ?s = "discard_subshell_snapshot (tw_store w)"
  let ?t = "?s\<lparr>tr_snapshot_entries := take gsh_traps_condition_count (tr_entries ?s) @
      drop gsh_traps_condition_count (tr_snapshot_entries ?s),
    tr_snapshot_text_used := tr_text_used ?s, tr_snapshot_valid := True\<rparr>"
  define u where "u = w\<lparr>tw_store := ?t\<rparr>"
  note d = discard_ok[OF ok(1)]
  obtain b v where reset: "reset_actions refuse [0..<gsh_traps_condition_count] u = (b, v)" by fastforce
  with run have b by (cases b) (simp_all add: gsh_traps_enter_subshell_def Let_def u_def)
  with reset have reset: "reset_actions refuse [0..<gsh_traps_condition_count] u = (True, v)" by simp
  have w': "w' = v\<lparr>tw_store := (tw_store v)\<lparr>tr_text_used := 0, tr_action_count := 0,
      tr_nondefault_count := length (filter (\<lambda>entry. te_state entry \<noteq> TRAP_DEFAULT)
        (take gsh_traps_condition_count (tr_entries (tw_store v))))\<rparr>, tw_any_pending := False\<rparr>"
    using run using reset unfolding gsh_traps_enter_subshell_def Let_def u_def by simp
  have "length (tr_entries (tw_store u)) = GSH_TRAP_CONDITION_CAP" "length (tw_pending u) = GSH_TRAP_CONDITION_CAP"
    using d ok by (simp_all add: trap_ok_def packed_ok_def u_def)
  moreover have "distinct [0..<gsh_traps_condition_count]" "\<forall>c \<in> set [0..<gsh_traps_condition_count]. c < gsh_traps_condition_count"
    by simp_all
  ultimately obtain es where es: "tw_store v = (tw_store u)\<lparr>tr_entries := es\<rparr>" "length es = GSH_TRAP_CONDITION_CAP"
    "\<forall>d < GSH_TRAP_CONDITION_CAP. es ! d =
      (if d \<in> set [0..<gsh_traps_condition_count] \<and> te_state (tr_entries (tw_store u) ! d) = TRAP_ACTION
       then default_entry else tr_entries (tw_store u) ! d)"
    "length (tw_pending v) = GSH_TRAP_CONDITION_CAP"
    "\<forall>d < gsh_traps_condition_count. tw_dispositions v (signal_of d) =
      (if d \<in> set [0..<gsh_traps_condition_count] \<and> 0 < d \<and> \<not> uncatchable_signal (signal_of d)
       then disposition_of (te_state (es ! d)) else tw_dispositions u (signal_of d))"
    using reset_actions_spec[OF reset] by blast
  show thesis
  proof (rule that[of ?s es])
    show "tw_store w' = ?s\<lparr>tr_snapshot_entries := take gsh_traps_condition_count (tr_entries ?s) @
           drop gsh_traps_condition_count (tr_snapshot_entries ?s),
         tr_snapshot_text_used := tr_text_used ?s, tr_snapshot_valid := True, tr_entries := es,
         tr_text_used := 0, tr_action_count := 0,
         tr_nondefault_count := length (filter (\<lambda>entry. te_state entry \<noteq> TRAP_DEFAULT)
           (take gsh_traps_condition_count es))\<rparr>"
      by (simp add: w' es(1) u_def)
  qed (use es in \<open>simp_all add: w' u_def\<close>)
qed

lemma enter_subshell_ok:
  assumes ok: "trap_ok (tw_store w)" "length (tw_pending w) = GSH_TRAP_CONDITION_CAP"
    and run: "gsh_traps_enter_subshell refuse w = (True, w')"
  shows "trap_ok (tw_store w')" "action_set (tw_store w') = {}" "length (tw_pending w') = GSH_TRAP_CONDITION_CAP"
    "\<And>c. gsh_traps_state (tw_store w') c =
      (if gsh_traps_state (tw_store w) c = TRAP_ACTION then TRAP_DEFAULT else gsh_traps_state (tw_store w) c)"
    "\<And>c. gsh_traps_query_state (tw_store w') c = gsh_traps_state (tw_store w) c"
    "\<And>c. gsh_traps_query_action (tw_store w') c = gsh_traps_action (tw_store w) c"
    "\<And>c. c < gsh_traps_condition_count \<Longrightarrow> tw_dispositions w' (signal_of c) =
       (if 0 < c \<and> \<not> uncatchable_signal (signal_of c) then disposition_of (gsh_traps_state (tw_store w') c)
        else tw_dispositions w (signal_of c))"
proof -
  note d = discard_ok[OF ok(1)]
  obtain s es where s: "s = discard_subshell_snapshot (tw_store w)" and es: "length es = GSH_TRAP_CONDITION_CAP"
    "\<forall>d < GSH_TRAP_CONDITION_CAP. es ! d = (if d < gsh_traps_condition_count \<and> te_state (tr_entries s ! d) = TRAP_ACTION
       then default_entry else tr_entries s ! d)"
    and w': "tw_store w' = s\<lparr>tr_snapshot_entries := take gsh_traps_condition_count (tr_entries s) @
         drop gsh_traps_condition_count (tr_snapshot_entries s),
       tr_snapshot_text_used := tr_text_used s, tr_snapshot_valid := True, tr_entries := es,
       tr_text_used := 0, tr_action_count := 0,
       tr_nondefault_count := length (filter (\<lambda>entry. te_state entry \<noteq> TRAP_DEFAULT)
         (take gsh_traps_condition_count es))\<rparr>"
    and len: "length (tw_pending w') = GSH_TRAP_CONDITION_CAP"
    and disp: "\<forall>d < gsh_traps_condition_count. tw_dispositions w' (signal_of d) =
       (if 0 < d \<and> \<not> uncatchable_signal (signal_of d) then disposition_of (te_state (es ! d))
        else tw_dispositions w (signal_of d))"
    by (rule enter_subshell_shape[OF ok run])
  have old: "trap_ok s" "tr_entries s = tr_entries (tw_store w)" using d s by simp_all
  have shape: "length (tr_entries s) = 32" "length (tr_snapshot_entries s) = 32"
    "length (tr_text s) = GSH_TRAP_TEXT_CAP + 1" using old(1) by (simp_all add: trap_ok_def packed_ok_def)
  have at: "entry_at (tw_store w') c = es ! c" for c by (simp add: w' entry_at_def)
  have state: "te_state (es ! c) = (if te_state (tr_entries s ! c) = TRAP_ACTION then TRAP_DEFAULT
      else te_state (tr_entries s ! c))" if "c < 29" for c
    using es(2)[rule_format, of c] that by (simp add: default_entry_def)
  show none: "action_set (tw_store w') = {}"
    using state by (auto simp: action_set_def at split: if_splits)
  have "nondefault_set (tw_store w') = {i. i < 29 \<and> te_state (take 29 es ! i) \<noteq> TRAP_DEFAULT}"
    by (auto simp: nondefault_set_def at)
  then have "card (nondefault_set (tw_store w')) = length (filter (\<lambda>entry. te_state entry \<noteq> TRAP_DEFAULT) (take 29 es))"
    using es(1) by (simp add: length_filter_conv_card)
  then have "tr_nondefault_count (tw_store w') = card (nondefault_set (tw_store w'))" by (simp add: w')
  moreover have "packed_ok (tw_store w')" using none es(1) shape by (simp add: packed_ok_def w')
  moreover have "tr_action_count (tw_store w') = card (action_set (tw_store w'))" by (simp add: none) (simp add: w')
  moreover have "length (tr_snapshot_entries (tw_store w')) = GSH_TRAP_CONDITION_CAP" using shape by (simp add: w')
  ultimately show "trap_ok (tw_store w')" using none by (simp add: trap_ok_def)
  show "length (tw_pending w') = GSH_TRAP_CONDITION_CAP" by (fact len)
  show new: "gsh_traps_state (tw_store w') c =
      (if gsh_traps_state (tw_store w) c = TRAP_ACTION then TRAP_DEFAULT else gsh_traps_state (tw_store w) c)" for c
    using state[of c] by (simp add: gsh_traps_state_def w' old(2))
  have snapshot: "tr_snapshot_entries (tw_store w') ! c = tr_entries (tw_store w) ! c" if "c < 29" for c
    using that shape by (simp add: w' old(2) nth_append)
  show "gsh_traps_query_state (tw_store w') c = gsh_traps_state (tw_store w) c" for c
    using snapshot[of c] by (simp add: gsh_traps_query_state_def gsh_traps_state_def) (simp add: w')
  have "tr_text s = tr_text (tw_store w)" by (simp add: s discard_subshell_snapshot_def)
  then show "gsh_traps_query_action (tw_store w') c = gsh_traps_action (tw_store w) c" for c
    using snapshot[of c] d(4) s by (simp add: gsh_traps_query_action_def gsh_traps_action_def) (simp add: w')
  show "c < gsh_traps_condition_count \<Longrightarrow> tw_dispositions w' (signal_of c) =
      (if 0 < c \<and> \<not> uncatchable_signal (signal_of c) then disposition_of (gsh_traps_state (tw_store w') c)
       else tw_dispositions w (signal_of c))" for c
    using disp[rule_format, of c] by (simp add: gsh_traps_state_def) (simp add: w')
qed

text \<open>C17. A subshell starts with the traps POSIX gives it: every action is reset to the default and
  every ignored signal stays ignored, in the store and in the dispositions; and until a trap is
  changed, the queries of \<open>trap\<close> still see the parent's settings with the text of its
  actions.\<close>

theorem subshell_resets_actions:
  assumes "world_ok w" "gsh_traps_enter_subshell refuse w = (True, w')"
  shows "world_ok w' \<and>
    (\<forall>c. gsh_traps_state (tw_store w') c =
      (if gsh_traps_state (tw_store w) c = TRAP_ACTION then TRAP_DEFAULT else gsh_traps_state (tw_store w) c)) \<and>
    (\<forall>c. gsh_traps_query_state (tw_store w') c = gsh_traps_state (tw_store w) c \<and>
      gsh_traps_query_action (tw_store w') c = gsh_traps_action (tw_store w) c)"
proof -
  have ok: "trap_ok (tw_store w)" "length (tw_pending w) = GSH_TRAP_CONDITION_CAP" "in_step w"
    using assms(1) by (simp_all add: world_ok_def reports_ok_def)
  note enter = enter_subshell_ok[OF ok(1,2) assms(2)]
  have "in_step w'" using enter(7) by (simp add: in_step_def)
  moreover have "reports_ok w'" using enter(2,3) by (simp add: reports_ok_def)
  ultimately show ?thesis using enter(1,4-6) by (simp add: world_ok_def)
qed

section \<open>The start of the shell\<close>

lemma inherit_ignored_spec:
  assumes "inherit_ignored refuse f cs s = (True, s')" "distinct cs" "\<forall>c \<in> set cs. c < gsh_traps_condition_count"
    "length (tr_entries s) = GSH_TRAP_CONDITION_CAP" "\<forall>c < GSH_TRAP_CONDITION_CAP. c \<in> set cs \<longrightarrow> tr_entries s ! c = default_entry"
    "tr_nondefault_count s = card (nondefault_set s)"
  shows "\<exists>es n. s' = s\<lparr>tr_entries := es, tr_nondefault_count := n\<rparr> \<and> length es = GSH_TRAP_CONDITION_CAP \<and>
    n = card (nondefault_set s') \<and>
    (\<forall>d < GSH_TRAP_CONDITION_CAP. es ! d =
      (if d \<in> set cs \<and> \<not> uncatchable_signal (signal_of d) \<and> f (signal_of d) = SIG_IGN
       then default_entry\<lparr>te_state := TRAP_INHERITED_IGNORE\<rparr> else tr_entries s ! d))"
  using assms
proof (induction cs arbitrary: s)
  case Nil
  then show ?case
    by (intro exI[of _ "tr_entries s"] exI[of _ "tr_nondefault_count s"]) simp
next
  case (Cons c cs)
  let ?marked = "\<not> uncatchable_signal (signal_of c) \<and> f (signal_of c) = SIG_IGN"
  define t where "t = (if ?marked
    then s\<lparr>tr_entries := (tr_entries s)[c := default_entry\<lparr>te_state := TRAP_INHERITED_IGNORE\<rparr>],
      tr_nondefault_count := tr_nondefault_count s + 1\<rparr> else s)"
  have c: "c < 29" "c \<notin> set cs" "tr_entries s ! c = default_entry" "length (tr_entries s) = 32"
    using Cons.prems(2-4) Cons.prems(5)[rule_format, of c] by simp_all
  have run: "inherit_ignored refuse f cs t = (True, s')"
    using Cons.prems(1) c(3) by (auto simp: Let_def t_def split: if_splits)
  have entries: "tr_entries t ! d = (if d = c \<and> ?marked then default_entry\<lparr>te_state := TRAP_INHERITED_IGNORE\<rparr>
      else tr_entries s ! d)" if "d < 32" for d
    using that c(4) by (simp add: t_def nth_list_update)
  have "nondefault_set t = (if ?marked then insert c (nondefault_set s) else nondefault_set s)"
    using entries c(1) by (auto simp: nondefault_set_def entry_at_def split: if_splits)
  moreover have "c \<notin> nondefault_set s" using c(3) by (simp add: nondefault_set_def entry_at_def default_entry_def)
  ultimately have count: "tr_nondefault_count t = card (nondefault_set t)"
    using Cons.prems(6) by (simp add: t_def)
  have rest: "tr_entries t ! d = default_entry" if "d < GSH_TRAP_CONDITION_CAP" "d \<in> set cs" for d
    using entries[of d] that c(2) Cons.prems(5)[rule_format, of d] by auto
  have prem: "distinct cs" "\<forall>c \<in> set cs. c < gsh_traps_condition_count" "length (tr_entries t) = GSH_TRAP_CONDITION_CAP"
    using Cons.prems(2-4) by (auto simp: t_def)
  from Cons.IH[OF run prem _ count] rest obtain es n where es:
    "s' = t\<lparr>tr_entries := es, tr_nondefault_count := n\<rparr>" "length es = GSH_TRAP_CONDITION_CAP" "n = card (nondefault_set s')"
    "\<forall>d < GSH_TRAP_CONDITION_CAP. es ! d =
      (if d \<in> set cs \<and> \<not> uncatchable_signal (signal_of d) \<and> f (signal_of d) = SIG_IGN
       then default_entry\<lparr>te_state := TRAP_INHERITED_IGNORE\<rparr> else tr_entries t ! d)" by blast
  have "s' = s\<lparr>tr_entries := es, tr_nondefault_count := n\<rparr>" using es(1) by (simp add: t_def)
  with es(2-4) entries c(2) show ?case by (intro exI[of _ es] exI[of _ n]) auto
qed

text \<open>A start: a fresh store, and no signal has a handler of the process yet.\<close>

definition fresh_world :: "trap_world \<Rightarrow> bool" where
  "fresh_world w \<longleftrightarrow> length (tr_text (tw_store w)) = GSH_TRAP_TEXT_CAP + 1 \<and>
    (\<forall>signal. tw_dispositions w signal \<noteq> SIG_HANDLER)"

lemma initialize_ok:
  assumes "fresh_world w" "gsh_traps_initialize refuse w = (True, w')"
  shows "world_ok w'"
proof -
  let ?s = "(tw_store w)\<lparr>tr_entries := replicate GSH_TRAP_CONDITION_CAP default_entry,
     tr_snapshot_entries := replicate GSH_TRAP_CONDITION_CAP default_entry,
     tr_text_used := 0, tr_snapshot_text_used := 0, tr_nondefault_count := 0,
     tr_action_count := 0, tr_snapshot_valid := False\<rparr>"
  define s where "s = ?s"
  define cs where "cs = [1..<gsh_traps_condition_count]"
  have cs: "distinct cs" "set cs = {1..<29}"
    unfolding cs_def condition_count by (rule distinct_upt, rule set_upt)
  obtain b t where run: "inherit_ignored refuse (tw_dispositions w) cs s = (b, t)"
    by fastforce
  have initialize: "gsh_traps_initialize refuse w = (b, w\<lparr>tw_store := t,
      tw_pending := replicate GSH_TRAP_CONDITION_CAP False, tw_any_pending := False\<rparr>)"
    using run unfolding gsh_traps_initialize_def Let_def s_def cs_def by (simp only: prod.case)
  have w': "b" "w' = w\<lparr>tw_store := t, tw_pending := replicate GSH_TRAP_CONDITION_CAP False, tw_any_pending := False\<rparr>"
    using assms(2) unfolding initialize by (simp_all only: prod.inject)
  have fields: "tr_entries s = replicate 32 default_entry" "tr_snapshot_entries s = replicate 32 default_entry"
    "tr_text_used s = 0" "tr_nondefault_count s = 0" "tr_action_count s = 0" "\<not> tr_snapshot_valid s"
    "length (tr_text s) = GSH_TRAP_TEXT_CAP + 1"
    using assms(1) by (simp_all add: s_def fresh_world_def)
  have none: "tr_nondefault_count s = card (nondefault_set s)"
    using fields(1,4) by (simp add: nondefault_set_def entry_at_def default_entry_def)
  have run': "inherit_ignored refuse (tw_dispositions w) cs s = (True, t)"
    using run w'(1) by simp
  have "length (tr_entries s) = GSH_TRAP_CONDITION_CAP"
    "\<forall>c < GSH_TRAP_CONDITION_CAP. c \<in> set cs \<longrightarrow> tr_entries s ! c = default_entry"
    "\<forall>c \<in> set cs. c < gsh_traps_condition_count"
    using fields(1) cs(2) by (simp_all add: nth_replicate)
  with inherit_ignored_spec[OF run' cs(1) _ _ _ none] obtain es n where es:
    "t = s\<lparr>tr_entries := es, tr_nondefault_count := n\<rparr>" "length es = GSH_TRAP_CONDITION_CAP" "n = card (nondefault_set t)"
    "\<forall>d < GSH_TRAP_CONDITION_CAP. es ! d =
      (if d \<in> set cs \<and> \<not> uncatchable_signal (signal_of d) \<and> tw_dispositions w (signal_of d) = SIG_IGN
       then default_entry\<lparr>te_state := TRAP_INHERITED_IGNORE\<rparr> else tr_entries s ! d)"
    by blast
  have state: "te_state (es ! d) = (if 0 < d \<and> \<not> uncatchable_signal (signal_of d) \<and> tw_dispositions w (signal_of d) = SIG_IGN
      then TRAP_INHERITED_IGNORE else TRAP_DEFAULT)" if "d < 29" for d
    using es(4)[rule_format, of d] that cs(2) by (auto simp: fields(1) nth_replicate default_entry_def)
  have none: "action_set t = {}" using state by (auto simp: action_set_def entry_at_def es(1) split: if_splits)
  have t: "tr_entries t = es" "tr_nondefault_count t = n" "tr_snapshot_entries t = tr_snapshot_entries s"
    "tr_text_used t = 0" "tr_action_count t = 0" "\<not> tr_snapshot_valid t" "tr_text t = tr_text s"
    by (simp_all add: es(1) fields)
  have "trap_ok t"
    unfolding trap_ok_def packed_ok_def none t using es(2,3) fields(2,7) t(6) by simp
  moreover have "in_step w'"
    unfolding in_step_def
  proof (intro allI impI)
    fix c assume c: "c < gsh_traps_condition_count" "0 < c" "\<not> uncatchable_signal (signal_of c)"
    have "tw_dispositions w (signal_of c) \<noteq> SIG_HANDLER" using assms(1) by (simp add: fresh_world_def)
    with state[of c] c show "tw_dispositions w' (signal_of c) = disposition_of (gsh_traps_state (tw_store w') c)"
      by (cases "tw_dispositions w (signal_of c)") (simp_all add: w'(2) gsh_traps_state_def es(1) disposition_of_def)
  qed
  moreover have "reports_ok w'" using none by (simp add: reports_ok_def w'(2))
  ultimately show ?thesis by (simp add: world_ok_def w'(2))
qed

section \<open>Reports\<close>

lemma pending_in:
  "c \<in> set (pending_conditions w) \<longleftrightarrow> 0 < c \<and> c \<in> action_set (tw_store w) \<and> tw_pending w ! c"
  by (auto simp: pending_conditions_def action_set_def entry_at_def simp del: condition_count upt_rec_numeral)

lemma pending_distinct: "distinct (pending_conditions w)" "sorted (pending_conditions w)"
  by (simp_all add: pending_conditions_def sorted_wrt_filter del: condition_count upt_rec_numeral)

lemma pending_length: "length (pending_conditions w) \<le> gsh_traps_condition_count"
  unfolding pending_conditions_def by (rule order_trans[OF length_filter_le], subst length_upt) simp

lemma have_pending_iff:
  assumes "world_ok w"
  shows "pending_conditions w \<noteq> [] \<Longrightarrow> gsh_traps_have_pending w"
proof -
  assume "pending_conditions w \<noteq> []"
  then obtain c where "c \<in> set (pending_conditions w)" by (meson last_in_set)
  then have "0 < c" "c \<in> action_set (tw_store w)" "tw_pending w ! c" by (simp_all add: pending_in)
  moreover from this have "card (action_set (tw_store w)) \<noteq> 0" by (auto simp: card_eq_0_iff)
  ultimately show "gsh_traps_have_pending w"
    using assms by (auto simp: gsh_traps_have_pending_def world_ok_def trap_ok_def reports_ok_def)
qed

lemma take_cases:
  assumes ok: "world_ok w" and run: "gsh_traps_take_pending w = (r, w')"
  shows "world_ok w'" "tw_store w' = tw_store w"
    "r = (case pending_conditions w of [] \<Rightarrow> None | c # _ \<Rightarrow> Some c)"
    "pending_conditions w' = tl (pending_conditions w)"
    "r = None \<Longrightarrow> \<not> gsh_traps_have_pending w'"
proof -
  have len: "length (tw_pending w) = 32" using ok by (simp add: world_ok_def reports_ok_def)
  have *: "world_ok w' \<and> tw_store w' = tw_store w \<and>
      r = (case pending_conditions w of [] \<Rightarrow> None | c # _ \<Rightarrow> Some c) \<and>
      pending_conditions w' = tl (pending_conditions w) \<and> (r = None \<longrightarrow> \<not> gsh_traps_have_pending w')"
  proof (cases "pending_conditions w")
    case Nil
    then have none: "\<forall>c \<in> action_set (tw_store w). \<not> (0 < c \<and> tw_pending w ! c)" using pending_in[of _ w] by auto
    have "r = None" and w': "w' = (if gsh_traps_have_pending w then w\<lparr>tw_any_pending := False\<rparr> else w)"
      using run Nil by (auto simp: gsh_traps_take_pending_def split: if_splits)
    have same: "tw_store w' = tw_store w" "tw_pending w' = tw_pending w" "tw_dispositions w' = tw_dispositions w"
      by (simp_all add: w')
    have "pending_conditions w' = []" using Nil same by (simp add: pending_conditions_def del: condition_count upt_rec_numeral)
    moreover have "world_ok w'" using ok none same by (auto simp: world_ok_def in_step_def reports_ok_def)
    moreover have "\<not> gsh_traps_have_pending w'" by (auto simp: w' gsh_traps_have_pending_def)
    ultimately show ?thesis using Nil same \<open>r = None\<close> by simp
  next
    case (Cons c cs)
    have "gsh_traps_have_pending w" using have_pending_iff[OF ok] Cons by simp
    with run Cons have r: "r = Some c"
      and w': "w' = w\<lparr>tw_pending := (tw_pending w)[c := False], tw_any_pending := (cs \<noteq> [])\<rparr>"
      by (auto simp: gsh_traps_take_pending_def)
    have c: "c < 29" "c \<notin> set cs" using pending_in[of c w] pending_distinct(1)[of w] Cons by (auto simp: action_set_def)
    have "pending_conditions w' = filter (\<lambda>i. i \<noteq> c) (pending_conditions w)"
      unfolding pending_conditions_def filter_filter using c len
      by (intro filter_cong refl) (auto simp: w' nth_list_update)
    also have "\<dots> = cs" using c(2) Cons by (auto simp: filter_id_conv)
    finally have rest: "pending_conditions w' = cs" .
    have "reports_ok w'"
      unfolding reports_ok_def
    proof (intro conjI ballI impI)
      show "length (tw_pending w') = GSH_TRAP_CONDITION_CAP" using len by (simp add: w')
      fix d assume "d \<in> action_set (tw_store w')" "0 < d \<and> tw_pending w' ! d"
      then have "d \<in> set cs" using pending_in[of d w'] rest by simp
      then show "tw_any_pending w'" by (auto simp: w')
    qed
    then have "world_ok w'" using ok by (simp add: world_ok_def in_step_def w')
    then show ?thesis using Cons r rest by (simp add: w')
  qed
  then show "world_ok w'" "tw_store w' = tw_store w"
    "r = (case pending_conditions w of [] \<Rightarrow> None | c # _ \<Rightarrow> Some c)"
    "pending_conditions w' = tl (pending_conditions w)" "r = None \<Longrightarrow> \<not> gsh_traps_have_pending w'" by blast+
qed

lemma handler_shape:
  assumes "c < gsh_traps_condition_count" "0 < c"
  shows "trap_signal_handler (signal_of c) w =
    w\<lparr>tw_pending := (tw_pending w)[c := True], tw_any_pending := True\<rparr>"
proof -
  have found: "condition_numbered (snd (cs ! i)) cs n = Some (n + i)" if "i < length cs" "distinct (map snd cs)" for i cs n
    using that
  proof (induction cs arbitrary: i n)
    case (Cons x cs)
    show ?case
    proof (cases i)
      case (Suc j)
      then have "snd x \<noteq> snd (cs ! j)" using Cons.prems by (metis distinct.simps(2) image_eqI length_Cons list.set_map list.simps(9) not_less_eq nth_mem Suc_less_eq)
      then show ?thesis using Cons.IH[of j "n + 1"] Cons.prems Suc by (cases x) auto
    qed (cases x, simp)
  qed simp
  have "distinct (map snd (tl CONDITIONS))" by (simp add: CONDITIONS_def)
  moreover have "c - 1 < length (tl CONDITIONS)" using assms by (simp add: gsh_traps_condition_count_def del: condition_count)
  ultimately have "condition_numbered (snd (tl CONDITIONS ! (c - 1))) (tl CONDITIONS) 1 = Some (1 + (c - 1))"
    by (rule found[rotated])
  then have "condition_numbered (signal_of c) (tl CONDITIONS) 1 = Some c"
    using assms by (simp add: nth_tl gsh_traps_condition_count_def del: condition_count)
  then show ?thesis by (simp add: trap_signal_handler_def)
qed

lemma numbered_some: "condition_numbered signal cs n = Some c \<Longrightarrow> n \<le> c \<and> c < n + length cs"
  by (induction cs arbitrary: n) (force split: if_splits)+

lemma handler_ok:
  assumes "world_ok w"
  shows "world_ok (trap_signal_handler signal w)"
  using assms by (auto simp: trap_signal_handler_def world_ok_def in_step_def reports_ok_def split: option.split)

section \<open>Reachable states\<close>

text \<open>Signals are delivered between the operations. A shell whose start fails or whose subshell
  cannot be entered does not go on.\<close>

inductive trap_reach :: "trap_world \<Rightarrow> bool" where
  start: "fresh_world w \<Longrightarrow> gsh_traps_initialize refuse w = (True, w') \<Longrightarrow> trap_reach w'"
| configure: "trap_reach w \<Longrightarrow> gsh_traps_configure refuse w c action = (r, w') \<Longrightarrow> trap_reach w'"
| subshell: "trap_reach w \<Longrightarrow> gsh_traps_enter_subshell refuse w = (True, w') \<Longrightarrow> trap_reach w'"
| deliver: "trap_reach w \<Longrightarrow> tw_dispositions w signal = SIG_HANDLER \<Longrightarrow> trap_reach (trap_signal_handler signal w)"
| take: "trap_reach w \<Longrightarrow> gsh_traps_take_pending w = (selected, w') \<Longrightarrow> trap_reach w'"

lemma enter_subshell_world: "world_ok w \<Longrightarrow> gsh_traps_enter_subshell refuse w = (True, w') \<Longrightarrow> world_ok w'"
proof -
  assume ok: "world_ok w" and run: "gsh_traps_enter_subshell refuse w = (True, w')"
  then have "trap_ok (tw_store w)" "length (tw_pending w) = GSH_TRAP_CONDITION_CAP"
    by (simp_all add: world_ok_def reports_ok_def)
  note enter = enter_subshell_ok[OF this run]
  have "in_step w'" "reports_ok w'" using enter(2,3,7) by (simp_all add: in_step_def reports_ok_def)
  then show "world_ok w'" using enter(1) by (simp add: world_ok_def)
qed

lemma reach_world_ok: "trap_reach w \<Longrightarrow> world_ok w"
  by (induction rule: trap_reach.induct)
    (blast intro: initialize_ok configure_world_ok enter_subshell_world handler_ok take_cases(1))+

text \<open>C16. Whatever the order of \<open>trap\<close> commands, subshells, signals and reports taken, the store
  stays well formed, with its actions packed and its counts exact, and the process handles every
  catchable signal the way the store says: an action has the handler, an ignored signal is ignored
  and the others have their default.\<close>

theorem trap_dispositions_in_step:
  assumes "trap_reach w"
  shows "trap_ok (tw_store w) \<and> in_step w"
  using reach_world_ok[OF assms] by (simp add: world_ok_def trap_ok_def)

text \<open>The reports an evaluator takes at a command boundary.\<close>

fun take_all :: "nat \<Rightarrow> trap_world \<Rightarrow> nat list \<times> trap_world" where
  "take_all 0 w = ([], w)"
| "take_all (Suc n) w =
    (case gsh_traps_take_pending w of
       (None, w) \<Rightarrow> ([], w)
     | (Some c, w) \<Rightarrow> (case take_all n w of (cs, w) \<Rightarrow> (c # cs, w)))"

lemma take_all_pending:
  assumes "world_ok w" "length (pending_conditions w) < n" "take_all n w = (cs, w')"
  shows "cs = pending_conditions w \<and> \<not> gsh_traps_have_pending w' \<and> tw_store w' = tw_store w"
  using assms
proof (induction n arbitrary: w cs w')
  case (Suc n)
  obtain r v where run: "gsh_traps_take_pending w = (r, v)" by fastforce
  note take = take_cases[OF Suc.prems(1) run]
  show ?case
  proof (cases "pending_conditions w")
    case Nil
    then have "r = None" using take(3) by simp
    then show ?thesis using Suc.prems(3) run take(2,5) Nil by simp
  next
    case (Cons c ds)
    then have r: "r = Some c" using take(3) by simp
    obtain es u where rest: "take_all n v = (es, u)" by fastforce
    have "length (pending_conditions v) < n" using Suc.prems(2) Cons take(4) by simp
    from Suc.IH[OF take(1) this rest] show ?thesis using Suc.prems(3) run r rest take(2,4) Cons by simp
  qed
qed simp

text \<open>C15. No signal is lost: when the shell has an action for a signal, the process handles the
  signal, and once it is delivered the evaluator, taking reports until there are none, gets its
  condition, each condition once and in the order of the table, and then no report is left.\<close>

theorem delivered_signal_is_taken:
  assumes "trap_reach w" "0 < c" "c < gsh_traps_condition_count" "\<not> uncatchable_signal (snd (CONDITIONS ! c))"
    "gsh_traps_state (tw_store w) c = TRAP_ACTION"
    "take_all (gsh_traps_condition_count + 1) (trap_signal_handler (snd (CONDITIONS ! c)) w) = (cs, w')"
  shows "tw_dispositions w (snd (CONDITIONS ! c)) = SIG_HANDLER \<and> c \<in> set cs \<and>
    distinct cs \<and> sorted cs \<and> (\<forall>d \<in> set cs. gsh_traps_action (tw_store w) d \<noteq> None) \<and>
    \<not> gsh_traps_have_pending w' \<and> tw_store w' = tw_store w"
proof -
  let ?v = "trap_signal_handler (signal_of c) w"
  have ok: "world_ok w" using assms(1) by (rule reach_world_ok)
  have v: "?v = w\<lparr>tw_pending := (tw_pending w)[c := True], tw_any_pending := True\<rparr>"
    using assms(2,3) by (intro handler_shape) simp_all
  have "length (pending_conditions ?v) < gsh_traps_condition_count + 1"
    using pending_length[of ?v] by simp
  from take_all_pending[OF handler_ok[OF ok] this assms(6)]
  have take: "cs = pending_conditions ?v" "\<not> gsh_traps_have_pending w'" "tw_store w' = tw_store ?v" by simp_all
  have "c \<in> set cs"
    using ok assms(2,3,5) by (simp add: take(1) pending_in v action_set_state world_ok_def reports_ok_def)
  moreover have "distinct cs" "sorted cs" unfolding take(1) by (rule pending_distinct)+
  moreover have "tw_dispositions w (signal_of c) = SIG_HANDLER"
    using ok assms(2-5) by (simp add: world_ok_def in_step_def disposition_of_def)
  moreover have "gsh_traps_action (tw_store w) d \<noteq> None" if "d \<in> set cs" for d
    using that setting_cases[of "tw_store w" d] ok
    by (simp add: take(1) pending_in v action_set_state world_ok_def trap_ok_def)
  moreover have "tw_store w' = tw_store w" using take(3) v by simp
  ultimately show ?thesis using take(2) by blast
qed

section \<open>A run\<close>

text \<open>A shell that is started with every signal at its default sets a trap for \<open>INT\<close>.\<close>

definition booted :: "byte list \<Rightarrow> trap_world" where
  "booted text' = \<lparr>tw_store = \<lparr>tr_entries = [], tr_snapshot_entries = [], tr_text_used = 0,
       tr_snapshot_text_used = 0, tr_nondefault_count = 0, tr_action_count = 0,
       tr_snapshot_valid = False, tr_text = text'\<rparr>,
     tw_pending = [], tw_any_pending = False, tw_dispositions = (\<lambda>signal. SIG_DFL)\<rparr>"

definition started :: "byte list \<Rightarrow> trap_world" where
  "started text' = snd (gsh_traps_initialize (\<lambda>signal. False) (booted text'))"

definition trapped :: "byte list \<Rightarrow> trap_world" where
  "trapped text' = snd (gsh_traps_configure (\<lambda>signal. False) (started text') 9 (Some ''echo''))"

lemma inherit_none: "inherit_ignored (\<lambda>signal. False) (\<lambda>signal. SIG_DFL) cs s = (True, s)"
  by (induction cs) (simp_all add: Let_def)

lemma started_fields:
  "gsh_traps_initialize (\<lambda>signal. False) (booted text') = (True, started text')"
  "tr_entries (tw_store (started text')) = replicate GSH_TRAP_CONDITION_CAP default_entry"
  "tr_text_used (tw_store (started text')) = 0" "\<not> tr_snapshot_valid (tw_store (started text'))"
  unfolding started_def gsh_traps_initialize_def Let_def
  by (simp_all add: inherit_none booted_def del: condition_count upt_rec_numeral)

lemma started_reach: "length text' = GSH_TRAP_TEXT_CAP + 1 \<Longrightarrow> trap_reach (started text')"
  by (rule trap_reach.start[OF _ started_fields(1)]) (simp add: fresh_world_def booted_def)

lemma granted:
  "set_signal_state (\<lambda>signal. False) signal state w = (True, snd (set_signal_state (\<lambda>signal. False) signal state w))"
  by (simp add: set_signal_state_def)

lemma trapped_run:
  "gsh_traps_configure (\<lambda>signal. False) (started text') 9 (Some ''echo'') = (None, trapped text')"
proof -
  have same: "discard_subshell_snapshot (tw_store (started text')) = tw_store (started text')"
    by (simp add: discard_subshell_snapshot_def started_fields)
  have "fst (gsh_traps_configure (\<lambda>signal. False) (started text') 9 (Some ''echo'')) = None"
    unfolding gsh_traps_configure_def same Let_def
    by (subst granted) (simp add: started_fields default_entry_def)
  then show ?thesis by (simp add: trapped_def prod_eq_iff)
qed

lemma trapped_reach: "length text' = GSH_TRAP_TEXT_CAP + 1 \<Longrightarrow> trap_reach (trapped text')"
  by (rule trap_reach.configure[OF started_reach trapped_run])

lemma enter_possible: "\<exists>w'. gsh_traps_enter_subshell (\<lambda>signal. False) w = (True, w')"
proof -
  have reset: "\<exists>w'. reset_actions (\<lambda>signal. False) cs w = (True, w')" for cs w
  proof (induction cs arbitrary: w)
    case (Cons c cs)
    show ?case
      unfolding reset_actions.simps Let_def
      by (subst granted) (simp only: prod.case bool.case Cons.IH)
  qed simp
  then have granted: "reset_actions (\<lambda>signal. False) cs w =
      (True, snd (reset_actions (\<lambda>signal. False) cs w))" for cs w by (metis snd_conv)
  show ?thesis
    unfolding gsh_traps_enter_subshell_def Let_def
    by (subst granted) (simp only: prod.case bool.case prod.inject simp_thms)
qed

lemma some_text: "\<exists>text'::byte list. length text' = GSH_TRAP_TEXT_CAP + 1"
  by (rule exI[of _ "replicate (GSH_TRAP_TEXT_CAP + 1) NUL"]) simp

lemma trapped_state:
  assumes "length text' = GSH_TRAP_TEXT_CAP + 1"
  shows "setting (tw_store (trapped text')) = (setting (tw_store (started text')))(9 := (TRAP_ACTION, Some ''echo''))"
    "gsh_traps_state (tw_store (trapped text')) 9 = TRAP_ACTION"
proof -
  have ok: "trap_ok (tw_store (started text'))" using reach_world_ok[OF started_reach[OF assms]] by (simp add: world_ok_def)
  have state: "gsh_traps_state (tw_store (started text')) 9 = TRAP_DEFAULT"
    by (simp add: gsh_traps_state_def started_fields default_entry_def)
  from ok trapped_run
  show eq: "setting (tw_store (trapped text')) = (setting (tw_store (started text')))(9 := (TRAP_ACTION, Some ''echo''))"
  proof (cases rule: configure_cases)
    case (done' s dispositions)
    then have room: "others_length s 9 + length (case Some ''echo'' of None \<Rightarrow> [] | Some t \<Rightarrow> t) \<le> GSH_TRAP_TEXT_CAP"
      using others_discard[OF ok] by simp
    have "trap_ok s" "\<not> tr_snapshot_valid s" "setting s = setting (tw_store (started text'))"
      using discard_ok[OF ok] done'(4) by simp_all
    from configure_commit(2)[OF this(1,2) done'(1) room] this(3) done'(5)
    show ?thesis by (simp add: wanted_def)
  qed (use state in simp_all)
  then have "fst (setting (tw_store (trapped text')) 9) = TRAP_ACTION" by simp
  then show "gsh_traps_state (tw_store (trapped text')) 9 = TRAP_ACTION" by (simp add: setting_def)
qed

theorem trap_dispositions_in_step_witness:
  "\<exists>w. trap_reach w \<and> gsh_traps_state (tw_store w) 9 = TRAP_ACTION \<and> trap_ok (tw_store w) \<and> in_step w"
proof -
  obtain text' :: "byte list" where len: "length text' = GSH_TRAP_TEXT_CAP + 1" using some_text by blast
  show ?thesis
    using trap_dispositions_in_step[OF trapped_reach[OF len]] trapped_reach[OF len] trapped_state(2)[OF len] by blast
qed

theorem subshell_resets_actions_witness:
  "\<exists>w w'. trap_reach w \<and> gsh_traps_enter_subshell (\<lambda>signal. False) w = (True, w') \<and>
    gsh_traps_state (tw_store w) 9 = TRAP_ACTION \<and> gsh_traps_state (tw_store w') 9 = TRAP_DEFAULT \<and>
    gsh_traps_query_state (tw_store w') 9 = TRAP_ACTION \<and>
    gsh_traps_query_action (tw_store w') 9 = Some ''echo''"
proof -
  obtain text' :: "byte list" where len: "length text' = GSH_TRAP_TEXT_CAP + 1" using some_text by blast
  obtain w' where run: "gsh_traps_enter_subshell (\<lambda>signal. False) (trapped text') = (True, w')"
    using enter_possible by blast
  note enter = subshell_resets_actions[OF reach_world_ok[OF trapped_reach[OF len]] run]
  have "snd (setting (tw_store (trapped text')) 9) = Some ''echo''" using trapped_state(1)[OF len] by simp
  then have "gsh_traps_action (tw_store (trapped text')) 9 = Some ''echo''" by (simp add: setting_def)
  then show ?thesis using enter run trapped_reach[OF len] trapped_state(2)[OF len]
    by (intro exI[of _ "trapped text'"] exI[of _ w']) simp
qed

theorem delivered_signal_is_taken_witness:
  "\<exists>w cs w'. trap_reach w \<and>
    take_all (gsh_traps_condition_count + 1) (trap_signal_handler 2 w) = (cs, w') \<and> 9 \<in> set cs"
proof -
  obtain text' :: "byte list" where len: "length text' = GSH_TRAP_TEXT_CAP + 1" using some_text by blast
  have signal: "snd (CONDITIONS ! 9) = 2" by (simp add: CONDITIONS_def)
  obtain cs w' where run: "take_all (gsh_traps_condition_count + 1) (trap_signal_handler 2 (trapped text')) = (cs, w')"
    by fastforce
  have "9 \<in> set cs"
    using delivered_signal_is_taken[of "trapped text'" 9 cs w', unfolded signal, OF trapped_reach[OF len] _ _ _ trapped_state(2)[OF len] run]
    by (simp add: uncatchable_signal_def)
  with run trapped_reach[OF len] show ?thesis by blast
qed

theorem trap_configure_refines_witness:
  "\<exists>w w'. trap_ok (tw_store w) \<and> gsh_traps_configure (\<lambda>signal. False) w 9 (Some ''echo'') = (None, w') \<and>
    setting (tw_store w') = (setting (tw_store w))(9 := (TRAP_ACTION, Some ''echo''))"
proof -
  obtain text' :: "byte list" where len: "length text' = GSH_TRAP_TEXT_CAP + 1" using some_text by blast
  have ok: "trap_ok (tw_store (started text'))" using reach_world_ok[OF started_reach[OF len]] by (simp add: world_ok_def)
  have state: "gsh_traps_state (tw_store (started text')) 9 = TRAP_DEFAULT"
    by (simp add: gsh_traps_state_def started_fields default_entry_def)
  show ?thesis
    using trap_configure_refines[OF ok trapped_run] ok trapped_run state by (auto simp: wanted_def)
qed

end
