(* ===== verification/FieldSplitting.thy ===== *)
theory FieldSplitting
  imports NativeVariables
begin

text \<open>
  Field splitting, \<open>src/native_plan.c\<close>: \<open>split_expanded_word\<close> cuts an expanded word into fields,
  in place, in the text of the pipeline. Every byte of the text has a provenance, which says
  whether it comes from an expansion and whether it is quoted; markers, bytes that are not part of
  the text, stand for quoted empty strings and for the boundaries between positional parameters.
  Text and provenance are lists of their C size. The pointer to a field is its offset in the
  text. Of the pipeline, the fields the modelled functions use are modelled.
\<close>

section \<open>Words and fields\<close>

abbreviation (input) GSH_NATIVE_TEXT_CAP :: nat where "GSH_NATIVE_TEXT_CAP \<equiv> 16384"
abbreviation (input) GSH_NATIVE_ARGUMENT_CAP :: nat where "GSH_NATIVE_ARGUMENT_CAP \<equiv> 128"

type_synonym provenance = "8 word"

abbreviation (input) GSH_WORD_EXPANDED :: provenance where "GSH_WORD_EXPANDED \<equiv> 1"
abbreviation (input) GSH_WORD_QUOTED :: provenance where "GSH_WORD_QUOTED \<equiv> 2"
abbreviation (input) GSH_WORD_EMPTY_MARKER :: provenance where "GSH_WORD_EMPTY_MARKER \<equiv> 4"
abbreviation (input) GSH_WORD_FIELD_BOUNDARY :: provenance where "GSH_WORD_FIELD_BOUNDARY \<equiv> 8"

record gsh_native_pipeline =
  np_text :: "byte list"
  np_provenance :: "provenance list"
  np_text_used :: nat

record gsh_expanded_field =
  xf_text :: nat
  xf_provenance_offset :: nat
  xf_length :: nat
  xf_has_pattern :: bool

definition ifs_white_space :: "byte \<Rightarrow> bool" where
  "ifs_white_space b \<longleftrightarrow> b = CHR '' '' \<or> b = TAB \<or> b = NL"

text \<open>\<open>strchr\<close> also finds the final NUL of the string.\<close>

definition is_ifs_byte :: "byte list \<Rightarrow> byte \<Rightarrow> bool" where
  "is_ifs_byte ifs b \<longleftrightarrow> b \<in> set ifs \<or> b = NUL"

definition split_delimiter :: "gsh_native_pipeline \<Rightarrow> nat \<Rightarrow> byte list \<Rightarrow> bool" where
  "split_delimiter pipeline offset ifs \<longleftrightarrow>
    (let provenance = np_provenance pipeline ! offset
     in provenance AND GSH_WORD_EXPANDED \<noteq> 0 \<and> provenance AND GSH_WORD_QUOTED = 0 \<and>
        is_ifs_byte ifs (np_text pipeline ! offset))"

text \<open>The state of the loop: the locals of \<open>split_expanded_word\<close>, its pipeline and its fields.\<close>

record split_state =
  sp_pipeline :: gsh_native_pipeline
  sp_fields :: "gsh_expanded_field list"
  sp_read :: nat
  sp_write :: nat
  sp_field_begin :: nat
  sp_has_bytes :: bool
  sp_has_quote :: bool
  sp_has_pattern :: bool

definition emit_expanded_field :: "split_state \<Rightarrow> gsh_native_plan_status \<times> split_state" where
  "emit_expanded_field s =
    (if length (sp_fields s) = GSH_NATIVE_ARGUMENT_CAP \<or> sp_write s = GSH_NATIVE_TEXT_CAP
     then (GSH_NATIVE_PLAN_LIMIT, s)
     else (GSH_NATIVE_PLAN_OK, s\<lparr>
       sp_fields := sp_fields s @ [\<lparr>xf_text = sp_field_begin s,
         xf_provenance_offset = sp_field_begin s, xf_length = sp_write s - sp_field_begin s,
         xf_has_pattern = sp_has_pattern s\<rparr>],
       sp_pipeline := (sp_pipeline s)\<lparr>
         np_text := (np_text (sp_pipeline s))[sp_write s := NUL],
         np_provenance := (np_provenance (sp_pipeline s))[sp_write s := 0]\<rparr>,
       sp_write := sp_write s + 1\<rparr>))"

text \<open>The end of the run of white delimiters at \<open>read\<close>.\<close>

function skip_white :: "gsh_native_pipeline \<Rightarrow> nat \<Rightarrow> byte list \<Rightarrow> nat \<Rightarrow> nat" where
  "skip_white pipeline end_at ifs read =
    (if read < end_at \<and> split_delimiter pipeline read ifs \<and> ifs_white_space (np_text pipeline ! read)
     then skip_white pipeline end_at ifs (read + 1) else read)"
  by pat_completeness auto
termination by (relation "measure (\<lambda>(pipeline, end_at, ifs, read). end_at - read)") auto

declare skip_white.simps [simp del]

text \<open>The code first requires \<open>read\<close> to be at most \<open>end_at\<close> and \<open>end_at\<close> at most the text used. It is called
  behind a byte below \<open>end_at\<close>, and \<open>append_expanded_word\<close>, the caller of \<open>split_expanded_word\<close>, passes
  text it has reserved, a NUL behind it included: the requirement holds in every run and has no
  counterpart here.\<close>

definition consume_ifs_delimiters ::
  "gsh_native_pipeline \<Rightarrow> nat \<Rightarrow> byte list \<Rightarrow> nat \<Rightarrow> byte \<Rightarrow> bool \<times> nat" where
  "consume_ifs_delimiters pipeline end_at ifs read first =
    (if ifs_white_space first
     then
       (let read = skip_white pipeline end_at ifs read
        in if read < end_at \<and> split_delimiter pipeline read ifs \<and>
              \<not> ifs_white_space (np_text pipeline ! read)
           then (True, skip_white pipeline end_at ifs (read + 1))
           else (False, skip_white pipeline end_at ifs read))
     else (True, skip_white pipeline end_at ifs read))"

definition expansion_field_separator ::
  "gsh_native_expansion_context option \<Rightarrow> gsh_native_plan_status \<times> byte list" where
  "expansion_field_separator context =
    (case context of
       None \<Rightarrow> (GSH_NATIVE_PLAN_OK, [CHR '' '', TAB, NL])
     | Some context \<Rightarrow>
         (case lookup_variable context ''IFS'' of
            (None, found) \<Rightarrow> (GSH_NATIVE_PLAN_UNSUPPORTED, [])
          | (Some val, found) \<Rightarrow>
              (GSH_NATIVE_PLAN_OK, if found then val else [CHR '' '', TAB, NL])))"

text \<open>A new candidate begins where the last field ended.\<close>

definition next_candidate :: "split_state \<Rightarrow> split_state" where
  "next_candidate s = s\<lparr>sp_field_begin := sp_write s, sp_has_bytes := False,
    sp_has_quote := False, sp_has_pattern := False\<rparr>"

definition emit_if :: "bool \<Rightarrow> split_state \<Rightarrow> gsh_native_plan_status \<times> split_state" where
  "emit_if present s = (if present then emit_expanded_field s else (GSH_NATIVE_PLAN_OK, s))"

definition copy_word_byte :: "split_state \<Rightarrow> split_state" where
  "copy_word_byte s =
    (let byte = np_text (sp_pipeline s) ! sp_read s;
         provenance = np_provenance (sp_pipeline s) ! sp_read s
     in s\<lparr>sp_pipeline := (sp_pipeline s)\<lparr>
            np_text := (np_text (sp_pipeline s))[sp_write s := byte],
            np_provenance := (np_provenance (sp_pipeline s))[sp_write s := provenance]\<rparr>,
          sp_has_pattern := sp_has_pattern s \<or>
            (provenance AND GSH_WORD_QUOTED = 0 \<and>
             (byte = CHR ''*'' \<or> byte = CHR ''?'' \<or> byte = CHR ''['')),
          sp_write := sp_write s + 1, sp_read := sp_read s + 1, sp_has_bytes := True\<rparr>)"

text \<open>One turn of the loop; a status other than \<open>GSH_NATIVE_PLAN_OK\<close> is returned.\<close>

definition split_step ::
  "byte list \<Rightarrow> nat \<Rightarrow> split_state \<Rightarrow> gsh_native_plan_status \<times> split_state" where
  "split_step ifs end_at s =
    (let byte = np_text (sp_pipeline s) ! sp_read s;
         provenance = np_provenance (sp_pipeline s) ! sp_read s
     in if provenance AND GSH_WORD_FIELD_BOUNDARY \<noteq> 0 then
          (case emit_if (sp_has_bytes s \<or> sp_has_quote s) s of
             (status, s) \<Rightarrow>
               if status \<noteq> GSH_NATIVE_PLAN_OK then (status, s)
               else (GSH_NATIVE_PLAN_OK, next_candidate (s\<lparr>sp_read := sp_read s + 1\<rparr>)))
        else if provenance AND GSH_WORD_EMPTY_MARKER \<noteq> 0 then
          (GSH_NATIVE_PLAN_OK, s\<lparr>
             sp_has_quote := sp_has_quote s \<or> provenance AND GSH_WORD_QUOTED \<noteq> 0,
             sp_read := sp_read s + 1\<rparr>)
        else if ifs \<noteq> [] \<and> split_delimiter (sp_pipeline s) (sp_read s) ifs then
          (case consume_ifs_delimiters (sp_pipeline s) end_at ifs (sp_read s + 1) byte of
             (nonwhite_seen, read) \<Rightarrow>
               (case emit_if (sp_has_bytes s \<or> nonwhite_seen) (s\<lparr>sp_read := read\<rparr>) of
                  (status, s) \<Rightarrow>
                    if status \<noteq> GSH_NATIVE_PLAN_OK then (status, s)
                    else (GSH_NATIVE_PLAN_OK, next_candidate s)))
        else (GSH_NATIVE_PLAN_OK, copy_word_byte s))"

lemma skip_white_le: "read \<le> skip_white pipeline end_at ifs read"
proof (induction pipeline end_at ifs read rule: skip_white.induct)
  case (1 pipeline end_at ifs read)
  then show ?case by (subst skip_white.simps) auto
qed

lemma consume_le: "consume_ifs_delimiters p e ifs r b = (x, r') \<Longrightarrow> r \<le> r'"
  using skip_white_le[of r p e ifs] skip_white_le[of "skip_white p e ifs r" p e ifs]
    skip_white_le[of "skip_white p e ifs r + 1" p e ifs]
  by (auto simp: consume_ifs_delimiters_def Let_def split: if_splits)

lemma emit_if_read [simp]: "emit_if b s = (status, t) \<Longrightarrow> sp_read t = sp_read s"
  by (auto simp: emit_if_def emit_expanded_field_def split: if_splits)

lemma split_step_reads:
  assumes "split_step ifs end_at s = (GSH_NATIVE_PLAN_OK, t)"
  shows "sp_read s < sp_read t"
proof -
  obtain x r where c: "consume_ifs_delimiters (sp_pipeline s) end_at ifs (sp_read s + 1)
      (np_text (sp_pipeline s) ! sp_read s) = (x, r)" by fastforce
  with consume_le[OF c] assms show ?thesis
    by (auto simp: split_step_def Let_def next_candidate_def copy_word_byte_def split: if_splits prod.splits)
qed

function split_loop ::
  "byte list \<Rightarrow> nat \<Rightarrow> split_state \<Rightarrow> gsh_native_plan_status \<times> split_state" where
  "split_loop ifs end_at s =
    (if sp_read s < end_at
     then
       (case split_step ifs end_at s of
          (status, t) \<Rightarrow>
            if status \<noteq> GSH_NATIVE_PLAN_OK then (status, t) else split_loop ifs end_at t)
     else
       (case emit_if (sp_has_bytes s \<or> sp_has_quote s) s of
          (status, s) \<Rightarrow>
            if status \<noteq> GSH_NATIVE_PLAN_OK then (status, s)
            else (GSH_NATIVE_PLAN_OK,
              s\<lparr>sp_pipeline := (sp_pipeline s)\<lparr>np_text_used := sp_write s\<rparr>\<rparr>)))"
  by pat_completeness auto
termination
proof (relation "measure (\<lambda>(ifs, end_at, s). end_at - sp_read s)", goal_cases)
  case (2 ifs end_at s status t)
  then have "split_step ifs end_at s = (GSH_NATIVE_PLAN_OK, t)" by simp
  from split_step_reads[OF this] 2(1) show ?case by simp
qed simp

declare split_loop.simps [simp del]

definition split_expanded_word ::
  "gsh_native_expansion_context option \<Rightarrow> gsh_native_pipeline \<Rightarrow> nat \<Rightarrow> nat \<Rightarrow>
    gsh_native_plan_status \<times> gsh_native_pipeline \<times> gsh_expanded_field list" where
  "split_expanded_word context pipeline begin_at len =
    (case expansion_field_separator context of
       (status, ifs) \<Rightarrow>
         if status \<noteq> GSH_NATIVE_PLAN_OK then (status, pipeline, [])
         else
           (case split_loop ifs (begin_at + len)
              \<lparr>sp_pipeline = pipeline, sp_fields = [], sp_read = begin_at, sp_write = begin_at,
               sp_field_begin = begin_at, sp_has_bytes = False, sp_has_quote = False,
               sp_has_pattern = False\<rparr> of
              (status, s) \<Rightarrow> (status, sp_pipeline s, sp_fields s)))"

section \<open>A reference for splitting\<close>

text \<open>The word as the list of its bytes with their provenance.\<close>

type_synonym word_byte = "byte \<times> provenance"

definition expanded_delimiter :: "byte list \<Rightarrow> word_byte \<Rightarrow> bool" where
  "expanded_delimiter ifs x \<longleftrightarrow> snd x AND GSH_WORD_EXPANDED \<noteq> 0 \<and> snd x AND GSH_WORD_QUOTED = 0 \<and>
    is_ifs_byte ifs (fst x)"

definition white_delimiter :: "byte list \<Rightarrow> word_byte \<Rightarrow> bool" where
  "white_delimiter ifs x \<longleftrightarrow> expanded_delimiter ifs x \<and> ifs_white_space (fst x)"

definition hard_delimiter :: "byte list \<Rightarrow> word_byte \<Rightarrow> bool" where
  "hard_delimiter ifs x \<longleftrightarrow> expanded_delimiter ifs x \<and> \<not> ifs_white_space (fst x)"

text \<open>The delimiters that go with a first one: whether one of them is not white space, and the rest
  of the word.\<close>

definition delimiter_run :: "byte list \<Rightarrow> byte \<Rightarrow> word_byte list \<Rightarrow> bool \<times> word_byte list" where
  "delimiter_run ifs first xs =
    (let ys = dropWhile (white_delimiter ifs) xs
     in if \<not> ifs_white_space first then (True, ys)
        else if ys \<noteq> [] \<and> hard_delimiter ifs (hd ys)
        then (True, dropWhile (white_delimiter ifs) (tl ys)) else (False, ys))"

lemma delimiter_run_length: "length (snd (delimiter_run ifs first xs)) \<le> length xs"
proof -
  have "length (dropWhile P (tl ys)) \<le> length ys" for P and ys :: "word_byte list"
    using length_dropWhile_le[of P "tl ys"] by simp
  then show ?thesis
    using length_dropWhile_le[of "white_delimiter ifs" xs] le_trans
    by (fastforce simp: delimiter_run_def Let_def)
qed

text \<open>The fields of a word, after the bytes and the quotes of the current one.\<close>

function fields_from :: "byte list \<Rightarrow> word_byte list \<Rightarrow> bool \<Rightarrow> word_byte list \<Rightarrow> word_byte list list" where
  "fields_from ifs current quoted [] = (if current \<noteq> [] \<or> quoted then [current] else [])"
| "fields_from ifs current quoted (x # xs) =
    (if snd x AND GSH_WORD_FIELD_BOUNDARY \<noteq> 0 then
       (if current \<noteq> [] \<or> quoted then [current] else []) @ fields_from ifs [] False xs
     else if snd x AND GSH_WORD_EMPTY_MARKER \<noteq> 0 then
       fields_from ifs current (quoted \<or> snd x AND GSH_WORD_QUOTED \<noteq> 0) xs
     else if ifs \<noteq> [] \<and> expanded_delimiter ifs x then
       (if current \<noteq> [] \<or> fst (delimiter_run ifs (fst x) xs) then [current] else []) @
       fields_from ifs [] False (snd (delimiter_run ifs (fst x) xs))
     else fields_from ifs (current @ [x]) quoted xs)"
  by pat_completeness auto
termination
  by (relation "measure (\<lambda>(ifs, current, quoted, xs). length xs)")
    (auto simp: less_Suc_eq_le delimiter_run_length)

declare fields_from.simps(2) [simp del]

definition word_fields :: "byte list \<Rightarrow> word_byte list \<Rightarrow> word_byte list list" where
  "word_fields ifs xs = fields_from ifs [] False xs"

section \<open>The text in place\<close>

definition word_span :: "gsh_native_pipeline \<Rightarrow> nat \<Rightarrow> nat \<Rightarrow> word_byte list" where
  "word_span p b e = zip (slice (np_text p) b e) (slice (np_provenance p) b e)"

definition buffer_ok :: "gsh_native_pipeline \<Rightarrow> bool" where
  "buffer_ok p \<longleftrightarrow> length (np_text p) = GSH_NATIVE_TEXT_CAP \<and> length (np_provenance p) = GSH_NATIVE_TEXT_CAP"

lemma span_Nil [simp]: "e \<le> b \<Longrightarrow> word_span p b e = []"
  by (simp add: word_span_def)

lemma span_Cons:
  "buffer_ok p \<Longrightarrow> b < e \<Longrightarrow> e \<le> GSH_NATIVE_TEXT_CAP \<Longrightarrow>
    word_span p b e = (np_text p ! b, np_provenance p ! b) # word_span p (b + 1) e"
  by (simp add: word_span_def buffer_ok_def slice_Suc)

lemma span_length: "buffer_ok p \<Longrightarrow> e \<le> GSH_NATIVE_TEXT_CAP \<Longrightarrow> length (word_span p b e) = e - b"
  by (simp add: word_span_def buffer_ok_def)

lemma slice_update_outside: "w < b \<or> e \<le> w \<Longrightarrow> slice (xs[w := v]) b e = slice xs b e"
  by (cases "w < b") (auto simp: slice_def drop_update_swap drop_update_cancel take_update_cancel)

definition write_byte :: "gsh_native_pipeline \<Rightarrow> nat \<Rightarrow> word_byte \<Rightarrow> gsh_native_pipeline" where
  "write_byte p w x = p\<lparr>np_text := (np_text p)[w := fst x], np_provenance := (np_provenance p)[w := snd x]\<rparr>"

lemma write_fields:
  "np_text (write_byte p w x) = (np_text p)[w := fst x]"
  "np_provenance (write_byte p w x) = (np_provenance p)[w := snd x]"
  "np_text_used (write_byte p w x) = np_text_used p"
  by (simp_all add: write_byte_def)

lemma write_outside: "w < b \<or> e \<le> w \<Longrightarrow> word_span (write_byte p w x) b e = word_span p b e"
  by (simp add: word_span_def write_byte_def slice_update_outside)

lemma write_ok [simp]: "buffer_ok (write_byte p w x) = buffer_ok p"
  by (simp add: buffer_ok_def write_byte_def)

lemma slice_update_end:
  assumes "f \<le> w" "w < length xs"
  shows "slice (xs[w := v]) f (w + 1) = slice xs f w @ [v]"
proof -
  have "slice (xs[w := v]) f (Suc w) = slice (xs[w := v]) f w @ [xs[w := v] ! w]"
    by (rule slice_snoc) (use assms in simp_all)
  then show ?thesis using assms by (simp add: slice_update_outside)
qed

lemma write_end:
  assumes "buffer_ok p" "f \<le> w" "w < GSH_NATIVE_TEXT_CAP"
  shows "word_span (write_byte p w x) f (w + 1) = word_span p f w @ [x]"
proof -
  have len: "w < length (np_text p)" "w < length (np_provenance p)"
    using assms(1,3) unfolding buffer_ok_def by (simp_all only:)
  have eq: "length (slice (np_text p) f w) = length (slice (np_provenance p) f w)"
    unfolding length_slice[OF less_imp_le[OF len(1)]] length_slice[OF less_imp_le[OF len(2)]] by (rule refl)
  have "word_span (write_byte p w x) f (w + 1) =
      zip (slice (np_text p) f w @ [fst x]) (slice (np_provenance p) f w @ [snd x])"
    unfolding word_span_def write_fields slice_update_end[OF assms(2) len(1)] slice_update_end[OF assms(2) len(2)]
    by (rule refl)
  also have "\<dots> = word_span p f w @ [x]"
    unfolding zip_append[OF eq] word_span_def by simp
  finally show ?thesis .
qed

text \<open>An unquoted byte of a pattern.\<close>

definition magic_byte :: "word_byte \<Rightarrow> bool" where
  "magic_byte x \<longleftrightarrow> snd x AND GSH_WORD_QUOTED = 0 \<and> fst x \<in> {CHR ''*'', CHR ''?'', CHR ''[''}"

text \<open>A field stands in the text, closed by NUL.\<close>

definition field_rep :: "gsh_native_pipeline \<Rightarrow> gsh_expanded_field \<Rightarrow> word_byte list \<Rightarrow> bool" where
  "field_rep p x f \<longleftrightarrow> xf_text x = xf_provenance_offset x \<and>
    xf_text x + xf_length x < GSH_NATIVE_TEXT_CAP \<and> length f = xf_length x \<and>
    word_span p (xf_text x) (xf_text x + xf_length x) = f \<and>
    np_text p ! (xf_text x + xf_length x) = NUL \<and>
    xf_has_pattern x = list_ex magic_byte f"

definition split_inv :: "nat \<Rightarrow> gsh_native_pipeline \<Rightarrow> split_state \<Rightarrow> word_byte list list \<Rightarrow> word_byte list \<Rightarrow> bool \<Rightarrow> bool" where
  "split_inv b p s R current quoted \<longleftrightarrow>
    buffer_ok (sp_pipeline s) \<and> b \<le> sp_field_begin s \<and> sp_field_begin s \<le> sp_write s \<and>
    sp_write s \<le> GSH_NATIVE_TEXT_CAP \<and>
    word_span (sp_pipeline s) (sp_field_begin s) (sp_write s) = current \<and>
    sp_has_bytes s = (current \<noteq> []) \<and> sp_has_quote s = quoted \<and>
    sp_has_pattern s = list_ex magic_byte current \<and>
    list_all2 (\<lambda>x f. field_rep (sp_pipeline s) x f \<and> b \<le> xf_text x \<and>
      xf_text x + xf_length x < sp_field_begin s) (sp_fields s) R \<and>
    take b (np_text (sp_pipeline s)) = take b (np_text p) \<and>
    take b (np_provenance (sp_pipeline s)) = take b (np_provenance p)"

lemma field_rep_write:
  assumes "field_rep p x f" "xf_text x + xf_length x < w"
  shows "field_rep (write_byte p w y) x f"
  using assms by (auto simp: field_rep_def write_outside write_fields)

lemma fields_write:
  assumes "list_all2 (\<lambda>x f. field_rep p x f \<and> b \<le> xf_text x \<and> xf_text x + xf_length x < n) fs R"
    "n \<le> w" "n \<le> m"
  shows "list_all2 (\<lambda>x f. field_rep (write_byte p w y) x f \<and> b \<le> xf_text x \<and> xf_text x + xf_length x < m) fs R"
  by (rule list_all2_mono[OF assms(1)]) (use assms(2,3) in \<open>auto intro!: field_rep_write\<close>)

lemma inv_write_before:
  assumes "take b (xs :: 'a list) = ys" "b \<le> w"
  shows "take b (xs[w := v]) = ys"
  using assms by (simp add: take_update_cancel)

lemma inv_next: "split_inv b p s R cur q \<Longrightarrow> split_inv b p (next_candidate s) R [] False"
  unfolding split_inv_def next_candidate_def
  by (auto elim!: list_all2_mono)

lemma inv_read [simp]: "split_inv b p (s\<lparr>sp_read := r\<rparr>) R cur q = split_inv b p s R cur q"
  by (simp add: split_inv_def)

lemma emit_spec:
  assumes inv: "split_inv b p s R cur q" and emit: "emit_expanded_field s = (status, t)"
  shows "status = GSH_NATIVE_PLAN_OK \<Longrightarrow> split_inv b p (next_candidate t) (R @ [cur]) [] False"
    "status = GSH_NATIVE_PLAN_OK \<Longrightarrow> sp_write t = sp_write s + 1 \<and> sp_read t = sp_read s \<and>
       np_text_used (sp_pipeline t) = np_text_used (sp_pipeline s)"
    "status = GSH_NATIVE_PLAN_OK \<Longrightarrow> sp_write s < r \<Longrightarrow> word_span (sp_pipeline t) r e = word_span (sp_pipeline s) r e"
    "status \<noteq> GSH_NATIVE_PLAN_OK \<Longrightarrow> status = GSH_NATIVE_PLAN_LIMIT \<and>
       (length R = GSH_NATIVE_ARGUMENT_CAP \<or> sp_write s = GSH_NATIVE_TEXT_CAP)"
proof -
  have len: "length (sp_fields s) = length R" using inv by (auto simp: split_inv_def dest: list_all2_lengthD)
  show "status \<noteq> GSH_NATIVE_PLAN_OK \<Longrightarrow> status = GSH_NATIVE_PLAN_LIMIT \<and>
      (length R = GSH_NATIVE_ARGUMENT_CAP \<or> sp_write s = GSH_NATIVE_TEXT_CAP)"
    using emit len by (auto simp: emit_expanded_field_def split: if_splits)
  assume ok: "status = GSH_NATIVE_PLAN_OK"
  let ?x = "\<lparr>xf_text = sp_field_begin s, xf_provenance_offset = sp_field_begin s,
    xf_length = sp_write s - sp_field_begin s, xf_has_pattern = sp_has_pattern s\<rparr>"
  have room: "sp_write s \<noteq> GSH_NATIVE_TEXT_CAP" and
    t: "t = s\<lparr>sp_fields := sp_fields s @ [?x], sp_pipeline := write_byte (sp_pipeline s) (sp_write s) (NUL, 0),
      sp_write := sp_write s + 1\<rparr>"
    using emit ok by (auto simp: emit_expanded_field_def write_byte_def split: if_splits)
  have i: "buffer_ok (sp_pipeline s)" "b \<le> sp_field_begin s" "sp_field_begin s \<le> sp_write s"
    "sp_write s < GSH_NATIVE_TEXT_CAP" "word_span (sp_pipeline s) (sp_field_begin s) (sp_write s) = cur"
    "sp_has_pattern s = list_ex magic_byte cur"
    using inv room by (auto simp: split_inv_def)
  have "length cur = sp_write s - sp_field_begin s"
    using span_length[OF i(1), of "sp_write s" "sp_field_begin s"] i(4,5) by simp
  then have "field_rep (write_byte (sp_pipeline s) (sp_write s) (NUL, 0)) ?x cur"
    using i by (auto simp: field_rep_def write_outside) (auto simp: write_byte_def buffer_ok_def)
  moreover have "list_all2 (\<lambda>x f. field_rep (write_byte (sp_pipeline s) (sp_write s) (NUL, 0)) x f \<and>
      b \<le> xf_text x \<and> xf_text x + xf_length x < sp_write s + 1) (sp_fields s) R"
    using inv i(3) by (intro fields_write) (auto simp: split_inv_def)
  ultimately show "split_inv b p (next_candidate t) (R @ [cur]) [] False"
    using inv i by (auto simp: split_inv_def t next_candidate_def write_byte_def take_update_cancel
        buffer_ok_def intro!: list_all2_appendI)
  show "sp_write t = sp_write s + 1 \<and> sp_read t = sp_read s \<and>
      np_text_used (sp_pipeline t) = np_text_used (sp_pipeline s)" by (simp add: t write_byte_def)
  show "sp_write s < r \<Longrightarrow> word_span (sp_pipeline t) r e = word_span (sp_pipeline s) r e"
    by (simp add: t write_outside)
qed

lemma copy_spec:
  assumes inv: "split_inv b p s R cur q" and pos: "sp_write s \<le> sp_read s" "sp_read s < GSH_NATIVE_TEXT_CAP"
  defines "x \<equiv> (np_text (sp_pipeline s) ! sp_read s, np_provenance (sp_pipeline s) ! sp_read s)"
  shows "split_inv b p (copy_word_byte s) R (cur @ [x]) q"
    "sp_write (copy_word_byte s) = sp_write s + 1" "sp_read (copy_word_byte s) = sp_read s + 1"
    "sp_write s < r \<Longrightarrow> word_span (sp_pipeline (copy_word_byte s)) r e = word_span (sp_pipeline s) r e"
proof -
  have t: "copy_word_byte s = s\<lparr>sp_pipeline := write_byte (sp_pipeline s) (sp_write s) x,
      sp_has_pattern := sp_has_pattern s \<or> magic_byte x,
      sp_write := sp_write s + 1, sp_read := sp_read s + 1, sp_has_bytes := True\<rparr>"
    by (auto simp: copy_word_byte_def Let_def write_byte_def x_def magic_byte_def)
  have i: "buffer_ok (sp_pipeline s)" "b \<le> sp_field_begin s" "sp_field_begin s \<le> sp_write s"
    "sp_write s < GSH_NATIVE_TEXT_CAP" "word_span (sp_pipeline s) (sp_field_begin s) (sp_write s) = cur"
    using inv pos by (auto simp: split_inv_def)
  have "list_all2 (\<lambda>x f. field_rep (write_byte (sp_pipeline s) (sp_write s) x') x f \<and>
      b \<le> xf_text x \<and> xf_text x + xf_length x < sp_field_begin s) (sp_fields s) R" for x'
    using inv i(3) by (intro fields_write) (auto simp: split_inv_def)
  moreover have "word_span (write_byte (sp_pipeline s) (sp_write s) x) (sp_field_begin s) (sp_write s + 1) = cur @ [x]"
    using write_end[OF i(1,3,4), of x] i(5) by simp
  ultimately show "split_inv b p (copy_word_byte s) R (cur @ [x]) q"
    using inv i by (auto simp: split_inv_def t write_fields take_update_cancel)
  show "sp_write (copy_word_byte s) = sp_write s + 1" "sp_read (copy_word_byte s) = sp_read s + 1"
    "sp_write s < r \<Longrightarrow> word_span (sp_pipeline (copy_word_byte s)) r e = word_span (sp_pipeline s) r e"
    by (simp_all add: t write_outside)
qed

lemma skip_white_spec:
  assumes "buffer_ok p" "e \<le> GSH_NATIVE_TEXT_CAP" "r \<le> e"
  shows "skip_white p e ifs r \<le> e \<and>
    word_span p (skip_white p e ifs r) e = dropWhile (white_delimiter ifs) (word_span p r e)"
  using assms
proof (induction p e ifs r rule: skip_white.induct)
  case (1 p e ifs r)
  have white: "white_delimiter ifs (np_text p ! r, np_provenance p ! r) \<longleftrightarrow>
      split_delimiter p r ifs \<and> ifs_white_space (np_text p ! r)"
    by (simp add: white_delimiter_def expanded_delimiter_def split_delimiter_def Let_def)
  show ?case
  proof (cases "r < e")
    case True
    note cons = span_Cons[OF 1(2) True 1(3)]
    show ?thesis
    proof (cases "split_delimiter p r ifs \<and> ifs_white_space (np_text p ! r)")
      case skip: True
      with 1 True have "skip_white p e ifs (r + 1) \<le> e \<and>
          word_span p (skip_white p e ifs (r + 1)) e = dropWhile (white_delimiter ifs) (word_span p (r + 1) e)"
        by simp
      with skip True show ?thesis by (subst (1 2) skip_white.simps) (simp add: cons white)
    next
      case False
      with True show ?thesis by (subst (1 2) skip_white.simps) (auto simp: cons white)
    qed
  next
    case False
    with 1(4) show ?thesis by (subst (1 2) skip_white.simps) simp
  qed
qed

lemma consume_spec:
  assumes ok: "buffer_ok p" "e \<le> GSH_NATIVE_TEXT_CAP" "r \<le> e"
    and run: "consume_ifs_delimiters p e ifs r first = (hard, r')"
  shows "r' \<le> e" "delimiter_run ifs first (word_span p r e) = (hard, word_span p r' e)"
proof -
  let ?r = "skip_white p e ifs r"
  have skip: "?r \<le> e" "word_span p ?r e = dropWhile (white_delimiter ifs) (word_span p r e)"
    using skip_white_spec[OF ok] by simp_all
  have idle: "skip_white p e ifs ?r = ?r"
  proof -
    have "\<not> (?r < e \<and> split_delimiter p ?r ifs \<and> ifs_white_space (np_text p ! ?r))"
    proof
      assume a: "?r < e \<and> split_delimiter p ?r ifs \<and> ifs_white_space (np_text p ! ?r)"
      then have "word_span p ?r e \<noteq> []" "white_delimiter ifs (hd (word_span p ?r e))"
        using span_Cons[OF ok(1) _ ok(2), of ?r]
        by (simp_all add: white_delimiter_def expanded_delimiter_def split_delimiter_def Let_def)
      then show False using hd_dropWhile[of "white_delimiter ifs" "word_span p r e"] skip(2) by simp
    qed
    then show ?thesis by (subst skip_white.simps) (rule if_not_P)
  qed
  have head: "word_span p ?r e \<noteq> [] \<longleftrightarrow> ?r < e" "?r < e \<Longrightarrow> tl (word_span p ?r e) = word_span p (?r + 1) e"
    "?r < e \<Longrightarrow> hard_delimiter ifs (hd (word_span p ?r e)) \<longleftrightarrow> split_delimiter p ?r ifs \<and> \<not> ifs_white_space (np_text p ! ?r)"
    using span_Cons[OF ok(1) _ ok(2), of ?r] skip(1)
    by (cases "?r < e"; simp add: hard_delimiter_def expanded_delimiter_def split_delimiter_def Let_def)+
  have next': "?r < e \<Longrightarrow> skip_white p e ifs (?r + 1) \<le> e \<and>
      word_span p (skip_white p e ifs (?r + 1)) e = dropWhile (white_delimiter ifs) (word_span p (?r + 1) e)"
    using skip_white_spec[OF ok(1,2), of "?r + 1"] by simp
  show "r' \<le> e" using run skip(1) next' idle
    by (auto simp: consume_ifs_delimiters_def Let_def split: if_splits)
  show "delimiter_run ifs first (word_span p r e) = (hard, word_span p r' e)"
    using run head next' idle unfolding delimiter_run_def skip(2)[symmetric] Let_def
    by (auto simp: consume_ifs_delimiters_def Let_def split: if_splits)
qed

section \<open>Splitting in place is splitting\<close>

definition fields_left :: "byte list \<Rightarrow> nat \<Rightarrow> split_state \<Rightarrow> word_byte list list \<Rightarrow> word_byte list \<Rightarrow> bool \<Rightarrow> word_byte list list" where
  "fields_left ifs e s R cur q = R @ fields_from ifs cur q (word_span (sp_pipeline s) (sp_read s) e)"

text \<open>A turn that goes on, and one that stops because there is no room for a field.\<close>

definition turn_ok :: "byte list \<Rightarrow> nat \<Rightarrow> nat \<Rightarrow> gsh_native_pipeline \<Rightarrow> word_byte list list \<Rightarrow>
    gsh_native_plan_status \<times> split_state \<Rightarrow> bool" where
  "turn_ok ifs e b p F result \<longleftrightarrow>
    (case result of (status, t) \<Rightarrow>
       if status = GSH_NATIVE_PLAN_OK
       then (\<exists>R cur q. split_inv b p t R cur q \<and> sp_write t \<le> sp_read t \<and> sp_read t \<le> e \<and>
         fields_left ifs e t R cur q = F)
       else status = GSH_NATIVE_PLAN_LIMIT \<and> GSH_NATIVE_ARGUMENT_CAP < length F)"

lemma turn_okI:
  "split_inv b p t R cur q \<Longrightarrow> sp_write t \<le> sp_read t \<Longrightarrow> sp_read t \<le> e \<Longrightarrow>
    fields_left ifs e t R cur q = F \<Longrightarrow> turn_ok ifs e b p F (GSH_NATIVE_PLAN_OK, t)"
  unfolding turn_ok_def by auto

lemma emit_turn:
  assumes inv: "split_inv b p s R cur q" and e: "sp_write s < r" "r \<le> e" "e \<le> GSH_NATIVE_TEXT_CAP"
    and present: "\<not> present \<Longrightarrow> cur = []"
    and emit: "emit_if present s = (status, t)"
  shows "turn_ok ifs e b p (R @ (if present then [cur] else []) @ fields_from ifs [] False (word_span (sp_pipeline s) r e))
    (status, next_candidate (t\<lparr>sp_read := r\<rparr>))"
proof (cases present)
  case False
  then have t: "t = s" "status = GSH_NATIVE_PLAN_OK" using emit by (simp_all add: emit_if_def)
  have "split_inv b p (next_candidate (s\<lparr>sp_read := r\<rparr>)) R [] False"
    using inv by (intro inv_next[of b p _ R cur q]) simp
  then show ?thesis unfolding t
    by (rule turn_okI) (use False e in \<open>simp_all add: fields_left_def next_candidate_def\<close>)
next
  case True
  then have run: "emit_expanded_field s = (status, t)" using emit by (simp add: emit_if_def)
  note spec = emit_spec[OF inv run]
  show ?thesis
  proof (cases "status = GSH_NATIVE_PLAN_OK")
    case ok: True
    have "split_inv b p (next_candidate (t\<lparr>sp_read := r\<rparr>)) (R @ [cur]) [] False"
      using spec(1)[OF ok] by (simp add: next_candidate_def split_inv_def)
    then show ?thesis unfolding ok
      by (rule turn_okI)
        (use True e spec(2)[OF ok] spec(3)[OF ok e(1)] in \<open>simp_all add: fields_left_def next_candidate_def\<close>)
  next
    case False
    with spec(4) e True show ?thesis by (auto simp: turn_ok_def)
  qed
qed

lemma split_step_spec:
  assumes inv: "split_inv b p s R cur q" and pos: "sp_write s \<le> sp_read s" "sp_read s < e" "e \<le> GSH_NATIVE_TEXT_CAP"
  shows "turn_ok ifs e b p (fields_left ifs e s R cur q) (split_step ifs e s)"
proof -
  let ?p = "sp_pipeline s" and ?r = "sp_read s"
  define x where "x = (np_text ?p ! ?r, np_provenance ?p ! ?r)"
  have ok: "buffer_ok ?p" and flags: "sp_has_bytes s = (cur \<noteq> [])" "sp_has_quote s = q"
    using inv by (simp_all add: split_inv_def)
  have cons: "word_span ?p ?r e = x # word_span ?p (?r + 1) e"
    using span_Cons[OF ok pos(2,3)] by (simp add: x_def)
  have delim: "split_delimiter ?p ?r ifs \<longleftrightarrow> expanded_delimiter ifs x"
    by (simp add: split_delimiter_def expanded_delimiter_def x_def Let_def)
  have step: "split_step ifs e s =
    (if snd x AND GSH_WORD_FIELD_BOUNDARY \<noteq> 0 then
       (case emit_if (cur \<noteq> [] \<or> q) s of
          (status, s) \<Rightarrow> if status \<noteq> GSH_NATIVE_PLAN_OK then (status, s)
            else (GSH_NATIVE_PLAN_OK, next_candidate (s\<lparr>sp_read := sp_read s + 1\<rparr>)))
     else if snd x AND GSH_WORD_EMPTY_MARKER \<noteq> 0 then
       (GSH_NATIVE_PLAN_OK, s\<lparr>sp_has_quote := q \<or> snd x AND GSH_WORD_QUOTED \<noteq> 0, sp_read := ?r + 1\<rparr>)
     else if ifs \<noteq> [] \<and> expanded_delimiter ifs x then
       (case consume_ifs_delimiters ?p e ifs (?r + 1) (fst x) of
          (hard, read) \<Rightarrow>
            (case emit_if (cur \<noteq> [] \<or> hard) (s\<lparr>sp_read := read\<rparr>) of
               (status, s) \<Rightarrow> if status \<noteq> GSH_NATIVE_PLAN_OK then (status, s)
                 else (GSH_NATIVE_PLAN_OK, next_candidate s)))
     else (GSH_NATIVE_PLAN_OK, copy_word_byte s))"
    unfolding split_step_def Let_def delim x_def flags by simp
  consider (boundary) "snd x AND GSH_WORD_FIELD_BOUNDARY \<noteq> 0"
    | (marker) "snd x AND GSH_WORD_FIELD_BOUNDARY = 0" "snd x AND GSH_WORD_EMPTY_MARKER \<noteq> 0"
    | (delimiter) "snd x AND GSH_WORD_FIELD_BOUNDARY = 0" "snd x AND GSH_WORD_EMPTY_MARKER = 0"
        "ifs \<noteq> [] \<and> expanded_delimiter ifs x"
    | (byte) "snd x AND GSH_WORD_FIELD_BOUNDARY = 0" "snd x AND GSH_WORD_EMPTY_MARKER = 0"
        "\<not> (ifs \<noteq> [] \<and> expanded_delimiter ifs x)"
    by blast
  then show ?thesis
  proof cases
    case boundary
    obtain status t where emit: "emit_if (cur \<noteq> [] \<or> q) s = (status, t)" by fastforce
    have read: "sp_read t = ?r" using emit_if_read[OF emit] .
    have "split_step ifs e s = (if status \<noteq> GSH_NATIVE_PLAN_OK then (status, t)
        else (GSH_NATIVE_PLAN_OK, next_candidate (t\<lparr>sp_read := ?r + 1\<rparr>)))"
      using step boundary emit read by simp
    moreover have "turn_ok ifs e b p (fields_left ifs e s R cur q) (status, next_candidate (t\<lparr>sp_read := ?r + 1\<rparr>))"
      using emit_turn[OF inv _ _ pos(3) _ emit, of "?r + 1" ifs] pos boundary
      by (auto simp: fields_left_def cons fields_from.simps(2))
    ultimately show ?thesis by (auto simp: turn_ok_def)
  next
    case marker
    let ?t = "s\<lparr>sp_has_quote := q \<or> snd x AND GSH_WORD_QUOTED \<noteq> 0, sp_read := ?r + 1\<rparr>"
    have "split_step ifs e s = (GSH_NATIVE_PLAN_OK, ?t)" using step marker by simp
    moreover have "split_inv b p ?t R cur (q \<or> snd x AND GSH_WORD_QUOTED \<noteq> 0)"
      using inv by (simp add: split_inv_def)
    moreover have "fields_left ifs e ?t R cur (q \<or> snd x AND GSH_WORD_QUOTED \<noteq> 0) = fields_left ifs e s R cur q"
      using marker by (simp add: fields_left_def cons fields_from.simps(2))
    ultimately show ?thesis using pos unfolding turn_ok_def by (auto intro!: exI)
  next
    case delimiter
    obtain hard read where consume: "consume_ifs_delimiters ?p e ifs (?r + 1) (fst x) = (hard, read)" by fastforce
    have run: "read \<le> e" "delimiter_run ifs (fst x) (word_span ?p (?r + 1) e) = (hard, word_span ?p read e)"
      using consume_spec[OF ok pos(3) _ consume] pos(2) by simp_all
    have "?r < read" using consume_le[OF consume] by simp
    obtain status t where emit: "emit_if (cur \<noteq> [] \<or> hard) (s\<lparr>sp_read := read\<rparr>) = (status, t)" by fastforce
    have read: "sp_read t = read" using emit_if_read[OF emit] by simp
    have "split_step ifs e s = (if status \<noteq> GSH_NATIVE_PLAN_OK then (status, t)
        else (GSH_NATIVE_PLAN_OK, next_candidate t))"
      using step delimiter consume emit by simp
    moreover have "fields_left ifs e s R cur q =
        R @ (if cur \<noteq> [] \<or> hard then [cur] else []) @ fields_from ifs [] False (word_span ?p read e)"
      using delimiter by (simp add: fields_left_def cons fields_from.simps(2) run(2)[simplified])
    then have "turn_ok ifs e b p (fields_left ifs e s R cur q) (status, next_candidate (t\<lparr>sp_read := read\<rparr>))"
      using emit_turn[of b p "s\<lparr>sp_read := read\<rparr>" R cur q read e _ status t ifs, OF _ _ run(1) pos(3) _ emit]
        inv pos(1) \<open>?r < read\<close> by simp
    moreover have "t\<lparr>sp_read := read\<rparr> = t" using read by simp
    ultimately show ?thesis by (auto simp: turn_ok_def)
  next
    case byte
    have r: "?r < GSH_NATIVE_TEXT_CAP" using pos(2,3) by simp
    note copy = copy_spec[OF inv pos(1) r]
    have "split_step ifs e s = (GSH_NATIVE_PLAN_OK, copy_word_byte s)" using step byte by simp
    moreover have "fields_left ifs e (copy_word_byte s) R (cur @ [x]) q = fields_left ifs e s R cur q"
      using byte copy(3) copy(4)[of "?r + 1" e] pos(1) by (auto simp: fields_left_def cons fields_from.simps(2))
    ultimately show ?thesis using copy(1-3) pos unfolding turn_ok_def x_def[symmetric] by (auto intro!: exI)
  qed
qed

text \<open>The fields of the result, one behind the other between two offsets.\<close>

definition fields_stand :: "gsh_native_pipeline \<Rightarrow> nat \<Rightarrow> gsh_expanded_field list \<Rightarrow> word_byte list list \<Rightarrow> bool" where
  "fields_stand p b xs F \<longleftrightarrow> list_all2 (field_rep p) xs F \<and>
    (\<forall>x \<in> set xs. b \<le> xf_text x \<and> xf_text x + xf_length x < np_text_used p)"

lemma inv_stands:
  assumes "split_inv b p s R cur q" "sp_field_begin s \<le> n"
  shows "fields_stand ((sp_pipeline s)\<lparr>np_text_used := n\<rparr>) b (sp_fields s) R"
proof -
  have all: "list_all2 (\<lambda>x f. field_rep (sp_pipeline s) x f \<and> b \<le> xf_text x \<and>
      xf_text x + xf_length x < sp_field_begin s) (sp_fields s) R" using assms(1) by (simp add: split_inv_def)
  have "field_rep ((sp_pipeline s)\<lparr>np_text_used := n\<rparr>) x f = field_rep (sp_pipeline s) x f" for x f
    by (simp add: field_rep_def word_span_def)
  then have "list_all2 (field_rep ((sp_pipeline s)\<lparr>np_text_used := n\<rparr>)) (sp_fields s) R"
    using all by (auto elim!: list_all2_mono)
  moreover have "\<forall>x \<in> set (sp_fields s). b \<le> xf_text x \<and> xf_text x + xf_length x < sp_field_begin s"
    using all by (fastforce simp: list_all2_conv_all_nth in_set_conv_nth)
  ultimately show ?thesis using assms(2) by (fastforce simp: fields_stand_def)
qed

lemma inv_final:
  assumes "split_inv b p s R cur q" "sp_field_begin s \<le> n" "n \<le> e + 1"
    "t = (sp_pipeline s)\<lparr>np_text_used := n\<rparr>"
  shows "fields_stand t b (sp_fields s) R \<and> buffer_ok t \<and> np_text_used t \<le> e + 1 \<and>
    take b (np_text t) = take b (np_text p) \<and> take b (np_provenance t) = take b (np_provenance p)"
proof -
  have "buffer_ok t" "take b (np_text t) = take b (np_text p)" "take b (np_provenance t) = take b (np_provenance p)"
    using assms(1) by (simp_all add: split_inv_def buffer_ok_def assms(4))
  moreover have "fields_stand t b (sp_fields s) R" unfolding assms(4) by (rule inv_stands[OF assms(1,2)])
  ultimately show ?thesis using assms(3) by (simp add: assms(4))
qed

lemma split_loop_spec:
  assumes "split_inv b p s R cur q" "sp_write s \<le> sp_read s" "sp_read s \<le> e" "e \<le> GSH_NATIVE_TEXT_CAP"
    "split_loop ifs e s = (status, t)"
  shows "if status = GSH_NATIVE_PLAN_OK
    then fields_stand (sp_pipeline t) b (sp_fields t) (fields_left ifs e s R cur q) \<and>
      buffer_ok (sp_pipeline t) \<and> np_text_used (sp_pipeline t) \<le> e + 1 \<and>
      take b (np_text (sp_pipeline t)) = take b (np_text p) \<and>
      take b (np_provenance (sp_pipeline t)) = take b (np_provenance p)
    else status = GSH_NATIVE_PLAN_LIMIT \<and>
      (GSH_NATIVE_ARGUMENT_CAP < length (fields_left ifs e s R cur q) \<or> e = GSH_NATIVE_TEXT_CAP)"
  using assms
proof (induction ifs e s arbitrary: R cur q rule: split_loop.induct)
  case (1 ifs e s)
  show ?case
  proof (cases "sp_read s < e")
    case True
    obtain st u where step: "split_step ifs e s = (st, u)" by fastforce
    have turn: "turn_ok ifs e b p (fields_left ifs e s R cur q) (st, u)"
      using split_step_spec[OF 1(2,3) True 1(5), of ifs] step by simp
    show ?thesis
    proof (cases "st = GSH_NATIVE_PLAN_OK")
      case ok: True
      with turn obtain R' cur' q' where u: "split_inv b p u R' cur' q'" "sp_write u \<le> sp_read u" "sp_read u \<le> e"
        "fields_left ifs e u R' cur' q' = fields_left ifs e s R cur q" by (auto simp: turn_ok_def)
      have "split_loop ifs e u = (status, t)"
        using 1(6) True step ok by (subst (asm) split_loop.simps) simp
      from 1(1)[OF True step[symmetric] _ u(1-3) 1(5) this] ok show ?thesis unfolding u(4) by blast
    next
      case False
      then have "status = st" using 1(6) True step by (subst (asm) split_loop.simps) simp
      with turn False show ?thesis by (simp add: turn_ok_def)
    qed
  next
    case False
    then have read: "sp_read s = e" using 1(4) by simp
    have flags: "sp_has_bytes s = (cur \<noteq> [])" "sp_has_quote s = q" using 1(2) by (simp_all add: split_inv_def)
    have F: "fields_left ifs e s R cur q = R @ (if cur \<noteq> [] \<or> q then [cur] else [])"
      by (simp add: fields_left_def read)
    obtain st u where emit: "emit_if (cur \<noteq> [] \<or> q) s = (st, u)" by fastforce
    have result: "(status, t) = (if st \<noteq> GSH_NATIVE_PLAN_OK then (st, u)
        else (GSH_NATIVE_PLAN_OK, u\<lparr>sp_pipeline := (sp_pipeline u)\<lparr>np_text_used := sp_write u\<rparr>\<rparr>))"
      using 1(6) False emit flags by (subst (asm) split_loop.simps) simp
    show ?thesis
    proof (cases "cur \<noteq> [] \<or> q")
      case none: False
      then have "st = GSH_NATIVE_PLAN_OK" "u = s" using emit by (simp_all add: emit_if_def)
      with result have t: "status = GSH_NATIVE_PLAN_OK" "sp_fields t = sp_fields s"
        "sp_pipeline t = (sp_pipeline s)\<lparr>np_text_used := sp_write s\<rparr>" by simp_all
      have bounds: "sp_field_begin s \<le> sp_write s" "sp_write s \<le> e + 1"
        using 1(2,3) read by (simp_all add: split_inv_def)
      have "fields_left ifs e s R cur q = R" using F none by simp
      then show ?thesis using inv_final[OF 1(2) bounds t(3)] unfolding t(1,2) by (simp only: if_P)
    next
      case some: True
      then have run: "emit_expanded_field s = (st, u)" using emit by (simp add: emit_if_def)
      note spec = emit_spec[OF 1(2) run]
      show ?thesis
      proof (cases "st = GSH_NATIVE_PLAN_OK")
        case ok: True
        have inv: "split_inv b p (next_candidate u) (R @ [cur]) [] False" by (rule spec(1)[OF ok])
        from result ok have t: "status = GSH_NATIVE_PLAN_OK" "sp_fields t = sp_fields (next_candidate u)"
          "sp_pipeline t = (sp_pipeline (next_candidate u))\<lparr>np_text_used := sp_write u\<rparr>"
          by (simp_all add: next_candidate_def)
        have bounds: "sp_field_begin (next_candidate u) \<le> sp_write u" "sp_write u \<le> e + 1"
          using spec(2)[OF ok] 1(3) read by (simp_all add: next_candidate_def)
        have "fields_left ifs e s R cur q = R @ [cur]" using F some by simp
        then show ?thesis using inv_final[OF inv bounds t(3)] unfolding t(1,2) by (simp only: if_P)
      next
        case False
        then have "status = GSH_NATIVE_PLAN_LIMIT" "length R = GSH_NATIVE_ARGUMENT_CAP \<or> sp_write s = GSH_NATIVE_TEXT_CAP"
          using spec(4) result by simp_all
        moreover have "length (fields_left ifs e s R cur q) = length R + 1" using F some by simp
        moreover have "sp_write s \<le> e" using 1(3) read by simp
        ultimately show ?thesis using 1(5) by auto
      qed
    qed
  qed
qed

lemma splitting_refines_core:
  assumes "buffer_ok pipeline" "begin_at + len \<le> GSH_NATIVE_TEXT_CAP"
    "expansion_field_separator context = (GSH_NATIVE_PLAN_OK, ifs)"
    "split_expanded_word context pipeline begin_at len = (status, pipeline', xs)"
  shows "if status = GSH_NATIVE_PLAN_OK
    then fields_stand pipeline' begin_at xs (word_fields ifs (word_span pipeline begin_at (begin_at + len))) \<and>
      buffer_ok pipeline' \<and> np_text_used pipeline' \<le> begin_at + len + 1 \<and>
      take begin_at (np_text pipeline') = take begin_at (np_text pipeline) \<and>
      take begin_at (np_provenance pipeline') = take begin_at (np_provenance pipeline)
    else status = GSH_NATIVE_PLAN_LIMIT \<and>
      (GSH_NATIVE_ARGUMENT_CAP < length (word_fields ifs (word_span pipeline begin_at (begin_at + len))) \<or>
       begin_at + len = GSH_NATIVE_TEXT_CAP)"
proof -
  let ?s = "\<lparr>sp_pipeline = pipeline, sp_fields = [], sp_read = begin_at, sp_write = begin_at,
    sp_field_begin = begin_at, sp_has_bytes = False, sp_has_quote = False, sp_has_pattern = False\<rparr>"
  obtain t where loop: "split_loop ifs (begin_at + len) ?s = (status, t)" and
    t: "pipeline' = sp_pipeline t" "xs = sp_fields t"
    using assms(3,4) by (auto simp: split_expanded_word_def split: prod.splits)
  have "split_inv begin_at pipeline ?s [] [] False" using assms(1,2) by (simp add: split_inv_def)
  note spec = split_loop_spec[OF this _ _ assms(2) loop]
  have "fields_left ifs (begin_at + len) ?s [] [] False = word_fields ifs (word_span pipeline begin_at (begin_at + len))"
    by (simp add: fields_left_def word_fields_def)
  from spec[unfolded this] show ?thesis unfolding t by simp
qed

text \<open>C27. Field splitting, done in place in the buffer of the pipeline, computes the fields of the
  reference: they stand in the buffer one behind the other, each closed by NUL, with their bytes,
  their provenance and whether one of them is an unquoted pattern character, and what stands in
  front of the word is not touched. It fails only when there are more than 128 fields or the word
  reaches the end of the buffer.\<close>

theorem splitting_refines:
  assumes "buffer_ok pipeline" "begin_at + len \<le> GSH_NATIVE_TEXT_CAP"
    "expansion_field_separator context = (GSH_NATIVE_PLAN_OK, ifs)"
    "split_expanded_word context pipeline begin_at len = (status, pipeline', xs)"
  shows "if status = GSH_NATIVE_PLAN_OK
    then fields_stand pipeline' begin_at xs (word_fields ifs (word_span pipeline begin_at (begin_at + len))) \<and>
      buffer_ok pipeline' \<and> np_text_used pipeline' \<le> begin_at + len + 1 \<and>
      take begin_at (np_text pipeline') = take begin_at (np_text pipeline) \<and>
      take begin_at (np_provenance pipeline') = take begin_at (np_provenance pipeline)
    else status = GSH_NATIVE_PLAN_LIMIT \<and>
      (GSH_NATIVE_ARGUMENT_CAP < length (word_fields ifs (word_span pipeline begin_at (begin_at + len))) \<or>
       begin_at + len = GSH_NATIVE_TEXT_CAP)"
  using assms by (rule splitting_refines_core)

section \<open>What splitting does to a word\<close>

definition field_text :: "gsh_native_pipeline \<Rightarrow> gsh_expanded_field \<Rightarrow> byte list" where
  "field_text p x = slice (np_text p) (xf_text x) (xf_text x + xf_length x)"

lemma field_rep_text: "field_rep p x f \<Longrightarrow> buffer_ok p \<Longrightarrow> field_text p x = map fst f"
  by (auto simp: field_rep_def field_text_def word_span_def buffer_ok_def)

lemma stand_texts:
  assumes "fields_stand p b xs F" "buffer_ok p"
  shows "map (field_text p) xs = map (map fst) F"
proof -
  have "list_all2 (\<lambda>x f. field_text p x = map fst f) xs F"
    using assms field_rep_text by (auto simp: fields_stand_def elim!: list_all2_mono)
  then show ?thesis by (induction xs F rule: list_all2_induct) simp_all
qed

text \<open>Splitting that has room.\<close>

lemma splitting_texts:
  assumes "buffer_ok pipeline" "begin_at + len < GSH_NATIVE_TEXT_CAP"
    "expansion_field_separator context = (GSH_NATIVE_PLAN_OK, ifs)"
    "split_expanded_word context pipeline begin_at len = (status, pipeline', xs)"
    "length (word_fields ifs (word_span pipeline begin_at (begin_at + len))) \<le> GSH_NATIVE_ARGUMENT_CAP"
  shows "status = GSH_NATIVE_PLAN_OK \<and>
    map (field_text pipeline') xs = map (map fst) (word_fields ifs (word_span pipeline begin_at (begin_at + len)))"
proof -
  have le: "begin_at + len \<le> GSH_NATIVE_TEXT_CAP" using assms(2) by simp
  have "status = GSH_NATIVE_PLAN_OK"
    using splitting_refines_core[OF assms(1) le assms(3,4)] assms(2,5) by (auto split: if_splits)
  then show ?thesis using splitting_refines_core[OF assms(1) le assms(3,4)] stand_texts by auto
qed

text \<open>A word that is quoted throughout. The boundary markers between the positional parameters of
  \<open>"$@"\<close> cut it into segments; markers are no bytes of a field.\<close>

definition quoted_word :: "word_byte list \<Rightarrow> bool" where
  "quoted_word w \<longleftrightarrow> (\<forall>x \<in> set w. snd x AND GSH_WORD_QUOTED \<noteq> 0)"

fun segments :: "word_byte list \<Rightarrow> word_byte list list" where
  "segments [] = [[]]"
| "segments (x # xs) =
    (if snd x AND GSH_WORD_FIELD_BOUNDARY \<noteq> 0 then [] # segments xs
     else (x # hd (segments xs)) # tl (segments xs))"

definition segment_bytes :: "word_byte list \<Rightarrow> word_byte list" where
  "segment_bytes s = filter (\<lambda>x. snd x AND GSH_WORD_EMPTY_MARKER = 0) s"

definition quoted_fields :: "word_byte list \<Rightarrow> word_byte list list" where
  "quoted_fields w = map segment_bytes (filter (\<lambda>s. s \<noteq> []) (segments w))"

lemma segments_split: "segments w = hd (segments w) # tl (segments w)"
  by (cases w) simp_all

lemma fields_from_quoted:
  "quoted_word w \<Longrightarrow> fields_from ifs cur q w =
    (if cur \<noteq> [] \<or> q \<or> hd (segments w) \<noteq> [] then [cur @ segment_bytes (hd (segments w))] else []) @
    map segment_bytes (filter (\<lambda>s. s \<noteq> []) (tl (segments w)))"
proof (induction w arbitrary: cur q)
  case (Cons x w)
  have quoted: "quoted_word w" "\<not> expanded_delimiter ifs x" "snd x AND GSH_WORD_QUOTED \<noteq> 0"
    using Cons.prems by (auto simp: quoted_word_def expanded_delimiter_def)
  have "map segment_bytes (filter (\<lambda>s. s \<noteq> []) (segments w)) =
      (if hd (segments w) \<noteq> [] then [segment_bytes (hd (segments w))] else []) @
      map segment_bytes (filter (\<lambda>s. s \<noteq> []) (tl (segments w)))"
    by (subst segments_split) simp
  then have rest: "fields_from ifs [] False w = map segment_bytes (filter (\<lambda>s. s \<noteq> []) (segments w))"
    using Cons.IH[OF quoted(1), of "[]" False] by simp
  show ?case
    using Cons.IH[OF quoted(1), of "cur @ [x]" q] Cons.IH[OF quoted(1), of cur True] quoted(2,3) rest
    by (simp add: fields_from.simps(2) segment_bytes_def)
qed (simp add: segment_bytes_def)

lemma word_fields_quoted:
  assumes "quoted_word w" shows "word_fields ifs w = quoted_fields w"
proof -
  obtain s ss where "segments w = s # ss" using segments_split by blast
  with fields_from_quoted[OF assms, of ifs "[]" False] show ?thesis
    by (simp add: word_fields_def quoted_fields_def)
qed

lemma quoted_fields_one:
  assumes "w \<noteq> []" "\<forall>x \<in> set w. snd x AND GSH_WORD_FIELD_BOUNDARY = 0"
  shows "quoted_fields w = [segment_bytes w]"
proof -
  have "segments w = [w]" using assms(2) by (induction w) simp_all
  with assms(1) show ?thesis by (simp add: quoted_fields_def)
qed

text \<open>C28. A quoted word is never split at blanks or other bytes of \<open>IFS\<close>, whatever \<open>IFS\<close> holds: when all
  its bytes are quoted, its fields are its segments between the boundary markers of \<open>"$@"\<close>, each
  with its bytes unchanged, and a segment gives no field only where it has neither a byte nor
  the marker of an empty string (at most 128 fields, in a buffer with a byte to spare). A quoted
  word without such boundaries, that is not empty, gives exactly one field with its bytes, also
  when it is only the marker of a quoted empty string.\<close>

theorem quoted_word_is_one_field:
  assumes "buffer_ok pipeline" "begin_at + len < GSH_NATIVE_TEXT_CAP"
    "quoted_word (word_span pipeline begin_at (begin_at + len))"
    "length (quoted_fields (word_span pipeline begin_at (begin_at + len))) \<le> GSH_NATIVE_ARGUMENT_CAP"
    "expansion_field_separator context = (GSH_NATIVE_PLAN_OK, ifs)"
    "split_expanded_word context pipeline begin_at len = (status, pipeline', xs)"
  shows "status = GSH_NATIVE_PLAN_OK \<and>
    map (field_text pipeline') xs = map (map fst) (quoted_fields (word_span pipeline begin_at (begin_at + len))) \<and>
    (0 < len \<and> (\<forall>x \<in> set (word_span pipeline begin_at (begin_at + len)). snd x AND GSH_WORD_FIELD_BOUNDARY = 0) \<longrightarrow>
      map (field_text pipeline') xs =
        [map fst (segment_bytes (word_span pipeline begin_at (begin_at + len)))])"
proof -
  let ?w = "word_span pipeline begin_at (begin_at + len)"
  have "length ?w = len" using span_length[OF assms(1), of "begin_at + len" begin_at] assms(2) by simp
  then have "0 < len \<longleftrightarrow> ?w \<noteq> []" by (metis length_greater_0_conv)
  with splitting_texts[OF assms(1,2,5,6)] quoted_fields_one[of ?w] assms(4) word_fields_quoted[OF assms(3)]
  show ?thesis by simp
qed

text \<open>A text that comes from an unquoted expansion.\<close>

definition expanded_text :: "byte list \<Rightarrow> word_byte list" where
  "expanded_text s = map (\<lambda>b. (b, GSH_WORD_EXPANDED)) s"

lemma expanded_text_byte:
  "expanded_delimiter ifs (b, GSH_WORD_EXPANDED) \<longleftrightarrow> is_ifs_byte ifs b"
  "(GSH_WORD_EXPANDED :: provenance) AND GSH_WORD_FIELD_BOUNDARY = 0"
  "(GSH_WORD_EXPANDED :: provenance) AND GSH_WORD_EMPTY_MARKER = 0"
  by (simp_all add: expanded_delimiter_def)

lemma fields_from_plain:
  "\<forall>b \<in> set s. \<not> is_ifs_byte ifs b \<Longrightarrow>
    fields_from ifs cur q (expanded_text s @ w) = fields_from ifs (cur @ expanded_text s) q w"
proof (induction s arbitrary: cur)
  case (Cons b s)
  then show ?case
    by (simp add: expanded_text_def fields_from.simps(2) expanded_text_byte del: One_nat_def)
qed (simp add: expanded_text_def)

lemma fields_from_joined:
  assumes "c \<in> set ifs" "\<not> ifs_white_space c" "\<forall>f \<in> set fs. \<forall>b \<in> set f. \<not> is_ifs_byte ifs b"
  shows "word_fields ifs (expanded_text (concat (map (\<lambda>f. f @ [c]) fs))) = map expanded_text fs"
  using assms(3)
proof (induction fs)
  case (Cons f fs)
  let ?rest = "expanded_text (concat (map (\<lambda>f. f @ [c]) fs))"
  have "ifs \<noteq> []" using assms(1) by auto
  have c: "expanded_delimiter ifs (c, GSH_WORD_EXPANDED)" using assms(1) by (simp add: expanded_text_byte is_ifs_byte_def)
  have white: "\<not> white_delimiter ifs (b, GSH_WORD_EXPANDED)" if "b \<in> set f'" "f' \<in> set fs" for b f'
    using Cons.prems that by (auto simp: white_delimiter_def expanded_text_byte)
  have "dropWhile (white_delimiter ifs) ?rest = ?rest"
  proof (cases ?rest)
    case (Cons x xs)
    then obtain b where "x = (b, GSH_WORD_EXPANDED)" "b \<in> set (concat (map (\<lambda>f. f @ [c]) fs))"
      by (cases "concat (map (\<lambda>f. f @ [c]) fs)") (auto simp: expanded_text_def)
    then have "x = (c, GSH_WORD_EXPANDED) \<or> (\<exists>f' \<in> set fs. b \<in> set f')" by (auto split: if_splits)
    then have "\<not> white_delimiter ifs x" using white assms(2) \<open>x = (b, GSH_WORD_EXPANDED)\<close>
      by (auto simp: white_delimiter_def)
    then show ?thesis by (simp add: Cons)
  qed simp
  then have run: "delimiter_run ifs c ?rest = (True, ?rest)" using assms(2) by (simp add: delimiter_run_def)
  have "expanded_text (concat (map (\<lambda>f. f @ [c]) (f # fs))) = expanded_text f @ (c, GSH_WORD_EXPANDED) # ?rest"
    by (simp add: expanded_text_def)
  then have "word_fields ifs (expanded_text (concat (map (\<lambda>f. f @ [c]) (f # fs)))) =
      fields_from ifs (expanded_text f) False ((c, GSH_WORD_EXPANDED) # ?rest)"
    using fields_from_plain[of f ifs "[]" False] Cons.prems by (simp add: word_fields_def)
  also have "\<dots> = expanded_text f # fields_from ifs [] False ?rest"
    using c run \<open>ifs \<noteq> []\<close> by (simp add: fields_from.simps(2) expanded_text_byte(2,3))
  finally show ?case using Cons.IH Cons.prems by (simp add: word_fields_def)
qed (simp add: expanded_text_def word_fields_def)

text \<open>C29. Fields that are joined with a separator are read back: an expansion that is a sequence of fields,
  each closed by a byte of \<open>IFS\<close> that is not white space and none with a byte of \<open>IFS\<close> in it, splits
  into these fields, the empty ones included. At most 128 fields are taken, and the buffer has a
  byte to spare behind the expansion.\<close>

theorem joined_fields_split:
  assumes "buffer_ok pipeline" "begin_at + len < GSH_NATIVE_TEXT_CAP"
    "expansion_field_separator context = (GSH_NATIVE_PLAN_OK, ifs)"
    "c \<in> set ifs" "\<not> ifs_white_space c" "\<forall>f \<in> set fs. \<forall>b \<in> set f. \<not> is_ifs_byte ifs b"
    "length fs \<le> GSH_NATIVE_ARGUMENT_CAP"
    "word_span pipeline begin_at (begin_at + len) = expanded_text (concat (map (\<lambda>f. f @ [c]) fs))"
    "split_expanded_word context pipeline begin_at len = (status, pipeline', xs)"
  shows "status = GSH_NATIVE_PLAN_OK \<and> map (field_text pipeline') xs = fs"
proof -
  have "word_fields ifs (word_span pipeline begin_at (begin_at + len)) = map expanded_text fs"
    unfolding assms(8) by (rule fields_from_joined[OF assms(4-6)])
  moreover have "map fst \<circ> expanded_text = id" by (simp add: fun_eq_iff expanded_text_def comp_def)
  ultimately show ?thesis using splitting_texts[OF assms(1-3,9)] assms(7) by simp
qed

text \<open>Two words where the markers mislead the splitting, for the default \<open>IFS\<close>.\<close>

lemma default_separator: "expansion_field_separator None = (GSH_NATIVE_PLAN_OK, [CHR '' '', TAB, NL])"
  by (simp add: expansion_field_separator_def)

definition null_then_blank :: "word_byte list" where
  "null_then_blank = (NUL, GSH_WORD_QUOTED OR GSH_WORD_EMPTY_MARKER) # expanded_text '' a''"

definition blank_then_boundary :: "word_byte list" where
  "blank_then_boundary = expanded_text '' '' @ (NUL, GSH_WORD_EXPANDED OR GSH_WORD_FIELD_BOUNDARY) # expanded_text ''b''"

lemma fault_fields:
  "word_fields [CHR '' '', TAB, NL] null_then_blank = [expanded_text ''a'']"
  "word_fields [CHR '' '', TAB, NL] blank_then_boundary = [[], expanded_text ''b'']"
  by (simp_all add: word_fields_def null_then_blank_def blank_then_boundary_def expanded_text_def
      fields_from.simps(2) delimiter_run_def white_delimiter_def hard_delimiter_def expanded_delimiter_def
      is_ifs_byte_def ifs_white_space_def)

text \<open>C36. A quoted null string in front of an expansion that begins with a blank is lost: with \<open>x\<close> set
  to a blank and \<open>a\<close>, the word \<open>''$x\<close> gives the one field \<open>a\<close>; the empty field of the quotes, which POSIX
  keeps, is forgotten when the blank ends the candidate.\<close>

theorem quoted_null_is_lost:
  assumes "buffer_ok pipeline" "word_span pipeline begin_at (begin_at + 3) = null_then_blank"
    "begin_at + 3 < GSH_NATIVE_TEXT_CAP" "split_expanded_word None pipeline begin_at 3 = (status, pipeline', xs)"
  shows "status = GSH_NATIVE_PLAN_OK \<and> map (field_text pipeline') xs = [''a'']"
  using splitting_texts[OF assms(1,3) default_separator assms(4)] unfolding assms(2) fault_fields
  by (simp add: expanded_text_def)

text \<open>C37. The boundary between two positional parameters is taken for a separator that is not white space:
  with the parameters blank and \<open>b\<close>, the unquoted \<open>$*\<close> gives an empty field and \<open>b\<close>, where POSIX gives
  \<open>b\<close> alone. The reason is that \<open>strchr\<close> finds the NUL that marks the boundary.\<close>

theorem boundary_read_as_separator:
  assumes "buffer_ok pipeline" "word_span pipeline begin_at (begin_at + 3) = blank_then_boundary"
    "begin_at + 3 < GSH_NATIVE_TEXT_CAP" "split_expanded_word None pipeline begin_at 3 = (status, pipeline', xs)"
  shows "status = GSH_NATIVE_PLAN_OK \<and> map (field_text pipeline') xs = [[], ''b'']"
  using splitting_texts[OF assms(1,3) default_separator assms(4)] unfolding assms(2) fault_fields
  by (simp add: expanded_text_def)

section \<open>Words in a buffer\<close>

definition word_pipeline :: "word_byte list \<Rightarrow> gsh_native_pipeline" where
  "word_pipeline w = \<lparr>np_text = map fst w @ replicate (GSH_NATIVE_TEXT_CAP - length w) NUL,
    np_provenance = map snd w @ replicate (GSH_NATIVE_TEXT_CAP - length w) 0, np_text_used = length w\<rparr>"

lemma word_pipeline_ok: "length w \<le> GSH_NATIVE_TEXT_CAP \<Longrightarrow> buffer_ok (word_pipeline w)"
  by (simp add: buffer_ok_def word_pipeline_def)

lemma word_pipeline_span: "length w = n \<Longrightarrow> word_span (word_pipeline w) 0 (0 + n) = w"
  by (auto simp: word_span_def word_pipeline_def slice_def zip_map_fst_snd)

lemma word_pipeline_run:
  obtains status p xs where "split_expanded_word context (word_pipeline w) 0 n = (status, p, xs)"
  by (metis prod_cases3)

theorem splitting_refines_witness:
  "\<exists>p xs. split_expanded_word None (word_pipeline (expanded_text ''a b'')) 0 3 = (GSH_NATIVE_PLAN_OK, p, xs) \<and>
    fields_stand p 0 xs [expanded_text ''a'', expanded_text ''b'']"
proof -
  let ?w = "expanded_text ''a b''"
  have len: "length ?w = 3" by (simp add: expanded_text_def)
  obtain status p xs where run: "split_expanded_word None (word_pipeline ?w) 0 3 = (status, p, xs)"
    by (rule word_pipeline_run)
  have fields: "word_fields [CHR '' '', TAB, NL] ?w = [expanded_text ''a'', expanded_text ''b'']"
    by (simp add: word_fields_def expanded_text_def fields_from.simps(2) delimiter_run_def white_delimiter_def
        hard_delimiter_def expanded_delimiter_def is_ifs_byte_def ifs_white_space_def)
  have span: "word_span (word_pipeline ?w) 0 (0 + 3) = ?w" using len by (simp only: word_pipeline_span)
  have "buffer_ok (word_pipeline ?w)" using word_pipeline_ok[of ?w] len by simp
  from splitting_refines[OF this _ default_separator run, unfolded span fields] run show ?thesis
    by (auto split: if_splits)
qed

text \<open>The word \<open>"$@"\<close> of the two parameters \<open>a b\<close> and \<open>c\<close>.\<close>

theorem quoted_word_is_one_field_witness:
  "\<exists>p xs. split_expanded_word None
      (word_pipeline [(CHR ''a'', 3), (CHR '' '', 3), (CHR ''b'', 3), (NUL, 11), (CHR ''c'', 3)]) 0 5 =
      (GSH_NATIVE_PLAN_OK, p, xs) \<and> map (field_text p) xs = [''a b'', ''c'']"
proof -
  let ?w = "[(CHR ''a'', 3), (CHR '' '', 3), (CHR ''b'', 3), (NUL, 11), (CHR ''c'', 3)] :: word_byte list"
  obtain status p xs where run: "split_expanded_word None (word_pipeline ?w) 0 5 = (status, p, xs)"
    by (rule word_pipeline_run)
  have span: "word_span (word_pipeline ?w) 0 (0 + 5) = ?w" by (rule word_pipeline_span) simp
  have fields: "quoted_fields ?w = [[(CHR ''a'', 3), (CHR '' '', 3), (CHR ''b'', 3)], [(CHR ''c'', 3)]]"
    by (simp add: quoted_fields_def segment_bytes_def)
  have "buffer_ok (word_pipeline ?w)" using word_pipeline_ok[of ?w] by simp
  from quoted_word_is_one_field[OF this _ _ _ default_separator run, unfolded span fields] run show ?thesis
    by (simp add: quoted_word_def)
qed

theorem joined_fields_split_witness:
  "\<exists>p xs cx. split_expanded_word (Some cx) (word_pipeline (expanded_text ''a::b:'')) 0 5 =
      (GSH_NATIVE_PLAN_OK, p, xs) \<and> map (field_text p) xs = [''a'', [], ''b'']"
proof -
  let ?w = "expanded_text ''a::b:''"
  let ?cx = "\<lparr>cx_environment = Some [''IFS=:''], cx_variable_state = None, cx_deferred_work = None,
    cx_nounset = False, cx_preflight = False\<rparr>"
  have ifs: "expansion_field_separator (Some ?cx) = (GSH_NATIVE_PLAN_OK, '':'')"
    by (simp add: expansion_field_separator_def lookup_variable_def environment_name_matches_def numeral_eq_Suc)
  have len: "length ?w = 5" by (simp add: expanded_text_def)
  obtain status p xs where run: "split_expanded_word (Some ?cx) (word_pipeline ?w) 0 5 = (status, p, xs)"
    by (rule word_pipeline_run)
  have "word_span (word_pipeline ?w) 0 (0 + 5) = expanded_text (concat (map (\<lambda>f. f @ '':'') [''a'', [], ''b'']))"
    unfolding word_pipeline_span[OF len] by simp
  moreover have "buffer_ok (word_pipeline ?w)" using word_pipeline_ok[of ?w] len by simp
  ultimately have "status = GSH_NATIVE_PLAN_OK \<and> map (field_text p) xs = [''a'', [], ''b'']" (is "_ \<and> ?texts")
    using joined_fields_split[OF _ _ ifs _ _ _ _ _ run, of "CHR '':''" "[''a'', [], ''b'']"]
    by (simp add: ifs_white_space_def is_ifs_byte_def)
  then have "split_expanded_word (Some ?cx) (word_pipeline ?w) 0 5 = (GSH_NATIVE_PLAN_OK, p, xs) \<and> ?texts"
    using run by simp
  then show ?thesis by (intro exI)
qed

theorem quoted_null_is_lost_witness:
  "\<exists>p xs. split_expanded_word None (word_pipeline null_then_blank) 0 3 = (GSH_NATIVE_PLAN_OK, p, xs) \<and>
    map (field_text p) xs = [''a'']"
proof -
  have len: "length null_then_blank = 3" by (simp add: null_then_blank_def expanded_text_def)
  obtain status p xs where run: "split_expanded_word None (word_pipeline null_then_blank) 0 3 = (status, p, xs)"
    by (rule word_pipeline_run)
  have "word_span (word_pipeline null_then_blank) 0 (0 + 3) = null_then_blank"
    using len by (rule word_pipeline_span)
  from quoted_null_is_lost[OF word_pipeline_ok this _ run] run len show ?thesis by simp
qed

theorem boundary_read_as_separator_witness:
  "\<exists>p xs. split_expanded_word None (word_pipeline blank_then_boundary) 0 3 = (GSH_NATIVE_PLAN_OK, p, xs) \<and>
    map (field_text p) xs = [[], ''b'']"
proof -
  have len: "length blank_then_boundary = 3" by (simp add: blank_then_boundary_def expanded_text_def)
  obtain status p xs where run: "split_expanded_word None (word_pipeline blank_then_boundary) 0 3 = (status, p, xs)"
    by (rule word_pipeline_run)
  have "word_span (word_pipeline blank_then_boundary) 0 (0 + 3) = blank_then_boundary"
    using len by (rule word_pipeline_span)
  from boundary_read_as_separator[OF word_pipeline_ok this _ run] run len show ?thesis by simp
qed

end
