(* ===== verification/WordExpansion.thy ===== *)
theory WordExpansion
  imports FieldSplitting Quoting Aliases
begin

text \<open>
  The expansion of a command word, \<open>src/native_plan.c\<close>: \<open>expand_static_word\<close> runs a stack of word
  frames, each scanned byte by byte with its quoting (\<open>expand_word_frame\<close>), and
  \<open>append_expanded_word\<close> splits the result and appends its fields to the arguments. The substitutions
  behind \<open>$\<close> and the backquote, the resumption of a frame that waits for one, and the matching of
  path names are not modelled: they are the parameters \<open>'a substitutions\<close>, and what a waiting frame
  keeps for them is of the type \<open>'a\<close>. The pointers of the arguments are offsets in the text.
\<close>

section \<open>Frames and the machine\<close>

abbreviation (input) EXPANSION_FRAME_CAP :: nat where "EXPANSION_FRAME_CAP \<equiv> 33"
abbreviation (input) EXPANSION_MACHINE_STEP_CAP :: nat where "EXPANSION_MACHINE_STEP_CAP \<equiv> 4194304"

datatype gsh_expansion_mode = GSH_EXPAND_SCALAR | GSH_EXPAND_FIELDS | GSH_EXPAND_ARITHMETIC

datatype expansion_quote = EXPANSION_QUOTE_NONE | EXPANSION_QUOTE_SINGLE | EXPANSION_QUOTE_DOUBLE

text \<open>\<open>wf_continuation\<close> is \<open>None\<close> for \<open>EXPANSION_CONTINUATION_NONE\<close>, else the data of the pending
  operation.\<close>

record 'a expansion_word_frame =
  wf_word :: gsh_word_ref
  wf_mode :: gsh_expansion_mode
  wf_logical_depth :: nat
  wf_offset :: nat
  wf_expanded_begin :: nat
  wf_quote :: expansion_quote
  wf_continuation :: "'a option"
  wf_complete :: bool

text \<open>The frames, the top one first; \<open>xm_request\<close> is \<open>None\<close> unless \<open>push_requested\<close>.\<close>

record 'a expansion_machine =
  xm_input :: "byte list"
  xm_context :: gsh_native_expansion_context
  xm_pipeline :: gsh_native_pipeline
  xm_frames :: "'a expansion_word_frame list"
  xm_request :: "(gsh_word_ref \<times> gsh_expansion_mode \<times> nat) option"
  xm_child_ready :: bool
  xm_child_begin :: nat
  xm_child_length :: nat

type_synonym 'a expansion_outcome =
  "gsh_native_plan_status \<times> 'a expansion_machine \<times> 'a expansion_word_frame"

type_synonym 'a expander =
  "'a expansion_machine \<Rightarrow> 'a expansion_word_frame \<Rightarrow> 'a expansion_outcome"

record 'a substitutions =
  sub_dollar_single_quote :: "'a expander"
  sub_arithmetic :: "'a expander"
  sub_command :: "'a expander"
  sub_parameter :: "bool \<Rightarrow> gsh_expansion_mode \<Rightarrow> 'a expander"
  sub_backquote :: "bool \<Rightarrow> 'a expander"
  sub_resume :: "'a expander"
  sub_arithmetic_begin :: "'a \<Rightarrow> nat option"
  sub_pathnames :: "gsh_native_expansion_context \<Rightarrow> gsh_native_pipeline \<Rightarrow> gsh_expanded_field \<Rightarrow>
    gsh_native_plan_status \<times> gsh_native_pipeline \<times> nat list"

section \<open>Writing the text\<close>

definition reserve_byte :: "gsh_native_pipeline \<Rightarrow> byte \<Rightarrow> bool \<times> gsh_native_pipeline" where
  "reserve_byte p byte =
    (if GSH_NATIVE_TEXT_CAP \<le> np_text_used p then (False, p)
     else (True, p\<lparr>np_text := (np_text p)[np_text_used p := byte],
       np_provenance := (np_provenance p)[np_text_used p := 0],
       np_text_used := np_text_used p + 1\<rparr>))"

text \<open>\<open>reserve_byte\<close> and the provenance of the byte just reserved.\<close>

definition reserve_marked ::
  "gsh_native_pipeline \<Rightarrow> byte \<Rightarrow> provenance \<Rightarrow> bool \<times> gsh_native_pipeline" where
  "reserve_marked p byte provenance =
    (case reserve_byte p byte of
       (False, q) \<Rightarrow> (False, q)
     | (True, q) \<Rightarrow> (True, q\<lparr>np_provenance := (np_provenance q)[np_text_used q - 1 := provenance]\<rparr>))"

definition reserve_empty_marker :: "gsh_native_pipeline \<Rightarrow> bool \<times> gsh_native_pipeline" where
  "reserve_empty_marker p = reserve_marked p NUL (GSH_WORD_QUOTED OR GSH_WORD_EMPTY_MARKER)"

definition mark_reserved :: "gsh_native_pipeline \<Rightarrow> nat \<Rightarrow> provenance \<Rightarrow> gsh_native_pipeline" where
  "mark_reserved p begin_at provenance =
    p\<lparr>np_provenance := fold (\<lambda>i xs. xs[i := provenance]) [begin_at..<np_text_used p] (np_provenance p)\<rparr>"

fun reserve_parameter_value ::
  "gsh_native_pipeline \<Rightarrow> byte list \<Rightarrow> gsh_native_plan_status \<times> gsh_native_pipeline" where
  "reserve_parameter_value p [] = (GSH_NATIVE_PLAN_OK, p)"
| "reserve_parameter_value p (byte # val) =
    (case reserve_byte p byte of
       (False, p) \<Rightarrow> (GSH_NATIVE_PLAN_LIMIT, p)
     | (True, p) \<Rightarrow> reserve_parameter_value p val)"

section \<open>The bytes of a word\<close>

definition set_text :: "'a expansion_machine \<Rightarrow> gsh_native_pipeline \<Rightarrow> 'a expansion_machine" where
  "set_text m p = m\<lparr>xm_pipeline := p\<rparr>"

text \<open>Reserving a byte with a provenance ends the handling of most bytes.\<close>

definition put_byte :: "byte \<Rightarrow> provenance \<Rightarrow> 'a expander" where
  "put_byte byte provenance m f =
    (case reserve_marked (xm_pipeline m) byte provenance of
       (ok, p) \<Rightarrow> (if ok then GSH_NATIVE_PLAN_OK else GSH_NATIVE_PLAN_LIMIT, set_text m p, f))"

definition put_empty_marker :: "'a expander" where
  "put_empty_marker m f =
    (if wf_mode f = GSH_EXPAND_FIELDS
     then (case reserve_empty_marker (xm_pipeline m) of
             (ok, p) \<Rightarrow> (if ok then GSH_NATIVE_PLAN_OK else GSH_NATIVE_PLAN_LIMIT, set_text m p, f))
     else (GSH_NATIVE_PLAN_OK, m, f))"

text \<open>A substitution whose text is marked when it succeeds.\<close>

definition marked_expansion :: "'a expander \<Rightarrow> provenance \<Rightarrow> 'a expander" where
  "marked_expansion expand provenance m f =
    (let value_begin = np_text_used (xm_pipeline m)
     in case expand m f of
          (status, m, f) \<Rightarrow>
            (status,
             if status = GSH_NATIVE_PLAN_OK
             then set_text m (mark_reserved (xm_pipeline m) value_begin provenance) else m, f))"

definition next_is :: "'a expansion_machine \<Rightarrow> 'a expansion_word_frame \<Rightarrow> nat \<Rightarrow> byte \<Rightarrow> bool" where
  "next_is m f ahead byte \<longleftrightarrow>
    wf_offset f + ahead < ref_end (wf_word f) \<and> xm_input m ! (wf_offset f + ahead) = byte"

definition expand_dollar_byte :: "'a substitutions \<Rightarrow> bool \<Rightarrow> 'a expander" where
  "expand_dollar_byte subs quoted m f =
    (if quoted \<and> next_is m f 0 QUOTE then put_byte (CHR ''$'') GSH_WORD_QUOTED m f
     else if \<not> quoted \<and> wf_mode f \<noteq> GSH_EXPAND_ARITHMETIC \<and> next_is m f 0 QUOTE then
       (case put_empty_marker m (f\<lparr>wf_offset := wf_offset f + 1\<rparr>) of
          (status, m, f) \<Rightarrow>
            if status \<noteq> GSH_NATIVE_PLAN_OK then (status, m, f)
            else marked_expansion (sub_dollar_single_quote subs) GSH_WORD_QUOTED m f)
     else if next_is m f 0 (CHR ''('') then
       marked_expansion (if next_is m f 1 (CHR ''('') then sub_arithmetic subs else sub_command subs)
         (GSH_WORD_EXPANDED OR (if quoted then GSH_WORD_QUOTED else 0)) m f
     else if wf_offset f = ref_end (wf_word f) \<or> next_is m f 0 (CHR '' '') \<or> next_is m f 0 TAB \<or>
        next_is m f 0 NL
     then put_byte (CHR ''$'') (if quoted then GSH_WORD_QUOTED else 0) m f
     else sub_parameter subs (quoted \<or> wf_mode f = GSH_EXPAND_ARITHMETIC)
       (if wf_mode f = GSH_EXPAND_ARITHMETIC then GSH_EXPAND_SCALAR else wf_mode f) m f)"

definition expand_backquote_byte :: "'a substitutions \<Rightarrow> bool \<Rightarrow> 'a expander" where
  "expand_backquote_byte subs quoted m f =
    marked_expansion (sub_backquote subs (quoted \<or> wf_mode f = GSH_EXPAND_ARITHMETIC))
      (GSH_WORD_EXPANDED OR (if quoted then GSH_WORD_QUOTED else 0)) m f"

definition expand_tilde_byte :: "'a expander" where
  "expand_tilde_byte m f =
    (if wf_offset f < ref_end (wf_word f) \<and> xm_input m ! wf_offset f \<noteq> CHR ''/''
     then (GSH_NATIVE_PLAN_UNSUPPORTED, m, f)
     else
       (case lookup_variable (xm_context m) ''HOME'' of
          (Some home, True) \<Rightarrow>
            (let value_begin = np_text_used (xm_pipeline m)
             in case reserve_parameter_value (xm_pipeline m) home of
                  (status, p) \<Rightarrow>
                    if status \<noteq> GSH_NATIVE_PLAN_OK then (status, set_text m p, f)
                    else
                      (let m = set_text m (mark_reserved p value_begin GSH_WORD_QUOTED)
                       in if np_text_used p = value_begin then put_empty_marker m f
                          else (GSH_NATIVE_PLAN_OK, m, f)))
        | _ \<Rightarrow> (GSH_NATIVE_PLAN_UNSUPPORTED, m, f)))"

definition expand_single_quoted_byte :: "byte \<Rightarrow> 'a expander" where
  "expand_single_quoted_byte byte m f =
    (if byte = QUOTE then (GSH_NATIVE_PLAN_OK, m, f\<lparr>wf_quote := EXPANSION_QUOTE_NONE\<rparr>)
     else put_byte byte GSH_WORD_QUOTED m f)"

definition expand_double_quoted_byte :: "'a substitutions \<Rightarrow> byte \<Rightarrow> 'a expander" where
  "expand_double_quoted_byte subs byte m f =
    (if byte = DQUOTE then (GSH_NATIVE_PLAN_OK, m, f\<lparr>wf_quote := EXPANSION_QUOTE_NONE\<rparr>)
     else if byte = CHR ''$'' then expand_dollar_byte subs True m f
     else if byte = BQUOTE then expand_backquote_byte subs True m f
     else if byte = BSLASH \<and> wf_offset f < ref_end (wf_word f) \<and>
        xm_input m ! wf_offset f \<in> {CHR ''$'', BQUOTE, DQUOTE, BSLASH, NL}
     then
       (let follows = xm_input m ! wf_offset f; f = f\<lparr>wf_offset := wf_offset f + 1\<rparr>
        in if follows = NL then (GSH_NATIVE_PLAN_OK, m, f) else put_byte follows GSH_WORD_QUOTED m f)
     else put_byte byte GSH_WORD_QUOTED m f)"

definition expand_unquoted_byte :: "'a substitutions \<Rightarrow> byte \<Rightarrow> 'a expander" where
  "expand_unquoted_byte subs byte m f =
    (let arithmetic = (wf_mode f = GSH_EXPAND_ARITHMETIC)
     in if byte = QUOTE \<and> \<not> arithmetic
        then put_empty_marker m (f\<lparr>wf_quote := EXPANSION_QUOTE_SINGLE\<rparr>)
        else if byte = DQUOTE \<and> \<not> arithmetic
        then put_empty_marker m (f\<lparr>wf_quote := EXPANSION_QUOTE_DOUBLE\<rparr>)
        else if byte = BSLASH then
          (if wf_offset f = ref_end (wf_word f) then (GSH_NATIVE_PLAN_UNSUPPORTED, m, f)
           else
             (let follows = xm_input m ! wf_offset f;
                  taken = (\<not> arithmetic \<or> follows \<in> {CHR ''$'', BQUOTE, BSLASH, NL});
                  byte = (if taken then follows else byte);
                  f = (if taken then f\<lparr>wf_offset := wf_offset f + 1\<rparr> else f)
              in if byte = NL then (GSH_NATIVE_PLAN_OK, m, f) else put_byte byte GSH_WORD_QUOTED m f))
        else if byte = CHR ''$'' then expand_dollar_byte subs False m f
        else if byte = CHR ''~'' \<and> \<not> arithmetic \<and> wf_offset f = ref_begin (wf_word f) + 1
        then expand_tilde_byte m f
        else if byte = BQUOTE then expand_backquote_byte subs False m f
        else put_byte byte 0 m f)"

definition expand_word_byte :: "'a substitutions \<Rightarrow> 'a expander" where
  "expand_word_byte subs m f =
    (let byte = xm_input m ! wf_offset f; f = f\<lparr>wf_offset := wf_offset f + 1\<rparr>
     in case wf_quote f of
          EXPANSION_QUOTE_SINGLE \<Rightarrow> expand_single_quoted_byte byte m f
        | EXPANSION_QUOTE_DOUBLE \<Rightarrow> expand_double_quoted_byte subs byte m f
        | EXPANSION_QUOTE_NONE \<Rightarrow> expand_unquoted_byte subs byte m f)"

text \<open>The loop ends where the substitutions do not move the offset back; \<open>None\<close> is a run that does
  not end.\<close>

partial_function (option) expand_word_frame ::
  "'a substitutions \<Rightarrow> 'a expansion_machine \<Rightarrow> 'a expansion_word_frame \<Rightarrow> 'a expansion_outcome option"
  where
  "expand_word_frame subs m f =
    (if wf_offset f < ref_end (wf_word f)
     then (case expand_word_byte subs m f of
             (status, m, f) \<Rightarrow>
               if status \<noteq> GSH_NATIVE_PLAN_OK then Some (status, m, f) else expand_word_frame subs m f)
     else Some (if wf_quote f \<noteq> EXPANSION_QUOTE_NONE then (GSH_NATIVE_PLAN_UNSUPPORTED, m, f)
                else (GSH_NATIVE_PLAN_OK, m, f\<lparr>wf_complete := True\<rparr>)))"

section \<open>The stack of words\<close>

definition request_expansion_word ::
  "'a expansion_machine \<Rightarrow> gsh_word_ref \<Rightarrow> gsh_expansion_mode \<Rightarrow> nat \<Rightarrow> bool \<times> 'a expansion_machine" where
  "request_expansion_word m word mode logical_depth =
    (if ref_end word < ref_begin word \<or> xm_request m \<noteq> None \<or> 32 < logical_depth \<or>
        length (xm_frames m) = EXPANSION_FRAME_CAP
     then (False, m) else (True, m\<lparr>xm_request := Some (word, mode, logical_depth)\<rparr>))"

definition push_expansion_frame ::
  "'a expansion_machine \<Rightarrow> gsh_native_plan_status \<times> 'a expansion_machine" where
  "push_expansion_frame m =
    (case xm_request m of
       None \<Rightarrow> (GSH_NATIVE_PLAN_UNSUPPORTED, m)
     | Some (word, mode, logical_depth) \<Rightarrow>
         if ref_end word < ref_begin word then (GSH_NATIVE_PLAN_UNSUPPORTED, m)
         else if length (xm_frames m) = EXPANSION_FRAME_CAP \<or>
            np_text_used (xm_pipeline m) = GSH_NATIVE_TEXT_CAP
         then (GSH_NATIVE_PLAN_LIMIT, m)
         else (GSH_NATIVE_PLAN_OK, m\<lparr>
           xm_frames := \<lparr>wf_word = word, wf_mode = mode, wf_logical_depth = logical_depth,
             wf_offset = ref_begin word, wf_expanded_begin = np_text_used (xm_pipeline m),
             wf_quote = EXPANSION_QUOTE_NONE, wf_continuation = None, wf_complete = False\<rparr> # xm_frames m,
           xm_request := None, xm_child_ready := False\<rparr>))"

definition complete_expansion_frame ::
  "'a expansion_machine \<Rightarrow> gsh_native_plan_status \<times> 'a expansion_machine" where
  "complete_expansion_frame m =
    (case xm_frames m of
       [] \<Rightarrow> (GSH_NATIVE_PLAN_UNSUPPORTED, m)
     | frame # frames \<Rightarrow>
         (let m = m\<lparr>xm_child_begin := wf_expanded_begin frame,
                 xm_child_length := np_text_used (xm_pipeline m) - wf_expanded_begin frame\<rparr>
          in case reserve_byte (xm_pipeline m) NUL of
               (False, p) \<Rightarrow> (GSH_NATIVE_PLAN_LIMIT, m)
             | (True, p) \<Rightarrow> (GSH_NATIVE_PLAN_OK,
                 (set_text m p)\<lparr>xm_frames := frames, xm_child_ready := True\<rparr>)))"

text \<open>On failure the text of a pending arithmetic expression is given back.\<close>

fun cleanup_frames ::
  "'a substitutions \<Rightarrow> 'a expansion_word_frame list \<Rightarrow> gsh_native_pipeline \<Rightarrow> gsh_native_pipeline" where
  "cleanup_frames subs [] p = p"
| "cleanup_frames subs (frame # frames) p =
    (case Option.bind (wf_continuation frame) (sub_arithmetic_begin subs) of
       Some expression_begin \<Rightarrow> p\<lparr>np_text_used := expression_begin\<rparr>
     | None \<Rightarrow> cleanup_frames subs frames p)"

definition cleanup_expansion_failure ::
  "'a substitutions \<Rightarrow> 'a expansion_machine \<Rightarrow> 'a expansion_machine" where
  "cleanup_expansion_failure subs m = set_text m (cleanup_frames subs (xm_frames m) (xm_pipeline m))"

text \<open>The loop of \<open>expand_static_word\<close>, with the number of steps left.\<close>

fun expansion_loop ::
  "nat \<Rightarrow> 'a substitutions \<Rightarrow> 'a expansion_machine \<Rightarrow>
    (gsh_native_plan_status \<times> 'a expansion_machine) option" where
  "expansion_loop 0 subs m = Some (GSH_NATIVE_PLAN_LIMIT, cleanup_expansion_failure subs m)"
| "expansion_loop (Suc steps) subs m =
    (if xm_request m \<noteq> None then
       (case push_expansion_frame m of
          (status, m) \<Rightarrow>
            if status \<noteq> GSH_NATIVE_PLAN_OK then Some (status, cleanup_expansion_failure subs m)
            else expansion_loop steps subs m)
     else
       (case xm_frames m of
          [] \<Rightarrow> Some (GSH_NATIVE_PLAN_OK, m)
        | frame # frames \<Rightarrow>
            (case (if wf_continuation frame \<noteq> None then Some (sub_resume subs m frame)
                   else expand_word_frame subs m frame) of
               None \<Rightarrow> None
             | Some (status, m, frame) \<Rightarrow>
                 (let m = m\<lparr>xm_frames := frame # frames\<rparr>
                  in if status = GSH_NATIVE_PLAN_DEFERRED \<and> xm_request m \<noteq> None
                     then expansion_loop steps subs m
                     else if status \<noteq> GSH_NATIVE_PLAN_OK
                     then Some (status, cleanup_expansion_failure subs m)
                     else if wf_complete frame then
                       (case complete_expansion_frame m of
                          (status, m) \<Rightarrow>
                            if status \<noteq> GSH_NATIVE_PLAN_OK
                            then Some (status, cleanup_expansion_failure subs m)
                            else expansion_loop steps subs m)
                     else expansion_loop steps subs m))))"

text \<open>The status, the context and the pipeline; with \<open>GSH_NATIVE_PLAN_OK\<close> also where the expanded
  word begins in the text and its length.\<close>

definition expand_static_word ::
  "'a substitutions \<Rightarrow> byte list \<Rightarrow> gsh_word_ref \<Rightarrow> gsh_native_expansion_context \<Rightarrow>
    gsh_expansion_mode \<Rightarrow> nat \<Rightarrow> gsh_native_pipeline \<Rightarrow>
    (gsh_native_plan_status \<times> gsh_native_expansion_context \<times> gsh_native_pipeline \<times> nat \<times> nat) option" where
  "expand_static_word subs input word context mode depth pipeline =
    (if ref_end word < ref_begin word \<or> 32 < depth
     then Some (GSH_NATIVE_PLAN_UNSUPPORTED, context, pipeline, 0, 0)
     else
       (case request_expansion_word
          \<lparr>xm_input = input, xm_context = context, xm_pipeline = pipeline, xm_frames = [],
           xm_request = None, xm_child_ready = False, xm_child_begin = 0, xm_child_length = 0\<rparr>
          word mode depth of
          (False, m) \<Rightarrow> Some (GSH_NATIVE_PLAN_LIMIT, context, pipeline, 0, 0)
        | (True, m) \<Rightarrow>
            map_option (\<lambda>(status, m). (status, xm_context m, xm_pipeline m, xm_child_begin m, xm_child_length m))
              (expansion_loop EXPANSION_MACHINE_STEP_CAP subs m)))"

section \<open>The arguments\<close>

definition expand_pathname_field ::
  "'a substitutions \<Rightarrow> gsh_native_expansion_context \<Rightarrow> gsh_native_pipeline \<Rightarrow> gsh_expanded_field \<Rightarrow>
    gsh_native_plan_status \<times> gsh_native_pipeline \<times> nat list" where
  "expand_pathname_field subs context pipeline field =
    (if \<not> xf_has_pattern field then (GSH_NATIVE_PLAN_OK, pipeline, [xf_text field])
     else sub_pathnames subs context pipeline field)"

fun append_fields ::
  "'a substitutions \<Rightarrow> gsh_native_expansion_context \<Rightarrow> gsh_native_pipeline \<Rightarrow> gsh_expanded_field list \<Rightarrow>
    nat list \<Rightarrow> gsh_native_plan_status \<times> gsh_native_pipeline \<times> nat list" where
  "append_fields subs context pipeline [] expanded = (GSH_NATIVE_PLAN_OK, pipeline, expanded)"
| "append_fields subs context pipeline (field # rest) expanded =
    (case expand_pathname_field subs context pipeline field of
       (status, pipeline, paths) \<Rightarrow>
         if status \<noteq> GSH_NATIVE_PLAN_OK then (status, pipeline, expanded)
         else if GSH_NATIVE_ARGUMENT_CAP - length expanded < length paths
         then (GSH_NATIVE_PLAN_LIMIT, pipeline, expanded)
         else append_fields subs context pipeline rest (expanded @ paths))"

definition append_expanded_word ::
  "'a substitutions \<Rightarrow> byte list \<Rightarrow> gsh_word_ref \<Rightarrow> gsh_native_expansion_context \<Rightarrow> gsh_native_pipeline \<Rightarrow>
    nat list \<Rightarrow>
    (gsh_native_plan_status \<times> gsh_native_expansion_context \<times> gsh_native_pipeline \<times> nat list) option" where
  "append_expanded_word subs input word context pipeline expanded =
    (let expanded_begin = np_text_used pipeline
     in case expand_static_word subs input word context GSH_EXPAND_FIELDS 0 pipeline of
          None \<Rightarrow> None
        | Some (status, context, pipeline, word_text, expanded_length) \<Rightarrow>
            if status \<noteq> GSH_NATIVE_PLAN_OK then Some (status, context, pipeline, expanded)
            else
              (case split_expanded_word (Some context) pipeline expanded_begin expanded_length of
                 (status, pipeline, found) \<Rightarrow>
                   if status \<noteq> GSH_NATIVE_PLAN_OK then Some (status, context, pipeline, expanded)
                   else
                     (case append_fields subs context pipeline found expanded of
                        (status, pipeline, expanded) \<Rightarrow> Some (status, context, pipeline, expanded))))"

fun expand_each_word ::
  "'a substitutions \<Rightarrow> byte list \<Rightarrow> gsh_word_ref list \<Rightarrow> gsh_native_expansion_context \<Rightarrow>
    gsh_native_pipeline \<Rightarrow> nat list \<Rightarrow>
    (gsh_native_plan_status \<times> gsh_native_expansion_context \<times> gsh_native_pipeline \<times> nat list) option" where
  "expand_each_word subs input [] context scratch expanded =
    Some (GSH_NATIVE_PLAN_OK, context, scratch, expanded)"
| "expand_each_word subs input (word # words) context scratch expanded =
    (case append_expanded_word subs input word context scratch expanded of
       None \<Rightarrow> None
     | Some (status, context, scratch, expanded) \<Rightarrow>
         if status \<noteq> GSH_NATIVE_PLAN_OK then Some (status, context, scratch, expanded)
         else expand_each_word subs input words context scratch expanded)"

definition gsh_native_expand_words ::
  "'a substitutions \<Rightarrow> byte list \<Rightarrow> gsh_word_ref list \<Rightarrow> gsh_native_expansion_context \<Rightarrow>
    gsh_native_pipeline \<Rightarrow>
    (gsh_native_plan_status \<times> gsh_native_expansion_context \<times> gsh_native_pipeline \<times> nat list) option" where
  "gsh_native_expand_words subs input words context scratch =
    (let scratch = scratch\<lparr>np_text_used := 0\<rparr>
     in if GSH_NATIVE_ARGUMENT_CAP < length words then Some (GSH_NATIVE_PLAN_LIMIT, context, scratch, [])
        else expand_each_word subs input words context scratch [])"

section \<open>What the scan of a word appends\<close>

definition put :: "gsh_native_pipeline \<Rightarrow> word_byte \<Rightarrow> gsh_native_pipeline" where
  "put p x = (write_byte p (np_text_used p) x)\<lparr>np_text_used := np_text_used p + 1\<rparr>"

definition append_bytes :: "gsh_native_pipeline \<Rightarrow> word_byte list \<Rightarrow> gsh_native_pipeline" where
  "append_bytes p xs = foldl put p xs"

lemma append_bytes_simps [simp]:
  "append_bytes p [] = p" "append_bytes p (x # xs) = append_bytes (put p x) xs"
  "append_bytes p (xs @ ys) = append_bytes (append_bytes p xs) ys"
  by (simp_all add: append_bytes_def)

lemma put_used [simp]: "np_text_used (put p x) = np_text_used p + 1"
  by (simp add: put_def)

lemma put_ok [simp]: "buffer_ok (put p x) = buffer_ok p"
  by (simp add: put_def write_byte_def buffer_ok_def)

lemma append_bytes_used [simp]: "np_text_used (append_bytes p xs) = np_text_used p + length xs"
  by (induction xs arbitrary: p) simp_all

lemma append_bytes_ok [simp]: "buffer_ok (append_bytes p xs) = buffer_ok p"
  by (induction xs arbitrary: p) simp_all

lemma span_used [simp]: "word_span (p\<lparr>np_text_used := u\<rparr>) b e = word_span p b e"
  by (simp add: word_span_def)

lemma append_bytes_span:
  assumes "buffer_ok p" "f \<le> np_text_used p" "np_text_used p + length xs \<le> GSH_NATIVE_TEXT_CAP"
  shows "word_span (append_bytes p xs) f (np_text_used p + length xs) = word_span p f (np_text_used p) @ xs"
  using assms
proof (induction xs arbitrary: p)
  case (Cons x xs)
  have "word_span (append_bytes (put p x) xs) f (np_text_used (put p x) + length xs) =
      word_span (put p x) f (np_text_used (put p x)) @ xs"
    using Cons.prems by (intro Cons.IH) simp_all
  moreover have "word_span (put p x) f (np_text_used p + 1) = word_span p f (np_text_used p) @ [x]"
    unfolding put_def using write_end[OF Cons.prems(1,2)] Cons.prems(3) by simp
  ultimately show ?case by simp
qed simp

lemma reserve_marked_put:
  assumes "buffer_ok p" "np_text_used p < GSH_NATIVE_TEXT_CAP"
  shows "reserve_marked p byte provenance = (True, put p (byte, provenance))"
  using assms by (simp add: reserve_marked_def reserve_byte_def put_def write_byte_def buffer_ok_def)

lemma reserve_byte_put:
  assumes "np_text_used p < GSH_NATIVE_TEXT_CAP"
  shows "reserve_byte p byte = (True, put p (byte, 0))"
  using assms by (simp add: reserve_byte_def put_def write_byte_def)

text \<open>The machine and the frame of a command word, at an offset of the input.\<close>

definition word_machine ::
  "byte list \<Rightarrow> gsh_native_expansion_context \<Rightarrow> 'a expansion_word_frame list \<Rightarrow> gsh_native_pipeline \<Rightarrow>
    'a expansion_machine" where
  "word_machine input cx frames p =
    \<lparr>xm_input = input, xm_context = cx, xm_pipeline = p, xm_frames = frames, xm_request = None,
     xm_child_ready = False, xm_child_begin = 0, xm_child_length = 0\<rparr>"

definition word_frame :: "gsh_word_ref \<Rightarrow> nat \<Rightarrow> nat \<Rightarrow> expansion_quote \<Rightarrow> 'a expansion_word_frame" where
  "word_frame word begin_at offset quote =
    \<lparr>wf_word = word, wf_mode = GSH_EXPAND_FIELDS, wf_logical_depth = 0, wf_offset = offset,
     wf_expanded_begin = begin_at, wf_quote = quote, wf_continuation = None, wf_complete = False\<rparr>"

lemma word_machine_simps [simp]:
  "xm_input (word_machine input cx frames p) = input"
  "xm_context (word_machine input cx frames p) = cx"
  "xm_pipeline (word_machine input cx frames p) = p"
  "set_text (word_machine input cx frames p) q = word_machine input cx frames q"
  by (simp_all add: word_machine_def set_text_def)

lemma word_frame_simps [simp]:
  "wf_word (word_frame word b off q) = word" "wf_mode (word_frame word b off q) = GSH_EXPAND_FIELDS"
  "wf_offset (word_frame word b off q) = off" "wf_quote (word_frame word b off q) = q"
  "(word_frame word b off q)\<lparr>wf_offset := off'\<rparr> = word_frame word b off' q"
  "(word_frame word b off q)\<lparr>wf_quote := q'\<rparr> = word_frame word b off q'"
  by (simp_all add: word_frame_def)

lemma put_byte_room:
  "buffer_ok p \<Longrightarrow> np_text_used p < GSH_NATIVE_TEXT_CAP \<Longrightarrow>
    put_byte byte provenance (word_machine input cx frames p) f =
    (GSH_NATIVE_PLAN_OK, word_machine input cx frames (put p (byte, provenance)), f)"
  by (simp add: put_byte_def reserve_marked_put)

lemma put_marker_room:
  "buffer_ok p \<Longrightarrow> np_text_used p < GSH_NATIVE_TEXT_CAP \<Longrightarrow>
    put_empty_marker (word_machine input cx frames p) (word_frame word b off q) =
    (GSH_NATIVE_PLAN_OK, word_machine input cx frames (put p (NUL, 6)), word_frame word b off q)"
  by (simp add: put_empty_marker_def reserve_empty_marker_def reserve_marked_put)

lemma word_frame_step:
  assumes "off < ref_end word"
    "expand_word_byte subs (word_machine input cx frames p) (word_frame word b off q) =
      (GSH_NATIVE_PLAN_OK, word_machine input cx frames p', word_frame word b off' q')"
  shows "expand_word_frame subs (word_machine input cx frames p) (word_frame word b off q) =
    expand_word_frame subs (word_machine input cx frames p') (word_frame word b off' q')"
  by (subst expand_word_frame.simps) (simp add: assms)

text \<open>A byte with no meaning for the expansion, and the beginning of a quoted text.\<close>

definition inert_byte :: "byte \<Rightarrow> bool" where
  "inert_byte b \<longleftrightarrow> b \<notin> {QUOTE, DQUOTE, BSLASH, CHR ''$'', CHR ''~'', BQUOTE}"

lemma inert_step:
  assumes "off < ref_end word" "inert_byte (input ! off)" "buffer_ok p" "np_text_used p < GSH_NATIVE_TEXT_CAP"
  shows "expand_word_frame subs (word_machine input cx frames p) (word_frame word b off EXPANSION_QUOTE_NONE) =
    expand_word_frame subs (word_machine input cx frames (put p (input ! off, 0)))
      (word_frame word b (off + 1) EXPANSION_QUOTE_NONE)"
  using assms by (intro word_frame_step)
    (auto simp: expand_word_byte_def expand_unquoted_byte_def inert_byte_def put_byte_room)

lemma drop_ConsD: "drop off xs = x # ys \<Longrightarrow> xs ! off = x \<and> drop (Suc off) xs = ys"
  by (metis Cons_nth_drop_Suc drop_eq_Nil list.distinct(1) list.inject not_less)

lemma inert_run:
  assumes "drop off input = w @ rest" "off + length w \<le> ref_end word" "list_all inert_byte w"
    "buffer_ok p" "np_text_used p + length w \<le> GSH_NATIVE_TEXT_CAP"
  shows "expand_word_frame subs (word_machine input cx frames p) (word_frame word b off EXPANSION_QUOTE_NONE) =
    expand_word_frame subs
      (word_machine input cx frames (append_bytes p (map (\<lambda>c. (c, 0)) w)))
      (word_frame word b (off + length w) EXPANSION_QUOTE_NONE)"
  using assms
proof (induction w arbitrary: off p)
  case (Cons c w)
  have c: "input ! off = c" "drop (off + 1) input = w @ rest"
    using Cons.prems(1) by (auto dest: drop_ConsD)
  have "expand_word_frame subs (word_machine input cx frames p) (word_frame word b off EXPANSION_QUOTE_NONE) =
      expand_word_frame subs (word_machine input cx frames (put p (c, 0)))
        (word_frame word b (off + 1) EXPANSION_QUOTE_NONE)"
    using inert_step[of off word input p] Cons.prems c(1) by simp
  also have "\<dots> = expand_word_frame subs
      (word_machine input cx frames (append_bytes (put p (c, 0)) (map (\<lambda>c. (c, 0)) w)))
      (word_frame word b (off + 1 + length w) EXPANSION_QUOTE_NONE)"
    using Cons.prems c(2) by (intro Cons.IH) simp_all
  finally show ?case by simp
qed simp

text \<open>The bytes of a value that was written in single quotes: a quote of its own is left by closing
  them, and opening them again leaves a marker.\<close>

fun quoted_bytes :: "byte list \<Rightarrow> word_byte list" where
  "quoted_bytes [] = []"
| "quoted_bytes (c # v) = (if c = QUOTE then [(QUOTE, 2), (NUL, 6)] else [(c, 2)]) @ quoted_bytes v"

lemma quoted_bytes_length: "length (quoted_bytes v) = length v + count_list v QUOTE"
  by (induction v) simp_all

lemma quote_body_run:
  assumes "drop off input = quote_body v @ QUOTE # rest" "off + length (quote_body v) < ref_end word"
    "buffer_ok p" "np_text_used p + length (quoted_bytes v) \<le> GSH_NATIVE_TEXT_CAP"
  shows "expand_word_frame subs (word_machine input cx frames p) (word_frame word b off EXPANSION_QUOTE_SINGLE) =
    expand_word_frame subs
      (word_machine input cx frames (append_bytes p (quoted_bytes v)))
      (word_frame word b (off + length (quote_body v) + 1) EXPANSION_QUOTE_NONE)"
  using assms
proof (induction v arbitrary: off p)
  case Nil
  then have "input ! off = QUOTE" by (auto dest: drop_ConsD)
  with Nil have "expand_word_frame subs (word_machine input cx frames p)
      (word_frame word b off EXPANSION_QUOTE_SINGLE) =
    expand_word_frame subs (word_machine input cx frames p)
      (word_frame word b (off + 1) EXPANSION_QUOTE_NONE)"
    by (intro word_frame_step) (simp_all add: expand_word_byte_def expand_single_quoted_byte_def)
  then show ?case by simp
next
  case (Cons c v)
  let ?run = "\<lambda>p off q. expand_word_frame subs (word_machine input cx frames p) (word_frame word b off q)"
  show ?case
  proof (cases "c = QUOTE")
    case True
    then have "drop off input = QUOTE # BSLASH # QUOTE # QUOTE # quote_body v @ QUOTE # rest"
      using Cons.prems(1) by simp
    then have i: "input ! off = QUOTE" "input ! (off + 1) = BSLASH" "input ! Suc (Suc off) = QUOTE"
      "input ! Suc (Suc (Suc off)) = QUOTE" "drop (Suc (Suc (Suc (Suc off)))) input = quote_body v @ QUOTE # rest"
      by (auto dest!: drop_ConsD)
    have room: "Suc (Suc (Suc (Suc off))) + length (quote_body v) < ref_end word"
      "np_text_used p + 2 + length (quoted_bytes v) \<le> GSH_NATIVE_TEXT_CAP"
      using Cons.prems(2,4) True by simp_all
    have "?run p off EXPANSION_QUOTE_SINGLE = ?run p (off + 1) EXPANSION_QUOTE_NONE"
      using i(1) room by (intro word_frame_step) (simp_all add: expand_word_byte_def expand_single_quoted_byte_def)
    also have "\<dots> = ?run (put p (QUOTE, 2)) (Suc (Suc (Suc off))) EXPANSION_QUOTE_NONE"
      using i(2,3) room Cons.prems(3)
      by (intro word_frame_step)
        (simp_all add: expand_word_byte_def expand_unquoted_byte_def put_byte_room Let_def)
    also have "\<dots> = ?run (put (put p (QUOTE, 2)) (NUL, 6)) (Suc (Suc (Suc (Suc off)))) EXPANSION_QUOTE_SINGLE"
      using i(4) room Cons.prems(3)
      by (intro word_frame_step)
        (simp_all add: expand_word_byte_def expand_unquoted_byte_def put_marker_room Let_def)
    also have "\<dots> = ?run (append_bytes (put (put p (QUOTE, 2)) (NUL, 6)) (quoted_bytes v))
        (Suc (Suc (Suc (Suc off))) + length (quote_body v) + 1) EXPANSION_QUOTE_NONE"
      using i(5) room Cons.prems(3) by (intro Cons.IH) simp_all
    finally show ?thesis by (simp add: True)
  next
    case False
    then have "drop off input = c # quote_body v @ QUOTE # rest" using Cons.prems(1) by simp
    then have i: "input ! off = c" "drop (off + 1) input = quote_body v @ QUOTE # rest"
      by (auto dest!: drop_ConsD)
    have "?run p off EXPANSION_QUOTE_SINGLE = ?run (put p (c, 2)) (off + 1) EXPANSION_QUOTE_SINGLE"
      using i(1) False Cons.prems(2-4)
      by (intro word_frame_step) (simp_all add: expand_word_byte_def expand_single_quoted_byte_def put_byte_room)
    also have "\<dots> = ?run (append_bytes (put p (c, 2)) (quoted_bytes v))
        (off + 1 + length (quote_body v) + 1) EXPANSION_QUOTE_NONE"
      using i(2) False Cons.prems(2-4) by (intro Cons.IH) simp_all
    finally show ?thesis using False by simp
  qed
qed

section \<open>A printed definition expanded\<close>

definition printed_bytes :: "byte list \<Rightarrow> byte list \<Rightarrow> word_byte list" where
  "printed_bytes name v = map (\<lambda>c. (c, 0)) (name @ ''='') @ (NUL, 6) # quoted_bytes v"

lemma printed_bytes_length: "length (printed_bytes name v) = length name + 2 + length v + count_list v QUOTE"
  by (simp add: printed_bytes_def quoted_bytes_length)

lemma printed_frame:
  assumes "drop (ref_begin word) input = name @ CHR ''='' # shell_quote v @ rest"
    "ref_end word = ref_begin word + length name + 1 + length (shell_quote v)"
    "list_all inert_byte name" "buffer_ok p"
    "np_text_used p + length (printed_bytes name v) < GSH_NATIVE_TEXT_CAP"
  shows "expand_word_frame subs (word_machine input cx frames p)
      (word_frame word b (ref_begin word) EXPANSION_QUOTE_NONE) =
    Some (GSH_NATIVE_PLAN_OK, word_machine input cx frames (append_bytes p (printed_bytes name v)),
      (word_frame word b (ref_end word) EXPANSION_QUOTE_NONE)\<lparr>wf_complete := True\<rparr>)"
proof -
  let ?run = "\<lambda>p off q. expand_word_frame subs (word_machine input cx frames p) (word_frame word b off q)"
  let ?pre = "name @ ''=''" and ?p = "append_bytes p (map (\<lambda>c. (c, 0)) (name @ ''=''))"
  let ?off = "ref_begin word + length ?pre"
  have len: "length (shell_quote v) = length (quote_body v) + 2" by (simp add: shell_quote_def)
  have room: "np_text_used p + length name + length (quoted_bytes v) + 2 < GSH_NATIVE_TEXT_CAP"
    using assms(5) by (simp add: printed_bytes_def)
  have plain: "?run p (ref_begin word) EXPANSION_QUOTE_NONE = ?run ?p ?off EXPANSION_QUOTE_NONE"
    by (rule inert_run[of _ _ _ "shell_quote v @ rest"])
      (use assms(1-4) room in \<open>simp_all add: inert_byte_def\<close>)
  have "drop ?off input = QUOTE # quote_body v @ QUOTE # rest"
    using arg_cong[OF assms(1), of "drop (length ?pre)"] by (simp add: shell_quote_def add.commute)
  then have i: "input ! ?off = QUOTE" "drop (?off + 1) input = quote_body v @ QUOTE # rest"
    by (auto dest!: drop_ConsD)
  have "?run ?p ?off EXPANSION_QUOTE_NONE = ?run (put ?p (NUL, 6)) (?off + 1) EXPANSION_QUOTE_SINGLE"
    using i(1) assms(2,4) len room
    by (intro word_frame_step) (simp_all add: expand_word_byte_def expand_unquoted_byte_def put_marker_room Let_def)
  also have "\<dots> = ?run (append_bytes (put ?p (NUL, 6)) (quoted_bytes v))
      (?off + 1 + length (quote_body v) + 1) EXPANSION_QUOTE_NONE"
    using i(2) assms(2,4) len room by (intro quote_body_run) simp_all
  also have "?off + 1 + length (quote_body v) + 1 = ref_end word" using assms(2) len by simp
  finally have "?run p (ref_begin word) EXPANSION_QUOTE_NONE =
      ?run (append_bytes (put ?p (NUL, 6)) (quoted_bytes v)) (ref_end word) EXPANSION_QUOTE_NONE"
    using plain by simp
  moreover have "append_bytes (put ?p (NUL, 6)) (quoted_bytes v) = append_bytes p (printed_bytes name v)"
    by (simp add: printed_bytes_def)
  moreover have "?run q (ref_end word) EXPANSION_QUOTE_NONE = Some (GSH_NATIVE_PLAN_OK,
      word_machine input cx frames q, (word_frame word b (ref_end word) EXPANSION_QUOTE_NONE)\<lparr>wf_complete := True\<rparr>)" for q
    by (subst expand_word_frame.simps) simp
  ultimately show ?thesis by simp
qed

lemma printed_word_expands:
  assumes "drop (ref_begin word) input = name @ CHR ''='' # shell_quote v @ rest"
    "ref_end word = ref_begin word + length name + 1 + length (shell_quote v)"
    "list_all inert_byte name" "buffer_ok p"
    "np_text_used p + length (printed_bytes name v) < GSH_NATIVE_TEXT_CAP"
  shows "expand_static_word subs input word cx GSH_EXPAND_FIELDS 0 p =
    Some (GSH_NATIVE_PLAN_OK, cx, put (append_bytes p (printed_bytes name v)) (NUL, 0),
      np_text_used p, length (printed_bytes name v))"
proof -
  let ?f = "word_frame word (np_text_used p) (ref_begin word) EXPANSION_QUOTE_NONE :: 'a expansion_word_frame"
  let ?q = "append_bytes p (printed_bytes name v)"
  let ?m = "(word_machine input cx [] p)\<lparr>xm_request := Some (word, GSH_EXPAND_FIELDS, 0)\<rparr> :: 'a expansion_machine"
  have order: "ref_begin word \<le> ref_end word" using assms(2) by simp
  have push: "push_expansion_frame ?m = (GSH_NATIVE_PLAN_OK, word_machine input cx [?f] p)"
    using order assms(5) by (simp add: push_expansion_frame_def word_machine_def word_frame_def)
  have request: "request_expansion_word (word_machine input cx [] p) word GSH_EXPAND_FIELDS 0 = (True, ?m)"
    using order by (simp add: request_expansion_word_def word_machine_def)
  let ?g = "(word_frame word (np_text_used p) (ref_end word) EXPANSION_QUOTE_NONE :: 'a expansion_word_frame)\<lparr>wf_complete := True\<rparr>"
  let ?final = "\<lparr>xm_input = input, xm_context = cx, xm_pipeline = put ?q (NUL, 0), xm_frames = [],
    xm_request = None, xm_child_ready = True, xm_child_begin = np_text_used p,
    xm_child_length = length (printed_bytes name v)\<rparr> :: 'a expansion_machine"
  have complete: "complete_expansion_frame ((word_machine input cx [?f] ?q)\<lparr>xm_frames := [?g]\<rparr>) =
      (GSH_NATIVE_PLAN_OK, ?final)"
    using assms(5) by (simp add: complete_expansion_frame_def word_machine_def word_frame_def reserve_byte_put set_text_def Let_def)
  have steps: "expansion_loop (Suc (Suc (Suc n))) subs ?m = Some (GSH_NATIVE_PLAN_OK, ?final)" for n
  proof -
    have "expansion_loop (Suc (Suc (Suc n))) subs ?m = expansion_loop (Suc (Suc n)) subs (word_machine input cx [?f] p)"
      using push by simp
    also have "\<dots> = expansion_loop (Suc n) subs ?final"
      using printed_frame[OF assms, of subs cx "[?f]" "np_text_used p"] complete
      by (simp add: word_machine_def word_frame_def)
    finally show ?thesis by simp
  qed
  have "expansion_loop EXPANSION_MACHINE_STEP_CAP subs ?m = Some (GSH_NATIVE_PLAN_OK, ?final)"
    using steps[of 4194301] by (simp only: numeral_eq_Suc[of "num.One"] Suc_numeral add_num_simps)
  with request order show ?thesis
    unfolding expand_static_word_def word_machine_def[symmetric] by simp
qed

text \<open>Bytes that split nowhere are one field.\<close>

lemma fields_from_unsplit:
  "\<forall>x \<in> set w. \<not> expanded_delimiter ifs x \<and> snd x AND GSH_WORD_FIELD_BOUNDARY = 0 \<Longrightarrow> cur \<noteq> [] \<Longrightarrow>
    fields_from ifs cur q w = [cur @ segment_bytes w]"
proof (induction w arbitrary: cur q)
  case (Cons x w)
  then show ?case by (simp add: fields_from.simps(2) segment_bytes_def)
qed (simp add: segment_bytes_def)

lemma quoted_bytes_facts:
  "\<forall>x \<in> set (quoted_bytes v). snd x = 2 \<or> snd x = 6" "map fst (segment_bytes (quoted_bytes v)) = v"
  by (induction v) (auto simp: segment_bytes_def)

lemma printed_bytes_facts:
  "map fst (segment_bytes (printed_bytes name v)) = name @ CHR ''='' # v"
  "\<forall>x \<in> set (printed_bytes name v). \<not> expanded_delimiter ifs x \<and> snd x AND GSH_WORD_FIELD_BOUNDARY = 0"
  "\<forall>x \<in> set (printed_bytes name v). snd x AND GSH_WORD_QUOTED = 0 \<longrightarrow> fst x \<in> set (name @ ''='')"
  using quoted_bytes_facts[of v]
  by (auto simp: printed_bytes_def segment_bytes_def expanded_delimiter_def comp_def)

lemma printed_fields:
  assumes "name \<noteq> []"
  shows "word_fields ifs (printed_bytes name v) = [segment_bytes (printed_bytes name v)]"
proof -
  obtain c w where w: "printed_bytes name v = (c, 0) # w" using assms by (cases name) (auto simp: printed_bytes_def)
  have "\<forall>x \<in> set w. \<not> expanded_delimiter ifs x \<and> snd x AND GSH_WORD_FIELD_BOUNDARY = 0"
    using printed_bytes_facts(2)[of name v ifs] by (simp add: w)
  from fields_from_unsplit[OF this, of "[(c, 0)]" False] show ?thesis
    by (simp add: w word_fields_def fields_from.simps(2) expanded_delimiter_def segment_bytes_def)
qed

lemma alias_byte_facts:
  assumes "alias_byte b"
  shows "plain_word_byte b" "inert_byte b" "b \<noteq> CHR ''=''" "b \<noteq> CHR ''#''" "b \<notin> {CHR ''*'', CHR ''?'', CHR ''[''}"
    "b \<noteq> NUL"
  using assms
  by (auto simp: alias_byte_def byte_class_defs plain_word_byte_def inert_byte_def blank_byte_def
      operator_byte_def less_eq_char_def)

text \<open>The C string at an offset of the text.\<close>

definition text_at :: "gsh_native_pipeline \<Rightarrow> nat \<Rightarrow> byte list" where
  "text_at p offset = takeWhile (\<lambda>b. b \<noteq> NUL) (drop offset (np_text p))"

lemma field_rep_text_at:
  assumes "field_rep p x f" "buffer_ok p" "NUL \<notin> set (map fst f)"
  shows "text_at p (xf_text x) = map fst f"
proof -
  let ?e = "xf_text x + xf_length x"
  have e: "?e < length (np_text p)" "np_text p ! ?e = NUL"
    using assms(1,2) unfolding field_rep_def buffer_ok_def by auto
  have "slice (np_text p) (xf_text x) ?e = map fst f"
    using field_rep_text[OF assms(1,2)] by (simp add: field_text_def)
  then have "drop (xf_text x) (np_text p) = map fst f @ NUL # drop (Suc ?e) (np_text p)"
    using e by (simp add: slice_def) (metis (no_types, lifting) Cons_nth_drop_Suc add.commute append_take_drop_id drop_drop)
  moreover have "takeWhile (\<lambda>b. b \<noteq> NUL) (map fst f @ ys) = map fst f @ takeWhile (\<lambda>b. b \<noteq> NUL) ys" for ys
    by (rule takeWhile_append2) (use assms(3) in blast)
  ultimately show ?thesis by (simp add: text_at_def)
qed

lemma printed_word_appended:
  assumes "drop (ref_begin word) input = name @ CHR ''='' # shell_quote v @ rest"
    "ref_end word = ref_begin word + length name + 1 + length (shell_quote v)"
    "gsh_alias_name_is_valid name" "NUL \<notin> set v" "buffer_ok p"
    "np_text_used p + length (printed_bytes name v) < GSH_NATIVE_TEXT_CAP"
    "expansion_field_separator (Some cx) = (GSH_NATIVE_PLAN_OK, ifs)"
    "length expanded < GSH_NATIVE_ARGUMENT_CAP"
  shows "\<exists>q offset. append_expanded_word subs input word cx p expanded =
      Some (GSH_NATIVE_PLAN_OK, cx, q, expanded @ [offset]) \<and> text_at q offset = name @ CHR ''='' # v"
proof -
  let ?xs = "printed_bytes name v"
  let ?p = "put (append_bytes p ?xs) (NUL, 0)" and ?b = "np_text_used p"
  have letters: "name \<noteq> []" "\<forall>b \<in> set name. alias_byte b"
    using assms(3) by (simp_all add: gsh_alias_name_is_valid_def list_all_iff)
  have inert: "list_all inert_byte name" using letters(2) alias_byte_facts(2) by (auto simp: list_all_iff)
  note word = printed_word_expands[OF assms(1,2) inert assms(5,6), of subs cx]
  have span: "word_span ?p ?b (?b + length ?xs) = ?xs"
    using append_bytes_span[OF assms(5), of ?b ?xs] assms(6) by (simp add: put_def write_outside)
  obtain status q xs where split: "split_expanded_word (Some cx) ?p ?b (length ?xs) = (status, q, xs)"
    by (metis prod_cases3)
  have "status = GSH_NATIVE_PLAN_OK \<and> fields_stand q ?b xs [segment_bytes ?xs] \<and> buffer_ok q"
    using splitting_refines_core[OF _ _ assms(7) split] assms(5,6) span printed_fields[OF letters(1), of ifs v]
    by (simp split: if_splits)
  then obtain x where x: "status = GSH_NATIVE_PLAN_OK" "xs = [x]" "field_rep q x (segment_bytes ?xs)" "buffer_ok q"
    by (auto simp: fields_stand_def list_all2_Cons2)
  have "\<not> magic_byte y" if "y \<in> set (segment_bytes ?xs)" for y
    using that printed_bytes_facts(3)[of name v] letters(2) alias_byte_facts(5)
    by (auto simp: segment_bytes_def magic_byte_def)
  then have "\<not> xf_has_pattern x" using x(3) by (simp add: field_rep_def list_ex_iff)
  moreover have "text_at q (xf_text x) = name @ CHR ''='' # v"
    using field_rep_text_at[OF x(3,4)] letters(2) alias_byte_facts(6) assms(4)
    by (auto simp: printed_bytes_facts(1))
  ultimately show ?thesis
    using word split x(1,2) assms(8)
    by (intro exI[of _ q] exI[of _ "xf_text x"]) (simp add: append_expanded_word_def expand_pathname_field_def)
qed

section \<open>Properties\<close>

text \<open>C11. The line \<open>alias\<close> prints for a definition can be given back to the shell as the operand of a
  command, whatever quotes, blanks, operators or newlines the value holds: the lexer reads the line
  up to its newline as one word, and the expansion of that command word appends exactly one argument
  to those before it, the name and the value byte for byte, whatever \<open>IFS\<close> holds. The argument has
  to fit: the name, the value, one byte for each of its quotes and three more in what is left of the
  16384 bytes of the expander's text, and fewer than 128 arguments before it.\<close>

theorem alias_line_round_trip:
  assumes "sink_ok io" "gsh_alias_name_is_valid name" "NUL \<notin> set v" "count_list v QUOTE < 32768"
    "write_definition io (name @ CHR ''='' # v) = (True, io')"
    "buffer_ok pipeline" "expansion_field_separator (Some cx) = (GSH_NATIVE_PLAN_OK, ifs)"
    "np_text_used pipeline + length name + length v + count_list v QUOTE + 3 \<le> GSH_NATIVE_TEXT_CAP"
    "length expanded < GSH_NATIVE_ARGUMENT_CAP"
  shows "\<exists>word l t pipeline' offset.
    sink_content io' = sink_content io @ word @ [NL] \<and>
    gsh_lexer_next (gsh_lexer_init (word @ NL # r)) t0 = (LEX_OK, l, t) \<and> tok_kind t = TOKEN_WORD \<and>
    tok_begin t = 0 \<and> tok_end t = length word \<and>
    append_expanded_word subs (word @ NL # r) \<lparr>ref_begin = tok_begin t, ref_end = tok_end t\<rparr> cx pipeline expanded =
      Some (GSH_NATIVE_PLAN_OK, cx, pipeline', expanded @ [offset]) \<and>
    text_at pipeline' offset = name @ CHR ''='' # v"
proof -
  let ?word = "name @ CHR ''='' # shell_quote v"
  have letters: "name \<noteq> []" "\<forall>b \<in> set name. alias_byte b"
    using assms(2) by (simp_all add: gsh_alias_name_is_valid_def list_all_iff)
  then have name: "list_all plain_word_byte name" "hd name \<noteq> CHR ''#''" "CHR ''='' \<notin> set name"
    using alias_byte_facts by (auto simp: list_all_iff)
  obtain l t where token: "gsh_lexer_next (gsh_lexer_init (?word @ NL # r)) t0 = (LEX_OK, l, t)"
    "tok_kind t = TOKEN_WORD" "tok_begin t = 0" "tok_end t = length ?word"
    using lexer_reads_quoted[OF name(1) letters(1) name(2) assms(3) refl] by blast
  have "sink_content io' = sink_content io @ ?word @ [NL]"
    using write_definition_spec[OF assms(1) name(3) assms(4,5)] by simp
  moreover have "np_text_used pipeline + length (printed_bytes name v) < GSH_NATIVE_TEXT_CAP"
    using assms(8) by (simp add: printed_bytes_length)
  with printed_word_appended[of "\<lparr>ref_begin = tok_begin t, ref_end = tok_end t\<rparr>" "?word @ NL # r" name v "NL # r"
      pipeline cx ifs expanded subs] token(3,4) assms(2,3,6,7,9)
  obtain q offset where "append_expanded_word subs (?word @ NL # r) \<lparr>ref_begin = tok_begin t, ref_end = tok_end t\<rparr>
      cx pipeline expanded = Some (GSH_NATIVE_PLAN_OK, cx, q, expanded @ [offset])"
    "text_at q offset = name @ CHR ''='' # v" by auto
  ultimately show ?thesis using token by blast
qed

definition sample_context :: gsh_native_expansion_context where
  "sample_context = \<lparr>cx_environment = None, cx_variable_state = None, cx_deferred_work = None,
    cx_nounset = False, cx_preflight = False\<rparr>"

theorem alias_line_round_trip_witness:
  "\<exists>io' word l t pipeline' offset. write_definition sample_sink ''ll=ls 'x' ;'' = (True, io') \<and>
    sink_content io' = word @ [NL] \<and>
    gsh_lexer_next (gsh_lexer_init (word @ NL # [])) undefined = (LEX_OK, l, t) \<and> tok_end t = length word \<and>
    append_expanded_word (undefined :: unit substitutions) (word @ NL # []) \<lparr>ref_begin = 0, ref_end = length word\<rparr>
      sample_context (word_pipeline []) [] = Some (GSH_NATIVE_PLAN_OK, sample_context, pipeline', [offset]) \<and>
    text_at pipeline' offset = ''ll=ls 'x' ;''"
proof -
  obtain ok io' where w: "write_definition sample_sink (''ll'' @ CHR ''='' # ''ls 'x' ;'') = (ok, io')"
    by fastforce
  have ok: "ok"
    using write_definition_spec[OF sample_sink_ok(1) _ _ w] by (simp add: shell_quote_length sample_sink_ok)
  have ifs: "expansion_field_separator (Some sample_context) = (GSH_NATIVE_PLAN_OK, [CHR '' '', TAB, NL])"
    by (simp add: expansion_field_separator_def lookup_variable_def sample_context_def)
  have "np_text_used (word_pipeline []) = 0" by (simp add: word_pipeline_def)
  moreover have "gsh_alias_name_is_valid ''ll''"
    by (simp add: gsh_alias_name_is_valid_def alias_byte_def byte_class_defs)
  ultimately show ?thesis
    using alias_line_round_trip[OF sample_sink_ok(1), of "''ll''" "''ls 'x' ;''" io' "word_pipeline []" sample_context
        "[CHR '' '', TAB, NL]" "[]" "[]" undefined undefined] w ok ifs sample_sink_ok(2) word_pipeline_ok[of "[]"]
    by fastforce
qed

end
