(* ===== verification/Spec2Isabelle.thy ===== *)
theory Spec2Isabelle
  imports MachineSafety Options AliasBuiltins History CommandCache JobProperties ArithmeticCorrect AliasExpansion TrapSignals WordExpansion
begin

text \<open>
  A model of the core of gsh, a POSIX shell written in C, and of what makes it correct.

  \<^bold>\<open>The program.\<close> gsh reads a line, parses it into a tree held in fixed arrays, and runs the tree.
  Everything the shell remembers between lines lives in fixed-size stores: the job table, the
  aliases, the variables, the command history, the cache of command paths, the options, the
  positional parameters. The stores are plain data, so that a forked child can change a copy and send its
  changes back in a journal. The development models the parser and these stores as the C code
  has them, and of the expansion of words (\<open>src/native_plan.c\<close>) the access to variables, the
  arithmetic, field splitting and the machine that expands a command word; the driver (\<open>src/gsh.c\<close>), the execution of trees and the terminal are system calls
  around them and are not modelled.

  \<^bold>\<open>Conventions.\<close> Bytes are \<open>char\<close>, C strings are lists of bytes without the final NUL, buffers
  are lists with it. An array with a count is the list of its used part, so a capacity check
  compares the length of the list; where the code keeps a fixed buffer with an offset (history,
  positional parameters, journal, output buffer) the whole buffer is a list of its C size. A
  \<open>uint32_t\<close> or \<open>uint64_t\<close> whose wrap-around the code can meet is a word; \<open>size_t\<close> values bounded by
  a capacity are naturals. A function that sets \<open>errno\<close> and returns -1 returns \<open>Inl\<close> of the error or
  an \<open>errno option\<close>, with the state it leaves behind. Guards against null pointers and the
  internal \<open>require\<close> checks of such pointers have no counterpart: no value of the model is null.

  \<^bold>\<open>The theories.\<close>
  \<^item> \<open>GshPrelude\<close>: bytes, errors, slices and copies, and the lemmas on them the components share.
  \<^item> \<open>Lexer\<close> (\<open>src/posix_lexer.c\<close>): the lexer state, the scanner of words with its stack of 64
    contexts, and \<open>gsh_lexer_next\<close>. Its lemmas give the exact effect of a call (which text is
    skipped, where it stops, what the token says), maximal munch, and that errors are final.
  \<^item> \<open>ParserState\<close>, \<open>ParserMachine\<close>, \<open>Heredoc\<close>, \<open>Parser\<close> (\<open>src/posix_parser.c\<close>): the arenas for
    nodes, words and redirections; the syntax machine, a stack of at most 2048 frames with one step
    function per production; tokenizing, which also collects the bodies of here-documents; and
    \<open>gsh_parse\<close>. \<open>TokenStream\<close> shows what tokenizing produces, \<open>ParserSafety\<close> that every parser
    operation keeps the arenas well formed, within their capacities, and every span inside the input, and \<open>MachineSafety\<close> lifts this to the steps of the
    machine, its runs and the result of \<open>gsh_parse\<close>. \<open>ParserRuns\<close> evaluates the parser on two
    texts, for the witnesses.
  \<^item> \<open>BackgroundJobs\<close>, \<open>JobTable\<close>, \<open>JobReach\<close>, \<open>JobProperties\<close> (\<open>src/background_jobs.c\<close>): the job
    table and the status of a pipeline. The locale \<open>collector\<close> states what it means that reports
    may come in any order and is interpreted on pipelines and on the table; \<open>job_reach\<close> is the
    inductive set of tables the operations lead to, and its invariant is proved by rule induction.
  \<^item> \<open>HashIndex\<close>: the open-addressing index that the alias store, the command cache (256 slots) and
    the variable store (2048 slots) share, with the contract \<open>name_index\<close> (an insert is found again, a name that was never
    inserted is not) interpreted on the probing loops.
  \<^item> \<open>Aliases\<close>, \<open>AliasJournal\<close> (\<open>src/shell_aliases.c\<close>): the store with its packed text, which
    refines a map from names to values, and the journal of alias operations with the contract
    \<open>op_journal\<close>, by which replaying a journal repeats the run it recorded.
  \<^item> \<open>PackedText\<close>: entries packed one behind the other in one text, the locale \<open>moving_entries\<close>,
    interpreted on the entries of the variable store and of its journal. \<open>Variables\<close>,
    \<open>VariableJournal\<close> (\<open>src/shell_variables.c\<close>): the store with attributes and value generations,
    which refines a map from names to variables, and the journal by which a child's assignments
    are replayed in the parent.
  \<^item> \<open>NativeVariables\<close> (\<open>src/native_plan.c\<close>): how an expansion reads and assigns variables: in the
    store itself, in a journal over it, or in the scope of a pipeline's command.
  \<^item> \<open>ArithmeticValues\<close>, \<open>Arithmetic\<close>, \<open>ArithmeticMachine\<close> (\<open>src/native_plan.c\<close>): constants and
    checked operators on \<open>long\<close>, the lexical helpers and atoms, and the pushdown machine that
    evaluates an expression. \<open>ArithmeticSafety\<close> shows that the machine keeps its invariant and
    ends, by a potential that every step lowers. \<open>ArithmeticSyntax\<close> has expressions as trees, with
    their text and their value; \<open>ArithmeticReading\<close> and \<open>ArithmeticTargets\<close> say what the operations
    of the parser find in such a text, and \<open>ArithmeticCorrect\<close> that the machine computes the value
    of the tree, level by level.
  \<^item> \<open>AliasExpansion\<close> (\<open>src/alias_expansion.c\<close>): the replacement of command words by their aliases
    between parses. The probe has the text and the regions that came from replacements. The
    reference \<open>alias_step\<close> is a step on the probe and the mark a value ending in a blank leaves:
    it replaces the word \<open>next_word\<close> finds, the first word in command position, or else the
    first marked one, that names an alias not being expanded around it, and is deterministic. The
    lemmas show that a run of the code is the run of the reference, that the text is expanded when
    no step is left, and that the regions stay inside the text and nest.
  \<^item> \<open>Traps\<close>, \<open>TrapSignals\<close> (\<open>src/shell_traps.c\<close>): the trap store with its packed actions, which
    refines a map from conditions to settings, the dispositions of the process, the reports of the
    signal handler, and the snapshot of a subshell. \<open>trap_reach\<close> is the inductive set of states
    that operations and deliveries lead to.
  \<^item> \<open>FieldSplitting\<close> (\<open>src/native_plan.c\<close>): the splitting of an expanded word into fields, in place
    in the buffer of the pipeline, equal to a reference on lists of bytes with their provenance.
  \<^item> \<open>WordExpansion\<close> (\<open>src/native_plan.c\<close>): how a command word becomes arguments: the stack of
    word frames, quotes, backslashes and the tilde byte by byte, the marks a byte carries to field
    splitting, and the arguments appended. With \<open>Quoting\<close> and \<open>Lexer\<close> it shows that what \<open>alias\<close>
    prints is read back.
  \<^item> \<open>BuiltinSink\<close> (\<open>src/builtin_common.c\<close>): the bounded output buffer, with the contract
    \<open>bounded_sink\<close>. \<open>Quoting\<close> (\<open>src/builtin_alias.c\<close>, \<open>src/builtin_set.c\<close>): the writers of
    re-readable assignments, and that the lexer reads what they write as one word. \<open>AliasBuiltins\<close> (\<open>src/builtin_alias.c\<close>, \<open>src/builtin_unalias.c\<close>): the
    two builtins over store, journal and output.
  \<^item> \<open>History\<close> (\<open>src/history_store.c\<close>): the ring of 1024 commands and its searches.
  \<^item> \<open>CommandCache\<close> (\<open>src/command_cache.c\<close>): the PATH search and the cache in front of it.
  \<^item> \<open>Positionals\<close>, \<open>Options\<close> (\<open>src/positional_parameters.c\<close>, \<open>src/shell_options.c\<close>).

  \<^bold>\<open>Bounds and fuel.\<close> Loops that the code bounds by a counter keep the counter and the error the
  code reports when it runs out: the lexer's trivia loop, the token loop (4096 tokens), the
  syntax machine (\<open>PARSE_MACHINE_STEP_CAP\<close> steps), the arithmetic machine
  (\<open>ARITHMETIC_MACHINE_STEP_CAP\<close> steps, never used up on a text within the cap), the lines of a here-document, the PATH
  components. The expansion of a word has
  \<open>EXPANSION_MACHINE_STEP_CAP\<close> steps; the loop over the bytes of a frame is a partial function,
  because its end rests on the substitutions, which move the offset. All other loops terminate by a measure on the input. Nothing is cut off by a bound
  of the model's own.

  \<^bold>\<open>Parameters.\<close> What the file system answers when a path is tested for being executable is the
  parameter \<open>exec\<close> of \<open>CommandCache\<close>; the signals for which \<open>sigaction\<close> fails are \<open>refuse\<close> of
  \<open>Traps\<close>. In \<open>WordExpansion\<close>
  the substitutions behind \<open>$\<close> and the backquote, the resumption of a frame that waits for one, and
  the matching of path names are the record \<open>substitutions\<close> of functions, of which nothing is
  assumed. The C library functions \<open>strtoul\<close>, \<open>strstr\<close>, \<open>strcmp\<close> and the
  macros that read a wait status are written out as the standard and Linux define them.

  \<^bold>\<open>Not modelled.\<close> The driver, the execution of trees, terminal input and output, the builtins
  that are mostly system calls, the assistant, and the stores for functions and configuration. Of \<open>src/native_plan.c\<close>, parameter expansion and command substitution themselves,
  pathname patterns and the execution of pipelines are not modelled; the arithmetic theorems are
  about texts of at most 16384 bytes (\<open>GSH_NATIVE_TEXT_CAP\<close>), which \<open>resume_arithmetic_expansion\<close>
  ensures, while \<open>expand_arithmetic\<close> hands an expression without substitutions to the parser
  straight from the source text, where a longer one is possible. Of \<open>src/builtin_common.c\<close> only the buffer sink is modelled, without the
  asynchronous cell that can stand in its place.
\<close>

end
